(* ===== verification/Lisk_Prelude.thy ===== *)
theory Lisk_Prelude
  imports Main "HOL-Library.Word"
begin

text \<open>
  Shared vocabulary of the development: the integer types of \<open>lisk_type.h\<close>, the
  arithmetic of C on them, the outcome of an allocation, and the generic lemmas on lists,
  options and words that the component theories rely on.

  \<^item> \<open>u1\<close>, \<open>u2\<close>, \<open>u4\<close>, \<open>u8\<close> are the unsigned types of the library as words of that width.
  \<^item> Where a structure keeps an unsigned count that the code only compares and adds, the model
    keeps the number as a \<open>nat\<close> below \<open>2 ^ 32\<close> and writes every C operation that can wrap
    around with \<open>u4_add\<close>, \<open>u4_sub\<close>, \<open>u4_mul\<close>.
  \<^item> \<open>n8_wrap\<close> is the two's complement value of a signed 64 bit expression.
  \<^item> A pointer that may be \<open>nil\<close> is an \<open>option\<close>; \<open>ALLOC\<close> is asked through a predicate
    \<open>mal\<close> on the requested size, so that every out-of-memory branch is a branch of the model.
  \<^item> A return code is an \<open>int\<close>, as the code returns it.
\<close>

unbundle bit_operations_syntax

section \<open>Types\<close>

type_synonym u1 = "8 word"
type_synonym u2 = "16 word"
type_synonym u4 = "32 word"
type_synonym u8 = "64 word"
type_synonym n4 = int
type_synonym allocator = "nat \<Rightarrow> bool"

named_theorems c_arith \<open>C arithmetic that does not wrap around\<close>
named_theorems c_defs \<open>definitions of the operations of a component\<close>

section \<open>Unsigned 32 bit arithmetic on naturals\<close>

definition u4_add :: "nat \<Rightarrow> nat \<Rightarrow> nat" where
  "u4_add a b = (a + b) mod 2 ^ 32"

definition u4_sub :: "nat \<Rightarrow> nat \<Rightarrow> nat" where
  "u4_sub a b = (a + (2 ^ 32 - b mod 2 ^ 32)) mod 2 ^ 32"

definition u4_mul :: "nat \<Rightarrow> nat \<Rightarrow> nat" where
  "u4_mul a b = (a * b) mod 2 ^ 32"

lemma u4_add_small [c_arith]: "a + b < 2 ^ 32 \<Longrightarrow> u4_add a b = a + b"
  by (simp add: u4_add_def)

lemma u4_mul_small [c_arith]: "a * b < 2 ^ 32 \<Longrightarrow> u4_mul a b = a * b"
  by (simp add: u4_mul_def)

lemma u4_sub_small [c_arith]:
  assumes "b \<le> a" "a < 2 ^ 32"
  shows "u4_sub a b = a - b"
proof -
  have "a + (2 ^ 32 - b mod 2 ^ 32) = (a - b) + 2 ^ 32"
    using assms by simp
  then have "u4_sub a b = (a - b) mod 2 ^ 32"
    by (simp only: u4_sub_def mod_add_self2)
  then show ?thesis using assms by simp
qed

lemma u4_add_less [simp]: "u4_add a b < 2 ^ 32"
  by (simp add: u4_add_def)

lemma u4_mul_less [simp]: "u4_mul a b < 2 ^ 32"
  by (simp add: u4_mul_def)

lemma u4_sub_less [simp]: "u4_sub a b < 2 ^ 32"
  by (simp add: u4_sub_def)

section \<open>Signed 64 bit arithmetic on integers\<close>

definition n8_wrap :: "int \<Rightarrow> int" where
  "n8_wrap x = (x + 2 ^ 63) mod 2 ^ 64 - 2 ^ 63"

definition n8_rem :: "int \<Rightarrow> int \<Rightarrow> int" where
  "n8_rem a b = sgn a * (\<bar>a\<bar> mod \<bar>b\<bar>)"

abbreviation N8_MAX :: int where
  "N8_MAX \<equiv> 9223372036854775807"

lemma n8_wrap_id [c_arith]:
  assumes "- 9223372036854775808 \<le> x" "x < 9223372036854775808"
  shows "n8_wrap x = x"
proof -
  have "(x + 2 ^ 63) mod 2 ^ 64 = x + 2 ^ 63"
    using assms by (intro mod_pos_pos_trivial) auto
  then show ?thesis by (simp add: n8_wrap_def)
qed

lemma n8_rem_pos [c_arith]: "0 \<le> a \<Longrightarrow> 0 < b \<Longrightarrow> n8_rem a b = a mod b"
  by (cases "a = 0") (simp_all add: n8_rem_def)

lemma n8_wrap_max: "n8_wrap (N8_MAX + 1) = - (2 ^ 63)"
  by (simp add: n8_wrap_def)

section \<open>Lists\<close>

lemma nth_list_update_split:
  "i < length xs \<Longrightarrow> xs[i := v] = take i xs @ v # drop (Suc i) xs"
  by (rule upd_conv_take_nth_drop)

lemma map_nth_upt_take: "n \<le> length xs \<Longrightarrow> map ((!) xs) [0..<n] = take n xs"
  by (simp add: map_nth [symmetric] take_map [symmetric] list_eq_iff_nth_eq)

section \<open>Byte memory\<close>

text \<open>
  A block of memory is the list of its bytes (or of its cells). \<open>mem_write\<close> and \<open>mem_read\<close> are
  \<open>memmove\<close> into and out of a block; an access that leaves the block is \<open>None\<close>, so that a
  theorem which gives \<open>Some\<close> also says that the access stays inside.
\<close>

definition mem_write :: "nat \<Rightarrow> 'a list \<Rightarrow> 'a list \<Rightarrow> 'a list option" where
  "mem_write off src dst =
     (if off + length src \<le> length dst
      then Some (take off dst @ src @ drop (off + length src) dst) else None)"

definition mem_read :: "nat \<Rightarrow> nat \<Rightarrow> 'a list \<Rightarrow> 'a list option" where
  "mem_read off n src = (if off + n \<le> length src then Some (take n (drop off src)) else None)"

lemma mem_write_length: "mem_write off src dst = Some dst' \<Longrightarrow> length dst' = length dst"
  by (auto simp: mem_write_def split: if_splits)

lemma mem_write_in: "off + length src \<le> length dst \<Longrightarrow> \<exists>dst'. mem_write off src dst = Some dst'"
  by (simp add: mem_write_def)

lemma mem_write_nth:
  assumes "mem_write off src dst = Some dst'" "i < length dst"
  shows "dst' ! i = (if off \<le> i \<and> i < off + length src then src ! (i - off) else dst ! i)"
  using assms by (auto simp: mem_write_def nth_append min_def split: if_splits)

lemma mem_read_same:
  "mem_write off src dst = Some dst' \<Longrightarrow> take (length src) (drop off dst') = src"
  by (auto simp: mem_write_def split: if_splits)

lemma mem_read_other:
  assumes "mem_write off src dst = Some dst'" "i + n \<le> off \<or> off + length src \<le> i"
    "i + n \<le> length dst"
  shows "take n (drop i dst') = take n (drop i dst)"
proof (rule nth_equalityI)
  show "length (take n (drop i dst')) = length (take n (drop i dst))"
    using mem_write_length [OF assms(1)] by simp
next
  fix j assume "j < length (take n (drop i dst'))"
  then have "j < n" by simp
  then show "take n (drop i dst') ! j = take n (drop i dst) ! j"
    using assms mem_write_length [OF assms(1)]
    by (auto simp: mem_write_nth [OF assms(1)])
qed

section \<open>Words\<close>

lemma unat_and_pred_pow2:
  assumes "k < LENGTH('a)"
  shows "unat (x AND (2 ^ k - 1) :: 'a::len word) = unat x mod 2 ^ k"
proof -
  have "x AND (2 ^ k - 1) = take_bit k x"
    by (simp add: take_bit_eq_mask mask_eq_exp_minus_1)
  then show ?thesis by (simp only: unsigned_take_bit_eq) (simp only: take_bit_eq_mod)
qed

lemma unat_add_nat: "unat (x + of_nat n :: 'a::len word) = (unat x + n) mod 2 ^ LENGTH('a)"
  by (simp add: unat_word_ariths unat_of_nat mod_simps)

lemma of_nat_unat_diff: "y + of_nat (unat (x - y)) = (x :: 'a::len word)"
  by simp

lemma unat_pow2: "k < LENGTH('a) \<Longrightarrow> unat (2 ^ k :: 'a::len word) = 2 ^ k"
proof -
  assume "k < LENGTH('a)"
  then have "unat (word_of_nat (2 ^ k) :: 'a word) = 2 ^ k"
    by (simp only: unat_of_nat) simp
  then show ?thesis by simp
qed

lemma word_eq_pow2: "k < LENGTH('a) \<Longrightarrow> unat x = 2 ^ k \<Longrightarrow> x = (2 ^ k :: 'a::len word)"
  by (simp add: unat_pow2 word_unat_eq_iff)

end
