(* ===== verification/Lisk_Math.thy ===== *)
theory Lisk_Math
  imports Lisk_Prelude
begin

text \<open>
  The arithmetic helpers of \<open>win_lisk/src/lisk_math.c\<close>: the primality test and the prime
  search that size the hash tables, the rounding to a power of two that sizes vectors and
  strings, exponentiation by squaring, the xor swaps, and the byte order conversions.

  Signed 64 bit values are integers with \<open>n8_wrap\<close> where the C expression can leave the
  range; unsigned ones are words.
\<close>

section \<open>Definitions\<close>

subsection \<open>Primes\<close>

function is_num_prime_loop :: "int \<Rightarrow> int \<Rightarrow> int" where
  "is_num_prime_loop num idx =
     (if idx < num then
        if num < n8_wrap (idx * idx) then 0
        else if n8_rem num idx = 0 then - 1
        else if n8_wrap (6 * idx + 1) < num \<and> n8_rem num (n8_wrap (6 * idx + 1)) = 0 then - 1
        else if n8_wrap (6 * idx - 1) < num \<and> n8_rem num (n8_wrap (6 * idx - 1)) = 0 then - 1
        else is_num_prime_loop num (idx + 1)
      else 0)"
  by pat_completeness auto
termination
  by (relation "measure (\<lambda>(num, idx). nat (num - idx))") auto

declare is_num_prime_loop.simps [simp del]

definition is_num_prime :: "int \<Rightarrow> n4" where
  "is_num_prime num =
     (if num < 2 \<or> n8_rem num 2 = 0 \<or> n8_rem num 3 = 0 then - 1
      else is_num_prime_loop num 3)"

function next_prime_loop :: "int \<Rightarrow> int \<Rightarrow> int" where
  "next_prime_loop num prime =
     (if num < prime \<and> prime \<le> N8_MAX then
        if is_num_prime prime = 0 then prime
        else if prime = N8_MAX then n8_wrap (prime + 1)
        else next_prime_loop num (prime + 1)
      else prime)"
  by pat_completeness auto
termination
  by (relation "measure (\<lambda>(num, prime). nat (N8_MAX - prime))") auto

declare next_prime_loop.simps [simp del]

text \<open>
  \<open>next_prime\<close>: the loop counter is a signed 64 bit value, so the increment after \<open>N8_MAX\<close>
  gives the least value, which fails the guard \<open>num < prime\<close> and leads to the result \<open>-1\<close>.
\<close>

definition next_prime :: "int \<Rightarrow> int" where
  "next_prime num =
     (let num = (if num < 0 then 3 else num);
          prime = next_prime_loop num (n8_wrap (num + 1))
      in if prime \<le> num then - 1 else prime)"

text \<open>
  \<open>get_prime_arr\<close> fills an array through a pointer; the model returns the code and the values
  written. \<open>None\<close> is the null array.
\<close>

fun get_prime_arr_loop :: "nat \<Rightarrow> int \<Rightarrow> int list \<Rightarrow> int \<times> int list" where
  "get_prime_arr_loop 0 cur arr = (cur, arr)"
| "get_prime_arr_loop (Suc k) cur arr =
     (let cur = next_prime cur
      in if cur = - 1 then (- 1, arr) else get_prime_arr_loop k cur (arr @ [cur]))"

definition get_prime_arr :: "int \<Rightarrow> int \<Rightarrow> bool \<Rightarrow> int \<times> int list" where
  "get_prime_arr max_num prime_num arr_ok =
     (if max_num < 1 \<or> prime_num < 1 \<or> \<not> arr_ok then (- 1, [])
      else get_prime_arr_loop (nat prime_num) max_num [])"

subsection \<open>Powers\<close>

definition is_pow_of_2 :: "u8 \<Rightarrow> n4" where
  "is_pow_of_2 x = (if x AND (x - 1) = 0 then 0 else 1)"

definition next_pow_of_2 :: "u8 \<Rightarrow> u8" where
  "next_pow_of_2 x =
     (if is_pow_of_2 x = 0 then x
      else let x = x OR drop_bit 1 x;
               x = x OR drop_bit 2 x;
               x = x OR drop_bit 4 x;
               x = x OR drop_bit 8 x;
               x = x OR drop_bit 16 x
           in x + 1)"

text \<open>
  \<open>qintpow\<close> works on 32 bit integers; a word carries the bits of the C value. The loops run on
  the exponent read as a natural number, which a logical shift halves.
\<close>

function qintpow_skip :: "u4 \<Rightarrow> nat \<Rightarrow> u4 \<times> nat" where
  "qintpow_skip x n =
     (if n \<noteq> 0 \<and> n mod 2 = 0 then qintpow_skip (x * x) (n div 2) else (x, n))"
  by pat_completeness auto
termination
  by (relation "measure snd") auto

function qintpow_loop :: "u4 \<Rightarrow> nat \<Rightarrow> u4 \<Rightarrow> u4" where
  "qintpow_loop x n result =
     (if n \<noteq> 0 then
        let x = x * x;
            result = (if n mod 2 \<noteq> 0 then result * x else result)
        in qintpow_loop x (n div 2) result
      else result)"
  by pat_completeness auto
termination
  by (relation "measure (\<lambda>(x, n, r). n)") auto

declare qintpow_skip.simps [simp del] qintpow_loop.simps [simp del]

definition qintpow :: "u4 \<Rightarrow> u4 \<Rightarrow> u4" where
  "qintpow x n =
     (if n = 0 then 1
      else let (x, n) = qintpow_skip x (unat n)
           in qintpow_loop x (n div 2) x)"

subsection \<open>Swaps\<close>

text \<open>
  The swaps go through pointers, so they are modelled on a memory of cells: aliasing decides
  what they do.
\<close>

definition swap2B :: "nat \<Rightarrow> nat \<Rightarrow> (nat \<Rightarrow> u2) \<Rightarrow> nat \<Rightarrow> u2" where
  "swap2B a b m =
     (let m = m(a := m a XOR m b); m = m(b := m a XOR m b) in m(a := m a XOR m b))"

definition swap4B :: "nat \<Rightarrow> nat \<Rightarrow> (nat \<Rightarrow> u4) \<Rightarrow> nat \<Rightarrow> u4" where
  "swap4B a b m =
     (let m = m(a := m a XOR m b); m = m(b := m a XOR m b) in m(a := m a XOR m b))"

definition swap8B :: "nat \<Rightarrow> nat \<Rightarrow> (nat \<Rightarrow> u8) \<Rightarrow> nat \<Rightarrow> u8" where
  "swap8B a b m =
     (let m = m(a := m a XOR m b); m = m(b := m a XOR m b) in m(a := m a XOR m b))"

text \<open>The byte loop of \<open>_swap\<close>, \<open>idx\<close> counting up while \<open>k\<close> bytes remain.\<close>

fun swap_bytes_loop :: "nat \<Rightarrow> nat \<Rightarrow> nat \<Rightarrow> nat \<Rightarrow> (nat \<Rightarrow> u1) \<Rightarrow> nat \<Rightarrow> u1" where
  "swap_bytes_loop 0 idx v0 v1 m = m"
| "swap_bytes_loop (Suc k) idx v0 v1 m =
     (let c0 = v0 + idx; c1 = v1 + idx;
          m = m(c0 := m c0 XOR m c1); m = m(c1 := m c0 XOR m c1);
          m = m(c0 := m c0 XOR m c1)
      in swap_bytes_loop k (Suc idx) v0 v1 m)"

definition swap_mem :: "nat option \<Rightarrow> nat option \<Rightarrow> int \<Rightarrow> (nat \<Rightarrow> u1) \<Rightarrow> n4 \<times> (nat \<Rightarrow> u1)" where
  "swap_mem p0 p1 len m =
     (case (p0, p1) of
        (Some v0, Some v1) \<Rightarrow>
          if len \<le> 0 then (- 1, m)
          else if (v0 \<le> v1 \<and> v1 \<le> v0 + nat len - 1) \<or> (v1 \<le> v0 \<and> v0 \<le> v1 + nat len - 1)
          then (- 1, m)
          else (0, swap_bytes_loop (nat len) 0 v0 v1 m)
      | _ \<Rightarrow> (- 1, m))"

text \<open>
  The macro \<open>SWAP\<close> dispatches on the size of its arguments; there is no case for one byte, so
  \<open>SWAP\<close> of two bytes leaves them as they are. The conversions apply it to the bytes of the
  value.
\<close>

definition SWAP_bytes :: "nat \<Rightarrow> nat \<Rightarrow> u1 list \<Rightarrow> u1 list" where
  "SWAP_bytes i j bs =
     (let sizeof_cell = (1::nat)
      in if sizeof_cell \<in> {2, 4, 8, 12} then bs[i := bs ! j, j := bs ! i] else bs)"

definition hton2 :: "u1 list \<Rightarrow> u1 list" where
  "hton2 val = SWAP_bytes 0 1 val"

definition hton4 :: "u1 list \<Rightarrow> u1 list" where
  "hton4 val = SWAP_bytes 1 2 (SWAP_bytes 0 3 val)"

definition hton8 :: "u1 list \<Rightarrow> u1 list" where
  "hton8 val = SWAP_bytes 3 4 (SWAP_bytes 2 5 (SWAP_bytes 1 6 (SWAP_bytes 0 7 val)))"

definition ntoh2 :: "u1 list \<Rightarrow> u1 list" where
  "ntoh2 val = hton2 val"

definition ntoh4 :: "u1 list \<Rightarrow> u1 list" where
  "ntoh4 val = hton4 val"

definition ntoh8 :: "u1 list \<Rightarrow> u1 list" where
  "ntoh8 val = hton8 val"

subsection \<open>Specification\<close>

definition prime_num :: "int \<Rightarrow> bool" where
  "prime_num p \<longleftrightarrow> 1 < p \<and> (\<forall>d. 1 < d \<and> d < p \<longrightarrow> \<not> d dvd p)"

text \<open>The largest argument for which \<open>idx * idx\<close> stays within the signed range.\<close>

abbreviation prime_bound :: int where
  "prime_bound \<equiv> 3037000499 * 3037000499"

section \<open>Primality\<close>

lemma composite_small_divisor:
  assumes "1 < n" "\<not> prime_num n"
  obtains d where "1 < d" "d * d \<le> n" "d dvd n"
proof -
  from assms obtain d where d: "1 < d" "d < n" "d dvd n"
    by (auto simp: prime_num_def)
  then obtain e where e: "n = d * e" by blast
  with d assms have e1: "1 < e"
    by (smt (verit) mult_cancel_left2 mult_le_0_iff)
  show thesis
  proof (cases "d \<le> e")
    case True
    with d e have "d * d \<le> n" by (simp add: mult_left_mono)
    with d show thesis by (blast intro: that)
  next
    case False
    with e e1 have "e * e \<le> n" by (simp add: mult_right_mono)
    with e e1 show thesis by (intro that [of e]) auto
  qed
qed

lemma not_prime_if_divisor: "1 < d \<Longrightarrow> d < n \<Longrightarrow> d dvd n \<Longrightarrow> \<not> prime_num n"
  by (auto simp: prime_num_def)

lemma is_num_prime_loop_correct:
  assumes "3 \<le> idx" "1 < num" "num < prime_bound" "(idx - 1) * (idx - 1) \<le> num"
    and "\<And>d. 1 < d \<Longrightarrow> d < idx \<Longrightarrow> \<not> d dvd num"
  shows "is_num_prime_loop num idx = (if prime_num num then 0 else - 1)"
  using assms
proof (induction num idx rule: is_num_prime_loop.induct)
  case (1 num idx)
  have "idx - 1 < 3037000499"
  proof (rule ccontr)
    assume "\<not> ?thesis"
    then have "3037000499 * 3037000499 \<le> (idx - 1) * (idx - 1)"
      by (intro mult_mono) auto
    with "1.prems" show False by linarith
  qed
  then have small: "idx \<le> 3037000499" by simp
  have "0 \<le> idx * idx" "idx * idx \<le> 3037000499 * 3037000499"
    using small "1.prems"(1) by (auto intro: mult_mono [of idx 3037000499 idx 3037000499, simplified])
  then have "n8_wrap (idx * idx) = idx * idx"
    by (intro n8_wrap_id) linarith+
  then have w: "n8_wrap (idx * idx) = idx * idx" "n8_wrap (6 * idx + 1) = 6 * idx + 1"
    "n8_wrap (6 * idx - 1) = 6 * idx - 1"
    using small "1.prems"(1) by (simp_all add: n8_wrap_id)
  have r: "n8_rem num k = num mod k" if "0 < k" for k
    using that "1.prems"(2) by (simp add: n8_rem_pos)
  show ?case
  proof (cases "idx < num")
    case False
    have "prime_num num"
      using False "1.prems"(2,5) by (auto simp: prime_num_def)
    with False show ?thesis by (simp add: is_num_prime_loop.simps [of num idx])
  next
    case less: True
    show ?thesis
    proof (cases "num < idx * idx")
      case True
      have "prime_num num"
      proof (rule ccontr)
        assume "\<not> prime_num num"
        with "1.prems"(2) obtain d where "1 < d" "d * d \<le> num" "d dvd num"
          by (rule composite_small_divisor)
        moreover from this True have "d < idx"
          using "1.prems"(1) by (smt (verit) mult_mono)
        ultimately show False using "1.prems"(5) by blast
      qed
      with less True w show ?thesis by (simp add: is_num_prime_loop.simps [of num idx])
    next
      case ge: False
      let ?hit = "\<lambda>k. k < num \<and> num mod k = 0"
      have comp: "\<not> prime_num num" if "?hit k" "1 < k" for k
        using that not_prime_if_divisor by blast
      show ?thesis
      proof (cases "num mod idx = 0 \<or> ?hit (6 * idx + 1) \<or> ?hit (6 * idx - 1)")
        case True
        then have "\<not> prime_num num"
          using less "1.prems"(1) comp [of idx] comp [of "6 * idx + 1"] comp [of "6 * idx - 1"]
          by auto
        with True less ge w "1.prems"(1) show ?thesis
          by (auto simp: is_num_prime_loop.simps [of num idx] r)
      next
        case False
        have nd: "\<not> d dvd num" if "1 < d" "d < idx + 1" for d
          using that False "1.prems"(5) [of d] by (cases "d = idx") auto
        have "is_num_prime_loop num (idx + 1) = (if prime_num num then 0 else - 1)"
        proof (rule "1.IH")
          show "idx < num" by (rule less)
          show "\<not> num < n8_wrap (idx * idx)" using ge w by simp
          show "n8_rem num idx \<noteq> 0" using False r "1.prems"(1) by simp
          show "\<not> (n8_wrap (6 * idx + 1) < num \<and> n8_rem num (n8_wrap (6 * idx + 1)) = 0)"
            using False w r "1.prems"(1) by simp
          show "\<not> (n8_wrap (6 * idx - 1) < num \<and> n8_rem num (n8_wrap (6 * idx - 1)) = 0)"
            using False w r "1.prems"(1) by simp
        qed (use "1.prems" ge nd in auto)
        with False less ge w r "1.prems"(1) show ?thesis
          by (subst is_num_prime_loop.simps) auto
      qed
    qed
  qed
qed

lemma is_num_prime_iff:
  assumes "num < prime_bound"
  shows "is_num_prime num = (if prime_num num \<and> 3 < num then 0 else - 1)"
proof (cases "num < 2 \<or> num mod 2 = 0 \<or> num mod 3 = 0")
  case True
  moreover have "\<not> (prime_num num \<and> 3 < num)"
  proof
    assume p: "prime_num num \<and> 3 < num"
    with True have "2 dvd num \<or> 3 dvd num" by auto
    with p show False
      using not_prime_if_divisor [of 2 num] not_prime_if_divisor [of 3 num] by auto
  qed
  ultimately show ?thesis by (auto simp: is_num_prime_def n8_rem_pos)
next
  case False
  then have "num \<noteq> 2" "num \<noteq> 3" "\<not> num < 2" by auto
  then have ge: "3 < num" by simp
  have nd: "\<not> d dvd num" if "1 < d" "d < 3" for d
  proof -
    from that have "d = 2" by simp
    with False show ?thesis by auto
  qed
  have "is_num_prime_loop num 3 = (if prime_num num then 0 else - 1)"
    by (rule is_num_prime_loop_correct) (use ge assms nd in auto)
  with False ge show ?thesis by (auto simp: is_num_prime_def n8_rem_pos)
qed

text \<open>
  C29. The primality test answers 0 exactly for the primes above 3, for every argument whose
  square search stays within the signed 64 bit range (below \<open>3037000499\<close> squared). The
  primes 2 and 3 are rejected by the divisibility guards, so for them the code departs from
  its comment in \<open>lisk_math.h\<close>, which promises 0 for every prime.
\<close>

theorem is_num_prime_correct:
  assumes "num < prime_bound"
  shows "is_num_prime num = (if prime_num num \<and> 3 < num then 0 else - 1)"
  using assms by (rule is_num_prime_iff)

theorem is_num_prime_correct_witness:
  "(101::int) < prime_bound \<and> is_num_prime 101 = (if prime_num 101 \<and> (3::int) < 101 then 0 else - 1)"
  using is_num_prime_correct [of 101] by simp

lemma next_prime_loop_finds:
  assumes "num < prime" "prime \<le> q" "q \<le> N8_MAX" "is_num_prime q = 0"
  shows "prime \<le> next_prime_loop num prime \<and> next_prime_loop num prime \<le> q
    \<and> is_num_prime (next_prime_loop num prime) = 0"
  using assms
proof (induction num prime rule: next_prime_loop.induct)
  case (1 num prime)
  show ?case
  proof (cases "is_num_prime prime = 0")
    case True
    with "1.prems" show ?thesis by (simp add: next_prime_loop.simps [of num prime])
  next
    case False
    with "1.prems" have "prime \<noteq> q" by auto
    with "1.prems" have "prime < N8_MAX" "prime + 1 \<le> q" by auto
    with "1.IH" "1.prems" False show ?thesis
      by (auto simp: next_prime_loop.simps [of num prime])
  qed
qed

lemma next_prime_loop_sound:
  assumes "next_prime_loop num prime = r" "num < r" "- (2 ^ 63) \<le> num" "r \<le> N8_MAX"
  shows "is_num_prime r = 0"
  using assms
proof (induction num prime rule: next_prime_loop.induct)
  case (1 num prime)
  then show ?case
    by (auto simp: next_prime_loop.simps [of num prime] n8_wrap_def split: if_splits)
qed

text \<open>
  \<open>next_prime\<close> returns the least prime above its argument (and above 3): whenever some
  prime \<open>q\<close> with \<open>num < q\<close> and \<open>3 < q\<close> exists below the bound of the test, the search stops
  at a prime that is no greater than \<open>q\<close>.
\<close>

theorem next_prime_least:
  assumes "0 \<le> num" "num < q" "3 < q" "q < prime_bound" "prime_num q"
  shows "prime_num (next_prime num) \<and> num < next_prime num \<and> 3 < next_prime num
    \<and> next_prime num \<le> q"
proof -
  let ?r = "next_prime_loop num (num + 1)"
  have q: "is_num_prime q = 0"
    using assms is_num_prime_iff by simp
  have w: "n8_wrap (num + 1) = num + 1"
    using assms by (intro n8_wrap_id) auto
  have r: "num + 1 \<le> ?r" "?r \<le> q" "is_num_prime ?r = 0"
    using next_prime_loop_finds [of num "num + 1" q] assms q by auto
  then have "next_prime num = ?r"
    using assms w by (simp add: next_prime_def Let_def)
  moreover have "prime_num ?r \<and> 3 < ?r"
    using r(2,3) assms(4) is_num_prime_iff [of ?r] by (simp split: if_splits)
  ultimately show ?thesis using r by simp
qed

theorem next_prime_least_witness:
  "prime_num (next_prime 8) \<and> 8 < next_prime 8 \<and> 3 < next_prime 8 \<and> next_prime 8 \<le> 11"
proof -
  have "prime_num 11 \<and> (3::int) < 11"
  proof -
    have "is_num_prime 11 = 0" by code_simp
    with is_num_prime_iff [of 11] show ?thesis by (simp split: if_splits)
  qed
  with next_prime_least [of 8 11] show ?thesis by simp
qed

lemma next_prime_result:
  assumes "0 \<le> num" "num \<le> N8_MAX" "next_prime num \<noteq> - 1"
  shows "num < next_prime num" "next_prime num \<le> N8_MAX" "is_num_prime (next_prime num) = 0"
proof -
  let ?r = "next_prime_loop num (n8_wrap (num + 1))"
  have *: "prime \<le> N8_MAX \<Longrightarrow> next_prime_loop num prime \<le> N8_MAX" for prime
    by (induction num prime rule: next_prime_loop.induct)
      (auto simp: next_prime_loop.simps n8_wrap_def)
  have "n8_wrap (num + 1) \<le> N8_MAX"
    by (simp add: n8_wrap_def)
  then have r: "?r \<le> N8_MAX" by (rule *)
  moreover have n: "next_prime num = ?r" "num < ?r"
    using assms by (auto simp: next_prime_def Let_def split: if_splits)
  ultimately show "num < next_prime num" "next_prime num \<le> N8_MAX" by simp_all
  show "is_num_prime (next_prime num) = 0"
    using next_prime_loop_sound [OF refl n(2)] r n assms by simp
qed

lemma get_prime_arr_loop_spec:
  assumes "get_prime_arr_loop k cur arr = (r, out)" "r \<noteq> - 1" "0 \<le> cur" "cur \<le> N8_MAX"
    and "arr \<noteq> [] \<Longrightarrow> cur = last arr"
  shows "\<exists>new. out = arr @ new \<and> length new = k \<and> sorted_wrt (<) (cur # new)
    \<and> r = last (cur # new) \<and> (\<forall>p \<in> set new. is_num_prime p = 0)"
  using assms
proof (induction k cur arr rule: get_prime_arr_loop.induct)
  case (1 cur arr)
  then show ?case by simp
next
  case (2 k cur arr)
  let ?p = "next_prime cur"
  have np: "?p \<noteq> - 1"
    using "2.prems"(1,2) by (auto simp: Let_def)
  note p = next_prime_result [OF "2.prems"(3,4) np]
  from np "2.prems"(1) have "get_prime_arr_loop k ?p (arr @ [?p]) = (r, out)"
    by (simp add: Let_def)
  with "2.IH" [OF refl np] "2.prems"(2,3) p obtain new where new:
    "out = (arr @ [?p]) @ new" "length new = k" "sorted_wrt (<) (?p # new)"
    "r = last (?p # new)" "\<forall>p \<in> set new. is_num_prime p = 0"
    by auto
  then show ?case using p by (intro exI [of _ "?p # new"]) auto
qed

text \<open>
  \<open>get_prime_arr\<close>, when it succeeds, writes exactly \<open>prime_num\<close> entries, strictly
  increasing and all above \<open>max_num\<close>, each accepted by the primality test, and returns the
  last of them. (The header says that the entries are below \<open>max_num\<close>.)
\<close>

theorem get_prime_arr_spec:
  assumes "get_prime_arr max_num k True = (r, arr)" "r \<noteq> - 1" "max_num \<le> N8_MAX"
  shows "length arr = nat k \<and> sorted_wrt (<) (max_num # arr) \<and> r = last arr
    \<and> (\<forall>p \<in> set arr. is_num_prime p = 0)"
proof -
  from assms have h: "1 \<le> max_num" "1 \<le> k"
    and "get_prime_arr_loop (nat k) max_num [] = (r, arr)"
    by (auto simp: get_prime_arr_def split: if_splits)
  from get_prime_arr_loop_spec [OF this(3) assms(2)] h assms(3) obtain new where
    "arr = new" "length new = nat k" "sorted_wrt (<) (max_num # new)"
    "r = last (max_num # new)" "\<forall>p \<in> set new. is_num_prime p = 0"
    by auto
  with h show ?thesis by auto
qed

theorem get_prime_arr_spec_witness:
  "length [11, 13, 17::int] = nat 3 \<and> sorted_wrt (<) (10 # [11, 13, 17::int])
    \<and> (17::int) = last [11, 13, 17] \<and> (\<exists>p \<in> set [11, 13, 17]. is_num_prime p = 0)"
proof -
  have "get_prime_arr 10 3 True = (17, [11, 13, 17])" by code_simp
  from get_prime_arr_spec [OF this] show ?thesis by simp
qed

section \<open>Powers of two\<close>

lemma pow2_and_pred: "(2 ^ k :: 'a::len word) AND (2 ^ k - 1) = 0"
proof (rule bit_eqI)
  fix n
  have "(2 ^ k - 1 :: 'a word) = mask k"
    by (simp add: mask_eq_decr_exp)
  then show "bit ((2 ^ k :: 'a word) AND (2 ^ k - 1)) n = bit (0 :: 'a word) n"
    by (auto simp: bit_and_iff bit_exp_iff bit_mask_iff)
qed

lemma top_bit:
  fixes x :: "'a::len word"
  assumes "x \<noteq> 0"
  obtains k where "bit x k" "\<And>m. k < m \<Longrightarrow> \<not> bit x m" "k < LENGTH('a)"
proof -
  from assms obtain n where n: "bit x n"
    by (metis bit_eq_iff bit_0_eq bot_apply bot_bool_def)
  have fin: "finite {n. bit x n}"
    by (rule finite_subset [of _ "{..<LENGTH('a)}"]) (auto dest: bit_imp_le_length)
  define k where "k = Max {n. bit x n}"
  have "bit x k" unfolding k_def using Max_in [OF fin] n by blast
  moreover have "\<not> bit x m" if "k < m" for m
    using that Max_ge [OF fin, of m] unfolding k_def by fastforce
  ultimately show thesis using that bit_imp_le_length by blast
qed

lemma unat_bounds_top_bit:
  fixes x :: "'a::len word"
  assumes "bit x k" "\<And>m. k < m \<Longrightarrow> \<not> bit x m"
  shows "2 ^ k \<le> unat x" "unat x < 2 ^ Suc k"
proof -
  have "take_bit (Suc k) x = x"
    using assms(2) by (intro bit_eqI) (metis bit_take_bit_iff not_less_eq)
  then have "unat x = take_bit (Suc k) (unat x)"
    by (metis unsigned_take_bit_eq)
  then show "unat x < 2 ^ Suc k"
    by (metis take_bit_nat_less_exp)
  have "bit (unat x) k" using assms(1) by (simp add: bit_unsigned_iff)
  then have "odd (unat x div 2 ^ k)" by (simp add: bit_iff_odd)
  then have "unat x div 2 ^ k \<noteq> 0" by (intro notI) simp
  then show "2 ^ k \<le> unat x" by (simp add: div_eq_0_iff not_less)
qed

lemma smear_step:
  fixes x y :: "'a::len word"
  assumes "\<And>n. bit y n \<longleftrightarrow> (\<exists>j<k. bit x (n + j))"
  shows "bit (y OR drop_bit k y) n \<longleftrightarrow> (\<exists>j<k + k. bit x (n + j))"
proof -
  have "bit (y OR drop_bit k y) n \<longleftrightarrow> (\<exists>j<k. bit x (n + j)) \<or> (\<exists>j<k. bit x (n + (k + j)))"
    by (simp add: bit_or_iff bit_drop_bit_eq assms add_ac)
  also have "\<dots> \<longleftrightarrow> (\<exists>j<k + k. bit x (n + j))"
  proof
    assume "(\<exists>j<k. bit x (n + j)) \<or> (\<exists>j<k. bit x (n + (k + j)))"
    then show "\<exists>j<k + k. bit x (n + j)" by (metis add_strict_left_mono trans_less_add1)
  next
    assume "\<exists>j<k + k. bit x (n + j)"
    then obtain j where j: "j < k + k" "bit x (n + j)" by blast
    show "(\<exists>j<k. bit x (n + j)) \<or> (\<exists>j<k. bit x (n + (k + j)))"
    proof (cases "j < k")
      case False
      then have "j = k + (j - k)" "j - k < k" using j by auto
      with j show ?thesis by metis
    qed (use j in blast)
  qed
  finally show ?thesis .
qed

lemma bit_top_if_between:
  fixes x :: "'a::len word"
  assumes "2 ^ k \<le> unat x" "unat x < 2 ^ Suc k"
  shows "bit x k"
proof -
  have "unat x div 2 ^ k = 1"
    using assms by (intro div_nat_eqI) (simp_all add: mult.commute)
  then have "bit (unat x) k" by (simp add: bit_iff_odd)
  then show ?thesis by (simp add: bit_unsigned_iff)
qed

text \<open>The test \<open>x & (x - 1)\<close> accepts 0 and the powers of two, and nothing else.\<close>

lemma and_pred_eq_0_iff:
  fixes x :: "'a::len word"
  shows "x AND (x - 1) = 0 \<longleftrightarrow> x = 0 \<or> (\<exists>k < LENGTH('a). x = 2 ^ k)"
proof
  assume and0: "x AND (x - 1) = 0"
  show "x = 0 \<or> (\<exists>k < LENGTH('a). x = 2 ^ k)"
  proof (cases "x = 0")
    case False
    then obtain k where k: "bit x k" "\<And>m. k < m \<Longrightarrow> \<not> bit x m" "k < LENGTH('a)"
      by (rule top_bit) blast
    note b = unat_bounds_top_bit [OF k(1,2)]
    have "unat x = 2 ^ k"
    proof (rule ccontr)
      assume ne: "unat x \<noteq> 2 ^ k"
      have "unat (x - 1) = unat x - 1"
        using False by (simp add: unat_minus_one)
      with b ne have "2 ^ k \<le> unat (x - 1)" "unat (x - 1) < 2 ^ Suc k" by linarith+
      then have "bit (x - 1) k" by (rule bit_top_if_between)
      with k(1) have "bit (x AND (x - 1)) k" by (simp add: bit_and_iff)
      with and0 show False by simp
    qed
    then have "x = 2 ^ k"
      using k(3) by (intro word_eq_pow2) simp_all
    with k(3) show ?thesis by blast
  qed simp
qed (auto simp: pow2_and_pred)

lemma smear_all:
  fixes x :: u8
  shows "bit (let x = x OR drop_bit 1 x; x = x OR drop_bit 2 x; x = x OR drop_bit 4 x;
      x = x OR drop_bit 8 x in x OR drop_bit 16 x) n \<longleftrightarrow> (\<exists>j<32. bit x (n + j))"
proof -
  define x1 where "x1 = x OR drop_bit 1 x"
  define x2 where "x2 = x1 OR drop_bit 2 x1"
  define x3 where "x3 = x2 OR drop_bit 4 x2"
  define x4 where "x4 = x3 OR drop_bit 8 x3"
  have 1: "bit x1 n \<longleftrightarrow> (\<exists>j<2. bit x (n + j))" for n
    using smear_step [of x 1 x n] by (simp add: x1_def numeral_2_eq_2)
  have 2: "bit x2 n \<longleftrightarrow> (\<exists>j<4. bit x (n + j))" for n
    using smear_step [OF 1, of n] by (simp add: x2_def)
  have 3: "bit x3 n \<longleftrightarrow> (\<exists>j<8. bit x (n + j))" for n
    using smear_step [OF 2, of n] by (simp add: x3_def)
  have 4: "bit x4 n \<longleftrightarrow> (\<exists>j<16. bit x (n + j))" for n
    using smear_step [OF 3, of n] by (simp add: x4_def)
  show ?thesis
    using smear_step [OF 4, of n] by (simp add: Let_def x1_def x2_def x3_def x4_def)
qed

lemma smear_mask:
  fixes x y :: u8
  assumes "\<And>n. bit y n \<longleftrightarrow> (\<exists>j<32. bit x (n + j))"
    and "bit x k" "\<And>m. k < m \<Longrightarrow> \<not> bit x m" "k < 32"
  shows "y = mask (Suc k)"
proof (rule bit_eqI)
  fix n
  assume n: "possible_bit TYPE(u8) n"
  have "(\<exists>j<32. bit x (n + j)) \<longleftrightarrow> n \<le> k"
  proof
    assume "n \<le> k"
    then show "\<exists>j<32. bit x (n + j)"
      using assms(2,4) by (intro exI [of _ "k - n"]) auto
  qed (use assms(3) in \<open>metis le_add1 not_le order_less_le_trans\<close>)
  then show "bit y n = bit (mask (Suc k) :: u8) n"
    using n assms(1) by (auto simp: bit_mask_iff)
qed

lemma next_pow_of_2_least:
  assumes "x \<noteq> 0" "unat x \<le> 2 ^ 32"
  shows "\<exists>k. unat (next_pow_of_2 x) = 2 ^ k \<and> unat x \<le> 2 ^ k \<and> 2 ^ k < 2 * unat x"
proof (cases "is_pow_of_2 x = 0")
  case True
  with assms(1) obtain k where k: "k < 64" "x = 2 ^ k"
    by (auto simp: is_pow_of_2_def and_pred_eq_0_iff split: if_splits)
  then have "unat x = 2 ^ k" by (simp add: unat_pow2)
  with True show ?thesis by (auto simp: next_pow_of_2_def)
next
  case False
  obtain k where k: "bit x k" "\<And>m. k < m \<Longrightarrow> \<not> bit x m" "k < 64"
    using top_bit [OF assms(1)] by auto
  note b = unat_bounds_top_bit [OF k(1,2)]
  have "unat x \<noteq> 2 ^ k"
  proof
    assume "unat x = 2 ^ k"
    with k(3) have "x = 2 ^ k" by (intro word_eq_pow2) simp_all
    with False show False by (simp add: is_pow_of_2_def pow2_and_pred)
  qed
  with b have gt: "2 ^ k < unat x" by simp
  then have "(2::nat) ^ k < 2 ^ 32" using assms(2) by linarith
  then have k32: "k < 32" by (rule power_less_imp_less_exp [rotated]) simp
  have "next_pow_of_2 x = mask (Suc k) + 1"
    using False smear_mask [OF smear_all k(1,2) k32] by (simp add: next_pow_of_2_def Let_def)
  also have "\<dots> = 2 ^ Suc k" by (simp add: mask_eq_decr_exp)
  finally have "unat (next_pow_of_2 x) = 2 ^ Suc k"
    using k32 by (simp only: unat_pow2) (simp add: unat_pow2 del: power_Suc)
  with b gt show ?thesis by (intro exI [of _ "Suc k"]) simp
qed

text \<open>
  For every argument up to \<open>2 ^ 32\<close>, \<open>next_pow_of_2\<close> returns the least power of two that
  is not smaller: the result is \<open>2 ^ k\<close>, at least the argument and less than twice it.
\<close>

theorem next_pow_of_2_spec:
  assumes "x \<noteq> 0" "unat x \<le> 2 ^ 32"
  shows "\<exists>k. unat (next_pow_of_2 x) = 2 ^ k \<and> unat x \<le> 2 ^ k \<and> 2 ^ k < 2 * unat x"
  using assms by (rule next_pow_of_2_least)

theorem next_pow_of_2_spec_witness:
  "\<exists>k. unat (next_pow_of_2 1000) = 2 ^ k \<and> unat (1000 :: u8) \<le> 2 ^ k \<and> 2 ^ k < 2 * unat (1000 :: u8)"
  using next_pow_of_2_spec [of 1000] by simp

text \<open>
  Above \<open>2 ^ 32\<close> the rounding is wrong: the argument is 64 bits wide but the smearing stops
  at a shift of 16, so the result for \<open>2 ^ 40 + 1\<close> is not a power of two at all.
\<close>

theorem next_pow_of_2_wide_fails:
  "next_pow_of_2 (2 ^ 40 + 1) = 2 ^ 41 - 2 ^ 9 + 2 \<and> is_pow_of_2 (next_pow_of_2 (2 ^ 40 + 1)) = 1"
  by code_simp

section \<open>Exponentiation\<close>

lemma square_power: "(x * x) ^ m = (x :: 'a::comm_monoid_mult) ^ (2 * m)"
  by (simp add: power_mult power2_eq_square)

lemma qintpow_skip_spec:
  "qintpow_skip x n = (y, m) \<Longrightarrow> n \<noteq> 0 \<Longrightarrow> y ^ m = x ^ n \<and> m mod 2 = 1"
proof (induction x n rule: qintpow_skip.induct)
  case (1 x n)
  show ?case
  proof (cases "n mod 2 = 0")
    case True
    with "1.prems" have "qintpow_skip (x * x) (n div 2) = (y, m)" "n div 2 \<noteq> 0"
      by (auto simp: qintpow_skip.simps [of x n])
    with "1.IH" "1.prems"(2) True have "y ^ m = (x * x) ^ (n div 2) \<and> m mod 2 = 1" by simp
    moreover have "2 * (n div 2) = n" using True by arith
    ultimately show ?thesis by (simp add: square_power)
  next
    case False
    with "1.prems" show ?thesis by (simp add: qintpow_skip.simps [of x n])
  qed
qed

lemma qintpow_loop_spec: "qintpow_loop x n r = r * x ^ (2 * n)"
proof (induction x n r rule: qintpow_loop.induct)
  case (1 x n r)
  show ?case
  proof (cases "n = 0")
    case False
    have n: "2 * n = 2 * (2 * (n div 2)) + 2 * (n mod 2)" by arith
    have "qintpow_loop x n r =
        (if n mod 2 \<noteq> 0 then r * (x * x) else r) * (x * x) ^ (2 * (n div 2))"
      using False "1.IH" [OF False refl refl] by (simp add: qintpow_loop.simps [of x n r] Let_def)
    also have "\<dots> = r * x ^ (2 * n)"
      by (subst n, cases "n mod 2 = 0") (auto simp: square_power power_add power2_eq_square mult_ac)
    finally show ?thesis .
  next
    case True
    then show ?thesis by (simp add: qintpow_loop.simps [of x 0 r])
  qed
qed

text \<open>
  \<open>qintpow\<close> computes the power: both loops end, and the result is \<open>x\<close> to the \<open>n\<close> with
  the wrap-around of 32 bit multiplication, for every base and exponent.
\<close>

theorem qintpow_correct: "qintpow x n = x ^ unat n"
proof (cases "n = 0")
  case False
  then have nz: "unat n \<noteq> 0" by (simp add: unat_eq_0)
  obtain y m where ym: "qintpow_skip x (unat n) = (y, m)" by fastforce
  from qintpow_skip_spec [OF this nz] have p: "y ^ m = x ^ unat n" and "m mod 2 = 1"
    by blast+
  then have p2: "m = Suc (2 * (m div 2))" by arith
  have "qintpow x n = y * y ^ (2 * (m div 2))"
    using False ym by (simp add: qintpow_def qintpow_loop_spec)
  also have "\<dots> = y ^ m" by (subst (2) p2) simp
  finally show ?thesis using p by simp
qed (simp add: qintpow_def)

section \<open>Swaps and byte order\<close>

lemma xor_swap_cells:
  fixes m :: "nat \<Rightarrow> 'a::len word"
  assumes "a \<noteq> b"
  shows "(let m = m(a := m a XOR m b); m = m(b := m a XOR m b) in m(a := m a XOR m b)) = m(a := m b, b := m a)"
  using assms by (auto simp: Let_def fun_eq_iff xor.assoc xor.left_commute)

text \<open>
  The xor swap exchanges two distinct cells and nothing else, but a cell swapped with itself
  becomes 0.
\<close>

theorem swap4B_spec:
  "swap4B a b m = (if a = b then m(a := 0) else m(a := m b, b := m a))"
  using xor_swap_cells [of a b m] by (auto simp: swap4B_def Let_def)

lemma swap_bytes_loop_spec:
  assumes "v0 + n \<le> v1 \<or> v1 + n \<le> v0" "idx + k = n"
  shows "swap_bytes_loop k idx v0 v1 m p =
    (if v0 + idx \<le> p \<and> p < v0 + n then m (v1 + (p - v0))
     else if v1 + idx \<le> p \<and> p < v1 + n then m (v0 + (p - v1)) else m p)"
  using assms(2)
proof (induction k arbitrary: idx m)
  case (Suc k)
  have ne: "v0 + idx \<noteq> v1 + idx" using assms(1) Suc.prems by auto
  define m' where "m' = m(v0 + idx := m (v1 + idx), v1 + idx := m (v0 + idx))"
  have step: "swap_bytes_loop (Suc k) idx v0 v1 m = swap_bytes_loop k (Suc idx) v0 v1 m'"
    using xor_swap_cells [OF ne, of m] by (simp add: Let_def m'_def)
  have "Suc idx + k = n" using Suc.prems by simp
  from Suc.IH [OF this, of m'] have eq: "swap_bytes_loop (Suc k) idx v0 v1 m p =
    (if v0 + Suc idx \<le> p \<and> p < v0 + n then m' (v1 + (p - v0))
     else if v1 + Suc idx \<le> p \<and> p < v1 + n then m' (v0 + (p - v1)) else m' p)"
    by (simp only: step)
  have "idx < n" using Suc.prems by simp
  consider "p = v0 + idx" | "p = v1 + idx" | "p \<noteq> v0 + idx" "p \<noteq> v1 + idx" by blast
  then show ?case
  proof cases
    case 1
    with eq ne assms(1) \<open>idx < n\<close> show ?thesis by (auto simp: m'_def)
  next
    case 2
    with eq ne assms(1) \<open>idx < n\<close> show ?thesis by (auto simp: m'_def)
  next
    case 3
    have off: "v0 + Suc idx \<le> p \<longleftrightarrow> v0 + idx \<le> p" "v1 + Suc idx \<le> p \<longleftrightarrow> v1 + idx \<le> p"
      using 3 by auto
    have "m' (v1 + (p - v0)) = m (v1 + (p - v0))" if "v0 + Suc idx \<le> p" "p < v0 + n"
      using that assms(1) by (auto simp: m'_def)
    moreover have "m' (v0 + (p - v1)) = m (v0 + (p - v1))" if "v1 + Suc idx \<le> p" "p < v1 + n"
      using that assms(1) by (auto simp: m'_def)
    moreover have "m' p = m p" using 3 by (simp add: m'_def)
    ultimately show ?thesis using eq by (simp only: off split: if_split) blast
  qed
qed auto

text \<open>
  \<open>_swap\<close> accepts exactly the non-null, non-empty, non-overlapping ranges, and exchanges
  their contents byte by byte, leaving the rest of the memory alone.
\<close>

theorem swap_mem_spec:
  assumes "0 < len" "v0 + nat len \<le> v1 \<or> v1 + nat len \<le> v0"
  shows "swap_mem (Some v0) (Some v1) len m = (0, \<lambda>p.
    if v0 \<le> p \<and> p < v0 + nat len then m (v1 + (p - v0))
    else if v1 \<le> p \<and> p < v1 + nat len then m (v0 + (p - v1)) else m p)"
proof -
  have "\<not> ((v0 \<le> v1 \<and> v1 \<le> v0 + nat len - 1) \<or> (v1 \<le> v0 \<and> v0 \<le> v1 + nat len - 1))"
    using assms by auto
  then have "swap_mem (Some v0) (Some v1) len m = (0, swap_bytes_loop (nat len) 0 v0 v1 m)"
    using assms(1) unfolding swap_mem_def by (simp only: prod.case option.case if_False) simp
  moreover have "swap_bytes_loop (nat len) 0 v0 v1 m p =
    (if v0 \<le> p \<and> p < v0 + nat len then m (v1 + (p - v0))
     else if v1 \<le> p \<and> p < v1 + nat len then m (v0 + (p - v1)) else m p)" for p
    using swap_bytes_loop_spec [OF assms(2), of 0 "nat len" m p] by simp
  ultimately show ?thesis by (simp add: fun_eq_iff)
qed

theorem swap_mem_spec_witness:
  "swap_mem (Some 0) (Some 2) 2 of_nat = (0, \<lambda>p.
    if 0 \<le> p \<and> p < 0 + nat 2 then of_nat (2 + (p - 0))
    else if 2 \<le> p \<and> p < 2 + nat 2 then of_nat (0 + (p - 2)) else of_nat p)"
  by (rule swap_mem_spec) simp_all

text \<open>
  The byte order conversions do nothing: \<open>SWAP\<close> has no case for one byte cells, so the
  "network" value has the bytes of the host value, on every input.
\<close>

theorem hton_is_identity:
  "hton2 v = v \<and> hton4 v = v \<and> hton8 v = v \<and> ntoh2 v = v \<and> ntoh4 v = v \<and> ntoh8 v = v"
  by (simp add: hton2_def hton4_def hton8_def ntoh2_def ntoh4_def ntoh8_def SWAP_bytes_def)

end
