(* ===== verification/Lisk_Specs.thy ===== *)
theory Lisk_Specs
  imports Lisk_Prelude
begin

text \<open>
  The contracts of the container interfaces of the library, as locales over the operations a
  client calls. Each container theory interprets the contract it promises on its own
  operations; the facts proved here once for every implementation are then facts of the code.

  \<^item> \<open>fifo\<close>: a queue whose push appends at one end and whose pop takes from the other; a failing
    push leaves the contents alone. \<open>bounded_fifo\<close> adds the capacity that decides when a push
    fails. Clients are runs of arbitrary sequences of operations (\<open>q_run\<close>).
  \<^item> \<open>two_ended\<close>: a sequence that grows and shrinks at both ends. It is a queue in either direction
    and a stack at either end; both are derived from the one contract.
  \<^item> \<open>approximate_set\<close>: membership without false negatives, for every sequence of additions.
  \<^item> \<open>keyed_map\<close>: a finite map in which inserting a key again changes nothing, with runs of operations.
  \<^item> \<open>dictionary\<close>: a finite map with insertion that refuses an existing key, lookup, removal and
    replacement. Lookup may reorganise the structure, so it gives a new state too.
\<close>

section \<open>Queues\<close>

datatype 'e qop = QPush 'e | QPop

text \<open>
  A client of a queue: it runs the operations in order and collects what the successful pushes
  put in and what the successful pops gave back. \<open>None\<close> is a run that did not come back.
\<close>

fun q_run :: "('s \<Rightarrow> 'e \<Rightarrow> (n4 \<times> 's) option) \<Rightarrow> ('s \<Rightarrow> (n4 \<times> 's \<times> 'e option) option) \<Rightarrow>
    'e qop list \<Rightarrow> 's \<Rightarrow> ('e list \<times> 'e list \<times> 's) option" where
  "q_run push pop [] s = Some ([], [], s)"
| "q_run push pop (QPush e # ops) s =
     (case push s e of None \<Rightarrow> None | Some (c, s') \<Rightarrow>
      (case q_run push pop ops s' of None \<Rightarrow> None | Some (i, out, t) \<Rightarrow>
        Some (if c = 0 then e # i else i, out, t)))"
| "q_run push pop (QPop # ops) s =
     (case pop s of None \<Rightarrow> None | Some (c, s', x) \<Rightarrow>
      (case q_run push pop ops s' of None \<Rightarrow> None | Some (i, out, t) \<Rightarrow>
        Some (i, (case x of None \<Rightarrow> out | Some e \<Rightarrow> e # out), t)))"

text \<open>A client that starts with at most \<open>n\<close> elements and never has more than \<open>b\<close> of them in the queue at a time.\<close>

fun q_fits :: "nat \<Rightarrow> 'e qop list \<Rightarrow> nat \<Rightarrow> bool" where
  "q_fits b [] n \<longleftrightarrow> True"
| "q_fits b (QPush e # ops) n \<longleftrightarrow> n < b \<and> q_fits b ops (n + 1)"
| "q_fits b (QPop # ops) n \<longleftrightarrow> q_fits b ops (n - 1)"

locale fifo =
  fixes inv :: "'s \<Rightarrow> bool"
    and abs :: "'s \<Rightarrow> 'e list"
    and elem_ok :: "'s \<Rightarrow> 'e \<Rightarrow> bool"
    and push :: "'s \<Rightarrow> 'e \<Rightarrow> (n4 \<times> 's) option"
    and pop :: "'s \<Rightarrow> (n4 \<times> 's \<times> 'e option) option"
  assumes push_spec: "inv s \<Longrightarrow> elem_ok s e \<Longrightarrow>
      \<exists>c s'. push s e = Some (c, s') \<and> inv s' \<and> elem_ok s' = elem_ok s \<and>
        abs s' = (if c = 0 then abs s @ [e] else abs s)"
    and pop_cons: "inv s \<Longrightarrow> abs s = e # es \<Longrightarrow>
      \<exists>s'. pop s = Some (0, s', Some e) \<and> inv s' \<and> elem_ok s' = elem_ok s \<and> abs s' = es"
    and pop_nil: "inv s \<Longrightarrow> abs s = [] \<Longrightarrow> \<exists>c. c \<noteq> 0 \<and> pop s = Some (c, s, None)"
begin

lemma run_fifo:
  assumes "inv s" "\<And>e. QPush e \<in> set ops \<Longrightarrow> elem_ok s e"
  shows "\<exists>i out t. q_run push pop ops s = Some (i, out, t) \<and> inv t \<and>
           elem_ok t = elem_ok s \<and> abs s @ i = out @ abs t"
  using assms
proof (induction ops arbitrary: s)
  case Nil
  then show ?case by simp
next
  case (Cons a ops)
  show ?case
  proof (cases a)
    case (QPush e)
    then obtain c s' where p: "push s e = Some (c, s')" "inv s'" "elem_ok s' = elem_ok s"
        "abs s' = (if c = 0 then abs s @ [e] else abs s)"
      using push_spec [OF Cons.prems(1), of e] Cons.prems(2) [of e] by auto
    from Cons.IH [OF p(2)] p(3) Cons.prems(2) obtain i out t
      where "q_run push pop ops s' = Some (i, out, t)" "inv t" "elem_ok t = elem_ok s'" "abs s' @ i = out @ abs t"
      by auto
    then show ?thesis using p QPush by auto
  next
    case QPop
    show ?thesis
    proof (cases "abs s")
      case Nil
      then obtain c where "pop s = Some (c, s, None)"
        using pop_nil [OF Cons.prems(1)] by auto
      then show ?thesis using Cons.IH [OF Cons.prems(1)] Cons.prems(2) QPop by auto
    next
      case (Cons e es)
      from pop_cons [OF \<open>inv s\<close> Cons] obtain s'
        where p: "pop s = Some (0, s', Some e)" "inv s'" "elem_ok s' = elem_ok s" "abs s' = es"
        by auto
      from Cons.IH [OF p(2)] p(3) Cons.prems(2) obtain i out t
        where "q_run push pop ops s' = Some (i, out, t)" "inv t" "elem_ok t = elem_ok s'" "abs s' @ i = out @ abs t"
        by auto
      then show ?thesis using p QPop Cons by auto
    qed
  qed
qed

text \<open>Two ways to push that agree while there is room give the same run of a client that keeps to the room.\<close>

lemma run_agree:
  assumes "inv s" "\<And>e. QPush e \<in> set ops \<Longrightarrow> elem_ok s e" "q_fits b ops n" "length (abs s) \<le> n"
    and same: "\<And>s e. inv s \<Longrightarrow> length (abs s) < b \<Longrightarrow> push2 s e = push s e"
  shows "q_run push2 pop ops s = q_run push pop ops s"
  using assms(1-4)
proof (induction ops arbitrary: s n)
  case Nil
  then show ?case by simp
next
  case (Cons a ops)
  show ?case
  proof (cases a)
    case (QPush e)
    then obtain c s' where p: "push s e = Some (c, s')" "inv s'" "elem_ok s' = elem_ok s"
        "abs s' = (if c = 0 then abs s @ [e] else abs s)"
      using push_spec [OF Cons.prems(1), of e] Cons.prems(2) [of e] by auto
    have "q_run push2 pop ops s' = q_run push pop ops s'"
      by (rule Cons.IH [OF p(2), of "n + 1"]) (use Cons.prems p QPush in auto)
    moreover have "push2 s e = push s e" by (rule same [OF Cons.prems(1)]) (use Cons.prems QPush in auto)
    ultimately show ?thesis using p(1) QPush by simp
  next
    case QPop
    obtain c s' x where p: "pop s = Some (c, s', x)" "inv s'" "elem_ok s' = elem_ok s" "length (abs s') = length (abs s) - 1"
    proof (cases "abs s")
      case Nil
      then show thesis using pop_nil [OF Cons.prems(1)] Cons.prems(1) that by auto
    next
      case (Cons e es)
      then show thesis using pop_cons [OF \<open>inv s\<close> Cons] that by auto
    qed
    have "q_run push2 pop ops s' = q_run push pop ops s'"
      by (rule Cons.IH [OF p(2), of "n - 1"]) (use Cons.prems p QPop in auto)
    then show ?thesis using p(1) QPop by simp
  qed
qed

end

locale bounded_fifo = fifo inv abs elem_ok push pop
  for inv :: "'s \<Rightarrow> bool" and abs :: "'s \<Rightarrow> 'e list" and elem_ok push pop +
  fixes cap :: "'s \<Rightarrow> nat"
  assumes push_code: "inv s \<Longrightarrow> elem_ok s e \<Longrightarrow> push s e = Some (c, s') \<Longrightarrow>
      c = 0 \<longleftrightarrow> length (abs s) < cap s"
    and push_cap: "inv s \<Longrightarrow> elem_ok s e \<Longrightarrow> push s e = Some (c, s') \<Longrightarrow> cap s' = cap s"
    and within: "inv s \<Longrightarrow> length (abs s) \<le> cap s"
begin

text \<open>As many pushes as there are free places all succeed, and the next one is refused.\<close>

lemma push_all:
  assumes "inv s" "\<And>e. e \<in> set es \<Longrightarrow> elem_ok s e" "length (abs s) + length es \<le> cap s"
  shows "\<exists>t. q_run push pop (map QPush es) s = Some (es, [], t) \<and> inv t \<and>
           elem_ok t = elem_ok s \<and> abs t = abs s @ es \<and> cap t = cap s"
  using assms
proof (induction es arbitrary: s)
  case Nil
  then show ?case by simp
next
  case (Cons e es)
  then obtain c s' where p: "push s e = Some (c, s')" "inv s'" "elem_ok s' = elem_ok s"
      "abs s' = (if c = 0 then abs s @ [e] else abs s)"
    using push_spec [of s e] by auto
  have c: "c = 0" using push_code [OF Cons.prems(1) _ p(1)] Cons.prems by simp
  have "cap s' = cap s" using push_cap [OF Cons.prems(1) _ p(1)] Cons.prems by simp
  then show ?case using Cons.IH [OF p(2)] Cons.prems p c by fastforce
qed

lemma push_refused:
  assumes "inv s" "elem_ok s e" "length (abs s) = cap s"
  shows "\<exists>c s'. push s e = Some (c, s') \<and> c \<noteq> 0 \<and> abs s' = abs s"
  using push_spec [OF assms(1,2)] push_code [OF assms(1,2)] assms(3) by fastforce

end

section \<open>Double-ended queues\<close>

locale two_ended =
  fixes inv :: "'s \<Rightarrow> bool"
    and abs :: "'s \<Rightarrow> 'e list"
    and elem_ok :: "'s \<Rightarrow> 'e \<Rightarrow> bool"
    and push_front push_back :: "'s \<Rightarrow> 'e \<Rightarrow> (n4 \<times> 's) option"
    and pop_front pop_back :: "'s \<Rightarrow> (n4 \<times> 's \<times> 'e option) option"
  assumes push_front_spec: "inv s \<Longrightarrow> elem_ok s e \<Longrightarrow>
      \<exists>c s'. push_front s e = Some (c, s') \<and> inv s' \<and> elem_ok s' = elem_ok s \<and>
        abs s' = (if c = 0 then e # abs s else abs s)"
    and push_back_spec: "inv s \<Longrightarrow> elem_ok s e \<Longrightarrow>
      \<exists>c s'. push_back s e = Some (c, s') \<and> inv s' \<and> elem_ok s' = elem_ok s \<and>
        abs s' = (if c = 0 then abs s @ [e] else abs s)"
    and pop_front_spec: "inv s \<Longrightarrow> abs s = e # es \<Longrightarrow>
      \<exists>s'. pop_front s = Some (0, s', Some e) \<and> inv s' \<and> elem_ok s' = elem_ok s \<and> abs s' = es"
    and pop_back_spec: "inv s \<Longrightarrow> abs s = es @ [e] \<Longrightarrow>
      \<exists>s'. pop_back s = Some (0, s', Some e) \<and> inv s' \<and> elem_ok s' = elem_ok s \<and> abs s' = es"
    and pop_front_nil: "inv s \<Longrightarrow> abs s = [] \<Longrightarrow> \<exists>c. c \<noteq> 0 \<and> pop_front s = Some (c, s, None)"
    and pop_back_nil: "inv s \<Longrightarrow> abs s = [] \<Longrightarrow> \<exists>c. c \<noteq> 0 \<and> pop_back s = Some (c, s, None)"
begin

text \<open>What was pushed at an end is what a pop at that end gives back.\<close>

lemma back_stack:
  assumes "inv s" "elem_ok s e" "push_back s e = Some (0, s')"
  shows "\<exists>s''. pop_back s' = Some (0, s'', Some e) \<and> inv s'' \<and> abs s'' = abs s"
  using push_back_spec [OF assms(1,2)] assms(3) pop_back_spec [of s' "abs s" e] by auto

lemma front_stack:
  assumes "inv s" "elem_ok s e" "push_front s e = Some (0, s')"
  shows "\<exists>s''. pop_front s' = Some (0, s'', Some e) \<and> inv s'' \<and> abs s'' = abs s"
  using push_front_spec [OF assms(1,2)] assms(3) pop_front_spec [of s' e "abs s"] by auto

end

sublocale two_ended \<subseteq> forward: fifo inv abs elem_ok push_back pop_front
proof (unfold_locales, goal_cases)
  case (1 s e)
  then show ?case by (rule push_back_spec)
next
  case (2 s e es)
  then show ?case by (rule pop_front_spec)
next
  case (3 s)
  then show ?case by (rule pop_front_nil)
qed

sublocale two_ended \<subseteq> backward: fifo inv "\<lambda>s. rev (abs s)" elem_ok push_front pop_back
proof (unfold_locales, goal_cases)
  case (1 s e)
  then show ?case using push_front_spec [of s e] by auto
next
  case (2 s e es)
  then have "abs s = rev es @ [e]" by (metis rev.simps(2) rev_rev_ident)
  then show ?case using pop_back_spec [of s "rev es" e] 2(1) by auto
next
  case (3 s)
  then show ?case by (simp add: pop_back_nil)
qed

section \<open>Dictionaries\<close>

locale dictionary =
  fixes inv :: "'s \<Rightarrow> bool"
    and abs :: "'s \<Rightarrow> 'k \<Rightarrow> 'v option"
    and key_ok :: "'k \<Rightarrow> bool"
    and can_insert :: "'s \<Rightarrow> 'k \<Rightarrow> 'v \<Rightarrow> bool"
    and find :: "'s \<Rightarrow> 'k \<Rightarrow> (n4 \<times> 's \<times> 'v option) option"
    and insert :: "'s \<Rightarrow> 'k \<Rightarrow> 'v \<Rightarrow> (n4 \<times> 's) option"
    and erase :: "'s \<Rightarrow> 'k \<Rightarrow> (n4 \<times> 's) option"
  assumes find_spec: "inv s \<Longrightarrow> key_ok k \<Longrightarrow>
      \<exists>c s'. find s k = Some (c, s', abs s k) \<and> inv s' \<and> abs s' = abs s \<and>
        (c = 0 \<longleftrightarrow> abs s k \<noteq> None)"
    and insert_spec: "inv s \<Longrightarrow> key_ok k \<Longrightarrow> can_insert s k v \<Longrightarrow>
      \<exists>c s'. insert s k v = Some (c, s') \<and> inv s' \<and>
        (if abs s k = None then (c = 0 \<and> abs s' = (abs s)(k \<mapsto> v)) \<or> (c \<noteq> 0 \<and> abs s' = abs s)
         else c \<noteq> 0 \<and> abs s' = abs s)"
    and erase_spec: "inv s \<Longrightarrow> key_ok k \<Longrightarrow>
      \<exists>c s'. erase s k = Some (c, s') \<and> inv s' \<and> abs s' = (abs s)(k := None) \<and>
        (c = 0 \<longleftrightarrow> abs s k \<noteq> None)"
begin

text \<open>What a client sees: after a successful insertion the key is found, other keys are as before.\<close>

lemma find_after_insert:
  assumes "inv s" "key_ok k" "key_ok j" "can_insert s k v" "insert s k v = Some (0, s')"
  shows "\<exists>c t. find s' j = Some (c, t, if j = k then Some v else abs s j)"
proof -
  have s': "inv s'" "abs s' = (abs s)(k \<mapsto> v)"
    using insert_spec [OF assms(1,2,4)] assms(5) by (auto split: if_splits)
  then show ?thesis using find_spec [OF s'(1) assms(3)] by auto
qed

lemma find_after_erase:
  assumes "inv s" "key_ok k" "key_ok j" "erase s k = Some (c, s')"
  shows "\<exists>c t. find s' j = Some (c, t, if j = k then None else abs s j)"
proof -
  have s': "inv s'" "abs s' = (abs s)(k := None)"
    using erase_spec [OF assms(1,2)] assms(4) by auto
  then show ?thesis using find_spec [OF s'(1) assms(3)] by auto
qed

lemma insert_twice:
  assumes "inv s" "key_ok k" "can_insert s k v" "insert s k v = Some (0, s')" "can_insert s' k w"
  shows "\<exists>c t. insert s' k w = Some (c, t) \<and> c \<noteq> 0 \<and> abs t = abs s'"
proof -
  have s': "inv s'" "abs s' k = Some v"
    using insert_spec [OF assms(1-3)] assms(4) by (auto split: if_splits)
  then show ?thesis using insert_spec [OF s'(1) assms(2,5)] by auto
qed

lemma insert_erase:
  assumes "inv s" "key_ok k" "can_insert s k v" "insert s k v = Some (0, s')"
  shows "\<exists>t. erase s' k = Some (0, t) \<and> inv t \<and> abs t = abs s"
proof -
  have s': "inv s'" "abs s' = (abs s)(k \<mapsto> v)" "abs s k = None"
    using insert_spec [OF assms(1-3)] assms(4) by (auto split: if_splits)
  then show ?thesis using erase_spec [OF s'(1) assms(2)] fun_upd_triv [of "abs s" k] by auto
qed

end

section \<open>Maps that ignore a repeated insertion\<close>

text \<open>
  A client of a map runs insertions and removals. \<open>'a\<close> is what the environment answers to the
  allocation of an insertion.
\<close>

datatype ('a, 'k, 'v) mop = MPut 'a 'k 'v | MDel 'k

fun m_run :: "('a \<Rightarrow> 's \<Rightarrow> 'k \<Rightarrow> 'v \<Rightarrow> (n4 \<times> 's) option) \<Rightarrow> ('s \<Rightarrow> 'k \<Rightarrow> (n4 \<times> 's) option) \<Rightarrow>
    ('a, 'k, 'v) mop list \<Rightarrow> 's \<Rightarrow> (n4 list \<times> 's) option" where
  "m_run ins del [] s = Some ([], s)"
| "m_run ins del (MPut a k v # ops) s =
     (case ins a s k v of None \<Rightarrow> None | Some (c, s') \<Rightarrow>
      (case m_run ins del ops s' of None \<Rightarrow> None | Some (cs, t) \<Rightarrow> Some (c # cs, t)))"
| "m_run ins del (MDel k # ops) s =
     (case del s k of None \<Rightarrow> None | Some (c, s') \<Rightarrow>
      (case m_run ins del ops s' of None \<Rightarrow> None | Some (cs, t) \<Rightarrow> Some (c # cs, t)))"

text \<open>What the operations with their return codes do to a finite map.\<close>

fun m_spec :: "('a, 'k, 'v) mop list \<Rightarrow> n4 list \<Rightarrow> ('k \<Rightarrow> 'v option) \<Rightarrow> 'k \<Rightarrow> 'v option" where
  "m_spec (MPut a k v # ops) (c # cs) m = m_spec ops cs (if c = 0 \<and> m k = None then m(k \<mapsto> v) else m)"
| "m_spec (MDel k # ops) (c # cs) m = m_spec ops cs (m(k := None))"
| "m_spec ops cs m = m"

text \<open>The answers of the environment are legal in the states where they are used.\<close>

fun m_legal :: "('a \<Rightarrow> 's \<Rightarrow> bool) \<Rightarrow> ('a \<Rightarrow> 's \<Rightarrow> 'k \<Rightarrow> 'v \<Rightarrow> (n4 \<times> 's) option) \<Rightarrow> ('s \<Rightarrow> 'k \<Rightarrow> (n4 \<times> 's) option) \<Rightarrow>
    ('a, 'k, 'v) mop list \<Rightarrow> 's \<Rightarrow> bool" where
  "m_legal ok ins del [] s \<longleftrightarrow> True"
| "m_legal ok ins del (MPut a k v # ops) s \<longleftrightarrow>
     ok a s \<and> (case ins a s k v of None \<Rightarrow> True | Some (c, s') \<Rightarrow> m_legal ok ins del ops s')"
| "m_legal ok ins del (MDel k # ops) s \<longleftrightarrow>
     (case del s k of None \<Rightarrow> True | Some (c, s') \<Rightarrow> m_legal ok ins del ops s')"

locale keyed_map =
  fixes inv :: "'s \<Rightarrow> bool"
    and abs :: "'s \<Rightarrow> 'k \<Rightarrow> 'v option"
    and ok :: "'a \<Rightarrow> 's \<Rightarrow> bool"
    and find :: "'s \<Rightarrow> 'k \<Rightarrow> (n4 \<times> 'v option) option"
    and insert :: "'a \<Rightarrow> 's \<Rightarrow> 'k \<Rightarrow> 'v \<Rightarrow> (n4 \<times> 's) option"
    and erase :: "'s \<Rightarrow> 'k \<Rightarrow> (n4 \<times> 's) option"
  assumes find_spec: "inv s \<Longrightarrow> \<exists>c. find s k = Some (c, abs s k) \<and> (c = 0 \<longleftrightarrow> abs s k \<noteq> None)"
    and insert_spec: "inv s \<Longrightarrow> ok a s \<Longrightarrow>
      \<exists>c s'. insert a s k v = Some (c, s') \<and> inv s' \<and>
        abs s' = (if c = 0 \<and> abs s k = None then (abs s)(k \<mapsto> v) else abs s)"
    and erase_spec: "inv s \<Longrightarrow>
      \<exists>c s'. erase s k = Some (c, s') \<and> inv s' \<and> (abs s k \<noteq> None \<longrightarrow> c = 0) \<and> abs s' = (abs s)(k := None)"
begin

lemma run_refines:
  "inv s \<Longrightarrow> m_legal ok insert erase ops s \<Longrightarrow>
     \<exists>cs t. m_run insert erase ops s = Some (cs, t) \<and> length cs = length ops \<and> inv t \<and> abs t = m_spec ops cs (abs s)"
proof (induction ops arbitrary: s)
  case (Cons x ops)
  show ?case
  proof (cases x)
    case (MPut a k v)
    then obtain c s' where i: "insert a s k v = Some (c, s')" "inv s'"
        "abs s' = (if c = 0 \<and> abs s k = None then (abs s)(k \<mapsto> v) else abs s)"
      using insert_spec [OF Cons.prems(1), of a k v] Cons.prems(2) by auto
    from Cons.IH [OF i(2)] Cons.prems(2) MPut i(1) obtain cs t where
      "m_run insert erase ops s' = Some (cs, t)" "length cs = length ops" "inv t" "abs t = m_spec ops cs (abs s')" by auto
    then show ?thesis using i MPut by auto
  next
    case (MDel k)
    then obtain c s' where i: "erase s k = Some (c, s')" "inv s'" "abs s' = (abs s)(k := None)"
      using erase_spec [OF Cons.prems(1), of k] by auto
    from Cons.IH [OF i(2)] Cons.prems(2) MDel i(1) obtain cs t where
      "m_run insert erase ops s' = Some (cs, t)" "length cs = length ops" "inv t" "abs t = m_spec ops cs (abs s')" by auto
    then show ?thesis using i MDel by auto
  qed
qed simp

text \<open>Every lookup afterwards agrees with the finite map.\<close>

lemma run_find:
  assumes "inv s" "m_legal ok insert erase ops s"
  shows "\<exists>cs t. m_run insert erase ops s = Some (cs, t) \<and> length cs = length ops \<and> inv t \<and>
     (\<forall>k. \<exists>c. find t k = Some (c, m_spec ops cs (abs s) k))"
proof -
  obtain cs t where r: "m_run insert erase ops s = Some (cs, t)" "length cs = length ops" "inv t" "abs t = m_spec ops cs (abs s)"
    using run_refines [OF assms] by blast
  have "\<exists>c. find t k = Some (c, m_spec ops cs (abs s) k)" for k using find_spec [OF r(3), of k] r(4) by auto
  then show ?thesis using r by blast
qed

end

section \<open>Approximate sets\<close>

text \<open>
  A set that may say too often that an element is in it, but never that an element is missing
  which was added.
\<close>

fun add_all :: "('s \<Rightarrow> 'x \<Rightarrow> 's option) \<Rightarrow> 'x list \<Rightarrow> 's \<Rightarrow> 's option" where
  "add_all add [] s = Some s"
| "add_all add (x # xs) s = (case add s x of None \<Rightarrow> None | Some s' \<Rightarrow> add_all add xs s')"

locale approximate_set =
  fixes inv :: "'s \<Rightarrow> bool"
    and member :: "'s \<Rightarrow> 'x \<Rightarrow> bool"
    and add :: "'s \<Rightarrow> 'x \<Rightarrow> 's option"
  assumes add_spec: "inv s \<Longrightarrow> \<exists>s'. add s x = Some s' \<and> inv s' \<and> member s' x \<and> (\<forall>y. member s y \<longrightarrow> member s' y)"
begin

lemma no_false_negative:
  "inv s \<Longrightarrow> \<exists>s'. add_all add xs s = Some s' \<and> inv s' \<and> (\<forall>y. member s y \<or> y \<in> set xs \<longrightarrow> member s' y)"
proof (induction xs arbitrary: s)
  case (Cons x xs)
  obtain t where t: "add s x = Some t" "inv t" "member t x" "\<forall>y. member s y \<longrightarrow> member t y"
    using add_spec [OF Cons.prems] by blast
  obtain s' where "add_all add xs t = Some s'" "inv s'" "\<forall>y. member t y \<or> y \<in> set xs \<longrightarrow> member s' y"
    using Cons.IH [OF t(2)] by blast
  then show ?case using t by auto
qed simp

end

end
