(* ===== verification/Lisk_Ring.thy ===== *)
theory Lisk_Ring
  imports Lisk_Specs Lisk_Math "HOL-Library.Monad_Syntax"
begin

text \<open>
  The array based lock-free ring of \<open>ring-buffer/ring4/src/lisk_ring.c\<close>, executed by one thread.

  \<^item> \<open>ring_t\<close> is the structure of the code; \<open>data\<close> is its byte array and every element is
    \<open>unit_size\<close> bytes of it. The positions are free running 32 bit counters.
  \<^item> A ring pointer is a \<open>ring_t option\<close>. An operation gives \<open>None\<close> when it leaves the byte array
    or never returns, so that each theorem that gives \<open>Some\<close> includes memory safety and
    termination.
  \<^item> The compare-and-swap of the platform is the parameter \<open>cas\<close> of the multi-producer push:
    \<open>lisk_sync_cas\<close> is the macro of the Linux tree, \<open>win_sync_cas\<close> the one of \<open>win_lisk\<close>.
  \<^item> \<open>ring_list\<close> is the abstraction of a ring, the queue of its elements; \<open>ring_inv\<close> is the
    invariant of the operations. The interpretation \<open>rq\<close> at the end shows that the ring keeps
    the contract of a bounded queue.
\<close>

section \<open>State\<close>

record ring_t =
  unit_size :: u4
  unit_num :: u4
  ring_type :: u4
  write_pos :: u4
  read_pos :: u4
  max_read_idx :: u4
  data :: "u1 list"

abbreviation (input) RING_SP_SC :: u4 where "RING_SP_SC \<equiv> 1"
abbreviation (input) RING_SP_MC :: u4 where "RING_SP_MC \<equiv> 2"
abbreviation (input) RING_MP_SC :: u4 where "RING_MP_SC \<equiv> 4"
abbreviation (input) RING_MP_MC :: u4 where "RING_MP_MC \<equiv> 8"

section \<open>Operations\<close>

text \<open>
  \<open>mal\<close> answers whether the allocation succeeds and \<open>raw\<close> gives the bytes the fresh block
  happens to hold. The first component of the result is the return code, the second the
  ring pointer after the call (\<open>None\<close>, no cell, where the argument was \<open>nil\<close>).
\<close>

definition ring_init :: "allocator \<Rightarrow> (nat \<Rightarrow> u1) \<Rightarrow> ring_t option option \<Rightarrow> u4 \<Rightarrow> u4 \<Rightarrow>
    n4 \<times> ring_t option option" where
  "ring_init mal raw ring_pptr num len =
     (if ring_pptr = None \<or> num = 0 \<or> len = 0 \<or> num AND (num - 1) \<noteq> 0 then (-1, ring_pptr)
      else if \<not> mal (24 + unat len * unat num) then (-2, ring_pptr)
      else (0, Some (Some
        \<lparr>unit_size = len, unit_num = num, ring_type = RING_MP_MC,
         write_pos = 0, read_pos = 0, max_read_idx = 0,
         data = map raw [0..<unat len * unat num]\<rparr>)))"

text \<open>
  \<open>ring_uninit\<close> frees the block and clears its own copy of the pointer only: the caller's
  pointer stays as it was. The second component is whether a block was freed.
\<close>

definition ring_uninit :: "ring_t option option \<Rightarrow> ring_t option option \<times> bool" where
  "ring_uninit ring_pptr =
     (case ring_pptr of Some (Some ring) \<Rightarrow> (ring_pptr, True) | _ \<Rightarrow> (ring_pptr, False))"

definition ring_set_type :: "ring_t option \<Rightarrow> u4 \<Rightarrow> n4 \<times> ring_t option" where
  "ring_set_type ring_ptr type =
     (case ring_ptr of
        None \<Rightarrow> (-1, None)
      | Some ring \<Rightarrow>
          if type < RING_SP_SC \<or> RING_MP_MC < type then (-1, Some ring)
          else (0, Some (ring\<lparr>ring_type := type\<rparr>)))"

text \<open>The second argument is whether the caller gave a place for the answer.\<close>

definition ring_size :: "ring_t option \<Rightarrow> bool \<Rightarrow> n4 \<times> u4 option" where
  "ring_size ring_ptr size_ptr =
     (case ring_ptr of
        None \<Rightarrow> (-1, None)
      | Some ring \<Rightarrow> if \<not> size_ptr then (-1, None) else (0, Some (write_pos ring - read_pos ring)))"

definition ring_index :: "u4 \<Rightarrow> u4 \<Rightarrow> u4" where
  "ring_index count num = (if num \<noteq> 0 then count AND (num - 1) else 0)"

text \<open>
  The byte offset of the slot of a counter, in the 32 bit arithmetic of the code, and the two
  copies between a slot and the caller's buffer.
\<close>

definition ring_offset :: "ring_t \<Rightarrow> u4 \<Rightarrow> nat" where
  "ring_offset ring idx = unat (ring_index idx (unit_num ring) * unit_size ring)"

definition ring_copy_in :: "ring_t \<Rightarrow> u4 \<Rightarrow> u1 list \<Rightarrow> ring_t option" where
  "ring_copy_in ring widx elem = do {
     bytes \<leftarrow> mem_read 0 (unat (unit_size ring)) elem;
     dat \<leftarrow> mem_write (ring_offset ring widx) bytes (data ring);
     Some (ring\<lparr>data := dat\<rparr>) }"

definition ring_copy_out :: "ring_t \<Rightarrow> u4 \<Rightarrow> u1 list option" where
  "ring_copy_out ring ridx = mem_read (ring_offset ring ridx) (unat (unit_size ring)) (data ring)"

text \<open>A compare-and-swap gives the value it found and the value it leaves.\<close>

type_synonym cas_fun = "u4 \<Rightarrow> u4 \<Rightarrow> u4 \<Rightarrow> u4 \<times> u4"

definition lisk_sync_cas :: cas_fun where
  "lisk_sync_cas var old_v new_v = (var, if var = old_v then new_v else var)"

text \<open>
  The macro of \<open>win_lisk\<close> hands its arguments on as they are, and the second argument of
  \<open>InterlockedCompareExchange\<close> is the value to store, the third the value to compare with.
\<close>

definition InterlockedCompareExchange :: "u4 \<Rightarrow> u4 \<Rightarrow> u4 \<Rightarrow> u4 \<times> u4" where
  "InterlockedCompareExchange dest exchange comperand =
     (dest, if dest = comperand then exchange else dest)"

definition win_sync_cas :: cas_fun where
  "win_sync_cas var old_v new_v = InterlockedCompareExchange var old_v new_v"

text \<open>The two loops of the multi-producer push: reserve a slot, and publish it.\<close>

partial_function (option) mp_reserve_loop ::
    "cas_fun \<Rightarrow> ring_t \<Rightarrow> (u4 option \<times> ring_t) option" where
  "mp_reserve_loop cas ring =
     (if ring_index (write_pos ring + 1) (unit_num ring) =
         ring_index (read_pos ring) (unit_num ring)
      then Some (None, ring)
      else if fst (cas (write_pos ring) (write_pos ring) (write_pos ring + 1)) \<noteq> write_pos ring
      then mp_reserve_loop cas
             (ring\<lparr>write_pos := snd (cas (write_pos ring) (write_pos ring) (write_pos ring + 1))\<rparr>)
      else Some (Some (write_pos ring),
             ring\<lparr>write_pos := snd (cas (write_pos ring) (write_pos ring) (write_pos ring + 1))\<rparr>))"

partial_function (option) mp_publish_loop :: "cas_fun \<Rightarrow> u4 \<Rightarrow> ring_t \<Rightarrow> ring_t option" where
  "mp_publish_loop cas widx ring =
     (if fst (cas (max_read_idx ring) widx (widx + 1)) \<noteq> widx
      then mp_publish_loop cas widx
             (ring\<lparr>max_read_idx := snd (cas (max_read_idx ring) widx (widx + 1))\<rparr>)
      else Some (ring\<lparr>max_read_idx := snd (cas (max_read_idx ring) widx (widx + 1))\<rparr>))"

definition mp_ring_push_with :: "cas_fun \<Rightarrow> ring_t \<Rightarrow> u1 list \<Rightarrow> (n4 \<times> ring_t) option" where
  "mp_ring_push_with cas ring elem = do {
     (slot, ring) \<leftarrow> mp_reserve_loop cas ring;
     (case slot of
        None \<Rightarrow> Some (-2, ring)
      | Some widx \<Rightarrow> do {
          ring \<leftarrow> ring_copy_in ring widx elem;
          ring \<leftarrow> mp_publish_loop cas widx ring;
          Some (0, ring) }) }"

definition mp_ring_push :: "ring_t \<Rightarrow> u1 list \<Rightarrow> (n4 \<times> ring_t) option" where
  "mp_ring_push = mp_ring_push_with lisk_sync_cas"

definition win_mp_ring_push :: "ring_t \<Rightarrow> u1 list \<Rightarrow> (n4 \<times> ring_t) option" where
  "win_mp_ring_push = mp_ring_push_with win_sync_cas"

definition sp_mc_ring_push :: "ring_t \<Rightarrow> u1 list \<Rightarrow> (n4 \<times> ring_t) option" where
  "sp_mc_ring_push ring elem =
     (let ridx = read_pos ring; widx = write_pos ring in
      if ring_index (widx + 1) (unit_num ring) = ring_index ridx (unit_num ring)
      then Some (-2, ring)
      else do {
        ring \<leftarrow> ring_copy_in ring widx elem;
        Some (0, ring\<lparr>write_pos := write_pos ring + 1\<rparr>) })"

definition sp_sc_ring_push :: "ring_t \<Rightarrow> u1 list \<Rightarrow> (n4 \<times> ring_t) option" where
  "sp_sc_ring_push ring elem =
     (let ridx = read_pos ring; widx = write_pos ring in
      if ring_index (widx + 1) (unit_num ring) = ring_index ridx (unit_num ring)
      then Some (-2, ring)
      else do {
        ring \<leftarrow> ring_copy_in ring widx elem;
        Some (0, ring\<lparr>write_pos := write_pos ring + 1\<rparr>) })"

definition ring_push :: "ring_t option \<Rightarrow> u1 list option \<Rightarrow> (n4 \<times> ring_t option) option" where
  "ring_push ring_ptr elem =
     (case (ring_ptr, elem) of
        (Some ring, Some e) \<Rightarrow> do {
          (ret, ring) \<leftarrow>
            (if ring_type ring = RING_MP_MC \<or> ring_type ring = RING_MP_SC then mp_ring_push ring e
             else if ring_type ring = RING_SP_MC then sp_mc_ring_push ring e
             else if ring_type ring = RING_SP_SC then sp_sc_ring_push ring e
             else Some (-2, ring));
          Some (ret, Some ring) }
      | _ \<Rightarrow> Some (-1, ring_ptr))"

text \<open>
  A pop gives the return code, the ring and the bytes it left in the caller's buffer
  (\<open>None\<close> when it wrote nothing).
\<close>

partial_function (option) sp_mc_ring_pop :: "ring_t \<Rightarrow> (n4 \<times> ring_t \<times> u1 list option) option" where
  "sp_mc_ring_pop ring =
     (if ring_index (read_pos ring) (unit_num ring) = ring_index (write_pos ring) (unit_num ring)
      then Some (-2, ring, None)
      else Option.bind (ring_copy_out ring (read_pos ring)) (\<lambda>elem.
        if fst (lisk_sync_cas (read_pos ring) (read_pos ring) (read_pos ring + 1)) = read_pos ring
        then Some (0, ring\<lparr>read_pos :=
               snd (lisk_sync_cas (read_pos ring) (read_pos ring) (read_pos ring + 1))\<rparr>, Some elem)
        else sp_mc_ring_pop (ring\<lparr>read_pos :=
               snd (lisk_sync_cas (read_pos ring) (read_pos ring) (read_pos ring + 1))\<rparr>)))"

partial_function (option) mp_mc_ring_pop :: "ring_t \<Rightarrow> (n4 \<times> ring_t \<times> u1 list option) option" where
  "mp_mc_ring_pop ring =
     (if ring_index (read_pos ring) (unit_num ring) = ring_index (max_read_idx ring) (unit_num ring)
      then Some (-2, ring, None)
      else Option.bind (ring_copy_out ring (read_pos ring)) (\<lambda>elem.
        if fst (lisk_sync_cas (read_pos ring) (read_pos ring) (read_pos ring + 1)) = read_pos ring
        then Some (0, ring\<lparr>read_pos :=
               snd (lisk_sync_cas (read_pos ring) (read_pos ring) (read_pos ring + 1))\<rparr>, Some elem)
        else mp_mc_ring_pop (ring\<lparr>read_pos :=
               snd (lisk_sync_cas (read_pos ring) (read_pos ring) (read_pos ring + 1))\<rparr>)))"

definition sp_sc_ring_pop :: "ring_t \<Rightarrow> (n4 \<times> ring_t \<times> u1 list option) option" where
  "sp_sc_ring_pop ring =
     (let ridx = read_pos ring; widx = write_pos ring in
      if ring_index ridx (unit_num ring) = ring_index widx (unit_num ring)
      then Some (-2, ring, None)
      else do {
        elem \<leftarrow> ring_copy_out ring ridx;
        Some (0, ring\<lparr>read_pos := read_pos ring + 1\<rparr>, Some elem) })"

definition mp_sc_ring_pop :: "ring_t \<Rightarrow> (n4 \<times> ring_t \<times> u1 list option) option" where
  "mp_sc_ring_pop ring =
     (let ridx = read_pos ring; max_ridx = max_read_idx ring in
      if ring_index ridx (unit_num ring) = ring_index max_ridx (unit_num ring)
      then Some (-2, ring, None)
      else do {
        elem \<leftarrow> ring_copy_out ring ridx;
        Some (0, ring\<lparr>read_pos := read_pos ring + 1\<rparr>, Some elem) })"

definition ring_pop :: "ring_t option \<Rightarrow> bool \<Rightarrow>
    (n4 \<times> ring_t option \<times> u1 list option) option" where
  "ring_pop ring_ptr elem =
     (case ring_ptr of
        None \<Rightarrow> Some (-1, None, None)
      | Some ring \<Rightarrow>
          if \<not> elem then Some (-1, Some ring, None)
          else do {
            (ret, ring, out) \<leftarrow>
              (if ring_type ring = RING_MP_MC then mp_mc_ring_pop ring
               else if ring_type ring = RING_SP_MC then sp_mc_ring_pop ring
               else if ring_type ring = RING_MP_SC then mp_sc_ring_pop ring
               else if ring_type ring = RING_SP_SC then sp_sc_ring_pop ring
               else Some (-2, ring, None));
            Some (ret, Some ring, out) })"

section \<open>Abstraction and invariant\<close>

definition ring_unit :: "ring_t \<Rightarrow> nat \<Rightarrow> u1 list" where
  "ring_unit ring k =
     take (unat (unit_size ring)) (drop (k * unat (unit_size ring)) (data ring))"

definition ring_count :: "ring_t \<Rightarrow> nat" where
  "ring_count ring = unat (write_pos ring - read_pos ring)"

definition ring_list :: "ring_t \<Rightarrow> u1 list list" where
  "ring_list ring =
     map (\<lambda>i. ring_unit ring ((unat (read_pos ring) + i) mod unat (unit_num ring)))
       [0..<ring_count ring]"

definition ring_cap :: "ring_t \<Rightarrow> nat" where
  "ring_cap ring = unat (unit_num ring) - 1"

text \<open>
  The byte array has the size that was asked for and its offsets fit the 32 bit arithmetic of
  \<open>ring_offset\<close>; there is always one free slot; a multi-producer ring has published all
  that was reserved when no push is under way.
\<close>

definition ring_shape :: "ring_t \<Rightarrow> bool" where
  "ring_shape ring \<longleftrightarrow>
     unit_size ring \<noteq> 0 \<and> unit_num ring \<noteq> 0 \<and> unit_num ring AND (unit_num ring - 1) = 0 \<and>
     length (data ring) = unat (unit_size ring) * unat (unit_num ring) \<and>
     length (data ring) \<le> 2 ^ 32"

definition ring_inv :: "ring_t \<Rightarrow> bool" where
  "ring_inv ring \<longleftrightarrow>
     ring_shape ring \<and>
     ring_type ring \<in> {RING_SP_SC, RING_SP_MC, RING_MP_SC, RING_MP_MC} \<and>
     ring_count ring < unat (unit_num ring) \<and>
     (ring_type ring \<in> {RING_MP_SC, RING_MP_MC} \<longrightarrow> max_read_idx ring = write_pos ring)"

definition ring_elem_ok :: "ring_t \<Rightarrow> u1 list \<Rightarrow> bool" where
  "ring_elem_ok ring e \<longleftrightarrow> length e = unat (unit_size ring)"

section \<open>Slots\<close>

lemma pow2_dvd_range:
  fixes num :: u4
  assumes "num \<noteq> 0" "num AND (num - 1) = 0"
  obtains k where "k < 32" "num = 2 ^ k" "unat num = 2 ^ k"
  using assms and_pred_eq_0_iff [of num] by (auto simp: unat_pow2)

lemma unat_ring_index:
  assumes "num \<noteq> 0" "num AND (num - 1) = 0"
  shows "unat (ring_index c num) = unat c mod unat num"
proof -
  obtain k where "k < 32" "num = 2 ^ k" "unat num = 2 ^ k"
    using assms by (rule pow2_dvd_range)
  then show ?thesis
    using assms(1) unat_and_pred_pow2 [of k c] by (simp add: ring_index_def)
qed

lemma unat_ring_index_add:
  assumes "num \<noteq> 0" "num AND (num - 1) = 0"
  shows "unat (ring_index (c + of_nat n) num) = (unat c + n) mod unat num"
proof -
  obtain k where k: "k < 32" "num = 2 ^ k" "unat num = 2 ^ k"
    using assms by (rule pow2_dvd_range)
  have "(2::nat) ^ k dvd 2 ^ 32" using k by (intro le_imp_power_dvd) simp
  then have "(unat c + n) mod 2 ^ 32 mod unat num = (unat c + n) mod unat num"
    using k(3) by (simp only: mod_mod_cancel)
  then show ?thesis
    by (simp add: unat_ring_index [OF assms] unat_add_nat)
qed

lemma mod_add_inj:
  fixes r i j n :: nat
  assumes "i < n" "j < n" "(r + i) mod n = (r + j) mod n"
  shows "i = j"
proof -
  have "n dvd (r + j) - (r + i)" "n dvd (r + i) - (r + j)"
    using assms(3) by (metis dvd_minus_mod mod_eq_dvd_iff_nat nat_le_linear diff_is_0_eq' dvd_0_right)+
  then show ?thesis
    using assms(1,2) by (auto dest!: dvd_imp_le simp: not_le intro: le_antisym)
qed

text \<open>The tests of the code on slot numbers decide on the number of elements.\<close>

lemma ring_index_eq_iff:
  assumes "num \<noteq> 0" "num AND (num - 1) = 0" "n < unat num" "m < unat num"
  shows "ring_index (c + of_nat n) num = ring_index (c + of_nat m) num \<longleftrightarrow> n = m"
  using assms mod_add_inj [of n "unat num" m "unat c"]
  by (auto simp: word_unat_eq_iff unat_ring_index_add)

lemma ring_full_iff:
  assumes "num \<noteq> 0" "num AND (num - 1) = 0" "unat (w - r) < unat num"
  shows "ring_index (w + 1) num = ring_index r num \<longleftrightarrow> unat (w - r) = unat num - 1"
proof -
  define n where "n = unat (w - r)"
  have w: "w = r + of_nat n" by (simp add: n_def)
  have "ring_index (w + 1) num = ring_index r num \<longleftrightarrow> (unat r + Suc n) mod unat num = unat r mod unat num"
    using unat_ring_index_add [OF assms(1,2), of r "Suc n"] unat_ring_index [OF assms(1,2), of r]
    by (simp add: word_unat_eq_iff w ac_simps)
  also have "\<dots> \<longleftrightarrow> Suc n = unat num"
  proof
    assume eq: "(unat r + Suc n) mod unat num = unat r mod unat num"
    show "Suc n = unat num"
    proof (rule ccontr)
      assume "Suc n \<noteq> unat num"
      then have "Suc n < unat num" using assms(3) n_def by simp
      then show False using mod_add_inj [of "Suc n" "unat num" 0 "unat r"] eq by simp
    qed
  qed simp
  finally show ?thesis using assms n_def by auto
qed

lemma ring_empty_iff:
  assumes "num \<noteq> 0" "num AND (num - 1) = 0" "unat (w - r) < unat num"
  shows "ring_index r num = ring_index w num \<longleftrightarrow> w = r"
  using ring_index_eq_iff [OF assms(1,2) _ assms(3), of 0 r] assms
  by (auto simp: unat_gt_0 unat_eq_zero)

section \<open>Copies\<close>

lemma ring_shape_D:
  assumes "ring_shape ring"
  shows "unit_num ring \<noteq> 0" "unit_num ring AND (unit_num ring - 1) = 0"
    "0 < unat (unit_num ring)" "0 < unat (unit_size ring)"
    "length (data ring) = unat (unit_size ring) * unat (unit_num ring)"
  using assms by (auto simp: ring_shape_def unat_gt_0)

lemma ring_slot_bound:
  fixes k u n :: nat
  shows "k < n \<Longrightarrow> k * u + u \<le> u * n"
  by (metis Suc_leI add.commute mult.commute mult_Suc mult_le_mono1)

lemma ring_offset_slot:
  assumes "ring_shape ring"
  shows "ring_offset ring idx =
           (unat idx mod unat (unit_num ring)) * unat (unit_size ring)"
    and "ring_offset ring idx + unat (unit_size ring) \<le> length (data ring)"
proof -
  let ?k = "unat idx mod unat (unit_num ring)"
  have k: "unat (ring_index idx (unit_num ring)) = ?k"
    using unat_ring_index ring_shape_D [OF assms] by blast
  have "?k * unat (unit_size ring) + unat (unit_size ring) \<le> length (data ring)"
    unfolding ring_shape_D(5) [OF assms]
    by (rule ring_slot_bound) (simp add: ring_shape_D [OF assms])
  moreover have "length (data ring) \<le> 2 ^ 32" using assms by (simp add: ring_shape_def)
  ultimately show "ring_offset ring idx = ?k * unat (unit_size ring)"
      "ring_offset ring idx + unat (unit_size ring) \<le> length (data ring)"
    using ring_shape_D(4) [OF assms]
    by (simp_all add: ring_offset_def unat_word_ariths k)
qed

lemma ring_copy_out_unit:
  assumes "ring_shape ring"
  shows "ring_copy_out ring idx = Some (ring_unit ring (unat idx mod unat (unit_num ring)))"
  using ring_offset_slot [OF assms, of idx]
  by (simp add: ring_copy_out_def mem_read_def ring_unit_def)

lemma ring_copy_in_unit:
  assumes sh: "ring_shape ring" and "length e = unat (unit_size ring)"
  shows "\<exists>dat. ring_copy_in ring idx e = Some (ring\<lparr>data := dat\<rparr>) \<and>
           length dat = length (data ring) \<and>
           (\<forall>k < unat (unit_num ring). ring_unit (ring\<lparr>data := dat\<rparr>) k =
              (if k = unat idx mod unat (unit_num ring) then e else ring_unit ring k))"
proof -
  let ?u = "unat (unit_size ring)" and ?i = "unat idx mod unat (unit_num ring)"
  obtain dat where w: "mem_write (ring_offset ring idx) e (data ring) = Some dat"
    using mem_write_in [of "ring_offset ring idx" e "data ring"] ring_offset_slot(2) [OF sh] assms(2)
    by auto
  have "ring_unit (ring\<lparr>data := dat\<rparr>) k = (if k = ?i then e else ring_unit ring k)"
    if "k < unat (unit_num ring)" for k
  proof (cases "k = ?i")
    case True
    then show ?thesis
      using mem_read_same [OF w] assms(2) ring_offset_slot(1) [OF sh, of idx]
      by (simp add: ring_unit_def)
  next
    case False
    then have "k * ?u + ?u \<le> ring_offset ring idx \<or> ring_offset ring idx + ?u \<le> k * ?u"
      unfolding ring_offset_slot(1) [OF sh]
      by (metis ring_slot_bound linorder_neqE_nat mult.commute)
    moreover have "k * ?u + ?u \<le> length (data ring)"
      using ring_slot_bound [OF that] ring_shape_D(5) [OF sh] by simp
    ultimately show ?thesis
      using mem_read_other [OF w, of "k * ?u" ?u] False assms(2) by (simp add: ring_unit_def)
  qed
  then show ?thesis
    using w mem_write_length [OF w] assms(2) by (auto simp: ring_copy_in_def mem_read_def)
qed

section \<open>Push and pop on one thread\<close>

lemma cas_same: "lisk_sync_cas v v n = (v, n)"
  by (simp add: lisk_sync_cas_def)

lemma mp_reserve_sequential:
  "mp_reserve_loop lisk_sync_cas ring =
     (if ring_index (write_pos ring + 1) (unit_num ring) =
         ring_index (read_pos ring) (unit_num ring)
      then Some (None, ring)
      else Some (Some (write_pos ring), ring\<lparr>write_pos := write_pos ring + 1\<rparr>))"
  by (subst mp_reserve_loop.simps) (simp add: cas_same)

lemma mp_publish_sequential:
  "max_read_idx ring = widx \<Longrightarrow>
     mp_publish_loop lisk_sync_cas widx ring = Some (ring\<lparr>max_read_idx := widx + 1\<rparr>)"
  by (subst mp_publish_loop.simps) (simp add: cas_same)

text \<open>What a push that finds room does to the ring, whatever the type.\<close>

definition ring_pushed :: "ring_t \<Rightarrow> u1 list \<Rightarrow> ring_t \<Rightarrow> bool" where
  "ring_pushed ring e ring' \<longleftrightarrow>
     (\<exists>dat. ring_copy_in ring (write_pos ring) e = Some (ring\<lparr>data := dat\<rparr>) \<and>
        ring' = ring\<lparr>data := dat, write_pos := write_pos ring + 1,
          max_read_idx := (if ring_type ring \<in> {RING_MP_SC, RING_MP_MC}
                           then write_pos ring + 1 else max_read_idx ring)\<rparr>)"

lemma ring_copy_in_frame:
  "ring_copy_in (ring\<lparr>write_pos := w\<rparr>) idx e =
     map_option (\<lambda>r. r\<lparr>write_pos := w\<rparr>) (ring_copy_in ring idx e)"
  by (auto simp: ring_copy_in_def ring_offset_def split: Option.bind_splits)

lemma ring_push_cases:
  assumes inv: "ring_inv ring" and e: "length e = unat (unit_size ring)"
  shows "ring_count ring = ring_cap ring \<Longrightarrow> ring_push (Some ring) (Some e) = Some (-2, Some ring)"
    and "ring_count ring < ring_cap ring \<Longrightarrow>
           \<exists>ring'. ring_push (Some ring) (Some e) = Some (0, Some ring') \<and> ring_pushed ring e ring'"
proof -
  have sh: "ring_shape ring" and c: "ring_count ring < unat (unit_num ring)"
    using inv by (auto simp: ring_inv_def)
  note full = ring_full_iff [OF ring_shape_D(1,2) [OF sh] c [unfolded ring_count_def]]
  obtain dat where dat: "ring_copy_in ring (write_pos ring) e = Some (ring\<lparr>data := dat\<rparr>)"
    using ring_copy_in_unit [OF sh e] by blast
  show "ring_push (Some ring) (Some e) = Some (-2, Some ring)" if "ring_count ring = ring_cap ring"
    using that inv full
    by (auto simp: ring_push_def mp_ring_push_def mp_ring_push_with_def mp_reserve_sequential
        sp_mc_ring_push_def sp_sc_ring_push_def ring_cap_def ring_count_def ring_inv_def)
  show "\<exists>ring'. ring_push (Some ring) (Some e) = Some (0, Some ring') \<and> ring_pushed ring e ring'"
    if "ring_count ring < ring_cap ring"
    using that inv full dat
    by (auto simp: ring_push_def mp_ring_push_def mp_ring_push_with_def mp_reserve_sequential
        sp_mc_ring_push_def sp_sc_ring_push_def ring_cap_def ring_count_def ring_inv_def
        ring_copy_in_frame mp_publish_sequential ring_pushed_def)
qed

lemma unat_succ_diff:
  fixes w r num :: u4
  assumes "unat (w - r) < unat num - 1"
  shows "unat (w + 1 - r) = Suc (unat (w - r))"
proof -
  have "unat num < 2 ^ LENGTH(32)" by (rule unsigned_less)
  then have lt: "unat (w - r) + 1 < 2 ^ 32" using assms by simp
  have "w + 1 - r = (w - r) + of_nat 1" by simp
  then have "unat (w + 1 - r) = (unat (w - r) + 1) mod 2 ^ 32"
    by (simp only: unat_add_nat) simp
  then show ?thesis using lt by simp
qed

lemma unat_pred_diff:
  assumes "(w :: u4) \<noteq> r"
  shows "Suc (unat (w - (r + 1))) = unat (w - r)"
proof -
  have d: "w - r \<noteq> 0" using assms by simp
  have "w - (r + 1) = (w - r) - 1" by simp
  then have "unat (w - (r + 1)) = unat (w - r) - 1"
    by (simp only: unat_minus_one [OF d])
  then show ?thesis using d by (simp add: unat_gt_0 Suc_leI)
qed

text \<open>
  The three effects on the queue, each under the part of the invariant it needs: a copy into the
  free slot does not change it, moving \<open>write_pos\<close> appends that slot, moving \<open>read_pos\<close> drops
  the head.
\<close>

lemma ring_write_slot:
  assumes "ring_shape ring"
  shows "unat (write_pos ring) mod unat (unit_num ring) =
           (unat (read_pos ring) + ring_count ring) mod unat (unit_num ring)"
  using unat_ring_index_add [OF ring_shape_D(1,2) [OF assms], of "read_pos ring" "ring_count ring"]
    unat_ring_index [OF ring_shape_D(1,2) [OF assms], of "write_pos ring"]
  by (simp add: ring_count_def)

lemma ring_list_write:
  assumes sh: "ring_shape ring" and lt: "ring_count ring < unat (unit_num ring)"
    and e: "length e = unat (unit_size ring)"
    and dat: "ring_copy_in ring (write_pos ring) e = Some (ring\<lparr>data := dat\<rparr>)"
  shows "ring_list (ring\<lparr>data := dat\<rparr>) = ring_list ring"
    and "ring_shape (ring\<lparr>data := dat\<rparr>)"
    and "ring_unit (ring\<lparr>data := dat\<rparr>) (unat (write_pos ring) mod unat (unit_num ring)) = e"
proof -
  let ?n = "unat (unit_num ring)"
  obtain dat' where "ring\<lparr>data := dat\<rparr> = ring\<lparr>data := dat'\<rparr>"
      and l': "length dat' = length (data ring)"
      and u': "\<forall>k < ?n. ring_unit (ring\<lparr>data := dat'\<rparr>) k =
          (if k = unat (write_pos ring) mod ?n then e else ring_unit ring k)"
    using ring_copy_in_unit [OF sh e, of "write_pos ring"] dat by auto
  then have "dat = dat'" by (metis ring_t.select_convs(7) ring_t.surjective ring_t.update_convs(7))
  then have u: "\<And>k. k < ?n \<Longrightarrow> ring_unit (ring\<lparr>data := dat\<rparr>) k =
          (if k = unat (write_pos ring) mod ?n then e else ring_unit ring k)"
    and l: "length dat = length (data ring)"
    using u' l' by auto
  show "ring_shape (ring\<lparr>data := dat\<rparr>)"
    using sh l by (simp add: ring_shape_def)
  show "ring_unit (ring\<lparr>data := dat\<rparr>) (unat (write_pos ring) mod ?n) = e"
    using u ring_shape_D(3) [OF sh] by simp
  have "(unat (read_pos ring) + i) mod ?n \<noteq> unat (write_pos ring) mod ?n"
    if "i < ring_count ring" for i
    unfolding ring_write_slot [OF sh] using mod_add_inj [of i ?n "ring_count ring"] lt that
    by fastforce
  then show "ring_list (ring\<lparr>data := dat\<rparr>) = ring_list ring"
    using ring_shape_D(3) [OF sh] by (simp add: ring_list_def ring_count_def u)
qed

lemma ring_list_advance:
  assumes sh: "ring_shape ring" and room: "ring_count ring < ring_cap ring"
  shows "ring_list (ring\<lparr>write_pos := write_pos ring + 1\<rparr>) =
           ring_list ring @ [ring_unit ring (unat (write_pos ring) mod unat (unit_num ring))]"
    and "ring_count (ring\<lparr>write_pos := write_pos ring + 1\<rparr>) = Suc (ring_count ring)"
proof -
  show cnt: "ring_count (ring\<lparr>write_pos := write_pos ring + 1\<rparr>) = Suc (ring_count ring)"
    using unat_succ_diff room by (simp add: ring_count_def ring_cap_def)
  show "ring_list (ring\<lparr>write_pos := write_pos ring + 1\<rparr>) =
          ring_list ring @ [ring_unit ring (unat (write_pos ring) mod unat (unit_num ring))]"
    by (simp add: ring_list_def cnt ring_write_slot [OF sh] ring_unit_def)
qed

lemma ring_list_drop:
  assumes sh: "ring_shape ring" and ne: "write_pos ring \<noteq> read_pos ring"
  shows "ring_list (ring\<lparr>read_pos := read_pos ring + 1\<rparr>) = tl (ring_list ring)"
    and "Suc (ring_count (ring\<lparr>read_pos := read_pos ring + 1\<rparr>)) = ring_count ring"
    and "ring_list ring =
           ring_unit ring (unat (read_pos ring) mod unat (unit_num ring)) # tl (ring_list ring)"
proof -
  let ?n = "unat (unit_num ring)" and ?r = "ring\<lparr>read_pos := read_pos ring + 1\<rparr>"
  show cnt: "Suc (ring_count ?r) = ring_count ring"
    using unat_pred_diff [OF ne] by (simp add: ring_count_def)
  have "(unat (read_pos ring + 1) + i) mod ?n = (unat (read_pos ring) + Suc i) mod ?n" for i
    using unat_ring_index_add [OF ring_shape_D(1,2) [OF sh], of "read_pos ring + 1" i]
      unat_ring_index_add [OF ring_shape_D(1,2) [OF sh], of "read_pos ring" "Suc i"]
    by (simp add: ac_simps)
  then show "ring_list ?r = tl (ring_list ring)"
    by (simp add: ring_list_def cnt [symmetric] map_tl [symmetric] upt_rec [of 0 "Suc _"] ring_unit_def
        map_Suc_upt [symmetric] comp_def del: upt_Suc)
  show "ring_list ring =
          ring_unit ring (unat (read_pos ring) mod ?n) # tl (ring_list ring)"
    by (simp add: ring_list_def cnt [symmetric] upt_rec [of 0 "Suc _"] del: upt_Suc)
qed

lemma ring_list_max: "ring_list (ring\<lparr>max_read_idx := m\<rparr>) = ring_list ring"
  by (simp add: ring_list_def ring_count_def ring_unit_def)

lemma ring_pushed_ok:
  assumes inv: "ring_inv ring" and e: "length e = unat (unit_size ring)"
    and room: "ring_count ring < ring_cap ring" and p: "ring_pushed ring e ring'"
  shows "ring_inv ring'" "ring_list ring' = ring_list ring @ [e]"
    "unit_size ring' = unit_size ring" "unit_num ring' = unit_num ring"
proof -
  have sh: "ring_shape ring" and lt: "ring_count ring < unat (unit_num ring)"
    using inv by (simp_all add: ring_inv_def)
  from p obtain dat m where dat: "ring_copy_in ring (write_pos ring) e = Some (ring\<lparr>data := dat\<rparr>)"
    and ring': "ring' = ring\<lparr>data := dat, write_pos := write_pos ring + 1, max_read_idx := m\<rparr>"
    and m: "ring_type ring \<in> {RING_MP_SC, RING_MP_MC} \<Longrightarrow> m = write_pos ring + 1"
    by (auto simp: ring_pushed_def)
  let ?d = "ring\<lparr>data := dat\<rparr>"
  note w = ring_list_write [OF sh lt e dat]
  have room': "ring_count ?d < ring_cap ?d" using room by (simp add: ring_count_def ring_cap_def)
  note adv = ring_list_advance [OF w(2) room']
  show "unit_size ring' = unit_size ring" "unit_num ring' = unit_num ring"
    by (simp_all add: ring')
  show "ring_list ring' = ring_list ring @ [e]"
    using adv(1) w(1,3) ring_list_max [of m "ring\<lparr>data := dat, write_pos := write_pos ring + 1\<rparr>"]
    by (simp add: ring')
  have "ring_count ring' = Suc (ring_count ring)"
    using adv(2) by (simp add: ring' ring_count_def)
  then show "ring_inv ring'"
    using inv m w(2) room by (auto simp: ring_inv_def ring_shape_def ring' ring_cap_def)
qed

lemma ring_list_length: "length (ring_list ring) = ring_count ring"
  by (simp add: ring_list_def)

lemma ring_pop_cases:
  assumes inv: "ring_inv ring"
  shows "ring_list ring = [] \<Longrightarrow> ring_pop (Some ring) True = Some (-2, Some ring, None)"
    and "ring_list ring = e # es \<Longrightarrow>
           ring_pop (Some ring) True =
             Some (0, Some (ring\<lparr>read_pos := read_pos ring + 1\<rparr>), Some e)"
proof -
  have sh: "ring_shape ring" and c: "ring_count ring < unat (unit_num ring)"
    and mp: "ring_type ring \<in> {RING_MP_SC, RING_MP_MC} \<Longrightarrow> max_read_idx ring = write_pos ring"
    and ty: "ring_type ring \<in> {RING_SP_SC, RING_SP_MC, RING_MP_SC, RING_MP_MC}"
    using inv by (auto simp: ring_inv_def)
  note empty = ring_empty_iff [OF ring_shape_D(1,2) [OF sh] c [unfolded ring_count_def]]
  note unfolds = ring_pop_def mp_mc_ring_pop.simps sp_mc_ring_pop.simps sp_sc_ring_pop_def
      mp_sc_ring_pop_def cas_same empty
  show "ring_pop (Some ring) True = Some (-2, Some ring, None)" if "ring_list ring = []"
  proof -
    have "write_pos ring = read_pos ring"
      using that ring_list_length [of ring] by (simp add: ring_count_def unat_eq_zero)
    then show ?thesis using ty mp by (auto simp: unfolds)
  qed
  show "ring_pop (Some ring) True =
          Some (0, Some (ring\<lparr>read_pos := read_pos ring + 1\<rparr>), Some e)" if "ring_list ring = e # es"
  proof -
    have pos: "0 < ring_count ring" using that ring_list_length [of ring] by simp
    then have "write_pos ring \<noteq> read_pos ring" by (auto simp: ring_count_def)
    moreover have "ring_copy_out ring (read_pos ring) = Some e"
      using that pos ring_copy_out_unit [OF sh]
      by (auto simp: ring_list_def upt_rec [of 0])
    ultimately show ?thesis using ty mp by (auto simp: unfolds)
  qed
qed

lemma ring_popped_ok:
  assumes inv: "ring_inv ring" and l: "ring_list ring = e # es"
  shows "ring_inv (ring\<lparr>read_pos := read_pos ring + 1\<rparr>)"
    "ring_list (ring\<lparr>read_pos := read_pos ring + 1\<rparr>) = es"
proof -
  have sh: "ring_shape ring" using inv by (simp add: ring_inv_def)
  have ne: "write_pos ring \<noteq> read_pos ring"
    using l ring_list_length [of ring] by (auto simp: ring_count_def)
  note d = ring_list_drop [OF sh ne]
  show "ring_inv (ring\<lparr>read_pos := read_pos ring + 1\<rparr>)"
    using inv d(2) by (auto simp: ring_inv_def ring_shape_def)
  show "ring_list (ring\<lparr>read_pos := read_pos ring + 1\<rparr>) = es" using d(1) l by simp
qed

lemma ring_init_ok:
  assumes "num \<noteq> 0" "len \<noteq> 0" "num AND (num - 1) = 0" "unat len * unat num \<le> 2 ^ 32"
    "mal (24 + unat len * unat num)"
  shows "\<exists>ring. ring_init mal raw (Some p) num len = (0, Some (Some ring)) \<and> ring_inv ring \<and>
           ring_list ring = [] \<and> ring_cap ring = unat num - 1 \<and> unit_size ring = len"
  using assms
  by (auto simp: ring_init_def ring_inv_def ring_shape_def ring_list_def ring_count_def
      ring_cap_def unat_gt_0)

section \<open>The ring is a bounded queue\<close>

lemma ring_push_step:
  assumes "ring_inv ring" "ring_elem_ok ring e"
  shows "\<exists>c ring'. ring_push (Some ring) (Some e) = Some (c, Some ring') \<and> ring_inv ring' \<and>
           unit_size ring' = unit_size ring \<and> unit_num ring' = unit_num ring \<and>
           c = (if ring_count ring < ring_cap ring then 0 else -2) \<and>
           ring_list ring' = (if c = 0 then ring_list ring @ [e] else ring_list ring)"
proof (cases "ring_count ring < ring_cap ring")
  case True
  from assms have e: "length e = unat (unit_size ring)" by (simp add: ring_elem_ok_def)
  obtain ring' where p: "ring_push (Some ring) (Some e) = Some (0, Some ring')"
      "ring_pushed ring e ring'"
    using ring_push_cases(2) [OF assms(1) e True] by blast
  show ?thesis
    using True p(1) ring_pushed_ok [OF assms(1) e True p(2)] by simp
next
  case False
  then have "ring_count ring = ring_cap ring"
    using assms by (auto simp: ring_inv_def ring_cap_def)
  then show ?thesis using ring_push_cases(1) assms by (auto simp: ring_elem_ok_def)
qed

interpretation rq: bounded_fifo
  "\<lambda>s. (case s of Some ring \<Rightarrow> ring_inv ring | None \<Rightarrow> False)"
  "\<lambda>s. (case s of Some ring \<Rightarrow> ring_list ring | None \<Rightarrow> [])"
  "\<lambda>s e. (case s of Some ring \<Rightarrow> ring_elem_ok ring e | None \<Rightarrow> False)"
  "\<lambda>s e. ring_push s (Some e)"
  "\<lambda>s. ring_pop s True"
  "\<lambda>s. (case s of Some ring \<Rightarrow> ring_cap ring | None \<Rightarrow> 0)"
proof (unfold_locales, goal_cases)
  case (1 s e)
  then obtain ring where "s = Some ring" by (cases s) auto
  with 1 show ?case
    using ring_push_step [of ring e] by (auto simp: ring_elem_ok_def fun_eq_iff)
next
  case (2 s e es)
  then obtain ring where "s = Some ring" by (cases s) auto
  with 2 show ?case
    using ring_pop_cases(2) [of ring e es] ring_popped_ok [of ring e es]
    by (auto simp: ring_elem_ok_def fun_eq_iff)
next
  case (3 s)
  then obtain ring where "s = Some ring" by (cases s) auto
  with 3 show ?case using ring_pop_cases(1) [of ring] by auto
next
  case (4 s e c s')
  then obtain ring where "s = Some ring" by (cases s) auto
  with 4 show ?case
    using ring_push_step [of ring e] by (auto simp: ring_list_length split: if_splits)
next
  case (5 s e c s')
  then obtain ring where "s = Some ring" by (cases s) auto
  with 5 show ?case using ring_push_step [of ring e] by (auto simp: ring_cap_def)
next
  case (6 s)
  then show ?case
    by (auto simp: ring_inv_def ring_cap_def ring_list_length split: option.splits)
qed

section \<open>Properties\<close>

text \<open>
  C1. A ring of at most 2^32 bytes made by \<open>ring_init\<close> is a first-in first-out queue (beyond that the
  32 bit offsets of the slots wrap around): whatever sequence of pushes and
  pops a client runs on it, and even when the 32 bit counters wrap around, every call returns, no
  access leaves the byte array, and the elements popped followed by the elements still stored are
  exactly the elements of the successful pushes, in order.
\<close>

theorem ring_fifo:
  assumes "num \<noteq> 0" "len \<noteq> 0" "num AND (num - 1) = 0" "unat len * unat num \<le> 2 ^ 32"
    "mal (24 + unat len * unat num)" "\<forall>e. QPush e \<in> set ops \<longrightarrow> length e = unat len"
  shows "\<exists>ring i out ring'.
           ring_init mal raw (Some p) num len = (0, Some (Some ring)) \<and>
           q_run (\<lambda>s e. ring_push s (Some e)) (\<lambda>s. ring_pop s True) ops (Some ring) =
             Some (i, out, Some ring') \<and>
           ring_inv ring' \<and> i = out @ ring_list ring'"
proof -
  obtain ring where r: "ring_init mal raw (Some p) num len = (0, Some (Some ring))"
      "ring_inv ring" "ring_list ring = []" "unit_size ring = len"
    using ring_init_ok [of num len mal raw p] assms(1-5) by blast
  then show ?thesis
    using rq.run_fifo [of "Some ring" ops] assms(6)
    by (fastforce simp: ring_elem_ok_def split: option.splits)
qed

theorem ring_fifo_witness:
  "\<exists>ring i out ring'.
     ring_init (\<lambda>_. True) (\<lambda>_. 0) (Some None) 4 2 = (0, Some (Some ring)) \<and>
     q_run (\<lambda>s e. ring_push s (Some e)) (\<lambda>s. ring_pop s True)
       [QPush [1, 2], QPop, QPush [3, 4]] (Some ring) = Some (i, out, Some ring') \<and>
     ring_inv ring' \<and> i = out @ ring_list ring'"
  by (rule ring_fifo) auto

text \<open>
  The capacity of a ring of \<open>unit_num\<close> slots is \<open>unit_num - 1\<close>: in a fresh ring that many
  pushes all succeed and the elements are stored in order, the next push answers -2, and
  \<open>ring_size\<close> tells the number of elements.
\<close>

theorem ring_capacity:
  assumes "num \<noteq> 0" "len \<noteq> 0" "num AND (num - 1) = 0" "unat len * unat num \<le> 2 ^ 32"
    "mal (24 + unat len * unat num)"
    "length es = unat num - 1" "\<forall>e \<in> set (x # es). length e = unat len"
  shows "\<exists>ring ring'.
           ring_init mal raw (Some p) num len = (0, Some (Some ring)) \<and>
           q_run (\<lambda>s e. ring_push s (Some e)) (\<lambda>s. ring_pop s True) (map QPush es) (Some ring) =
             Some (es, [], Some ring') \<and>
           ring_list ring' = es \<and>
           ring_push (Some ring') (Some x) = Some (-2, Some ring') \<and>
           ring_size (Some ring') True = (0, Some (of_nat (length es)))"
proof -
  obtain ring where r: "ring_init mal raw (Some p) num len = (0, Some (Some ring))"
      "ring_inv ring" "ring_list ring = []" "ring_cap ring = unat num - 1" "unit_size ring = len"
    using ring_init_ok [of num len mal raw p] assms(1-5) by blast
  have ok: "\<And>e. e \<in> set es \<Longrightarrow> ring_elem_ok ring e"
    using r(5) assms(7) by (simp add: ring_elem_ok_def)
  have "length (ring_list ring) + length es \<le> ring_cap ring" using r(3,4) assms(6) by simp
  then obtain s where
      "q_run (\<lambda>s e. ring_push s (Some e)) (\<lambda>s. ring_pop s True) (map QPush es) (Some ring) =
         Some (es, [], s)" "case s of Some ring \<Rightarrow> ring_inv ring | None \<Rightarrow> False"
      "(\<lambda>e. case s of Some ring \<Rightarrow> ring_elem_ok ring e | None \<Rightarrow> False) = ring_elem_ok ring"
      "(case s of Some ring \<Rightarrow> ring_list ring | None \<Rightarrow> []) = es"
      "(case s of Some ring \<Rightarrow> ring_cap ring | None \<Rightarrow> 0) = ring_cap ring"
    using rq.push_all [of "Some ring" es] r(2,3) ok by auto
  then obtain ring' where t:
      "q_run (\<lambda>s e. ring_push s (Some e)) (\<lambda>s. ring_pop s True) (map QPush es) (Some ring) =
         Some (es, [], Some ring')" "ring_inv ring'" "ring_list ring' = es" "ring_cap ring' = ring_cap ring"
      "ring_elem_ok ring' = ring_elem_ok ring"
    by (cases s) auto
  have cnt: "ring_count ring' = length es" using t(3) ring_list_length by metis
  then have "ring_size (Some ring') True = (0, Some (of_nat (length es)))"
    unfolding cnt [symmetric] by (simp add: ring_size_def ring_count_def)
  moreover have "length x = unat (unit_size ring')"
    using r(5) assms(7) fun_cong [OF t(5), of x] by (simp add: ring_elem_ok_def)
  ultimately show ?thesis
    using r t ring_push_cases(1) [OF t(2), of x] cnt assms(6) by auto
qed

theorem ring_capacity_witness:
  "\<exists>ring ring'.
     ring_init (\<lambda>_. True) (\<lambda>_. 0) (Some None) 4 1 = (0, Some (Some ring)) \<and>
     q_run (\<lambda>s e. ring_push s (Some e)) (\<lambda>s. ring_pop s True)
       (map QPush [[1], [2], [3]]) (Some ring) = Some ([[1], [2], [3]], [], Some ring') \<and>
     ring_list ring' = [[1], [2], [3]] \<and>
     ring_push (Some ring') (Some [4]) = Some (-2, Some ring') \<and>
     ring_size (Some ring') True = (0, Some (of_nat (length [[1::u1], [2], [3]])))"
  by (rule ring_capacity) auto

text \<open>
  With the argument order of the \<open>win_lisk\<close> macro the multi-producer push of a ring with room
  reports success and stores nothing: the counters do not move and the queue is what it was.
\<close>

theorem win_push_loses:
  assumes inv: "ring_inv ring" and ty: "ring_type ring = RING_MP_MC"
    and e: "length e = unat (unit_size ring)"
    and room: "ring_count ring < ring_cap ring"
  shows "\<exists>ring'. win_mp_ring_push ring e = Some (0, ring') \<and>
           write_pos ring' = write_pos ring \<and> max_read_idx ring' = max_read_idx ring \<and>
           ring_list ring' = ring_list ring"
proof -
  have sh: "ring_shape ring" and c: "ring_count ring < unat (unit_num ring)"
    and mp: "max_read_idx ring = write_pos ring"
    using inv ty by (auto simp: ring_inv_def)
  have "ring_index (write_pos ring + 1) (unit_num ring) \<noteq>
        ring_index (read_pos ring) (unit_num ring)"
    using ring_full_iff [OF ring_shape_D(1,2) [OF sh] c [unfolded ring_count_def]] room
    by (auto simp: ring_count_def ring_cap_def)
  then have res: "mp_reserve_loop win_sync_cas ring = Some (Some (write_pos ring), ring)"
    by (subst mp_reserve_loop.simps) (simp add: win_sync_cas_def InterlockedCompareExchange_def)
  obtain dat where dat: "ring_copy_in ring (write_pos ring) e = Some (ring\<lparr>data := dat\<rparr>)"
    using ring_copy_in_unit [OF sh e] by blast
  have "mp_publish_loop win_sync_cas (write_pos ring) (ring\<lparr>data := dat\<rparr>) = Some (ring\<lparr>data := dat\<rparr>)"
    using mp
    by (subst mp_publish_loop.simps) (simp add: win_sync_cas_def InterlockedCompareExchange_def)
  then show ?thesis
    using res dat ring_list_write(1) [OF sh c e dat]
    by (simp add: win_mp_ring_push_def mp_ring_push_with_def)
qed

theorem win_push_loses_witness:
  "\<exists>ring'. win_mp_ring_push \<lparr>unit_size = 1, unit_num = 2, ring_type = 8, write_pos = 0,
       read_pos = 0, max_read_idx = 0, data = [0, 0]\<rparr> [7] = Some (0, ring') \<and>
     write_pos ring' = write_pos \<lparr>unit_size = 1, unit_num = 2, ring_type = 8, write_pos = 0,
       read_pos = 0, max_read_idx = 0, data = [0, 0]\<rparr> \<and>
     max_read_idx ring' = max_read_idx \<lparr>unit_size = 1, unit_num = 2, ring_type = 8, write_pos = 0,
       read_pos = 0, max_read_idx = 0, data = [0, 0]\<rparr> \<and>
     ring_list ring' = ring_list \<lparr>unit_size = 1, unit_num = 2, ring_type = 8, write_pos = 0,
       read_pos = 0, max_read_idx = 0, data = [0, 0]\<rparr>"
  by (rule win_push_loses)
    (auto simp: ring_inv_def ring_shape_def ring_count_def ring_cap_def)

lemma mp_publish_stuck:
  assumes "mp_publish_loop lisk_sync_cas widx ring = Some ring'"
  shows "max_read_idx ring = widx"
proof -
  have "lisk_sync_cas = lisk_sync_cas \<longrightarrow> max_read_idx ring = widx"
    by (rule mp_publish_loop.raw_induct
        [where P = "\<lambda>cas widx ring _. cas = lisk_sync_cas \<longrightarrow> max_read_idx ring = widx",
         OF _ assms])
      (auto simp: lisk_sync_cas_def split: if_splits)
  then show ?thesis by simp
qed

text \<open>
  \<open>ring_set_type\<close> must come before the first push, as its comment asks: a ring that has taken an
  element as a single-producer ring and is then made a multi-producer ring never returns from
  its next push, because \<open>max_read_idx\<close> was not kept and the publishing loop waits for it.
\<close>

theorem ring_switch_blocks:
  assumes inv: "ring_inv ring" and e: "length e = unat (unit_size ring)"
    and ty: "ring_type ring = RING_SP_SC" and stale: "max_read_idx ring \<noteq> write_pos ring"
    and room: "ring_count ring < ring_cap ring"
  shows "\<exists>ring'. ring_set_type (Some ring) RING_MP_MC = (0, Some ring') \<and>
           ring_push (Some ring') (Some e) = None"
proof -
  let ?r = "ring\<lparr>ring_type := RING_MP_MC\<rparr>"
  have sh: "ring_shape ring" and c: "ring_count ring < unat (unit_num ring)"
    using inv by (auto simp: ring_inv_def)
  have room': "ring_index (write_pos ring + 1) (unit_num ring) \<noteq>
        ring_index (read_pos ring) (unit_num ring)"
    using ring_full_iff [OF ring_shape_D(1,2) [OF sh] c [unfolded ring_count_def]] room
    by (auto simp: ring_count_def ring_cap_def)
  have sh': "ring_shape ?r" using sh by (simp add: ring_shape_def)
  obtain dat where dat: "ring_copy_in ?r (write_pos ring) e = Some (?r\<lparr>data := dat\<rparr>)"
    using ring_copy_in_unit [OF sh', of e "write_pos ring"] e by auto
  have "mp_publish_loop lisk_sync_cas (write_pos ring)
          (?r\<lparr>data := dat, write_pos := write_pos ring + 1\<rparr>) = None" (is "?loop = _")
    using mp_publish_stuck [of "write_pos ring" "?r\<lparr>data := dat, write_pos := write_pos ring + 1\<rparr>"]
      stale by (cases ?loop) auto
  then have "ring_push (Some ?r) (Some e) = None"
    using room' dat
    by (simp add: ring_push_def mp_ring_push_def mp_ring_push_with_def mp_reserve_sequential
        ring_copy_in_frame)
  then show ?thesis by (simp add: ring_set_type_def)
qed

theorem ring_switch_blocks_witness:
  "\<exists>ring'. ring_set_type (Some \<lparr>unit_size = 1, unit_num = 4, ring_type = 1, write_pos = 1,
        read_pos = 0, max_read_idx = 0, data = [5, 0, 0, 0]\<rparr>) 8 = (0, Some ring') \<and>
     ring_push (Some ring') (Some [7]) = None"
  by (rule ring_switch_blocks)
    (auto simp: ring_inv_def ring_shape_def ring_count_def ring_cap_def)

end
