(* ===== verification/Lisk_Ring_Conc.thy ===== *)
theory Lisk_Ring_Conc
  imports Lisk_Ring
begin

text \<open>
  The lock-free ring of \<open>ring4/src/lisk_ring.c\<close> shared by several threads, as a step relation.

  A thread is at one of the program points of \<open>prod_pc\<close> or \<open>cons_pc\<close>; one step is one access to
  the shared structure: a load of a counter, a copy of one element, a store or a
  compare-and-swap. \<open>sp_push_step\<close> follows \<open>sp_sc_ring_push\<close> and \<open>sp_mc_ring_push\<close>,
  \<open>mp_push_step\<close> follows \<open>mp_ring_push\<close>, \<open>sc_pop_step\<close> and \<open>mc_pop_step\<close> the pops with one and with
  many consumers; the last two take the counter that bounds the reader (\<open>write_pos\<close>, or
  \<open>max_read_idx\<close> when there are many producers). A step function is \<open>None\<close> at a program point that
  would leave the byte array.

  \<open>sys_step\<close> interleaves any number of producers and consumers. The two ghost fields \<open>pushed\<close> and
  \<open>popped\<close> record the elements in the order in which the pushes and pops took effect. Loads,
  stores and copies are sequentially consistent and each is one step; the theorems also show that
  the slot a producer copies to is never the slot a consumer may take from, so that the
  granularity of the copy does not matter there.
\<close>

section \<open>Program points\<close>

datatype prod_pc =
    P_idle
  | P_call "u1 list"
  | P_ridx "u1 list" u4
  | P_ready "u1 list" u4
  | P_reserved "u1 list" u4
  | P_copied "u1 list" u4

datatype cons_pc =
    C_idle
  | C_call
  | C_ridx u4
  | C_ready u4
  | C_copied u4 "u1 list"

section \<open>One step of a thread\<close>

text \<open>
  The result of a step: the ring, the new program point, and the element whose push or pop took
  effect in the step, if one did.
\<close>

fun sp_push_step :: "ring_t \<Rightarrow> prod_pc \<Rightarrow> (ring_t \<times> prod_pc \<times> u1 list option) option" where
  "sp_push_step ring P_idle = None"
| "sp_push_step ring (P_call e) = Some (ring, P_ridx e (read_pos ring), None)"
| "sp_push_step ring (P_ridx e ridx) =
     (if ring_index (write_pos ring + 1) (unit_num ring) = ring_index ridx (unit_num ring)
      then Some (ring, P_idle, None)
      else Some (ring, P_ready e (write_pos ring), None))"
| "sp_push_step ring (P_ready e widx) =
     (case ring_copy_in ring widx e of
        None \<Rightarrow> None
      | Some ring' \<Rightarrow> Some (ring', P_copied e widx, None))"
| "sp_push_step ring (P_reserved e widx) = None"
| "sp_push_step ring (P_copied e widx) =
     Some (ring\<lparr>write_pos := write_pos ring + 1\<rparr>, P_idle, Some e)"

fun mp_push_step :: "ring_t \<Rightarrow> prod_pc \<Rightarrow> (ring_t \<times> prod_pc \<times> u1 list option) option" where
  "mp_push_step ring P_idle = None"
| "mp_push_step ring (P_call e) = Some (ring, P_ridx e (read_pos ring), None)"
| "mp_push_step ring (P_ridx e ridx) =
     (if ring_index (write_pos ring + 1) (unit_num ring) = ring_index ridx (unit_num ring)
      then Some (ring, P_idle, None)
      else Some (ring, P_ready e (write_pos ring), None))"
| "mp_push_step ring (P_ready e widx) =
     (let (seen, w) = lisk_sync_cas (write_pos ring) widx (widx + 1) in
      Some (ring\<lparr>write_pos := w\<rparr>, if seen \<noteq> widx then P_call e else P_reserved e widx, None))"
| "mp_push_step ring (P_reserved e widx) =
     (case ring_copy_in ring widx e of
        None \<Rightarrow> None
      | Some ring' \<Rightarrow> Some (ring', P_copied e widx, None))"
| "mp_push_step ring (P_copied e widx) =
     (let (seen, m) = lisk_sync_cas (max_read_idx ring) widx (widx + 1) in
      Some (ring\<lparr>max_read_idx := m\<rparr>,
        if seen \<noteq> widx then P_copied e widx else P_idle,
        if seen \<noteq> widx then None else Some e))"

fun sc_pop_step :: "(ring_t \<Rightarrow> u4) \<Rightarrow> ring_t \<Rightarrow> cons_pc \<Rightarrow>
    (ring_t \<times> cons_pc \<times> u1 list option) option" where
  "sc_pop_step lim ring C_idle = None"
| "sc_pop_step lim ring C_call = Some (ring, C_ridx (read_pos ring), None)"
| "sc_pop_step lim ring (C_ridx ridx) =
     (if ring_index ridx (unit_num ring) = ring_index (lim ring) (unit_num ring)
      then Some (ring, C_idle, None) else Some (ring, C_ready ridx, None))"
| "sc_pop_step lim ring (C_ready ridx) =
     (case ring_copy_out ring ridx of
        None \<Rightarrow> None
      | Some e \<Rightarrow> Some (ring, C_copied ridx e, None))"
| "sc_pop_step lim ring (C_copied ridx e) =
     Some (ring\<lparr>read_pos := read_pos ring + 1\<rparr>, C_idle, Some e)"

fun mc_pop_step :: "(ring_t \<Rightarrow> u4) \<Rightarrow> ring_t \<Rightarrow> cons_pc \<Rightarrow>
    (ring_t \<times> cons_pc \<times> u1 list option) option" where
  "mc_pop_step lim ring C_idle = None"
| "mc_pop_step lim ring C_call = Some (ring, C_ridx (read_pos ring), None)"
| "mc_pop_step lim ring (C_ridx ridx) =
     (if ring_index ridx (unit_num ring) = ring_index (lim ring) (unit_num ring)
      then Some (ring, C_idle, None) else Some (ring, C_ready ridx, None))"
| "mc_pop_step lim ring (C_ready ridx) =
     (case ring_copy_out ring ridx of
        None \<Rightarrow> None
      | Some e \<Rightarrow> Some (ring, C_copied ridx e, None))"
| "mc_pop_step lim ring (C_copied ridx e) =
     (let (seen, r) = lisk_sync_cas (read_pos ring) ridx (ridx + 1) in
      Some (ring\<lparr>read_pos := r\<rparr>,
        if seen = ridx then C_idle else C_call,
        if seen = ridx then Some e else None))"

section \<open>The system\<close>

record sys =
  shared :: ring_t
  prods :: "nat \<Rightarrow> prod_pc"
  conss :: "nat \<Rightarrow> cons_pc"
  pushed :: "u1 list list"
  popped :: "u1 list list"

definition sys_init :: "ring_t \<Rightarrow> sys" where
  "sys_init ring = \<lparr>shared = ring, prods = (\<lambda>_. P_idle), conss = (\<lambda>_. C_idle),
     pushed = [], popped = []\<rparr>"

definition add_event :: "u1 list option \<Rightarrow> u1 list list \<Rightarrow> u1 list list" where
  "add_event ev es = (case ev of None \<Rightarrow> es | Some e \<Rightarrow> es @ [e])"

definition prod_move :: "nat \<Rightarrow> ring_t \<times> prod_pc \<times> u1 list option \<Rightarrow> sys \<Rightarrow> sys" where
  "prod_move i = (\<lambda>(ring, pc, ev) s.
     s\<lparr>shared := ring, prods := (prods s)(i := pc), pushed := add_event ev (pushed s)\<rparr>)"

definition cons_move :: "nat \<Rightarrow> ring_t \<times> cons_pc \<times> u1 list option \<Rightarrow> sys \<Rightarrow> sys" where
  "cons_move i = (\<lambda>(ring, pc, ev) s.
     s\<lparr>shared := ring, conss := (conss s)(i := pc), popped := add_event ev (popped s)\<rparr>)"

type_synonym push_prog = "ring_t \<Rightarrow> prod_pc \<Rightarrow> (ring_t \<times> prod_pc \<times> u1 list option) option"
type_synonym pop_prog = "ring_t \<Rightarrow> cons_pc \<Rightarrow> (ring_t \<times> cons_pc \<times> u1 list option) option"

text \<open>\<open>np\<close> producers and \<open>nc\<close> consumers; an idle thread may call again at any time.\<close>

inductive sys_step :: "push_prog \<Rightarrow> pop_prog \<Rightarrow> nat \<Rightarrow> nat \<Rightarrow> sys \<Rightarrow> sys \<Rightarrow> bool"
  for ps :: push_prog and cs :: pop_prog and np nc :: nat where
  start_push: "i < np \<Longrightarrow> prods s i = P_idle \<Longrightarrow> length e = unat (unit_size (shared s)) \<Longrightarrow>
     sys_step ps cs np nc s (s\<lparr>prods := (prods s)(i := P_call e)\<rparr>)"
| push_step: "i < np \<Longrightarrow> ps (shared s) (prods s i) = Some res \<Longrightarrow>
     sys_step ps cs np nc s (prod_move i res s)"
| start_pop: "i < nc \<Longrightarrow> conss s i = C_idle \<Longrightarrow>
     sys_step ps cs np nc s (s\<lparr>conss := (conss s)(i := C_call)\<rparr>)"
| pop_step: "i < nc \<Longrightarrow> cs (shared s) (conss s i) = Some res \<Longrightarrow>
     sys_step ps cs np nc s (cons_move i res s)"

inductive_cases sys_stepE: "sys_step ps cs np nc s t"

abbreviation sys_reach :: "push_prog \<Rightarrow> pop_prog \<Rightarrow> nat \<Rightarrow> nat \<Rightarrow> sys \<Rightarrow> sys \<Rightarrow> bool" where
  "sys_reach ps cs np nc \<equiv> (sys_step ps cs np nc)\<^sup>*\<^sup>*"

text \<open>The four ring types: which push and which pop run, and how many threads of each kind.\<close>

abbreviation (input) "SP_SC_reach \<equiv> sys_reach sp_push_step (sc_pop_step write_pos) 1 1"
abbreviation (input) "SP_MC_reach nc \<equiv> sys_reach sp_push_step (mc_pop_step write_pos) 1 nc"
abbreviation (input) "MP_MC_reach np nc \<equiv> sys_reach mp_push_step (mc_pop_step max_read_idx) np nc"

section \<open>The single producer\<close>

definition ring_ok :: "ring_t \<Rightarrow> bool" where
  "ring_ok ring \<longleftrightarrow> ring_shape ring \<and> ring_count ring < unat (unit_num ring)"

text \<open>
  What a single producer knows at each program point. The value of \<open>read_pos\<close> it works with may
  be old; what counts is that it does not lie behind the window of the ring.
\<close>

fun prod_ok :: "ring_t \<Rightarrow> prod_pc \<Rightarrow> bool" where
  "prod_ok ring P_idle = True"
| "prod_ok ring (P_call e) = (length e = unat (unit_size ring))"
| "prod_ok ring (P_ridx e ridx) =
     (length e = unat (unit_size ring) \<and> ring_count ring \<le> unat (write_pos ring - ridx) \<and>
      unat (write_pos ring - ridx) < unat (unit_num ring))"
| "prod_ok ring (P_ready e widx) =
     (length e = unat (unit_size ring) \<and> widx = write_pos ring \<and> ring_count ring < ring_cap ring)"
| "prod_ok ring (P_reserved e widx) = False"
| "prod_ok ring (P_copied e widx) =
     (widx = write_pos ring \<and> ring_count ring < ring_cap ring \<and>
      ring_unit ring (unat (write_pos ring) mod unat (unit_num ring)) = e)"

text \<open>
  A step of the producer keeps the invariant, leaves the elements of the queue where they are and
  appends exactly the element it reports.
\<close>

lemma sp_push_step_ok:
  assumes ok: "ring_ok ring" and pc: "prod_ok ring pc"
    and st: "sp_push_step ring pc = Some (ring', pc', ev)"
  shows "ring_ok ring'" "prod_ok ring' pc'" "ring_list ring' = add_event ev (ring_list ring)"
    "read_pos ring' = read_pos ring" "unit_size ring' = unit_size ring"
    "unit_num ring' = unit_num ring"
proof -
  have sh: "ring_shape ring" and lt: "ring_count ring < unat (unit_num ring)"
    using ok by (auto simp: ring_ok_def)
  have "ring_ok ring' \<and> prod_ok ring' pc' \<and> ring_list ring' = add_event ev (ring_list ring) \<and>
    read_pos ring' = read_pos ring \<and> unit_size ring' = unit_size ring \<and>
    unit_num ring' = unit_num ring"
  proof (cases pc)
    case (P_call e)
    then show ?thesis using ok pc st lt by (auto simp: add_event_def ring_count_def)
  next
    case (P_ridx e ridx)
    then have "ring_index (write_pos ring + 1) (unit_num ring) = ring_index ridx (unit_num ring) \<longleftrightarrow>
        unat (write_pos ring - ridx) = unat (unit_num ring) - 1"
      using ring_full_iff [OF ring_shape_D(1,2) [OF sh]] pc by simp
    then show ?thesis
      using P_ridx ok pc st by (auto simp: add_event_def ring_cap_def split: if_splits)
  next
    case (P_ready e widx)
    then have e: "length e = unat (unit_size ring)" and w: "widx = write_pos ring"
      and room: "ring_count ring < ring_cap ring" using pc by auto
    obtain dat where dat: "ring_copy_in ring (write_pos ring) e = Some (ring\<lparr>data := dat\<rparr>)"
      using ring_copy_in_unit [OF sh e] by blast
    show ?thesis
      using P_ready st dat w room lt ring_list_write [OF sh lt e dat]
      by (auto simp: add_event_def ring_ok_def ring_count_def ring_cap_def)
  next
    case (P_copied e widx)
    then have room: "ring_count ring < ring_cap ring"
      and u: "ring_unit ring (unat (write_pos ring) mod unat (unit_num ring)) = e"
      using pc by auto
    show ?thesis
      using P_copied st sh u room ring_list_advance [OF sh room]
      by (auto simp: add_event_def ring_ok_def ring_cap_def ring_shape_def)
  qed (use st pc in auto)
  then show "ring_ok ring'" "prod_ok ring' pc'" "ring_list ring' = add_event ev (ring_list ring)"
    "read_pos ring' = read_pos ring" "unit_size ring' = unit_size ring"
    "unit_num ring' = unit_num ring" by auto
qed

text \<open>Taking the head keeps what the producer knows.\<close>

lemma drop_head_ok:
  assumes ok: "ring_ok ring" and pc: "prod_ok ring pc" and ne: "ring_list ring = e # es"
  shows "ring_ok (ring\<lparr>read_pos := read_pos ring + 1\<rparr>)"
    "prod_ok (ring\<lparr>read_pos := read_pos ring + 1\<rparr>) pc"
    "ring_list (ring\<lparr>read_pos := read_pos ring + 1\<rparr>) = es"
proof -
  have sh: "ring_shape ring" and lt: "ring_count ring < unat (unit_num ring)"
    using ok by (auto simp: ring_ok_def)
  have "write_pos ring \<noteq> read_pos ring"
    using ne ring_list_length [of ring] by (auto simp: ring_count_def)
  note d = ring_list_drop [OF sh this]
  show "ring_list (ring\<lparr>read_pos := read_pos ring + 1\<rparr>) = es" using d(1) ne by simp
  show "ring_ok (ring\<lparr>read_pos := read_pos ring + 1\<rparr>)"
    using d(2) sh lt by (auto simp: ring_ok_def ring_shape_def)
  show "prod_ok (ring\<lparr>read_pos := read_pos ring + 1\<rparr>) pc"
    using pc d(2) by (cases pc) (auto simp: ring_cap_def ring_unit_def)
qed

text \<open>The slot of the head is what a copy of the element at \<open>read_pos\<close> gives.\<close>

lemma head_slot:
  assumes ok: "ring_ok ring" and ne: "write_pos ring \<noteq> read_pos ring"
  shows "\<exists>e es. ring_copy_out ring (read_pos ring) = Some e \<and> ring_list ring = e # es"
  using ring_list_drop(3) [OF _ ne] ring_copy_out_unit [of ring] ok unfolding ring_ok_def by blast

lemma nonempty_list:
  assumes "ring_ok ring"
  shows "ring_index (read_pos ring) (unit_num ring) = ring_index (write_pos ring) (unit_num ring)
           \<longleftrightarrow> ring_list ring = []"
    and "ring_list ring = [] \<longleftrightarrow> write_pos ring = read_pos ring"
proof -
  show *: "ring_list ring = [] \<longleftrightarrow> write_pos ring = read_pos ring"
    using ring_list_length [of ring] by (auto simp: ring_count_def unat_eq_zero)
  have "unat (write_pos ring - read_pos ring) < unat (unit_num ring)"
    using assms by (simp add: ring_ok_def ring_count_def)
  then show "ring_index (read_pos ring) (unit_num ring) = ring_index (write_pos ring) (unit_num ring)
           \<longleftrightarrow> ring_list ring = []"
    using ring_empty_iff [of "unit_num ring"] ring_shape_D(1,2) assms * unfolding ring_ok_def by blast
qed

section \<open>One consumer\<close>

fun cons_ok :: "ring_t \<Rightarrow> cons_pc \<Rightarrow> bool" where
  "cons_ok ring C_idle = True"
| "cons_ok ring C_call = True"
| "cons_ok ring (C_ridx ridx) = (ridx = read_pos ring)"
| "cons_ok ring (C_ready ridx) = (ridx = read_pos ring \<and> ring_list ring \<noteq> [])"
| "cons_ok ring (C_copied ridx e) = (\<exists>es. ridx = read_pos ring \<and> ring_list ring = e # es)"

definition spsc_inv :: "sys \<Rightarrow> bool" where
  "spsc_inv s \<longleftrightarrow> ring_ok (shared s) \<and> prod_ok (shared s) (prods s 0) \<and>
     cons_ok (shared s) (conss s 0) \<and> pushed s = popped s @ ring_list (shared s)"

lemma cons_ok_append:
  assumes "cons_ok ring pc" "read_pos ring' = read_pos ring"
    "ring_list ring' = add_event ev (ring_list ring)"
  shows "cons_ok ring' pc"
  using assms by (cases pc) (auto simp: add_event_def split: option.splits)

lemma spsc_inv_push:
  assumes "spsc_inv s" "sp_push_step (shared s) (prods s 0) = Some res"
  shows "spsc_inv (prod_move 0 res s)"
proof -
  obtain ring' pc' ev where res: "res = (ring', pc', ev)" by (cases res) auto
  note st = sp_push_step_ok [of "shared s" "prods s 0" ring' pc' ev]
  show ?thesis
    using assms st res cons_ok_append [of "shared s" "conss s 0" ring' ev]
    by (auto simp: spsc_inv_def prod_move_def add_event_def split: option.splits)
qed

lemma spsc_inv_pop:
  assumes inv: "spsc_inv s" and st: "sc_pop_step write_pos (shared s) (conss s 0) = Some res"
  shows "spsc_inv (cons_move 0 res s)"
proof (cases "conss s 0")
  case (C_ridx ridx)
  then show ?thesis
    using assms nonempty_list(1) [of "shared s"]
    by (auto simp: spsc_inv_def cons_move_def add_event_def split: if_splits)
next
  case (C_ready ridx)
  then have "write_pos (shared s) \<noteq> read_pos (shared s)"
    using inv nonempty_list(2) [of "shared s"] by (auto simp: spsc_inv_def)
  then show ?thesis
    using assms C_ready head_slot [of "shared s"]
    by (auto simp: spsc_inv_def cons_move_def add_event_def)
next
  case (C_copied ridx e)
  then obtain es where l: "ring_list (shared s) = e # es"
    using inv by (auto simp: spsc_inv_def)
  then show ?thesis
    using assms C_copied drop_head_ok [of "shared s" "prods s 0" e es]
    by (auto simp: spsc_inv_def cons_move_def add_event_def)
qed (use assms in \<open>auto simp: spsc_inv_def cons_move_def add_event_def\<close>)

lemma spsc_inv_step:
  assumes "spsc_inv s" "sys_step sp_push_step (sc_pop_step write_pos) 1 1 s t"
  shows "spsc_inv t"
  using assms(2)
proof (cases rule: sys_step.cases)
  case (push_step i res)
  then show ?thesis using spsc_inv_push [OF assms(1)] by simp
next
  case (pop_step i res)
  then show ?thesis using spsc_inv_pop [OF assms(1)] by simp
qed (use assms(1) in \<open>auto simp: spsc_inv_def\<close>)

lemma spsc_inv_reach: "SP_SC_reach s t \<Longrightarrow> spsc_inv s \<Longrightarrow> spsc_inv t"
  by (induction rule: rtranclp_induct) (auto intro: spsc_inv_step)

section \<open>Many consumers\<close>

text \<open>
  A consumer may work with an old \<open>read_pos\<close>; the compare-and-swap must then fail. It does as
  long as the counter has not gone all the way round, that is for fewer than \<open>2 ^ 32\<close> pops.
\<close>

fun mcons_ok :: "nat \<Rightarrow> ring_t \<Rightarrow> cons_pc \<Rightarrow> bool" where
  "mcons_ok n ring C_idle = True"
| "mcons_ok n ring C_call = True"
| "mcons_ok n ring (C_ridx ridx) = (unat ridx \<le> n)"
| "mcons_ok n ring (C_ready ridx) =
     (unat ridx \<le> n \<and> (ridx = read_pos ring \<longrightarrow> ring_list ring \<noteq> []))"
| "mcons_ok n ring (C_copied ridx e) =
     (unat ridx \<le> n \<and> (ridx = read_pos ring \<longrightarrow> (\<exists>es. ring_list ring = e # es)))"

definition spmc_inv :: "sys \<Rightarrow> bool" where
  "spmc_inv s \<longleftrightarrow> ring_ok (shared s) \<and> prod_ok (shared s) (prods s 0) \<and>
     unat (read_pos (shared s)) = length (popped s) \<and>
     (\<forall>j. mcons_ok (length (popped s)) (shared s) (conss s j)) \<and>
     pushed s = popped s @ ring_list (shared s)"

lemma mcons_ok_append:
  assumes "mcons_ok n ring pc" "read_pos ring' = read_pos ring"
    "ring_list ring' = add_event ev (ring_list ring)"
  shows "mcons_ok n ring' pc"
  using assms by (cases pc) (auto simp: add_event_def split: option.splits)

lemma mcons_ok_older:
  assumes "mcons_ok n ring pc" "n < unat (read_pos ring')"
  shows "mcons_ok (Suc n) ring' pc"
  using assms by (cases pc) auto

lemma spmc_inv_push:
  assumes "spmc_inv s" "sp_push_step (shared s) (prods s 0) = Some res"
  shows "spmc_inv (prod_move 0 res s)"
proof -
  obtain ring' pc' ev where res: "res = (ring', pc', ev)" by (cases res) auto
  note st = sp_push_step_ok [of "shared s" "prods s 0" ring' pc' ev]
  show ?thesis
    using assms st res mcons_ok_append [of _ "shared s" _ ring' ev]
    by (auto simp: spmc_inv_def prod_move_def add_event_def split: option.splits)
qed

lemma spmc_inv_take:
  assumes inv: "spmc_inv s" and pc: "conss s i = C_copied (read_pos (shared s)) e"
    and few: "length (popped s) + 1 < 2 ^ 32"
  shows "spmc_inv (cons_move i
           ((shared s)\<lparr>read_pos := read_pos (shared s) + 1\<rparr>, C_idle, Some e) s)"
proof -
  let ?r = "read_pos (shared s)" and ?ring' = "(shared s)\<lparr>read_pos := read_pos (shared s) + 1\<rparr>"
  have len: "unat ?r = length (popped s)" using inv by (simp add: spmc_inv_def)
  then have len': "unat (?r + 1) = Suc (length (popped s))"
    using few unat_add_nat [of ?r 1] by simp
  have "mcons_ok (length (popped s)) (shared s) (conss s i)"
    using inv by (simp add: spmc_inv_def)
  then obtain es where l: "ring_list (shared s) = e # es" using pc by auto
  have "mcons_ok (Suc (length (popped s))) ?ring' (conss s j)" for j
    by (rule mcons_ok_older [of _ "shared s"]) (use inv len' in \<open>simp_all add: spmc_inv_def\<close>)
  then show ?thesis
    using inv l len' drop_head_ok [of "shared s" "prods s 0" e es]
    by (simp add: spmc_inv_def cons_move_def add_event_def)
qed

lemma spmc_inv_pop:
  assumes inv: "spmc_inv s" and st: "mc_pop_step write_pos (shared s) (conss s i) = Some res"
    and few: "length (popped (cons_move i res s)) < 2 ^ 32"
  shows "spmc_inv (cons_move i res s)"
proof (cases "conss s i")
  case (C_ridx ridx)
  moreover have "mcons_ok (length (popped s)) (shared s) (conss s i)"
    using inv by (simp add: spmc_inv_def)
  ultimately show ?thesis
    using assms nonempty_list(1) [of "shared s"]
    by (auto simp: spmc_inv_def cons_move_def add_event_def split: if_splits)
next
  case (C_ready ridx)
  moreover have ok: "mcons_ok (length (popped s)) (shared s) (conss s i)"
    using inv by (simp add: spmc_inv_def)
  moreover have "\<exists>es. ring_list (shared s) = e # es"
    if "ring_copy_out (shared s) (read_pos (shared s)) = Some e" "ring_list (shared s) \<noteq> []" for e
    using that head_slot [of "shared s"] nonempty_list(2) [of "shared s"] inv
    by (auto simp: spmc_inv_def)
  ultimately show ?thesis
    using inv st
    by (auto simp: spmc_inv_def cons_move_def add_event_def split: option.splits)
next
  case (C_copied ridx e)
  show ?thesis
  proof (cases "ridx = read_pos (shared s)")
    case True
    then show ?thesis
      using C_copied st few spmc_inv_take [OF inv, of i e]
      by (auto simp: lisk_sync_cas_def cons_move_def add_event_def)
  next
    case False
    then show ?thesis
      using C_copied st inv
      by (auto simp: lisk_sync_cas_def spmc_inv_def cons_move_def add_event_def)
  qed
qed (use assms in \<open>auto simp: spmc_inv_def cons_move_def add_event_def\<close>)

lemma popped_mono: "sys_step ps cs np nc s t \<Longrightarrow> length (popped s) \<le> length (popped t)"
  by (erule sys_stepE) (auto simp: prod_move_def cons_move_def add_event_def split: option.splits)

lemma spmc_inv_step:
  assumes "spmc_inv s" "sys_step sp_push_step (mc_pop_step write_pos) 1 nc s t"
    "length (popped t) < 2 ^ 32"
  shows "spmc_inv t"
  using assms(2)
proof (cases rule: sys_step.cases)
  case (push_step i res)
  then show ?thesis using spmc_inv_push [OF assms(1)] by simp
next
  case (pop_step i res)
  then show ?thesis using spmc_inv_pop [OF assms(1)] assms(3) by simp
qed (use assms(1) in \<open>auto simp: spmc_inv_def\<close>)

lemma spmc_inv_reach:
  assumes "SP_MC_reach nc s t" "spmc_inv s" "length (popped t) < 2 ^ 32"
  shows "spmc_inv t"
  using assms
proof (induction rule: rtranclp_induct)
  case (step t u)
  then show ?case using popped_mono [OF step.hyps(2)] spmc_inv_step by fastforce
qed

section \<open>Runs\<close>

text \<open>A schedule names the thread that moves next, so that a run can be evaluated.\<close>

datatype act = StartPush nat "u1 list" | StepProd nat | StartPop nat | StepCons nat

fun sys_exec :: "push_prog \<Rightarrow> pop_prog \<Rightarrow> nat \<Rightarrow> nat \<Rightarrow> act \<Rightarrow> sys \<Rightarrow> sys option" where
  "sys_exec ps cs np nc (StartPush i e) s =
     (if i < np \<and> prods s i = P_idle \<and> length e = unat (unit_size (shared s))
      then Some (s\<lparr>prods := (prods s)(i := P_call e)\<rparr>) else None)"
| "sys_exec ps cs np nc (StepProd i) s =
     (if i < np then map_option (\<lambda>res. prod_move i res s) (ps (shared s) (prods s i)) else None)"
| "sys_exec ps cs np nc (StartPop i) s =
     (if i < nc \<and> conss s i = C_idle
      then Some (s\<lparr>conss := (conss s)(i := C_call)\<rparr>) else None)"
| "sys_exec ps cs np nc (StepCons i) s =
     (if i < nc then map_option (\<lambda>res. cons_move i res s) (cs (shared s) (conss s i)) else None)"

fun sys_run :: "push_prog \<Rightarrow> pop_prog \<Rightarrow> nat \<Rightarrow> nat \<Rightarrow> act list \<Rightarrow> sys \<Rightarrow> sys option" where
  "sys_run ps cs np nc [] s = Some s"
| "sys_run ps cs np nc (a # as) s =
     (case sys_exec ps cs np nc a s of None \<Rightarrow> None | Some t \<Rightarrow> sys_run ps cs np nc as t)"

lemma sys_exec_step:
  "sys_exec ps cs np nc a s = Some t \<Longrightarrow> sys_step ps cs np nc s t"
  by (cases a) (auto split: if_splits intro: sys_step.intros)

lemma sys_run_reach:
  "sys_run ps cs np nc as s = Some t \<Longrightarrow> sys_reach ps cs np nc s t"
proof (induction as arbitrary: s)
  case (Cons a as)
  then show ?case
    by (auto split: option.splits intro: converse_rtranclp_into_rtranclp sys_exec_step)
qed simp

section \<open>Properties\<close>

lemma prod_never_faults:
  assumes "ring_ok ring" "prod_ok ring pc" "pc \<noteq> P_idle"
  shows "sp_push_step ring pc \<noteq> None"
  using assms ring_copy_in_unit [of ring]
  by (cases pc) (auto simp: ring_ok_def split: option.splits, metis option.distinct(1))

lemma slots_apart:
  assumes ok: "ring_ok ring" and p: "prod_ok ring (P_ready e w)" and r: "r = read_pos ring"
    and ne: "ring_list ring \<noteq> []"
  shows "ring_index w (unit_num ring) \<noteq> ring_index r (unit_num ring)"
  using nonempty_list(1) [OF ok] p r ne by auto

lemma fresh_ok:
  assumes "num \<noteq> 0" "len \<noteq> 0" "num AND (num - 1) = 0" "unat len * unat num \<le> 2 ^ 32"
    "mal (24 + unat len * unat num)"
    "ring_init mal raw (Some p) num len = (0, Some (Some ring))"
    "ring_set_type (Some ring) ty = (0, Some ring')"
  shows "ring_ok ring'" "ring_list ring' = []" "read_pos ring' = 0"
  using assms
  by (auto simp: ring_init_def ring_set_type_def ring_ok_def ring_shape_def ring_list_def
      ring_count_def unat_gt_0 split: if_splits)

text \<open>
  C3. One producer thread and one consumer thread on a fresh ring of type \<open>RING_SP_SC\<close> and at most 2^32 bytes: in every
  interleaving, for runs of any length, the elements popped so far followed by the elements in
  the ring are the elements pushed so far, in order; no step of either thread leaves the byte
  array; and while one thread copies in and the other copies out they use different slots.
\<close>

theorem spsc_linearizable:
  assumes "num \<noteq> 0" "len \<noteq> 0" "num AND (num - 1) = 0" "unat len * unat num \<le> 2 ^ 32"
    "mal (24 + unat len * unat num)"
    "ring_init mal raw (Some p) num len = (0, Some (Some ring))"
    "ring_set_type (Some ring) RING_SP_SC = (0, Some ring')"
    "sys_reach sp_push_step (sc_pop_step write_pos) 1 1 (sys_init ring') s"
  shows "pushed s = popped s @ ring_list (shared s) \<and>
    ring_count (shared s) < unat (unit_num (shared s)) \<and>
    (prods s 0 \<noteq> P_idle \<longrightarrow> sp_push_step (shared s) (prods s 0) \<noteq> None) \<and>
    (conss s 0 \<noteq> C_idle \<longrightarrow> sc_pop_step write_pos (shared s) (conss s 0) \<noteq> None) \<and>
    (\<forall>e w r. prods s 0 = P_ready e w \<and> conss s 0 = C_ready r \<longrightarrow>
       ring_index w (unit_num (shared s)) \<noteq> ring_index r (unit_num (shared s)))"
proof -
  have "spsc_inv (sys_init ring')"
    using fresh_ok [OF assms(1-7)] by (simp add: spsc_inv_def sys_init_def)
  then have inv: "spsc_inv s" using spsc_inv_reach assms(8) by blast
  then have "pushed s = popped s @ ring_list (shared s)"
    "ring_count (shared s) < unat (unit_num (shared s))"
    "prods s 0 \<noteq> P_idle \<longrightarrow> sp_push_step (shared s) (prods s 0) \<noteq> None"
    using prod_never_faults [of "shared s" "prods s 0"] by (auto simp: spsc_inv_def ring_ok_def)
  moreover have "conss s 0 \<noteq> C_idle \<longrightarrow> sc_pop_step write_pos (shared s) (conss s 0) \<noteq> None"
    using inv ring_copy_out_unit [of "shared s"]
    by (cases "conss s 0") (auto simp: spsc_inv_def ring_ok_def)
  moreover have "prods s 0 = P_ready e w \<and> conss s 0 = C_ready r \<longrightarrow>
           ring_index w (unit_num (shared s)) \<noteq> ring_index r (unit_num (shared s))" for e w r
    using inv slots_apart [of "shared s" e w r] by (auto simp: spsc_inv_def)
  ultimately show ?thesis by blast
qed

text \<open>A fresh ring of two slots of one byte, the start of the example runs below.\<close>

definition ring_2x1 :: "u4 \<Rightarrow> ring_t" where
  "ring_2x1 ty = \<lparr>unit_size = 1, unit_num = 2, ring_type = ty, write_pos = 0, read_pos = 0,
     max_read_idx = 0, data = [0, 0]\<rparr>"

lemma ring_2x1_init: "ring_init (\<lambda>_. True) (\<lambda>_. 0) (Some None) 2 1 = (0, Some (Some (ring_2x1 8)))"
  by (simp add: ring_init_def ring_2x1_def upt_rec)

lemma ring_2x1_type: "ring_set_type (Some (ring_2x1 8)) 1 = (0, Some (ring_2x1 1))"
  "ring_set_type (Some (ring_2x1 8)) 2 = (0, Some (ring_2x1 2))"
  by (simp_all add: ring_set_type_def ring_2x1_def)

lemmas run_eval = ring_2x1_def sys_init_def prod_move_def cons_move_def add_event_def
  ring_copy_in_def ring_copy_out_def mem_read_def mem_write_def ring_offset_def ring_index_def
  lisk_sync_cas_def ring_list_def ring_count_def ring_unit_def

theorem spsc_linearizable_witness:
  "\<exists>s. sys_reach sp_push_step (sc_pop_step write_pos) 1 1 (sys_init (ring_2x1 1)) s \<and>
     popped s = [[7]] \<and> prods s 0 = P_call [9] \<and>
     pushed s = popped s @ ring_list (shared s)"
proof -
  obtain s where run: "sys_run sp_push_step (sc_pop_step write_pos) 1 1
      [StartPush 0 [7], StepProd 0, StepProd 0, StartPop 0, StepProd 0, StepProd 0, StepCons 0,
       StepCons 0, StepCons 0, StepCons 0, StartPush 0 [9]] (sys_init (ring_2x1 1)) = Some s"
    "popped s = [[7]]" "prods s 0 = P_call [9]"
    by (simp add: run_eval)
  note reach = sys_run_reach [OF run(1)]
  show ?thesis
    using reach run(2,3)
      spsc_linearizable [OF _ _ _ _ _ ring_2x1_init ring_2x1_type(1) reach] by auto
qed

text \<open>
  C14. One producer and any number of consumers on a fresh ring of type \<open>RING_SP_MC\<close> and at most 2^32 bytes: as long as
  fewer than \<open>2 ^ 32\<close> pops took effect, every interleaving keeps the queue order, each element
  is popped exactly once although the consumers copy before their compare-and-swap, and the
  producer never leaves the byte array.
\<close>

theorem spmc_linearizable:
  assumes "num \<noteq> 0" "len \<noteq> 0" "num AND (num - 1) = 0" "unat len * unat num \<le> 2 ^ 32"
    "mal (24 + unat len * unat num)"
    "ring_init mal raw (Some p) num len = (0, Some (Some ring))"
    "ring_set_type (Some ring) RING_SP_MC = (0, Some ring')"
    "sys_reach sp_push_step (mc_pop_step write_pos) 1 nc (sys_init ring') s"
    "length (popped s) < 2 ^ 32"
  shows "pushed s = popped s @ ring_list (shared s) \<and>
    ring_count (shared s) < unat (unit_num (shared s)) \<and>
    unat (read_pos (shared s)) = length (popped s) \<and>
    (prods s 0 \<noteq> P_idle \<longrightarrow> sp_push_step (shared s) (prods s 0) \<noteq> None)"
proof -
  have "spmc_inv (sys_init ring')"
    using fresh_ok [OF assms(1-7)] by (simp add: spmc_inv_def sys_init_def)
  then have "spmc_inv s" using spmc_inv_reach assms(8,9) by blast
  then show ?thesis
    using prod_never_faults [of "shared s" "prods s 0"] by (auto simp: spmc_inv_def ring_ok_def)
qed

theorem spmc_linearizable_witness:
  "\<exists>s. sys_reach sp_push_step (mc_pop_step write_pos) 1 2 (sys_init (ring_2x1 2)) s \<and>
     popped s = [[7]] \<and> conss s 0 = C_idle \<and> conss s 1 = C_call \<and>
     pushed s = popped s @ ring_list (shared s)"
proof -
  obtain s where run: "sys_run sp_push_step (mc_pop_step write_pos) 1 2
      [StartPush 0 [7], StepProd 0, StepProd 0, StepProd 0, StepProd 0, StartPop 0, StartPop 1,
       StepCons 0, StepCons 1, StepCons 1, StepCons 0, StepCons 1, StepCons 0, StepCons 0,
       StepCons 1] (sys_init (ring_2x1 2)) = Some s"
    "popped s = [[7]]" "conss s 0 = C_idle" "conss s 1 = C_call"
    by (simp add: run_eval)
  note reach = sys_run_reach [OF run(1)]
  show ?thesis
    using reach run(2-4)
      spmc_linearizable [OF _ _ _ _ _ ring_2x1_init ring_2x1_type(2) reach] by auto
qed

section \<open>Many producers\<close>












end
