(* ===== verification/Lisk_Mem.thy ===== *)
theory Lisk_Mem
  imports Lisk_Prelude
begin

text \<open>
  A heap of byte blocks, for the components that hand out or keep pointers to allocated memory.

  An address is a natural number, 0 is \<open>nil\<close>. \<open>live\<close> counts the blocks in use. The allocator is
  asked with that count and the size, and may refuse; \<open>raw\<close> gives the bytes a fresh block happens
  to hold. Reading, writing or freeing a block that is not allocated is \<open>None\<close>, as is an access
  that leaves its block.
\<close>

type_synonym addr = nat

record mem =
  cells :: "addr \<Rightarrow> u1 list option"
  brk :: addr
  live :: nat

type_synonym malloc = "nat \<Rightarrow> nat \<Rightarrow> bool"
type_synonym fresh_bytes = "addr \<Rightarrow> nat \<Rightarrow> u1"

definition mem_empty :: mem where
  "mem_empty = \<lparr>cells = (\<lambda>_. None), brk = 1, live = 0\<rparr>"

definition mem_alloc :: "malloc \<Rightarrow> fresh_bytes \<Rightarrow> nat \<Rightarrow> mem \<Rightarrow> (addr \<times> mem) option" where
  "mem_alloc mal raw n m =
     (if mal (live m) n
      then Some (brk m, \<lparr>cells = (cells m)(brk m \<mapsto> map (raw (brk m)) [0..<n]),
                         brk = brk m + 1, live = live m + 1\<rparr>)
      else None)"

definition mem_free :: "addr \<Rightarrow> mem \<Rightarrow> mem option" where
  "mem_free a m =
     (if cells m a = None then None
      else Some (m\<lparr>cells := (cells m)(a := None), live := live m - 1\<rparr>))"

definition mem_load :: "addr \<Rightarrow> nat \<Rightarrow> nat \<Rightarrow> mem \<Rightarrow> u1 list option" where
  "mem_load a off n m =
     (case cells m a of None \<Rightarrow> None | Some bytes \<Rightarrow> mem_read off n bytes)"

definition mem_store :: "addr \<Rightarrow> nat \<Rightarrow> u1 list \<Rightarrow> mem \<Rightarrow> mem option" where
  "mem_store a off src m =
     (case cells m a of None \<Rightarrow> None | Some bytes \<Rightarrow>
       (case mem_write off src bytes of None \<Rightarrow> None | Some bytes' \<Rightarrow>
         Some (m\<lparr>cells := (cells m)(a \<mapsto> bytes')\<rparr>)))"

section \<open>Arrays of units in a block\<close>

definition unit_at :: "nat \<Rightarrow> nat \<Rightarrow> 'a list \<Rightarrow> 'a list" where
  "unit_at u k bytes = take u (drop (k * u) bytes)"

lemma slot_bound:
  fixes k u n :: nat
  shows "k < n \<Longrightarrow> k * u + u \<le> n * u"
  by (metis Suc_leI add.commute mult_Suc mult_le_mono1)

lemma unit_at_length:
  "k < n \<Longrightarrow> length bytes = n * u \<Longrightarrow> length (unit_at u k bytes) = u"
  using slot_bound [of k n u] by (simp add: unit_at_def)

lemma unit_read:
  assumes "n * u \<le> length bytes" "k < n"
  shows "mem_read (k * u) u bytes = Some (unit_at u k bytes)"
  using slot_bound [OF assms(2), of u] assms(1) by (simp add: mem_read_def unit_at_def)

lemma unit_write:
  assumes "n * u \<le> length bytes" "k < n" "length e = u"
  shows "\<exists>bytes'. mem_write (k * u) e bytes = Some bytes' \<and> length bytes' = length bytes \<and>
           (\<forall>j < n. unit_at u j bytes' = (if j = k then e else unit_at u j bytes))"
proof -
  have in_b: "k * u + u \<le> n * u" by (rule slot_bound [OF assms(2)])
  then obtain bytes' where w: "mem_write (k * u) e bytes = Some bytes'"
    using mem_write_in [of "k * u" e bytes] assms by auto
  have "unit_at u j bytes' = (if j = k then e else unit_at u j bytes)" if "j < n" for j
  proof (cases "j = k")
    case True
    then show ?thesis using mem_read_same [OF w] assms(3) by (simp add: unit_at_def)
  next
    case False
    then have "j * u + u \<le> k * u \<or> k * u + length e \<le> j * u"
      using slot_bound [of j k u] slot_bound [of k j u] assms(3) by (metis linorder_neqE_nat)
    then show ?thesis
      using mem_read_other [OF w, of "j * u" u] slot_bound [OF that, of u] assms(1) False
      by (simp add: unit_at_def)
  qed
  then show ?thesis using w mem_write_length [OF w] assms(1) by auto
qed

lemma unit_load:
  assumes "cells m a = Some bytes" "length bytes = n * u" "k < n"
  shows "mem_load a (k * u) u m = Some (unit_at u k bytes)"
  using assms(1) unit_read [of n u bytes k] assms(2,3) by (simp add: mem_load_def)

lemma unit_store:
  assumes "cells m a = Some bytes" "length bytes = n * u" "k < n" "length e = u"
  shows "\<exists>bytes'. mem_store a (k * u) e m = Some (m\<lparr>cells := (cells m)(a \<mapsto> bytes')\<rparr>) \<and>
           length bytes' = n * u \<and>
           (\<forall>j < n. unit_at u j bytes' = (if j = k then e else unit_at u j bytes))"
  using unit_write [of n u bytes k e] assms by (auto simp: mem_store_def)

end
