(* ===== verification/Lisk_Deque.thy ===== *)
theory Lisk_Deque
  imports Lisk_Specs Lisk_Mem "HOL-Library.Monad_Syntax"
begin

text \<open>
  The double-ended queue of \<open>win_lisk/src/lisk_deque.c\<close>.

  A deque keeps an array \<open>dmap\<close> of pointers to blocks of \<open>unit_num\<close> elements and a window
  \<open>start .. end\<close> in it; blocks are allocated and freed as the window grows and shrinks, and the
  window is moved to the middle of the array, or of an array twice as long, when it hits a border.
  The blocks live in the heap of \<open>Lisk_Mem\<close>, so that the theorems also say that no freed block
  is touched and none is lost. An operation is \<open>None\<close> when it leaves a block or the pointer array.

  \<open>deque_list\<close> is the sequence a deque stands for and \<open>deque_inv\<close> the invariant. The unsigned 32
  bit operations of the code are written with \<open>u4_add\<close>, \<open>u4_sub\<close> and \<open>u4_mul\<close>; that none of them
  wraps around rests on the bound on the length of the pointer array.
\<close>

section \<open>State\<close>

record deque_t =
  dmap :: "addr list"
  map_size :: nat
  start_index :: nat
  start_cur :: nat
  end_index :: nat
  end_cur :: nat
  unit_num :: nat
  unit_size :: nat

text \<open>
  \<open>sizeof(deque_t)\<close> and \<open>sizeof(block_t)\<close> in the Win32 build. \<open>junk\<close> is what a fresh pointer
  array holds.
\<close>

abbreviation (input) "DEQUE_BYTES \<equiv> 32 :: nat"
abbreviation (input) "BLOCK_BYTES \<equiv> 4 :: nat"

section \<open>Operations\<close>

definition deque_init :: "malloc \<Rightarrow> fresh_bytes \<Rightarrow> (nat \<Rightarrow> addr) \<Rightarrow> bool \<Rightarrow> nat \<Rightarrow> nat \<Rightarrow> nat \<Rightarrow>
    mem \<Rightarrow> n4 \<times> deque_t option \<times> mem" where
  "deque_init mal raw junk deque_pptr usize msize block_size m =
     (if \<not> deque_pptr \<or> usize = 0 \<or> msize = 0 \<or> block_size < usize then (-1, None, m)
      else if \<not> mal (live m) DEQUE_BYTES then (-2, None, m)
      else if \<not> mal (live m) (u4_mul msize BLOCK_BYTES) then (-1, None, m)
      else
        (let unum = block_size div usize in
         case mem_alloc mal raw (u4_mul unum usize) m of
           None \<Rightarrow> (-2, None, m)
         | Some (a, m') \<Rightarrow>
             (0, Some \<lparr>dmap = (map junk [0..<u4_mul msize BLOCK_BYTES div BLOCK_BYTES])
                                [msize div 2 := a],
                   map_size = msize, start_index = msize div 2, start_cur = 0,
                   end_index = msize div 2, end_cur = 0, unit_num = unum, unit_size = usize\<rparr>, m')))"

text \<open>The loop that frees the blocks of the window.\<close>

fun deque_free_blocks :: "addr list \<Rightarrow> mem \<Rightarrow> mem option" where
  "deque_free_blocks [] m = Some m"
| "deque_free_blocks (a # as) m =
     (case mem_free a m of None \<Rightarrow> None | Some m' \<Rightarrow> deque_free_blocks as m')"

definition deque_window :: "deque_t \<Rightarrow> addr list" where
  "deque_window d = take (end_index d + 1 - start_index d) (drop (start_index d) (dmap d))"

definition deque_uninit :: "deque_t option \<Rightarrow> mem \<Rightarrow> (deque_t option \<times> mem) option" where
  "deque_uninit deque_pptr m =
     (case deque_pptr of
        None \<Rightarrow> Some (None, m)
      | Some d \<Rightarrow> do { m' \<leftarrow> deque_free_blocks (deque_window d) m; Some (None, m') })"

text \<open>
  Moving the window: inside the pointer array while it is at most half used, else into a new
  array of twice the length (whose other entries are \<open>junk\<close>).
\<close>

definition deque_update_map :: "malloc \<Rightarrow> (nat \<Rightarrow> addr) \<Rightarrow> deque_t \<Rightarrow> mem \<Rightarrow> (n4 \<times> deque_t) option" where
  "deque_update_map mal junk d m =
     (let num = u4_add (u4_sub (end_index d) (start_index d)) 1 in
      if u4_mul num 2 < map_size d then
        (let pos = u4_sub (map_size d) num div 2 in do {
           blocks \<leftarrow> mem_read (start_index d) num (dmap d);
           new_map \<leftarrow> mem_write pos blocks (dmap d);
           Some (0, d\<lparr>dmap := new_map, start_index := pos,
                      end_index := u4_sub (u4_add pos num) 1\<rparr>) })
      else
        (let size = u4_mul (u4_mul (map_size d) 2) BLOCK_BYTES in
         if \<not> mal (live m) size then Some (-2, d)
         else
           (let pos = u4_sub (map_size d) (num div 2) in do {
              blocks \<leftarrow> mem_read (start_index d) num (dmap d);
              new_map \<leftarrow> mem_write pos blocks (map junk [0..<size div BLOCK_BYTES]);
              Some (0, d\<lparr>dmap := new_map, map_size := u4_mul (map_size d) 2, start_index := pos,
                         end_index := u4_sub (u4_add pos num) 1\<rparr>) })))"

definition deque_empty :: "deque_t option \<Rightarrow> n4" where
  "deque_empty deque_ptr =
     (case deque_ptr of
        None \<Rightarrow> -1
      | Some d \<Rightarrow>
          if start_index d \<noteq> end_index d \<or> start_cur d \<noteq> end_cur d then -2 else 0)"

definition deque_size :: "deque_t option \<Rightarrow> bool \<Rightarrow> n4 \<times> nat option" where
  "deque_size deque_ptr size_ptr =
     (case deque_ptr of
        None \<Rightarrow> (-1, None)
      | Some d \<Rightarrow>
          if \<not> size_ptr then (-1, None)
          else if start_index d = end_index d
          then (0, Some (u4_sub (end_index d) (start_index d)))
          else (0, Some (u4_add (u4_add (u4_sub (unit_num d) (start_cur d)) (end_cur d))
                 (u4_mul (u4_sub (u4_sub (end_index d) (start_index d)) 1) (unit_num d)))))"

text \<open>A pointer to an element is the address of its block and the byte offset in it.\<close>

definition deque_block :: "deque_t \<Rightarrow> nat \<Rightarrow> addr option" where
  "deque_block d i = (if i < length (dmap d) then Some (dmap d ! i) else None)"

definition deque_at :: "deque_t option \<Rightarrow> nat \<Rightarrow> (addr \<times> nat) option option" where
  "deque_at deque_ptr pos0 =
     (case deque_ptr of
        None \<Rightarrow> Some None
      | Some d \<Rightarrow>
          (let pos = u4_add pos0 (start_cur d) in do {
             a \<leftarrow> deque_block d (u4_add (start_index d) (pos div unit_num d));
             Some (Some (a, u4_mul (pos mod unit_num d) (unit_size d))) }))"

definition deque_front :: "deque_t option \<Rightarrow> (addr \<times> nat) option option" where
  "deque_front deque_ptr =
     (case deque_ptr of
        None \<Rightarrow> Some None
      | Some d \<Rightarrow>
          if start_index d = end_index d \<and> start_cur d = end_cur d then Some None
          else do {
            a \<leftarrow> deque_block d (start_index d);
            Some (Some (a, u4_mul (start_cur d) (unit_size d))) })"

definition deque_back :: "deque_t option \<Rightarrow> (addr \<times> nat) option option" where
  "deque_back deque_ptr =
     (case deque_ptr of
        None \<Rightarrow> Some None
      | Some d \<Rightarrow>
          if start_index d = end_index d \<and> start_cur d = end_cur d then Some None
          else if end_cur d \<noteq> 0 then do {
            a \<leftarrow> deque_block d (end_index d);
            Some (Some (a, u4_mul (u4_sub (end_cur d) 1) (unit_size d))) }
          else do {
            a \<leftarrow> deque_block d (u4_sub (end_index d) 1);
            Some (Some (a, u4_mul (u4_sub (unit_num d) 1) (unit_size d))) })"

text \<open>Storing an address in the pointer array.\<close>

definition deque_set_block :: "deque_t \<Rightarrow> nat \<Rightarrow> addr \<Rightarrow> deque_t option" where
  "deque_set_block d i a =
     (if i < length (dmap d) then Some (d\<lparr>dmap := (dmap d)[i := a]\<rparr>) else None)"

type_synonym dstate = "deque_t option \<times> mem"

definition deque_push_front :: "malloc \<Rightarrow> fresh_bytes \<Rightarrow> (nat \<Rightarrow> addr) \<Rightarrow> dstate \<Rightarrow>
    u1 list option \<Rightarrow> (n4 \<times> dstate) option" where
  "deque_push_front mal raw junk = (\<lambda>(dp, m) front.
     (case (dp, front) of
        (Some d, Some e) \<Rightarrow>
          if start_cur d \<noteq> 0 then
            (let d = d\<lparr>start_cur := start_cur d - 1\<rparr> in do {
               a \<leftarrow> deque_block d (start_index d);
               bytes \<leftarrow> mem_read 0 (unit_size d) e;
               m \<leftarrow> mem_store a (u4_mul (start_cur d) (unit_size d)) bytes m;
               Some (0, Some d, m) })
          else do {
            (ret, d) \<leftarrow> (if start_index d = 0 then deque_update_map mal junk d m else Some (0, d));
            if ret \<noteq> 0 then Some (-2, Some d, m)
            else
              (case mem_alloc mal raw (u4_mul (unit_num d) (unit_size d)) m of
                 None \<Rightarrow> Some (-2, Some d, m)
               | Some (a, m) \<Rightarrow>
                   (let d = d\<lparr>start_index := u4_sub (start_index d) 1\<rparr> in do {
                      d \<leftarrow> deque_set_block d (start_index d) a;
                      let d = d\<lparr>start_cur := u4_sub (unit_num d) 1\<rparr>;
                      bytes \<leftarrow> mem_read 0 (unit_size d) e;
                      m \<leftarrow> mem_store a (u4_mul (start_cur d) (unit_size d)) bytes m;
                      Some (0, Some d, m) })) }
      | _ \<Rightarrow> Some (-1, dp, m)))"

definition deque_push_back :: "malloc \<Rightarrow> fresh_bytes \<Rightarrow> (nat \<Rightarrow> addr) \<Rightarrow> dstate \<Rightarrow>
    u1 list option \<Rightarrow> (n4 \<times> dstate) option" where
  "deque_push_back mal raw junk = (\<lambda>(dp, m) back.
     (case (dp, back) of
        (Some d, Some e) \<Rightarrow> do {
          a \<leftarrow> deque_block d (end_index d);
          bytes \<leftarrow> mem_read 0 (unit_size d) e;
          m \<leftarrow> mem_store a (u4_mul (end_cur d) (unit_size d)) bytes m;
          let d1 = d\<lparr>end_cur := u4_add (end_cur d) 1\<rparr>;
          if end_cur d1 \<noteq> unit_num d1 then Some (0, Some d1, m)
          else do {
            (ret, d2) \<leftarrow> (if end_index d1 = u4_sub (map_size d1) 1
                         then deque_update_map mal junk d1 m else Some (0, d1));
            if ret \<noteq> 0 then Some (-2, Some (d2\<lparr>end_cur := end_cur d2 - 1\<rparr>), m)
            else
              (case mem_alloc mal raw (u4_mul (unit_num d2) (unit_size d2)) m of
                 None \<Rightarrow> Some (-2, Some (d2\<lparr>end_cur := end_cur d2 - 1\<rparr>), m)
               | Some (a, m) \<Rightarrow>
                   (let d2 = d2\<lparr>end_index := u4_add (end_index d2) 1\<rparr> in do {
                      d2 \<leftarrow> deque_set_block d2 (end_index d2) a;
                      Some (0, Some (d2\<lparr>end_cur := 0\<rparr>), m) })) } }
      | _ \<Rightarrow> Some (-1, dp, m)))"

text \<open>
  The second argument of a pop is whether the caller gave a buffer; the last component of the
  result is what was copied to it.
\<close>

definition deque_pop_front :: "dstate \<Rightarrow> bool \<Rightarrow> (n4 \<times> dstate \<times> u1 list option) option" where
  "deque_pop_front = (\<lambda>(dp, m) front.
     case dp of None \<Rightarrow> Some (-1, (None, m), None) | Some d \<Rightarrow>
     if start_index d = end_index d \<and> start_cur d = end_cur d then Some (-1, (dp, m), None)
     else do {
       a \<leftarrow> deque_block d (start_index d);
       out \<leftarrow> (if front
              then map_option Some (mem_load a (u4_mul (start_cur d) (unit_size d)) (unit_size d) m)
              else Some None);
       let d = d\<lparr>start_cur := u4_add (start_cur d) 1\<rparr>;
       if start_cur d = unit_num d then do {
         m \<leftarrow> mem_free a m;
         d \<leftarrow> deque_set_block d (start_index d) 0;
         Some (0, (Some (d\<lparr>start_index := u4_add (start_index d) 1, start_cur := 0\<rparr>), m), out) }
       else Some (0, (Some d, m), out) })"

definition deque_pop_back :: "dstate \<Rightarrow> bool \<Rightarrow> (n4 \<times> dstate \<times> u1 list option) option" where
  "deque_pop_back = (\<lambda>(dp, m) back.
     case dp of None \<Rightarrow> Some (-1, (None, m), None) | Some d \<Rightarrow>
     if start_index d = end_index d \<and> start_cur d = end_cur d then Some (-1, (dp, m), None)
     else do {
       a \<leftarrow> deque_block d (end_index d);
       if end_cur d \<noteq> 0 then
         (let d = d\<lparr>end_cur := end_cur d - 1\<rparr> in do {
            out \<leftarrow> (if back
                   then map_option Some (mem_load a (u4_mul (end_cur d) (unit_size d)) (unit_size d) m)
                   else Some None);
            Some (0, (Some d, m), out) })
       else do {
         m \<leftarrow> mem_free a m;
         d \<leftarrow> deque_set_block d (end_index d) 0;
         let d = d\<lparr>end_index := u4_sub (end_index d) 1\<rparr>;
         a \<leftarrow> deque_block d (end_index d);
         let d = d\<lparr>end_cur := unit_num d\<rparr>;
         out \<leftarrow> (if back
                then map_option Some
                       (mem_load a (u4_mul (u4_sub (end_cur d) 1) (unit_size d)) (unit_size d) m)
                else Some None);
         Some (0, (Some (d\<lparr>end_cur := end_cur d - 1\<rparr>), m), out) } })"

section \<open>Windows of blocks\<close>

text \<open>
  \<open>owns ws n m\<close>: the blocks in use in the heap are exactly those of the window \<open>ws\<close>, each once
  and each of \<open>n\<close> bytes. \<open>elem_at\<close> is the element at a position counted from the first block of
  the window.
\<close>

definition owns :: "addr list \<Rightarrow> nat \<Rightarrow> mem \<Rightarrow> bool" where
  "owns ws n m \<longleftrightarrow> distinct ws \<and> live m = length ws \<and>
     (\<forall>a. cells m a \<noteq> None \<longleftrightarrow> a \<in> set ws) \<and>
     (\<forall>a \<in> set ws. a < brk m \<and> length (the (cells m a)) = n)"

definition elem_at :: "mem \<Rightarrow> nat \<Rightarrow> nat \<Rightarrow> addr list \<Rightarrow> nat \<Rightarrow> u1 list" where
  "elem_at m us un ws p = unit_at us (p mod un) (the (cells m (ws ! (p div un))))"

lemma owns_cell:
  assumes "owns ws n m" "i < length ws"
  shows "\<exists>b. cells m (ws ! i) = Some b \<and> length b = n"
proof -
  have "ws ! i \<in> set ws" using assms(2) by simp
  then show ?thesis using assms(1) unfolding owns_def by fastforce
qed

lemma window_pos:
  fixes p un l :: nat
  assumes "p < l * un"
  shows "p div un < l" "p mod un < un" "0 < un"
proof -
  show "0 < un" using assms by (cases un) auto
  then show "p mod un < un" by simp
  show "p div un < l" using assms by (simp add: less_mult_imp_div_less)
qed

lemma window_load:
  assumes "owns ws (un * us) m" "p < length ws * un"
  shows "mem_load (ws ! (p div un)) ((p mod un) * us) us m = Some (elem_at m us un ws p)"
proof -
  obtain b where "cells m (ws ! (p div un)) = Some b" "length b = un * us"
    using owns_cell [OF assms(1)] window_pos(1) [OF assms(2)] by blast
  then show ?thesis
    using unit_load window_pos(2) [OF assms(2)] by (simp add: elem_at_def)
qed

lemma window_store:
  assumes o: "owns ws (un * us) m" and p: "p < length ws * un" and e: "length e = us"
  shows "\<exists>m'. mem_store (ws ! (p div un)) ((p mod un) * us) e m = Some m' \<and>
           owns ws (un * us) m' \<and>
           (\<forall>q < length ws * un. elem_at m' us un ws q = (if q = p then e else elem_at m us un ws q))"
proof -
  let ?a = "ws ! (p div un)"
  obtain b where b: "cells m ?a = Some b" "length b = un * us"
    using owns_cell [OF o] window_pos(1) [OF p] by blast
  obtain b' where st: "mem_store ?a ((p mod un) * us) e m = Some (m\<lparr>cells := (cells m)(?a \<mapsto> b')\<rparr>)"
    and b': "length b' = un * us"
      "\<forall>j < un. unit_at us j b' = (if j = p mod un then e else unit_at us j b)"
    using unit_store [OF b window_pos(2) [OF p] e] by blast
  have "owns ws (un * us) (m\<lparr>cells := (cells m)(?a \<mapsto> b')\<rparr>)"
    using o b'(1) window_pos(1) [OF p] unfolding owns_def by auto
  moreover have "elem_at (m\<lparr>cells := (cells m)(?a \<mapsto> b')\<rparr>) us un ws q =
      (if q = p then e else elem_at m us un ws q)" if q: "q < length ws * un" for q
  proof (cases "q div un = p div un")
    case True
    then have "q mod un = p mod un \<longleftrightarrow> q = p" by (metis div_mult_mod_eq)
    then show ?thesis using True b b'(2) window_pos(2) [OF q] by (simp add: elem_at_def)
  next
    case False
    then have "ws ! (q div un) \<noteq> ?a"
      using o window_pos(1) [OF p] window_pos(1) [OF q] by (simp add: owns_def nth_eq_iff_index_eq)
    then show ?thesis using False by (auto simp: elem_at_def)
  qed
  ultimately show ?thesis using st by blast
qed

lemma window_alloc:
  assumes o: "owns ws n m" and al: "mem_alloc mal raw n m = Some (a, m')"
  shows "owns (ws @ [a]) n m'" "owns (a # ws) n m'"
    "x \<in> set ws \<Longrightarrow> cells m' x = cells m x"
proof -
  have a: "a = brk m" "a \<notin> set ws" and m': "cells m' = (cells m)(a \<mapsto> map (raw a) [0..<n])"
    "brk m' = brk m + 1" "live m' = live m + 1"
    using o al by (auto simp: mem_alloc_def owns_def split: if_splits)
  show "owns (ws @ [a]) n m'" "owns (a # ws) n m'"
    using o a m' by (auto simp: owns_def less_SucI)
  show "cells m' x = cells m x" if "x \<in> set ws" using that a m' by auto
qed

lemma window_free:
  assumes o: "owns ws n m" and a: "a \<in> set ws" and ws': "set ws' = set ws - {a}" "distinct ws'"
  shows "\<exists>m'. mem_free a m = Some m' \<and> owns ws' n m' \<and> (\<forall>x \<in> set ws'. cells m' x = cells m x)"
proof -
  have "length ws' = length ws - 1"
    using o a ws' by (metis distinct_card card_Diff_singleton owns_def)
  then show ?thesis
    using o a ws' unfolding owns_def mem_free_def by auto
qed

lemma elem_at_cong:
  assumes "p < length ws * un" "\<And>x. x \<in> set ws \<Longrightarrow> cells m' x = cells m x"
  shows "elem_at m' us un ws p = elem_at m us un ws p"
  using assms window_pos(1) [OF assms(1)] by (simp add: elem_at_def)

lemma elem_at_append:
  "p < length ws * un \<Longrightarrow> elem_at m us un (ws @ xs) p = elem_at m us un ws p"
  using window_pos(1) by (simp add: elem_at_def nth_append)

lemma elem_at_Cons: "0 < un \<Longrightarrow> elem_at m us un (a # ws) (un + p) = elem_at m us un ws p"
  by (simp add: elem_at_def div_add_self1)

section \<open>Abstraction and invariant\<close>

definition deque_end :: "deque_t \<Rightarrow> nat" where
  "deque_end d = (end_index d - start_index d) * unit_num d + end_cur d"

definition deque_list :: "deque_t \<Rightarrow> mem \<Rightarrow> u1 list list" where
  "deque_list d m =
     map (elem_at m (unit_size d) (unit_num d) (deque_window d)) [start_cur d..<deque_end d]"

text \<open>
  With at most \<open>MAX_BLOCKS\<close> blocks the 32 bit sizes of the pointer array never wrap around. \<open>capped mal\<close> answers as the
  allocator \<open>mal\<close> up to that number and refuses beyond it: it is what a client sees who never has more elements in the deque than fit
  into so many blocks.
\<close>

abbreviation (input) "MAX_BLOCKS \<equiv> 67108864 :: nat"

definition capped :: "malloc \<Rightarrow> malloc" where
  "capped mal k n \<longleftrightarrow> k < MAX_BLOCKS \<and> mal k n"

definition deque_geo :: "deque_t \<Rightarrow> bool" where
  "deque_geo d \<longleftrightarrow> 0 < unit_size d \<and> 0 < unit_num d \<and> unit_num d * unit_size d < 2 ^ 32 \<and>
     length (dmap d) = map_size d \<and> 2 \<le> map_size d \<and> map_size d < 2 ^ 29 \<and>
     start_index d \<le> end_index d \<and> end_index d < map_size d \<and>
     start_cur d < unit_num d \<and> end_cur d < unit_num d \<and> start_cur d \<le> deque_end d"

definition deque_inv :: "deque_t \<Rightarrow> mem \<Rightarrow> bool" where
  "deque_inv d m \<longleftrightarrow> deque_geo d \<and> live m \<le> MAX_BLOCKS \<and>
     owns (deque_window d) (unit_num d * unit_size d) m"

lemma window_length:
  "deque_geo d \<Longrightarrow> length (deque_window d) = end_index d + 1 - start_index d"
  by (auto simp: deque_geo_def deque_window_def)

lemma window_nth:
  "deque_geo d \<Longrightarrow> i \<le> end_index d - start_index d \<Longrightarrow>
     deque_window d ! i = dmap d ! (start_index d + i)"
  by (auto simp: deque_geo_def deque_window_def)

lemma deque_end_less:
  assumes "deque_geo d"
  shows "deque_end d < length (deque_window d) * unit_num d"
  using assms by (auto simp: window_length deque_geo_def deque_end_def Suc_diff_le)

lemma unit_num_small: "deque_geo d \<Longrightarrow> unit_num d < 2 ^ 32"
  by (auto simp: deque_geo_def intro: le_less_trans [rotated])

lemma offset_small:
  assumes "deque_geo d" "k < unit_num d"
  shows "u4_mul k (unit_size d) = k * unit_size d"
  using assms slot_bound [of k "unit_num d" "unit_size d"]
  by (intro u4_mul_small) (auto simp: deque_geo_def)

lemma block_bytes: "deque_geo d \<Longrightarrow> u4_mul (unit_num d) (unit_size d) = unit_num d * unit_size d"
  by (intro u4_mul_small) (auto simp: deque_geo_def)

section \<open>Moving the window\<close>

lemma moved_window:
  assumes geo: "deque_geo d" and w: "mem_write pos (deque_window d) mp = Some mp'"
    and len: "length mp = ms" "2 \<le> ms" "ms < 2 ^ 29"
    and d': "d' = d\<lparr>dmap := mp', map_size := ms, start_index := pos,
                end_index := pos + (end_index d - start_index d)\<rparr>"
  shows "deque_geo d'" "deque_window d' = deque_window d"
proof -
  have l: "length (deque_window d) = Suc (end_index d - start_index d)"
    using window_length [OF geo] geo by (simp add: deque_geo_def Suc_diff_le)
  then have "pos + Suc (end_index d - start_index d) \<le> ms"
    using w len(1) by (auto simp: mem_write_def split: if_splits)
  then show "deque_geo d'"
    using geo len mem_write_length [OF w] by (auto simp: deque_geo_def d' deque_end_def)
  show "deque_window d' = deque_window d"
    using mem_read_same [OF w] l geo
    by (simp add: deque_window_def d' deque_geo_def Suc_diff_le)
qed

lemma update_map_room:
  assumes geo: "deque_geo d" and few: "length (deque_window d) \<le> MAX_BLOCKS"
  shows "\<exists>c d'. deque_update_map mal junk d m = Some (c, d') \<and> (c \<noteq> 0 \<longrightarrow> c = -2 \<and> d' = d) \<and>
           deque_geo d' \<and> deque_window d' = deque_window d \<and>
           start_cur d' = start_cur d \<and> end_cur d' = end_cur d \<and>
           unit_num d' = unit_num d \<and> unit_size d' = unit_size d \<and>
           (c = 0 \<longrightarrow> 0 < start_index d' \<and> end_index d' + 1 < map_size d')"
proof -
  let ?n = "end_index d - start_index d" and ?ms = "map_size d"
  have b: "start_index d \<le> end_index d" "end_index d < ?ms" "2 \<le> ?ms" "?ms < 2 ^ 29"
    "length (dmap d) = ?ms"
    using geo by (auto simp: deque_geo_def)
  have l: "length (deque_window d) = Suc ?n" using window_length [OF geo] b by simp
  have few': "Suc ?n \<le> MAX_BLOCKS" using few l by simp
  have num: "u4_add (u4_sub (end_index d) (start_index d)) 1 = Suc ?n"
    using b by (simp add: u4_sub_small u4_add_small)
  have rd: "mem_read (start_index d) (Suc ?n) (dmap d) = Some (deque_window d)"
    using b by (simp add: mem_read_def deque_window_def Suc_diff_le)
  have num2: "u4_mul (Suc ?n) 2 = 2 * Suc ?n" using few' by (simp add: u4_mul_small)
  show ?thesis
  proof (cases "2 * Suc ?n < ?ms")
    case True
    let ?pos = "(?ms - Suc ?n) div 2"
    have pos: "?pos + Suc ?n < ?ms" "0 < ?pos" using True by auto
    obtain mp where w: "mem_write ?pos (deque_window d) (dmap d) = Some mp"
      using mem_write_in [of ?pos "deque_window d" "dmap d"] pos b l by auto
    have ar: "u4_sub ?ms (Suc ?n) = ?ms - Suc ?n" "u4_sub (u4_add ?pos (Suc ?n)) 1 = ?pos + ?n"
      using pos True b by (simp_all add: u4_sub_small u4_add_small)
    let ?d = "d\<lparr>dmap := mp, map_size := ?ms, start_index := ?pos, end_index := ?pos + ?n\<rparr>"
    have up: "deque_update_map mal junk d m = Some (0, ?d)"
      using True rd w by (simp add: deque_update_map_def num num2 ar Let_def del: One_nat_def)
    then show ?thesis
      using moved_window [OF geo w _ b(3,4), of ?d] pos b(5) by auto
  next
    case False
    have small: "?ms \<le> 2 * MAX_BLOCKS" using False few' by simp
    have size: "u4_mul ?ms 2 = 2 * ?ms" "u4_mul (2 * ?ms) 4 = 8 * ?ms" "8 * ?ms div 4 = 2 * ?ms"
      using small by (simp_all add: u4_mul_small)
    let ?pos = "?ms - Suc ?n div 2"
    have pos: "?pos + Suc ?n < 2 * ?ms" "0 < ?pos" using b by auto
    have ar: "u4_sub ?ms (Suc ?n div 2) = ?pos" "u4_sub (u4_add ?pos (Suc ?n)) 1 = ?pos + ?n"
      using pos b by (simp_all add: u4_sub_small u4_add_small)
    obtain mp where w: "mem_write ?pos (deque_window d) (map junk [0..<2 * ?ms]) = Some mp"
      using mem_write_in [of ?pos "deque_window d" "map junk [0..<2 * ?ms]"] pos l by auto
    let ?d = "d\<lparr>dmap := mp, map_size := 2 * ?ms, start_index := ?pos, end_index := ?pos + ?n\<rparr>"
    have up: "deque_update_map mal junk d m =
        (if \<not> mal (live m) (8 * ?ms) then Some (-2, d) else Some (0, ?d))"
      using False rd w by (simp add: deque_update_map_def num num2 size ar Let_def del: One_nat_def)
    then show ?thesis
      using moved_window [OF geo w, of "2 * ?ms" ?d] pos b small geo by auto
  qed
qed

lemma update_map_end_cur:
  "deque_update_map mal junk (d\<lparr>end_cur := x\<rparr>) m =
     map_option (\<lambda>(c, d'). (c, d'\<lparr>end_cur := x\<rparr>)) (deque_update_map mal junk d m)"
  by (auto simp: deque_update_map_def Let_def split: Option.bind_splits)

section \<open>Push and pop\<close>

lemma deque_list_empty:
  assumes "deque_geo d"
  shows "deque_list d m = [] \<longleftrightarrow> start_index d = end_index d \<and> start_cur d = end_cur d"
proof -
  have g: "start_index d \<le> end_index d" "start_cur d < unit_num d" "start_cur d \<le> deque_end d"
    using assms by (auto simp: deque_geo_def)
  show ?thesis
  proof (cases "start_index d = end_index d")
    case True
    then show ?thesis using g by (auto simp: deque_list_def deque_end_def)
  next
    case False
    then obtain k where "end_index d - start_index d = Suc k" using g(1) by (cases "end_index d - start_index d") auto
    then have "start_cur d < deque_end d" using g(2) by (simp add: deque_end_def)
    then show ?thesis using False by (simp add: deque_list_def)
  qed
qed

lemma end_block:
  assumes "deque_geo d"
  shows "deque_block d (end_index d) = Some (deque_window d ! (deque_end d div unit_num d))"
    "deque_end d mod unit_num d = end_cur d"
    "deque_block d (start_index d) = Some (deque_window d ! (start_cur d div unit_num d))"
    "start_cur d mod unit_num d = start_cur d"
proof -
  have "deque_end d div unit_num d = end_index d - start_index d" "deque_end d mod unit_num d = end_cur d"
    using assms by (auto simp: deque_end_def deque_geo_def)
  then show "deque_block d (end_index d) = Some (deque_window d ! (deque_end d div unit_num d))"
    "deque_end d mod unit_num d = end_cur d"
    "deque_block d (start_index d) = Some (deque_window d ! (start_cur d div unit_num d))"
    "start_cur d mod unit_num d = start_cur d"
    using assms window_nth [OF assms, of "end_index d - start_index d"] window_nth [OF assms, of 0]
    by (auto simp: deque_block_def deque_geo_def)
qed

text \<open>A new block after the last one, and a new block before the first one.\<close>

lemma grow_back:
  assumes geo: "deque_geo d" and room: "end_index d + 1 < map_size d"
    and d': "d' = d\<lparr>end_index := end_index d + 1, dmap := (dmap d)[end_index d + 1 := a], end_cur := 0\<rparr>"
  shows "deque_geo d'" "deque_window d' = deque_window d @ [a]"
    "deque_end d' = (end_index d + 1 - start_index d) * unit_num d"
proof -
  have b: "start_index d \<le> end_index d" "length (dmap d) = map_size d"
    using geo by (auto simp: deque_geo_def)
  show e: "deque_end d' = (end_index d + 1 - start_index d) * unit_num d"
    by (simp add: deque_end_def d')
  show "deque_window d' = deque_window d @ [a]"
    using b room
    by (simp add: deque_window_def d' Suc_diff_le drop_update_swap take_Suc_conv_app_nth)
  have "unit_num d \<le> (end_index d + 1 - start_index d) * unit_num d"
    using b(1) by (simp add: Suc_diff_le)
  moreover have "start_cur d < unit_num d" using geo by (simp add: deque_geo_def)
  ultimately have "start_cur d \<le> deque_end d'" unfolding e by linarith
  then show "deque_geo d'" using geo room by (auto simp: deque_geo_def d')
qed

lemma grow_front:
  assumes geo: "deque_geo d" and room: "0 < start_index d" and zero: "start_cur d = 0"
    and d': "d' = d\<lparr>start_index := start_index d - 1, dmap := (dmap d)[start_index d - 1 := a],
                start_cur := unit_num d - 1\<rparr>"
  shows "deque_geo d'" "deque_window d' = a # deque_window d"
    "deque_end d' = unit_num d + deque_end d"
proof -
  have b: "start_index d \<le> end_index d" "length (dmap d) = map_size d" "end_index d < map_size d"
    "0 < unit_num d"
    using geo by (auto simp: deque_geo_def)
  obtain s where s: "start_index d = Suc s" using room by (cases "start_index d") auto
  obtain k where k: "end_index d = Suc s + k" using b(1) s le_Suc_ex by metis
  show e: "deque_end d' = unit_num d + deque_end d"
    using s k by (simp add: deque_end_def d')
  show "deque_window d' = a # deque_window d"
    using b s
    by (simp add: deque_window_def d' Suc_diff_le drop_update_cancel take_Cons' drop_Cons'
        Cons_nth_drop_Suc [symmetric] del: Cons_nth_drop_Suc)
  show "deque_geo d'" using geo b s e by (auto simp: deque_geo_def d')
qed

text \<open>
  The list of a deque depends only on the window, the positions and the blocks of the window.
\<close>

lemma deque_list_cong:
  assumes "deque_window d' = deque_window d @ xs" "unit_size d' = unit_size d"
    "unit_num d' = unit_num d" "start_cur d' = start_cur d" "deque_end d' = deque_end d"
    "deque_end d \<le> length (deque_window d) * unit_num d"
    "\<And>q. q < deque_end d \<Longrightarrow>
       elem_at m' (unit_size d) (unit_num d) (deque_window d) q =
       elem_at m (unit_size d) (unit_num d) (deque_window d) q"
  shows "deque_list d' m' = deque_list d m"
  using assms by (auto simp: deque_list_def elem_at_append)

lemma deque_list_snoc:
  assumes "deque_window d' = deque_window d @ xs" "unit_size d' = unit_size d"
    "unit_num d' = unit_num d" "start_cur d' = start_cur d" "deque_end d' = Suc (deque_end d)"
    "start_cur d \<le> deque_end d" "deque_end d < length (deque_window d) * unit_num d"
    "\<And>q. q \<le> deque_end d \<Longrightarrow>
       elem_at m' (unit_size d) (unit_num d) (deque_window d) q =
       (if q = deque_end d then e else elem_at m (unit_size d) (unit_num d) (deque_window d) q)"
  shows "deque_list d' m' = deque_list d m @ [e]"
  using assms by (auto simp: deque_list_def elem_at_append)

definition deque_pushed :: "u1 list list \<Rightarrow> deque_t \<Rightarrow> deque_t \<Rightarrow> mem \<Rightarrow> bool" where
  "deque_pushed l d d' m' \<longleftrightarrow> deque_inv d' m' \<and> unit_size d' = unit_size d \<and>
     unit_num d' = unit_num d \<and> deque_list d' m' = l"

lemma push_back_window:
  assumes geo: "deque_geo d" and few: "length (deque_window d) \<le> MAX_BLOCKS"
  shows "\<exists>c d2. (if end_index d = u4_sub (map_size d) 1
                 then deque_update_map mal junk (d\<lparr>end_cur := x\<rparr>) m
                 else Some (0, d\<lparr>end_cur := x\<rparr>)) = Some (c, d2\<lparr>end_cur := x\<rparr>) \<and>
           deque_geo d2 \<and> deque_window d2 = deque_window d \<and> start_cur d2 = start_cur d \<and>
           end_cur d2 = end_cur d \<and> unit_num d2 = unit_num d \<and> unit_size d2 = unit_size d \<and>
           (c = 0 \<longrightarrow> end_index d2 + 1 < map_size d2)"
proof (cases "end_index d = u4_sub (map_size d) 1")
  case True
  then show ?thesis
    using update_map_room [OF geo few, of mal junk m] by (auto simp: update_map_end_cur)
next
  case False
  then have "end_index d + 1 < map_size d"
    using geo by (auto simp: deque_geo_def u4_sub_small)
  then show ?thesis using False geo by auto
qed

lemma window_end_eq:
  assumes "deque_geo d" "deque_geo d2" "deque_window d2 = deque_window d" "unit_num d2 = unit_num d"
    "end_cur d2 = end_cur d"
  shows "deque_end d2 = deque_end d"
  using assms window_length [OF assms(1)] window_length [OF assms(2)]
  by (simp add: deque_end_def deque_geo_def)

lemma deque_push_back_ok:
  assumes inv: "deque_inv d m" and mal: "\<And>k n. mal k n \<Longrightarrow> k < MAX_BLOCKS" and e: "length e = unit_size d"
  shows "\<exists>c d' m'. deque_push_back mal raw junk (Some d, m) (Some e) = Some (c, Some d', m') \<and>
           deque_pushed (if c = 0 then deque_list d m @ [e] else deque_list d m) d d' m'"
proof -
  let ?us = "unit_size d" and ?un = "unit_num d" and ?ws = "deque_window d"
  have geo: "deque_geo d" and o: "owns ?ws (?un * ?us) m" and few: "length ?ws \<le> MAX_BLOCKS"
    and lv: "live m \<le> MAX_BLOCKS"
    using inv by (auto simp: deque_inv_def owns_def)
  have g: "end_cur d < ?un" "start_cur d \<le> deque_end d" using geo by (auto simp: deque_geo_def)
  note lt = deque_end_less [OF geo]
  obtain m1 where st: "mem_store (?ws ! (deque_end d div ?un)) (end_cur d * ?us) e m = Some m1"
    and o1: "owns ?ws (?un * ?us) m1"
    and el: "\<And>q. q \<le> deque_end d \<Longrightarrow> elem_at m1 ?us ?un ?ws q =
        (if q = deque_end d then e else elem_at m ?us ?un ?ws q)"
    using window_store [OF o lt e] lt end_block(2) [OF geo] by auto
  have inc: "u4_add (end_cur d) 1 = Suc (end_cur d)"
    using g(1) unit_num_small [OF geo] by (simp add: u4_add_small)
  note pre = deque_push_back_def end_block(1) [OF geo] offset_small [OF geo g(1)] st inc e
  show ?thesis
  proof (cases "Suc (end_cur d) = ?un")
    case False
    let ?d = "d\<lparr>end_cur := Suc (end_cur d)\<rparr>"
    have w: "deque_window ?d = ?ws @ []" and de: "deque_end ?d = Suc (deque_end d)"
      by (simp_all add: deque_window_def deque_end_def)
    have "deque_geo ?d" using geo g False by (auto simp: deque_geo_def deque_end_def)
    then have "deque_inv ?d m1" using o1 few by (simp add: deque_inv_def w owns_def)
    moreover have "deque_list ?d m1 = deque_list d m @ [e]"
      by (rule deque_list_snoc [OF w _ _ _ de g(2) lt]) (simp_all add: el)
    ultimately show ?thesis
      using False by (simp add: pre mem_read_def deque_pushed_def del: One_nat_def)
  next
    case True
    obtain c d2 where up: "(if end_index d = u4_sub (map_size d) 1
          then deque_update_map mal junk (d\<lparr>end_cur := ?un\<rparr>) m1
          else Some (0, d\<lparr>end_cur := ?un\<rparr>)) = Some (c, d2\<lparr>end_cur := ?un\<rparr>)"
      and d2: "deque_geo d2" "deque_window d2 = ?ws" "start_cur d2 = start_cur d"
        "end_cur d2 = end_cur d" "unit_num d2 = ?un" "unit_size d2 = ?us"
      and room: "c = 0 \<Longrightarrow> end_index d2 + 1 < map_size d2"
      using push_back_window [OF geo few] by blast
    have de: "deque_end d2 = deque_end d" using window_end_eq [OF geo d2(1,2,5,4)] .
    have same: "deque_pushed (deque_list d m) d d2 m1"
      unfolding deque_pushed_def deque_inv_def
      using d2 o1 few deque_list_cong [of d2 d "[]" m1 m] de lt el by (simp add: owns_def)
    have undo: "d2\<lparr>end_cur := ?un - 1\<rparr> = d2" using d2(4) True by (metis diff_Suc_1 deque_t.surjective deque_t.update_convs(6))
    have run: "deque_push_back mal raw junk (Some d, m) (Some e) =
        (if c \<noteq> 0 then Some (-2, Some d2, m1) else
         case mem_alloc mal raw (?un * ?us) m1 of
           None \<Rightarrow> Some (-2, Some d2, m1)
         | Some (a, m) \<Rightarrow> do {
             d3 \<leftarrow> deque_set_block (d2\<lparr>end_cur := ?un, end_index := u4_add (end_index d2) 1\<rparr>)
                    (u4_add (end_index d2) 1) a;
             Some (0, Some (d3\<lparr>end_cur := 0\<rparr>), m) })"
      using e
      by (simp add: pre True mem_read_def Let_def up d2 block_bytes [OF geo] undo
          split: option.split del: One_nat_def)
    show ?thesis
    proof (cases "c = 0 \<and> mal (live m1) (?un * ?us)")
      case False
      then show ?thesis using same by (auto simp: run mem_alloc_def)
    next
      case ok: True
      then obtain a m2 where al: "mem_alloc mal raw (?un * ?us) m1 = Some (a, m2)"
        by (auto simp: mem_alloc_def)
      let ?d = "d2\<lparr>end_index := end_index d2 + 1, dmap := (dmap d2)[end_index d2 + 1 := a], end_cur := 0\<rparr>"
      note gb = grow_back [OF d2(1) room refl, of a]
      have k: "end_index d2 + 1 - start_index d2 = Suc (end_index d2 - start_index d2)"
        using d2(1) by (simp add: deque_geo_def Suc_diff_le)
      have "deque_end ?d = ?un + (end_index d2 - start_index d2) * ?un"
        using gb(3) ok d2(5) unfolding k by simp
      then have "deque_end ?d = Suc (deque_end d)"
        using True d2(4,5) unfolding de [symmetric] deque_end_def [of d2] by simp
      then have "deque_list ?d m2 = deque_list d m @ [e]"
        using gb(2) ok d2 g lt el window_alloc(3) [OF o1 al] elem_at_cong [of _ ?ws ?un m2 m1]
        by (intro deque_list_snoc) auto
      moreover have "live m1 < MAX_BLOCKS" using mal ok by blast
      ultimately have "deque_pushed (deque_list d m @ [e]) d ?d m2"
        using gb ok d2 window_alloc(1) [OF o1 al] al
        by (auto simp: deque_pushed_def deque_inv_def mem_alloc_def split: if_splits)
      moreover have "u4_add (end_index d2) 1 = end_index d2 + 1"
        "end_index d2 + 1 < length (dmap d2)"
        using room ok d2(1) by (auto simp: deque_geo_def u4_add_small)
      ultimately show ?thesis
        using al ok by (simp add: run deque_set_block_def)
    qed
  qed
qed

lemma deque_list_Cons:
  assumes "deque_window d' = deque_window d" "unit_size d' = unit_size d"
    "unit_num d' = unit_num d" "start_cur d = Suc (start_cur d')" "deque_end d' = deque_end d"
    "start_cur d \<le> deque_end d"
    "\<And>q. q < deque_end d \<Longrightarrow>
       elem_at m' (unit_size d) (unit_num d) (deque_window d) q =
       (if q = start_cur d' then e else elem_at m (unit_size d) (unit_num d) (deque_window d) q)"
  shows "deque_list d' m' = e # deque_list d m"
proof -
  have "[start_cur d'..<deque_end d] = start_cur d' # [start_cur d..<deque_end d]"
    using assms by (simp add: upt_rec)
  then show ?thesis using assms by (simp add: deque_list_def)
qed

lemma map_upt_shift: "map f [k + a..<k + b] = map (\<lambda>i. f (k + i)) [a..<b]"
  by (rule nth_equalityI) (auto simp: ac_simps)

lemma deque_list_grown:
  assumes w: "deque_window d' = a # deque_window d" and "unit_size d' = unit_size d"
    "unit_num d' = unit_num d" "0 < unit_num d" "start_cur d' = unit_num d - 1" "start_cur d = 0"
    "deque_end d' = unit_num d + deque_end d" "deque_end d \<le> length (deque_window d) * unit_num d"
    "elem_at m' (unit_size d) (unit_num d) (a # deque_window d) (unit_num d - 1) = e"
    "\<And>q. q < deque_end d \<Longrightarrow>
       elem_at m' (unit_size d) (unit_num d) (a # deque_window d) (unit_num d + q) =
       elem_at m (unit_size d) (unit_num d) (deque_window d) q"
  shows "deque_list d' m' = e # deque_list d m"
proof -
  have "[unit_num d - 1..<unit_num d + deque_end d] = (unit_num d - 1) # [unit_num d + 0..<unit_num d + deque_end d]"
    using assms(4) by (simp add: upt_rec)
  moreover have "map (elem_at m' (unit_size d) (unit_num d) (a # deque_window d))
      [unit_num d + 0..<unit_num d + deque_end d] =
      map (elem_at m (unit_size d) (unit_num d) (deque_window d)) [0..<deque_end d]"
    unfolding map_upt_shift using assms(10) by simp
  ultimately show ?thesis using assms(1-9) by (simp add: deque_list_def)
qed

lemma push_front_window:
  assumes geo: "deque_geo d" and few: "length (deque_window d) \<le> MAX_BLOCKS"
  shows "\<exists>c d2. (if start_index d = 0 then deque_update_map mal junk d m else Some (0, d)) =
             Some (c, d2) \<and>
           deque_geo d2 \<and> deque_window d2 = deque_window d \<and> start_cur d2 = start_cur d \<and>
           end_cur d2 = end_cur d \<and> unit_num d2 = unit_num d \<and> unit_size d2 = unit_size d \<and>
           (c = 0 \<longrightarrow> 0 < start_index d2)"
  using update_map_room [OF geo few, of mal junk m] geo by (cases "start_index d = 0") auto

lemma push_front_new_block:
  assumes geo: "deque_geo d" and zero: "start_cur d = 0" and room: "0 < start_index d"
    and o: "owns (deque_window d) (unit_num d * unit_size d) m" and e: "length e = unit_size d"
    and al: "mem_alloc mal raw (unit_num d * unit_size d) m = Some (a, m2)"
    and mal: "\<And>k n. mal k n \<Longrightarrow> k < MAX_BLOCKS"
  shows "\<exists>d' m'. (do {
             d \<leftarrow> deque_set_block (d\<lparr>start_index := u4_sub (start_index d) 1\<rparr>) (u4_sub (start_index d) 1) a;
             let d = d\<lparr>start_cur := u4_sub (unit_num d) 1\<rparr>;
             bytes \<leftarrow> mem_read 0 (unit_size d) e;
             m \<leftarrow> mem_store a (u4_mul (start_cur d) (unit_size d)) bytes m2;
             Some (0 :: n4, Some d, m) }) = Some (0, Some d', m') \<and>
           deque_pushed (e # deque_list d m) d d' m'"
proof -
  let ?us = "unit_size d" and ?un = "unit_num d" and ?ws = "deque_window d"
  let ?d = "d\<lparr>start_index := start_index d - 1, dmap := (dmap d)[start_index d - 1 := a],
              start_cur := ?un - 1\<rparr>"
  note gf = grow_front [OF geo room zero refl, of a]
  note o2 = window_alloc(2) [OF o al]
  have un: "0 < ?un" "?un - 1 < ?un" and lt: "deque_end d < length ?ws * ?un"
    using geo deque_end_less [OF geo] by (auto simp: deque_geo_def)
  have p: "?un - 1 < length (a # ?ws) * ?un" "(?un - 1) div ?un = 0" "(?un - 1) mod ?un = ?un - 1"
    using un by auto
  obtain m3 where st: "mem_store a ((?un - 1) * ?us) e m2 = Some m3"
    and o3: "owns (a # ?ws) (?un * ?us) m3"
    and el: "\<And>q. q < length (a # ?ws) * ?un \<Longrightarrow> elem_at m3 ?us ?un (a # ?ws) q =
        (if q = ?un - 1 then e else elem_at m2 ?us ?un (a # ?ws) q)"
    using window_store [OF o2 p(1) e] unfolding p by auto
  have "elem_at m3 ?us ?un (a # ?ws) (?un + q) = elem_at m ?us ?un ?ws q" if "q < deque_end d" for q
    using that un lt el [of "?un + q"] elem_at_Cons [OF un(1), of m2 ?us a ?ws q]
      elem_at_cong [of q ?ws ?un m2 m ?us] window_alloc(3) [OF o al] by auto
  then have "deque_list ?d m3 = e # deque_list d m"
    using gf un lt el [OF p(1)] zero by (intro deque_list_grown) auto
  moreover have "live m < MAX_BLOCKS" "live m3 = Suc (live m)"
    using al mal [of "live m"] o o3 by (auto simp: mem_alloc_def owns_def split: if_splits)
  ultimately have "deque_pushed (e # deque_list d m) d ?d m3"
    using gf o3 by (auto simp: deque_pushed_def deque_inv_def)
  moreover have "u4_sub (start_index d) 1 = start_index d - 1" "u4_sub ?un 1 = ?un - 1"
    "start_index d - 1 < length (dmap d)"
    using room geo un unit_num_small [OF geo] by (auto simp: deque_geo_def u4_sub_small)
  ultimately show ?thesis
    using st e offset_small [OF geo un(2)]
    by (simp add: deque_set_block_def mem_read_def Let_def del: One_nat_def)
qed

lemma deque_push_front_ok:
  assumes inv: "deque_inv d m" and mal: "\<And>k n. mal k n \<Longrightarrow> k < MAX_BLOCKS" and e: "length e = unit_size d"
  shows "\<exists>c d' m'. deque_push_front mal raw junk (Some d, m) (Some e) = Some (c, Some d', m') \<and>
           deque_pushed (if c = 0 then e # deque_list d m else deque_list d m) d d' m'"
proof -
  let ?us = "unit_size d" and ?un = "unit_num d" and ?ws = "deque_window d"
  have geo: "deque_geo d" and o: "owns ?ws (?un * ?us) m" and few: "length ?ws \<le> MAX_BLOCKS"
    using inv by (auto simp: deque_inv_def owns_def)
  have g: "start_cur d < ?un" "start_cur d \<le> deque_end d" using geo by (auto simp: deque_geo_def)
  note lt = deque_end_less [OF geo]
  show ?thesis
  proof (cases "start_cur d")
    case (Suc p)
    let ?d = "d\<lparr>start_cur := p\<rparr>"
    have w: "deque_window ?d = ?ws" "deque_end ?d = deque_end d"
      by (simp_all add: deque_window_def deque_end_def)
    have p: "p < length ?ws * ?un" "p div ?un = 0" "p mod ?un = p" "p < ?un"
      using Suc g lt by auto
    obtain m1 where st: "mem_store (?ws ! 0) (p * ?us) e m = Some m1"
      and o1: "owns ?ws (?un * ?us) m1"
      and el: "\<And>q. q < length ?ws * ?un \<Longrightarrow>
          elem_at m1 ?us ?un ?ws q = (if q = p then e else elem_at m ?us ?un ?ws q)"
      using window_store [OF o p(1) e] unfolding p by auto
    have "deque_geo ?d" using geo Suc w by (auto simp: deque_geo_def)
    moreover have "deque_list ?d m1 = e # deque_list d m"
      using w Suc g lt el by (intro deque_list_Cons) auto
    ultimately have "deque_pushed (e # deque_list d m) d ?d m1"
      using o1 few w by (simp add: deque_pushed_def deque_inv_def owns_def)
    moreover have "deque_block ?d (start_index d) = Some (?ws ! 0)"
      using end_block(3) [OF geo] g by (simp add: deque_block_def split: if_splits)
    ultimately show ?thesis
      using Suc st e offset_small [OF geo p(4)]
      by (simp add: deque_push_front_def mem_read_def Let_def)
  next
    case 0
    obtain c d2 where up: "(if start_index d = 0 then deque_update_map mal junk d m
          else Some (0, d)) = Some (c, d2)"
      and d2: "deque_geo d2" "deque_window d2 = ?ws" "start_cur d2 = start_cur d"
        "end_cur d2 = end_cur d" "unit_num d2 = ?un" "unit_size d2 = ?us"
      and room: "c = 0 \<Longrightarrow> 0 < start_index d2"
      using push_front_window [OF geo few] by blast
    have de: "deque_end d2 = deque_end d" using window_end_eq [OF geo d2(1,2,5,4)] .
    have list: "deque_list d2 m = deque_list d m" using d2 de by (simp add: deque_list_def)
    then have same: "deque_pushed (deque_list d m) d d2 m"
      using d2 inv by (simp add: deque_pushed_def deque_inv_def)
    have run: "deque_push_front mal raw junk (Some d, m) (Some e) =
        (if c \<noteq> 0 then Some (-2, Some d2, m) else
         case mem_alloc mal raw (?un * ?us) m of
           None \<Rightarrow> Some (-2, Some d2, m)
         | Some (a, m2) \<Rightarrow> do {
             d \<leftarrow> deque_set_block (d2\<lparr>start_index := u4_sub (start_index d2) 1\<rparr>) (u4_sub (start_index d2) 1) a;
             let d = d\<lparr>start_cur := u4_sub (unit_num d) 1\<rparr>;
             bytes \<leftarrow> mem_read 0 (unit_size d) e;
             m \<leftarrow> mem_store a (u4_mul (start_cur d) (unit_size d)) bytes m2;
             Some (0, Some d, m) })"
      by (simp add: deque_push_front_def 0 up Let_def d2 block_bytes [OF geo]
          split: option.split del: One_nat_def)
    show ?thesis
    proof (cases "c = 0 \<and> mal (live m) (?un * ?us)")
      case False
      then show ?thesis using same by (auto simp: run mem_alloc_def)
    next
      case True
      then obtain a m2 where al: "mem_alloc mal raw (?un * ?us) m = Some (a, m2)"
        by (auto simp: mem_alloc_def)
      show ?thesis
        using push_front_new_block [of d2 m e mal raw a m2] d2 0 room True o e al mal
        by (auto simp: run list deque_pushed_def simp del: One_nat_def)
    qed
  qed
qed

text \<open>Dropping the first and the last block of the window.\<close>

lemma shrink_front:
  assumes geo: "deque_geo d" and more: "start_index d < end_index d"
    and d': "d' = d\<lparr>dmap := (dmap d)[start_index d := x], start_index := start_index d + 1, start_cur := 0\<rparr>"
  shows "deque_geo d'" "deque_window d = deque_window d ! 0 # deque_window d'"
    "deque_end d = unit_num d + deque_end d'"
proof -
  have b: "length (dmap d) = map_size d" "end_index d < map_size d" using geo by (auto simp: deque_geo_def)
  obtain k where k: "end_index d = Suc (start_index d + k)"
    using more less_iff_Suc_add by auto
  show e: "deque_end d = unit_num d + deque_end d'" using k by (simp add: deque_end_def d')
  show "deque_window d = deque_window d ! 0 # deque_window d'"
    using k b by (simp add: deque_window_def d' Cons_nth_drop_Suc [symmetric])
  show "deque_geo d'" using geo more by (auto simp: deque_geo_def d')
qed

lemma shrink_back:
  assumes geo: "deque_geo d" and more: "start_index d < end_index d"
    and d': "d' = d\<lparr>dmap := (dmap d)[end_index d := x], end_index := end_index d - 1,
                end_cur := unit_num d - 1\<rparr>"
  shows "deque_geo d'" "deque_window d = deque_window d' @ [deque_window d ! (end_index d - start_index d)]"
    "end_cur d = 0 \<Longrightarrow> deque_end d = Suc (deque_end d')"
proof -
  have b: "length (dmap d) = map_size d" "end_index d < map_size d" "0 < unit_num d" "start_cur d < unit_num d"
    using geo by (auto simp: deque_geo_def)
  obtain k where k: "end_index d = Suc (start_index d + k)"
    using more less_iff_Suc_add by auto
  show "end_cur d = 0 \<Longrightarrow> deque_end d = Suc (deque_end d')"
    using k b(3) by (simp add: deque_end_def d')
  show "deque_window d = deque_window d' @ [deque_window d ! (end_index d - start_index d)]"
    using k b by (intro nth_equalityI) (auto simp: deque_window_def d' nth_append less_Suc_eq)
  show "deque_geo d'" using geo more b k by (auto simp: deque_geo_def d' deque_end_def)
qed

lemma deque_head:
  assumes "deque_list d m = e # es"
  shows "start_cur d < deque_end d"
    "elem_at m (unit_size d) (unit_num d) (deque_window d) (start_cur d) = e"
    "es = map (elem_at m (unit_size d) (unit_num d) (deque_window d)) [Suc (start_cur d)..<deque_end d]"
proof -
  show lt: "start_cur d < deque_end d" using assms by (cases "start_cur d < deque_end d") (auto simp: deque_list_def)
  then show "elem_at m (unit_size d) (unit_num d) (deque_window d) (start_cur d) = e"
    "es = map (elem_at m (unit_size d) (unit_num d) (deque_window d)) [Suc (start_cur d)..<deque_end d]"
    using assms by (simp_all add: deque_list_def upt_conv_Cons)
qed

lemma deque_last:
  assumes "deque_list d m = es @ [e]"
  shows "\<exists>k. deque_end d = Suc k \<and> start_cur d \<le> k \<and>
    elem_at m (unit_size d) (unit_num d) (deque_window d) k = e \<and>
    es = map (elem_at m (unit_size d) (unit_num d) (deque_window d)) [start_cur d..<k]"
proof -
  have "start_cur d < deque_end d" using assms by (cases "start_cur d < deque_end d") (auto simp: deque_list_def)
  then obtain k where "deque_end d = Suc k" "start_cur d \<le> k" by (cases "deque_end d") auto
  then show ?thesis using assms by (simp add: deque_list_def)
qed

lemma deque_pop_front_ok:
  assumes inv: "deque_inv d m" and l: "deque_list d m = e # es"
  shows "\<exists>d' m'. deque_pop_front (Some d, m) True = Some (0, (Some d', m'), Some e) \<and>
           deque_pushed es d d' m'"
proof -
  let ?us = "unit_size d" and ?un = "unit_num d" and ?ws = "deque_window d"
  have geo: "deque_geo d" and o: "owns ?ws (?un * ?us) m" and lv: "live m \<le> MAX_BLOCKS"
    using inv by (auto simp: deque_inv_def)
  have g: "start_cur d < ?un" using geo by (auto simp: deque_geo_def)
  note h = deque_head [OF l] and lt = deque_end_less [OF geo]
  have ne: "\<not> (start_index d = end_index d \<and> start_cur d = end_cur d)"
    using deque_list_empty [OF geo] l by auto
  have ld: "mem_load (?ws ! 0) (u4_mul (start_cur d) ?us) ?us m = Some e"
    using window_load [OF o, of "start_cur d"] h g lt offset_small [OF geo g] by simp
  have blk: "deque_block d (start_index d) = Some (?ws ! 0)" using end_block(3) [OF geo] g by simp
  have inc: "u4_add (start_cur d) 1 = Suc (start_cur d)"
    using g unit_num_small [OF geo] by (simp add: u4_add_small)
  show ?thesis
  proof (cases "Suc (start_cur d) = ?un")
    case False
    let ?d = "d\<lparr>start_cur := Suc (start_cur d)\<rparr>"
    have w: "deque_window ?d = ?ws" "deque_end ?d = deque_end d"
      by (simp_all add: deque_window_def deque_end_def)
    have "deque_geo ?d" using geo False h(1) w by (auto simp: deque_geo_def)
    then have "deque_pushed es d ?d m"
      using o lv w h(3) by (simp add: deque_pushed_def deque_inv_def deque_list_def)
    then show ?thesis
      using False ne blk ld inc by (simp add: deque_pop_front_def Let_def del: One_nat_def)
  next
    case True
    have more: "start_index d < end_index d"
    proof (rule ccontr)
      assume "\<not> start_index d < end_index d"
      then have "deque_end d < ?un" using geo by (simp add: deque_end_def deque_geo_def)
      then show False using h(1) True by simp
    qed
    let ?d = "d\<lparr>dmap := (dmap d)[start_index d := 0], start_index := start_index d + 1, start_cur := 0\<rparr>"
    note sf = shrink_front [OF geo more refl, of 0]
    have dist: "distinct (?ws ! 0 # deque_window ?d)"
      using o unfolding sf(2) [symmetric] by (simp add: owns_def)
    have rest: "set (deque_window ?d) = set ?ws - {?ws ! 0}" "?ws ! 0 \<in> set ?ws"
      using dist arg_cong [OF sf(2), of set] by auto
    obtain m' where fr: "mem_free (?ws ! 0) m = Some m'" and o': "owns (deque_window ?d) (?un * ?us) m'"
      and same: "\<forall>x \<in> set (deque_window ?d). cells m' x = cells m x"
      using window_free [OF o rest(2,1)] dist by auto
    have len: "deque_end ?d < length (deque_window ?d) * ?un"
      using deque_end_less [OF sf(1)] by simp
    have "elem_at m' ?us ?un (deque_window ?d) q = elem_at m ?us ?un ?ws (?un + q)"
      if "q < deque_end ?d" for q
      using elem_at_cong [of q "deque_window ?d" ?un m' m ?us] same len that
        elem_at_Cons [of ?un m ?us "?ws ! 0" "deque_window ?d" q] sf(2) g by auto
    then have "deque_list ?d m' = es"
      using h(3) True sf(3) map_upt_shift [of "elem_at m ?us ?un ?ws" ?un 0 "deque_end ?d"]
      by (simp add: deque_list_def)
    moreover have "live m' \<le> MAX_BLOCKS" using fr lv by (auto simp: mem_free_def split: if_splits)
    ultimately have "deque_pushed es d ?d m'" using sf(1) o' by (simp add: deque_pushed_def deque_inv_def)
    moreover have "start_index d < length (dmap d)" "u4_add (start_index d) 1 = start_index d + 1"
      using more geo by (auto simp: deque_geo_def u4_add_small)
    ultimately show ?thesis
      using True ne blk ld inc fr more
      by (simp add: deque_pop_front_def Let_def deque_set_block_def del: One_nat_def)
  qed
qed

lemma pop_back_block:
  assumes inv: "deque_inv d m" and zero: "end_cur d = 0" and k: "deque_end d = Suc k" "start_cur d \<le> k"
  shows "\<exists>d' m'. deque_pop_back (Some d, m) True =
             Some (0, (Some d', m'), Some (elem_at m (unit_size d) (unit_num d) (deque_window d) k)) \<and>
           deque_pushed (map (elem_at m (unit_size d) (unit_num d) (deque_window d)) [start_cur d..<k]) d d' m'"
proof -
  let ?us = "unit_size d" and ?un = "unit_num d" and ?ws = "deque_window d"
  let ?n = "end_index d - start_index d"
  have geo: "deque_geo d" and o: "owns ?ws (?un * ?us) m" and lv: "live m \<le> MAX_BLOCKS"
    using inv by (auto simp: deque_inv_def)
  have un: "0 < ?un" "?un - 1 < ?un" using geo by (auto simp: deque_geo_def)
  have more: "start_index d < end_index d"
    using k(1) zero by (cases "start_index d < end_index d") (auto simp: deque_end_def)
  let ?d = "d\<lparr>dmap := (dmap d)[end_index d := 0], end_index := end_index d - 1, end_cur := ?un - 1\<rparr>"
  note sb = shrink_back [OF geo more refl, of 0]
  have last: "deque_block d (end_index d) = Some (?ws ! ?n)"
    using end_block(1,2) [OF geo] zero un by (simp add: deque_end_def)
  have dist: "distinct (deque_window ?d @ [?ws ! ?n])"
    using o unfolding sb(2) [symmetric] by (simp add: owns_def)
  have rest: "set (deque_window ?d) = set ?ws - {?ws ! ?n}" "?ws ! ?n \<in> set ?ws"
    using dist arg_cong [OF sb(2), of set] by auto
  obtain m' where fr: "mem_free (?ws ! ?n) m = Some m'" and o': "owns (deque_window ?d) (?un * ?us) m'"
    and same: "\<forall>x \<in> set (deque_window ?d). cells m' x = cells m x"
    using window_free [OF o rest(2,1)] dist by auto
  have kd: "k = deque_end ?d" using sb(3) [OF zero] k(1) by simp
  have len: "k < length (deque_window ?d) * ?un" using deque_end_less [OF sb(1)] kd by simp
  have el: "elem_at m' ?us ?un (deque_window ?d) q = elem_at m ?us ?un ?ws q" if "q \<le> k" for q
    using elem_at_cong [of q "deque_window ?d" ?un m' m ?us] same len that
      elem_at_append [of q "deque_window ?d" ?un m ?us "[?ws ! ?n]"] sb(2) by auto
  have "deque_list ?d m' = map (elem_at m ?us ?un ?ws) [start_cur d..<k]"
    using el kd by (simp add: deque_list_def)
  moreover have "live m' \<le> MAX_BLOCKS" using fr lv by (auto simp: mem_free_def split: if_splits)
  ultimately have "deque_pushed (map (elem_at m ?us ?un ?ws) [start_cur d..<k]) d ?d m'"
    using sb(1) o' by (simp add: deque_pushed_def deque_inv_def)
  moreover have "mem_load (deque_window ?d ! (k div ?un)) ((k mod ?un) * ?us) ?us m' =
      Some (elem_at m ?us ?un ?ws k)"
    using window_load [OF o' len] el by simp
  moreover have "k mod ?un = ?un - 1"
    "deque_block (d\<lparr>dmap := (dmap d)[end_index d := 0], end_index := end_index d - 1\<rparr>) (end_index d - 1) =
       Some (deque_window ?d ! (k div ?un))"
    using end_block(1,2) [OF sb(1)] by (simp_all add: kd deque_block_def split: if_splits)
  moreover have "end_index d < length (dmap d)" "u4_sub (end_index d) 1 = end_index d - 1"
    "u4_sub ?un 1 = ?un - 1" "u4_mul (?un - 1) ?us = (?un - 1) * ?us"
    using more geo unit_num_small [OF geo] offset_small [OF geo un(2)] un
    by (auto simp: deque_geo_def u4_sub_small)
  ultimately show ?thesis
    using more zero last fr
    by (simp add: deque_pop_back_def Let_def deque_set_block_def del: One_nat_def)
qed

lemma deque_pop_back_ok:
  assumes inv: "deque_inv d m" and l: "deque_list d m = es @ [e]"
  shows "\<exists>d' m'. deque_pop_back (Some d, m) True = Some (0, (Some d', m'), Some e) \<and>
           deque_pushed es d d' m'"
proof (cases "end_cur d")
  case 0
  then show ?thesis using pop_back_block [OF inv 0] deque_last [OF l] by auto
next
  case (Suc c)
  let ?us = "unit_size d" and ?un = "unit_num d" and ?ws = "deque_window d"
  have geo: "deque_geo d" and o: "owns ?ws (?un * ?us) m" and lv: "live m \<le> MAX_BLOCKS"
    using inv by (auto simp: deque_inv_def)
  obtain k where k: "deque_end d = Suc k" "start_cur d \<le> k" "elem_at m ?us ?un ?ws k = e"
    "es = map (elem_at m ?us ?un ?ws) [start_cur d..<k]"
    using deque_last [OF l] by blast
  let ?d = "d\<lparr>end_cur := c\<rparr>"
  have w: "deque_window ?d = ?ws" "deque_end ?d = k"
    using Suc k(1) by (simp_all add: deque_window_def deque_end_def)
  have geo': "deque_geo ?d" using geo Suc k w by (auto simp: deque_geo_def)
  then have "deque_pushed es d ?d m"
    using o lv w k(4) by (simp add: deque_pushed_def deque_inv_def deque_list_def)
  moreover have "mem_load (?ws ! (k div ?un)) (c * ?us) ?us m = Some e"
    using window_load [OF o, of k] deque_end_less [OF geo] k end_block(2) [OF geo'] w by simp
  moreover have "deque_block d (end_index d) = Some (?ws ! (k div ?un))"
    using end_block(1) [OF geo'] w by (simp add: deque_block_def split: if_splits)
  moreover have "\<not> (start_index d = end_index d \<and> start_cur d = end_cur d)"
    using deque_list_empty [OF geo] l by auto
  moreover have "u4_mul c ?us = c * ?us"
    using offset_small [OF geo, of c] geo Suc by (simp add: deque_geo_def)
  ultimately show ?thesis using Suc by (simp add: deque_pop_back_def Let_def)
qed

section \<open>The deque is a two-ended queue\<close>

definition dstate_inv :: "nat \<Rightarrow> dstate \<Rightarrow> bool" where
  "dstate_inv un s \<longleftrightarrow> (case s of (Some d, m) \<Rightarrow> deque_inv d m \<and> unit_num d = un | (None, m) \<Rightarrow> False)"

definition dstate_list :: "dstate \<Rightarrow> u1 list list" where
  "dstate_list s = (case s of (Some d, m) \<Rightarrow> deque_list d m | (None, m) \<Rightarrow> [])"

definition dstate_elem_ok :: "dstate \<Rightarrow> u1 list \<Rightarrow> bool" where
  "dstate_elem_ok s e = (case s of (Some d, m) \<Rightarrow> length e = unit_size d | (None, m) \<Rightarrow> False)"

lemmas dstate_defs = dstate_inv_def dstate_list_def dstate_elem_ok_def

lemma dstate_cases:
  assumes "dstate_inv un s"
  obtains d m where "s = (Some d, m)" "deque_inv d m" "unit_num d = un"
  using assms by (auto simp: dstate_inv_def split: prod.splits option.splits)

lemma deque_pop_empty:
  assumes "deque_inv d m" "deque_list d m = []"
  shows "deque_pop_front (Some d, m) b = Some (-1, (Some d, m), None)"
    "deque_pop_back (Some d, m) b = Some (-1, (Some d, m), None)"
  using assms deque_list_empty [of d m]
  by (simp_all add: deque_inv_def deque_pop_front_def deque_pop_back_def)

interpretation dq: two_ended "dstate_inv un" dstate_list dstate_elem_ok
  "\<lambda>s e. deque_push_front (capped mal) raw junk s (Some e)" "\<lambda>s e. deque_push_back (capped mal) raw junk s (Some e)"
  "\<lambda>s. deque_pop_front s True" "\<lambda>s. deque_pop_back s True"
  for un mal raw junk
proof (unfold_locales, goal_cases)
  case (1 s e)
  then show ?case
    using deque_push_front_ok [of _ _ "capped mal" e raw junk]
    by (elim dstate_cases) (fastforce simp: dstate_defs deque_pushed_def fun_eq_iff capped_def)
next
  case (2 s e)
  then show ?case
    using deque_push_back_ok [of _ _ "capped mal" e raw junk]
    by (elim dstate_cases) (fastforce simp: dstate_defs deque_pushed_def fun_eq_iff capped_def)
next
  case (3 s e es)
  then show ?case
    using deque_pop_front_ok [of _ _ e es]
    by (elim dstate_cases) (fastforce simp: dstate_defs deque_pushed_def fun_eq_iff capped_def)
next
  case (4 s es e)
  then show ?case
    using deque_pop_back_ok [of _ _ es e]
    by (elim dstate_cases) (fastforce simp: dstate_defs deque_pushed_def fun_eq_iff capped_def)
next
  case (5 s)
  then show ?case
    using deque_pop_empty(1) by (elim dstate_cases) (fastforce simp: dstate_defs)
next
  case (6 s)
  then show ?case
    using deque_pop_empty(2) by (elim dstate_cases) (fastforce simp: dstate_defs)
qed

lemma deque_init_ok:
  assumes "0 < usize" "2 \<le> msize" "msize < 2 ^ 29" "usize \<le> bsize" "bsize < 2 ^ 32"
    "mal 0 32" "mal 0 (msize * 4)" "mal 0 (bsize div usize * usize)"
  shows "\<exists>d m. deque_init mal raw junk True usize msize bsize mem_empty = (0, Some d, m) \<and>
           deque_inv d m \<and> deque_list d m = [] \<and> unit_size d = usize \<and> unit_num d = bsize div usize"
proof -
  have le: "bsize div usize * usize \<le> bsize" by (rule div_times_less_eq_dividend)
  have lt: "bsize div usize * usize < 2 ^ 32" using le_less_trans [OF le assms(5)] .
  have sz: "u4_mul msize 4 = msize * 4" "u4_mul (bsize div usize) usize = bsize div usize * usize"
    using assms(3) u4_mul_small [OF lt] by (simp_all add: u4_mul_small)
  have "0 < bsize div usize" using assms by (simp add: div_greater_zero_iff)
  then have geo: "deque_inv d m \<and> deque_list d m = []"
    if "d = \<lparr>dmap = (map junk [0..<msize])[msize div 2 := 1], map_size = msize,
          start_index = msize div 2, start_cur = 0, end_index = msize div 2, end_cur = 0,
          unit_num = bsize div usize, unit_size = usize\<rparr>"
      "m = \<lparr>cells = [1 \<mapsto> map (raw 1) [0..<bsize div usize * usize]], brk = Suc (Suc 0), live = Suc 0\<rparr>" for d m
    using assms lt unfolding that
    by (auto simp: deque_inv_def deque_geo_def deque_end_def deque_window_def deque_list_def
        owns_def take_Suc_conv_app_nth)
  show ?thesis
    using assms geo [OF refl refl]
    by (auto simp: deque_init_def sz mem_alloc_def mem_empty_def Let_def)
qed

text \<open>
  A window of \<open>l\<close> blocks holds more than \<open>(l - 2) * unit_num\<close> elements. So with fewer than \<open>deque_room un\<close> elements in blocks of
  \<open>un\<close> the allocator is asked only with less than \<open>MAX_BLOCKS\<close> blocks alive.
\<close>

definition deque_room :: "nat \<Rightarrow> nat" where
  "deque_room un = (MAX_BLOCKS - 2) * un"

lemma deque_room_live:
  assumes inv: "deque_inv d m" and len: "length (deque_list d m) < deque_room (unit_num d)"
  shows "live m < MAX_BLOCKS"
proof (rule ccontr)
  let ?un = "unit_num d" and ?k = "end_index d - start_index d"
  assume "\<not> live m < MAX_BLOCKS"
  then have "MAX_BLOCKS - 1 \<le> ?k"
    using inv window_length [of d] by (auto simp: deque_inv_def owns_def)
  then have "(MAX_BLOCKS - 1) * ?un \<le> ?k * ?un" by (rule mult_le_mono1)
  moreover have "(MAX_BLOCKS - 1) * ?un = deque_room ?un + ?un" by (simp add: deque_room_def)
  moreover have "start_cur d < ?un" using inv by (auto simp: deque_inv_def deque_geo_def)
  moreover have "?k * ?un + end_cur d - start_cur d < deque_room ?un" using len by (simp add: deque_list_def deque_end_def)
  ultimately show False by linarith
qed

lemma update_map_capped: "live m < MAX_BLOCKS \<Longrightarrow> deque_update_map (capped mal) junk d m = deque_update_map mal junk d m"
  by (simp add: deque_update_map_def capped_def Let_def)

lemma mem_alloc_capped: "live m < MAX_BLOCKS \<Longrightarrow> mem_alloc (capped mal) raw n m = mem_alloc mal raw n m"
  by (simp add: mem_alloc_def capped_def)

lemma mem_store_live: "mem_store a off bs m = Some m' \<Longrightarrow> live m' = live m"
  by (auto simp: mem_store_def split: option.splits bind_splits)

lemma push_capped:
  assumes "dstate_inv un s" "length (dstate_list s) < deque_room un"
  shows "deque_push_back mal raw junk s (Some e) = deque_push_back (capped mal) raw junk s (Some e)"
    "deque_push_front mal raw junk s (Some e) = deque_push_front (capped mal) raw junk s (Some e)"
proof -
  obtain d m where s: "s = (Some d, m)" "deque_inv d m" "unit_num d = un" using assms(1) by (rule dstate_cases)
  then have l: "live m < MAX_BLOCKS" using deque_room_live [of d m] assms(2) by (simp add: dstate_list_def)
  show "deque_push_front mal raw junk s (Some e) = deque_push_front (capped mal) raw junk s (Some e)"
    using l by (simp add: s(1) deque_push_front_def update_map_capped mem_alloc_capped cong: if_cong)
  have "deque_update_map (capped mal) junk d' m' = deque_update_map mal junk d' m'" "mem_alloc (capped mal) raw n m' = mem_alloc mal raw n m'"
    if "mem_store a off bs m = Some m'" for a off bs m' d' n
    using update_map_capped mem_alloc_capped mem_store_live [OF that] l by simp_all
  then show "deque_push_back mal raw junk s (Some e) = deque_push_back (capped mal) raw junk s (Some e)"
    by (auto simp: s(1) deque_push_back_def Let_def intro!: Option.bind_cong)
qed

section \<open>Properties\<close>

text \<open>
  C8. A deque that \<open>_deque_init\<close> has made with a pointer array of at least two entries (and less than 2^29) and used as a queue
  (\<open>deque_push_back\<close>, \<open>deque_pop_front\<close>) gives the
  elements back in order for every sequence of calls that never has more than \<open>deque_room\<close> elements in it, which is about 2^26 blocks
  of them, across block boundaries, moves of the
  window and growth of the pointer array; an allocation that fails, at any call, loses nothing; no access leaves
  a block or touches a freed one. (With an array of one entry, which \<open>_deque_init\<close> accepts, the second block overruns it.)
\<close>

theorem deque_fifo:
  assumes "0 < usize" "2 \<le> msize" "msize < 2 ^ 29" "usize \<le> bsize" "bsize < 2 ^ 32"
    "mal 0 32" "mal 0 (msize * 4)" "mal 0 (bsize div usize * usize)"
    "q_fits (deque_room (bsize div usize)) ops 0"
    "\<forall>e. QPush e \<in> set ops \<longrightarrow> length e = usize"
  shows "\<exists>d m i out d' m'.
           deque_init mal raw junk True usize msize bsize mem_empty = (0, Some d, m) \<and>
           q_run (\<lambda>s e. deque_push_back mal raw junk s (Some e)) (\<lambda>s. deque_pop_front s True)
             ops (Some d, m) = Some (i, out, Some d', m') \<and>
           deque_inv d' m' \<and> i = out @ deque_list d' m'"
proof -
  obtain d m where r: "deque_init mal raw junk True usize msize bsize mem_empty = (0, Some d, m)"
      "deque_inv d m" "deque_list d m = []" "unit_size d = usize" "unit_num d = bsize div usize"
    using deque_init_ok [of usize msize bsize mal raw junk] assms(1-8) by blast
  have s: "dstate_inv (bsize div usize) (Some d, m)" "\<And>e. QPush e \<in> set ops \<Longrightarrow> dstate_elem_ok (Some d, m) e"
    "length (dstate_list (Some d, m)) \<le> 0"
    using r assms(10) by (auto simp: dstate_defs)
  have same: "q_run (\<lambda>s e. deque_push_back mal raw junk s (Some e)) (\<lambda>s. deque_pop_front s True) ops (Some d, m) =
      q_run (\<lambda>s e. deque_push_back (capped mal) raw junk s (Some e)) (\<lambda>s. deque_pop_front s True) ops (Some d, m)"
    by (rule dq.forward.run_agree [OF s(1,2) assms(9) s(3) push_capped(1)])
  from dq.forward.run_fifo [OF s(1,2)] obtain i out t where
    t: "q_run (\<lambda>s e. deque_push_back (capped mal) raw junk s (Some e)) (\<lambda>s. deque_pop_front s True)
          ops (Some d, m) = Some (i, out, t)" "dstate_inv (bsize div usize) t"
       "dstate_list (Some d, m) @ i = out @ dstate_list t"
    by blast
  from t(2) obtain d' m' where t': "t = (Some d', m')" "deque_inv d' m'" by (rule dstate_cases)
  have "i = out @ deque_list d' m'" using t(3) r(3) t'(1) by (simp add: dstate_list_def)
  then show ?thesis using r(1) t'(2) trans [OF same t(1)] unfolding t'(1) by blast
qed

theorem deque_fifo_witness:
  "\<exists>d m i out d' m'.
     deque_init (\<lambda>k _. k \<noteq> 5) (\<lambda>_ _. 0) (\<lambda>_. 0) True 1 2 2 mem_empty = (0, Some d, m) \<and>
     q_run (\<lambda>s e. deque_push_back (\<lambda>k _. k \<noteq> 5) (\<lambda>_ _. 0) (\<lambda>_. 0) s (Some e))
       (\<lambda>s. deque_pop_front s True)
       [QPush [1], QPush [2], QPop, QPush [3]] (Some d, m) = Some (i, out, Some d', m') \<and>
     deque_inv d' m' \<and> i = out @ deque_list d' m'"
  by (rule deque_fifo) (auto simp: deque_room_def)

text \<open>
  The reverse direction is a queue too: elements pushed with \<open>deque_push_front\<close> leave through
  \<open>deque_pop_back\<close> in the order in which they came, for every sequence of calls that keeps to \<open>deque_room\<close>.
\<close>

theorem deque_backward:
  assumes "deque_inv d m" "\<forall>e. QPush e \<in> set ops \<longrightarrow> length e = unit_size d"
    "q_fits (deque_room (unit_num d)) ops (length (deque_list d m))"
  shows "\<exists>i out d' m'.
           q_run (\<lambda>s e. deque_push_front mal raw junk s (Some e)) (\<lambda>s. deque_pop_back s True)
             ops (Some d, m) = Some (i, out, Some d', m') \<and>
           deque_inv d' m' \<and> rev (deque_list d m) @ i = out @ rev (deque_list d' m')"
proof -
  have s: "dstate_inv (unit_num d) (Some d, m)" "\<And>e. QPush e \<in> set ops \<Longrightarrow> dstate_elem_ok (Some d, m) e"
    "length (rev (dstate_list (Some d, m))) \<le> length (deque_list d m)"
    using assms by (auto simp: dstate_defs)
  have agree: "deque_push_front mal raw junk s (Some e) = deque_push_front (capped mal) raw junk s (Some e)"
    if "dstate_inv (unit_num d) s" "length (rev (dstate_list s)) < deque_room (unit_num d)" for s e
    by (rule push_capped(2) [OF that(1)]) (use that(2) in simp)
  have same: "q_run (\<lambda>s e. deque_push_front mal raw junk s (Some e)) (\<lambda>s. deque_pop_back s True) ops (Some d, m) =
      q_run (\<lambda>s e. deque_push_front (capped mal) raw junk s (Some e)) (\<lambda>s. deque_pop_back s True) ops (Some d, m)"
    by (rule dq.backward.run_agree [OF s(1,2) assms(3) s(3) agree])
  from dq.backward.run_fifo [OF s(1,2)] obtain i out t where
    t: "q_run (\<lambda>s e. deque_push_front (capped mal) raw junk s (Some e)) (\<lambda>s. deque_pop_back s True)
          ops (Some d, m) = Some (i, out, t)" "dstate_inv (unit_num d) t"
       "rev (dstate_list (Some d, m)) @ i = out @ rev (dstate_list t)"
    by blast
  from t(2) obtain d' m' where t': "t = (Some d', m')" "deque_inv d' m'" by (rule dstate_cases)
  have "rev (deque_list d m) @ i = out @ rev (deque_list d' m')" using t(3) t'(1) by (simp add: dstate_list_def)
  then show ?thesis using t'(2) trans [OF same t(1)] unfolding t'(1) by blast
qed

text \<open>A deque of one-byte elements with two blocks of two, the example of the witnesses below.\<close>

definition deque_ex :: deque_t where
  "deque_ex = \<lparr>dmap = [1, 2], map_size = 2, start_index = 0, start_cur = 1, end_index = 1,
     end_cur = 1, unit_num = 2, unit_size = 1\<rparr>"

definition deque_ex_mem :: mem where
  "deque_ex_mem = \<lparr>cells = [1 \<mapsto> [0, 7], 2 \<mapsto> [8, 0]], brk = 3, live = 2\<rparr>"

lemma deque_ex_inv: "deque_inv deque_ex deque_ex_mem"
  by (auto simp: deque_inv_def deque_geo_def deque_end_def deque_window_def owns_def deque_ex_def
      deque_ex_mem_def)

lemma deque_ex_list: "deque_list deque_ex deque_ex_mem = [[7], [8]]"
  by (simp add: deque_list_def deque_end_def deque_window_def elem_at_def unit_at_def deque_ex_def
      deque_ex_mem_def upt_rec)

theorem deque_backward_witness:
  "\<exists>i out d' m'.
     q_run (\<lambda>s e. deque_push_front (\<lambda>k _. k < 1000) (\<lambda>_ _. 0) (\<lambda>_. 0) s (Some e))
       (\<lambda>s. deque_pop_back s True)
       [QPush [1], QPush [2], QPop] (Some deque_ex, deque_ex_mem) = Some (i, out, Some d', m') \<and>
     deque_inv d' m' \<and> rev (deque_list deque_ex deque_ex_mem) @ i = out @ rev (deque_list d' m')"
  by (rule deque_backward) (simp_all add: deque_ex_inv deque_ex_list deque_room_def, auto simp: deque_ex_def)

text \<open>
  \<open>deque_at\<close> gives, for every position of the deque, a pointer into the block that holds that
  element: reading \<open>unit_size\<close> bytes there gives it (while the position fits 32 bits).
\<close>

theorem deque_at_spec:
  assumes inv: "deque_inv d m" and i: "i < length (deque_list d m)" and fit: "start_cur d + i < 2 ^ 32"
  shows "\<exists>a off. deque_at (Some d) i = Some (Some (a, off)) \<and>
           mem_load a off (unit_size d) m = Some (deque_list d m ! i)"
proof -
  let ?us = "unit_size d" and ?un = "unit_num d" and ?ws = "deque_window d"
  have geo: "deque_geo d" and o: "owns ?ws (?un * ?us) m" and lv: "live m \<le> MAX_BLOCKS"
    using inv by (auto simp: deque_inv_def)
  let ?p = "start_cur d + i"
  have p: "?p < deque_end d" using i by (simp add: deque_list_def)
  then have lt: "?p < length ?ws * ?un" using deque_end_less [OF geo] by simp
  note wp = window_pos [OF lt]
  have idx: "?p div ?un \<le> end_index d - start_index d"
    using wp(1) window_length [OF geo] geo by (simp add: deque_geo_def)
  have "start_index d + ?p div ?un < map_size d" using idx geo by (auto simp: deque_geo_def)
  moreover have "u4_add i (start_cur d) = ?p" using fit by (simp add: u4_add_small ac_simps)
  ultimately show ?thesis
    using window_load [OF o lt] window_nth [OF geo idx] geo offset_small [OF geo wp(2)] p
    by (simp add: deque_at_def Let_def deque_block_def deque_geo_def u4_add_small deque_list_def)
qed

theorem deque_at_spec_witness:
  "\<exists>a off. deque_at (Some deque_ex) 1 = Some (Some (a, off)) \<and>
     mem_load a off (unit_size deque_ex) deque_ex_mem = Some (deque_list deque_ex deque_ex_mem ! 1)"
  by (rule deque_at_spec) (simp_all add: deque_ex_inv deque_ex_list, simp add: deque_ex_def)

text \<open>
  \<open>deque_front\<close> and \<open>deque_back\<close> point at the first and the last element, and are \<open>nil\<close>
  exactly when the deque is empty, which is also what \<open>deque_empty\<close> tells.
\<close>

theorem deque_ends:
  assumes inv: "deque_inv d m"
  shows "(deque_list d m = [] \<longrightarrow>
            deque_front (Some d) = Some None \<and> deque_back (Some d) = Some None \<and>
            deque_empty (Some d) = 0) \<and>
         (deque_list d m \<noteq> [] \<longrightarrow> deque_empty (Some d) = -2 \<and>
            (\<exists>a off b off'. deque_front (Some d) = Some (Some (a, off)) \<and>
               mem_load a off (unit_size d) m = Some (hd (deque_list d m)) \<and>
               deque_back (Some d) = Some (Some (b, off')) \<and>
               mem_load b off' (unit_size d) m = Some (last (deque_list d m))))"
proof (cases "deque_list d m = []")
  case True
  then show ?thesis
    using deque_list_empty [of d m] inv
    by (auto simp: deque_front_def deque_back_def deque_empty_def deque_inv_def)
next
  case False
  let ?us = "unit_size d" and ?un = "unit_num d" and ?ws = "deque_window d"
  have geo: "deque_geo d" and o: "owns ?ws (?un * ?us) m"
    using inv by (auto simp: deque_inv_def)
  have ne: "\<not> (start_index d = end_index d \<and> start_cur d = end_cur d)"
    using False deque_list_empty [OF geo] by auto
  have g: "start_cur d < ?un" "end_cur d < ?un" "?un - 1 < ?un" using geo by (auto simp: deque_geo_def)
  have f: "mem_load (?ws ! 0) (u4_mul (start_cur d) ?us) ?us m = Some (hd (deque_list d m))"
    using deque_head(1,2) [of d m "hd (deque_list d m)" "tl (deque_list d m)"] False
      window_load [OF o, of "start_cur d"] deque_end_less [OF geo] g offset_small [OF geo g(1)] by simp
  obtain k where k: "deque_end d = Suc k" "elem_at m ?us ?un ?ws k = last (deque_list d m)"
    using deque_last [of d m "butlast (deque_list d m)" "last (deque_list d m)"] False by auto
  have ld: "mem_load (?ws ! (k div ?un)) ((k mod ?un) * ?us) ?us m = Some (last (deque_list d m))"
    using window_load [OF o, of k] k deque_end_less [OF geo] by simp
  have "\<exists>b off'. deque_back (Some d) = Some (Some (b, off')) \<and>
      mem_load b off' ?us m = Some (last (deque_list d m))"
  proof (cases "end_cur d")
    case 0
    then have more: "start_index d < end_index d"
      using k(1) by (cases "start_index d < end_index d") (auto simp: deque_end_def)
    then obtain j where j: "end_index d = Suc (start_index d + j)" using less_iff_Suc_add by auto
    have "Suc k = j * ?un + ?un" using k(1) 0 j by (simp add: deque_end_def)
    then have kk: "k = j * ?un + (?un - 1)" using g(1) by linarith
    have "(j * ?un + u) div ?un = j" "(j * ?un + u) mod ?un = u" if "u < ?un" for u
      using that by simp_all
    from this [OF g(3)] have "k div ?un = j" "k mod ?un = ?un - 1" unfolding kk by blast+
    moreover have "?ws ! j = dmap d ! (start_index d + j)" using window_nth [OF geo, of j] j by simp
    moreover have "start_index d + j < length (dmap d)" "u4_sub (end_index d) 1 = start_index d + j"
      "u4_sub ?un 1 = ?un - 1"
      using j geo g unit_num_small [OF geo] by (auto simp: deque_geo_def u4_sub_small)
    ultimately show ?thesis
      using 0 ne ld offset_small [OF geo g(3)]
      by (simp add: deque_back_def deque_block_def del: One_nat_def)
  next
    case (Suc c)
    then have kk: "k = (end_index d - start_index d) * ?un + c" using k(1) by (simp add: deque_end_def)
    have c: "c < ?un" using Suc g(2) by simp
    have "k div ?un = end_index d - start_index d" "k mod ?un = c" using c by (simp_all add: kk)
    moreover have "deque_block d (end_index d) = Some (?ws ! (end_index d - start_index d))"
      using window_nth [OF geo, of "end_index d - start_index d"] geo
      by (simp add: deque_block_def deque_geo_def)
    moreover have "u4_sub (end_cur d) 1 = c"
      using Suc unit_num_small [OF geo] c by (simp add: u4_sub_small)
    ultimately show ?thesis
      using Suc ne ld offset_small [OF geo c] by (simp add: deque_back_def del: One_nat_def)
  qed
  then show ?thesis
    using False ne f end_block(3) [OF geo] g
    by (auto simp: deque_front_def deque_empty_def)
qed

theorem deque_ends_witness:
  "deque_empty (Some deque_ex) = -2 \<and>
   (\<exists>a off. deque_front (Some deque_ex) = Some (Some (a, off)) \<and>
      mem_load a off (unit_size deque_ex) deque_ex_mem = Some [7])"
  using deque_ends [OF deque_ex_inv] deque_ex_list by auto

text \<open>
  \<open>deque_size\<close> is the number of elements when the window spans at least two blocks (and that
  number fits 32 bits), but 0 whenever all elements lie in one block, because the code then
  subtracts the block indices instead of the element indices.
\<close>

theorem deque_size_spec:
  assumes inv: "deque_inv d m" and fit: "length (deque_list d m) < 2 ^ 32"
  shows "deque_size (Some d) True =
           (0, Some (if start_index d = end_index d then 0 else length (deque_list d m)))"
proof (cases "start_index d = end_index d")
  case True
  moreover have "end_index d < 2 ^ 32" using inv by (simp add: deque_inv_def deque_geo_def)
  ultimately show ?thesis by (simp add: deque_size_def u4_sub_small)
next
  case False
  let ?un = "unit_num d"
  have geo: "deque_geo d" using inv by (simp add: deque_inv_def)
  then have g: "start_index d < end_index d" "start_cur d < ?un" "end_cur d < ?un" "end_index d < 2 ^ 29"
    using False by (auto simp: deque_geo_def)
  then obtain j where j: "end_index d = Suc (start_index d + j)" using less_iff_Suc_add by auto
  have len: "length (deque_list d m) = ?un - start_cur d + end_cur d + j * ?un"
    using j g by (simp add: deque_list_def deque_end_def)
  have "u4_sub ?un (start_cur d) = ?un - start_cur d"
    using g unit_num_small [OF geo] by (simp add: u4_sub_small)
  moreover have "u4_sub (u4_sub (end_index d) (start_index d)) 1 = j"
    using j g by (simp add: u4_sub_small)
  ultimately show ?thesis
    using False fit len by (simp add: deque_size_def u4_add_small u4_mul_small del: One_nat_def)
qed

theorem deque_size_spec_witness:
  "deque_size (Some deque_ex) True =
     (0, Some (if start_index deque_ex = end_index deque_ex then 0
               else length (deque_list deque_ex deque_ex_mem)))"
  by (rule deque_size_spec) (simp_all add: deque_ex_inv deque_ex_list)

lemma free_blocks_ok:
  "owns ws n m \<Longrightarrow> \<exists>m'. deque_free_blocks ws m = Some m' \<and> owns [] n m'"
proof (induction ws arbitrary: m)
  case (Cons a ws)
  have d: "distinct (a # ws)" using Cons.prems by (simp add: owns_def)
  then have s: "set ws = set (a # ws) - {a}" "a \<in> set (a # ws)" "distinct ws" by auto
  obtain m' where "mem_free a m = Some m'" "owns ws n m'"
    using window_free [OF Cons.prems s(2,1,3)] by blast
  then show ?case using Cons.IH by auto
qed auto

text \<open>
  \<open>_deque_uninit\<close> frees every block exactly once and leaves no block behind, and the caller's
  pointer is \<open>nil\<close>.
\<close>

theorem deque_uninit_frees:
  assumes "deque_inv d m"
  shows "\<exists>m'. deque_uninit (Some d) m = Some (None, m') \<and> live m' = 0 \<and> (\<forall>a. cells m' a = None)"
proof -
  obtain m' where "deque_free_blocks (deque_window d) m = Some m'"
      "owns [] (unit_num d * unit_size d) m'"
    using free_blocks_ok assms unfolding deque_inv_def by blast
  then show ?thesis by (simp add: deque_uninit_def owns_def)
qed

theorem deque_uninit_frees_witness:
  "\<exists>m'. deque_uninit (Some deque_ex) deque_ex_mem = Some (None, m') \<and> live m' = 0 \<and>
     (\<forall>a. cells m' a = None)"
  by (rule deque_uninit_frees [OF deque_ex_inv])

text \<open>
  A pointer array of length one is accepted by \<open>_deque_init\<close> but not enough: with one element
  per block the first \<open>deque_push_back\<close> already stores past the end of the doubled array.
\<close>

theorem deque_map_size_one_overruns:
  "\<exists>d m. deque_init (\<lambda>k _. k < 1000) (\<lambda>_ _. 0) (\<lambda>_. 0) True 1 1 1 mem_empty = (0, Some d, m) \<and>
     deque_push_back (\<lambda>k _. k < 1000) (\<lambda>_ _. 0) (\<lambda>_. 0) (Some d, m) (Some [5]) = None"
  by (simp add: deque_init_def mem_alloc_def mem_empty_def deque_push_back_def deque_block_def
      mem_read_def mem_store_def mem_write_def deque_update_map_def deque_set_block_def
      c_arith Let_def)

end
