(* ===== verification/Lisk_Public.thy ===== *)
theory Lisk_Public
  imports Lisk_Math "HOL-Library.Monad_Syntax"
begin

text \<open>
  What the byte containers share: \<open>copy_data\<close> of \<open>win_lisk/src/lisk_public.c\<close>, and the rounding of a capacity to a
  power of two that \<open>lisk_vector.c\<close> and \<open>lisk_string.c\<close> write out alike.
\<close>

text \<open>
  \<open>copy_data\<close> between two places of one block, and from the caller's memory into it: it
  does nothing for length 0 and refuses equal addresses.
\<close>

definition copy_data_within :: "nat \<Rightarrow> nat \<Rightarrow> nat \<Rightarrow> u1 list \<Rightarrow> (n4 \<times> u1 list) option" where
  "copy_data_within dst src len bytes =
     (if len = 0 then Some (0, bytes)
      else if dst = src then Some (-1, bytes)
      else do {
        part \<leftarrow> mem_read src len bytes;
        bytes \<leftarrow> mem_write dst part bytes;
        Some (0, bytes) })"

definition copy_data_from :: "nat \<Rightarrow> u1 list \<Rightarrow> nat \<Rightarrow> u1 list \<Rightarrow> u1 list option" where
  "copy_data_from dst arr len bytes =
     (if len = 0 then Some bytes
      else do { part \<leftarrow> mem_read 0 len arr; mem_write dst part bytes })"

text \<open>
  \<open>len\<close> rounded up to a power of two, as the code writes it: \<open>is_pow_of_2\<close> and \<open>next_pow_of_2\<close>
  work on 64 bits and the result is cut back to 32.
\<close>

definition pow2_round :: "nat \<Rightarrow> nat" where
  "pow2_round len =
     (if is_pow_of_2 (of_nat len) \<noteq> 0 then unat (next_pow_of_2 (of_nat len)) mod 2 ^ 32 else len)"

lemma pow2_round_bounds:
  assumes "0 < n" "n \<le> 2 ^ 31"
  shows "n \<le> pow2_round n" "pow2_round n < 2 * n" "pow2_round n \<le> 2 ^ 31"
proof -
  have u: "unat (of_nat n :: u8) = n" using assms by (simp add: unat_of_nat)
  then have ne: "(of_nat n :: u8) \<noteq> 0" using assms(1) by (metis neq0_conv unat_0)
  obtain k where k: "unat (next_pow_of_2 (of_nat n)) = 2 ^ k" "n \<le> 2 ^ k" "2 ^ k < 2 * n"
    using next_pow_of_2_least [OF ne] u assms(2) by auto
  have "(2 :: nat) ^ k < 2 ^ 32" using k(3) assms(2) by simp
  then have "k \<le> 31" using power_less_imp_less_exp [of "2 :: nat" k 32] by simp
  then have "(2 :: nat) ^ k \<le> 2 ^ 31" by (intro power_increasing) auto
  then have lt: "(2 :: nat) ^ k \<le> 2147483648" by simp
  then show "n \<le> pow2_round n" "pow2_round n < 2 * n" "pow2_round n \<le> 2 ^ 31"
    using k assms by (auto simp: pow2_round_def)
qed

end
