(* ===== verification/Lisk_Vector.thy ===== *)
theory Lisk_Vector
  imports Lisk_Mem Lisk_Public
begin

text \<open>
  The growing array of \<open>win_lisk/src/lisk_vector.c\<close>.

  \<open>data\<close> is the block the vector owns (\<open>None\<close> is \<open>nil\<close>), \<open>number\<close> its elements of \<open>vlength\<close> bytes
  each and \<open>capacity\<close> its size in bytes. A pointer that an operation returns is the byte offset in
  \<open>data\<close>. An operation is \<open>None\<close> when it follows \<open>nil\<close> or leaves the block. The unsigned 32 bit
  arithmetic of the code is written out with \<open>u4_add\<close>, \<open>u4_sub\<close> and \<open>u4_mul\<close>. The \<open>array\<close> of
  \<open>insert\<close> is memory of the caller, outside the vector.

  \<open>vector_list\<close> is the list of elements; the theorems give insertion, removal, reversal,
  search and the cursors as the corresponding functions on lists.
\<close>

section \<open>State\<close>

record lisk_vector_t =
  capacity :: nat
  number :: nat
  vlength :: nat
  data :: "u1 list option"

abbreviation (input) vector_zero :: lisk_vector_t where
  "vector_zero \<equiv> \<lparr>capacity = 0, number = 0, vlength = 0, data = None\<rparr>"

section \<open>Cursors\<close>

definition lisk_vector_max_size :: "lisk_vector_t option \<Rightarrow> nat" where
  "lisk_vector_max_size vector =
     (case vector of None \<Rightarrow> 0 | Some vect \<Rightarrow>
        if vlength vect = 0 then 0 else capacity vect div vlength vect)"

definition lisk_vector_capacity :: "lisk_vector_t option \<Rightarrow> nat" where
  "lisk_vector_capacity vector = (case vector of None \<Rightarrow> 0 | Some vect \<Rightarrow> capacity vect)"

definition lisk_vector_at :: "lisk_vector_t option \<Rightarrow> nat \<Rightarrow> nat option" where
  "lisk_vector_at vector pos =
     (case vector of None \<Rightarrow> None | Some vect \<Rightarrow>
        if number vect \<le> pos then None else Some (u4_mul pos (vlength vect)))"

definition lisk_vector_first :: "lisk_vector_t option \<Rightarrow> nat option" where
  "lisk_vector_first vector =
     (case vector of None \<Rightarrow> None | Some vect \<Rightarrow> lisk_vector_at (Some vect) 0)"

definition lisk_vector_last :: "lisk_vector_t option \<Rightarrow> nat option" where
  "lisk_vector_last vector =
     (case vector of None \<Rightarrow> None | Some vect \<Rightarrow>
        if number vect = 0 then None else lisk_vector_at (Some vect) (u4_sub (number vect) 1))"

text \<open>\<open>cur\<close> is the byte offset of the cursor from the start of the block.\<close>

definition lisk_vector_next :: "lisk_vector_t option \<Rightarrow> nat \<Rightarrow> nat option" where
  "lisk_vector_next vector cur =
     (case vector of None \<Rightarrow> None | Some vect \<Rightarrow>
        if vlength vect = 0 \<or> number vect = 0 then None
        else
          (let idx = (cur mod 2 ^ 32) div vlength vect;
               ptr = u4_mul idx (vlength vect)
           in if u4_sub (number vect) 1 \<le> idx \<or> cur \<noteq> ptr then None
              else Some (u4_mul (u4_add idx 1) (vlength vect))))"

definition lisk_vector_pre :: "lisk_vector_t option \<Rightarrow> nat \<Rightarrow> nat option" where
  "lisk_vector_pre vector cur =
     (case vector of None \<Rightarrow> None | Some vect \<Rightarrow>
        if vlength vect = 0 then None
        else
          (let idx = (cur mod 2 ^ 32) div vlength vect;
               ptr = u4_mul idx (vlength vect)
           in if idx \<le> 0 \<or> number vect \<le> idx \<or> cur \<noteq> ptr then None
              else Some (u4_mul (u4_sub idx 1) (vlength vect))))"

text \<open>
  The search: with a comparison it is \<open>bsearch\<close> of the C library on the elements, else the linear
  loop of the code. The comparison takes the value first, as \<open>bsearch\<close> passes it. The outer option
  is a fault, the inner one the pointer.
\<close>

function bsearch_loop :: "(nat \<Rightarrow> int) \<Rightarrow> nat \<Rightarrow> nat \<Rightarrow> nat option" where
  "bsearch_loop cmp l u =
     (if l < u then
        let idx = (l + u) div 2 in
        if cmp idx < 0 then bsearch_loop cmp l idx
        else if 0 < cmp idx then bsearch_loop cmp (Suc idx) u
        else Some idx
      else None)"
  by pat_completeness auto
termination
  by (relation "measure (\<lambda>(c, l, u). u - l)") auto

declare bsearch_loop.simps [simp del]

function vector_find_loop :: "lisk_vector_t \<Rightarrow> u1 list \<Rightarrow> u1 list \<Rightarrow> nat \<Rightarrow> nat option option" where
  "vector_find_loop vect bytes val idx =
     (if idx < number vect then do {
        elem \<leftarrow> mem_read (u4_mul idx (vlength vect)) (vlength vect) bytes;
        key \<leftarrow> mem_read 0 (vlength vect) val;
        if elem = key then Some (Some (u4_mul idx (vlength vect)))
        else vector_find_loop vect bytes val (Suc idx) }
      else Some None)"
  by pat_completeness auto
termination
  by (relation "measure (\<lambda>(v, b, x, i). number v - i)") auto

declare vector_find_loop.simps [simp del]

definition lisk_vector_find :: "lisk_vector_t option \<Rightarrow> u1 list option \<Rightarrow>
    (u1 list \<Rightarrow> u1 list \<Rightarrow> int) option \<Rightarrow> nat option option" where
  "lisk_vector_find vector val cmp =
     (case (vector, val) of
        (Some vect, Some v) \<Rightarrow>
          (case data vect of
             None \<Rightarrow> if number vect = 0 then Some None else None
           | Some bytes \<Rightarrow>
               (case cmp of
                  Some c \<Rightarrow>
                    Some (map_option (\<lambda>i. i * vlength vect)
                      (bsearch_loop (\<lambda>i. c v (unit_at (vlength vect) i bytes)) 0 (number vect)))
                | None \<Rightarrow> vector_find_loop vect bytes v 0))
      | _ \<Rightarrow> Some None)"

section \<open>Memory\<close>

definition lisk_vector_init :: "allocator \<Rightarrow> (nat \<Rightarrow> u1) \<Rightarrow> lisk_vector_t option \<Rightarrow> nat \<Rightarrow> nat \<Rightarrow>
    n4 \<times> lisk_vector_t option" where
  "lisk_vector_init mal raw vector num len =
     (case vector of
        None \<Rightarrow> (-1, None)
      | Some vect \<Rightarrow>
          if num = 0 \<or> len = 0 then (-1, vector)
          else
            (let cap = pow2_round (u4_mul num len) in
             if \<not> mal cap then (-2, Some (vect\<lparr>data := None\<rparr>))
             else (0, Some \<lparr>capacity = cap, number = 0, vlength = len,
                            data = Some (map raw [0..<cap])\<rparr>)))"

definition lisk_vector_uninit :: "lisk_vector_t option \<Rightarrow> lisk_vector_t option" where
  "lisk_vector_uninit vector =
     (case vector of None \<Rightarrow> None | Some vect \<Rightarrow>
        if data vect \<noteq> None then Some vector_zero else Some vect)"

definition lisk_vector_init_copy :: "allocator \<Rightarrow> (nat \<Rightarrow> u1) \<Rightarrow> lisk_vector_t option \<Rightarrow>
    u1 list option \<Rightarrow> nat \<Rightarrow> nat \<Rightarrow> (n4 \<times> lisk_vector_t option) option" where
  "lisk_vector_init_copy mal raw vector array num len =
     (let n = u4_mul num len in
      case (vector, array) of
        (Some vect, Some arr) \<Rightarrow>
          if n = 0 then Some (-1, vector)
          else
            (case lisk_vector_init mal raw (Some (vect\<lparr>data := None\<rparr>)) num len of
               (ret, Some vect) \<Rightarrow>
                 if ret \<noteq> 0 then Some (-2, Some vect)
                 else do {
                   bytes \<leftarrow> data vect;
                   bytes \<leftarrow> copy_data_from 0 arr n bytes;
                   Some (0, Some (vect\<lparr>data := Some bytes, number := num\<rparr>)) }
             | (ret, None) \<Rightarrow> Some (-2, None))
      | _ \<Rightarrow> Some (-1, vector))"

text \<open>
  \<open>REALLOC\<close> stores its result in the vector before it is tested: when it fails, the vector has
  lost its block.
\<close>

definition lisk_vector_realloc :: "allocator \<Rightarrow> (nat \<Rightarrow> u1) \<Rightarrow> lisk_vector_t \<Rightarrow> nat \<Rightarrow>
    n4 \<times> lisk_vector_t" where
  "lisk_vector_realloc mal raw vect num =
     (if capacity vect = 0 then (-1, vect)
      else if num = 0 then
        (0, if data vect \<noteq> None then vector_zero else vect)
      else
        (let vect_len = u4_mul (vlength vect) num in
         if \<not> mal vect_len then (-2, vect\<lparr>data := None\<rparr>)
         else
           (let old = (case data vect of None \<Rightarrow> [] | Some bytes \<Rightarrow> bytes) in
            (0, vect\<lparr>data := Some (take vect_len old @ map raw [length old..<vect_len]),
                     capacity := vect_len,
                     number := (if num < number vect then num else number vect)\<rparr>))))"

section \<open>Elements\<close>

text \<open>The two halves of an insertion: room for \<open>sz\<close> more elements, and the two copies.\<close>

definition vector_grow :: "allocator \<Rightarrow> (nat \<Rightarrow> u1) \<Rightarrow> lisk_vector_t \<Rightarrow> nat \<Rightarrow> n4 \<times> lisk_vector_t" where
  "vector_grow mal raw vect sz =
     (if capacity vect < u4_mul (u4_add (number vect) sz) (vlength vect)
      then lisk_vector_realloc mal raw vect (pow2_round (u4_add (number vect) sz))
      else (0, vect))"

definition vector_insert_at :: "lisk_vector_t \<Rightarrow> nat \<Rightarrow> u1 list option \<Rightarrow> nat \<Rightarrow>
    (n4 \<times> lisk_vector_t option) option" where
  "vector_insert_at vect pos array sz = do {
     bytes \<leftarrow> data vect;
     let cursor = u4_mul pos (vlength vect);
     (ret, bytes) \<leftarrow>
       (if pos < number vect
        then copy_data_within (cursor + u4_mul sz (vlength vect)) cursor
               (u4_mul (u4_sub (number vect) pos) (vlength vect)) bytes
        else Some (0, bytes));
     if ret \<noteq> 0 then Some (-2, Some (vect\<lparr>data := Some bytes\<rparr>))
     else do {
       bytes \<leftarrow>
         (case array of
            Some arr \<Rightarrow> copy_data_from cursor arr (u4_mul sz (vlength vect)) bytes
          | None \<Rightarrow> Some bytes);
       Some (0, Some (vect\<lparr>data := Some bytes, number := u4_add (number vect) sz\<rparr>)) } }"

definition lisk_vector_insert :: "allocator \<Rightarrow> (nat \<Rightarrow> u1) \<Rightarrow> lisk_vector_t option \<Rightarrow> nat \<Rightarrow>
    u1 list option \<Rightarrow> nat \<Rightarrow> (n4 \<times> lisk_vector_t option) option" where
  "lisk_vector_insert mal raw vector pos array sz =
     (case vector of
        None \<Rightarrow> Some (-1, None)
      | Some vect \<Rightarrow>
          if sz = 0 \<or> number vect < pos then Some (-1, vector)
          else
            (case vector_grow mal raw vect sz of (ret, vect) \<Rightarrow>
               if ret \<noteq> 0 then Some (-2, Some vect) else vector_insert_at vect pos array sz))"

definition lisk_vector_push_back :: "allocator \<Rightarrow> (nat \<Rightarrow> u1) \<Rightarrow> lisk_vector_t option \<Rightarrow>
    u1 list option \<Rightarrow> nat \<Rightarrow> (n4 \<times> lisk_vector_t option) option" where
  "lisk_vector_push_back mal raw vector array sz =
     (case vector of
        None \<Rightarrow> Some (-1, None)
      | Some vect \<Rightarrow> lisk_vector_insert mal raw (Some vect) (number vect) array sz)"

definition lisk_vector_clear :: "lisk_vector_t option \<Rightarrow> lisk_vector_t option" where
  "lisk_vector_clear vector = map_option (\<lambda>vect. vect\<lparr>number := 0\<rparr>) vector"

definition lisk_vector_assign :: "allocator \<Rightarrow> (nat \<Rightarrow> u1) \<Rightarrow> lisk_vector_t option \<Rightarrow>
    u1 list option \<Rightarrow> nat \<Rightarrow> (n4 \<times> lisk_vector_t option) option" where
  "lisk_vector_assign mal raw vector array sz =
     (if vector = None \<or> sz = 0 then Some (-1, vector)
      else lisk_vector_push_back mal raw (lisk_vector_clear vector) array sz)"

definition lisk_vector_empty :: "lisk_vector_t option \<Rightarrow> n4" where
  "lisk_vector_empty vector =
     (case vector of None \<Rightarrow> -1 | Some vect \<Rightarrow> if number vect = 0 then 0 else -1)"

text \<open>The result of \<open>erase\<close> is the pointer it returns and the vector.\<close>

definition lisk_vector_erase :: "lisk_vector_t option \<Rightarrow> nat \<Rightarrow> nat \<Rightarrow>
    (nat option \<times> lisk_vector_t option) option" where
  "lisk_vector_erase vector pos sz =
     (case vector of
        None \<Rightarrow> Some (None, None)
      | Some vect \<Rightarrow>
          if sz = 0 then Some (None, vector)
          else if lisk_vector_empty (Some vect) = 0 then Some (None, vector)
          else if number vect \<le> pos \<or> number vect < u4_add pos sz \<or>
                  u4_mul (number vect) (vlength vect) = 0 then Some (None, vector)
          else
            (let cpy_len = u4_mul (u4_sub (number vect) (u4_add pos sz)) (vlength vect);
                 shrunk = vect\<lparr>number := u4_sub (number vect) sz\<rparr> in
             if 0 < cpy_len then do {
               bytes \<leftarrow> data vect;
               let dst = u4_mul pos (vlength vect);
               (ret, bytes) \<leftarrow> copy_data_within dst (dst + u4_mul sz (vlength vect)) cpy_len bytes;
               if ret \<noteq> 0 then Some (None, vector)
               else Some (Some dst, Some (shrunk\<lparr>data := Some bytes\<rparr>)) }
             else Some (None, Some shrunk)))"

definition lisk_vector_pop_up :: "lisk_vector_t option \<Rightarrow>
    (nat option \<times> lisk_vector_t option) option" where
  "lisk_vector_pop_up vector =
     (case vector of
        None \<Rightarrow> Some (None, None)
      | Some vect \<Rightarrow>
          if lisk_vector_empty (Some vect) = 0 then Some (None, vector)
          else lisk_vector_erase vector 0 1)"

definition lisk_vector_pop_back :: "lisk_vector_t option \<Rightarrow>
    (nat option \<times> lisk_vector_t option) option" where
  "lisk_vector_pop_back vector =
     (case vector of
        None \<Rightarrow> Some (None, None)
      | Some vect \<Rightarrow>
          if lisk_vector_empty (Some vect) = 0 then Some (None, vector)
          else lisk_vector_erase vector (u4_sub (number vect) 1) 1)"

function vector_reverse_loop :: "nat \<Rightarrow> nat \<Rightarrow> nat \<Rightarrow> u1 list \<Rightarrow> u1 list option" where
  "vector_reverse_loop len lf rg bytes =
     (if lf < rg then do {
        temp \<leftarrow> mem_read (u4_mul lf len) len bytes;
        (ret, bytes) \<leftarrow> copy_data_within (u4_mul lf len) (u4_mul rg len) len bytes;
        bytes \<leftarrow> mem_write (u4_mul rg len) temp bytes;
        vector_reverse_loop len (lf + 1) (rg - 1) bytes }
      else Some bytes)"
  by pat_completeness auto
termination
  by (relation "measure (\<lambda>(len, lf, rg, b). rg - lf)") auto

declare vector_reverse_loop.simps [simp del]

definition lisk_vector_reverse :: "allocator \<Rightarrow> lisk_vector_t option \<Rightarrow>
    (n4 \<times> lisk_vector_t option) option" where
  "lisk_vector_reverse mal vector =
     (case vector of
        None \<Rightarrow> Some (-1, None)
      | Some vect \<Rightarrow>
          if number vect = 0 then Some (-1, vector)
          else if 1024 < vlength vect \<and> \<not> mal (vlength vect) then Some (-2, vector)
          else
            (case data vect of
               None \<Rightarrow> if 1 < number vect then None else Some (0, vector)
             | Some bytes \<Rightarrow> do {
                 bytes \<leftarrow> vector_reverse_loop (vlength vect) 0 (u4_sub (number vect) 1) bytes;
                 Some (0, Some (vect\<lparr>data := Some bytes\<rparr>)) }))"

section \<open>Abstraction and invariant\<close>

definition units :: "nat \<Rightarrow> nat \<Rightarrow> u1 list \<Rightarrow> u1 list list" where
  "units u n bytes = map (\<lambda>i. unit_at u i bytes) [0..<n]"

definition vector_list :: "lisk_vector_t \<Rightarrow> u1 list list" where
  "vector_list vect =
     (case data vect of None \<Rightarrow> [] | Some bytes \<Rightarrow> units (vlength vect) (number vect) bytes)"

definition vector_inv :: "lisk_vector_t \<Rightarrow> bool" where
  "vector_inv vect \<longleftrightarrow> 0 < vlength vect \<and> 0 < capacity vect \<and> capacity vect < 2 ^ 32 \<and>
     number vect * vlength vect \<le> capacity vect \<and>
     (case data vect of None \<Rightarrow> False | Some bytes \<Rightarrow> length bytes = capacity vect)"

lemma units_length [simp]: "length (units u n bytes) = n"
  by (simp add: units_def)

lemma units_append:
  assumes "length xs = a * u"
  shows "units u (a + b) (xs @ ys) = units u a xs @ units u b ys"
proof -
  have "unit_at u i (xs @ ys) = unit_at u i xs" if "i < a" for i
    using slot_bound [OF that, of u] assms by (simp add: unit_at_def)
  moreover have "unit_at u (a + i) (xs @ ys) = unit_at u i ys" for i
    using assms by (simp add: unit_at_def add_mult_distrib drop_append)
  ultimately show ?thesis
    by (intro nth_equalityI) (auto simp: units_def nth_append nth_map_upt not_less
        dest!: le_Suc_ex [of a])
qed

lemma units_take: "units u n (take (n * u) bytes) = units u n bytes"
proof -
  have "unit_at u i (take (n * u) bytes) = unit_at u i bytes" if "i < n" for i
  proof -
    have "u \<le> n * u - i * u" using slot_bound [OF that, of u] by linarith
    then show ?thesis by (simp add: unit_at_def drop_take min_absorb1)
  qed
  then show ?thesis by (simp add: units_def)
qed

lemma units_split:
  assumes "(a + b) * u \<le> length bytes"
  shows "units u (a + b) bytes = units u a bytes @ units u b (drop (a * u) bytes)"
proof -
  have "bytes = take (a * u) bytes @ drop (a * u) bytes" by simp
  moreover have "length (take (a * u) bytes) = a * u" using assms by (simp add: add_mult_distrib)
  ultimately show ?thesis by (metis units_append units_take)
qed

lemma take_units:
  assumes "a \<le> n" "n * u \<le> length bytes"
  shows "take a (units u n bytes) = units u a bytes"
    "drop a (units u n bytes) = units u (n - a) (drop (a * u) bytes)"
  using units_split [of a "n - a" u bytes] assms by auto

section \<open>Rounding\<close>

section \<open>Insertion\<close>

lemma vector_invD:
  assumes "vector_inv vect"
  obtains bytes where "data vect = Some bytes" "length bytes = capacity vect"
    "vector_list vect = units (vlength vect) (number vect) bytes"
    "number vect * vlength vect \<le> length bytes" "length bytes < 2 ^ 32"
    "number vect < 2 ^ 32"
proof -
  obtain bytes where b: "data vect = Some bytes" "length bytes = capacity vect"
    using assms by (auto simp: vector_inv_def split: option.splits)
  have "number vect * 1 \<le> number vect * vlength vect"
    using assms by (intro mult_le_mono2) (simp add: vector_inv_def)
  moreover have "number vect * vlength vect < 2 ^ 32" using assms by (auto simp: vector_inv_def)
  ultimately have "number vect < 2 ^ 32" by linarith
  then show ?thesis using that b assms by (auto simp: vector_inv_def vector_list_def)
qed

lemma realloc_ok:
  assumes inv: "vector_inv vect" and n: "number vect \<le> n" "n * vlength vect < 2 ^ 32" "0 < n"
    and mal: "mal (n * vlength vect)"
  shows "\<exists>vect'. lisk_vector_realloc mal raw vect n = (0, vect') \<and> vector_inv vect' \<and>
           vector_list vect' = vector_list vect \<and> number vect' = number vect \<and>
           vlength vect' = vlength vect \<and> capacity vect' = n * vlength vect"
proof -
  let ?u = "vlength vect"
  obtain bytes where b: "data vect = Some bytes" "length bytes = capacity vect"
      "vector_list vect = units ?u (number vect) bytes" "number vect * ?u \<le> length bytes"
    using inv by (rule vector_invD)
  have len: "u4_mul ?u n = n * ?u" using n(2) by (simp add: u4_mul_small mult.commute)
  let ?new = "take (n * ?u) bytes @ map raw [length bytes..<n * ?u]"
  have l: "length ?new = n * ?u" by simp
  have m: "number vect * ?u \<le> n * ?u" using n(1) by simp
  then have "take (number vect * ?u) ?new = take (number vect * ?u) bytes"
    using b(4) by (simp add: min_absorb1)
  then have "units ?u (number vect) ?new = units ?u (number vect) bytes"
    by (metis units_take)
  then show ?thesis
    using inv b n mal m l
    by (auto simp: lisk_vector_realloc_def len vector_inv_def vector_list_def Let_def)
qed

lemma realloc_fail:
  assumes inv: "vector_inv vect" and n: "n * vlength vect < 2 ^ 32" "0 < n"
    and mal: "\<not> mal (n * vlength vect)"
  shows "lisk_vector_realloc mal raw vect n = (-2, vect\<lparr>data := None\<rparr>)"
proof -
  have len: "u4_mul (vlength vect) n = n * vlength vect" using n(1) by (simp add: u4_mul_small mult.commute)
  show ?thesis using inv n mal by (simp add: lisk_vector_realloc_def len vector_inv_def Let_def)
qed

text \<open>The two moves of an insertion, on the bytes.\<close>

lemma insert_bytes:
  assumes u: "0 < u" and pos: "pos \<le> n" and len: "(n + sz) * u \<le> length bytes" and sz: "0 < sz"
    and arr: "length arr = sz * u"
  shows "\<exists>b1 b2. copy_data_within (pos * u + sz * u) (pos * u) ((n - pos) * u) bytes = Some (0, b1) \<and>
           mem_write (pos * u) arr b1 = Some b2 \<and> length b1 = length bytes \<and> length b2 = length bytes \<and>
           (\<exists>gap. length gap = sz \<and> units u (n + sz) b1 =
              take pos (units u n bytes) @ gap @ drop pos (units u n bytes)) \<and>
           units u (n + sz) b2 = take pos (units u n bytes) @ units u sz arr @ drop pos (units u n bytes)"
proof -
  let ?rest = "take ((n - pos) * u) (drop (pos * u) bytes)"
  obtain r where r: "n = pos + r" using pos le_Suc_ex by auto
  have l: "pos * u + sz * u + r * u \<le> length bytes" using len r by (simp add: add_mult_distrib)
  have lr: "length ?rest = r * u" using l r by simp
  obtain b1 where w1: "mem_write (pos * u + sz * u) ?rest bytes = Some b1"
    using mem_write_in [of "pos * u + sz * u" ?rest bytes] lr l by auto
  have b1: "b1 = take (pos * u + sz * u) bytes @ ?rest @ drop (pos * u + sz * u + r * u) bytes"
    using w1 lr by (auto simp: mem_write_def split: if_splits)
  have cp: "copy_data_within (pos * u + sz * u) (pos * u) ((n - pos) * u) bytes = Some (0, b1)"
  proof (cases "r = 0")
    case True
    then show ?thesis using w1 r by (simp add: copy_data_within_def mem_write_def split: if_splits)
  next
    case False
    then show ?thesis
      using w1 l u sz r by (simp add: copy_data_within_def mem_read_def)
  qed
  obtain b2 where w2: "mem_write (pos * u) arr b1 = Some b2"
    using mem_write_in [of "pos * u" arr b1] mem_write_length [OF w1] arr l by auto
  have b2: "b2 = take (pos * u) bytes @ arr @ ?rest @ drop (pos * u + sz * u + r * u) bytes"
    using w2 b1 arr l by (auto simp: mem_write_def min_def split: if_splits)
  have lt: "length (take (pos * u) bytes) = pos * u" using l by simp
  have tail: "units u r (?rest @ xs) = units u r (drop (pos * u) bytes)" for xs
    using units_append [of ?rest r u 0 xs] lr units_take [of u r "drop (pos * u) bytes"] r
    by (simp add: units_def)
  have old: "take pos (units u n bytes) = units u pos bytes"
    "drop pos (units u n bytes) = units u r (drop (pos * u) bytes)"
    using take_units [of pos n u bytes] r l by (simp_all add: add_mult_distrib)
  have nn: "n + sz = pos + (sz + r)" using r by simp
  have u2: "units u (n + sz) b2 = units u pos bytes @ units u sz arr @ units u r (drop (pos * u) bytes)"
    unfolding nn b2 units_append [OF lt] units_append [OF arr] tail units_take by simp
  have "b1 = take (pos * u) bytes @ take (sz * u) (drop (pos * u) bytes) @ ?rest @
          drop (pos * u + sz * u + r * u) bytes"
    unfolding b1 by (simp add: take_add)
  moreover have "length (take (sz * u) (drop (pos * u) bytes)) = sz * u" using l by simp
  ultimately have "units u (n + sz) b1 = units u pos bytes @
      units u sz (take (sz * u) (drop (pos * u) bytes)) @ units u r (drop (pos * u) bytes)"
    unfolding nn using units_append [OF lt] units_append tail units_take by metis
  then show ?thesis
    using cp w2 u2 old mem_write_length [OF w1] mem_write_length [OF w2] units_length by metis
qed

text \<open>An insertion first makes room, and does so without touching the elements.\<close>

lemma make_room:
  assumes inv: "vector_inv vect" and sz: "0 < sz"
    and fit: "2 * ((number vect + sz) * vlength vect) \<le> 2 ^ 32"
    and mal: "capacity vect < (number vect + sz) * vlength vect \<longrightarrow>
                mal (pow2_round (number vect + sz) * vlength vect)"
  shows "u4_add (number vect) sz = number vect + sz"
    and "u4_mul (number vect + sz) (vlength vect) = (number vect + sz) * vlength vect"
    and "\<exists>vect'. vector_grow mal raw vect sz = (0, vect') \<and> vector_inv vect' \<and> vector_list vect' = vector_list vect \<and>
         number vect' = number vect \<and> vlength vect' = vlength vect \<and>
         (number vect + sz) * vlength vect \<le> capacity vect'"
proof -
  let ?n = "number vect + sz" and ?u = "vlength vect"
  have u: "1 \<le> ?u" using inv by (simp add: vector_inv_def)
  have "?n * 1 \<le> ?n * ?u" using u by (rule mult_le_mono2)
  moreover have "?n * ?u \<le> 2 ^ 31" using fit by (simp add: mult.commute)
  ultimately have n: "?n \<le> 2 ^ 31" by (metis mult_1_right le_trans)
  show add: "u4_add (number vect) sz = ?n" using n by (simp add: u4_add_small)
  have "?n * ?u < 2 ^ 32" using fit by (simp add: mult.commute)
  then show mul: "u4_mul ?n ?u = ?n * ?u" by (rule u4_mul_small)
  have r: "?n \<le> pow2_round ?n" "pow2_round ?n < 2 * ?n" "0 < pow2_round ?n"
    using pow2_round_bounds [OF _ n] sz by auto
  have "pow2_round ?n * ?u < 2 * ?n * ?u" using r(2) u by (intro mult_strict_right_mono) auto
  then have lt: "pow2_round ?n * ?u < 2 ^ 32"
    using fit by (metis mult.assoc order_less_le_trans)
  have le: "?n * ?u \<le> pow2_round ?n * ?u" using r(1) by (rule mult_le_mono1)
  show "\<exists>vect'. vector_grow mal raw vect sz = (0, vect') \<and> vector_inv vect' \<and> vector_list vect' = vector_list vect \<and>
         number vect' = number vect \<and> vlength vect' = vlength vect \<and>
         (number vect + sz) * vlength vect \<le> capacity vect'"
  proof (cases "capacity vect < ?n * ?u")
    case True
    then show ?thesis
      using realloc_ok [OF inv _ lt r(3), of mal raw] r(1) mal le by (auto simp: vector_grow_def add mul)
  next
    case False
    then show ?thesis using inv by (simp add: vector_grow_def add mul)
  qed
qed

lemma insert_ok:
  assumes inv: "vector_inv vect" and pos: "pos \<le> number vect" and sz: "0 < sz"
    and fit: "2 * ((number vect + sz) * vlength vect) \<le> 2 ^ 32"
    and mal: "capacity vect < (number vect + sz) * vlength vect \<longrightarrow>
                mal (pow2_round (number vect + sz) * vlength vect)"
    and arr: "\<forall>a. array = Some a \<longrightarrow> length a = sz * vlength vect"
  shows "\<exists>vect' new. lisk_vector_insert mal raw (Some vect) pos array sz = Some (0, Some vect') \<and>
           vector_inv vect' \<and> vlength vect' = vlength vect \<and> length new = sz \<and>
           (\<forall>a. array = Some a \<longrightarrow> new = units (vlength vect) sz a) \<and>
           vector_list vect' = take pos (vector_list vect) @ new @ drop pos (vector_list vect)"
proof -
  let ?u = "vlength vect" and ?n = "number vect"
  note mr = make_room [where mal = mal, OF inv sz fit mal]
  obtain v where v: "vector_grow mal raw vect sz = (0, v)" "vector_inv v" "vector_list v = vector_list vect"
         "number v = ?n" "vlength v = ?u" "(?n + sz) * ?u \<le> capacity v"
    using mr(3) [of raw] by blast
  obtain bytes where b: "data v = Some bytes" "length bytes = capacity v"
      "vector_list v = units (vlength v) (number v) bytes" "length bytes < 2 ^ 32"
    using v(2) by (rule vector_invD)
  have small: "pos * ?u + (?n - pos) * ?u + sz * ?u < 2 ^ 32"
    using v(6) b(2,4) pos by (simp add: add_mult_distrib diff_mult_distrib)
  then have ar: "u4_mul pos ?u = pos * ?u" "u4_mul sz ?u = sz * ?u"
    "u4_mul (?n - pos) ?u = (?n - pos) * ?u" "u4_sub ?n pos = ?n - pos"
    using pos mr(1) u4_add_less [of ?n sz] by (simp_all add: u4_mul_small u4_sub_small)
  have whole: "u4_mul ?n ?u = ?n * ?u"
    using v(6) b(2,4) by (intro u4_mul_small) (simp add: add_mult_distrib)
  define a where "a = (case array of None \<Rightarrow> replicate (sz * ?u) 0 | Some a \<Rightarrow> a)"
  have la: "length a = sz * ?u" using arr by (auto simp: a_def split: option.splits)
  obtain b1 b2 gap where i: "copy_data_within (pos * ?u + sz * ?u) (pos * ?u) ((?n - pos) * ?u) bytes =
         Some (0, b1)" "mem_write (pos * ?u) a b1 = Some b2" "length b1 = length bytes"
       "length b2 = length bytes" "length gap = sz"
       "units ?u (?n + sz) b1 = take pos (units ?u ?n bytes) @ gap @ drop pos (units ?u ?n bytes)"
       "units ?u (?n + sz) b2 = take pos (units ?u ?n bytes) @ units ?u sz a @ drop pos (units ?u ?n bytes)"
    using insert_bytes [of ?u pos ?n sz bytes a] inv pos v(6) b(2) sz la
    unfolding vector_inv_def by auto
  have stay: "pos = ?n \<Longrightarrow> b1 = bytes" using i(1) by (auto simp: copy_data_within_def)
  have ne: "sz * ?u \<noteq> 0" using sz inv by (simp add: vector_inv_def)
  let ?w = "\<lambda>b. v\<lparr>data := Some b, number := ?n + sz\<rparr>"
  have run: "lisk_vector_insert mal raw (Some vect) pos array sz =
      Some (0, Some (?w (case array of None \<Rightarrow> b1 | Some _ \<Rightarrow> b2)))"
    using pos sz i(1,2) la ne stay v(1,4,5) b(1)
    by (cases array; cases "pos = ?n")
      (auto simp: lisk_vector_insert_def vector_insert_at_def Let_def ar whole mr(1)
        copy_data_from_def a_def mem_read_def)
  have "vector_inv (?w b)" if "length b = length bytes" for b
    using v(2,5,6) b(2) that by (simp add: vector_inv_def)
  then show ?thesis
    using run i v(3,4,5) b(3) by (cases array) (auto simp: vector_list_def a_def)
qed

section \<open>Removal\<close>

lemma erase_ok:
  assumes inv: "vector_inv vect" and pos: "pos + sz \<le> number vect" and sz: "0 < sz"
  shows "\<exists>vect'. lisk_vector_erase (Some vect) pos sz =
             Some (if pos + sz < number vect then Some (pos * vlength vect) else None, Some vect') \<and>
           vector_inv vect' \<and> vlength vect' = vlength vect \<and>
           vector_list vect' = take pos (vector_list vect) @ drop (pos + sz) (vector_list vect)"
proof -
  let ?u = "vlength vect" and ?n = "number vect"
  obtain bytes where b: "data vect = Some bytes" "length bytes = capacity vect"
      "vector_list vect = units ?u ?n bytes" "?n * ?u \<le> length bytes" "length bytes < 2 ^ 32" "?n < 2 ^ 32"
    using inv by (rule vector_invD)
  obtain r where r: "?n = pos + sz + r" using pos le_Suc_ex by auto
  have u: "0 < ?u" using inv by (simp add: vector_inv_def)
  have l: "pos * ?u + sz * ?u + r * ?u \<le> length bytes" using b(4) r by (simp add: add_mult_distrib)
  have ar: "u4_add pos sz = pos + sz" "u4_sub ?n (pos + sz) = r" "u4_mul r ?u = r * ?u"
    "u4_mul pos ?u = pos * ?u" "u4_mul sz ?u = sz * ?u" "u4_sub ?n sz = pos + r" "u4_mul ?n ?u = ?n * ?u"
    using l b r by (simp_all add: u4_add_small u4_sub_small u4_mul_small)
  have guards: "?n \<noteq> 0" "\<not> ?n \<le> pos" "\<not> ?n < pos + sz" "?n * ?u \<noteq> 0" using r sz u by auto
  have old: "take pos (units ?u ?n bytes) = units ?u pos bytes"
    "drop (pos + sz) (units ?u ?n bytes) = units ?u r (drop (pos * ?u + sz * ?u) bytes)"
    using take_units [of pos ?n ?u bytes] take_units [of "pos + sz" ?n ?u bytes] r b(4)
    by (simp_all add: add_mult_distrib)
  show ?thesis
  proof (cases "r = 0")
    case True
    let ?v = "vect\<lparr>number := pos + r\<rparr>"
    have "lisk_vector_erase (Some vect) pos sz = Some (None, Some ?v)"
      using True sz guards ar by (simp add: lisk_vector_erase_def lisk_vector_empty_def Let_def)
    moreover have "vector_inv ?v" "vector_list ?v = units ?u pos bytes"
      using inv b l True r by (simp_all add: vector_inv_def vector_list_def)
    ultimately show ?thesis using True r b(3) old by (simp add: units_def)
  next
    case False
    let ?rest = "take (r * ?u) (drop (pos * ?u + sz * ?u) bytes)"
    have lr: "length ?rest = r * ?u" using l by simp
    obtain b1 where w: "mem_write (pos * ?u) ?rest bytes = Some b1"
      using mem_write_in [of "pos * ?u" ?rest bytes] lr l by auto
    let ?v = "vect\<lparr>number := pos + r, data := Some b1\<rparr>"
    have "copy_data_within (pos * ?u) (pos * ?u + sz * ?u) (r * ?u) bytes = Some (0, b1)"
      using w False u sz l by (simp add: copy_data_within_def mem_read_def)
    then have run: "lisk_vector_erase (Some vect) pos sz = Some (Some (pos * ?u), Some ?v)"
      using False sz guards u b(1) ar by (simp add: lisk_vector_erase_def lisk_vector_empty_def Let_def)
    have b1: "b1 = take (pos * ?u) bytes @ ?rest @ drop (pos * ?u + r * ?u) bytes"
      using w lr by (auto simp: mem_write_def split: if_splits)
    have lt: "length (take (pos * ?u) bytes) = pos * ?u" using l by simp
    have "units ?u (pos + r) b1 = units ?u pos bytes @ units ?u r (drop (pos * ?u + sz * ?u) bytes)"
      unfolding b1 units_append [OF lt] units_take
      using units_append [OF lr, of 0 "drop (pos * ?u + r * ?u) bytes"]
        units_take [of ?u r "drop (pos * ?u + sz * ?u) bytes"] by (simp add: units_def)
    moreover have "vector_inv ?v"
      using inv b(2) l mem_write_length [OF w] by (auto simp: vector_inv_def add_mult_distrib)
    ultimately show ?thesis using run False r b(3) old by (simp add: vector_list_def)
  qed
qed

section \<open>Reversal\<close>

lemma reverse_loop_ok:
  assumes "n * u \<le> length bytes" "length bytes < 2 ^ 32" "0 < u" "rg < n"
  shows "\<exists>bytes'. vector_reverse_loop u lf rg bytes = Some bytes' \<and> length bytes' = length bytes \<and>
           (\<forall>j < n. unit_at u j bytes' =
              (if lf \<le> j \<and> j \<le> rg then unit_at u (lf + rg - j) bytes else unit_at u j bytes))"
  using assms
proof (induction u lf rg bytes rule: vector_reverse_loop.induct)
  case (1 u lf rg bytes)
  show ?case
  proof (cases "lf < rg")
    case True
    have lt: "lf < n" "rg < n" using True "1.prems" by auto
    have off: "u4_mul k u = k * u" if "k < n" for k
      using slot_bound [OF that, of u] "1.prems" by (intro u4_mul_small) linarith
    have ne: "lf * u \<noteq> rg * u" using True "1.prems"(3) by simp
    have rd: "mem_read (k * u) u bytes = Some (unit_at u k bytes)" if "k < n" for k
      using unit_read [OF "1.prems"(1) that] .
    have len: "length (unit_at u k bytes) = u" if "k < n" for k
      using slot_bound [OF that, of u] "1.prems"(1) by (simp add: unit_at_def)
    obtain b1 where b1: "mem_write (lf * u) (unit_at u rg bytes) bytes = Some b1"
      "length b1 = length bytes"
      "\<forall>j < n. unit_at u j b1 = (if j = lf then unit_at u rg bytes else unit_at u j bytes)"
      using unit_write [OF "1.prems"(1) lt(1) len [OF lt(2)]] by blast
    obtain b2 where b2: "mem_write (rg * u) (unit_at u lf bytes) b1 = Some b2"
      "length b2 = length bytes"
      "\<forall>j < n. unit_at u j b2 = (if j = rg then unit_at u lf bytes else unit_at u j b1)"
      using unit_write [of n u b1 rg "unit_at u lf bytes"] "1.prems"(1) lt len b1(2) by auto
    have cp: "copy_data_within (lf * u) (rg * u) u bytes = Some (0, b1)"
      using ne b1(1) rd [OF lt(2)] "1.prems"(3) by (simp add: copy_data_within_def)
    have step: "vector_reverse_loop u lf rg bytes = vector_reverse_loop u (lf + 1) (rg - 1) b2"
      using True rd [OF lt(1)] cp b2(1) off [OF lt(1)] off [OF lt(2)]
      by (subst vector_reverse_loop.simps) simp
    obtain b3 where b3: "vector_reverse_loop u (lf + 1) (rg - 1) b2 = Some b3" "length b3 = length bytes"
      "\<forall>j < n. unit_at u j b3 = (if lf + 1 \<le> j \<and> j \<le> rg - 1
         then unit_at u (lf + 1 + (rg - 1) - j) b2 else unit_at u j b2)"
      using "1.IH" [OF True rd [OF lt(1), folded off [OF lt(1)]]
          cp [folded off [OF lt(1)] off [OF lt(2)]] refl b2(1) [folded off [OF lt(2)]]]
        "1.prems" b2(2) less_imp_diff_less [of rg n 1] by auto
    have "unit_at u j b3 = (if lf \<le> j \<and> j \<le> rg then unit_at u (lf + rg - j) bytes else unit_at u j bytes)"
      if "j < n" for j
    proof -
      consider "j = lf" | "j = rg" | "lf < j" "j < rg" | "j < lf \<or> rg < j" by linarith
      then show ?thesis
        using True b3(3) b2(3) b1(3) that lt by cases auto
    qed
    then show ?thesis using step b3(1,2) by auto
  next
    case False
    then have "lf = rg \<or> rg < lf" by linarith
    then show ?thesis using False by (subst vector_reverse_loop.simps) auto
  qed
qed

lemma reverse_ok:
  assumes inv: "vector_inv vect" and ne: "number vect \<noteq> 0"
    and mal: "1024 < vlength vect \<longrightarrow> mal (vlength vect)"
  shows "\<exists>vect'. lisk_vector_reverse mal (Some vect) = Some (0, Some vect') \<and> vector_inv vect' \<and>
           vector_list vect' = rev (vector_list vect)"
proof -
  let ?u = "vlength vect" and ?n = "number vect"
  obtain bytes where b: "data vect = Some bytes" "length bytes = capacity vect"
      "vector_list vect = units ?u ?n bytes" "?n * ?u \<le> length bytes" "length bytes < 2 ^ 32" "?n < 2 ^ 32"
    using inv by (rule vector_invD)
  have n1: "u4_sub ?n 1 = ?n - 1" "?n - 1 < ?n" using ne b(6) by (simp_all add: u4_sub_small)
  obtain b' where b': "vector_reverse_loop ?u 0 (?n - 1) bytes = Some b'" "length b' = length bytes"
    "\<forall>j < ?n. unit_at ?u j b' = (if 0 \<le> j \<and> j \<le> ?n - 1 then unit_at ?u (0 + (?n - 1) - j) bytes
        else unit_at ?u j bytes)"
    using reverse_loop_ok [OF b(4,5) _ n1(2)] inv unfolding vector_inv_def by blast
  have "units ?u ?n b' = rev (units ?u ?n bytes)"
    using b'(3) by (intro nth_equalityI) (auto simp: units_def rev_nth)
  then show ?thesis
    using inv ne mal b b' by (auto simp: lisk_vector_reverse_def n1(1) vector_inv_def vector_list_def
        simp del: One_nat_def)
qed

section \<open>Search and cursors\<close>

lemma bsearch_loop_Some:
  "bsearch_loop cmp l u = Some i \<Longrightarrow> l \<le> i \<and> i < u \<and> cmp i = 0"
proof (induction cmp l u rule: bsearch_loop.induct)
  case (1 cmp l u)
  note some = "1.prems" [unfolded bsearch_loop.simps [of cmp l u]]
  show ?case
    using some "1.IH" by (fastforce simp: Let_def split: if_splits)
qed

lemma bsearch_loop_None:
  assumes "bsearch_loop cmp l u = None" "l \<le> i" "i < u"
    and "\<And>i j. i < j \<Longrightarrow> j < u \<Longrightarrow> (cmp i < 0 \<longrightarrow> cmp j < 0) \<and> (0 < cmp j \<longrightarrow> 0 < cmp i)"
  shows "cmp i \<noteq> 0"
  using assms
proof (induction cmp l u rule: bsearch_loop.induct)
  case (1 cmp l u)
  let ?m = "(l + u) div 2"
  have lu: "l < u" using "1.prems"(2,3) by simp
  then have m: "l \<le> ?m" "?m < u" by auto
  note none = "1.prems"(1) [unfolded bsearch_loop.simps [of cmp l u]]
  show ?case
  proof (cases "cmp ?m < 0")
    case True
    then have "bsearch_loop cmp l ?m = None" using none lu by (simp add: Let_def)
    then have "i < ?m \<Longrightarrow> cmp i \<noteq> 0"
      using "1.IH"(1) [OF lu refl True] "1.prems"(2,4) m(2) by (meson order_less_trans)
    moreover have "?m < i \<Longrightarrow> cmp i < 0" using "1.prems"(4) [of ?m i] "1.prems"(3) True by blast
    ultimately show ?thesis using True by (metis less_int_code(1) linorder_neqE_nat)
  next
    case False
    then have pos: "0 < cmp ?m" and "bsearch_loop cmp (Suc ?m) u = None"
      using none lu by (auto simp: Let_def split: if_splits)
    then have "?m < i \<Longrightarrow> cmp i \<noteq> 0"
      using "1.IH"(2) [OF lu refl False] "1.prems"(3,4) by (meson Suc_leI)
    moreover have "i < ?m \<Longrightarrow> 0 < cmp i" using "1.prems"(4) [of i ?m] m(2) pos by blast
    ultimately show ?thesis using pos by (metis less_int_code(1) linorder_neqE_nat)
  qed
qed

lemma find_loop_ok:
  assumes inv: "vector_inv vect" and b: "data vect = Some bytes" and v: "length v = vlength vect"
    and idx: "\<forall>j < idx. vector_list vect ! j \<noteq> v" "idx \<le> number vect"
  shows "vector_find_loop vect bytes v idx =
           Some (if v \<in> set (vector_list vect)
                 then Some ((LEAST i. vector_list vect ! i = v) * vlength vect) else None)"
  using idx
proof (induction "number vect - idx" arbitrary: idx)
  case 0
  then have "idx = number vect" by simp
  moreover have "length (vector_list vect) = number vect" using b by (simp add: vector_list_def)
  ultimately show ?case
    using 0 by (subst vector_find_loop.simps) (auto simp: in_set_conv_nth)
next
  case (Suc k)
  let ?u = "vlength vect" and ?l = "vector_list vect"
  obtain bytes' where b': "data vect = Some bytes'" "?l = units ?u (number vect) bytes'"
      "number vect * ?u \<le> length bytes'" "length bytes' < 2 ^ 32"
    using inv by (rule vector_invD)
  have lt: "idx < number vect" using Suc.hyps(2) by simp
  have l: "?l ! idx = unit_at ?u idx bytes" using b b'(1,2) lt by (simp add: units_def)
  have off: "u4_mul idx ?u = idx * ?u"
    using slot_bound [OF lt, of ?u] b'(3,4) v inv by (intro u4_mul_small) (simp add: vector_inv_def)
  have "mem_read (idx * ?u) ?u bytes = Some (?l ! idx)"
    using unit_read [OF b'(3) lt] b b'(1) l by simp
  moreover have "mem_read 0 ?u v = Some v" using v by (simp add: mem_read_def)
  ultimately have rd: "mem_read (idx * ?u) ?u bytes = Some (?l ! idx)" "mem_read 0 ?u v = Some v" .
  show ?case
  proof (cases "?l ! idx = v")
    case True
    have "(LEAST i. ?l ! i = v) = idx"
      using True Suc.prems(1) by (intro Least_equality) (auto simp: not_less [symmetric])
    moreover have "v \<in> set ?l" using True lt b'(2) by (metis nth_mem units_length)
    ultimately show ?thesis
      using True lt off rd by (simp add: vector_find_loop.simps [of vect bytes v idx])
  next
    case False
    then have "\<forall>j < Suc idx. ?l ! j \<noteq> v" using Suc.prems(1) by (auto simp: less_Suc_eq)
    then show ?thesis
      using False lt off rd Suc.hyps(1) [of "Suc idx"] Suc.hyps(2)
      by (simp add: vector_find_loop.simps [of vect bytes v idx])
  qed
qed

lemma cursor_ok:
  assumes inv: "vector_inv vect" and i: "i < number vect"
  shows "lisk_vector_at (Some vect) i = Some (i * vlength vect)"
    and "lisk_vector_next (Some vect) (i * vlength vect) =
           (if Suc i < number vect then Some (Suc i * vlength vect) else None)"
    and "lisk_vector_pre (Some vect) (i * vlength vect) =
           (if 0 < i then Some ((i - 1) * vlength vect) else None)"
    and "\<exists>bytes. data vect = Some bytes \<and>
           mem_read (i * vlength vect) (vlength vect) bytes = Some (vector_list vect ! i)"
proof -
  let ?u = "vlength vect" and ?n = "number vect"
  obtain bytes where b: "data vect = Some bytes" "vector_list vect = units ?u ?n bytes"
      "?n * ?u \<le> length bytes" "length bytes < 2 ^ 32" "?n < 2 ^ 32"
    using inv by (rule vector_invD)
  have u: "0 < ?u" using inv by (simp add: vector_inv_def)
  have off: "u4_mul k ?u = k * ?u" "k * ?u < 2 ^ 32" if "k < ?n" for k
  proof -
    show "k * ?u < 2 ^ 32" using slot_bound [OF that, of ?u] b u by linarith
    then show "u4_mul k ?u = k * ?u" by (rule u4_mul_small)
  qed
  have n1: "u4_sub ?n 1 = ?n - 1" "u4_add i 1 = Suc i" "0 < i \<longrightarrow> u4_sub i 1 = i - 1"
    using i b(5) by (simp_all add: u4_sub_small u4_add_small)
  have md: "(i * ?u) mod 2 ^ 32 = i * ?u" "i * ?u div ?u = i" using off(2) [OF i] u by simp_all
  show "lisk_vector_at (Some vect) i = Some (i * ?u)" using i off by (simp add: lisk_vector_at_def)
  show "lisk_vector_next (Some vect) (i * ?u) = (if Suc i < ?n then Some (Suc i * ?u) else None)"
    using i u off by (auto simp: lisk_vector_next_def Let_def md n1 simp del: One_nat_def mult_Suc)
  show "lisk_vector_pre (Some vect) (i * ?u) = (if 0 < i then Some ((i - 1) * ?u) else None)"
    using i u off n1 by (auto simp: lisk_vector_pre_def Let_def md simp del: One_nat_def)
  show "\<exists>bytes. data vect = Some bytes \<and> mem_read (i * ?u) ?u bytes = Some (vector_list vect ! i)"
    using unit_read [OF b(3) i] b(1,2) i by (simp add: units_def)
qed

section \<open>Properties\<close>

text \<open>A vector of two one-byte elements in a block of four bytes, used by the witnesses.\<close>

definition vector_ex :: lisk_vector_t where
  "vector_ex = \<lparr>capacity = 2, number = 2, vlength = 1, data = Some [7, 8]\<rparr>"

lemma vector_ex_inv: "vector_inv vector_ex"
  by (simp add: vector_inv_def vector_ex_def)

lemma vector_ex_list: "vector_list vector_ex = [[7], [8]]"
  by (simp add: vector_list_def units_def unit_at_def vector_ex_def upt_rec)

text \<open>
  C11. \<open>lisk_vector_insert\<close> of \<open>sz\<close> elements at a position up to the end gives the list with those
  elements inserted there, growing the block to a power of two of elements when it is too small;
  every copy stays inside the block. The size of the new block must fit 32 bits with a factor of
  two to spare, and the allocation it may need must succeed.
\<close>

theorem vector_insert_spec:
  assumes "vector_inv vect" "pos \<le> number vect" "0 < sz"
    "2 * ((number vect + sz) * vlength vect) \<le> 2 ^ 32"
    "capacity vect < (number vect + sz) * vlength vect \<longrightarrow>
       mal (pow2_round (number vect + sz) * vlength vect)"
    "length arr = sz * vlength vect"
  shows "\<exists>vect'. lisk_vector_insert mal raw (Some vect) pos (Some arr) sz = Some (0, Some vect') \<and>
           vector_inv vect' \<and> vlength vect' = vlength vect \<and>
           vector_list vect' =
             take pos (vector_list vect) @ units (vlength vect) sz arr @ drop pos (vector_list vect)"
  using insert_ok [of vect pos sz mal "Some arr" raw] assms by auto

theorem vector_insert_spec_witness:
  "\<exists>vect'. lisk_vector_insert (\<lambda>_. True) (\<lambda>_. 0) (Some vector_ex) 1 (Some [5, 6]) 2 = Some (0, Some vect') \<and>
     vector_inv vect' \<and> vlength vect' = vlength vector_ex \<and>
     vector_list vect' = take 1 (vector_list vector_ex) @ units (vlength vector_ex) 2 [5, 6] @
       drop 1 (vector_list vector_ex)"
  by (rule vector_insert_spec) (use vector_ex_inv in \<open>simp_all add: vector_ex_def\<close>)

text \<open>
  When the block of a vector must grow and the allocation fails, \<open>lisk_vector_insert\<close> answers
  -2 and the vector has lost its elements: \<open>REALLOC\<close> has overwritten \<open>data\<close> with \<open>nil\<close>, and the
  next insertion in front of an element follows that pointer.
\<close>

theorem vector_insert_failure_loses:
  assumes inv: "vector_inv vect" and pos: "pos \<le> number vect" and sz: "0 < sz"
    and fit: "2 * ((number vect + sz) * vlength vect) \<le> 2 ^ 32"
    and grow: "capacity vect < (number vect + sz) * vlength vect"
    and mal: "\<not> mal (pow2_round (number vect + sz) * vlength vect)"
  shows "lisk_vector_insert mal raw (Some vect) pos array sz = Some (-2, Some (vect\<lparr>data := None\<rparr>)) \<and>
         vector_list (vect\<lparr>data := None\<rparr>) = [] \<and>
         vector_insert_at (vect\<lparr>data := None\<rparr>) pos array sz = None"
proof -
  let ?n = "number vect + sz" and ?u = "vlength vect"
  note mr = make_room(1,2) [where mal = "\<lambda>_. True", OF inv sz fit]
  have "?n * 1 \<le> ?n * ?u" using inv by (intro mult_le_mono2) (simp add: vector_inv_def)
  moreover have "?n * ?u \<le> 2 ^ 31" using fit by (simp add: mult.commute)
  ultimately have n: "?n \<le> 2 ^ 31" by (metis mult_1_right le_trans)
  have r: "?n \<le> pow2_round ?n" "pow2_round ?n < 2 * ?n" using pow2_round_bounds [OF _ n] sz by auto
  have "pow2_round ?n * ?u < 2 * ?n * ?u"
    using r(2) inv by (intro mult_strict_right_mono) (auto simp: vector_inv_def)
  then have "pow2_round ?n * ?u < 2 ^ 32" using fit by (metis mult.assoc order_less_le_trans)
  then have "vector_grow mal raw vect sz = (-2, vect\<lparr>data := None\<rparr>)"
    using realloc_fail [of vect "pow2_round ?n" mal raw] inv mal r(1) sz grow mr by (simp add: vector_grow_def)
  then show ?thesis
    using pos sz by (simp add: lisk_vector_insert_def vector_list_def vector_insert_at_def)
qed

theorem vector_insert_failure_loses_witness:
  "lisk_vector_insert (\<lambda>_. False) (\<lambda>_. 0) (Some vector_ex) 1 (Some [5]) 1 =
     Some (-2, Some (vector_ex\<lparr>data := None\<rparr>)) \<and>
   vector_list (vector_ex\<lparr>data := None\<rparr>) = [] \<and>
   vector_insert_at (vector_ex\<lparr>data := None\<rparr>) 1 (Some [5]) 1 = None"
  by (rule vector_insert_failure_loses) (use vector_ex_inv in \<open>simp_all add: vector_ex_def\<close>)

text \<open>
  C27. \<open>lisk_vector_erase\<close> of a range inside the vector removes exactly that range and returns a
  pointer to the element after it, which is now at the position of the range. When the range reaches
  the end of the vector it returns \<open>nil\<close>, although elements may be left in front of the range; the comment in
  \<open>lisk_vector.h\<close> promises the block at the position for every vector that is not empty.
\<close>

theorem vector_erase_spec:
  assumes "vector_inv vect" "pos + sz \<le> number vect" "0 < sz"
  shows "\<exists>vect'. lisk_vector_erase (Some vect) pos sz =
             Some (if pos + sz < number vect then Some (pos * vlength vect) else None, Some vect') \<and>
           vector_inv vect' \<and>
           vector_list vect' = take pos (vector_list vect) @ drop (pos + sz) (vector_list vect)"
  using erase_ok [OF assms] by blast

theorem vector_erase_spec_witness:
  "\<exists>vect'. lisk_vector_erase (Some vector_ex) 0 1 =
       Some (if 0 + 1 < number vector_ex then Some (0 * vlength vector_ex) else None, Some vect') \<and>
     vector_inv vect' \<and>
     vector_list vect' = take 0 (vector_list vector_ex) @ drop (0 + 1) (vector_list vector_ex)"
  by (rule vector_erase_spec) (use vector_ex_inv in \<open>simp_all add: vector_ex_def\<close>)

text \<open>
  \<open>lisk_vector_push_back\<close> of one element followed by \<open>lisk_vector_pop_back\<close> restores the list.
\<close>

theorem vector_push_pop:
  assumes inv: "vector_inv vect" and fit: "2 * ((number vect + 1) * vlength vect) \<le> 2 ^ 32"
    and mal: "capacity vect < (number vect + 1) * vlength vect \<longrightarrow>
                mal (pow2_round (number vect + 1) * vlength vect)"
    and e: "length e = vlength vect"
  shows "\<exists>v1 v2. lisk_vector_push_back mal raw (Some vect) (Some e) 1 = Some (0, Some v1) \<and>
           vector_list v1 = vector_list vect @ [e] \<and>
           lisk_vector_pop_back (Some v1) = Some (None, Some v2) \<and> vector_list v2 = vector_list vect"
proof -
  have u1: "units (vlength vect) 1 e = [e]" using e by (simp add: units_def unit_at_def)
  have lv: "length (vector_list v) = number v" if "vector_inv v" for v
    using that by (auto elim: vector_invD)
  obtain v1 where v1: "lisk_vector_insert mal raw (Some vect) (number vect) (Some e) 1 = Some (0, Some v1)"
      "vector_inv v1" "vector_list v1 = vector_list vect @ [e]"
    using insert_ok [where mal = mal, OF inv le_refl zero_less_one fit mal, of "Some e" raw] e u1 lv [OF inv]
    by auto
  have n: "number v1 = Suc (number vect)" using lv [OF v1(2)] lv [OF inv] v1(3) by simp
  have "number v1 < 2 ^ 32" using v1(2) by (rule vector_invD)
  then have "u4_sub (number v1) 1 = number vect" using n by (simp add: u4_sub_small)
  moreover obtain v2 where "lisk_vector_erase (Some v1) (number vect) 1 = Some (None, Some v2)"
      "vector_list v2 = vector_list vect"
    using erase_ok [OF v1(2), of "number vect" 1] n v1(3) lv [OF inv] by auto
  ultimately show ?thesis
    using v1 n by (simp add: lisk_vector_push_back_def lisk_vector_pop_back_def lisk_vector_empty_def)
qed

theorem vector_push_pop_witness:
  "\<exists>v1 v2. lisk_vector_push_back (\<lambda>_. True) (\<lambda>_. 0) (Some vector_ex) (Some [9]) 1 = Some (0, Some v1) \<and>
     vector_list v1 = vector_list vector_ex @ [[9]] \<and>
     lisk_vector_pop_back (Some v1) = Some (None, Some v2) \<and> vector_list v2 = vector_list vector_ex"
  by (rule vector_push_pop) (use vector_ex_inv in \<open>simp_all add: vector_ex_def\<close>)

text \<open>
  \<open>lisk_vector_reverse\<close> reverses the elements in place.
\<close>

theorem vector_reverse_spec:
  assumes "vector_inv vect" "number vect \<noteq> 0" "1024 < vlength vect \<longrightarrow> mal (vlength vect)"
  shows "\<exists>vect'. lisk_vector_reverse mal (Some vect) = Some (0, Some vect') \<and> vector_inv vect' \<and>
           vector_list vect' = rev (vector_list vect)"
  using assms by (rule reverse_ok)

theorem vector_reverse_spec_witness:
  "\<exists>vect'. lisk_vector_reverse (\<lambda>_. True) (Some vector_ex) = Some (0, Some vect') \<and> vector_inv vect' \<and>
     vector_list vect' = rev (vector_list vector_ex)"
  by (rule vector_reverse_spec) (use vector_ex_inv in \<open>simp_all add: vector_ex_def\<close>)

text \<open>
  \<open>lisk_vector_find\<close> without a comparison points at the first element equal to the value, and is
  \<open>nil\<close> when there is none. With a comparison under which the elements are sorted, binary search
  finds an element that compares equal if there is one.
\<close>

theorem vector_find_spec:
  assumes inv: "vector_inv vect" and v: "length v = vlength vect"
    and sorted: "\<forall>i j. i < j \<and> j < number vect \<longrightarrow>
      (cmp v (vector_list vect ! i) < 0 \<longrightarrow> cmp v (vector_list vect ! j) < 0) \<and>
      (0 < cmp v (vector_list vect ! j) \<longrightarrow> 0 < cmp v (vector_list vect ! i))"
  shows "lisk_vector_find (Some vect) (Some v) None =
           Some (if v \<in> set (vector_list vect)
                 then Some ((LEAST i. vector_list vect ! i = v) * vlength vect) else None) \<and>
         (case lisk_vector_find (Some vect) (Some v) (Some cmp) of
            Some (Some p) \<Rightarrow> \<exists>i < number vect. p = i * vlength vect \<and> cmp v (vector_list vect ! i) = 0
          | Some None \<Rightarrow> \<forall>i < number vect. cmp v (vector_list vect ! i) \<noteq> 0
          | None \<Rightarrow> False)"
proof -
  let ?u = "vlength vect" and ?n = "number vect"
  obtain bytes where b: "data vect = Some bytes" "vector_list vect = units ?u ?n bytes"
    using inv by (rule vector_invD)
  have el: "unit_at ?u i bytes = vector_list vect ! i" if "i < ?n" for i
    using that b(2) by (simp add: units_def)
  let ?c = "\<lambda>i. cmp v (unit_at ?u i bytes)"
  have "(?c i < 0 \<longrightarrow> ?c j < 0) \<and> (0 < ?c j \<longrightarrow> 0 < ?c i)" if "i < j" "j < ?n" for i j
    using sorted that el [of i] el [of j] by simp
  then have "\<forall>i < ?n. ?c i \<noteq> 0" if "bsearch_loop ?c 0 ?n = None"
    using bsearch_loop_None [OF that] by simp
  moreover have "i < ?n \<and> ?c i = 0" if "bsearch_loop ?c 0 ?n = Some i" for i
    using bsearch_loop_Some [OF that] by simp
  ultimately have "case lisk_vector_find (Some vect) (Some v) (Some cmp) of
            Some (Some p) \<Rightarrow> \<exists>i < ?n. p = i * ?u \<and> cmp v (vector_list vect ! i) = 0
          | Some None \<Rightarrow> \<forall>i < ?n. cmp v (vector_list vect ! i) \<noteq> 0
          | None \<Rightarrow> False"
    using b(1) el by (cases "bsearch_loop ?c 0 ?n") (fastforce simp: lisk_vector_find_def)+
  then show ?thesis
    using find_loop_ok [OF inv b(1) v, of 0] b(1) by (simp add: lisk_vector_find_def)
qed

theorem vector_find_spec_witness:
  "lisk_vector_find (Some vector_ex) (Some [8]) None =
     Some (if [8] \<in> set (vector_list vector_ex)
           then Some ((LEAST i. vector_list vector_ex ! i = [8]) * vlength vector_ex) else None)"
  using vector_find_spec [OF vector_ex_inv, of "[8]" "\<lambda>_ _. 1"] by (simp add: vector_ex_def)

text \<open>
  The cursors enumerate the vector: \<open>lisk_vector_at\<close>, \<open>lisk_vector_next\<close> and \<open>lisk_vector_pre\<close>
  move between the offsets of neighbouring elements, stop at the ends, and an element read
  at a cursor is the element of the list.
\<close>

theorem vector_cursor_spec:
  assumes "vector_inv vect" "i < number vect"
  shows "lisk_vector_at (Some vect) i = Some (i * vlength vect) \<and>
    lisk_vector_next (Some vect) (i * vlength vect) =
      (if Suc i < number vect then Some (Suc i * vlength vect) else None) \<and>
    lisk_vector_pre (Some vect) (i * vlength vect) =
      (if 0 < i then Some ((i - 1) * vlength vect) else None) \<and>
    (\<exists>bytes. data vect = Some bytes \<and>
       mem_read (i * vlength vect) (vlength vect) bytes = Some (vector_list vect ! i))"
  using cursor_ok [OF assms] by blast

theorem vector_cursor_spec_witness:
  "lisk_vector_at (Some vector_ex) 1 = Some (1 * vlength vector_ex) \<and>
    lisk_vector_next (Some vector_ex) (1 * vlength vector_ex) =
      (if Suc 1 < number vector_ex then Some (Suc 1 * vlength vector_ex) else None) \<and>
    lisk_vector_pre (Some vector_ex) (1 * vlength vector_ex) =
      (if 0 < (1 :: nat) then Some ((1 - 1) * vlength vector_ex) else None) \<and>
    (\<exists>bytes. data vector_ex = Some bytes \<and>
       mem_read (1 * vlength vector_ex) (vlength vector_ex) bytes = Some (vector_list vector_ex ! 1))"
  by (rule vector_cursor_spec) (use vector_ex_inv in \<open>simp_all add: vector_ex_def\<close>)

end
