(* ===== verification/Lisk_Hashtable.thy ===== *)
theory Lisk_Hashtable
  imports Lisk_Specs Lisk_Math Lisk_Hash "HOL-Library.Multiset" "HOL-Library.Monad_Syntax"
begin

text \<open>
  The chained hash table of \<open>win_lisk/src/lisk_hashtable.c\<close>, which grows by putting a larger table in
  front of the old ones and moves a bucket over when a search finds a key in an old table.

  \<^item> An element carries its address, so that the pointer comparisons of \<open>hashtable_erase\<close> and
    \<open>hashtable_update\<close> are comparisons of the model; a chain is the list of its elements.
  \<^item> A table has the bucket array that was allocated for it. The length of the allocation is
    computed in 64 bits as in the code; a bucket outside the array is a fault, \<open>None\<close>.
  \<^item> \<open>mal\<close> answers for \<open>ALLOC\<close>, \<open>remal\<close> for \<open>REALLOC\<close>. Keys and values are byte strings; \<open>None\<close> is a
    \<open>nil\<close> key or value or one whose \<open>data\<close> is \<open>nil\<close>, which the code treats alike.
  \<^item> \<open>ht_map\<close> is the finite map a table stands for. The comparison is the caller's; the theorems
    ask that it is 0 exactly on equal keys (\<open>cmp_eq\<close>).
\<close>

section \<open>State\<close>

record ht_elem_t =
  eaddr :: nat
  ekey :: "u1 list"
  evalue :: "u1 list"

record table_t =
  tsize :: nat
  tnumber :: nat
  bucket :: "ht_elem_t list list"

record hashtable_t =
  cmp :: "u1 list \<Rightarrow> u1 list \<Rightarrow> int"
  tables :: "table_t list"
  ht_brk :: nat

text \<open>\<open>sizeof(ht_elem_t)\<close>, \<open>sizeof(table_t)\<close> and \<open>sizeof(ht_bucket_t)\<close>, packed, on a 64 bit machine.\<close>

abbreviation (input) "ELEM_BYTES \<equiv> 32 :: nat"
abbreviation (input) "TABLE_BYTES \<equiv> 24 :: nat"
abbreviation (input) "BUCKET_BYTES \<equiv> 8 :: nat"
abbreviation (input) "HASHTABLE_BYTES \<equiv> 16 :: nat"
abbreviation (input) "MAX_BUCKET_SIZE \<equiv> 5 :: nat"

definition u8_of :: "nat \<Rightarrow> nat" where
  "u8_of n = n mod 2 ^ 64"

text \<open>\<open>next_prime\<close> on an unsigned argument: both conversions are those of C.\<close>

definition u8_next_prime :: "nat \<Rightarrow> nat" where
  "u8_next_prime sz = nat (next_prime (n8_wrap (int sz)) mod 2 ^ 64)"

definition table_length :: "nat \<Rightarrow> nat" where
  "table_length sz = u8_of (TABLE_BYTES + sz * BUCKET_BYTES)"

text \<open>A table of zeroed memory, with the buckets that fit the bytes allocated.\<close>

definition new_table :: "nat \<Rightarrow> table_t" where
  "new_table sz =
     \<lparr>tsize = sz, tnumber = 0,
      bucket = replicate ((table_length sz - TABLE_BYTES) div BUCKET_BYTES) []\<rparr>"

section \<open>Operations\<close>

definition hashtable_init :: "allocator \<Rightarrow> bool \<Rightarrow> nat \<Rightarrow> (u1 list \<Rightarrow> u1 list \<Rightarrow> int) option \<Rightarrow>
    n4 \<times> hashtable_t option" where
  "hashtable_init mal ht sz cmp_ptr =
     (case cmp_ptr of
        None \<Rightarrow> (-1, None)
      | Some c \<Rightarrow>
          if \<not> ht \<or> sz = 0 then (-1, None)
          else
            (let sz = u8_next_prime sz in
             if \<not> mal (table_length sz) then (-2, None)
             else if \<not> mal HASHTABLE_BYTES then (-2, None)
             else (0, Some \<lparr>cmp = c, tables = [new_table sz], ht_brk = 1\<rparr>)))"

text \<open>The size of the next table; \<open>None\<close> when the code gives up because the sz wrapped around.\<close>

definition expand_size :: "nat \<Rightarrow> nat \<Rightarrow> nat option" where
  "expand_size old sz =
     (if sz = 0 then
        (let s4 = u8_of (old * 4) in
         if s4 < old then
           (let s2 = u8_of (old * 2) in
            if s2 < old then
              (let s15 = u8_of (old + old div 2) in if s15 < old then None else Some s15)
            else Some s2)
         else Some s4)
      else Some sz)"

definition hashtable_expand :: "allocator \<Rightarrow> hashtable_t option \<Rightarrow> nat \<Rightarrow> n4 \<times> hashtable_t option" where
  "hashtable_expand mal ht sz0 =
     (case ht of
        None \<Rightarrow> (-1, None)
      | Some h \<Rightarrow>
          (case expand_size (tsize (hd (tables h))) sz0 of
             None \<Rightarrow> (0, Some h)
           | Some sz \<Rightarrow>
               (let sz = u8_next_prime sz in
                if sz < tsize (hd (tables h)) then (0, Some h)
                else if \<not> mal (table_length sz) then (-2, Some h)
                else (0, Some (h\<lparr>tables := new_table sz # tables h\<rparr>)))))"

text \<open>
  Releasing gives the blocks that are freed, in order: elements by their address, tables by their
  place in the list, the table head itself. The loop over the buckets runs to \<open>size\<close>.
\<close>

datatype ht_block = ElemBlock nat | TableBlock nat | HeadBlock

definition hashtable_release_table :: "nat \<Rightarrow> table_t \<Rightarrow> ht_block list option" where
  "hashtable_release_table n table =
     (if length (bucket table) < tsize table then None
      else Some (map (ElemBlock \<circ> eaddr) (concat (take (tsize table) (bucket table))) @ [TableBlock n]))"

fun hashtable_free_loop :: "nat \<Rightarrow> table_t list \<Rightarrow> ht_block list option" where
  "hashtable_free_loop n [] = Some []"
| "hashtable_free_loop n (t # ts) = do {
     b \<leftarrow> hashtable_release_table n t;
     bs \<leftarrow> hashtable_free_loop (Suc n) ts;
     Some (b @ bs) }"

definition hashtable_free :: "hashtable_t option \<Rightarrow> (n4 \<times> ht_block list \<times> hashtable_t option) option" where
  "hashtable_free ht =
     (case ht of
        None \<Rightarrow> Some (-1, [], None)
      | Some h \<Rightarrow> do {
          bs \<leftarrow> hashtable_free_loop 0 (tables h);
          Some (0, bs @ [HeadBlock], None) })"

definition hash_pos :: "u1 list \<Rightarrow> nat" where
  "hash_pos key = unat (bkdr64 key)"

definition bucket_at :: "table_t \<Rightarrow> nat \<Rightarrow> ht_elem_t list option" where
  "bucket_at table i = (if i < length (bucket table) then Some (bucket table ! i) else None)"

definition push_elem :: "ht_elem_t \<Rightarrow> table_t \<Rightarrow> table_t option" where
  "push_elem e table =
     (let i = hash_pos (ekey e) mod tsize table in do {
        b \<leftarrow> bucket_at table i;
        Some (table\<lparr>bucket := (bucket table)[i := e # b], tnumber := tnumber table + 1\<rparr>) })"

fun search_chain :: "(u1 list \<Rightarrow> u1 list \<Rightarrow> int) \<Rightarrow> u1 list \<Rightarrow> ht_elem_t list \<Rightarrow> ht_elem_t option" where
  "search_chain c key [] = None"
| "search_chain c key (e # es) = (if c (ekey e) key = 0 then Some e else search_chain c key es)"

text \<open>
  The loop over the tables: the index of the table that holds the key and the element, if any.
  An empty table size would divide by zero.
\<close>

fun search_tables :: "(u1 list \<Rightarrow> u1 list \<Rightarrow> int) \<Rightarrow> u1 list \<Rightarrow> nat \<Rightarrow> table_t list \<Rightarrow>
    (nat \<times> ht_elem_t) option option" where
  "search_tables c key n [] = Some None"
| "search_tables c key n (t # ts) =
     (if tsize t = 0 then None
      else (case bucket_at t (hash_pos key mod tsize t) of
              None \<Rightarrow> None
            | Some b \<Rightarrow>
                (case search_chain c key b of
                   Some e \<Rightarrow> Some (Some (n, e))
                 | None \<Rightarrow> search_tables c key (Suc n) ts)))"

text \<open>The loop that moves the elements of a bucket of an old table to the first table.\<close>

fun migrate_loop :: "nat \<Rightarrow> ht_elem_t list \<Rightarrow> table_t \<Rightarrow> table_t \<Rightarrow> (table_t \<times> table_t) option" where
  "migrate_loop i [] target first = Some (target, first)"
| "migrate_loop i (e # es) target first = do {
     first \<leftarrow> push_elem e first;
     migrate_loop i es
       (target\<lparr>bucket := (bucket target)[i := es], tnumber := tnumber target - 1\<rparr>) first }"

definition hashtable_search :: "hashtable_t option \<Rightarrow> u1 list option \<Rightarrow>
    (n4 \<times> hashtable_t option \<times> ht_elem_t option) option" where
  "hashtable_search ht key_ptr =
     (case (ht, key_ptr) of
        (Some h, Some key) \<Rightarrow>
          if key = [] then Some (-1, ht, None)
          else do {
            found \<leftarrow> search_tables (cmp h) key 0 (tables h);
            (case found of
               None \<Rightarrow> Some (-2, ht, None)
             | Some (n, e) \<Rightarrow>
                 if n = 0 then Some (0, ht, Some e)
                 else do {
                   let target = tables h ! n;
                   let i = hash_pos key mod tsize target;
                   b \<leftarrow> bucket_at target i;
                   (target, first) \<leftarrow> migrate_loop i b target (hd (tables h));
                   let ts = (tables h)[0 := first, n := target];
                   Some (0, Some (h\<lparr>tables :=
                     (if tnumber target = 0 then take n ts @ drop (Suc n) ts else ts)\<rparr>), Some e) }) }
      | _ \<Rightarrow> Some (-1, ht, None))"

definition hashtable_find :: "hashtable_t option \<Rightarrow> u1 list option \<Rightarrow> bool \<Rightarrow>
    (n4 \<times> hashtable_t option \<times> u1 list option) option" where
  "hashtable_find ht ht_key ht_value =
     (if ht_key = None \<or> \<not> ht_value then Some (-1, ht, None)
      else do {
        (ret, ht, elem) \<leftarrow> hashtable_search ht ht_key;
        if ret = 0 \<and> elem \<noteq> None then Some (0, ht, map_option evalue elem)
        else Some (-2, ht, None) })"

definition hashtable_insert :: "allocator \<Rightarrow> hashtable_t option \<Rightarrow> u1 list option \<Rightarrow> u1 list option \<Rightarrow>
    (n4 \<times> hashtable_t option) option" where
  "hashtable_insert mal ht ht_key ht_value =
     (case (ht, ht_key, ht_value) of
        (Some h, Some key, Some val) \<Rightarrow>
          if key = [] \<or> tsize (hd (tables h)) = 0 \<or> val = [] then Some (-1, ht)
          else do {
            let ht = (if MAX_BUCKET_SIZE < tnumber (hd (tables h)) div tsize (hd (tables h))
                      then snd (hashtable_expand mal ht 0) else ht);
            (ret, ht, elem) \<leftarrow> hashtable_search ht ht_key;
            if ret = 0 then Some (-3, ht)
            else if \<not> mal (ELEM_BYTES + length key + length val) then Some (-2, ht)
            else
              (case ht of
                 None \<Rightarrow> None
               | Some h \<Rightarrow> do {
                   first \<leftarrow> push_elem \<lparr>eaddr = ht_brk h, ekey = key, evalue = val\<rparr> (hd (tables h));
                   Some (0, Some (h\<lparr>tables := first # tl (tables h), ht_brk := ht_brk h + 1\<rparr>)) }) }
      | _ \<Rightarrow> Some (-1, ht))"

text \<open>The loop of \<open>erase\<close>: it unlinks the element with the address that the search gave.\<close>

fun erase_chain :: "nat \<Rightarrow> ht_elem_t list \<Rightarrow> ht_elem_t list option" where
  "erase_chain a [] = None"
| "erase_chain a (e # es) = (if eaddr e = a then Some es else map_option (Cons e) (erase_chain a es))"

definition hashtable_erase :: "hashtable_t option \<Rightarrow> u1 list option \<Rightarrow>
    (n4 \<times> hashtable_t option) option" where
  "hashtable_erase ht ht_key =
     (case (ht, ht_key) of
        (Some h, Some key) \<Rightarrow>
          if key = [] then Some (-1, ht)
          else do {
            (ret, ht, elem) \<leftarrow> hashtable_search ht ht_key;
            (case (ht, elem) of
               (Some h, Some e) \<Rightarrow>
                 if ret \<noteq> 0 then Some (-2, ht)
                 else do {
                   let first = hd (tables h);
                   let i = hash_pos key mod tsize first;
                   b \<leftarrow> bucket_at first i;
                   (case erase_chain (eaddr e) b of
                      None \<Rightarrow> Some (0, ht)
                    | Some b' \<Rightarrow>
                        Some (0, Some (h\<lparr>tables :=
                          first\<lparr>bucket := (bucket first)[i := b'], tnumber := tnumber first - 1\<rparr>
                            # tl (tables h)\<rparr>))) }
             | _ \<Rightarrow> Some (-2, ht)) }
      | _ \<Rightarrow> Some (-1, ht))"

text \<open>
  \<open>update\<close> rewrites the value in place when it is shorter and reallocates the element otherwise. When
  \<open>REALLOC\<close> fails the code allocates a new element and copies the old one through the pointer that
  \<open>REALLOC\<close> has just set to \<open>nil\<close>: a fault. The sz of the new block is computed in 32 bits and a
  value that does not fit it is a fault too.
\<close>

fun update_chain :: "nat \<Rightarrow> u1 list \<Rightarrow> ht_elem_t list \<Rightarrow> ht_elem_t list" where
  "update_chain a val [] = []"
| "update_chain a val (e # es) =
     (if eaddr e = a then e\<lparr>evalue := val\<rparr> # es else e # update_chain a val es)"

definition hashtable_update :: "allocator \<Rightarrow> allocator \<Rightarrow> hashtable_t option \<Rightarrow> u1 list option \<Rightarrow>
    u1 list option \<Rightarrow> (n4 \<times> hashtable_t option) option" where
  "hashtable_update mal remal ht ht_key ht_value =
     (case (ht, ht_key, ht_value) of
        (Some h, Some key, Some val) \<Rightarrow>
          if key = [] \<or> val = [] then Some (-1, ht)
          else do {
            (ret, ht, elem) \<leftarrow> hashtable_search ht ht_key;
            (case (ht, elem) of
               (Some h, Some e) \<Rightarrow>
                 if ret \<noteq> 0 then Some (-2, ht)
                 else do {
                   let first = hd (tables h);
                   let i = hash_pos key mod tsize first;
                   b \<leftarrow> bucket_at first i;
                   let sz = (ELEM_BYTES + length key + length val) mod 2 ^ 32;
                   let fin = Some (0, Some (h\<lparr>tables :=
                         first\<lparr>bucket := (bucket first)[i := update_chain (eaddr e) val b]\<rparr>
                           # tl (tables h)\<rparr>));
                   if eaddr e \<notin> set (map eaddr b) then Some (-2, ht)
                   else if length val < length (evalue e) then fin
                   else if remal sz then
                     (if ELEM_BYTES + length (ekey e) + length val \<le> sz then fin else None)
                   else if mal sz then None
                   else Some (-2, ht) }
             | _ \<Rightarrow> Some (-2, ht)) }
      | _ \<Rightarrow> Some (-1, ht))"

fun table_numbers :: "table_t list \<Rightarrow> nat" where
  "table_numbers [] = 0"
| "table_numbers (t # ts) = u4_add (tnumber t mod 2 ^ 32) (table_numbers ts)"

definition hashtable_size :: "hashtable_t option \<Rightarrow> bool \<Rightarrow> n4 \<times> nat option" where
  "hashtable_size ht size_ptr =
     (case ht of
        None \<Rightarrow> (-1, None)
      | Some h \<Rightarrow> if \<not> size_ptr then (-1, None) else (0, Some (table_numbers (tables h))))"

definition elem_bytes :: "ht_elem_t \<Rightarrow> nat" where
  "elem_bytes e = ELEM_BYTES + length (ekey e) + length (evalue e)"

fun bucket_bytes :: "ht_elem_t list list \<Rightarrow> nat \<Rightarrow> nat" where
  "bucket_bytes [] acc = acc"
| "bucket_bytes (b # bs) acc =
     bucket_bytes bs (fold (\<lambda>e n. u4_add n (elem_bytes e mod 2 ^ 32)) b (u4_add acc BUCKET_BYTES))"

definition hashtable_table_size :: "table_t \<Rightarrow> nat option" where
  "hashtable_table_size table =
     (if length (bucket table) < tsize table then None
      else Some (bucket_bytes (take (tsize table) (bucket table)) TABLE_BYTES))"

fun tables_bytes :: "table_t list \<Rightarrow> nat \<Rightarrow> nat option" where
  "tables_bytes [] acc = Some acc"
| "tables_bytes (t # ts) acc = do {
     n \<leftarrow> hashtable_table_size t;
     tables_bytes ts (u4_add acc n) }"

definition hashtable_memory_size :: "hashtable_t option \<Rightarrow> bool \<Rightarrow> (n4 \<times> nat option) option" where
  "hashtable_memory_size ht size_ptr =
     (case ht of
        None \<Rightarrow> Some (-1, None)
      | Some h \<Rightarrow>
          if \<not> size_ptr then Some (-1, None)
          else do {
            n \<leftarrow> tables_bytes (tables h) HASHTABLE_BYTES;
            Some (0, Some n) })"

section \<open>Abstraction and invariant\<close>

definition table_elems :: "table_t \<Rightarrow> ht_elem_t list" where
  "table_elems t = concat (bucket t)"

definition ht_elems :: "hashtable_t \<Rightarrow> ht_elem_t list" where
  "ht_elems h = concat (map table_elems (tables h))"

definition entry :: "ht_elem_t \<Rightarrow> u1 list \<times> u1 list" where
  "entry e = (ekey e, evalue e)"

definition ht_map :: "hashtable_t \<Rightarrow> u1 list \<Rightarrow> u1 list option" where
  "ht_map h = map_of (map entry (ht_elems h))"

definition table_inv :: "table_t \<Rightarrow> bool" where
  "table_inv t \<longleftrightarrow> 0 < tsize t \<and> length (bucket t) = tsize t \<and>
     (\<forall>i < tsize t. \<forall>e \<in> set (bucket t ! i). hash_pos (ekey e) mod tsize t = i) \<and>
     tnumber t = length (table_elems t)"

definition ht_inv :: "hashtable_t \<Rightarrow> bool" where
  "ht_inv h \<longleftrightarrow> tables h \<noteq> [] \<and> (\<forall>t \<in> set (tables h). table_inv t) \<and>
     distinct (map ekey (ht_elems h)) \<and> distinct (map eaddr (ht_elems h)) \<and>
     (\<forall>e \<in> set (ht_elems h). eaddr e < ht_brk h \<and> ekey e \<noteq> [] \<and> evalue e \<noteq> [])"

definition cmp_eq :: "(u1 list \<Rightarrow> u1 list \<Rightarrow> int) \<Rightarrow> bool" where
  "cmp_eq c \<longleftrightarrow> (\<forall>a b. c a b = 0 \<longleftrightarrow> a = b)"

section \<open>Tables\<close>

lemma concat_update:
  "i < length bs \<Longrightarrow> mset (concat (bs[i := b'])) + mset (bs ! i) = mset (concat bs) + mset b'"
  by (induction bs arbitrary: i) (auto split: nat.splits)

lemma table_elems_update:
  "i < length (bucket t) \<Longrightarrow>
     mset (table_elems (t\<lparr>bucket := (bucket t)[i := b'], tnumber := n\<rparr>)) + mset (bucket t ! i) =
     mset (table_elems t) + mset b'"
  using concat_update [of i "bucket t" b'] by (simp add: table_elems_def)

lemma new_table_inv:
  assumes "0 < sz" "24 + sz * 8 < 2 ^ 64"
  shows "table_inv (new_table sz)" "table_elems (new_table sz) = []"
  using assms by (simp_all add: table_inv_def new_table_def table_elems_def table_length_def u8_of_def)

lemma push_elem_ok:
  assumes "table_inv t"
  shows "\<exists>t'. push_elem e t = Some t' \<and> table_inv t' \<and>
           mset (table_elems t') = add_mset e (mset (table_elems t)) \<and> tsize t' = tsize t"
proof -
  let ?i = "hash_pos (ekey e) mod tsize t"
  have i: "?i < length (bucket t)" "length (bucket t) = tsize t"
    using assms by (auto simp: table_inv_def)
  let ?t = "t\<lparr>bucket := (bucket t)[?i := e # bucket t ! ?i], tnumber := tnumber t + 1\<rparr>"
  have m: "mset (table_elems ?t) = add_mset e (mset (table_elems t))"
    using table_elems_update [where b' = "e # bucket t ! ?i" and n = "tnumber t + 1", OF i(1)] by simp
  then have "length (table_elems ?t) = Suc (length (table_elems t))"
    by (metis size_add_mset size_mset)
  then have "table_inv ?t"
    using assms i by (auto simp: table_inv_def nth_list_update)
  then show ?thesis using i m by (auto simp: push_elem_def bucket_at_def Let_def)
qed

lemma migrate_loop_ok:
  assumes "table_inv target" "table_inv first" "i < tsize target" "bucket target ! i = es"
  shows "\<exists>target' first'. migrate_loop i es target first = Some (target', first') \<and>
           table_inv target' \<and> table_inv first' \<and> tsize first' = tsize first \<and>
           mset (table_elems target') + mset es = mset (table_elems target) \<and>
           mset (table_elems first') = mset (table_elems first) + mset es"
  using assms
proof (induction es arbitrary: target first)
  case Nil
  then show ?case by simp
next
  case (Cons e es)
  let ?t = "target\<lparr>bucket := (bucket target)[i := es], tnumber := tnumber target - 1\<rparr>"
  have i: "i < length (bucket target)" using Cons.prems by (simp add: table_inv_def)
  have m: "mset (table_elems target) = add_mset e (mset (table_elems ?t))"
    using table_elems_update [where b' = es and n = "tnumber target - 1", OF i] Cons.prems(4) by simp
  then have "length (table_elems target) = Suc (length (table_elems ?t))"
    by (metis size_add_mset size_mset)
  then have t: "table_inv ?t"
    using Cons.prems i by (auto simp: table_inv_def nth_list_update)
  obtain f where f: "push_elem e first = Some f" "table_inv f"
      "mset (table_elems f) = add_mset e (mset (table_elems first))" "tsize f = tsize first"
    using push_elem_ok [OF Cons.prems(2)] by blast
  show ?case
    using Cons.IH [OF t f(2)] Cons.prems(3) i f m by fastforce
qed

text \<open>What is left of the old table: its bucket is empty and it counts as many elements less.\<close>

lemma migrate_loop_target:
  "migrate_loop i es target first = Some (target', first') \<Longrightarrow> i < length (bucket target) \<Longrightarrow> bucket target ! i = es \<Longrightarrow>
     target' = target\<lparr>bucket := (bucket target)[i := []], tnumber := tnumber target - length es\<rparr>"
proof (induction es arbitrary: target first)
  case Nil
  then show ?case using list_update_id [of "bucket target" i] by simp
next
  case (Cons e es)
  let ?t = "target\<lparr>bucket := (bucket target)[i := es], tnumber := tnumber target - 1\<rparr>"
  obtain f where "migrate_loop i es ?t f = Some (target', first')" using Cons.prems(1) by (auto simp: bind_eq_Some_conv)
  then have "target' = ?t\<lparr>bucket := (bucket ?t)[i := []], tnumber := tnumber ?t - length es\<rparr>"
    using Cons.IH [of ?t f] Cons.prems(2) by simp
  then show ?case by simp
qed

section \<open>The map\<close>

lemma ht_map_Some:
  assumes "distinct (map ekey (ht_elems h))"
  shows "ht_map h k = Some v \<longleftrightarrow> (\<exists>e \<in> set (ht_elems h). ekey e = k \<and> evalue e = v)"
proof -
  have "distinct (map fst (map entry (ht_elems h)))" using assms by (simp add: entry_def comp_def)
  then show ?thesis unfolding ht_map_def by (auto simp: entry_def map_of_eq_Some_iff)
qed

lemma ht_map_eqI:
  assumes "distinct (map ekey (ht_elems h))"
    and "\<And>k v. (\<exists>e \<in> set (ht_elems h). ekey e = k \<and> evalue e = v) \<longleftrightarrow> m k = Some v"
  shows "ht_map h = m"
proof
  fix k
  have "ht_map h k = Some v \<longleftrightarrow> m k = Some v" for v
    using ht_map_Some [OF assms(1)] assms(2) by simp
  then show "ht_map h k = m k" by (metis option.exhaust)
qed

lemma ht_map_None: "ht_map h k = None \<longleftrightarrow> (\<forall>e \<in> set (ht_elems h). ekey e \<noteq> k)"
  unfolding ht_map_def by (auto simp: entry_def map_of_eq_None_iff image_image)

lemma distinct_mset_map:
  "mset xs = mset ys \<Longrightarrow> distinct (map f xs) \<longleftrightarrow> distinct (map f ys)"
  by (metis mset_eq_imp_distinct_iff mset_map)

lemma ht_map_cong:
  assumes "distinct (map ekey (ht_elems h))" "mset (ht_elems h') = mset (ht_elems h)"
  shows "ht_map h' = ht_map h"
proof -
  have d: "distinct (map ekey (ht_elems h'))" using assms distinct_mset_map by metis
  have "set (ht_elems h') = set (ht_elems h)" using assms(2) by (metis set_mset_mset)
  then show ?thesis using ht_map_Some [OF assms(1)] by (intro ht_map_eqI [OF d]) simp
qed

section \<open>Search\<close>

lemma search_chain_Some:
  "cmp_eq c \<Longrightarrow> search_chain c key b = Some e \<Longrightarrow> e \<in> set b \<and> ekey e = key"
  by (induction b) (auto simp: cmp_eq_def split: if_splits)

lemma search_chain_None:
  "cmp_eq c \<Longrightarrow> search_chain c key b = None \<Longrightarrow> \<forall>e \<in> set b. ekey e \<noteq> key"
  by (induction b) (auto simp: cmp_eq_def split: if_splits)

lemma key_bucket:
  assumes "table_inv t" "e \<in> set (table_elems t)"
  shows "e \<in> set (bucket t ! (hash_pos (ekey e) mod tsize t))"
proof -
  obtain i where "i < length (bucket t)" "e \<in> set (bucket t ! i)"
    using assms(2) by (auto simp: table_elems_def set_conv_nth [of "bucket t"])
  then show ?thesis using assms(1) by (auto simp: table_inv_def)
qed

lemma bucket_at_ok:
  assumes "table_inv t"
  shows "bucket_at t (n mod tsize t) = Some (bucket t ! (n mod tsize t))"
  using assms by (simp add: table_inv_def bucket_at_def)

lemma search_tables_ok:
  assumes "cmp_eq c" "\<forall>t \<in> set ts. table_inv t"
  shows "\<exists>r. search_tables c key n ts = Some r \<and>
           (case r of
              None \<Rightarrow> \<forall>t \<in> set ts. \<forall>e \<in> set (table_elems t). ekey e \<noteq> key
            | Some (m, e) \<Rightarrow> \<exists>j < length ts. m = n + j \<and> ekey e = key \<and>
                e \<in> set (bucket (ts ! j) ! (hash_pos key mod tsize (ts ! j))))"
  using assms(2)
proof (induction ts arbitrary: n)
  case (Cons t ts)
  have t: "table_inv t" "0 < tsize t" using Cons.prems by (auto simp: table_inv_def)
  let ?b = "bucket t ! (hash_pos key mod tsize t)"
  show ?case
  proof (cases "search_chain c key ?b")
    case (Some e)
    then show ?thesis
      using t bucket_at_ok [OF t(1)] search_chain_Some [OF assms(1) Some] by (auto intro: exI [of _ 0])
  next
    case None
    have no: "\<forall>e \<in> set (table_elems t). ekey e \<noteq> key"
      using search_chain_None [OF assms(1) None] key_bucket [OF t(1)] by blast
    obtain r where r: "search_tables c key (Suc n) ts = Some r" "case r of
              None \<Rightarrow> \<forall>t \<in> set ts. \<forall>e \<in> set (table_elems t). ekey e \<noteq> key
            | Some (m, e) \<Rightarrow> \<exists>j < length ts. m = Suc n + j \<and> ekey e = key \<and>
                e \<in> set (bucket (ts ! j) ! (hash_pos key mod tsize (ts ! j)))"
      using Cons.IH [of "Suc n"] Cons.prems by auto
    have "search_tables c key n (t # ts) = Some r"
      using t bucket_at_ok [OF t(1)] None r(1) by simp
    moreover have "case r of
              None \<Rightarrow> \<forall>t \<in> set (t # ts). \<forall>e \<in> set (table_elems t). ekey e \<noteq> key
            | Some (m, e) \<Rightarrow> \<exists>j < length (t # ts). m = n + j \<and> ekey e = key \<and>
                e \<in> set (bucket ((t # ts) ! j) ! (hash_pos key mod tsize ((t # ts) ! j)))"
      using r(2) no by (auto split: option.splits intro: exI [of _ "Suc _"])
    ultimately show ?thesis by blast
  qed
qed simp

text \<open>Replacing a table, and leaving one out.\<close>

lemma tables_update:
  assumes "i < length ts"
  shows "mset (concat (map table_elems (ts[i := t]))) + mset (table_elems (ts ! i)) =
           mset (concat (map table_elems ts)) + mset (table_elems t)"
  using concat_update [of i "map table_elems ts" "table_elems t"] assms by (simp add: map_update)

lemma tables_remove:
  assumes "n < length ts" "table_elems (ts ! n) = []"
  shows "mset (concat (map table_elems (take n ts @ drop (Suc n) ts))) =
           mset (concat (map table_elems ts))"
proof -
  have "mset (concat (map table_elems ts)) =
      mset (concat (map table_elems (take n ts @ ts ! n # drop (Suc n) ts)))"
    using id_take_nth_drop [OF assms(1)] by simp
  then show ?thesis using assms(2) by simp
qed

lemma ht_inv_cong:
  assumes inv: "ht_inv h" and els: "mset (ht_elems h') = mset (ht_elems h)"
    and ts: "tables h' \<noteq> []" "\<forall>t \<in> set (tables h'). table_inv t" and brk: "ht_brk h' = ht_brk h"
  shows "ht_inv h'"
proof -
  have "set (ht_elems h') = set (ht_elems h)" using els by (metis set_mset_mset)
  moreover have "distinct (map ekey (ht_elems h'))" "distinct (map eaddr (ht_elems h'))"
    using distinct_mset_map [OF els, of ekey] distinct_mset_map [OF els, of eaddr] inv
    by (simp_all add: ht_inv_def)
  ultimately show ?thesis using inv ts brk by (simp add: ht_inv_def)
qed

text \<open>
  Moving a bucket keeps the elements, the invariant of every table and the place of the key: its
  element is in the first table afterwards.
\<close>

lemma migrate_ok:
  assumes inv: "ht_inv h" and n: "0 < n" "n < length (tables h)"
    and e: "e \<in> set (bucket (tables h ! n) ! (k mod tsize (tables h ! n)))"
  shows "\<exists>target first ts. migrate_loop (k mod tsize (tables h ! n))
             (bucket (tables h ! n) ! (k mod tsize (tables h ! n))) (tables h ! n) (hd (tables h)) =
             Some (target, first) \<and>
           ts = (let ts = (tables h)[0 := first, n := target] in
                 if tnumber target = 0 then take n ts @ drop (Suc n) ts else ts) \<and>
           ht_inv (h\<lparr>tables := ts\<rparr>) \<and> mset (ht_elems (h\<lparr>tables := ts\<rparr>)) = mset (ht_elems h) \<and>
           hd ts = first \<and> e \<in> set (table_elems first)"
proof -
  let ?t = "tables h ! n" and ?f = "hd (tables h)"
  let ?i = "k mod tsize ?t"
  have ne: "tables h \<noteq> []" and ti: "\<forall>t \<in> set (tables h). table_inv t"
    using inv by (auto simp: ht_inv_def)
  have t: "table_inv ?t" "table_inv ?f" using ti n(2) ne by auto
  have i: "?i < tsize ?t" using t(1) by (simp add: table_inv_def)
  obtain target first where m: "migrate_loop ?i (bucket ?t ! ?i) ?t ?f = Some (target, first)"
      "table_inv target" "table_inv first" "tsize first = tsize ?f"
      "mset (table_elems target) + mset (bucket ?t ! ?i) = mset (table_elems ?t)"
      "mset (table_elems first) = mset (table_elems ?f) + mset (bucket ?t ! ?i)"
    using migrate_loop_ok [OF t i refl] by blast
  define ts where "ts = (tables h)[0 := first, n := target]"
  define us where "us = (if tnumber target = 0 then take n ts @ drop (Suc n) ts else ts)"
  have f0: "?f = tables h ! 0" using ne by (simp add: hd_conv_nth)
  let ?X = "mset (concat (map table_elems ((tables h)[0 := first])))"
  have "?X + mset (table_elems ?f) = mset (ht_elems h) + mset (table_elems first)"
    using tables_update [of 0 "tables h" first] ne f0 by (simp add: ht_elems_def)
  then have "?X + mset (table_elems ?f) =
      (mset (ht_elems h) + mset (bucket ?t ! ?i)) + mset (table_elems ?f)"
    by (simp only: m(6) ac_simps)
  then have x: "?X = mset (ht_elems h) + mset (bucket ?t ! ?i)" by (simp only: add_right_cancel)
  have "mset (concat (map table_elems ts)) + mset (table_elems ?t) = ?X + mset (table_elems target)"
    using tables_update [of n "(tables h)[0 := first]" target] n by (simp add: ts_def)
  then have "mset (concat (map table_elems ts)) + mset (table_elems ?t) =
      mset (ht_elems h) + mset (table_elems ?t)"
    unfolding x m(5) [symmetric] by (simp only: ac_simps)
  then have els: "mset (concat (map table_elems ts)) = mset (ht_elems h)" by (simp only: add_right_cancel)
  have tn: "ts ! n = target" "n < length ts" "ts \<noteq> []" "ts ! 0 = first"
    using n ne by (auto simp: ts_def)
  have "tnumber target = 0 \<Longrightarrow> table_elems target = []"
    using m(2) by (simp add: table_inv_def)
  then have els': "mset (concat (map table_elems us)) = mset (ht_elems h)"
    using tables_remove [OF tn(2)] tn(1) els by (simp add: us_def)
  have "set ts \<subseteq> insert target (insert first (set (tables h)))"
    unfolding ts_def using set_update_subset_insert by (metis insert_mono subset_trans)
  moreover have "set us \<subseteq> set ts"
    using set_take_subset [of n ts] set_drop_subset [of "Suc n" ts] by (auto simp: us_def)
  ultimately have ti': "\<forall>t \<in> set us. table_inv t" using ti m(2,3) by blast
  have hd: "hd us = first" "us \<noteq> []"
    using tn n(1) by (auto simp: us_def hd_conv_nth nth_append)
  have "ht_inv (h\<lparr>tables := us\<rparr>)"
    by (rule ht_inv_cong [OF inv]) (use els' hd(2) ti' in \<open>simp_all add: ht_elems_def\<close>)
  moreover have "set (bucket ?t ! ?i) \<subseteq> set (table_elems first)"
    using arg_cong [OF m(6), of set_mset] by simp
  moreover have "us = (let ts = (tables h)[0 := first, n := target] in
      if tnumber target = 0 then take n ts @ drop (Suc n) ts else ts)"
    by (simp add: us_def ts_def Let_def)
  moreover have "mset (ht_elems (h\<lparr>tables := us\<rparr>)) = mset (ht_elems h)"
    using els' by (simp add: ht_elems_def)
  ultimately show ?thesis using m(1) hd(1) e by blast
qed

lemma ht_search_ok:
  assumes inv: "ht_inv h" and c: "cmp_eq (cmp h)" and key: "key \<noteq> []"
  shows "\<exists>ret h' r. hashtable_search (Some h) (Some key) = Some (ret, Some h', r) \<and>
           ht_inv h' \<and> mset (ht_elems h') = mset (ht_elems h) \<and> cmp h' = cmp h \<and>
           (case ht_map h key of
              None \<Rightarrow> ret = -2 \<and> r = None \<and> h' = h
            | Some v \<Rightarrow> ret = 0 \<and> (\<exists>e. r = Some e \<and> ekey e = key \<and> evalue e = v \<and>
                e \<in> set (table_elems (hd (tables h')))))"
proof -
  have ne: "tables h \<noteq> []" and ti: "\<forall>t \<in> set (tables h). table_inv t"
    and d: "distinct (map ekey (ht_elems h))"
    using inv by (auto simp: ht_inv_def)
  obtain r where r: "search_tables (cmp h) key 0 (tables h) = Some r"
    "case r of None \<Rightarrow> \<forall>t \<in> set (tables h). \<forall>e \<in> set (table_elems t). ekey e \<noteq> key
      | Some (m, e) \<Rightarrow> \<exists>j < length (tables h). m = 0 + j \<and> ekey e = key \<and>
          e \<in> set (bucket (tables h ! j) ! (hash_pos key mod tsize (tables h ! j)))"
    using search_tables_ok [OF c ti] by blast
  show ?thesis
  proof (cases r)
    case None
    then have "ht_map h key = None" using r(2) by (auto simp: ht_map_None ht_elems_def)
    then show ?thesis using None r(1) inv key by (simp add: hashtable_search_def)
  next
    case (Some p)
    obtain n e where p: "p = (n, e)" by (cases p)
    then have n: "n < length (tables h)" and ek: "ekey e = key"
      and e: "e \<in> set (bucket (tables h ! n) ! (hash_pos key mod tsize (tables h ! n)))"
      using r(2) Some by auto
    have tn: "table_inv (tables h ! n)" using ti n by simp
    then have et: "e \<in> set (table_elems (tables h ! n))"
      using e by (auto simp: table_elems_def table_inv_def)
    then have "e \<in> set (ht_elems h)" using n by (auto simp: ht_elems_def)
    then have mv: "ht_map h key = Some (evalue e)" using ht_map_Some [OF d] ek by blast
    show ?thesis
    proof (cases "n = 0")
      case True
      then have "e \<in> set (table_elems (hd (tables h)))" using et ne by (simp add: hd_conv_nth)
      then show ?thesis
        using True Some p r(1) inv key mv ek by (simp add: hashtable_search_def)
    next
      case False
      then obtain target first ts where m: "migrate_loop (hash_pos key mod tsize (tables h ! n))
          (bucket (tables h ! n) ! (hash_pos key mod tsize (tables h ! n))) (tables h ! n) (hd (tables h)) =
          Some (target, first)"
        "ts = (let ts = (tables h)[0 := first, n := target] in
               if tnumber target = 0 then take n ts @ drop (Suc n) ts else ts)"
        "ht_inv (h\<lparr>tables := ts\<rparr>)" "mset (ht_elems (h\<lparr>tables := ts\<rparr>)) = mset (ht_elems h)"
        "hd ts = first" "e \<in> set (table_elems first)"
        using migrate_ok [OF inv _ n e] by blast
      have "hashtable_search (Some h) (Some key) = Some (0, Some (h\<lparr>tables := ts\<rparr>), Some e)"
        using False Some p r(1) key m(1,2) bucket_at_ok [OF tn]
        by (simp add: hashtable_search_def Let_def)
      then show ?thesis using m mv ek by simp
    qed
  qed
qed

text \<open>The place of a key is unique, and a search in an old table moves exactly one bucket.\<close>

lemma concat_unique:
  "distinct (map f (concat xss)) \<Longrightarrow> m < length xss \<Longrightarrow> n < length xss \<Longrightarrow> x \<in> set (xss ! m) \<Longrightarrow> y \<in> set (xss ! n) \<Longrightarrow> f x = f y \<Longrightarrow> m = n"
proof (induction xss arbitrary: m n)
  case (Cons xs xss)
  have dis: "f ` set xs \<inter> f ` (\<Union>(set ` set xss)) = {}" using Cons.prems(1) by simp
  have rest: "f z \<in> f ` (\<Union>(set ` set xss))" if "j < length xss" "z \<in> set (xss ! j)" for j z
    using that by (intro imageI) (auto intro!: bexI [of _ "xss ! j"])
  show ?case
  proof (cases m; cases n)
    fix i j
    assume "m = Suc i" "n = Suc j"
    then show ?thesis using Cons.IH [of i j] Cons.prems by simp
  next
    fix j
    assume mn: "m = 0" "n = Suc j"
    then have "x \<in> set xs" "f x \<in> f ` (\<Union>(set ` set xss))" using Cons.prems rest [of j y] by simp_all
    then show ?thesis using dis by blast
  next
    fix i
    assume mn: "m = Suc i" "n = 0"
    then have "y \<in> set xs" "f y \<in> f ` (\<Union>(set ` set xss))" using Cons.prems rest [of i x] by simp_all
    then show ?thesis using dis by blast
  qed simp
qed simp

definition emptied :: "table_t \<Rightarrow> nat \<Rightarrow> table_t" where
  "emptied t i = t\<lparr>bucket := (bucket t)[i := []], tnumber := tnumber t - length (bucket t ! i)\<rparr>"

lemma ht_search_found:
  assumes inv: "ht_inv h" and c: "cmp_eq (cmp h)" and n: "n < length (tables h)" and k: "key \<in> ekey ` set (table_elems (tables h ! n))"
  shows "\<exists>e. search_tables (cmp h) key 0 (tables h) = Some (Some (n, e)) \<and> ekey e = key"
proof -
  have ti: "\<forall>t \<in> set (tables h). table_inv t" and d: "distinct (map ekey (concat (map table_elems (tables h))))"
    using inv by (auto simp: ht_inv_def ht_elems_def)
  obtain r where r: "search_tables (cmp h) key 0 (tables h) = Some r"
    "case r of None \<Rightarrow> \<forall>t \<in> set (tables h). \<forall>e \<in> set (table_elems t). ekey e \<noteq> key
      | Some (m, e) \<Rightarrow> \<exists>j < length (tables h). m = 0 + j \<and> ekey e = key \<and>
          e \<in> set (bucket (tables h ! j) ! (hash_pos key mod tsize (tables h ! j)))"
    using search_tables_ok [OF c ti] by blast
  obtain y where y: "y \<in> set (table_elems (tables h ! n))" "ekey y = key" using k by auto
  have "tables h ! n \<in> set (tables h)" using n by simp
  then have "r \<noteq> None" using r(2) y by (cases r) auto
  then obtain m e where me: "r = Some (m, e)" "m < length (tables h)" "ekey e = key"
      "e \<in> set (bucket (tables h ! m) ! (hash_pos key mod tsize (tables h ! m)))"
    using r(2) by auto
  have "table_inv (tables h ! m)" using ti me(2) by simp
  then have "e \<in> set (table_elems (tables h ! m))" using me(4) by (auto simp: table_elems_def table_inv_def)
  then have "m = n" using concat_unique [OF d, of m n e y] me(2,3) n y by simp
  then show ?thesis using r(1) me(1,3) by simp
qed

lemma ht_search_moves:
  assumes inv: "ht_inv h" and c: "cmp_eq (cmp h)" and key: "key \<noteq> []"
    and n: "n < length (tl (tables h))" and t: "t = tl (tables h) ! n" and k: "key \<in> ekey ` set (table_elems t)"
  shows "\<exists>h' e. hashtable_search (Some h) (Some key) = Some (0, Some h', Some e) \<and>
    mset (table_elems (hd (tables h'))) = mset (table_elems (hd (tables h))) + mset (bucket t ! (hash_pos key mod tsize t)) \<and>
    tl (tables h') = (if table_elems (emptied t (hash_pos key mod tsize t)) = [] then take n (tl (tables h)) @ drop (Suc n) (tl (tables h))
       else (tl (tables h))[n := emptied t (hash_pos key mod tsize t)])"
proof -
  obtain f rest where ts: "tables h = f # rest" using inv by (cases "tables h") (auto simp: ht_inv_def)
  have tn: "tables h ! Suc n = t" "Suc n < length (tables h)" using n t ts by simp_all
  have ti: "table_inv t" "table_inv f" using inv tn nth_mem [OF tn(2)] ts by (auto simp: ht_inv_def)
  let ?i = "hash_pos key mod tsize t"
  have i: "?i < tsize t" "?i < length (bucket t)" using ti(1) by (auto simp: table_inv_def)
  obtain e where e: "search_tables (cmp h) key 0 (tables h) = Some (Some (Suc n, e))"
    using ht_search_found [OF inv c tn(2)] k tn(1) by auto
  obtain target first where m: "migrate_loop ?i (bucket t ! ?i) t f = Some (target, first)" "table_inv target"
      "mset (table_elems first) = mset (table_elems f) + mset (bucket t ! ?i)"
    using migrate_loop_ok [OF ti i(1) refl] by blast
  have tg: "target = emptied t ?i" unfolding emptied_def by (rule migrate_loop_target [OF m(1) i(2) refl])
  have z: "tnumber target = 0 \<longleftrightarrow> table_elems target = []" using m(2) by (simp add: table_inv_def)
  let ?ts = "if tnumber target = 0 then first # take n rest @ drop (Suc n) rest else first # rest[n := target]"
  have "hashtable_search (Some h) (Some key) = Some (0, Some (h\<lparr>tables := ?ts\<rparr>), Some e)"
    using e key tn m(1) bucket_at_ok [OF ti(1)] ts n by (simp add: hashtable_search_def Let_def)
  then show ?thesis using m(3) z ts unfolding tg by (intro exI [of _ "h\<lparr>tables := ?ts\<rparr>"] exI [of _ e]) (simp add: tg)
qed

section \<open>Insertion, removal, replacement\<close>

text \<open>An insertion may have to make a larger table first; the new table must fit 64 bit lengths.\<close>

definition expand_fits :: "hashtable_t \<Rightarrow> bool" where
  "expand_fits h \<longleftrightarrow>
     (case expand_size (tsize (hd (tables h))) 0 of None \<Rightarrow> True
      | Some sz \<Rightarrow> 24 + u8_next_prime sz * 8 < 2 ^ 64)"

lemma ht_expand_ok:
  assumes inv: "ht_inv h" and fit: "expand_fits h"
  shows "\<exists>ret h'. hashtable_expand mal (Some h) 0 = (ret, Some h') \<and> ht_inv h' \<and>
           ht_elems h' = ht_elems h \<and> cmp h' = cmp h \<and> ht_brk h' = ht_brk h"
proof -
  have f: "0 < tsize (hd (tables h))" using inv by (auto simp: ht_inv_def table_inv_def)
  have "ht_inv (h\<lparr>tables := new_table sz # tables h\<rparr>) \<and>
      ht_elems (h\<lparr>tables := new_table sz # tables h\<rparr>) = ht_elems h"
    if "tsize (hd (tables h)) \<le> sz" "24 + sz * 8 < 2 ^ 64" for sz
  proof -
    note nt = new_table_inv [of sz]
    have "ht_elems (h\<lparr>tables := new_table sz # tables h\<rparr>) = ht_elems h"
      using nt f that by (simp add: ht_elems_def)
    then show ?thesis using inv nt f that by (auto simp: ht_inv_def)
  qed
  then show ?thesis
    using inv fit by (auto simp: hashtable_expand_def expand_fits_def Let_def split: option.splits)
qed

lemma mset_hd_tl:
  "tables h \<noteq> [] \<Longrightarrow> mset (ht_elems (h\<lparr>tables := t # tl (tables h), ht_brk := b\<rparr>)) + mset (table_elems (hd (tables h))) =
     mset (ht_elems h) + mset (table_elems t)"
  by (cases "tables h") (auto simp: ht_elems_def)

lemma ht_insert_ok:
  assumes inv: "ht_inv h" and c: "cmp_eq (cmp h)" and key: "key \<noteq> []" "val \<noteq> []" and fit: "expand_fits h"
  shows "\<exists>ret h'. hashtable_insert mal (Some h) (Some key) (Some val) = Some (ret, Some h') \<and>
           ht_inv h' \<and> cmp h' = cmp h \<and>
           (if ht_map h key = None
            then (if mal (32 + length key + length val)
                  then ret = 0 \<and> ht_map h' = (ht_map h)(key \<mapsto> val)
                  else ret = -2 \<and> ht_map h' = ht_map h)
            else ret = -3 \<and> ht_map h' = ht_map h)"
proof -
  define h0 where "h0 = (if 5 < tnumber (hd (tables h)) div tsize (hd (tables h))
      then the (snd (hashtable_expand mal (Some h) 0)) else h)"
  have h0: "ht_inv h0" "ht_elems h0 = ht_elems h" "cmp h0 = cmp h"
    and h0s: "(if 5 < tnumber (hd (tables h)) div tsize (hd (tables h))
      then snd (hashtable_expand mal (Some h) 0) else Some h) = Some h0"
    using ht_expand_ok [OF inv fit, of mal] inv by (auto simp: h0_def)
  have m0: "ht_map h0 = ht_map h" using h0(2) by (simp add: ht_map_def)
  obtain ret h1 r where s: "hashtable_search (Some h0) (Some key) = Some (ret, Some h1, r)"
    "ht_inv h1" "mset (ht_elems h1) = mset (ht_elems h0)" "cmp h1 = cmp h0"
    "case ht_map h0 key of None \<Rightarrow> ret = -2 \<and> r = None \<and> h1 = h0
      | Some v \<Rightarrow> ret = 0 \<and> (\<exists>e. r = Some e \<and> ekey e = key \<and> evalue e = v \<and>
          e \<in> set (table_elems (hd (tables h1))))"
    using ht_search_ok [OF h0(1) _ key(1)] c h0(3) by auto
  have d0: "distinct (map ekey (ht_elems h0))" using h0(1) by (simp add: ht_inv_def)
  have m1: "ht_map h1 = ht_map h" using ht_map_cong [OF d0 s(3)] m0 by simp
  have f: "0 < tsize (hd (tables h))" using inv by (auto simp: ht_inv_def table_inv_def)
  have run: "hashtable_insert mal (Some h) (Some key) (Some val) =
      (if ret = 0 then Some (-3, Some h1)
       else if \<not> mal (32 + length key + length val) then Some (-2, Some h1)
       else do {
         first \<leftarrow> push_elem \<lparr>eaddr = ht_brk h1, ekey = key, evalue = val\<rparr> (hd (tables h1));
         Some (0, Some (h1\<lparr>tables := first # tl (tables h1), ht_brk := ht_brk h1 + 1\<rparr>)) })"
    using key f by (simp add: hashtable_insert_def Let_def h0s s(1))
  show ?thesis
  proof (cases "ht_map h key = None \<and> mal (32 + length key + length val)")
    case False
    then show ?thesis using s m0 m1 h0(3) by (cases "ht_map h key") (auto simp: run)
  next
    case True
    then have ret: "ret = -2" using s(5) m0 by simp
    let ?e = "\<lparr>eaddr = ht_brk h1, ekey = key, evalue = val\<rparr>"
    have h1: "tables h1 \<noteq> []" "\<forall>t \<in> set (tables h1). table_inv t" using s(2) by (auto simp: ht_inv_def)
    obtain t' where t': "push_elem ?e (hd (tables h1)) = Some t'" "table_inv t'"
        "mset (table_elems t') = add_mset ?e (mset (table_elems (hd (tables h1))))"
      using push_elem_ok [of "hd (tables h1)" ?e] h1 by auto
    let ?h = "h1\<lparr>tables := t' # tl (tables h1), ht_brk := ht_brk h1 + 1\<rparr>"
    have els: "mset (ht_elems ?h) = add_mset ?e (mset (ht_elems h1))"
      using mset_hd_tl [where t = t' and b = "ht_brk h1 + 1", OF h1(1)] t'(3) by simp
    then have "mset (ht_elems ?h) = mset (?e # ht_elems h1)" by simp
    note dm = distinct_mset_map [OF this, of ekey] distinct_mset_map [OF this, of eaddr]
    have st: "set (ht_elems ?h) = insert ?e (set (ht_elems h1))"
      using els by (metis set_mset_add_mset_insert set_mset_mset)
    have fresh: "key \<notin> ekey ` set (ht_elems h1)" using True m1 ht_map_None [of h1 key] by auto
    have old: "distinct (map ekey (ht_elems h1))" "distinct (map eaddr (ht_elems h1))"
      "\<forall>e \<in> set (ht_elems h1). eaddr e < ht_brk h1 \<and> ekey e \<noteq> [] \<and> evalue e \<noteq> []"
      using s(2) by (auto simp: ht_inv_def)
    have inv': "ht_inv ?h"
      using h1 t'(2) dm st fresh old key by (auto simp: ht_inv_def dest: list.set_sel(2))
    then have d': "distinct (map ekey (ht_elems ?h))" by (simp add: ht_inv_def)
    have "ht_map ?h = (ht_map h1)(key \<mapsto> val)"
      using st ht_map_Some [OF old(1)] fresh by (intro ht_map_eqI [OF d']) (auto simp: image_iff)
    then show ?thesis using True ret t'(1) inv' s(4) h0(3) m1 by (simp add: run)
  qed
qed

text \<open>In the bucket of its key an element is found again by its address.\<close>

lemma erase_chain_ok:
  "distinct (map eaddr b) \<Longrightarrow> e \<in> set b \<Longrightarrow>
     \<exists>b'. erase_chain (eaddr e) b = Some b' \<and> mset b = add_mset e (mset b')"
proof (induction b)
  case (Cons x b)
  show ?case
  proof (cases "eaddr x = eaddr e")
    case True
    then have "x = e" using Cons.prems by (auto simp: image_iff)
    then show ?thesis by simp
  next
    case False
    then show ?thesis using Cons by auto
  qed
qed simp

lemma update_chain_ok:
  "distinct (map eaddr b) \<Longrightarrow> e \<in> set b \<Longrightarrow>
     add_mset e (mset (update_chain (eaddr e) val b)) = add_mset (e\<lparr>evalue := val\<rparr>) (mset b)"
proof (induction b)
  case (Cons x b)
  show ?case
  proof (cases "eaddr x = eaddr e")
    case True
    then have "x = e" using Cons.prems by (auto simp: image_iff)
    then show ?thesis by simp
  next
    case False
    then show ?thesis using Cons by auto
  qed
qed simp

lemma set_update_chain: "set (update_chain a val b) \<subseteq> set b \<union> (\<lambda>e. e\<lparr>evalue := val\<rparr>) ` set b"
  by (induction b) auto

lemma first_bucket:
  assumes inv: "ht_inv h" and e: "e \<in> set (table_elems (hd (tables h)))"
  shows "e \<in> set (bucket (hd (tables h)) ! (hash_pos (ekey e) mod tsize (hd (tables h))))"
    "distinct (map eaddr (bucket (hd (tables h)) ! (hash_pos (ekey e) mod tsize (hd (tables h)))))"
    "hash_pos (ekey e) mod tsize (hd (tables h)) < length (bucket (hd (tables h)))"
    "table_inv (hd (tables h))" "e \<in> set (ht_elems h)"
proof -
  let ?f = "hd (tables h)"
  let ?i = "hash_pos (ekey e) mod tsize ?f"
  show f: "table_inv ?f" using inv by (auto simp: ht_inv_def)
  show "e \<in> set (bucket ?f ! ?i)" using key_bucket [OF f e] .
  show i: "?i < length (bucket ?f)" using f by (simp add: table_inv_def)
  have ne: "tables h \<noteq> []" using inv by (simp add: ht_inv_def)
  then have els: "ht_elems h = table_elems ?f @ concat (map table_elems (tl (tables h)))"
    by (cases "tables h") (auto simp: ht_elems_def)
  then show "e \<in> set (ht_elems h)" using e by simp
  have "distinct (map eaddr (concat (bucket ?f)))"
    using inv els by (simp add: ht_inv_def table_elems_def)
  then show "distinct (map eaddr (bucket ?f ! ?i))"
    using i by (metis distinct_concat_iff map_concat nth_map nth_mem length_map)
qed

lemma ht_erase_ok:
  assumes inv: "ht_inv h" and c: "cmp_eq (cmp h)" and key: "key \<noteq> []"
  shows "\<exists>ret h'. hashtable_erase (Some h) (Some key) = Some (ret, Some h') \<and> ht_inv h' \<and>
           cmp h' = cmp h \<and> ret = (if ht_map h key = None then -2 else 0) \<and>
           ht_map h' = (ht_map h)(key := None)"
proof -
  obtain ret h1 r where s: "hashtable_search (Some h) (Some key) = Some (ret, Some h1, r)"
    "ht_inv h1" "mset (ht_elems h1) = mset (ht_elems h)" "cmp h1 = cmp h"
    "case ht_map h key of None \<Rightarrow> ret = -2 \<and> r = None \<and> h1 = h
      | Some v \<Rightarrow> ret = 0 \<and> (\<exists>e. r = Some e \<and> ekey e = key \<and> evalue e = v \<and>
          e \<in> set (table_elems (hd (tables h1))))"
    using ht_search_ok [OF inv c key] by blast
  have d: "distinct (map ekey (ht_elems h))" using inv by (simp add: ht_inv_def)
  have m1: "ht_map h1 = ht_map h" using ht_map_cong [OF d s(3)] .
  show ?thesis
  proof (cases "ht_map h key")
    case None
    then show ?thesis
      using s key by (simp add: hashtable_erase_def fun_upd_idem)
  next
    case (Some v)
    then obtain e where e: "r = Some e" "ekey e = key" "ret = 0"
        "e \<in> set (table_elems (hd (tables h1)))" using s(5) by auto
    let ?f = "hd (tables h1)"
    let ?i = "hash_pos key mod tsize ?f"
    note fb = first_bucket [OF s(2) e(4), unfolded e(2)]
    obtain b' where b': "erase_chain (eaddr e) (bucket ?f ! ?i) = Some b'"
        "mset (bucket ?f ! ?i) = add_mset e (mset b')"
      using erase_chain_ok [OF fb(2,1)] by blast
    let ?t = "?f\<lparr>bucket := (bucket ?f)[?i := b'], tnumber := tnumber ?f - 1\<rparr>"
    let ?h = "h1\<lparr>tables := ?t # tl (tables h1)\<rparr>"
    have run: "hashtable_erase (Some h) (Some key) = Some (0, Some ?h)"
      using key s(1) e(1,3) b'(1) fb(3) by (simp add: hashtable_erase_def Let_def bucket_at_def)
    have mt: "mset (table_elems ?f) = add_mset e (mset (table_elems ?t))"
      using table_elems_update [where b' = b' and n = "tnumber ?f - 1", OF fb(3)] b'(2) by simp
    then have "length (table_elems ?f) = Suc (length (table_elems ?t))"
      by (metis size_add_mset size_mset)
    moreover have "set b' \<subseteq> set (bucket ?f ! ?i)" using b'(2) by (metis set_mset_add_mset_insert set_mset_mset subset_insertI)
    ultimately have ti: "table_inv ?t"
      using fb(3,4) by (auto simp: table_inv_def nth_list_update)
    have ne: "tables h1 \<noteq> []" "\<forall>t \<in> set (tables h1). table_inv t" using s(2) by (auto simp: ht_inv_def)
    have els: "mset (ht_elems h1) = mset (e # ht_elems ?h)"
      using mset_hd_tl [where t = ?t and b = "ht_brk h1", OF ne(1)] mt by simp
    have old: "distinct (map ekey (ht_elems h1))" "distinct (map eaddr (ht_elems h1))"
      "\<forall>x \<in> set (ht_elems h1). eaddr x < ht_brk h1 \<and> ekey x \<noteq> [] \<and> evalue x \<noteq> []"
      using s(2) by (auto simp: ht_inv_def)
    have st: "set (ht_elems h1) = insert e (set (ht_elems ?h))"
      using arg_cong [OF els, of set_mset] by simp
    have ds: "distinct (map ekey (e # ht_elems ?h))" "distinct (map eaddr (e # ht_elems ?h))"
      using distinct_mset_map [OF els, of ekey] distinct_mset_map [OF els, of eaddr] old by simp_all
    then have "ht_inv ?h" using old(3) st ti ne by (auto simp: ht_inv_def dest: list.set_sel(2))
    moreover have "ht_map ?h = (ht_map h1)(key := None)"
      using ds ht_map_Some [OF old(1)] st e(2) by (intro ht_map_eqI) (auto simp: image_iff)
    ultimately show ?thesis using run s(4) m1 Some by simp
  qed
qed

text \<open>Replacing the value of an element that is there keeps the invariant and changes the map there.\<close>

lemma ht_replace_ok:
  assumes inv: "ht_inv h" and e: "e \<in> set (ht_elems h)"
    and els: "add_mset e (mset (ht_elems (h\<lparr>tables := t # tl (tables h)\<rparr>))) =
      add_mset (e\<lparr>evalue := val\<rparr>) (mset (ht_elems h))"
    and val: "val \<noteq> []" and t: "table_inv t"
  shows "ht_inv (h\<lparr>tables := t # tl (tables h)\<rparr>)"
    "ht_map (h\<lparr>tables := t # tl (tables h)\<rparr>) = (ht_map h)(ekey e \<mapsto> val)"
proof -
  let ?h = "h\<lparr>tables := t # tl (tables h)\<rparr>" and ?e = "e\<lparr>evalue := val\<rparr>"
  have old: "tables h \<noteq> []" "\<forall>t \<in> set (tables h). table_inv t"
    "distinct (map ekey (ht_elems h))" "distinct (map eaddr (ht_elems h))"
    "\<forall>x \<in> set (ht_elems h). eaddr x < ht_brk h \<and> ekey x \<noteq> [] \<and> evalue x \<noteq> []"
    using inv by (auto simp: ht_inv_def)
  obtain M where M: "mset (ht_elems h) = add_mset e M"
    using e by (metis in_multiset_in_set insert_DiffM)
  then have M': "mset (ht_elems ?h) = add_mset ?e M" using els by (simp add: add_mset_commute)
  have "mset (map ekey (ht_elems ?h)) = mset (map ekey (ht_elems h))"
    "mset (map eaddr (ht_elems ?h)) = mset (map eaddr (ht_elems h))"
    by (simp_all add: M M' del: mset_map add: mset_map)
  then have d: "distinct (map ekey (ht_elems ?h))" "distinct (map eaddr (ht_elems ?h))"
    using old(3,4) mset_eq_imp_distinct_iff by metis+
  have st: "set (ht_elems h) = insert e (set_mset M)" "set (ht_elems ?h) = insert ?e (set_mset M)"
    using arg_cong [OF M, of set_mset] arg_cong [OF M', of set_mset] by simp_all
  show "ht_inv ?h" using old st d t val by (auto simp: ht_inv_def dest: list.set_sel(2))
  obtain xs where xs: "mset xs = M" using ex_mset by blast
  have "distinct (map ekey (e # xs))" using old(3) distinct_mset_map [of "ht_elems h" "e # xs" ekey] M xs by simp
  then have "\<forall>x \<in> set_mset M. ekey x \<noteq> ekey e" using xs by (metis distinct.simps(2) image_eqI list.map(2) list.set_map set_mset_mset)
  then show "ht_map ?h = (ht_map h)(ekey e \<mapsto> val)"
    using st ht_map_Some [OF old(3)] by (intro ht_map_eqI [OF d(1)]) auto
qed

text \<open>A fault needs a value that 32 bits of length do not hold, or a \<open>REALLOC\<close> that failed.\<close>

lemma ht_update_ok:
  assumes inv: "ht_inv h" and c: "cmp_eq (cmp h)" and key: "key \<noteq> []" "val \<noteq> []"
    and mem: "\<And>n. remal n" and sz: "32 + length key + length val < 2 ^ 32"
  shows "\<exists>h'. hashtable_update mal remal (Some h) (Some key) (Some val) =
             Some (if ht_map h key = None then -2 else 0, Some h') \<and> ht_inv h' \<and> cmp h' = cmp h \<and>
           ht_map h' = (if ht_map h key = None then ht_map h else (ht_map h)(key \<mapsto> val))"
proof -
  obtain ret h1 r where s: "hashtable_search (Some h) (Some key) = Some (ret, Some h1, r)"
    "ht_inv h1" "mset (ht_elems h1) = mset (ht_elems h)" "cmp h1 = cmp h"
    "case ht_map h key of None \<Rightarrow> ret = -2 \<and> r = None \<and> h1 = h
      | Some v \<Rightarrow> ret = 0 \<and> (\<exists>e. r = Some e \<and> ekey e = key \<and> evalue e = v \<and>
          e \<in> set (table_elems (hd (tables h1))))"
    using ht_search_ok [OF inv c key(1)] by blast
  have d: "distinct (map ekey (ht_elems h))" using inv by (simp add: ht_inv_def)
  have m1: "ht_map h1 = ht_map h" using ht_map_cong [OF d s(3)] .
  show ?thesis
  proof (cases "ht_map h key")
    case None
    then show ?thesis using s key by (simp add: hashtable_update_def)
  next
    case (Some v)
    then obtain e where e: "r = Some e" "ekey e = key" "ret = 0"
        "e \<in> set (table_elems (hd (tables h1)))" using s(5) by auto
    let ?f = "hd (tables h1)" and ?e = "e\<lparr>evalue := val\<rparr>"
    let ?i = "hash_pos key mod tsize ?f"
    note fb = first_bucket [OF s(2) e(4), unfolded e(2)]
    let ?b = "update_chain (eaddr e) val (bucket ?f ! ?i)"
    let ?t = "?f\<lparr>bucket := (bucket ?f)[?i := ?b]\<rparr>"
    let ?h = "h1\<lparr>tables := ?t # tl (tables h1)\<rparr>"
    have run: "hashtable_update mal remal (Some h) (Some key) (Some val) = Some (0, Some ?h)"
      using key s(1) e(1,2,3) fb(1,3) mem sz
      by (auto simp: hashtable_update_def Let_def bucket_at_def)
    have b: "add_mset e (mset ?b) = add_mset ?e (mset (bucket ?f ! ?i))"
      using update_chain_ok [OF fb(2,1)] .
    have "mset (table_elems ?t) + mset (bucket ?f ! ?i) = mset (table_elems ?f) + mset ?b"
      using concat_update [OF fb(3), of ?b] by (simp add: table_elems_def)
    then have "add_mset e (mset (table_elems ?t) + mset (bucket ?f ! ?i)) =
        mset (table_elems ?f) + add_mset e (mset ?b)" by simp
    then have "add_mset e (mset (table_elems ?t)) + mset (bucket ?f ! ?i) =
        add_mset ?e (mset (table_elems ?f)) + mset (bucket ?f ! ?i)" unfolding b by simp
    then have mt: "add_mset e (mset (table_elems ?t)) = add_mset ?e (mset (table_elems ?f))"
      by (simp only: add_right_cancel)
    from arg_cong [OF mt, of size] have "length (table_elems ?t) = length (table_elems ?f)" by simp
    moreover have "set ?b \<subseteq> set (bucket ?f ! ?i) \<union> (\<lambda>e. e\<lparr>evalue := val\<rparr>) ` set (bucket ?f ! ?i)"
      by (rule set_update_chain)
    ultimately have ti: "table_inv ?t" using fb(3,4) by (fastforce simp: table_inv_def nth_list_update)
    have ne: "tables h1 \<noteq> []" "\<forall>t \<in> set (tables h1). table_inv t" using s(2) by (auto simp: ht_inv_def)
    have "mset (ht_elems ?h) + mset (table_elems ?f) = mset (ht_elems h1) + mset (table_elems ?t)"
      using mset_hd_tl [where t = ?t and b = "ht_brk h1", OF ne(1)] by simp
    then have "add_mset e (mset (ht_elems ?h)) + mset (table_elems ?f) =
        mset (ht_elems h1) + add_mset e (mset (table_elems ?t))" by simp
    then have "add_mset e (mset (ht_elems ?h)) + mset (table_elems ?f) =
        add_mset ?e (mset (ht_elems h1)) + mset (table_elems ?f)" unfolding mt by simp
    then have els: "add_mset e (mset (ht_elems ?h)) = add_mset ?e (mset (ht_elems h1))"
      by (simp only: add_right_cancel)
    show ?thesis using ht_replace_ok [OF s(2) _ els _ ti] run s(4) m1 Some fb(5) e(2) key by simp
  qed
qed

section \<open>Creation, lookup, destruction\<close>

lemma ht_init_ok:
  assumes "0 < sz" "0 < u8_next_prime sz" "24 + u8_next_prime sz * 8 < 2 ^ 64" "\<And>n. mal n"
  shows "\<exists>h. hashtable_init mal True sz (Some c) = (0, Some h) \<and> ht_inv h \<and> cmp h = c \<and>
           ht_map h = Map.empty"
proof -
  let ?h = "\<lparr>cmp = c, tables = [new_table (u8_next_prime sz)], ht_brk = 1\<rparr>"
  have e: "ht_elems ?h = []" using new_table_inv [OF assms(2,3)] by (simp add: ht_elems_def)
  have "ht_inv ?h" using new_table_inv [OF assms(2,3)] e by (simp add: ht_inv_def)
  moreover have "ht_map ?h = Map.empty" using e by (simp add: ht_map_def)
  ultimately show ?thesis using assms by (simp add: hashtable_init_def Let_def)
qed

lemma ht_find_ok:
  assumes inv: "ht_inv h" and c: "cmp_eq (cmp h)" and key: "key \<noteq> []"
  shows "\<exists>h'. hashtable_find (Some h) (Some key) True =
             Some (if ht_map h key = None then -2 else 0, Some h', ht_map h key) \<and>
           ht_inv h' \<and> cmp h' = cmp h \<and> ht_map h' = ht_map h"
proof -
  obtain ret h1 r where s: "hashtable_search (Some h) (Some key) = Some (ret, Some h1, r)"
    "ht_inv h1" "mset (ht_elems h1) = mset (ht_elems h)" "cmp h1 = cmp h"
    "case ht_map h key of None \<Rightarrow> ret = -2 \<and> r = None \<and> h1 = h
      | Some v \<Rightarrow> ret = 0 \<and> (\<exists>e. r = Some e \<and> ekey e = key \<and> evalue e = v \<and>
          e \<in> set (table_elems (hd (tables h1))))"
    using ht_search_ok [OF inv c key] by blast
  have "ht_map h1 = ht_map h" using ht_map_cong [OF _ s(3)] inv by (simp add: ht_inv_def)
  then show ?thesis using s by (cases "ht_map h key") (auto simp: hashtable_find_def)
qed

lemma release_ok:
  assumes "\<forall>t \<in> set ts. table_inv t"
  shows "\<exists>bs. hashtable_free_loop n ts = Some bs \<and>
           mset bs = mset (map (ElemBlock \<circ> eaddr) (concat (map table_elems ts))) +
             mset (map TableBlock [n ..< n + length ts])"
  using assms
proof (induction ts arbitrary: n)
  case (Cons t ts)
  have "\<forall>t \<in> set ts. table_inv t" using Cons.prems by simp
  from Cons.IH [OF this, of "Suc n"] obtain bs where bs: "hashtable_free_loop (Suc n) ts = Some bs"
      "mset bs = mset (map (ElemBlock \<circ> eaddr) (concat (map table_elems ts))) +
         mset (map TableBlock [Suc n ..< Suc n + length ts])"
    by blast
  have "length (bucket t) = tsize t" using Cons.prems by (simp add: table_inv_def)
  then have "hashtable_release_table n t = Some (map (ElemBlock \<circ> eaddr) (table_elems t) @ [TableBlock n])"
    by (simp add: hashtable_release_table_def table_elems_def)
  moreover have "[n ..< n + length (t # ts)] = n # [Suc n ..< Suc n + length ts]"
    by (simp add: upt_conv_Cons del: upt_Suc)
  ultimately show ?case using bs by (simp del: upt_Suc add: comp_def)
qed simp

lemma table_numbers_sum:
  "sum_list (map tnumber ts) < 2 ^ 32 \<Longrightarrow> table_numbers ts = sum_list (map tnumber ts)"
  by (induction ts) (simp_all add: u4_add_small)

lemma ht_elems_keys:
  assumes "ht_inv h"
  shows "card (dom (ht_map h)) = sum_list (map tnumber (tables h))"
proof -
  have d: "distinct (map ekey (ht_elems h))" using assms by (simp add: ht_inv_def)
  have "dom (ht_map h) = set (map ekey (ht_elems h))"
    unfolding ht_map_def by (simp add: dom_map_of_conv_image_fst entry_def image_image)
  then have "card (dom (ht_map h)) = length (ht_elems h)"
    using distinct_card [OF d] by simp
  also have "\<dots> = sum_list (map (\<lambda>t. length (table_elems t)) (tables h))"
    by (simp add: ht_elems_def length_concat comp_def)
  also have "\<dots> = sum_list (map tnumber (tables h))"
    using assms by (intro arg_cong [where f = sum_list] map_cong) (auto simp: ht_inv_def table_inv_def)
  finally show ?thesis .
qed

text \<open>The table is a dictionary, for every behaviour of the allocator.\<close>

definition ht_state :: "hashtable_t option \<Rightarrow> bool" where
  "ht_state s = (case s of None \<Rightarrow> False | Some h \<Rightarrow> ht_inv h \<and> cmp_eq (cmp h))"

definition ht_abs :: "hashtable_t option \<Rightarrow> u1 list \<Rightarrow> u1 list option" where
  "ht_abs s = (case s of None \<Rightarrow> Map.empty | Some h \<Rightarrow> ht_map h)"

definition ht_can_insert :: "hashtable_t option \<Rightarrow> u1 list \<Rightarrow> u1 list \<Rightarrow> bool" where
  "ht_can_insert s key val = (case s of None \<Rightarrow> False | Some h \<Rightarrow> val \<noteq> [] \<and> expand_fits h)"

interpretation hd: dictionary ht_state ht_abs "\<lambda>key. key \<noteq> []" ht_can_insert
  "\<lambda>s key. hashtable_find s (Some key) True"
  "\<lambda>s key val. hashtable_insert mal s (Some key) (Some val)"
  "\<lambda>s key. hashtable_erase s (Some key)"
  for mal
proof (unfold_locales, goal_cases)
  case (1 s k)
  then obtain h where h: "s = Some h" "ht_inv h" "cmp_eq (cmp h)"
    by (auto simp: ht_state_def split: option.splits)
  show ?case using ht_find_ok [OF h(2,3) 1(2)] h by (auto simp: ht_state_def ht_abs_def)
next
  case (2 s k v)
  then obtain h where h: "s = Some h" "ht_inv h" "cmp_eq (cmp h)" "v \<noteq> []" "expand_fits h"
    by (auto simp: ht_state_def ht_can_insert_def split: option.splits)
  obtain ret h' where "hashtable_insert mal (Some h) (Some k) (Some v) = Some (ret, Some h')"
      "ht_inv h'" "cmp h' = cmp h"
      "if ht_map h k = None
       then (if mal (32 + length k + length v) then ret = 0 \<and> ht_map h' = (ht_map h)(k \<mapsto> v)
             else ret = -2 \<and> ht_map h' = ht_map h)
       else ret = -3 \<and> ht_map h' = ht_map h"
    using ht_insert_ok [OF h(2,3) 2(2) h(4,5), of mal] by blast
  then show ?case using h by (auto simp: ht_state_def ht_abs_def split: if_splits)
next
  case (3 s k)
  then obtain h where h: "s = Some h" "ht_inv h" "cmp_eq (cmp h)"
    by (auto simp: ht_state_def split: option.splits)
  show ?case using ht_erase_ok [OF h(2,3) 3(2)] h by (auto simp: ht_state_def ht_abs_def)
qed

section \<open>Properties\<close>

text \<open>A table of two generations: the key \<open>[1]\<close> in the old one, \<open>[2]\<close> in the new one.\<close>

definition byte_cmp :: "u1 list \<Rightarrow> u1 list \<Rightarrow> int" where
  "byte_cmp a b = (if a = b then 0 else 1)"

lemma byte_cmp_eq: "cmp_eq byte_cmp"
  by (simp add: cmp_eq_def byte_cmp_def)

definition two_tables :: hashtable_t where
  "two_tables = \<lparr>cmp = byte_cmp,
     tables =
       [(new_table 11)\<lparr>tnumber := 1, bucket := (bucket (new_table 11))[hash_pos [2] mod 11 :=
           [\<lparr>eaddr = 2, ekey = [2], evalue = [20, 21]\<rparr>]]\<rparr>,
        (new_table 7)\<lparr>tnumber := 1, bucket := (bucket (new_table 7))[hash_pos [1] mod 7 :=
           [\<lparr>eaddr = 1, ekey = [1], evalue = [10]\<rparr>]]\<rparr>],
     ht_brk = 3\<rparr>"

lemma two_tables_buckets:
  "new_table 11 = \<lparr>tsize = 11, tnumber = 0, bucket = replicate 11 []\<rparr>"
  "new_table 7 = \<lparr>tsize = 7, tnumber = 0, bucket = replicate 7 []\<rparr>"
  "hash_pos [1] = 1" "hash_pos [2] = 2"
  by (simp_all add: new_table_def table_length_def u8_of_def hash_pos_def bkdr64_def)

lemma concat_single: "i < n \<Longrightarrow> concat ((replicate n [])[i := b]) = b"
  by (induction n arbitrary: i) (auto split: nat.splits)

lemma two_tables_elems:
  "ht_elems two_tables = [\<lparr>eaddr = 2, ekey = [2], evalue = [20, 21]\<rparr>, \<lparr>eaddr = 1, ekey = [1], evalue = [10]\<rparr>]"
  unfolding two_tables_def two_tables_buckets by (simp add: ht_elems_def table_elems_def concat_single)

lemma two_tables_inv: "ht_inv two_tables"
proof -
  have "\<forall>t \<in> set (tables two_tables). table_inv t"
    unfolding two_tables_def two_tables_buckets
    by (auto simp: table_inv_def table_elems_def nth_list_update two_tables_buckets concat_single
        split: if_splits)
  then show ?thesis
    by (simp add: ht_inv_def two_tables_elems) (simp add: two_tables_def)
qed

lemma two_tables_map: "ht_map two_tables = [[1] \<mapsto> [10], [2] \<mapsto> [20, 21]]"
  by (auto simp: ht_map_def two_tables_elems entry_def)

lemma two_tables_fit: "expand_fits two_tables"
proof -
  have "u8_next_prime 44 = 47" by code_simp
  then show ?thesis
    by (simp add: two_tables_def two_tables_buckets expand_fits_def expand_size_def u8_of_def)
qed

lemmas two_tables_facts = two_tables_inv two_tables_map two_tables_fit byte_cmp_eq

lemma two_tables_cmp: "cmp two_tables = byte_cmp"
  by (simp add: two_tables_def)

text \<open>
  C16. \<open>hashtable_insert\<close>, on every branch: a new key is added and nothing else changes; an existing
  key is refused with -3 and keeps its value; without memory for the element the answer is -2 and
  the map is unchanged, whether or not the table was expanded first. The invariant is kept.
\<close>

theorem hashtable_insert_spec:
  assumes "ht_inv h" "cmp_eq (cmp h)" "key \<noteq> []" "val \<noteq> []" "expand_fits h"
  shows "\<exists>ret h'. hashtable_insert mal (Some h) (Some key) (Some val) = Some (ret, Some h') \<and>
           ht_inv h' \<and> cmp h' = cmp h \<and>
           (if ht_map h key = None
            then (if mal (32 + length key + length val)
                  then ret = 0 \<and> ht_map h' = (ht_map h)(key \<mapsto> val)
                  else ret = -2 \<and> ht_map h' = ht_map h)
            else ret = -3 \<and> ht_map h' = ht_map h)"
  using ht_insert_ok [OF assms] .

theorem hashtable_insert_spec_witness:
  "(\<exists>h'. hashtable_insert (\<lambda>n. True) (Some two_tables) (Some [3]) (Some [30]) = Some (0, Some h') \<and>
     ht_inv h' \<and> ht_map h' [3] = Some [30]) \<and>
   (\<exists>h'. hashtable_insert (\<lambda>n. True) (Some two_tables) (Some [1]) (Some [30]) = Some (-3, Some h') \<and>
     ht_map h' [1] = Some [10])"
  using hashtable_insert_spec [of two_tables "[3]" "[30]" "\<lambda>n. True"]
    hashtable_insert_spec [of two_tables "[1]" "[30]" "\<lambda>n. True"]
  by (auto simp: two_tables_facts two_tables_cmp)

text \<open>
  C7. What a client of the table sees: after a successful insertion a lookup of any key gives the
  new value for that key and what was there before for the others, a second insertion of the key
  is refused without a change, and erasing the key gives the old map back.
\<close>

theorem hashtable_dictionary:
  assumes "ht_inv h" "cmp_eq (cmp h)" "key \<noteq> []" "val \<noteq> []" "expand_fits h"
    and ins: "hashtable_insert mal (Some h) (Some key) (Some val) = Some (0, s)"
  shows "(\<forall>j. j \<noteq> [] \<longrightarrow> (\<exists>c t. hashtable_find s (Some j) True =
             Some (c, t, if j = key then Some val else ht_map h j))) \<and>
         (\<exists>t. hashtable_erase s (Some key) = Some (0, Some t) \<and> ht_inv t \<and> ht_map t = ht_map h)"
proof -
  have st: "ht_state (Some h)" "ht_can_insert (Some h) key val" "ht_abs (Some h) = ht_map h"
    using assms by (simp_all add: ht_state_def ht_can_insert_def ht_abs_def)
  obtain t where t: "hashtable_erase s (Some key) = Some (0, t)" "ht_state t" "ht_abs t = ht_map h"
    using hd.insert_erase [OF st(1) assms(3) st(2) ins] st(3) by auto
  then obtain h' where "t = Some h'" "ht_inv h'" "ht_map h' = ht_map h"
    by (auto simp: ht_state_def ht_abs_def split: option.splits)
  moreover have "\<exists>c t. hashtable_find s (Some j) True = Some (c, t, if j = key then Some val else ht_map h j)"
    if "j \<noteq> []" for j
    using hd.find_after_insert [OF st(1) assms(3) that st(2) ins] unfolding st(3) .
  ultimately show ?thesis using t(1) by blast
qed

theorem hashtable_dictionary_witness:
  "\<exists>s. hashtable_insert (\<lambda>n. True) (Some two_tables) (Some [3]) (Some [30]) = Some (0, s) \<and>
     (\<exists>c t. hashtable_find s (Some [1]) True = Some (c, t, Some [10])) \<and>
     (\<exists>t. hashtable_erase s (Some [3]) = Some (0, Some t) \<and> ht_map t = ht_map two_tables)"
proof -
  obtain s where s: "hashtable_insert (\<lambda>n. True) (Some two_tables) (Some [3]) (Some [30]) = Some (0, s)"
    using ht_insert_ok [of two_tables "[3]" "[30]" "\<lambda>n. True"]
    by (auto simp: two_tables_facts two_tables_cmp)
  have "\<exists>c t. hashtable_find s (Some [1]) True = Some (c, t, Some [10])"
    using hashtable_dictionary [of two_tables "[3]" "[30]" "\<lambda>n. True" s] s
    by (auto simp: two_tables_facts two_tables_cmp dest: spec [of _ "[1]"])
  moreover have "\<exists>t. hashtable_erase s (Some [3]) = Some (0, Some t) \<and> ht_map t = ht_map two_tables"
    using hashtable_dictionary [of two_tables "[3]" "[30]" "\<lambda>n. True" s] s
    by (auto simp: two_tables_facts two_tables_cmp)
  ultimately show ?thesis using s by blast
qed

text \<open>
  C6. \<open>hashtable_search\<close> finds a key in whichever generation of tables holds it, and answers -2 without a change when none
  does. The elements of the table and its map are the same before and after. When the key is in the first table nothing changes. When it is in
  an old one, the whole bucket of the key leaves that table and joins the first one, where \<open>hashtable_erase\<close> and \<open>hashtable_update\<close> look for
  it; the old table is otherwise as it was, or, when no element is left in it, gone from the list; the other tables are untouched.
\<close>

theorem hashtable_search_spec:
  assumes "ht_inv h" "cmp_eq (cmp h)" "key \<noteq> []"
  shows "\<exists>ret h' r. hashtable_search (Some h) (Some key) = Some (ret, Some h', r) \<and>
           ht_inv h' \<and> mset (ht_elems h') = mset (ht_elems h) \<and> ht_map h' = ht_map h \<and>
           map_option evalue r = ht_map h key \<and> ret = (if r = None then -2 else 0) \<and>
           (\<forall>e. r = Some e \<longrightarrow> ekey e = key \<and> e \<in> set (table_elems (hd (tables h')))) \<and>
           (r = None \<or> key \<in> ekey ` set (table_elems (hd (tables h))) \<longrightarrow> h' = h) \<and>
           (\<forall>n t i. n < length (tl (tables h)) \<and> t = tl (tables h) ! n \<and> key \<in> ekey ` set (table_elems t) \<and> i = hash_pos key mod tsize t \<longrightarrow>
              mset (table_elems (hd (tables h'))) = mset (table_elems (hd (tables h))) + mset (bucket t ! i) \<and>
              tl (tables h') = (if table_elems (emptied t i) = [] then take n (tl (tables h)) @ drop (Suc n) (tl (tables h))
                                else (tl (tables h))[n := emptied t i]))"
proof -
  obtain ret h1 r where s: "hashtable_search (Some h) (Some key) = Some (ret, Some h1, r)"
    "ht_inv h1" "mset (ht_elems h1) = mset (ht_elems h)"
    "case ht_map h key of None \<Rightarrow> ret = -2 \<and> r = None \<and> h1 = h
      | Some v \<Rightarrow> ret = 0 \<and> (\<exists>e. r = Some e \<and> ekey e = key \<and> evalue e = v \<and>
          e \<in> set (table_elems (hd (tables h1))))"
    using ht_search_ok [OF assms] by blast
  have ne: "tables h \<noteq> []" using assms(1) by (simp add: ht_inv_def)
  have "ht_map h1 = ht_map h" using ht_map_cong [OF _ s(3)] assms(1) by (simp add: ht_inv_def)
  moreover have "h1 = h" if "r = None" using s(4) that by (cases "ht_map h key") auto
  moreover have "h1 = h" if k: "key \<in> ekey ` set (table_elems (hd (tables h)))"
  proof -
    obtain e where "search_tables (cmp h) key 0 (tables h) = Some (Some (0, e))"
      using ht_search_found [OF assms(1,2), of 0] k ne by (auto simp: hd_conv_nth)
    then show ?thesis using s(1) assms(3) by (simp add: hashtable_search_def)
  qed
  moreover have "mset (table_elems (hd (tables h1))) = mset (table_elems (hd (tables h))) + mset (bucket t ! i) \<and>
      tl (tables h1) = (if table_elems (emptied t i) = [] then take n (tl (tables h)) @ drop (Suc n) (tl (tables h))
                        else (tl (tables h))[n := emptied t i])"
    if "n < length (tl (tables h)) \<and> t = tl (tables h) ! n \<and> key \<in> ekey ` set (table_elems t) \<and> i = hash_pos key mod tsize t" for n t i
    using ht_search_moves [OF assms, of n t] that s(1) by auto
  ultimately show ?thesis using s by (intro exI [of _ ret] exI [of _ h1] exI [of _ r]) (cases "ht_map h key", auto)
qed

theorem hashtable_search_spec_witness:
  "length (tables two_tables) = 2 \<and>
   (\<exists>h' r. hashtable_search (Some two_tables) (Some [1]) = Some (0, Some h', Some r) \<and>
      evalue r = [10] \<and> ht_map h' = ht_map two_tables \<and> tl (tables h') = [])"
proof -
  let ?t = "\<lparr>tsize = 7, tnumber = 1, bucket = (replicate 7 [])[1 := [\<lparr>eaddr = 1, ekey = [1], evalue = [10]\<rparr>]]\<rparr>"
  have tl: "tl (tables two_tables) = [?t]" "length (tables two_tables) = 2" by (simp_all add: two_tables_def two_tables_buckets)
  have k: "0 < length (tl (tables two_tables)) \<and> ?t = tl (tables two_tables) ! 0 \<and> [1] \<in> ekey ` set (table_elems ?t) \<and>
      1 = hash_pos [1] mod tsize ?t"
    unfolding tl by (simp add: table_elems_def two_tables_buckets concat_single)
  have e: "table_elems (emptied ?t 1) = []" by (simp add: table_elems_def emptied_def concat_single)
  have c: "cmp_eq (cmp two_tables)" "[1] \<noteq> ([] :: u1 list)" using byte_cmp_eq two_tables_cmp by simp_all
  obtain ret h' r where s: "hashtable_search (Some two_tables) (Some [1]) = Some (ret, Some h', r)" "ht_map h' = ht_map two_tables"
      "map_option evalue r = ht_map two_tables [1]" "ret = (if r = None then -2 else 0)"
      "\<forall>n t i. n < length (tl (tables two_tables)) \<and> t = tl (tables two_tables) ! n \<and> [1] \<in> ekey ` set (table_elems t) \<and> i = hash_pos [1] mod tsize t \<longrightarrow>
         mset (table_elems (hd (tables h'))) = mset (table_elems (hd (tables two_tables))) + mset (bucket t ! i) \<and>
         tl (tables h') = (if table_elems (emptied t i) = [] then take n (tl (tables two_tables)) @ drop (Suc n) (tl (tables two_tables))
                           else (tl (tables two_tables))[n := emptied t i])"
    using hashtable_search_spec [OF two_tables_inv c] by blast
  have "tl (tables h') = []" using s(5) [rule_format, OF k] e tl(1) by simp
  then show ?thesis using s(1-4) tl(2) two_tables_map by (intro conjI exI [of _ h'] exI [of _ "the r"]) auto
qed

text \<open>
  \<open>hashtable_update\<close> replaces the value of a key that is there, whether the new value is written
  in place or the element is reallocated, and answers -2 with the map unchanged for a key that is
  not there. It holds when \<open>REALLOC\<close> succeeds and 32 bits hold the length of the element.
\<close>

theorem hashtable_update_spec:
  assumes "ht_inv h" "cmp_eq (cmp h)" "key \<noteq> []" "val \<noteq> []" "\<And>n. remal n"
    "32 + length key + length val < 2 ^ 32"
  shows "\<exists>h'. hashtable_update mal remal (Some h) (Some key) (Some val) =
             Some (if ht_map h key = None then -2 else 0, Some h') \<and> ht_inv h' \<and> cmp h' = cmp h \<and>
           ht_map h' = (if ht_map h key = None then ht_map h else (ht_map h)(key \<mapsto> val))"
  using ht_update_ok [OF assms] .

theorem hashtable_update_spec_witness:
  "\<exists>h'. hashtable_update (\<lambda>n. True) (\<lambda>n. True) (Some two_tables) (Some [1]) (Some [7, 8, 9]) =
      Some (0, Some h') \<and> ht_inv h' \<and> ht_map h' [1] = Some [7, 8, 9] \<and> ht_map h' [2] = Some [20, 21]"
  using hashtable_update_spec [of two_tables "[1]" "[7, 8, 9]" "\<lambda>n. True" "\<lambda>n. True"]
  by (auto simp: two_tables_facts two_tables_cmp)

text \<open>
  \<open>hashtable_update\<close> with a value that is not shorter than the old one and a \<open>REALLOC\<close> that fails:
  the code falls back to \<open>ALLOC\<close> and reads the old element through the pointer that \<open>REALLOC\<close> has
  just overwritten with \<open>nil\<close>. The call does not return.
\<close>

theorem hashtable_update_faults:
  assumes "ht_inv h" "cmp_eq (cmp h)" "key \<noteq> []" "val \<noteq> []" "ht_map h key = Some old"
    "length old \<le> length val" "\<And>n. \<not> remal n" "\<And>n. mal n"
  shows "hashtable_update mal remal (Some h) (Some key) (Some val) = None"
proof -
  obtain h1 e where s: "hashtable_search (Some h) (Some key) = Some (0, Some h1, Some e)"
    "ht_inv h1" "ekey e = key" "evalue e = old" "e \<in> set (table_elems (hd (tables h1)))"
    using ht_search_ok [OF assms(1-3)] assms(5) by auto
  note fb = first_bucket [OF s(2,5), unfolded s(3)]
  show ?thesis using assms(3-8) s(1,4) fb(1,3) by (auto simp: hashtable_update_def Let_def bucket_at_def)
qed

theorem hashtable_update_faults_witness:
  "hashtable_update (\<lambda>n. True) (\<lambda>n. False) (Some two_tables) (Some [1]) (Some [11]) = None"
  using hashtable_update_faults [of two_tables "[1]" "[11]" "[10]" "\<lambda>n. False" "\<lambda>n. True"]
  by (auto simp: two_tables_facts two_tables_cmp)

text \<open>
  \<open>hashtable_free\<close> gives every element, every table and the head back to the allocator exactly
  once, and sets the handle to \<open>nil\<close>, so that a second call is refused with -1.
\<close>

theorem hashtable_free_once:
  assumes "ht_inv h"
  shows "\<exists>bs. hashtable_free (Some h) = Some (0, bs, None) \<and> distinct bs \<and>
           set bs = ElemBlock ` eaddr ` set (ht_elems h) \<union> TableBlock ` {..< length (tables h)} \<union> {HeadBlock} \<and>
           hashtable_free None = Some (-1, [], None)"
proof -
  have ti: "\<forall>t \<in> set (tables h). table_inv t" and d: "distinct (map eaddr (ht_elems h))"
    using assms by (auto simp: ht_inv_def)
  obtain bs where bs: "hashtable_free_loop 0 (tables h) = Some bs"
    "mset bs = mset (map (ElemBlock \<circ> eaddr) (ht_elems h) @ map TableBlock [0 ..< length (tables h)])"
    using release_ok [OF ti, of 0] by (auto simp: ht_elems_def)
  have "distinct (map ElemBlock (map eaddr (ht_elems h)))"
    using d by (subst distinct_map) (auto simp: inj_on_def)
  moreover have "distinct (map TableBlock [0 ..< length (tables h)])"
    by (subst distinct_map) (auto simp: inj_on_def)
  ultimately have "distinct (map (ElemBlock \<circ> eaddr) (ht_elems h) @ map TableBlock [0 ..< length (tables h)])"
    by auto
  then have ds: "distinct bs" using mset_eq_imp_distinct_iff [OF bs(2)] by blast
  have st: "set bs = ElemBlock ` eaddr ` set (ht_elems h) \<union> TableBlock ` {..< length (tables h)}"
    using mset_eq_setD [OF bs(2)] by (auto simp: image_image lessThan_atLeast0)
  then have "HeadBlock \<notin> set bs" by auto
  then show ?thesis using bs(1) ds st by (auto simp: hashtable_free_def)
qed

theorem hashtable_free_once_witness:
  "\<exists>bs. hashtable_free (Some two_tables) = Some (0, bs, None) \<and> distinct bs"
  using hashtable_free_once [of two_tables] two_tables_inv by blast

text \<open>
  \<open>hashtable_size\<close> counts the keys over all generations of tables, as long as 32 bits hold the
  number, and \<open>hashtable_init\<close> gives a table without keys.
\<close>

theorem hashtable_size_spec:
  assumes "ht_inv h" "card (dom (ht_map h)) < 2 ^ 32"
  shows "hashtable_size (Some h) True = (0, Some (card (dom (ht_map h))))"
  using assms table_numbers_sum [of "tables h"] by (simp add: hashtable_size_def ht_elems_keys)

theorem hashtable_size_spec_witness:
  "hashtable_size (Some two_tables) True = (0, Some 2)"
proof -
  have "card (dom (ht_map two_tables)) = 2" by (simp add: two_tables_facts)
  then show ?thesis using hashtable_size_spec [of two_tables] by (simp add: two_tables_facts)
qed

end
