(* ===== verification/Lisk_List.thy ===== *)
theory Lisk_List
  imports Lisk_Prelude "HOL-Library.Monad_Syntax"
begin

text \<open>
  The doubly linked list of \<open>win_lisk/src/lisk_list.c\<close>: a ring of nodes through a header, where the
  caller holds pointers to the payload (\<open>list_elem\<close>) that follows each node (\<open>list_node\<close>).

  \<^item> The store maps the address of a node to its two links and its payload. Addresses are 64 bit
    words, \<open>0\<close> is \<open>nil\<close>, and \<open>uw\<close>, in which the code compares pointers with its two magic numbers, is
    as wide as a pointer. Reading, writing or freeing an address without a node is a fault,
    \<open>None\<close>; so is a loop that does not end.
  \<^item> \<open>ans\<close> is what \<open>ALLOC\<close> answers: \<open>None\<close> for \<open>nil\<close>, otherwise the address of a block. The theorems ask
    that it is not the address of a live node, not \<open>nil\<close>, and not the odd number \<open>PREV_MAGIC\<close>.
  \<^item> An element that the caller passes in is a pointer with the bytes it points to and the two
    words in front of them, which \<open>list_check_magic\<close> reads whether or not they belong to a node.

  \<open>dll h a ns\<close> says that the nodes \<open>ns\<close> are a list with the header \<open>a\<close>. Every operation is shown to
  change the sequence \<open>ns\<close> as it should and no node outside it.
\<close>

section \<open>State\<close>

record list_node_t =
  prev :: u8
  "next" :: u8
  data :: "u1 list"

type_synonym heap = "u8 \<Rightarrow> list_node_t option"

record elem_t =
  eptr :: u8
  ehead :: "u8 \<times> u8"
  ebytes :: "u1 list"

abbreviation (input) nil :: u8 where "nil \<equiv> 0"
abbreviation (input) PREV_MAGIC :: u8 where "PREV_MAGIC \<equiv> 0x20131203205112AB"
abbreviation (input) NEXT_MAGIC :: u8 where "NEXT_MAGIC \<equiv> 0xBA21150230213102"

datatype ELIST_ERASE_FLAG = ELIST_ERASE_PART | ELIST_ERASE_FULL

text \<open>Stores through a node pointer.\<close>

definition set_next :: "heap \<Rightarrow> u8 \<Rightarrow> u8 \<Rightarrow> heap option" where
  "set_next h p v = map_option (\<lambda>nd. h(p \<mapsto> nd\<lparr>next := v\<rparr>)) (h p)"

definition set_prev :: "heap \<Rightarrow> u8 \<Rightarrow> u8 \<Rightarrow> heap option" where
  "set_prev h p v = map_option (\<lambda>nd. h(p \<mapsto> nd\<lparr>prev := v\<rparr>)) (h p)"

section \<open>Operations\<close>

definition list_node :: "u8 \<Rightarrow> u8" where
  "list_node elem = elem - 16"

definition list_elem :: "u8 \<Rightarrow> u8" where
  "list_elem node_ptr = node_ptr + 16"

definition list_prev_elem :: "heap \<Rightarrow> u8 \<Rightarrow> u8 option" where
  "list_prev_elem h elem =
     (let node_ptr = list_node elem in
      if node_ptr \<noteq> nil then do { nd \<leftarrow> h node_ptr; Some (list_elem (prev nd)) }
      else Some nil)"

definition list_next_elem :: "heap \<Rightarrow> u8 \<Rightarrow> u8 option" where
  "list_next_elem h elem =
     (let node_ptr = list_node elem in
      if node_ptr \<noteq> nil then do { nd \<leftarrow> h node_ptr; Some (list_elem (next nd)) }
      else Some nil)"

definition list_rprev_elem :: "heap \<Rightarrow> u8 \<Rightarrow> u8 option" where
  "list_rprev_elem h elem = list_next_elem h elem"

definition list_rnext_elem :: "heap \<Rightarrow> u8 \<Rightarrow> u8 option" where
  "list_rnext_elem h elem = list_prev_elem h elem"

definition list_empty :: "heap \<Rightarrow> u8 \<Rightarrow> n4 option" where
  "list_empty h list =
     (if list = nil then Some 0
      else let head = list_node list in
        if head = nil then Some 0
        else do {
          nd \<leftarrow> h head;
          if next nd = head then Some 0 else Some (-1) })"

definition list_first :: "heap \<Rightarrow> u8 \<Rightarrow> u8 option" where
  "list_first h list = do {
     ret \<leftarrow> list_empty h list;
     if ret = 0 then Some nil
     else let head = list_node list in
       if head \<noteq> nil then do { nd \<leftarrow> h head; Some (list_elem (next nd)) }
       else Some nil }"

definition list_last :: "heap \<Rightarrow> u8 \<Rightarrow> u8 option" where
  "list_last h list = do {
     ret \<leftarrow> list_empty h list;
     if ret = 0 then Some nil
     else let head = list_node list in
       if head \<noteq> nil then do { nd \<leftarrow> h head; Some (list_elem (prev nd)) }
       else Some nil }"

text \<open>
  \<open>list_node_alloc\<close> with the bytes to copy, or \<open>None\<close> for \<open>nil\<close> (the payload of the block is then
  whatever it holds, \<open>fill\<close>). A negative length makes a block too small for a node, and a length
  beyond the bytes of the element reads past it: both are faults.
\<close>

definition list_node_alloc :: "heap \<Rightarrow> u8 option \<Rightarrow> u1 list \<Rightarrow> u1 list option \<Rightarrow> int \<Rightarrow> (u8 \<times> heap) option" where
  "list_node_alloc h ans fill elem elem_len =
     (case ans of
        None \<Rightarrow> Some (nil, h)
      | Some node \<Rightarrow>
          if elem_len < 0 then None
          else
            (case elem of
               None \<Rightarrow> Some (node, h(node \<mapsto> \<lparr>prev = node, next = node, data = fill\<rparr>))
             | Some bytes \<Rightarrow>
                 if length bytes < nat elem_len then None
                 else Some (node, h(node \<mapsto>
                   \<lparr>prev = node, next = node, data = take (nat elem_len) bytes\<rparr>))))"

definition list_node_dealloc :: "heap \<Rightarrow> u8 \<Rightarrow> heap option" where
  "list_node_dealloc h node =
     (if node = nil then Some h else do { nd \<leftarrow> h node; Some (h(node := None)) })"

definition list_elem_dealloc :: "heap \<Rightarrow> u8 \<Rightarrow> heap option" where
  "list_elem_dealloc h elem = list_node_dealloc h (list_node elem)"

text \<open>The two words in front of an element: those of its node, or what the caller's memory holds.\<close>

definition elem_links :: "heap \<Rightarrow> elem_t \<Rightarrow> u8 \<times> u8" where
  "elem_links h elem =
     (case h (list_node (eptr elem)) of Some nd \<Rightarrow> (prev nd, next nd) | None \<Rightarrow> ehead elem)"

definition list_check_magic :: "heap \<Rightarrow> elem_t \<Rightarrow> n4" where
  "list_check_magic h elem = (if elem_links h elem = (PREV_MAGIC, NEXT_MAGIC) then 0 else -1)"

definition list_init :: "heap \<Rightarrow> u8 option \<Rightarrow> u1 list \<Rightarrow> bool \<Rightarrow> (n4 \<times> heap \<times> u8 option) option" where
  "list_init h ans fill list_pptr =
     (if \<not> list_pptr then Some (-1, h, None)
      else do {
        (list, h) \<leftarrow> list_node_alloc h ans fill None 8;
        if list = nil then Some (-2, h, None)
        else do {
          h \<leftarrow> set_prev h list list;
          h \<leftarrow> set_next h list list;
          Some (0, h, Some (list_elem list)) } })"

text \<open>
  The node that an insertion links in: an erased node of this library is used again, anything else
  is copied into a new node. The flag is 0 for a node that is used again.
\<close>

definition take_node :: "heap \<Rightarrow> u8 option \<Rightarrow> elem_t \<Rightarrow> int \<Rightarrow> (int \<times> u8 \<times> heap) option" where
  "take_node h ans elem elem_len =
     (if list_check_magic h elem = 0 then Some (0, list_node (eptr elem), h)
      else do {
        (node, h) \<leftarrow> list_node_alloc h ans [] (Some (ebytes elem)) elem_len;
        Some (-1, node, h) })"

definition list_insert_front :: "heap \<Rightarrow> u8 option \<Rightarrow> u8 \<Rightarrow> elem_t \<Rightarrow> int \<Rightarrow> (u8 \<times> heap) option" where
  "list_insert_front h ans cur elem elem_len =
     (if cur = nil \<or> eptr elem = nil \<or> elem_len \<le> 0 then Some (nil, h)
      else do {
        (flag, node, h) \<leftarrow> take_node h ans elem elem_len;
        if node = nil then Some (nil, h)
        else let cur_node = list_node cur in
          if cur_node = nil then do {
            h \<leftarrow> (if flag = 0 then list_node_dealloc h node else Some h);
            Some (nil, h) }
          else do {
            cn \<leftarrow> h cur_node;
            let prev_node = prev cn;
            h \<leftarrow> set_next h node cur_node;
            h \<leftarrow> set_prev h node prev_node;
            h \<leftarrow> set_next h prev_node node;
            h \<leftarrow> set_prev h cur_node node;
            Some (list_elem node, h) } })"

definition list_insert_back :: "heap \<Rightarrow> u8 option \<Rightarrow> u8 \<Rightarrow> elem_t \<Rightarrow> int \<Rightarrow> (u8 \<times> heap) option" where
  "list_insert_back h ans cur elem elem_len =
     (if cur = nil \<or> eptr elem = nil \<or> elem_len = 0 then Some (nil, h)
      else do {
        (flag, node, h) \<leftarrow> take_node h ans elem elem_len;
        if node = nil then Some (nil, h)
        else let cur_node = list_node cur in
          if cur_node = nil then do {
            h \<leftarrow> (if flag = 0 then list_node_dealloc h node else Some h);
            Some (nil, h) }
          else do {
            cn \<leftarrow> h cur_node;
            let next_node = next cn;
            h \<leftarrow> set_next h node next_node;
            h \<leftarrow> set_prev h node cur_node;
            h \<leftarrow> set_prev h next_node node;
            h \<leftarrow> set_next h cur_node node;
            Some (list_elem node, h) } })"

text \<open>The common first half of both moves: the node leaves the list it is in.\<close>

definition move_unlink :: "heap \<Rightarrow> u8 \<Rightarrow> heap option" where
  "move_unlink h src_node = do {
     sn \<leftarrow> h src_node;
     h \<leftarrow> set_next h (prev sn) (next sn);
     sn \<leftarrow> h src_node;
     h \<leftarrow> set_prev h (next sn) (prev sn);
     h \<leftarrow> set_prev h src_node nil;
     set_next h src_node nil }"

definition list_move_front :: "heap \<Rightarrow> u8 \<Rightarrow> u8 \<Rightarrow> (n4 \<times> heap) option" where
  "list_move_front h dst_elem src_elem =
     (if src_elem = nil \<or> dst_elem = nil then Some (-1, h)
      else let src_node = list_node src_elem; dst_node = list_node dst_elem in
        if src_node = nil \<or> dst_node = nil then Some (-1, h)
        else do {
          h \<leftarrow> move_unlink h src_node;
          h \<leftarrow> set_next h src_node dst_node;
          dn \<leftarrow> h dst_node;
          h \<leftarrow> set_prev h src_node (prev dn);
          dn \<leftarrow> h dst_node;
          h \<leftarrow> set_next h (prev dn) src_node;
          h \<leftarrow> set_prev h dst_node src_node;
          Some (0, h) })"

definition list_move_back :: "heap \<Rightarrow> u8 \<Rightarrow> u8 \<Rightarrow> (n4 \<times> heap) option" where
  "list_move_back h dst_elem src_elem =
     (if src_elem = nil \<or> dst_elem = nil then Some (-1, h)
      else let src_node = list_node src_elem; dst_node = list_node dst_elem in do {
          h \<leftarrow> move_unlink h src_node;
          dn \<leftarrow> h dst_node;
          h \<leftarrow> set_next h src_node (next dn);
          h \<leftarrow> set_prev h src_node dst_node;
          dn \<leftarrow> h dst_node;
          h \<leftarrow> set_prev h (next dn) src_node;
          h \<leftarrow> set_next h dst_node src_node;
          Some (0, h) })"

definition list_push_front :: "heap \<Rightarrow> u8 option \<Rightarrow> u8 \<Rightarrow> elem_t \<Rightarrow> int \<Rightarrow> (u8 \<times> heap) option" where
  "list_push_front h ans list elem elem_len = list_insert_back h ans list elem elem_len"

definition list_push_back :: "heap \<Rightarrow> u8 option \<Rightarrow> u8 \<Rightarrow> elem_t \<Rightarrow> int \<Rightarrow> (u8 \<times> heap) option" where
  "list_push_back h ans list elem elem_len = list_insert_front h ans list elem elem_len"

text \<open>\<open>list_erase\<close> reads the links of its node; the element is one of the store.\<close>

definition list_erase :: "heap \<Rightarrow> u8 \<Rightarrow> u8 \<Rightarrow> ELIST_ERASE_FLAG \<Rightarrow> (u8 \<times> heap) option" where
  "list_erase h list elem flag =
     (if elem = nil then Some (nil, h)
      else let node = list_node elem in
        if node = nil then Some (nil, h)
        else if list = elem then do { h \<leftarrow> list_node_dealloc h node; Some (nil, h) }
        else do {
          nd \<leftarrow> h node;
          (pret, h) \<leftarrow>
            (if list_check_magic h \<lparr>eptr = elem, ehead = (nil, nil), ebytes = []\<rparr> \<noteq> 0 then do {
               (pret, h) \<leftarrow>
                 (if prev nd \<noteq> nil then do {
                    h \<leftarrow> set_next h (prev nd) (next nd);
                    Some (list_elem (prev nd), h) }
                  else Some (nil, h));
               h \<leftarrow> (if next nd \<noteq> nil then set_prev h (next nd) (prev nd) else Some h);
               h \<leftarrow> set_next h node NEXT_MAGIC;
               h \<leftarrow> set_prev h node PREV_MAGIC;
               Some (pret, h) }
             else Some (nil, h));
          h \<leftarrow> (if flag = ELIST_ERASE_FULL then list_elem_dealloc h elem else Some h);
          Some (pret, h) })"

text \<open>Both loops stop at \<open>nil\<close> and at the header. Counting beyond a signed 32 bit number is a fault.\<close>

partial_function (option) list_clear_loop :: "heap \<Rightarrow> u8 \<Rightarrow> u8 \<Rightarrow> heap option" where
  "list_clear_loop h head node =
     (if node \<noteq> nil \<and> head \<noteq> node
      then Option.bind (list_erase h head node ELIST_ERASE_FULL) (\<lambda>r.
             Option.bind (list_next_elem (snd r) (fst r)) (\<lambda>node.
               list_clear_loop (snd r) head node))
      else Some h)"

definition list_clear :: "heap \<Rightarrow> u8 \<Rightarrow> heap option" where
  "list_clear h list =
     (if list = nil then Some h
      else do { node \<leftarrow> list_next_elem h list; list_clear_loop h list node })"

definition list_uninit :: "heap \<Rightarrow> u8 option \<Rightarrow> (heap \<times> u8 option) option" where
  "list_uninit h list =
     (case list of
        None \<Rightarrow> Some (h, list)
      | Some head \<Rightarrow>
          if head = nil then Some (h, list)
          else do {
            h \<leftarrow> list_clear h head;
            (pret, h) \<leftarrow> list_erase h head head ELIST_ERASE_FULL;
            Some (h, Some nil) })"

partial_function (option) list_size_loop :: "heap \<Rightarrow> u8 \<Rightarrow> u8 \<Rightarrow> int \<Rightarrow> int option" where
  "list_size_loop h list ptr sz =
     (if ptr \<noteq> nil \<and> ptr \<noteq> list
      then if sz < 2 ^ 31 - 1
           then Option.bind (list_next_elem h ptr) (\<lambda>ptr. list_size_loop h list ptr (sz + 1))
           else None
      else Some sz)"

definition list_size :: "heap \<Rightarrow> u8 \<Rightarrow> n4 option" where
  "list_size h list =
     (if list = nil then Some 0
      else if list_node list = nil then Some 0
      else do {
        ptr \<leftarrow> list_next_elem h list;
        if ptr = list then Some 0 else list_size_loop h list ptr 0 })"

section \<open>Rings of nodes\<close>

text \<open>The three fields of the store as maps.\<close>

definition nxt :: "heap \<Rightarrow> u8 \<Rightarrow> u8 option" where
  "nxt h p = map_option next (h p)"

definition prv :: "heap \<Rightarrow> u8 \<Rightarrow> u8 option" where
  "prv h p = map_option prev (h p)"

definition dat :: "heap \<Rightarrow> u8 \<Rightarrow> u1 list option" where
  "dat h p = map_option data (h p)"

fun linked :: "heap \<Rightarrow> u8 list \<Rightarrow> bool" where
  "linked h (x # y # zs) \<longleftrightarrow> nxt h x = Some y \<and> prv h y = Some x \<and> linked h (y # zs)"
| "linked h _ \<longleftrightarrow> True"

text \<open>Where a node can be: neither it nor its payload at \<open>nil\<close>, and not at the odd magic number.\<close>

definition addr_ok :: "u8 \<Rightarrow> bool" where
  "addr_ok p \<longleftrightarrow> p \<noteq> nil \<and> list_elem p \<noteq> nil \<and> p \<noteq> PREV_MAGIC"

definition dll :: "heap \<Rightarrow> u8 \<Rightarrow> u8 list \<Rightarrow> bool" where
  "dll h a ns \<longleftrightarrow> distinct (a # ns) \<and> (\<forall>p \<in> set (a # ns). addr_ok p) \<and> linked h (a # ns @ [a])"

definition contents :: "heap \<Rightarrow> u8 list \<Rightarrow> u1 list list" where
  "contents h ns = map (\<lambda>p. the (dat h p)) ns"

lemma linked_append: "linked h (xs @ y # zs) \<longleftrightarrow> linked h (xs @ [y]) \<and> linked h (y # zs)"
  by (induction xs rule: induct_list012) (auto simp: neq_Nil_conv)

lemma linked_cong:
  "(\<And>x. x \<in> set (butlast xs) \<Longrightarrow> nxt h' x = nxt h x) \<Longrightarrow> (\<And>x. x \<in> set (tl xs) \<Longrightarrow> prv h' x = prv h x) \<Longrightarrow>
     linked h' xs = linked h xs"
  by (induction xs rule: induct_list012) auto

lemma fields_dom: "nxt h p = Some v \<Longrightarrow> p \<in> dom h" "prv h p = Some w \<Longrightarrow> p \<in> dom h"
  by (auto simp: nxt_def prv_def)

text \<open>A store through a node pointer changes one field of one node.\<close>

lemma set_next_ok:
  assumes "p \<in> dom h"
  shows "\<exists>h'. set_next h p v = Some h' \<and> nxt h' = (nxt h)(p \<mapsto> v) \<and> prv h' = prv h \<and> dat h' = dat h \<and> dom h' = dom h"
  using assms by (fastforce simp: set_next_def nxt_def prv_def dat_def)

lemma set_prev_ok:
  assumes "p \<in> dom h"
  shows "\<exists>h'. set_prev h p v = Some h' \<and> prv h' = (prv h)(p \<mapsto> v) \<and> nxt h' = nxt h \<and> dat h' = dat h \<and> dom h' = dom h"
  using assms by (fastforce simp: set_prev_def nxt_def prv_def dat_def)

text \<open>
  Linking a node in between two neighbours, and leaving one out: the two halves of the ring are
  not touched.
\<close>

lemma linked_halves:
  assumes l: "linked h (us @ [x])" "linked h (y # vs)" and d: "distinct (us @ [x])" "distinct (y # vs)"
    and sep: "y \<notin> set (tl (us @ [x]))" "x \<notin> set (butlast (y # vs))" "p \<notin> set (us @ x # y # vs)"
    and n: "\<And>q. q \<noteq> x \<Longrightarrow> q \<noteq> p \<Longrightarrow> nxt h' q = nxt h q"
    and v: "\<And>q. q \<noteq> y \<Longrightarrow> q \<noteq> p \<Longrightarrow> prv h' q = prv h q"
  shows "linked h' (us @ [x])" "linked h' (y # vs)"
proof -
  have "linked h' (us @ [x]) = linked h (us @ [x])"
  proof (rule linked_cong)
    fix q assume "q \<in> set (butlast (us @ [x]))"
    then have "q \<noteq> x" "q \<noteq> p" using d sep by auto
    then show "nxt h' q = nxt h q" by (rule n)
  next
    fix q assume q: "q \<in> set (tl (us @ [x]))"
    then have "q \<in> set (us @ [x])" by (cases us) auto
    then have "q \<noteq> y" "q \<noteq> p" using q sep by auto
    then show "prv h' q = prv h q" by (rule v)
  qed
  then show "linked h' (us @ [x])" using l by simp
  have "linked h' (y # vs) = linked h (y # vs)"
  proof (rule linked_cong)
    fix q assume q: "q \<in> set (butlast (y # vs))"
    then have "q \<in> set (y # vs)" by (rule in_set_butlastD)
    then have "q \<noteq> x" "q \<noteq> p" using q sep by auto
    then show "nxt h' q = nxt h q" by (rule n)
  next
    fix q assume "q \<in> set (tl (y # vs))"
    then have "q \<noteq> y" "q \<noteq> p" using d sep by auto
    then show "prv h' q = prv h q" by (rule v)
  qed
  then show "linked h' (y # vs)" using l by simp
qed

lemma ring_split:
  assumes "distinct (a # ns)" "a # ns @ [a] = us @ x # y # vs"
  shows "distinct (us @ [x])" "distinct (y # vs)" "y \<notin> set (tl (us @ [x]))"
    "x \<notin> set (butlast (y # vs))" "set (us @ x # y # vs) = set (a # ns)"
proof -
  have b: "a # ns = us @ x # butlast (y # vs)"
    using arg_cong [OF assms(2), of butlast] by (simp add: butlast_append)
  then show "distinct (us @ [x])" "x \<notin> set (butlast (y # vs))"
    using assms(1) by (metis distinct_append distinct.simps(2) Un_iff append_Cons append_Nil append_assoc, metis distinct_append distinct.simps(2))
  have t: "ns @ [a] = tl (us @ [x]) @ y # vs"
    using arg_cong [OF assms(2), of tl] by (cases us) auto
  have "distinct (ns @ [a])" using assms(1) by simp
  then show "distinct (y # vs)" "y \<notin> set (tl (us @ [x]))" unfolding t by auto
  show "set (us @ x # y # vs) = set (a # ns)" using arg_cong [OF assms(2), of set] by auto
qed

text \<open>
  A position in a list is a split \<open>ys @ zs\<close> of its nodes; its neighbours are the last of \<open>a # ys\<close> and the
  first of \<open>zs @ [a]\<close>.
\<close>

lemma ring_position:
  obtains us x y vs where "a # ys = us @ [x]" "zs @ [a] = y # vs" "last (a # ys) = x" "hd (zs @ [a]) = y"
    "a # (ys @ zs) @ [a] = us @ x # y # vs" "a # (ys @ p # zs) @ [a] = us @ x # p # y # vs"
proof -
  obtain us x where u: "a # ys = us @ [x]" by (metis list.distinct(1) rev_exhaust)
  obtain y vs where v: "zs @ [a] = y # vs" by (cases zs) auto
  have "a # (ys @ zs) @ [a] = (us @ [x]) @ y # vs" "a # (ys @ p # zs) @ [a] = (us @ [x]) @ p # y # vs"
    unfolding u [symmetric] v [symmetric] by simp_all
  moreover have "last (a # ys) = x" using u by simp
  ultimately show thesis using that u v by simp
qed

lemma dll_links:
  assumes "dll h a (ys @ zs)"
  shows "nxt h (last (a # ys)) = Some (hd (zs @ [a]))" "prv h (hd (zs @ [a])) = Some (last (a # ys))"
proof -
  obtain us x y vs where r: "last (a # ys) = x" "hd (zs @ [a]) = y" "a # (ys @ zs) @ [a] = us @ x # y # vs"
    by (rule ring_position)
  have "linked h (x # y # vs)"
    using assms linked_append [of h us x "y # vs"] unfolding dll_def r(3) by simp
  then show "nxt h (last (a # ys)) = Some (hd (zs @ [a]))" "prv h (hd (zs @ [a])) = Some (last (a # ys))"
    unfolding r by simp_all
qed

lemma dll_neighbours: "last (a # ys) \<in> set (a # ys)" "hd (zs @ [a]) \<in> set (a # zs)"
  by (metis last_in_set list.distinct(1), cases zs) auto

lemma dll_dom: "dll h a ns \<Longrightarrow> set (a # ns) \<subseteq> dom h"
proof
  fix p assume d: "dll h a ns" and p: "p \<in> set (a # ns)"
  show "p \<in> dom h"
  proof (cases "p = a")
    case True
    have "nxt h a = Some (hd (ns @ [a]))" using dll_links(1) [of h a "[]" ns] d by simp
    then show ?thesis unfolding True by (rule fields_dom)
  next
    case False
    then obtain ys zs where "ns = ys @ p # zs" using p by (auto simp: in_set_conv_decomp)
    then have "prv h p = Some (last (a # ys))" using dll_links(2) [of h a ys "p # zs"] d by simp
    then show ?thesis by (rule fields_dom)
  qed
qed

lemma dll_insert:
  assumes d: "dll h a (ys @ zs)" and p: "p \<notin> set (a # ys @ zs)" "addr_ok p"
    and n: "nxt h' (last (a # ys)) = Some p" "nxt h' p = Some (hd (zs @ [a]))"
      "\<And>q. q \<noteq> last (a # ys) \<Longrightarrow> q \<noteq> p \<Longrightarrow> nxt h' q = nxt h q"
    and v: "prv h' (hd (zs @ [a])) = Some p" "prv h' p = Some (last (a # ys))"
      "\<And>q. q \<noteq> hd (zs @ [a]) \<Longrightarrow> q \<noteq> p \<Longrightarrow> prv h' q = prv h q"
  shows "dll h' a (ys @ p # zs)"
proof -
  obtain us x y vs where r: "last (a # ys) = x" "hd (zs @ [a]) = y" "a # (ys @ zs) @ [a] = us @ x # y # vs"
      "a # (ys @ p # zs) @ [a] = us @ x # p # y # vs"
    by (rule ring_position)
  note n = n [unfolded r(1,2)] and v = v [unfolded r(1,2)]
  have dis: "distinct (a # ys @ zs)" using d by (simp add: dll_def)
  note s = ring_split [OF dis r(3)]
  have l: "linked h (us @ x # y # vs)" using d r(3) by (simp only: dll_def)
  have lh: "linked h (us @ [x])" "linked h (y # vs)"
    using l linked_append [of h us x "y # vs"] by auto
  have sep: "p \<notin> set (us @ x # y # vs)" using s(5) p(1) by blast
  note h' = linked_halves [OF lh s(1,2,3,4) sep n(3) v(3)]
  have "linked h' (us @ x # p # y # vs)"
    using h' n(1,2) v(1,2) linked_append [of h' us x "p # y # vs"] by simp
  then have "linked h' (a # (ys @ p # zs) @ [a])" unfolding r(4) .
  then show ?thesis using d p by (auto simp: dll_def)
qed

lemma dll_remove:
  assumes d: "dll h a (ys @ p # zs)"
    and n: "nxt h' (last (a # ys)) = Some (hd (zs @ [a]))"
      "\<And>q. q \<noteq> last (a # ys) \<Longrightarrow> q \<noteq> p \<Longrightarrow> nxt h' q = nxt h q"
    and v: "prv h' (hd (zs @ [a])) = Some (last (a # ys))"
      "\<And>q. q \<noteq> hd (zs @ [a]) \<Longrightarrow> q \<noteq> p \<Longrightarrow> prv h' q = prv h q"
  shows "dll h' a (ys @ zs)"
proof -
  obtain us x y vs where r: "last (a # ys) = x" "hd (zs @ [a]) = y" "a # (ys @ zs) @ [a] = us @ x # y # vs"
      "a # (ys @ p # zs) @ [a] = us @ x # p # y # vs"
    by (rule ring_position)
  note n = n [unfolded r(1,2)] and v = v [unfolded r(1,2)]
  have dis: "distinct (a # ys @ zs)" and p: "p \<notin> set (a # ys @ zs)" using d by (auto simp: dll_def)
  note s = ring_split [OF dis r(3)]
  have l: "linked h (us @ x # p # y # vs)" using d r(4) by (simp only: dll_def)
  have lh: "linked h (us @ [x])" "linked h (y # vs)"
    using l linked_append [of h us x "p # y # vs"] by auto
  have sep: "p \<notin> set (us @ x # y # vs)" using s(5) p by blast
  note h' = linked_halves [OF lh s(1,2,3,4) sep n(2) v(2)]
  have "linked h' (us @ x # y # vs)"
    using h' n(1) v(1) linked_append [of h' us x "y # vs"] by simp
  then have "linked h' (a # (ys @ zs) @ [a])" unfolding r(3) .
  then show ?thesis using d by (auto simp: dll_def)
qed

lemma dll_frame:
  assumes "dll h b ms" "\<And>q. q \<in> set (b # ms) \<Longrightarrow> nxt h' q = nxt h q \<and> prv h' q = prv h q"
  shows "dll h' b ms"
proof -
  have "linked h' (b # ms @ [b]) = linked h (b # ms @ [b])"
  proof (rule linked_cong)
    fix q assume "q \<in> set (butlast (b # ms @ [b]))"
    then have "q \<in> set (b # ms)" by (simp add: butlast_append)
    then show "nxt h' q = nxt h q" using assms(2) by blast
  next
    fix q assume "q \<in> set (tl (b # ms @ [b]))"
    then show "prv h' q = prv h q" using assms(2) by auto
  qed
  then show ?thesis using assms(1) by (simp add: dll_def)
qed

lemma elem_node [simp]: "list_node (list_elem p) = p" "list_elem (list_node e) = e"
  by (simp_all add: list_node_def list_elem_def)

lemma elem_eq [simp]: "list_elem p = list_elem q \<longleftrightarrow> p = q"
  by (simp add: list_elem_def)

lemma heap_eqI: "nxt h' q = nxt h q \<Longrightarrow> prv h' q = prv h q \<Longrightarrow> dat h' q = dat h q \<Longrightarrow> h' q = h q"
  by (cases "h q"; cases "h' q") (auto simp: nxt_def prv_def dat_def)

lemma heap_ext: "nxt h' = nxt h \<Longrightarrow> prv h' = prv h \<Longrightarrow> dat h' = dat h \<Longrightarrow> h' = h"
  by (rule ext, rule heap_eqI) simp_all

lemma heap_fields: "h p = Some nd \<Longrightarrow> nxt h p = Some (next nd) \<and> prv h p = Some (prev nd) \<and> dat h p = Some (data nd)"
  by (simp add: nxt_def prv_def dat_def)

text \<open>The four stores that link a node in, in both orders the code uses, have the same effect.\<close>

lemma link_in_ok:
  assumes "p \<in> dom h" "x \<in> dom h" "y \<in> dom h"
  shows "\<exists>h'. do { h \<leftarrow> set_next h p y; h \<leftarrow> set_prev h p x; h \<leftarrow> set_next h x p; set_prev h y p } = Some h' \<and>
           do { h \<leftarrow> set_next h p y; h \<leftarrow> set_prev h p x; h \<leftarrow> set_prev h y p; set_next h x p } = Some h' \<and>
           nxt h' = (nxt h)(p \<mapsto> y, x \<mapsto> p) \<and> prv h' = (prv h)(p \<mapsto> x, y \<mapsto> p) \<and> dat h' = dat h \<and> dom h' = dom h"
proof -
  obtain h1 where h1: "set_next h p y = Some h1" "nxt h1 = (nxt h)(p \<mapsto> y)" "prv h1 = prv h"
      "dat h1 = dat h" "dom h1 = dom h"
    using set_next_ok [OF assms(1)] by blast
  obtain h2 where h2: "set_prev h1 p x = Some h2" "prv h2 = (prv h)(p \<mapsto> x)" "nxt h2 = nxt h1"
      "dat h2 = dat h" "dom h2 = dom h"
    using set_prev_ok [of p h1] assms(1) h1 by metis
  obtain h3 where h3: "set_next h2 x p = Some h3" "nxt h3 = (nxt h)(p \<mapsto> y, x \<mapsto> p)" "prv h3 = prv h2"
      "dat h3 = dat h" "dom h3 = dom h"
    using set_next_ok [of x h2] assms(2) h1 h2 by metis
  obtain h4 where h4: "set_prev h3 y p = Some h4" "prv h4 = (prv h)(p \<mapsto> x, y \<mapsto> p)" "nxt h4 = nxt h3"
      "dat h4 = dat h" "dom h4 = dom h"
    using set_prev_ok [of y h3] assms(3) h2 h3 by metis
  obtain h5 where h5: "set_prev h2 y p = Some h5" "prv h5 = (prv h)(p \<mapsto> x, y \<mapsto> p)" "nxt h5 = nxt h2"
      "dat h5 = dat h" "dom h5 = dom h"
    using set_prev_ok [of y h2] assms(3) h2 by metis
  obtain h6 where h6: "set_next h5 x p = Some h6" "nxt h6 = (nxt h)(p \<mapsto> y, x \<mapsto> p)" "prv h6 = prv h5"
      "dat h6 = dat h" "dom h6 = dom h"
    using set_next_ok [of x h5] assms(2) h1 h2 h5 by metis
  have "h6 = h4" by (rule heap_ext) (simp_all add: h3 h4 h5 h6)
  then show ?thesis using h1 h2 h3 h4 h5 h6 by (intro exI [of _ h4]) simp
qed

text \<open>The two stores that take a node out.\<close>

lemma take_out_ok:
  assumes "x \<in> dom h" "y \<in> dom h"
  shows "\<exists>h'. do { h \<leftarrow> set_next h x y; set_prev h y x } = Some h' \<and>
           nxt h' = (nxt h)(x \<mapsto> y) \<and> prv h' = (prv h)(y \<mapsto> x) \<and> dat h' = dat h \<and> dom h' = dom h"
proof -
  obtain h1 where h1: "set_next h x y = Some h1" "nxt h1 = (nxt h)(x \<mapsto> y)" "prv h1 = prv h"
      "dat h1 = dat h" "dom h1 = dom h"
    using set_next_ok [OF assms(1)] by blast
  obtain h2 where h2: "set_prev h1 y x = Some h2" "prv h2 = (prv h1)(y \<mapsto> x)" "nxt h2 = nxt h1"
      "dat h2 = dat h1" "dom h2 = dom h1"
    using set_prev_ok [of y h1] assms(2) h1(5) by metis
  show ?thesis using h1 h2 by simp
qed

lemma dll_position:
  assumes "dll h a (ys @ zs)"
  shows "last (a # ys) \<in> dom h" "hd (zs @ [a]) \<in> dom h" "addr_ok (last (a # ys))" "addr_ok (hd (zs @ [a]))"
    "last (a # ys) \<in> set (a # ys @ zs)" "hd (zs @ [a]) \<in> set (a # ys @ zs)"
proof -
  show m: "last (a # ys) \<in> set (a # ys @ zs)" "hd (zs @ [a]) \<in> set (a # ys @ zs)"
    using dll_neighbours(1) [of a ys] dll_neighbours(2) [of zs a] by (auto split: if_splits)
  show "last (a # ys) \<in> dom h" "hd (zs @ [a]) \<in> dom h" using m dll_dom [OF assms] by blast+
  show "addr_ok (last (a # ys))" "addr_ok (hd (zs @ [a]))" using m assms unfolding dll_def by blast+
qed

lemma dll_link_in:
  assumes d: "dll h a (ys @ zs)" and p: "p \<in> dom h" "p \<notin> set (a # ys @ zs)" "addr_ok p"
    and h': "nxt h' = (nxt h)(p \<mapsto> hd (zs @ [a]), last (a # ys) \<mapsto> p)"
      "prv h' = (prv h)(p \<mapsto> last (a # ys), hd (zs @ [a]) \<mapsto> p)"
  shows "dll h' a (ys @ p # zs)"
proof -
  have "last (a # ys) \<noteq> p" "hd (zs @ [a]) \<noteq> p" using dll_position(5,6) [OF d] p(2) by metis+
  then show ?thesis by (intro dll_insert [OF d p(2,3)]) (simp_all add: h' del: last.simps)
qed

lemma dll_take_out:
  assumes d: "dll h a (ys @ p # zs)"
    and n: "\<And>q. q \<noteq> p \<Longrightarrow> nxt h' q = ((nxt h)(last (a # ys) \<mapsto> hd (zs @ [a]))) q"
    and v: "\<And>q. q \<noteq> p \<Longrightarrow> prv h' q = ((prv h)(hd (zs @ [a]) \<mapsto> last (a # ys))) q"
  shows "dll h' a (ys @ zs)"
proof -
  have "p \<notin> set (a # ys @ zs)" using d by (auto simp: dll_def)
  then have "last (a # ys) \<noteq> p" "hd (zs @ [a]) \<noteq> p"
    using dll_neighbours(1) [of a ys] dll_neighbours(2) [of zs a] by auto
  then show ?thesis using n v by (intro dll_remove [OF d]) (simp_all del: last.simps)
qed

section \<open>Insertion\<close>

lemma dll_nodes:
  assumes "dll h a (ys @ zs)"
  shows "\<exists>xn yn. h (last (a # ys)) = Some xn \<and> next xn = hd (zs @ [a]) \<and>
           h (hd (zs @ [a])) = Some yn \<and> prev yn = last (a # ys)"
  using dll_links [OF assms] by (auto simp: nxt_def prv_def)

lemma list_insert_ok:
  assumes t: "take_node h ans elem elem_len = Some (flag, p, h0)" and d: "dll h0 a (ys @ zs)"
    and p: "p \<in> dom h0" "p \<notin> set (a # ys @ zs)" "addr_ok p" and e: "eptr elem \<noteq> nil" "0 < elem_len"
  shows "\<exists>h'. list_insert_front h ans (list_elem (hd (zs @ [a]))) elem elem_len = Some (list_elem p, h') \<and>
           list_insert_back h ans (list_elem (last (a # ys))) elem elem_len = Some (list_elem p, h') \<and>
           dll h' a (ys @ p # zs) \<and> dat h' = dat h0 \<and>
           (\<forall>q. q \<notin> set (a # ys @ p # zs) \<longrightarrow> h' q = h0 q)"
proof -
  let ?x = "last (a # ys)" and ?y = "hd (zs @ [a])"
  note q = dll_position [OF d]
  obtain xn yn where nd: "h0 ?x = Some xn" "next xn = ?y" "h0 ?y = Some yn" "prev yn = ?x"
    using dll_nodes [OF d] by blast
  obtain h' where h': "do { h \<leftarrow> set_next h0 p ?y; h \<leftarrow> set_prev h p ?x; h \<leftarrow> set_next h ?x p; set_prev h ?y p } = Some h'"
      "do { h \<leftarrow> set_next h0 p ?y; h \<leftarrow> set_prev h p ?x; h \<leftarrow> set_prev h ?y p; set_next h ?x p } = Some h'"
      "nxt h' = (nxt h0)(p \<mapsto> ?y, ?x \<mapsto> p)" "prv h' = (prv h0)(p \<mapsto> ?x, ?y \<mapsto> p)" "dat h' = dat h0" "dom h' = dom h0"
    using link_in_ok [OF p(1) q(1,2)] by blast
  have ok: "?x \<noteq> nil" "?y \<noteq> nil" "list_elem ?x \<noteq> nil" "list_elem ?y \<noteq> nil" "p \<noteq> nil"
    using q(3,4) p(3) by (simp_all add: addr_ok_def del: last.simps)
  have "list_insert_front h ans (list_elem ?y) elem elem_len =
      do { h \<leftarrow> do { h \<leftarrow> set_next h0 p ?y; h \<leftarrow> set_prev h p ?x; h \<leftarrow> set_next h ?x p; set_prev h ?y p };
        Some (list_elem p, h) }"
    using ok e nd by (simp add: list_insert_front_def t Let_def del: last.simps)
  moreover have "list_insert_back h ans (list_elem ?x) elem elem_len =
      do { h \<leftarrow> do { h \<leftarrow> set_next h0 p ?y; h \<leftarrow> set_prev h p ?x; h \<leftarrow> set_prev h ?y p; set_next h ?x p };
        Some (list_elem p, h) }"
    using ok e nd by (simp add: list_insert_back_def t Let_def del: last.simps)
  moreover have "dll h' a (ys @ p # zs)" by (rule dll_link_in [OF d p h'(3,4)])
  moreover have "h' r = h0 r" if "r \<notin> set (a # ys @ p # zs)" for r
  proof -
    have "r \<noteq> p" "r \<noteq> ?x" "r \<noteq> ?y" using that q(5,6) by (auto simp del: last.simps)
    then show ?thesis using h' by (intro heap_eqI) (simp_all del: last.simps)
  qed
  ultimately show ?thesis unfolding h'(1,2) using h'(5) by auto
qed

text \<open>An element from outside is copied, an erased one is taken as it is.\<close>

lemma take_node_new:
  assumes "list_node (eptr elem) \<notin> dom h" "ehead elem \<noteq> (PREV_MAGIC, NEXT_MAGIC)" "0 \<le> elem_len"
    "nat elem_len \<le> length (ebytes elem)"
  shows "take_node h (Some p) elem elem_len =
    Some (-1, p, h(p \<mapsto> \<lparr>prev = p, next = p, data = take (nat elem_len) (ebytes elem)\<rparr>))"
proof -
  have "h (list_node (eptr elem)) = None" using assms(1) by blast
  then show ?thesis using assms
    by (simp add: take_node_def list_check_magic_def elem_links_def list_node_alloc_def)
qed

lemma take_node_erased:
  assumes "h (list_node (eptr elem)) = Some \<lparr>prev = PREV_MAGIC, next = NEXT_MAGIC, data = bs\<rparr>"
  shows "take_node h ans elem elem_len = Some (0, list_node (eptr elem), h)"
  using assms by (simp add: take_node_def list_check_magic_def elem_links_def)

lemma dll_other:
  assumes "dll h a ns" "\<And>q. q \<in> set (a # ns) \<Longrightarrow> h' q = h q"
  shows "dll h' a ns"
  using assms(1) by (rule dll_frame) (simp add: assms(2) nxt_def prv_def)

section \<open>Removal\<close>

lemma list_erase_ok:
  assumes d: "dll h a (ys @ p # zs)"
  shows "\<exists>h'. list_erase h (list_elem a) (list_elem p) flag = Some (list_elem (last (a # ys)), h') \<and>
           dll h' a (ys @ zs) \<and> (\<forall>q. q \<noteq> p \<longrightarrow> dat h' q = dat h q) \<and>
           (\<forall>q. q \<notin> set (a # ys @ p # zs) \<longrightarrow> h' q = h q) \<and>
           h' p = (if flag = ELIST_ERASE_FULL then None
                   else map_option (\<lambda>nd. \<lparr>prev = PREV_MAGIC, next = NEXT_MAGIC, data = data nd\<rparr>) (h p))"
proof -
  let ?x = "last (a # ys)" and ?y = "hd (zs @ [a])"
  have pn: "nxt h p = Some ?y" using dll_links(1) [of h a "ys @ [p]" zs] d by simp
  have pp: "prv h p = Some ?x" using dll_links(2) [of h a ys "p # zs"] d by simp
  then obtain nd where nd: "h p = Some nd" "next nd = ?y" "prev nd = ?x"
    using pn by (auto simp: nxt_def prv_def)
  have px: "?x \<in> dom h" "addr_ok ?x" "?x \<in> set (a # ys)"
    using dll_position [of h a ys "p # zs"] d dll_neighbours(1) [of a ys] by (simp_all del: last.simps)
  have py: "?y \<in> dom h" "addr_ok ?y" "?y \<in> set (a # zs)"
    using dll_position [of h a "ys @ [p]" zs] d dll_neighbours(2) [of zs a] by simp_all
  have pa: "p \<notin> set (a # ys @ zs)" "addr_ok p" using d by (auto simp: dll_def)
  then have ne: "?x \<noteq> p" "?y \<noteq> p" "p \<noteq> a" using px(3) py(3) by auto
  obtain h1 where h1: "do { h \<leftarrow> set_next h ?x ?y; set_prev h ?y ?x } = Some h1"
      "nxt h1 = (nxt h)(?x \<mapsto> ?y)" "prv h1 = (prv h)(?y \<mapsto> ?x)" "dat h1 = dat h" "dom h1 = dom h"
    using take_out_ok [OF px(1) py(1)] by blast
  have h1p: "h1 p = Some nd"
    using ne heap_eqI [of h1 p h] h1 nd(1) by simp
  let ?m = "\<lparr>prev = PREV_MAGIC, next = NEXT_MAGIC, data = data nd\<rparr>"
  have sets: "do { h \<leftarrow> set_next h1 p NEXT_MAGIC; set_prev h p PREV_MAGIC } = Some (h1(p \<mapsto> ?m))"
    using h1p by (cases nd) (simp add: set_next_def set_prev_def)
  let ?h = "if flag = ELIST_ERASE_FULL then h1(p := None) else h1(p \<mapsto> ?m)"
  have ok: "?x \<noteq> nil" "?y \<noteq> nil" "list_elem p \<noteq> nil" "p \<noteq> nil" "?x \<noteq> PREV_MAGIC"
    using px(2) py(2) pa(2) by (simp_all add: addr_ok_def del: last.simps)
  have "list_erase h (list_elem a) (list_elem p) flag =
      do { h1 \<leftarrow> do { h \<leftarrow> set_next h ?x ?y; set_prev h ?y ?x };
        h2 \<leftarrow> do { h \<leftarrow> set_next h1 p NEXT_MAGIC; set_prev h p PREV_MAGIC };
        h3 \<leftarrow> (if flag = ELIST_ERASE_FULL then list_elem_dealloc h2 (list_elem p) else Some h2);
        Some (list_elem ?x, h3) }"
    using ok nd ne by (simp add: list_erase_def Let_def list_check_magic_def elem_links_def del: last.simps
        split: option.splits bind_splits)
  then have run: "list_erase h (list_elem a) (list_elem p) flag = Some (list_elem ?x, ?h)"
    unfolding h1(1) Option.bind.simps sets using ok by (simp add: list_elem_dealloc_def list_node_dealloc_def del: last.simps)
  have out: "?h q = h1 q" if "q \<noteq> p" for q using that by simp
  have "dll ?h a (ys @ zs)"
    by (rule dll_take_out [OF d]) (use h1 out in \<open>simp_all add: nxt_def prv_def fun_eq_iff del: last.simps\<close>)
  moreover have "?h q = h q" if "q \<notin> set (a # ys @ p # zs)" for q
  proof -
    have "q \<noteq> p" "q \<noteq> ?x" "q \<noteq> ?y" using that px(3) py(3) by (auto simp del: last.simps)
    then show ?thesis using h1 out heap_eqI [of h1 q h] by (simp del: last.simps)
  qed
  moreover have "dat ?h q = dat h q" if "q \<noteq> p" for q using that h1(4) out [OF that] by (metis dat_def)
  ultimately show ?thesis using run nd(1) by (intro exI [of _ ?h]) (simp del: last.simps)
qed

lemma list_next_ok:
  assumes "dll h a (ys @ zs)"
  shows "list_next_elem h (list_elem (last (a # ys))) = Some (list_elem (hd (zs @ [a])))"
proof -
  obtain xn where "h (last (a # ys)) = Some xn" "next xn = hd (zs @ [a])"
    using dll_nodes [OF assms] by blast
  then show ?thesis
    using dll_position(3) [OF assms] by (simp add: list_next_elem_def addr_ok_def del: last.simps)
qed

lemma list_prev_ok:
  assumes "dll h a (ys @ zs)"
  shows "list_prev_elem h (list_elem (hd (zs @ [a]))) = Some (list_elem (last (a # ys)))"
proof -
  obtain yn where "h (hd (zs @ [a])) = Some yn" "prev yn = last (a # ys)"
    using dll_nodes [OF assms] by blast
  then show ?thesis
    using dll_position(4) [OF assms] by (simp add: list_prev_elem_def addr_ok_def del: last.simps)
qed

lemma list_clear_loop_ok:
  assumes "dll h a ns"
  shows "\<exists>h'. list_clear_loop h (list_elem a) (list_elem (hd (ns @ [a]))) = Some h' \<and> dll h' a [] \<and>
           dom h' = dom h - set ns \<and> (\<forall>q. q \<notin> set (a # ns) \<longrightarrow> h' q = h q)"
  using assms
proof (induction ns arbitrary: h)
  case Nil
  then show ?case by (simp add: list_clear_loop.simps)
next
  case (Cons p ns)
  obtain h1 where h1: "list_erase h (list_elem a) (list_elem p) ELIST_ERASE_FULL = Some (list_elem a, h1)"
      "dll h1 a ns" "\<forall>q. q \<notin> set (a # p # ns) \<longrightarrow> h1 q = h q" "h1 p = None"
    using list_erase_ok [of h a "[]" p ns ELIST_ERASE_FULL] Cons.prems by auto
  obtain h2 where h2: "list_clear_loop h1 (list_elem a) (list_elem (hd (ns @ [a]))) = Some h2" "dll h2 a []"
      "dom h2 = dom h1 - set ns" "\<forall>q. q \<notin> set (a # ns) \<longrightarrow> h2 q = h1 q"
    using Cons.IH [OF h1(2)] by blast
  have p: "p \<noteq> a" "p \<notin> set ns" "list_elem p \<noteq> nil"
    using Cons.prems by (auto simp: dll_def addr_ok_def)
  have "list_next_elem h1 (list_elem a) = Some (list_elem (hd (ns @ [a])))"
    using list_next_ok [of h1 a "[]" ns] h1(2) by simp
  then have run: "list_clear_loop h (list_elem a) (list_elem (hd ((p # ns) @ [a]))) = Some h2"
    using p h1(1) h2(1) by (subst list_clear_loop.simps) simp
  have "q \<in> dom h2 \<longleftrightarrow> q \<in> dom h - set (p # ns)" for q
  proof (cases "q \<in> set (a # p # ns)")
    case True
    have "q \<in> dom h1 \<longleftrightarrow> q \<noteq> p" using True h1(4) dll_dom [OF h1(2)] by auto
    moreover have "q \<in> dom h" using True dll_dom [OF Cons.prems] by blast
    ultimately show ?thesis using h2(3) by auto
  next
    case False
    then have "h2 q = h q" using h1(3) h2(4) by simp
    then show ?thesis using False by (simp add: domIff)
  qed
  then have "dom h2 = dom h - set (p # ns)" by blast
  moreover have "\<forall>q. q \<notin> set (a # p # ns) \<longrightarrow> h2 q = h q" using h1(3) h2(4) by simp
  ultimately show ?case using run h2(2) by blast
qed

lemma list_size_loop_ok:
  assumes "dll h a (ys @ zs)" "0 \<le> sz" "sz + int (length zs) < 2 ^ 31"
  shows "list_size_loop h (list_elem a) (list_elem (hd (zs @ [a]))) sz = Some (sz + int (length zs))"
  using assms
proof (induction zs arbitrary: ys sz)
  case Nil
  then show ?case by (simp add: list_size_loop.simps)
next
  case (Cons p zs)
  have p: "p \<noteq> a" "list_elem p \<noteq> nil" using Cons.prems(1) by (auto simp: dll_def addr_ok_def)
  have "list_next_elem h (list_elem p) = Some (list_elem (hd (zs @ [a])))"
    using list_next_ok [of h a "ys @ [p]" zs] Cons.prems(1) by simp
  moreover have "list_size_loop h (list_elem a) (list_elem (hd (zs @ [a]))) (sz + 1) = Some (sz + 1 + int (length zs))"
    using Cons.IH [of "ys @ [p]" "sz + 1"] Cons.prems by simp
  ultimately show ?case using p Cons.prems(3) by (subst list_size_loop.simps) simp
qed

section \<open>Moving\<close>

lemma move_unlink_ok:
  assumes d: "dll h a (ys @ p # zs)"
  shows "\<exists>h'. move_unlink h p = Some h' \<and> dll h' a (ys @ zs) \<and> dat h' = dat h \<and> p \<in> dom h' \<and>
           (\<forall>q. q \<notin> set (a # ys @ p # zs) \<longrightarrow> h' q = h q)"
proof -
  let ?x = "last (a # ys)" and ?y = "hd (zs @ [a])"
  have pn: "nxt h p = Some ?y" using dll_links(1) [of h a "ys @ [p]" zs] d by simp
  have pp: "prv h p = Some ?x" using dll_links(2) [of h a ys "p # zs"] d by simp
  then obtain nd where nd: "h p = Some nd" "next nd = ?y" "prev nd = ?x"
    using pn by (auto simp: nxt_def prv_def)
  have px: "?x \<in> dom h" "?x \<in> set (a # ys)"
    using dll_position [of h a ys "p # zs"] d dll_neighbours(1) [of a ys] by (simp_all del: last.simps)
  have py: "?y \<in> dom h" "?y \<in> set (a # zs)"
    using dll_position [of h a "ys @ [p]" zs] d dll_neighbours(2) [of zs a] by simp_all
  have pa: "p \<notin> set (a # ys @ zs)" using d by (auto simp: dll_def)
  then have ne: "?x \<noteq> p" "?y \<noteq> p" using px(2) py(2) by auto
  obtain h1 where h1: "set_next h ?x ?y = Some h1" "nxt h1 = (nxt h)(?x \<mapsto> ?y)" "prv h1 = prv h"
      "dat h1 = dat h" "dom h1 = dom h"
    using set_next_ok [OF px(1)] by blast
  have h1p: "h1 p = Some nd" using ne heap_eqI [of h1 p h] h1 nd(1) by simp
  obtain h2 where h2: "set_prev h1 ?y ?x = Some h2" "prv h2 = (prv h)(?y \<mapsto> ?x)" "nxt h2 = nxt h1"
      "dat h2 = dat h" "dom h2 = dom h"
    using set_prev_ok [of ?y h1] py(1) h1 by metis
  have pd: "p \<in> dom h" using nd by blast
  obtain h3 where h3: "set_prev h2 p nil = Some h3" "prv h3 = (prv h2)(p \<mapsto> nil)" "nxt h3 = nxt h2"
      "dat h3 = dat h" "dom h3 = dom h"
    using set_prev_ok [of p h2] pd h2 by metis
  obtain h4 where h4: "set_next h3 p nil = Some h4" "nxt h4 = (nxt h2)(p \<mapsto> nil)" "prv h4 = prv h3"
      "dat h4 = dat h" "dom h4 = dom h"
    using set_next_ok [of p h3] pd h3 by metis
  have "move_unlink h p = Some h4"
    using nd h1(1) h1p h2(1) h3(1) h4(1) by (simp add: move_unlink_def del: last.simps)
  moreover have "dll h4 a (ys @ zs)"
    by (rule dll_take_out [OF d]) (simp_all add: h1 h2 h3 h4 del: last.simps)
  moreover have "h4 q = h q" if "q \<notin> set (a # ys @ p # zs)" for q
  proof -
    have "q \<noteq> p" "q \<noteq> ?x" "q \<noteq> ?y" using that px(2) py(2) by (auto simp del: last.simps)
    then show ?thesis using h1 h2 h3 h4 by (intro heap_eqI) (simp_all del: last.simps)
  qed
  ultimately show ?thesis using h4 pd by blast
qed

text \<open>The second half of both moves, on a node that is in no list.\<close>

lemma move_link_ok:
  assumes d: "dll h b (us @ vs)" and p: "p \<in> dom h" "p \<notin> set (b # us @ vs)" "addr_ok p"
  shows "\<exists>h'. do { h \<leftarrow> set_next h p (hd (vs @ [b])); dn \<leftarrow> h (hd (vs @ [b])); h \<leftarrow> set_prev h p (prev dn);
             dn \<leftarrow> h (hd (vs @ [b])); h \<leftarrow> set_next h (prev dn) p; set_prev h (hd (vs @ [b])) p } = Some h' \<and>
           do { dn \<leftarrow> h (last (b # us)); h \<leftarrow> set_next h p (next dn); h \<leftarrow> set_prev h p (last (b # us));
             dn \<leftarrow> h (last (b # us)); h \<leftarrow> set_prev h (next dn) p; set_next h (last (b # us)) p } = Some h' \<and>
           dll h' b (us @ p # vs) \<and> dat h' = dat h \<and> (\<forall>q. q \<notin> set (b # us @ p # vs) \<longrightarrow> h' q = h q)"
proof -
  let ?x = "last (b # us)" and ?y = "hd (vs @ [b])"
  note q = dll_position [OF d]
  have ne: "?x \<noteq> p" "?y \<noteq> p" using q(5,6) p(2) by metis+
  obtain xn yn where nd: "h ?x = Some xn" "next xn = ?y" "h ?y = Some yn" "prev yn = ?x"
    using dll_nodes [OF d] by blast
  obtain h' where h': "do { h \<leftarrow> set_next h p ?y; h \<leftarrow> set_prev h p ?x; h \<leftarrow> set_next h ?x p; set_prev h ?y p } = Some h'"
      "do { h \<leftarrow> set_next h p ?y; h \<leftarrow> set_prev h p ?x; h \<leftarrow> set_prev h ?y p; set_next h ?x p } = Some h'"
      "nxt h' = (nxt h)(p \<mapsto> ?y, ?x \<mapsto> p)" "prv h' = (prv h)(p \<mapsto> ?x, ?y \<mapsto> p)" "dat h' = dat h" "dom h' = dom h"
    using link_in_ok [OF p(1) q(1,2)] by blast
  have keep: "set_next g p v = Some g' \<Longrightarrow> g' r = g r" "set_prev g p v = Some g' \<Longrightarrow> g' r = g r"
    if "r \<noteq> p" for g g' v r
    using that by (auto simp: set_next_def set_prev_def)
  obtain h1 where h1: "set_next h p ?y = Some h1" using set_next_ok [OF p(1)] by blast
  then have "p \<in> dom h1" by (auto simp: set_next_def)
  then obtain h2 where h2: "set_prev h1 p ?x = Some h2" using set_prev_ok by blast
  have at: "h1 ?x = Some xn" "h1 ?y = Some yn" "h2 ?x = Some xn" "h2 ?y = Some yn"
    using keep(1) [OF _ h1] keep(2) [OF _ h2] ne nd by simp_all
  have "dll h' b (us @ p # vs)" by (rule dll_link_in [OF d p h'(3,4)])
  moreover have "h' r = h r" if "r \<notin> set (b # us @ p # vs)" for r
  proof -
    have "r \<noteq> p" "r \<noteq> ?x" "r \<noteq> ?y" using that q(5,6) by (auto simp del: last.simps)
    then show ?thesis using h' by (intro heap_eqI) (simp_all del: last.simps)
  qed
  ultimately show ?thesis
    using h' h1 h2 at nd by (intro exI [of _ h']) (simp del: last.simps)
qed

lemma list_move_ok:
  assumes d: "dll h a (ys @ p # zs)"
    and dst: "if b = a then us @ vs = ys @ zs
      else dll h b (us @ vs) \<and> set (b # us @ vs) \<inter> set (a # ys @ p # zs) = {}"
  shows "\<exists>h'. list_move_front h (list_elem (hd (vs @ [b]))) (list_elem p) = Some (0, h') \<and>
           list_move_back h (list_elem (last (b # us))) (list_elem p) = Some (0, h') \<and>
           dll h' b (us @ p # vs) \<and> (b \<noteq> a \<longrightarrow> dll h' a (ys @ zs)) \<and> dat h' = dat h \<and>
           (\<forall>q. q \<notin> set (b # us @ p # vs) \<longrightarrow> q \<notin> set (a # ys @ p # zs) \<longrightarrow> h' q = h q)"
proof -
  have p: "p \<notin> set (a # ys @ zs)" "addr_ok p" using d by (auto simp: dll_def)
  obtain h1 where h1: "move_unlink h p = Some h1" "dll h1 a (ys @ zs)" "dat h1 = dat h" "p \<in> dom h1"
      "\<forall>q. q \<notin> set (a # ys @ p # zs) \<longrightarrow> h1 q = h q"
    using move_unlink_ok [OF d] by blast
  have db: "dll h1 b (us @ vs)"
  proof (cases "b = a")
    case False
    have o: "dll h b (us @ vs)" "set (b # us @ vs) \<inter> set (a # ys @ p # zs) = {}"
      using dst unfolding if_not_P [OF False] by blast+
    show ?thesis
    proof (rule dll_other [OF o(1)])
      fix q assume "q \<in> set (b # us @ vs)"
      then show "h1 q = h q" using o(2) h1(5) by blast
    qed
  qed (use dst h1(2) in simp)
  have pb: "p \<notin> set (b # us @ vs)"
  proof (cases "b = a")
    case True
    then have "set (us @ vs) = set (ys @ zs)" using dst by simp
    then show ?thesis using p(1) True by auto
  next
    case False
    have "set (b # us @ vs) \<inter> set (a # ys @ p # zs) = {}"
      using dst unfolding if_not_P [OF False] by blast
    moreover have "p \<in> set (a # ys @ p # zs)" by simp
    ultimately show ?thesis by blast
  qed
  obtain h' where h': "do { h \<leftarrow> set_next h1 p (hd (vs @ [b])); dn \<leftarrow> h (hd (vs @ [b])); h \<leftarrow> set_prev h p (prev dn);
             dn \<leftarrow> h (hd (vs @ [b])); h \<leftarrow> set_next h (prev dn) p; set_prev h (hd (vs @ [b])) p } = Some h'"
      "do { dn \<leftarrow> h1 (last (b # us)); h \<leftarrow> set_next h1 p (next dn); h \<leftarrow> set_prev h p (last (b # us));
             dn \<leftarrow> h (last (b # us)); h \<leftarrow> set_prev h (next dn) p; set_next h (last (b # us)) p } = Some h'"
      "dll h' b (us @ p # vs)" "dat h' = dat h1" "\<forall>q. q \<notin> set (b # us @ p # vs) \<longrightarrow> h' q = h1 q"
    using move_link_ok [OF db h1(4) pb p(2)] by blast
  note q = dll_position [OF db]
  have front: "list_move_front h (list_elem (hd (vs @ [b]))) (list_elem p) = Some (0, h')"
    using h'(1) h1(1) q(4) p(2)
    by (auto simp: list_move_front_def addr_ok_def Let_def bind_eq_Some_conv)
  have bk: "list_move_back h (list_elem (last (b # us))) (list_elem p) = Some (0, h')"
    using h'(2) h1(1) q(3) p(2)
    by (auto simp: list_move_back_def addr_ok_def Let_def bind_eq_Some_conv simp del: last.simps)
  have "dll h' a (ys @ zs)" if "b \<noteq> a"
  proof -
    have "set (b # us @ vs) \<inter> set (a # ys @ p # zs) = {}"
      using dst unfolding if_not_P [OF that] by blast
    then have o: "q \<notin> set (b # us @ p # vs)" if q: "q \<in> set (a # ys @ zs)" for q
    proof -
      have "q \<noteq> p" using q p(1) by metis
      moreover have "q \<notin> set (b # us @ vs)" if "set (b # us @ vs) \<inter> set (a # ys @ p # zs) = {}"
        using that q by auto
      ultimately show ?thesis using \<open>set (b # us @ vs) \<inter> set (a # ys @ p # zs) = {}\<close> by auto
    qed
    show ?thesis
    proof (rule dll_other [OF h1(2)])
      fix q assume "q \<in> set (a # ys @ zs)"
      then show "h' q = h1 q" using o h'(5) by blast
    qed
  qed
  moreover have "h' q = h q" if "q \<notin> set (b # us @ p # vs)" "q \<notin> set (a # ys @ p # zs)" for q
    using h'(5) h1(5) that by simp
  ultimately show ?thesis using front bk h'(3) h'(4)[unfolded h1(3)] by blast
qed

section \<open>Properties\<close>

definition demo_heap :: heap where
  "demo_heap = [0x1000 \<mapsto> \<lparr>prev = 0x3000, next = 0x2000, data = []\<rparr>,
     0x2000 \<mapsto> \<lparr>prev = 0x1000, next = 0x3000, data = [1]\<rparr>,
     0x3000 \<mapsto> \<lparr>prev = 0x2000, next = 0x1000, data = [2]\<rparr>]"

lemma demo_heap_dll: "dll demo_heap 0x1000 [0x2000, 0x3000]"
  by (simp add: demo_heap_def dll_def addr_ok_def list_elem_def nxt_def prv_def)

text \<open>
  C10. Insertion in front of an element and behind one. For a list that is split as \<open>ys\<close> and \<open>zs\<close>,
  \<open>list_insert_front\<close> at the first element of \<open>zs\<close> (or at the header, when \<open>zs\<close> is empty) and
  \<open>list_insert_back\<close> at the last of \<open>ys\<close> (or at the header) do the same to memory: a copy of the bytes
  becomes a new node between the two, its element is returned, the other elements keep their
  contents and no node outside the list is touched. Without memory the answer is \<open>nil\<close> and nothing
  changes.
\<close>

theorem list_insert_spec:
  assumes d: "dll h a (ys @ zs)"
    and e: "eptr elem \<noteq> nil" "list_node (eptr elem) \<notin> dom h" "ehead elem \<noteq> (PREV_MAGIC, NEXT_MAGIC)"
      "0 < elem_len" "nat elem_len \<le> length (ebytes elem)"
    and p: "p \<notin> dom h" "addr_ok p"
  shows "(\<exists>h'. list_insert_front h (Some p) (list_elem (hd (zs @ [a]))) elem elem_len = Some (list_elem p, h') \<and>
           list_insert_back h (Some p) (list_elem (last (a # ys))) elem elem_len = Some (list_elem p, h') \<and>
           dll h' a (ys @ p # zs) \<and>
           contents h' (ys @ p # zs) = contents h ys @ take (nat elem_len) (ebytes elem) # contents h zs \<and>
           (\<forall>q. q \<notin> set (a # ys @ p # zs) \<longrightarrow> h' q = h q)) \<and>
         list_insert_front h None (list_elem (hd (zs @ [a]))) elem elem_len = Some (nil, h) \<and>
         list_insert_back h None (list_elem (last (a # ys))) elem elem_len = Some (nil, h)"
proof -
  let ?h = "h(p \<mapsto> \<lparr>prev = p, next = p, data = take (nat elem_len) (ebytes elem)\<rparr>)"
  have pn: "p \<notin> set (a # ys @ zs)" using dll_dom [OF d] p(1) by blast
  have t: "take_node h (Some p) elem elem_len = Some (-1, p, ?h)"
    using take_node_new [OF e(2,3)] e(4,5) by simp
  have d': "dll ?h a (ys @ zs)" by (rule dll_other [OF d]) (use pn in auto)
  have pd: "p \<in> dom ?h" by simp
  obtain h' where h': "list_insert_front h (Some p) (list_elem (hd (zs @ [a]))) elem elem_len = Some (list_elem p, h')"
      "list_insert_back h (Some p) (list_elem (last (a # ys))) elem elem_len = Some (list_elem p, h')"
      "dll h' a (ys @ p # zs)" "dat h' = dat ?h" "\<forall>q. q \<notin> set (a # ys @ p # zs) \<longrightarrow> h' q = ?h q"
    using list_insert_ok [OF t d' pd pn p(2) e(1,4)] by blast
  have "contents h' (ys @ p # zs) = contents h ys @ take (nat elem_len) (ebytes elem) # contents h zs"
    using h'(4) pn by (auto simp: contents_def dat_def)
  moreover have "\<forall>q. q \<notin> set (a # ys @ p # zs) \<longrightarrow> h' q = h q" using h'(5) by simp
  moreover have "take_node h None elem elem_len = Some (-1, nil, h)"
    using e(2,3) by (simp add: take_node_def list_check_magic_def elem_links_def list_node_alloc_def
        domIff)
  ultimately show ?thesis
    using h'(1-3) e(1,4) by (simp add: list_insert_front_def list_insert_back_def del: last.simps)
qed

theorem list_insert_spec_witness:
  "\<exists>h'. list_insert_front demo_heap (Some 0x4000) (list_elem 0x3000)
      \<lparr>eptr = 0x9000, ehead = (0, 0), ebytes = [7, 8]\<rparr> 2 = Some (list_elem 0x4000, h') \<and>
    dll h' 0x1000 [0x2000, 0x4000, 0x3000] \<and> contents h' [0x2000, 0x4000, 0x3000] = [[1], [7, 8], [2]]"
  using list_insert_spec [of demo_heap "0x1000" "[0x2000]" "[0x3000]"
      "\<lparr>eptr = 0x9000, ehead = (0, 0), ebytes = [7, 8]\<rparr>" 2 "0x4000"] demo_heap_dll
  by (auto simp: demo_heap_def addr_ok_def list_elem_def list_node_def contents_def dat_def)

text \<open>
  C17. \<open>list_erase\<close> takes an element out of its list and returns the element before it (which is the
  header element for the first). With \<open>ELIST_ERASE_FULL\<close> its memory is given back. With
  \<open>ELIST_ERASE_PART\<close> its node keeps its bytes and carries the magic links; inserting it again at any
  place links the same node in without an allocation, with its contents.
\<close>

theorem list_erase_spec:
  assumes d: "dll h a (ys @ p # zs)"
  shows "\<exists>h'. list_erase h (list_elem a) (list_elem p) flag = Some (list_elem (last (a # ys)), h') \<and>
           dll h' a (ys @ zs) \<and> contents h' (ys @ zs) = contents h (ys @ zs) \<and>
           (\<forall>q. q \<notin> set (a # ys @ p # zs) \<longrightarrow> h' q = h q) \<and>
           (if flag = ELIST_ERASE_FULL then h' p = None
            else \<forall>us vs n. us @ vs = ys @ zs \<longrightarrow> 0 < n \<longrightarrow>
              (\<exists>h''. list_insert_front h' None (list_elem (hd (vs @ [a])))
                   \<lparr>eptr = list_elem p, ehead = (nil, nil), ebytes = []\<rparr> n = Some (list_elem p, h'') \<and>
                 dll h'' a (us @ p # vs) \<and> contents h'' (us @ p # vs) = contents h (us @ p # vs)))"
proof -
  obtain h' where h': "list_erase h (list_elem a) (list_elem p) flag = Some (list_elem (last (a # ys)), h')"
      "dll h' a (ys @ zs)" "\<forall>q. q \<noteq> p \<longrightarrow> dat h' q = dat h q" "\<forall>q. q \<notin> set (a # ys @ p # zs) \<longrightarrow> h' q = h q"
      "h' p = (if flag = ELIST_ERASE_FULL then None
               else map_option (\<lambda>nd. \<lparr>prev = PREV_MAGIC, next = NEXT_MAGIC, data = data nd\<rparr>) (h p))"
    using list_erase_ok [OF d, of flag] by blast
  have pa: "p \<notin> set (a # ys @ zs)" "addr_ok p" using d by (auto simp: dll_def)
  have c: "contents h' ns = contents h ns" if "set ns \<subseteq> set (ys @ zs)" for ns
    using that h'(3) pa unfolding contents_def by (intro map_cong) auto
  have "\<exists>h''. list_insert_front h' None (list_elem (hd (vs @ [a])))
          \<lparr>eptr = list_elem p, ehead = (nil, nil), ebytes = []\<rparr> n = Some (list_elem p, h'') \<and>
        dll h'' a (us @ p # vs) \<and> contents h'' (us @ p # vs) = contents h (us @ p # vs)"
    if f: "flag \<noteq> ELIST_ERASE_FULL" and uv: "us @ vs = ys @ zs" and n: "0 < n" for us vs n
  proof -
    let ?e = "\<lparr>eptr = list_elem p, ehead = (nil, nil), ebytes = []\<rparr>"
    obtain nd where nd: "h p = Some nd" using dll_dom [OF d] by auto
    have "take_node h' None ?e n = Some (0, p, h')"
      using take_node_erased [of h' ?e "data nd"] h'(5) f nd by simp
    moreover have "dll h' a (us @ vs)" "p \<notin> set (a # us @ vs)" "p \<in> dom h'" "eptr ?e \<noteq> nil"
      using h'(2,5) pa uv f nd by (auto simp: addr_ok_def)
    ultimately obtain h'' where h'': "list_insert_front h' None (list_elem (hd (vs @ [a]))) ?e n = Some (list_elem p, h'')"
        "dll h'' a (us @ p # vs)" "dat h'' = dat h'"
      using list_insert_ok pa(2) n by blast
    have "contents h'' (us @ p # vs) = contents h' us @ the (dat h' p) # contents h' vs"
      using h''(3) by (simp add: contents_def)
    moreover have "dat h' p = dat h p" using h'(5) f nd by (simp add: dat_def)
    moreover have "set us \<subseteq> set (ys @ zs)" "set vs \<subseteq> set (ys @ zs)"
      by (simp_all only: uv [symmetric] set_append Un_upper1 Un_upper2)
    ultimately have "contents h'' (us @ p # vs) = contents h (us @ p # vs)"
      using c [of us] c [of vs] by (simp add: contents_def)
    then show ?thesis using h'' by blast
  qed
  then show ?thesis using h' c [of "ys @ zs"] by (auto simp del: last.simps)
qed

theorem list_erase_spec_witness:
  "\<exists>h'. list_erase demo_heap (list_elem 0x1000) (list_elem 0x2000) ELIST_ERASE_FULL = Some (list_elem 0x1000, h') \<and>
    dll h' 0x1000 [0x3000] \<and> h' 0x2000 = None"
  using list_erase_spec [of demo_heap "0x1000" "[]" "0x2000" "[0x3000]" ELIST_ERASE_FULL] demo_heap_dll
  by auto

lemma dll_head:
  assumes "dll h a ns"
  shows "addr_ok a" "hd (ns @ [a]) = a \<longleftrightarrow> ns = []"
  using assms by (auto simp: dll_def hd_append)

lemma list_empty_ok:
  assumes d: "dll h a ns"
  shows "list_empty h (list_elem a) = Some (if ns = [] then 0 else -1)"
proof -
  obtain nd where nd: "h a = Some nd" "next nd = hd (ns @ [a])"
    using dll_nodes [of h a "[]" ns] d by auto
  then show ?thesis using dll_head [OF d] by (simp add: list_empty_def addr_ok_def)
qed

lemma list_clear_ok:
  assumes d: "dll h a ns"
  shows "\<exists>h'. list_clear h (list_elem a) = Some h' \<and> dll h' a [] \<and> dom h' = dom h - set ns \<and> (\<forall>q. q \<notin> set (a # ns) \<longrightarrow> h' q = h q)"
proof -
  obtain h' where h': "list_clear_loop h (list_elem a) (list_elem (hd (ns @ [a]))) = Some h'" "dll h' a []"
      "dom h' = dom h - set ns" "\<forall>q. q \<notin> set (a # ns) \<longrightarrow> h' q = h q"
    using list_clear_loop_ok [OF d] by blast
  have "list_next_elem h (list_elem a) = Some (list_elem (hd (ns @ [a])))"
    using list_next_ok [of h a "[]" ns] d by simp
  then have "list_clear h (list_elem a) = Some h'"
    using h'(1) dll_head(1) [OF d] by (simp add: list_clear_def addr_ok_def)
  then show ?thesis using h'(2-4) by blast
qed

lemma list_uninit_ok:
  assumes d: "dll h a ns"
  shows "\<exists>h'. list_uninit h (Some (list_elem a)) = Some (h', Some nil) \<and> dom h' = dom h - set (a # ns) \<and>
    (\<forall>q. q \<notin> set (a # ns) \<longrightarrow> h' q = h q)"
proof -
  obtain h' where h': "list_clear h (list_elem a) = Some h'" "dll h' a []" "dom h' = dom h - set ns" "\<forall>q. q \<notin> set (a # ns) \<longrightarrow> h' q = h q"
    using list_clear_ok [OF d] by blast
  moreover obtain nd where "h' a = Some nd" using dll_dom [OF h'(2)] by auto
  ultimately have "list_uninit h (Some (list_elem a)) = Some (h'(a := None), Some nil)"
    using dll_head(1) [OF d] by (simp add: list_uninit_def list_erase_def list_node_dealloc_def addr_ok_def)
  moreover have "dom (h'(a := None)) = dom h - set (a # ns)" using h'(3) by auto
  ultimately show ?thesis using h'(4) by auto
qed

text \<open>
  \<open>list_clear\<close> ends, gives back exactly the nodes of the list and leaves it empty;
  \<open>list_uninit\<close> gives back the header too and sets the handle to \<open>nil\<close>. No other node changes.
\<close>

theorem list_clear_spec:
  assumes d: "dll h a ns"
  shows "(\<exists>h'. list_clear h (list_elem a) = Some h' \<and> dll h' a [] \<and> dom h' = dom h - set ns \<and>
            (\<forall>q. q \<notin> set (a # ns) \<longrightarrow> h' q = h q)) \<and>
         (\<exists>h'. list_uninit h (Some (list_elem a)) = Some (h', Some nil) \<and> dom h' = dom h - set (a # ns) \<and>
            (\<forall>q. q \<notin> set (a # ns) \<longrightarrow> h' q = h q))"
  by (intro conjI list_clear_ok list_uninit_ok d)

theorem list_clear_spec_witness:
  "\<exists>h'. list_clear demo_heap (list_elem 0x1000) = Some h' \<and> dll h' 0x1000 []"
  using list_clear_spec [OF demo_heap_dll] by blast

text \<open>
  What can be read off a list: \<open>list_size\<close> is the number of elements (up to \<open>N4_MAX\<close> of them),
  \<open>list_empty\<close> is 0 exactly for an empty list, \<open>list_first\<close> and \<open>list_last\<close> are the ends or \<open>nil\<close>, and
  \<open>list_next_elem\<close> and \<open>list_prev_elem\<close> step between neighbours, through the header at the ends.
\<close>

theorem list_read_spec:
  assumes d: "dll h a ns" and n: "length ns < 2 ^ 31"
  shows "list_size h (list_elem a) = Some (int (length ns)) \<and>
         list_empty h (list_elem a) = Some (if ns = [] then 0 else -1) \<and>
         list_first h (list_elem a) = Some (if ns = [] then nil else list_elem (hd ns)) \<and>
         list_last h (list_elem a) = Some (if ns = [] then nil else list_elem (last ns)) \<and>
         (\<forall>ys zs. ns = ys @ zs \<longrightarrow>
            list_next_elem h (list_elem (last (a # ys))) = Some (list_elem (hd (zs @ [a]))) \<and>
            list_prev_elem h (list_elem (hd (zs @ [a]))) = Some (list_elem (last (a # ys))))"
proof -
  note a = dll_head [OF d]
  obtain nd where nd: "h a = Some nd" "next nd = hd (ns @ [a])"
    using dll_nodes [of h a "[]" ns] d by auto
  obtain nd' where nd': "h a = Some nd'" "prev nd' = last (a # ns)"
    using dll_nodes [of h a ns "[]"] d by auto
  have nx: "list_next_elem h (list_elem a) = Some (list_elem (hd (ns @ [a])))"
    using list_next_ok [of h a "[]" ns] d by simp
  have "list_size h (list_elem a) = Some (int (length ns))"
    using list_size_loop_ok [of h a "[]" ns 0] d n a nx by (auto simp: list_size_def addr_ok_def)
  moreover have "list_first h (list_elem a) = Some (if ns = [] then nil else list_elem (hd ns))"
    using a nd by (simp add: list_first_def list_empty_ok [OF d] addr_ok_def)
  moreover have "list_last h (list_elem a) = Some (if ns = [] then nil else list_elem (last ns))"
    using a nd' by (simp add: list_last_def list_empty_ok [OF d] addr_ok_def)
  ultimately show ?thesis
    using list_empty_ok [OF d] list_next_ok list_prev_ok d by blast
qed

theorem list_read_spec_witness:
  "list_size demo_heap (list_elem 0x1000) = Some 2 \<and> list_last demo_heap (list_elem 0x1000) = Some (list_elem 0x3000)"
  using list_read_spec [OF demo_heap_dll] by simp

text \<open>
  C24. \<open>list_move_front\<close> and \<open>list_move_back\<close> take an element out of its list and link it in at a place
  of another list, or at another place of the same list, without copying or allocating: the
  element and its bytes stay where they are, and both lists are intact afterwards.
\<close>

theorem list_move_spec:
  assumes "dll h a (ys @ p # zs)"
    and "if b = a then us @ vs = ys @ zs
      else dll h b (us @ vs) \<and> set (b # us @ vs) \<inter> set (a # ys @ p # zs) = {}"
  shows "\<exists>h'. list_move_front h (list_elem (hd (vs @ [b]))) (list_elem p) = Some (0, h') \<and>
           list_move_back h (list_elem (last (b # us))) (list_elem p) = Some (0, h') \<and>
           dll h' b (us @ p # vs) \<and> (b \<noteq> a \<longrightarrow> dll h' a (ys @ zs)) \<and> dat h' = dat h"
  using list_move_ok [OF assms] by blast

theorem list_move_spec_witness:
  "\<exists>h'. list_move_front demo_heap (list_elem 0x1000) (list_elem 0x2000) = Some (0, h') \<and>
     dll h' 0x1000 [0x3000, 0x2000]"
  using list_move_spec [of demo_heap "0x1000" "[]" "0x2000" "[0x3000]" "0x1000" "[0x3000]" "[]"] demo_heap_dll
  by auto

text \<open>
  \<open>list_insert_back\<close> guards against a length of zero only: a negative length reaches the
  allocation of a block smaller than the node that is written to it, where \<open>list_insert_front\<close>
  answers \<open>nil\<close>.
\<close>

theorem list_insert_back_negative:
  assumes "cur \<noteq> nil" "eptr elem \<noteq> nil" "list_node (eptr elem) \<notin> dom h"
    "ehead elem \<noteq> (PREV_MAGIC, NEXT_MAGIC)" "elem_len < 0"
  shows "list_insert_back h (Some p) cur elem elem_len = None \<and>
         list_insert_front h (Some p) cur elem elem_len = Some (nil, h)"
  using assms by (simp add: list_insert_back_def list_insert_front_def take_node_def list_check_magic_def
      elem_links_def list_node_alloc_def domIff)

theorem list_insert_back_negative_witness:
  "list_insert_back demo_heap (Some 0x4000) (list_elem 0x1000)
     \<lparr>eptr = 0x9000, ehead = (0, 0), ebytes = [7]\<rparr> (-1) = None"
  using list_insert_back_negative [of "list_elem 0x1000" "\<lparr>eptr = 0x9000, ehead = (0, 0), ebytes = [7]\<rparr>" demo_heap "-1"]
  by (simp add: demo_heap_def list_elem_def list_node_def)

end
