(* ===== verification/Lisk_Mul_Hash.thy ===== *)
theory Lisk_Mul_Hash
  imports Lisk_Specs Lisk_Math Lisk_Hash "HOL-Library.Monad_Syntax"
begin

text \<open>
  The multi-row hash table of \<open>win_lisk/src/lisk_mul_hash.c\<close>: rows of ascending prime lengths in one
  block of shared memory; a key has one place in each row and takes the first that is free.

  \<^item> A place is the pair of its key bytes and its value bytes; the zeroed place is the pair of two
    empty strings (its sizes are 0). The places of all rows are one array, as in the code, and a
    place outside it is a fault, \<open>None\<close>.
  \<^item> The sizes are computed as in the code: the place size in 32 bits, the length of the data area in
    64 bits. Writing more than a place holds is a fault.
  \<^item> \<open>shm\<close> answers whether \<open>get_shm\<close> gave a block of the size asked for; the operating system is not
    modelled.

  \<open>mul_hash_insert\<close> does not look for the key. The table is a dictionary for clients that insert
  only keys that are not there, which is the interpretation at the end; what happens otherwise is
  a theorem of its own.
\<close>

section \<open>State and operations\<close>

type_synonym place = "u1 list \<times> u1 list"

record mul_hash_t =
  row :: int
  col :: int
  max_key_size :: nat
  max_value_size :: nat
  mh_cmp :: "u1 list \<Rightarrow> u1 list \<Rightarrow> int"
  prime :: "nat list"
  mh_data :: "place list"

abbreviation (input) "MAX_HASH_ROW \<equiv> 1000 :: int"
abbreviation (input) "HEAD_BYTES \<equiv> 24 :: nat"
abbreviation (input) "SHM_BYTES \<equiv> 280 :: nat"
abbreviation (input) "MUL_HASH_BYTES \<equiv> 46 :: nat"

definition get_data_key :: "u1 list \<Rightarrow> nat" where
  "get_data_key bytes = (if bytes = [] then 0 else unat (bkdr64 bytes))"

text \<open>\<open>sizeof(key_t) + sizeof(value_t) + max_key_size + max_value_size\<close> in a \<open>u4\<close>.\<close>

definition elem_size :: "nat \<Rightarrow> nat \<Rightarrow> nat" where
  "elem_size mk mv = (HEAD_BYTES + mk + mv) mod 2 ^ 32"

definition mul_hash_init :: "(nat \<Rightarrow> bool) \<Rightarrow> bool \<Rightarrow> int \<Rightarrow> int \<Rightarrow> nat \<Rightarrow> nat \<Rightarrow>
    (u1 list \<Rightarrow> u1 list \<Rightarrow> int) option \<Rightarrow> n4 \<times> mul_hash_t option" where
  "mul_hash_init shm mul_hash r c mk mv cmp_ptr =
     (if \<not> mul_hash \<or> r \<le> 1 \<or> MAX_HASH_ROW \<le> r \<or> c < 1 \<or> mk = 0 \<or> mv = 0 \<or> cmp_ptr = None then (-1, None)
      else
        (let (num, primes) = get_prime_arr c r True in
         if num < r then (-2, None)
         else
           (let elem_num = n8_wrap (sum_list primes);
                shm_size = nat (elem_num * int (elem_size mk mv) mod 2 ^ 64);
                total_size = (SHM_BYTES + MUL_HASH_BYTES + 8 * nat r + shm_size) mod 2 ^ 64 in
            if \<not> shm total_size then (-2, None)
            else
              (0, Some \<lparr>row = r, col = c, max_key_size = mk, max_value_size = mv, mh_cmp = the cmp_ptr,
                 prime = map nat primes,
                 mh_data = replicate ((total_size - (SHM_BYTES + MUL_HASH_BYTES + 8 * nat r)) div elem_size mk mv)
                   ([], [])\<rparr>))))"

text \<open>\<open>release_shm\<close> is the operating system's; the handle becomes \<open>nil\<close>.\<close>

definition mul_hash_free :: "mul_hash_t option \<Rightarrow> n4 \<times> mul_hash_t option" where
  "mul_hash_free mul_hash = (0, None)"

text \<open>
  The loop over the rows, which the three operations share up to the test they stop at: the place
  of the key in each row in turn. The result is the index of the place, if any.
\<close>

fun row_loop :: "(place \<Rightarrow> bool) \<Rightarrow> nat \<Rightarrow> nat \<Rightarrow> nat list \<Rightarrow> place list \<Rightarrow> nat option option" where
  "row_loop test hash start_pos [] cells = Some None"
| "row_loop test hash start_pos (p # ps) cells =
     (if p = 0 \<or> length cells \<le> start_pos + hash mod p then None
      else if test (cells ! (start_pos + hash mod p)) then Some (Some (start_pos + hash mod p))
      else row_loop test hash (start_pos + p) ps cells)"

definition mul_hash_insert :: "mul_hash_t option \<Rightarrow> u1 list option \<Rightarrow> u1 list option \<Rightarrow>
    (n4 \<times> mul_hash_t option) option" where
  "mul_hash_insert mul_hash key_ptr value_ptr =
     (case (mul_hash, key_ptr, value_ptr) of
        (Some mh, Some key, Some val) \<Rightarrow>
          if key = [] \<or> val = [] then Some (-1, mul_hash)
          else if max_key_size mh < length key \<or> max_value_size mh < length val then Some (-1, mul_hash)
          else do {
            let hash_key = get_data_key key;
            place \<leftarrow> row_loop (\<lambda>cell. fst cell = []) hash_key 0 (prime mh) (mh_data mh);
            (case place of
               None \<Rightarrow> Some (-2, mul_hash)
             | Some i \<Rightarrow>
                 if elem_size (max_key_size mh) (max_value_size mh) < HEAD_BYTES + length key + length val
                 then None
                 else Some (0, Some (mh\<lparr>mh_data := (mh_data mh)[i := (key, val)]\<rparr>))) }
      | _ \<Rightarrow> Some (-1, mul_hash))"

definition mul_hash_find :: "mul_hash_t option \<Rightarrow> u1 list option \<Rightarrow> bool \<Rightarrow> (n4 \<times> u1 list option) option" where
  "mul_hash_find mul_hash key_ptr value_ptr =
     (case (mul_hash, key_ptr) of
        (Some mh, Some key) \<Rightarrow>
          if \<not> value_ptr \<or> key = [] then Some (-1, None)
          else do {
            let hash_key = get_data_key key;
            place \<leftarrow> row_loop (\<lambda>cell. snd cell \<noteq> [] \<and> length (fst cell) = length key \<and> mh_cmp mh (fst cell) key = 0)
              hash_key 0 (prime mh) (mh_data mh);
            (case place of
               None \<Rightarrow> Some (-2, None)
             | Some i \<Rightarrow> Some (0, Some (snd (mh_data mh ! i)))) }
      | _ \<Rightarrow> Some (-1, None))"

definition mul_hash_erase :: "mul_hash_t option \<Rightarrow> u1 list option \<Rightarrow> (n4 \<times> mul_hash_t option) option" where
  "mul_hash_erase mul_hash key_ptr =
     (case (mul_hash, key_ptr) of
        (Some mh, Some key) \<Rightarrow>
          if key = [] then Some (-1, mul_hash)
          else do {
            let hash_key = get_data_key key;
            place \<leftarrow> row_loop (\<lambda>cell. length (fst cell) = length key \<and> mh_cmp mh (fst cell) key = 0)
              hash_key 0 (prime mh) (mh_data mh);
            (case place of
               None \<Rightarrow> Some (-2, mul_hash)
             | Some i \<Rightarrow> Some (0, Some (mh\<lparr>mh_data := (mh_data mh)[i := ([], [])]\<rparr>))) }
      | _ \<Rightarrow> Some (-1, mul_hash))"

section \<open>Invariant and abstraction\<close>

text \<open>The places of a key, row by row.\<close>

fun slots :: "nat \<Rightarrow> nat \<Rightarrow> nat list \<Rightarrow> nat list" where
  "slots hash start_pos [] = []"
| "slots hash start_pos (p # ps) = (start_pos + hash mod p) # slots hash (start_pos + p) ps"

definition mh_slots :: "mul_hash_t \<Rightarrow> u1 list \<Rightarrow> nat list" where
  "mh_slots mh key = slots (get_data_key key) 0 (prime mh)"

definition mh_map :: "mul_hash_t \<Rightarrow> u1 list \<Rightarrow> u1 list option" where
  "mh_map mh key = (if key = [] then None else map_of (mh_data mh) key)"

definition mh_wf :: "mul_hash_t \<Rightarrow> bool" where
  "mh_wf mh \<longleftrightarrow> (\<forall>p \<in> set (prime mh). 0 < p) \<and> length (mh_data mh) = sum_list (prime mh) \<and>
     HEAD_BYTES + max_key_size mh + max_value_size mh < 2 ^ 32"

definition mh_inv :: "mul_hash_t \<Rightarrow> bool" where
  "mh_inv mh \<longleftrightarrow> mh_wf mh \<and>
     (\<forall>i < length (mh_data mh). fst (mh_data mh ! i) \<noteq> [] \<longrightarrow>
        i \<in> set (mh_slots mh (fst (mh_data mh ! i))) \<and> snd (mh_data mh ! i) \<noteq> []) \<and>
     (\<forall>i < length (mh_data mh). \<forall>j < length (mh_data mh).
        fst (mh_data mh ! i) = fst (mh_data mh ! j) \<longrightarrow> fst (mh_data mh ! i) \<noteq> [] \<longrightarrow> i = j)"

definition mh_cmp_eq :: "(u1 list \<Rightarrow> u1 list \<Rightarrow> int) \<Rightarrow> bool" where
  "mh_cmp_eq c \<longleftrightarrow> (\<forall>a b. c a b = 0 \<longleftrightarrow> a = b)"

section \<open>The rows\<close>

lemma row_loop_find:
  "(\<forall>p \<in> set ps. 0 < p) \<Longrightarrow> start_pos + sum_list ps \<le> length cells \<Longrightarrow>
     row_loop test hash start_pos ps cells = Some (List.find (\<lambda>i. test (cells ! i)) (slots hash start_pos ps))"
proof (induction ps arbitrary: start_pos)
  case (Cons p ps)
  have "hash mod p < p" using Cons.prems by simp
  then have "start_pos + hash mod p < length cells" using Cons.prems(2) by simp
  then show ?case using Cons by simp
qed simp

lemma slots_bound:
  "(\<forall>p \<in> set ps. 0 < p) \<Longrightarrow> i \<in> set (slots hash start_pos ps) \<Longrightarrow> i < start_pos + sum_list ps"
proof (induction ps arbitrary: start_pos)
  case (Cons p ps)
  have "hash mod p < p" using Cons.prems by simp
  moreover have "i < start_pos + p + sum_list ps" if "i \<in> set (slots hash (start_pos + p) ps)"
    using Cons.IH [OF _ that] Cons.prems(1) by simp
  ultimately show ?case using Cons.prems(2) by auto
qed simp

lemma mh_loop:
  assumes "mh_wf mh"
  shows "row_loop test (get_data_key key) 0 (prime mh) (mh_data mh) =
    Some (List.find (\<lambda>i. test (mh_data mh ! i)) (mh_slots mh key))"
  using assms row_loop_find by (simp add: mh_wf_def mh_slots_def)

lemma mh_slots_bound: "mh_wf mh \<Longrightarrow> i \<in> set (mh_slots mh key) \<Longrightarrow> i < length (mh_data mh)"
  using slots_bound [of "prime mh" i "get_data_key key" 0] by (simp add: mh_wf_def mh_slots_def)

lemma find_member: "List.find P xs = Some i \<Longrightarrow> i \<in> set xs \<and> P i"
  by (auto simp: find_Some_iff)

text \<open>The map, by places.\<close>

lemma mh_map_Some:
  assumes "mh_inv mh"
  shows "mh_map mh key = Some val \<longleftrightarrow> key \<noteq> [] \<and> (\<exists>i < length (mh_data mh). mh_data mh ! i = (key, val))"
proof (cases "key = []")
  case False
  have u: "w = val" if "(key, w) \<in> set (mh_data mh)" "(key, val) \<in> set (mh_data mh)" for w val
  proof -
    obtain i j where "i < length (mh_data mh)" "mh_data mh ! i = (key, w)"
        "j < length (mh_data mh)" "mh_data mh ! j = (key, val)"
      using \<open>(key, w) \<in> _\<close> \<open>(key, val) \<in> _\<close> by (auto simp: in_set_conv_nth)
    then show ?thesis using assms False by (metis fst_conv mh_inv_def snd_conv)
  qed
  have "map_of (mh_data mh) key = Some val \<longleftrightarrow> (key, val) \<in> set (mh_data mh)"
  proof
    assume "(key, val) \<in> set (mh_data mh)"
    moreover obtain w where "map_of (mh_data mh) key = Some w" using calculation weak_map_of_SomeI by metis
    ultimately show "map_of (mh_data mh) key = Some val" using u [of w val] map_of_SomeD by metis
  qed (rule map_of_SomeD)
  then show ?thesis using False by (simp add: mh_map_def in_set_conv_nth)
qed (simp add: mh_map_def)

lemma mh_map_eqI:
  assumes "mh_inv mh"
    and "\<And>k v. (k \<noteq> [] \<and> (\<exists>i < length (mh_data mh). mh_data mh ! i = (k, v))) \<longleftrightarrow> m k = Some v"
  shows "mh_map mh = m"
proof
  fix k
  have "mh_map mh k = Some v \<longleftrightarrow> m k = Some v" for v
    using mh_map_Some [OF assms(1)] assms(2) by simp
  then show "mh_map mh k = m k" by (metis option.exhaust)
qed

lemma mh_at_slot:
  assumes inv: "mh_inv mh" and i: "i < length (mh_data mh)" "mh_data mh ! i = (key, val)" "key \<noteq> []"
  shows "i \<in> set (mh_slots mh key)" "val \<noteq> []"
  using inv i unfolding mh_inv_def by (metis fst_conv, metis fst_conv snd_conv)

section \<open>The operations on the map\<close>

lemma mul_find_ok:
  assumes inv: "mh_inv mh" and c: "mh_cmp_eq (mh_cmp mh)" and key: "key \<noteq> []"
  shows "mul_hash_find (Some mh) (Some key) True = Some (if mh_map mh key = None then -2 else 0, mh_map mh key)"
proof -
  let ?test = "\<lambda>cell. snd cell \<noteq> [] \<and> length (fst cell) = length key \<and> mh_cmp mh (fst cell) key = 0"
  have wf: "mh_wf mh" using inv by (simp add: mh_inv_def)
  have t: "?test cell \<longleftrightarrow> snd cell \<noteq> [] \<and> fst cell = key" for cell
    using c by (auto simp: mh_cmp_eq_def)
  show ?thesis
  proof (cases "List.find (\<lambda>i. ?test (mh_data mh ! i)) (mh_slots mh key)")
    case None
    have "mh_map mh key = None"
    proof (rule ccontr)
      assume "mh_map mh key \<noteq> None"
      then obtain val i where i: "i < length (mh_data mh)" "mh_data mh ! i = (key, val)"
        using mh_map_Some [OF inv] by auto
      then show False using None mh_at_slot [OF inv i key] unfolding t by (auto simp: find_None_iff)
    qed
    then show ?thesis using None key by (simp add: mul_hash_find_def mh_loop [OF wf])
  next
    case (Some i)
    then have i: "i \<in> set (mh_slots mh key)" "fst (mh_data mh ! i) = key"
      using find_member unfolding t by fastforce+
    then have "mh_map mh key = Some (snd (mh_data mh ! i))"
      using mh_map_Some [OF inv] mh_slots_bound [OF wf] key by (metis prod.collapse)
    then show ?thesis using Some key by (simp add: mul_hash_find_def mh_loop [OF wf])
  qed
qed

lemma mh_set_inv:
  assumes inv: "mh_inv mh" and i: "i < length (mh_data mh)"
    and k: "key \<noteq> [] \<Longrightarrow> i \<in> set (mh_slots mh key) \<and> val \<noteq> [] \<and> (\<forall>j < length (mh_data mh). j \<noteq> i \<longrightarrow> fst (mh_data mh ! j) \<noteq> key)"
  shows "mh_inv (mh\<lparr>mh_data := (mh_data mh)[i := (key, val)]\<rparr>)"
proof -
  let ?m = "mh\<lparr>mh_data := (mh_data mh)[i := (key, val)]\<rparr>"
  have s: "mh_slots ?m = mh_slots mh" by (simp add: mh_slots_def fun_eq_iff)
  have at: "mh_data ?m ! j = (if j = i then (key, val) else mh_data mh ! j)" if "j < length (mh_data mh)" for j
    using that by (simp add: nth_list_update)
  have "mh_wf ?m" using inv by (simp add: mh_inv_def mh_wf_def)
  moreover have "j \<in> set (mh_slots ?m (fst (mh_data ?m ! j))) \<and> snd (mh_data ?m ! j) \<noteq> []"
    if "j < length (mh_data ?m)" "fst (mh_data ?m ! j) \<noteq> []" for j
    using that at [of j] inv k unfolding s mh_inv_def by (cases "j = i") simp_all
  moreover have "j = l" if "j < length (mh_data ?m)" "l < length (mh_data ?m)"
      "fst (mh_data ?m ! j) = fst (mh_data ?m ! l)" "fst (mh_data ?m ! j) \<noteq> []" for j l
  proof -
    have "j < length (mh_data mh)" "l < length (mh_data mh)" using that by simp_all
    then show ?thesis
      using that at [of j] at [of l] k inv unfolding mh_inv_def by (cases "j = i"; cases "l = i") auto
  qed
  ultimately show ?thesis unfolding mh_inv_def by blast
qed

lemma place_update:
  "i < length cells \<Longrightarrow> (\<exists>j < length cells. cells[i := c] ! j = x) \<longleftrightarrow> c = x \<or> (\<exists>j < length cells. j \<noteq> i \<and> cells ! j = x)"
  by (auto simp: nth_list_update split: if_splits)

lemma mul_insert_ok:
  assumes inv: "mh_inv mh" and key: "key \<noteq> []" "val \<noteq> []" "length key \<le> max_key_size mh"
      "length val \<le> max_value_size mh" and new: "mh_map mh key = None"
  shows "\<exists>ret mh'. mul_hash_insert (Some mh) (Some key) (Some val) = Some (ret, Some mh') \<and> mh_inv mh' \<and>
           mh_cmp mh' = mh_cmp mh \<and>
           (if \<exists>i \<in> set (mh_slots mh key). fst (mh_data mh ! i) = []
            then ret = 0 \<and> mh_map mh' = (mh_map mh)(key \<mapsto> val) else ret = -2 \<and> mh' = mh)"
proof -
  have wf: "mh_wf mh" using inv by (simp add: mh_inv_def)
  have sz: "elem_size (max_key_size mh) (max_value_size mh) = 24 + max_key_size mh + max_value_size mh"
    using wf by (simp add: mh_wf_def elem_size_def)
  show ?thesis
  proof (cases "List.find (\<lambda>i. fst (mh_data mh ! i) = []) (mh_slots mh key)")
    case None
    then have "mul_hash_insert (Some mh) (Some key) (Some val) = Some (-2, Some mh)"
      using key by (simp add: mul_hash_insert_def mh_loop [OF wf])
    moreover have "\<not> (\<exists>i \<in> set (mh_slots mh key). fst (mh_data mh ! i) = [])"
      using None by (auto simp: find_None_iff)
    ultimately show ?thesis using inv by simp
  next
    case (Some i)
    then have i: "i \<in> set (mh_slots mh key)" "fst (mh_data mh ! i) = []" using find_member by fastforce+
    have il: "i < length (mh_data mh)" using mh_slots_bound [OF wf i(1)] .
    let ?m = "mh\<lparr>mh_data := (mh_data mh)[i := (key, val)]\<rparr>"
    have run: "mul_hash_insert (Some mh) (Some key) (Some val) = Some (0, Some ?m)"
      using key Some sz by (simp add: mul_hash_insert_def mh_loop [OF wf])
    have fresh: "fst (mh_data mh ! j) \<noteq> key" if "j < length (mh_data mh)" for j
      using new mh_map_Some [OF inv, of key "snd (mh_data mh ! j)"] key that by (metis option.distinct(1) prod.collapse)
    have inv': "mh_inv ?m" by (rule mh_set_inv [OF inv il]) (use i key fresh in auto)
    have "mh_map ?m = (mh_map mh)(key \<mapsto> val)"
    proof (rule mh_map_eqI [OF inv'])
      fix k v
      have "(\<exists>j < length (mh_data ?m). mh_data ?m ! j = (k, v)) \<longleftrightarrow>
          (key, val) = (k, v) \<or> (\<exists>j < length (mh_data mh). j \<noteq> i \<and> mh_data mh ! j = (k, v))"
        using place_update [OF il] by simp
      moreover have "(\<exists>j < length (mh_data mh). j \<noteq> i \<and> mh_data mh ! j = (k, v)) \<longleftrightarrow>
          (\<exists>j < length (mh_data mh). mh_data mh ! j = (k, v))" if "k \<noteq> []"
        using i(2) that by (metis fst_conv)
      moreover have "\<not> (\<exists>j < length (mh_data mh). mh_data mh ! j = (key, v))" using fresh by (metis fst_conv)
      ultimately show "(k \<noteq> [] \<and> (\<exists>j < length (mh_data ?m). mh_data ?m ! j = (k, v))) \<longleftrightarrow>
          ((mh_map mh)(key \<mapsto> val)) k = Some v"
        using mh_map_Some [OF inv, of k v] key(1) by (cases "k = key") auto
    qed
    then show ?thesis using run inv' i by auto
  qed
qed

lemma mul_erase_ok:
  assumes inv: "mh_inv mh" and c: "mh_cmp_eq (mh_cmp mh)" and key: "key \<noteq> []"
  shows "\<exists>mh'. mul_hash_erase (Some mh) (Some key) = Some (if mh_map mh key = None then -2 else 0, Some mh') \<and>
           mh_inv mh' \<and> mh_cmp mh' = mh_cmp mh \<and> mh_map mh' = (mh_map mh)(key := None)"
proof -
  let ?test = "\<lambda>cell. length (fst cell) = length key \<and> mh_cmp mh (fst cell) key = 0"
  have wf: "mh_wf mh" using inv by (simp add: mh_inv_def)
  have t: "?test cell \<longleftrightarrow> fst cell = key" for cell :: place
    using c by (auto simp: mh_cmp_eq_def)
  show ?thesis
  proof (cases "List.find (\<lambda>i. ?test (mh_data mh ! i)) (mh_slots mh key)")
    case None
    have "mh_map mh key = None"
    proof (rule ccontr)
      assume "mh_map mh key \<noteq> None"
      then obtain val i where i: "i < length (mh_data mh)" "mh_data mh ! i = (key, val)"
        using mh_map_Some [OF inv] by auto
      then show False using None mh_at_slot [OF inv i key] unfolding t by (auto simp: find_None_iff)
    qed
    then show ?thesis using None key inv
      by (simp add: mul_hash_erase_def mh_loop [OF wf] fun_upd_idem)
  next
    case (Some i)
    then have i: "i \<in> set (mh_slots mh key)" "fst (mh_data mh ! i) = key"
      using find_member unfolding t by fastforce+
    have il: "i < length (mh_data mh)" using mh_slots_bound [OF wf i(1)] .
    let ?m = "mh\<lparr>mh_data := (mh_data mh)[i := ([], [])]\<rparr>"
    have "mh_map mh key = Some (snd (mh_data mh ! i))"
      using mh_map_Some [OF inv] il i key by (metis prod.collapse)
    then have run: "mul_hash_erase (Some mh) (Some key) = Some (if mh_map mh key = None then -2 else 0, Some ?m)"
      using key Some by (simp add: mul_hash_erase_def mh_loop [OF wf])
    have inv': "mh_inv ?m" by (rule mh_set_inv [OF inv il]) simp
    have only: "j = i" if "j < length (mh_data mh)" "fst (mh_data mh ! j) = key" for j
      using that i il inv key unfolding mh_inv_def by metis
    have "mh_map ?m = (mh_map mh)(key := None)"
    proof (rule mh_map_eqI [OF inv'])
      fix k v
      have "(\<exists>j < length (mh_data ?m). mh_data ?m ! j = (k, v)) \<longleftrightarrow>
          k \<noteq> key \<and> (\<exists>j < length (mh_data mh). mh_data mh ! j = (k, v))" if k: "k \<noteq> []"
      proof -
        have "(\<exists>j < length (mh_data ?m). mh_data ?m ! j = (k, v)) \<longleftrightarrow>
            (\<exists>j < length (mh_data mh). j \<noteq> i \<and> mh_data mh ! j = (k, v))"
          using place_update [OF il, of "([], [])" "(k, v)"] k by simp
        then show ?thesis using only i(2) by (metis fst_conv)
      qed
      then show "(k \<noteq> [] \<and> (\<exists>j < length (mh_data ?m). mh_data ?m ! j = (k, v))) \<longleftrightarrow>
          ((mh_map mh)(key := None)) k = Some v"
        using mh_map_Some [OF inv, of k v] by auto
    qed
    then show ?thesis using run inv' by auto
  qed
qed

text \<open>A fresh table: the rows that were asked for, all places free.\<close>

lemma sum_list_nat: "(\<And>x. x \<in> set xs \<Longrightarrow> (0::int) \<le> x) \<Longrightarrow> int (sum_list (map nat xs)) = sum_list xs"
  by (induction xs) auto

lemma mul_init_ok:
  assumes r: "1 < r" "r < 1000" "1 \<le> c" "c \<le> N8_MAX" and m: "0 < mk" "0 < mv" "24 + mk + mv < 2 ^ 32"
    and primes: "get_prime_arr c r True = (num, primes)" "r \<le> num"
    and fit: "sum_list primes * int (24 + mk + mv) + 326 + 8 * r < 2 ^ 63"
    and shm: "\<And>n. shm n"
  shows "\<exists>mh. mul_hash_init shm True r c mk mv (Some cmp_ptr) = (0, Some mh) \<and> mh_inv mh \<and>
           mh_map mh = Map.empty \<and> mh_cmp mh = cmp_ptr \<and> max_key_size mh = mk \<and> max_value_size mh = mv \<and>
           length (prime mh) = nat r \<and> sorted_wrt (<) (nat c # prime mh)"
proof -
  have "get_prime_arr_loop (nat r) c [] = (num, primes)" "num \<noteq> -1" "0 \<le> c"
    using r primes by (auto simp: get_prime_arr_def split: if_splits)
  from get_prime_arr_loop_spec [OF this r(4)] have p: "length primes = nat r" "sorted_wrt (<) (c # primes)"
    by auto
  then have pos: "0 < x" "c < x" if "x \<in> set primes" for x using r(3) that by auto
  have sum: "int (sum_list (map nat primes)) = sum_list primes" "0 \<le> sum_list primes"
    using sum_list_nat [of primes] pos by (auto intro!: sum_list_nonneg simp: less_imp_le)
  let ?n = "sum_list (map nat primes)" and ?e = "24 + mk + mv"
  have e: "elem_size mk mv = ?e" using m by (simp add: elem_size_def)
  have b: "int (?n * ?e + 326 + 8 * nat r) < 2 ^ 63" using fit sum r by simp
  then have bn: "?n * ?e + 326 + 8 * nat r < 2 ^ 63"
    by (metis of_nat_less_iff of_nat_numeral of_nat_power)
  have "sum_list primes \<le> sum_list primes * int ?e" using sum(2) m by (simp add: mult_le_cancel_left1)
  then have w: "n8_wrap (sum_list primes) = sum_list primes"
    using fit sum(2) r by (simp add: n8_wrap_def)
  have "sum_list primes * int ?e mod 2 ^ 64 = int (?n * ?e)"
    using fit sum r by simp
  then have shm_size: "nat (n8_wrap (sum_list primes) * int (elem_size mk mv) mod 2 ^ 64) = ?n * ?e"
    unfolding w e by (metis nat_int)
  have tot: "(280 + 46 + 8 * nat r + ?n * ?e) mod 2 ^ 64 = 280 + 46 + 8 * nat r + ?n * ?e"
    using bn by simp
  define mh where "mh = \<lparr>row = r, col = c, max_key_size = mk, max_value_size = mv, mh_cmp = cmp_ptr,
    prime = map nat primes, mh_data = replicate ?n ([], [])\<rparr>"
  have "mul_hash_init shm True r c mk mv (Some cmp_ptr) = (0, Some mh)"
    unfolding mul_hash_init_def primes(1) Let_def prod.case shm_size
    unfolding tot e mh_def using r m primes(2) shm by simp
  moreover have "mh_inv mh" using pos m by (auto simp: mh_inv_def mh_wf_def mh_def)
  moreover have "mh_map mh k = None" for k
    by (auto simp: mh_map_def mh_def map_of_eq_None_iff)
  then have "mh_map mh = Map.empty" by blast
  moreover have "sorted_wrt (<) (nat c # prime mh)"
    using p(2) pos r(3) by (auto simp: mh_def sorted_wrt_map elim!: sorted_wrt_mono_rel [rotated])
  ultimately show ?thesis using p(1) by (simp add: mh_def)
qed

section \<open>A dictionary for new keys\<close>

definition mh_state :: "mul_hash_t option \<Rightarrow> bool" where
  "mh_state s = (case s of None \<Rightarrow> False | Some mh \<Rightarrow> mh_inv mh \<and> mh_cmp_eq (mh_cmp mh))"

definition mh_abs :: "mul_hash_t option \<Rightarrow> u1 list \<Rightarrow> u1 list option" where
  "mh_abs s = (case s of None \<Rightarrow> Map.empty | Some mh \<Rightarrow> mh_map mh)"

definition mh_can_insert :: "mul_hash_t option \<Rightarrow> u1 list \<Rightarrow> u1 list \<Rightarrow> bool" where
  "mh_can_insert s key val = (case s of None \<Rightarrow> False | Some mh \<Rightarrow> val \<noteq> [] \<and>
     length key \<le> max_key_size mh \<and> length val \<le> max_value_size mh \<and> mh_map mh key = None)"

definition mh_lookup :: "mul_hash_t option \<Rightarrow> u1 list \<Rightarrow> (n4 \<times> mul_hash_t option \<times> u1 list option) option" where
  "mh_lookup s key = map_option (\<lambda>(c, v). (c, s, v)) (mul_hash_find s (Some key) True)"

interpretation md: dictionary mh_state mh_abs "\<lambda>key. key \<noteq> []" mh_can_insert mh_lookup
  "\<lambda>s key val. mul_hash_insert s (Some key) (Some val)" "\<lambda>s key. mul_hash_erase s (Some key)"
proof (unfold_locales, goal_cases)
  case (1 s k)
  then obtain mh where mh: "s = Some mh" "mh_inv mh" "mh_cmp_eq (mh_cmp mh)"
    by (auto simp: mh_state_def split: option.splits)
  show ?case using mul_find_ok [OF mh(2,3) 1(2)] mh by (auto simp: mh_lookup_def mh_state_def mh_abs_def)
next
  case (2 s k v)
  then obtain mh where mh: "s = Some mh" "mh_inv mh" "mh_cmp_eq (mh_cmp mh)" "v \<noteq> []"
      "length k \<le> max_key_size mh" "length v \<le> max_value_size mh" "mh_map mh k = None"
    by (auto simp: mh_state_def mh_can_insert_def split: option.splits)
  obtain ret mh' where "mul_hash_insert (Some mh) (Some k) (Some v) = Some (ret, Some mh')" "mh_inv mh'"
      "mh_cmp mh' = mh_cmp mh"
      "if \<exists>i \<in> set (mh_slots mh k). fst (mh_data mh ! i) = []
       then ret = 0 \<and> mh_map mh' = (mh_map mh)(k \<mapsto> v) else ret = -2 \<and> mh' = mh"
    using mul_insert_ok [OF mh(2) 2(2) mh(4-7)] by blast
  then show ?case using mh by (auto simp: mh_state_def mh_abs_def split: if_splits)
next
  case (3 s k)
  then obtain mh where mh: "s = Some mh" "mh_inv mh" "mh_cmp_eq (mh_cmp mh)"
    by (auto simp: mh_state_def split: option.splits)
  show ?case using mul_erase_ok [OF mh(2,3) 3(2)] mh by (auto simp: mh_state_def mh_abs_def)
qed

section \<open>Properties\<close>

definition mh_demo_cmp :: "u1 list \<Rightarrow> u1 list \<Rightarrow> int" where
  "mh_demo_cmp a b = (if a = b then 0 else 1)"

definition mh_demo :: mul_hash_t where
  "mh_demo = \<lparr>row = 2, col = 3, max_key_size = 4, max_value_size = 8, mh_cmp = mh_demo_cmp,
     prime = [5, 7], mh_data = replicate 12 ([], [])\<rparr>"

lemma mh_demo_inv: "mh_inv mh_demo" "mh_cmp_eq (mh_cmp mh_demo)" "mh_map mh_demo = Map.empty"
proof -
  show "mh_inv mh_demo" by (simp add: mh_inv_def mh_wf_def mh_demo_def)
  show "mh_cmp_eq (mh_cmp mh_demo)" by (simp add: mh_cmp_eq_def mh_demo_def mh_demo_cmp_def)
  have "mh_map mh_demo k = None" for k by (auto simp: mh_map_def mh_demo_def map_of_eq_None_iff)
  then show "mh_map mh_demo = Map.empty" by blast
qed

text \<open>
  \<open>mul_hash_init\<close> makes as many rows as asked for, of strictly ascending lengths above \<open>col\<close>, in
  one block that holds exactly their places, all free; the table then is an empty map that
  satisfies the invariant of the operations.
\<close>

theorem mul_hash_init_spec:
  assumes "1 < r" "r < 1000" "1 \<le> c" "c \<le> N8_MAX" "0 < mk" "0 < mv" "24 + mk + mv < 2 ^ 32"
    "get_prime_arr c r True = (num, primes)" "r \<le> num"
    "sum_list primes * int (24 + mk + mv) + 326 + 8 * r < 2 ^ 63" "\<And>n. shm n"
  shows "\<exists>mh. mul_hash_init shm True r c mk mv (Some cmp_ptr) = (0, Some mh) \<and> mh_inv mh \<and>
           mh_map mh = Map.empty \<and> mh_cmp mh = cmp_ptr \<and> max_key_size mh = mk \<and> max_value_size mh = mv \<and>
           length (prime mh) = nat r \<and> sorted_wrt (<) (nat c # prime mh)"
  using mul_init_ok [OF assms] .

theorem mul_hash_init_spec_witness:
  "\<exists>mh. mul_hash_init (\<lambda>n. True) True 2 3 4 8 (Some mh_demo_cmp) = (0, Some mh) \<and> mh_inv mh"
proof -
  have "get_prime_arr 3 2 True = (7, [5, 7])" by code_simp
  then show ?thesis
    using mul_hash_init_spec [where r = 2 and c = 3 and mk = 4 and mv = 8 and num = 7 and primes = "[5, 7]"
        and shm = "\<lambda>n. True" and cmp_ptr = mh_demo_cmp] by auto
qed

text \<open>
  C18. A client that inserts only keys that are not there sees a dictionary: the insertion fails
  exactly when the place of the key is taken in every row, and then changes nothing; after a
  successful one every lookup gives the new value for the key and the old answer for the others,
  and erasing the key gives the old map back.
\<close>

theorem mul_hash_dictionary:
  assumes "mh_inv mh" "mh_cmp_eq (mh_cmp mh)" "key \<noteq> []" "val \<noteq> []" "length key \<le> max_key_size mh"
    "length val \<le> max_value_size mh" "mh_map mh key = None"
  shows "(if \<forall>i \<in> set (mh_slots mh key). fst (mh_data mh ! i) \<noteq> []
          then mul_hash_insert (Some mh) (Some key) (Some val) = Some (-2, Some mh)
          else \<exists>s. mul_hash_insert (Some mh) (Some key) (Some val) = Some (0, s) \<and>
            (\<forall>j. j \<noteq> [] \<longrightarrow> (\<exists>c. mul_hash_find s (Some j) True =
               Some (c, if j = key then Some val else mh_map mh j))) \<and>
            (\<exists>t. mul_hash_erase s (Some key) = Some (0, Some t) \<and> mh_inv t \<and> mh_map t = mh_map mh))"
proof -
  have st: "mh_state (Some mh)" "mh_can_insert (Some mh) key val" "mh_abs (Some mh) = mh_map mh"
    using assms by (simp_all add: mh_state_def mh_can_insert_def mh_abs_def)
  obtain ret mh' where ins: "mul_hash_insert (Some mh) (Some key) (Some val) = Some (ret, Some mh')"
      "if \<exists>i \<in> set (mh_slots mh key). fst (mh_data mh ! i) = []
       then ret = 0 \<and> mh_map mh' = (mh_map mh)(key \<mapsto> val) else ret = -2 \<and> mh' = mh"
    using mul_insert_ok [OF assms(1,3-7)] by blast
  show ?thesis
  proof (cases "\<forall>i \<in> set (mh_slots mh key). fst (mh_data mh ! i) \<noteq> []")
    case True
    then show ?thesis using ins by simp
  next
    case False
    then have ok: "mul_hash_insert (Some mh) (Some key) (Some val) = Some (0, Some mh')" using ins by auto
    have "\<exists>c. mul_hash_find (Some mh') (Some j) True = Some (c, if j = key then Some val else mh_map mh j)"
      if j: "j \<noteq> []" for j
    proof -
      obtain c t where "mh_lookup (Some mh') j = Some (c, t, if j = key then Some val else mh_map mh j)"
        using md.find_after_insert [OF st(1) assms(3) j st(2) ok] unfolding st(3) by blast
      then show ?thesis by (auto simp: mh_lookup_def)
    qed
    moreover obtain t where t: "mul_hash_erase (Some mh') (Some key) = Some (0, t)" "mh_state t" "mh_abs t = mh_map mh"
      using md.insert_erase [OF st(1) assms(3) st(2) ok] st(3) by auto
    moreover obtain u where "t = Some u" "mh_inv u" "mh_map u = mh_map mh"
      using t(2,3) by (auto simp: mh_state_def mh_abs_def split: option.splits)
    ultimately have "\<exists>s. mul_hash_insert (Some mh) (Some key) (Some val) = Some (0, s) \<and>
        (\<forall>j. j \<noteq> [] \<longrightarrow> (\<exists>c. mul_hash_find s (Some j) True = Some (c, if j = key then Some val else mh_map mh j))) \<and>
        (\<exists>t. mul_hash_erase s (Some key) = Some (0, Some t) \<and> mh_inv t \<and> mh_map t = mh_map mh)"
      using ok by blast
    then show ?thesis unfolding if_not_P [OF False] .
  qed
qed

theorem mul_hash_dictionary_witness:
  "\<exists>s c. mul_hash_insert (Some mh_demo) (Some [9]) (Some [1, 2]) = Some (0, s) \<and>
     mul_hash_find s (Some [9]) True = Some (c, Some [1, 2])"
proof -
  have free: "\<not> (\<forall>i \<in> set (mh_slots mh_demo [9]). fst (mh_data mh_demo ! i) \<noteq> [])"
    by (simp add: mh_slots_def mh_demo_def)
  have "length [9::u1] \<le> max_key_size mh_demo" "length [1::u1, 2] \<le> max_value_size mh_demo"
    by (simp_all add: mh_demo_def)
  then obtain s where s: "mul_hash_insert (Some mh_demo) (Some [9]) (Some [1, 2]) = Some (0, s)"
      "\<forall>j. j \<noteq> [] \<longrightarrow> (\<exists>c. mul_hash_find s (Some j) True =
         Some (c, if j = [9] then Some [1, 2] else mh_map mh_demo j))"
    using mul_hash_dictionary [of mh_demo "[9]" "[1, 2]"] mh_demo_inv unfolding if_not_P [OF free] by auto
  have "\<exists>c. mul_hash_find s (Some [9]) True = Some (c, Some [1, 2])" using spec [OF s(2), of "[9]"] by simp
  then show ?thesis using s(1) by blast
qed

text \<open>
  \<open>mul_hash_insert\<close> does not look for the key it is given: a key can be stored twice, and then
  a lookup after an erasure finds the other copy. Here two insertions of one key succeed, the
  lookup gives the first value, and once the key is erased the lookup gives the second.
\<close>

theorem mul_hash_duplicate:
  "\<exists>s1 s2 s3. mul_hash_insert (Some mh_demo) (Some [9]) (Some [1]) = Some (0, s1) \<and>
     mul_hash_insert s1 (Some [9]) (Some [2]) = Some (0, s2) \<and>
     mul_hash_find s2 (Some [9]) True = Some (0, Some [1]) \<and>
     mul_hash_erase s2 (Some [9]) = Some (0, s3) \<and>
     mul_hash_find s3 (Some [9]) True = Some (0, Some [2])"
proof -
  have h: "get_data_key [9] = 9" by (simp add: get_data_key_def bkdr64_def)
  have e: "elem_size 4 8 = 36" by (simp add: elem_size_def)
  show ?thesis
    by (simp add: mul_hash_insert_def mul_hash_find_def mul_hash_erase_def mh_demo_def mh_demo_cmp_def h e)
qed

end
