(* ===== verification/Lisk_Map.thy ===== *)
theory Lisk_Map
  imports Lisk_Prelude "HOL-Library.Monad_Syntax"
begin

text \<open>
  The map of \<open>win_lisk/src/lisk_map.c\<close>: a red-black tree of nodes with parent pointers, whose
  root record also points at the least and the greatest node.

  \<^item> The store maps the address of a node to the node. Addresses are the 32 bit words of the Win32 build and \<open>0\<close> is \<open>nil\<close>; as
    in the code the colour is the lowest bit of the parent word. Reading or writing an address
    without a node is a fault, \<open>None\<close>; so is a loop that does not end.
  \<^item> The key and the value of a node are the bytes of its two data blocks.
  \<^item> An operation that returns the root pointer or \<open>nil\<close> gives \<open>True\<close> or \<open>False\<close> with the new state.
    \<open>ans\<close> is the address that \<open>ALLOC\<close> answers for a node (\<open>None\<close> for \<open>nil\<close>), \<open>mal\<close> whether it has a block of a
    size for key or value data.

  This theory has the code; \<open>Lisk_Rbt\<close> the trees it stands for; \<open>Lisk_Map_Rep\<close> to \<open>Lisk_Map_Thms\<close>
  the proofs.
\<close>

section \<open>State\<close>

datatype color_t = RED | BLACK

record rb_node_t =
  parent :: u4
  left :: u4
  right :: u4
  key :: "u1 list"
  "value" :: "u1 list"

type_synonym rb_heap = "u4 \<Rightarrow> rb_node_t option"

record rb_root_t =
  rnode :: u4
  rmin :: u4
  rmax :: u4
  rcmp :: "u1 list \<Rightarrow> u1 list \<Rightarrow> int"
  rsize :: u8

type_synonym rb_state = "rb_root_t \<times> rb_heap"

abbreviation (input) null :: u4 where "null \<equiv> 0"

definition rb_parent :: "rb_node_t \<Rightarrow> u4" where
  "rb_parent nd = parent nd AND NOT 1"

definition rb_color :: "rb_node_t \<Rightarrow> color_t" where
  "rb_color nd = (if parent nd AND 1 = 1 then BLACK else RED)"

text \<open>The colour macros and \<open>rb_set_parent\<close>, \<open>rb_set_color\<close> on the word of a node.\<close>

definition node_set_parent :: "u4 \<Rightarrow> rb_node_t \<Rightarrow> rb_node_t" where
  "node_set_parent par nd = nd\<lparr>parent := (parent nd AND 3) OR par\<rparr>"

definition node_set_black :: "rb_node_t \<Rightarrow> rb_node_t" where
  "node_set_black nd = nd\<lparr>parent := parent nd OR 1\<rparr>"

definition node_set_red :: "rb_node_t \<Rightarrow> rb_node_t" where
  "node_set_red nd = nd\<lparr>parent := parent nd AND NOT 1\<rparr>"

definition node_set_color :: "color_t \<Rightarrow> rb_node_t \<Rightarrow> rb_node_t" where
  "node_set_color c nd = nd\<lparr>parent := (parent nd AND NOT 1) OR (case c of RED \<Rightarrow> 0 | BLACK \<Rightarrow> 1)\<rparr>"

text \<open>A store through a node pointer.\<close>

definition rb_upd :: "rb_heap \<Rightarrow> u4 \<Rightarrow> (rb_node_t \<Rightarrow> rb_node_t) \<Rightarrow> rb_heap option" where
  "rb_upd h p f = (case h p of None \<Rightarrow> None | Some nd \<Rightarrow> Some (h(p \<mapsto> f nd)))"

definition set_left :: "rb_heap \<Rightarrow> u4 \<Rightarrow> u4 \<Rightarrow> rb_heap option" where
  "set_left h p v = rb_upd h p (\<lambda>nd. nd\<lparr>left := v\<rparr>)"

definition set_right :: "rb_heap \<Rightarrow> u4 \<Rightarrow> u4 \<Rightarrow> rb_heap option" where
  "set_right h p v = rb_upd h p (\<lambda>nd. nd\<lparr>right := v\<rparr>)"

definition rb_set_parent :: "rb_heap \<Rightarrow> u4 \<Rightarrow> u4 \<Rightarrow> rb_heap option" where
  "rb_set_parent h p par = rb_upd h p (node_set_parent par)"

definition color_set_black :: "rb_heap \<Rightarrow> u4 \<Rightarrow> rb_heap option" where
  "color_set_black h p = rb_upd h p node_set_black"

definition color_set_red :: "rb_heap \<Rightarrow> u4 \<Rightarrow> rb_heap option" where
  "color_set_red h p = rb_upd h p node_set_red"

definition rb_set_color :: "rb_heap \<Rightarrow> u4 \<Rightarrow> color_t \<Rightarrow> rb_heap option" where
  "rb_set_color h p c = rb_upd h p (node_set_color c)"

section \<open>The tree\<close>

definition rb_init :: "bool \<Rightarrow> (u1 list \<Rightarrow> u1 list \<Rightarrow> int) option \<Rightarrow> bool \<Rightarrow> n4 \<times> rb_root_t option" where
  "rb_init root_ptr cmp_ptr mem_ok =
     (case cmp_ptr of
        None \<Rightarrow> (-1, None)
      | Some c \<Rightarrow>
          if \<not> root_ptr then (-1, None)
          else if \<not> mem_ok then (-2, None)
          else (0, Some \<lparr>rnode = null, rmin = null, rmax = null, rcmp = c, rsize = 0\<rparr>))"

text \<open>The walks down the left and the right spine.\<close>

partial_function (option) left_most :: "rb_heap \<Rightarrow> u4 \<Rightarrow> u4 option" where
  "left_most h node =
     Option.bind (h node) (\<lambda>nd. if left nd \<noteq> null then left_most h (left nd) else Some node)"

partial_function (option) right_most :: "rb_heap \<Rightarrow> u4 \<Rightarrow> u4 option" where
  "right_most h node =
     Option.bind (h node) (\<lambda>nd. if right nd \<noteq> null then right_most h (right nd) else Some node)"

definition rb_update_min :: "rb_root_t \<Rightarrow> rb_heap \<Rightarrow> (n4 \<times> rb_root_t) option" where
  "rb_update_min root h =
     (if rnode root = null then Some (-1, root\<lparr>rmin := null\<rparr>)
      else do { node \<leftarrow> left_most h (rnode root); Some (0, root\<lparr>rmin := node\<rparr>) })"

definition rb_update_max :: "rb_root_t \<Rightarrow> rb_heap \<Rightarrow> (n4 \<times> rb_root_t) option" where
  "rb_update_max root h =
     (if rnode root = null then Some (-1, root\<lparr>rmax := null\<rparr>)
      else do { node \<leftarrow> right_most h (rnode root); Some (0, root\<lparr>rmax := node\<rparr>) })"

definition rb_rotate_left :: "rb_state \<Rightarrow> u4 \<Rightarrow> rb_state option" where
  "rb_rotate_left = (\<lambda>(root, h) node. do {
     nd \<leftarrow> h node;
     let rg = right nd;
     if rg = null then Some (root, h)
     else do {
       rn \<leftarrow> h rg;
       h \<leftarrow> set_right h node (left rn);
       h \<leftarrow> (if left rn \<noteq> null then rb_set_parent h (left rn) node else Some h);
       h \<leftarrow> set_left h rg node;
       nd \<leftarrow> h node;
       h \<leftarrow> rb_set_parent h rg (rb_parent nd);
       h \<leftarrow> rb_set_parent h node rg;
       rn \<leftarrow> h rg;
       if rb_parent rn \<noteq> null then do {
         pn \<leftarrow> h (rb_parent rn);
         h \<leftarrow> (if left pn = node then set_left h (rb_parent rn) rg else set_right h (rb_parent rn) rg);
         Some (root, h) }
       else Some (root\<lparr>rnode := rg\<rparr>, h) } })"

definition rb_rotate_right :: "rb_state \<Rightarrow> u4 \<Rightarrow> rb_state option" where
  "rb_rotate_right = (\<lambda>(root, h) node. do {
     nd \<leftarrow> h node;
     let lf = left nd;
     if lf = null then Some (root, h)
     else do {
       ln \<leftarrow> h lf;
       h \<leftarrow> set_left h node (right ln);
       h \<leftarrow> (if right ln \<noteq> null then rb_set_parent h (right ln) node else Some h);
       h \<leftarrow> set_right h lf node;
       nd \<leftarrow> h node;
       h \<leftarrow> rb_set_parent h lf (rb_parent nd);
       h \<leftarrow> rb_set_parent h node lf;
       ln \<leftarrow> h lf;
       if rb_parent ln \<noteq> null then do {
         pn \<leftarrow> h (rb_parent ln);
         h \<leftarrow> (if left pn = node then set_left h (rb_parent ln) lf else set_right h (rb_parent ln) lf);
         Some (root, h) }
       else Some (root\<lparr>rnode := lf\<rparr>, h) } })"

text \<open>
  \<open>rb_create_node\<close>: a red node without links. When a data block cannot be had the node is given back
  (its address was never linked in, so the store is as before).
\<close>

definition rb_create_node :: "rb_heap \<Rightarrow> u4 option \<Rightarrow> allocator \<Rightarrow> u1 list \<Rightarrow> u1 list \<Rightarrow> u4 \<times> rb_heap" where
  "rb_create_node h ans mal k v =
     (case ans of
        None \<Rightarrow> (null, h)
      | Some node \<Rightarrow>
          if \<not> mal (length k) \<or> \<not> mal (length v) then (null, h)
          else (node, h(node \<mapsto> \<lparr>parent = 0, left = null, right = null, key = k, value = v\<rparr>)))"

definition rb_free_node :: "rb_heap \<Rightarrow> u4 \<Rightarrow> rb_heap option" where
  "rb_free_node h node =
     (if node \<noteq> null then (case h node of None \<Rightarrow> None | Some nd \<Rightarrow> Some (h(node := None))) else Some h)"

partial_function (option) rb_free_node_recursion :: "rb_heap \<Rightarrow> u4 \<Rightarrow> rb_heap option" where
  "rb_free_node_recursion h node =
     (if node \<noteq> null
      then Option.bind (h node) (\<lambda>nd.
             Option.bind (rb_free_node_recursion h (left nd)) (\<lambda>h1.
             Option.bind (h1 node) (\<lambda>nd1.
             Option.bind (rb_free_node_recursion h1 (right nd1)) (\<lambda>h2.
               rb_free_node h2 node))))
      else Some h)"

definition rb_free :: "rb_root_t option \<Rightarrow> rb_heap \<Rightarrow> rb_heap option" where
  "rb_free root h = (case root of None \<Rightarrow> Some h | Some rt \<Rightarrow> rb_free_node_recursion h (rnode rt))"

text \<open>The search loop gives the node, or \<open>nil\<close> and the last node that it passed.\<close>

partial_function (option) rb_search_loop :: "(u1 list \<Rightarrow> u1 list \<Rightarrow> int) \<Rightarrow> rb_heap \<Rightarrow> u1 list \<Rightarrow> u4 \<Rightarrow> u4 \<Rightarrow>
    (u4 \<times> u4) option" where
  "rb_search_loop cmp h k node pre =
     (if node \<noteq> null
      then Option.bind (h node) (\<lambda>nd.
             if cmp k (key nd) = 0 then Some (node, pre)
             else if cmp k (key nd) < 0 then rb_search_loop cmp h k (left nd) node
             else rb_search_loop cmp h k (right nd) node)
      else Some (null, pre))"

definition rb_search :: "rb_root_t \<Rightarrow> rb_heap \<Rightarrow> u1 list \<Rightarrow> (u4 \<times> u4) option" where
  "rb_search root h k = rb_search_loop (rcmp root) h k (rnode root) null"

text \<open>The same loop with a count of the calls of the comparison function.\<close>

partial_function (option) rb_search_count :: "(u1 list \<Rightarrow> u1 list \<Rightarrow> int) \<Rightarrow> rb_heap \<Rightarrow> u1 list \<Rightarrow> u4 \<Rightarrow> u4 \<Rightarrow> nat \<Rightarrow>
    (u4 \<times> u4 \<times> nat) option" where
  "rb_search_count cmp h k node pre n =
     (if node \<noteq> null
      then Option.bind (h node) (\<lambda>nd.
             if cmp k (key nd) = 0 then Some (node, pre, n + 1)
             else if cmp k (key nd) < 0 then rb_search_count cmp h k (left nd) node (n + 1)
             else rb_search_count cmp h k (right nd) node (n + 1))
      else Some (null, pre, n))"

text \<open>A pointer to the value of a node, and back.\<close>

definition value_ptr :: "u4 \<Rightarrow> u4" where
  "value_ptr node = node + 20"

definition key_ptr :: "u4 \<Rightarrow> u4" where
  "key_ptr node = node + 12"

definition node_of_value :: "u4 \<Rightarrow> u4" where
  "node_of_value v = v - 20"

definition rb_find :: "rb_root_t option \<Rightarrow> rb_heap \<Rightarrow> u1 list \<Rightarrow> u4 option" where
  "rb_find root h k =
     (case root of
        None \<Rightarrow> Some null
      | Some rt \<Rightarrow> do {
          (node, pre) \<leftarrow> rb_search rt h k;
          if node \<noteq> null then Some (value_ptr node) else Some null })"

section \<open>Insertion\<close>

text \<open>\<open>IS_NNL(node) && color_is_red(node)\<close>.\<close>

definition is_red :: "rb_heap \<Rightarrow> u4 \<Rightarrow> bool option" where
  "is_red h node =
     (if node \<noteq> null then (case h node of None \<Rightarrow> None | Some nd \<Rightarrow> Some (rb_color nd = RED)) else Some False)"

text \<open>
  One turn of the loop: the node that the next turn starts from, or \<open>nil\<close> when the loop condition
  does not hold.
\<close>

definition rb_insert_step :: "rb_root_t \<Rightarrow> rb_heap \<Rightarrow> u4 \<Rightarrow> (rb_root_t \<times> rb_heap \<times> u4) option" where
  "rb_insert_step root h node = do {
     nd \<leftarrow> h node;
     let par = rb_parent nd;
     if par = null then Some (root, h, null)
     else do {
       pn \<leftarrow> h par;
       if rb_color pn \<noteq> RED then Some (root, h, null)
       else do {
         let gparent = rb_parent pn;
         gn \<leftarrow> h gparent;
         if par = left gn then do {
           uncle_red \<leftarrow> is_red h (right gn);
           if uncle_red then do {
             h \<leftarrow> color_set_black h (right gn);
             h \<leftarrow> color_set_black h par;
             h \<leftarrow> color_set_red h gparent;
             Some (root, h, gparent) }
           else do {
             ((root, h), par, node) \<leftarrow>
               (if node = right pn
                then do { s \<leftarrow> rb_rotate_left (root, h) par; Some (s, node, par) }
                else Some ((root, h), par, node));
             h \<leftarrow> color_set_black h par;
             h \<leftarrow> color_set_red h gparent;
             (root, h) \<leftarrow> rb_rotate_right (root, h) gparent;
             Some (root, h, node) } }
         else do {
           uncle_red \<leftarrow> is_red h (left gn);
           if uncle_red then do {
             h \<leftarrow> color_set_black h (left gn);
             h \<leftarrow> color_set_black h par;
             h \<leftarrow> color_set_red h gparent;
             Some (root, h, gparent) }
           else do {
             ((root, h), par, node) \<leftarrow>
               (if node = left pn
                then do { s \<leftarrow> rb_rotate_right (root, h) par; Some (s, node, par) }
                else Some ((root, h), par, node));
             h \<leftarrow> color_set_black h par;
             h \<leftarrow> color_set_red h gparent;
             (root, h) \<leftarrow> rb_rotate_left (root, h) gparent;
             Some (root, h, node) } } } } }"

partial_function (option) rb_insert_loop :: "rb_root_t \<Rightarrow> rb_heap \<Rightarrow> u4 \<Rightarrow> rb_state option" where
  "rb_insert_loop root h node =
     Option.bind (rb_insert_step root h node) (\<lambda>(root', h', node').
       if node' = null then Some (root', h') else rb_insert_loop root' h' node')"

definition rb_insert_rebalance :: "rb_root_t \<Rightarrow> rb_heap \<Rightarrow> u4 \<Rightarrow> rb_state option" where
  "rb_insert_rebalance root h node = do {
     (root, h) \<leftarrow> rb_insert_loop root h node;
     h \<leftarrow> color_set_black h (rnode root);
     Some (root, h) }"

text \<open>The two pointers to the ends of the tree after an insertion.\<close>

definition rb_insert_ends :: "rb_root_t \<Rightarrow> rb_heap \<Rightarrow> u1 list \<Rightarrow> u4 \<Rightarrow> rb_root_t option" where
  "rb_insert_ends root h k node = do {
     root \<leftarrow> (if rmin root = null then Some (root\<lparr>rmin := node\<rparr>)
             else do {
               mn \<leftarrow> h (rmin root);
               Some (if rcmp root k (key mn) < 0 then root\<lparr>rmin := node\<rparr> else root) });
     (if rmax root = null then Some (root\<lparr>rmax := node\<rparr>)
      else do {
        mx \<leftarrow> h (rmax root);
        Some (if 0 < rcmp root k (key mx) then root\<lparr>rmax := node\<rparr> else root) }) }"

definition rb_insert :: "rb_root_t option \<Rightarrow> rb_heap \<Rightarrow> u4 option \<Rightarrow> allocator \<Rightarrow> u1 list option \<Rightarrow>
    u1 list option \<Rightarrow> (bool \<times> rb_root_t option \<times> rb_heap) option" where
  "rb_insert root_ptr h ans mal kptr vptr =
     (case (root_ptr, kptr, vptr) of
        (Some root, Some k, Some v) \<Rightarrow>
          if rsize root + 1 < rsize root then Some (False, root_ptr, h)
          else do {
            (node, par) \<leftarrow> rb_search root h k;
            if node \<noteq> null then Some (True, root_ptr, h)
            else let (node, h) = rb_create_node h ans mal k v in
              if node = null then Some (False, root_ptr, h)
              else do {
                (root, h) \<leftarrow>
                  (if par \<noteq> null then do {
                     pn \<leftarrow> h par;
                     h \<leftarrow> (if rcmp root k (key pn) < 0 then set_left h par node else set_right h par node);
                     h \<leftarrow> rb_set_parent h node par;
                     Some (root, h) }
                   else Some (root\<lparr>rnode := node\<rparr>, h));
                let root = root\<lparr>rsize := rsize root + 1\<rparr>;
                (root, h) \<leftarrow> rb_insert_rebalance root h node;
                root \<leftarrow> rb_insert_ends root h k node;
                Some (True, Some root, h) } }
      | _ \<Rightarrow> Some (False, root_ptr, h))"

definition rb_update :: "rb_root_t option \<Rightarrow> rb_heap \<Rightarrow> allocator \<Rightarrow> u1 list option \<Rightarrow> u1 list option \<Rightarrow>
    (u4 \<times> rb_heap) option" where
  "rb_update root_ptr h mal kptr vptr =
     (case (root_ptr, kptr, vptr) of
        (Some root, Some k, Some v) \<Rightarrow> do {
          (node, pre) \<leftarrow> rb_search root h k;
          if node = null then Some (null, h)
          else do {
            nd \<leftarrow> h node;
            if length (value nd) < length v \<and> \<not> mal (length v) then Some (null, h)
            else Some (value_ptr node, h(node \<mapsto> nd\<lparr>value := v\<rparr>)) } }
      | _ \<Rightarrow> Some (null, h))"

section \<open>Removal\<close>

text \<open>\<open>IS_NL(node) || color_is_black(node)\<close>.\<close>

definition is_black :: "rb_heap \<Rightarrow> u4 \<Rightarrow> bool option" where
  "is_black h node =
     (if node \<noteq> null then (case h node of None \<Rightarrow> None | Some nd \<Rightarrow> Some (rb_color nd = BLACK)) else Some True)"

definition set_black_nn :: "rb_heap \<Rightarrow> u4 \<Rightarrow> rb_heap option" where
  "set_black_nn h node = (if node \<noteq> null then color_set_black h node else Some h)"

text \<open>
  One turn of the loop, after its condition: the new parent and node, and whether the turn ended
  with \<open>break\<close>.
\<close>

definition rb_erase_step :: "rb_root_t \<Rightarrow> rb_heap \<Rightarrow> u4 \<Rightarrow> u4 \<Rightarrow> (rb_root_t \<times> rb_heap \<times> u4 \<times> u4 \<times> bool) option" where
  "rb_erase_step root h par node = do {
     pn \<leftarrow> h par;
     if node = left pn then do {
       let sibling = right pn;
       sn \<leftarrow> h sibling;
       (root, h, sibling) \<leftarrow>
         (if rb_color sn = RED then do {
            h \<leftarrow> color_set_black h sibling;
            h \<leftarrow> color_set_red h par;
            (root, h) \<leftarrow> rb_rotate_left (root, h) par;
            pn \<leftarrow> h par;
            Some (root, h, right pn) }
          else Some (root, h, sibling));
       sn \<leftarrow> h sibling;
       lb \<leftarrow> is_black h (left sn);
       rb \<leftarrow> is_black h (right sn);
       if lb \<and> rb then do {
         h \<leftarrow> color_set_red h sibling;
         pn \<leftarrow> h par;
         Some (root, h, rb_parent pn, par, False) }
       else do {
         (root, h, sibling) \<leftarrow>
           (if rb then do {
              h \<leftarrow> set_black_nn h (left sn);
              h \<leftarrow> color_set_red h sibling;
              (root, h) \<leftarrow> rb_rotate_right (root, h) sibling;
              pn \<leftarrow> h par;
              Some (root, h, right pn) }
            else Some (root, h, sibling));
         pn \<leftarrow> h par;
         h \<leftarrow> rb_set_color h sibling (rb_color pn);
         h \<leftarrow> color_set_black h par;
         sn \<leftarrow> h sibling;
         h \<leftarrow> set_black_nn h (right sn);
         (root, h) \<leftarrow> rb_rotate_left (root, h) par;
         Some (root, h, par, rnode root, True) } }
     else do {
       let sibling = left pn;
       sn \<leftarrow> h sibling;
       (root, h, sibling) \<leftarrow>
         (if rb_color sn = RED then do {
            h \<leftarrow> color_set_black h sibling;
            h \<leftarrow> color_set_red h par;
            (root, h) \<leftarrow> rb_rotate_right (root, h) par;
            pn \<leftarrow> h par;
            Some (root, h, left pn) }
          else Some (root, h, sibling));
       sn \<leftarrow> h sibling;
       lb \<leftarrow> is_black h (left sn);
       rb \<leftarrow> is_black h (right sn);
       if lb \<and> rb then do {
         h \<leftarrow> color_set_red h sibling;
         pn \<leftarrow> h par;
         Some (root, h, rb_parent pn, par, False) }
       else do {
         (root, h, sibling) \<leftarrow>
           (if lb then do {
              h \<leftarrow> set_black_nn h (right sn);
              h \<leftarrow> color_set_red h sibling;
              (root, h) \<leftarrow> rb_rotate_left (root, h) sibling;
              pn \<leftarrow> h par;
              Some (root, h, left pn) }
            else Some (root, h, sibling));
         pn \<leftarrow> h par;
         h \<leftarrow> rb_set_color h sibling (rb_color pn);
         h \<leftarrow> color_set_black h par;
         sn \<leftarrow> h sibling;
         h \<leftarrow> set_black_nn h (left sn);
         (root, h) \<leftarrow> rb_rotate_right (root, h) par;
         Some (root, h, par, rnode root, True) } } }"

partial_function (option) rb_erase_loop :: "rb_root_t \<Rightarrow> rb_heap \<Rightarrow> u4 \<Rightarrow> u4 \<Rightarrow> (rb_root_t \<times> rb_heap \<times> u4) option" where
  "rb_erase_loop root h par node =
     Option.bind (is_black h node) (\<lambda>bl.
       if bl \<and> rnode root \<noteq> node
       then Option.bind (rb_erase_step root h par node) (\<lambda>(root', h', par', node', brk).
              if brk then Some (root', h', node') else rb_erase_loop root' h' par' node')
       else Some (root, h, node))"

definition rb_erase_rebalance :: "rb_root_t \<Rightarrow> rb_heap \<Rightarrow> u4 \<Rightarrow> u4 \<Rightarrow> rb_state option" where
  "rb_erase_rebalance root h par node = do {
     (root, h, node) \<leftarrow> rb_erase_loop root h par node;
     h \<leftarrow> set_black_nn h node;
     Some (root, h) }"

text \<open>Putting a pointer in the place of the child \<open>node\<close> of \<open>par\<close>, or in the root.\<close>

definition rb_replace_child :: "rb_root_t \<Rightarrow> rb_heap \<Rightarrow> u4 \<Rightarrow> u4 \<Rightarrow> u4 \<Rightarrow> rb_state option" where
  "rb_replace_child root h par node new =
     (if par \<noteq> null then do {
        pn \<leftarrow> h par;
        h \<leftarrow> (if left pn = node then set_left h par new else set_right h par new);
        Some (root, h) }
      else Some (root\<lparr>rnode := new\<rparr>, h))"

text \<open>
  Taking a node out of the links: with two children its successor moves to its place. The
  result has the parent and the child where a black node is missing, if one is.
\<close>

definition rb_unlink_two :: "rb_root_t \<Rightarrow> rb_heap \<Rightarrow> u4 \<Rightarrow> rb_node_t \<Rightarrow>
    (rb_root_t \<times> rb_heap \<times> u4 \<times> u4 \<times> bool) option" where
  "rb_unlink_two root h node nd = do {
     scapedog \<leftarrow> left_most h (right nd);
     (root, h) \<leftarrow> rb_replace_child root h (rb_parent nd) node scapedog;
     sn \<leftarrow> h scapedog;
     let child = right sn;
     let black_flag = (rb_color sn = BLACK);
     let par = rb_parent sn;
     (h, par) \<leftarrow>
       (if par = node then Some (h, scapedog)
        else do {
          h \<leftarrow> (if child \<noteq> null then rb_set_parent h child par else Some h);
          h \<leftarrow> set_left h par child;
          h \<leftarrow> set_right h scapedog (right nd);
          h \<leftarrow> rb_set_parent h (right nd) scapedog;
          Some (h, par) });
     h \<leftarrow> rb_upd h scapedog (\<lambda>sn. sn\<lparr>parent := parent nd, left := left nd\<rparr>);
     h \<leftarrow> rb_set_parent h (left nd) scapedog;
     Some (root, h, par, child, black_flag) }"

definition rb_unlink_one :: "rb_root_t \<Rightarrow> rb_heap \<Rightarrow> u4 \<Rightarrow> rb_node_t \<Rightarrow>
    (rb_root_t \<times> rb_heap \<times> u4 \<times> u4 \<times> bool) option" where
  "rb_unlink_one root h node nd = do {
     let child = (if left nd \<noteq> null then left nd else right nd);
     let black_flag = (rb_color nd = BLACK);
     let par = rb_parent nd;
     h \<leftarrow> (if child \<noteq> null then rb_set_parent h child par else Some h);
     (root, h) \<leftarrow> rb_replace_child root h par node child;
     Some (root, h, par, child, black_flag) }"

definition rb_erase_ex :: "rb_root_t option \<Rightarrow> rb_heap \<Rightarrow> u4 \<Rightarrow> (bool \<times> rb_root_t option \<times> rb_heap) option" where
  "rb_erase_ex root_ptr h val_ptr =
     (case root_ptr of
        None \<Rightarrow> Some (False, None, h)
      | Some root \<Rightarrow>
          if rnode root = null \<or> val_ptr = null then Some (True, root_ptr, h)
          else if rsize root = 0 then Some (False, root_ptr, h)
          else do {
            let node = node_of_value val_ptr;
            nd \<leftarrow> h node;
            (root, h, par, child, black_flag) \<leftarrow>
              (if left nd \<noteq> null \<and> right nd \<noteq> null then rb_unlink_two root h node nd
               else rb_unlink_one root h node nd);
            let min_update_flag = (rmin root = node);
            let max_update_flag = (rmax root = node);
            h \<leftarrow> rb_free_node h node;
            let root = root\<lparr>rsize := rsize root - 1\<rparr>;
            (root, h) \<leftarrow> (if black_flag then rb_erase_rebalance root h par child else Some (root, h));
            root \<leftarrow> (if min_update_flag then map_option snd (rb_update_min root h) else Some root);
            root \<leftarrow> (if max_update_flag then map_option snd (rb_update_max root h) else Some root);
            Some (True, Some root, h) })"

definition rb_erase :: "rb_root_t option \<Rightarrow> rb_heap \<Rightarrow> u1 list option \<Rightarrow> (bool \<times> rb_root_t option \<times> rb_heap) option" where
  "rb_erase root_ptr h kptr =
     (case (root_ptr, kptr) of
        (Some root, Some k) \<Rightarrow>
          if rnode root = null then Some (False, root_ptr, h)
          else if rsize root = 0 then Some (False, root_ptr, h)
          else do {
            (node, pre) \<leftarrow> rb_search root h k;
            if node = null then Some (True, root_ptr, h)
            else rb_erase_ex root_ptr h (value_ptr node) }
      | _ \<Rightarrow> Some (False, root_ptr, h))"

section \<open>Iteration\<close>

text \<open>
  \<open>rb_begin\<close> and \<open>rb_rbegin\<close> give the node they write, or \<open>None\<close> for the answer \<open>nil\<close>; \<open>rb_end\<close> and \<open>rb_rend\<close>
  clear a node of the caller and tell whether they answer the root.
\<close>

definition rb_begin :: "rb_root_t \<Rightarrow> u4 option" where
  "rb_begin root = (if rnode root = null then None else Some (rmin root))"

definition rb_end :: "rb_root_t \<Rightarrow> bool" where
  "rb_end root = (if rnode root = null then False else True)"

definition rb_rbegin :: "rb_root_t \<Rightarrow> u4 option" where
  "rb_rbegin root = (if rnode root = null then None else Some (rmax root))"

definition rb_rend :: "rb_root_t \<Rightarrow> bool" where
  "rb_rend root = (if rnode root = null then False else True)"

text \<open>The climb to the first ancestor of which the node is in the left (the right) subtree.\<close>

partial_function (option) climb_right :: "rb_heap \<Rightarrow> u4 \<Rightarrow> u4 \<Rightarrow> u4 option" where
  "climb_right h node par =
     (if par \<noteq> null
      then Option.bind (h par) (\<lambda>pn.
             if node = right pn then climb_right h par (rb_parent pn) else Some par)
      else Some null)"

partial_function (option) climb_left :: "rb_heap \<Rightarrow> u4 \<Rightarrow> u4 \<Rightarrow> u4 option" where
  "climb_left h node par =
     (if par \<noteq> null
      then Option.bind (h par) (\<lambda>pn.
             if node = left pn then climb_left h par (rb_parent pn) else Some par)
      else Some null)"

text \<open>The result is \<open>nil\<close> (\<open>None\<close>) or the root with the next node.\<close>

definition rb_node_next :: "rb_root_t \<Rightarrow> rb_heap \<Rightarrow> u4 \<Rightarrow> u4 option option" where
  "rb_node_next root h node = do {
     nd \<leftarrow> h node;
     if rnode root = null then Some None
     else if node = rmax root then Some (Some null)
     else if right nd \<noteq> null then do { nx \<leftarrow> left_most h (right nd); Some (Some nx) }
     else do {
       pn \<leftarrow> h (rb_parent nd);
       if left pn = node then Some (Some (rb_parent nd))
       else do {
         nx \<leftarrow> climb_right h node (rb_parent nd);
         if nx = null then Some None else Some (Some nx) } } }"

definition rb_node_rnext :: "rb_root_t \<Rightarrow> rb_heap \<Rightarrow> u4 \<Rightarrow> u4 option option" where
  "rb_node_rnext root h node = do {
     nd \<leftarrow> h node;
     if rnode root = null then Some None
     else if node = rmin root then Some (Some null)
     else if left nd \<noteq> null then do { nx \<leftarrow> right_most h (left nd); Some (Some nx) }
     else do {
       pn \<leftarrow> h (rb_parent nd);
       if right pn = node then Some (Some (rb_parent nd))
       else do {
         nx \<leftarrow> climb_left h node (rb_parent nd);
         if nx = null then Some None else Some (Some nx) } } }"

definition rb_node_next_ex :: "rb_root_t \<Rightarrow> rb_heap \<Rightarrow> u4 \<Rightarrow> u4 option option" where
  "rb_node_next_ex root h val_ptr =
     (if rnode root = null \<or> val_ptr = null then Some None else rb_node_next root h (node_of_value val_ptr))"

definition rb_node_rnext_ex :: "rb_root_t \<Rightarrow> rb_heap \<Rightarrow> u4 \<Rightarrow> u4 option option" where
  "rb_node_rnext_ex root h val_ptr =
     (if rnode root = null \<or> val_ptr = null then Some None else rb_node_rnext root h (node_of_value val_ptr))"

section \<open>The map interface\<close>

definition map_init :: "bool \<Rightarrow> (u1 list \<Rightarrow> u1 list \<Rightarrow> int) option \<Rightarrow> bool \<Rightarrow> n4 \<times> rb_root_t option" where
  "map_init map_ptr cmp_ptr mem_ok = rb_init map_ptr cmp_ptr mem_ok"

definition map_uninit :: "rb_root_t option \<Rightarrow> rb_heap \<Rightarrow> (rb_root_t option \<times> rb_heap) option" where
  "map_uninit m h = do { h \<leftarrow> rb_free m h; Some (None, h) }"

type_synonym map_state = "rb_root_t option \<times> rb_heap"

definition map_insert :: "u4 option \<Rightarrow> allocator \<Rightarrow> map_state \<Rightarrow> u1 list option \<Rightarrow> u1 list option \<Rightarrow>
    (n4 \<times> map_state) option" where
  "map_insert ans mal = (\<lambda>(m, h) k v. do {
     (ok, m, h) \<leftarrow> rb_insert m h ans mal k v;
     Some (if ok then 0 else -1, (m, h)) })"

definition map_update :: "allocator \<Rightarrow> map_state \<Rightarrow> u1 list option \<Rightarrow> u1 list option \<Rightarrow> (n4 \<times> map_state) option" where
  "map_update mal = (\<lambda>(m, h) k v. do {
     (p, h) \<leftarrow> rb_update m h mal k v;
     Some (if p = null then -1 else 0, (m, h)) })"

definition map_erase :: "map_state \<Rightarrow> u1 list option \<Rightarrow> (n4 \<times> map_state) option" where
  "map_erase = (\<lambda>(m, h) k. do {
     (ok, m, h) \<leftarrow> rb_erase m h k;
     Some (if ok then 0 else -1, (m, h)) })"

definition map_erase_ex :: "map_state \<Rightarrow> u4 \<Rightarrow> (n4 \<times> map_state) option" where
  "map_erase_ex = (\<lambda>(m, h) val_ptr. do {
     (ok, m, h) \<leftarrow> rb_erase_ex m h val_ptr;
     Some (if ok then 0 else -1, (m, h)) })"

definition map_find :: "map_state \<Rightarrow> u1 list \<Rightarrow> bool \<Rightarrow> (n4 \<times> u4 option) option" where
  "map_find = (\<lambda>(m, h) k value_pptr.
     if \<not> value_pptr then Some (-1, None)
     else do {
       vl \<leftarrow> rb_find m h k;
       Some (if vl \<noteq> null then (0, Some vl) else (-2, None)) })"

definition map_size :: "map_state \<Rightarrow> bool \<Rightarrow> n4 \<times> u8 option" where
  "map_size = (\<lambda>(m, h) size_ptr.
     case m of None \<Rightarrow> (-1, None) | Some root \<Rightarrow> if \<not> size_ptr then (-1, None) else (0, Some (rsize root)))"

text \<open>The bytes of the nodes, as an unsigned 32 bit number; \<open>sizeof(rb_node_t)\<close> is 28, of the root 24.\<close>

partial_function (option) map_node_size :: "rb_heap \<Rightarrow> u4 \<Rightarrow> nat \<Rightarrow> nat option" where
  "map_node_size h node sz =
     (if node = null then Some sz
      else Option.bind (h node) (\<lambda>nd.
             Option.bind (map_node_size h (left nd) (u4_add sz ((28 + length (key nd) + length (value nd)) mod 2 ^ 32)))
               (\<lambda>sz. map_node_size h (right nd) sz)))"

definition map_mem_size :: "map_state \<Rightarrow> bool \<Rightarrow> (n4 \<times> nat option) option" where
  "map_mem_size = (\<lambda>(m, h) size_ptr.
     case m of None \<Rightarrow> Some (-1, None)
     | Some root \<Rightarrow>
         if \<not> size_ptr then Some (-1, None)
         else do { sz \<leftarrow> map_node_size h (rnode root) 24; Some (0, Some sz) })"

text \<open>
  Iterators are a pointer to a key and one to a value. \<open>map_end\<close> and \<open>map_rend\<close> point them at a node in
  the stack frame of the call, whose address is \<open>frame\<close>.
\<close>

record iterator_t =
  it_first :: u4
  it_second :: u4

definition node_iterator :: "u4 \<Rightarrow> iterator_t" where
  "node_iterator node = \<lparr>it_first = key_ptr node, it_second = value_ptr node\<rparr>"

definition map_begin :: "map_state \<Rightarrow> iterator_t option \<Rightarrow> n4 \<times> iterator_t option" where
  "map_begin = (\<lambda>(m, h) it.
     case (m, it) of
       (Some root, Some i) \<Rightarrow>
         (case rb_begin root of None \<Rightarrow> (-2, it) | Some node \<Rightarrow> (0, Some (node_iterator node)))
     | _ \<Rightarrow> (-1, it))"

definition map_rbegin :: "map_state \<Rightarrow> iterator_t option \<Rightarrow> n4 \<times> iterator_t option" where
  "map_rbegin = (\<lambda>(m, h) it.
     case (m, it) of
       (Some root, Some i) \<Rightarrow>
         (case rb_rbegin root of None \<Rightarrow> (-2, it) | Some node \<Rightarrow> (0, Some (node_iterator node)))
     | _ \<Rightarrow> (-1, it))"

definition map_end :: "u4 \<Rightarrow> map_state \<Rightarrow> iterator_t option \<Rightarrow> n4 \<times> iterator_t option" where
  "map_end frame = (\<lambda>(m, h) it.
     case (m, it) of
       (Some root, Some i) \<Rightarrow> if \<not> rb_end root then (-2, it) else (0, Some (node_iterator frame))
     | _ \<Rightarrow> (-1, it))"

definition map_rend :: "u4 \<Rightarrow> map_state \<Rightarrow> iterator_t option \<Rightarrow> n4 \<times> iterator_t option" where
  "map_rend frame = (\<lambda>(m, h) it.
     case (m, it) of
       (Some root, Some i) \<Rightarrow> if \<not> rb_rend root then (-2, it) else (0, Some (node_iterator frame))
     | _ \<Rightarrow> (-1, it))"

definition map_is_end :: "map_state \<Rightarrow> iterator_t option \<Rightarrow> n4" where
  "map_is_end = (\<lambda>(m, h) it.
     case (m, it) of
       (Some root, Some i) \<Rightarrow> if it_first i \<noteq> null \<or> it_second i \<noteq> null then -2 else 0
     | _ \<Rightarrow> -1)"

definition map_is_rend :: "map_state \<Rightarrow> iterator_t option \<Rightarrow> n4" where
  "map_is_rend = (\<lambda>(m, h) it.
     case (m, it) of
       (Some root, Some i) \<Rightarrow> if it_first i \<noteq> null \<or> it_second i \<noteq> null then -2 else 0
     | _ \<Rightarrow> -1)"

definition map_next :: "map_state \<Rightarrow> iterator_t option \<Rightarrow> (n4 \<times> iterator_t option) option" where
  "map_next = (\<lambda>(m, h) it.
     case (m, it) of
       (Some root, Some i) \<Rightarrow> do {
         r \<leftarrow> rb_node_next_ex root h (it_second i);
         Some (case r of
                 None \<Rightarrow> (-2, it)
               | Some nx \<Rightarrow> if nx = null then (0, Some \<lparr>it_first = null, it_second = null\<rparr>)
                            else (0, Some (node_iterator nx))) }
     | _ \<Rightarrow> Some (-1, it))"

definition map_rnext :: "map_state \<Rightarrow> iterator_t option \<Rightarrow> (n4 \<times> iterator_t option) option" where
  "map_rnext = (\<lambda>(m, h) it.
     case (m, it) of
       (Some root, Some i) \<Rightarrow> do {
         r \<leftarrow> rb_node_rnext_ex root h (it_second i);
         Some (case r of
                 None \<Rightarrow> (-2, it)
               | Some nx \<Rightarrow> if nx = null then (0, Some \<lparr>it_first = null, it_second = null\<rparr>)
                            else (0, Some (node_iterator nx))) }
     | _ \<Rightarrow> Some (-1, it))"

text \<open>
  The loops of \<open>MAP_FOR_EACH_BEGIN\<close> and \<open>MAP_FOR_EACH_RBEGIN\<close>: the iterators that the body is run with.
  \<open>i0\<close> is the iterator before it is set.
\<close>

partial_function (option) map_each_loop :: "map_state \<Rightarrow> n4 \<Rightarrow> iterator_t \<Rightarrow> iterator_t list option" where
  "map_each_loop s ret i =
     (if ret = 0 \<and> map_is_end s (Some i) \<noteq> 0
      then Option.bind (map_next s (Some i)) (\<lambda>(ret', it).
             Option.bind it (\<lambda>i'.
             Option.bind (map_each_loop s ret' i') (\<lambda>rest. Some (i # rest))))
      else Some [])"

definition map_for_each :: "map_state \<Rightarrow> iterator_t \<Rightarrow> iterator_t list option" where
  "map_for_each s i0 =
     (case fst s of
        None \<Rightarrow> Some []
      | Some root \<Rightarrow> (case map_begin s (Some i0) of (ret, it) \<Rightarrow> Option.bind it (map_each_loop s ret)))"

partial_function (option) map_reach_loop :: "map_state \<Rightarrow> n4 \<Rightarrow> iterator_t \<Rightarrow> iterator_t list option" where
  "map_reach_loop s ret i =
     (if ret = 0 \<and> map_is_rend s (Some i) \<noteq> 0
      then Option.bind (map_rnext s (Some i)) (\<lambda>(ret', it).
             Option.bind it (\<lambda>i'.
             Option.bind (map_reach_loop s ret' i') (\<lambda>rest. Some (i # rest))))
      else Some [])"

definition map_for_reach :: "map_state \<Rightarrow> iterator_t \<Rightarrow> iterator_t list option" where
  "map_for_reach s i0 =
     (case fst s of
        None \<Rightarrow> Some []
      | Some root \<Rightarrow> (case map_rbegin s (Some i0) of (ret, it) \<Rightarrow> Option.bind it (map_reach_loop s ret)))"

end
