(* ===== verification/Lisk_Rbt.thy ===== *)
theory Lisk_Rbt
  imports Lisk_Map
begin

text \<open>
  The trees that the node store of \<open>Lisk_Map\<close> stands for. A position in a tree is a context, the
  list of the frames from the position up to the root, and the subtree there. On these the two
  rebalancing loops of the code are plain recursions, \<open>ins_fix\<close> and \<open>del_fix\<close>; this theory shows
  that they keep the order of the elements and restore the red-black invariant.

  \<open>rbwf t n\<close> says that no red node of \<open>t\<close> has a red child and that every path has \<open>n\<close> black nodes;
  \<open>cwf fs n\<close> says the same of a context whose position expects a subtree of black height \<open>n\<close>.
\<close>

section \<open>Trees and contexts\<close>

datatype 'e rtree = Lf | Nd color_t "'e rtree" 'e "'e rtree"

datatype 'e frame = FL color_t 'e "'e rtree" | FR color_t "'e rtree" 'e

fun plug1 :: "'e frame \<Rightarrow> 'e rtree \<Rightarrow> 'e rtree" where
  "plug1 (FL c e r) t = Nd c t e r"
| "plug1 (FR c l e) t = Nd c l e t"

fun plug :: "'e frame list \<Rightarrow> 'e rtree \<Rightarrow> 'e rtree" where
  "plug [] t = t"
| "plug (f # fs) t = plug fs (plug1 f t)"

fun inorder :: "'e rtree \<Rightarrow> 'e list" where
  "inorder Lf = []"
| "inorder (Nd c l e r) = inorder l @ e # inorder r"

fun before :: "'e frame list \<Rightarrow> 'e list" where
  "before [] = []"
| "before (FL c e r # fs) = before fs"
| "before (FR c l e # fs) = before fs @ inorder l @ [e]"

fun behind :: "'e frame list \<Rightarrow> 'e list" where
  "behind [] = []"
| "behind (FL c e r # fs) = e # inorder r @ behind fs"
| "behind (FR c l e # fs) = behind fs"

lemma inorder_plug: "inorder (plug fs t) = before fs @ inorder t @ behind fs"
proof (induction fs arbitrary: t)
  case (Cons f fs)
  then show ?case by (cases f) simp_all
qed simp

lemma plug_append: "plug (fs @ gs) t = plug gs (plug fs t)"
  by (induction fs arbitrary: t) simp_all

lemma inorder_plug_cong: "inorder t = inorder t' \<Longrightarrow> inorder (plug fs t) = inorder (plug fs t')"
  by (simp add: inorder_plug)

fun col :: "'e rtree \<Rightarrow> color_t" where
  "col Lf = BLACK"
| "col (Nd c l e r) = c"

fun fcol :: "'e frame \<Rightarrow> color_t" where
  "fcol (FL c e r) = c"
| "fcol (FR c l e) = c"

fun paint :: "color_t \<Rightarrow> 'e rtree \<Rightarrow> 'e rtree" where
  "paint c Lf = Lf"
| "paint c (Nd d l e r) = Nd c l e r"

fun fpaint :: "color_t \<Rightarrow> 'e frame \<Rightarrow> 'e frame" where
  "fpaint c (FL d e r) = FL c e r"
| "fpaint c (FR d l e) = FR c l e"

lemma inorder_paint [simp]: "inorder (paint c t) = inorder t"
  by (cases t) simp_all

lemma inorder_fpaint [simp]: "inorder (plug1 (fpaint c f) t) = inorder (plug1 f t)"
  by (cases f) simp_all

lemma color_cases [simp]: "c \<noteq> RED \<longleftrightarrow> c = BLACK" "c \<noteq> BLACK \<longleftrightarrow> c = RED"
  by (cases c; simp)+

section \<open>The red-black invariant\<close>

fun rbwf :: "'e rtree \<Rightarrow> nat \<Rightarrow> bool" where
  "rbwf Lf n \<longleftrightarrow> n = 0"
| "rbwf (Nd RED l e r) n \<longleftrightarrow> rbwf l n \<and> rbwf r n \<and> col l = BLACK \<and> col r = BLACK"
| "rbwf (Nd BLACK l e r) n \<longleftrightarrow> 0 < n \<and> rbwf l (n - 1) \<and> rbwf r (n - 1)"

definition top_black :: "'e frame list \<Rightarrow> bool" where
  "top_black fs \<longleftrightarrow> fs \<noteq> [] \<and> fcol (hd fs) = BLACK"

fun cwf :: "'e frame list \<Rightarrow> nat \<Rightarrow> bool" where
  "cwf [] n \<longleftrightarrow> True"
| "cwf (FL RED e r # fs) n \<longleftrightarrow> rbwf r n \<and> col r = BLACK \<and> top_black fs \<and> cwf fs n"
| "cwf (FL BLACK e r # fs) n \<longleftrightarrow> rbwf r n \<and> cwf fs (Suc n)"
| "cwf (FR RED l e # fs) n \<longleftrightarrow> rbwf l n \<and> col l = BLACK \<and> top_black fs \<and> cwf fs n"
| "cwf (FR BLACK l e # fs) n \<longleftrightarrow> rbwf l n \<and> cwf fs (Suc n)"

definition rbt :: "'e rtree \<Rightarrow> bool" where
  "rbt t \<longleftrightarrow> (\<exists>n. rbwf t n) \<and> col t = BLACK"

text \<open>A tree is red-black exactly when the parts at every position are and fit together there.\<close>

definition fits :: "'e frame list \<Rightarrow> 'e rtree \<Rightarrow> bool" where
  "fits fs t \<longleftrightarrow> col t = BLACK \<or> top_black fs"

lemma top_black_simps [simp]: "\<not> top_black []" "top_black (f # fs) \<longleftrightarrow> fcol f = BLACK"
  by (simp_all add: top_black_def)

lemma wf_paint: "rbwf t n \<Longrightarrow> col t = RED \<Longrightarrow> rbwf (paint BLACK t) (Suc n)"
  by (cases t) (auto)

lemma rbt_plug: "rbt (plug fs t) \<longleftrightarrow> (\<exists>n. rbwf t n \<and> cwf fs n) \<and> fits fs t"
proof (induction fs arbitrary: t)
  case Nil
  then show ?case by (auto simp: rbt_def fits_def)
next
  case (Cons f fs)
  have "(\<exists>n. rbwf (plug1 f t) n \<and> cwf fs n) \<and> fits fs (plug1 f t) \<longleftrightarrow> (\<exists>n. rbwf t n \<and> cwf (f # fs) n) \<and> fits (f # fs) t"
  proof (cases f)
    case (FL c e r)
    show ?thesis
    proof (cases c)
      case RED
      then show ?thesis using FL by (auto simp: fits_def)
    next
      case BLACK
      have "(\<exists>n. 0 < n \<and> rbwf t (n - 1) \<and> rbwf r (n - 1) \<and> cwf fs n) \<longleftrightarrow> (\<exists>n. rbwf t n \<and> rbwf r n \<and> cwf fs (Suc n))"
        by (metis Suc_pred diff_Suc_1 zero_less_Suc)
      then show ?thesis using FL BLACK by (auto simp add: fits_def)
    qed
  next
    case (FR c l e)
    show ?thesis
    proof (cases c)
      case RED
      then show ?thesis using FR by (auto simp: fits_def)
    next
      case BLACK
      have "(\<exists>n. 0 < n \<and> rbwf l (n - 1) \<and> rbwf t (n - 1) \<and> cwf fs n) \<longleftrightarrow> (\<exists>n. rbwf l n \<and> rbwf t n \<and> cwf fs (Suc n))"
        by (metis Suc_pred diff_Suc_1 zero_less_Suc)
      then show ?thesis using FR BLACK by (auto simp add: fits_def)
    qed
  qed
  then show ?case using Cons.IH by simp
qed

section \<open>Insertion\<close>

text \<open>
  \<open>ins_fix fs t\<close>: a red node at the top of \<open>t\<close> was put in at the position \<open>fs\<close>. The last two equations of a
  side are the inner and the outer grandchild.
\<close>

fun ins_fix :: "'e frame list \<Rightarrow> 'e rtree \<Rightarrow> 'e rtree" where
  "ins_fix [] t = paint BLACK t"
| "ins_fix [f] t = paint BLACK (plug1 f t)"
| "ins_fix (f # FL c e u # fs) t =
     (if fcol f = BLACK then paint BLACK (plug (f # FL c e u # fs) t)
      else if col u = RED then ins_fix fs (Nd RED (plug1 (fpaint BLACK f) t) e (paint BLACK u))
      else
        (case f of
           FL d x b \<Rightarrow> paint BLACK (plug fs (Nd BLACK t x (Nd RED b e u)))
         | FR d a x \<Rightarrow>
             (case t of
                Lf \<Rightarrow> Lf
              | Nd k l y r \<Rightarrow> paint BLACK (plug fs (Nd BLACK (Nd d a x l) y (Nd RED r e u))))))"
| "ins_fix (f # FR c u e # fs) t =
     (if fcol f = BLACK then paint BLACK (plug (f # FR c u e # fs) t)
      else if col u = RED then ins_fix fs (Nd RED (paint BLACK u) e (plug1 (fpaint BLACK f) t))
      else
        (case f of
           FR d b x \<Rightarrow> paint BLACK (plug fs (Nd BLACK (Nd RED u e b) x t))
         | FL d x a \<Rightarrow>
             (case t of
                Lf \<Rightarrow> Lf
              | Nd k l y r \<Rightarrow> paint BLACK (plug fs (Nd BLACK (Nd RED u e l) y (Nd d r x a))))))"

lemma inorder_ins_fix: "t \<noteq> Lf \<Longrightarrow> inorder (ins_fix fs t) = inorder (plug fs t)"
proof (induction fs t rule: ins_fix.induct)
  case (3 f c e u fs t)
  then show ?case by (cases f; cases t) (auto simp: inorder_plug)
next
  case (4 f c u e fs t)
  then show ?case by (cases f; cases t) (auto simp: inorder_plug)
qed simp_all

lemma rbt_paint_plug: "rbt (plug fs t) \<Longrightarrow> rbt (paint BLACK (plug fs t))"
  by (cases "plug fs t") (auto simp: rbt_def)

lemma rbt_ins_fix:
  "rbwf t n \<Longrightarrow> col t = RED \<Longrightarrow> cwf fs n \<Longrightarrow> rbt (ins_fix fs t)"
proof (induction fs t arbitrary: n rule: ins_fix.induct)
  case (1 t)
  then have "rbwf (paint BLACK t) (Suc n)" by (simp add: wf_paint)
  moreover have "col (paint BLACK t) = BLACK" by (cases t) simp_all
  ultimately show ?case by (auto simp: rbt_def)
next
  case (2 f t)
  then have "fcol f = BLACK" by (cases f) (auto elim: cwf.elims)
  then have "rbt (plug [f] t)" using 2 unfolding rbt_plug by (auto simp: fits_def)
  then show ?case using rbt_paint_plug [of "[f]" t] by simp
next
  case (3 f c e u fs t)
  show ?case
  proof (cases "fcol f = BLACK")
    case True
    then have "rbt (plug (f # FL c e u # fs) t)" using 3 unfolding rbt_plug by (auto simp: fits_def)
    then show ?thesis using True rbt_paint_plug by simp
  next
    case f: False
    then have c: "c = BLACK" using 3 by (cases f) auto
    show ?thesis
    proof (cases "col u = RED")
      case True
      have w: "rbwf (Nd RED (plug1 (fpaint BLACK f) t) e (paint BLACK u)) (Suc n)" "cwf fs (Suc n)"
        using 3 f c True wf_paint [of u n] by (cases f; cases u; auto)+
      have "rbt (ins_fix fs (Nd RED (plug1 (fpaint BLACK f) t) e (paint BLACK u)))" by (rule "3.IH" [OF f True w(1) _ w(2)]) simp
      then show ?thesis using f True by simp
    next
      case u: False
      have "rbt (plug fs t')" if "rbwf t' (Suc n)" "cwf fs (Suc n)" "col t' = BLACK" for t'
        using that by (auto simp: rbt_plug fits_def)
      then show ?thesis using 3 f c u by (cases f; cases t) (auto intro!: rbt_paint_plug)
    qed
  qed
next
  case (4 f c u e fs t)
  show ?case
  proof (cases "fcol f = BLACK")
    case True
    then have "rbt (plug (f # FR c u e # fs) t)" using 4 unfolding rbt_plug by (auto simp: fits_def)
    then show ?thesis using True rbt_paint_plug by simp
  next
    case f: False
    then have c: "c = BLACK" using 4 by (cases f) auto
    show ?thesis
    proof (cases "col u = RED")
      case True
      have w: "rbwf (Nd RED (paint BLACK u) e (plug1 (fpaint BLACK f) t)) (Suc n)" "cwf fs (Suc n)"
        using 4 f c True wf_paint [of u n] by (cases f; cases u; auto)+
      have "rbt (ins_fix fs (Nd RED (paint BLACK u) e (plug1 (fpaint BLACK f) t)))" by (rule "4.IH" [OF f True w(1) _ w(2)]) simp
      then show ?thesis using f True by simp
    next
      case u: False
      have "rbt (plug fs t')" if "rbwf t' (Suc n)" "cwf fs (Suc n)" "col t' = BLACK" for t'
        using that by (auto simp: rbt_plug fits_def)
      then show ?thesis using 4 f c u by (cases f; cases t) (auto intro!: rbt_paint_plug)
    qed
  qed
qed

section \<open>Removal\<close>

text \<open>
  \<open>del_fix fs t\<close>: one black node is missing on the paths through the position \<open>fs\<close>, where \<open>t\<close> is. The
  sibling with a red child ends the loop, \<open>sib_left\<close> and \<open>sib_right\<close>. Without a sibling the code
  would fault; the value there is arbitrary.
\<close>

definition sib_left :: "color_t \<Rightarrow> 'e rtree \<Rightarrow> 'e \<Rightarrow> 'e rtree \<Rightarrow> 'e \<Rightarrow> 'e rtree \<Rightarrow> 'e rtree" where
  "sib_left c t e sl x sr =
     (if col sr = BLACK
      then (case sl of Lf \<Rightarrow> Lf | Nd k a y b \<Rightarrow> Nd c (Nd BLACK t e a) y (Nd BLACK b x sr))
      else Nd c (Nd BLACK t e sl) x (paint BLACK sr))"

definition sib_right :: "color_t \<Rightarrow> 'e rtree \<Rightarrow> 'e \<Rightarrow> 'e rtree \<Rightarrow> 'e \<Rightarrow> 'e rtree \<Rightarrow> 'e rtree" where
  "sib_right c sl x sr e t =
     (if col sl = BLACK
      then (case sr of Lf \<Rightarrow> Lf | Nd k a y b \<Rightarrow> Nd c (Nd BLACK sl x a) y (Nd BLACK b e t))
      else Nd c (paint BLACK sl) x (Nd BLACK sr e t))"

fun del_fix :: "'e frame list \<Rightarrow> 'e rtree \<Rightarrow> 'e rtree" where
  "del_fix [] t = paint BLACK t"
| "del_fix (FL c e s # fs) t =
     (if col t = RED then plug (FL c e s # fs) (paint BLACK t)
      else
        (case s of
           Lf \<Rightarrow> Lf
         | Nd RED sl x sr \<Rightarrow>
             (case sl of
                Lf \<Rightarrow> Lf
              | Nd k a y b \<Rightarrow>
                  if col a = BLACK \<and> col b = BLACK
                  then plug (FL BLACK x sr # fs) (Nd BLACK t e (Nd RED a y b))
                  else paint BLACK (plug (FL BLACK x sr # fs) (sib_left RED t e a y b)))
         | Nd BLACK sl x sr \<Rightarrow>
             if col sl = BLACK \<and> col sr = BLACK then del_fix fs (Nd c t e (Nd RED sl x sr))
             else paint BLACK (plug fs (sib_left c t e sl x sr))))"
| "del_fix (FR c s e # fs) t =
     (if col t = RED then plug (FR c s e # fs) (paint BLACK t)
      else
        (case s of
           Lf \<Rightarrow> Lf
         | Nd RED sl x sr \<Rightarrow>
             (case sr of
                Lf \<Rightarrow> Lf
              | Nd k a y b \<Rightarrow>
                  if col a = BLACK \<and> col b = BLACK
                  then plug (FR BLACK sl x # fs) (Nd BLACK (Nd RED a y b) e t)
                  else paint BLACK (plug (FR BLACK sl x # fs) (sib_right RED a y b e t)))
         | Nd BLACK sl x sr \<Rightarrow>
             if col sl = BLACK \<and> col sr = BLACK then del_fix fs (Nd c (Nd RED sl x sr) e t)
             else paint BLACK (plug fs (sib_right c sl x sr e t))))"

lemma del_fix_red: "col t = RED \<Longrightarrow> del_fix fs t = plug fs (paint BLACK t)"
  by (cases "(fs, t)" rule: del_fix.cases) simp_all

lemma rbwf_red_child: "rbwf t n \<Longrightarrow> col t = RED \<Longrightarrow> \<exists>a y b. t = Nd RED a y b"
  by (cases t) auto

lemma rbwf_paint_black: "rbwf t n \<Longrightarrow> col t = RED \<Longrightarrow> rbwf (paint BLACK t) (Suc n) \<and> col (paint BLACK t) = BLACK"
  by (cases t) auto

lemma sib_left_ok:
  assumes "rbwf t n" "rbwf sl n" "rbwf sr n" "\<not> (col sl = BLACK \<and> col sr = BLACK)" "col t = BLACK"
  shows "inorder (sib_left c t e sl x sr) = inorder t @ e # inorder sl @ x # inorder sr"
    "rbwf (sib_left c t e sl x sr) (if c = BLACK then n + 2 else n + 1)" "col (sib_left c t e sl x sr) = c"
proof -
  have "\<exists>a y b. sl = Nd RED a y b" if "col sr = BLACK"
    using assms that rbwf_red_child by auto
  then show "inorder (sib_left c t e sl x sr) = inorder t @ e # inorder sl @ x # inorder sr"
    "rbwf (sib_left c t e sl x sr) (if c = BLACK then n + 2 else n + 1)" "col (sib_left c t e sl x sr) = c"
    using assms rbwf_paint_black [of sr n] by (cases c; auto simp: sib_left_def)+
qed

lemma sib_right_ok:
  assumes "rbwf t n" "rbwf sl n" "rbwf sr n" "\<not> (col sl = BLACK \<and> col sr = BLACK)" "col t = BLACK"
  shows "inorder (sib_right c sl x sr e t) = inorder sl @ x # inorder sr @ e # inorder t"
    "rbwf (sib_right c sl x sr e t) (if c = BLACK then n + 2 else n + 1)" "col (sib_right c sl x sr e t) = c"
proof -
  have "\<exists>a y b. sr = Nd RED a y b" if "col sl = BLACK"
    using assms that rbwf_red_child by auto
  then show "inorder (sib_right c sl x sr e t) = inorder sl @ x # inorder sr @ e # inorder t"
    "rbwf (sib_right c sl x sr e t) (if c = BLACK then n + 2 else n + 1)" "col (sib_right c sl x sr e t) = c"
    using assms rbwf_paint_black [of sl n] by (cases c; auto simp: sib_right_def)+
qed

lemma rbt_plugI: "rbwf t n \<Longrightarrow> cwf fs n \<Longrightarrow> fits fs t \<Longrightarrow> rbt (plug fs t)"
  unfolding rbt_plug by blast

text \<open>With a sibling of the right height the loop ends in a red-black tree with the same elements.\<close>

definition del_ok :: "'e frame list \<Rightarrow> 'e rtree \<Rightarrow> bool" where
  "del_ok fs t \<longleftrightarrow> rbt (del_fix fs t) \<and> inorder (del_fix fs t) = inorder (plug fs t)"

lemma del_fix_left:
  assumes IH: "\<And>t n. rbwf t n \<Longrightarrow> cwf fs (Suc n) \<Longrightarrow> del_ok fs t"
    and w0: "rbwf t n" and c0: "cwf (FL c e s # fs) (Suc n)"
  shows "del_ok (FL c e s # fs) t"
proof -
  show ?thesis
  proof (cases "col t = RED")
    case True
    then have "rbt (plug (FL c e s # fs) (paint BLACK t))"
      using w0 c0 rbwf_paint_black [of t n] by (intro rbt_plugI) (auto simp: fits_def)
    then show ?thesis using True by (simp add: del_ok_def inorder_plug)
  next
    case t: False
    have cs: "rbwf s (Suc n)" using w0 c0 by (cases c) auto
    show ?thesis
    proof (cases s)
      case Lf
      then show ?thesis using cs by simp
    next
      case (Nd k sl x sr)
      show ?thesis
      proof (cases k)
        case RED
        then have c: "c = BLACK" "cwf fs (Suc (Suc n))" using w0 c0 Nd by (cases c; auto)+
        have w: "rbwf sl (Suc n)" "rbwf sr (Suc n)" "col sl = BLACK" "col sr = BLACK"
          using cs Nd RED by auto
        then obtain a y b where sl: "sl = Nd BLACK a y b" "rbwf a n" "rbwf b n" by (cases sl) auto
        have ctx: "cwf (FL BLACK x sr # fs) (Suc n)" using w c by simp
        show ?thesis
        proof (cases "col a = BLACK \<and> col b = BLACK")
          case True
          have "rbt (plug (FL BLACK x sr # fs) (Nd BLACK t e (Nd RED a y b)))"
            by (rule rbt_plugI [OF _ ctx]) (use w0 c0 sl True in \<open>auto simp: fits_def\<close>)
          then show ?thesis using t Nd RED sl True by (auto simp: del_ok_def inorder_plug)
        next
          case False
          note sb = sib_left_ok [OF w0 sl(2,3) False, of RED e y]
          have "rbt (plug (FL BLACK x sr # fs) (sib_left RED t e a y b))"
            by (rule rbt_plugI [OF _ ctx]) (use sb t in \<open>auto simp: fits_def\<close>)
          then have "rbt (paint BLACK (plug (FL BLACK x sr # fs) (sib_left RED t e a y b)))"
            by (rule rbt_paint_plug)
          then show ?thesis using t Nd RED sl False sb(1) by (auto simp: del_ok_def inorder_plug)
        qed
      next
        case BLACK
        then have w: "rbwf sl n" "rbwf sr n" using cs Nd by auto
        have cf: "if c = BLACK then cwf fs (Suc (Suc n)) else cwf fs (Suc n) \<and> top_black fs"
          using w0 c0 by (cases c) auto
        show ?thesis
        proof (cases "col sl = BLACK \<and> col sr = BLACK")
          case True
          let ?t = "Nd c t e (Nd RED sl x sr)"
          have "del_ok fs ?t"
          proof (cases c)
            case RED
            then have "del_fix fs ?t = plug fs (paint BLACK ?t)" by (simp add: del_fix_red)
            moreover have "rbt (plug fs (paint BLACK ?t))"
              by (rule rbt_plugI [of _ "Suc n"]) (use w0 c0 RED w True t cf in \<open>auto simp: fits_def\<close>)
            ultimately show ?thesis by (simp add: del_ok_def inorder_plug)
          next
            case BLACK
            have "rbwf ?t (Suc n)" using BLACK w0 w True by auto
            moreover have "cwf fs (Suc (Suc n))" using cf BLACK by simp
            ultimately show ?thesis by (rule IH)
          qed
          then show ?thesis using t Nd BLACK True by (auto simp: del_ok_def inorder_plug)
        next
          case False
          note sb = sib_left_ok [OF w0 w False, of c e x]
          have "rbt (plug fs (sib_left c t e sl x sr))"
            by (rule rbt_plugI [of _ "if c = BLACK then n + 2 else n + 1"])
              (use sb t cf in \<open>auto simp: fits_def split: if_splits\<close>)
          then have "rbt (paint BLACK (plug fs (sib_left c t e sl x sr)))"
            by (rule rbt_paint_plug)
          then show ?thesis using t Nd BLACK False sb(1) by (auto simp: del_ok_def inorder_plug)
        qed
      qed
    qed
  qed
qed

text \<open>The other side is the mirror image.\<close>

fun mirror :: "'e rtree \<Rightarrow> 'e rtree" where
  "mirror Lf = Lf"
| "mirror (Nd c l e r) = Nd c (mirror r) e (mirror l)"

fun fmirror :: "'e frame \<Rightarrow> 'e frame" where
  "fmirror (FL c e r) = FR c (mirror r) e"
| "fmirror (FR c l e) = FL c e (mirror l)"

lemma mirror_mirror [simp]: "mirror (mirror t) = t" "fmirror (fmirror f) = f"
proof -
  show m: "mirror (mirror t) = t" for t :: "'e rtree" by (induction t) simp_all
  show "fmirror (fmirror f) = f" by (cases f) (simp_all add: m)
qed

lemma mirror_simps [simp]:
  "inorder (mirror t) = rev (inorder t)" "col (mirror t) = col t" "mirror (paint c t) = paint c (mirror t)"
  "rbwf (mirror t) n = rbwf t n" "mirror t = Lf \<longleftrightarrow> t = Lf" "fcol (fmirror f) = fcol f"
proof -
  show c: "col (mirror t) = col t" for t :: "'e rtree" by (cases t) simp_all
  show "inorder (mirror t) = rev (inorder t)" by (induction t) simp_all
  show "mirror (paint c t) = paint c (mirror t)" by (cases t) simp_all
  show "rbwf (mirror t) n = rbwf t n" by (induction t n rule: rbwf.induct) (auto simp: c)
  show "mirror t = Lf \<longleftrightarrow> t = Lf" by (cases t) simp_all
  show "fcol (fmirror f) = fcol f" by (cases f) simp_all
qed

lemma mirror_plug: "mirror (plug fs t) = plug (map fmirror fs) (mirror t)"
proof (induction fs arbitrary: t)
  case (Cons f fs)
  then show ?case by (cases f) simp_all
qed simp

lemma cwf_mirror [simp]: "cwf (map fmirror fs) n = cwf fs n"
proof (induction fs n rule: cwf.induct)
qed (auto simp: top_black_def hd_map)

lemma sib_mirror: "mirror (sib_left c t e sl x sr) = sib_right c (mirror sr) x (mirror sl) e (mirror t)"
  by (cases sl) (auto simp: sib_left_def sib_right_def)

lemma del_fix_mirror: "del_fix (map fmirror fs) (mirror t) = mirror (del_fix fs t)"
proof (induction fs t rule: del_fix.induct)
  case (2 c e s fs t)
  then show ?case
    by (auto simp: mirror_plug sib_mirror split: rtree.splits color_t.splits)
next
  case (3 c s e fs t)
  have sr: "mirror (sib_right c sl x sr e t) = sib_left c (mirror t) e (mirror sr) x (mirror sl)" for c :: color_t and sl x sr
    using sib_mirror [of c "mirror t" e "mirror sr" x "mirror sl"] by (metis mirror_mirror(1))
  show ?case using 3
    by (auto simp: mirror_plug sr split: rtree.splits color_t.splits)
qed simp

lemma rbt_mirror [simp]: "rbt (mirror t) = rbt t"
  by (simp add: rbt_def)

lemma del_ok_mirror: "del_ok (map fmirror fs) (mirror t) = del_ok fs t"
  by (simp add: del_ok_def del_fix_mirror mirror_plug [symmetric])

lemma del_fix_ok: "rbwf t n \<Longrightarrow> cwf fs (Suc n) \<Longrightarrow> del_ok fs t"
proof (induction fs arbitrary: t n)
  case Nil
  then show ?case by (cases t; cases "col t") (auto simp: del_ok_def rbt_def)
next
  case (Cons f fs)
  show ?case
  proof (cases f)
    case (FL c e s)
    show ?thesis unfolding FL
      by (rule del_fix_left [OF Cons.IH Cons.prems(1) Cons.prems(2) [unfolded FL]])
  next
    case (FR c s e)
    have IH: "del_ok (map fmirror fs) t" if "rbwf t n" "cwf (map fmirror fs) (Suc n)" for t n
      using Cons.IH [of "mirror t" n] that del_ok_mirror [of fs "mirror t"] by simp
    have "cwf (map fmirror (f # fs)) (Suc n)" using Cons.prems(2) by (simp only: cwf_mirror)
    then have m: "cwf (FL c e (mirror s) # map fmirror fs) (Suc n)" by (simp only: FR list.map fmirror.simps)
    have "del_ok (FL c e (mirror s) # map fmirror fs) (mirror t)"
      by (rule del_fix_left [OF IH _ m]) (use Cons.prems(1) in simp_all)
    then show ?thesis using del_ok_mirror [of "f # fs" t] FR by simp
  qed
qed

end
