(* ===== verification/Lisk_Map_Rep.thy ===== *)
theory Lisk_Map_Rep
  imports Lisk_Rbt
begin

text \<open>
  What it means that the node store of \<open>Lisk_Map\<close> holds a tree, and that the rotations of the code
  are the rotations of that tree. The colour bit in the parent word is dealt with here once; the
  later theories use the fields of a node only through \<open>rb_parent\<close>, \<open>rb_color\<close>, \<open>left\<close> and \<open>right\<close>.
\<close>

section \<open>The parent word\<close>

text \<open>Nodes are at addresses with the two lowest bits clear; the bit above the colour is never set.\<close>

definition aligned :: "u4 \<Rightarrow> bool" where
  "aligned p \<longleftrightarrow> p AND 3 = 0"

definition node_ok :: "rb_node_t \<Rightarrow> bool" where
  "node_ok nd \<longleftrightarrow> parent nd AND 2 = 0"

lemma bits_3: "bit (3 :: u4) n \<longleftrightarrow> n = 0 \<or> n = 1"
proof -
  have m: "(3 :: u4) = mask 2" by (simp add: mask_eq_exp_minus_1)
  show ?thesis unfolding m bit_mask_iff by auto
qed

lemma bits_2: "bit (2 :: u4) n \<longleftrightarrow> n = 1"
proof -
  have "bit (2 ^ 1 :: u4) n \<longleftrightarrow> n = 1" unfolding bit_exp_iff by auto
  then show ?thesis by simp
qed

lemma bits_1: "bit (1 :: u4) n \<longleftrightarrow> n = 0"
  by (simp add: bit_1_iff)

lemma u4_eq: "(a :: u4) = b \<longleftrightarrow> (\<forall>n. bit a n = bit b n)"
  by (auto intro: bit_word_eqI)

lemmas word_bits = bit_and_iff bit_or_iff bits_1 bits_2 bits_3

lemma aligned_bits: "aligned p \<longleftrightarrow> \<not> bit p 0 \<and> \<not> bit p 1"
  unfolding aligned_def u4_eq [of "p AND 3"] word_bits by (metis bit_0_eq bot_fun_def bot_bool_def)

lemma node_ok_bit: "node_ok nd \<longleftrightarrow> \<not> bit (parent nd) 1"
  unfolding node_ok_def u4_eq [of "parent nd AND 2"] word_bits by auto

lemma rb_color_bit: "rb_color nd = (if bit (parent nd) 0 then BLACK else RED)"
proof -
  have "parent nd AND 1 = 1 \<longleftrightarrow> bit (parent nd) 0"
    unfolding u4_eq [of "parent nd AND 1"] word_bits by auto
  then show ?thesis by (simp add: rb_color_def)
qed

lemma rb_parent_bit: "bit (rb_parent nd) n \<longleftrightarrow> n \<noteq> 0 \<and> bit (parent nd) n"
proof -
  have "bit (parent nd) n \<Longrightarrow> n < 32" using bit_imp_le_length [of "parent nd" n] by simp
  then show ?thesis by (auto simp: rb_parent_def word_bits bit_not_iff)
qed

lemma rb_parent_aligned: "node_ok nd \<Longrightarrow> aligned (rb_parent nd)"
  by (simp add: aligned_bits rb_parent_bit node_ok_bit)

lemma parent_set_bit: "bit (parent (node_set_parent p nd)) n \<longleftrightarrow> (n = 0 \<or> n = 1) \<and> bit (parent nd) n \<or> bit p n"
proof -
  have "parent (node_set_parent p nd) = (parent nd AND 3) OR p" by (simp add: node_set_parent_def)
  then show ?thesis unfolding word_bits by (simp only: word_bits) blast
qed

lemma rb_parent_set [simp]:
  assumes "node_ok nd" "aligned p"
  shows "rb_parent (node_set_parent p nd) = p"
proof -
  have "bit (rb_parent (node_set_parent p nd)) n = bit p n" for n
    using assms unfolding rb_parent_bit parent_set_bit node_ok_bit aligned_bits by metis
  then show ?thesis unfolding u4_eq by blast
qed

lemma rb_color_set [simp]: "aligned p \<Longrightarrow> rb_color (node_set_parent p nd) = rb_color nd"
  by (simp add: rb_color_bit parent_set_bit aligned_bits)

lemma node_ok_set [simp]: "node_ok nd \<Longrightarrow> aligned p \<Longrightarrow> node_ok (node_set_parent p nd)"
  by (simp add: node_ok_bit parent_set_bit aligned_bits)

lemma word_updates:
  "bit (parent (node_set_black nd)) n \<longleftrightarrow> n = 0 \<or> bit (parent nd) n"
  "bit (parent (node_set_red nd)) n \<longleftrightarrow> n \<noteq> 0 \<and> bit (parent nd) n"
  "bit (parent (node_set_color c nd)) n \<longleftrightarrow> (if n = 0 then c = BLACK else bit (parent nd) n)"
proof -
  have "bit (parent nd) n \<Longrightarrow> n < 32" using bit_imp_le_length [of "parent nd" n] by simp
  then show "bit (parent (node_set_black nd)) n \<longleftrightarrow> n = 0 \<or> bit (parent nd) n"
    "bit (parent (node_set_red nd)) n \<longleftrightarrow> n \<noteq> 0 \<and> bit (parent nd) n"
    "bit (parent (node_set_color c nd)) n \<longleftrightarrow> (if n = 0 then c = BLACK else bit (parent nd) n)"
    by (cases c; auto simp: node_set_black_def node_set_red_def node_set_color_def word_bits bit_not_iff)+
qed

lemma black_red [simp]:
  "rb_parent (node_set_black nd) = rb_parent nd" "rb_parent (node_set_red nd) = rb_parent nd"
  "rb_parent (node_set_color c nd) = rb_parent nd"
  "rb_color (node_set_black nd) = BLACK" "rb_color (node_set_red nd) = RED" "rb_color (node_set_color c nd) = c"
  "node_ok (node_set_black nd) = node_ok nd" "node_ok (node_set_red nd) = node_ok nd"
  "node_ok (node_set_color c nd) = node_ok nd"
  unfolding u4_eq rb_parent_bit rb_color_bit node_ok_bit word_updates by auto

lemma links_kept [simp]:
  "left (node_set_parent p nd) = left nd" "right (node_set_parent p nd) = right nd"
  "left (node_set_black nd) = left nd" "right (node_set_black nd) = right nd"
  "left (node_set_red nd) = left nd" "right (node_set_red nd) = right nd"
  "left (node_set_color c nd) = left nd" "right (node_set_color c nd) = right nd"
  "key (node_set_parent p nd) = key nd" "value (node_set_parent p nd) = value nd"
  "key (node_set_black nd) = key nd" "value (node_set_black nd) = value nd"
  "key (node_set_red nd) = key nd" "value (node_set_red nd) = value nd"
  "key (node_set_color c nd) = key nd" "value (node_set_color c nd) = value nd"
  by (simp_all add: node_set_parent_def node_set_black_def node_set_red_def node_set_color_def)

lemma word_kept [simp]:
  "rb_parent (nd\<lparr>left := p\<rparr>) = rb_parent nd" "rb_parent (nd\<lparr>right := p\<rparr>) = rb_parent nd"
  "rb_parent (nd\<lparr>value := v\<rparr>) = rb_parent nd"
  "rb_color (nd\<lparr>left := p\<rparr>) = rb_color nd" "rb_color (nd\<lparr>right := p\<rparr>) = rb_color nd"
  "rb_color (nd\<lparr>value := v\<rparr>) = rb_color nd"
  "node_ok (nd\<lparr>left := p\<rparr>) = node_ok nd" "node_ok (nd\<lparr>right := p\<rparr>) = node_ok nd"
  "node_ok (nd\<lparr>value := v\<rparr>) = node_ok nd"
  by (simp_all add: rb_parent_def rb_color_def node_ok_def)

section \<open>Trees in the store\<close>

type_synonym entry = "u4 \<times> u1 list \<times> u1 list"

abbreviation adr :: "entry \<Rightarrow> u4" where "adr e \<equiv> fst e"

fun root_of :: "entry rtree \<Rightarrow> u4" where
  "root_of Lf = null"
| "root_of (Nd c l e r) = adr e"

fun top_of :: "entry frame list \<Rightarrow> u4" where
  "top_of [] = null"
| "top_of (FL c e r # fs) = adr e"
| "top_of (FR c l e # fs) = adr e"

definition holds :: "rb_node_t \<Rightarrow> color_t \<Rightarrow> u4 \<Rightarrow> u4 \<Rightarrow> u4 \<Rightarrow> u1 list \<times> u1 list \<Rightarrow> bool" where
  "holds nd c par lf rg kv \<longleftrightarrow> node_ok nd \<and> rb_color nd = c \<and> rb_parent nd = par \<and> left nd = lf \<and> right nd = rg \<and>
     key nd = fst kv \<and> value nd = snd kv"

definition node_at :: "rb_heap \<Rightarrow> color_t \<Rightarrow> u4 \<Rightarrow> u4 \<Rightarrow> u4 \<Rightarrow> entry \<Rightarrow> bool" where
  "node_at h c par lf rg e \<longleftrightarrow> adr e \<noteq> null \<and> aligned (adr e) \<and>
     (\<exists>nd. h (adr e) = Some nd \<and> holds nd c par lf rg (snd e))"

fun tree_ok :: "rb_heap \<Rightarrow> u4 \<Rightarrow> entry rtree \<Rightarrow> bool" where
  "tree_ok h par Lf \<longleftrightarrow> True"
| "tree_ok h par (Nd c l e r) \<longleftrightarrow>
     node_at h c par (root_of l) (root_of r) e \<and> tree_ok h (adr e) l \<and> tree_ok h (adr e) r"

fun ctx_ok :: "rb_heap \<Rightarrow> u4 \<Rightarrow> entry frame list \<Rightarrow> bool" where
  "ctx_ok h p [] \<longleftrightarrow> True"
| "ctx_ok h p (FL c e r # fs) \<longleftrightarrow>
     node_at h c (top_of fs) p (root_of r) e \<and> tree_ok h (adr e) r \<and> ctx_ok h (adr e) fs"
| "ctx_ok h p (FR c l e # fs) \<longleftrightarrow>
     node_at h c (top_of fs) (root_of l) p e \<and> tree_ok h (adr e) l \<and> ctx_ok h (adr e) fs"

text \<open>The addresses of a tree and of a context, and that none is there twice.\<close>

fun adrs :: "entry rtree \<Rightarrow> u4 set" where
  "adrs Lf = {}"
| "adrs (Nd c l e r) = insert (adr e) (adrs l \<union> adrs r)"

fun dst :: "entry rtree \<Rightarrow> bool" where
  "dst Lf \<longleftrightarrow> True"
| "dst (Nd c l e r) \<longleftrightarrow> dst l \<and> dst r \<and> adr e \<notin> adrs l \<and> adr e \<notin> adrs r \<and> adrs l \<inter> adrs r = {}"

fun cadrs :: "entry frame list \<Rightarrow> u4 set" where
  "cadrs [] = {}"
| "cadrs (FL c e r # fs) = insert (adr e) (adrs r \<union> cadrs fs)"
| "cadrs (FR c l e # fs) = insert (adr e) (adrs l \<union> cadrs fs)"

fun cdst :: "entry frame list \<Rightarrow> bool" where
  "cdst [] \<longleftrightarrow> True"
| "cdst (FL c e r # fs) \<longleftrightarrow> dst r \<and> cdst fs \<and> adr e \<notin> adrs r \<and> adr e \<notin> cadrs fs \<and> adrs r \<inter> cadrs fs = {}"
| "cdst (FR c l e # fs) \<longleftrightarrow> dst l \<and> cdst fs \<and> adr e \<notin> adrs l \<and> adr e \<notin> cadrs fs \<and> adrs l \<inter> cadrs fs = {}"

lemma adrs_inorder: "adrs t = adr ` set (inorder t)"
  by (induction t) auto

lemma dst_inorder: "dst t \<longleftrightarrow> distinct (map adr (inorder t))"
  by (induction t) (auto simp: adrs_inorder)

lemma adrs_plug: "adrs (plug fs t) = adrs t \<union> cadrs fs"
proof (induction fs arbitrary: t)
  case (Cons f fs)
  then show ?case by (cases f) auto
qed simp

lemma dst_plug: "dst (plug fs t) \<longleftrightarrow> dst t \<and> cdst fs \<and> adrs t \<inter> cadrs fs = {}"
proof (induction fs arbitrary: t)
  case (Cons f fs)
  then show ?case by (cases f) auto
qed simp

text \<open>The position \<open>fs\<close> of the tree in the store holds \<open>t\<close>.\<close>

definition rep :: "rb_heap \<Rightarrow> entry frame list \<Rightarrow> entry rtree \<Rightarrow> bool" where
  "rep h fs t \<longleftrightarrow> tree_ok h (top_of fs) t \<and> ctx_ok h (root_of t) fs \<and>
     dst t \<and> cdst fs \<and> adrs t \<inter> cadrs fs = {}"

lemma tree_ok_plug: "tree_ok h null (plug fs t) \<longleftrightarrow> tree_ok h (top_of fs) t \<and> ctx_ok h (root_of t) fs"
proof (induction fs arbitrary: t)
  case (Cons f fs)
  then show ?case by (cases f) auto
qed simp

lemma rep_plug: "rep h fs t \<longleftrightarrow> tree_ok h null (plug fs t) \<and> dst (plug fs t)"
  by (auto simp: rep_def tree_ok_plug dst_plug)

lemma rep_shift: "rep h (f # fs) t \<longleftrightarrow> rep h fs (plug1 f t)"
  by (simp add: rep_plug)

lemma root_of_plug: "fs \<noteq> [] \<Longrightarrow> root_of (plug fs t) = root_of (plug fs t')"
proof (induction fs arbitrary: t t')
  case (Cons f fs)
  show ?case
  proof (cases fs)
    case Nil
    then show ?thesis by (cases f) simp_all
  next
    case (Cons g gs)
    then show ?thesis using Cons.IH [of "plug1 f t" "plug1 f t'"] by simp
  qed
qed simp

lemma root_of_in: "t \<noteq> Lf \<Longrightarrow> root_of t \<in> adrs t"
  by (cases t) auto

lemma top_of_in: "fs \<noteq> [] \<Longrightarrow> top_of fs \<in> cadrs fs"
  by (cases "fs" rule: top_of.cases) auto

text \<open>What is stored at one node matters only there.\<close>

lemma node_at_same [simp]:
  "adr e = a \<Longrightarrow> node_at (h(a \<mapsto> nd)) c par lf rg e \<longleftrightarrow> a \<noteq> null \<and> aligned a \<and> holds nd c par lf rg (snd e)"
  by (auto simp: node_at_def)

lemma node_at_other [simp]: "adr e \<noteq> a \<Longrightarrow> node_at (h(a := z)) c par lf rg e = node_at h c par lf rg e"
  by (simp add: node_at_def)

lemma tree_ok_other [simp]: "a \<notin> adrs t \<Longrightarrow> tree_ok (h(a := z)) par t = tree_ok h par t"
  by (induction t arbitrary: par) auto

lemma ctx_ok_other [simp]:
  "a \<notin> cadrs fs \<Longrightarrow> ctx_ok (h(a := z)) p fs = ctx_ok h p fs"
  by (induction h p fs rule: ctx_ok.induct) auto

lemma tree_ok_cong:
  "tree_ok h par t \<Longrightarrow> (\<And>q. q \<in> adrs t \<Longrightarrow> h' q = h q) \<Longrightarrow> tree_ok h' par t"
  by (induction t arbitrary: par) (auto simp: node_at_def)

lemma ctx_ok_cong:
  "ctx_ok h p fs \<Longrightarrow> (\<And>q. q \<in> cadrs fs \<Longrightarrow> h' q = h q) \<Longrightarrow> ctx_ok h' p fs"
  by (induction h p fs rule: ctx_ok.induct) (auto simp: node_at_def intro: tree_ok_cong)

lemma holds_set_parent: "holds nd c par lf rg kv \<Longrightarrow> aligned p \<Longrightarrow> holds (node_set_parent p nd) c p lf rg kv"
  by (simp add: holds_def)

lemma tree_ok_node: "tree_ok h par t \<Longrightarrow> t \<noteq> Lf \<Longrightarrow> \<exists>nd. h (root_of t) = Some nd \<and> node_ok nd \<and> rb_color nd = col t"
  by (cases t) (auto simp: node_at_def holds_def)

lemma root_null: "tree_ok h par t \<Longrightarrow> root_of t = null \<longleftrightarrow> t = Lf"
  by (cases t) (auto simp: node_at_def)

lemma top_null: "ctx_ok h p fs \<Longrightarrow> top_of fs = null \<longleftrightarrow> fs = []"
  by (cases fs rule: top_of.cases) (auto simp: node_at_def)

lemma root_aligned: "tree_ok h par t \<Longrightarrow> aligned (root_of t)"
  by (cases t) (auto simp: node_at_def aligned_def)

lemma top_aligned: "ctx_ok h p fs \<Longrightarrow> aligned (top_of fs)"
  by (cases fs rule: top_of.cases) (auto simp: node_at_def aligned_def)

text \<open>A subtree under a new parent, and a position with a new subtree.\<close>

lemma tree_ok_reparent:
  assumes "tree_ok h par t" "dst t" "aligned p" "h (root_of t) = Some nd" "t \<noteq> Lf"
  shows "tree_ok (h(root_of t \<mapsto> node_set_parent p nd)) p t"
  using assms by (cases t) (auto simp: node_at_def holds_set_parent)

lemma ctx_ok_child:
  assumes "ctx_ok h p fs" "fs \<noteq> []" "cdst fs"
  shows "\<exists>nd. h (top_of fs) = Some nd \<and>
     (case hd fs of FL c e r \<Rightarrow> left nd = p \<and> right nd = root_of r \<and> ctx_ok (h(top_of fs \<mapsto> nd\<lparr>left := q\<rparr>)) q fs
                  | FR c l e \<Rightarrow> right nd = p \<and> left nd = root_of l \<and> ctx_ok (h(top_of fs \<mapsto> nd\<lparr>right := q\<rparr>)) q fs)"
  using assms by (cases fs rule: top_of.cases) (auto simp: node_at_def holds_def)

section \<open>Rotations\<close>

lemmas store_simps = set_left_def set_right_def rb_set_parent_def rb_upd_def

text \<open>
  The link from above, which a rotation and a removal set: the position gets a new subtree that
  already points up to it.
\<close>

lemma replace_child_ok:
  assumes c: "ctx_ok h p fs" and d: "cdst fs"
    and p: "p \<noteq> null" "p \<notin> cadrs fs"
  shows "\<exists>h'. rb_replace_child root h (top_of fs) p q = Some (if fs = [] then root\<lparr>rnode := q\<rparr> else root, h') \<and>
           ctx_ok h' q fs \<and> dom h' = dom h \<and> (\<forall>a. a \<notin> cadrs fs \<longrightarrow> h' a = h a)"
proof (cases "fs = []")
  case True
  then show ?thesis by (auto simp: rb_replace_child_def)
next
  case False
  obtain nd where nd: "h (top_of fs) = Some nd"
     "case hd fs of FL c e r \<Rightarrow> left nd = p \<and> right nd = root_of r \<and> ctx_ok (h(top_of fs \<mapsto> nd\<lparr>left := q\<rparr>)) q fs
                  | FR c l e \<Rightarrow> right nd = p \<and> left nd = root_of l \<and> ctx_ok (h(top_of fs \<mapsto> nd\<lparr>right := q\<rparr>)) q fs"
    using ctx_ok_child [OF c False d] by blast
  have tn: "top_of fs \<noteq> null" using top_null [OF c] False by simp
  have ta: "top_of fs \<in> cadrs fs" using top_of_in [OF False] .
  show ?thesis
  proof (cases "hd fs")
    case (FL k e r)
    have run: "rb_replace_child root h (top_of fs) p q = Some (root, h(top_of fs \<mapsto> nd\<lparr>left := q\<rparr>))"
      using nd FL tn by (simp add: rb_replace_child_def store_simps)
    have "dom (h(top_of fs \<mapsto> nd\<lparr>left := q\<rparr>)) = dom h" using nd(1) by auto
    then show ?thesis using run nd(2) FL False ta by auto
  next
    case (FR k l e)
    obtain gs where fs: "fs = FR k l e # gs" using FR False by (cases fs) auto
    have "root_of l = null \<or> root_of l \<in> cadrs fs"
      using root_of_in [of l] fs by (cases "l = Lf") auto
    moreover have "left nd = root_of l" using nd(2) FR by simp
    ultimately have "left nd \<noteq> p" using p by metis
    then have run: "rb_replace_child root h (top_of fs) p q = Some (root, h(top_of fs \<mapsto> nd\<lparr>right := q\<rparr>))"
      using nd FR tn by (simp add: rb_replace_child_def store_simps)
    have "dom (h(top_of fs \<mapsto> nd\<lparr>right := q\<rparr>)) = dom h" using nd(1) by auto
    then show ?thesis using run nd(2) FR False ta by auto
  qed
qed

text \<open>The stores below that link: the subtree is turned and points up to the old parent.\<close>

lemma rotate_left_below:
  assumes t: "tree_ok h par (Nd c a x (Nd d b y e))" and par: "aligned par"
    and dis: "dst (Nd c a x (Nd d b y e))"
  shows "\<exists>nd rn h2. h (adr x) = Some nd \<and> right nd = adr y \<and> h (adr y) = Some rn \<and>
           do { h \<leftarrow> set_right h (adr x) (left rn);
             h \<leftarrow> (if left rn \<noteq> null then rb_set_parent h (left rn) (adr x) else Some h);
             h \<leftarrow> set_left h (adr y) (adr x);
             nd \<leftarrow> h (adr x);
             h \<leftarrow> rb_set_parent h (adr y) (rb_parent nd);
             rb_set_parent h (adr x) (adr y) } = Some h2 \<and>
           (\<exists>rn2. h2 (adr y) = Some rn2 \<and> rb_parent rn2 = par) \<and>
           tree_ok h2 par (Nd d (Nd c a x b) y e) \<and> dom h2 = dom h \<and>
           (\<forall>q. q \<notin> adrs (Nd c a x (Nd d b y e)) \<longrightarrow> h2 q = h q)"
proof -
  obtain nd rn where nd: "h (adr x) = Some nd" "holds nd c par (root_of a) (adr y) (snd x)"
      "h (adr y) = Some rn" "holds rn d (adr x) (root_of b) (root_of e) (snd y)"
    and al: "adr x \<noteq> null" "aligned (adr x)" "adr y \<noteq> null" "aligned (adr y)"
    using t by (auto simp: node_at_def)
  have sub: "tree_ok h (adr x) a" "tree_ok h (adr y) b" "tree_ok h (adr y) e" using t by auto
  let ?nd = "node_set_parent (adr y) (nd\<lparr>right := root_of b\<rparr>)"
  let ?rn = "node_set_parent par (rn\<lparr>left := adr x\<rparr>)"
  have hd: "holds ?nd c (adr y) (root_of a) (root_of b) (snd x)" "holds ?rn d par (adr x) (root_of e) (snd y)"
    using nd al par by (auto simp: holds_def)
  have xy: "adr x \<noteq> adr y" using dis by auto
  show ?thesis
  proof (cases "b = Lf")
    case True
    let ?h = "h(adr x \<mapsto> ?nd, adr y \<mapsto> ?rn)"
    have "do { h \<leftarrow> set_right h (adr x) (left rn);
             h \<leftarrow> (if left rn \<noteq> null then rb_set_parent h (left rn) (adr x) else Some h);
             h \<leftarrow> set_left h (adr y) (adr x);
             nd \<leftarrow> h (adr x);
             h \<leftarrow> rb_set_parent h (adr y) (rb_parent nd);
             rb_set_parent h (adr x) (adr y) } = Some ?h"
      using nd xy True by (auto simp: store_simps holds_def fun_eq_iff)
    moreover have "tree_ok ?h par (Nd d (Nd c a x b) y e)"
      using sub hd xy dis al True by auto
    moreover have "dom ?h = dom h" using nd by auto
    moreover have "rb_parent ?rn = par" using hd(2) by (simp add: holds_def)
    ultimately show ?thesis using nd True xy by (intro exI [of _ nd] exI [of _ rn] exI [of _ ?h]) (auto simp: holds_def)
  next
    case False
    obtain bn where bn: "h (root_of b) = Some bn" "node_ok bn" using tree_ok_node [OF sub(2) False] by blast
    let ?bn = "node_set_parent (adr x) bn"
    have rb: "root_of b \<in> adrs b" using root_of_in [OF False] .
    have ne: "root_of b \<noteq> adr x" "root_of b \<noteq> adr y" "root_of b \<noteq> null"
      using rb dis root_null [OF sub(2)] False by auto
    let ?h = "h(root_of b \<mapsto> ?bn, adr x \<mapsto> ?nd, adr y \<mapsto> ?rn)"
    have "do { h \<leftarrow> set_right h (adr x) (left rn);
             h \<leftarrow> (if left rn \<noteq> null then rb_set_parent h (left rn) (adr x) else Some h);
             h \<leftarrow> set_left h (adr y) (adr x);
             nd \<leftarrow> h (adr x);
             h \<leftarrow> rb_set_parent h (adr y) (rb_parent nd);
             rb_set_parent h (adr x) (adr y) } = Some ?h"
      using nd xy ne bn by (auto simp: store_simps holds_def fun_eq_iff)
    note run = this
    have "tree_ok (h(root_of b \<mapsto> ?bn)) (adr x) b"
      by (rule tree_ok_reparent [OF sub(2) _ al(2) bn(1) False]) (use dis in auto)
    moreover have "root_of b \<notin> adrs a" "root_of b \<notin> adrs e" using rb dis by auto
    ultimately have "tree_ok ?h par (Nd d (Nd c a x b) y e)"
      using sub hd xy dis al rb by auto
    moreover have "dom ?h = dom h" using nd bn by auto
    moreover have "rb_parent ?rn = par" using hd(2) by (simp add: holds_def)
    ultimately show ?thesis using run nd xy rb by (intro exI [of _ nd] exI [of _ rn] exI [of _ ?h]) (auto simp: holds_def)
  qed
qed

lemma rotate_right_below:
  assumes t: "tree_ok h par (Nd c (Nd d e y b) x a)" and par: "aligned par"
    and dis: "dst (Nd c (Nd d e y b) x a)"
  shows "\<exists>nd rn h2. h (adr x) = Some nd \<and> left nd = adr y \<and> h (adr y) = Some rn \<and>
           do { h \<leftarrow> set_left h (adr x) (right rn);
             h \<leftarrow> (if right rn \<noteq> null then rb_set_parent h (right rn) (adr x) else Some h);
             h \<leftarrow> set_right h (adr y) (adr x);
             nd \<leftarrow> h (adr x);
             h \<leftarrow> rb_set_parent h (adr y) (rb_parent nd);
             rb_set_parent h (adr x) (adr y) } = Some h2 \<and>
           (\<exists>rn2. h2 (adr y) = Some rn2 \<and> rb_parent rn2 = par) \<and>
           tree_ok h2 par (Nd d e y (Nd c b x a)) \<and> dom h2 = dom h \<and>
           (\<forall>q. q \<notin> adrs (Nd c (Nd d e y b) x a) \<longrightarrow> h2 q = h q)"
proof -
  obtain nd rn where nd: "h (adr x) = Some nd" "holds nd c par (adr y) (root_of a) (snd x)"
      "h (adr y) = Some rn" "holds rn d (adr x) (root_of e) (root_of b) (snd y)"
    and al: "adr x \<noteq> null" "aligned (adr x)" "adr y \<noteq> null" "aligned (adr y)"
    using t by (auto simp: node_at_def)
  have sub: "tree_ok h (adr x) a" "tree_ok h (adr y) b" "tree_ok h (adr y) e" using t by auto
  let ?nd = "node_set_parent (adr y) (nd\<lparr>left := root_of b\<rparr>)"
  let ?rn = "node_set_parent par (rn\<lparr>right := adr x\<rparr>)"
  have hd: "holds ?nd c (adr y) (root_of b) (root_of a) (snd x)" "holds ?rn d par (root_of e) (adr x) (snd y)"
    using nd al par by (auto simp: holds_def)
  have xy: "adr x \<noteq> adr y" using dis by auto
  show ?thesis
  proof (cases "b = Lf")
    case True
    let ?h = "h(adr x \<mapsto> ?nd, adr y \<mapsto> ?rn)"
    have "do { h \<leftarrow> set_left h (adr x) (right rn);
             h \<leftarrow> (if right rn \<noteq> null then rb_set_parent h (right rn) (adr x) else Some h);
             h \<leftarrow> set_right h (adr y) (adr x);
             nd \<leftarrow> h (adr x);
             h \<leftarrow> rb_set_parent h (adr y) (rb_parent nd);
             rb_set_parent h (adr x) (adr y) } = Some ?h"
      using nd xy True by (auto simp: store_simps holds_def fun_eq_iff)
    moreover have "tree_ok ?h par (Nd d e y (Nd c b x a))"
      using sub hd xy dis al True by auto
    moreover have "dom ?h = dom h" using nd by auto
    moreover have "rb_parent ?rn = par" using hd(2) by (simp add: holds_def)
    ultimately show ?thesis using nd True xy by (intro exI [of _ nd] exI [of _ rn] exI [of _ ?h]) (auto simp: holds_def)
  next
    case False
    obtain bn where bn: "h (root_of b) = Some bn" "node_ok bn" using tree_ok_node [OF sub(2) False] by blast
    let ?bn = "node_set_parent (adr x) bn"
    have rb: "root_of b \<in> adrs b" using root_of_in [OF False] .
    have ne: "root_of b \<noteq> adr x" "root_of b \<noteq> adr y" "root_of b \<noteq> null"
      using rb dis root_null [OF sub(2)] False by auto
    let ?h = "h(root_of b \<mapsto> ?bn, adr x \<mapsto> ?nd, adr y \<mapsto> ?rn)"
    have "do { h \<leftarrow> set_left h (adr x) (right rn);
             h \<leftarrow> (if right rn \<noteq> null then rb_set_parent h (right rn) (adr x) else Some h);
             h \<leftarrow> set_right h (adr y) (adr x);
             nd \<leftarrow> h (adr x);
             h \<leftarrow> rb_set_parent h (adr y) (rb_parent nd);
             rb_set_parent h (adr x) (adr y) } = Some ?h"
      using nd xy ne bn by (auto simp: store_simps holds_def fun_eq_iff)
    note run = this
    have "tree_ok (h(root_of b \<mapsto> ?bn)) (adr x) b"
      by (rule tree_ok_reparent [OF sub(2) _ al(2) bn(1) False]) (use dis in auto)
    moreover have "root_of b \<notin> adrs a" "root_of b \<notin> adrs e" using rb dis by auto
    ultimately have "tree_ok ?h par (Nd d e y (Nd c b x a))"
      using sub hd xy dis al rb by auto
    moreover have "dom ?h = dom h" using nd bn by auto
    moreover have "rb_parent ?rn = par" using hd(2) by (simp add: holds_def)
    ultimately show ?thesis using run nd xy rb by (intro exI [of _ nd] exI [of _ rn] exI [of _ ?h]) (auto simp: holds_def)
  qed
qed

lemma rotate_left_split:
  assumes "h x = Some nd" "right nd = y" "y \<noteq> null" "h y = Some rn" "h2 y = Some rn2"
    and b: "do { h \<leftarrow> set_right h x (left rn);
         h \<leftarrow> (if left rn \<noteq> null then rb_set_parent h (left rn) x else Some h);
         h \<leftarrow> set_left h y x;
         nd \<leftarrow> h x;
         h \<leftarrow> rb_set_parent h y (rb_parent nd);
         rb_set_parent h x y } = Some h2"
  shows "rb_rotate_left (root, h) x = rb_replace_child root h2 (rb_parent rn2) x y"
proof -
  obtain h3 h4 h5 n5 h6 where s: "set_right h x (left rn) = Some h3"
      "(if left rn \<noteq> null then rb_set_parent h3 (left rn) x else Some h3) = Some h4"
      "set_left h4 y x = Some h5" "h5 x = Some n5" "rb_set_parent h5 y (rb_parent n5) = Some h6"
      "rb_set_parent h6 x y = Some h2"
    using b unfolding bind_eq_Some_conv by blast
  show ?thesis using assms(1-5) by (simp add: rb_rotate_left_def rb_replace_child_def Let_def s cong: if_cong)
qed

lemma rotate_right_split:
  assumes "h x = Some nd" "left nd = y" "y \<noteq> null" "h y = Some rn" "h2 y = Some rn2"
    and b: "do { h \<leftarrow> set_left h x (right rn);
         h \<leftarrow> (if right rn \<noteq> null then rb_set_parent h (right rn) x else Some h);
         h \<leftarrow> set_right h y x;
         nd \<leftarrow> h x;
         h \<leftarrow> rb_set_parent h y (rb_parent nd);
         rb_set_parent h x y } = Some h2"
  shows "rb_rotate_right (root, h) x = rb_replace_child root h2 (rb_parent rn2) x y"
proof -
  obtain h3 h4 h5 n5 h6 where s: "set_left h x (right rn) = Some h3"
      "(if right rn \<noteq> null then rb_set_parent h3 (right rn) x else Some h3) = Some h4"
      "set_right h4 y x = Some h5" "h5 x = Some n5" "rb_set_parent h5 y (rb_parent n5) = Some h6"
      "rb_set_parent h6 x y = Some h2"
    using b unfolding bind_eq_Some_conv by blast
  show ?thesis using assms(1-5) by (simp add: rb_rotate_right_def rb_replace_child_def Let_def s cong: if_cong)
qed

lemma rotate_left_ok:
  assumes r: "rep h fs (Nd c a x (Nd d b y e))" and rt: "rnode root = root_of (plug fs (Nd c a x (Nd d b y e)))"
  shows "\<exists>h'. rb_rotate_left (root, h) (adr x) = Some (root\<lparr>rnode := root_of (plug fs (Nd d (Nd c a x b) y e))\<rparr>, h') \<and>
           rep h' fs (Nd d (Nd c a x b) y e) \<and> dom h' = dom h"
proof -
  let ?t = "Nd c a x (Nd d b y e)" and ?u = "Nd d (Nd c a x b) y e"
  have t: "tree_ok h (top_of fs) ?t" "ctx_ok h (adr x) fs" "dst ?t" "cdst fs" "adrs ?t \<inter> cadrs fs = {}"
    using r by (simp_all add: rep_def)
  obtain nd rn h2 rn2 where b: "h (adr x) = Some nd" "right nd = adr y" "h (adr y) = Some rn"
      "do { h \<leftarrow> set_right h (adr x) (left rn);
         h \<leftarrow> (if left rn \<noteq> null then rb_set_parent h (left rn) (adr x) else Some h);
         h \<leftarrow> set_left h (adr y) (adr x);
         nd \<leftarrow> h (adr x);
         h \<leftarrow> rb_set_parent h (adr y) (rb_parent nd);
         rb_set_parent h (adr x) (adr y) } = Some h2"
      "h2 (adr y) = Some rn2" "rb_parent rn2 = top_of fs" "tree_ok h2 (top_of fs) ?u" "dom h2 = dom h"
      "\<forall>q. q \<notin> adrs ?t \<longrightarrow> h2 q = h q"
    using rotate_left_below [OF t(1) top_aligned [OF t(2)] t(3)] by blast
  have c2: "ctx_ok h2 (adr x) fs"
    by (rule ctx_ok_cong [OF t(2)]) (use b(9) t(5) in blast)
  obtain h3 where h3: "rb_replace_child root h2 (top_of fs) (adr x) (adr y) =
        Some (if fs = [] then root\<lparr>rnode := adr y\<rparr> else root, h3)"
      "ctx_ok h3 (adr y) fs" "dom h3 = dom h2" "\<forall>q. q \<notin> cadrs fs \<longrightarrow> h3 q = h2 q"
    using replace_child_ok [OF c2 t(4), of root "adr y"] t(1,5) by (auto simp: node_at_def)
  have "rb_rotate_left (root, h) (adr x) = rb_replace_child root h2 (rb_parent rn2) (adr x) (adr y)"
    by (rule rotate_left_split [OF b(1,2) _ b(3) b(5) b(4)]) (use t(1) in \<open>auto simp: node_at_def\<close>)
  moreover have "tree_ok h3 (top_of fs) ?u"
    by (rule tree_ok_cong [OF b(7)]) (use h3(4) t(5) in auto)
  moreover have "(if fs = [] then root\<lparr>rnode := adr y\<rparr> else root) = root\<lparr>rnode := root_of (plug fs ?u)\<rparr>"
    using rt root_of_plug [of fs ?t ?u] by (cases root) auto
  moreover have "dst ?u" "adrs ?u = adrs ?t" using t(3) by auto
  ultimately show ?thesis using h3 b(6,8) t(4,5) by (auto simp: rep_def)
qed

lemma rotate_right_ok:
  assumes r: "rep h fs (Nd c (Nd d e y b) x a)" and rt: "rnode root = root_of (plug fs (Nd c (Nd d e y b) x a))"
  shows "\<exists>h'. rb_rotate_right (root, h) (adr x) = Some (root\<lparr>rnode := root_of (plug fs (Nd d e y (Nd c b x a)))\<rparr>, h') \<and>
           rep h' fs (Nd d e y (Nd c b x a)) \<and> dom h' = dom h"
proof -
  let ?t = "Nd c (Nd d e y b) x a" and ?u = "Nd d e y (Nd c b x a)"
  have t: "tree_ok h (top_of fs) ?t" "ctx_ok h (adr x) fs" "dst ?t" "cdst fs" "adrs ?t \<inter> cadrs fs = {}"
    using r by (simp_all add: rep_def)
  obtain nd rn h2 rn2 where b: "h (adr x) = Some nd" "left nd = adr y" "h (adr y) = Some rn"
      "do { h \<leftarrow> set_left h (adr x) (right rn);
         h \<leftarrow> (if right rn \<noteq> null then rb_set_parent h (right rn) (adr x) else Some h);
         h \<leftarrow> set_right h (adr y) (adr x);
         nd \<leftarrow> h (adr x);
         h \<leftarrow> rb_set_parent h (adr y) (rb_parent nd);
         rb_set_parent h (adr x) (adr y) } = Some h2"
      "h2 (adr y) = Some rn2" "rb_parent rn2 = top_of fs" "tree_ok h2 (top_of fs) ?u" "dom h2 = dom h"
      "\<forall>q. q \<notin> adrs ?t \<longrightarrow> h2 q = h q"
    using rotate_right_below [OF t(1) top_aligned [OF t(2)] t(3)] by blast
  have c2: "ctx_ok h2 (adr x) fs"
    by (rule ctx_ok_cong [OF t(2)]) (use b(9) t(5) in blast)
  obtain h3 where h3: "rb_replace_child root h2 (top_of fs) (adr x) (adr y) =
        Some (if fs = [] then root\<lparr>rnode := adr y\<rparr> else root, h3)"
      "ctx_ok h3 (adr y) fs" "dom h3 = dom h2" "\<forall>q. q \<notin> cadrs fs \<longrightarrow> h3 q = h2 q"
    using replace_child_ok [OF c2 t(4), of root "adr y"] t(1,5) by (auto simp: node_at_def)
  have "rb_rotate_right (root, h) (adr x) = rb_replace_child root h2 (rb_parent rn2) (adr x) (adr y)"
    by (rule rotate_right_split [OF b(1,2) _ b(3) b(5) b(4)]) (use t(1) in \<open>auto simp: node_at_def\<close>)
  moreover have "tree_ok h3 (top_of fs) ?u"
    by (rule tree_ok_cong [OF b(7)]) (use h3(4) t(5) in auto)
  moreover have "(if fs = [] then root\<lparr>rnode := adr y\<rparr> else root) = root\<lparr>rnode := root_of (plug fs ?u)\<rparr>"
    using rt root_of_plug [of fs ?t ?u] by (cases root) auto
  moreover have "dst ?u" "adrs ?u = adrs ?t" using t(3) by auto
  ultimately show ?thesis using h3 b(6,8) t(4,5) by (auto simp: rep_def)
qed

end
