(* ===== verification/Lisk_Map_Insert.thy ===== *)
theory Lisk_Map_Insert
  imports Lisk_Map_Rep
begin

text \<open>
  Insertion into the red-black tree of \<open>win_lisk/src/lisk_map.c\<close>: the steps of \<open>rb_insert_rebalance\<close> are
  those of \<open>ins_fix\<close> on the tree in the store.
\<close>

section \<open>A position of the tree\<close>

text \<open>The store holds \<open>t\<close> at the position \<open>fs\<close>, and the root record points at the top of the whole tree.\<close>

definition focus :: "rb_root_t \<Rightarrow> rb_heap \<Rightarrow> entry frame list \<Rightarrow> entry rtree \<Rightarrow> bool" where
  "focus root h fs t \<longleftrightarrow> rep h fs t \<and> rnode root = root_of (plug fs t)"

lemma focus_up: "focus root h (f # fs) t \<longleftrightarrow> focus root h fs (plug1 f t)"
  by (simp add: focus_def rep_shift)

lemma focus_top: "focus root h fs t \<longleftrightarrow> focus root h [] (plug fs t)"
  by (simp add: focus_def rep_plug)

lemma focus_swap: "focus root h (FL c e u # fs) t \<longleftrightarrow> focus root h (FR c t e # fs) u"
  by (simp add: focus_up)

lemma focus_node:
  "focus root h fs (Nd c l e r) \<Longrightarrow>
     \<exists>nd. h (adr e) = Some nd \<and> holds nd c (top_of fs) (root_of l) (root_of r) (snd e) \<and> adr e \<noteq> null"
  by (auto simp: focus_def rep_def node_at_def)

lemma focus_root_null: "focus root h fs t \<Longrightarrow> root_of t = null \<longleftrightarrow> t = Lf"
  by (auto simp: focus_def rep_def root_null)

lemma focus_top_null: "focus root h fs t \<Longrightarrow> top_of fs = null \<longleftrightarrow> fs = []"
  by (auto simp: focus_def rep_def dest: top_null)

lemma focus_dst: "focus root h fs t \<Longrightarrow> dst (plug fs t)"
  by (simp add: focus_def rep_plug)

lemma root_of_paint [simp]: "root_of (paint c t) = root_of t"
  by (cases t) simp_all

lemma plug_paint_root: "root_of (plug fs (paint c t)) = root_of (plug fs t)"
  by (cases "fs = []") (simp_all add: root_of_plug [of fs "paint c t" t])

text \<open>The colour macros.\<close>

lemma rep_paint:
  assumes r: "rep h fs (Nd c l e r)" and n: "h (adr e) = Some nd"
    and u: "\<And>x y z kv. holds nd c x y z kv \<Longrightarrow> holds (f nd) k x y z kv"
  shows "rep (h(adr e \<mapsto> f nd)) fs (Nd k l e r)"
proof -
  have "adr e \<notin> cadrs fs" "adr e \<notin> adrs l" "adr e \<notin> adrs r" using r by (auto simp: rep_def)
  then show ?thesis using r n u by (auto simp: rep_def node_at_def)
qed

lemma holds_colors:
  "holds nd c x y z kv \<Longrightarrow> holds (node_set_black nd) BLACK x y z kv"
  "holds nd c x y z kv \<Longrightarrow> holds (node_set_red nd) RED x y z kv"
  "holds nd c x y z kv \<Longrightarrow> holds (node_set_color k nd) k x y z kv"
  by (simp_all add: holds_def)

lemma focus_paint:
  assumes f: "focus root h fs t" and t: "t \<noteq> Lf"
  shows "\<exists>h'. color_set_black h (root_of t) = Some h' \<and> focus root h' fs (paint BLACK t) \<and> dom h' = dom h"
    "\<exists>h'. color_set_red h (root_of t) = Some h' \<and> focus root h' fs (paint RED t) \<and> dom h' = dom h"
    "\<exists>h'. rb_set_color h (root_of t) k = Some h' \<and> focus root h' fs (paint k t) \<and> dom h' = dom h"
proof -
  obtain c l e r where T: "t = Nd c l e r" using t by (cases t) auto
  obtain nd where nd: "h (adr e) = Some nd" using focus_node [OF f [unfolded T]] by blast
  have rr: "rep h fs (Nd c l e r)" "rnode root = root_of (plug fs (Nd c l e r))" using f T by (auto simp: focus_def)
  have pr: "root_of (plug fs (Nd k l e r)) = root_of (plug fs (Nd c l e r))" for k
    using plug_paint_root [of fs k t] T by simp
  have dm: "dom (h(adr e \<mapsto> z)) = dom h" for z using nd by auto
  note P = rep_paint [OF rr(1) nd]
  show "\<exists>h'. color_set_black h (root_of t) = Some h' \<and> focus root h' fs (paint BLACK t) \<and> dom h' = dom h"
    using P [where f = node_set_black, OF holds_colors(1) [where c = c]] rr(2) dm nd pr [of BLACK]
    by (simp add: color_set_black_def rb_upd_def T focus_def)
  show "\<exists>h'. color_set_red h (root_of t) = Some h' \<and> focus root h' fs (paint RED t) \<and> dom h' = dom h"
    using P [where f = node_set_red, OF holds_colors(2) [where c = c]] rr(2) dm nd pr [of RED]
    by (simp add: color_set_red_def rb_upd_def T focus_def)
  show "\<exists>h'. rb_set_color h (root_of t) k = Some h' \<and> focus root h' fs (paint k t) \<and> dom h' = dom h"
    using P [where f = "node_set_color k", OF holds_colors(3) [where c = c]] rr(2) dm nd pr [of k]
    by (simp add: rb_set_color_def rb_upd_def T focus_def)
qed

lemma focus_rotate_left:
  assumes f: "focus root h fs (Nd c a x (Nd d b y e))"
  shows "\<exists>p h'. rb_rotate_left (root, h) (adr x) = Some (root\<lparr>rnode := p\<rparr>, h') \<and>
           focus (root\<lparr>rnode := p\<rparr>) h' fs (Nd d (Nd c a x b) y e) \<and> dom h' = dom h"
  using rotate_left_ok [of h fs c a x d b y e root] f by (auto simp: focus_def)

lemma focus_rotate_right:
  assumes f: "focus root h fs (Nd c (Nd d e y b) x a)"
  shows "\<exists>p h'. rb_rotate_right (root, h) (adr x) = Some (root\<lparr>rnode := p\<rparr>, h') \<and>
           focus (root\<lparr>rnode := p\<rparr>) h' fs (Nd d e y (Nd c b x a)) \<and> dom h' = dom h"
  using rotate_right_ok [of h fs c d e y b x a root] f by (auto simp: focus_def)

lemma focus_is_red:
  assumes f: "focus root h fs t"
  shows "is_red h (root_of t) = Some (col t = RED)" "is_black h (root_of t) = Some (col t = BLACK)"
  using focus_root_null [OF f] f tree_ok_node [of h "top_of fs" t]
  by (cases t; auto simp: is_red_def is_black_def focus_def rep_def)+

text \<open>The node that a frame stands for.\<close>

fun fadr :: "entry frame \<Rightarrow> u4" where
  "fadr (FL c e r) = adr e"
| "fadr (FR c l e) = adr e"

lemma fadr_simps [simp]: "top_of (f # fs) = fadr f" "root_of (plug1 f t) = fadr f" "fadr (fpaint c f) = fadr f"
  by (cases f; simp)+

lemma focus_children: "focus root h fs (Nd c l e r) \<Longrightarrow> l \<noteq> Lf \<or> r \<noteq> Lf \<Longrightarrow> root_of l \<noteq> root_of r"
proof -
  assume f: "focus root h fs (Nd c l e r)" and n: "l \<noteq> Lf \<or> r \<noteq> Lf"
  have "adrs l \<inter> adrs r = {}" using f by (simp add: focus_def rep_def)
  moreover have "root_of l = null \<longleftrightarrow> l = Lf" "root_of r = null \<longleftrightarrow> r = Lf"
    using f focus_root_null [of root h "FL c e r # fs" l] focus_root_null [of root h "FR c l e # fs" r]
    by (simp_all add: focus_up)
  ultimately show ?thesis using n root_of_in [of l] root_of_in [of r] by (metis disjoint_iff)
qed

lemma focus_frame:
  assumes "focus root h (f # fs) t"
  shows "\<exists>pn. h (fadr f) = Some pn \<and> rb_color pn = fcol f \<and> rb_parent pn = top_of fs \<and> fadr f \<noteq> null \<and>
     (case f of FL c e r \<Rightarrow> left pn = root_of t \<and> right pn = root_of r
              | FR c l e \<Rightarrow> left pn = root_of l \<and> right pn = root_of t)"
  using assms by (cases f) (auto simp: focus_up holds_def dest!: focus_node)

lemma focus_sub:
  assumes "focus root h fs t" "t \<noteq> Lf"
  shows "\<exists>nd. h (root_of t) = Some nd \<and> rb_color nd = col t \<and> rb_parent nd = top_of fs \<and> root_of t \<noteq> null"
  using assms by (cases t) (auto simp: holds_def dest!: focus_node)

section \<open>The rebalancing loop\<close>

lemma insert_step_done:
  assumes f: "focus root h fs t" and t: "t \<noteq> Lf" and b: "fs = [] \<or> top_black fs"
  shows "rb_insert_step root h (root_of t) = Some (root, h, null)"
proof -
  obtain nd where nd: "h (root_of t) = Some nd" "rb_parent nd = top_of fs" using focus_sub [OF f t] by blast
  show ?thesis
  proof (cases fs)
    case Nil
    then show ?thesis using nd by (simp add: rb_insert_step_def)
  next
    case (Cons g gs)
    then obtain pn where "h (fadr g) = Some pn" "rb_color pn = BLACK" "fadr g \<noteq> null"
      using focus_frame [of root h g gs t] f b by auto
    then show ?thesis using nd Cons by (simp add: rb_insert_step_def)
  qed
qed

lemma insert_step_left_red:
  assumes f: "focus root h (f # FL c e u # fs) t" and fc: "fcol f = RED" and t: "t \<noteq> Lf" and u: "col u = RED"
  shows "\<exists>h'. rb_insert_step root h (root_of t) = Some (root, h', adr e) \<and>
     focus root h' fs (Nd RED (plug1 (fpaint BLACK f) t) e (paint BLACK u)) \<and> dom h' = dom h"
proof -
  obtain nd where nd: "h (root_of t) = Some nd" "rb_parent nd = fadr f" using focus_sub [OF f t] by auto
  obtain pn where pn: "h (fadr f) = Some pn" "rb_color pn = RED" "rb_parent pn = adr e" "fadr f \<noteq> null"
    using focus_frame [OF f] fc by auto
  obtain gn where gn: "h (adr e) = Some gn" "left gn = fadr f" "right gn = root_of u"
    using focus_frame [OF f [unfolded focus_up [of _ _ f]]] by auto
  have par: "fadr f \<noteq> root_of u"
    using focus_children [of root h fs c "plug1 f t" e u] f by (cases f) (auto simp: focus_up)
  have U: "focus root h (FR c (plug1 f t) e # fs) u" using f by (simp add: focus_up)
  have un: "u \<noteq> Lf" using u by auto
  have ur: "is_red h (root_of u) = Some True" using focus_is_red(1) [OF U] u by simp
  obtain h1 where h1: "color_set_black h (root_of u) = Some h1"
      "focus root h1 (FR c (plug1 f t) e # fs) (paint BLACK u)" "dom h1 = dom h"
    using focus_paint(1) [OF U un] by blast
  have "focus root h1 (FL c e (paint BLACK u) # fs) (plug1 f t)" using h1(2) by (simp add: focus_up)
  from focus_paint(1) [OF this] obtain h2 where h2: "color_set_black h1 (fadr f) = Some h2"
      "focus root h2 (FL c e (paint BLACK u) # fs) (paint BLACK (plug1 f t))" "dom h2 = dom h1"
    by (cases f) auto
  have "focus root h2 fs (Nd c (paint BLACK (plug1 f t)) e (paint BLACK u))" using h2(2) by (simp add: focus_up)
  from focus_paint(2) [OF this] obtain h3 where h3: "color_set_red h2 (adr e) = Some h3"
      "focus root h3 fs (Nd RED (paint BLACK (plug1 f t)) e (paint BLACK u))" "dom h3 = dom h2" by auto
  have "paint BLACK (plug1 f t) = plug1 (fpaint BLACK f) t" by (cases f) simp_all
  then show ?thesis using nd pn gn ur h1 h2 h3 by (simp add: rb_insert_step_def Let_def)
qed

lemma insert_step_left_outer:
  assumes f: "focus root h (FL RED x b # FL c e u # fs) t" and t: "t \<noteq> Lf" and u: "col u = BLACK"
  shows "\<exists>p h'. rb_insert_step root h (root_of t) = Some (root\<lparr>rnode := p\<rparr>, h', root_of t) \<and>
     focus (root\<lparr>rnode := p\<rparr>) h' (FL BLACK x (Nd RED b e u) # fs) t \<and> dom h' = dom h"
proof -
  obtain nd where nd: "h (root_of t) = Some nd" "rb_parent nd = adr x" using focus_sub [OF f t] by auto
  obtain pn where pn: "h (adr x) = Some pn" "rb_color pn = RED" "rb_parent pn = adr e" "adr x \<noteq> null"
      "left pn = root_of t" "right pn = root_of b"
    using focus_frame [OF f] by auto
  have f1: "focus root h (FL c e u # fs) (Nd RED t x b)" using f by (simp add: focus_up)
  obtain gn where gn: "h (adr e) = Some gn" "left gn = adr x" "right gn = root_of u" using focus_frame [OF f1] by auto
  have par: "adr x \<noteq> root_of u"
    using focus_children [of root h fs c "Nd RED t x b" e u] f by (auto simp: focus_up)
  have bt: "root_of t \<noteq> root_of b"
    using focus_children [of root h "FL c e u # fs" RED t x b] f1 t by auto
  have ur: "is_red h (root_of u) = Some False"
    using focus_is_red(1) [of root h "FR c (Nd RED t x b) e # fs" u] f u by (simp add: focus_up)
  obtain h1 where h1: "color_set_black h (adr x) = Some h1"
      "focus root h1 (FL c e u # fs) (Nd BLACK t x b)" "dom h1 = dom h"
    using focus_paint(1) [OF f1] by auto
  have "focus root h1 fs (Nd c (Nd BLACK t x b) e u)" using h1(2) by (simp add: focus_up)
  from focus_paint(2) [OF this] obtain h2 where h2: "color_set_red h1 (adr e) = Some h2"
      "focus root h2 fs (Nd RED (Nd BLACK t x b) e u)" "dom h2 = dom h1" by auto
  obtain p h3 where h3: "rb_rotate_right (root, h2) (adr e) = Some (root\<lparr>rnode := p\<rparr>, h3)"
      "focus (root\<lparr>rnode := p\<rparr>) h3 fs (Nd BLACK t x (Nd RED b e u))" "dom h3 = dom h2"
    using focus_rotate_right [OF h2(2)] by blast
  then show ?thesis using nd pn gn ur bt h1 h2 by (intro exI [of _ p] exI [of _ h3]) (simp add: rb_insert_step_def Let_def focus_up)
qed

lemma insert_step_left_inner:
  assumes f: "focus root h (FR RED a x # FL c e u # fs) (Nd k l y r)" and u: "col u = BLACK"
  shows "\<exists>p h'. rb_insert_step root h (adr y) = Some (root\<lparr>rnode := p\<rparr>, h', adr x) \<and>
     focus (root\<lparr>rnode := p\<rparr>) h' (FL BLACK y (Nd RED r e u) # fs) (Nd RED a x l) \<and> dom h' = dom h"
proof -
  obtain nd where nd: "h (adr y) = Some nd" "rb_parent nd = adr x" using focus_sub [OF f] by auto
  obtain pn where pn: "h (adr x) = Some pn" "rb_color pn = RED" "rb_parent pn = adr e" "adr x \<noteq> null"
      "left pn = root_of a" "right pn = adr y"
    using focus_frame [OF f] by auto
  have f1: "focus root h (FL c e u # fs) (Nd RED a x (Nd k l y r))" using f by (simp add: focus_up)
  obtain gn where gn: "h (adr e) = Some gn" "left gn = adr x" "right gn = root_of u" using focus_frame [OF f1] by auto
  have par: "adr x \<noteq> root_of u"
    using focus_children [of root h fs c "Nd RED a x (Nd k l y r)" e u] f by (auto simp: focus_up)
  have ur: "is_red h (root_of u) = Some False"
    using focus_is_red(1) [of root h "FR c (Nd RED a x (Nd k l y r)) e # fs" u] f u by (simp add: focus_up)
  obtain q h0 where h0: "rb_rotate_left (root, h) (adr x) = Some (root\<lparr>rnode := q\<rparr>, h0)"
      "focus (root\<lparr>rnode := q\<rparr>) h0 (FL c e u # fs) (Nd k (Nd RED a x l) y r)" "dom h0 = dom h"
    using focus_rotate_left [OF f1] by blast
  obtain h1 where h1: "color_set_black h0 (adr y) = Some h1"
      "focus (root\<lparr>rnode := q\<rparr>) h1 (FL c e u # fs) (Nd BLACK (Nd RED a x l) y r)" "dom h1 = dom h0"
    using focus_paint(1) [OF h0(2)] by auto
  have "focus (root\<lparr>rnode := q\<rparr>) h1 fs (Nd c (Nd BLACK (Nd RED a x l) y r) e u)"
    using h1(2) by (simp add: focus_up)
  from focus_paint(2) [OF this] obtain h2 where h2: "color_set_red h1 (adr e) = Some h2"
      "focus (root\<lparr>rnode := q\<rparr>) h2 fs (Nd RED (Nd BLACK (Nd RED a x l) y r) e u)" "dom h2 = dom h1" by auto
  obtain p h3 where h3: "rb_rotate_right (root\<lparr>rnode := q\<rparr>, h2) (adr e) = Some (root\<lparr>rnode := p\<rparr>, h3)"
      "focus (root\<lparr>rnode := p\<rparr>) h3 fs (Nd BLACK (Nd RED a x l) y (Nd RED r e u))" "dom h3 = dom h2"
    using focus_rotate_right [OF h2(2)] by auto
  then show ?thesis using nd pn gn ur h0 h1 h2 by (intro exI [of _ p] exI [of _ h3]) (simp add: rb_insert_step_def Let_def focus_up)
qed

lemma insert_step_right_red:
  assumes f: "focus root h (f # FR c u e # fs) t" and fc: "fcol f = RED" and t: "t \<noteq> Lf" and u: "col u = RED"
  shows "\<exists>h'. rb_insert_step root h (root_of t) = Some (root, h', adr e) \<and>
     focus root h' fs (Nd RED (paint BLACK u) e (plug1 (fpaint BLACK f) t)) \<and> dom h' = dom h"
proof -
  obtain nd where nd: "h (root_of t) = Some nd" "rb_parent nd = fadr f" using focus_sub [OF f t] by auto
  obtain pn where pn: "h (fadr f) = Some pn" "rb_color pn = RED" "rb_parent pn = adr e" "fadr f \<noteq> null"
    using focus_frame [OF f] fc by auto
  obtain gn where gn: "h (adr e) = Some gn" "right gn = fadr f" "left gn = root_of u"
    using focus_frame [OF f [unfolded focus_up [of _ _ f]]] by auto
  have par: "fadr f \<noteq> root_of u"
    using focus_children [of root h fs c u e "plug1 f t"] f by (cases f) (auto simp: focus_up)
  have U: "focus root h (FL c e (plug1 f t) # fs) u" using f by (simp add: focus_up)
  have un: "u \<noteq> Lf" using u by auto
  have ur: "is_red h (root_of u) = Some True" using focus_is_red(1) [OF U] u by simp
  obtain h1 where h1: "color_set_black h (root_of u) = Some h1"
      "focus root h1 (FL c e (plug1 f t) # fs) (paint BLACK u)" "dom h1 = dom h"
    using focus_paint(1) [OF U un] by blast
  have "focus root h1 (FR c (paint BLACK u) e # fs) (plug1 f t)" using h1(2) by (simp add: focus_up)
  from focus_paint(1) [OF this] obtain h2 where h2: "color_set_black h1 (fadr f) = Some h2"
      "focus root h2 (FR c (paint BLACK u) e # fs) (paint BLACK (plug1 f t))" "dom h2 = dom h1"
    by (cases f) auto
  have "focus root h2 fs (Nd c (paint BLACK u) e (paint BLACK (plug1 f t)))" using h2(2) by (simp add: focus_up)
  from focus_paint(2) [OF this] obtain h3 where h3: "color_set_red h2 (adr e) = Some h3"
      "focus root h3 fs (Nd RED (paint BLACK u) e (paint BLACK (plug1 f t)))" "dom h3 = dom h2" by auto
  have "paint BLACK (plug1 f t) = plug1 (fpaint BLACK f) t" by (cases f) simp_all
  then show ?thesis using nd pn gn par ur h1 h2 h3 by (simp add: rb_insert_step_def Let_def)
qed

lemma insert_step_right_outer:
  assumes f: "focus root h (FR RED b x # FR c u e # fs) t" and t: "t \<noteq> Lf" and u: "col u = BLACK"
  shows "\<exists>p h'. rb_insert_step root h (root_of t) = Some (root\<lparr>rnode := p\<rparr>, h', root_of t) \<and>
     focus (root\<lparr>rnode := p\<rparr>) h' (FR BLACK (Nd RED u e b) x # fs) t \<and> dom h' = dom h"
proof -
  obtain nd where nd: "h (root_of t) = Some nd" "rb_parent nd = adr x" using focus_sub [OF f t] by auto
  obtain pn where pn: "h (adr x) = Some pn" "rb_color pn = RED" "rb_parent pn = adr e" "adr x \<noteq> null"
      "right pn = root_of t" "left pn = root_of b"
    using focus_frame [OF f] by auto
  have f1: "focus root h (FR c u e # fs) (Nd RED b x t)" using f by (simp add: focus_up)
  obtain gn where gn: "h (adr e) = Some gn" "right gn = adr x" "left gn = root_of u" using focus_frame [OF f1] by auto
  have par: "adr x \<noteq> root_of u"
    using focus_children [of root h fs c u e "Nd RED b x t"] f by (auto simp: focus_up)
  have bt: "root_of t \<noteq> root_of b"
    using focus_children [of root h "FR c u e # fs" RED b x t] f1 t by auto
  have ur: "is_red h (root_of u) = Some False"
    using focus_is_red(1) [of root h "FL c e (Nd RED b x t) # fs" u] f u by (simp add: focus_up)
  obtain h1 where h1: "color_set_black h (adr x) = Some h1"
      "focus root h1 (FR c u e # fs) (Nd BLACK b x t)" "dom h1 = dom h"
    using focus_paint(1) [OF f1] by auto
  have "focus root h1 fs (Nd c u e (Nd BLACK b x t))" using h1(2) by (simp add: focus_up)
  from focus_paint(2) [OF this] obtain h2 where h2: "color_set_red h1 (adr e) = Some h2"
      "focus root h2 fs (Nd RED u e (Nd BLACK b x t))" "dom h2 = dom h1" by auto
  obtain p h3 where h3: "rb_rotate_left (root, h2) (adr e) = Some (root\<lparr>rnode := p\<rparr>, h3)"
      "focus (root\<lparr>rnode := p\<rparr>) h3 fs (Nd BLACK (Nd RED u e b) x t)" "dom h3 = dom h2"
    using focus_rotate_left [OF h2(2)] by blast
  then show ?thesis using nd pn gn par ur bt h1 h2 by (intro exI [of _ p] exI [of _ h3]) (simp add: rb_insert_step_def Let_def focus_up)
qed

lemma insert_step_right_inner:
  assumes f: "focus root h (FL RED x a # FR c u e # fs) (Nd k r y l)" and u: "col u = BLACK"
  shows "\<exists>p h'. rb_insert_step root h (adr y) = Some (root\<lparr>rnode := p\<rparr>, h', adr x) \<and>
     focus (root\<lparr>rnode := p\<rparr>) h' (FR BLACK (Nd RED u e r) y # fs) (Nd RED l x a) \<and> dom h' = dom h"
proof -
  obtain nd where nd: "h (adr y) = Some nd" "rb_parent nd = adr x" using focus_sub [OF f] by auto
  obtain pn where pn: "h (adr x) = Some pn" "rb_color pn = RED" "rb_parent pn = adr e" "adr x \<noteq> null"
      "right pn = root_of a" "left pn = adr y"
    using focus_frame [OF f] by auto
  have f1: "focus root h (FR c u e # fs) (Nd RED (Nd k r y l) x a)" using f by (simp add: focus_up)
  obtain gn where gn: "h (adr e) = Some gn" "right gn = adr x" "left gn = root_of u" using focus_frame [OF f1] by auto
  have par: "adr x \<noteq> root_of u"
    using focus_children [of root h fs c u e "Nd RED (Nd k r y l) x a"] f by (auto simp: focus_up)
  have ur: "is_red h (root_of u) = Some False"
    using focus_is_red(1) [of root h "FL c e (Nd RED (Nd k r y l) x a) # fs" u] f u by (simp add: focus_up)
  obtain q h0 where h0: "rb_rotate_right (root, h) (adr x) = Some (root\<lparr>rnode := q\<rparr>, h0)"
      "focus (root\<lparr>rnode := q\<rparr>) h0 (FR c u e # fs) (Nd k r y (Nd RED l x a))" "dom h0 = dom h"
    using focus_rotate_right [OF f1] by blast
  obtain h1 where h1: "color_set_black h0 (adr y) = Some h1"
      "focus (root\<lparr>rnode := q\<rparr>) h1 (FR c u e # fs) (Nd BLACK r y (Nd RED l x a))" "dom h1 = dom h0"
    using focus_paint(1) [OF h0(2)] by auto
  have "focus (root\<lparr>rnode := q\<rparr>) h1 fs (Nd c u e (Nd BLACK r y (Nd RED l x a)))"
    using h1(2) by (simp add: focus_up)
  from focus_paint(2) [OF this] obtain h2 where h2: "color_set_red h1 (adr e) = Some h2"
      "focus (root\<lparr>rnode := q\<rparr>) h2 fs (Nd RED u e (Nd BLACK r y (Nd RED l x a)))" "dom h2 = dom h1" by auto
  obtain p h3 where h3: "rb_rotate_left (root\<lparr>rnode := q\<rparr>, h2) (adr e) = Some (root\<lparr>rnode := p\<rparr>, h3)"
      "focus (root\<lparr>rnode := p\<rparr>) h3 fs (Nd BLACK (Nd RED u e r) y (Nd RED l x a))" "dom h3 = dom h2"
    using focus_rotate_left [OF h2(2)] by auto
  then show ?thesis using nd pn gn par ur h0 h1 h2 by (intro exI [of _ p] exI [of _ h3]) (simp add: rb_insert_step_def Let_def focus_up)
qed

text \<open>The loop ends, and painting the root black gives \<open>ins_fix\<close>.\<close>

definition loop_to :: "rb_root_t \<Rightarrow> rb_heap \<Rightarrow> u4 \<Rightarrow> entry rtree \<Rightarrow> bool" where
  "loop_to root h node t \<longleftrightarrow> (\<exists>p h' t'. rb_insert_loop root h node = Some (root\<lparr>rnode := p\<rparr>, h') \<and>
     focus (root\<lparr>rnode := p\<rparr>) h' [] t' \<and> paint BLACK t' = t \<and> t' \<noteq> Lf \<and> dom h' = dom h)"

lemma plug_not_Lf: "t \<noteq> Lf \<Longrightarrow> plug fs t \<noteq> Lf"
proof (induction fs arbitrary: t)
  case (Cons f fs)
  then show ?case by (cases f) auto
qed simp

lemma loop_done:
  assumes "focus root h fs t" "t \<noteq> Lf" "fs = [] \<or> top_black fs"
  shows "loop_to root h (root_of t) (paint BLACK (plug fs t))"
proof -
  have "rb_insert_loop root h (root_of t) = Some (root, h)"
    using insert_step_done [OF assms] by (simp add: rb_insert_loop.simps [of root h])
  moreover have "root = root\<lparr>rnode := rnode root\<rparr>" by simp
  moreover have "focus root h [] (plug fs t)" using assms(1) by (simp add: focus_top [of _ _ fs])
  ultimately show ?thesis using plug_not_Lf [OF assms(2)] unfolding loop_to_def
    by (intro exI [of _ "rnode root"] exI [of _ h] exI [of _ "plug fs t"]) simp
qed

lemma loop_step:
  assumes "rb_insert_step root h node = Some (root\<lparr>rnode := p\<rparr>, h1, node1)" "node1 \<noteq> null" "dom h1 = dom h"
    "loop_to (root\<lparr>rnode := p\<rparr>) h1 node1 t"
  shows "loop_to root h node t"
  using assms by (auto simp: loop_to_def rb_insert_loop.simps [of root h])

lemma loop_rotated:
  assumes "rb_insert_step root h node = Some (root\<lparr>rnode := p\<rparr>, h1, root_of t)" "dom h1 = dom h"
    "focus (root\<lparr>rnode := p\<rparr>) h1 fs t" "t \<noteq> Lf" "top_black fs"
  shows "loop_to root h node (paint BLACK (plug fs t))"
proof (rule loop_step [OF assms(1) _ assms(2)])
  show "root_of t \<noteq> null" using focus_root_null [OF assms(3)] assms(4) by simp
  show "loop_to (root\<lparr>rnode := p\<rparr>) h1 (root_of t) (paint BLACK (plug fs t))"
    using loop_done [OF assms(3,4)] assms(5) by simp
qed

lemma loop_red:
  assumes "rb_insert_step root h node = Some (root, h1, adr e)" "dom h1 = dom h"
    "focus root h1 fs (Nd c l e r)" "loop_to root h1 (adr e) t"
  shows "loop_to root h node t"
  by (rule loop_step [of _ _ _ "rnode root" h1 "adr e"]) (use assms focus_node [OF assms(3)] in auto)

lemma insert_loop_ok:
  "focus root h fs t \<Longrightarrow> rbwf t n \<Longrightarrow> col t = RED \<Longrightarrow> cwf fs n \<Longrightarrow> loop_to root h (root_of t) (ins_fix fs t)"
proof (induction fs t arbitrary: root h n rule: ins_fix.induct)
  case (1 t)
  then show ?case using loop_done [of root h "[]" t] by (cases t) auto
next
  case (2 f t)
  then have "fcol f = BLACK" by (cases f) (auto elim: cwf.elims)
  then show ?case using loop_done [OF "2.prems"(1)] 2 by (cases t) auto
next
  case (3 f c e u fs t)
  have t: "t \<noteq> Lf" using 3 by auto
  show ?case
  proof (cases "fcol f = BLACK")
    case True
    then show ?thesis using loop_done [OF "3.prems"(1) t] by simp
  next
    case f: False
    then have c: "c = BLACK" and fc: "fcol f = RED" using 3 by (cases f; auto)+
    show ?thesis
    proof (cases "col u = RED")
      case True
      have w: "rbwf (Nd RED (plug1 (fpaint BLACK f) t) e (paint BLACK u)) (Suc n)" "cwf fs (Suc n)"
        using 3 f c True wf_paint [of u n] by (cases f; cases u; auto)+
      obtain h1 where h1: "rb_insert_step root h (root_of t) = Some (root, h1, adr e)" "dom h1 = dom h"
        "focus root h1 fs (Nd RED (plug1 (fpaint BLACK f) t) e (paint BLACK u))"
        using insert_step_left_red [OF "3.prems"(1) fc t True] by blast
      show ?thesis using loop_red [OF h1] "3.IH" [OF f True h1(3) w(1) _ w(2)] f True by simp
    next
      case u: False
      then have ub: "col u = BLACK" by simp
      show ?thesis
      proof (cases f)
        case (FL d x b)
        obtain p h1 where h1: "rb_insert_step root h (root_of t) = Some (root\<lparr>rnode := p\<rparr>, h1, root_of t)" "dom h1 = dom h"
          "focus (root\<lparr>rnode := p\<rparr>) h1 (FL BLACK x (Nd RED b e u) # fs) t"
          using insert_step_left_outer [of root h x b c e u fs t] "3.prems"(1) t ub FL fc by auto
        show ?thesis using loop_rotated [OF h1 t] FL f u by simp
      next
        case (FR d a x)
        obtain k l y r where T: "t = Nd k l y r" using t by (cases t) auto
        obtain p h1 where h1: "rb_insert_step root h (root_of t) = Some (root\<lparr>rnode := p\<rparr>, h1, root_of (Nd RED a x l))"
          "dom h1 = dom h" "focus (root\<lparr>rnode := p\<rparr>) h1 (FL BLACK y (Nd RED r e u) # fs) (Nd RED a x l)"
          using insert_step_left_inner [of root h a x c e u fs k l y r] "3.prems"(1) ub FR fc T by auto
        show ?thesis using loop_rotated [OF h1] FR f u T fc by simp
      qed
    qed
  qed
next
  case (4 f c u e fs t)
  have t: "t \<noteq> Lf" using 4 by auto
  show ?case
  proof (cases "fcol f = BLACK")
    case True
    then show ?thesis using loop_done [OF "4.prems"(1) t] by simp
  next
    case f: False
    then have c: "c = BLACK" and fc: "fcol f = RED" using 4 by (cases f; auto)+
    show ?thesis
    proof (cases "col u = RED")
      case True
      have w: "rbwf (Nd RED (paint BLACK u) e (plug1 (fpaint BLACK f) t)) (Suc n)" "cwf fs (Suc n)"
        using 4 f c True wf_paint [of u n] by (cases f; cases u; auto)+
      obtain h1 where h1: "rb_insert_step root h (root_of t) = Some (root, h1, adr e)" "dom h1 = dom h"
        "focus root h1 fs (Nd RED (paint BLACK u) e (plug1 (fpaint BLACK f) t))"
        using insert_step_right_red [OF "4.prems"(1) fc t True] by blast
      show ?thesis using loop_red [OF h1] "4.IH" [OF f True h1(3) w(1) _ w(2)] f True by simp
    next
      case u: False
      then have ub: "col u = BLACK" by simp
      show ?thesis
      proof (cases f)
        case (FR d b x)
        obtain p h1 where h1: "rb_insert_step root h (root_of t) = Some (root\<lparr>rnode := p\<rparr>, h1, root_of t)" "dom h1 = dom h"
          "focus (root\<lparr>rnode := p\<rparr>) h1 (FR BLACK (Nd RED u e b) x # fs) t"
          using insert_step_right_outer [of root h b x c u e fs t] "4.prems"(1) t ub FR fc by auto
        show ?thesis using loop_rotated [OF h1 t] FR f u by simp
      next
        case (FL d x a)
        obtain k l y r where T: "t = Nd k l y r" using t by (cases t) auto
        obtain p h1 where h1: "rb_insert_step root h (root_of t) = Some (root\<lparr>rnode := p\<rparr>, h1, root_of (Nd RED r x a))"
          "dom h1 = dom h" "focus (root\<lparr>rnode := p\<rparr>) h1 (FR BLACK (Nd RED u e l) y # fs) (Nd RED r x a)"
          using insert_step_right_inner [of root h x a c u e fs k l y r] "4.prems"(1) ub FL fc T by auto
        show ?thesis using loop_rotated [OF h1] FL f u T fc by simp
      qed
    qed
  qed
qed

lemma insert_rebalance_ok:
  assumes "focus root h fs t" "rbwf t n" "col t = RED" "cwf fs n"
  shows "\<exists>p h'. rb_insert_rebalance root h (root_of t) = Some (root\<lparr>rnode := p\<rparr>, h') \<and>
     focus (root\<lparr>rnode := p\<rparr>) h' [] (ins_fix fs t) \<and> dom h' = dom h"
proof -
  obtain p h1 t1 where r: "rb_insert_loop root h (root_of t) = Some (root\<lparr>rnode := p\<rparr>, h1)"
     "focus (root\<lparr>rnode := p\<rparr>) h1 [] t1" "paint BLACK t1 = ins_fix fs t" "t1 \<noteq> Lf" "dom h1 = dom h"
    using insert_loop_ok [OF assms] unfolding loop_to_def by blast
  obtain h2 where h2: "color_set_black h1 (root_of t1) = Some h2" "focus (root\<lparr>rnode := p\<rparr>) h2 [] (paint BLACK t1)"
     "dom h2 = dom h1" using focus_paint(1) [OF r(2,4)] by blast
  have "p = root_of t1" using r(2) by (simp add: focus_def)
  then have "rb_insert_rebalance root h (root_of t) = Some (root\<lparr>rnode := p\<rparr>, h2)"
    using r(1) h2(1) by (simp add: rb_insert_rebalance_def)
  then show ?thesis using h2 r(3,5) by auto
qed

end
