(* ===== verification/Lisk_Map_Erase.thy ===== *)
theory Lisk_Map_Erase
  imports Lisk_Map_Insert
begin

text \<open>
  Removal from the red-black tree of \<open>win_lisk/src/lisk_map.c\<close>: the steps of \<open>rb_erase_rebalance\<close> are those of
  \<open>del_fix\<close> on the tree in the store, and the two ways of taking a node out of the links leave a
  position where at most one black node is missing.
\<close>

section \<open>One turn of the loop\<close>

lemma focus_black_nn:
  assumes f: "focus root h fs t"
  shows "\<exists>h'. set_black_nn h (root_of t) = Some h' \<and> focus root h' fs (paint BLACK t) \<and> dom h' = dom h"
proof (cases "t = Lf")
  case True
  then show ?thesis using f by (simp add: set_black_nn_def)
next
  case False
  then show ?thesis using focus_paint(1) [OF f False] focus_root_null [OF f] by (auto simp: set_black_nn_def)
qed

text \<open>
  The turn in parts: after a red sibling was turned away, and the end with a red far nephew.
\<close>

definition erase_left_tail :: "rb_root_t \<Rightarrow> rb_heap \<Rightarrow> u4 \<Rightarrow> u4 \<Rightarrow> (rb_root_t \<times> rb_heap \<times> u4 \<times> u4 \<times> bool) option" where
  "erase_left_tail root h par sibling = do {
     pn \<leftarrow> h par;
     h \<leftarrow> rb_set_color h sibling (rb_color pn);
     h \<leftarrow> color_set_black h par;
     sn \<leftarrow> h sibling;
     h \<leftarrow> set_black_nn h (right sn);
     (root, h) \<leftarrow> rb_rotate_left (root, h) par;
     Some (root, h, par, rnode root, True) }"

definition erase_left_rest :: "rb_root_t \<Rightarrow> rb_heap \<Rightarrow> u4 \<Rightarrow> u4 \<Rightarrow> (rb_root_t \<times> rb_heap \<times> u4 \<times> u4 \<times> bool) option" where
  "erase_left_rest root h par sibling = do {
     sn \<leftarrow> h sibling;
     lb \<leftarrow> is_black h (left sn);
     rb \<leftarrow> is_black h (right sn);
     if lb \<and> rb then do {
       h \<leftarrow> color_set_red h sibling;
       pn \<leftarrow> h par;
       Some (root, h, rb_parent pn, par, False) }
     else do {
       (root, h, sibling) \<leftarrow>
         (if rb then do {
            h \<leftarrow> set_black_nn h (left sn);
            h \<leftarrow> color_set_red h sibling;
            (root, h) \<leftarrow> rb_rotate_right (root, h) sibling;
            pn \<leftarrow> h par;
            Some (root, h, right pn) }
          else Some (root, h, sibling));
       erase_left_tail root h par sibling } }"

lemma erase_step_left:
  assumes "h par = Some pn" "node = left pn" "h (right pn) = Some sn"
  shows "rb_erase_step root h par node =
     (if rb_color sn = RED then do {
        h \<leftarrow> color_set_black h (right pn);
        h \<leftarrow> color_set_red h par;
        (root, h) \<leftarrow> rb_rotate_left (root, h) par;
        pn \<leftarrow> h par;
        erase_left_rest root h par (right pn) }
      else erase_left_rest root h par (right pn))"
  using assms by (simp add: rb_erase_step_def Let_def erase_left_rest_def erase_left_tail_def split_def cong: if_cong)

lemma erase_left_tail_ok:
  assumes f: "focus root h fs (Nd c t e (Nd k a y r))"
  shows "\<exists>p h'. erase_left_tail root h (adr e) (adr y) = Some (root\<lparr>rnode := p\<rparr>, h', adr e, p, True) \<and>
     focus (root\<lparr>rnode := p\<rparr>) h' fs (Nd c (Nd BLACK t e a) y (paint BLACK r)) \<and> dom h' = dom h"
proof -
  obtain pn where pn: "h (adr e) = Some pn" "rb_color pn = c" using focus_node [OF f] by (auto simp: holds_def)
  have "focus root h (FR c t e # fs) (Nd k a y r)" using f by (simp add: focus_up)
  from focus_paint(3) [OF this, of c] obtain h1 where h1: "rb_set_color h (adr y) c = Some h1" "dom h1 = dom h"
      "focus root h1 fs (Nd c t e (Nd c a y r))" by (auto simp: focus_up)
  from focus_paint(1) [OF h1(3)] obtain h2 where h2: "color_set_black h1 (adr e) = Some h2" "dom h2 = dom h1"
      "focus root h2 (FR BLACK t e # fs) (Nd c a y r)" by (auto simp: focus_up)
  obtain sn where sn: "h2 (adr y) = Some sn" "right sn = root_of r" using focus_node [OF h2(3)] by (auto simp: holds_def)
  have "focus root h2 (FR c a y # FR BLACK t e # fs) r" using h2(3) by (simp add: focus_up)
  from focus_black_nn [OF this] obtain h3 where h3: "set_black_nn h2 (root_of r) = Some h3" "dom h3 = dom h2"
      "focus root h3 fs (Nd BLACK t e (Nd c a y (paint BLACK r)))" by (auto simp: focus_up)
  obtain p h4 where h4: "rb_rotate_left (root, h3) (adr e) = Some (root\<lparr>rnode := p\<rparr>, h4)" "dom h4 = dom h3"
      "focus (root\<lparr>rnode := p\<rparr>) h4 fs (Nd c (Nd BLACK t e a) y (paint BLACK r))"
    using focus_rotate_left [OF h3(3)] by blast
  then show ?thesis using pn h1 h2 sn h3
    by (intro exI [of _ p] exI [of _ h4]) (simp add: erase_left_tail_def)
qed

lemma erase_left_rest_black:
  assumes f: "focus root h fs (Nd c t e (Nd k sn x sf))" and b: "col sn = BLACK" "col sf = BLACK"
  shows "\<exists>h'. erase_left_rest root h (adr e) (adr x) = Some (root, h', top_of fs, adr e, False) \<and>
     focus root h' fs (Nd c t e (Nd RED sn x sf)) \<and> dom h' = dom h"
proof -
  have f1: "focus root h (FR c t e # fs) (Nd k sn x sf)" using f by (simp add: focus_up)
  obtain s where s: "h (adr x) = Some s" "left s = root_of sn" "right s = root_of sf" using focus_node [OF f1] by (auto simp: holds_def)
  have bl: "is_black h (root_of sn) = Some True" "is_black h (root_of sf) = Some True"
    using focus_is_red(2) [of root h "FL k x sf # FR c t e # fs" sn]
      focus_is_red(2) [of root h "FR k sn x # FR c t e # fs" sf] f1 b by (simp_all add: focus_up)
  obtain h1 where h1: "color_set_red h (adr x) = Some h1" "dom h1 = dom h"
      "focus root h1 fs (Nd c t e (Nd RED sn x sf))"
    using focus_paint(2) [OF f1] by (auto simp: focus_up)
  obtain pn where "h1 (adr e) = Some pn" "rb_parent pn = top_of fs" using focus_node [OF h1(3)] by (auto simp: holds_def)
  then show ?thesis using s bl h1 by (simp add: erase_left_rest_def)
qed

lemma erase_left_rest_outer:
  assumes f: "focus root h fs (Nd c t e (Nd k sn x sf))" and b: "col sf = RED"
  shows "\<exists>p h'. erase_left_rest root h (adr e) (adr x) = Some (root\<lparr>rnode := p\<rparr>, h', adr e, p, True) \<and>
     focus (root\<lparr>rnode := p\<rparr>) h' fs (Nd c (Nd BLACK t e sn) x (paint BLACK sf)) \<and> dom h' = dom h"
proof -
  have f1: "focus root h (FR c t e # fs) (Nd k sn x sf)" using f by (simp add: focus_up)
  obtain s where s: "h (adr x) = Some s" "left s = root_of sn" "right s = root_of sf" using focus_node [OF f1] by (auto simp: holds_def)
  have bl: "is_black h (root_of sn) = Some (col sn = BLACK)" "is_black h (root_of sf) = Some False"
    using focus_is_red(2) [of root h "FL k x sf # FR c t e # fs" sn]
      focus_is_red(2) [of root h "FR k sn x # FR c t e # fs" sf] f1 b by (simp_all add: focus_up)
  have "erase_left_rest root h (adr e) (adr x) = erase_left_tail root h (adr e) (adr x)"
    using s bl by (simp add: erase_left_rest_def)
  then show ?thesis using erase_left_tail_ok [OF f] by simp
qed

lemma erase_left_rest_inner:
  assumes f: "focus root h fs (Nd c t e (Nd k (Nd RED a y b) x sf))" and b: "col sf = BLACK"
  shows "\<exists>p h'. erase_left_rest root h (adr e) (adr x) = Some (root\<lparr>rnode := p\<rparr>, h', adr e, p, True) \<and>
     focus (root\<lparr>rnode := p\<rparr>) h' fs (Nd c (Nd BLACK t e a) y (Nd BLACK b x sf)) \<and> dom h' = dom h"
proof -
  have f1: "focus root h (FR c t e # fs) (Nd k (Nd RED a y b) x sf)" using f by (simp add: focus_up)
  have fn: "focus root h (FL k x sf # FR c t e # fs) (Nd RED a y b)" using f by (simp add: focus_up)
  have ff: "focus root h (FR k (Nd RED a y b) x # FR c t e # fs) sf" using f by (simp add: focus_up)
  obtain s where s: "h (adr x) = Some s" "left s = adr y" "right s = root_of sf" using focus_node [OF f1] by (auto simp: holds_def)
  have bl: "is_black h (adr y) = Some False" "is_black h (root_of sf) = Some True"
    using focus_is_red(2) [OF fn] focus_is_red(2) [OF ff] b by simp_all
  from focus_black_nn [OF fn] obtain h1 where h1: "set_black_nn h (adr y) = Some h1" "dom h1 = dom h"
      "focus root h1 (FR c t e # fs) (Nd k (Nd BLACK a y b) x sf)" by (auto simp: focus_up)
  from focus_paint(2) [OF h1(3)] obtain h2 where h2: "color_set_red h1 (adr x) = Some h2" "dom h2 = dom h1"
      "focus root h2 (FR c t e # fs) (Nd RED (Nd BLACK a y b) x sf)" by auto
  from focus_rotate_right [OF h2(3)] obtain q h3 where h3: "rb_rotate_right (root, h2) (adr x) = Some (root\<lparr>rnode := q\<rparr>, h3)"
      "dom h3 = dom h2" "focus (root\<lparr>rnode := q\<rparr>) h3 fs (Nd c t e (Nd BLACK a y (Nd RED b x sf)))"
    by (auto simp: focus_up)
  obtain pn where pn: "h3 (adr e) = Some pn" "right pn = adr y" using focus_node [OF h3(3)] by (auto simp: holds_def)
  from erase_left_tail_ok [OF h3(3)] obtain p h4 where
    "erase_left_tail (root\<lparr>rnode := q\<rparr>) h3 (adr e) (adr y) = Some (root\<lparr>rnode := p\<rparr>, h4, adr e, p, True)" "dom h4 = dom h3"
    "focus (root\<lparr>rnode := p\<rparr>) h4 fs (Nd c (Nd BLACK t e a) y (Nd BLACK b x sf))" by auto
  then show ?thesis using s bl h1 h2 h3 pn
    by (intro exI [of _ p] exI [of _ h4]) (simp add: erase_left_rest_def)
qed

definition erase_right_tail :: "rb_root_t \<Rightarrow> rb_heap \<Rightarrow> u4 \<Rightarrow> u4 \<Rightarrow> (rb_root_t \<times> rb_heap \<times> u4 \<times> u4 \<times> bool) option" where
  "erase_right_tail root h par sibling = do {
     pn \<leftarrow> h par;
     h \<leftarrow> rb_set_color h sibling (rb_color pn);
     h \<leftarrow> color_set_black h par;
     sn \<leftarrow> h sibling;
     h \<leftarrow> set_black_nn h (left sn);
     (root, h) \<leftarrow> rb_rotate_right (root, h) par;
     Some (root, h, par, rnode root, True) }"

definition erase_right_rest :: "rb_root_t \<Rightarrow> rb_heap \<Rightarrow> u4 \<Rightarrow> u4 \<Rightarrow> (rb_root_t \<times> rb_heap \<times> u4 \<times> u4 \<times> bool) option" where
  "erase_right_rest root h par sibling = do {
     sn \<leftarrow> h sibling;
     lb \<leftarrow> is_black h (left sn);
     rb \<leftarrow> is_black h (right sn);
     if lb \<and> rb then do {
       h \<leftarrow> color_set_red h sibling;
       pn \<leftarrow> h par;
       Some (root, h, rb_parent pn, par, False) }
     else do {
       (root, h, sibling) \<leftarrow>
         (if lb then do {
            h \<leftarrow> set_black_nn h (right sn);
            h \<leftarrow> color_set_red h sibling;
            (root, h) \<leftarrow> rb_rotate_left (root, h) sibling;
            pn \<leftarrow> h par;
            Some (root, h, left pn) }
          else Some (root, h, sibling));
       erase_right_tail root h par sibling } }"

lemma erase_step_right:
  assumes "h par = Some pn" "node \<noteq> left pn" "h (left pn) = Some sn"
  shows "rb_erase_step root h par node =
     (if rb_color sn = RED then do {
        h \<leftarrow> color_set_black h (left pn);
        h \<leftarrow> color_set_red h par;
        (root, h) \<leftarrow> rb_rotate_right (root, h) par;
        pn \<leftarrow> h par;
        erase_right_rest root h par (left pn) }
      else erase_right_rest root h par (left pn))"
  using assms by (simp add: rb_erase_step_def Let_def erase_right_rest_def erase_right_tail_def split_def cong: if_cong)

lemma erase_right_tail_ok:
  assumes f: "focus root h fs (Nd c (Nd k r y a) e t)"
  shows "\<exists>p h'. erase_right_tail root h (adr e) (adr y) = Some (root\<lparr>rnode := p\<rparr>, h', adr e, p, True) \<and>
     focus (root\<lparr>rnode := p\<rparr>) h' fs (Nd c (paint BLACK r) y (Nd BLACK a e t)) \<and> dom h' = dom h"
proof -
  obtain pn where pn: "h (adr e) = Some pn" "rb_color pn = c" using focus_node [OF f] by (auto simp: holds_def)
  have "focus root h (FL c e t # fs) (Nd k r y a)" using f by (simp add: focus_up)
  from focus_paint(3) [OF this, of c] obtain h1 where h1: "rb_set_color h (adr y) c = Some h1" "dom h1 = dom h"
      "focus root h1 fs (Nd c (Nd c r y a) e t)" by (auto simp: focus_up)
  from focus_paint(1) [OF h1(3)] obtain h2 where h2: "color_set_black h1 (adr e) = Some h2" "dom h2 = dom h1"
      "focus root h2 (FL BLACK e t # fs) (Nd c r y a)" by (auto simp: focus_up)
  obtain sn where sn: "h2 (adr y) = Some sn" "left sn = root_of r" using focus_node [OF h2(3)] by (auto simp: holds_def)
  have "focus root h2 (FL c y a # FL BLACK e t # fs) r" using h2(3) by (simp add: focus_up)
  from focus_black_nn [OF this] obtain h3 where h3: "set_black_nn h2 (root_of r) = Some h3" "dom h3 = dom h2"
      "focus root h3 fs (Nd BLACK (Nd c (paint BLACK r) y a) e t)" by (auto simp: focus_up)
  obtain p h4 where h4: "rb_rotate_right (root, h3) (adr e) = Some (root\<lparr>rnode := p\<rparr>, h4)" "dom h4 = dom h3"
      "focus (root\<lparr>rnode := p\<rparr>) h4 fs (Nd c (paint BLACK r) y (Nd BLACK a e t))"
    using focus_rotate_right [OF h3(3)] by blast
  then show ?thesis using pn h1 h2 sn h3
    by (intro exI [of _ p] exI [of _ h4]) (simp add: erase_right_tail_def)
qed

lemma erase_right_rest_black:
  assumes f: "focus root h fs (Nd c (Nd k sf x sn) e t)" and b: "col sn = BLACK" "col sf = BLACK"
  shows "\<exists>h'. erase_right_rest root h (adr e) (adr x) = Some (root, h', top_of fs, adr e, False) \<and>
     focus root h' fs (Nd c (Nd RED sf x sn) e t) \<and> dom h' = dom h"
proof -
  have f1: "focus root h (FL c e t # fs) (Nd k sf x sn)" using f by (simp add: focus_up)
  obtain s where s: "h (adr x) = Some s" "right s = root_of sn" "left s = root_of sf" using focus_node [OF f1] by (auto simp: holds_def)
  have bl: "is_black h (root_of sn) = Some True" "is_black h (root_of sf) = Some True"
    using focus_is_red(2) [of root h "FR k sf x # FL c e t # fs" sn]
      focus_is_red(2) [of root h "FL k x sn # FL c e t # fs" sf] f1 b by (simp_all add: focus_up)
  obtain h1 where h1: "color_set_red h (adr x) = Some h1" "dom h1 = dom h"
      "focus root h1 fs (Nd c (Nd RED sf x sn) e t)"
    using focus_paint(2) [OF f1] by (auto simp: focus_up)
  obtain pn where "h1 (adr e) = Some pn" "rb_parent pn = top_of fs" using focus_node [OF h1(3)] by (auto simp: holds_def)
  then show ?thesis using s bl h1 by (simp add: erase_right_rest_def)
qed

lemma erase_right_rest_outer:
  assumes f: "focus root h fs (Nd c (Nd k sf x sn) e t)" and b: "col sf = RED"
  shows "\<exists>p h'. erase_right_rest root h (adr e) (adr x) = Some (root\<lparr>rnode := p\<rparr>, h', adr e, p, True) \<and>
     focus (root\<lparr>rnode := p\<rparr>) h' fs (Nd c (paint BLACK sf) x (Nd BLACK sn e t)) \<and> dom h' = dom h"
proof -
  have f1: "focus root h (FL c e t # fs) (Nd k sf x sn)" using f by (simp add: focus_up)
  obtain s where s: "h (adr x) = Some s" "right s = root_of sn" "left s = root_of sf" using focus_node [OF f1] by (auto simp: holds_def)
  have bl: "is_black h (root_of sn) = Some (col sn = BLACK)" "is_black h (root_of sf) = Some False"
    using focus_is_red(2) [of root h "FR k sf x # FL c e t # fs" sn]
      focus_is_red(2) [of root h "FL k x sn # FL c e t # fs" sf] f1 b by (simp_all add: focus_up)
  have "erase_right_rest root h (adr e) (adr x) = erase_right_tail root h (adr e) (adr x)"
    using s bl by (simp add: erase_right_rest_def)
  then show ?thesis using erase_right_tail_ok [OF f] by simp
qed

lemma erase_right_rest_inner:
  assumes f: "focus root h fs (Nd c (Nd k sf x (Nd RED b y a)) e t)" and b: "col sf = BLACK"
  shows "\<exists>p h'. erase_right_rest root h (adr e) (adr x) = Some (root\<lparr>rnode := p\<rparr>, h', adr e, p, True) \<and>
     focus (root\<lparr>rnode := p\<rparr>) h' fs (Nd c (Nd BLACK sf x b) y (Nd BLACK a e t)) \<and> dom h' = dom h"
proof -
  have f1: "focus root h (FL c e t # fs) (Nd k sf x (Nd RED b y a))" using f by (simp add: focus_up)
  have fn: "focus root h (FR k sf x # FL c e t # fs) (Nd RED b y a)" using f by (simp add: focus_up)
  have ff: "focus root h (FL k x (Nd RED b y a) # FL c e t # fs) sf" using f by (simp add: focus_up)
  obtain s where s: "h (adr x) = Some s" "right s = adr y" "left s = root_of sf" using focus_node [OF f1] by (auto simp: holds_def)
  have bl: "is_black h (adr y) = Some False" "is_black h (root_of sf) = Some True"
    using focus_is_red(2) [OF fn] focus_is_red(2) [OF ff] b by simp_all
  from focus_black_nn [OF fn] obtain h1 where h1: "set_black_nn h (adr y) = Some h1" "dom h1 = dom h"
      "focus root h1 (FL c e t # fs) (Nd k sf x (Nd BLACK b y a))" by (auto simp: focus_up)
  from focus_paint(2) [OF h1(3)] obtain h2 where h2: "color_set_red h1 (adr x) = Some h2" "dom h2 = dom h1"
      "focus root h2 (FL c e t # fs) (Nd RED sf x (Nd BLACK b y a))" by auto
  from focus_rotate_left [OF h2(3)] obtain q h3 where h3: "rb_rotate_left (root, h2) (adr x) = Some (root\<lparr>rnode := q\<rparr>, h3)"
      "dom h3 = dom h2" "focus (root\<lparr>rnode := q\<rparr>) h3 fs (Nd c (Nd BLACK (Nd RED sf x b) y a) e t)"
    by (auto simp: focus_up)
  obtain pn where pn: "h3 (adr e) = Some pn" "left pn = adr y" using focus_node [OF h3(3)] by (auto simp: holds_def)
  from erase_right_tail_ok [OF h3(3)] obtain p h4 where
    "erase_right_tail (root\<lparr>rnode := q\<rparr>) h3 (adr e) (adr y) = Some (root\<lparr>rnode := p\<rparr>, h4, adr e, p, True)" "dom h4 = dom h3"
    "focus (root\<lparr>rnode := p\<rparr>) h4 fs (Nd c (Nd BLACK sf x b) y (Nd BLACK a e t))" by auto
  then show ?thesis using s bl h1 h2 h3 pn
    by (intro exI [of _ p] exI [of _ h4]) (simp add: erase_right_rest_def)
qed

section \<open>The loop\<close>

definition erase_to :: "rb_root_t \<Rightarrow> rb_heap \<Rightarrow> u4 \<Rightarrow> u4 \<Rightarrow> entry rtree \<Rightarrow> bool" where
  "erase_to root h par node T \<longleftrightarrow> (\<exists>p h' fs t. rb_erase_loop root h par node = Some (root\<lparr>rnode := p\<rparr>, h', root_of t) \<and>
     focus (root\<lparr>rnode := p\<rparr>) h' fs t \<and> plug fs (paint BLACK t) = T \<and> dom h' = dom h)"

lemma root_plug_in: "fs \<noteq> [] \<Longrightarrow> root_of (plug fs t) \<in> cadrs fs"
proof (induction fs arbitrary: t)
  case (Cons f fs)
  show ?case
  proof (cases "fs = []")
    case True
    then show ?thesis by (cases f) auto
  next
    case False
    then show ?thesis using Cons.IH [OF False, of "plug1 f t"] by (cases f) auto
  qed
qed simp

lemma plug_Lf: "plug fs t = Lf \<Longrightarrow> fs = []"
proof (cases fs)
  case (Cons f gs)
  then show "plug fs t = Lf \<Longrightarrow> fs = []" using plug_not_Lf [of "plug1 f t" gs] by (cases f) auto
qed simp

lemma focus_at_root: "focus root h fs t \<Longrightarrow> rnode root = root_of t \<longleftrightarrow> fs = []"
proof -
  assume f: "focus root h fs t"
  have r: "rnode root = root_of (plug fs t)" "adrs t \<inter> cadrs fs = {}" using f by (auto simp: focus_def rep_def)
  have "fs = []" if "root_of (plug fs t) = root_of t"
  proof (cases "t = Lf")
    case True
    then have "plug fs t = Lf" using that f focus_root_null [of root h "[]" "plug fs t"] by (simp add: focus_top [of _ _ fs])
    then show ?thesis by (rule plug_Lf)
  next
    case False
    then show ?thesis using root_of_in [OF False] root_plug_in [of fs t] that r(2) by auto
  qed
  then show ?thesis using r(1) by auto
qed

lemma erase_stop:
  assumes f: "focus root h fs t" and c: "fs = [] \<or> col t = RED"
  shows "erase_to root h par (root_of t) (plug fs (paint BLACK t))"
proof -
  have "rb_erase_loop root h par (root_of t) = Some (root, h, root_of t)"
    using focus_is_red(2) [OF f] focus_at_root [OF f] c by (auto simp: rb_erase_loop.simps [of root h])
  moreover have "root\<lparr>rnode := rnode root\<rparr> = root" by simp
  ultimately show ?thesis using f unfolding erase_to_def
    by (intro exI [of _ "rnode root"] exI [of _ h] exI [of _ fs] exI [of _ t]) simp
qed

lemma erase_enter:
  assumes f: "focus root h fs t" and c: "fs \<noteq> []" "col t = BLACK"
  shows "rb_erase_loop root h par (root_of t) = Option.bind (rb_erase_step root h par (root_of t))
     (\<lambda>(root', h', par', node', brk). if brk then Some (root', h', node') else rb_erase_loop root' h' par' node')"
  using focus_is_red(2) [OF f] focus_at_root [OF f] c by (simp add: rb_erase_loop.simps [of root h])

lemma erase_break:
  assumes f: "focus root h fs t" "fs \<noteq> []" "col t = BLACK"
    and s: "rb_erase_step root h par (root_of t) = Some (root\<lparr>rnode := p\<rparr>, h1, par1, p, True)"
    and g: "focus (root\<lparr>rnode := p\<rparr>) h1 gs u" "dom h1 = dom h"
  shows "erase_to root h par (root_of t) (paint BLACK (plug gs u))"
proof -
  have "p = root_of (plug gs u)" using g(1) by (simp add: focus_def)
  moreover have "focus (root\<lparr>rnode := p\<rparr>) h1 [] (plug gs u)" using g(1) by (simp add: focus_top [of _ _ gs])
  ultimately show ?thesis using erase_enter [OF f, of par] s g(2) unfolding erase_to_def
    by (intro exI [of _ p] exI [of _ h1] exI [of _ "[]"] exI [of _ "plug gs u"]) simp
qed

lemma erase_go:
  assumes f: "focus root h fs t" "fs \<noteq> []" "col t = BLACK"
    and s: "rb_erase_step root h par (root_of t) = Some (root\<lparr>rnode := p\<rparr>, h1, par1, node1, False)"
    and g: "erase_to (root\<lparr>rnode := p\<rparr>) h1 par1 node1 T" "dom h1 = dom h"
  shows "erase_to root h par (root_of t) T"
proof -
  obtain q h2 gs u where r: "rb_erase_loop (root\<lparr>rnode := p\<rparr>) h1 par1 node1 = Some (root\<lparr>rnode := p, rnode := q\<rparr>, h2, root_of u)"
     "focus (root\<lparr>rnode := p, rnode := q\<rparr>) h2 gs u" "plug gs (paint BLACK u) = T" "dom h2 = dom h1"
    using g(1) unfolding erase_to_def by blast
  then show ?thesis using erase_enter [OF f, of par] s g(2) unfolding erase_to_def
    by (intro exI [of _ q] exI [of _ h2] exI [of _ gs] exI [of _ u]) simp
qed

lemma erase_left_rest_red:
  assumes f: "focus root h fs (Nd c t e (Nd k sn x sf))" and b: "\<not> (col sn = BLACK \<and> col sf = BLACK)"
  shows "\<exists>p h'. erase_left_rest root h (adr e) (adr x) = Some (root\<lparr>rnode := p\<rparr>, h', adr e, p, True) \<and>
     focus (root\<lparr>rnode := p\<rparr>) h' fs (sib_left c t e sn x sf) \<and> dom h' = dom h"
proof (cases "col sf = RED")
  case True
  then show ?thesis using erase_left_rest_outer [OF f] by (simp add: sib_left_def)
next
  case False
  then obtain a y b where s: "sn = Nd RED a y b" using b by (cases sn) auto
  show ?thesis using erase_left_rest_inner [OF f [unfolded s]] False by (simp add: sib_left_def s)
qed

lemma erase_loop_left:
  assumes IH: "\<And>root h t n. focus root h fs t \<Longrightarrow> rbwf t n \<Longrightarrow> cwf fs (Suc n) \<Longrightarrow>
       erase_to root h (top_of fs) (root_of t) (del_fix fs t)"
    and f: "focus root h (FL c e s # fs) t" and w: "rbwf t n" "cwf (FL c e s # fs) (Suc n)"
  shows "erase_to root h (adr e) (root_of t) (del_fix (FL c e s # fs) t)"
proof (cases "col t = RED")
  case True
  then show ?thesis using erase_stop [OF f] del_fix_red [OF True] by simp
next
  case False
  then have t: "col t = BLACK" by simp
  have sw: "rbwf s (Suc n)" using w(2) by (cases c) auto
  then obtain k sn x sf where s: "s = Nd k sn x sf" by (cases s) auto
  have f0: "focus root h fs (Nd c t e (Nd k sn x sf))" using f s by (simp add: focus_up)
  obtain pn where pn: "h (adr e) = Some pn" "left pn = root_of t" "right pn = adr x"
    using focus_node [OF f0] by (auto simp: holds_def)
  have f1: "focus root h (FR c t e # fs) (Nd k sn x sf)" using f0 by (simp add: focus_up)
  obtain sd where sd: "h (adr x) = Some sd" "rb_color sd = k" using focus_node [OF f1] by (auto simp: holds_def)
  have lf: "root_of t = left pn"
    using pn(2,3) by simp
  note step = erase_step_left [where h = h and pn = pn and sn = sd and root = root, OF pn(1) lf, unfolded pn(3), OF sd(1)]
  show ?thesis
  proof (cases k)
    case BLACK
    have st: "rb_erase_step root h (adr e) (root_of t) = erase_left_rest root h (adr e) (adr x)" using step sd(2) BLACK by simp
    show ?thesis
    proof (cases "col sn = BLACK \<and> col sf = BLACK")
      case True
      obtain h1 where h1: "erase_left_rest root h (adr e) (adr x) = Some (root, h1, top_of fs, adr e, False)" "dom h1 = dom h"
          "focus root h1 fs (Nd c t e (Nd RED sn x sf))"
        using erase_left_rest_black [OF f0] True by blast
      let ?u = "Nd c t e (Nd RED sn x sf)"
      have "erase_to root h1 (top_of fs) (root_of ?u) (del_fix fs ?u)"
      proof (cases c)
        case RED
        then show ?thesis using erase_stop [OF h1(3)] by (simp add: del_fix_red)
      next
        case BLACK
        have "rbwf ?u (Suc n)" using BLACK w(1) sw s True \<open>k = BLACK\<close> by simp
        moreover have "cwf fs (Suc (Suc n))" using w(2) BLACK by simp
        ultimately show ?thesis by (rule IH [OF h1(3)])
      qed
      then have "erase_to root h (adr e) (root_of t) (del_fix fs ?u)"
        using erase_go [OF f _ t, of "adr e" "rnode root" h1] st h1 by simp
      then show ?thesis using t s BLACK True by simp
    next
      case False
      obtain p h1 where h1: "erase_left_rest root h (adr e) (adr x) = Some (root\<lparr>rnode := p\<rparr>, h1, adr e, p, True)" "dom h1 = dom h"
          "focus (root\<lparr>rnode := p\<rparr>) h1 fs (sib_left c t e sn x sf)"
        using erase_left_rest_red [OF f0 False] by blast
      show ?thesis using erase_break [OF f _ t _ h1(3,2), of "adr e" "adr e"] st h1(1) t s BLACK False by auto
    qed
  next
    case RED
    then have c: "c = BLACK" and sc: "col sn = BLACK" "rbwf sn (Suc n)" using w(2) s by (cases c; auto)+
    then obtain a y b where sn: "sn = Nd BLACK a y b" by (cases sn) auto
    obtain h1 where h1: "color_set_black h (adr x) = Some h1" "dom h1 = dom h"
        "focus root h1 fs (Nd c t e (Nd BLACK sn x sf))"
      using focus_paint(1) [OF f1] by (auto simp: focus_up)
    obtain h2 where h2: "color_set_red h1 (adr e) = Some h2" "dom h2 = dom h1"
        "focus root h2 fs (Nd RED t e (Nd BLACK sn x sf))"
      using focus_paint(2) [OF h1(3)] by auto
    obtain q h3 where h3: "rb_rotate_left (root, h2) (adr e) = Some (root\<lparr>rnode := q\<rparr>, h3)" "dom h3 = dom h2"
        "focus (root\<lparr>rnode := q\<rparr>) h3 (FL BLACK x sf # fs) (Nd RED t e (Nd BLACK a y b))"
      using focus_rotate_left [OF h2(3)] by (auto simp: focus_up sn)
    obtain p3 where p3: "h3 (adr e) = Some p3" "right p3 = adr y" using focus_node [OF h3(3)] by (auto simp: holds_def)
    have st: "rb_erase_step root h (adr e) (root_of t) = erase_left_rest (root\<lparr>rnode := q\<rparr>) h3 (adr e) (adr y)"
      using step sd(2) RED h1 h2 h3 p3 by simp
    show ?thesis
    proof (cases "col a = BLACK \<and> col b = BLACK")
      case True
      obtain h4 where h4: "erase_left_rest (root\<lparr>rnode := q\<rparr>) h3 (adr e) (adr y) = Some (root\<lparr>rnode := q\<rparr>, h4, adr x, adr e, False)"
          "dom h4 = dom h3" "focus (root\<lparr>rnode := q\<rparr>) h4 (FL BLACK x sf # fs) (Nd RED t e (Nd RED a y b))"
        using erase_left_rest_black [OF h3(3)] True by auto
      have "erase_to (root\<lparr>rnode := q\<rparr>) h4 (adr x) (adr e)
          (plug (FL BLACK x sf # fs) (Nd BLACK t e (Nd RED a y b)))"
        using erase_stop [OF h4(3), of "adr x"] by simp
      then have "erase_to root h (adr e) (root_of t) (plug (FL BLACK x sf # fs) (Nd BLACK t e (Nd RED a y b)))"
        using erase_go [OF f _ t, of "adr e" q h4 "adr x" "adr e"] st h4 h3 h2 h1 by simp
      then show ?thesis using t s RED sn True by simp
    next
      case False
      obtain p h4 where h4: "erase_left_rest (root\<lparr>rnode := q\<rparr>) h3 (adr e) (adr y) = Some (root\<lparr>rnode := p\<rparr>, h4, adr e, p, True)"
          "dom h4 = dom h3" "focus (root\<lparr>rnode := p\<rparr>) h4 (FL BLACK x sf # fs) (sib_left RED t e a y b)"
        using erase_left_rest_red [OF h3(3) False] by auto
      have "erase_to root h (adr e) (root_of t) (paint BLACK (plug (FL BLACK x sf # fs) (sib_left RED t e a y b)))"
        using erase_break [OF f _ t _ h4(3), of "adr e" "adr e"] st h4 h3 h2 h1 by simp
      then show ?thesis using t s RED sn False by auto
    qed
  qed
qed

lemma erase_right_rest_red:
  assumes f: "focus root h fs (Nd c (Nd k sf x sn) e t)" and b: "\<not> (col sf = BLACK \<and> col sn = BLACK)"
  shows "\<exists>p h'. erase_right_rest root h (adr e) (adr x) = Some (root\<lparr>rnode := p\<rparr>, h', adr e, p, True) \<and>
     focus (root\<lparr>rnode := p\<rparr>) h' fs (sib_right c sf x sn e t) \<and> dom h' = dom h"
proof (cases "col sf = RED")
  case True
  then show ?thesis using erase_right_rest_outer [OF f] by (simp add: sib_right_def)
next
  case False
  then obtain a y b where s: "sn = Nd RED b y a" using b by (cases sn) auto
  show ?thesis using erase_right_rest_inner [OF f [unfolded s]] False by (simp add: sib_right_def s)
qed

lemma erase_loop_right:
  assumes IH: "\<And>root h t n. focus root h fs t \<Longrightarrow> rbwf t n \<Longrightarrow> cwf fs (Suc n) \<Longrightarrow>
       erase_to root h (top_of fs) (root_of t) (del_fix fs t)"
    and f: "focus root h (FR c s e # fs) t" and w: "rbwf t n" "cwf (FR c s e # fs) (Suc n)"
  shows "erase_to root h (adr e) (root_of t) (del_fix (FR c s e # fs) t)"
proof (cases "col t = RED")
  case True
  then show ?thesis using erase_stop [OF f] del_fix_red [OF True] by simp
next
  case False
  then have t: "col t = BLACK" by simp
  have sw: "rbwf s (Suc n)" using w(2) by (cases c) auto
  then obtain k sn x sf where s: "s = Nd k sf x sn" by (cases s) auto
  have f0: "focus root h fs (Nd c (Nd k sf x sn) e t)" using f s by (simp add: focus_up)
  obtain pn where pn: "h (adr e) = Some pn" "right pn = root_of t" "left pn = adr x"
    using focus_node [OF f0] by (auto simp: holds_def)
  have f1: "focus root h (FL c e t # fs) (Nd k sf x sn)" using f0 by (simp add: focus_up)
  obtain sd where sd: "h (adr x) = Some sd" "rb_color sd = k" using focus_node [OF f1] by (auto simp: holds_def)
  have lf: "root_of t \<noteq> left pn"
    using pn(2,3) focus_children [OF f0] by auto
  note step = erase_step_right [where h = h and pn = pn and sn = sd and root = root, OF pn(1) lf, unfolded pn(3), OF sd(1)]
  show ?thesis
  proof (cases k)
    case BLACK
    have st: "rb_erase_step root h (adr e) (root_of t) = erase_right_rest root h (adr e) (adr x)" using step sd(2) BLACK by simp
    show ?thesis
    proof (cases "col sf = BLACK \<and> col sn = BLACK")
      case True
      obtain h1 where h1: "erase_right_rest root h (adr e) (adr x) = Some (root, h1, top_of fs, adr e, False)" "dom h1 = dom h"
          "focus root h1 fs (Nd c (Nd RED sf x sn) e t)"
        using erase_right_rest_black [OF f0] True by blast
      let ?u = "Nd c (Nd RED sf x sn) e t"
      have "erase_to root h1 (top_of fs) (root_of ?u) (del_fix fs ?u)"
      proof (cases c)
        case RED
        then show ?thesis using erase_stop [OF h1(3)] by (simp add: del_fix_red)
      next
        case BLACK
        have "rbwf ?u (Suc n)" using BLACK w(1) sw s True \<open>k = BLACK\<close> by simp
        moreover have "cwf fs (Suc (Suc n))" using w(2) BLACK by simp
        ultimately show ?thesis by (rule IH [OF h1(3)])
      qed
      then have "erase_to root h (adr e) (root_of t) (del_fix fs ?u)"
        using erase_go [OF f _ t, of "adr e" "rnode root" h1] st h1 by simp
      then show ?thesis using t s BLACK True by simp
    next
      case False
      obtain p h1 where h1: "erase_right_rest root h (adr e) (adr x) = Some (root\<lparr>rnode := p\<rparr>, h1, adr e, p, True)" "dom h1 = dom h"
          "focus (root\<lparr>rnode := p\<rparr>) h1 fs (sib_right c sf x sn e t)"
        using erase_right_rest_red [OF f0 False] by blast
      show ?thesis using erase_break [OF f _ t _ h1(3,2), of "adr e" "adr e"] st h1(1) t s BLACK False by auto
    qed
  next
    case RED
    then have c: "c = BLACK" and sc: "col sn = BLACK" "rbwf sn (Suc n)" using w(2) s by (cases c; auto)+
    then obtain a y b where sn: "sn = Nd BLACK b y a" by (cases sn) auto
    obtain h1 where h1: "color_set_black h (adr x) = Some h1" "dom h1 = dom h"
        "focus root h1 fs (Nd c (Nd BLACK sf x sn) e t)"
      using focus_paint(1) [OF f1] by (auto simp: focus_up)
    obtain h2 where h2: "color_set_red h1 (adr e) = Some h2" "dom h2 = dom h1"
        "focus root h2 fs (Nd RED (Nd BLACK sf x sn) e t)"
      using focus_paint(2) [OF h1(3)] by auto
    obtain q h3 where h3: "rb_rotate_right (root, h2) (adr e) = Some (root\<lparr>rnode := q\<rparr>, h3)" "dom h3 = dom h2"
        "focus (root\<lparr>rnode := q\<rparr>) h3 (FR BLACK sf x # fs) (Nd RED (Nd BLACK b y a) e t)"
      using focus_rotate_right [OF h2(3)] by (auto simp: focus_up sn)
    obtain p3 where p3: "h3 (adr e) = Some p3" "left p3 = adr y" using focus_node [OF h3(3)] by (auto simp: holds_def)
    have st: "rb_erase_step root h (adr e) (root_of t) = erase_right_rest (root\<lparr>rnode := q\<rparr>) h3 (adr e) (adr y)"
      using step sd(2) RED h1 h2 h3 p3 by simp
    show ?thesis
    proof (cases "col b = BLACK \<and> col a = BLACK")
      case True
      obtain h4 where h4: "erase_right_rest (root\<lparr>rnode := q\<rparr>) h3 (adr e) (adr y) = Some (root\<lparr>rnode := q\<rparr>, h4, adr x, adr e, False)"
          "dom h4 = dom h3" "focus (root\<lparr>rnode := q\<rparr>) h4 (FR BLACK sf x # fs) (Nd RED (Nd RED b y a) e t)"
        using erase_right_rest_black [OF h3(3)] True by auto
      have "erase_to (root\<lparr>rnode := q\<rparr>) h4 (adr x) (adr e)
          (plug (FR BLACK sf x # fs) (Nd BLACK (Nd RED b y a) e t))"
        using erase_stop [OF h4(3), of "adr x"] by simp
      then have "erase_to root h (adr e) (root_of t) (plug (FR BLACK sf x # fs) (Nd BLACK (Nd RED b y a) e t))"
        using erase_go [OF f _ t, of "adr e" q h4 "adr x" "adr e"] st h4 h3 h2 h1 by simp
      then show ?thesis using t s RED sn True by simp
    next
      case False
      obtain p h4 where h4: "erase_right_rest (root\<lparr>rnode := q\<rparr>) h3 (adr e) (adr y) = Some (root\<lparr>rnode := p\<rparr>, h4, adr e, p, True)"
          "dom h4 = dom h3" "focus (root\<lparr>rnode := p\<rparr>) h4 (FR BLACK sf x # fs) (sib_right RED b y a e t)"
        using erase_right_rest_red [OF h3(3) False] by auto
      have "erase_to root h (adr e) (root_of t) (paint BLACK (plug (FR BLACK sf x # fs) (sib_right RED b y a e t)))"
        using erase_break [OF f _ t _ h4(3), of "adr e" "adr e"] st h4 h3 h2 h1 by simp
      then show ?thesis using t s RED sn False by auto
    qed
  qed
qed

lemma erase_loop_ok:
  "focus root h fs t \<Longrightarrow> rbwf t n \<Longrightarrow> cwf fs (Suc n) \<Longrightarrow> erase_to root h (top_of fs) (root_of t) (del_fix fs t)"
proof (induction fs arbitrary: root h t n)
  case Nil
  then show ?case using erase_stop [OF Nil(1)] by simp
next
  case (Cons f fs)
  show ?case
  proof (cases f)
    case (FL c e s)
    show ?thesis using erase_loop_left [OF Cons.IH] Cons.prems FL by simp
  next
    case (FR c s e)
    show ?thesis using erase_loop_right [OF Cons.IH] Cons.prems FR by simp
  qed
qed

lemma erase_rebalance_ok:
  assumes "focus root h fs t" "rbwf t n" "cwf fs (Suc n)"
  shows "\<exists>p h'. rb_erase_rebalance root h (top_of fs) (root_of t) = Some (root\<lparr>rnode := p\<rparr>, h') \<and>
     focus (root\<lparr>rnode := p\<rparr>) h' [] (del_fix fs t) \<and> dom h' = dom h"
proof -
  obtain p h1 gs u where r: "rb_erase_loop root h (top_of fs) (root_of t) = Some (root\<lparr>rnode := p\<rparr>, h1, root_of u)"
     "focus (root\<lparr>rnode := p\<rparr>) h1 gs u" "plug gs (paint BLACK u) = del_fix fs t" "dom h1 = dom h"
    using erase_loop_ok [OF assms] unfolding erase_to_def by blast
  obtain h2 where h2: "set_black_nn h1 (root_of u) = Some h2" "focus (root\<lparr>rnode := p\<rparr>) h2 gs (paint BLACK u)" "dom h2 = dom h1"
    using focus_black_nn [OF r(2)] by blast
  have "focus (root\<lparr>rnode := p\<rparr>) h2 [] (del_fix fs t)" using h2(2) r(3) by (simp add: focus_top [of _ _ gs])
  then show ?thesis using r h2 by (intro exI [of _ p] exI [of _ h2]) (simp add: rb_erase_rebalance_def)
qed

section \<open>The ends of a tree\<close>

definition first_of :: "entry list \<Rightarrow> u4" where
  "first_of es = (case es of [] \<Rightarrow> null | e # es' \<Rightarrow> adr e)"

definition last_of :: "entry list \<Rightarrow> u4" where
  "last_of es = first_of (rev es)"

fun is_FL :: "'e frame \<Rightarrow> bool" where
  "is_FL (FL c e r) = True"
| "is_FL (FR c l e) = False"

lemma before_FL: "list_all is_FL gs \<Longrightarrow> before (gs @ fs) = before fs"
proof (induction gs)
  case (Cons f gs)
  then show ?case by (cases f) simp_all
qed simp

lemma left_most_ok:
  "tree_ok h p t \<Longrightarrow> t \<noteq> Lf \<Longrightarrow> \<exists>gs k s m. t = plug gs (Nd k Lf s m) \<and> before gs = [] \<and>
     list_all is_FL gs \<and> left_most h (root_of t) = Some (adr s)"
proof (induction t arbitrary: p)
  case (Nd c l e r)
  obtain nd where nd: "h (adr e) = Some nd" "left nd = root_of l" using Nd.prems(1) by (auto simp: node_at_def holds_def)
  show ?case
  proof (cases "l = Lf")
    case True
    then have "left_most h (adr e) = Some (adr e)" using nd by (simp add: left_most.simps)
    then show ?thesis using True
      by (intro exI [of _ "[]"] exI [of _ c] exI [of _ e] exI [of _ r]) simp
  next
    case False
    then obtain gs k s m where g: "l = plug gs (Nd k Lf s m)" "before gs = []" "list_all is_FL gs"
        "left_most h (root_of l) = Some (adr s)" using Nd.IH(1) [of "adr e"] Nd.prems(1) by auto
    have "root_of l \<noteq> null" using root_null [of h "adr e" l] Nd.prems(1) False by simp
    then have "left_most h (adr e) = Some (adr s)" using nd g(4) by (simp add: left_most.simps [of h "adr e"])
    moreover have "before (gs @ [FL c e r]) = []" using before_FL [OF g(3), of "[FL c e r]"] by simp
    ultimately show ?thesis using g
      by (intro exI [of _ "gs @ [FL c e r]"] exI [of _ k] exI [of _ s] exI [of _ m]) (auto simp: plug_append)
  qed
qed simp

lemma left_most_first: "tree_ok h p t \<Longrightarrow> t \<noteq> Lf \<Longrightarrow> left_most h (root_of t) = Some (first_of (inorder t))"
proof -
  assume "tree_ok h p t" "t \<noteq> Lf"
  then obtain gs k s m where "t = plug gs (Nd k Lf s m)" "before gs = []" "left_most h (root_of t) = Some (adr s)"
    using left_most_ok by blast
  then show ?thesis by (simp add: inorder_plug first_of_def)
qed

lemma right_most_last: "tree_ok h p t \<Longrightarrow> t \<noteq> Lf \<Longrightarrow> right_most h (root_of t) = Some (last_of (inorder t))"
proof (induction t arbitrary: p)
  case (Nd c l e r)
  obtain nd where nd: "h (adr e) = Some nd" "right nd = root_of r" using Nd.prems(1) by (auto simp: node_at_def holds_def)
  show ?case
  proof (cases "r = Lf")
    case True
    then show ?thesis using nd by (simp add: right_most.simps last_of_def first_of_def)
  next
    case False
    then have n: "root_of r \<noteq> null" "right_most h (root_of r) = Some (last_of (inorder r))"
      using root_null [of h "adr e" r] Nd.prems(1) Nd.IH(2) [of "adr e"] by auto
    have "inorder r \<noteq> []" using False by (cases r) auto
    then have "last_of (inorder (Nd c l e r)) = last_of (inorder r)"
      by (cases "inorder r" rule: rev_cases) (auto simp: last_of_def first_of_def)
    then show ?thesis using nd n by (simp add: right_most.simps [of h "adr e"])
  qed
qed simp

lemma update_ends_ok:
  assumes f: "focus root h [] t"
  shows "map_option snd (rb_update_min root h) = Some (root\<lparr>rmin := first_of (inorder t)\<rparr>)"
    "map_option snd (rb_update_max root h) = Some (root\<lparr>rmax := last_of (inorder t)\<rparr>)"
proof -
  have t: "tree_ok h null t" "rnode root = root_of t" using f by (auto simp: focus_def rep_def)
  have n: "root_of t = null \<longleftrightarrow> t = Lf" using focus_root_null [OF f] .
  show "map_option snd (rb_update_min root h) = Some (root\<lparr>rmin := first_of (inorder t)\<rparr>)"
    using t(2) n left_most_first [OF t(1)] by (cases "t = Lf") (simp_all add: rb_update_min_def first_of_def)
  show "map_option snd (rb_update_max root h) = Some (root\<lparr>rmax := last_of (inorder t)\<rparr>)"
    using t(2) n right_most_last [OF t(1)] by (cases "t = Lf") (simp_all add: rb_update_max_def first_of_def last_of_def)
qed

section \<open>Unlinking a node\<close>

lemma reparent_ok:
  assumes t: "tree_ok h p t" "dst t" "aligned q"
  shows "\<exists>h'. (if root_of t \<noteq> null then rb_set_parent h (root_of t) q else Some h) = Some h' \<and> tree_ok h' q t \<and>
     (\<forall>a. a \<notin> adrs t \<longrightarrow> h' a = h a) \<and> dom h' = dom h"
proof (cases "t = Lf")
  case True
  then show ?thesis by simp
next
  case False
  obtain nd where nd: "h (root_of t) = Some nd" using tree_ok_node [OF t(1) False] by blast
  have "root_of t \<in> adrs t" "root_of t \<noteq> null" using root_of_in [OF False] root_null [OF t(1)] False by auto
  moreover have "dom (h(root_of t \<mapsto> z)) = dom h" for z using nd by auto
  ultimately show ?thesis using tree_ok_reparent [OF t nd False] nd
    by (intro exI [of _ "h(root_of t \<mapsto> node_set_parent q nd)"]) (auto simp: rb_set_parent_def rb_upd_def)
qed

text \<open>A change below a position that keeps the node there.\<close>

lemma tree_ok_inside:
  assumes "tree_ok h b (plug gs u)" "dst (plug gs u)" "root_of u' = root_of u"
    "\<And>q. q \<notin> adrs u \<Longrightarrow> h' q = h q" "\<And>b. tree_ok h b u \<Longrightarrow> tree_ok h' b u'"
  shows "tree_ok h' b (plug gs u')"
  using assms
proof (induction gs arbitrary: u u')
  case (Cons f gs)
  have d: "dst (plug1 f u)" using Cons.prems(2) by (simp add: dst_plug)
  have "tree_ok h' b (plug1 f u')" if "tree_ok h b (plug1 f u)" for b
    using that Cons.prems(3-5) d by (cases f) (auto simp: node_at_def intro: tree_ok_cong)
  then show ?case
    using Cons.IH [of "plug1 f u" "plug1 f u'"] Cons.prems by (cases f) auto
qed simp

lemma focus_free:
  assumes "focus root h fs t" "a \<notin> adrs t" "a \<notin> cadrs fs"
  shows "focus root (h(a := None)) fs t"
  using assms by (simp add: focus_def rep_def)

lemma unlink_one_ok:
  assumes f: "focus root h fs (Nd c l e r)" and u: "l = Lf \<or> r = Lf" "u = (if l \<noteq> Lf then l else r)"
    and n: "h (adr e) = Some nd"
  shows "\<exists>p h'. rb_unlink_one root h (adr e) nd = Some (root\<lparr>rnode := p\<rparr>, h', top_of fs, root_of u, c = BLACK) \<and>
     focus (root\<lparr>rnode := p\<rparr>) h' fs u \<and> dom h' = dom h"
proof -
  have hn: "holds nd c (top_of fs) (root_of l) (root_of r) (snd e)" using focus_node [OF f] n by auto
  have rp: "tree_ok h (adr e) l" "tree_ok h (adr e) r" "ctx_ok h (adr e) fs" "dst l" "dst r" "cdst fs"
      "(adrs l \<union> adrs r) \<inter> cadrs fs = {}" "adr e \<notin> cadrs fs" "adr e \<noteq> null"
    using f by (auto simp: focus_def rep_def node_at_def)
  have ut: "tree_ok h (adr e) u" "dst u" "adrs u \<inter> cadrs fs = {}" using rp u(2) by auto
  have ch: "(if left nd \<noteq> null then left nd else right nd) = root_of u"
    using hn u(2) root_null [OF rp(1)] by (simp add: holds_def)
  obtain h1 where h1: "(if root_of u \<noteq> null then rb_set_parent h (root_of u) (top_of fs) else Some h) = Some h1"
      "tree_ok h1 (top_of fs) u" "\<forall>a. a \<notin> adrs u \<longrightarrow> h1 a = h a" "dom h1 = dom h"
    using reparent_ok [OF ut(1,2) top_aligned [OF rp(3)]] by blast
  have c1: "ctx_ok h1 (adr e) fs" by (rule ctx_ok_cong [OF rp(3)]) (use h1(3) ut(3) in blast)
  obtain h2 where h2: "rb_replace_child root h1 (top_of fs) (adr e) (root_of u) =
        Some (if fs = [] then root\<lparr>rnode := root_of u\<rparr> else root, h2)"
      "ctx_ok h2 (root_of u) fs" "dom h2 = dom h1" "\<forall>a. a \<notin> cadrs fs \<longrightarrow> h2 a = h1 a"
    using replace_child_ok [OF c1 rp(6,9,8)] by blast
  have t2: "tree_ok h2 (top_of fs) u" by (rule tree_ok_cong [OF h1(2)]) (use h2(4) ut(3) in blast)
  let ?p = "root_of (plug fs u)"
  have rt: "(if fs = [] then root\<lparr>rnode := root_of u\<rparr> else root) = root\<lparr>rnode := ?p\<rparr>"
    using f root_of_plug [of fs u "Nd c l e r"] by (cases root) (auto simp: focus_def)
  have "focus (root\<lparr>rnode := ?p\<rparr>) h2 fs u" using t2 h2(2) ut(2,3) rp(6) by (simp add: focus_def rep_def)
  moreover have "rb_unlink_one root h (adr e) nd = Some (root\<lparr>rnode := ?p\<rparr>, h2, top_of fs, root_of u, c = BLACK)"
  proof -
    have nw: "rb_parent nd = top_of fs" "rb_color nd = c" using hn by (simp_all add: holds_def)
    show ?thesis unfolding rb_unlink_one_def ch Let_def nw h1(1) using h2(1) rt by simp
  qed
  ultimately show ?thesis using h1(4) h2(3) by auto
qed

text \<open>The successor leaves its old place, when that is not right below the node.\<close>

lemma tree_ok_sub: "tree_ok h b (plug gs u) \<Longrightarrow> \<exists>b'. tree_ok h b' u"
proof (induction gs arbitrary: u)
  case (Cons f gs)
  then obtain b' where "tree_ok h b' (plug1 f u)" by force
  then show ?case by (cases f) auto
qed auto

lemma cut_min_ok:
  assumes t: "tree_ok h b (plug (FL d x y # gs) (Nd k Lf s m))" and ds: "dst (plug (FL d x y # gs) (Nd k Lf s m))"
  shows "\<exists>h'. do { h \<leftarrow> (if root_of m \<noteq> null then rb_set_parent h (root_of m) (adr x) else Some h);
            set_left h (adr x) (root_of m) } = Some h' \<and>
     tree_ok h' b (plug (FL d x y # gs) m) \<and> (\<forall>a. a \<notin> insert (adr x) (adrs m) \<longrightarrow> h' a = h a) \<and> dom h' = dom h"
proof -
  let ?u = "Nd d (Nd k Lf s m) x y"
  obtain b0 where b0: "tree_ok h b0 ?u" using tree_ok_sub [of h b gs ?u] t by auto
  have du: "dst ?u" using ds by (simp add: dst_plug)
  obtain xn where xn: "h (adr x) = Some xn" "aligned (adr x)" "adr x \<noteq> null" using b0 by (auto simp: node_at_def)
  have m: "tree_ok h (adr s) m" "dst m" "adr x \<notin> adrs m" using b0 du by auto
  obtain h1 where h1: "(if root_of m \<noteq> null then rb_set_parent h (root_of m) (adr x) else Some h) = Some h1"
      "tree_ok h1 (adr x) m" "\<forall>a. a \<notin> adrs m \<longrightarrow> h1 a = h a" "dom h1 = dom h"
    using reparent_ok [OF m(1,2) xn(2)] by blast
  let ?h = "h1(adr x \<mapsto> xn\<lparr>left := root_of m\<rparr>)"
  have x1: "h1 (adr x) = Some xn" using h1(3) m(3) xn(1) by simp
  have run: "do { h \<leftarrow> (if root_of m \<noteq> null then rb_set_parent h (root_of m) (adr x) else Some h);
            set_left h (adr x) (root_of m) } = Some ?h"
    unfolding h1(1) using x1 by (simp add: set_left_def rb_upd_def)
  have yy: "tree_ok h1 (adr x) y" by (rule tree_ok_cong [of h]) (use b0 du h1(3) in auto)
  have loc: "tree_ok ?h b' (Nd d m x y)" if "tree_ok h b' ?u" for b'
    using that xn h1(2) m(3) yy du by (auto simp: node_at_def holds_def)
  have out: "?h q = h q" if "q \<notin> adrs ?u" for q using that h1(3) by simp
  have "tree_ok h b (plug gs ?u)" "dst (plug gs ?u)" using t ds by simp_all
  from tree_ok_inside [where u' = "Nd d m x y", OF this _ out loc]
  have "tree_ok ?h b (plug gs (Nd d m x y))" by simp
  then show ?thesis using run h1(3,4) x1 by (intro exI [of _ ?h]) auto
qed

text \<open>The successor takes the place of the node.\<close>

lemma seat_ok:
  assumes l: "tree_ok h b l" "l \<noteq> Lf" "dst l" and r: "tree_ok h (adr s) R"
    and s: "h (adr s) = Some sn" "right sn = root_of R" "key sn = fst (snd s)" "value sn = snd (snd s)"
      "aligned (adr s)" "adr s \<noteq> null"
    and n: "holds nd c par (root_of l) z kv"
    and d: "adr s \<notin> adrs l" "adr s \<notin> adrs R" "adrs l \<inter> adrs R = {}"
  shows "\<exists>h'. do { h \<leftarrow> rb_upd h (adr s) (\<lambda>sn. sn\<lparr>parent := parent nd, left := left nd\<rparr>);
             rb_set_parent h (left nd) (adr s) } = Some h' \<and>
     tree_ok h' par (Nd c l s R) \<and> (\<forall>a. a \<notin> insert (adr s) (adrs l) \<longrightarrow> h' a = h a) \<and> dom h' = dom h"
proof -
  let ?sn = "sn\<lparr>parent := parent nd, left := left nd\<rparr>"
  let ?h = "h(adr s \<mapsto> ?sn)"
  have hs: "holds ?sn c par (root_of l) (root_of R) (snd s)"
    using n s by (simp add: holds_def rb_parent_def rb_color_def node_ok_def)
  have "tree_ok ?h b l" using l(1) d(1) by simp
  from reparent_ok [OF this l(3) s(5)] obtain h1 where
    h1: "(if root_of l \<noteq> null then rb_set_parent ?h (root_of l) (adr s) else Some ?h) = Some h1" "tree_ok h1 (adr s) l"
      "\<forall>a. a \<notin> adrs l \<longrightarrow> h1 a = ?h a" "dom h1 = dom ?h" by blast
  have "root_of l \<noteq> null" using root_null [OF l(1)] l(2) by simp
  then have run: "do { h \<leftarrow> rb_upd h (adr s) (\<lambda>sn. sn\<lparr>parent := parent nd, left := left nd\<rparr>);
             rb_set_parent h (left nd) (adr s) } = Some h1"
    using h1(1) s(1) n by (simp add: rb_upd_def holds_def)
  have "h1 (adr s) = Some ?sn" using h1(3) d(1) by simp
  moreover have "tree_ok h1 (adr s) R" by (rule tree_ok_cong [OF r]) (use h1(3) d in auto)
  ultimately have "tree_ok h1 par (Nd c l s R)" using h1(2) hs s(5,6) by (simp add: node_at_def)
  moreover have "dom h1 = dom h" using h1(4) s(1) by auto
  ultimately show ?thesis using run h1(3) by (intro exI [of _ h1]) auto
qed

text \<open>After the link from above was set, in the two cases.\<close>

lemma unlink_near_ok:
  assumes t: "tree_ok h par (Nd c l e (Nd k Lf s m))" "dst (Nd c l e (Nd k Lf s m))" "l \<noteq> Lf" and n: "h (adr e) = Some nd"
  shows "\<exists>sn h'. h (adr s) = Some sn \<and> right sn = root_of m \<and> rb_color sn = k \<and> rb_parent sn = adr e \<and>
     do { h \<leftarrow> rb_upd h (adr s) (\<lambda>sn. sn\<lparr>parent := parent nd, left := left nd\<rparr>);
             rb_set_parent h (left nd) (adr s) } = Some h' \<and>
     tree_ok h' par (Nd c l s m) \<and> (\<forall>a. a \<notin> adrs (Nd c l e (Nd k Lf s m)) \<longrightarrow> h' a = h a) \<and> dom h' = dom h"
proof -
  have nd: "holds nd c par (root_of l) (adr s) (snd e)" using t(1) n by (auto simp: node_at_def)
  obtain sn where sn: "h (adr s) = Some sn" "holds sn k (adr e) null (root_of m) (snd s)" "aligned (adr s)" "adr s \<noteq> null"
    using t(1) by (auto simp: node_at_def)
  have k: "right sn = root_of m" "key sn = fst (snd s)" "value sn = snd (snd s)" using sn(2) by (simp_all add: holds_def)
  have l: "tree_ok h (adr e) l" "dst l" "tree_ok h (adr s) m" "adr s \<notin> adrs l" "adr s \<notin> adrs m" "adrs l \<inter> adrs m = {}"
    using t by auto
  obtain h' where "do { h \<leftarrow> rb_upd h (adr s) (\<lambda>sn. sn\<lparr>parent := parent nd, left := left nd\<rparr>);
             rb_set_parent h (left nd) (adr s) } = Some h'"
     "tree_ok h' par (Nd c l s m)" "\<forall>a. a \<notin> insert (adr s) (adrs l) \<longrightarrow> h' a = h a" "dom h' = dom h"
    using seat_ok [OF l(1) t(3) l(2,3) sn(1) k sn(3,4) nd l(4-6)] by blast
  then show ?thesis using sn by (intro exI [of _ sn] exI [of _ h']) (auto simp: holds_def)
qed

lemma unlink_far_ok:
  assumes t: "tree_ok h par (Nd c l e (plug (FL d x y # gs) (Nd k Lf s m)))"
      "dst (Nd c l e (plug (FL d x y # gs) (Nd k Lf s m)))" "l \<noteq> Lf" and n: "h (adr e) = Some nd"
  shows "\<exists>sn h'. h (adr s) = Some sn \<and> right sn = root_of m \<and> rb_color sn = k \<and> rb_parent sn = adr x \<and> adr x \<noteq> adr e \<and>
     do { h \<leftarrow> (if root_of m \<noteq> null then rb_set_parent h (root_of m) (adr x) else Some h);
          h \<leftarrow> set_left h (adr x) (root_of m);
          h \<leftarrow> set_right h (adr s) (right nd);
          h \<leftarrow> rb_set_parent h (right nd) (adr s);
          h \<leftarrow> rb_upd h (adr s) (\<lambda>sn. sn\<lparr>parent := parent nd, left := left nd\<rparr>);
          rb_set_parent h (left nd) (adr s) } = Some h' \<and>
     tree_ok h' par (Nd c l s (plug (FL d x y # gs) m)) \<and>
     (\<forall>a. a \<notin> adrs (Nd c l e (plug (FL d x y # gs) (Nd k Lf s m))) \<longrightarrow> h' a = h a) \<and> dom h' = dom h"
proof -
  let ?r = "plug (FL d x y # gs) (Nd k Lf s m)" and ?R = "plug (FL d x y # gs) m"
  have rr: "root_of ?R = root_of ?r" by (rule root_of_plug) simp
  have nd: "holds nd c par (root_of l) (root_of ?r) (snd e)" using t(1) n by (auto simp: node_at_def)
  have l: "tree_ok h (adr e) l" "dst l" "tree_ok h (adr e) ?r" "dst ?r" "adrs l \<inter> adrs ?r = {}" "adr e \<notin> adrs ?r"
    using t by auto
  obtain b0 where b0: "tree_ok h b0 (Nd d (Nd k Lf s m) x y)" using tree_ok_sub [of h "adr e" gs "Nd d (Nd k Lf s m) x y"] l(3) by auto
  obtain sn where sn: "h (adr s) = Some sn" "holds sn k (adr x) null (root_of m) (snd s)" "aligned (adr s)" "adr s \<noteq> null"
    using b0 by (auto simp: node_at_def)
  have ar: "adrs ?r = adrs m \<union> insert (adr s) (cadrs (FL d x y # gs))" "adrs ?R = adrs m \<union> cadrs (FL d x y # gs)"
    by (simp_all only: adrs_plug adrs.simps Un_insert_left Un_insert_right Un_empty_left)
  have ds: "adr s \<notin> adrs m" "adr s \<notin> cadrs (FL d x y # gs)" "dst ?R"
    using l(4) unfolding dst_plug by auto
  have di: "adr s \<notin> adrs l" "adr s \<notin> adrs ?R" "adrs l \<inter> adrs ?R = {}" "adr x \<noteq> adr e" "adr x \<noteq> adr s"
    using ds l(5,6) unfolding ar by auto
  obtain h1 where h1: "do { h \<leftarrow> (if root_of m \<noteq> null then rb_set_parent h (root_of m) (adr x) else Some h);
            set_left h (adr x) (root_of m) } = Some h1"
     "tree_ok h1 (adr e) ?R" "\<forall>a. a \<notin> insert (adr x) (adrs m) \<longrightarrow> h1 a = h a" "dom h1 = dom h"
    using cut_min_ok [OF l(3,4)] by blast
  let ?s2 = "sn\<lparr>right := root_of ?r\<rparr>"
  let ?h2 = "h1(adr s \<mapsto> ?s2)"
  have s1: "h1 (adr s) = Some sn" using h1(3) sn(1) ds(1) di(5) by auto
  have "tree_ok ?h2 (adr e) ?R" using h1(2) di(2) by simp
  from reparent_ok [OF this ds(3) sn(3)] obtain h3 where
    h3: "(if root_of ?R \<noteq> null then rb_set_parent ?h2 (root_of ?R) (adr s) else Some ?h2) = Some h3"
     "tree_ok h3 (adr s) ?R" "\<forall>a. a \<notin> adrs ?R \<longrightarrow> h3 a = ?h2 a" "dom h3 = dom ?h2" by blast
  have rn: "root_of ?r \<noteq> null" using root_null [OF l(3)] plug_Lf [of "FL d x y # gs" "Nd k Lf s m"] by auto
  have s3: "h3 (adr s) = Some ?s2" "right ?s2 = root_of ?R" "key ?s2 = fst (snd s)" "value ?s2 = snd (snd s)"
    using h3(3) di(2) rr sn(2) by (auto simp: holds_def)
  have l3: "tree_ok h3 (adr e) l"
  proof (rule tree_ok_cong [OF l(1)])
    fix q assume "q \<in> adrs l"
    then have "q \<notin> adrs ?R" "q \<noteq> adr s" using di by auto
    moreover have "insert (adr x) (adrs m) \<subseteq> adrs ?R" unfolding ar by auto
    ultimately have "q \<notin> insert (adr x) (adrs m)" "q \<notin> adrs ?R" "q \<noteq> adr s" by blast+
    then have "h3 q = ?h2 q" "?h2 q = h1 q" "h1 q = h q" using h3(3) h1(3) by auto
    then show "h3 q = h q" by simp
  qed
  obtain h5 where h5: "do { h \<leftarrow> rb_upd h3 (adr s) (\<lambda>sn. sn\<lparr>parent := parent nd, left := left nd\<rparr>);
             rb_set_parent h (left nd) (adr s) } = Some h5"
     "tree_ok h5 par (Nd c l s ?R)" "\<forall>a. a \<notin> insert (adr s) (adrs l) \<longrightarrow> h5 a = h3 a" "dom h5 = dom h3"
    using seat_ok [OF l3 t(3) l(2) h3(2) s3 sn(3,4) nd di(1-3)] by blast
  have "do { h \<leftarrow> (if root_of m \<noteq> null then rb_set_parent h (root_of m) (adr x) else Some h);
          h \<leftarrow> set_left h (adr x) (root_of m);
          h \<leftarrow> set_right h (adr s) (right nd);
          h \<leftarrow> rb_set_parent h (right nd) (adr s);
          h \<leftarrow> rb_upd h (adr s) (\<lambda>sn. sn\<lparr>parent := parent nd, left := left nd\<rparr>);
          rb_set_parent h (left nd) (adr s) } = Some h5"
  proof -
    have "right nd = root_of ?r" using nd by (simp add: holds_def)
    moreover have "set_right h1 (adr s) (root_of ?r) = Some ?h2" using s1 by (simp add: set_right_def rb_upd_def)
    moreover have "rb_set_parent ?h2 (root_of ?r) (adr s) = Some h3" using h3(1) rr rn by simp
    ultimately show ?thesis using h1(1) h5(1) by (auto simp: bind_eq_Some_conv)
  qed
  moreover have "h5 a = h a" if "a \<notin> adrs (Nd c l e ?r)" for a
  proof -
    have "a \<notin> adrs l" "a \<notin> adrs ?r" using that by auto
    moreover have "adrs ?R \<subseteq> adrs ?r" "adr s \<in> adrs ?r" "insert (adr x) (adrs m) \<subseteq> adrs ?r" unfolding ar by auto
    ultimately have "a \<notin> insert (adr s) (adrs l)" "a \<notin> adrs ?R" "a \<noteq> adr s" "a \<notin> insert (adr x) (adrs m)" by auto
    then have "h5 a = h3 a" "h3 a = ?h2 a" "?h2 a = h1 a" "h1 a = h a" using h5(3) h3(3) h1(3) by auto
    then show ?thesis by simp
  qed
  moreover have "dom h5 = dom h" using h5(4) h3(4) h1(4) s1 by auto
  ultimately show ?thesis using sn h5(2) di(4) by (intro exI [of _ sn] exI [of _ h5]) (auto simp: holds_def)
qed

lemma unlink_two_ok:
  assumes f: "focus root h fs (Nd c l e r)" and lr: "l \<noteq> Lf" "r \<noteq> Lf" and n: "h (adr e) = Some nd"
  shows "\<exists>p h' gs k s m. r = plug gs (Nd k Lf s m) \<and> before gs = [] \<and>
     rb_unlink_two root h (adr e) nd = Some (root\<lparr>rnode := p\<rparr>, h', top_of (gs @ FR c l s # fs), root_of m, k = BLACK) \<and>
     focus (root\<lparr>rnode := p\<rparr>) h' (gs @ FR c l s # fs) m \<and> dom h' = dom h"
proof -
  have rp: "tree_ok h (top_of fs) (Nd c l e r)" "ctx_ok h (adr e) fs" "dst (Nd c l e r)" "cdst fs"
      "adrs (Nd c l e r) \<inter> cadrs fs = {}" "adr e \<notin> cadrs fs" "adr e \<noteq> null"
    using f by (auto simp: focus_def rep_def node_at_def)
  have nd: "right nd = root_of r" "rb_parent nd = top_of fs" using rp(1) n by (auto simp: node_at_def holds_def)
  obtain gs k s m where g: "r = plug gs (Nd k Lf s m)" "before gs = []" "list_all is_FL gs"
      "left_most h (root_of r) = Some (adr s)" using left_most_ok [of h "adr e" r] rp(1) lr(2) by auto
  have as: "adr s \<in> adrs r" using g(1) by (simp add: adrs_plug)
  obtain h1 where h1: "rb_replace_child root h (top_of fs) (adr e) (adr s) =
        Some (if fs = [] then root\<lparr>rnode := adr s\<rparr> else root, h1)"
      "ctx_ok h1 (adr s) fs" "dom h1 = dom h" "\<forall>a. a \<notin> cadrs fs \<longrightarrow> h1 a = h a"
    using replace_child_ok [OF rp(2,4,7,6)] by blast
  have t1: "tree_ok h1 (top_of fs) (Nd c l e r)" by (rule tree_ok_cong [OF rp(1)]) (use h1(4) rp(5) in blast)
  have n1: "h1 (adr e) = Some nd" using h1(4) rp(6) n by simp
  let ?T = "Nd c l s (plug gs m)"
  have rt: "(if fs = [] then root\<lparr>rnode := adr s\<rparr> else root) = root\<lparr>rnode := root_of (plug fs ?T)\<rparr>"
    using f root_of_plug [of fs ?T "Nd c l e r"] by (cases root) (auto simp: focus_def)
  have dT: "dst ?T" "adrs ?T \<subseteq> adrs (Nd c l e r)" using rp(3) unfolding g(1) by (auto simp: dst_plug adrs_plug)
  obtain h5 where h5: "rb_unlink_two root h (adr e) nd =
        Some (root\<lparr>rnode := root_of (plug fs ?T)\<rparr>, h5, top_of (gs @ FR c l s # fs), root_of m, k = BLACK)"
      "tree_ok h5 (top_of fs) ?T" "\<forall>a. a \<notin> adrs (Nd c l e r) \<longrightarrow> h5 a = h1 a" "dom h5 = dom h1"
  proof (cases gs)
    case Nil
    obtain sn h5 where u: "h1 (adr s) = Some sn" "right sn = root_of m" "rb_color sn = k" "rb_parent sn = adr e"
        "do { h \<leftarrow> rb_upd h1 (adr s) (\<lambda>sn. sn\<lparr>parent := parent nd, left := left nd\<rparr>); rb_set_parent h (left nd) (adr s) } = Some h5"
        "tree_ok h5 (top_of fs) (Nd c l s m)" "\<forall>a. a \<notin> adrs (Nd c l e r) \<longrightarrow> h5 a = h1 a" "dom h5 = dom h1"
      using unlink_near_ok [of h1 "top_of fs" c l e k s m nd] t1 rp(3) lr(1) n1 g(1) Nil by auto
    then have "rb_unlink_two root h (adr e) nd = Some (root\<lparr>rnode := root_of (plug fs ?T)\<rparr>, h5, adr s, root_of m, k = BLACK)"
      using g(4) h1(1) rt nd by (auto simp: rb_unlink_two_def Let_def bind_eq_Some_conv)
    then show ?thesis using that u Nil by simp
  next
    case (Cons f0 gs')
    then obtain d x y where G: "gs = FL d x y # gs'" using g(3) by (cases f0) auto
    obtain sn h5 where u: "h1 (adr s) = Some sn" "right sn = root_of m" "rb_color sn = k" "rb_parent sn = adr x" "adr x \<noteq> adr e"
        "do { h \<leftarrow> (if root_of m \<noteq> null then rb_set_parent h1 (root_of m) (adr x) else Some h1);
          h \<leftarrow> set_left h (adr x) (root_of m);
          h \<leftarrow> set_right h (adr s) (right nd);
          h \<leftarrow> rb_set_parent h (right nd) (adr s);
          h \<leftarrow> rb_upd h (adr s) (\<lambda>sn. sn\<lparr>parent := parent nd, left := left nd\<rparr>);
          rb_set_parent h (left nd) (adr s) } = Some h5"
        "tree_ok h5 (top_of fs) (Nd c l s (plug gs m))" "\<forall>a. a \<notin> adrs (Nd c l e r) \<longrightarrow> h5 a = h1 a" "dom h5 = dom h1"
      using unlink_far_ok [OF t1 [unfolded g(1) G] rp(3) [unfolded g(1) G] lr(1) n1] unfolding g(1) G by blast
    obtain h2 h3 h4 h4' h4'' where st: "(if root_of m \<noteq> null then rb_set_parent h1 (root_of m) (adr x) else Some h1) = Some h2"
        "set_left h2 (adr x) (root_of m) = Some h3" "set_right h3 (adr s) (right nd) = Some h4"
        "rb_set_parent h4 (right nd) (adr s) = Some h4'"
        "rb_upd h4' (adr s) (\<lambda>sn. sn\<lparr>parent := parent nd, left := left nd\<rparr>) = Some h4''"
        "rb_set_parent h4'' (left nd) (adr s) = Some h5"
      using u(6) unfolding bind_eq_Some_conv by blast
    have "rb_unlink_two root h (adr e) nd = Some (root\<lparr>rnode := root_of (plug fs ?T)\<rparr>, h5, adr x, root_of m, k = BLACK)"
      unfolding rb_unlink_two_def nd(2) using g(4) h1(1) rt nd(1) u(1-5) st by (cases "root_of m = null") (simp_all add: Let_def)
    then show ?thesis using that u G by simp
  qed
  have "ctx_ok h5 (adr s) fs" by (rule ctx_ok_cong [OF h1(2)]) (use h5(3) rp(5) in blast)
  then have "focus (root\<lparr>rnode := root_of (plug fs ?T)\<rparr>) h5 fs ?T"
    using h5(2) dT rp(4,5) by (auto simp: focus_def rep_def)
  then have "focus (root\<lparr>rnode := root_of (plug fs ?T)\<rparr>) h5 (gs @ FR c l s # fs) m"
    by (simp add: focus_top [of _ _ "gs @ FR c l s # fs"] focus_top [of _ _ fs] plug_append)
  then show ?thesis using h5(1,4) h1(3) g(1,2)
    by (intro exI [of _ "root_of (plug fs ?T)"] exI [of _ h5] exI [of _ gs] exI [of _ k] exI [of _ s] exI [of _ m]) simp
qed

text \<open>What is missing after the node left.\<close>

definition gap :: "bool \<Rightarrow> entry frame list \<Rightarrow> entry rtree \<Rightarrow> bool" where
  "gap black fs u \<longleftrightarrow> (if black then \<exists>n. rbwf u n \<and> cwf fs (Suc n) else rbt (plug fs u))"

lemma gap_one:
  assumes b: "rbt (plug fs (Nd c l e r))" and u: "l = Lf \<or> r = Lf" "u = (if l \<noteq> Lf then l else r)"
  shows "gap (c = BLACK) fs u"
proof -
  obtain n where n: "rbwf (Nd c l e r) n" "cwf fs n" using b by (auto simp: rbt_plug)
  show ?thesis
  proof (cases c)
    case BLACK
    then obtain k where "n = Suc k" "rbwf l k" "rbwf r k" using n(1) by (cases n) auto
    then show ?thesis using n(2) u BLACK by (auto simp: gap_def)
  next
    case RED
    then have w: "rbwf u n" "col u = BLACK" using n(1) u by auto
    then have "rbt (plug fs u)" using n(2) by (intro rbt_plugI) (auto simp: fits_def)
    then show ?thesis using RED by (simp add: gap_def)
  qed
qed

lemma cwf_elem: "cwf (gs @ FR c l e # fs) n = cwf (gs @ FR c l s # fs) n"
proof (induction gs arbitrary: n)
  case Nil
  then show ?case by (cases c) simp_all
next
  case (Cons f gs)
  have "top_black (gs @ FR c l e # fs) = top_black (gs @ FR c l s # fs)" by (cases gs) simp_all
  then show ?case using Cons by (cases f; cases "fcol f") auto
qed

lemma gap_elem: "gap b (gs @ FR c l e # fs) u \<Longrightarrow> gap b (gs @ FR c l s # fs) u"
proof -
  have "top_black (gs @ FR c l e # fs) = top_black (gs @ FR c l s # fs)" by (cases gs) simp_all
  then have "rbt (plug (gs @ FR c l e # fs) u) = rbt (plug (gs @ FR c l s # fs) u)"
    using cwf_elem [of gs c l e fs _ s] unfolding rbt_plug fits_def by auto
  then show "gap b (gs @ FR c l e # fs) u \<Longrightarrow> gap b (gs @ FR c l s # fs) u"
    using cwf_elem [of gs c l e fs _ s] by (auto simp: gap_def split: if_splits)
qed

end
