(* ===== verification/Lisk_Order.thy ===== *)
theory Lisk_Order
  imports Lisk_Prelude
begin

text \<open>
  The contract of the comparison function (\<open>compare\<close> of \<open>lisk_public.h\<close>) that the ordered containers are
  given, and one function that keeps it, the order of byte strings.
\<close>

text \<open>The contract: a linear order of the keys, with 0 on equal keys only.\<close>

definition key_order :: "(u1 list \<Rightarrow> u1 list \<Rightarrow> int) \<Rightarrow> bool" where
  "key_order c \<longleftrightarrow> (\<forall>a b. c a b = 0 \<longleftrightarrow> a = b) \<and> (\<forall>a b. c a b < 0 \<longleftrightarrow> 0 < c b a) \<and>
     (\<forall>x y z. c x y < 0 \<longrightarrow> c y z < 0 \<longrightarrow> c x z < 0)"

lemma key_orderD:
  assumes "key_order c"
  shows "c a b = 0 \<longleftrightarrow> a = b" "c a b < 0 \<longleftrightarrow> 0 < c b a" "c x y < 0 \<Longrightarrow> c y z < 0 \<Longrightarrow> c x z < 0"
  using assms unfolding key_order_def by blast+

fun bytes_cmp :: "u1 list \<Rightarrow> u1 list \<Rightarrow> int" where
  "bytes_cmp [] [] = 0"
| "bytes_cmp [] (b # bs) = -1"
| "bytes_cmp (a # as) [] = 1"
| "bytes_cmp (a # as) (b # bs) = (if a < b then -1 else if b < a then 1 else bytes_cmp as bs)"

lemma bytes_cmp_zero: "bytes_cmp a b = 0 \<longleftrightarrow> a = b"
  by (induction a b rule: bytes_cmp.induct) auto

lemma bytes_cmp_sym: "bytes_cmp a b < 0 \<longleftrightarrow> 0 < bytes_cmp b a"
  by (induction a b rule: bytes_cmp.induct) auto

lemma bytes_cmp_trans: "bytes_cmp a b < 0 \<Longrightarrow> bytes_cmp b c < 0 \<Longrightarrow> bytes_cmp a c < 0"
proof (induction a b arbitrary: c rule: bytes_cmp.induct)
  case (2 b bs)
  then show ?case by (cases c) auto
next
  case (4 a as b bs)
  then show ?case by (cases c) (auto split: if_splits)
qed auto

lemma bytes_order: "key_order bytes_cmp"
  unfolding key_order_def using bytes_cmp_zero bytes_cmp_sym bytes_cmp_trans by blast

end
