(* ===== verification/Lisk_Map_Ops.thy ===== *)
theory Lisk_Map_Ops
  imports Lisk_Map_Erase Lisk_Order
begin

text \<open>
  The operations of the map of \<open>win_lisk/src/lisk_map.c\<close> on its invariant: the store is exactly a
  red-black tree in the order of the comparison function, the two end pointers and the size fit.
\<close>

section \<open>The order of the keys\<close>

abbreviation ekey :: "entry \<Rightarrow> u1 list" where "ekey e \<equiv> fst (snd e)"

definition ordered :: "(u1 list \<Rightarrow> u1 list \<Rightarrow> int) \<Rightarrow> entry list \<Rightarrow> bool" where
  "ordered c es \<longleftrightarrow> sorted_wrt (\<lambda>a b. c (ekey a) (ekey b) < 0) es"

lemma ordered_append:
  "ordered c (xs @ ys) \<longleftrightarrow> ordered c xs \<and> ordered c ys \<and> (\<forall>x \<in> set xs. \<forall>y \<in> set ys. c (ekey x) (ekey y) < 0)"
  by (auto simp: ordered_def sorted_wrt_append)

lemma ordered_Cons:
  "ordered c (x # ys) \<longleftrightarrow> ordered c ys \<and> (\<forall>y \<in> set ys. c (ekey x) (ekey y) < 0)"
  by (auto simp: ordered_def)

lemma ordered_distinct: "key_order c \<Longrightarrow> ordered c es \<Longrightarrow> distinct (map ekey es)"
proof (induction es)
  case (Cons e es)
  have "c (ekey e) (ekey e) = 0" using key_orderD(1) [OF Cons.prems(1)] by blast
  then have "ekey e \<noteq> ekey x" if "x \<in> set es" for x using Cons.prems(2) that by (auto simp: ordered_Cons)
  then show ?case using Cons by (auto simp: ordered_Cons)
qed simp

text \<open>A key lies at a position: above what is before it and below what is behind it.\<close>

definition lies :: "(u1 list \<Rightarrow> u1 list \<Rightarrow> int) \<Rightarrow> u1 list \<Rightarrow> entry list \<Rightarrow> entry list \<Rightarrow> bool" where
  "lies c k xs ys \<longleftrightarrow> (\<forall>x \<in> set xs. 0 < c k (ekey x)) \<and> (\<forall>y \<in> set ys. c k (ekey y) < 0)"

lemma ordered_insert:
  assumes o: "key_order c" and s: "ordered c (xs @ ys)" and l: "lies c k xs ys"
  shows "ordered c (xs @ (a, k, v) # ys)"
proof -
  have "c (ekey x) k < 0" if "x \<in> set xs" for x using l that key_orderD(2) [OF o, of "ekey x" k] by (auto simp: lies_def)
  then show ?thesis using s l by (auto simp: ordered_append ordered_Cons lies_def)
qed

lemma lies_absent: "key_order c \<Longrightarrow> lies c k xs ys \<Longrightarrow> k \<notin> ekey ` set (xs @ ys)"
  using key_orderD(1) [of c k k] by (auto simp: lies_def)

section \<open>The search\<close>

fun pos :: "(u1 list \<Rightarrow> u1 list \<Rightarrow> int) \<Rightarrow> u1 list \<Rightarrow> entry frame list \<Rightarrow> entry rtree \<Rightarrow> entry frame list \<times> entry rtree" where
  "pos cmp k fs Lf = (fs, Lf)"
| "pos cmp k fs (Nd c l e r) =
     (if cmp k (ekey e) = 0 then (fs, Nd c l e r)
      else if cmp k (ekey e) < 0 then pos cmp k (FL c e r # fs) l
      else pos cmp k (FR c l e # fs) r)"

lemma pos_plug: "pos cmp k fs t = (fs', t') \<Longrightarrow> plug fs' t' = plug fs t"
  by (induction cmp k fs t rule: pos.induct) (auto split: if_splits)

lemma pos_found: "pos cmp k fs t = (fs', Nd c l e r) \<Longrightarrow> cmp k (ekey e) = 0"
  by (induction cmp k fs t rule: pos.induct) (auto split: if_splits)

lemma pos_lies:
  assumes "key_order cmp" "ordered cmp (inorder (plug fs t))" "lies cmp k (before fs) (behind fs)"
    "pos cmp k fs t = (fs', t')"
  shows "lies cmp k (before fs') (behind fs')"
  using assms
proof (induction cmp k fs t rule: pos.induct)
  case (2 cmp k fs c l e r)
  note ord = key_orderD [OF "2.prems"(1)]
  have s: "ordered cmp (before fs @ inorder l @ e # inorder r @ behind fs)" using "2.prems"(2) by (simp add: inorder_plug)
  show ?case
  proof (cases "cmp k (ekey e) = 0")
    case True
    then show ?thesis using "2.prems" by simp
  next
    case ne: False
    show ?thesis
    proof (cases "cmp k (ekey e) < 0")
      case True
      have "cmp k (ekey y) < 0" if "y \<in> set (inorder r)" for y
        using s that ord(3) [OF True, of "ekey y"] by (auto simp: ordered_append ordered_Cons)
      then have "lies cmp k (before (FL c e r # fs)) (behind (FL c e r # fs))"
        using "2.prems"(3) True by (auto simp: lies_def)
      then show ?thesis using "2.IH"(1) [OF ne True] "2.prems" ne True by simp
    next
      case False
      then have gt: "cmp (ekey e) k < 0" using ne ord(2) [of "ekey e" k] by simp
      have "0 < cmp k (ekey y)" if "y \<in> set (inorder l)" for y
      proof -
        have "cmp (ekey y) (ekey e) < 0" using s that by (auto simp: ordered_append ordered_Cons)
        then show ?thesis using ord(2) [of "ekey y" k] ord(3) [OF _ gt, of "ekey y"] by blast
      qed
      then have "lies cmp k (before (FR c l e # fs)) (behind (FR c l e # fs))"
        using "2.prems"(3) False ne by (auto simp: lies_def)
      then show ?thesis using "2.IH"(2) [OF ne False] "2.prems" ne False by simp
    qed
  qed
qed simp

lemma search_loop_pos:
  "rep h fs t \<Longrightarrow> pos cmp k fs t = (fs', t') \<Longrightarrow> rb_search_loop cmp h k (root_of t) (top_of fs) = Some (root_of t', top_of fs')"
proof (induction cmp k fs t rule: pos.induct)
  case (1 cmp k fs)
  then show ?case by (auto simp: rb_search_loop.simps)
next
  case (2 cmp k fs c l e r)
  obtain nd where nd: "h (adr e) = Some nd" "key nd = ekey e" "left nd = root_of l" "right nd = root_of r" "adr e \<noteq> null"
    using "2.prems"(1) by (auto simp: rep_def node_at_def holds_def)
  have "rb_search_loop cmp h k (adr e) (top_of fs) =
     (if cmp k (ekey e) = 0 then Some (adr e, top_of fs)
      else if cmp k (ekey e) < 0 then rb_search_loop cmp h k (root_of l) (adr e)
      else rb_search_loop cmp h k (root_of r) (adr e))"
    using nd by (simp add: rb_search_loop.simps [of _ _ _ "adr e"])
  moreover have "rep h (FL c e r # fs) l" "rep h (FR c l e # fs) r" using "2.prems"(1) by (simp_all add: rep_shift)
  ultimately show ?case using "2.IH" "2.prems"(2) by (auto split: if_splits)
qed

text \<open>The count does not change what the loop does, and it is the length of the way down.\<close>

lemma search_count_loop:
  assumes "rb_search_count cmp h k node pre n = Some y"
  shows "rb_search_loop cmp h k node pre = Some (fst y, fst (snd y))"
proof (rule rb_search_count.raw_induct [where P = "\<lambda>cmp h k node pre n y. rb_search_loop cmp h k node pre = Some (fst y, fst (snd y))",
      OF _ assms], goal_cases)
  case (1 loop cmp h k node pre n y)
  then show ?case by (subst rb_search_loop.simps) (cases y, auto split: if_splits bind_splits)
qed

lemma search_count_pos:
  "rep h fs t \<Longrightarrow> pos cmp k fs t = (fs', t') \<Longrightarrow>
   \<exists>c. rb_search_count cmp h k (root_of t) (top_of fs) n = Some (root_of t', top_of fs', n + c) \<and>
     length fs + c = length fs' + (if t' = Lf then 0 else 1)"
proof (induction cmp k fs t arbitrary: n rule: pos.induct)
  case (1 cmp k fs)
  then show ?case by (auto simp: rb_search_count.simps)
next
  case (2 cmp k fs c l e r)
  obtain nd where nd: "h (adr e) = Some nd" "key nd = ekey e" "left nd = root_of l" "right nd = root_of r" "adr e \<noteq> null"
    using "2.prems"(1) by (auto simp: rep_def node_at_def holds_def)
  have step: "rb_search_count cmp h k (adr e) (top_of fs) n =
     (if cmp k (ekey e) = 0 then Some (adr e, top_of fs, n + 1)
      else if cmp k (ekey e) < 0 then rb_search_count cmp h k (root_of l) (adr e) (n + 1)
      else rb_search_count cmp h k (root_of r) (adr e) (n + 1))"
    using nd by (simp add: rb_search_count.simps [of _ _ _ "adr e"])
  have r: "rep h (FL c e r # fs) l" "rep h (FR c l e # fs) r" using "2.prems"(1) by (simp_all add: rep_shift)
  consider "cmp k (ekey e) = 0" | "cmp k (ekey e) < 0" | "0 < cmp k (ekey e)" by linarith
  then show ?case
  proof cases
    case 1
    then show ?thesis using step "2.prems"(2) by auto
  next
    case 2
    obtain m where "rb_search_count cmp h k (root_of l) (adr e) (n + 1) = Some (root_of t', top_of fs', n + 1 + m)"
        "length (FL c e r # fs) + m = length fs' + (if t' = Lf then 0 else 1)"
      using "2.IH"(1) [OF _ 2 r(1), of "n + 1"] "2.prems"(2) 2 by auto
    then show ?thesis using step 2 by (intro exI [of _ "1 + m"]) auto
  next
    case 3
    obtain m where "rb_search_count cmp h k (root_of r) (adr e) (n + 1) = Some (root_of t', top_of fs', n + 1 + m)"
        "length (FR c l e # fs) + m = length fs' + (if t' = Lf then 0 else 1)"
      using "2.IH"(2) [OF _ _ r(2), of "n + 1"] "2.prems"(2) 3 by auto
    then show ?thesis using step 3 by (intro exI [of _ "1 + m"]) auto
  qed
qed

section \<open>The invariant\<close>

text \<open>A block for a node: aligned, not \<open>nil\<close> and inside the address space.\<close>

definition node_block :: "u4 \<Rightarrow> bool" where
  "node_block a \<longleftrightarrow> a \<noteq> null \<and> aligned a \<and> unat a + 28 \<le> 2 ^ 32"

definition tree_inv :: "rb_root_t \<Rightarrow> rb_heap \<Rightarrow> entry rtree \<Rightarrow> bool" where
  "tree_inv root h t \<longleftrightarrow> focus root h [] t \<and> rbt t \<and> dom h = adrs t \<and> (\<forall>a \<in> adrs t. node_block a) \<and>
     key_order (rcmp root) \<and> ordered (rcmp root) (inorder t) \<and>
     rmin root = first_of (inorder t) \<and> rmax root = last_of (inorder t) \<and> rsize root = of_nat (length (inorder t))"

definition tmap :: "entry list \<Rightarrow> u1 list \<Rightarrow> u1 list option" where
  "tmap es = map_of (map snd es)"

lemma search_position:
  assumes i: "tree_inv root h t" and p: "pos (rcmp root) k [] t = (fs', t')"
  shows "rb_search root h k = Some (root_of t', top_of fs')" "plug fs' t' = t" "focus root h fs' t'"
    "lies (rcmp root) k (before fs') (behind fs')" "t' = Lf \<or> (\<exists>c l e r. t' = Nd c l e r \<and> ekey e = k)"
proof -
  have r: "rep h [] t" "rnode root = root_of t" "key_order (rcmp root)" "ordered (rcmp root) (inorder t)"
    using i by (auto simp: tree_inv_def focus_def)
  show "rb_search root h k = Some (root_of t', top_of fs')"
    using search_loop_pos [OF r(1) p] r(2) by (simp add: rb_search_def)
  show pl: "plug fs' t' = t" using pos_plug [OF p] by simp
  show "focus root h fs' t'" using i pl focus_top [of root h fs' t'] by (simp add: tree_inv_def)
  show "lies (rcmp root) k (before fs') (behind fs')"
    using pos_lies [OF r(3) _ _ p] r(4) by (simp add: lies_def)
  show "t' = Lf \<or> (\<exists>c l e r. t' = Nd c l e r \<and> ekey e = k)"
    using pos_found [of "rcmp root" k "[]" t fs'] p key_orderD(1) [OF r(3)] by (cases t') auto
qed

lemma search_ok:
  assumes i: "tree_inv root h t"
  shows "\<exists>fs' t'. rb_search root h k = Some (root_of t', top_of fs') \<and> plug fs' t' = t \<and> focus root h fs' t' \<and>
     lies (rcmp root) k (before fs') (behind fs') \<and>
     (t' = Lf \<or> (\<exists>c l e r. t' = Nd c l e r \<and> ekey e = k))"
  using search_position [OF i] by (metis surj_pair)

section \<open>Insertion\<close>

lemma focus_dom: "focus root h fs t \<Longrightarrow> adrs t \<union> cadrs fs \<subseteq> dom h"
proof -
  have "adrs t \<subseteq> dom h" if "tree_ok h p t" for p t
    using that
  proof (induction t arbitrary: p)
    case (Nd c l e r)
    have "adrs l \<subseteq> dom h" using Nd.prems Nd.IH(1) [of "adr e"] by simp
    moreover have "adrs r \<subseteq> dom h" using Nd.prems Nd.IH(2) [of "adr e"] by simp
    moreover have "adr e \<in> dom h" using Nd.prems by (auto simp: node_at_def)
    ultimately show ?case by simp
  qed simp
  then show "focus root h fs t \<Longrightarrow> adrs t \<union> cadrs fs \<subseteq> dom h"
    unfolding focus_def rep_plug adrs_plug [symmetric] by blast
qed

definition fresh_node :: "u1 list \<Rightarrow> u1 list \<Rightarrow> rb_node_t" where
  "fresh_node k v = \<lparr>parent = 0, left = null, right = null, key = k, value = v\<rparr>"

lemma fresh_holds: "holds (fresh_node k v) RED null null null (k, v)"
  by (simp add: holds_def fresh_node_def node_ok_def rb_color_def rb_parent_def)

lemma link_ok:
  assumes f: "focus root h fs Lf" and a: "h a = None" "a \<noteq> null" "aligned a"
    and l: "lies (rcmp root) k (before fs) (behind fs)"
  shows "\<exists>p h'. (if top_of fs \<noteq> null then do {
             pn \<leftarrow> (h(a \<mapsto> fresh_node k v)) (top_of fs);
             h \<leftarrow> (if rcmp root k (key pn) < 0 then set_left (h(a \<mapsto> fresh_node k v)) (top_of fs) a
                   else set_right (h(a \<mapsto> fresh_node k v)) (top_of fs) a);
             h \<leftarrow> rb_set_parent h a (top_of fs);
             Some (root, h) }
           else Some (root\<lparr>rnode := a\<rparr>, h(a \<mapsto> fresh_node k v))) = Some (root\<lparr>rnode := p\<rparr>, h') \<and>
     focus (root\<lparr>rnode := p\<rparr>) h' fs (Nd RED Lf (a, k, v) Lf) \<and> dom h' = insert a (dom h)"
proof -
  have na: "a \<notin> cadrs fs" using focus_dom [OF f] a(1) by auto
  have tn: "top_of fs = null \<longleftrightarrow> fs = []" using focus_top_null [OF f] .
  have rp: "rep h fs Lf" "rnode root = root_of (plug fs Lf)" using f by (simp_all add: focus_def)
  let ?n = "fresh_node k v"
  let ?nd = "node_set_parent (top_of fs) ?n"
  have al: "aligned (top_of fs)" using rp(1) top_aligned by (auto simp: rep_def)
  have hd: "holds ?nd RED (top_of fs) null null (k, v)" by (rule holds_set_parent [OF fresh_holds al])
  show ?thesis
  proof (cases fs)
    case Nil
    have "focus (root\<lparr>rnode := a\<rparr>) (h(a \<mapsto> ?n)) fs (Nd RED Lf (a, k, v) Lf)"
      using Nil a(2,3) fresh_holds by (simp add: focus_def rep_def)
    then show ?thesis using Nil by (intro exI [of _ a] exI [of _ "h(a \<mapsto> ?n)"]) simp
  next
    case (Cons g gs)
    have pr: "root_of (plug fs Lf) = root_of (plug fs (Nd RED Lf (a, k, v) Lf))" using Cons by (intro root_of_plug) simp
    show ?thesis
    proof (cases g)
      case (FL c e r)
      obtain pn where pn: "h (adr e) = Some pn" "holds pn c (top_of gs) null (root_of r) (snd e)"
        using rp(1) Cons FL by (auto simp: rep_def node_at_def)
      let ?h = "h(adr e \<mapsto> pn\<lparr>left := a\<rparr>, a \<mapsto> ?nd)"
      have ne: "adr e \<noteq> a" "adr e \<noteq> null" using na tn Cons FL by auto
      have lt: "rcmp root k (key pn) < 0" using l Cons FL pn(2) by (auto simp: lies_def holds_def)
      have "holds (pn\<lparr>left := a\<rparr>) c (top_of gs) a (root_of r) (snd e)" using pn(2) by (simp add: holds_def)
      then have "rep ?h fs (Nd RED Lf (a, k, v) Lf)" using rp(1) hd na ne a Cons FL by (auto simp: rep_def node_at_def)
      moreover have "dom ?h = insert a (dom h)" using pn(1) by auto
      moreover have "root\<lparr>rnode := rnode root\<rparr> = root" by simp
      ultimately show ?thesis using pn(1) lt ne pr rp(2) Cons FL
        by (intro exI [of _ "rnode root"] exI [of _ ?h]) (simp add: store_simps focus_def fun_upd_twist [of "adr e" a])
    next
      case (FR c lt e)
      obtain pn where pn: "h (adr e) = Some pn" "holds pn c (top_of gs) (root_of lt) null (snd e)"
        using rp(1) Cons FR by (auto simp: rep_def node_at_def)
      let ?h = "h(adr e \<mapsto> pn\<lparr>right := a\<rparr>, a \<mapsto> ?nd)"
      have ne: "adr e \<noteq> a" "adr e \<noteq> null" using na tn Cons FR by auto
      have gt: "\<not> rcmp root k (key pn) < 0" using l Cons FR pn(2) by (auto simp: lies_def holds_def)
      have "holds (pn\<lparr>right := a\<rparr>) c (top_of gs) (root_of lt) a (snd e)" using pn(2) by (simp add: holds_def)
      then have "rep ?h fs (Nd RED Lf (a, k, v) Lf)" using rp(1) hd na ne a Cons FR by (auto simp: rep_def node_at_def)
      moreover have "dom ?h = insert a (dom h)" using pn(1) by auto
      moreover have "root\<lparr>rnode := rnode root\<rparr> = root" by simp
      ultimately show ?thesis using pn(1) gt ne pr rp(2) Cons FR
        by (intro exI [of _ "rnode root"] exI [of _ ?h]) (simp add: store_simps focus_def fun_upd_twist [of "adr e" a])
    qed
  qed
qed

text \<open>The end pointers after an insertion.\<close>

lemma focus_entry:
  assumes "focus root h fs t" "e \<in> set (inorder t)"
  shows "\<exists>nd. h (adr e) = Some nd \<and> key nd = ekey e \<and> value nd = snd (snd e) \<and> adr e \<noteq> null"
proof -
  have "\<exists>nd. h (adr e) = Some nd \<and> key nd = ekey e \<and> value nd = snd (snd e) \<and> adr e \<noteq> null"
    if "tree_ok h p t" "e \<in> set (inorder t)" for p t
    using that by (induction t arbitrary: p) (auto simp: node_at_def holds_def)
  then show ?thesis using assms by (auto simp: focus_def rep_def)
qed

lemma insert_ends_ok:
  assumes f: "focus root h [] t" and t: "inorder t = xs @ (a, k, v) # ys"
    and l: "lies (rcmp root) k xs ys"
    and e: "rmin root = first_of (xs @ ys)" "rmax root = last_of (xs @ ys)"
  shows "rb_insert_ends root h k a = Some (root\<lparr>rmin := first_of (inorder t), rmax := last_of (inorder t)\<rparr>)"
proof -
  have nd: "\<exists>nd. h (adr x) = Some nd \<and> key nd = ekey x \<and> adr x \<noteq> null" if "x \<in> set (xs @ ys)" for x
    using focus_entry [OF f, of x] that t by auto
  have mn: "(if rmin root = null then Some (root\<lparr>rmin := a\<rparr>)
             else do {
               mn \<leftarrow> h (rmin root);
               Some (if rcmp root k (key mn) < 0 then root\<lparr>rmin := a\<rparr> else root) }) = Some (root\<lparr>rmin := first_of (inorder t)\<rparr>)"
  proof (cases xs)
    case Nil
    then show ?thesis using t e l nd [of "hd ys"] by (cases ys) (auto simp: first_of_def lies_def)
  next
    case (Cons x xs')
    have "root\<lparr>rmin := adr x\<rparr> = root" using e(1) Cons by (simp add: first_of_def)
    then show ?thesis using Cons t e(1) l nd [of x] by (auto simp: first_of_def lies_def)
  qed
  let ?r = "root\<lparr>rmin := first_of (inorder t)\<rparr>"
  have "(if rmax ?r = null then Some (?r\<lparr>rmax := a\<rparr>)
      else do {
        mx \<leftarrow> h (rmax ?r);
        Some (if 0 < rcmp ?r k (key mx) then ?r\<lparr>rmax := a\<rparr> else ?r) }) = Some (?r\<lparr>rmax := last_of (inorder t)\<rparr>)"
  proof (cases ys rule: rev_cases)
    case Nil
    show ?thesis
    proof (cases xs rule: rev_cases)
      case Nil
      then show ?thesis using \<open>ys = []\<close> t e(2) by (simp add: last_of_def first_of_def)
    next
      case (snoc zs z)
      then show ?thesis using \<open>ys = []\<close> t e(2) l nd [of z] by (auto simp: last_of_def first_of_def lies_def)
    qed
  next
    case (snoc zs z)
    have "?r\<lparr>rmax := adr z\<rparr> = ?r" using e(2) snoc by (simp add: last_of_def first_of_def)
    then show ?thesis using snoc t e(2) l nd [of z] by (auto simp: last_of_def first_of_def lies_def)
  qed
  then show ?thesis unfolding rb_insert_ends_def mn by simp
qed

lemma tree_aligned:
  assumes "focus root h fs t" "a \<in> adrs t"
  shows "aligned a \<and> a \<noteq> null"
proof -
  have "aligned a \<and> a \<noteq> null" if "tree_ok h p t" "a \<in> adrs t" for p t
    using that by (induction t arbitrary: p) (auto simp: node_at_def)
  then show ?thesis using assms unfolding focus_def rep_def by blast
qed

lemma tree_count:
  assumes "focus root h [] t"
  shows "length (inorder t) < 2 ^ 64 - 1"
proof -
  have "distinct (map adr (inorder t))" using assms by (simp add: focus_def rep_def dst_inorder)
  then have c: "card (adrs t) = length (inorder t)"
    using distinct_card [of "map adr (inorder t)"] by (simp add: adrs_inorder)
  have "\<not> aligned 1" unfolding aligned_bits by simp
  then have n: "null \<notin> adrs t" "1 \<notin> adrs t" using tree_aligned [OF assms] by auto
  have fin: "finite (adrs t)" by (simp add: adrs_inorder)
  have "(1 :: u4) \<notin> insert null (adrs t)" using n(2) by simp
  then have "insert null (adrs t) \<subset> UNIV" by blast
  then have "card (insert null (adrs t)) < card (UNIV :: u4 set)" by (intro psubset_card_mono) simp_all
  then have "length (inorder t) < 2 ^ 32 - 1" using c n(1) fin by (simp add: card_word)
  then show ?thesis by simp
qed

text \<open>The nodes are aligned, so their number never reaches the end of the counter.\<close>

lemma size_room:
  assumes i: "tree_inv root h t"
  shows "\<not> rsize root + 1 < rsize root"
proof -
  have "length (inorder t) < 2 ^ 64 - 1" using i tree_count by (auto simp: tree_inv_def)
  moreover have "rsize root = of_nat (length (inorder t))" using i by (simp add: tree_inv_def)
  ultimately show ?thesis by (simp add: word_less_nat_alt unat_word_ariths unat_of_nat take_bit_eq_mod)
qed

lemma insert_new:
  assumes i: "tree_inv root h t" and k: "k \<notin> ekey ` set (inorder t)"
    and a0: "h a = None" "node_block a" and m: "mal (length k)" "mal (length v)"
  shows "\<exists>root' h' t' xs ys. rb_insert (Some root) h (Some a) mal (Some k) (Some v) = Some (True, Some root', h') \<and>
     tree_inv root' h' t' \<and> rcmp root' = rcmp root \<and> inorder t = xs @ ys \<and> inorder t' = xs @ (a, k, v) # ys"
proof -
  have a: "h a = None" "a \<noteq> null" "aligned a" using a0 by (auto simp: node_block_def)
  obtain fs u where s: "rb_search root h k = Some (root_of u, top_of fs)" "plug fs u = t" "focus root h fs u"
      "lies (rcmp root) k (before fs) (behind fs)" "u = Lf \<or> (\<exists>c l e r. u = Nd c l e r \<and> ekey e = k)"
    using search_ok [OF i] by blast
  have u: "u = Lf" using s(2,5) k by (auto simp: inorder_plug)
  have es: "inorder t = before fs @ behind fs" using s(2) u by (auto simp: inorder_plug)
  obtain n where n: "rbwf (Lf :: entry rtree) n" "cwf fs n" using i s(2) u by (auto simp: tree_inv_def rbt_plug)
  define nw where "nw = Nd RED Lf (a, k, v) Lf"
  obtain p h1 where l: "(if top_of fs \<noteq> null then do {
             pn \<leftarrow> (h(a \<mapsto> fresh_node k v)) (top_of fs);
             h \<leftarrow> (if rcmp root k (key pn) < 0 then set_left (h(a \<mapsto> fresh_node k v)) (top_of fs) a
                   else set_right (h(a \<mapsto> fresh_node k v)) (top_of fs) a);
             h \<leftarrow> rb_set_parent h a (top_of fs);
             Some (root, h) }
           else Some (root\<lparr>rnode := a\<rparr>, h(a \<mapsto> fresh_node k v))) = Some (root\<lparr>rnode := p\<rparr>, h1)"
      "focus (root\<lparr>rnode := p\<rparr>) h1 fs nw" "dom h1 = insert a (dom h)"
    using link_ok [OF s(3) [unfolded u] a s(4)] unfolding nw_def by blast
  let ?r = "root\<lparr>rnode := p, rsize := rsize root + 1\<rparr>"
  have f1: "focus ?r h1 fs nw" using l(2) by (simp add: focus_def)
  have w: "rbwf nw n" "col nw = RED" "root_of nw = a" using n(1) by (simp_all add: nw_def)
  obtain q h2 where r: "rb_insert_rebalance ?r h1 a = Some (?r\<lparr>rnode := q\<rparr>, h2)"
      "focus (?r\<lparr>rnode := q\<rparr>) h2 [] (ins_fix fs nw)" "dom h2 = dom h1"
    using insert_rebalance_ok [OF f1 w(1,2) n(2)] w(3) by auto
  let ?q = "?r\<lparr>rnode := q\<rparr>"
  have io: "inorder (ins_fix fs nw) = before fs @ (a, k, v) # behind fs"
    using inorder_ins_fix [of nw fs] by (simp add: nw_def inorder_plug)
  have "rb_insert_ends ?q h2 k a = Some (?q\<lparr>rmin := first_of (inorder (ins_fix fs nw)), rmax := last_of (inorder (ins_fix fs nw))\<rparr>)"
    by (rule insert_ends_ok [OF r(2) io]) (use s(4) i es in \<open>auto simp: tree_inv_def\<close>)
  note ends = this
  let ?e = "?q\<lparr>rmin := first_of (inorder (ins_fix fs nw)), rmax := last_of (inorder (ins_fix fs nw))\<rparr>"
  have run: "rb_insert (Some root) h (Some a) mal (Some k) (Some v) = Some (True, Some ?e, h2)"
    using size_room [OF i] s(1) u a(2) m l(1) r(1) ends
    by (simp add: rb_insert_def rb_create_node_def fresh_node_def [symmetric] Let_def)
  have "focus ?e h2 [] (ins_fix fs nw)" using r(2) by (simp add: focus_def)
  moreover have "rbt (ins_fix fs nw)" by (rule rbt_ins_fix [OF w(1,2) n(2)])
  moreover have "dom h2 = adrs (ins_fix fs nw)"
    using r(3) l(3) i es by (auto simp: tree_inv_def adrs_inorder io)
  moreover have "\<forall>b \<in> adrs (ins_fix fs nw). node_block b"
    using i es a0(2) by (auto simp: tree_inv_def adrs_inorder io)
  moreover have "ordered (rcmp root) (inorder (ins_fix fs nw))"
    unfolding io by (rule ordered_insert) (use i es s(4) in \<open>auto simp: tree_inv_def\<close>)
  moreover have "rsize root + 1 = of_nat (length (inorder (ins_fix fs nw)))"
    using i es by (simp add: tree_inv_def io)
  ultimately have "tree_inv ?e h2 (ins_fix fs nw)" using i by (simp add: tree_inv_def)
  then show ?thesis using run io es by (intro exI conjI) (assumption | simp)+
qed

lemma insert_present:
  assumes i: "tree_inv root h t" and k: "k \<in> ekey ` set (inorder t)"
  shows "rb_insert (Some root) h ans mal (Some k) (Some v) = Some (True, Some root, h)"
proof -
  obtain fs u where s: "rb_search root h k = Some (root_of u, top_of fs)" "plug fs u = t" "focus root h fs u"
      "lies (rcmp root) k (before fs) (behind fs)" "u = Lf \<or> (\<exists>c l e r. u = Nd c l e r \<and> ekey e = k)"
    using search_ok [OF i] by blast
  have "u \<noteq> Lf"
    using lies_absent [OF _ s(4)] i k s(2) by (auto simp: tree_inv_def inorder_plug)
  then have "root_of u \<noteq> null" using focus_root_null [OF s(3)] by simp
  then show ?thesis using s(1) size_room [OF i] by (simp add: rb_insert_def)
qed

lemma insert_no_room:
  assumes i: "tree_inv root h t" and k: "k \<notin> ekey ` set (inorder t)"
    and m: "ans = None \<or> \<not> mal (length k) \<or> \<not> mal (length v)"
  shows "rb_insert (Some root) h ans mal (Some k) (Some v) = Some (False, Some root, h)"
proof -
  obtain fs u where s: "rb_search root h k = Some (root_of u, top_of fs)" "plug fs u = t"
      "u = Lf \<or> (\<exists>c l e r. u = Nd c l e r \<and> ekey e = k)"
    using search_ok [OF i] by blast
  have "u = Lf" using s(2,3) k by (auto simp: inorder_plug)
  then show ?thesis using s(1) m size_room [OF i] by (auto simp: rb_insert_def rb_create_node_def split: option.splits)
qed

section \<open>Removal\<close>

lemma block_ptr: "node_block a \<Longrightarrow> value_ptr a \<noteq> null" "node_of_value (value_ptr a) = a"
proof -
  assume b: "node_block a"
  have "unat (a + 20) = unat a + 20"
    using b by (simp add: node_block_def unat_word_ariths)
  then show "value_ptr a \<noteq> null" by (metis value_ptr_def add_is_0 unat_0 numeral_neq_zero of_nat_numeral of_nat_eq_0_iff)
next
  show "node_of_value (value_ptr a) = a" by (simp add: node_of_value_def value_ptr_def)
qed

text \<open>Both ways of unlinking: the position of the gap and what is left in order.\<close>

lemma unlink_ok:
  assumes f: "focus root h fs (Nd c l e r)" and n: "h (adr e) = Some nd" and b: "rbt (plug fs (Nd c l e r))"
  shows "\<exists>p h' gs u k. (if left nd \<noteq> null \<and> right nd \<noteq> null then rb_unlink_two root h (adr e) nd
        else rb_unlink_one root h (adr e) nd) = Some (root\<lparr>rnode := p\<rparr>, h', top_of gs, root_of u, k = BLACK) \<and>
     focus (root\<lparr>rnode := p\<rparr>) h' gs u \<and> gap (k = BLACK) gs u \<and> dom h' = dom h \<and>
     inorder (plug gs u) = before fs @ inorder l @ inorder r @ behind fs"
proof -
  have hn: "left nd = root_of l" "right nd = root_of r" using focus_node [OF f] n by (auto simp: holds_def)
  have z: "root_of l = null \<longleftrightarrow> l = Lf" "root_of r = null \<longleftrightarrow> r = Lf"
    using f focus_root_null [of root h "FL c e r # fs" l] focus_root_null [of root h "FR c l e # fs" r] by (simp_all add: focus_up)
  show ?thesis
  proof (cases "l \<noteq> Lf \<and> r \<noteq> Lf")
    case True
    obtain p h' gs k s m where u: "r = plug gs (Nd k Lf s m)" "before gs = []"
        "rb_unlink_two root h (adr e) nd = Some (root\<lparr>rnode := p\<rparr>, h', top_of (gs @ FR c l s # fs), root_of m, k = BLACK)"
        "focus (root\<lparr>rnode := p\<rparr>) h' (gs @ FR c l s # fs) m" "dom h' = dom h"
      using unlink_two_ok [OF f _ _ n] True by blast
    have "rbt (plug (gs @ FR c l e # fs) (Nd k Lf s m))" using b u(1) by (simp add: plug_append)
    then have "gap (k = BLACK) (gs @ FR c l e # fs) m" by (rule gap_one) simp_all
    then have "gap (k = BLACK) (gs @ FR c l s # fs) m" by (rule gap_elem)
    moreover have "inorder (plug (gs @ FR c l s # fs) m) = before fs @ inorder l @ inorder r @ behind fs"
      using u(2) unfolding u(1) plug_append by (simp add: inorder_plug)
    ultimately show ?thesis using u(3-5) True hn z
      by (intro exI [of _ p] exI [of _ h'] exI [of _ "gs @ FR c l s # fs"] exI [of _ m] exI [of _ k]) simp
  next
    case False
    let ?u = "if l \<noteq> Lf then l else r"
    obtain p h' where u: "rb_unlink_one root h (adr e) nd = Some (root\<lparr>rnode := p\<rparr>, h', top_of fs, root_of ?u, c = BLACK)"
        "focus (root\<lparr>rnode := p\<rparr>) h' fs ?u" "dom h' = dom h"
      using unlink_one_ok [OF f _ refl n] False by blast
    have "gap (c = BLACK) fs ?u" using gap_one [OF b _ refl] False by blast
    moreover have "inorder (plug fs ?u) = before fs @ inorder l @ inorder r @ behind fs"
      using False by (auto simp: inorder_plug)
    ultimately show ?thesis using u False hn z
      by (intro exI [of _ p] exI [of _ h'] exI [of _ fs] exI [of _ ?u] exI [of _ c]) auto
  qed
qed

text \<open>The rebalancing closes the gap.\<close>

lemma close_gap:
  assumes f: "focus root h gs u" and g: "gap b gs u"
  shows "\<exists>p h' t. (if b then rb_erase_rebalance root h (top_of gs) (root_of u) else Some (root, h)) = Some (root\<lparr>rnode := p\<rparr>, h') \<and>
     focus (root\<lparr>rnode := p\<rparr>) h' [] t \<and> rbt t \<and> inorder t = inorder (plug gs u) \<and> dom h' = dom h"
proof (cases b)
  case True
  then obtain n where n: "rbwf u n" "cwf gs (Suc n)" using g by (auto simp: gap_def)
  show ?thesis using erase_rebalance_ok [OF f n] del_fix_ok [OF n] True by (auto simp: del_ok_def)
next
  case False
  then have "rbt (plug gs u)" "focus root h [] (plug gs u)" using g f by (auto simp: gap_def focus_top [of _ _ gs])
  moreover have "root\<lparr>rnode := rnode root\<rparr> = root" by simp
  ultimately show ?thesis using False
    by (intro exI [of _ "rnode root"] exI [of _ h] exI [of _ "plug gs u"]) simp
qed

lemma first_of_drop: "first_of (xs @ e # ys) \<noteq> adr e \<Longrightarrow> first_of (xs @ ys) = first_of (xs @ e # ys)"
  by (cases xs) (auto simp: first_of_def)

lemma last_of_drop: "last_of (xs @ e # ys) \<noteq> adr e \<Longrightarrow> last_of (xs @ ys) = last_of (xs @ e # ys)"
  by (cases ys rule: rev_cases) (auto simp: last_of_def first_of_def)

lemma erase_ends_ok:
  assumes f: "focus root h [] t" and t: "inorder t = xs @ ys"
    and e: "rmin root = first_of (xs @ e # ys)" "rmax root = last_of (xs @ e # ys)"
  shows "do { root \<leftarrow> (if first_of (xs @ e # ys) = adr e then map_option snd (rb_update_min root h) else Some root);
             if last_of (xs @ e # ys) = adr e then map_option snd (rb_update_max root h) else Some root }
         = Some (root\<lparr>rmin := first_of (inorder t), rmax := last_of (inorder t)\<rparr>)"
proof -
  have mn: "(if first_of (xs @ e # ys) = adr e then map_option snd (rb_update_min root h) else Some root) =
      Some (root\<lparr>rmin := first_of (inorder t)\<rparr>)"
    using update_ends_ok(1) [OF f] first_of_drop [of xs e ys] e(1) t by (cases root) auto
  let ?r = "root\<lparr>rmin := first_of (inorder t)\<rparr>"
  have "focus ?r h [] t" using f by (simp add: focus_def)
  from update_ends_ok(2) [OF this]
  have "(if last_of (xs @ e # ys) = adr e then map_option snd (rb_update_max ?r h) else Some ?r) =
      Some (?r\<lparr>rmax := last_of (inorder t)\<rparr>)"
    using last_of_drop [of xs e ys] e(2) t by (cases root) auto
  then show ?thesis unfolding mn by simp
qed

lemma distinct_drop: "distinct (map f (xs @ e # ys)) \<Longrightarrow> f ` set (xs @ e # ys) - {f e} = f ` set (xs @ ys)"
proof -
  assume "distinct (map f (xs @ e # ys))"
  then have "f e \<notin> f ` set xs" "f e \<notin> f ` set ys" by simp_all
  then have "f ` set xs - {f e} = f ` set xs" "f ` set ys - {f e} = f ` set ys" by blast+
  then show ?thesis by (simp add: image_Un Un_Diff)
qed

lemma tree_inv_drop:
  assumes i: "tree_inv root h t" and t: "inorder t = xs @ e # ys" "inorder t' = xs @ ys"
    and f: "focus root' h' [] t'" "rbt t'" "dom h' = dom h - {adr e}" "rcmp root' = rcmp root" "rsize root' = rsize root - 1"
      "rmin root' = first_of (inorder t')" "rmax root' = last_of (inorder t')"
  shows "tree_inv root' h' t'"
proof -
  have "distinct (map adr (xs @ e # ys))"
    using i unfolding tree_inv_def focus_def rep_def dst_inorder t by blast
  moreover have "dom h = adr ` set (xs @ e # ys)" using i t by (simp add: tree_inv_def adrs_inorder)
  ultimately have "dom h' = adrs t'" using f(3) distinct_drop [of adr xs e ys] by (simp only: adrs_inorder t)
  moreover have "\<forall>a \<in> adrs t'. node_block a" using i t by (auto simp: tree_inv_def adrs_inorder)
  moreover have "ordered (rcmp root) (inorder t')"
    using i t by (auto simp: tree_inv_def ordered_append ordered_Cons)
  moreover have "rsize root - 1 = of_nat (length (inorder t'))" using i t by (simp add: tree_inv_def)
  ultimately show ?thesis using f i by (simp add: tree_inv_def)
qed

lemma erase_guards:
  assumes i: "tree_inv root h t" and t: "inorder t = xs @ e # ys"
  shows "rnode root \<noteq> null" "rsize root \<noteq> 0" "node_block (adr e)"
proof -
  have ln: "rsize root = of_nat (length (inorder t))" "length (inorder t) < 2 ^ 64 - 1"
    using i tree_count by (auto simp: tree_inv_def)
  have "length (inorder t) < 2 ^ 64" using ln(2) by linarith
  then have "unat (rsize root) = length (inorder t)" using ln(1) by (simp add: unat_of_nat take_bit_eq_mod)
  then show "rsize root \<noteq> 0" using t by auto
  show "node_block (adr e)" using i t by (auto simp: tree_inv_def adrs_inorder)
  show "rnode root \<noteq> null" using i t focus_root_null [of root h "[]" t] by (auto simp: tree_inv_def focus_def)
qed

lemma erase_ex_ok:
  assumes i: "tree_inv root h t" and t: "t = plug fs (Nd c l e r)"
  shows "\<exists>root' h' t'. rb_erase_ex (Some root) h (value_ptr (adr e)) = Some (True, Some root', h') \<and>
     tree_inv root' h' t' \<and> rcmp root' = rcmp root \<and> inorder t' = before fs @ inorder l @ inorder r @ behind fs"
proof -
  let ?xs = "before fs @ inorder l" and ?ys = "inorder r @ behind fs"
  have es: "inorder t = ?xs @ e # ?ys" using t by (simp add: inorder_plug)
  have f: "focus root h fs (Nd c l e r)" using i t by (simp add: tree_inv_def focus_top [of _ _ fs])
  obtain nd where nd: "h (adr e) = Some nd" using focus_node [OF f] by blast
  obtain p h1 gs u k where u: "(if left nd \<noteq> null \<and> right nd \<noteq> null then rb_unlink_two root h (adr e) nd
        else rb_unlink_one root h (adr e) nd) = Some (root\<lparr>rnode := p\<rparr>, h1, top_of gs, root_of u, k = BLACK)"
     "focus (root\<lparr>rnode := p\<rparr>) h1 gs u" "gap (k = BLACK) gs u" "dom h1 = dom h" "inorder (plug gs u) = ?xs @ ?ys"
    using unlink_ok [OF f nd] i t by (auto simp: tree_inv_def)
  have ds: "distinct (map adr (?xs @ e # ?ys))"
    using i unfolding tree_inv_def focus_def rep_def dst_inorder es by blast
  then have "adr e \<notin> adrs (plug gs u)" unfolding adrs_inorder u(5) by auto
  then have "focus (root\<lparr>rnode := p\<rparr>) (h1(adr e := None)) gs u" using u(2) by (intro focus_free) (auto simp: adrs_plug)
  then have f2: "focus (root\<lparr>rnode := p, rsize := rsize root - 1\<rparr>) (h1(adr e := None)) gs u" by (simp add: focus_def)
  let ?r2 = "root\<lparr>rnode := p, rsize := rsize root - 1\<rparr>"
  obtain q h3 t' where g: "(if k = BLACK then rb_erase_rebalance ?r2 (h1(adr e := None)) (top_of gs) (root_of u)
        else Some (?r2, h1(adr e := None))) = Some (?r2\<lparr>rnode := q\<rparr>, h3)"
     "focus (?r2\<lparr>rnode := q\<rparr>) h3 [] t'" "rbt t'" "inorder t' = inorder (plug gs u)" "dom h3 = dom (h1(adr e := None))"
    using close_gap [OF f2 u(3)] by blast
  have t': "inorder t' = ?xs @ ?ys" using g(4) u(5) by simp
  let ?r3 = "?r2\<lparr>rnode := q\<rparr>"
  let ?r4 = "?r3\<lparr>rmin := first_of (inorder t'), rmax := last_of (inorder t')\<rparr>"
  have mm: "rmin root = first_of (?xs @ e # ?ys)" "rmax root = last_of (?xs @ e # ?ys)"
    using i es by (simp_all add: tree_inv_def)
  have ends: "do { root \<leftarrow> (if first_of (?xs @ e # ?ys) = adr e then map_option snd (rb_update_min ?r3 h3) else Some ?r3);
             if last_of (?xs @ e # ?ys) = adr e then map_option snd (rb_update_max root h3) else Some root } = Some ?r4"
    by (rule erase_ends_ok [OF g(2) t']) (use mm in simp_all)
  note gd = erase_guards [OF i es]
  have e1: "h1 (adr e) \<noteq> None" using u(4) nd by (auto simp: dom_def set_eq_iff)
  then have fr: "rb_free_node h1 (adr e) = Some (h1(adr e := None))" using gd(3) by (auto simp: rb_free_node_def node_block_def)
  have run: "rb_erase_ex (Some root) h (value_ptr (adr e)) = Some (True, Some ?r4, h3)"
    using gd(1,2) block_ptr(1) [OF gd(3)] nd u(1) fr g(1) ends mm
    by (auto simp: rb_erase_ex_def block_ptr(2) Let_def bind_eq_Some_conv)
  have "tree_inv ?r4 h3 t'"
  proof (rule tree_inv_drop [OF i es t' _ g(3)])
    show "focus ?r4 h3 [] t'" using g(2) by (simp add: focus_def)
    show "dom h3 = dom h - {adr e}" using g(5) u(4) by auto
  qed simp_all
  then show ?thesis using run t' by auto
qed

lemma tmap_absent: "k \<notin> ekey ` set es \<longleftrightarrow> tmap es k = None"
proof -
  have "fst ` set (map snd es) = ekey ` set es" by force
  then show ?thesis by (simp add: tmap_def map_of_eq_None_iff)
qed

lemma tmap_split:
  assumes "distinct (map ekey (xs @ e # ys))"
  shows "tmap (xs @ e # ys) = (tmap (xs @ ys))(ekey e \<mapsto> snd (snd e))"
    "(tmap (xs @ e # ys))(ekey e := None) = tmap (xs @ ys)" "tmap (xs @ ys) (ekey e) = None"
proof -
  have n: "tmap xs (ekey e) = None" "tmap ys (ekey e) = None" using assms by (auto simp: tmap_absent [symmetric])
  have a: "tmap (us @ vs) = tmap us ++ tmap vs" if "fst ` set (map snd us) \<inter> fst ` set (map snd vs) = {}" for us vs :: "entry list"
  proof -
    have "dom (map_of (map snd us)) \<inter> dom (map_of (map snd vs)) = {}" using that by (simp add: dom_map_of_conv_image_fst)
    from map_add_comm [OF this] show ?thesis unfolding tmap_def map_append map_of_append by simp
  qed
  have d: "fst ` set (map snd xs) \<inter> fst ` set (map snd (e # ys)) = {}" "fst ` set (map snd xs) \<inter> fst ` set (map snd ys) = {}"
  proof -
    have "ekey ` set xs \<inter> ekey ` set (e # ys) = {}" using assms by simp
    then show "fst ` set (map snd xs) \<inter> fst ` set (map snd (e # ys)) = {}" "fst ` set (map snd xs) \<inter> fst ` set (map snd ys) = {}"
      by (simp_all add: image_image)
  qed
  have c: "tmap (e # ys) = (tmap ys)(ekey e \<mapsto> snd (snd e))" by (cases e) (simp add: tmap_def)
  show s: "tmap (xs @ e # ys) = (tmap (xs @ ys))(ekey e \<mapsto> snd (snd e))"
    unfolding a [OF d(1)] a [OF d(2)] c by (rule ext) (simp add: map_add_def)
  show z: "tmap (xs @ ys) (ekey e) = None" using n unfolding a [OF d(2)] by (simp add: map_add_None)
  show "(tmap (xs @ e # ys))(ekey e := None) = tmap (xs @ ys)" unfolding s using z by (auto simp: fun_eq_iff)
qed

lemma tree_keys: "tree_inv root h t \<Longrightarrow> distinct (map ekey (inorder t))"
  by (auto simp: tree_inv_def intro: ordered_distinct)

lemma rb_erase_ok:
  assumes i: "tree_inv root h t"
  shows "\<exists>root' h' t'. rb_erase (Some root) h (Some k) = Some (inorder t \<noteq> [], Some root', h') \<and>
     tree_inv root' h' t' \<and> rcmp root' = rcmp root \<and> tmap (inorder t') = (tmap (inorder t))(k := None) \<and>
     (if tmap (inorder t) k = None then root' = root \<and> h' = h \<and> t' = t
      else \<exists>xs e ys. inorder t = xs @ e # ys \<and> ekey e = k \<and> inorder t' = xs @ ys)"
proof -
  obtain fs u where s: "rb_search root h k = Some (root_of u, top_of fs)" "plug fs u = t" "focus root h fs u"
      "lies (rcmp root) k (before fs) (behind fs)" "u = Lf \<or> (\<exists>c l e r. u = Nd c l e r \<and> ekey e = k)"
    using search_ok [OF i] by blast
  have em: "rnode root = null \<longleftrightarrow> inorder t = []"
    using i focus_root_null [of root h "[]" t] by (cases t) (auto simp: tree_inv_def focus_def)
  have sz: "rsize root \<noteq> 0" if "inorder t \<noteq> []"
    using that erase_guards(2) [OF i] by (metis append_Nil list.exhaust)
  show ?thesis
  proof (cases "u = Lf")
    case True
    then have "inorder t = before fs @ behind fs" using s(2) by (auto simp: inorder_plug)
    then have ab: "tmap (inorder t) k = None"
      using lies_absent [OF _ s(4)] i by (simp add: tree_inv_def tmap_absent [symmetric])
    have "rb_erase (Some root) h (Some k) = Some (inorder t \<noteq> [], Some root, h)"
      using s(1) True em sz by (auto simp: rb_erase_def)
    then show ?thesis using i ab by (intro exI [of _ root] exI [of _ h] exI [of _ t]) auto
  next
    case False
    then obtain c l e r where u: "u = Nd c l e r" "ekey e = k" using s(5) by blast
    have es: "inorder t = (before fs @ inorder l) @ e # (inorder r @ behind fs)" using s(2) u by (auto simp: inorder_plug)
    obtain root' h' t' where r: "rb_erase_ex (Some root) h (value_ptr (adr e)) = Some (True, Some root', h')"
       "tree_inv root' h' t'" "rcmp root' = rcmp root" "inorder t' = (before fs @ inorder l) @ (inorder r @ behind fs)"
      using erase_ex_ok [OF i s(2) [symmetric, unfolded u(1)]] by auto
    have "adr e \<noteq> null" using focus_node s(3) u(1) by blast
    then have run: "rb_erase (Some root) h (Some k) = Some (inorder t \<noteq> [], Some root', h')"
      using s(1) u(1) em sz es r(1) by (auto simp: rb_erase_def)
    note sp = tmap_split [OF tree_keys [OF i, unfolded es], unfolded u(2), folded es r(4)]
    obtain v where "tmap (inorder t) k = Some v" using sp(1) by simp
    moreover have "\<exists>xs e ys. inorder t = xs @ e # ys \<and> ekey e = k \<and> inorder t' = xs @ ys" using es u(2) r(4) by blast
    ultimately show ?thesis using run r(2,3) sp(2)
      by (intro exI [of _ root'] exI [of _ h'] exI [of _ t']) simp
  qed
qed

section \<open>Lookup, replacement and the end of a map\<close>

lemma find_ok:
  assumes i: "tree_inv root h t"
  shows "\<exists>p. rb_find (Some root) h k = Some p \<and>
     (case tmap (inorder t) k of None \<Rightarrow> p = null
      | Some v \<Rightarrow> p \<noteq> null \<and> (\<exists>nd. h (node_of_value p) = Some nd \<and> value nd = v \<and> key nd = k))"
proof -
  obtain fs u where s: "rb_search root h k = Some (root_of u, top_of fs)" "plug fs u = t" "focus root h fs u"
      "lies (rcmp root) k (before fs) (behind fs)" "u = Lf \<or> (\<exists>c l e r. u = Nd c l e r \<and> ekey e = k)"
    using search_ok [OF i] by blast
  show ?thesis
  proof (cases "u = Lf")
    case True
    then have "inorder t = before fs @ behind fs" using s(2) by (auto simp: inorder_plug)
    then have "tmap (inorder t) k = None"
      using lies_absent [OF _ s(4)] i by (simp add: tree_inv_def tmap_absent [symmetric])
    then show ?thesis using s(1) True by (simp add: rb_find_def)
  next
    case False
    then obtain c l e r where u: "u = Nd c l e r" "ekey e = k" using s(5) by blast
    have es: "inorder t = (before fs @ inorder l) @ e # (inorder r @ behind fs)" using s(2) u by (auto simp: inorder_plug)
    note sp = tmap_split [OF tree_keys [OF i, unfolded es], unfolded u(2), folded es]
    have "focus root h [] t" "e \<in> set (inorder t)" using i es by (auto simp: tree_inv_def)
    from focus_entry [OF this] have nd: "\<exists>nd. h (adr e) = Some nd \<and> key nd = k \<and> value nd = snd (snd e)" "adr e \<noteq> null"
      using u(2) by auto
    have "node_block (adr e)" using erase_guards(3) [OF i es] .
    then show ?thesis using s(1) u(1) nd sp(1) block_ptr [of "adr e"] by (auto simp: rb_find_def)
  qed
qed

lemma free_recursion_ok:
  "tree_ok h p t \<Longrightarrow> dst t \<Longrightarrow> \<exists>h'. rb_free_node_recursion h (root_of t) = Some h' \<and>
     (\<forall>a. h' a = (if a \<in> adrs t then None else h a))"
proof (induction t arbitrary: h p)
  case Lf
  then show ?case by (simp add: rb_free_node_recursion.simps)
next
  case (Nd c l e r)
  obtain nd where nd: "h (adr e) = Some nd" "left nd = root_of l" "right nd = root_of r" "adr e \<noteq> null"
    using Nd.prems(1) by (auto simp: node_at_def holds_def)
  obtain h1 where h1: "rb_free_node_recursion h (root_of l) = Some h1" "\<forall>a. h1 a = (if a \<in> adrs l then None else h a)"
    using Nd.IH(1) [of h "adr e"] Nd.prems by auto
  have e1: "h1 (adr e) = Some nd" using h1(2) nd(1) Nd.prems(2) by simp
  have "tree_ok h1 (adr e) r" by (rule tree_ok_cong [of h]) (use Nd.prems h1(2) in auto)
  then obtain h2 where h2: "rb_free_node_recursion h1 (root_of r) = Some h2" "\<forall>a. h2 a = (if a \<in> adrs r then None else h1 a)"
    using Nd.IH(2) [of h1 "adr e"] Nd.prems(2) by auto
  have "h2 (adr e) = Some nd" using h2(2) e1 Nd.prems(2) by simp
  then have "rb_free_node_recursion h (adr e) = Some (h2(adr e := None))"
    using nd h1(1) e1 h2(1) by (simp add: rb_free_node_recursion.simps [of h "adr e"] rb_free_node_def)
  then show ?case using h1(2) h2(2) by (intro exI [of _ "h2(adr e := None)"]) auto
qed

lemma uninit_ok:
  assumes "tree_inv root h t"
  shows "map_uninit (Some root) h = Some (None, Map.empty)"
proof -
  have t: "tree_ok h null t" "dst t" "rnode root = root_of t" "dom h = adrs t"
    using assms by (auto simp: tree_inv_def focus_def rep_def)
  obtain h' where h': "rb_free_node_recursion h (root_of t) = Some h'" "\<forall>a. h' a = (if a \<in> adrs t then None else h a)"
    using free_recursion_ok [OF t(1,2)] by blast
  have "h' = Map.empty" using h'(2) t(4) by (auto simp: fun_eq_iff dom_def set_eq_iff)
  then show ?thesis using h'(1) t(3) by (simp add: map_uninit_def rb_free_def)
qed

section \<open>Iteration\<close>

lemma climb_right_ok: "focus root h fs t \<Longrightarrow> t \<noteq> Lf \<Longrightarrow> climb_right h (root_of t) (top_of fs) = Some (first_of (behind fs))"
proof (induction fs arbitrary: t)
  case Nil
  then show ?case by (simp add: climb_right.simps first_of_def)
next
  case (Cons f fs)
  obtain pn where pn: "h (fadr f) = Some pn" "rb_parent pn = top_of fs" "fadr f \<noteq> null"
      "case f of FL c e r \<Rightarrow> left pn = root_of t \<and> right pn = root_of r | FR c l e \<Rightarrow> left pn = root_of l \<and> right pn = root_of t"
    using focus_frame [OF Cons.prems(1)] by blast
  show ?case
  proof (cases f)
    case (FL c e r)
    have "root_of t \<noteq> root_of r" using focus_children [of root h fs c t e r] Cons.prems FL by (simp add: focus_up)
    then show ?thesis using pn FL by (simp add: climb_right.simps [of h "root_of t"] first_of_def)
  next
    case (FR c l e)
    have "climb_right h (adr e) (top_of fs) = Some (first_of (behind fs))"
      using Cons.IH [of "Nd c l e t"] Cons.prems(1) FR by (simp add: focus_up)
    then show ?thesis using pn FR by (simp add: climb_right.simps [of h "root_of t"])
  qed
qed

lemma climb_left_ok: "focus root h fs t \<Longrightarrow> t \<noteq> Lf \<Longrightarrow> climb_left h (root_of t) (top_of fs) = Some (last_of (before fs))"
proof (induction fs arbitrary: t)
  case Nil
  then show ?case by (simp add: climb_left.simps last_of_def first_of_def)
next
  case (Cons f fs)
  obtain pn where pn: "h (fadr f) = Some pn" "rb_parent pn = top_of fs" "fadr f \<noteq> null"
      "case f of FL c e r \<Rightarrow> left pn = root_of t \<and> right pn = root_of r | FR c l e \<Rightarrow> left pn = root_of l \<and> right pn = root_of t"
    using focus_frame [OF Cons.prems(1)] by blast
  show ?case
  proof (cases f)
    case (FR c l e)
    have "root_of t \<noteq> root_of l" using focus_children [of root h fs c l e t] Cons.prems FR by (simp add: focus_up)
    then show ?thesis using pn FR by (simp add: climb_left.simps [of h "root_of t"] last_of_def first_of_def)
  next
    case (FL c e r)
    have "climb_left h (adr e) (top_of fs) = Some (last_of (before fs))"
      using Cons.IH [of "Nd c t e r"] Cons.prems(1) FL by (simp add: focus_up)
    then show ?thesis using pn FL by (simp add: climb_left.simps [of h "root_of t"])
  qed
qed

text \<open>Every entry of the tree is at a position.\<close>

lemma entry_position: "e \<in> set (inorder t) \<Longrightarrow> \<exists>fs c l r. t = plug fs (Nd c l e r)"
proof (induction t)
  case (Nd c l x r)
  then consider "e = x" | "e \<in> set (inorder l)" | "e \<in> set (inorder r)" by auto
  then show ?case
  proof cases
    case 1
    then show ?thesis by (intro exI [of _ "[]"]) auto
  next
    case 2
    then obtain fs d a b where "l = plug fs (Nd d a e b)" using Nd.IH(1) by blast
    then have "Nd c l x r = plug (fs @ [FL c x r]) (Nd d a e b)" by (simp add: plug_append)
    then show ?thesis by blast
  next
    case 3
    then obtain fs d a b where "r = plug fs (Nd d a e b)" using Nd.IH(2) by blast
    then have "Nd c l x r = plug (fs @ [FR c l x]) (Nd d a e b)" by (simp add: plug_append)
    then show ?thesis by blast
  qed
qed simp

lemma distinct_middle:
  assumes "distinct (map f (xs @ e # ys))" "xs @ e # ys = us @ e # vs"
  shows "xs = us \<and> ys = vs"
proof -
  have "distinct (xs @ e # ys)" using assms(1) unfolding distinct_map by blast
  moreover from this have "distinct (us @ e # vs)" using assms(2) by metis
  ultimately have "e \<notin> set xs" "e \<notin> set us" "e \<notin> set ys" "e \<notin> set vs" by simp_all
  then show ?thesis using assms(2) append_Cons_eq_iff [of e xs ys us vs] by simp
qed

lemma node_next_ok:
  assumes i: "tree_inv root h t" and es: "inorder t = xs @ e # ys"
  shows "rb_node_next root h (adr e) = Some (Some (first_of ys))"
proof -
  have ft: "focus root h [] t" using i by (simp add: tree_inv_def)
  obtain fs c l r where p: "t = plug fs (Nd c l e r)" using entry_position [of e t] es by auto
  have f: "focus root h fs (Nd c l e r)" using ft p by (simp add: focus_top [of _ _ fs])
  have ds: "distinct (map adr (inorder t))" using ft by (simp add: focus_def rep_def dst_inorder)
  have y: "ys = inorder r @ behind fs"
    using distinct_middle [of adr "before fs @ inorder l" e "inorder r @ behind fs" xs ys] ds es p by (simp add: inorder_plug)
  obtain nd where nd: "h (adr e) = Some nd" "right nd = root_of r" "rb_parent nd = top_of fs"
    using focus_node [OF f] by (auto simp: holds_def)
  have rz: "root_of r = null \<longleftrightarrow> r = Lf" using f focus_root_null [of root h "FR c l e # fs" r] by (simp add: focus_up)
  have mx: "adr e = rmax root \<longleftrightarrow> ys = []"
  proof (cases ys rule: rev_cases)
    case Nil
    then show ?thesis using i es by (simp add: tree_inv_def last_of_def first_of_def)
  next
    case (snoc zs z)
    then have "adr z \<noteq> adr e" using ds es by auto
    then show ?thesis using i es snoc by (simp add: tree_inv_def last_of_def first_of_def)
  qed
  have rn: "rnode root \<noteq> null" using erase_guards(1) [OF i es] .
  consider "ys = []" | "ys \<noteq> []" "r \<noteq> Lf" | "ys \<noteq> []" "r = Lf" by blast
  then show ?thesis
  proof cases
    case 1
    then show ?thesis using nd rn mx by (simp add: rb_node_next_def first_of_def)
  next
    case 2
    have "tree_ok h (adr e) r" using f by (simp add: focus_def rep_def)
    then have "left_most h (root_of r) = Some (first_of (inorder r))" using left_most_first 2(2) by blast
    moreover have "first_of (inorder r) = first_of ys" using y 2(2) by (cases "inorder r"; cases r) (auto simp: first_of_def)
    ultimately show ?thesis using nd rn mx 2 rz by (simp add: rb_node_next_def)
  next
    case 3
    then obtain g gs where g: "fs = g # gs" using y by (cases fs) auto
    obtain pn where pn: "h (fadr g) = Some pn" "fadr g \<noteq> null"
      "case g of FL c' e' r' \<Rightarrow> left pn = adr e \<and> right pn = root_of r' | FR c' l' e' \<Rightarrow> left pn = root_of l' \<and> right pn = adr e"
      using focus_frame [OF f [unfolded g]] unfolding root_of.simps by blast
    have cl: "climb_right h (adr e) (top_of fs) = Some (first_of ys)" using climb_right_ok [OF f] y 3 by simp
    have nn: "first_of ys \<noteq> null" using 3(1) es tree_aligned [OF ft] by (cases ys) (auto simp: first_of_def adrs_inorder)
    show ?thesis
    proof (cases g)
      case (FL c' e' r')
      then show ?thesis using nd rn mx 3 rz pn g y by (simp add: rb_node_next_def first_of_def)
    next
      case (FR c' l' e')
      have "root_of l' \<noteq> adr e" using focus_children [of root h gs c' l' e' "Nd c l e r"] f g FR by (simp add: focus_up)
      then show ?thesis using nd rn mx 3 rz pn g FR cl nn by (simp add: rb_node_next_def)
    qed
  qed
qed

lemma node_rnext_ok:
  assumes i: "tree_inv root h t" and es: "inorder t = xs @ e # ys"
  shows "rb_node_rnext root h (adr e) = Some (Some (last_of xs))"
proof -
  have ft: "focus root h [] t" using i by (simp add: tree_inv_def)
  obtain fs c l r where p: "t = plug fs (Nd c l e r)" using entry_position [of e t] es by auto
  have f: "focus root h fs (Nd c l e r)" using ft p by (simp add: focus_top [of _ _ fs])
  have ds: "distinct (map adr (inorder t))" using ft by (simp add: focus_def rep_def dst_inorder)
  have x: "xs = before fs @ inorder l"
    using distinct_middle [of adr "before fs @ inorder l" e "inorder r @ behind fs" xs ys] ds es p by (simp add: inorder_plug)
  obtain nd where nd: "h (adr e) = Some nd" "left nd = root_of l" "rb_parent nd = top_of fs"
    using focus_node [OF f] by (auto simp: holds_def)
  have lz: "root_of l = null \<longleftrightarrow> l = Lf" using f focus_root_null [of root h "FL c e r # fs" l] by (simp add: focus_up)
  have mn: "adr e = rmin root \<longleftrightarrow> xs = []"
  proof (cases xs)
    case Nil
    then show ?thesis using i es by (simp add: tree_inv_def first_of_def)
  next
    case (Cons z zs)
    then have "adr z \<noteq> adr e" using ds es by auto
    then show ?thesis using i es Cons by (simp add: tree_inv_def first_of_def)
  qed
  have rn: "rnode root \<noteq> null" using erase_guards(1) [OF i es] .
  consider "xs = []" | "xs \<noteq> []" "l \<noteq> Lf" | "xs \<noteq> []" "l = Lf" by blast
  then show ?thesis
  proof cases
    case 1
    then show ?thesis using nd rn mn by (simp add: rb_node_rnext_def last_of_def first_of_def)
  next
    case 2
    have "tree_ok h (adr e) l" using f by (simp add: focus_def rep_def)
    then have "right_most h (root_of l) = Some (last_of (inorder l))" using right_most_last 2(2) by blast
    moreover have "inorder l \<noteq> []" using 2(2) by (cases l) auto
    then have "last_of (inorder l) = last_of xs" using x by (cases "inorder l" rule: rev_cases) (auto simp: last_of_def first_of_def)
    ultimately show ?thesis using nd rn mn 2 lz by (simp add: rb_node_rnext_def)
  next
    case 3
    then obtain g gs where g: "fs = g # gs" using x by (cases fs) auto
    obtain pn where pn: "h (fadr g) = Some pn" "fadr g \<noteq> null"
      "case g of FL c' e' r' \<Rightarrow> left pn = adr e \<and> right pn = root_of r' | FR c' l' e' \<Rightarrow> left pn = root_of l' \<and> right pn = adr e"
      using focus_frame [OF f [unfolded g]] unfolding root_of.simps by blast
    have cl: "climb_left h (adr e) (top_of fs) = Some (last_of xs)" using climb_left_ok [OF f] x 3 by simp
    have nn: "last_of xs \<noteq> null" using 3(1) es tree_aligned [OF ft]
      by (cases xs rule: rev_cases) (auto simp: last_of_def first_of_def adrs_inorder)
    show ?thesis
    proof (cases g)
      case (FR c' l' e')
      then show ?thesis using nd rn mn 3 lz pn g x by (simp add: rb_node_rnext_def last_of_def first_of_def)
    next
      case (FL c' e' r')
      have "root_of r' \<noteq> adr e" using focus_children [of root h gs c' "Nd c l e r" e' r'] f g FL by (simp add: focus_up)
      then show ?thesis using nd rn mn 3 lz pn g FL cl nn by (simp add: rb_node_rnext_def)
    qed
  qed
qed

end
