(* ===== verification/Lisk_Map_Thms.thy ===== *)
theory Lisk_Map_Thms
  imports Lisk_Map_Ops Lisk_Specs
begin

text \<open>
  The map of \<open>win_lisk/src/lisk_map.c\<close> seen from outside: replacement of a value, iteration in both
  directions, the depth of a search, and the contract \<open>keyed_map\<close> with the properties that rest on it.
\<close>

section \<open>Replacing a value\<close>

lemma rbt_elem: "rbt (plug fs (Nd c l e r)) \<longleftrightarrow> rbt (plug fs (Nd c l e' r))"
  unfolding rbt_plug fits_def by (cases c) simp_all

lemma replace_value_ok:
  assumes i: "tree_inv root h t" and t: "t = plug fs (Nd c l e r)" and n: "h (adr e) = Some nd"
  shows "tree_inv root (h(adr e \<mapsto> nd\<lparr>value := v\<rparr>)) (plug fs (Nd c l (adr e, ekey e, v) r))"
proof -
  let ?e = "(adr e, ekey e, v)" and ?h = "h(adr e \<mapsto> nd\<lparr>value := v\<rparr>)"
  have f: "focus root h fs (Nd c l e r)" using i t by (simp add: tree_inv_def focus_top [of _ _ fs])
  have rt: "root_of (plug fs (Nd c l ?e r)) = root_of (plug fs (Nd c l e r))"
    by (cases "fs = []") (simp_all add: root_of_plug [of fs "Nd c l ?e r" "Nd c l e r"])
  have "focus root ?h fs (Nd c l ?e r)"
    using f n rt by (auto simp: focus_def rep_def node_at_def holds_def)
  then have "focus root ?h [] (plug fs (Nd c l ?e r))" by (simp add: focus_top [of _ _ fs])
  moreover have "rbt (plug fs (Nd c l ?e r))" using i t rbt_elem [of fs c l e r ?e] by (auto simp: tree_inv_def)
  moreover have "dom ?h = dom h" using n by auto
  moreover have "adrs (plug fs (Nd c l ?e r)) = adrs t" using t by (simp add: adrs_plug)
  moreover have "ordered (rcmp root) (inorder (plug fs (Nd c l ?e r)))"
    using i t by (auto simp: tree_inv_def inorder_plug ordered_append ordered_Cons)
  moreover have "first_of (inorder (plug fs (Nd c l ?e r))) = first_of (inorder t)"
    using t by (cases "before fs"; cases "inorder l") (auto simp: inorder_plug first_of_def)
  moreover have "last_of (inorder (plug fs (Nd c l ?e r))) = last_of (inorder t)"
    using t by (cases "behind fs" rule: rev_cases; cases "inorder r" rule: rev_cases) (auto simp: inorder_plug last_of_def first_of_def)
  ultimately show ?thesis using i t by (simp add: tree_inv_def inorder_plug)
qed

lemma update_ok:
  assumes i: "tree_inv root h t"
  shows "\<exists>p h' t'. rb_update (Some root) h mal (Some k) (Some v) = Some (p, h') \<and> tree_inv root h' t' \<and>
     map ekey (inorder t') = map ekey (inorder t) \<and>
     (case tmap (inorder t) k of None \<Rightarrow> p = null \<and> h' = h \<and> t' = t
      | Some old \<Rightarrow> if length old < length v \<and> \<not> mal (length v) then p = null \<and> h' = h \<and> t' = t
                    else p \<noteq> null \<and> tmap (inorder t') = (tmap (inorder t))(k \<mapsto> v))"
proof -
  obtain fs u where s: "rb_search root h k = Some (root_of u, top_of fs)" "plug fs u = t" "focus root h fs u"
      "lies (rcmp root) k (before fs) (behind fs)" "u = Lf \<or> (\<exists>c l e r. u = Nd c l e r \<and> ekey e = k)"
    using search_ok [OF i] by blast
  show ?thesis
  proof (cases "u = Lf")
    case True
    then have "inorder t = before fs @ behind fs" using s(2) by (auto simp: inorder_plug)
    then have "tmap (inorder t) k = None"
      using lies_absent [OF _ s(4)] i by (simp add: tree_inv_def tmap_absent [symmetric])
    then show ?thesis using s(1) True i by (auto simp: rb_update_def)
  next
    case False
    then obtain c l e r where u: "u = Nd c l e r" "ekey e = k" using s(5) by blast
    let ?xs = "before fs @ inorder l" and ?ys = "inorder r @ behind fs"
    have es: "inorder t = ?xs @ e # ?ys" using s(2) u by (auto simp: inorder_plug)
    note sp = tmap_split [OF tree_keys [OF i, unfolded es], unfolded u(2), folded es]
    obtain nd where nd: "h (adr e) = Some nd" "value nd = snd (snd e)" "adr e \<noteq> null"
      using focus_node s(3) u(1) by (fastforce simp: holds_def)
    let ?t = "plug fs (Nd c l (adr e, k, v) r)"
    have j: "tree_inv root (h(adr e \<mapsto> nd\<lparr>value := v\<rparr>)) ?t"
      using replace_value_ok [OF i s(2) [symmetric, unfolded u(1)] nd(1), of v] u(2) by simp
    have es': "inorder ?t = ?xs @ (adr e, k, v) # ?ys" by (simp add: inorder_plug)
    have "tmap (inorder ?t) = (tmap (?xs @ ?ys))(k \<mapsto> v)"
      using tmap_split(1) [OF tree_keys [OF j, unfolded es'], folded es'] by simp
    then have mp: "tmap (inorder ?t) = (tmap (inorder t))(k \<mapsto> v)" using sp(1) by simp
    have old: "tmap (inorder t) k = Some (value nd)" using sp(1) nd(2) by simp
    have ks: "map ekey (inorder ?t) = map ekey (inorder t)" unfolding es es' using u(2) by simp
    have run: "rb_update (Some root) h mal (Some k) (Some v) =
        (if length (value nd) < length v \<and> \<not> mal (length v) then Some (null, h)
         else Some (value_ptr (adr e), h(adr e \<mapsto> nd\<lparr>value := v\<rparr>)))"
      using s(1) u nd by (simp add: rb_update_def)
    show ?thesis
    proof (cases "length (value nd) < length v \<and> \<not> mal (length v)")
      case True
      then show ?thesis using run old i by (intro exI [of _ null] exI [of _ h] exI [of _ t]) simp
    next
      case False
      then show ?thesis using run old mp j ks block_ptr(1) [OF erase_guards(3) [OF i es]]
        by (intro exI [of _ "value_ptr (adr e)"] exI [of _ "h(adr e \<mapsto> nd\<lparr>value := v\<rparr>)"] exI [of _ ?t]) auto
    qed
  qed
qed

section \<open>Iteration\<close>

definition it_of :: "u4 \<Rightarrow> iterator_t" where
  "it_of a = (if a = null then \<lparr>it_first = null, it_second = null\<rparr> else node_iterator a)"

lemma map_next_ok:
  assumes i: "tree_inv root h t" and es: "inorder t = xs @ e # ys"
  shows "map_next (Some root, h) (Some (node_iterator (adr e))) = Some (0, Some (it_of (first_of ys)))"
    "map_rnext (Some root, h) (Some (node_iterator (adr e))) = Some (0, Some (it_of (last_of xs)))"
    "map_is_end (Some root, h) (Some (node_iterator (adr e))) \<noteq> 0"
    "map_is_rend (Some root, h) (Some (node_iterator (adr e))) \<noteq> 0"
proof -
  note g = erase_guards [OF i es]
  note v = block_ptr(1) [OF g(3)] block_ptr(2) [of "adr e"]
  show "map_next (Some root, h) (Some (node_iterator (adr e))) = Some (0, Some (it_of (first_of ys)))"
    using node_next_ok [OF i es] g(1) v by (simp add: map_next_def rb_node_next_ex_def node_iterator_def it_of_def)
  show "map_rnext (Some root, h) (Some (node_iterator (adr e))) = Some (0, Some (it_of (last_of xs)))"
    using node_rnext_ok [OF i es] g(1) v by (simp add: map_rnext_def rb_node_rnext_ex_def node_iterator_def it_of_def)
  show "map_is_end (Some root, h) (Some (node_iterator (adr e))) \<noteq> 0" "map_is_rend (Some root, h) (Some (node_iterator (adr e))) \<noteq> 0"
    using v(1) by (simp_all add: map_is_end_def map_is_rend_def node_iterator_def)
qed

lemma it_of_entry: "tree_inv root h t \<Longrightarrow> inorder t = xs @ e # ys \<Longrightarrow> it_of (adr e) = node_iterator (adr e)"
  using erase_guards(3) [of root h t xs e ys] by (simp add: it_of_def node_block_def)

lemma each_loop_ok:
  assumes i: "tree_inv root h t"
  shows "inorder t = xs @ ys \<Longrightarrow>
     map_each_loop (Some root, h) 0 (it_of (first_of ys)) = Some (map (\<lambda>e. node_iterator (adr e)) ys)"
proof (induction ys arbitrary: xs)
  case Nil
  then show ?case by (simp add: map_each_loop.simps it_of_def first_of_def map_is_end_def)
next
  case (Cons e ys)
  have "map_each_loop (Some root, h) 0 (it_of (first_of ys)) = Some (map (\<lambda>e. node_iterator (adr e)) ys)"
    using Cons.IH [of "xs @ [e]"] Cons.prems by simp
  then show ?case using map_next_ok(1,3) [OF i Cons.prems] it_of_entry [OF i Cons.prems]
    by (simp add: map_each_loop.simps [of _ _ "node_iterator (adr e)"] first_of_def [of "e # ys"])
qed

lemma reach_loop_ok:
  assumes i: "tree_inv root h t"
  shows "inorder t = rev xs @ ys \<Longrightarrow>
     map_reach_loop (Some root, h) 0 (it_of (first_of xs)) = Some (map (\<lambda>e. node_iterator (adr e)) xs)"
proof (induction xs arbitrary: ys)
  case Nil
  then show ?case by (simp add: map_reach_loop.simps it_of_def first_of_def map_is_rend_def)
next
  case (Cons e xs)
  have es: "inorder t = rev xs @ e # ys" using Cons.prems by simp
  have "map_reach_loop (Some root, h) 0 (it_of (first_of xs)) = Some (map (\<lambda>e. node_iterator (adr e)) xs)"
    using Cons.IH [OF es] .
  then show ?case using map_next_ok(2,4) [OF i es] it_of_entry [OF i es]
    by (simp add: map_reach_loop.simps [of _ _ "node_iterator (adr e)"] first_of_def [of "e # xs"] last_of_def)
qed

lemma for_each_ok:
  assumes i: "tree_inv root h t"
  shows "map_for_each (Some root, h) i0 = Some (map (\<lambda>e. node_iterator (adr e)) (inorder t))"
    "map_for_reach (Some root, h) i0 = Some (map (\<lambda>e. node_iterator (adr e)) (rev (inorder t)))"
proof -
  have f: "focus root h [] t" using i by (simp add: tree_inv_def)
  have z: "rnode root = null \<longleftrightarrow> inorder t = []" using focus_root_null [OF f] f by (cases t) (auto simp: focus_def)
  show "map_for_each (Some root, h) i0 = Some (map (\<lambda>e. node_iterator (adr e)) (inorder t))"
  proof (cases "inorder t")
    case Nil
    then show ?thesis using z by (simp add: map_for_each_def map_begin_def rb_begin_def map_each_loop.simps)
  next
    case (Cons e es)
    then have "it_of (first_of (inorder t)) = node_iterator (rmin root)"
      using it_of_entry [OF i, of "[]" e es] i by (simp add: tree_inv_def first_of_def)
    then show ?thesis using each_loop_ok [OF i, of "[]" "inorder t"] z Cons
      by (simp add: map_for_each_def map_begin_def rb_begin_def)
  qed
  show "map_for_reach (Some root, h) i0 = Some (map (\<lambda>e. node_iterator (adr e)) (rev (inorder t)))"
  proof (cases "inorder t" rule: rev_cases)
    case Nil
    then show ?thesis using z by (simp add: map_for_reach_def map_rbegin_def rb_rbegin_def map_reach_loop.simps)
  next
    case (snoc es e)
    then have "it_of (first_of (rev (inorder t))) = node_iterator (rmax root)"
      using it_of_entry [OF i, of es e "[]"] i by (simp add: tree_inv_def first_of_def last_of_def)
    then show ?thesis using reach_loop_ok [OF i, of "rev (inorder t)" "[]"] z snoc
      by (simp add: map_for_reach_def map_rbegin_def rb_rbegin_def)
  qed
qed

section \<open>The depth of a search\<close>

definition blacks :: "'e frame list \<Rightarrow> nat" where
  "blacks fs = length (filter (\<lambda>f. fcol f = BLACK) fs)"

lemma rbwf_size: "rbwf t n \<Longrightarrow> 2 ^ n \<le> length (inorder t) + 1"
proof (induction t n rule: rbwf.induct)
  case (3 l e r n)
  then obtain m where "n = Suc m" by (cases n) auto
  then show ?case using 3 by simp
qed simp_all

lemma ctx_size: "cwf fs n \<Longrightarrow> 2 ^ n \<le> length (inorder t) + 1 \<Longrightarrow> 2 ^ (n + blacks fs) \<le> length (inorder (plug fs t)) + 1"
proof (induction fs arbitrary: n t)
  case (Cons f fs)
  show ?case
  proof (cases f)
    case (FL c e r)
    show ?thesis
    proof (cases c)
      case RED
      then show ?thesis using Cons.IH [of n "plug1 f t"] Cons.prems FL by (simp add: blacks_def)
    next
      case BLACK
      then have "2 ^ Suc n \<le> length (inorder (plug1 f t)) + 1" using Cons.prems FL rbwf_size [of r n] by simp
      then show ?thesis using Cons.IH [of "Suc n" "plug1 f t"] Cons.prems FL BLACK by (simp add: blacks_def)
    qed
  next
    case (FR c l e)
    show ?thesis
    proof (cases c)
      case RED
      then show ?thesis using Cons.IH [of n "plug1 f t"] Cons.prems FR by (simp add: blacks_def)
    next
      case BLACK
      then have "2 ^ Suc n \<le> length (inorder (plug1 f t)) + 1" using Cons.prems FR rbwf_size [of l n] by simp
      then show ?thesis using Cons.IH [of "Suc n" "plug1 f t"] Cons.prems FR BLACK by (simp add: blacks_def)
    qed
  qed
qed (simp add: blacks_def)

lemma ctx_length: "cwf fs n \<Longrightarrow> length fs \<le> 2 * blacks fs \<and> (top_black fs \<longrightarrow> length fs + 1 \<le> 2 * blacks fs)"
proof (induction fs arbitrary: n)
  case (Cons f fs)
  obtain m where m: "cwf fs m" using Cons.prems by (cases f; cases "fcol f") auto
  have "top_black fs" if "fcol f = RED" using Cons.prems that by (cases f) auto
  then show ?case using Cons.IH [OF m] by (cases "fcol f") (auto simp: blacks_def)
qed (simp add: blacks_def)

lemma depth_ok:
  assumes "rbt (plug fs u)"
  shows "2 ^ length fs \<le> (length (inorder (plug fs u)) + 1)\<^sup>2"
proof -
  obtain n where n: "rbwf u n" "cwf fs n" using assms by (auto simp: rbt_plug)
  have "(2 :: nat) ^ length fs \<le> 2 ^ (2 * (n + blacks fs))" using ctx_length [OF n(2)] by (intro power_increasing) auto
  also have "\<dots> = (2 ^ (n + blacks fs))\<^sup>2" by (simp only: power_even_eq)
  also have "\<dots> \<le> (length (inorder (plug fs u)) + 1)\<^sup>2" by (rule power_mono [OF ctx_size [OF n(2) rbwf_size [OF n(1)]]]) simp
  finally show ?thesis .
qed

section \<open>The contract\<close>

text \<open>The tree that a store holds, read back from it.\<close>

partial_function (option) tree_of :: "rb_heap \<Rightarrow> u4 \<Rightarrow> entry rtree option" where
  "tree_of h p =
     (if p = null then Some Lf
      else Option.bind (h p) (\<lambda>nd.
           Option.bind (tree_of h (left nd)) (\<lambda>l.
           Option.bind (tree_of h (right nd)) (\<lambda>r.
             Some (Nd (rb_color nd) l (p, key nd, value nd) r)))))"

lemma tree_of_ok: "tree_ok h p t \<Longrightarrow> tree_of h (root_of t) = Some t"
proof (induction t arbitrary: p)
  case Lf
  then show ?case by (simp add: tree_of.simps)
next
  case (Nd c l e r)
  obtain nd where "h (adr e) = Some nd" "holds nd c p (root_of l) (root_of r) (snd e)" "adr e \<noteq> null"
    using Nd.prems by (auto simp: node_at_def)
  then show ?case using Nd.IH [of "adr e"] Nd.prems
    by (simp add: tree_of.simps [of h "adr e"] holds_def)
qed

definition map_entries :: "map_state \<Rightarrow> entry list" where
  "map_entries s = (case fst s of None \<Rightarrow> [] | Some root \<Rightarrow>
     (case tree_of (snd s) (rnode root) of None \<Rightarrow> [] | Some t \<Rightarrow> inorder t))"

definition map_ok :: "map_state \<Rightarrow> bool" where
  "map_ok s \<longleftrightarrow> (case fst s of None \<Rightarrow> False | Some root \<Rightarrow>
     (case tree_of (snd s) (rnode root) of None \<Rightarrow> False | Some t \<Rightarrow> tree_inv root (snd s) t))"

definition map_abs :: "map_state \<Rightarrow> u1 list \<Rightarrow> u1 list option" where
  "map_abs s = tmap (map_entries s)"

lemma tree_inv_of: "tree_inv root h t \<Longrightarrow> tree_of h (rnode root) = Some t"
  using tree_of_ok [of h null t] by (simp add: tree_inv_def focus_def rep_def)

lemma map_okI: "tree_inv root h t \<Longrightarrow> map_ok (Some root, h) \<and> map_entries (Some root, h) = inorder t"
  by (simp add: map_ok_def map_entries_def tree_inv_of)

lemma map_okE:
  assumes "map_ok s"
  obtains root h t where "s = (Some root, h)" "tree_inv root h t" "map_entries s = inorder t"
  using assms by (cases s; cases "fst s") (auto simp: map_ok_def map_entries_def split: option.splits)

text \<open>An answer of the allocator: no block, or a free one; and whether data blocks are to be had.\<close>

definition block_ok :: "u4 option \<times> allocator \<Rightarrow> map_state \<Rightarrow> bool" where
  "block_ok a s \<longleftrightarrow> (case fst a of None \<Rightarrow> True | Some p \<Rightarrow> node_block p \<and> snd s p = None)"

definition room :: "u4 option \<times> allocator \<Rightarrow> u1 list \<Rightarrow> u1 list \<Rightarrow> bool" where
  "room a k v \<longleftrightarrow> fst a \<noteq> None \<and> snd a (length k) \<and> snd a (length v)"

abbreviation map_put :: "u4 option \<times> allocator \<Rightarrow> map_state \<Rightarrow> u1 list \<Rightarrow> u1 list \<Rightarrow> (n4 \<times> map_state) option" where
  "map_put a s k v \<equiv> map_insert (fst a) (snd a) s (Some k) (Some v)"

text \<open>The value that the pointer of \<open>map_find\<close> points at.\<close>

definition map_get :: "map_state \<Rightarrow> u1 list \<Rightarrow> (n4 \<times> u1 list option) option" where
  "map_get s k = do {
     (c, p) \<leftarrow> map_find s k True;
     Some (c, case p of None \<Rightarrow> None | Some vl \<Rightarrow> map_option value (snd s (node_of_value vl))) }"

lemma put_ok:
  assumes m: "map_ok s" and a: "block_ok a s"
  shows "\<exists>s'. map_put a s k v = Some (if map_abs s k = None \<and> \<not> room a k v then -1 else 0, s') \<and> map_ok s' \<and>
     (if map_abs s k = None \<and> room a k v
      then map_abs s' = (map_abs s)(k \<mapsto> v) \<and>
        (\<exists>xs ys. map_entries s = xs @ ys \<and> map_entries s' = xs @ (the (fst a), k, v) # ys)
      else s' = s)"
proof -
  obtain root h t where s: "s = (Some root, h)" "tree_inv root h t" "map_entries s = inorder t" using map_okE [OF m] .
  obtain ans mal where A: "a = (ans, mal)" by fastforce
  have ab: "map_abs s k = tmap (inorder t) k" using s(3) by (simp add: map_abs_def)
  consider "map_abs s k \<noteq> None" | "map_abs s k = None" "\<not> room a k v" | "map_abs s k = None" "room a k v" by blast
  then show ?thesis
  proof cases
    case 1
    then have "k \<in> ekey ` set (inorder t)" using ab tmap_absent [of k "inorder t"] by auto
    then show ?thesis using insert_present [OF s(2), of k ans mal v] 1 m s(1) A by (auto simp: map_insert_def)
  next
    case 2
    then have "k \<notin> ekey ` set (inorder t)" "ans = None \<or> \<not> mal (length k) \<or> \<not> mal (length v)"
      using ab tmap_absent [of k "inorder t"] A by (auto simp: room_def)
    then show ?thesis using insert_no_room [OF s(2), of k ans mal v] 2 m s(1) A by (simp add: map_insert_def)
  next
    case 3
    then obtain p where P: "ans = Some p" "mal (length k)" "mal (length v)" using A by (auto simp: room_def)
    have p: "h p = None" "node_block p" "k \<notin> ekey ` set (inorder t)"
      using a A P(1) s(1) 3(1) ab tmap_absent [of k "inorder t"] by (auto simp: block_ok_def)
    obtain root' h' t' xs ys where r: "rb_insert (Some root) h (Some p) mal (Some k) (Some v) = Some (True, Some root', h')"
       "tree_inv root' h' t'" "inorder t = xs @ ys" "inorder t' = xs @ (p, k, v) # ys"
      using insert_new [OF s(2) p(3,1,2) P(2,3)] by blast
    note o = map_okI [OF r(2)]
    have "tmap (inorder t') = (tmap (inorder t))(k \<mapsto> v)"
      using tmap_split(1) [OF tree_keys [OF r(2), unfolded r(4)]] unfolding r(3,4) by simp
    then show ?thesis using 3 r(1,3,4) o s A P(1)
      by (intro exI [of _ "(Some root', h')"]) (auto simp: map_insert_def map_abs_def)
  qed
qed

lemma del_ok:
  assumes m: "map_ok s"
  shows "\<exists>s'. map_erase s (Some k) = Some (if map_entries s = [] then -1 else 0, s') \<and> map_ok s' \<and>
     map_abs s' = (map_abs s)(k := None) \<and>
     (if map_abs s k = None then s' = s
      else \<exists>xs e ys. map_entries s = xs @ e # ys \<and> ekey e = k \<and> map_entries s' = xs @ ys)"
proof -
  obtain root h t where s: "s = (Some root, h)" "tree_inv root h t" "map_entries s = inorder t" using map_okE [OF m] .
  obtain root' h' t' where r: "rb_erase (Some root) h (Some k) = Some (inorder t \<noteq> [], Some root', h')"
     "tree_inv root' h' t'" "tmap (inorder t') = (tmap (inorder t))(k := None)"
     "if tmap (inorder t) k = None then root' = root \<and> h' = h \<and> t' = t
      else \<exists>xs e ys. inorder t = xs @ e # ys \<and> ekey e = k \<and> inorder t' = xs @ ys"
    using rb_erase_ok [OF s(2), of k] by blast
  note o = map_okI [OF r(2)]
  have "map_abs (Some root', h') = (map_abs s)(k := None)" using r(3) o s(3) by (simp add: map_abs_def)
  then show ?thesis using r(1,4) o s
    by (intro exI [of _ "(Some root', h')"]) (auto simp: map_erase_def map_abs_def tmap_def split: if_splits)
qed

lemma get_ok:
  assumes m: "map_ok s"
  shows "map_get s k = Some (if map_abs s k = None then -2 else 0, map_abs s k)"
proof -
  obtain root h t where s: "s = (Some root, h)" "tree_inv root h t" "map_entries s = inorder t" using map_okE [OF m] .
  obtain p where "rb_find (Some root) h k = Some p" "case tmap (inorder t) k of None \<Rightarrow> p = null
      | Some v \<Rightarrow> p \<noteq> null \<and> (\<exists>nd. h (node_of_value p) = Some nd \<and> value nd = v \<and> key nd = k)"
    using find_ok [OF s(2), of k] by blast
  then show ?thesis using s by (cases "tmap (inorder t) k") (auto simp: map_get_def map_find_def map_abs_def)
qed

interpretation mk: keyed_map map_ok map_abs block_ok map_get map_put "\<lambda>s k. map_erase s (Some k)"
proof (unfold_locales, goal_cases)
  case (1 s k)
  then show ?case using get_ok [OF 1] by auto
next
  case (2 s a k v)
  obtain s' where "map_put a s k v = Some (if map_abs s k = None \<and> \<not> room a k v then -1 else 0, s')" "map_ok s'"
     "if map_abs s k = None \<and> room a k v then map_abs s' = (map_abs s)(k \<mapsto> v) else s' = s"
    using put_ok [OF 2, of k v] by metis
  then show ?case
    by (cases "map_abs s k"; cases "room a k v") simp_all
next
  case (3 s k)
  obtain s' where "map_erase s (Some k) = Some (if map_entries s = [] then -1 else 0, s')" "map_ok s'"
     "map_abs s' = (map_abs s)(k := None)" using del_ok [OF 3, of k] by blast
  moreover have "map_entries s \<noteq> []" if "map_abs s k \<noteq> None" using that by (auto simp: map_abs_def tmap_def)
  ultimately show ?case by auto
qed

section \<open>Properties\<close>

text \<open>A map with two entries, for the examples.\<close>

definition two_root :: rb_root_t where
  "two_root = \<lparr>rnode = 64, rmin = 64, rmax = 128, rcmp = bytes_cmp, rsize = 2\<rparr>"

definition two_heap :: rb_heap where
  "two_heap = [64 \<mapsto> \<lparr>parent = 1, left = 0, right = 128, key = [1], value = [10]\<rparr>,
               128 \<mapsto> \<lparr>parent = 64, left = 0, right = 0, key = [2], value = [20]\<rparr>]"

lemma two_tree: "tree_inv two_root two_heap (Nd BLACK Lf (64, [1], [10]) (Nd RED Lf (128, [2], [20]) Lf))"
proof -
  have "\<exists>n. rbwf (Nd BLACK Lf (64, [1], [10]) (Nd RED Lf (128, [2], [20]) Lf) :: entry rtree) n"
    by (intro exI [of _ 1]) simp
  then show ?thesis
    using bytes_order
    by (simp add: tree_inv_def two_root_def two_heap_def focus_def rep_def node_at_def holds_def rbt_def aligned_def node_ok_def
        rb_color_def rb_parent_def node_block_def ordered_def first_of_def last_of_def insert_commute)
qed

lemma two_map: "map_ok (Some two_root, two_heap)" "map_entries (Some two_root, two_heap) = [(64, [1], [10]), (128, [2], [20])]"
  using map_okI [OF two_tree] by simp_all

lemma two_abs: "map_abs (Some two_root, two_heap) = [[1] \<mapsto> [10], [2] \<mapsto> [20]]"
  by (simp add: map_abs_def two_map(2) tmap_def fun_upd_twist)

text \<open>
  C2. For every sequence of insertions and removals with legal answers of the allocator the calls
  come back, the tree stays a red-black tree in key order that owns exactly the nodes of the store,
  and every later lookup gives what the finite map gives on which the successful calls were done.
\<close>

theorem map_run_refines:
  assumes "map_ok s" "m_legal block_ok map_put (\<lambda>s k. map_erase s (Some k)) ops s"
  shows "\<exists>cs t. m_run map_put (\<lambda>s k. map_erase s (Some k)) ops s = Some (cs, t) \<and> length cs = length ops \<and> map_ok t \<and>
     (\<forall>k. \<exists>c. map_get t k = Some (c, m_spec ops cs (map_abs s) k))"
  using mk.run_find [OF assms] .

theorem map_run_refines_witness:
  "\<exists>c d t. m_run map_put (\<lambda>s k. map_erase s (Some k)) [MPut (Some 192, \<lambda>n. True) [3] [30], MDel [1]] (Some two_root, two_heap) =
     Some ([c, d], t) \<and> map_ok t \<and> (\<exists>c. map_get t [2] = Some (c, Some [20]))"
proof -
  let ?ops = "[MPut (Some 192, \<lambda>n. True) [3] [30], MDel [1]] :: (u4 option \<times> allocator, u1 list, u1 list) mop list"
  have "node_block 192" by (simp add: node_block_def aligned_def)
  then have "m_legal block_ok map_put (\<lambda>s k. map_erase s (Some k)) ?ops (Some two_root, two_heap)"
    by (simp add: block_ok_def two_heap_def split: option.splits)
  from map_run_refines [OF two_map(1) this] obtain cs t where
    r: "m_run map_put (\<lambda>s k. map_erase s (Some k)) ?ops (Some two_root, two_heap) = Some (cs, t)" "length cs = length ?ops" "map_ok t"
      "\<forall>k. \<exists>c. map_get t k = Some (c, m_spec ?ops cs (map_abs (Some two_root, two_heap)) k)" by blast
  obtain c d where cs: "cs = [c, d]" using r(2) by (auto simp: length_Suc_conv)
  have "m_spec ?ops cs (map_abs (Some two_root, two_heap)) [2] = Some [20]" by (simp add: cs two_abs)
  then have "\<exists>c. map_get t [2] = Some (c, Some [20])" using spec [OF r(4), of "[2]"] by simp
  then show ?thesis using r(1,3) unfolding cs by blast
qed

text \<open>
  C5. \<open>map_insert\<close> on every branch. A new key with memory for its node gets the node at its place in
  the order, and the red-black invariant, the end pointers and the size hold again; without memory
  the call answers -1 and changes nothing; a key that is there is left as it is and the answer is 0.
\<close>

theorem map_insert_spec:
  assumes "map_ok s" "block_ok a s"
  shows "\<exists>s'. map_insert (fst a) (snd a) s (Some k) (Some v) = Some (if map_abs s k = None \<and> \<not> room a k v then -1 else 0, s') \<and>
     map_ok s' \<and>
     (if map_abs s k = None \<and> room a k v
      then map_abs s' = (map_abs s)(k \<mapsto> v) \<and>
        (\<exists>xs ys. map_entries s = xs @ ys \<and> map_entries s' = xs @ (the (fst a), k, v) # ys)
      else s' = s)"
  using put_ok [OF assms] .

theorem map_insert_spec_witness:
  "(\<exists>s'. map_insert (Some 192) (\<lambda>n. True) (Some two_root, two_heap) (Some [3]) (Some [30]) = Some (0, s') \<and>
      map_abs s' = [[1] \<mapsto> [10], [2] \<mapsto> [20], [3] \<mapsto> [30]]) \<and>
   map_insert (Some 192) (\<lambda>n. True) (Some two_root, two_heap) (Some [1]) (Some [30]) = Some (0, (Some two_root, two_heap)) \<and>
   map_insert None (\<lambda>n. True) (Some two_root, two_heap) (Some [3]) (Some [30]) = Some (-1, (Some two_root, two_heap))"
proof -
  have "node_block 192" by (simp add: node_block_def aligned_def)
  then have b: "block_ok (Some 192, \<lambda>n. True) (Some two_root, two_heap)" "block_ok (None, \<lambda>n. True) (Some two_root, two_heap)"
    by (simp_all add: block_ok_def two_heap_def)
  note i = map_insert_spec [OF two_map(1) b(1)] map_insert_spec [OF two_map(1) b(2)]
  show ?thesis using i(1) [of "[3]" "[30]"] i(1) [of "[1]" "[30]"] i(2) [of "[3]" "[30]"] by (auto simp: two_abs room_def)
qed

text \<open>
  C4. \<open>map_erase\<close> takes the entry with the key out of the order and gives its node back, with the
  invariant restored; for a key that is not there nothing changes. The answer is -1 only for the
  empty map.
\<close>

theorem map_erase_spec:
  assumes "map_ok s"
  shows "\<exists>s'. map_erase s (Some k) = Some (if map_entries s = [] then -1 else 0, s') \<and> map_ok s' \<and>
     map_abs s' = (map_abs s)(k := None) \<and>
     (if map_abs s k = None then s' = s
      else \<exists>xs e ys. map_entries s = xs @ e # ys \<and> fst (snd e) = k \<and> map_entries s' = xs @ ys)"
  using del_ok [OF assms] .

theorem map_erase_spec_witness:
  "(\<exists>s'. map_erase (Some two_root, two_heap) (Some [1]) = Some (0, s') \<and> map_ok s' \<and> map_abs s' = [[2] \<mapsto> [20]]) \<and>
   map_erase (Some two_root, two_heap) (Some [9]) = Some (0, (Some two_root, two_heap))"
  using map_erase_spec [OF two_map(1), of "[1]"] map_erase_spec [OF two_map(1), of "[9]"]
  by (auto simp: two_abs two_map(2) fun_upd_twist)

text \<open>
  C22. The loops of \<open>MAP_FOR_EACH_BEGIN\<close> and \<open>MAP_FOR_EACH_RBEGIN\<close> end after running their body once for each
  entry, in ascending and in descending order of the keys.
\<close>

theorem map_iteration:
  assumes "map_ok s"
  shows "map_for_each s i0 = Some (map (\<lambda>e. node_iterator (fst e)) (map_entries s)) \<and>
     map_for_reach s i0 = Some (map (\<lambda>e. node_iterator (fst e)) (rev (map_entries s))) \<and>
     (\<exists>root. fst s = Some root \<and> sorted_wrt (\<lambda>x y. rcmp root (fst (snd x)) (fst (snd y)) < 0) (map_entries s))"
proof -
  obtain root h t where s: "s = (Some root, h)" "tree_inv root h t" "map_entries s = inorder t" using map_okE [OF assms] .
  have "ordered (rcmp root) (inorder t)" using s(2) by (simp add: tree_inv_def)
  then show ?thesis using for_each_ok [OF s(2)] s by (simp add: ordered_def)
qed

theorem map_iteration_witness:
  "map_for_each (Some two_root, two_heap) \<lparr>it_first = 7, it_second = 7\<rparr> = Some [node_iterator 64, node_iterator 128] \<and>
   map_for_reach (Some two_root, two_heap) \<lparr>it_first = 7, it_second = 7\<rparr> = Some [node_iterator 128, node_iterator 64]"
  using map_iteration [OF two_map(1), of "\<lparr>it_first = 7, it_second = 7\<rparr>"] by (simp add: two_map(2))

text \<open>
  C23. A search calls the comparison function at most \<open>2 * log2 (n + 1)\<close> times on a map of \<open>n\<close> entries (\<open>2 ^ c \<le> (n + 1)\<^sup>2\<close> for the
  number \<open>c\<close> of calls that the counting loop gives) and comes back, with the same answer as the loop of the code: the node that holds
  the key, or \<open>nil\<close> exactly when the map does not have it.
\<close>

theorem map_search_depth:
  assumes "tree_inv root h t"
  shows "\<exists>node pre c. rb_search_count (rcmp root) h k (rnode root) null 0 = Some (node, pre, c) \<and> rb_search root h k = Some (node, pre) \<and>
     2 ^ c \<le> (length (inorder t) + 1)\<^sup>2 \<and>
     (if k \<in> ekey ` set (inorder t) then \<exists>nd. h node = Some nd \<and> key nd = k else node = null)"
proof -
  obtain fs u where p: "pos (rcmp root) k [] t = (fs, u)" by fastforce
  note s = search_position [OF assms p]
  have r: "rep h [] t" "rnode root = root_of t" "rbt t" "key_order (rcmp root)" using assms by (auto simp: tree_inv_def focus_def)
  obtain c where c: "rb_search_count (rcmp root) h k (rnode root) null 0 = Some (root_of u, top_of fs, c)"
      "c = length fs + (if u = Lf then 0 else 1)"
    using search_count_pos [OF r(1) p, of 0] r(2) by auto
  show ?thesis
  proof (cases u)
    case Lf
    then have "2 ^ c \<le> (length (inorder t) + 1)\<^sup>2" using depth_ok [of fs u] s(2) r(3) c(2) by simp
    moreover have "k \<notin> ekey ` set (inorder t)" using lies_absent [OF r(4) s(4)] s(2) Lf inorder_plug [of fs u] by auto
    ultimately show ?thesis using c(1) s(1) Lf by auto
  next
    case (Nd b l e r')
    have e: "ekey e = k" using s(5) Nd by simp
    have "plug (FL b e r' # fs) l = t" using s(2) Nd by simp
    then have "2 ^ c \<le> (length (inorder t) + 1)\<^sup>2" using depth_ok [of "FL b e r' # fs" l] r(3) c(2) Nd by simp
    moreover have "k \<in> ekey ` set (inorder t)" using s(2) Nd e inorder_plug [of fs u] by auto
    moreover have "\<exists>nd. h (adr e) = Some nd \<and> key nd = k"
      using s(3) Nd e by (auto simp: focus_def rep_def node_at_def holds_def)
    ultimately show ?thesis using c(1) s(1) Nd by auto
  qed
qed

theorem map_search_depth_witness:
  "\<exists>node pre c. rb_search_count bytes_cmp two_heap [2] 64 null 0 = Some (node, pre, c) \<and> 2 ^ c \<le> (9 :: nat) \<and> c \<le> 3"
proof -
  obtain node pre c where r: "rb_search_count bytes_cmp two_heap [2] 64 null 0 = Some (node, pre, c)" "2 ^ c \<le> (9 :: nat)"
    using map_search_depth [OF two_tree, of "[2]"] by (auto simp: two_root_def power2_eq_square)
  have "c \<le> 3"
  proof (rule ccontr)
    assume "\<not> c \<le> 3"
    then have "(2 :: nat) ^ 4 \<le> 2 ^ c" by (intro power_increasing) auto
    then show False using r(2) by simp
  qed
  then show ?thesis using r by blast
qed

text \<open>
  \<open>map_update\<close> replaces the value of a key that is there, in its block or in a new one; it answers
  -1 and changes nothing for another key, or when the new value is longer and there is no memory.
\<close>

theorem map_update_spec:
  assumes "map_ok s"
  shows "\<exists>s'. map_update mal s (Some k) (Some v) =
       Some (case map_abs s k of None \<Rightarrow> -1
             | Some old \<Rightarrow> if length old < length v \<and> \<not> mal (length v) then -1 else 0, s') \<and> map_ok s' \<and>
     (case map_abs s k of None \<Rightarrow> s' = s
      | Some old \<Rightarrow> if length old < length v \<and> \<not> mal (length v) then s' = s
                    else map_abs s' = (map_abs s)(k \<mapsto> v) \<and> map (fst \<circ> snd) (map_entries s') = map (fst \<circ> snd) (map_entries s))"
proof -
  obtain root h t where s: "s = (Some root, h)" "tree_inv root h t" "map_entries s = inorder t" using map_okE [OF assms] .
  obtain p h' t' where r: "rb_update (Some root) h mal (Some k) (Some v) = Some (p, h')" "tree_inv root h' t'"
     "map ekey (inorder t') = map ekey (inorder t)"
     "case tmap (inorder t) k of None \<Rightarrow> p = null \<and> h' = h \<and> t' = t
      | Some old \<Rightarrow> if length old < length v \<and> \<not> mal (length v) then p = null \<and> h' = h \<and> t' = t
                    else p \<noteq> null \<and> tmap (inorder t') = (tmap (inorder t))(k \<mapsto> v)"
    using update_ok [OF s(2)] by blast
  note o = map_okI [OF r(2)]
  have k: "map (fst \<circ> snd) (inorder t') = map (fst \<circ> snd) (inorder t)" using r(3) by (simp add: comp_def)
  show ?thesis using r(1,4) o s k
    by (intro exI [of _ "(Some root, h')"]) (auto simp: map_update_def map_abs_def split: option.splits if_splits)
qed

theorem map_update_spec_witness:
  "(\<exists>s'. map_update (\<lambda>n. True) (Some two_root, two_heap) (Some [1]) (Some [11, 12]) = Some (0, s') \<and> map_ok s' \<and>
      map_abs s' = [[1] \<mapsto> [11, 12], [2] \<mapsto> [20]]) \<and>
   map_update (\<lambda>n. False) (Some two_root, two_heap) (Some [1]) (Some [11, 12]) = Some (-1, (Some two_root, two_heap))"
  using map_update_spec [OF two_map(1), of "\<lambda>n. True" "[1]" "[11, 12]"] map_update_spec [OF two_map(1), of "\<lambda>n. False" "[1]" "[11, 12]"]
  by (auto simp: two_abs fun_upd_twist)

text \<open>
  \<open>map_uninit\<close> comes back and gives back every node of the tree, so that none is left.
\<close>

theorem map_uninit_frees:
  assumes "map_ok s"
  shows "map_uninit (fst s) (snd s) = Some (None, Map.empty)"
proof -
  obtain root h t where "s = (Some root, h)" "tree_inv root h t" using map_okE [OF assms] .
  then show ?thesis using uninit_ok by simp
qed

theorem map_uninit_frees_witness: "map_uninit (Some two_root) two_heap = Some (None, Map.empty)"
  using map_uninit_frees [OF two_map(1)] by simp

end
