(* ===== verification/Lisk_Skiplist.thy ===== *)
theory Lisk_Skiplist
  imports Lisk_Specs Lisk_Order "HOL-Library.Monad_Syntax"
begin

text \<open>
  The skip list of \<open>win_lisk/src/lisk_skiplist.c\<close>: sorted nodes linked on up to 32 levels between a header
  and a tail.

  \<^item> The store maps the address of a node to the node, 0 is \<open>nil\<close>. Reading or writing an address
    without a node, a link that the node does not have or an entry of the local array \<open>update\<close> that was
    not set is a fault, \<open>None\<close>; so is a loop that does not end.
  \<^item> A data block of a node is the list of its bytes. The block of a value has its own length beside
    the size kept with it, because \<open>skip_list_update\<close> can make them differ.
  \<^item> \<open>rand\<close> is the list of the values that the C library function returns next, \<open>ans\<close> the address that
    \<open>ALLOC\<close> answers for a node, \<open>mal\<close> whether it has a data block of a size, and \<open>junk\<close> what fresh memory holds.
  \<^item> A key or value that is not \<open>nil\<close> has its data.

  The list is in descending order: a search goes on while the key is less than that of the next node.
  \<open>sl_rep list h ns\<close> says that the store is exactly a skip list with the nodes \<open>ns\<close>.
\<close>

section \<open>State\<close>

record sl_node_t =
  sn_key :: "u1 list option"
  sn_vsize :: nat
  sn_value :: "u1 list option"
  sn_next :: "u8 list"

type_synonym sl_heap = "u8 \<Rightarrow> sl_node_t option"

record skip_list_t =
  sl_level :: nat
  sl_cmp :: "u1 list \<Rightarrow> u1 list \<Rightarrow> int"
  sl_tail :: u8
  sl_header :: u8

type_synonym sl_state = "skip_list_t option \<times> sl_heap"

definition SKIP_LIST_MAX_LEVEL :: nat where
  "SKIP_LIST_MAX_LEVEL = 32"

text \<open>Reading and writing \<open>p -> next[l]\<close>.\<close>

definition sl_next :: "sl_heap \<Rightarrow> u8 \<Rightarrow> nat \<Rightarrow> u8 option" where
  "sl_next h p l = do { nd \<leftarrow> h p; if l < length (sn_next nd) then Some (sn_next nd ! l) else None }"

definition sl_set_next :: "sl_heap \<Rightarrow> u8 \<Rightarrow> nat \<Rightarrow> u8 \<Rightarrow> sl_heap option" where
  "sl_set_next h p l v = do {
     nd \<leftarrow> h p;
     if l < length (sn_next nd) then Some (h(p \<mapsto> nd\<lparr>sn_next := (sn_next nd)[l := v]\<rparr>)) else None }"

text \<open>The local array \<open>update\<close>; an entry that was not written has no value.\<close>

definition upd_get :: "u8 option list \<Rightarrow> nat \<Rightarrow> u8 option" where
  "upd_get upd l = (if l < length upd then upd ! l else None)"

definition upd_set :: "u8 option list \<Rightarrow> nat \<Rightarrow> u8 \<Rightarrow> u8 option list option" where
  "upd_set upd l p = (if l < length upd then Some (upd[l := Some p]) else None)"

section \<open>Operations\<close>

text \<open>The zeroed tail, and the header, whose last link is not set.\<close>

definition skip_list_init :: "bool \<Rightarrow> (u1 list \<Rightarrow> u1 list \<Rightarrow> int) option \<Rightarrow> u8 option \<Rightarrow> bool \<Rightarrow> u8 option \<Rightarrow> u8 \<Rightarrow>
    sl_heap \<Rightarrow> n4 \<times> sl_state" where
  "skip_list_init list_pptr cmp tail_ans list_ans header_ans junk h =
     (case cmp of
        None \<Rightarrow> (-1, None, h)
      | Some c \<Rightarrow>
          if \<not> list_pptr then (-1, None, h)
          else case tail_ans of
            None \<Rightarrow> (-2, None, h)
          | Some tail \<Rightarrow>
              if \<not> list_ans then (-2, None, h)
              else case header_ans of
                None \<Rightarrow> (-2, None, h)
              | Some header \<Rightarrow>
                  (0, Some \<lparr>sl_level = 0, sl_cmp = c, sl_tail = tail, sl_header = header\<rparr>,
                   h(tail \<mapsto> \<lparr>sn_key = None, sn_vsize = 0, sn_value = None, sn_next = [0]\<rparr>,
                     header \<mapsto> \<lparr>sn_key = None, sn_vsize = 0, sn_value = None,
                                sn_next = replicate SKIP_LIST_MAX_LEVEL tail @ [junk]\<rparr>)))"

partial_function (option) sl_free_loop :: "sl_heap \<Rightarrow> u8 \<Rightarrow> sl_heap option" where
  "sl_free_loop h node =
     (if node = 0 then Some h
      else Option.bind (sl_next h node 0) (\<lambda>header. sl_free_loop (h(node := None)) header))"

definition skip_list_uninit :: "sl_state option \<Rightarrow> sl_state option option" where
  "skip_list_uninit list_pptr =
     (case list_pptr of
        None \<Rightarrow> Some None
      | Some (None, h) \<Rightarrow> Some (Some (None, h))
      | Some (Some list, h) \<Rightarrow> do { h' \<leftarrow> sl_free_loop h (sl_header list); Some (Some (None, h')) })"

text \<open>\<open>top\<close> is a quarter of \<open>0xFFFF\<close>, rounded down.\<close>

fun level_loop :: "u4 list \<Rightarrow> nat \<Rightarrow> nat option" where
  "level_loop [] level = None"
| "level_loop (r # rand) level = (if r AND 0xFFFF < 16383 then level_loop rand (level + 1) else Some level)"

definition get_node_level :: "u4 list \<Rightarrow> nat option" where
  "get_node_level rand = do {
     level \<leftarrow> level_loop rand 0;
     Some (if SKIP_LIST_MAX_LEVEL < level then SKIP_LIST_MAX_LEVEL else level) }"

text \<open>The inner loop of a search: the last node before the key on this level, and the one behind it.\<close>

partial_function (option) sl_walk :: "skip_list_t \<Rightarrow> sl_heap \<Rightarrow> u1 list \<Rightarrow> nat \<Rightarrow> u8 \<Rightarrow> (u8 \<times> u8) option" where
  "sl_walk list h key level pre =
     Option.bind (sl_next h pre level) (\<lambda>cur.
       if cur \<noteq> sl_tail list then
         Option.bind (h cur) (\<lambda>nd. Option.bind (sn_key nd) (\<lambda>k.
           if sl_cmp list key k < 0 then sl_walk list h key level cur else Some (pre, cur)))
       else Some (pre, cur))"

fun sl_search :: "skip_list_t \<Rightarrow> sl_heap \<Rightarrow> u1 list \<Rightarrow> nat \<Rightarrow> u8 \<Rightarrow> u8 option list \<Rightarrow> (u8 \<times> u8 option list) option" where
  "sl_search list h key level pre upd = do {
     (pre, cur) \<leftarrow> sl_walk list h key level pre;
     upd \<leftarrow> upd_set upd level pre;
     (case level of 0 \<Rightarrow> Some (cur, upd) | Suc l \<Rightarrow> sl_search list h key l pre upd) }"

fun sl_find_loop :: "skip_list_t \<Rightarrow> sl_heap \<Rightarrow> u1 list \<Rightarrow> nat \<Rightarrow> u8 \<Rightarrow> u8 option" where
  "sl_find_loop list h key level pre = do {
     (pre, cur) \<leftarrow> sl_walk list h key level pre;
     (case level of 0 \<Rightarrow> Some cur | Suc l \<Rightarrow> sl_find_loop list h key l pre) }"

declare sl_search.simps [simp del] sl_find_loop.simps [simp del]

text \<open>Whether \<open>cur\<close> is a node with the key; \<open>cmp\<close> is the comparison in the direction of the caller.\<close>

definition sl_hit :: "skip_list_t \<Rightarrow> sl_heap \<Rightarrow> u8 \<Rightarrow> (u1 list \<Rightarrow> int) \<Rightarrow> bool option" where
  "sl_hit list h cur cmp =
     (if cur = sl_tail list then Some False
      else do { nd \<leftarrow> h cur; k \<leftarrow> sn_key nd; Some (cmp k = 0) })"

fun sl_link :: "sl_heap \<Rightarrow> u8 option list \<Rightarrow> u8 \<Rightarrow> nat \<Rightarrow> sl_heap option" where
  "sl_link h upd cur level = do {
     pre \<leftarrow> upd_get upd level;
     nxt \<leftarrow> sl_next h pre level;
     h \<leftarrow> sl_set_next h cur level nxt;
     h \<leftarrow> sl_set_next h pre level cur;
     (case level of 0 \<Rightarrow> Some h | Suc l \<Rightarrow> sl_link h upd cur l) }"

declare sl_link.simps [simp del]

text \<open>The end of \<open>skip_list_insert\<close> and \<open>skip_list_update\<close>: a new node behind those in \<open>update\<close>.\<close>

definition sl_add :: "u4 list \<Rightarrow> u8 option \<Rightarrow> allocator \<Rightarrow> u8 \<Rightarrow> n4 \<Rightarrow> skip_list_t \<Rightarrow> sl_heap \<Rightarrow>
    u8 option list \<Rightarrow> u1 list \<Rightarrow> u1 list \<Rightarrow> (n4 \<times> sl_state) option" where
  "sl_add rand ans mal junk ret list h upd key value = do {
     level \<leftarrow> get_node_level rand;
     (level, list, upd) \<leftarrow>
       (if sl_level list < level then do {
          let list = list\<lparr>sl_level := sl_level list + 1\<rparr>;
          upd \<leftarrow> upd_set upd (sl_level list) (sl_header list);
          Some (sl_level list, list, upd) }
        else Some (level, list, upd));
     (case ans of
        None \<Rightarrow> Some (-2, Some list, h)
      | Some cur \<Rightarrow>
          if \<not> mal (length key) then Some (-2, Some list, h)
          else if \<not> mal (length value) then Some (-2, Some list, h)
          else do {
            h \<leftarrow> sl_link (h(cur \<mapsto> \<lparr>sn_key = Some key, sn_vsize = length value, sn_value = Some value,
                                  sn_next = replicate (level + 1) junk\<rparr>)) upd cur level;
            Some (ret, Some list, h) }) }"

definition skip_list_insert :: "u4 list \<Rightarrow> u8 option \<Rightarrow> allocator \<Rightarrow> u8 \<Rightarrow> sl_state \<Rightarrow> u1 list option \<Rightarrow> u1 list option \<Rightarrow>
    (n4 \<times> sl_state) option" where
  "skip_list_insert rand ans mal junk s key value =
     (case (fst s, key, value) of
        (Some list, Some k, Some v) \<Rightarrow> do {
          let h = snd s;
          (cur, upd) \<leftarrow> sl_search list h k (sl_level list) (sl_header list) (replicate SKIP_LIST_MAX_LEVEL None);
          hit \<leftarrow> sl_hit list h cur (\<lambda>ck. sl_cmp list ck k);
          if hit then Some (-3, s) else sl_add rand ans mal junk 0 list h upd k v }
      | _ \<Rightarrow> Some (-1, s))"

text \<open>
  The branch of \<open>skip_list_update\<close> for a key that is there: when the new value is longer, a block of the
  old size is allocated; the bytes copied are as many as the key has. \<open>fill\<close> is what the fresh block holds.
\<close>

definition sl_replace :: "allocator \<Rightarrow> (nat \<Rightarrow> u1) \<Rightarrow> sl_node_t \<Rightarrow> u1 list \<Rightarrow> (n4 \<times> sl_node_t) option" where
  "sl_replace mal fill nd value =
     (if sn_vsize nd < length value \<and> \<not> mal (sn_vsize nd) then Some (-2, nd)
      else do {
        k \<leftarrow> sn_key nd;
        old \<leftarrow> sn_value nd;
        let block = (if sn_vsize nd < length value then map fill [0..<sn_vsize nd] else old);
        src \<leftarrow> mem_read 0 (length k) value;
        block \<leftarrow> mem_write 0 src block;
        Some (0, nd\<lparr>sn_vsize := length value, sn_value := Some block\<rparr>) })"

definition skip_list_update :: "u4 list \<Rightarrow> u8 option \<Rightarrow> allocator \<Rightarrow> u8 \<Rightarrow> (nat \<Rightarrow> u1) \<Rightarrow> sl_state \<Rightarrow> u1 list option \<Rightarrow>
    u1 list option \<Rightarrow> (n4 \<times> sl_state) option" where
  "skip_list_update rand ans mal junk fill s key value =
     (case (fst s, key, value) of
        (Some list, Some k, Some v) \<Rightarrow> do {
          let h = snd s;
          (cur, upd) \<leftarrow> sl_search list h k (sl_level list) (sl_header list) (replicate SKIP_LIST_MAX_LEVEL None);
          hit \<leftarrow> sl_hit list h cur (\<lambda>ck. sl_cmp list ck k);
          if hit then do {
            nd \<leftarrow> h cur;
            (ret, nd) \<leftarrow> sl_replace mal fill nd v;
            Some (ret, Some list, h(cur \<mapsto> nd)) }
          else sl_add rand ans mal junk 1 list h upd k v }
      | _ \<Rightarrow> Some (-1, s))"

text \<open>
  The unlinking loop. The code reads \<open>update[level]\<close> before it tests \<open>level <= top\<close>: reading behind the array is a
  fault; an entry behind \<open>top\<close> that was not set is read, but its value is not used.
\<close>

function sl_unlink :: "sl_heap \<Rightarrow> u8 option list \<Rightarrow> u8 \<Rightarrow> nat \<Rightarrow> nat \<Rightarrow> sl_heap option" where
  "sl_unlink h upd cur topl level =
     (if level < length upd then
        if level \<le> topl then do {
          pre \<leftarrow> upd_get upd level;
          n \<leftarrow> sl_next h pre level;
          if n = cur then do {
            c \<leftarrow> sl_next h cur level;
            h \<leftarrow> sl_set_next h pre level c;
            sl_unlink h upd cur topl (level + 1) }
          else Some h }
        else Some h
      else None)"
  by pat_completeness auto
termination by (relation "measure (\<lambda>(h, upd, cur, topl, level). topl + 1 - level)") auto

declare sl_unlink.simps [simp del]

fun sl_lower :: "skip_list_t \<Rightarrow> sl_heap \<Rightarrow> nat \<Rightarrow> nat option" where
  "sl_lower list h 0 = Some 0"
| "sl_lower list h (Suc topl) = do {
     n \<leftarrow> sl_next h (sl_header list) (Suc topl);
     if n = sl_tail list then sl_lower list h topl else Some (Suc topl) }"

definition skip_list_erase :: "sl_state \<Rightarrow> u1 list option \<Rightarrow> sl_state option" where
  "skip_list_erase s key =
     (case (fst s, key) of
        (Some list, Some k) \<Rightarrow> do {
          let h = snd s;
          (cur, upd) \<leftarrow> sl_search list h k (sl_level list) (sl_header list) (replicate SKIP_LIST_MAX_LEVEL None);
          hit \<leftarrow> sl_hit list h cur (\<lambda>ck. sl_cmp list k ck);
          if hit then do {
            h \<leftarrow> sl_unlink h upd cur (sl_level list) 0;
            let h = h(cur := None);
            topl \<leftarrow> sl_lower list h (sl_level list);
            Some (Some (list\<lparr>sl_level := topl\<rparr>), h) }
          else Some s }
      | _ \<Rightarrow> Some s)"

text \<open>The value pointer handed out is the node; what it points at is read with \<open>sl_bytes\<close>.\<close>

definition skip_list_find :: "sl_state \<Rightarrow> u1 list option \<Rightarrow> bool \<Rightarrow> (n4 \<times> u8 option) option" where
  "skip_list_find s key value =
     (case (fst s, key) of
        (Some list, Some k) \<Rightarrow>
          if \<not> value then Some (-1, None)
          else do {
            cur \<leftarrow> sl_find_loop list (snd s) k (sl_level list) (sl_header list);
            hit \<leftarrow> sl_hit list (snd s) cur (\<lambda>ck. sl_cmp list ck k);
            Some (if hit then (0, Some cur) else (-2, None)) }
      | _ \<Rightarrow> Some (-1, None))"

definition sl_bytes :: "sl_heap \<Rightarrow> u8 \<Rightarrow> u1 list option" where
  "sl_bytes h p = do { nd \<leftarrow> h p; v \<leftarrow> sn_value nd; mem_read 0 (sn_vsize nd) v }"

section \<open>Links on a level\<close>

text \<open>What a node holds apart from its links, and the number of links.\<close>

definition sl_shape :: "sl_heap \<Rightarrow> u8 \<Rightarrow> (u1 list option \<times> nat \<times> u1 list option \<times> nat) option" where
  "sl_shape h p = map_option (\<lambda>nd. (sn_key nd, sn_vsize nd, sn_value nd, length (sn_next nd))) (h p)"

definition height :: "sl_heap \<Rightarrow> u8 \<Rightarrow> nat" where
  "height h p = (case h p of None \<Rightarrow> 0 | Some nd \<Rightarrow> length (sn_next nd))"

fun links :: "sl_heap \<Rightarrow> nat \<Rightarrow> u8 list \<Rightarrow> bool" where
  "links h l (a # b # xs) \<longleftrightarrow> sl_next h a l = Some b \<and> links h l (b # xs)"
| "links h l xs \<longleftrightarrow> True"

lemma height_shape: "sl_shape h p = sl_shape h' p \<Longrightarrow> height h p = height h' p"
  by (auto simp: sl_shape_def height_def split: option.splits)

lemma sl_next_height: "sl_next h p l \<noteq> None \<longleftrightarrow> l < height h p"
  by (cases "h p") (auto simp: sl_next_def height_def)

lemma sl_set_next_ok:
  assumes "l < height h p"
  shows "\<exists>h'. sl_set_next h p l v = Some h' \<and> sl_shape h' = sl_shape h
    \<and> (\<forall>q m. sl_next h' q m = (if q = p \<and> m = l then Some v else sl_next h q m))"
proof -
  obtain nd where nd: "h p = Some nd" "l < length (sn_next nd)"
    using assms by (auto simp: height_def split: option.splits)
  then show ?thesis
    by (intro exI [of _ "h(p \<mapsto> nd\<lparr>sn_next := (sn_next nd)[l := v]\<rparr>)"])
      (simp add: sl_set_next_def sl_shape_def sl_next_def nth_list_update fun_eq_iff)
qed

lemma links_append: "links h l (xs @ p # ys) \<longleftrightarrow> links h l (xs @ [p]) \<and> links h l (p # ys)"
  by (induction h l xs rule: links.induct) auto

lemma links_suffix: "links h l (xs @ ys) \<Longrightarrow> links h l ys"
  by (induction xs) (auto elim: links.elims)

lemma links_prefix: "links h l (xs @ ys) \<Longrightarrow> links h l xs"
  by (induction h l xs rule: links.induct) auto

lemma links_cong:
  "(\<And>a. a \<in> set (butlast xs) \<Longrightarrow> sl_next h' a l = sl_next h a l) \<Longrightarrow> links h' l xs = links h l xs"
  by (induction h l xs rule: links.induct) auto

lemma links_same:
  "links h l xs \<Longrightarrow> (\<And>a. a \<in> set xs \<Longrightarrow> sl_next h' a l = sl_next h a l) \<Longrightarrow> links h' l xs"
  by (induction h l xs rule: links.induct) auto

lemma links_next: "links h l (xs @ p # q # ys) \<Longrightarrow> sl_next h p l = Some q"
  by (drule links_suffix) simp

text \<open>A node put in after \<open>p\<close>, or taken out after it.\<close>

lemma links_insert:
  assumes "links h l (xs @ p # q # ys)" "c \<notin> set (xs @ p # q # ys)" "p \<notin> set (xs @ q # ys)"
    and "sl_next h' c l = Some q" "sl_next h' p l = Some c"
    and other: "\<And>a. a \<noteq> c \<Longrightarrow> a \<noteq> p \<Longrightarrow> sl_next h' a l = sl_next h a l"
  shows "links h' l (xs @ p # c # q # ys)"
proof -
  have "links h l (xs @ [p])" "links h l (q # ys)" using assms(1) links_append [of h l xs p "q # ys"] by auto
  moreover have "links h' l (xs @ [p]) = links h l (xs @ [p])"
    by (rule links_cong, rule other) (use assms(2,3) in auto)
  moreover have "links h' l (q # ys) = links h l (q # ys)"
    by (rule links_cong, rule other) (use assms(2,3) in \<open>auto dest!: in_set_butlastD simp del: butlast.simps\<close>)
  ultimately show ?thesis using assms(4,5) links_append [of h' l xs p "c # q # ys"] by simp
qed

lemma links_delete:
  assumes "links h l (xs @ p # c # q # ys)"
    and "sl_next h' p l = Some q"
    and other: "\<And>a. a \<in> set (xs @ q # ys) \<Longrightarrow> sl_next h' a l = sl_next h a l"
  shows "links h' l (xs @ p # q # ys)"
proof -
  have "links h l (xs @ [p])" "links h l (q # ys)" using assms(1) links_append [of h l xs p "c # q # ys"] by auto
  moreover have "links h' l (xs @ [p]) = links h l (xs @ [p])"
    by (rule links_cong, rule other) auto
  moreover have "links h' l (q # ys) = links h l (q # ys)"
    by (rule links_cong, rule other) (auto dest!: in_set_butlastD simp del: butlast.simps)
  ultimately show ?thesis using assms(2) links_append [of h' l xs p "q # ys"] by simp
qed

section \<open>The invariant\<close>

definition key_at :: "sl_heap \<Rightarrow> u8 \<Rightarrow> u1 list" where
  "key_at h p = the (Option.bind (h p) sn_key)"

abbreviation on_level :: "sl_heap \<Rightarrow> nat \<Rightarrow> u8 list \<Rightarrow> u8 list" where
  "on_level h l xs \<equiv> filter (\<lambda>p. l < height h p) xs"

text \<open>A node with a key and a value, whose value fits its block.\<close>

definition data_ok :: "sl_heap \<Rightarrow> u8 \<Rightarrow> bool" where
  "data_ok h p \<longleftrightarrow> (\<exists>k m v n. sl_shape h p = Some (Some k, m, Some v, n) \<and> m \<le> length v)"

definition sl_rep :: "skip_list_t \<Rightarrow> sl_heap \<Rightarrow> u8 list \<Rightarrow> bool" where
  "sl_rep list h ns \<longleftrightarrow>
     key_order (sl_cmp list) \<and> sl_level list < 31 \<and>
     distinct (sl_header list # ns @ [sl_tail list]) \<and> 0 \<notin> set (sl_header list # ns @ [sl_tail list]) \<and>
     dom h = set (sl_header list # ns @ [sl_tail list]) \<and>
     height h (sl_header list) = 33 \<and> sl_next h (sl_tail list) 0 = Some 0 \<and>
     (\<forall>p \<in> set ns. data_ok h p \<and> 0 < height h p \<and> height h p \<le> sl_level list + 1) \<and>
     (\<forall>l < 32. links h l (sl_header list # on_level h l ns @ [sl_tail list])) \<and>
     sorted_wrt (\<lambda>p q. sl_cmp list (key_at h q) (key_at h p) < 0) ns"

lemma sl_repD:
  assumes "sl_rep list h ns"
  shows "key_order (sl_cmp list)" "sl_level list < 31"
    "distinct (sl_header list # ns @ [sl_tail list])" "0 \<notin> set (sl_header list # ns @ [sl_tail list])"
    "dom h = set (sl_header list # ns @ [sl_tail list])"
    "height h (sl_header list) = 33" "sl_next h (sl_tail list) 0 = Some 0"
    "\<And>p. p \<in> set ns \<Longrightarrow> data_ok h p" "\<And>p. p \<in> set ns \<Longrightarrow> 0 < height h p"
    "\<And>p. p \<in> set ns \<Longrightarrow> height h p \<le> sl_level list + 1"
    "\<And>l. l < 32 \<Longrightarrow> links h l (sl_header list # on_level h l ns @ [sl_tail list])"
    "sorted_wrt (\<lambda>p q. sl_cmp list (key_at h q) (key_at h p) < 0) ns"
  using assms unfolding sl_rep_def by blast+

lemma sl_rep_top: "sl_rep list h ns \<Longrightarrow> sl_level list < 32"
  using sl_repD(2) by fastforce

lemma data_okD: "data_ok h p \<Longrightarrow> \<exists>nd. h p = Some nd \<and> sn_key nd = Some (key_at h p)"
  by (auto simp: data_ok_def sl_shape_def key_at_def)

section \<open>Searching\<close>

lemma sl_walk_ok:
  assumes "links h l (p # ys @ [c])"
    and "\<And>y. y \<in> set ys \<Longrightarrow> y \<noteq> sl_tail list \<and> data_ok h y \<and> sl_cmp list key (key_at h y) < 0"
    and "c = sl_tail list \<or> data_ok h c \<and> \<not> sl_cmp list key (key_at h c) < 0"
  shows "sl_walk list h key l p = Some (last (p # ys), c)"
  using assms
proof (induction ys arbitrary: p)
  case Nil
  then show ?case using data_okD [of h c] by (subst sl_walk.simps) auto
next
  case (Cons y ys)
  have "sl_walk list h key l y = Some (last (y # ys), c)" using Cons.prems by (intro Cons.IH) auto
  then show ?case using Cons.prems(1) Cons.prems(2) [of y] data_okD [of h y]
    by (subst sl_walk.simps) auto
qed

text \<open>The nodes in front of a key and those behind it.\<close>

definition sl_parts :: "skip_list_t \<Rightarrow> sl_heap \<Rightarrow> u1 list \<Rightarrow> u8 list \<Rightarrow> u8 list \<Rightarrow> bool" where
  "sl_parts list h key B A \<longleftrightarrow> (\<forall>p \<in> set B. sl_cmp list key (key_at h p) < 0) \<and> (\<forall>p \<in> set A. \<not> sl_cmp list key (key_at h p) < 0)"

lemma sl_parts_ex:
  assumes "sl_rep list h ns"
  shows "\<exists>B A. ns = B @ A \<and> sl_parts list h key B A"
proof -
  let ?P = "\<lambda>p. sl_cmp list key (key_at h p) < 0"
  note tr = key_orderD(3) [OF sl_repD(1) [OF assms]]
  have drop: "\<forall>p \<in> set (dropWhile ?P xs). \<not> ?P p" if "sorted_wrt (\<lambda>p q. sl_cmp list (key_at h q) (key_at h p) < 0) xs" for xs
    using that
  proof (induction xs)
    case (Cons x xs)
    have "\<not> ?P y" if "\<not> ?P x" "y \<in> set xs" for y
    proof
      assume "?P y"
      moreover have "sl_cmp list (key_at h y) (key_at h x) < 0" using Cons.prems that(2) by simp
      ultimately show False using tr [where x = key and y = "key_at h y" and z = "key_at h x"] that(1) by simp
    qed
    then show ?case
    proof (cases "?P x")
      case True
      have "sorted_wrt (\<lambda>p q. sl_cmp list (key_at h q) (key_at h p) < 0) xs" using Cons.prems by simp
      from Cons.IH [OF this] show ?thesis using True by (simp only: dropWhile.simps if_True)
    next
      case False
      then show ?thesis using \<open>\<And>y. \<not> ?P x \<Longrightarrow> y \<in> set xs \<Longrightarrow> \<not> ?P y\<close> by simp
    qed
  qed simp
  have "\<forall>p \<in> set (dropWhile ?P ns). \<not> ?P p" by (rule drop [OF sl_repD(12) [OF assms]])
  moreover have "\<forall>p \<in> set (takeWhile ?P ns). ?P p" using set_takeWhileD by fast
  ultimately have "sl_parts list h key (takeWhile ?P ns) (dropWhile ?P ns)"
    unfolding sl_parts_def by (rule conjI [rotated])
  then show ?thesis using takeWhile_dropWhile_id [of ?P ns] by metis
qed

definition sl_pos :: "skip_list_t \<Rightarrow> sl_heap \<Rightarrow> u8 list \<Rightarrow> nat \<Rightarrow> u8" where
  "sl_pos list h B l = last (sl_header list # on_level h l B)"

lemma sl_walk_level:
  assumes r: "sl_rep list h (B @ A)" and ab: "sl_parts list h key B A" and l: "l < 32"
    and p: "p \<in> set (sl_header list # on_level h l B)"
  shows "sl_walk list h key l p = Some (sl_pos list h B l, hd (on_level h l A @ [sl_tail list]))"
proof -
  obtain xs ys where xy: "sl_header list # on_level h l B = xs @ p # ys" using split_list [OF p] by blast
  obtain c cs where c: "on_level h l A @ [sl_tail list] = c # cs" by (cases "on_level h l A @ [sl_tail list]") auto
  have "sl_header list # on_level h l (B @ A) @ [sl_tail list] = (sl_header list # on_level h l B) @ (on_level h l A @ [sl_tail list])"
    by simp
  also have "\<dots> = (xs @ (p # ys @ [c])) @ cs" unfolding xy c by simp
  finally have "links h l ((xs @ (p # ys @ [c])) @ cs)" using sl_repD(11) [OF r l] by metis
  then have "links h l (p # ys @ [c])" using links_prefix links_suffix by metis
  moreover have "y \<in> set B" if "y \<in> set ys" for y
  proof -
    have "set ys \<subseteq> set (on_level h l B)" using xy by (cases xs) auto
    then show ?thesis using that by auto
  qed
  moreover have "c \<in> set (on_level h l A @ [sl_tail list])" unfolding c by simp
  ultimately have "sl_walk list h key l p = Some (last (p # ys), c)"
    using ab sl_repD(3,8) [OF r] by (intro sl_walk_ok) (auto simp: sl_parts_def)
  moreover have "last (p # ys) = sl_pos list h B l" unfolding sl_pos_def using xy by (metis last_appendR list.distinct(1))
  ultimately show ?thesis using c by simp
qed

lemma last_filter_mono:
  assumes "\<And>x. P x \<Longrightarrow> Q x"
  shows "last (a # filter P xs) \<in> set (a # filter Q xs)"
proof -
  have "last (a # filter P xs) \<in> set (a # filter P xs)" by (rule last_in_set) simp
  then show ?thesis using assms by auto
qed

lemma on_level_0: "sl_rep list h ns \<Longrightarrow> set xs \<subseteq> set ns \<Longrightarrow> on_level h 0 xs = xs"
  using sl_repD(9) by (auto simp: filter_id_conv)

lemma sl_find_loop_ok:
  assumes r: "sl_rep list h (B @ A)" and ab: "sl_parts list h key B A"
  shows "l < 32 \<Longrightarrow> p \<in> set (sl_header list # on_level h l B) \<Longrightarrow> sl_find_loop list h key l p = Some (hd (A @ [sl_tail list]))"
proof (induction l arbitrary: p)
  case 0
  then show ?case using sl_walk_level [OF r ab 0] on_level_0 [OF r, of A] by (subst sl_find_loop.simps) simp
next
  case (Suc l)
  have "sl_pos list h B (Suc l) \<in> set (sl_header list # on_level h l B)" unfolding sl_pos_def by (rule last_filter_mono) simp
  then show ?case using sl_walk_level [OF r ab Suc.prems] Suc.IH Suc.prems(1) by (subst sl_find_loop.simps) simp
qed

lemma sl_search_ok:
  assumes r: "sl_rep list h (B @ A)" and ab: "sl_parts list h key B A"
  shows "l < 32 \<Longrightarrow> p \<in> set (sl_header list # on_level h l B) \<Longrightarrow> length upd = 32 \<Longrightarrow>
    \<exists>upd'. sl_search list h key l p upd = Some (hd (A @ [sl_tail list]), upd') \<and> length upd' = 32
      \<and> (\<forall>m \<le> l. upd' ! m = Some (sl_pos list h B m)) \<and> (\<forall>m. l < m \<longrightarrow> upd' ! m = upd ! m)"
proof (induction l arbitrary: p upd)
  case 0
  then show ?case using sl_walk_level [OF r ab 0(1,2)] on_level_0 [OF r, of A]
    by (subst sl_search.simps) (simp add: upd_set_def)
next
  case (Suc l)
  let ?p = "sl_pos list h B (Suc l)"
  have "?p \<in> set (sl_header list # on_level h l B)" unfolding sl_pos_def by (rule last_filter_mono) simp
  from Suc.IH [OF _ this, of "upd[Suc l := Some ?p]"] Suc.prems obtain upd' where
    u: "sl_search list h key l ?p (upd[Suc l := Some ?p]) = Some (hd (A @ [sl_tail list]), upd')"
      "length upd' = 32" "\<forall>m \<le> l. upd' ! m = Some (sl_pos list h B m)" "\<forall>m. l < m \<longrightarrow> upd' ! m = upd[Suc l := Some ?p] ! m"
    by auto
  have "sl_search list h key (Suc l) p upd = sl_search list h key l ?p (upd[Suc l := Some ?p])"
    using sl_walk_level [OF r ab Suc.prems(1,2)] Suc.prems by (subst sl_search.simps) (simp add: upd_set_def)
  moreover have "\<forall>m \<le> Suc l. upd' ! m = Some (sl_pos list h B m)"
    using u(3,4) Suc.prems by (auto simp: le_Suc_eq)
  ultimately show ?case using u(1,2,4) by (intro exI [of _ upd']) auto
qed

lemma sl_hit_ok:
  assumes r: "sl_rep list h (B @ A)" and ab: "sl_parts list h key B A"
    and f: "\<And>k. f k = 0 \<longleftrightarrow> k = key"
  shows "sl_hit list h (hd (A @ [sl_tail list])) f = Some (A \<noteq> [] \<and> key_at h (hd A) = key)"
proof (cases A)
  case (Cons a A')
  then have "data_ok h a" "a \<noteq> sl_tail list" using sl_repD(3,8) [OF r] by auto
  moreover obtain nd where "h a = Some nd" "sn_key nd = Some (key_at h a)" using data_okD calculation(1) by blast
  ultimately show ?thesis using Cons f by (simp add: sl_hit_def)
qed (simp add: sl_hit_def)

section \<open>Linking and unlinking\<close>

text \<open>
  The loops change links on their levels only: \<open>pos l\<close> is the node in front on level \<open>l\<close>, which the array
  \<open>update\<close> holds.
\<close>

lemma sl_link_ok:
  assumes "\<And>l. l \<le> L \<Longrightarrow> upd_get upd l = Some (pos l) \<and> l < height h (pos l) \<and> l < height h c \<and> pos l \<noteq> c"
  shows "\<exists>h'. sl_link h upd c L = Some h' \<and> sl_shape h' = sl_shape h \<and>
    (\<forall>q l. sl_next h' q l = (if l \<le> L \<and> q = c then sl_next h (pos l) l else if l \<le> L \<and> q = pos l then Some c else sl_next h q l))"
  using assms
proof (induction L arbitrary: h)
  case (0 h)
  have a: "upd_get upd 0 = Some (pos 0)" "0 < height h (pos 0)" "0 < height h c" "pos 0 \<noteq> c" using 0 by auto
  obtain n where n: "sl_next h (pos 0) 0 = Some n" using a(2) sl_next_height [of h "pos 0" 0] by auto
  obtain h1 where h1: "sl_set_next h c 0 n = Some h1" "sl_shape h1 = sl_shape h"
    "\<forall>q m. sl_next h1 q m = (if q = c \<and> m = 0 then Some n else sl_next h q m)" using sl_set_next_ok [OF a(3), of n] by blast
  have "0 < height h1 (pos 0)" using a(2) h1(2) height_shape [of h1 "pos 0" h] by simp
  then obtain h2 where h2: "sl_set_next h1 (pos 0) 0 c = Some h2" "sl_shape h2 = sl_shape h1"
    "\<forall>q m. sl_next h2 q m = (if q = pos 0 \<and> m = 0 then Some c else sl_next h1 q m)" using sl_set_next_ok by blast
  have "sl_link h upd c 0 = Some h2" using a n h1 h2 by (subst sl_link.simps) simp
  then show ?case using h1 h2 n a(4) by (intro exI [of _ h2]) auto
next
  case (Suc L h)
  let ?m = "Suc L"
  have a: "upd_get upd ?m = Some (pos ?m)" "?m < height h (pos ?m)" "?m < height h c" "pos ?m \<noteq> c" using Suc.prems by auto
  obtain n where n: "sl_next h (pos ?m) ?m = Some n" using a(2) sl_next_height [of h "pos ?m" ?m] by auto
  obtain h1 where h1: "sl_set_next h c ?m n = Some h1" "sl_shape h1 = sl_shape h"
    "\<forall>q m. sl_next h1 q m = (if q = c \<and> m = ?m then Some n else sl_next h q m)" using sl_set_next_ok [OF a(3), of n] by blast
  have "?m < height h1 (pos ?m)" using a(2) h1(2) height_shape [of h1 "pos ?m" h] by simp
  then obtain h2 where h2: "sl_set_next h1 (pos ?m) ?m c = Some h2" "sl_shape h2 = sl_shape h1"
    "\<forall>q m. sl_next h2 q m = (if q = pos ?m \<and> m = ?m then Some c else sl_next h1 q m)" using sl_set_next_ok by blast
  have sh: "height h2 q = height h q" for q using h1(2) h2(2) height_shape [of h2 q h] by simp
  obtain h' where h': "sl_link h2 upd c L = Some h'" "sl_shape h' = sl_shape h2"
    "\<forall>q l. sl_next h' q l = (if l \<le> L \<and> q = c then sl_next h2 (pos l) l else if l \<le> L \<and> q = pos l then Some c else sl_next h2 q l)"
    using Suc.IH [of h2] Suc.prems sh by auto
  have "sl_link h upd c ?m = Some h'" using a n h1 h2 h' by (subst sl_link.simps) simp
  moreover have "sl_next h' q l = (if l \<le> ?m \<and> q = c then sl_next h (pos l) l else if l \<le> ?m \<and> q = pos l then Some c else sl_next h q l)" for q l
    using h'(3) h2(3) h1(3) n a(4) by (cases "l = ?m") (auto simp: le_Suc_eq)
  ultimately show ?case using h'(2) h2(2) h1(2) by (intro exI [of _ h']) simp
qed

text \<open>The loop stops behind the links of the node, whose number is \<open>n\<close>.\<close>

lemma sl_unlink_ok:
  assumes "l \<le> n" "n \<le> tp + 1" "tp + 1 < length upd"
    and "\<And>m. l \<le> m \<Longrightarrow> m \<le> tp \<Longrightarrow> upd_get upd m = Some (pos m)"
    and "\<And>m. l \<le> m \<Longrightarrow> m < n \<Longrightarrow> sl_next h (pos m) m = Some c \<and> sl_next h c m \<noteq> None \<and> pos m \<noteq> c"
    and "n \<le> tp \<Longrightarrow> \<exists>q. sl_next h (pos n) n = Some q \<and> q \<noteq> c"
  shows "\<exists>h'. sl_unlink h upd c tp l = Some h' \<and> sl_shape h' = sl_shape h \<and>
    (\<forall>q m. sl_next h' q m = (if l \<le> m \<and> m < n \<and> q = pos m then sl_next h c m else sl_next h q m))"
  using assms
proof (induction "n - l" arbitrary: l h)
  case (0 l h)
  then show ?case by (subst sl_unlink.simps) (auto simp: Suc_le_eq)
next
  case (Suc k l h)
  have k: "k = n - (l + 1)" using Suc.hyps(2) by simp
  have l: "l < n" "l \<le> tp" using Suc.hyps(2) Suc.prems(2) by auto
  have a: "upd_get upd l = Some (pos l)" "sl_next h (pos l) l = Some c" "pos l \<noteq> c" "l < length upd"
    using Suc.prems(3,4,5) l by auto
  obtain d where d: "sl_next h c l = Some d" using Suc.prems(5) [of l] l by auto
  obtain h1 where h1: "sl_set_next h (pos l) l d = Some h1" "sl_shape h1 = sl_shape h"
    "\<forall>q m. sl_next h1 q m = (if q = pos l \<and> m = l then Some d else sl_next h q m)"
    using sl_set_next_ok [of l h "pos l" d] a(2) sl_next_height [of h "pos l" l] by auto
  obtain h' where h': "sl_unlink h1 upd c tp (l + 1) = Some h'" "sl_shape h' = sl_shape h1"
    "\<forall>q m. sl_next h' q m = (if l + 1 \<le> m \<and> m < n \<and> q = pos m then sl_next h1 c m else sl_next h1 q m)"
    using Suc.hyps(1) [OF k, of h1] Suc.prems l h1(3) by auto
  have "sl_unlink h upd c tp l = Some h'" using a d h1 h' l by (subst sl_unlink.simps) simp
  moreover have "sl_next h' q m = (if l \<le> m \<and> m < n \<and> q = pos m then sl_next h c m else sl_next h q m)" for q m
    using h'(3) h1(3) d a(3) l by (cases "m = l") auto
  ultimately show ?case using h'(2) h1(2) by (intro exI [of _ h']) simp
qed

lemma key_at_shape: "sl_shape h p = sl_shape h' p \<Longrightarrow> key_at h p = key_at h' p"
  by (cases "h p"; cases "h' p") (auto simp: sl_shape_def key_at_def)

lemma data_ok_shape: "sl_shape h p = sl_shape h' p \<Longrightarrow> data_ok h p = data_ok h' p"
  by (simp add: data_ok_def)

lemma dom_shape: "dom h = {p. sl_shape h p \<noteq> None}"
  by (auto simp: sl_shape_def)

lemma on_level_cong: "(\<And>p. p \<in> set xs \<Longrightarrow> height h' p = height h p) \<Longrightarrow> on_level h' l xs = on_level h l xs"
  by (rule filter_cong) auto

lemma sl_sorted_cong:
  assumes "\<And>p. p \<in> set xs \<Longrightarrow> key_at h' p = key_at h p"
    "sorted_wrt (\<lambda>p q. sl_cmp list (key_at h q) (key_at h p) < 0) xs"
  shows "sorted_wrt (\<lambda>p q. sl_cmp list (key_at h' q) (key_at h' p) < 0) xs"
  using assms by (induction xs) auto

text \<open>Behind a key that is not there all keys are less.\<close>

lemma parts_less:
  assumes r: "sl_rep list h (B @ A)" and ab: "sl_parts list h key B A" and miss: "A \<noteq> [] \<longrightarrow> key_at h (hd A) \<noteq> key"
    and p: "p \<in> set A"
  shows "sl_cmp list (key_at h p) key < 0"
proof -
  note o = key_orderD [OF sl_repD(1) [OF r]]
  obtain a A' where A: "A = a # A'" using p by (cases A) auto
  have "\<not> sl_cmp list key (key_at h a) < 0" "key_at h a \<noteq> key" using ab miss A by (auto simp: sl_parts_def)
  then have a: "sl_cmp list (key_at h a) key < 0"
    using o(1) [of key "key_at h a"] o(2) [of "key_at h a" key] by auto
  show ?thesis
  proof (cases "p = a")
    case False
    then have "sl_cmp list (key_at h p) (key_at h a) < 0"
      using sl_repD(12) [OF r] p A by (auto simp: sorted_wrt_append)
    then show ?thesis using a o(3) [where x = "key_at h p" and y = "key_at h a" and z = key] by simp
  qed (use a in simp)
qed

lemma sl_pos_in:
  assumes "sl_rep list h (B @ A)" "l < 32"
  shows "sl_pos list h B l \<in> set (sl_header list # B)" "l < height h (sl_pos list h B l)"
proof -
  have "sl_pos list h B l \<in> set (sl_header list # on_level h l B)" unfolding sl_pos_def by (rule last_in_set) simp
  then show "sl_pos list h B l \<in> set (sl_header list # B)" "l < height h (sl_pos list h B l)"
    using sl_repD(6) [OF assms(1)] assms(2) by auto
qed

text \<open>The level list around the place of the key.\<close>

lemma level_split:
  obtains xs q ys where "\<And>zs. sl_header list # on_level h l B @ zs = xs @ sl_pos list h B l # zs"
    "on_level h l A @ [sl_tail list] = q # ys"
proof -
  have e: "sl_header list # on_level h l B = butlast (sl_header list # on_level h l B) @ [sl_pos list h B l]"
    unfolding sl_pos_def by (rule append_butlast_last_id [symmetric]) simp
  obtain q ys where q: "on_level h l A @ [sl_tail list] = q # ys" by (cases "on_level h l A @ [sl_tail list]") auto
  show thesis
  proof (rule that [OF _ q])
    fix zs
    show "sl_header list # on_level h l B @ zs = butlast (sl_header list # on_level h l B) @ sl_pos list h B l # zs"
      using arg_cong [OF e, of "\<lambda>w. w @ zs"] by simp
  qed
qed

lemma level_next:
  assumes r: "sl_rep list h (B @ A)" and l: "l < 32"
  shows "sl_next h (sl_pos list h B l) l = Some (hd (on_level h l A @ [sl_tail list]))"
proof -
  obtain xs q ys where x: "\<And>zs. sl_header list # on_level h l B @ zs = xs @ sl_pos list h B l # zs"
    and q: "on_level h l A @ [sl_tail list] = q # ys" using level_split [where list = list and h = h and l = l and B = B and A = A] by metis
  have "links h l (xs @ sl_pos list h B l # q # ys)" using sl_repD(11) [OF r l] x q by simp
  then show ?thesis using links_next q by simp
qed

lemma distinct_level:
  assumes "sl_rep list h (B @ A)"
  shows "distinct (sl_header list # on_level h l B @ on_level h l A @ [sl_tail list])"
  using sl_repD(3) [OF assms] by (auto simp: distinct_filter)

text \<open>The links of a level after a node was put in.\<close>

lemma links_link:
  assumes r: "sl_rep list h (B @ A)" and l: "l < 32" and c: "c \<notin> set (sl_header list # (B @ A) @ [sl_tail list])"
    and n: "sl_next h' c l = sl_next h (sl_pos list h B l) l" "sl_next h' (sl_pos list h B l) l = Some c"
    and o: "\<And>a. a \<noteq> c \<Longrightarrow> a \<noteq> sl_pos list h B l \<Longrightarrow> sl_next h' a l = sl_next h a l"
  shows "links h' l (sl_header list # on_level h l B @ c # on_level h l A @ [sl_tail list])"
proof -
  let ?p = "sl_pos list h B l"
  obtain xs q ys where e: "\<And>zs. sl_header list # on_level h l B @ zs = xs @ ?p # zs"
    and q: "on_level h l A @ [sl_tail list] = q # ys" using level_split [where list = list and h = h and l = l and B = B and A = A] by metis
  have "links h l (xs @ ?p # q # ys)" using sl_repD(11) [OF r l] e q by simp
  moreover have "set (xs @ ?p # q # ys) \<subseteq> set (sl_header list # (B @ A) @ [sl_tail list])"
    unfolding e [symmetric] q [symmetric] by auto
  then have "c \<notin> set (xs @ ?p # q # ys)" using c by blast
  moreover have "?p \<notin> set (xs @ q # ys)"
    using distinct_level [OF r, of l] unfolding e q by auto
  moreover have "sl_next h' c l = Some q" using n(1) level_next [OF r l] q by simp
  ultimately have "links h' l (xs @ ?p # c # q # ys)" using n(2) o by (rule links_insert)
  then show ?thesis by (simp only: e q)
qed

lemma sl_insert_rep:
  assumes r: "sl_rep list h (B @ A)" and ab: "sl_parts list h key B A" and miss: "A \<noteq> [] \<longrightarrow> key_at h (hd A) \<noteq> key"
    and c: "h c = None" "c \<noteq> 0" and lev: "sl_level list \<le> L" "lev \<le> L" "L < 31"
    and upd: "\<And>l. l \<le> lev \<Longrightarrow> upd_get upd l = Some (sl_pos list h B l)"
  shows "\<exists>h'. sl_link (h(c \<mapsto> \<lparr>sn_key = Some key, sn_vsize = length value, sn_value = Some value, sn_next = replicate (lev + 1) junk\<rparr>)) upd c lev = Some h'
    \<and> sl_rep (list\<lparr>sl_level := L\<rparr>) h' (B @ c # A) \<and> (\<forall>p. p \<noteq> c \<longrightarrow> sl_shape h' p = sl_shape h p)
    \<and> sl_shape h' c = Some (Some key, length value, Some value, lev + 1)"
proof -
  let ?nd = "\<lparr>sn_key = Some key, sn_vsize = length value, sn_value = Some value, sn_next = replicate (lev + 1) junk\<rparr>"
  let ?h = "h(c \<mapsto> ?nd)" and ?pos = "sl_pos list h B"
  have fresh: "c \<notin> set (sl_header list # (B @ A) @ [sl_tail list])" using sl_repD(5) [OF r] c(1) by auto
  have hc: "height ?h c = lev + 1" by (simp add: height_def)
  have ho: "height ?h p = height h p" if "p \<noteq> c" for p using that by (simp add: height_def)
  have pos: "?pos l \<noteq> c" "l < height h (?pos l)" if "l < 32" for l
    using sl_pos_in [OF r that] fresh by auto
  obtain h' where h': "sl_link ?h upd c lev = Some h'" "sl_shape h' = sl_shape ?h"
    "\<forall>q l. sl_next h' q l = (if l \<le> lev \<and> q = c then sl_next ?h (?pos l) l else if l \<le> lev \<and> q = ?pos l then Some c else sl_next ?h q l)"
    using sl_link_ok [of lev upd ?pos ?h c] upd pos lev hc ho by force
  have sh: "sl_shape h' p = sl_shape h p" if "p \<noteq> c" for p using h'(2) that by (simp add: sl_shape_def)
  have shc: "sl_shape h' c = Some (Some key, length value, Some value, lev + 1)" using h'(2) by (simp add: sl_shape_def)
  have he: "height h' p = (if p = c then lev + 1 else height h p)" for p
    using h'(2) height_shape [of h' p ?h] hc ho by simp
  have nx: "sl_next h' q l = (if l \<le> lev \<and> q = c then sl_next h (?pos l) l else if l \<le> lev \<and> q = ?pos l then Some c else sl_next h q l)"
    if "q \<noteq> c \<or> l \<le> lev" "l < 32" for q l
    using h'(3) that pos(1) [OF that(2)] by (auto simp: sl_next_def)
  have lv: "on_level h' l xs = on_level h l xs" if "c \<notin> set xs" for l xs
    using that by (intro on_level_cong) (auto simp: he)
  have "links h' l (sl_header list # on_level h' l (B @ c # A) @ [sl_tail list])" if l: "l < 32" for l
  proof (cases "l \<le> lev")
    case True
    have "links h' l (sl_header list # on_level h l B @ c # on_level h l A @ [sl_tail list])"
      by (rule links_link [OF r l fresh]) (use nx True l pos(1) [OF l] in auto)
    then show ?thesis using True fresh lv [of B l] lv [of A l] by (simp add: he)
  next
    case False
    have "sl_next h' a l = sl_next h a l" if "a \<in> set (sl_header list # on_level h l (B @ A) @ [sl_tail list])" for a
      using that fresh nx [of a l] False l by auto
    then have "links h' l (sl_header list # on_level h l (B @ A) @ [sl_tail list])"
      using links_same [OF sl_repD(11) [OF r l]] by blast
    then show ?thesis using False fresh lv [of B l] lv [of A l] by (simp add: he)
  qed
  moreover have "sorted_wrt (\<lambda>p q. sl_cmp list (key_at h' q) (key_at h' p) < 0) (B @ c # A)"
  proof -
    have k: "key_at h' p = key_at h p" if "p \<in> set (B @ A)" for p using sh [of p] that fresh by (intro key_at_shape) auto
    have kc: "key_at h' c = key" using shc by (auto simp: sl_shape_def key_at_def)
    have "sorted_wrt (\<lambda>p q. sl_cmp list (key_at h' q) (key_at h' p) < 0) (B @ A)"
      using sl_repD(12) [OF r] fresh by (intro sl_sorted_cong [of "B @ A" h' h]) (auto simp: k)
    then show ?thesis using ab parts_less [OF r ab miss] fresh
      by (auto simp: sorted_wrt_append kc k sl_parts_def)
  qed
  moreover have "dom h' = insert c (dom h)"
  proof (rule set_eqI)
    fix x
    show "x \<in> dom h' \<longleftrightarrow> x \<in> insert c (dom h)"
      by (cases "x = c") (simp_all add: dom_shape sh shc)
  qed
  then have "dom h' = set (sl_header list # (B @ c # A) @ [sl_tail list])" using sl_repD(5) [OF r] by auto
  moreover have "data_ok h' p \<and> 0 < height h' p \<and> height h' p \<le> L + 1" if "p \<in> set (B @ c # A)" for p
  proof (cases "p = c")
    case True
    then show ?thesis using shc lev by (auto simp: data_ok_def he)
  next
    case False
    then have "p \<in> set (B @ A)" using that by auto
    then show ?thesis using sl_repD(8,9,10) [OF r] data_ok_shape [OF sh [OF False]] lev False by (auto simp: he intro: le_trans)
  qed
  moreover have "sl_next h' (sl_tail list) 0 = Some 0"
    using nx [of "sl_tail list" 0] sl_pos_in(1) [OF r, of 0] sl_repD(3,7) [OF r] fresh by auto
  moreover have "height h' (sl_header list) = 33" using sl_repD(6) [OF r] fresh by (auto simp: he)
  moreover have "distinct (sl_header list # (B @ c # A) @ [sl_tail list])" "0 \<notin> set (sl_header list # (B @ c # A) @ [sl_tail list])"
    using sl_repD(3,4) [OF r] fresh c(2) by auto
  ultimately have "sl_rep (list\<lparr>sl_level := L\<rparr>) h' (B @ c # A)"
    unfolding sl_rep_def using sl_repD(1) [OF r] lev(3) by simp
  then show ?thesis using h'(1) sh shc by (intro exI [of _ h']) simp
qed

text \<open>The links of a level after the node behind the place was taken out.\<close>

lemma links_unlink:
  assumes r: "sl_rep list h (B @ c # A)" and l: "l < 32" "l < height h c"
    and n: "sl_next h' (sl_pos list h B l) l = sl_next h c l"
    and o: "\<And>a. a \<noteq> c \<Longrightarrow> a \<noteq> sl_pos list h B l \<Longrightarrow> sl_next h' a l = sl_next h a l"
  shows "links h' l (sl_header list # on_level h l B @ on_level h l A @ [sl_tail list])"
proof -
  let ?p = "sl_pos list h B l"
  obtain xs q ys where e: "\<And>zs. sl_header list # on_level h l B @ zs = xs @ ?p # zs"
    and q: "on_level h l A @ [sl_tail list] = q # ys" using level_split [where list = list and h = h and l = l and B = B and A = A] by metis
  have k: "links h l (xs @ ?p # c # q # ys)" using sl_repD(11) [OF r l(1)] e q l(2) by simp
  have "distinct (xs @ ?p # c # q # ys)" using distinct_level [OF r, of l] l(2) e q by simp
  then have "sl_next h' a l = sl_next h a l" if "a \<in> set (xs @ q # ys)" for a using o [of a] that by auto
  moreover have "sl_next h' ?p l = Some q" using n links_next [of h l "xs @ [?p]" c q ys] k by simp
  ultimately have "links h' l (xs @ ?p # q # ys)" using k links_delete by blast
  then show ?thesis by (simp only: e q)
qed

lemma sl_unlink_rep:
  assumes r: "sl_rep list h (B @ c # A)"
    and upd: "length upd = 32" "\<And>l. l \<le> sl_level list \<Longrightarrow> upd_get upd l = Some (sl_pos list h B l)"
  shows "\<exists>h'. sl_unlink h upd c (sl_level list) 0 = Some h' \<and> sl_rep list (h'(c := None)) (B @ A)
    \<and> (\<forall>p. sl_shape h' p = sl_shape h p)"
proof -
  let ?n = "height h c" and ?pos = "sl_pos list h B"
  have n: "0 < ?n" "?n \<le> sl_level list + 1" using sl_repD(9,10) [OF r, of c] by auto
  have lv: "sl_level list < 31" by (rule sl_repD(2) [OF r])
  have c: "c \<notin> set (sl_header list # (B @ A) @ [sl_tail list])" using sl_repD(3) [OF r] by auto
  have pos: "?pos l \<noteq> c" if "l < 32" for l using sl_pos_in(1) [OF r that] c by auto
  have lo: "sl_next h (?pos m) m = Some c \<and> sl_next h c m \<noteq> None \<and> ?pos m \<noteq> c" if "m < ?n" for m
    using level_next [OF r, of m] pos [of m] sl_next_height [of h c m] that n lv by simp
  have hi: "\<exists>q. sl_next h (?pos ?n) ?n = Some q \<and> q \<noteq> c" if "?n \<le> sl_level list"
  proof -
    have "hd (on_level h ?n A @ [sl_tail list]) \<in> set (on_level h ?n A @ [sl_tail list])" by (rule hd_in_set) simp
    then show ?thesis using level_next [OF r, of ?n] that lv c by auto
  qed
  obtain h' where h': "sl_unlink h upd c (sl_level list) 0 = Some h'" "sl_shape h' = sl_shape h"
    "\<forall>q m. sl_next h' q m = (if 0 \<le> m \<and> m < ?n \<and> q = ?pos m then sl_next h c m else sl_next h q m)"
    using sl_unlink_ok [of 0 ?n "sl_level list" upd ?pos h c] n upd lv lo hi by auto
  let ?h = "h'(c := None)"
  have nx: "sl_next ?h q l = (if l < ?n \<and> q = ?pos l then sl_next h c l else sl_next h q l)" if "q \<noteq> c" for q l
    using h'(3) that by (simp add: sl_next_def)
  have sh: "sl_shape ?h p = sl_shape h p" if "p \<noteq> c" for p using h'(2) that by (simp add: sl_shape_def fun_eq_iff)
  have he: "height ?h p = height h p" if "p \<noteq> c" for p using sh [OF that] by (rule height_shape)
  have lev: "on_level ?h l xs = on_level h l xs" if "c \<notin> set xs" for l xs
    using that by (intro on_level_cong) (auto intro!: he simp del: fun_upd_apply)
  have "links ?h l (sl_header list # on_level ?h l (B @ A) @ [sl_tail list])" if l: "l < 32" for l
  proof (cases "l < ?n")
    case True
    have "links ?h l (sl_header list # on_level h l B @ on_level h l A @ [sl_tail list])"
      by (rule links_unlink [OF r l True]) (use nx True pos [OF l] in auto)
    then show ?thesis using lev [of "B @ A"] c by simp
  next
    case False
    then have old: "links h l (sl_header list # on_level h l (B @ A) @ [sl_tail list])" using sl_repD(11) [OF r l] by simp
    have "sl_next ?h a l = sl_next h a l" if "a \<in> set (sl_header list # on_level h l (B @ A) @ [sl_tail list])" for a
      using that c nx [of a l] False by auto
    then have "links ?h l (sl_header list # on_level h l (B @ A) @ [sl_tail list])"
      using links_same [of h l "sl_header list # on_level h l (B @ A) @ [sl_tail list]" ?h] old by blast
    then show ?thesis using lev [of "B @ A"] c by simp
  qed
  moreover have "sorted_wrt (\<lambda>p q. sl_cmp list (key_at ?h q) (key_at ?h p) < 0) (B @ A)"
    using sl_repD(12) [OF r] c by (intro sl_sorted_cong [of "B @ A" ?h h] key_at_shape sh) (auto simp: sorted_wrt_append)
  moreover have "dom ?h = set (sl_header list # (B @ A) @ [sl_tail list])"
    using sl_repD(5) [OF r] c dom_shape [of h'] dom_shape [of h] h'(2) by auto
  moreover have "data_ok ?h p \<and> 0 < height ?h p \<and> height ?h p \<le> sl_level list + 1" if "p \<in> set (B @ A)" for p
  proof -
    have p: "p \<noteq> c" using that c by auto
    show ?thesis using sl_repD(8,9,10) [OF r, of p] that data_ok_shape [OF sh [OF p]] he [OF p] by auto
  qed
  moreover have "sl_next ?h (sl_tail list) 0 = Some 0"
    using nx [of "sl_tail list" 0] sl_pos_in(1) [OF r, of 0] sl_repD(3,7) [OF r] c by auto
  moreover have "height ?h (sl_header list) = 33" using sl_repD(6) [OF r] c he by auto
  ultimately have "sl_rep list ?h (B @ A)"
    unfolding sl_rep_def using sl_repD(1,2,3,4) [OF r] by simp
  then show ?thesis using h'(1,2) by (intro exI [of _ h']) simp
qed

lemma sl_lower_ok:
  assumes r: "sl_rep list h ns"
  shows "tp < 31 \<Longrightarrow> (\<And>p. p \<in> set ns \<Longrightarrow> height h p \<le> tp + 1) \<Longrightarrow>
    \<exists>t. sl_lower list h tp = Some t \<and> t < 31 \<and> (\<forall>p \<in> set ns. height h p \<le> t + 1)"
proof (induction tp)
  case (Suc tp)
  have "sl_pos list h [] (Suc tp) = sl_header list" by (simp add: sl_pos_def)
  then have nx: "sl_next h (sl_header list) (Suc tp) = Some (hd (on_level h (Suc tp) ns @ [sl_tail list]))"
    using level_next [of list h "[]" ns "Suc tp"] r Suc.prems(1) by simp
  show ?case
  proof (cases "hd (on_level h (Suc tp) ns @ [sl_tail list]) = sl_tail list")
    case True
    have "on_level h (Suc tp) ns = []"
    proof (rule ccontr)
      assume "on_level h (Suc tp) ns \<noteq> []"
      then have "hd (on_level h (Suc tp) ns) \<in> set ns" using hd_in_set by fastforce
      then show False using True sl_repD(3) [OF r] \<open>on_level h (Suc tp) ns \<noteq> []\<close> by auto
    qed
    then have "height h p \<le> tp + 1" if "p \<in> set ns" for p using that by (auto simp: filter_empty_conv not_less)
    then obtain t where "sl_lower list h tp = Some t" "t < 31" "\<forall>p \<in> set ns. height h p \<le> t + 1"
      using Suc.IH Suc.prems(1) by auto
    then show ?thesis using True nx by simp
  next
    case False
    then show ?thesis using nx Suc.prems by auto
  qed
qed auto

lemma sl_lower_rep:
  assumes r: "sl_rep list h ns"
  shows "\<exists>t. sl_lower list h (sl_level list) = Some t \<and> sl_rep (list\<lparr>sl_level := t\<rparr>) h ns"
proof -
  obtain t where "sl_lower list h (sl_level list) = Some t" "t < 31" "\<forall>p \<in> set ns. height h p \<le> t + 1"
    using sl_lower_ok [OF r sl_repD(2,10) [OF r]] by blast
  then show ?thesis using r by (intro exI [of _ t]) (simp add: sl_rep_def)
qed

section \<open>The list as a finite map\<close>

partial_function (option) sl_chain :: "sl_heap \<Rightarrow> u8 \<Rightarrow> u8 \<Rightarrow> u8 list option" where
  "sl_chain h tail p =
     (if p = tail then Some []
      else Option.bind (sl_next h p 0) (\<lambda>n. Option.bind (sl_chain h tail n) (\<lambda>xs. Some (p # xs))))"

definition sl_nodes :: "skip_list_t \<Rightarrow> sl_heap \<Rightarrow> u8 list" where
  "sl_nodes list h = the (Option.bind (sl_next h (sl_header list) 0) (sl_chain h (sl_tail list)))"

definition sl_ok :: "sl_state \<Rightarrow> bool" where
  "sl_ok s \<longleftrightarrow> (case fst s of None \<Rightarrow> False | Some list \<Rightarrow> sl_rep list (snd s) (sl_nodes list (snd s)))"

definition sl_entries :: "sl_heap \<Rightarrow> u8 list \<Rightarrow> (u1 list \<times> u1 list) list" where
  "sl_entries h ns = map (\<lambda>p. (key_at h p, the (sl_bytes h p))) ns"

definition sl_abs :: "sl_state \<Rightarrow> u1 list \<Rightarrow> u1 list option" where
  "sl_abs s = (case fst s of None \<Rightarrow> Map.empty | Some list \<Rightarrow> map_of (sl_entries (snd s) (sl_nodes list (snd s))))"

lemma sl_chain_ok: "links h 0 (xs @ [tail]) \<Longrightarrow> tail \<notin> set xs \<Longrightarrow> sl_chain h tail (hd (xs @ [tail])) = Some xs"
proof (induction xs)
  case Nil
  then show ?case by (subst sl_chain.simps) simp
next
  case (Cons x xs)
  have "sl_next h x 0 = Some (hd (xs @ [tail]))" using Cons.prems(1) by (cases xs) auto
  moreover have "links h 0 (xs @ [tail])" using links_suffix [of h 0 "[x]" "xs @ [tail]"] Cons.prems(1) by simp
  ultimately show ?case using Cons by (subst sl_chain.simps) auto
qed

lemma sl_nodes_rep: "sl_rep list h ns \<Longrightarrow> sl_nodes list h = ns"
proof -
  assume r: "sl_rep list h ns"
  have l: "links h 0 (sl_header list # ns @ [sl_tail list])" using sl_repD(11) [OF r, of 0] on_level_0 [OF r, of ns] by simp
  then have "sl_next h (sl_header list) 0 = Some (hd (ns @ [sl_tail list]))" by (cases ns) auto
  moreover have "links h 0 (ns @ [sl_tail list])" using links_suffix [of h 0 "[sl_header list]"] l by simp
  ultimately show ?thesis using sl_chain_ok [of h ns "sl_tail list"] sl_repD(3) [OF r] by (simp add: sl_nodes_def)
qed

lemma sl_okE:
  assumes "sl_ok s"
  obtains list h ns where "s = (Some list, h)" "sl_rep list h ns" "sl_abs s = map_of (sl_entries h ns)"
  using assms by (cases s; cases "fst s") (auto simp: sl_ok_def sl_abs_def)

lemma sl_okI: "sl_rep list h ns \<Longrightarrow> sl_ok (Some list, h) \<and> sl_abs (Some list, h) = map_of (sl_entries h ns)"
  by (simp add: sl_ok_def sl_abs_def sl_nodes_rep)

lemma sl_bytes_shape: "sl_shape h p = sl_shape h' p \<Longrightarrow> sl_bytes h p = sl_bytes h' p"
  by (cases "h p"; cases "h' p") (auto simp: sl_shape_def sl_bytes_def)

lemma sl_bytes_ok: "sl_shape h p = Some (Some k, m, Some v, n) \<Longrightarrow> m \<le> length v \<Longrightarrow> sl_bytes h p = Some (take m v) \<and> key_at h p = k"
  by (auto simp: sl_shape_def sl_bytes_def mem_read_def key_at_def)

lemma data_ok_bytes: "data_ok h p \<Longrightarrow> sl_bytes h p \<noteq> None"
  using sl_bytes_ok by (fastforce simp: data_ok_def)

lemma sl_entries_cong: "(\<And>p. p \<in> set ns \<Longrightarrow> sl_shape h p = sl_shape h' p) \<Longrightarrow> sl_entries h ns = sl_entries h' ns"
  unfolding sl_entries_def by (rule map_cong) (use key_at_shape sl_bytes_shape in \<open>metis+\<close>)

lemma parts_front:
  assumes r: "sl_rep list h (B @ A)" and ab: "sl_parts list h key B A" and p: "p \<in> set B"
  shows "key_at h p \<noteq> key"
proof -
  have "sl_cmp list key (key_at h p) < 0" using ab p by (simp add: sl_parts_def)
  then show ?thesis using key_orderD(1) [OF sl_repD(1) [OF r], of key key] by auto
qed

lemma parts_rest:
  assumes r: "sl_rep list h (B @ c # A)" and p: "p \<in> set A"
  shows "key_at h p \<noteq> key_at h c"
proof -
  have "sl_cmp list (key_at h p) (key_at h c) < 0" using sl_repD(12) [OF r] p by (auto simp: sorted_wrt_append)
  then show ?thesis using key_orderD(1) [OF sl_repD(1) [OF r], of "key_at h c" "key_at h c"] by auto
qed

lemma map_of_put: "k \<notin> fst ` set xs \<Longrightarrow> map_of (xs @ (k, v) # ys) = (map_of (xs @ ys))(k \<mapsto> v)"
  by (induction xs) (auto simp: fun_upd_twist)

lemma map_of_del: "k \<notin> fst ` set (xs @ ys) \<Longrightarrow> map_of (xs @ ys) = (map_of (xs @ (k, v) # ys))(k := None)"
proof -
  assume "k \<notin> fst ` set (xs @ ys)"
  then have "map_of xs k = None" "map_of ys k = None" by (simp_all add: map_of_eq_None_iff image_Un)
  then show ?thesis by (auto simp: fun_eq_iff map_add_def split: option.splits)
qed

lemma sl_entries_simps:
  "sl_entries h (xs @ ys) = sl_entries h xs @ sl_entries h ys"
  "sl_entries h (p # xs) = (key_at h p, the (sl_bytes h p)) # sl_entries h xs"
  "fst ` set (sl_entries h xs) = key_at h ` set xs"
  by (auto simp: sl_entries_def image_image)

lemma dom_entries: "dom (map_of (sl_entries h ns)) = key_at h ` set ns"
  by (force simp: sl_entries_def dom_map_of_conv_image_fst)

lemma sl_lookup:
  assumes r: "sl_rep list h (B @ A)" and ab: "sl_parts list h key B A"
  shows "map_of (sl_entries h (B @ A)) key = (if A \<noteq> [] \<and> key_at h (hd A) = key then sl_bytes h (hd A) else None)"
proof -
  have B: "map_of (sl_entries h B) key = None"
    using parts_front [OF r ab] dom_entries [of h B] by (metis (no_types, lifting) domIff imageE)
  show ?thesis
  proof (cases "A \<noteq> [] \<and> key_at h (hd A) = key")
    case True
    then obtain a A' where A: "A = a # A'" by (cases A) auto
    obtain v where "sl_bytes h a = Some v"
      using data_ok_bytes [OF sl_repD(8) [OF r, of a]] A by auto
    then show ?thesis using True A B by (simp add: sl_entries_def map_add_def)
  next
    case False
    have "key_at h p \<noteq> key" if "p \<in> set A" for p
      using parts_less [OF r ab _ that] False key_orderD(1) [OF sl_repD(1) [OF r], of key key] by auto
    then have "map_of (sl_entries h A) key = None"
      using dom_entries [of h A] by (metis (no_types, lifting) domIff imageE)
    then show ?thesis using False B by (auto simp: sl_entries_def map_add_def)
  qed
qed

section \<open>The operations on the invariant\<close>

lemma sl_rep_level: "sl_rep list h ns \<Longrightarrow> sl_level list \<le> L \<Longrightarrow> L < 31 \<Longrightarrow> sl_rep (list\<lparr>sl_level := L\<rparr>) h ns"
  unfolding sl_rep_def by (auto intro: le_trans)

text \<open>The search of every operation, in the form its callers use.\<close>

lemma sl_search_start:
  assumes r: "sl_rep list h ns"
  obtains B A upd where "ns = B @ A" "sl_parts list h key B A"
    "sl_search list h key (sl_level list) (sl_header list) (replicate SKIP_LIST_MAX_LEVEL None) = Some (hd (A @ [sl_tail list]), upd)"
    "length upd = 32" "\<forall>l \<le> sl_level list. upd_get upd l = Some (sl_pos list h B l)"
proof -
  obtain B A where ba: "ns = B @ A" "sl_parts list h key B A" using sl_parts_ex [OF r] by blast
  then have r': "sl_rep list h (B @ A)" using r by simp
  obtain upd where u: "sl_search list h key (sl_level list) (sl_header list) (replicate SKIP_LIST_MAX_LEVEL None) = Some (hd (A @ [sl_tail list]), upd)"
    "length upd = 32" "\<forall>m \<le> sl_level list. upd ! m = Some (sl_pos list h B m)"
    using sl_search_ok [OF r' ba(2) sl_rep_top [OF r], of "sl_header list" "replicate SKIP_LIST_MAX_LEVEL None"]
    by (auto simp: SKIP_LIST_MAX_LEVEL_def)
  show thesis by (rule that [OF ba u(1,2)]) (use u sl_repD(2) [OF r] in \<open>auto simp: upd_get_def\<close>)
qed

text \<open>
  What the environment may answer: \<open>rand\<close> ends the loop of \<open>get_node_level\<close> and does not ask for a level above 30
  when the list is at level 30 (each further level has a probability of a quarter); the node block is free.
\<close>

type_synonym sl_env = "u4 list \<times> u8 option \<times> allocator \<times> u8"

definition sl_env_ok :: "sl_env \<Rightarrow> sl_state \<Rightarrow> bool" where
  "sl_env_ok a s = (case a of (rand, ans, mal, junk) \<Rightarrow>
     (case get_node_level rand of None \<Rightarrow> False
      | Some lev \<Rightarrow> lev < 31 \<or> (case fst s of None \<Rightarrow> True | Some list \<Rightarrow> sl_level list < 30)) \<and>
     (case ans of None \<Rightarrow> True | Some c \<Rightarrow> c \<noteq> 0 \<and> snd s c = None))"

definition sl_room :: "sl_env \<Rightarrow> u1 list \<Rightarrow> u1 list \<Rightarrow> bool" where
  "sl_room a k v = (case a of (rand, ans, mal, junk) \<Rightarrow> ans \<noteq> None \<and> mal (length k) \<and> mal (length v))"

lemma sl_add_ok:
  assumes r: "sl_rep list h (B @ A)" and ab: "sl_parts list h key B A" and miss: "A \<noteq> [] \<longrightarrow> key_at h (hd A) \<noteq> key"
    and upd: "length upd = 32" "\<And>l. l \<le> sl_level list \<Longrightarrow> upd_get upd l = Some (sl_pos list h B l)"
    and env: "sl_env_ok (rand, ans, mal, junk) (Some list, h)"
  shows "\<exists>s'. sl_add rand ans mal junk ret list h upd key v = Some (if sl_room (rand, ans, mal, junk) key v then ret else -2, s')
    \<and> sl_ok s' \<and> sl_abs s' = (if sl_room (rand, ans, mal, junk) key v then (map_of (sl_entries h (B @ A)))(key \<mapsto> v) else map_of (sl_entries h (B @ A)))"
proof -
  obtain g where g: "get_node_level rand = Some g" using env by (auto simp: sl_env_ok_def split: option.splits)
  then have g31: "g < 31 \<or> sl_level list < 30" using env by (simp add: sl_env_ok_def)
  have lv: "sl_level list < 31" by (rule sl_repD(2) [OF r])
  let ?up = "sl_level list < g"
  let ?lev = "if ?up then sl_level list + 1 else g" and ?L = "if ?up then sl_level list + 1 else sl_level list"
  let ?upd = "if ?up then upd[sl_level list + 1 := Some (sl_header list)] else upd"
  have L: "sl_level list \<le> ?L" "?lev \<le> ?L" "?L < 31" using g31 lv by auto
  have same: "list\<lparr>sl_level := ?L\<rparr> = (if ?up then list\<lparr>sl_level := sl_level list + 1\<rparr> else list)" by simp
  have "on_level h (sl_level list + 1) B = []" using sl_repD(10) [OF r] by (fastforce simp: filter_empty_conv)
  then have top_pos: "sl_pos list h B (sl_level list + 1) = sl_header list" by (simp add: sl_pos_def)
  have upd': "upd_get ?upd l = Some (sl_pos list h B l)" if "l \<le> ?lev" for l
    using that upd L top_pos by (cases "?up \<and> l = sl_level list + 1") (auto simp: upd_get_def split: if_splits)
  have pre: "(if ?up then do {
          let list = list\<lparr>sl_level := sl_level list + 1\<rparr>;
          upd \<leftarrow> upd_set upd (sl_level list) (sl_header list);
          Some (sl_level list, list, upd) }
        else Some (g, list, upd)) = Some (?lev, list\<lparr>sl_level := ?L\<rparr>, ?upd)"
    using upd(1) L(3) by (auto simp: upd_set_def)
  show ?thesis
  proof (cases "sl_room (rand, ans, mal, junk) key v")
    case False
    then have "sl_add rand ans mal junk ret list h upd key v = Some (-2, Some (list\<lparr>sl_level := ?L\<rparr>), h)"
      using g pre by (auto simp: sl_add_def sl_room_def split: option.splits)
    then show ?thesis using False sl_okI [OF sl_rep_level [OF r L(1,3)]] by simp
  next
    case True
    then obtain c where c: "ans = Some c" "c \<noteq> 0" "h c = None" "mal (length key)" "mal (length v)"
      using env by (auto simp: sl_room_def sl_env_ok_def)
    obtain h' where h': "sl_link (h(c \<mapsto> \<lparr>sn_key = Some key, sn_vsize = length v, sn_value = Some v, sn_next = replicate (?lev + 1) junk\<rparr>)) ?upd c ?lev = Some h'"
      "sl_rep (list\<lparr>sl_level := ?L\<rparr>) h' (B @ c # A)" "\<forall>p. p \<noteq> c \<longrightarrow> sl_shape h' p = sl_shape h p"
      "sl_shape h' c = Some (Some key, length v, Some v, ?lev + 1)"
      using sl_insert_rep [OF r ab miss c(3,2) L upd', of v junk] by metis
    have res: "sl_add rand ans mal junk ret list h upd key v = Some (ret, Some (list\<lparr>sl_level := ?L\<rparr>), h')"
      using g pre c h'(1) by (simp add: sl_add_def)
    have fresh: "c \<notin> set (B @ A)" using sl_repD(5) [OF r] c(3) by auto
    have "sl_entries h' B = sl_entries h B" "sl_entries h' A = sl_entries h A"
      by (rule sl_entries_cong, use h'(3) fresh in force)+
    moreover have "key \<notin> fst ` set (sl_entries h B)" using parts_front [OF r ab] by (auto simp: sl_entries_simps)
    ultimately have "map_of (sl_entries h' (B @ c # A)) = (map_of (sl_entries h (B @ A)))(key \<mapsto> v)"
      using sl_bytes_ok [OF h'(4)] map_of_put [of key "sl_entries h B" v "sl_entries h A"] by (simp add: sl_entries_simps)
    then show ?thesis using True res sl_okI [OF h'(2)] by simp
  qed
qed

lemma sl_insert_ok:
  assumes s: "sl_ok s" and a: "sl_env_ok (rand, ans, mal, junk) s"
  shows "\<exists>s'. skip_list_insert rand ans mal junk s (Some k) (Some v) =
      Some (if sl_abs s k \<noteq> None then -3 else if sl_room (rand, ans, mal, junk) k v then 0 else -2, s') \<and> sl_ok s' \<and>
      sl_abs s' = (if sl_abs s k = None \<and> sl_room (rand, ans, mal, junk) k v then (sl_abs s)(k \<mapsto> v) else sl_abs s)"
proof -
  obtain list h ns where l: "s = (Some list, h)" "sl_rep list h ns" "sl_abs s = map_of (sl_entries h ns)" using sl_okE [OF s] .
  obtain B A upd where p: "ns = B @ A" "sl_parts list h k B A"
    "sl_search list h k (sl_level list) (sl_header list) (replicate SKIP_LIST_MAX_LEVEL None) = Some (hd (A @ [sl_tail list]), upd)"
    "length upd = 32" "\<forall>l \<le> sl_level list. upd_get upd l = Some (sl_pos list h B l)"
    using sl_search_start [OF l(2), where key = k] .
  have r: "sl_rep list h (B @ A)" using l(2) p(1) by simp
  have hit: "sl_hit list h (hd (A @ [sl_tail list])) (\<lambda>ck. sl_cmp list ck k) = Some (A \<noteq> [] \<and> key_at h (hd A) = k)"
    by (rule sl_hit_ok [OF r p(2)]) (rule key_orderD(1) [OF sl_repD(1) [OF r]])
  have abs: "sl_abs s k \<noteq> None \<longleftrightarrow> A \<noteq> [] \<and> key_at h (hd A) = k"
  proof -
    have "sl_bytes h (hd A) \<noteq> None" if "A \<noteq> []"
      using sl_repD(8) [OF r, of "hd A"] that data_ok_bytes by simp
    then show ?thesis using sl_lookup [OF r p(2)] l(3) p(1) by auto
  qed
  show ?thesis
  proof (cases "sl_abs s k = None")
    case False
    then have "skip_list_insert rand ans mal junk s (Some k) (Some v) = Some (-3, s)"
      using l(1) p(3) hit abs by (simp add: skip_list_insert_def)
    then show ?thesis using False s by auto
  next
    case True
    then have "A \<noteq> [] \<longrightarrow> key_at h (hd A) \<noteq> k" using abs by blast
    from sl_add_ok [OF r p(2) this p(4) p(5) [rule_format], of rand ans mal junk 0 v] show ?thesis
      using True l(1,3) p(1,3) hit abs a by (auto simp: skip_list_insert_def)
  qed
qed

lemma sl_erase_ok:
  assumes s: "sl_ok s"
  shows "\<exists>s'. skip_list_erase s (Some k) = Some s' \<and> sl_ok s' \<and> sl_abs s' = (sl_abs s)(k := None) \<and>
    (\<forall>p. snd s p = None \<longrightarrow> snd s' p = None)"
proof -
  obtain list h ns where l: "s = (Some list, h)" "sl_rep list h ns" "sl_abs s = map_of (sl_entries h ns)" using sl_okE [OF s] .
  obtain B A upd where p: "ns = B @ A" "sl_parts list h k B A"
    "sl_search list h k (sl_level list) (sl_header list) (replicate SKIP_LIST_MAX_LEVEL None) = Some (hd (A @ [sl_tail list]), upd)"
    "length upd = 32" "\<forall>l \<le> sl_level list. upd_get upd l = Some (sl_pos list h B l)"
    using sl_search_start [OF l(2), where key = k] .
  have r: "sl_rep list h (B @ A)" using l(2) p(1) by simp
  have o: "sl_cmp list k x = 0 \<longleftrightarrow> x = k" for x using key_orderD(1) [OF sl_repD(1) [OF r], of k x] by auto
  note hit = sl_hit_ok [OF r p(2) o]
  show ?thesis
  proof (cases "A \<noteq> [] \<and> key_at h (hd A) = k")
    case False
    then have "sl_abs s k = None" using sl_lookup [OF r p(2)] l(3) p(1) by auto
    then show ?thesis using l(1) p(3) hit False s by (auto simp: skip_list_erase_def fun_upd_idem)
  next
    case True
    then obtain c A' where A: "A = c # A'" "key_at h c = k" by (cases A) auto
    have r2: "sl_rep list h (B @ c # A')" using r A by simp
    obtain h' where h': "sl_unlink h upd c (sl_level list) 0 = Some h'" "sl_rep list (h'(c := None)) (B @ A')"
      "\<forall>p. sl_shape h' p = sl_shape h p" using sl_unlink_rep [OF r2 p(4) p(5) [rule_format]] by blast
    obtain t where t: "sl_lower list (h'(c := None)) (sl_level list) = Some t" "sl_rep (list\<lparr>sl_level := t\<rparr>) (h'(c := None)) (B @ A')"
      using sl_lower_rep [OF h'(2)] by blast
    have res: "skip_list_erase s (Some k) = Some (Some (list\<lparr>sl_level := t\<rparr>), h'(c := None))"
      using l(1) p(3) hit True A h'(1) t(1) by (simp add: skip_list_erase_def)
    have fresh: "c \<notin> set (B @ A')" using sl_repD(3) [OF r2] by auto
    have e: "sl_entries (h'(c := None)) xs = sl_entries h xs" if "c \<notin> set xs" for xs
      by (rule sl_entries_cong) (use h'(3) that in \<open>auto simp: sl_shape_def\<close>)
    have "k \<notin> fst ` set (sl_entries h B @ sl_entries h A')"
    proof -
      have "k \<notin> key_at h ` set B" "k \<notin> key_at h ` set A'" using parts_front [OF r p(2)] parts_rest [OF r2] A(2) by (metis imageE)+
      then show ?thesis by (simp add: image_Un sl_entries_simps)
    qed
    from map_of_del [OF this, of "the (sl_bytes h c)"]
    have "map_of (sl_entries (h'(c := None)) (B @ A')) = (map_of (sl_entries h (B @ A)))(k := None)"
      using A e fresh by (simp add: sl_entries_simps)
    moreover have "h' q = None" if "h q = None" for q using h'(3) that by (metis (no_types, lifting) option.map_disc_iff sl_shape_def)
    ultimately show ?thesis using res sl_okI [OF t(2)] l(1,3) p(1) by auto
  qed
qed

definition sl_get :: "sl_state \<Rightarrow> u1 list \<Rightarrow> (n4 \<times> u1 list option) option" where
  "sl_get s k = do {
     (c, p) \<leftarrow> skip_list_find s (Some k) True;
     Some (c, case p of None \<Rightarrow> None | Some q \<Rightarrow> sl_bytes (snd s) q) }"

lemma sl_find_ok:
  assumes s: "sl_ok s"
  shows "sl_get s k = Some (if sl_abs s k = None then -2 else 0, sl_abs s k)"
proof -
  obtain list h ns where l: "s = (Some list, h)" "sl_rep list h ns" "sl_abs s = map_of (sl_entries h ns)" using sl_okE [OF s] .
  obtain B A where p: "ns = B @ A" "sl_parts list h k B A" using sl_parts_ex [OF l(2)] by blast
  have r: "sl_rep list h (B @ A)" using l(2) p(1) by simp
  have f: "sl_find_loop list h k (sl_level list) (sl_header list) = Some (hd (A @ [sl_tail list]))"
    by (rule sl_find_loop_ok [OF r p(2) sl_rep_top [OF r]]) simp
  have hit: "sl_hit list h (hd (A @ [sl_tail list])) (\<lambda>ck. sl_cmp list ck k) = Some (A \<noteq> [] \<and> key_at h (hd A) = k)"
    by (rule sl_hit_ok [OF r p(2)]) (rule key_orderD(1) [OF sl_repD(1) [OF r]])
  have v: "sl_bytes h (hd A) \<noteq> None" if "A \<noteq> []"
    using sl_repD(8) [OF r, of "hd A"] that data_ok_bytes by simp
  show ?thesis using l p f hit v sl_lookup [OF r p(2)] by (auto simp: sl_get_def skip_list_find_def)
qed

abbreviation sl_put :: "sl_env \<Rightarrow> sl_state \<Rightarrow> u1 list \<Rightarrow> u1 list \<Rightarrow> (n4 \<times> sl_state) option" where
  "sl_put a s k v \<equiv> skip_list_insert (fst a) (fst (snd a)) (fst (snd (snd a))) (snd (snd (snd a))) s (Some k) (Some v)"

text \<open>\<open>skip_list_erase\<close> has no return value; its sequences are given the code 0.\<close>

abbreviation sl_del :: "sl_state \<Rightarrow> u1 list \<Rightarrow> (n4 \<times> sl_state) option" where
  "sl_del s k \<equiv> map_option (Pair 0) (skip_list_erase s (Some k))"

interpretation sk: keyed_map sl_ok sl_abs sl_env_ok sl_get sl_put sl_del
proof (unfold_locales, goal_cases)
  case (1 s k)
  then show ?case using sl_find_ok [OF 1] by auto
next
  case (2 s a k v)
  obtain rand ans mal junk where a: "a = (rand, ans, mal, junk)" by (cases a) auto
  obtain s' where "sl_put a s k v = Some (if sl_abs s k \<noteq> None then -3 else if sl_room a k v then 0 else -2, s')" "sl_ok s'"
    "sl_abs s' = (if sl_abs s k = None \<and> sl_room a k v then (sl_abs s)(k \<mapsto> v) else sl_abs s)"
    using sl_insert_ok [OF 2(1), of rand ans mal junk k v] 2(2) unfolding a by auto
  then show ?case by (cases "sl_abs s k"; cases "sl_room a k v") simp_all
next
  case (3 s k)
  then show ?case using sl_erase_ok [OF 3, of k] by auto
qed

section \<open>Making and freeing a list\<close>

lemma sl_init_ok:
  assumes o: "key_order c" and a: "t \<noteq> 0" "hdr \<noteq> 0" "t \<noteq> hdr"
  shows "sl_ok (snd (skip_list_init True (Some c) (Some t) True (Some hdr) junk Map.empty))
    \<and> sl_abs (snd (skip_list_init True (Some c) (Some t) True (Some hdr) junk Map.empty)) = Map.empty"
proof -
  let ?l = "\<lparr>sl_level = 0, sl_cmp = c, sl_tail = t, sl_header = hdr\<rparr>"
  let ?h = "snd (snd (skip_list_init True (Some c) (Some t) True (Some hdr) junk Map.empty))"
  have i: "snd (skip_list_init True (Some c) (Some t) True (Some hdr) junk Map.empty) = (Some ?l, ?h)"
    by (simp add: skip_list_init_def)
  have n: "sl_next ?h hdr l = Some t" if "l < 32" for l
    using that by (simp add: skip_list_init_def sl_next_def SKIP_LIST_MAX_LEVEL_def nth_append)
  have "sl_rep ?l ?h []"
    using o a n by (auto simp: sl_rep_def height_def skip_list_init_def sl_next_def SKIP_LIST_MAX_LEVEL_def)
  from sl_okI [OF this] show ?thesis using i by (simp add: sl_entries_def)
qed

lemma sl_free_loop_ok:
  "links h 0 (xs @ [t]) \<Longrightarrow> distinct (xs @ [t]) \<Longrightarrow> 0 \<notin> set (xs @ [t]) \<Longrightarrow> sl_next h t 0 = Some 0 \<Longrightarrow>
     sl_free_loop h (hd (xs @ [t])) = Some (\<lambda>p. if p \<in> set (xs @ [t]) then None else h p)"
proof (induction xs arbitrary: h)
  case Nil
  then have "sl_free_loop h t = sl_free_loop (h(t := None)) 0" by (subst sl_free_loop.simps) simp
  also have "\<dots> = Some (h(t := None))" by (subst sl_free_loop.simps) simp
  finally show ?case by (auto simp: fun_eq_iff)
next
  case (Cons x xs)
  have nx: "sl_next h x 0 = Some (hd (xs @ [t]))" using Cons.prems(1) by (cases xs) auto
  have o: "sl_next (h(x := None)) a 0 = sl_next h a 0" if "a \<noteq> x" for a using that by (simp add: sl_next_def)
  have "links h 0 (xs @ [t])" using links_suffix [of h 0 "[x]" "xs @ [t]"] Cons.prems(1) by simp
  then have "links (h(x := None)) 0 (xs @ [t])" by (rule links_same) (use Cons.prems(2) in \<open>auto intro!: o\<close>)
  then have "sl_free_loop (h(x := None)) (hd (xs @ [t])) = Some (\<lambda>p. if p \<in> set (xs @ [t]) then None else (h(x := None)) p)"
    by (rule Cons.IH) (use Cons.prems in \<open>auto simp: sl_next_def\<close>)
  then show ?case using nx Cons.prems(3) by (subst sl_free_loop.simps) (auto simp: fun_eq_iff)
qed

lemma sl_uninit_ok:
  assumes "sl_ok s"
  shows "skip_list_uninit (Some s) = Some (Some (None, Map.empty))"
proof -
  obtain list h ns where l: "s = (Some list, h)" "sl_rep list h ns" using sl_okE [OF assms] by metis
  have "links h 0 ((sl_header list # ns) @ [sl_tail list])" using sl_repD(11) [OF l(2), of 0] on_level_0 [OF l(2), of ns] by simp
  from sl_free_loop_ok [OF this] sl_repD(3,4,7) [OF l(2)]
  have "sl_free_loop h (sl_header list) = Some (\<lambda>p. if p \<in> set ((sl_header list # ns) @ [sl_tail list]) then None else h p)" by simp
  moreover have "(\<lambda>p. if p \<in> set ((sl_header list # ns) @ [sl_tail list]) then None else h p) = Map.empty"
    using sl_repD(5) [OF l(2)] by (auto simp: fun_eq_iff)
  ultimately show ?thesis using l(1) by (simp add: skip_list_uninit_def)
qed

section \<open>Replacing a value\<close>

lemma sl_value_rep:
  assumes r: "sl_rep list h ns" and c: "c \<in> set ns" "h c = Some nd" and b: "m \<le> length b"
  shows "sl_rep list (h(c \<mapsto> nd\<lparr>sn_vsize := m, sn_value := Some b\<rparr>)) ns"
proof -
  let ?h = "h(c \<mapsto> nd\<lparr>sn_vsize := m, sn_value := Some b\<rparr>)"
  have n: "sl_next ?h p l = sl_next h p l" for p l using c(2) by (simp add: sl_next_def)
  have he: "height ?h p = height h p" for p using c(2) by (simp add: height_def)
  have k: "key_at ?h p = key_at h p" for p using c(2) by (simp add: key_at_def)
  have "links ?h l xs" if "links h l xs" for l xs using that by (rule links_same) (rule n)
  moreover have "data_ok ?h p" if "p \<in> set ns" for p
    using sl_repD(8) [OF r that] data_okD [OF sl_repD(8) [OF r c(1)]] c(2) b by (cases "p = c") (auto simp: data_ok_def sl_shape_def)
  moreover have "dom ?h = dom h" using c(2) by auto
  ultimately show ?thesis using r unfolding sl_rep_def he n k by (simp only: simp_thms Ball_def) blast
qed

lemma sl_update_split:
  assumes s: "sl_ok s"
  obtains list h B A upd where "s = (Some list, h)" "sl_rep list h (B @ A)" "sl_parts list h k B A"
    "sl_abs s = map_of (sl_entries h (B @ A))" "length upd = 32" "\<forall>l \<le> sl_level list. upd_get upd l = Some (sl_pos list h B l)"
    "\<forall>rand ans mal junk fill v. skip_list_update rand ans mal junk fill s (Some k) (Some v) =
       (if A \<noteq> [] \<and> key_at h (hd A) = k then do {
          nd \<leftarrow> h (hd A);
          (ret, nd) \<leftarrow> sl_replace mal fill nd v;
          Some (ret, Some list, h(hd A \<mapsto> nd)) }
        else sl_add rand ans mal junk 1 list h upd k v)"
proof -
  obtain list h ns where l: "s = (Some list, h)" "sl_rep list h ns" "sl_abs s = map_of (sl_entries h ns)" using sl_okE [OF s] .
  obtain B A upd where p: "ns = B @ A" "sl_parts list h k B A"
    "sl_search list h k (sl_level list) (sl_header list) (replicate SKIP_LIST_MAX_LEVEL None) = Some (hd (A @ [sl_tail list]), upd)"
    "length upd = 32" "\<forall>l \<le> sl_level list. upd_get upd l = Some (sl_pos list h B l)"
    using sl_search_start [OF l(2), where key = k] .
  have r: "sl_rep list h (B @ A)" using l(2) p(1) by simp
  have hit: "sl_hit list h (hd (A @ [sl_tail list])) (\<lambda>ck. sl_cmp list ck k) = Some (A \<noteq> [] \<and> key_at h (hd A) = k)"
    by (rule sl_hit_ok [OF r p(2)]) (rule key_orderD(1) [OF sl_repD(1) [OF r]])
  show thesis
    by (rule that [OF l(1) r p(2) _ p(4,5)]) (use l p hit in \<open>simp_all add: skip_list_update_def\<close>)
qed

lemma sl_update_found:
  assumes s: "sl_ok s" and k: "sl_abs s k = Some old"
  obtains list h c nd b where "s = (Some list, h)" "h c = Some nd" "sn_key nd = Some k" "sn_value nd = Some b"
    "old = take (sn_vsize nd) b" "sn_vsize nd \<le> length b" "sn_vsize nd = length old"
    "\<forall>m w. m \<le> length w \<longrightarrow> sl_ok (Some list, h(c \<mapsto> nd\<lparr>sn_vsize := m, sn_value := Some w\<rparr>)) \<and>
       sl_abs (Some list, h(c \<mapsto> nd\<lparr>sn_vsize := m, sn_value := Some w\<rparr>)) = (sl_abs s)(k \<mapsto> take m w)"
    "\<forall>rand ans mal junk fill v. skip_list_update rand ans mal junk fill s (Some k) (Some v) = do {
          (ret, nd) \<leftarrow> sl_replace mal fill nd v;
          Some (ret, Some list, h(c \<mapsto> nd)) }"
proof -
  obtain list h B A upd where l: "s = (Some list, h)" "sl_rep list h (B @ A)" "sl_parts list h k B A"
    "sl_abs s = map_of (sl_entries h (B @ A))" "length upd = 32" "\<forall>l \<le> sl_level list. upd_get upd l = Some (sl_pos list h B l)"
    and u: "\<forall>rand ans mal junk fill v. skip_list_update rand ans mal junk fill s (Some k) (Some v) =
       (if A \<noteq> [] \<and> key_at h (hd A) = k then do {
          nd \<leftarrow> h (hd A);
          (ret, nd) \<leftarrow> sl_replace mal fill nd v;
          Some (ret, Some list, h(hd A \<mapsto> nd)) }
        else sl_add rand ans mal junk 1 list h upd k v)" using sl_update_split [OF s, where k = k] .
  have A: "A \<noteq> []" "key_at h (hd A) = k" "sl_bytes h (hd A) = Some old"
    using sl_lookup [OF l(2,3)] l(4) k by (auto split: if_splits)
  let ?c = "hd A"
  have c: "?c \<in> set (B @ A)" using A(1) by simp
  obtain nd b where nd: "h ?c = Some nd" "sn_key nd = Some k" "sn_value nd = Some b" "sn_vsize nd \<le> length b"
    using sl_repD(8) [OF l(2) c] A(2) by (auto simp: data_ok_def sl_shape_def key_at_def)
  have old: "old = take (sn_vsize nd) b" using A(3) nd by (simp add: sl_bytes_def mem_read_def)
  have new: "sl_ok (Some list, h(?c \<mapsto> nd\<lparr>sn_vsize := m, sn_value := Some w\<rparr>)) \<and>
      sl_abs (Some list, h(?c \<mapsto> nd\<lparr>sn_vsize := m, sn_value := Some w\<rparr>)) = (sl_abs s)(k \<mapsto> take m w)"
    if m: "m \<le> length w" for m w
  proof -
    let ?h = "h(?c \<mapsto> nd\<lparr>sn_vsize := m, sn_value := Some w\<rparr>)"
    obtain A' where A': "A = ?c # A'" using A(1) by (cases A) auto
    have fresh: "?c \<notin> set B" "?c \<notin> set A'" using sl_repD(3) [OF l(2)] A' by (metis distinct.simps(2) distinct_append not_distinct_conv_prefix append_Cons append_assoc, metis distinct.simps(2) distinct_append)
    have e: "sl_entries ?h xs = sl_entries h xs" if "?c \<notin> set xs" for xs
      by (rule sl_entries_cong) (use that in \<open>auto simp: sl_shape_def\<close>)
    have kb: "k \<notin> fst ` set (sl_entries h B)" using parts_front [OF l(2,3)] by (auto simp: sl_entries_simps)
    have c1: "sl_entries ?h [?c] = [(k, take m w)]" using nd m by (simp add: sl_entries_def key_at_def sl_bytes_def mem_read_def)
    have c2: "sl_entries h [?c] = [(k, old)]" using A by (simp add: sl_entries_def)
    have "sl_entries ?h (B @ A) = sl_entries h B @ (k, take m w) # sl_entries h A'"
      by (subst A') (use e fresh c1 in \<open>simp add: sl_entries_simps\<close>)
    moreover have "sl_entries h (B @ A) = sl_entries h B @ (k, old) # sl_entries h A'"
      by (subst A') (use c2 in \<open>simp add: sl_entries_simps\<close>)
    ultimately have "map_of (sl_entries ?h (B @ A)) = (map_of (sl_entries h (B @ A)))(k \<mapsto> take m w)"
      using map_of_put [OF kb] by simp
    then show ?thesis using sl_okI [OF sl_value_rep [OF l(2) c nd(1) m]] l(4) by simp
  qed
  show thesis
    by (rule that [OF l(1) nd(1,2,3) old nd(4)]) (use old nd u A(1,2) new in \<open>simp_all del: fun_upd_apply\<close>)
qed

section \<open>Properties\<close>

abbreviation sl_made :: "(u1 list \<Rightarrow> u1 list \<Rightarrow> int) \<Rightarrow> u8 \<Rightarrow> u8 \<Rightarrow> u8 \<Rightarrow> sl_state" where
  "sl_made c t hdr junk \<equiv> snd (skip_list_init True (Some c) (Some t) True (Some hdr) junk Map.empty)"

lemma level_high: "get_node_level [0x8000] = Some 0"
  by (simp add: get_node_level_def SKIP_LIST_MAX_LEVEL_def)

lemma made_ok: "sl_ok (sl_made bytes_cmp 64 128 7)" "sl_abs (sl_made bytes_cmp 64 128 7) = Map.empty"
  using sl_init_ok [OF bytes_order, of 64 128 7] by simp_all

lemma made_env: "sl_env_ok ([0x8000], Some 192, \<lambda>n. True, 7) (sl_made bytes_cmp 64 128 7)"
  by (simp add: sl_env_ok_def level_high skip_list_init_def)

text \<open>A list with one entry, for the examples.\<close>

definition one_list :: sl_state where
  "one_list = snd (the (skip_list_insert [0x8000] (Some 192) (\<lambda>n. True) 7 (sl_made bytes_cmp 64 128 7) (Some [1]) (Some [10])))"

lemma one_list:
  "skip_list_insert [0x8000] (Some 192) (\<lambda>n. True) 7 (sl_made bytes_cmp 64 128 7) (Some [1]) (Some [10]) = Some (0, one_list)"
  "sl_ok one_list" "sl_abs one_list = [[1] \<mapsto> [10]]"
  using sl_insert_ok [OF made_ok(1) made_env, of "[1]" "[10]"] made_ok(2) by (auto simp: one_list_def sl_room_def)

text \<open>
  C15. A list that \<open>skip_list_init\<close> has made with an order of the keys is a finite map for every sequence of insertions
  and removals: every call comes back without a fault, the levels stay sorted lists of the nodes of
  the store, and every later lookup gives what the finite map gives on which the calls that answered 0
  were done. The allocator may fail at any call. The values of \<open>rand\<close> must not raise the list above level 30: at level 31
  \<open>skip_list_erase\<close> reads and at level 32 \<open>skip_list_insert\<close> writes behind the local array \<open>update\<close> (the two theorems at the end).
\<close>

theorem skiplist_run_refines:
  assumes "key_order c" "t \<noteq> 0" "hdr \<noteq> 0" "t \<noteq> hdr"
    and "m_legal sl_env_ok sl_put sl_del ops (sl_made c t hdr junk)"
  shows "\<exists>cs s. m_run sl_put sl_del ops (sl_made c t hdr junk) = Some (cs, s) \<and> length cs = length ops \<and> sl_ok s \<and>
     (\<forall>k. \<exists>r. sl_get s k = Some (r, m_spec ops cs Map.empty k))"
proof -
  note i = sl_init_ok [OF assms(1-4), of junk]
  from sk.run_find [OF conjunct1 [OF i] assms(5)] show ?thesis unfolding conjunct2 [OF i] .
qed

theorem skiplist_run_refines_witness:
  "\<exists>d s. m_run sl_put sl_del [MPut ([0x8000], Some 192, \<lambda>n. True, 7) [1] [10], MDel [2]] (sl_made bytes_cmp 64 128 7) = Some ([0, d], s) \<and>
     sl_ok s \<and> (\<exists>r. sl_get s [1] = Some (r, Some [10]))"
proof -
  let ?ops = "[MPut ([0x8000], Some 192, \<lambda>n. True, 7) [1] [10], MDel [2]] :: (sl_env, u1 list, u1 list) mop list"
  have "m_legal sl_env_ok sl_put sl_del ?ops (sl_made bytes_cmp 64 128 7)"
    using made_env one_list(1) by (simp split: option.splits)
  from skiplist_run_refines [OF bytes_order _ _ _ this] obtain cs s where
    r: "m_run sl_put sl_del ?ops (sl_made bytes_cmp 64 128 7) = Some (cs, s)" "length cs = length ?ops" "sl_ok s"
      "\<forall>k. \<exists>r. sl_get s k = Some (r, m_spec ?ops cs Map.empty k)" by auto
  obtain d where cs: "cs = [0, d]" using r(1,2) one_list(1) by (auto simp: length_Suc_conv split: option.splits)
  have "m_spec ?ops cs Map.empty [1] = Some [10]" by (simp add: cs)
  then have "\<exists>r. sl_get s [1] = Some (r, Some [10])" using spec [OF r(4), of "[1]"] by simp
  then show ?thesis using r(1,3) unfolding cs by blast
qed

text \<open>
  \<open>skip_list_erase\<close> takes exactly the entry of the key out of the list and of every level it is on,
  gives its node back, lowers the level of the list as far as the header has no node on it, and keeps
  the invariant; without the key nothing changes. No block is taken into the store.
\<close>

theorem skiplist_erase_spec:
  assumes "sl_ok s"
  shows "\<exists>s'. skip_list_erase s (Some k) = Some s' \<and> sl_ok s' \<and> sl_abs s' = (sl_abs s)(k := None) \<and>
    (\<forall>p. snd s p = None \<longrightarrow> snd s' p = None)"
  using sl_erase_ok [OF assms] .

theorem skiplist_erase_spec_witness:
  "\<exists>s'. skip_list_erase one_list (Some [1]) = Some s' \<and> sl_ok s' \<and> sl_abs s' = Map.empty"
  using skiplist_erase_spec [OF one_list(2), of "[1]"] one_list(3) by auto

text \<open>
  \<open>skip_list_update\<close> with a value longer than the stored one reports success although it has allocated
  a block of the old size and copied as many bytes as the key has: the node then claims more bytes
  of value than its block holds.
\<close>

theorem skiplist_update_overrun:
  assumes s: "sl_ok s" and k: "sl_abs s k = Some old" and len: "length old < length v" "length k \<le> length old"
    and mal: "mal (length old)"
  shows "\<exists>c nd b. skip_list_update rand ans mal junk fill s (Some k) (Some v) = Some (0, fst s, (snd s)(c \<mapsto> nd)) \<and>
    sn_key nd = Some k \<and> sn_vsize nd = length v \<and> sn_value nd = Some b \<and> length b < length v"
proof -
  obtain list h c nd b where f: "s = (Some list, h)" "h c = Some nd" "sn_key nd = Some k" "sn_value nd = Some b"
    "old = take (sn_vsize nd) b" "sn_vsize nd \<le> length b" "sn_vsize nd = length old"
    "\<forall>m w. m \<le> length w \<longrightarrow> sl_ok (Some list, h(c \<mapsto> nd\<lparr>sn_vsize := m, sn_value := Some w\<rparr>)) \<and>
       sl_abs (Some list, h(c \<mapsto> nd\<lparr>sn_vsize := m, sn_value := Some w\<rparr>)) = (sl_abs s)(k \<mapsto> take m w)"
    "\<forall>rand ans mal junk fill v. skip_list_update rand ans mal junk fill s (Some k) (Some v) = do {
          (ret, nd) \<leftarrow> sl_replace mal fill nd v;
          Some (ret, Some list, h(c \<mapsto> nd)) }" using sl_update_found [OF s k] .
  obtain w where w: "mem_write 0 (take (length k) v) (map fill [0..<length old]) = Some w"
    using mem_write_in [of 0 "take (length k) v" "map fill [0..<length old]"] len by auto
  have "length w = length old" using mem_write_length [OF w] by simp
  moreover have "sl_replace mal fill nd v = Some (0, nd\<lparr>sn_vsize := length v, sn_value := Some w\<rparr>)"
    using f(3,4,7) len mal w by (simp add: sl_replace_def mem_read_def)
  ultimately show ?thesis using f(1,3,9) len by (intro exI [of _ c] exI [of _ "nd\<lparr>sn_vsize := length v, sn_value := Some w\<rparr>"] exI [of _ w]) simp
qed

theorem skiplist_update_overrun_witness:
  "\<exists>c nd b. skip_list_update [] None (\<lambda>n. True) 7 (\<lambda>i. 0) one_list (Some [1]) (Some [11, 12, 13]) = Some (0, fst one_list, (snd one_list)(c \<mapsto> nd)) \<and>
    sn_key nd = Some [1] \<and> sn_vsize nd = length [11 :: u1, 12, 13] \<and> sn_value nd = Some b \<and> length b < length [11 :: u1, 12, 13]"
  by (rule skiplist_update_overrun [OF one_list(2), of "[1]" "[10]"]) (simp_all add: one_list(3))

text \<open>
  What \<open>skip_list_update\<close> does right: a key that is not there is inserted, with the answers 1 and -2;
  a value no longer than the stored one and exactly as long as the key replaces it, with the answer 0.
\<close>

theorem skiplist_update_spec:
  assumes s: "sl_ok s" and env: "sl_env_ok (rand, ans, mal, junk) s"
    and fit: "\<And>old. sl_abs s k = Some old \<Longrightarrow> length v = length k \<and> length v \<le> length old"
  shows "\<exists>s'. skip_list_update rand ans mal junk fill s (Some k) (Some v) =
      Some (if sl_abs s k \<noteq> None then 0 else if sl_room (rand, ans, mal, junk) k v then 1 else -2, s') \<and> sl_ok s' \<and>
      sl_abs s' = (if sl_abs s k \<noteq> None \<or> sl_room (rand, ans, mal, junk) k v then (sl_abs s)(k \<mapsto> v) else sl_abs s)"
proof (cases "sl_abs s k")
  case None
  obtain list h B A upd where l: "s = (Some list, h)" "sl_rep list h (B @ A)" "sl_parts list h k B A"
    "sl_abs s = map_of (sl_entries h (B @ A))" "length upd = 32" "\<forall>l \<le> sl_level list. upd_get upd l = Some (sl_pos list h B l)"
    and u: "\<forall>rand ans mal junk fill v. skip_list_update rand ans mal junk fill s (Some k) (Some v) =
       (if A \<noteq> [] \<and> key_at h (hd A) = k then do {
          nd \<leftarrow> h (hd A);
          (ret, nd) \<leftarrow> sl_replace mal fill nd v;
          Some (ret, Some list, h(hd A \<mapsto> nd)) }
        else sl_add rand ans mal junk 1 list h upd k v)" using sl_update_split [OF s, where k = k] .
  have "sl_bytes h (hd A) \<noteq> None" if "A \<noteq> []" using sl_repD(8) [OF l(2), of "hd A"] that data_ok_bytes by simp
  then have miss: "A \<noteq> [] \<longrightarrow> key_at h (hd A) \<noteq> k" using sl_lookup [OF l(2,3)] l(4) None by auto
  from sl_add_ok [OF l(2,3) miss l(5) l(6) [rule_format], of rand ans mal junk 1 v] show ?thesis
    using env None u miss l(1,4) by auto
next
  case (Some old)
  obtain list h c nd b where f: "s = (Some list, h)" "h c = Some nd" "sn_key nd = Some k" "sn_value nd = Some b"
    "old = take (sn_vsize nd) b" "sn_vsize nd \<le> length b" "sn_vsize nd = length old"
    "\<forall>m w. m \<le> length w \<longrightarrow> sl_ok (Some list, h(c \<mapsto> nd\<lparr>sn_vsize := m, sn_value := Some w\<rparr>)) \<and>
       sl_abs (Some list, h(c \<mapsto> nd\<lparr>sn_vsize := m, sn_value := Some w\<rparr>)) = (sl_abs s)(k \<mapsto> take m w)"
    "\<forall>rand ans mal junk fill v. skip_list_update rand ans mal junk fill s (Some k) (Some v) = do {
          (ret, nd) \<leftarrow> sl_replace mal fill nd v;
          Some (ret, Some list, h(c \<mapsto> nd)) }" using sl_update_found [OF s Some] .
  have v: "length v = length k" "length v \<le> length old" using fit [OF Some] by auto
  let ?w = "v @ drop (length v) b"
  have "sl_replace mal fill nd v = Some (0, nd\<lparr>sn_vsize := length v, sn_value := Some ?w\<rparr>)"
    using f(3,4,6,7) v by (simp add: sl_replace_def mem_read_def mem_write_def)
  then show ?thesis using f(8,9) Some spec [OF spec [OF f(8), of "length v"], of ?w] by auto
qed

theorem skiplist_update_spec_witness:
  "\<exists>s'. skip_list_update [0x8000] None (\<lambda>n. True) 7 (\<lambda>i. 0) one_list (Some [1]) (Some [11]) = Some (0, s') \<and> sl_ok s' \<and> sl_abs s' = [[1] \<mapsto> [11]]"
proof -
  have "sl_env_ok ([0x8000], None, \<lambda>n. True, 7) one_list" by (simp add: sl_env_ok_def level_high)
  from skiplist_update_spec [OF one_list(2) this, of "[1]" "[11]" "\<lambda>i. 0"] show ?thesis using one_list(3) by auto
qed

text \<open>
  \<open>skip_list_uninit\<close> gives back the header, every node and the tail, each once, and sets the pointer to \<open>nil\<close>.
\<close>

theorem skiplist_uninit_frees:
  assumes "sl_ok s"
  shows "skip_list_uninit (Some s) = Some (Some (None, Map.empty))"
  using sl_uninit_ok [OF assms] .

theorem skiplist_uninit_frees_witness: "skip_list_uninit (Some one_list) = Some (Some (None, Map.empty))"
  using skiplist_uninit_frees [OF one_list(2)] .

text \<open>
  A list at level 31 that draws level 32 writes behind the local array \<open>update\<close>. Erasing a node that is on all of the levels 0 to 31
  reads behind it.
\<close>

theorem skiplist_level_overrun:
  "sl_level list = 31 \<Longrightarrow> length upd = 32 \<Longrightarrow> get_node_level rand = Some 32 \<Longrightarrow> sl_add rand ans mal junk ret list h upd k v = None"
  by (simp add: sl_add_def upd_set_def)

lemma sl_unlink_full:
  assumes "l \<le> 32" "length upd = 32"
    and "\<And>m. l \<le> m \<Longrightarrow> m < 32 \<Longrightarrow> \<exists>pre. upd ! m = Some pre \<and> sl_next h pre m = Some c"
  shows "sl_unlink h upd c 31 l = None"
  using assms
proof (induction "32 - l" arbitrary: l h)
  case 0
  then show ?case by (subst sl_unlink.simps) simp
next
  case (Suc n l h)
  have l: "l < 32" "n = 32 - (l + 1)" using Suc.hyps(2) by simp_all
  obtain pre where pre: "upd ! l = Some pre" "sl_next h pre l = Some c" using Suc.prems(3) [of l] l by auto
  have "sl_unlink h' upd c 31 (l + 1) = None" if s: "sl_set_next h pre l d = Some h'" for d h'
  proof -
    have "sl_next h' p m = sl_next h p m" if "m \<noteq> l" for p m
      using that s by (auto simp: sl_set_next_def sl_next_def split: option.splits if_splits bind_splits)
    then show ?thesis using Suc.hyps(1) [OF l(2), of h'] Suc.prems l by auto
  qed
  then show ?case using pre l Suc.prems(2) by (subst sl_unlink.simps) (auto simp: upd_get_def split: bind_splits)
qed

theorem skiplist_erase_overrun:
  assumes "fst s = Some list" "sl_level list = 31"
    and "sl_search list (snd s) k 31 (sl_header list) (replicate SKIP_LIST_MAX_LEVEL None) = Some (cur, upd)"
    and "sl_hit list (snd s) cur (\<lambda>ck. sl_cmp list k ck) = Some True" "length upd = 32"
    and "\<And>m. m < 32 \<Longrightarrow> \<exists>pre. upd ! m = Some pre \<and> sl_next (snd s) pre m = Some cur"
  shows "skip_list_erase s (Some k) = None"
  using assms(1-4) sl_unlink_full [of 0 upd "snd s" cur] assms(5,6) by (simp add: skip_list_erase_def Let_def)

end
