(* ===== verification/Bloom.thy ===== *)
theory Bloom
  imports Lisk_Specs "HOL-Library.Monad_Syntax"
begin

text \<open>
  The Bloom filter of \<open>bloom/c/src/bloom.c\<close>: its ten hash functions, the filter with its
  serialised form, and the filter as an approximate set.

  \<^item> A string argument is the list of its bytes; a function reads up to the first zero byte.
    \<open>char\<close> is signed, as on the platform of the makefile, so a byte is sign extended where the
    code adds \<open>*str++\<close>, and not in \<open>simple_hash\<close>, which reads through an \<open>unsigned char*\<close>.
  \<^item> \<open>unsigned\<close> is \<open>u4\<close>, \<open>unsigned long\<close> and \<open>size_t\<close> are \<open>u8\<close>; the flexible array of the filter is the list of
    its bytes. An access outside a block, through \<open>nil\<close>, or a division by zero is \<open>None\<close>.
\<close>

section \<open>Hash functions\<close>

definition cstr :: "u1 list \<Rightarrow> u1 list" where
  "cstr str = takeWhile (\<lambda>b. b \<noteq> 0) str"

text \<open>A \<open>char\<close> as an \<open>unsigned\<close> operand.\<close>

definition char_val :: "u1 \<Rightarrow> u4" where
  "char_val b = scast b"

definition simple_hash :: "u1 list \<Rightarrow> u4" where
  "simple_hash str = foldl (\<lambda>hash p. 31 * hash + ucast p) 0 (cstr str) AND 0x7FFFFFFF"

definition RS_step :: "u4 \<times> u4 \<Rightarrow> u1 \<Rightarrow> u4 \<times> u4" where
  "RS_step = (\<lambda>(hash, a) c. (hash * a + char_val c, a * 378551))"

definition RS_hash :: "u1 list \<Rightarrow> u4" where
  "RS_hash str = fst (foldl RS_step (0, 63689) (cstr str)) AND 0x7FFFFFFF"

definition JS_hash :: "u1 list \<Rightarrow> u4" where
  "JS_hash str = foldl (\<lambda>hash c. hash XOR (push_bit 5 hash + char_val c + drop_bit 2 hash)) 1315423911 (cstr str) AND 0x7FFFFFFF"

definition PJW_step :: "u4 \<Rightarrow> u1 \<Rightarrow> u4" where
  "PJW_step hash c =
     (let high_bits = push_bit (32 - 4) 0xFFFFFFFF;
          hash = push_bit 4 hash + char_val c;
          test = hash AND high_bits in
      if test \<noteq> 0 then (hash XOR drop_bit 24 test) AND NOT high_bits else hash)"

definition PJW_hash :: "u1 list \<Rightarrow> u4" where
  "PJW_hash str = foldl PJW_step 0 (cstr str) AND 0x7FFFFFFF"

definition ELF_step :: "u4 \<Rightarrow> u1 \<Rightarrow> u4" where
  "ELF_step hash c =
     (let hash = push_bit 4 hash + char_val c;
          x = hash AND 0xF0000000 in
      if x \<noteq> 0 then (hash XOR drop_bit 24 x) AND NOT x else hash)"

definition ELF_hash :: "u1 list \<Rightarrow> u4" where
  "ELF_hash str = foldl ELF_step 0 (cstr str) AND 0x7FFFFFFF"

definition BKDR_hash :: "u1 list \<Rightarrow> u4" where
  "BKDR_hash str = foldl (\<lambda>hash c. hash * 131 + char_val c) 0 (cstr str) AND 0x7FFFFFFF"

definition SDBM_hash :: "u1 list \<Rightarrow> u4" where
  "SDBM_hash str = foldl (\<lambda>hash c. char_val c + push_bit 6 hash + push_bit 16 hash - hash) 0 (cstr str) AND 0x7FFFFFFF"

definition DJB_hash :: "u1 list \<Rightarrow> u4" where
  "DJB_hash str = foldl (\<lambda>hash c. hash + (push_bit 5 hash + char_val c)) 5381 (cstr str) AND 0x7FFFFFFF"

fun AP_loop :: "nat \<Rightarrow> u4 \<Rightarrow> u1 list \<Rightarrow> u4" where
  "AP_loop i hash [] = hash"
| "AP_loop i hash (c # cs) =
     AP_loop (Suc i)
       (if even i then hash XOR (push_bit 7 hash XOR char_val c XOR drop_bit 3 hash)
        else hash XOR NOT (push_bit 11 hash XOR char_val c XOR drop_bit 5 hash)) cs"

definition AP_hash :: "u1 list \<Rightarrow> u4" where
  "AP_hash str = AP_loop 0 0 (cstr str) AND 0x7FFFFFFF"

text \<open>The 16 bit words of the string are read in little-endian order.\<close>

fun CRC_sum :: "u8 \<Rightarrow> u1 list \<Rightarrow> u8" where
  "CRC_sum s (a # b # w) = CRC_sum (s + (ucast a + push_bit 8 (ucast b))) w"
| "CRC_sum s [a] = s + ucast a"
| "CRC_sum s [] = s"

definition CRC_hash :: "u1 list \<Rightarrow> u4" where
  "CRC_hash str =
     (let s = CRC_sum 0 (cstr str);
          s = drop_bit 16 s + (s AND 0xFFFF);
          s = s + drop_bit 16 s;
          answer = (ucast (NOT s) :: u2) in
      ucast answer AND 0xFFFFFFFF)"

definition g_hash :: "(u1 list \<Rightarrow> u4) list" where
  "g_hash = [simple_hash, RS_hash, JS_hash, PJW_hash, BKDR_hash, SDBM_hash, DJB_hash, AP_hash]"

section \<open>The filter\<close>

record bloom_t =
  bf_size :: u8
  bf_filter :: "u1 list"

definition RATIO :: u4 where
  "RATIO = 20"

definition create_bloom :: "allocator \<Rightarrow> u4 \<Rightarrow> bloom_t option" where
  "create_bloom mal sz =
     (let sz = sz * RATIO;
          bits = (ucast (drop_bit 3 sz + (if sz mod 8 \<noteq> 0 then 1 else 0)) :: u8) * 8;
          total = 8 + drop_bit 3 bits in
      if \<not> mal (unat total) then None
      else Some \<lparr>bf_size = bits, bf_filter = replicate (unat (drop_bit 3 bits)) 0\<rparr>)"

text \<open>\<open>BLOOM_VERSION\<close>, the ten characters \<open>cmppn_w112\<close>.\<close>

definition BLOOM_VERSION :: "u1 list" where
  "BLOOM_VERSION = [0x63, 0x6d, 0x70, 0x70, 0x6e, 0x5f, 0x77, 0x31, 0x31, 0x32]"

text \<open>The sign of the result of \<open>memcmp\<close> on two blocks.\<close>

fun memcmp :: "u1 list \<Rightarrow> u1 list \<Rightarrow> n4" where
  "memcmp (a # as) (b # bs) = (if a < b then -1 else if b < a then 1 else memcmp as bs)"
| "memcmp _ _ = 0"

text \<open>The outer \<open>None\<close> is a fault, the inner one the answer \<open>NULL\<close>.\<close>

definition build_bloom :: "allocator \<Rightarrow> u1 list option \<Rightarrow> u8 \<Rightarrow> bloom_t option option" where
  "build_bloom mal buf sz =
     (case buf of
        None \<Rightarrow> Some None
      | Some bytes \<Rightarrow>
          if sz = 0 then Some None
          else do {
            head \<leftarrow> mem_read 0 (length BLOOM_VERSION) bytes;
            let offset = length BLOOM_VERSION;
            if memcmp BLOOM_VERSION head \<noteq> 0 then Some None
            else do {
              let sz = sz - of_nat offset;
              if \<not> mal (unat (8 + sz)) then Some None
              else do {
                flt \<leftarrow> mem_read offset (unat sz) bytes;
                Some (Some \<lparr>bf_size = push_bit 3 sz, bf_filter = flt\<rparr>) } } })"

definition SETBIT :: "u1 list \<Rightarrow> u4 \<Rightarrow> u1 list option" where
  "SETBIT array pos =
     (let i = unat (drop_bit 3 pos) in
      if i < length array then Some (array[i := array ! i OR push_bit (unat (pos mod 8)) 1]) else None)"

definition GETBIT :: "u1 list \<Rightarrow> u4 \<Rightarrow> bool option" where
  "GETBIT array pos =
     (let i = unat (drop_bit 3 pos) in
      if i < length array then Some (array ! i AND push_bit (unat (pos mod 8)) 1 \<noteq> 0) else None)"

text \<open>\<open>pos = hash % capability\<close>, a 64 bit remainder stored in 32 bits.\<close>

definition bloom_pos :: "u8 \<Rightarrow> u4 \<Rightarrow> u4 option" where
  "bloom_pos capability hash =
     (if capability = 0 then None else Some (ucast ((ucast hash :: u8) mod capability)))"

fun add_loop :: "(u1 list \<Rightarrow> u4) list \<Rightarrow> u8 \<Rightarrow> u1 list \<Rightarrow> u1 list \<Rightarrow> u1 list option" where
  "add_loop [] capability str flt = Some flt"
| "add_loop (h # hs) capability str flt = do {
     pos \<leftarrow> bloom_pos capability (h str);
     flt \<leftarrow> SETBIT flt pos;
     add_loop hs capability str flt }"

definition bloom_add :: "bloom_t option \<Rightarrow> u1 list option \<Rightarrow> bloom_t option option" where
  "bloom_add bf str = do {
     b \<leftarrow> bf;
     s \<leftarrow> str;
     flt \<leftarrow> add_loop g_hash (bf_size b) s (bf_filter b);
     Some (Some (b\<lparr>bf_filter := flt\<rparr>)) }"

fun find_loop :: "(u1 list \<Rightarrow> u4) list \<Rightarrow> u8 \<Rightarrow> u1 list \<Rightarrow> u1 list \<Rightarrow> n4 option" where
  "find_loop [] capability str flt = Some 0"
| "find_loop (h # hs) capability str flt = do {
     pos \<leftarrow> bloom_pos capability (h str);
     flag \<leftarrow> GETBIT flt pos;
     if \<not> flag then Some (-2) else find_loop hs capability str flt }"

text \<open>The size of the filter is read before the pointers are tested.\<close>

definition bloom_find :: "bloom_t option \<Rightarrow> u1 list option \<Rightarrow> n4 option" where
  "bloom_find bf str = do {
     b \<leftarrow> bf;
     (case str of None \<Rightarrow> Some (-1) | Some s \<Rightarrow> find_loop g_hash (bf_size b) s (bf_filter b)) }"

definition bloom_mem_size :: "bloom_t option \<Rightarrow> u4" where
  "bloom_mem_size bf =
     (case bf of None \<Rightarrow> 0 | Some b \<Rightarrow> ucast (of_nat (length BLOOM_VERSION) + drop_bit 3 (bf_size b)))"

definition bloom_compare :: "bloom_t option \<Rightarrow> bloom_t option \<Rightarrow> n4 option" where
  "bloom_compare bf1 bf2 =
     (case (bf1, bf2) of
        (Some b1, Some b2) \<Rightarrow>
          if bf_size b1 \<noteq> bf_size b2 then Some (if bf_size b1 < bf_size b2 - 1 then -1 else 1)
          else do {
            x \<leftarrow> mem_read 0 (unat (drop_bit 3 (bf_size b1))) (bf_filter b1);
            y \<leftarrow> mem_read 0 (unat (drop_bit 3 (bf_size b1))) (bf_filter b2);
            Some (memcmp x y) }
      | _ \<Rightarrow> Some (-1))"

definition bloom_serialize :: "bloom_t option \<Rightarrow> u1 list option \<Rightarrow> u8 \<Rightarrow> (n4 \<times> u1 list option) option" where
  "bloom_serialize bf buf sz =
     (case (bf, buf) of
        (Some b, Some bytes) \<Rightarrow>
          if sz = 0 then Some (-1, buf)
          else if sz < ucast (bloom_mem_size bf) then Some (-1, buf)
          else do {
            bytes \<leftarrow> mem_write 0 BLOOM_VERSION bytes;
            flt \<leftarrow> mem_read 0 (unat (drop_bit 3 (bf_size b))) (bf_filter b);
            bytes \<leftarrow> mem_write (length BLOOM_VERSION) flt bytes;
            Some (0, Some bytes) }
      | _ \<Rightarrow> Some (-1, buf))"

section \<open>Bits of the filter\<close>

text \<open>A filter whose size counts the bits of its bytes, with at least one byte.\<close>

definition bloom_ok :: "bloom_t \<Rightarrow> bool" where
  "bloom_ok b \<longleftrightarrow> unat (bf_size b) = 8 * length (bf_filter b) \<and> bf_filter b \<noteq> []"

definition bit_at :: "u1 list \<Rightarrow> nat \<Rightarrow> bool" where
  "bit_at flt n = bit (flt ! (n div 8)) (n mod 8)"

lemma bit1: "k < 8 \<Longrightarrow> bit (2 ^ k :: u1) j \<longleftrightarrow> j = k"
  by (auto simp: bit_exp_iff)

lemma and_bit1: "k < 8 \<Longrightarrow> (x :: u1) AND 2 ^ k = 0 \<longleftrightarrow> \<not> bit x k"
proof -
  assume k: "k < 8"
  have "(x :: u1) AND 2 ^ k = 0 \<longleftrightarrow> (\<forall>n. \<not> (bit x n \<and> bit (2 ^ k :: u1) n))"
    by (auto simp: bit_and_iff intro!: bit_word_eqI dest: arg_cong [where f = "\<lambda>w. bit w _"])
  then show ?thesis using bit1 [OF k] by auto
qed

lemma or_bit1: "k < 8 \<Longrightarrow> bit ((x :: u1) OR 2 ^ k) j \<longleftrightarrow> bit x j \<or> j = k"
  by (simp add: bit_or_iff bit1)

lemma unat_less: "unat (a :: u4) < 2 ^ 32" "unat (b :: u8) < 2 ^ 64"
proof -
  have "unat a < 2 ^ LENGTH(32)" by (rule unsigned_less)
  then show "unat a < 2 ^ 32" by simp
  have "unat b < 2 ^ LENGTH(64)" by (rule unsigned_less)
  then show "unat b < 2 ^ 64" by simp
qed

lemma u8_of: "unat (w :: u8) = k \<Longrightarrow> w = of_nat k"
  by (metis word_unat_eq_iff unat_of_nat unsigned_less mod_less)

lemma u8_small: "k < 2 ^ 64 \<Longrightarrow> unat (of_nat k :: u8) = k"
  by (simp add: unat_of_nat take_bit_eq_mod)

lemma unat_parts: "unat (drop_bit 3 (p :: u4)) = unat p div 8" "unat ((p :: u4) mod 8) = unat p mod 8"
  by (simp_all add: drop_bit_eq_div unat_div unat_mod)

lemma getbit_ok: "unat pos < 8 * length flt \<Longrightarrow> GETBIT flt pos = Some (bit_at flt (unat pos))"
  by (auto simp: GETBIT_def Let_def unat_parts and_bit1 bit_at_def)

lemma setbit_ok:
  assumes "unat pos < 8 * length flt"
  shows "\<exists>flt'. SETBIT flt pos = Some flt' \<and> length flt' = length flt \<and>
     (\<forall>n < 8 * length flt. bit_at flt' n \<longleftrightarrow> bit_at flt n \<or> n = unat pos)"
proof -
  let ?i = "unat pos div 8" and ?k = "unat pos mod 8"
  have i: "?i < length flt" using assms by auto
  have "bit_at (flt[?i := flt ! ?i OR 2 ^ ?k]) n \<longleftrightarrow> bit_at flt n \<or> n = unat pos" if "n < 8 * length flt" for n
  proof (cases "n div 8 = ?i")
    case True
    then have "n = unat pos \<longleftrightarrow> n mod 8 = ?k" by (metis div_mult_mod_eq)
    then show ?thesis using True i by (simp add: bit_at_def or_bit1)
  next
    case False
    then show ?thesis by (auto simp: bit_at_def)
  qed
  then show ?thesis using i by (simp add: SETBIT_def Let_def unat_parts)
qed

definition slot :: "bloom_t \<Rightarrow> (u1 list \<Rightarrow> u4) \<Rightarrow> u1 list \<Rightarrow> nat" where
  "slot b h s = unat (h s) mod (8 * length (bf_filter b))"

lemma bloom_pos_ok:
  assumes "unat cap = 8 * m" "0 < m"
  shows "\<exists>p. bloom_pos cap hash = Some p \<and> unat p = unat hash mod (8 * m) \<and> unat p < 8 * m"
proof -
  have n: "cap \<noteq> 0" using assms by auto
  have v: "unat ((ucast hash :: u8) mod cap) = unat hash mod (8 * m)"
    using assms(1) unat_less(1) [of hash] by (simp add: unat_mod unsigned_ucast_eq take_bit_eq_mod)
  have "unat hash mod (8 * m) < 2 ^ 32" using unat_less(1) [of hash] by (rule order_le_less_trans [rotated]) simp
  then have "unat ((ucast hash :: u8) mod cap) < 2 ^ 32" using v by simp
  then have "unat (ucast ((ucast hash :: u8) mod cap) :: u4) = unat hash mod (8 * m)"
    using v by (simp add: unsigned_ucast_eq take_bit_eq_mod)
  then show ?thesis using n assms(2) by (simp add: bloom_pos_def)
qed

lemma bloom_find_loop_ok:
  assumes "unat cap = 8 * length flt" "flt \<noteq> []"
  shows "find_loop hs cap s flt = Some (if \<forall>h \<in> set hs. bit_at flt (unat (h s) mod (8 * length flt)) then 0 else -2)"
proof (induction hs)
  case (Cons h hs)
  obtain p where "bloom_pos cap (h s) = Some p" "unat p = unat (h s) mod (8 * length flt)" "unat p < 8 * length flt"
    using bloom_pos_ok [OF assms(1)] assms(2) by auto
  then show ?case using Cons getbit_ok [of p flt] by auto
qed simp

lemma add_loop_ok:
  assumes "unat cap = 8 * length flt" "flt \<noteq> []"
  shows "\<exists>flt'. add_loop hs cap s flt = Some flt' \<and> length flt' = length flt \<and>
     (\<forall>n < 8 * length flt. bit_at flt' n \<longleftrightarrow> bit_at flt n \<or> (\<exists>h \<in> set hs. n = unat (h s) mod (8 * length flt)))"
  using assms
proof (induction hs arbitrary: flt)
  case (Cons h hs)
  obtain p where p: "bloom_pos cap (h s) = Some p" "unat p = unat (h s) mod (8 * length flt)" "unat p < 8 * length flt"
    using bloom_pos_ok [OF Cons.prems(1)] Cons.prems(2) by auto
  obtain f1 where f1: "SETBIT flt p = Some f1" "length f1 = length flt"
      "\<forall>n < 8 * length flt. bit_at f1 n \<longleftrightarrow> bit_at flt n \<or> n = unat p"
    using setbit_ok [OF p(3)] by blast
  have "f1 \<noteq> []" using f1(2) Cons.prems(2) by auto
  then obtain f2 where f2: "add_loop hs cap s f1 = Some f2" "length f2 = length f1"
      "\<forall>n < 8 * length f1. bit_at f2 n \<longleftrightarrow> bit_at f1 n \<or> (\<exists>h \<in> set hs. n = unat (h s) mod (8 * length f1))"
    using Cons.IH [of f1] f1(2) Cons.prems(1) by auto
  then show ?case using p f1 by auto
qed simp

text \<open>The two operations on a filter.\<close>

lemma bloom_find_ok:
  assumes "bloom_ok b"
  shows "bloom_find (Some b) (Some s) = Some (if \<forall>h \<in> set g_hash. bit_at (bf_filter b) (slot b h s) then 0 else -2)"
  using assms bloom_find_loop_ok [of "bf_size b" "bf_filter b" g_hash s] by (simp add: bloom_ok_def bloom_find_def slot_def)

lemma bloom_add_ok:
  assumes "bloom_ok b"
  shows "\<exists>b'. bloom_add (Some b) (Some s) = Some (Some b') \<and> bloom_ok b' \<and> length (bf_filter b') = length (bf_filter b) \<and>
     (\<forall>n < 8 * length (bf_filter b). bit_at (bf_filter b') n \<longleftrightarrow> bit_at (bf_filter b) n \<or> (\<exists>h \<in> set g_hash. n = slot b h s))"
proof -
  obtain flt' where "add_loop g_hash (bf_size b) s (bf_filter b) = Some flt'" "length flt' = length (bf_filter b)"
     "\<forall>n < 8 * length (bf_filter b). bit_at flt' n \<longleftrightarrow> bit_at (bf_filter b) n \<or> (\<exists>h \<in> set g_hash. n = slot b h s)"
    using add_loop_ok [of "bf_size b" "bf_filter b" g_hash s] assms by (auto simp: bloom_ok_def slot_def)
  then show ?thesis using assms by (auto simp: bloom_add_def bloom_ok_def)
qed

lemma slot_less: "bloom_ok b \<Longrightarrow> slot b h s < 8 * length (bf_filter b)"
  by (simp add: bloom_ok_def slot_def)

section \<open>The filter as an approximate set\<close>

definition bloom_inv :: "bloom_t option \<Rightarrow> bool" where
  "bloom_inv bf = (case bf of None \<Rightarrow> False | Some b \<Rightarrow> bloom_ok b)"

definition bloom_has :: "bloom_t option \<Rightarrow> u1 list \<Rightarrow> bool" where
  "bloom_has bf s \<longleftrightarrow> bloom_find bf (Some s) = Some 0"

interpretation bl: approximate_set bloom_inv bloom_has "\<lambda>bf s. bloom_add bf (Some s)"
proof (unfold_locales, goal_cases)
  case (1 bf s)
  then obtain b where b: "bf = Some b" "bloom_ok b" by (auto simp: bloom_inv_def split: option.splits)
  obtain b' where a: "bloom_add (Some b) (Some s) = Some (Some b')" "bloom_ok b'" "length (bf_filter b') = length (bf_filter b)"
     "\<forall>n < 8 * length (bf_filter b). bit_at (bf_filter b') n \<longleftrightarrow> bit_at (bf_filter b) n \<or> (\<exists>h \<in> set g_hash. n = slot b h s)"
    using bloom_add_ok [OF b(2)] by blast
  have sl: "slot b' h x = slot b h x" for h x using a(3) by (simp add: slot_def)
  have "bloom_has (Some b') s" using bloom_find_ok [OF a(2)] a(4) slot_less [OF b(2)] by (auto simp: bloom_has_def sl)
  moreover have "bloom_has (Some b') y" if "bloom_has (Some b) y" for y
    using that bloom_find_ok [OF a(2)] bloom_find_ok [OF b(2)] a(4) slot_less [OF b(2)]
    by (auto simp: bloom_has_def sl split: if_splits)
  ultimately show ?case using a b by (auto simp: bloom_inv_def)
qed

lemma add_all_bits:
  "bloom_ok b \<Longrightarrow> \<exists>b'. add_all (\<lambda>bf s. bloom_add bf (Some s)) xs (Some b) = Some (Some b') \<and> bloom_ok b' \<and>
     length (bf_filter b') = length (bf_filter b) \<and>
     (\<forall>n < 8 * length (bf_filter b). bit_at (bf_filter b') n \<longleftrightarrow>
        bit_at (bf_filter b) n \<or> (\<exists>x \<in> set xs. \<exists>h \<in> set g_hash. n = slot b h x))"
proof (induction xs arbitrary: b)
  case (Cons x xs)
  obtain c where c: "bloom_add (Some b) (Some x) = Some (Some c)" "bloom_ok c" "length (bf_filter c) = length (bf_filter b)"
     "\<forall>n < 8 * length (bf_filter b). bit_at (bf_filter c) n \<longleftrightarrow> bit_at (bf_filter b) n \<or> (\<exists>h \<in> set g_hash. n = slot b h x)"
    using bloom_add_ok [OF Cons.prems] by blast
  obtain d where d: "add_all (\<lambda>bf s. bloom_add bf (Some s)) xs (Some c) = Some (Some d)" "bloom_ok d"
     "length (bf_filter d) = length (bf_filter c)"
     "\<forall>n < 8 * length (bf_filter c). bit_at (bf_filter d) n \<longleftrightarrow>
        bit_at (bf_filter c) n \<or> (\<exists>x \<in> set xs. \<exists>h \<in> set g_hash. n = slot c h x)"
    using Cons.IH [OF c(2)] by blast
  have "slot c h y = slot b h y" for h y using c(3) by (simp add: slot_def)
  then show ?case using c d by auto
qed simp

section \<open>Creation\<close>

lemma create_ok:
  assumes n: "unat n * 20 mod 2 ^ 32 \<noteq> 0"
  shows "create_bloom mal n =
     (let m = (unat n * 20 mod 2 ^ 32 + 7) div 8 in
      if mal (8 + m) then Some \<lparr>bf_size = of_nat (8 * m), bf_filter = replicate m 0\<rparr> else None)"
proof -
  let ?w = "n * RATIO" and ?m = "(unat n * 20 mod 2 ^ 32 + 7) div 8"
  have w: "unat ?w = unat n * 20 mod 2 ^ 32" by (simp add: RATIO_def unat_word_ariths)
  have wl: "unat ?w < 2 ^ 32" using unat_less(1) [of ?w] by simp
  have c: "unat (drop_bit 3 ?w + (if ?w mod 8 \<noteq> 0 then 1 else 0)) = ?m"
  proof -
    have z: "?w mod 8 = 0 \<longleftrightarrow> unat ?w mod 8 = 0" by (metis unat_parts(2) unat_eq_0 unat_0)
    have "unat (drop_bit 3 ?w + (if ?w mod 8 \<noteq> 0 then 1 else 0)) = unat ?w div 8 + (if unat ?w mod 8 \<noteq> 0 then 1 else 0)"
      using wl z by (simp add: unat_word_ariths unat_parts)
    also have "\<dots> = (unat ?w + 7) div 8" by (auto simp: div_add1_eq [of "unat ?w" 7])
    finally show ?thesis using w by simp
  qed
  have ml: "?m < 2 ^ 30" using wl w by auto
  let ?b = "(ucast (drop_bit 3 ?w + (if ?w mod 8 \<noteq> 0 then 1 else 0)) :: u8) * 8"
  have b: "unat ?b = 8 * ?m" using c ml by (simp add: unat_word_ariths unsigned_ucast_eq take_bit_eq_mod)
  then have bw: "?b = of_nat (8 * ?m)" by (rule u8_of)
  have d: "unat (drop_bit 3 ?b) = ?m" using b by (simp add: drop_bit_eq_div unat_div)
  have "unat (8 + drop_bit 3 ?b) = 8 + ?m" using d ml by (simp add: unat_word_ariths)
  then show ?thesis using d bw unfolding create_bloom_def Let_def by simp
qed

lemma create_bloom_ok:
  assumes "unat n * 20 mod 2 ^ 32 \<noteq> 0" "create_bloom mal n = Some b"
  shows "bloom_ok b \<and> length (bf_filter b) = (unat n * 20 mod 2 ^ 32 + 7) div 8 \<and> (\<forall>i < 8 * length (bf_filter b). \<not> bit_at (bf_filter b) i)"
proof -
  let ?m = "(unat n * 20 mod 2 ^ 32 + 7) div 8"
  have b: "b = \<lparr>bf_size = of_nat (8 * ?m), bf_filter = replicate ?m 0\<rparr>"
    using assms(2) create_ok [OF assms(1), of mal] by (simp add: Let_def split: if_splits)
  have "unat n * 20 mod 2 ^ 32 < 2 ^ 32" by simp
  then have m: "?m < 2 ^ 30" "0 < ?m" using assms(1) by auto
  have "unat (of_nat (8 * ?m) :: u8) = 8 * ?m" using m(1) by (intro u8_small) simp
  then have "bloom_ok b" using m(2) b by (simp add: bloom_ok_def)
  moreover have "\<not> bit_at (replicate ?m (0 :: u1)) i" if "i < 8 * ?m" for i
  proof -
    have "i div 8 < ?m" using that by (simp add: less_mult_imp_div_less mult.commute)
    then show ?thesis by (simp add: bit_at_def)
  qed
  ultimately show ?thesis using b by simp
qed

section \<open>Properties\<close>

text \<open>
  C21. A filter never loses an element: after any additions to a filter whose size fits its bytes
  every string that was added, and every string that was found before, is found.
\<close>

theorem bloom_no_false_negative:
  assumes "bloom_ok b"
  shows "\<exists>b'. add_all (\<lambda>bf s. bloom_add bf (Some s)) xs (Some b) = Some (Some b') \<and> bloom_ok b' \<and>
     (\<forall>s. bloom_find (Some b) (Some s) = Some 0 \<or> s \<in> set xs \<longrightarrow> bloom_find (Some b') (Some s) = Some 0)"
proof -
  have "bloom_inv (Some b)" using assms by (simp add: bloom_inv_def)
  from bl.no_false_negative [OF this, of xs] obtain bf where
    r: "add_all (\<lambda>bf s. bloom_add bf (Some s)) xs (Some b) = Some bf" "bloom_inv bf"
      "\<forall>y. bloom_has (Some b) y \<or> y \<in> set xs \<longrightarrow> bloom_has bf y" by blast
  obtain b' where "bf = Some b'" "bloom_ok b'" using r(2) by (auto simp: bloom_inv_def split: option.splits)
  then show ?thesis using r by (auto simp: bloom_has_def)
qed

theorem bloom_no_false_negative_witness:
  "\<exists>b'. add_all (\<lambda>bf s. bloom_add bf (Some s)) [[97], [98, 99]] (Some \<lparr>bf_size = 16, bf_filter = [0, 0]\<rparr>) = Some (Some b') \<and>
     bloom_find (Some b') (Some [98, 99]) = Some 0"
proof -
  have "bloom_ok \<lparr>bf_size = 16, bf_filter = [0, 0]\<rparr>" by (simp add: bloom_ok_def)
  from bloom_no_false_negative [OF this, of "[[97], [98, 99]]"] show ?thesis by auto
qed

text \<open>
  What a new filter answers after additions, exactly: a string is reported when each of its
  eight bits is a bit of some string that was added, and is refused with -2 otherwise; no access
  leaves the filter.
\<close>

theorem bloom_membership:
  assumes "unat n * 20 mod 2 ^ 32 \<noteq> 0" "create_bloom mal n = Some b"
  shows "\<exists>b'. add_all (\<lambda>bf s. bloom_add bf (Some s)) xs (Some b) = Some (Some b') \<and>
     (\<forall>s. bloom_find (Some b') (Some s) =
        Some (if \<forall>h \<in> set g_hash. \<exists>x \<in> set xs. \<exists>g \<in> set g_hash. unat (h s) mod unat (bf_size b) = unat (g x) mod unat (bf_size b)
              then 0 else -2))"
proof -
  have b: "bloom_ok b" "\<forall>i < 8 * length (bf_filter b). \<not> bit_at (bf_filter b) i" using create_bloom_ok [OF assms] by auto
  obtain b' where r: "add_all (\<lambda>bf s. bloom_add bf (Some s)) xs (Some b) = Some (Some b')" "bloom_ok b'"
     "length (bf_filter b') = length (bf_filter b)"
     "\<forall>n < 8 * length (bf_filter b). bit_at (bf_filter b') n \<longleftrightarrow>
        bit_at (bf_filter b) n \<or> (\<exists>x \<in> set xs. \<exists>h \<in> set g_hash. n = slot b h x)"
    using add_all_bits [OF b(1)] by blast
  have sl: "slot b' h y = slot b h y" "slot b h y = unat (h y) mod unat (bf_size b)" for h y
    using r(3) b(1) by (simp_all add: slot_def bloom_ok_def)
  have "bit_at (bf_filter b') (slot b h s) \<longleftrightarrow> (\<exists>x \<in> set xs. \<exists>g \<in> set g_hash. slot b h s = slot b g x)" for h s
    using r(4) b(2) slot_less [OF b(1)] by auto
  then have "bloom_find (Some b') (Some s) =
        Some (if \<forall>h \<in> set g_hash. \<exists>x \<in> set xs. \<exists>g \<in> set g_hash. slot b h s = slot b g x then 0 else -2)" for s
    using bloom_find_ok [OF r(2), of s] sl(1) by simp
  then show ?thesis using r(1) unfolding sl(2) by blast
qed

theorem bloom_membership_witness:
  "\<exists>b b'. create_bloom (\<lambda>k. True) 3 = Some b \<and> add_all (\<lambda>bf s. bloom_add bf (Some s)) [[97]] (Some b) = Some (Some b') \<and>
     bloom_find (Some b') (Some [97]) = Some 0"
proof -
  have n: "unat (3 :: u4) * 20 mod 2 ^ 32 \<noteq> 0" by simp
  obtain b where b: "create_bloom (\<lambda>k. True) 3 = Some b" using create_ok [OF n, of "\<lambda>k. True"] by (simp add: Let_def)
  show ?thesis using bloom_membership [OF n b, of "[[97]]"] b by (force dest: spec [of _ "[97]"])
qed

text \<open>
  C26. Writing a filter with \<open>bloom_serialize\<close> and reading it with \<open>build_bloom\<close> gives the filter back. The
  buffer has room for the version string and the filter, and the filter is below 4 GB, where
  \<open>bloom_mem_size\<close> does not wrap around.
\<close>

theorem bloom_roundtrip:
  assumes "bloom_ok b" "length (bf_filter b) + 10 < 2 ^ 32" "length (bf_filter b) + 10 \<le> length buf" "length buf < 2 ^ 64"
    and "mal (8 + length (bf_filter b))"
  shows "\<exists>buf'. bloom_serialize (Some b) (Some buf) (of_nat (length buf)) = Some (0, Some buf') \<and>
     build_bloom mal (Some buf') (ucast (bloom_mem_size (Some b))) = Some (Some b)"
proof -
  let ?m = "length (bf_filter b)"
  have v: "length BLOOM_VERSION = 10" by (simp add: BLOOM_VERSION_def)
  have d: "unat (drop_bit 3 (bf_size b)) = ?m" using assms(1) by (simp add: bloom_ok_def drop_bit_eq_div unat_div)
  then have dw: "drop_bit 3 (bf_size b) = of_nat ?m" by (rule u8_of)
  have t: "unat (10 + of_nat ?m :: u8) = 10 + ?m" using assms(2) by (simp add: unat_word_ariths unat_of_nat take_bit_eq_mod)
  have ms: "unat (bloom_mem_size (Some b)) = 10 + ?m"
    using assms(2) t by (simp add: bloom_mem_size_def v dw unsigned_ucast_eq take_bit_eq_mod)
  then have mu: "(ucast (bloom_mem_size (Some b)) :: u8) = of_nat (10 + ?m)" using ms unat_less(1) [of "bloom_mem_size (Some b)"]
    by (intro u8_of) (simp add: unsigned_ucast_eq take_bit_eq_mod)
  have sz: "unat (of_nat (length buf) :: u8) = length buf" "unat (of_nat (10 + ?m) :: u8) = 10 + ?m"
    by (rule u8_small, use assms(2,4) in simp)+
  let ?buf = "BLOOM_VERSION @ bf_filter b @ drop (10 + ?m) buf"
  have "bloom_serialize (Some b) (Some buf) (of_nat (length buf)) = Some (0, Some ?buf)"
    using assms(3) sz d v unfolding bloom_serialize_def mu by (auto simp: word_less_nat_alt mem_write_def mem_read_def unat_eq_0 [symmetric] add.commute)
  moreover have "build_bloom mal (Some ?buf) (of_nat (10 + ?m)) = Some (Some b)"
  proof -
    have mc: "memcmp s s = 0" for s by (induction s) auto
    have df: "(of_nat (10 + ?m) - of_nat 10 :: u8) = of_nat ?m" by simp
    have um: "unat (of_nat ?m :: u8) = ?m" "unat (8 + of_nat ?m :: u8) = 8 + ?m"
      using assms(2) by (simp_all add: unat_word_ariths unat_of_nat take_bit_eq_mod)
    have "bf_size b = of_nat (8 * ?m)" using assms(1) by (intro u8_of) (simp add: bloom_ok_def)
    then have ps: "push_bit 3 (of_nat ?m :: u8) = bf_size b" by (simp add: push_bit_eq_mult)
    have nz: "(of_nat (10 + ?m) :: u8) \<noteq> 0" using sz(2) by (metis add_is_0 unat_0 zero_neq_numeral)
    show ?thesis using um ps nz assms(5) mc v df unfolding build_bloom_def by (simp add: mem_read_def Let_def)
  qed
  ultimately show ?thesis unfolding mu by blast
qed

theorem bloom_roundtrip_witness:
  "\<exists>buf'. bloom_serialize (Some \<lparr>bf_size = 16, bf_filter = [5, 7]\<rparr>) (Some (replicate 20 0)) 20 = Some (0, Some buf') \<and>
     build_bloom (\<lambda>k. True) (Some buf') 12 = Some (Some \<lparr>bf_size = 16, bf_filter = [5, 7]\<rparr>)"
  using bloom_roundtrip [of "\<lparr>bf_size = 16, bf_filter = [5, 7]\<rparr>" "replicate 20 0" "\<lambda>k. True"]
  by (simp add: bloom_ok_def bloom_mem_size_def BLOOM_VERSION_def)

text \<open>The request for the number of bits wraps around: for 214748365 elements the filter has 8 bits.\<close>

theorem create_bloom_wraps: "create_bloom (\<lambda>k. True) 214748365 = Some \<lparr>bf_size = 8, bf_filter = [0]\<rparr>"
  using create_ok [of 214748365 "\<lambda>k. True"] by (simp add: Let_def)

text \<open>The size of a filter for no elements is 0, and the first addition divides by it.\<close>

theorem create_bloom_zero: "\<exists>b. create_bloom (\<lambda>k. True) 0 = Some b \<and> bloom_add (Some b) (Some s) = None"
  by (simp add: create_bloom_def RATIO_def bloom_add_def g_hash_def bloom_pos_def)

text \<open>The comparison of sizes subtracts before it compares: a filter that is 1 smaller counts as larger.\<close>

theorem bloom_compare_off: "bloom_compare (Some \<lparr>bf_size = 8, bf_filter = x\<rparr>) (Some \<lparr>bf_size = 9, bf_filter = y\<rparr>) = Some 1"
  by (simp add: bloom_compare_def)

end
