(* ===== verification/Lisk_Fsm.thy ===== *)
theory Lisk_Fsm
  imports Lisk_Prelude "HOL-Library.Monad_Syntax" "HOL-Library.Multiset"
begin

text \<open>
  The table driven state machine of \<open>fsm/src/lisk_fsm.c\<close>: the two comparison functions, the
  preparation of a table with \<open>fsm_node_arr_sort\<close>, and the loop \<open>fsm_run\<close>.

  \<^item> A callback is a number; \<open>call f fsm param\<close> is what the function does: its return code, the state that
    it leaves in the machine and the parameter. Callbacks may change the state and the event, as
    those of \<open>fsm/exam\<close> do, but not the tables. Calling \<open>nil\<close> is a fault, \<open>None\<close>.
  \<^item> \<open>qsort\<close> is the merge sort of the C library and \<open>bsearch\<close> its bisection.
  \<^item> \<open>fsm_step\<close> is the machine that the table describes; the theorems say that a sorted table is the
    declared one for every lookup and that \<open>fsm_run\<close> follows the machine.
\<close>

section \<open>The library functions\<close>

fun merge :: "('a \<Rightarrow> 'a \<Rightarrow> n4) \<Rightarrow> 'a list \<Rightarrow> 'a list \<Rightarrow> 'a list" where
  "merge cmp [] ys = ys"
| "merge cmp (x # xs) [] = x # xs"
| "merge cmp (x # xs) (y # ys) =
     (if cmp x y \<le> 0 then x # merge cmp xs (y # ys) else y # merge cmp (x # xs) ys)"

function qsort :: "('a \<Rightarrow> 'a \<Rightarrow> n4) \<Rightarrow> 'a list \<Rightarrow> 'a list" where
  "qsort cmp xs =
     (if length xs \<le> 1 then xs
      else merge cmp (qsort cmp (take (length xs div 2) xs)) (qsort cmp (drop (length xs div 2) xs)))"
  by pat_completeness auto
termination by (relation "measure (\<lambda>(cmp, xs). length xs)") auto

declare qsort.simps [simp del]

text \<open>The index of the element found, between \<open>l\<close> and \<open>u\<close>.\<close>

function libc_bsearch_loop :: "('a \<Rightarrow> 'a \<Rightarrow> n4) \<Rightarrow> 'a \<Rightarrow> 'a list \<Rightarrow> nat \<Rightarrow> nat \<Rightarrow> nat option" where
  "libc_bsearch_loop cmp k xs l u =
     (if l < u then
        (let idx = (l + u) div 2; c = cmp k (xs ! idx) in
         if c < 0 then libc_bsearch_loop cmp k xs l idx
         else if 0 < c then libc_bsearch_loop cmp k xs (idx + 1) u
         else Some idx)
      else None)"
  by pat_completeness auto
termination by (relation "measure (\<lambda>(cmp, k, xs, l, u). u - l)") auto

declare libc_bsearch_loop.simps [simp del]

definition bsearch :: "('a \<Rightarrow> 'a \<Rightarrow> n4) \<Rightarrow> 'a \<Rightarrow> 'a list \<Rightarrow> nat option" where
  "bsearch cmp k xs = libc_bsearch_loop cmp k xs 0 (length xs)"

section \<open>The machine\<close>

definition INVALID_EVENT :: n4 where
  "INVALID_EVENT = -1"

definition INVALID_STATE :: n4 where
  "INVALID_STATE = -1"

definition MAX_SWITCH_NUM :: nat where
  "MAX_SWITCH_NUM = 13"

record event_param_t =
  ev_event :: n4
  ev_param :: "u1 list"

record switcher_t =
  sw_state :: n4
  sw_event :: n4
  sw_handler :: "nat option"
  sw_judge :: "nat option"

record fsm_node_t =
  nd_state :: n4
  nd_name :: "u1 list option"
  nd_switcher :: "switcher_t list"

record fsm_t =
  fs_state :: n4
  fs_handler :: "nat option"
  fs_judge :: "nat option"
  fs_size :: n4
  fs_node :: "fsm_node_t list"

type_synonym callback = "nat \<Rightarrow> fsm_t \<Rightarrow> event_param_t \<Rightarrow> n4 \<times> n4 \<times> event_param_t"

definition switcher_cmp :: "switcher_t option \<Rightarrow> switcher_t option \<Rightarrow> n4" where
  "switcher_cmp switcher0 switcher1 =
     (case (switcher0, switcher1) of
        (Some s0, Some s1) \<Rightarrow>
          if INVALID_EVENT = sw_event s0 then 1
          else if INVALID_EVENT = sw_event s1 then -1
          else if sw_event s1 < sw_event s0 then 1
          else if sw_event s0 < sw_event s1 then -1
          else 0
      | _ \<Rightarrow> -1)"

definition fsm_node_cmp :: "fsm_node_t option \<Rightarrow> fsm_node_t option \<Rightarrow> n4" where
  "fsm_node_cmp node0 node1 =
     (case (node0, node1) of
        (Some n0, Some n1) \<Rightarrow>
          if INVALID_STATE = nd_state n0 then 1
          else if INVALID_STATE = nd_state n1 then -1
          else if nd_state n1 < nd_state n0 then 1
          else if nd_state n0 < nd_state n1 then -1
          else 0
      | _ \<Rightarrow> -1)"

text \<open>The comparison as \<open>qsort\<close> and \<open>bsearch\<close> call it, with pointers to elements.\<close>

abbreviation sw_cmp :: "switcher_t \<Rightarrow> switcher_t \<Rightarrow> n4" where
  "sw_cmp a b \<equiv> switcher_cmp (Some a) (Some b)"

abbreviation nd_cmp :: "fsm_node_t \<Rightarrow> fsm_node_t \<Rightarrow> n4" where
  "nd_cmp a b \<equiv> fsm_node_cmp (Some a) (Some b)"

text \<open>The inner loop: the rows behind the first one without a next state are cleared.\<close>

definition invalid_switcher :: switcher_t where
  "invalid_switcher = \<lparr>sw_state = INVALID_STATE, sw_event = INVALID_EVENT, sw_handler = None, sw_judge = None\<rparr>"

fun clear_loop :: "n4 \<Rightarrow> switcher_t list \<Rightarrow> switcher_t list" where
  "clear_loop flag [] = []"
| "clear_loop flag (s # ss) =
     (if flag = 0 then invalid_switcher # clear_loop flag ss
      else s # clear_loop (if sw_state s = INVALID_STATE then 0 else flag) ss)"

text \<open>
  The array has at least \<open>size\<close> elements, otherwise the accesses are out of bounds (\<open>None\<close>);
  a \<open>nil\<close> array and size 0 are left as they are.
\<close>

definition fsm_node_arr_sort :: "fsm_node_t list option \<Rightarrow> nat \<Rightarrow> fsm_node_t list option option" where
  "fsm_node_arr_sort arr n =
     (case arr of
        None \<Rightarrow> Some arr
      | Some xs \<Rightarrow>
          if n = 0 then Some arr
          else if length xs < n then None
          else Some (Some (map (\<lambda>nd. nd\<lparr>nd_switcher := qsort sw_cmp (clear_loop (-1) (nd_switcher nd))\<rparr>)
                             (qsort nd_cmp (take n xs)) @ drop n xs)))"

text \<open>
  The two searches of a turn: the node of the current state and in it the row of the event. Only the
  compared field of the local keys is set, and only that one is read.
\<close>

definition fsm_find :: "fsm_node_t list \<Rightarrow> n4 \<Rightarrow> n4 \<Rightarrow> switcher_t option" where
  "fsm_find arr state event =
     (case bsearch nd_cmp \<lparr>nd_state = state, nd_name = None, nd_switcher = []\<rparr> arr of
        None \<Rightarrow> None
      | Some i \<Rightarrow>
          (let pnode = arr ! i in
           case bsearch sw_cmp \<lparr>sw_state = 0, sw_event = event, sw_handler = None, sw_judge = None\<rparr>
                  (nd_switcher pnode) of
             None \<Rightarrow> None
           | Some j \<Rightarrow> Some (nd_switcher pnode ! j)))"

text \<open>
  One turn of the loop of \<open>fsm_run\<close>: the machine, the parameter, and the return value when the turn
  ended with \<open>break\<close>. A negative size is a huge one as \<open>size_t\<close>.
\<close>

definition fsm_turn :: "callback \<Rightarrow> fsm_t \<Rightarrow> event_param_t \<Rightarrow> (n4 option \<times> fsm_t \<times> event_param_t) option" where
  "fsm_turn call fsm param =
     (if fs_size fsm < 0 \<or> length (fs_node fsm) < nat (fs_size fsm) then None
      else
        (case fsm_find (take (nat (fs_size fsm)) (fs_node fsm)) (fs_state fsm) (ev_event param) of
           None \<Rightarrow> Some (Some (-2), fsm, param)
         | Some pswitcher \<Rightarrow> do {
             handler \<leftarrow> (case sw_handler pswitcher of None \<Rightarrow> fs_handler fsm | Some h \<Rightarrow> Some h);
             let (ret, st, param) = call handler fsm param;
             let fsm = fsm\<lparr>fs_state := st\<rparr>;
             judge \<leftarrow> (case sw_judge pswitcher of None \<Rightarrow> fs_judge fsm | Some jd \<Rightarrow> Some jd);
             let (ret, st, param) = call judge fsm param;
             let fsm = fsm\<lparr>fs_state := (if ret = 0 then sw_state pswitcher else st)\<rparr>;
             Some (if INVALID_STATE = fs_state fsm then Some 0 else None, fsm, param) }))"

partial_function (option) fsm_loop :: "callback \<Rightarrow> fsm_t \<Rightarrow> event_param_t \<Rightarrow> (n4 \<times> fsm_t \<times> event_param_t) option" where
  "fsm_loop call fsm param =
     Option.bind (fsm_turn call fsm param) (\<lambda>(r, fsm', param').
       case r of Some ret \<Rightarrow> Some (ret, fsm', param') | None \<Rightarrow> fsm_loop call fsm' param')"

definition fsm_run :: "callback \<Rightarrow> fsm_t option \<Rightarrow> event_param_t option \<Rightarrow>
    (n4 \<times> fsm_t option \<times> event_param_t option) option" where
  "fsm_run call fsm param =
     (case (fsm, param) of
        (Some f, Some p) \<Rightarrow>
          if INVALID_STATE = fs_state f \<or> INVALID_EVENT = ev_event p then Some (-1, fsm, param)
          else do {
            (ret, f, p) \<leftarrow> fsm_loop call f p;
            Some (ret, Some f, Some p) }
      | _ \<Rightarrow> Some (-1, fsm, param))"

section \<open>Sorting and searching\<close>

text \<open>
  What the library functions do with a comparison that agrees with a transitive relation. The
  comparison itself need not be an order: on two invalid entries both of the code's answer 1
  in either direction.
\<close>

locale ranked =
  fixes cmp :: "'a \<Rightarrow> 'a \<Rightarrow> n4"
    and le :: "'a \<Rightarrow> 'a \<Rightarrow> bool"
    and valid :: "'a \<Rightarrow> bool"
  assumes le_trans: "le a b \<Longrightarrow> le b c \<Longrightarrow> le a c"
    and cmp_le: "cmp a b \<le> 0 \<Longrightarrow> le a b"
    and cmp_gt: "0 < cmp a b \<Longrightarrow> le b a"
    and below: "valid k \<Longrightarrow> cmp k a < 0 \<Longrightarrow> le a b \<Longrightarrow> cmp k b < 0"
    and above: "valid k \<Longrightarrow> 0 < cmp k b \<Longrightarrow> le a b \<Longrightarrow> 0 < cmp k a"
begin

lemma mset_merge: "mset (merge cmp xs ys) = mset xs + mset ys"
  by (induction cmp xs ys rule: merge.induct) auto

lemma set_merge: "set (merge cmp xs ys) = set xs \<union> set ys"
  by (metis mset_merge set_mset_mset set_mset_union)

lemma sorted_merge: "sorted_wrt le xs \<Longrightarrow> sorted_wrt le ys \<Longrightarrow> sorted_wrt le (merge cmp xs ys)"
proof (induction xs arbitrary: ys)
  case (Cons x xs)
  show ?case using Cons.prems(2)
  proof (induction ys)
    case Nil
    then show ?case using Cons.prems(1) by simp
  next
    case (Cons y ys)
    have sx: "sorted_wrt le (x # xs)" by fact
    show ?case
    proof (cases "cmp x y \<le> 0")
      case True
      then have "le x y" by (rule cmp_le)
      then have "\<forall>z \<in> set (merge cmp xs (y # ys)). le x z"
        using sx Cons.prems le_trans by (auto simp: set_merge)
      then show ?thesis using True sx Cons.prems \<open>\<And>ys. sorted_wrt le xs \<Longrightarrow> sorted_wrt le ys \<Longrightarrow> sorted_wrt le (merge cmp xs ys)\<close> by simp
    next
      case False
      then have "le y x" by (intro cmp_gt) simp
      then have "\<forall>z \<in> set (merge cmp (x # xs) ys). le y z"
        using sx Cons.prems le_trans by (auto simp: set_merge)
      then show ?thesis using False Cons by simp
    qed
  qed
qed simp

lemma qsort_mset: "mset (qsort cmp xs) = mset xs"
proof (induction "length xs" arbitrary: xs rule: less_induct)
  case less
  show ?case
  proof (cases "length xs \<le> 1")
    case True
    then show ?thesis by (simp add: qsort.simps)
  next
    case False
    then have "mset (qsort cmp xs) = mset (take (length xs div 2) xs) + mset (drop (length xs div 2) xs)"
      using less by (subst qsort.simps) (simp add: mset_merge)
    then show ?thesis by (metis append_take_drop_id mset_append)
  qed
qed

lemma qsort_sorted: "sorted_wrt le (qsort cmp xs)"
proof (induction "length xs" arbitrary: xs rule: less_induct)
  case less
  show ?case
  proof (cases "length xs \<le> 1")
    case True
    then show ?thesis by (cases xs; cases "tl xs") (auto simp: qsort.simps)
  next
    case False
    then show ?thesis using less by (subst qsort.simps) (simp add: sorted_merge)
  qed
qed

lemma bsearch_loop_ok:
  assumes k: "valid k" and s: "sorted_wrt le xs"
  shows "u \<le> length xs \<Longrightarrow> (case libc_bsearch_loop cmp k xs l u of
     Some j \<Rightarrow> l \<le> j \<and> j < u \<and> cmp k (xs ! j) = 0 | None \<Rightarrow> \<forall>i. l \<le> i \<and> i < u \<longrightarrow> cmp k (xs ! i) \<noteq> 0)"
proof (induction "u - l" arbitrary: l u rule: less_induct)
  case less
  show ?case
  proof (cases "l < u")
    case False
    then show ?thesis by (simp add: libc_bsearch_loop.simps)
  next
    case True
    let ?m = "(l + u) div 2"
    have m: "l \<le> ?m" "?m < u" using True by auto
    have ord: "le (xs ! i) (xs ! j)" if "i < j" "j < length xs" for i j using s that by (simp add: sorted_wrt_iff_nth_less)
    consider "cmp k (xs ! ?m) < 0" | "0 < cmp k (xs ! ?m)" | "cmp k (xs ! ?m) = 0" by linarith
    then show ?thesis
    proof cases
      case 1
      have "cmp k (xs ! i) < 0" if "?m \<le> i" "i < u" for i
        using that 1 below [OF k 1 ord] less.prems by (cases "i = ?m") auto
      then have hi: "\<And>i. ?m \<le> i \<Longrightarrow> i < u \<Longrightarrow> cmp k (xs ! i) \<noteq> 0" by (metis less_irrefl)
      have eq: "libc_bsearch_loop cmp k xs l u = libc_bsearch_loop cmp k xs l ?m"
        using 1 True by (subst libc_bsearch_loop.simps) (simp add: Let_def)
      have ih: "case libc_bsearch_loop cmp k xs l ?m of Some j \<Rightarrow> l \<le> j \<and> j < ?m \<and> cmp k (xs ! j) = 0
          | None \<Rightarrow> \<forall>i. l \<le> i \<and> i < ?m \<longrightarrow> cmp k (xs ! i) \<noteq> 0"
        by (rule less.hyps) (use m less.prems in auto)
      show ?thesis
      proof (cases "libc_bsearch_loop cmp k xs l ?m")
        case None
        then have lo: "\<And>i. l \<le> i \<Longrightarrow> i < ?m \<Longrightarrow> cmp k (xs ! i) \<noteq> 0" using ih by simp
        have "cmp k (xs ! i) \<noteq> 0" if "l \<le> i" "i < u" for i
          using that lo [of i] hi [of i] by (cases "i < ?m") auto
        then show ?thesis using None eq by simp
      next
        case (Some j)
        then show ?thesis using ih eq m(2) by simp
      qed
    next
      case 2
      have "0 < cmp k (xs ! i)" if "i \<le> ?m" for i
        using that 2 above [OF k 2 ord] less.prems m by (cases "i = ?m") auto
      then have lo: "\<And>i. i \<le> ?m \<Longrightarrow> cmp k (xs ! i) \<noteq> 0" by (metis less_irrefl)
      have eq: "libc_bsearch_loop cmp k xs l u = libc_bsearch_loop cmp k xs (?m + 1) u"
        using 2 True by (subst libc_bsearch_loop.simps) (simp add: Let_def)
      have ih: "case libc_bsearch_loop cmp k xs (?m + 1) u of Some j \<Rightarrow> ?m + 1 \<le> j \<and> j < u \<and> cmp k (xs ! j) = 0
          | None \<Rightarrow> \<forall>i. ?m + 1 \<le> i \<and> i < u \<longrightarrow> cmp k (xs ! i) \<noteq> 0"
        by (rule less.hyps) (use m less.prems in auto)
      show ?thesis
      proof (cases "libc_bsearch_loop cmp k xs (?m + 1) u")
        case None
        then have hi: "\<And>i. ?m + 1 \<le> i \<Longrightarrow> i < u \<Longrightarrow> cmp k (xs ! i) \<noteq> 0" using ih by simp
        have "cmp k (xs ! i) \<noteq> 0" if "l \<le> i" "i < u" for i
          using that lo [of i] hi [of i] by (cases "i \<le> ?m") auto
        then show ?thesis using None eq by simp
      next
        case (Some j)
        then show ?thesis using ih eq m(1) by simp
      qed
    next
      case 3
      then show ?thesis using m True by (subst libc_bsearch_loop.simps) (simp add: Let_def)
    qed
  qed
qed

lemma bsearch_ok:
  assumes "valid k" "sorted_wrt le xs"
  shows "case bsearch cmp k xs of Some j \<Rightarrow> j < length xs \<and> cmp k (xs ! j) = 0 | None \<Rightarrow> \<forall>x \<in> set xs. cmp k x \<noteq> 0"
  using bsearch_loop_ok [OF assms, of "length xs" 0]
  by (auto simp: bsearch_def in_set_conv_nth split: option.splits)

end

lemma bsearch_invalid: "(\<And>x. 0 < cmp k x) \<Longrightarrow> bsearch cmp k xs = None"
proof -
  assume a: "\<And>x. 0 < cmp k x"
  have "libc_bsearch_loop cmp k xs l u = None" for l u
  proof (induction "u - l" arbitrary: l rule: less_induct)
    case less
    show ?case
    proof (cases "l < u")
      case True
      then show ?thesis using less [of "(l + u) div 2 + 1"] a [of "xs ! ((l + u) div 2)"]
        by (subst libc_bsearch_loop.simps) (simp add: Let_def)
    qed (simp add: libc_bsearch_loop.simps)
  qed
  then show ?thesis by (simp add: bsearch_def)
qed

text \<open>Identifiers in the order of the tables: the invalid one is behind all others.\<close>

definition id_le :: "n4 \<Rightarrow> n4 \<Rightarrow> bool" where
  "id_le a b \<longleftrightarrow> b = -1 \<or> (a \<noteq> -1 \<and> a \<le> b)"

lemmas fsm_defs = switcher_cmp_def fsm_node_cmp_def INVALID_EVENT_def INVALID_STATE_def id_le_def

interpretation sw: ranked sw_cmp "\<lambda>a b. id_le (sw_event a) (sw_event b)" "\<lambda>w. sw_event w \<noteq> INVALID_EVENT"
  by unfold_locales (auto simp: fsm_defs split: if_splits)

interpretation nd: ranked nd_cmp "\<lambda>a b. id_le (nd_state a) (nd_state b)" "\<lambda>n. nd_state n \<noteq> INVALID_STATE"
  by unfold_locales (auto simp: fsm_defs split: if_splits)

section \<open>The table that the programmer declares\<close>

text \<open>
  The rows of a node that count: those up to the first one that leads to \<open>INVALID_STATE\<close>, which is the
  final transition or the terminator of \<open>FSM_NODE_END\<close>.
\<close>

fun live :: "switcher_t list \<Rightarrow> switcher_t list" where
  "live [] = []"
| "live (s # ss) = (if sw_state s = INVALID_STATE then [s] else s # live ss)"

definition table_row :: "fsm_node_t list \<Rightarrow> n4 \<Rightarrow> n4 \<Rightarrow> switcher_t option" where
  "table_row arr s e =
     (if s = INVALID_STATE \<or> e = INVALID_EVENT then None
      else case find (\<lambda>nd. nd_state nd = s) arr of
        None \<Rightarrow> None
      | Some nd \<Rightarrow> find (\<lambda>w. sw_event w = e) (live (nd_switcher nd)))"

text \<open>
  A table is well formed when it has full rows, no state twice and in a node no event twice. The
  terminators of the nodes and of the table may be repeated.
\<close>

definition rows_ok :: "fsm_node_t \<Rightarrow> bool" where
  "rows_ok nd \<longleftrightarrow> nd_state nd = INVALID_STATE
     \<or> distinct (filter (\<lambda>e. e \<noteq> INVALID_EVENT) (map sw_event (live (nd_switcher nd))))"

definition table_ok :: "fsm_node_t list \<Rightarrow> bool" where
  "table_ok arr \<longleftrightarrow> list_all (\<lambda>nd. length (nd_switcher nd) = MAX_SWITCH_NUM \<and> rows_ok nd) arr
     \<and> distinct (filter (\<lambda>s. s \<noteq> INVALID_STATE) (map nd_state arr))"

lemma clear_loop_0: "clear_loop 0 ss = replicate (length ss) invalid_switcher"
  by (induction ss) auto

lemma clear_loop_live:
  "clear_loop (-1) ss = live ss @ replicate (length ss - length (live ss)) invalid_switcher"
  by (induction ss) (auto simp: clear_loop_0)

lemma set_clear_loop: "w \<in> set (clear_loop (-1) ss) \<longleftrightarrow> w \<in> set (live ss) \<or> (length (live ss) < length ss \<and> w = invalid_switcher)"
  by (auto simp: clear_loop_live)

lemma distinct_filter_key:
  "distinct (filter P (map f xs)) \<Longrightarrow> x \<in> set xs \<Longrightarrow> y \<in> set xs \<Longrightarrow> f x = f y \<Longrightarrow> P (f x) \<Longrightarrow> x = y"
  by (induction xs) (auto split: if_splits simp: rev_image_eqI)

lemma find_keyed:
  assumes "distinct (filter P (map f xs))" "P k" "x \<in> set xs" "f x = k"
  shows "find (\<lambda>z. f z = k) xs = Some x"
proof (cases "find (\<lambda>z. f z = k) xs")
  case None
  then show ?thesis using assms(3,4) by (auto simp: find_None_iff)
next
  case (Some y)
  then have "y \<in> set xs" "f y = k" by (auto simp: find_Some_iff)
  then show ?thesis using Some distinct_filter_key [OF assms(1), of x y] assms by simp
qed

text \<open>A search finds the entry with the key, wherever sorting has put it.\<close>

lemma sw_search:
  assumes e: "sw_event k \<noteq> INVALID_EVENT"
    and d: "distinct (filter (\<lambda>e. e \<noteq> INVALID_EVENT) (map sw_event (live ss)))"
  shows "(case bsearch sw_cmp k (qsort sw_cmp (clear_loop (-1) ss)) of
      None \<Rightarrow> None | Some j \<Rightarrow> Some (qsort sw_cmp (clear_loop (-1) ss) ! j))
    = find (\<lambda>w. sw_event w = sw_event k) (live ss)"
proof -
  let ?xs = "qsort sw_cmp (clear_loop (-1) ss)"
  have zero: "sw_cmp k w = 0 \<longleftrightarrow> sw_event w = sw_event k" for w
    using e by (auto simp: fsm_defs)
  have set_xs: "set ?xs = set (clear_loop (-1) ss)" by (metis sw.qsort_mset set_mset_mset)
  have mem: "w \<in> set ?xs \<and> sw_event w = sw_event k \<longleftrightarrow> w \<in> set (live ss) \<and> sw_event w = sw_event k" for w
    using e by (auto simp: set_xs set_clear_loop invalid_switcher_def)
  note ok = sw.bsearch_ok [OF e sw.qsort_sorted [of "clear_loop (-1) ss"]]
  show ?thesis
  proof (cases "bsearch sw_cmp k ?xs")
    case None
    then have "\<forall>w \<in> set ?xs. sw_event w \<noteq> sw_event k" using ok zero by simp
    then show ?thesis using None mem by (auto simp: find_None_iff2)
  next
    case (Some j)
    then have "?xs ! j \<in> set ?xs" "sw_event (?xs ! j) = sw_event k" using ok zero by auto
    then have "find (\<lambda>w. sw_event w = sw_event k) (live ss) = Some (?xs ! j)"
      using mem e by (intro find_keyed [OF d]) blast+
    then show ?thesis using Some by simp
  qed
qed

lemma nd_search:
  assumes e: "nd_state k \<noteq> INVALID_STATE"
    and d: "distinct (filter (\<lambda>s. s \<noteq> INVALID_STATE) (map nd_state arr))"
    and g: "\<And>nd. nd_state (g nd) = nd_state nd"
  shows "(case bsearch nd_cmp k (map g (qsort nd_cmp arr)) of
      None \<Rightarrow> None | Some j \<Rightarrow> Some (map g (qsort nd_cmp arr) ! j))
    = map_option g (find (\<lambda>nd. nd_state nd = nd_state k) arr)"
proof -
  let ?xs = "qsort nd_cmp arr"
  have zero: "nd_cmp k w = 0 \<longleftrightarrow> nd_state w = nd_state k" for w
    using e by (auto simp: fsm_defs)
  have set_xs: "set ?xs = set arr" by (metis nd.qsort_mset set_mset_mset)
  have "sorted_wrt (\<lambda>a b. id_le (nd_state a) (nd_state b)) (map g ?xs)"
    using nd.qsort_sorted [of arr] by (simp add: sorted_wrt_map g)
  note ok = nd.bsearch_ok [OF e this]
  show ?thesis
  proof (cases "bsearch nd_cmp k (map g ?xs)")
    case None
    then have "\<forall>w \<in> set arr. nd_state w \<noteq> nd_state k" using ok zero by (simp add: set_xs g)
    then show ?thesis using None by (auto simp: find_None_iff)
  next
    case (Some j)
    then have j: "j < length ?xs" "nd_state (?xs ! j) = nd_state k" using ok zero g by auto
    then have "?xs ! j \<in> set arr" using set_xs nth_mem by blast
    then show ?thesis using Some j find_keyed [OF d] e by auto
  qed
qed

lemma invalid_search:
  "sw_event k = INVALID_EVENT \<Longrightarrow> bsearch sw_cmp k ws = None"
  "nd_state n = INVALID_STATE \<Longrightarrow> bsearch nd_cmp n ns = None"
  by (auto intro!: bsearch_invalid simp: fsm_defs)

text \<open>What is left in the array: the nodes in another order, each with its live rows.\<close>

lemma arr_sort_eq:
  assumes "arr \<noteq> []"
  shows "fsm_node_arr_sort (Some arr) (length arr)
    = Some (Some (map (\<lambda>nd. nd\<lparr>nd_switcher := qsort sw_cmp (clear_loop (-1) (nd_switcher nd))\<rparr>) (qsort nd_cmp arr)))"
  using assms by (simp add: fsm_node_arr_sort_def)

lemma find_node_ok:
  assumes "table_ok arr" "find (\<lambda>nd. nd_state nd = s) arr = Some nd" "s \<noteq> INVALID_STATE"
  shows "distinct (filter (\<lambda>e. e \<noteq> INVALID_EVENT) (map sw_event (live (nd_switcher nd))))"
proof -
  have "nd \<in> set arr" "nd_state nd = s" using assms(2) by (auto simp: find_Some_iff)
  then have "rows_ok nd" using assms(1) by (auto simp: table_ok_def list_all_iff)
  then show ?thesis using assms(3) \<open>nd_state nd = s\<close> by (simp add: rows_ok_def)
qed

lemma fsm_find_sorted:
  assumes ok: "table_ok arr" and ne: "arr \<noteq> []"
    and s: "fsm_node_arr_sort (Some arr) (length arr) = Some (Some arr')"
  shows "fsm_find arr' st ev = table_row arr st ev"
proof -
  let ?g = "\<lambda>nd. nd\<lparr>nd_switcher := qsort sw_cmp (clear_loop (-1) (nd_switcher nd))\<rparr>"
  let ?k = "\<lparr>nd_state = st, nd_name = None, nd_switcher = []\<rparr>"
  have arr': "arr' = map ?g (qsort nd_cmp arr)" using s arr_sort_eq [OF ne] by simp
  show ?thesis
  proof (cases "st = INVALID_STATE")
    case True
    then show ?thesis by (simp add: fsm_find_def table_row_def invalid_search)
  next
    case False
    have d: "distinct (filter (\<lambda>s. s \<noteq> INVALID_STATE) (map nd_state arr))" using ok by (simp add: table_ok_def)
    have nd: "(case bsearch nd_cmp ?k arr' of None \<Rightarrow> None | Some j \<Rightarrow> Some (arr' ! j))
        = map_option ?g (find (\<lambda>nd. nd_state nd = st) arr)"
      unfolding arr' using nd_search [OF _ d, of ?k ?g] False by simp
    show ?thesis
    proof (cases "find (\<lambda>nd. nd_state nd = st) arr")
      case None
      then have "bsearch nd_cmp ?k arr' = None" using nd by (simp split: option.splits)
      then show ?thesis using None by (simp add: fsm_find_def table_row_def)
    next
      case (Some nd)
      then obtain i where i: "bsearch nd_cmp ?k arr' = Some i" "arr' ! i = ?g nd"
        using \<open>(case bsearch nd_cmp ?k arr' of None \<Rightarrow> None | Some j \<Rightarrow> Some (arr' ! j)) = _\<close>
        by (auto split: option.splits)
      show ?thesis
      proof (cases "ev = INVALID_EVENT")
        case True
        then show ?thesis using i by (simp add: fsm_find_def table_row_def invalid_search)
      next
        case ev: False
        show ?thesis
          using i Some False ev
            sw_search [OF _ find_node_ok [OF ok Some False], of "\<lparr>sw_state = 0, sw_event = ev, sw_handler = None, sw_judge = None\<rparr>"]
          by (simp add: fsm_find_def table_row_def cong: option.case_cong)
      qed
    qed
  qed
qed

section \<open>The machine of a table\<close>

text \<open>
  One transition of a machine with this table: the handler of the row (or the machine's own) acts on
  the event, and the judge decides whether the state changes.
\<close>

inductive fsm_step :: "callback \<Rightarrow> fsm_node_t list \<Rightarrow> fsm_t \<times> event_param_t \<Rightarrow> fsm_t \<times> event_param_t \<Rightarrow> bool"
  for call :: callback and arr :: "fsm_node_t list" where
  switch: "\<lbrakk>table_row arr (fs_state f) (ev_event p) = Some w;
     (case sw_handler w of None \<Rightarrow> fs_handler f | Some h \<Rightarrow> Some h) = Some h;
     call h f p = (r, st, p1);
     (case sw_judge w of None \<Rightarrow> fs_judge f | Some j \<Rightarrow> Some j) = Some j;
     call j (f\<lparr>fs_state := st\<rparr>) p1 = (0, st2, p2)\<rbrakk>
   \<Longrightarrow> fsm_step call arr (f, p) (f\<lparr>fs_state := sw_state w\<rparr>, p2)"
| stay: "\<lbrakk>table_row arr (fs_state f) (ev_event p) = Some w;
     (case sw_handler w of None \<Rightarrow> fs_handler f | Some h \<Rightarrow> Some h) = Some h;
     call h f p = (r, st, p1);
     (case sw_judge w of None \<Rightarrow> fs_judge f | Some j \<Rightarrow> Some j) = Some j;
     call j (f\<lparr>fs_state := st\<rparr>) p1 = (r2, st2, p2); r2 \<noteq> 0\<rbrakk>
   \<Longrightarrow> fsm_step call arr (f, p) (f\<lparr>fs_state := st2\<rparr>, p2)"

inductive_simps fsm_step_iff: "fsm_step call arr (f, p) c"

text \<open>The machine runs on the table \<open>arr\<close> when its nodes answer every search as the table says.\<close>

definition runs_on :: "fsm_t \<Rightarrow> fsm_node_t list \<Rightarrow> bool" where
  "runs_on f arr \<longleftrightarrow> 0 \<le> fs_size f \<and> nat (fs_size f) \<le> length (fs_node f)
     \<and> (\<forall>s e. fsm_find (take (nat (fs_size f)) (fs_node f)) s e = table_row arr s e)"

lemma runs_on_state [simp]: "runs_on (f\<lparr>fs_state := s\<rparr>) arr = runs_on f arr"
  by (simp add: runs_on_def)

lemma step_runs_on: "fsm_step call arr c c' \<Longrightarrow> runs_on (fst c) arr \<Longrightarrow> runs_on (fst c') arr"
  by (induction rule: fsm_step.induct) simp_all

text \<open>A turn is a transition, or it stops because the table has no row.\<close>

lemma fsm_turn_stop:
  assumes "runs_on f arr"
  shows "fsm_turn call f p = Some (Some (-2), f, p) \<and> table_row arr (fs_state f) (ev_event p) = None
    \<or> table_row arr (fs_state f) (ev_event p) \<noteq> None \<and>
      (\<forall>r f' p'. fsm_turn call f p = Some (r, f', p') \<longleftrightarrow>
         fsm_step call arr (f, p) (f', p') \<and> r = (if fs_state f' = INVALID_STATE then Some 0 else None))"
proof (cases "table_row arr (fs_state f) (ev_event p)")
  case None
  then show ?thesis using assms by (simp add: fsm_turn_def runs_on_def)
next
  case (Some w)
  let ?h = "case sw_handler w of None \<Rightarrow> fs_handler f | Some h \<Rightarrow> Some h"
  let ?j = "case sw_judge w of None \<Rightarrow> fs_judge f | Some j \<Rightarrow> Some j"
  have turn: "fsm_turn call f p = do {
      h \<leftarrow> ?h; let (r, st, p1) = call h f p; j \<leftarrow> ?j;
      let (r2, st2, p2) = call j (f\<lparr>fs_state := st\<rparr>) p1;
      let f' = f\<lparr>fs_state := (if r2 = 0 then sw_state w else st2)\<rparr>;
      Some (if INVALID_STATE = fs_state f' then Some 0 else None, f', p2) }"
    using Some assms by (simp add: fsm_turn_def runs_on_def Let_def split_def cong: option.case_cong)
  have "fsm_turn call f p = Some (r, f', p') \<longleftrightarrow>
     fsm_step call arr (f, p) (f', p') \<and> r = (if fs_state f' = INVALID_STATE then Some 0 else None)" for r f' p'
  proof (cases ?h)
    case None
    then show ?thesis using Some unfolding turn by (auto simp: fsm_step_iff)
  next
    case h: (Some h)
    obtain r1 st p1 where c1: "call h f p = (r1, st, p1)" by (cases "call h f p") auto
    show ?thesis
    proof (cases ?j)
      case None
      then show ?thesis using Some h c1 unfolding turn by (auto simp: fsm_step_iff)
    next
      case j: (Some j)
      obtain r2 st2 p2 where c2: "call j (f\<lparr>fs_state := st\<rparr>) p1 = (r2, st2, p2)"
        by (cases "call j (f\<lparr>fs_state := st\<rparr>) p1") auto
      show ?thesis using Some h j c1 c2 unfolding turn
        by (cases "r2 = 0") (auto simp: fsm_step_iff Let_def)
    qed
  qed
  then show ?thesis using Some by simp
qed

definition halted :: "fsm_node_t list \<Rightarrow> fsm_t \<Rightarrow> event_param_t \<Rightarrow> n4 \<Rightarrow> bool" where
  "halted arr f p ret \<longleftrightarrow> table_row arr (fs_state f) (ev_event p) = None
     \<and> ret = (if fs_state f = INVALID_STATE then 0 else -2)"

lemma table_row_invalid [simp]: "table_row arr INVALID_STATE e = None"
  by (simp add: table_row_def)

lemma halted_no_step: "halted arr f p ret \<Longrightarrow> \<not> fsm_step call arr (f, p) c"
  by (auto simp: halted_def fsm_step_iff)

lemma fsm_loop_sound:
  assumes "fsm_loop call f p = Some y"
  shows "runs_on f arr \<longrightarrow> fs_state f \<noteq> INVALID_STATE \<longrightarrow>
    (fsm_step call arr)\<^sup>*\<^sup>* (f, p) (snd y) \<and> halted arr (fst (snd y)) (snd (snd y)) (fst y)"
proof (rule fsm_loop.raw_induct [where P = "\<lambda>call f p y. runs_on f arr \<longrightarrow> fs_state f \<noteq> INVALID_STATE \<longrightarrow>
      (fsm_step call arr)\<^sup>*\<^sup>* (f, p) (snd y) \<and> halted arr (fst (snd y)) (snd (snd y)) (fst y)",
      OF _ assms])
  fix loop and call :: callback and f p and y :: "n4 \<times> fsm_t \<times> event_param_t"
  assume ih: "\<And>call f p y. loop call f p = Some y \<Longrightarrow> runs_on f arr \<longrightarrow> fs_state f \<noteq> INVALID_STATE \<longrightarrow>
      (fsm_step call arr)\<^sup>*\<^sup>* (f, p) (snd y) \<and> halted arr (fst (snd y)) (snd (snd y)) (fst y)"
    and run: "Option.bind (fsm_turn call f p) (\<lambda>(r, f', p').
       case r of Some ret \<Rightarrow> Some (ret, f', p') | None \<Rightarrow> loop call f' p') = Some y"
  obtain r f' p' where t: "fsm_turn call f p = Some (r, f', p')"
    using run by (cases "fsm_turn call f p") auto
  show "runs_on f arr \<longrightarrow> fs_state f \<noteq> INVALID_STATE \<longrightarrow> (fsm_step call arr)\<^sup>*\<^sup>* (f, p) (snd y) \<and> halted arr (fst (snd y)) (snd (snd y)) (fst y)"
  proof (intro impI)
    assume f: "runs_on f arr" and st: "fs_state f \<noteq> INVALID_STATE"
    show "(fsm_step call arr)\<^sup>*\<^sup>* (f, p) (snd y) \<and> halted arr (fst (snd y)) (snd (snd y)) (fst y)"
    proof (cases "table_row arr (fs_state f) (ev_event p)")
      case None
      then show ?thesis using fsm_turn_stop [OF f, of call p] run st by (auto simp: halted_def)
    next
      case (Some w)
      then have s: "fsm_step call arr (f, p) (f', p')" and r: "r = (if fs_state f' = INVALID_STATE then Some 0 else None)"
        using fsm_turn_stop [OF f, of call p] t by (metis option.distinct(1))+
      show ?thesis
      proof (cases "fs_state f' = INVALID_STATE")
        case True
        then show ?thesis using t r run s by (auto simp: halted_def)
      next
        case False
        then have "loop call f' p' = Some y" using t r run by simp
        from ih [OF this] show ?thesis using step_runs_on [OF s] f False s
          by (auto intro: converse_rtranclp_into_rtranclp)
      qed
    qed
  qed
qed

lemma fsm_loop_complete:
  assumes "(fsm_step call arr)\<^sup>*\<^sup>* (f, p) (f', p')" and h: "halted arr f' p' ret"
  shows "runs_on f arr \<Longrightarrow> fs_state f \<noteq> INVALID_STATE \<Longrightarrow> fsm_loop call f p = Some (ret, f', p')"
  using assms(1)
proof (induction rule: converse_rtranclp_induct2)
  case refl
  then show ?case using fsm_turn_stop [OF refl(1), of call p'] h
    by (subst fsm_loop.simps) (auto simp: halted_def)
next
  case (step f p f1 p1)
  have "fsm_turn call f p = Some (if fs_state f1 = INVALID_STATE then Some 0 else None, f1, p1)"
    using fsm_turn_stop [OF step.prems(1), of call p] step.hyps(1) by (auto simp: fsm_step_iff)
  moreover have "(f', p') = (f1, p1) \<and> ret = 0" if "fs_state f1 = INVALID_STATE"
  proof -
    have "\<not> fsm_step call arr (f1, p1) c" for c using that by (auto simp: fsm_step_iff)
    then show ?thesis using step.hyps(2) h that by (auto elim: converse_rtranclpE simp: halted_def)
  qed
  ultimately show ?case using step.IH step.hyps(1) step.prems step_runs_on [OF step.hyps(1)]
    by (subst fsm_loop.simps) auto
qed

text \<open>\<open>FSM_INIT\<close> on an array that has been sorted.\<close>

definition fsm_init :: "n4 \<Rightarrow> nat option \<Rightarrow> nat option \<Rightarrow> fsm_node_t list \<Rightarrow> fsm_t" where
  "fsm_init state handler judge arr =
     \<lparr>fs_state = state, fs_handler = handler, fs_judge = judge, fs_size = int (length arr), fs_node = arr\<rparr>"

lemma runs_on_init:
  assumes "table_ok arr" "arr \<noteq> []" "fsm_node_arr_sort (Some arr) (length arr) = Some (Some arr')"
  shows "runs_on (fsm_init state handler judge arr') arr"
  using fsm_find_sorted [OF assms] by (simp add: runs_on_def fsm_init_def)

section \<open>Correctness\<close>

text \<open>
  C25. Sorting a well formed table with \<open>fsm_node_arr_sort\<close> does not change what it says: for every
  state and event the two binary searches of \<open>fsm_run\<close> in the sorted array return exactly the row that
  a linear search in the declared table finds among the live rows, and nothing when there is none, also
  for invalid states and events.
\<close>

theorem fsm_lookup_equivalence:
  assumes "table_ok arr" "arr \<noteq> []" "fsm_node_arr_sort (Some arr) (length arr) = Some (Some arr')"
  shows "fsm_find arr' state event = table_row arr state event"
  using fsm_find_sorted [OF assms] .

text \<open>
  C20. \<open>fsm_run\<close> on a machine initialised with a sorted table follows the declared machine: it returns
  \<open>ret\<close> with the machine \<open>f'\<close> and parameter \<open>p'\<close> exactly when the transitions of the table lead there, there is
  no row for the state and event reached, and \<open>ret\<close> is 0 in the final state \<open>INVALID_STATE\<close> and -2 in any
  other (the comment in \<open>lisk_fsm.h\<close> knows only 0 and -1; -1 is the answer to illegal arguments). In particular it returns whenever the machine comes to a halt, and calls each handler and
  judge in the order of the transitions.
\<close>

theorem fsm_run_refines:
  assumes "table_ok arr" "arr \<noteq> []" "fsm_node_arr_sort (Some arr) (length arr) = Some (Some arr')"
    and "state \<noteq> INVALID_STATE" "ev_event p \<noteq> INVALID_EVENT"
  shows "fsm_run call (Some (fsm_init state handler judge arr')) (Some p) = Some (ret, Some f', Some p') \<longleftrightarrow>
    (fsm_step call arr)\<^sup>*\<^sup>* (fsm_init state handler judge arr', p) (f', p') \<and> halted arr f' p' ret"
proof -
  let ?f = "fsm_init state handler judge arr'"
  have f: "runs_on ?f arr" by (rule runs_on_init) fact+
  have st: "fs_state ?f \<noteq> INVALID_STATE" using assms(4) by (simp add: fsm_init_def)
  have "fsm_run call (Some ?f) (Some p) = Some (ret, Some f', Some p') \<longleftrightarrow> fsm_loop call ?f p = Some (ret, f', p')"
    using st assms(5) by (cases "fsm_loop call ?f p") (auto simp: fsm_run_def)
  then show ?thesis
    using fsm_loop_sound [of call ?f p "(ret, f', p')" arr] f st fsm_loop_complete [OF _ _ f st, of call p f' p' ret]
    by auto
qed

section \<open>Witnesses\<close>

text \<open>
  Two states of the stop watch of \<open>fsm/exam/fsm_test.c\<close>, declared in the wrong order, with the padding
  and the terminators that the macros produce. Handler 0 posts the event power off, judge 1 agrees.
\<close>

definition watch_rows :: "n4 \<Rightarrow> n4 \<Rightarrow> switcher_t list" where
  "watch_rows state event =
     [\<lparr>sw_state = state, sw_event = event, sw_handler = Some 0, sw_judge = Some 1\<rparr>, invalid_switcher]
     @ replicate 11 \<lparr>sw_state = 0, sw_event = 0, sw_handler = None, sw_judge = None\<rparr>"

definition watch_arr :: "fsm_node_t list" where
  "watch_arr =
     [\<lparr>nd_state = 8, nd_name = None, nd_switcher = watch_rows (-1) 16\<rparr>,
      \<lparr>nd_state = 1, nd_name = None, nd_switcher = watch_rows 8 1\<rparr>,
      \<lparr>nd_state = -1, nd_name = None,
       nd_switcher = replicate 13 \<lparr>sw_state = 0, sw_event = 0, sw_handler = None, sw_judge = None\<rparr>\<rparr>]"

definition watch_call :: callback where
  "watch_call h f p = (if h = 0 then (0, fs_state f, p\<lparr>ev_event := 16\<rparr>) else (0, fs_state f, p))"

abbreviation watch_sorted :: "fsm_node_t list" where
  "watch_sorted \<equiv> the (the (fsm_node_arr_sort (Some watch_arr) (length watch_arr)))"

lemma watch_ok:
  "table_ok watch_arr" "watch_arr \<noteq> []"
  "fsm_node_arr_sort (Some watch_arr) (length watch_arr) = Some (Some watch_sorted)"
proof -
  show ne: "watch_arr \<noteq> []" by (simp add: watch_arr_def)
  show "table_ok watch_arr"
    by (simp add: table_ok_def rows_ok_def watch_arr_def watch_rows_def invalid_switcher_def MAX_SWITCH_NUM_def
        INVALID_STATE_def INVALID_EVENT_def)
  show "fsm_node_arr_sort (Some watch_arr) (length watch_arr) = Some (Some watch_sorted)"
    by (simp add: arr_sort_eq [OF ne])
qed

lemma watch_row:
  "table_row watch_arr 1 1 = Some \<lparr>sw_state = 8, sw_event = 1, sw_handler = Some 0, sw_judge = Some 1\<rparr>"
  "table_row watch_arr 8 16 = Some \<lparr>sw_state = -1, sw_event = 16, sw_handler = Some 0, sw_judge = Some 1\<rparr>"
  "table_row watch_arr 8 1 = None"
  by (simp_all add: table_row_def watch_arr_def watch_rows_def invalid_switcher_def INVALID_STATE_def INVALID_EVENT_def)

theorem fsm_lookup_equivalence_witness:
  "fsm_find watch_sorted 8 16 = Some \<lparr>sw_state = -1, sw_event = 16, sw_handler = Some 0, sw_judge = Some 1\<rparr>
   \<and> fsm_find watch_sorted 8 1 = None"
  using fsm_lookup_equivalence [OF watch_ok] by (simp add: watch_row)

theorem fsm_run_refines_witness:
  "fsm_run watch_call (Some (fsm_init 1 None None watch_sorted)) (Some \<lparr>ev_event = 1, ev_param = []\<rparr>)
    = Some (0, Some (fsm_init (-1) None None watch_sorted), Some \<lparr>ev_event = 16, ev_param = []\<rparr>)"
proof -
  let ?f = "\<lambda>s. fsm_init s None None watch_sorted"
  have "fsm_step watch_call watch_arr (?f 1, \<lparr>ev_event = 1, ev_param = []\<rparr>) (?f 8, \<lparr>ev_event = 16, ev_param = []\<rparr>)"
    by (simp add: fsm_step_iff fsm_init_def watch_row watch_call_def)
  moreover have "fsm_step watch_call watch_arr (?f 8, \<lparr>ev_event = 16, ev_param = []\<rparr>) (?f (-1), \<lparr>ev_event = 16, ev_param = []\<rparr>)"
    by (simp add: fsm_step_iff fsm_init_def watch_row watch_call_def)
  ultimately have "(fsm_step watch_call watch_arr)\<^sup>*\<^sup>* (?f 1, \<lparr>ev_event = 1, ev_param = []\<rparr>) (?f (-1), \<lparr>ev_event = 16, ev_param = []\<rparr>)"
    by (meson converse_rtranclp_into_rtranclp rtranclp.rtrancl_refl)
  moreover have "halted watch_arr (?f (-1)) \<lparr>ev_event = 16, ev_param = []\<rparr> 0"
    by (simp add: halted_def fsm_init_def INVALID_STATE_def table_row_def)
  ultimately show ?thesis
    by (subst fsm_run_refines [OF watch_ok]) (simp_all add: INVALID_STATE_def INVALID_EVENT_def)
qed

text \<open>What the code does at the edges of its tables.\<close>

theorem cmp_invalid_both: "sw_cmp invalid_switcher invalid_switcher = 1"
  by (simp add: switcher_cmp_def invalid_switcher_def)

theorem rows_behind_final_lost:
  "sw_state w = INVALID_STATE \<Longrightarrow> clear_loop (-1) (w # ss) = w # replicate (length ss) invalid_switcher"
  by (simp add: clear_loop_0)

end
