(* ===== verification/Lisk_Cstring.thy ===== *)
theory Lisk_Cstring
  imports Lisk_Public
begin

text \<open>
  The functions on zero terminated strings of \<open>win_lisk/src/lisk_string.c\<close>: character classes, trimming, the Horspool
  search with the functions built on it, reversal, and the functions that build a string in the caller's buffer.

  \<^item> A string argument is the block of bytes it points into, from the pointer to the end of the block; the string is
    what comes before the first zero byte (\<open>cstring\<close>). \<open>None\<close> is \<open>nil\<close>. \<open>n1\<close> is a signed \<open>char\<close>, so the tests compare
    \<open>sint\<close>.
  \<^item> A pointer that a function returns into its argument is the offset. Where the code compares pointers of two
    calls (\<open>strstr\<close> keeps them in static variables) an argument carries its address as well.
  \<^item> Reading or writing outside a block is a fault, \<open>None\<close>, and so is a loop that does not end.
  \<^item> Names that begin with an underscore in the code are written without it.
\<close>

section \<open>Blocks and the C library\<close>

definition rd :: "'a list \<Rightarrow> nat \<Rightarrow> 'a option" where
  "rd b i = (if i < length b then Some (b ! i) else None)"

definition wr :: "'a list \<Rightarrow> nat \<Rightarrow> 'a \<Rightarrow> 'a list option" where
  "wr b i c = (if i < length b then Some (b[i := c]) else None)"

definition cstring :: "u1 list \<Rightarrow> u1 list" where
  "cstring b = takeWhile (\<lambda>c. c \<noteq> 0) b"

definition strlen :: "u1 list \<Rightarrow> nat option" where
  "strlen b = (if 0 \<in> set b then Some (length (cstring b)) else None)"

text \<open>\<open>strncat\<close>: at most \<open>n\<close> bytes of \<open>src\<close> and a zero behind the string in \<open>dst\<close>.\<close>

definition strncat :: "u1 list \<Rightarrow> u1 list \<Rightarrow> nat \<Rightarrow> u1 list option" where
  "strncat dst src n = do {
     l \<leftarrow> strlen dst;
     if length src < n \<and> 0 \<notin> set src then None
     else mem_write l (cstring (take n src) @ [0]) dst }"

text \<open>The value of a \<open>size_t\<close> stored in an \<open>n4\<close>, and of an \<open>n4\<close> used as a \<open>size_t\<close>.\<close>

definition n4_of :: "nat \<Rightarrow> int" where
  "n4_of n = (int n + 2 ^ 31) mod 2 ^ 32 - 2 ^ 31"

definition size_of :: "int \<Rightarrow> nat" where
  "size_of n = nat (n mod 2 ^ 64)"

section \<open>Characters\<close>

definition is_ctrl :: "u1 \<Rightarrow> n4" where
  "is_ctrl c = (if 0 \<le> sint c \<and> sint c \<le> 0x1F then 0 else -1)"

definition is_digit :: "u1 \<Rightarrow> n4" where
  "is_digit c = (if 0x30 \<le> sint c \<and> sint c \<le> 0x39 then 0 else -1)"

definition is_alpha :: "u1 \<Rightarrow> n4" where
  "is_alpha c = (if (0x61 \<le> sint c \<and> sint c \<le> 0x7A) \<or> (0x41 \<le> sint c \<and> sint c \<le> 0x5A) then 0 else -1)"

definition is_lower :: "u1 \<Rightarrow> n4" where
  "is_lower c = (if 0x61 \<le> sint c \<and> sint c \<le> 0x7A then 0 else -1)"

definition is_upper :: "u1 \<Rightarrow> n4" where
  "is_upper c = (if 0x41 \<le> sint c \<and> sint c \<le> 0x5A then 0 else -1)"

definition is_space :: "u1 \<Rightarrow> n4" where
  "is_space c = (if c \<in> {0x20, 0x0C, 0x09, 0x0D, 0x0A, 0x0B} then 0 else -1)"

definition is_print :: "u1 \<Rightarrow> n4" where
  "is_print c = (if 0x20 \<le> c \<and> c \<le> 0x7F then 0 else -1)"

definition to_lower :: "u1 \<Rightarrow> u1" where
  "to_lower c = (if is_upper c = 0 then c XOR 0x20 else c)"

definition to_upper :: "u1 \<Rightarrow> u1" where
  "to_upper c = (if is_lower c = 0 then c XOR 0x20 else c)"

section \<open>Trimming\<close>

text \<open>The loop over \<open>idx = i - 1\<close> down to 0.\<close>

fun trim_r_loop :: "u1 list \<Rightarrow> nat \<Rightarrow> u1 list option" where
  "trim_r_loop b 0 = Some b"
| "trim_r_loop b (Suc i) = do {
     c \<leftarrow> rd b i;
     if is_space c \<noteq> 0 then Some b
     else do { b \<leftarrow> wr b i 0; trim_r_loop b i } }"

definition str_trim_r :: "u1 list option \<Rightarrow> u1 list option option" where
  "str_trim_r pstr =
     (case pstr of
        None \<Rightarrow> Some None
      | Some b \<Rightarrow> do {
          n \<leftarrow> strlen b;
          let len = n4_of n;
          b \<leftarrow> (if len \<le> 0 then wr b 0 0 else trim_r_loop b (nat len));
          Some (Some b) })"

function trim_l_loop :: "u1 list \<Rightarrow> nat \<Rightarrow> nat \<Rightarrow> nat option" where
  "trim_l_loop b len idx =
     (if idx < len then do {
        c \<leftarrow> rd b idx;
        if is_space c \<noteq> 0 then Some idx else trim_l_loop b len (idx + 1) }
      else Some idx)"
  by pat_completeness auto
termination by (relation "measure (\<lambda>(b, len, idx). len - idx)") auto

declare trim_l_loop.simps [simp del]

definition str_trim_l :: "u1 list option \<Rightarrow> u1 list option option" where
  "str_trim_l pstr =
     (case pstr of
        None \<Rightarrow> Some None
      | Some b \<Rightarrow> do {
          n \<leftarrow> strlen b;
          let len = n4_of n;
          if len \<le> 0 then do { b \<leftarrow> wr b 0 0; Some (Some b) }
          else do {
            let len = nat len;
            idx \<leftarrow> trim_l_loop b len 0;
            if len \<le> idx then do { b \<leftarrow> wr b 0 0; Some (Some b) }
            else if 0 < idx then do {
              part \<leftarrow> mem_read idx (len + 1 - idx) b;
              b \<leftarrow> mem_write 0 part b;
              b \<leftarrow> wr b (len + 1 - idx) 0;
              Some (Some b) }
            else Some (Some b) } })"

function trim_loop :: "u1 list \<Rightarrow> nat \<Rightarrow> nat \<Rightarrow> nat \<Rightarrow> (nat \<times> u1 list) option" where
  "trim_loop b len idx cursor =
     (if idx < len then do {
        c \<leftarrow> rd b idx;
        if is_space c \<noteq> 0 then do { b \<leftarrow> wr b cursor c; trim_loop b len (idx + 1) (cursor + 1) }
        else trim_loop b len (idx + 1) cursor }
      else Some (cursor, b))"
  by pat_completeness auto
termination by (relation "measure (\<lambda>(b, len, idx, cursor). len - idx)") auto

declare trim_loop.simps [simp del]

definition str_trim :: "u1 list option \<Rightarrow> u1 list option option" where
  "str_trim pstr =
     (case pstr of
        None \<Rightarrow> Some None
      | Some b \<Rightarrow> do {
          n \<leftarrow> strlen b;
          let len = n4_of n;
          if len \<le> 0 then do { b \<leftarrow> wr b 0 0; Some (Some b) }
          else do {
            (cursor, b) \<leftarrow> trim_loop b (nat len) 0 0;
            b \<leftarrow> wr b cursor 0;
            Some (Some b) } })"

section \<open>Searching\<close>

function bh_fill :: "u1 list \<Rightarrow> nat \<Rightarrow> nat \<Rightarrow> nat list \<Rightarrow> nat list option" where
  "bh_fill sub_str anchor idx skip_buf =
     (if idx < anchor then do {
        c \<leftarrow> rd sub_str idx;
        bh_fill sub_str anchor (idx + 1) (skip_buf[unat c := anchor - idx]) }
      else Some skip_buf)"
  by pat_completeness auto
termination by (relation "measure (\<lambda>(s, anchor, idx, b). anchor - idx)") auto

declare bh_fill.simps [simp del]

text \<open>The comparison from \<open>idx\<close> down; \<open>off\<close> is how far \<open>str\<close> has moved.\<close>

fun bh_match :: "u1 list \<Rightarrow> nat \<Rightarrow> u1 list \<Rightarrow> nat \<Rightarrow> bool option" where
  "bh_match str off sub_str idx = do {
     a \<leftarrow> rd str (off + idx);
     b \<leftarrow> rd sub_str idx;
     if a = b then (case idx of 0 \<Rightarrow> Some True | Suc i \<Rightarrow> bh_match str off sub_str i)
     else Some False }"

declare bh_match.simps [simp del]

partial_function (option) bh_loop :: "u1 list \<Rightarrow> u1 list \<Rightarrow> nat \<Rightarrow> nat list \<Rightarrow> nat \<Rightarrow> nat \<Rightarrow> nat option option" where
  "bh_loop str sub_str sub_str_len skip_buf str_len off =
     (if sub_str_len \<le> str_len then
        Option.bind (bh_match str off sub_str (sub_str_len - 1)) (\<lambda>hit.
          if hit then Some (Some off)
          else Option.bind (rd str (off + (sub_str_len - 1))) (\<lambda>c.
            Option.bind (rd skip_buf (unat c)) (\<lambda>skip.
              bh_loop str sub_str sub_str_len skip_buf (u4_sub str_len skip) (off + skip))))
      else Some None)"

definition bh_search :: "u1 list option \<Rightarrow> nat \<Rightarrow> u1 list option \<Rightarrow> nat \<Rightarrow> nat option option" where
  "bh_search str str_len sub_str sub_str_len =
     (case (str, sub_str) of
        (Some s, Some p) \<Rightarrow>
          if sub_str_len = 0 \<or> str_len < sub_str_len then Some None
          else do {
            skip_buf \<leftarrow> bh_fill p (sub_str_len - 1) 0 (replicate 256 sub_str_len);
            bh_loop s p sub_str_len skip_buf str_len 0 }
      | _ \<Rightarrow> Some None)"

definition str_index :: "u1 list option \<Rightarrow> u1 \<Rightarrow> nat option option" where
  "str_index str ch =
     (case str of
        None \<Rightarrow> Some None
      | Some s \<Rightarrow> do { n \<leftarrow> strlen s; bh_search (Some s) (n mod 2 ^ 32) (Some [ch]) 1 })"

text \<open>\<open>strstr\<close> remembers its last arguments and where the last search ended; 0 is \<open>nil\<close>.\<close>

record strstr_t =
  last_str :: nat
  last_pat :: nat
  cursor :: nat

type_synonym cptr = "nat \<times> u1 list"

text \<open>The search that both branches make from \<open>start\<close>, as an address.\<close>

definition search_from :: "nat \<Rightarrow> u1 list \<Rightarrow> u1 list \<Rightarrow> nat option" where
  "search_from start s p = do {
     n \<leftarrow> strlen s;
     m \<leftarrow> strlen p;
     r \<leftarrow> bh_search (Some s) (n mod 2 ^ 32) (Some p) (m mod 2 ^ 32);
     Some (case r of None \<Rightarrow> 0 | Some off \<Rightarrow> start + off) }"

definition strstr :: "strstr_t \<Rightarrow> cptr option \<Rightarrow> cptr option \<Rightarrow> (nat \<times> strstr_t) option" where
  "strstr st str pattern =
     (case (str, pattern) of
        (Some (a, s), Some (q, p)) \<Rightarrow> do {
          n \<leftarrow> strlen s;
          m \<leftarrow> strlen p;
          if n \<le> m then Some (0, st)
          else if last_str st \<noteq> 0 \<and> last_pat st \<noteq> 0 \<and> a = last_str st \<and> q = last_pat st then
            (if cursor st = 0 \<or> cursor st < a \<or> a + n - 1 < cursor st then Some (0, st)
             else do {
               ret \<leftarrow> search_from (cursor st) (drop (cursor st - a) s) p;
               Some (ret, if ret \<noteq> 0 then st\<lparr>cursor := ret + m\<rparr>
                          else \<lparr>last_str = 0, last_pat = 0, cursor = 0\<rparr>) })
          else do {
            ret \<leftarrow> search_from a s p;
            Some (ret, \<lparr>last_str = a, last_pat = q, cursor = (if ret \<noteq> 0 then ret + m else 0)\<rparr>) } }
      | _ \<Rightarrow> Some (0, st))"

partial_function (option) strstr_r_loop :: "u1 list \<Rightarrow> u1 list \<Rightarrow> nat \<Rightarrow> nat \<Rightarrow> nat \<Rightarrow> nat option \<Rightarrow> nat option option" where
  "strstr_r_loop s p m end_off start last_ret =
     (if start < end_off then
        Option.bind (strlen (drop start s)) (\<lambda>n.
        Option.bind (bh_search (Some (drop start s)) (n mod 2 ^ 32) (Some p) (m mod 2 ^ 32)) (\<lambda>r.
          case r of
            None \<Rightarrow> Some last_ret
          | Some off \<Rightarrow> strstr_r_loop s p m end_off (start + off + m) (Some (start + off))))
      else Some last_ret)"

definition strstr_r :: "u1 list option \<Rightarrow> u1 list option \<Rightarrow> nat option option" where
  "strstr_r str pattern =
     (case (str, pattern) of
        (Some s, Some p) \<Rightarrow> do {
          n \<leftarrow> strlen s;
          m \<leftarrow> strlen p;
          if n \<le> m then Some None else strstr_r_loop s p m n 0 None }
      | _ \<Rightarrow> Some None)"

section \<open>Reversal\<close>

function reverse_loop :: "u1 list \<Rightarrow> nat \<Rightarrow> nat \<Rightarrow> u1 list option" where
  "reverse_loop b first end_idx =
     (if first < end_idx then do {
        x \<leftarrow> rd b first;
        y \<leftarrow> rd b end_idx;
        b \<leftarrow> wr b first (x XOR y);
        x \<leftarrow> rd b first;
        b \<leftarrow> wr b end_idx (x XOR y);
        y \<leftarrow> rd b end_idx;
        b \<leftarrow> wr b first (x XOR y);
        reverse_loop b (first + 1) (end_idx - 1) }
      else Some b)"
  by pat_completeness auto
termination by (relation "measure (\<lambda>(b, first, end_idx). end_idx - first)") auto

declare reverse_loop.simps [simp del]

definition reverse_str :: "u1 list option \<Rightarrow> u1 list option option" where
  "reverse_str str =
     (case str of
        None \<Rightarrow> Some None
      | Some b \<Rightarrow> do {
          n \<leftarrow> strlen b;
          if n \<le> 1 then Some str
          else do { b \<leftarrow> reverse_loop b 0 (n - 1); Some (Some b) } })"

section \<open>The Horspool search\<close>

text \<open>\<open>sub\<close> occurs at position \<open>p\<close>.\<close>

definition occurs :: "u1 list \<Rightarrow> u1 list \<Rightarrow> nat \<Rightarrow> bool" where
  "occurs str sub p \<longleftrightarrow> take (length sub) (drop p str) = sub"

lemma occurs_iff: "p + length sub \<le> length str \<Longrightarrow> occurs str sub p \<longleftrightarrow> (\<forall>i < length sub. str ! (p + i) = sub ! i)"
  by (auto simp: occurs_def list_eq_iff_nth_eq)

lemma rd_in [simp]: "i < length b \<Longrightarrow> rd b i = Some (b ! i)"
  by (simp add: rd_def)

lemma wr_in [simp]: "i < length b \<Longrightarrow> wr b i c = Some (b[i := c])"
  by (simp add: wr_def)

lemma bh_match_ok:
  "off + i < length str \<Longrightarrow> i < length sub \<Longrightarrow>
     bh_match str off sub i = Some (\<forall>k \<le> i. str ! (off + k) = sub ! k)"
proof (induction i)
  case 0
  then show ?case by (subst bh_match.simps) auto
next
  case (Suc i)
  then show ?case by (subst bh_match.simps) (auto simp: le_Suc_eq)
qed

text \<open>
  The table that \<open>bh_fill\<close> builds: for a byte that is in the pattern before the anchor, the distance of its
  last place there from the anchor; the length of the pattern for the others. What the search needs
  of it is that no smaller shift can match.
\<close>

definition skip_ok :: "u1 list \<Rightarrow> nat \<Rightarrow> nat \<Rightarrow> nat list \<Rightarrow> bool" where
  "skip_ok sub anchor n buf \<longleftrightarrow> length buf = 256 \<and>
     (\<forall>c. 0 < buf ! unat c \<and> buf ! unat c \<le> anchor + 1 \<and>
        (\<forall>i < n. sub ! i = c \<longrightarrow> buf ! unat c \<le> anchor - i))"

lemma unat_u1 [simp]: "unat (c :: u1) < 256"
  using unsigned_less [of c] by simp

lemma bh_fill_ok:
  assumes "skip_ok sub anchor idx buf" "idx \<le> anchor" "anchor < length sub"
  shows "\<exists>buf'. bh_fill sub anchor idx buf = Some buf' \<and> skip_ok sub anchor anchor buf'"
  using assms
proof (induction sub anchor idx buf rule: bh_fill.induct)
  case (1 sub anchor idx buf)
  show ?case
  proof (cases "idx < anchor")
    case True
    have l: "length buf = 256" using "1.prems"(1) by (simp add: skip_ok_def)
    have "skip_ok sub anchor (idx + 1) (buf[unat (sub ! idx) := anchor - idx])"
      unfolding skip_ok_def
    proof (intro conjI allI impI)
      fix c
      have b: "buf[unat (sub ! idx) := anchor - idx] ! unat c = (if sub ! idx = c then anchor - idx else buf ! unat c)"
        using l by (auto simp: nth_list_update word_unat_eq_iff)
      show "0 < buf[unat (sub ! idx) := anchor - idx] ! unat c" "buf[unat (sub ! idx) := anchor - idx] ! unat c \<le> anchor + 1"
        using "1.prems"(1) True unfolding b by (auto simp: skip_ok_def)
      fix i assume "i < idx + 1" "sub ! i = c"
      then show "buf[unat (sub ! idx) := anchor - idx] ! unat c \<le> anchor - i"
        using "1.prems"(1) unfolding b by (auto simp: skip_ok_def less_Suc_eq)
    qed (simp add: l)
    then show ?thesis using "1.IH" [OF True, of "sub ! idx"] "1.prems" True
      by (subst bh_fill.simps) simp
  next
    case False
    then show ?thesis using "1.prems" by (subst bh_fill.simps) simp
  qed
qed

lemma skip_no_match:
  assumes s: "skip_ok sub anchor anchor buf" and sub: "length sub = anchor + 1"
    and d: "0 < d" "d < buf ! unat (str ! (off + anchor))" and fit: "off + d + length sub \<le> length str"
  shows "\<not> occurs str sub (off + d)"
proof
  assume "occurs str sub (off + d)"
  then have m: "str ! (off + d + i) = sub ! i" if "i < length sub" for i using fit that by (simp add: occurs_iff)
  let ?c = "str ! (off + anchor)"
  have "d \<le> anchor" using d(2) s by (auto simp: skip_ok_def) (metis Suc_eq_plus1 less_Suc_eq_le less_le_trans)
  then have "sub ! (anchor - d) = ?c" using m [of "anchor - d"] sub d(1) by simp
  moreover have "anchor - d < anchor" using d(1) \<open>d \<le> anchor\<close> by simp
  ultimately have "buf ! unat ?c \<le> anchor - (anchor - d)" using s unfolding skip_ok_def by blast
  then show False using d(2) \<open>d \<le> anchor\<close> by simp
qed

lemma upt_split: "i \<le> j \<Longrightarrow> j \<le> k \<Longrightarrow> [i..<k] = [i..<j] @ [j..<k]"
  by (metis le_Suc_ex upt_add_eq_append)

lemma find_append: "find P (xs @ ys) = (case find P xs of None \<Rightarrow> find P ys | Some x \<Rightarrow> Some x)"
  by (induction xs) auto

lemma bh_loop_ok:
  assumes s: "skip_ok sub (m - 1) (m - 1) buf" and m: "0 < m" "length sub = m" and pat: "sub = take m pat"
    and n: "n \<le> length str" "n < 2 ^ 32"
  shows "off \<le> n \<Longrightarrow> bh_loop str pat m buf (n - off) off = Some (find (occurs str sub) [off..<n + 1 - m])"
proof (induction "n - off" arbitrary: off rule: less_induct)
  case less
  show ?case
  proof (cases "m \<le> n - off")
    case False
    then have "[off..<n + 1 - m] = []" by auto
    then show ?thesis using False by (subst bh_loop.simps) simp
  next
    case True
    let ?c = "str ! (off + (m - 1))"
    define k where "k = buf ! unat ?c"
    have in_str: "off + (m - 1) < length str" using True n(1) m(1) less.prems by simp
    have k: "0 < k" "k \<le> m" using s m(1) unfolding k_def skip_ok_def by auto
    have hit: "bh_match str off pat (m - 1) = Some (occurs str sub off)"
    proof -
      have "m \<le> length pat" using m(2) pat by simp
      moreover have "i \<le> m - 1 \<longleftrightarrow> i < m" for i using m(1) by auto
      ultimately show ?thesis using bh_match_ok [of off "m - 1" str pat] in_str m True n(1) pat
        by (auto simp: occurs_iff)
    qed
    have up: "[off..<n + 1 - m] = off # [off + 1..<n + 1 - m]" 
    proof -
      have "off < n + 1 - m" using True m(1) by simp
      then show ?thesis by (simp add: upt_conv_Cons)
    qed
    show ?thesis
    proof (cases "occurs str sub off")
      case True
      then show ?thesis using hit \<open>m \<le> n - off\<close> up by (subst bh_loop.simps) simp
    next
      case False
      have len: "u4_sub (n - off) k = n - (off + k)" using k True n(2) by (simp add: u4_sub_small)
      have rec: "bh_loop str pat m buf (n - off) off = bh_loop str pat m buf (n - (off + k)) (off + k)"
        using hit False True in_str s len by (subst bh_loop.simps) (simp add: skip_ok_def k_def del: add_diff_assoc2 add_diff_assoc)
      have none: "\<not> occurs str sub p" if "off \<le> p" "p < off + k" "p < n + 1 - m" for p
      proof (cases "p = off")
        case p: False
        then show ?thesis using skip_no_match [OF s, of "p - off" str off] that m n(1) unfolding k_def by simp
      qed (use False in simp)
      have "find (occurs str sub) [off..<n + 1 - m] = find (occurs str sub) [off + k..<n + 1 - m]"
      proof (cases "off + k \<le> n + 1 - m")
        case True
        then have "[off..<n + 1 - m] = [off..<off + k] @ [off + k..<n + 1 - m]"
          by (intro upt_split) simp_all
        moreover have "find (occurs str sub) [off..<off + k] = None" using none True by (auto simp: find_None_iff)
        ultimately show ?thesis by (simp add: find_append)
      next
        case False
        then have "find (occurs str sub) [off..<n + 1 - m] = None" using none by (auto simp: find_None_iff)
        then show ?thesis using False by simp
      qed
      then show ?thesis using rec less.hyps [of "off + k"] k True by simp
    qed
  qed
qed

definition first_occ :: "u1 list \<Rightarrow> u1 list \<Rightarrow> nat option" where
  "first_occ str sub = (if sub = [] then None else find (occurs str sub) [0..<length str + 1 - length sub])"

lemma bh_search_ok:
  assumes n: "n \<le> length s" "n < 2 ^ 32" and m: "m \<le> length p"
  shows "bh_search (Some s) n (Some p) m = Some (first_occ (take n s) (take m p))"
proof (cases "m = 0 \<or> n < m")
  case True
  then show ?thesis using n m by (auto simp: bh_search_def first_occ_def)
next
  case False
  have "skip_ok p (m - 1) 0 (replicate 256 m)" using False by (auto simp: skip_ok_def)
  then obtain buf where b: "bh_fill p (m - 1) 0 (replicate 256 m) = Some buf" "skip_ok p (m - 1) (m - 1) buf"
    using bh_fill_ok [of p "m - 1" 0] m False by force
  have "skip_ok (take m p) (m - 1) (m - 1) buf" using b(2) by (simp add: skip_ok_def)
  from bh_loop_ok [OF this _ _ refl n, of 0] have "bh_loop s p m buf n 0 = Some (find (occurs s (take m p)) [0..<n + 1 - m])"
    using False m by simp
  moreover have "occurs s (take m p) i = occurs (take n s) (take m p) i" if "i < n + 1 - m" for i
  proof -
    have "m \<le> n - i" using that False by simp
    then show ?thesis using m by (simp add: occurs_def drop_take min_def)
  qed
  then have "find (occurs s (take m p)) [0..<n + 1 - m] = find (occurs (take n s) (take m p)) [0..<n + 1 - m]"
    by (intro find_cong) auto
  moreover have "p \<noteq> []" using False m by auto
  ultimately show ?thesis using False b(1) n(1) m by (simp add: bh_search_def first_occ_def)
qed

lemma strlen_Some: "strlen b = Some n \<longleftrightarrow> 0 \<in> set b \<and> n = length (cstring b)"
  by (auto simp: strlen_def)

lemma cstring_take: "cstring b = take (length (cstring b)) b"
  unfolding cstring_def by (rule takeWhile_eq_take)

lemma cstring_length: "length (cstring b) \<le> length b"
  unfolding cstring_def by (rule length_takeWhile_le)

text \<open>The search of one zero terminated string in another.\<close>

lemma search_strings:
  assumes "strlen s = Some n" "strlen p = Some m" "n < 2 ^ 32" "m < 2 ^ 32"
  shows "bh_search (Some s) (n mod 2 ^ 32) (Some p) (m mod 2 ^ 32) = Some (first_occ (cstring s) (cstring p))"
  using bh_search_ok [of n s m p] assms cstring_length [of s] cstring_length [of p]
  by (simp add: strlen_Some cstring_take [symmetric])

lemma first_occ_Some:
  assumes "first_occ t sub = Some i"
  shows "occurs t sub i" "i + length sub \<le> length t" "sub \<noteq> []" "\<And>j. j < i \<Longrightarrow> \<not> occurs t sub j"
proof -
  have f: "find (occurs t sub) [0..<length t + 1 - length sub] = Some i" "sub \<noteq> []"
    using assms by (auto simp: first_occ_def split: if_splits)
  then obtain k where k: "k < length t + 1 - length sub" "occurs t sub k" "i = k" "\<forall>j < k. \<not> occurs t sub j"
    by (auto simp: find_Some_iff)
  then show "occurs t sub i" "i + length sub \<le> length t" "sub \<noteq> []" "\<And>j. j < i \<Longrightarrow> \<not> occurs t sub j" using f(2) by auto
qed

lemma first_occ_None: "first_occ t sub = None \<longleftrightarrow> sub = [] \<or> (\<forall>i. i + length sub \<le> length t \<longrightarrow> \<not> occurs t sub i)"
  by (auto simp: first_occ_def find_None_iff)

text \<open>
  C32. The Horspool search finds what it should: \<open>bh_search\<close> on buffers that hold the lengths given to it returns
  the position of the first occurrence of the pattern, \<open>nil\<close> when there is none or the pattern is empty, and
  always returns; the shifts of its table never skip an occurrence and no access leaves the buffers.
\<close>

theorem bh_search_correct:
  assumes "n \<le> length s" "n < 2 ^ 32" "m \<le> length p"
  shows "bh_search (Some s) n (Some p) m =
    Some (if m = 0 then None else find (\<lambda>i. take m (drop i (take n s)) = take m p) [0..<n + 1 - m])"
proof (cases "m = 0")
  case True
  then show ?thesis using bh_search_ok [OF assms] by (simp add: first_occ_def)
next
  case False
  then have "take m p \<noteq> []" using assms(3) by auto
  moreover have "occurs (take n s) (take m p) = (\<lambda>i. take m (drop i (take n s)) = take m p)"
    using assms(3) by (simp add: fun_eq_iff occurs_def min_def)
  ultimately show ?thesis using bh_search_ok [OF assms] assms False by (simp add: first_occ_def)
qed

theorem bh_search_correct_witness:
  "bh_search (Some [97, 98, 97, 98, 99]) 5 (Some [97, 98, 99]) 3 = Some (Some 2)"
  using bh_search_correct [of 5 "[97, 98, 97, 98, 99]" 3 "[97, 98, 99]"] by (simp add: upt_conv_Cons)

section \<open>Repeated search\<close>

text \<open>The occurrences that do not overlap, from the left.\<close>

function all_occ :: "u1 list \<Rightarrow> u1 list \<Rightarrow> nat list" where
  "all_occ t sub =
     (case first_occ t sub of
        None \<Rightarrow> []
      | Some i \<Rightarrow> i # map ((+) (i + length sub)) (all_occ (drop (i + length sub) t) sub))"
  by pat_completeness auto
termination
proof (relation "measure (\<lambda>(t, sub). length t)", goal_cases)
  case (2 t sub i)
  then show ?case using first_occ_Some(2,3) [of t sub i] by (cases sub) auto
qed simp

declare all_occ.simps [simp del]

lemma cstring_drop: "w \<le> length (cstring b) \<Longrightarrow> cstring (drop w b) = drop w (cstring b)"
proof (induction b arbitrary: w)
  case (Cons c b)
  then show ?case by (cases w) (auto simp: cstring_def split: if_splits)
qed (simp add: cstring_def)

lemma cstring_end: "0 \<in> set b \<Longrightarrow> length (cstring b) < length b \<and> b ! length (cstring b) = 0"
  by (induction b) (auto simp: cstring_def)

lemma strlen_drop:
  assumes "strlen b = Some n" "w \<le> n"
  shows "strlen (drop w b) = Some (n - w)"
proof -
  have "0 \<in> set (drop w b)"
  proof -
    have "length (cstring b) < length b" "b ! length (cstring b) = 0"
      using assms(1) cstring_end [of b] by (auto simp: strlen_Some)
    then have "drop w b ! (n - w) = 0" "n - w < length (drop w b)" using assms by (auto simp: strlen_Some)
    then show ?thesis by (metis nth_mem)
  qed
  then show ?thesis using assms cstring_drop [of w b] by (auto simp: strlen_Some)
qed

lemma search_from_ok:
  assumes "strlen s = Some n" "strlen p = Some m" "n < 2 ^ 32" "m < 2 ^ 32"
  shows "search_from start s p = Some (case first_occ (cstring s) (cstring p) of None \<Rightarrow> 0 | Some i \<Rightarrow> start + i)"
  using search_strings [OF assms] assms by (simp add: search_from_def)

fun strstr_calls :: "nat \<Rightarrow> strstr_t \<Rightarrow> cptr \<Rightarrow> cptr \<Rightarrow> (nat list \<times> strstr_t) option" where
  "strstr_calls 0 st s p = Some ([], st)"
| "strstr_calls (Suc k) st s p = do {
     (r, st) \<leftarrow> strstr st (Some s) (Some p);
     (rs, st) \<leftarrow> strstr_calls k st s p;
     Some (r # rs, st) }"

lemma strstr_calls_step:
  "strstr st (Some s) (Some p) = Some (r, st1) \<Longrightarrow> strstr_calls k st1 s p = Some (rs, st2) \<Longrightarrow>
     strstr_calls (Suc k) st s p = Some (r # rs, st2)"
  by simp

lemma strstr_next:
  assumes s: "strlen s = Some n" "strlen p = Some m" "m < n" "n < 2 ^ 32" and a: "a \<noteq> 0" "q \<noteq> 0"
  shows "w \<le> n \<Longrightarrow> \<exists>st'. strstr_calls (length (all_occ (drop w (cstring s)) (cstring p)) + 1)
      \<lparr>last_str = a, last_pat = q, cursor = a + w\<rparr> (a, s) (q, p)
    = Some (map (\<lambda>i. a + w + i) (all_occ (drop w (cstring s)) (cstring p)) @ [0], st')"
proof (induction "n - w" arbitrary: w rule: less_induct)
  case less
  let ?t = "drop w (cstring s)" and ?st = "\<lparr>last_str = a, last_pat = q, cursor = a + w\<rparr>"
  have n: "n = length (cstring s)" "m = length (cstring p)" using s by (auto simp: strlen_Some)
  show ?case
  proof (cases "w = n")
    case True
    have f: "first_occ ?t (cstring p) = None" using True n by (auto simp: first_occ_None)
    have "strstr ?st (Some (a, s)) (Some (q, p)) = Some (0, ?st)"
      using True s a by (simp add: strstr_def)
    then show ?thesis using f by (simp add: all_occ.simps [of ?t])
  next
    case False
    then have w: "w < n" using less.prems by simp
    have srch: "search_from (a + w) (drop w s) p = Some (case first_occ ?t (cstring p) of None \<Rightarrow> 0 | Some i \<Rightarrow> a + w + i)"
      using search_from_ok [OF strlen_drop [OF s(1) less.prems] s(2), of "a + w"] s(3,4) cstring_drop [of w s] n w by simp
    show ?thesis
    proof (cases "first_occ ?t (cstring p)")
      case None
      then have "strstr ?st (Some (a, s)) (Some (q, p)) = Some (0, \<lparr>last_str = 0, last_pat = 0, cursor = 0\<rparr>)"
        using srch s a w by (simp add: strstr_def)
      then show ?thesis using None by (simp add: all_occ.simps [of ?t])
    next
      case (Some i)
      note f = first_occ_Some [OF Some]
      let ?w = "w + i + m"
      have le: "?w \<le> n" "0 < m" using f(2,3) n w by auto
      have st: "strstr ?st (Some (a, s)) (Some (q, p)) = Some (a + w + i, \<lparr>last_str = a, last_pat = q, cursor = a + ?w\<rparr>)"
        using srch s a w Some by (simp add: strstr_def add.assoc)
      have lt: "n - ?w < n - w" using le by linarith
      obtain st' where ih: "strstr_calls (length (all_occ (drop ?w (cstring s)) (cstring p)) + 1)
          \<lparr>last_str = a, last_pat = q, cursor = a + ?w\<rparr> (a, s) (q, p)
        = Some (map (\<lambda>i. a + ?w + i) (all_occ (drop ?w (cstring s)) (cstring p)) @ [0], st')"
        using less.hyps [OF _ le(1)] lt by blast
      have "all_occ ?t (cstring p) = i # map ((+) (i + m)) (all_occ (drop ?w (cstring s)) (cstring p))"
        using Some n by (subst all_occ.simps) (simp add: ac_simps)
      then show ?thesis using strstr_calls_step [OF st ih] by (simp add: add.assoc comp_def del: strstr_calls.simps)
    qed
  qed
qed

text \<open>
  Calls of \<open>_strstr\<close> with the same two pointers enumerate the occurrences of the pattern that do not
  overlap, from left to right, and then answer \<open>nil\<close>, whatever was searched before with other pointers.
\<close>

theorem strstr_enumerates:
  assumes s: "strlen s = Some n" "strlen p = Some m" "m < n" "n < 2 ^ 32" and a: "a \<noteq> 0" "q \<noteq> 0"
    and fresh: "last_str st \<noteq> a \<or> last_pat st \<noteq> q"
  shows "\<exists>st'. strstr_calls (length (all_occ (cstring s) (cstring p)) + 1) st (a, s) (q, p)
    = Some (map ((+) a) (all_occ (cstring s) (cstring p)) @ [0], st')"
proof -
  have n: "n = length (cstring s)" "m = length (cstring p)" using s by (auto simp: strlen_Some)
  have srch: "search_from a s p = Some (case first_occ (cstring s) (cstring p) of None \<Rightarrow> 0 | Some i \<Rightarrow> a + i)"
    using search_from_ok [OF s(1,2), of a] s(3,4) by simp
  show ?thesis
  proof (cases "first_occ (cstring s) (cstring p)")
    case None
    then show ?thesis using srch s a fresh by (auto simp: strstr_def all_occ.simps [of "cstring s"])
  next
    case (Some i)
    note f = first_occ_Some [OF Some]
    have st: "strstr st (Some (a, s)) (Some (q, p)) = Some (a + i, \<lparr>last_str = a, last_pat = q, cursor = a + (i + m)\<rparr>)"
      using srch s a fresh Some by (auto simp: strstr_def add.assoc)
    obtain st' where rest: "strstr_calls (length (all_occ (drop (i + m) (cstring s)) (cstring p)) + 1)
        \<lparr>last_str = a, last_pat = q, cursor = a + (i + m)\<rparr> (a, s) (q, p)
      = Some (map (\<lambda>j. a + (i + m) + j) (all_occ (drop (i + m) (cstring s)) (cstring p)) @ [0], st')"
      using strstr_next [OF s a, of "i + m"] f(2) n by auto
    have "all_occ (cstring s) (cstring p) = i # map ((+) (i + m)) (all_occ (drop (i + m) (cstring s)) (cstring p))"
      using Some n by (subst all_occ.simps) simp
    then show ?thesis using strstr_calls_step [OF st rest] by (simp add: add.assoc comp_def del: strstr_calls.simps)
  qed
qed

theorem strstr_enumerates_witness:
  "\<exists>st'. strstr_calls 3 \<lparr>last_str = 0, last_pat = 0, cursor = 0\<rparr> (1000, [97, 98, 97, 98, 0]) (2000, [97, 98, 0])
    = Some ([1000, 1002, 0], st')"
proof -
  have "all_occ (cstring [97, 98, 97, 98, 0]) (cstring [97, 98, 0]) = [0, 2]" by code_simp
  then show ?thesis
    using strstr_enumerates [of "[97, 98, 97, 98, 0]" 4 "[97, 98, 0]" 2 1000 2000 "\<lparr>last_str = 0, last_pat = 0, cursor = 0\<rparr>"]
    by (simp add: strlen_def cstring_def numeral_3_eq_3)
qed

lemma strstr_r_loop_ok:
  assumes s: "strlen s = Some n" "strlen p = Some m" "n < 2 ^ 32" "m < 2 ^ 32"
  shows "w \<le> n \<Longrightarrow> strstr_r_loop s p m n w r =
    Some (case all_occ (drop w (cstring s)) (cstring p) of [] \<Rightarrow> r | x # xs \<Rightarrow> Some (w + last (x # xs)))"
proof (induction "n - w" arbitrary: w r rule: less_induct)
  case less
  let ?t = "drop w (cstring s)"
  have n: "n = length (cstring s)" "m = length (cstring p)" using s by (auto simp: strlen_Some)
  show ?case
  proof (cases "w < n")
    case False
    then have "first_occ ?t (cstring p) = None" using n less.prems by (auto simp: first_occ_None)
    then show ?thesis using False by (subst strstr_r_loop.simps) (simp add: all_occ.simps [of ?t])
  next
    case True
    have b: "bh_search (Some (drop w s)) ((n - w) mod 2 ^ 32) (Some p) (m mod 2 ^ 32) = Some (first_occ ?t (cstring p))"
      using search_strings [OF strlen_drop [OF s(1) less.prems] s(2)] s(3,4) cstring_drop [of w s] n True by simp
    show ?thesis
    proof (cases "first_occ ?t (cstring p)")
      case None
      then show ?thesis using True b strlen_drop [OF s(1) less.prems]
        by (subst strstr_r_loop.simps) (simp add: all_occ.simps [of ?t])
    next
      case (Some i)
      note f = first_occ_Some [OF Some]
      let ?w = "w + i + m"
      have le: "?w \<le> n" "0 < m" using f(2,3) n True by auto
      have lt: "n - ?w < n - w" using le by linarith
      have "strstr_r_loop s p m n w r = strstr_r_loop s p m n ?w (Some (w + i))"
        using True b strlen_drop [OF s(1) less.prems] Some by (subst strstr_r_loop.simps) simp
      moreover have "all_occ ?t (cstring p) = i # map ((+) (i + m)) (all_occ (drop ?w (cstring s)) (cstring p))"
        using Some n by (subst all_occ.simps) (simp add: ac_simps)
      ultimately show ?thesis using less.hyps [OF lt le(1), of "Some (w + i)"]
        by (cases "all_occ (drop ?w (cstring s)) (cstring p)") (auto simp: last_map)
    qed
  qed
qed

text \<open>
  \<open>_strstr_r\<close> returns the last of the occurrences that do not overlap, and \<open>nil\<close> when there is none.
\<close>

theorem strstr_r_spec:
  assumes "strlen s = Some n" "strlen p = Some m" "m < n" "n < 2 ^ 32"
  shows "strstr_r (Some s) (Some p) =
    Some (if all_occ (cstring s) (cstring p) = [] then None else Some (last (all_occ (cstring s) (cstring p))))"
  using strstr_r_loop_ok [OF assms(1,2,4), of 0 None] assms by (auto simp: strstr_r_def split: list.splits)

theorem strstr_r_spec_witness: "strstr_r (Some [97, 98, 97, 98, 0]) (Some [97, 98, 0]) = Some (Some 2)"
proof -
  have "all_occ (cstring [97, 98, 97, 98, 0]) (cstring [97, 98, 0]) = [0, 2]" by code_simp
  then show ?thesis using strstr_r_spec [of "[97, 98, 97, 98, 0]" 4 "[97, 98, 0]" 2] by (simp add: strlen_def cstring_def)
qed

text \<open>It is not the last occurrence: in \<open>aaa\<close> the last \<open>aa\<close> is at 1.\<close>

theorem strstr_r_overlap: "strstr_r (Some [97, 97, 97, 0]) (Some [97, 97, 0]) = Some (Some 0)"
proof -
  have "all_occ (cstring [97, 97, 97, 0]) (cstring [97, 97, 0]) = [0]" by code_simp
  moreover have n: "strlen [97, 97, 97, 0] = Some 3" "strlen [97, 97, 0] = Some 2" by (simp_all add: strlen_def cstring_def)
  ultimately have "strstr_r_loop [97, 97, 97, 0] [97, 97, 0] 2 3 0 None = Some (Some 0)"
    using strstr_r_loop_ok [OF n, of 0 None] by simp
  then show ?thesis using n by (simp add: strstr_r_def)
qed

text \<open>
  After the last occurrence at the end of the string, and after a search without any, \<open>_strstr\<close> keeps its
  memory: it answers \<open>nil\<close> for these pointers until it is called with others.
\<close>

theorem strstr_stuck:
  assumes "strlen s = Some n" "strlen p = Some m" "m < n"
    and "last_str st = a" "last_pat st = q" "a \<noteq> 0" "q \<noteq> 0" "cursor st = 0 \<or> cursor st = a + n"
  shows "strstr st (Some (a, s)) (Some (q, p)) = Some (0, st)"
  using assms by (auto simp: strstr_def)

section \<open>Trimming and reversal\<close>

abbreviation kept :: "u1 list \<Rightarrow> u1 list" where
  "kept xs \<equiv> filter (\<lambda>c. is_space c \<noteq> 0) xs"

lemma trim_loop_ok:
  assumes "len \<le> length b" "cur \<le> idx" "idx \<le> len"
  shows "\<exists>b'. trim_loop b len idx cur = Some (cur + length (kept (take (len - idx) (drop idx b))), b') \<and> length b' = length b \<and>
    take (cur + length (kept (take (len - idx) (drop idx b)))) b' = take cur b @ kept (take (len - idx) (drop idx b))"
  using assms
proof (induction b len idx cur rule: trim_loop.induct)
  case (1 b len idx cur)
  show ?case
  proof (cases "idx < len")
    case False
    then show ?thesis using "1.prems" by (subst trim_loop.simps) simp
  next
    case True
    then have i: "idx < length b" "cur < length b" using "1.prems" by auto
    have t: "take (len - idx) (drop idx b) = b ! idx # take (len - (idx + 1)) (drop (idx + 1) b)"
      using True i by (subst Cons_nth_drop_Suc [symmetric]) (auto simp: Suc_diff_Suc take_Suc_Cons [symmetric])
    show ?thesis
    proof (cases "is_space (b ! idx) = 0")
      case sp: True
      then show ?thesis using "1.IH"(2) [OF True, of "b ! idx"] "1.prems" i True t by (subst trim_loop.simps) simp
    next
      case ns: False
      let ?b = "b[cur := b ! idx]"
      have d: "drop (idx + 1) ?b = drop (idx + 1) b" using "1.prems"(2) by simp
      have tk: "take (cur + 1) ?b = take cur b @ [b ! idx]" using i by (simp add: take_Suc_conv_app_nth)
      obtain b' where "trim_loop ?b len (idx + 1) (cur + 1) = Some (cur + 1 + length (kept (take (len - (idx + 1)) (drop (idx + 1) b))), b')"
          "length b' = length ?b"
          "take (cur + 1 + length (kept (take (len - (idx + 1)) (drop (idx + 1) b)))) b' = take (cur + 1) ?b @ kept (take (len - (idx + 1)) (drop (idx + 1) b))"
        using "1.IH"(1) [OF True, of "b ! idx" ?b] ns "1.prems" i True d by auto
      then show ?thesis using ns i True t tk by (subst trim_loop.simps) simp
    qed
  qed
qed

lemma n4_of_small: "n < 2 ^ 31 \<Longrightarrow> n4_of n = int n"
  by (simp add: n4_of_def)

lemma cstring_nonzero: "0 \<notin> set (cstring b)"
  by (auto simp: cstring_def dest: set_takeWhileD)

lemma cstring_prefix: "0 \<notin> set xs \<Longrightarrow> i < length b \<Longrightarrow> take i b = xs \<Longrightarrow> b ! i = 0 \<Longrightarrow> cstring b = xs"
proof -
  assume a: "0 \<notin> set xs" "i < length b" "take i b = xs" "b ! i = 0"
  then have "b = xs @ 0 # drop (Suc i) b" by (metis id_take_nth_drop)
  then show ?thesis using a(1) unfolding cstring_def by (metis (mono_tags, lifting) append_Nil2 takeWhile.simps(2) takeWhile_append2)
qed

lemma str_trim_ok:
  assumes n: "strlen b = Some n" "n < 2 ^ 31"
  shows "\<exists>b'. str_trim (Some b) = Some (Some b') \<and> length b' = length b \<and> cstring b' = kept (cstring b) \<and> 0 \<in> set b'"
proof -
  have len: "n = length (cstring b)" "n < length b" "b ! n = 0" using n(1) cstring_end [of b] by (auto simp: strlen_Some)
  show ?thesis
  proof (cases "n = 0")
    case True
    then have "cstring (b[0 := 0]) = []" using len by (intro cstring_prefix [of "[]" 0]) auto
    then show ?thesis using True n len by (auto simp: str_trim_def n4_of_small set_update_memI)
  next
    case False
    have k: "take (n - 0) (drop 0 b) = cstring b" using len(1) cstring_take [of b] by simp
    obtain b' where b': "trim_loop b n 0 0 = Some (length (kept (cstring b)), b')" "length b' = length b"
      "take (length (kept (cstring b))) b' = kept (cstring b)"
      using trim_loop_ok [of n b 0 0] len(2) unfolding k by auto
    have lt: "length (kept (cstring b)) < length b" using len length_filter_le [of _ "cstring b"] by (metis le_less_trans)
    have "cstring (b'[length (kept (cstring b)) := 0]) = kept (cstring b)"
      using lt b' cstring_nonzero [of b] by (intro cstring_prefix [of _ "length (kept (cstring b))"]) auto
    then show ?thesis using False n b' lt by (auto simp: str_trim_def n4_of_small set_update_memI)
  qed
qed

lemma xor_reverse_ok:
  assumes "i \<le> j + 1" "j < length b"
  shows "\<exists>r. reverse_loop b i j = Some r \<and> length r = length b \<and>
    (\<forall>k < length b. r ! k = (if i \<le> k \<and> k \<le> j then b ! (i + j - k) else b ! k))"
  using assms
proof (induction "j - i" arbitrary: b i j rule: less_induct)
  case less
  show ?case
  proof (cases "i < j")
    case False
    have "i + j - k = k" if "i \<le> k" "k \<le> j" for k using that False by auto
    then have "\<forall>k < length b. b ! k = (if i \<le> k \<and> k \<le> j then b ! (i + j - k) else b ! k)" by simp
    then show ?thesis using False by (subst reverse_loop.simps) simp
  next
    case True
    let ?x = "b ! i" and ?y = "b ! j"
    have x1: "(?x XOR ?y) XOR ?y = ?x" by (simp add: xor.assoc)
    have x2: "(?x XOR ?y) XOR ?x = ?y" by (metis xor.assoc xor.commute xor_self_eq xor.right_neutral)
    let ?b = "b[i := ?y, j := ?x]"
    have step: "reverse_loop b i j = reverse_loop ?b (i + 1) (j - 1)"
      using True less.prems x1 x2 by (subst reverse_loop.simps) (simp add: list_update_swap)
    obtain r where r: "reverse_loop ?b (i + 1) (j - 1) = Some r" "length r = length b"
        "\<forall>k < length b. r ! k = (if i + 1 \<le> k \<and> k \<le> j - 1 then ?b ! (i + 1 + (j - 1) - k) else ?b ! k)"
      using less.hyps [of "j - 1" "i + 1" ?b] less.prems True by (auto simp: less_imp_diff_less diff_less_mono2)
    have "r ! k = (if i \<le> k \<and> k \<le> j then b ! (i + j - k) else b ! k)" if k: "k < length b" for k
    proof -
      have "i + j - k \<noteq> i" "i + j - k \<noteq> j" if "i + 1 \<le> k" "k \<le> j - 1" using that True by auto
      moreover have "i + 1 + (j - 1) - k = i + j - k" using True by simp
      ultimately show ?thesis using r(3) k less.prems True by (auto simp: nth_list_update)
    qed
    then show ?thesis using step r(1,2) by auto
  qed
qed

lemma reverse_str_ok:
  assumes n: "strlen b = Some n"
  shows "\<exists>b'. reverse_str (Some b) = Some (Some b') \<and> length b' = length b \<and> cstring b' = rev (cstring b) \<and> 0 \<in> set b'"
proof -
  have len: "n = length (cstring b)" "n < length b" "b ! n = 0" "0 \<in> set b" using n cstring_end [of b] by (auto simp: strlen_Some)
  show ?thesis
  proof (cases "n \<le> 1")
    case True
    then have "rev (cstring b) = cstring b" using len(1) by (cases "cstring b"; cases "tl (cstring b)") auto
    then show ?thesis using True n len by (simp add: reverse_str_def)
  next
    case False
    obtain r where r: "reverse_loop b 0 (n - 1) = Some r" "length r = length b"
        "\<forall>k < length b. r ! k = (if 0 \<le> k \<and> k \<le> n - 1 then b ! (0 + (n - 1) - k) else b ! k)"
      using xor_reverse_ok [of 0 "n - 1" b] len(2) by (auto simp: less_imp_diff_less)
    have "take n r = rev (take n b)"
      by (rule nth_equalityI) (use r len(2) False in \<open>auto simp: rev_nth\<close>)
    then have "take n r = rev (cstring b)" using len(1) cstring_take [of b] by simp
    moreover have "r ! n = 0" using r(3) len(2,3) False by auto
    ultimately have "cstring r = rev (cstring b)"
      using cstring_nonzero [of b] r(2) len(2) by (intro cstring_prefix [of _ n]) auto
    moreover have "0 \<in> set r" using \<open>r ! n = 0\<close> r(2) len(2) by (metis nth_mem)
    ultimately show ?thesis using False n r by (simp add: reverse_str_def)
  qed
qed

section \<open>Trimming one side\<close>

lemma trim_r_loop_ok:
  assumes "i \<le> length b"
  shows "\<exists>k. k \<le> i \<and> trim_r_loop b i = Some (take k b @ replicate (i - k) 0 @ drop i b) \<and>
    take k b = rev (dropWhile (\<lambda>c. is_space c = 0) (rev (take i b)))"
  using assms
proof (induction i arbitrary: b)
  case (Suc i)
  then have i: "i < length b" by simp
  have t: "take (Suc i) b = take i b @ [b ! i]" using i by (simp add: take_Suc_conv_app_nth)
  show ?case
  proof (cases "is_space (b ! i) = 0")
    case False
    then have "trim_r_loop b (Suc i) = Some b" "take (Suc i) b = rev (dropWhile (\<lambda>c. is_space c = 0) (rev (take (Suc i) b)))"
      using i t by simp_all
    then show ?thesis by (metis append_Nil append_take_drop_id diff_self_eq_0 order_refl replicate_0)
  next
    case True
    obtain k where k: "k \<le> i" "trim_r_loop (b[i := 0]) i = Some (take k (b[i := 0]) @ replicate (i - k) 0 @ drop i (b[i := 0]))"
        "take k (b[i := 0]) = rev (dropWhile (\<lambda>c. is_space c = 0) (rev (take i (b[i := 0]))))"
      using Suc.IH [of "b[i := 0]"] i by auto
    have "drop i (b[i := 0]) = 0 # drop (Suc i) b" using i by (metis Cons_nth_drop_Suc drop_update_cancel lessI length_list_update nth_list_update_eq)
    moreover have "replicate (i - k) 0 @ [0] = replicate (Suc i - k) (0 :: u1)"
      using k(1) by (simp add: Suc_diff_le replicate_append_same)
    ultimately show ?thesis using k i t True by (intro exI [of _ k]) (simp add: replicate_append_same [symmetric])
  qed
qed (auto intro: exI [of _ 0])

lemma str_trim_r_ok:
  assumes n: "strlen b = Some n" "n < 2 ^ 31"
  shows "\<exists>b'. str_trim_r (Some b) = Some (Some b') \<and> length b' = length b \<and>
    cstring b' = rev (dropWhile (\<lambda>c. is_space c = 0) (rev (cstring b)))"
proof -
  have len: "n = length (cstring b)" "n < length b" "b ! n = 0" using n(1) cstring_end [of b] by (auto simp: strlen_Some)
  have t: "take n b = cstring b" using len(1) cstring_take [of b] by simp
  show ?thesis
  proof (cases "n = 0")
    case True
    then have "cstring (b[0 := 0]) = []" using len by (intro cstring_prefix [of "[]" 0]) auto
    then show ?thesis using True n len by (auto simp: str_trim_r_def n4_of_small)
  next
    case False
    obtain k where k: "k \<le> n" "trim_r_loop b n = Some (take k b @ replicate (n - k) 0 @ drop n b)"
        "take k b = rev (dropWhile (\<lambda>c. is_space c = 0) (rev (cstring b)))"
      using trim_r_loop_ok [of n b] len(2) t by auto
    let ?b = "take k b @ replicate (n - k) 0 @ drop n b"
    have "?b ! k = 0" using k(1) len(2,3) by (cases "k = n") (auto simp: nth_append)
    moreover have "0 \<notin> set (take k b)" unfolding k(3) using cstring_nonzero [of b] by (auto dest: set_dropWhileD)
    ultimately have "cstring ?b = take k b" using k(1) len(2) by (intro cstring_prefix [of _ k]) auto
    moreover have "length ?b = length b" using k(1) len(2) by simp
    ultimately show ?thesis using False n k(2,3) by (auto simp: str_trim_r_def n4_of_small)
  qed
qed

lemma trim_l_loop_ok:
  assumes "len \<le> length b" "idx \<le> len"
  shows "\<exists>i. trim_l_loop b len idx = Some i \<and> idx \<le> i \<and> i \<le> len \<and>
    dropWhile (\<lambda>c. is_space c = 0) (drop idx (take len b)) = drop i (take len b)"
  using assms
proof (induction b len idx rule: trim_l_loop.induct)
  case (1 b len idx)
  show ?case
  proof (cases "idx < len")
    case False
    then show ?thesis using "1.prems" by (subst trim_l_loop.simps) simp
  next
    case True
    have d: "drop idx (take len b) = b ! idx # drop (idx + 1) (take len b)"
      using True "1.prems" Cons_nth_drop_Suc [of idx "take len b"] by simp
    show ?thesis
    proof (cases "is_space (b ! idx) = 0")
      case sp: True
      obtain i where "trim_l_loop b len (idx + 1) = Some i" "idx + 1 \<le> i" "i \<le> len"
          "dropWhile (\<lambda>c. is_space c = 0) (drop (idx + 1) (take len b)) = drop i (take len b)"
        using "1.IH" [OF True, of "b ! idx"] sp "1.prems" True by auto
      then show ?thesis using sp True "1.prems" d by (subst trim_l_loop.simps) simp
    next
      case ns: False
      then show ?thesis using True "1.prems" d by (subst trim_l_loop.simps) simp
    qed
  qed
qed

lemma str_trim_l_ok:
  assumes n: "strlen b = Some n" "n < 2 ^ 31"
  shows "\<exists>b'. str_trim_l (Some b) = Some (Some b') \<and> length b' = length b \<and>
    cstring b' = dropWhile (\<lambda>c. is_space c = 0) (cstring b)"
proof -
  have len: "n = length (cstring b)" "n < length b" "b ! n = 0" using n(1) cstring_end [of b] by (auto simp: strlen_Some)
  have t: "take n b = cstring b" using len(1) cstring_take [of b] by simp
  have pos: "0 < length b" using len(2) by linarith
  then have e: "cstring (b[0 := 0]) = []" by (intro cstring_prefix [of "[]" 0]) auto
  show ?thesis
  proof (cases "n = 0")
    case True
    then show ?thesis using n len e by (auto simp: str_trim_l_def n4_of_small)
  next
    case False
    obtain i where i: "trim_l_loop b n 0 = Some i" "i \<le> n" "dropWhile (\<lambda>c. is_space c = 0) (cstring b) = drop i (cstring b)"
      using trim_l_loop_ok [of n b 0] len(2) t by auto
    consider "i = n" | "i = 0" "i < n" | "0 < i" "i < n" using i(2) by linarith
    then show ?thesis
    proof cases
      case 1
      then have "dropWhile (\<lambda>c. is_space c = 0) (cstring b) = []" using i(3) len(1) by simp
      moreover have "str_trim_l (Some b) = Some (Some (b[0 := 0]))" using 1 False n i(1) pos by (simp add: str_trim_l_def n4_of_small)
      ultimately show ?thesis using e by (metis length_list_update)
    next
      case 2
      then show ?thesis using False n i by (auto simp: str_trim_l_def n4_of_small)
    next
      case 3
      let ?p = "take (n + 1 - i) (drop i b)"
      let ?b = "(?p @ drop (n + 1 - i) b)[n + 1 - i := 0]"
      have p: "take (n - i) ?p = drop i (cstring b)" using t by (simp add: drop_take [symmetric] min_def)
      have "n - i < n + 1 - i" using 3 by linarith
      then have "?b ! (n - i) = 0" using 3 len(2,3) by (simp add: nth_append)
      moreover have "take (n - i) ?b = drop i (cstring b)" using p 3 len(2) by simp
      ultimately have "cstring ?b = drop i (cstring b)"
        using cstring_nonzero [of b] 3 len(2) by (intro cstring_prefix [of _ "n - i"]) (auto dest: in_set_dropD)
      moreover have "length ?p = n + 1 - i" "n + 1 - i < length b" using 3 len(2) by auto
      then have "str_trim_l (Some b) = Some (Some ?b)"
        using 3 n i(1) len(2) by (simp add: str_trim_l_def n4_of_small mem_read_def mem_write_def)
      moreover have "length ?b = length b" using 3 len(2) by simp
      ultimately show ?thesis using i(3) by metis
    qed
  qed
qed

text \<open>
  \<open>str_trim\<close> removes the white space of the string and keeps the other characters in their order, in place
  and within the string's block.
\<close>

theorem str_trim_spec:
  assumes "strlen b = Some n" "n < 2 ^ 31"
  shows "\<exists>b'. str_trim (Some b) = Some (Some b') \<and> length b' = length b \<and> cstring b' = filter (\<lambda>c. is_space c \<noteq> 0) (cstring b)"
  using str_trim_ok [OF assms] by blast

theorem str_trim_spec_witness: "\<exists>b'. str_trim (Some [32, 97, 32, 98, 0]) = Some (Some b') \<and> length b' = 5 \<and> cstring b' = [97, 98]"
proof -
  have n: "strlen [32, 97, 32, 98, 0] = Some 4" by (simp add: strlen_def cstring_def)
  have f: "filter (\<lambda>c. is_space c \<noteq> 0) (cstring [32, 97, 32, 98, 0]) = [97, 98]" by code_simp
  have l: "length [32 :: u1, 97, 32, 98, 0] = 5" by simp
  show ?thesis using str_trim_spec [OF n] unfolding f l by simp
qed

text \<open>The header promises the string without the spaces at its sides, which is what the two one-sided functions give together.\<close>

theorem str_trim_inner: "map_option (map_option cstring) (str_trim (Some [97, 32, 98, 0])) = Some (Some [97, 98])"
  by code_simp

end
