(* ===== verification/Lisk_Cstring_Build.thy ===== *)
theory Lisk_Cstring_Build
  imports Lisk_Cstring
begin

text \<open>
  The functions of \<open>win_lisk/src/lisk_string.c\<close> that build a string in a buffer of the caller: \<open>_insert\<close>, \<open>_merge\<close>,
  \<open>_replace\<close>, \<open>_delete\<close> and \<open>_replace_str\<close>.

  Strings and buffers are as in \<^theory_text>\<open>Lisk_Cstring\<close>; the buffer is none of the strings. \<open>pos\<close>, \<open>len\<close> and \<open>dst_len\<close> are
  the signed arguments, converted where the code compares them with a \<open>size_t\<close>. An overflow of signed arithmetic,
  which C leaves undefined, is a fault. A result is the return value and the buffer.
\<close>

section \<open>Definitions\<close>

text \<open>\<open>SET_ZERO\<close> and the store behind it, with the decremented \<open>dst_len\<close>.\<close>

definition set_zero :: "u1 list \<Rightarrow> nat \<Rightarrow> u1 list option" where
  "set_zero arr len = (if len \<le> length arr then Some (replicate len 0 @ drop len arr) else None)"

definition clear_dst :: "u1 list option \<Rightarrow> int \<Rightarrow> (u1 list \<times> int) option" where
  "clear_dst dst dst_len = do {
     d \<leftarrow> dst;
     d \<leftarrow> set_zero d (size_of dst_len);
     if dst_len \<le> 0 then None
     else do { d \<leftarrow> wr d (nat (dst_len - 1)) 0; Some (d, dst_len - 1) } }"

definition str_insert :: "u1 list option \<Rightarrow> int \<Rightarrow> u1 list option \<Rightarrow> u1 list option \<Rightarrow> int \<Rightarrow> (n4 \<times> u1 list option) option" where
  "str_insert str pos sub_str dst dst_len =
     (case str of
        None \<Rightarrow> Some (-1, dst)
      | Some s \<Rightarrow> do {
          n \<leftarrow> strlen s;
          if n = 0 \<or> pos < 0 \<or> n < size_of pos then Some (-1, dst)
          else
            (case sub_str of
               None \<Rightarrow> Some (-1, dst)
             | Some p \<Rightarrow> do {
                 m \<leftarrow> strlen p;
                 if m = 0 \<or> size_of dst_len < n + m + 1 then Some (-1, dst)
                 else do {
                   (d, _) \<leftarrow> clear_dst dst dst_len;
                   d \<leftarrow> strncat d s (nat pos);
                   d \<leftarrow> strncat d p m;
                   d \<leftarrow> strncat d (drop (nat pos) s) (n - nat pos);
                   Some (0, Some d) } }) })"

text \<open>The length of an argument that may be \<open>nil\<close>.\<close>

definition opt_len :: "u1 list option \<Rightarrow> nat option" where
  "opt_len s = (case s of None \<Rightarrow> Some 0 | Some s \<Rightarrow> strlen s)"

definition str_merge :: "u1 list option \<Rightarrow> u1 list option \<Rightarrow> u1 list option \<Rightarrow> int \<Rightarrow> (n4 \<times> u1 list option) option" where
  "str_merge fst_str second dst dst_len = do {
     n \<leftarrow> opt_len fst_str;
     m \<leftarrow> opt_len second;
     let flag1 = (n = 0);
     let flag2 = (m = 0);
     let min_dst_len = n4_of (size_of (n4_of (1 + n)) + m);
     if (flag1 \<and> flag2) \<or> dst = None \<or> dst_len < min_dst_len then Some (-1, dst)
     else do {
       (d, dst_len) \<leftarrow> clear_dst dst dst_len;
       if \<not> flag1 \<and> flag2 then do { s \<leftarrow> fst_str; d \<leftarrow> strncat d s n; Some (0, Some d) }
       else if flag1 \<and> \<not> flag2 then do { p \<leftarrow> second; d \<leftarrow> strncat d p m; Some (0, Some d) }
       else str_insert fst_str (n4_of n) second (Some d) dst_len } }"

definition str_replace :: "u1 list option \<Rightarrow> int \<Rightarrow> int \<Rightarrow> u1 list option \<Rightarrow> u1 list option \<Rightarrow> int \<Rightarrow> (n4 \<times> u1 list option) option" where
  "str_replace str pos len rep dst dst_len =
     (case str of
        None \<Rightarrow> Some (-1, dst)
      | Some s \<Rightarrow> do {
          n \<leftarrow> strlen s;
          r \<leftarrow> (if 0 < len then opt_len rep else Some 0);
          let min_dst_len = n4_of (1 + n);
          min_dst_len \<leftarrow> (if 0 < len then
                            if min_dst_len - len < - (2 ^ 31) then None
                            else Some (n4_of (size_of (min_dst_len - len) + r))
                          else Some min_dst_len);
          if n = 0 \<or> pos < 0 \<or> n - 1 < size_of pos \<or> len \<le> 0 then Some (-1, dst)
          else if 2 ^ 31 \<le> pos + len then None
          else if n < size_of (pos + len) \<or> dst = None \<or> dst_len < min_dst_len then Some (-1, dst)
          else do {
            (d, _) \<leftarrow> clear_dst dst dst_len;
            d \<leftarrow> strncat d s (nat pos);
            d \<leftarrow> (case rep of
                    None \<Rightarrow> Some d
                  | Some p \<Rightarrow> if r \<noteq> 0 then strncat d p r else Some d);
            d \<leftarrow> strncat d (drop (nat (pos + len)) s) (n - nat (pos + len));
            Some (0, Some d) } })"

definition str_delete :: "u1 list option \<Rightarrow> int \<Rightarrow> int \<Rightarrow> u1 list option \<Rightarrow> int \<Rightarrow> (n4 \<times> u1 list option) option" where
  "str_delete str pos len dst dst_len = str_replace str pos len None dst dst_len"

text \<open>
  \<open>_replace_str\<close> walks over the answers of \<open>_strstr\<close>; \<open>drain\<close> is the inner loop that runs \<open>_strstr\<close> to its
  end. \<open>start\<close> is the offset of the rest of the string.
\<close>

partial_function (option) drain :: "strstr_t \<Rightarrow> cptr option \<Rightarrow> cptr option \<Rightarrow> strstr_t option" where
  "drain st str pattern =
     Option.bind (strstr st str pattern) (\<lambda>(ret, st).
       if ret \<noteq> 0 then drain st str pattern else Some st)"

partial_function (option) replace_loop :: "strstr_t \<Rightarrow> cptr \<Rightarrow> cptr \<Rightarrow> u1 list option \<Rightarrow> nat \<Rightarrow> nat \<Rightarrow> nat \<Rightarrow> nat \<Rightarrow>
    nat \<Rightarrow> u1 list \<Rightarrow> (u1 list \<times> strstr_t) option" where
  "replace_loop st str pattern rep n m r dst_len start d =
     (if start < n then
        Option.bind (strstr st (Some str) (Some pattern)) (\<lambda>(sub, st).
        if sub = 0 then
          Option.bind (strlen d) (\<lambda>l.
          if dst_len < l + (n - start) then Some (d, st)
          else Option.bind (strncat d (drop start (snd str)) (n - start)) (\<lambda>d. Some (d, st)))
        else if fst str + start < sub then
          Option.bind (strlen d) (\<lambda>l.
          if dst_len < l + (sub - (fst str + start)) then
            Option.bind (drain st (Some str) (Some pattern)) (\<lambda>st. Some (d, st))
          else Option.bind (strncat d (drop start (snd str)) (sub - (fst str + start))) (\<lambda>d.
            if r = 0 then replace_loop st str pattern rep n m r dst_len (sub - fst str + m) d
            else Option.bind (strlen d) (\<lambda>l.
              if dst_len < l + r then
                Option.bind (drain st (Some str) (Some pattern)) (\<lambda>st. Some (d, st))
              else Option.bind rep (\<lambda>p. Option.bind (strncat d p r) (\<lambda>d.
                replace_loop st str pattern rep n m r dst_len (sub - fst str + m) d)))))
        else replace_loop st str pattern rep n m r dst_len (sub - fst str + m) d)
      else Some (d, st))"

definition replace_str :: "strstr_t \<Rightarrow> cptr option \<Rightarrow> cptr option \<Rightarrow> u1 list option \<Rightarrow> u1 list option \<Rightarrow> int \<Rightarrow>
    (n4 \<times> u1 list option \<times> strstr_t) option" where
  "replace_str st str pattern rep dst dst_len =
     (case (str, pattern) of
        (Some (a, s), Some (q, p)) \<Rightarrow>
          if dst = None then Some (-1, dst, st)
          else do {
            n \<leftarrow> strlen s;
            m \<leftarrow> strlen p;
            if n \<le> m \<or> dst_len < 2 \<or> size_of dst_len < n then Some (-1, dst, st)
            else do {
              (d, dst_len) \<leftarrow> clear_dst dst dst_len;
              r \<leftarrow> opt_len rep;
              (d, st) \<leftarrow> replace_loop st (a, s) (q, p) rep n m r (nat dst_len) 0 d;
              Some (0, Some d, st) } }
      | _ \<Rightarrow> Some (-1, dst, st))"

section \<open>Buffers\<close>

text \<open>\<open>d\<close> is a buffer of \<open>L\<close> bytes that holds the string \<open>x\<close>.\<close>

definition buf :: "u1 list \<Rightarrow> nat \<Rightarrow> u1 list \<Rightarrow> bool" where
  "buf d L x \<longleftrightarrow> length d = L \<and> strlen d = Some (length x) \<and> cstring d = x"

lemma bufI: "0 \<notin> set x \<Longrightarrow> length x < length d \<Longrightarrow> take (length x) d = x \<Longrightarrow> d ! length x = 0 \<Longrightarrow> buf d (length d) x"
  using cstring_prefix [of x "length x" d] nth_mem [of "length x" d] by (simp add: buf_def strlen_Some)

lemma bufD: "buf d L x \<Longrightarrow> 0 \<notin> set x \<and> length x < L \<and> length d = L \<and> take (length x) d = x \<and> strlen d = Some (length x)"
  unfolding buf_def strlen_Some using cstring_nonzero [of d] cstring_end [of d] cstring_take [of d] by metis

lemma size_of_nat: "0 \<le> i \<Longrightarrow> i < 2 ^ 63 \<Longrightarrow> size_of i = nat i"
  by (simp add: size_of_def)

lemma clear_dst_ok:
  assumes "0 < k" "nat k \<le> length d" "k < 2 ^ 31"
  shows "\<exists>d'. clear_dst (Some d) k = Some (d', k - 1) \<and> buf d' (length d) []"
proof -
  let ?z = "(replicate (nat k) 0 @ drop (nat k) d)[nat (k - 1) := 0]"
  have "?z ! 0 = 0" using assms by (auto simp: nth_list_update nth_append)
  moreover have "d \<noteq> []" using assms(1,2) by auto
  ultimately have "buf ?z (length d) []" using bufI [of "[]" ?z] assms(2) by simp
  moreover have "clear_dst (Some d) k = Some (?z, k - 1)" using assms by (simp add: clear_dst_def set_zero_def size_of_nat)
  ultimately show ?thesis by blast
qed

lemma strncat_ok:
  assumes d: "buf d L x" and s: "strlen s = Some n" "k \<le> n" and fit: "length x + k < L"
  shows "\<exists>d'. strncat d s k = Some d' \<and> buf d' L (x @ take k (cstring s))"
proof -
  note b = bufD [OF d]
  have n: "n = length (cstring s)" "0 \<in> set s" using s(1) by (auto simp: strlen_Some)
  have "take k (take n s) = take k (cstring s)" using n(1) cstring_take [of s, symmetric] by (simp only:)
  then have t: "take k s = take k (cstring s)" using s(2) by (simp add: min_def)
  have "\<forall>c \<in> set (take k (cstring s)). c \<noteq> 0" using cstring_nonzero [of s] by (auto dest: in_set_takeD)
  then have "takeWhile (\<lambda>c. c \<noteq> 0) (take k (cstring s)) = take k (cstring s)" by (simp only: takeWhile_eq_all_conv)
  then have c: "cstring (take k s) = take k (cstring s)" by (simp only: t cstring_def)
  have l: "length (take k (cstring s)) = k" using s(2) n(1) by simp
  let ?y = "take k (cstring s)"
  let ?d = "take (length x) d @ (?y @ [0]) @ drop (length x + Suc k) d"
  have w: "mem_write (length x) (?y @ [0]) d = Some ?d" using fit b l by (simp add: mem_write_def)
  have "buf ?d (length ?d) (x @ ?y)"
  proof (rule bufI)
    show "0 \<notin> set (x @ ?y)" using b cstring_nonzero [of s] by (auto dest: in_set_takeD)
    show "length (x @ ?y) < length ?d" "take (length (x @ ?y)) ?d = x @ ?y" "?d ! length (x @ ?y) = 0"
      using b l fit by (simp_all add: nth_append)
  qed
  moreover have "length ?d = L" using mem_write_length [OF w] b by simp
  moreover have "strncat d s k = Some ?d" using b c w n(2) by (simp add: strncat_def)
  ultimately show ?thesis by metis
qed

lemma strncat_rest_ok:
  assumes d: "buf d L x" and s: "strlen s = Some n" "i \<le> n" and fit: "length x + (n - i) < L"
  shows "\<exists>d'. strncat d (drop i s) (n - i) = Some d' \<and> buf d' L (x @ drop i (cstring s))"
proof -
  have n: "n = length (cstring s)" using s by (simp add: strlen_Some)
  show ?thesis
    using strncat_ok [OF d strlen_drop [OF s] _ fit] cstring_drop [of i s] n s(2) by simp
qed

section \<open>Insertion and replacement\<close>

lemma str_insert_ok:
  assumes s: "strlen s = Some n" "strlen p = Some m" and c: "0 < n" "0 < m" "0 \<le> pos" "nat pos \<le> n"
    and l: "n + m + 1 \<le> nat dst_len" "nat dst_len \<le> length d" "dst_len < 2 ^ 31"
  shows "\<exists>d'. str_insert (Some s) pos (Some p) (Some d) dst_len = Some (0, Some d') \<and>
    buf d' (length d) (take (nat pos) (cstring s) @ cstring p @ drop (nat pos) (cstring s))"
proof -
  have n: "n = length (cstring s)" "m = length (cstring p)" using s by (auto simp: strlen_Some)
  have p0: "0 < dst_len" "size_of pos = nat pos" "size_of dst_len = nat dst_len" using l c by (auto simp: size_of_nat)
  obtain d0 where d0: "clear_dst (Some d) dst_len = Some (d0, dst_len - 1)" "buf d0 (length d) []"
    using clear_dst_ok [OF p0(1) l(2,3)] by blast
  obtain d1 where d1: "strncat d0 s (nat pos) = Some d1" "buf d1 (length d) (take (nat pos) (cstring s))"
    using strncat_ok [OF d0(2) s(1) c(4)] l c by auto
  obtain d2 where d2: "strncat d1 p m = Some d2" "buf d2 (length d) (take (nat pos) (cstring s) @ cstring p)"
    using strncat_ok [OF d1(2) s(2), of m] l c n by auto
  obtain d3 where d3: "strncat d2 (drop (nat pos) s) (n - nat pos) = Some d3"
      "buf d3 (length d) (take (nat pos) (cstring s) @ cstring p @ drop (nat pos) (cstring s))"
    using strncat_rest_ok [OF d2(2) s(1) c(4)] l c n by auto
  show ?thesis using d0(1) d1(1) d2(1) d3 s c l p0 by (simp add: str_insert_def)
qed

lemma opt_len_Some: "opt_len rep = Some r \<Longrightarrow> 0 < r \<Longrightarrow> \<exists>p. rep = Some p \<and> strlen p = Some r"
  by (cases rep) (auto simp: opt_len_def)

abbreviation opt_string :: "u1 list option \<Rightarrow> u1 list" where
  "opt_string s \<equiv> (case s of None \<Rightarrow> [] | Some s \<Rightarrow> cstring s)"

lemma opt_cat_ok:
  assumes d: "buf d L x" and r: "opt_len rep = Some r" "length x + r < L"
  shows "\<exists>d'. (case rep of None \<Rightarrow> Some d | Some p \<Rightarrow> if r \<noteq> 0 then strncat d p r else Some d) = Some d' \<and>
    buf d' L (x @ opt_string rep)"
proof (cases rep)
  case (Some p)
  then have p: "strlen p = Some r" "r = length (cstring p)" using r(1) by (auto simp: opt_len_def strlen_Some)
  then show ?thesis using Some d strncat_ok [OF d p(1) _ r(2)] by (cases "r = 0") auto
qed (use d in simp)

lemma n4_of_sum: "1 + n < 2 ^ 31 \<Longrightarrow> 0 \<le> int (1 + n) - len \<Longrightarrow> nat (int (1 + n) - len) + r < 2 ^ 31 \<Longrightarrow>
    n4_of (size_of (n4_of (1 + n) - len) + r) = int (1 + n) - len + int r" if "0 \<le> len"
  using that by (subst size_of_nat) (auto simp: n4_of_small)

lemma str_replace_ok:
  assumes s: "strlen s = Some n" "opt_len rep = Some r" and c: "0 \<le> pos" "0 < len" "nat (pos + len) \<le> n"
    and l: "n + r + 1 - nat len \<le> nat dst_len" "nat dst_len \<le> length d" "dst_len < 2 ^ 31" "n + 1 < 2 ^ 31"
  shows "\<exists>d'. str_replace (Some s) pos len rep (Some d) dst_len = Some (0, Some d') \<and>
    buf d' (length d) (take (nat pos) (cstring s) @ opt_string rep @ drop (nat (pos + len)) (cstring s))"
proof -
  let ?i = "nat (pos + len)"
  have n: "n = length (cstring s)" using s by (auto simp: strlen_Some)
  have i: "?i = nat pos + nat len" using c by simp
  have le: "nat len \<le> n" "nat pos < n" using i c by auto
  have fit: "nat pos < length d" "nat pos + r < length d" "nat pos + r + (n - ?i) < length d" using l c(3) le i by linarith+
  have ro: "length (opt_string rep) = r" using s(2) by (cases rep) (auto simp: opt_len_def strlen_Some)
  have p0: "0 < dst_len" "size_of pos = nat pos" "size_of (pos + len) = ?i" using l c le by (auto simp: size_of_nat)
  have m0: "n4_of (1 + n) = 1 + int n" using l(4) by (simp add: n4_of_small)
  have mn: "n4_of (size_of (1 + int n - len) + r) = 1 + int n - len + int r"
    using n4_of_sum [of len n r] m0 c le l by (simp add: nat_diff_distrib) linarith
  obtain d0 where d0: "clear_dst (Some d) dst_len = Some (d0, dst_len - 1)" "buf d0 (length d) []"
    using clear_dst_ok [OF p0(1) l(2,3)] by blast
  obtain d1 where d1: "strncat d0 s (nat pos) = Some d1" "buf d1 (length d) (take (nat pos) (cstring s))"
    using strncat_ok [OF d0(2) s(1), of "nat pos"] fit le(2) by auto
  obtain d2 where d2: "(case rep of None \<Rightarrow> Some d1 | Some p \<Rightarrow> if r \<noteq> 0 then strncat d1 p r else Some d1) = Some d2"
      "buf d2 (length d) (take (nat pos) (cstring s) @ opt_string rep)"
    using opt_cat_ok [OF d1(2) s(2)] fit(2) le(2) n by auto
  obtain d3 where d3: "strncat d2 (drop ?i s) (n - ?i) = Some d3"
      "buf d3 (length d) (take (nat pos) (cstring s) @ opt_string rep @ drop ?i (cstring s))"
    using strncat_rest_ok [OF d2(2) s(1) c(3)] fit(3) le(2) n ro by auto
  have "pos + len < 2 ^ 31" using c(3) l(4) by simp
  moreover have "1 + int n - len + int r \<le> dst_len" using l(1) c(2) le p0(1) by linarith
  moreover have "\<not> n - 1 < nat pos" using le(2) by linarith
  ultimately show ?thesis using d0(1) d1(1) d2(1) d3 s c l p0 m0 mn le by (simp add: str_replace_def)
qed

section \<open>Replacement of a pattern\<close>

text \<open>
  What \<open>_replace_str\<close> computes. An occurrence at the very start of what is left, at the start of the string or directly
  behind the previous occurrence, is removed without its replacement.
\<close>

function replaced :: "u1 list \<Rightarrow> u1 list \<Rightarrow> u1 list \<Rightarrow> u1 list" where
  "replaced t sub rep =
     (case first_occ t sub of
        None \<Rightarrow> t
      | Some i \<Rightarrow> (if i = 0 then [] else take i t @ rep) @ replaced (drop (i + length sub) t) sub rep)"
  by pat_completeness auto
termination
proof (relation "measure (\<lambda>(t, sub, rep). length t)", goal_cases)
  case (2 t sub rep i)
  then show ?case using first_occ_Some(2,3) [of t sub i] by (cases sub) auto
qed simp

declare replaced.simps [simp del]

text \<open>The memory of \<open>_strstr\<close> stands at offset \<open>w\<close> of the string at \<open>a\<close>, or has not seen these pointers yet.\<close>

definition stands_at :: "strstr_t \<Rightarrow> nat \<Rightarrow> nat \<Rightarrow> nat \<Rightarrow> bool" where
  "stands_at st a q w \<longleftrightarrow>
     w = 0 \<and> (last_str st \<noteq> a \<or> last_pat st \<noteq> q) \<or> st = \<lparr>last_str = a, last_pat = q, cursor = a + w\<rparr>"

lemma strstr_step:
  assumes s: "strlen s = Some n" "strlen p = Some m" "m < n" "n < 2 ^ 32" and a: "a \<noteq> 0" "q \<noteq> 0"
    and w: "w < n" "stands_at st a q w"
  shows "\<exists>st'. strstr st (Some (a, s)) (Some (q, p)) =
    Some (case first_occ (drop w (cstring s)) (cstring p) of
      None \<Rightarrow> (0, st')
    | Some i \<Rightarrow> (a + w + i, \<lparr>last_str = a, last_pat = q, cursor = a + (w + i + m)\<rparr>))"
proof -
  have n: "n = length (cstring s)" using s by (auto simp: strlen_Some)
  have srch: "search_from (a + w) (drop w s) p =
      Some (case first_occ (drop w (cstring s)) (cstring p) of None \<Rightarrow> 0 | Some i \<Rightarrow> a + w + i)"
    using search_from_ok [OF strlen_drop [OF s(1), of w] s(2), of "a + w"] s(3,4) cstring_drop [of w s] n w by simp
  from w(2) consider (fresh) "w = 0" "last_str st \<noteq> a \<or> last_pat st \<noteq> q"
    | (cont) "st = \<lparr>last_str = a, last_pat = q, cursor = a + w\<rparr>" by (auto simp: stands_at_def)
  then show ?thesis
  proof cases
    case fresh
    then show ?thesis using srch s a by (auto simp: strstr_def add.assoc split: option.splits)
  next
    case cont
    then show ?thesis using srch s a w(1) by (auto simp: strstr_def add.assoc split: option.splits)
  qed
qed

lemma replace_loop_ok:
  assumes s: "strlen s = Some n" "strlen p = Some m" "m < n" "n < 2 ^ 32" and a: "a \<noteq> 0" "q \<noteq> 0"
    and r: "opt_len rep = Some r" and L: "dl < L"
  shows "w \<le> n \<Longrightarrow> stands_at st a q w \<Longrightarrow> buf d L x \<Longrightarrow>
    length x + length (replaced (drop w (cstring s)) (cstring p) (opt_string rep)) \<le> dl \<Longrightarrow>
    \<exists>d' st'. replace_loop st (a, s) (q, p) rep n m r dl w d = Some (d', st') \<and>
      buf d' L (x @ replaced (drop w (cstring s)) (cstring p) (opt_string rep))"
proof (induction "n - w" arbitrary: w st d x rule: less_induct)
  case less
  let ?t = "drop w (cstring s)" and ?r = "opt_string rep"
  have n: "n = length (cstring s)" "m = length (cstring p)" using s by (auto simp: strlen_Some)
  have ro: "length ?r = r" using r by (cases rep) (auto simp: opt_len_def strlen_Some)
  have sx: "strlen d = Some (length x)" using bufD [OF less.prems(3)] by simp
  show ?case
  proof (cases "w = n")
    case True
    then have "first_occ ?t (cstring p) = None" using n by (auto simp: first_occ_None)
    then have "replaced ?t (cstring p) ?r = []" using True n by (subst replaced.simps) simp
    then show ?thesis using True less.prems(3) by (subst replace_loop.simps) simp
  next
    case False
    then have w: "w < n" using less.prems by simp
    obtain st' where st: "strstr st (Some (a, s)) (Some (q, p)) = Some (case first_occ ?t (cstring p) of
        None \<Rightarrow> (0, st') | Some i \<Rightarrow> (a + w + i, \<lparr>last_str = a, last_pat = q, cursor = a + (w + i + m)\<rparr>))"
      using strstr_step [OF s a w less.prems(2)] by blast
    show ?thesis
    proof (cases "first_occ ?t (cstring p)")
      case None
      then have e: "replaced ?t (cstring p) ?r = ?t" by (simp add: replaced.simps [of ?t])
      have fit: "length x + (n - w) \<le> dl" using less.prems(4) n unfolding e by simp
      obtain d' where "strncat d (drop w s) (n - w) = Some d'" "buf d' L (x @ ?t)"
        using strncat_rest_ok [OF less.prems(3) s(1), of w] w fit L by auto
      then show ?thesis using None w st sx fit e by (subst replace_loop.simps) simp
    next
      case (Some i)
      note f = first_occ_Some [OF Some]
      let ?w = "w + i + m" and ?st = "\<lparr>last_str = a, last_pat = q, cursor = a + (w + i + m)\<rparr>"
      let ?rest = "replaced (drop ?w (cstring s)) (cstring p) ?r"
      have le: "?w \<le> n" "0 < m" using f(2,3) n w by auto
      have lt: "n - ?w < n - w" using le by linarith
      have at: "stands_at ?st a q ?w" by (simp add: stands_at_def)
      note ih = less.hyps [OF lt le(1) at]
      have e: "replaced ?t (cstring p) ?r = (if i = 0 then [] else take i ?t @ ?r) @ ?rest"
        using Some n by (subst replaced.simps) (simp add: ac_simps)
      show ?thesis
      proof (cases "i = 0")
        case True
        then have "replace_loop st (a, s) (q, p) rep n m r dl w d = replace_loop ?st (a, s) (q, p) rep n m r dl ?w d"
          using w st Some a by (subst replace_loop.simps) simp
        then show ?thesis using ih [OF less.prems(3)] less.prems(4) True e by simp
      next
        case False
        have len: "length x + i + r + length ?rest \<le> dl" using less.prems(4) False e ro le(1) n by simp
        have iw: "i \<le> n - w" using le(1) by linarith
        have "strlen (drop w s) = Some (n - w)" "cstring (drop w s) = ?t" using strlen_drop [OF s(1)] cstring_drop [of w s] w n by auto
        then obtain d1 where d1: "strncat d (drop w s) i = Some d1" "buf d1 L (x @ take i ?t)"
          using strncat_ok [OF less.prems(3), of "drop w s" "n - w" i] iw len L by auto
        obtain d2 where d2: "(case rep of None \<Rightarrow> Some d1 | Some p \<Rightarrow> if r \<noteq> 0 then strncat d1 p r else Some d1) = Some d2"
            "buf d2 L ((x @ take i ?t) @ ?r)"
          using opt_cat_ok [OF d1(2) r] le(1) len L n by auto
        have l1: "strlen d1 = Some (length x + i)" using bufD [OF d1(2)] le(1) n by simp
        have "replace_loop st (a, s) (q, p) rep n m r dl w d = replace_loop ?st (a, s) (q, p) rep n m r dl ?w d2"
          using w st Some False sx d1(1) l1 len d2(1) opt_len_Some [OF r] a
          by (subst replace_loop.simps) (auto simp: add.assoc split: option.splits)
        then show ?thesis using ih [OF d2(2)] len False e ro le(1) n by simp
      qed
    qed
  qed
qed

text \<open>
  C33. \<open>_replace_str\<close> with room for the result leaves in the buffer the string in which every occurrence of the
  pattern that does not overlap an earlier one is replaced, except that an occurrence at the start of the string or directly behind
  another one is only removed; it ends, returns 0 and stays inside its buffers, provided \<open>_strstr\<close> is not in
  the middle of a search with the same pointers.
\<close>

theorem replace_str_spec:
  assumes s: "strlen s = Some n" "strlen p = Some m" "m < n" "n < 2 ^ 31" and a: "a \<noteq> 0" "q \<noteq> 0"
    and fresh: "last_str st \<noteq> a \<or> last_pat st \<noteq> q" and r: "opt_len rep = Some r"
    and room: "length (replaced (cstring s) (cstring p) (opt_string rep)) < nat dst_len" "n \<le> nat dst_len" "2 \<le> dst_len"
      "nat dst_len \<le> length d" "dst_len < 2 ^ 31"
  shows "\<exists>d' st'. replace_str st (Some (a, s)) (Some (q, p)) rep (Some d) dst_len = Some (0, Some d', st') \<and>
    buf d' (length d) (replaced (cstring s) (cstring p) (opt_string rep))"
proof -
  obtain d0 where d0: "clear_dst (Some d) dst_len = Some (d0, dst_len - 1)" "buf d0 (length d) []"
    using clear_dst_ok [of dst_len d] room by auto
  have at: "stands_at st a q 0" using fresh by (simp add: stands_at_def)
  have dl: "nat (dst_len - 1) < length d" "n < 2 ^ 32" using room s(4) by auto
  have fit: "length (replaced (cstring s) (cstring p) (opt_string rep)) \<le> nat (dst_len - 1)" using room(1) by linarith
  obtain d' st' where "replace_loop st (a, s) (q, p) rep n m r (nat (dst_len - 1)) 0 d0 = Some (d', st')"
      "buf d' (length d) (replaced (cstring s) (cstring p) (opt_string rep))"
    using replace_loop_ok [OF s(1-3) dl(2) a r dl(1) _ at d0(2)] fit by auto
  then show ?thesis using d0(1) s room r by (simp add: replace_str_def size_of_nat)
qed

theorem replace_str_spec_witness:
  "\<exists>d' st'. replace_str \<lparr>last_str = 0, last_pat = 0, cursor = 0\<rparr> (Some (1000, [97, 120, 98, 120, 0])) (Some (2000, [120, 0])) (Some [45, 0])
     (Some (replicate 8 7)) 8 = Some (0, Some d', st') \<and> buf d' 8 [97, 45, 98, 45]"
proof -
  have "replaced (cstring [97, 120, 98, 120, 0]) (cstring [120, 0]) (cstring [45, 0]) = [97, 45, 98, 45]" by code_simp
  then show ?thesis
    using replace_str_spec [of "[97, 120, 98, 120, 0]" 4 "[120, 0]" 1 1000 2000 "\<lparr>last_str = 0, last_pat = 0, cursor = 0\<rparr>"
      "Some [45, 0]" 1 8 "replicate 8 7"]
    by (simp add: strlen_def cstring_def opt_len_def)
qed

text \<open>The replacement is lost where two occurrences are adjacent: \<open>axxb\<close> becomes \<open>a-b\<close>, and \<open>xb\<close> becomes \<open>b\<close>.\<close>

theorem replaced_adjacent:
  "replaced [97, 120, 120, 98] [120] [45] = [97, 45, 98]" "replaced [120, 98] [120] [45] = [98]"
  by code_simp+

section \<open>Insertion undone, and concatenation\<close>

lemma buf_strlen: "buf d L x \<Longrightarrow> strlen d = Some (length x) \<and> cstring d = x"
  by (simp add: buf_def)

text \<open>
  \<open>_delete\<close> of the inserted part undoes \<open>_insert\<close>: with buffers that are large enough both return 0 and the second
  buffer holds the first string again.
\<close>

theorem insert_delete_roundtrip:
  assumes s: "strlen s = Some n" "strlen p = Some m" "0 < n" "0 < m" "0 \<le> pos" "pos \<le> int n"
    and l: "int (n + m) + 1 \<le> k" "nat k \<le> length d" "k < 2 ^ 31" "int n + 1 \<le> k'" "nat k' \<le> length e" "k' < 2 ^ 31"
  shows "\<exists>d' e'. str_insert (Some s) pos (Some p) (Some d) k = Some (0, Some d') \<and>
    str_delete (Some d') pos (int m) (Some e) k' = Some (0, Some e') \<and> strlen e' = Some n \<and> cstring e' = cstring s"
proof -
  let ?i = "nat pos"
  have n: "n = length (cstring s)" "m = length (cstring p)" using s by (auto simp: strlen_Some)
  have i: "?i \<le> n" "nat (pos + int m) = ?i + m" using s(5,6) by auto
  have k: "n + m + 1 \<le> nat k" using l(1) by linarith
  obtain d' where d': "str_insert (Some s) pos (Some p) (Some d) k = Some (0, Some d')"
      "buf d' (length d) (take ?i (cstring s) @ cstring p @ drop ?i (cstring s))"
    using str_insert_ok [OF s(1,2,3,4,5) i(1) k l(2,3)] by blast
  have len: "strlen d' = Some (n + m)" using buf_strlen [OF d'(2)] n i by simp
  have "\<exists>e'. str_replace (Some d') pos (int m) None (Some e) k' = Some (0, Some e') \<and>
      buf e' (length e) (take ?i (cstring d') @ opt_string None @ drop (nat (pos + int m)) (cstring d'))"
    by (rule str_replace_ok [OF len]) (use s i l in \<open>auto simp: opt_len_def\<close>)
  then obtain e' where e': "str_delete (Some d') pos (int m) (Some e) k' = Some (0, Some e')"
      "buf e' (length e) (take ?i (cstring d') @ drop (?i + m) (cstring d'))"
    using i(2) by (auto simp: str_delete_def)
  have "take ?i (cstring d') @ drop (?i + m) (cstring d') = cstring s" using buf_strlen [OF d'(2)] n i by simp
  then show ?thesis using d'(1) e' buf_strlen [OF e'(2)] n by auto
qed

theorem insert_delete_roundtrip_witness:
  "\<exists>d' e'. str_insert (Some [97, 98, 0]) 1 (Some [120, 121, 0]) (Some (replicate 5 7)) 5 = Some (0, Some d') \<and>
    str_delete (Some d') 1 2 (Some (replicate 3 7)) 3 = Some (0, Some e') \<and> strlen e' = Some 2 \<and> cstring e' = [97, 98]"
  using insert_delete_roundtrip [of "[97, 98, 0]" 2 "[120, 121, 0]" 2 1 5 "replicate 5 7" 3 "replicate 3 7"]
  by (simp add: strlen_def cstring_def)

text \<open>
  \<open>_merge\<close> of two strings that are not empty: with at least one byte more than the result and its zero need,
  it returns 0 and the buffer holds the two strings one after the other. With exactly the bytes they need it returns -1,
  because it hands the length it has already decremented to \<open>_insert\<close>.
\<close>

theorem str_merge_spec:
  assumes s: "strlen s = Some n" "strlen p = Some m" "0 < n" "0 < m"
    and l: "int (n + m) + 1 \<le> k" "nat k \<le> length d" "k < 2 ^ 31"
  shows "\<exists>r d'. str_merge (Some s) (Some p) (Some d) k = Some (r, Some d') \<and>
    buf d' (length d) (if int (n + m) + 1 = k then [] else cstring s @ cstring p) \<and> r = (if int (n + m) + 1 = k then -1 else 0)"
proof -
  have n: "n = length (cstring s)" "m = length (cstring p)" using s by (auto simp: strlen_Some)
  have mn: "n4_of (size_of (n4_of (1 + n)) + m) = int (n + m) + 1" "n4_of n = int n"
    using l by (simp_all add: n4_of_small size_of_nat)
  obtain d0 where d0: "clear_dst (Some d) k = Some (d0, k - 1)" "buf d0 (length d) []"
    using clear_dst_ok [of k d] l by auto
  have step: "str_merge (Some s) (Some p) (Some d) k = str_insert (Some s) (int n) (Some p) (Some d0) (k - 1)"
    using s l mn d0(1) by (simp add: str_merge_def opt_len_def)
  show ?thesis
  proof (cases "int (n + m) + 1 = k")
    case True
    then have "str_insert (Some s) (int n) (Some p) (Some d0) (k - 1) = Some (-1, Some d0)"
      using s l by (auto simp: str_insert_def size_of_nat)
    then show ?thesis using step d0(2) True by simp
  next
    case False
    then have "\<exists>d'. str_insert (Some s) (int n) (Some p) (Some d0) (k - 1) = Some (0, Some d') \<and>
        buf d' (length d0) (take (nat (int n)) (cstring s) @ cstring p @ drop (nat (int n)) (cstring s))"
      using l bufD [OF d0(2)] by (intro str_insert_ok [OF s]) auto
    then show ?thesis using step False n bufD [OF d0(2)] by auto
  qed
qed

theorem str_merge_spec_witness:
  "\<exists>r d'. str_merge (Some [97, 0]) (Some [98, 0]) (Some [7, 7, 7]) 3 = Some (r, Some d') \<and> buf d' 3 [] \<and> r = -1"
  using str_merge_spec [of "[97, 0]" 1 "[98, 0]" 1 3 "[7, 7, 7]"] by (simp add: strlen_def cstring_def numeral_3_eq_3)

end
