(* ===== verification/Lisk_String.thy ===== *)
theory Lisk_String
  imports Lisk_Cstring
begin

text \<open>
  The growing string \<open>lisk_string_t\<close> of \<open>win_lisk/src/lisk_string.c\<close>.

  \<open>data\<close> is the block the string owns (\<open>None\<close> is \<open>nil\<close>), \<open>slength\<close> the characters in use and \<open>capacity\<close> the size of the
  block. The allocator is asked with a size and may refuse; \<open>raw\<close> gives the bytes of fresh memory. \<open>buf\<close> is memory of
  the caller, outside the string. \<open>None\<close> is a fault: \<open>nil\<close> followed, or an access that leaves a block.

  \<open>text_of\<close> is the list of characters. \<open>string_inv\<close> says that the block has \<open>capacity\<close> bytes and a zero behind the
  characters. Sequences of operations on a string are runs (\<open>string_run\<close>); they refine the same operations on
  lists (\<open>text_run\<close>).
\<close>

section \<open>State and memory\<close>

record lisk_string_t =
  capacity :: nat
  slength :: nat
  data :: "u1 list option"

definition lisk_string_init :: "allocator \<Rightarrow> (nat \<Rightarrow> u1) \<Rightarrow> lisk_string_t option \<Rightarrow> nat \<Rightarrow> (n4 \<times> lisk_string_t option) option" where
  "lisk_string_init mal raw string sz =
     (let sz = (if string = None \<or> sz = 0 then 1 else sz);
          cap = pow2_round sz
      in if \<not> mal cap then Some (-2, string)
         else if string = None then None
         else do {
           d \<leftarrow> wr (map raw [0..<cap]) 0 0;
           Some (0, Some \<lparr>capacity = cap, slength = 0, data = Some d\<rparr>) })"

definition lisk_string_uninit :: "lisk_string_t option \<Rightarrow> lisk_string_t option" where
  "lisk_string_uninit str =
     (case str of
        None \<Rightarrow> None
      | Some string \<Rightarrow>
          if data string \<noteq> None then Some \<lparr>capacity = 0, slength = 0, data = None\<rparr> else str)"

definition lisk_string_init_copy :: "allocator \<Rightarrow> (nat \<Rightarrow> u1) \<Rightarrow> lisk_string_t option \<Rightarrow> u1 list option \<Rightarrow> nat \<Rightarrow>
    (n4 \<times> lisk_string_t option) option" where
  "lisk_string_init_copy mal raw string buffer sz =
     (case (string, buffer) of
        (Some _, Some b) \<Rightarrow> do {
          let sz = (if sz = 0 then 1 else sz);
          (ret, str) \<leftarrow> lisk_string_init mal raw string (u4_add sz 1);
          if ret \<noteq> 0 then Some (-2, str)
          else do {
            str \<leftarrow> str;
            d \<leftarrow> data str;
            d \<leftarrow> copy_data_from 0 b sz d;
            d \<leftarrow> wr d sz 0;
            Some (0, Some (str\<lparr>slength := sz, data := Some d\<rparr>)) } }
      | _ \<Rightarrow> Some (-1, string))"

definition lisk_string_realloc :: "allocator \<Rightarrow> (nat \<Rightarrow> u1) \<Rightarrow> lisk_string_t option \<Rightarrow> nat \<Rightarrow> (n4 \<times> lisk_string_t option) option" where
  "lisk_string_realloc mal raw str_ptr sz =
     (case str_ptr of
        None \<Rightarrow> Some (-1, None)
      | Some str \<Rightarrow>
          if sz = 0 then Some (0, lisk_string_uninit str_ptr)
          else if capacity str = 0 then Some (-1, str_ptr)
          else if \<not> mal sz then Some (-2, Some (str\<lparr>data := None\<rparr>))
          else do {
            let old = (case data str of None \<Rightarrow> [] | Some bytes \<Rightarrow> bytes);
            let d = take sz old @ map raw [length old..<sz];
            if sz \<le> slength str then do {
              d \<leftarrow> wr d (sz - 1) 0;
              Some (0, Some \<lparr>capacity = sz, slength = sz - 1, data = Some d\<rparr>) }
            else Some (0, Some \<lparr>capacity = sz, slength = slength str, data = Some d\<rparr>) })"

section \<open>Operations\<close>

text \<open>Room for \<open>buf_len\<close> more characters, and the copies of an insertion.\<close>

definition string_grow :: "allocator \<Rightarrow> (nat \<Rightarrow> u1) \<Rightarrow> lisk_string_t \<Rightarrow> nat \<Rightarrow> (n4 \<times> lisk_string_t option) option" where
  "string_grow mal raw str buf_len =
     (let cap = u4_add (u4_add (slength str) buf_len) 1
      in if capacity str < cap then lisk_string_realloc mal raw (Some str) (pow2_round cap) else Some (0, Some str))"

definition lisk_string_insert :: "allocator \<Rightarrow> (nat \<Rightarrow> u1) \<Rightarrow> lisk_string_t option \<Rightarrow> nat \<Rightarrow> u1 list option \<Rightarrow> nat \<Rightarrow>
    (n4 \<times> lisk_string_t option) option" where
  "lisk_string_insert mal raw str_ptr pos buf buf_len =
     (case (str_ptr, buf) of
        (Some str, Some b) \<Rightarrow>
          if buf_len = 0 \<or> slength str < pos then Some (-1, str_ptr)
          else do {
            let str_len = slength str;
            (ret, str_ptr) \<leftarrow> string_grow mal raw str buf_len;
            if ret \<noteq> 0 then Some (-2, str_ptr)
            else do {
              str \<leftarrow> str_ptr;
              d \<leftarrow> data str;
              (ret, d) \<leftarrow> (if pos < str_len then copy_data_within (pos + buf_len) pos (str_len - pos) d else Some (0, d));
              if ret \<noteq> 0 then Some (-2, Some (str\<lparr>data := Some d\<rparr>))
              else do {
                d \<leftarrow> copy_data_from pos b buf_len d;
                let len = u4_add (slength str) buf_len;
                d \<leftarrow> wr d len 0;
                Some (0, Some (str\<lparr>slength := len, data := Some d\<rparr>)) } } }
      | _ \<Rightarrow> Some (-1, str_ptr))"

definition lisk_string_append :: "allocator \<Rightarrow> (nat \<Rightarrow> u1) \<Rightarrow> lisk_string_t option \<Rightarrow> u1 list option \<Rightarrow> nat \<Rightarrow>
    (n4 \<times> lisk_string_t option) option" where
  "lisk_string_append mal raw str_ptr buf buf_len =
     (case str_ptr of
        None \<Rightarrow> Some (-1, None)
      | Some str \<Rightarrow> lisk_string_insert mal raw str_ptr (slength str) buf buf_len)"

definition lisk_string_copy :: "allocator \<Rightarrow> (nat \<Rightarrow> u1) \<Rightarrow> lisk_string_t option \<Rightarrow> u1 list option \<Rightarrow> nat \<Rightarrow>
    (n4 \<times> lisk_string_t option) option" where
  "lisk_string_copy mal raw str_ptr buf buf_len =
     (case str_ptr of
        None \<Rightarrow> Some (-1, None)
      | Some str \<Rightarrow>
          if buf = None \<or> buf_len = 0 then Some (-1, str_ptr)
          else do {
            d \<leftarrow> data str;
            d \<leftarrow> wr d 0 0;
            lisk_string_append mal raw (Some (str\<lparr>slength := 0, data := Some d\<rparr>)) buf buf_len })"

definition lisk_string_reverse :: "lisk_string_t option \<Rightarrow> (n4 \<times> lisk_string_t option) option" where
  "lisk_string_reverse str_ptr =
     (case str_ptr of
        None \<Rightarrow> Some (-1, None)
      | Some str \<Rightarrow>
          if capacity str = 0 then Some (-1, str_ptr)
          else do { d \<leftarrow> reverse_str (data str); Some (0, Some (str\<lparr>data := d\<rparr>)) })"

definition lisk_string_clear :: "lisk_string_t option \<Rightarrow> lisk_string_t option option" where
  "lisk_string_clear str_ptr =
     (case str_ptr of
        None \<Rightarrow> Some None
      | Some str \<Rightarrow>
          (case data str of
             None \<Rightarrow> Some str_ptr
           | Some d \<Rightarrow> do { d \<leftarrow> wr d 0 0; Some (Some (str\<lparr>slength := 0, data := Some d\<rparr>)) }))"

definition lisk_string_trim :: "lisk_string_t option \<Rightarrow> (n4 \<times> lisk_string_t option) option" where
  "lisk_string_trim str_ptr =
     (case str_ptr of
        None \<Rightarrow> Some (-1, None)
      | Some str \<Rightarrow>
          if slength str = 0 then Some (-1, str_ptr)
          else do {
            ret \<leftarrow> str_trim (data str);
            (case ret of
               None \<Rightarrow> Some (-2, str_ptr)
             | Some d \<Rightarrow> do {
                 n \<leftarrow> strlen d;
                 Some (0, Some (str\<lparr>slength := n mod 2 ^ 32, data := Some d\<rparr>)) }) })"

section \<open>The invariant\<close>

definition string_inv :: "lisk_string_t \<Rightarrow> bool" where
  "string_inv str \<longleftrightarrow>
     (case data str of
        None \<Rightarrow> False
      | Some d \<Rightarrow> length d = capacity str \<and> slength str < capacity str \<and> d ! slength str = 0)"

definition text_of :: "lisk_string_t \<Rightarrow> u1 list" where
  "text_of str = (case data str of None \<Rightarrow> [] | Some d \<Rightarrow> take (slength str) d)"

lemma string_invD:
  assumes "string_inv str"
  obtains d where "data str = Some d" "length d = capacity str" "slength str < length d" "d ! slength str = 0"
    "text_of str = take (slength str) d" "length (text_of str) = slength str"
  using assms by (auto simp: string_inv_def text_of_def split: option.splits)

lemma text_length: "string_inv str \<Longrightarrow> length (text_of str) = slength str"
  by (erule string_invD)

lemma string_invI:
  assumes "data str = Some d" "length d = capacity str" "slength str < length d" "d ! slength str = 0"
  shows "string_inv str" "text_of str = take (slength str) d"
  using assms by (auto simp: string_inv_def text_of_def)

lemma text_cstring:
  assumes "string_inv str" "0 \<notin> set (text_of str)" "data str = Some d"
  shows "cstring d = text_of str" "strlen d = Some (slength str)"
proof -
  have d: "slength str < length d" "d ! slength str = 0" "text_of str = take (slength str) d"
    using assms by (auto elim!: string_invD)
  then show c: "cstring d = text_of str" using assms(2) by (intro cstring_prefix [of _ "slength str"]) auto
  have "0 \<in> set d" using d(1,2) by (metis nth_mem)
  then show "strlen d = Some (slength str)" using c d by (simp add: strlen_Some)
qed

text \<open>What \<open>reverse_str\<close> and \<open>str_trim\<close> leave in the block is a string of the new length again.\<close>

lemma string_from_cstring:
  assumes "length d = c" "0 \<in> set d" "n = length (cstring d)"
  shows "string_inv \<lparr>capacity = c, slength = n, data = Some d\<rparr>" "text_of \<lparr>capacity = c, slength = n, data = Some d\<rparr> = cstring d"
  using assms cstring_end [of d] cstring_take [of d] by (auto simp: string_inv_def text_of_def)

section \<open>Each operation on the characters\<close>

lemma lisk_string_init_ok:
  assumes "sz \<le> 2 ^ 31" "mal (pow2_round (if sz = 0 then 1 else sz))"
  shows "\<exists>str. lisk_string_init mal raw (Some junk) sz = Some (0, Some str) \<and> string_inv str \<and> text_of str = [] \<and> sz \<le> capacity str"
proof -
  define n where "n = (if sz = 0 then 1 else sz)"
  have n: "0 < n" "n \<le> 2 ^ 31" "sz \<le> n" using assms(1) by (auto simp: n_def)
  have c: "n \<le> pow2_round n" using pow2_round_bounds [OF n(1,2)] by simp
  let ?d = "(map raw [0..<pow2_round n])[0 := 0]"
  let ?s = "\<lparr>capacity = pow2_round n, slength = 0, data = Some ?d\<rparr>"
  have "0 < pow2_round n" using n(1) c by linarith
  then have "string_inv ?s" "text_of ?s = []" by (auto simp: string_inv_def text_of_def)
  moreover have "lisk_string_init mal raw (Some junk) sz = Some (0, Some ?s)"
    using assms(2) n c unfolding n_def [symmetric] by (simp add: lisk_string_init_def n_def [symmetric] Let_def)
  ultimately show ?thesis using c n by auto
qed

lemma string_grow_ok:
  assumes inv: "string_inv str" and sz: "slength str + k + 1 \<le> 2 ^ 31"
    and mal: "capacity str < slength str + k + 1 \<Longrightarrow> mal (pow2_round (slength str + k + 1))"
  shows "\<exists>str' d. string_grow mal raw str k = Some (0, Some str') \<and> data str' = Some d \<and> length d = capacity str' \<and>
    slength str' = slength str \<and> slength str + k + 1 \<le> length d \<and> take (slength str) d = text_of str"
proof -
  obtain d where d: "data str = Some d" "length d = capacity str" "slength str < length d" "text_of str = take (slength str) d"
    using string_invD [OF inv] by metis
  have u: "u4_add (u4_add (slength str) k) 1 = slength str + k + 1" using sz by (simp add: u4_add_def)
  show ?thesis
  proof (cases "capacity str < slength str + k + 1")
    case False
    then show ?thesis using d u by (simp add: string_grow_def)
  next
    case True
    let ?c = "pow2_round (slength str + k + 1)"
    have c: "slength str + k + 1 \<le> ?c" using pow2_round_bounds [of "slength str + k + 1"] sz by simp
    have gt: "length d < ?c" using True c d(2) by linarith
    let ?d = "take ?c d @ map raw [length d..<?c]"
    have "lisk_string_realloc mal raw (Some str) ?c = Some (0, Some \<lparr>capacity = ?c, slength = slength str, data = Some ?d\<rparr>)"
      using d mal True c gt by (simp add: lisk_string_realloc_def Let_def)
    moreover have "take (slength str) ?d = text_of str" using d(3,4) gt by simp
    ultimately show ?thesis using True u gt c by (simp add: string_grow_def)
  qed
qed

lemma string_insert_ok:
  assumes inv: "string_inv str" and pos: "pos \<le> slength str" and b: "0 < k" "k \<le> length b"
    and sz: "slength str + k + 1 \<le> 2 ^ 31"
    and mal: "capacity str < slength str + k + 1 \<Longrightarrow> mal (pow2_round (slength str + k + 1))"
  shows "\<exists>str'. lisk_string_insert mal raw (Some str) pos (Some b) k = Some (0, Some str') \<and> string_inv str' \<and>
    text_of str' = take pos (text_of str) @ take k b @ drop pos (text_of str)"
proof -
  obtain str' d where g: "string_grow mal raw str k = Some (0, Some str')" "data str' = Some d" "length d = capacity str'"
      "slength str' = slength str" "slength str + k + 1 \<le> length d" "take (slength str) d = text_of str"
    using string_grow_ok [OF inv sz, of mal raw] mal by blast
  define n where "n = slength str"
  let ?part = "take (n - pos) (drop pos d)"
  define d1 where "d1 = (if pos < n then take (pos + k) d @ ?part @ drop (n + k) d else d)"
  define d2 where "d2 = take pos d1 @ take k b @ drop (pos + k) d1"
  have t: "length (text_of str) = n" "take n d = text_of str" "n + k + 1 \<le> length d" "pos \<le> n"
    using g(5,6) pos text_length [OF inv] by (auto simp: n_def)
  have c1: "(if pos < n then copy_data_within (pos + k) pos (n - pos) d else Some (0, d)) = Some (0, d1)"
    using t b by (simp add: copy_data_within_def mem_read_def mem_write_def d1_def add.commute)
  have l1: "length d1 = length d" using t by (auto simp: d1_def)
  have c2: "copy_data_from pos b k d1 = Some d2"
    using b t l1 by (simp add: copy_data_from_def mem_read_def mem_write_def d2_def)
  have l2: "length d2 = length d" using t l1 b by (simp add: d2_def)
  have tp: "take pos d = take pos (text_of str)" using t(2,4) by (metis min.absorb1 take_take)
  have dp: "?part = drop pos (text_of str)" using t(2) by (metis drop_take)
  have p1: "take pos d1 = take pos (text_of str)" "take (n - pos) (drop (pos + k) d1) = drop pos (text_of str)"
    using tp dp t(1,3,4) by (auto simp: d1_def)
  have "take (n + k) d2 = take pos d1 @ take k b @ take (n - pos) (drop (pos + k) d1)"
    using t b l1 by (simp add: d2_def)
  then have tx: "take (n + k) d2 = take pos (text_of str) @ take k b @ drop pos (text_of str)" using p1 by simp
  let ?s = "str'\<lparr>slength := n + k, data := Some (d2[n + k := 0])\<rparr>"
  have "string_inv ?s" "text_of ?s = take (n + k) (d2[n + k := 0])" using string_invI [of ?s] g(3) l2 t by auto
  moreover have "lisk_string_insert mal raw (Some str) pos (Some b) k = Some (0, Some ?s)"
    using g(1,2,4) pos b sz c1 c2 l2 t unfolding n_def [symmetric]
    by (simp add: lisk_string_insert_def n_def [symmetric] Let_def u4_add_def)
  ultimately show ?thesis using tx by simp
qed

lemma string_append_ok:
  assumes inv: "string_inv str" and b: "0 < k" "k \<le> length b" and sz: "slength str + k + 1 \<le> 2 ^ 31"
    and mal: "capacity str < slength str + k + 1 \<Longrightarrow> mal (pow2_round (slength str + k + 1))"
  shows "\<exists>str'. lisk_string_append mal raw (Some str) (Some b) k = Some (0, Some str') \<and> string_inv str' \<and>
    text_of str' = text_of str @ take k b"
  using string_insert_ok [OF inv order_refl b sz, of mal raw] mal text_length [OF inv] by (simp add: lisk_string_append_def)

lemma string_cut:
  assumes "string_inv str" "data str = Some d"
  shows "string_inv (str\<lparr>slength := 0, data := Some (d[0 := 0])\<rparr>)" "text_of (str\<lparr>slength := 0, data := Some (d[0 := 0])\<rparr>) = []"
    "wr d 0 0 = Some (d[0 := 0])"
proof -
  have "0 < length d" "length d = capacity str" using assms by (auto elim!: string_invD)
  then show "string_inv (str\<lparr>slength := 0, data := Some (d[0 := 0])\<rparr>)" "text_of (str\<lparr>slength := 0, data := Some (d[0 := 0])\<rparr>) = []"
    "wr d 0 0 = Some (d[0 := 0])" by (auto simp: string_inv_def text_of_def)
qed

lemma string_copy_ok:
  assumes inv: "string_inv str" and b: "0 < k" "k \<le> length b" and sz: "k + 1 \<le> 2 ^ 31"
    and mal: "capacity str < k + 1 \<Longrightarrow> mal (pow2_round (k + 1))"
  shows "\<exists>str'. lisk_string_copy mal raw (Some str) (Some b) k = Some (0, Some str') \<and> string_inv str' \<and> text_of str' = take k b"
proof -
  obtain d where d: "data str = Some d" using string_invD [OF inv] by metis
  show ?thesis
    using string_append_ok [OF string_cut(1) [OF inv d] b, of mal raw] sz mal d b string_cut [OF inv d]
    by (simp add: lisk_string_copy_def)
qed

lemma string_clear_ok:
  assumes "string_inv str"
  shows "\<exists>str'. lisk_string_clear (Some str) = Some (Some str') \<and> string_inv str' \<and> text_of str' = []"
proof -
  obtain d where d: "data str = Some d" using string_invD [OF assms] by metis
  then show ?thesis using string_cut [OF assms d] by (simp add: lisk_string_clear_def)
qed

lemma string_reverse_ok:
  assumes inv: "string_inv str" "0 \<notin> set (text_of str)"
  shows "\<exists>str'. lisk_string_reverse (Some str) = Some (0, Some str') \<and> string_inv str' \<and> text_of str' = rev (text_of str)"
proof -
  obtain d where d: "data str = Some d" "length d = capacity str" "slength str < length d" using string_invD [OF inv(1)] by metis
  note c = text_cstring [OF inv d(1)]
  obtain d' where r: "reverse_str (Some d) = Some (Some d')" "length d' = length d" "cstring d' = rev (text_of str)" "0 \<in> set d'"
    using reverse_str_ok [OF c(2)] c(1) by auto
  have e: "str\<lparr>data := Some d'\<rparr> = \<lparr>capacity = capacity str, slength = slength str, data = Some d'\<rparr>" by simp
  have "string_inv (str\<lparr>data := Some d'\<rparr>)" "text_of (str\<lparr>data := Some d'\<rparr>) = rev (text_of str)"
    using string_from_cstring [of d' "capacity str" "slength str"] r d(2) text_length [OF inv(1)] unfolding e by auto
  then show ?thesis using r(1) d by (auto simp: lisk_string_reverse_def)
qed

lemma string_trim_ok:
  assumes inv: "string_inv str" "0 \<notin> set (text_of str)" and n: "0 < slength str" "slength str < 2 ^ 31"
  shows "\<exists>str'. lisk_string_trim (Some str) = Some (0, Some str') \<and> string_inv str' \<and> text_of str' = kept (text_of str)"
proof -
  obtain d where d: "data str = Some d" "length d = capacity str" "slength str < length d" using string_invD [OF inv(1)] by metis
  note c = text_cstring [OF inv d(1)]
  obtain d' where r: "str_trim (Some d) = Some (Some d')" "length d' = length d" "cstring d' = kept (text_of str)" "0 \<in> set d'"
    using str_trim_ok [OF c(2) n(2)] c(1) by auto
  have le: "length (cstring d') < 2 ^ 32"
    using r(3) length_filter_le [of "\<lambda>c. is_space c \<noteq> 0" "text_of str"] text_length [OF inv(1)] n(2) by simp
  let ?s = "str\<lparr>slength := length (cstring d'), data := Some d'\<rparr>"
  have e: "?s = \<lparr>capacity = capacity str, slength = length (cstring d'), data = Some d'\<rparr>" by simp
  have "string_inv ?s" "text_of ?s = kept (text_of str)"
    using string_from_cstring [of d' "capacity str" "length (cstring d')"] r d(2) unfolding e by auto
  moreover have "strlen d' = Some (length (cstring d'))" using r(4) by (simp add: strlen_Some)
  then have "lisk_string_trim (Some str) = Some (0, Some ?s)" using r(1) d(1) n le by (simp add: lisk_string_trim_def)
  ultimately show ?thesis by blast
qed

section \<open>Runs\<close>

datatype string_op = SInsert nat "u1 list" | SAppend "u1 list" | SCopy "u1 list" | SReverse | STrim | SClear

definition do_op :: "allocator \<Rightarrow> (nat \<Rightarrow> u1) \<Rightarrow> string_op \<Rightarrow> lisk_string_t option \<Rightarrow> lisk_string_t option option" where
  "do_op mal raw c str =
     (case c of
        SInsert pos b \<Rightarrow> map_option snd (lisk_string_insert mal raw str pos (Some b) (length b))
      | SAppend b \<Rightarrow> map_option snd (lisk_string_append mal raw str (Some b) (length b))
      | SCopy b \<Rightarrow> map_option snd (lisk_string_copy mal raw str (Some b) (length b))
      | SReverse \<Rightarrow> map_option snd (lisk_string_reverse str)
      | STrim \<Rightarrow> map_option snd (lisk_string_trim str)
      | SClear \<Rightarrow> lisk_string_clear str)"

fun string_run :: "allocator \<Rightarrow> (nat \<Rightarrow> u1) \<Rightarrow> string_op list \<Rightarrow> lisk_string_t option \<Rightarrow> lisk_string_t option option" where
  "string_run mal raw [] str = Some str"
| "string_run mal raw (c # cs) str = do { str \<leftarrow> do_op mal raw c str; string_run mal raw cs str }"

text \<open>The same operations on a list of characters.\<close>

fun text_op :: "string_op \<Rightarrow> u1 list \<Rightarrow> u1 list" where
  "text_op (SInsert pos b) t = (if length t < pos then t else take pos t @ b @ drop pos t)"
| "text_op (SAppend b) t = t @ b"
| "text_op (SCopy b) t = (if b = [] then t else b)"
| "text_op SReverse t = rev t"
| "text_op STrim t = kept t"
| "text_op SClear t = []"

fun op_text :: "string_op \<Rightarrow> u1 list" where
  "op_text (SInsert pos b) = b"
| "op_text (SAppend b) = b"
| "op_text (SCopy b) = b"
| "op_text _ = []"

lemma do_op_ok:
  assumes inv: "string_inv str" "0 \<notin> set (text_of str)" "0 \<notin> set (op_text c)"
    and sz: "slength str + length (op_text c) + 1 \<le> 2 ^ 31" and mal: "\<forall>n. mal n"
  shows "\<exists>str'. do_op mal raw c (Some str) = Some (Some str') \<and> string_inv str' \<and> text_of str' = text_op c (text_of str)"
proof (cases c)
  case (SInsert pos b)
  show ?thesis
  proof (cases "b = [] \<or> slength str < pos")
    case True
    then show ?thesis using SInsert inv(1) text_length [OF inv(1)] by (auto simp: do_op_def lisk_string_insert_def)
  next
    case False
    then show ?thesis using SInsert string_insert_ok [OF inv(1), of pos "length b" b mal raw] sz mal text_length [OF inv(1)]
      by (auto simp: do_op_def)
  qed
next
  case (SAppend b)
  show ?thesis
  proof (cases "b = []")
    case True
    then show ?thesis using SAppend inv(1) by (simp add: do_op_def lisk_string_append_def lisk_string_insert_def)
  next
    case False
    then show ?thesis using SAppend string_append_ok [OF inv(1), of "length b" b mal raw] sz mal by (auto simp: do_op_def)
  qed
next
  case (SCopy b)
  show ?thesis
  proof (cases "b = []")
    case True
    then show ?thesis using SCopy inv(1) by (simp add: do_op_def lisk_string_copy_def)
  next
    case False
    then show ?thesis using SCopy string_copy_ok [OF inv(1), of "length b" b mal raw] sz mal by (auto simp: do_op_def)
  qed
next
  case SReverse
  then show ?thesis using string_reverse_ok [OF inv(1,2)] by (auto simp: do_op_def)
next
  case STrim
  show ?thesis
  proof (cases "slength str = 0")
    case True
    then show ?thesis using STrim inv(1) text_length [OF inv(1)] by (simp add: do_op_def lisk_string_trim_def)
  next
    case False
    then show ?thesis using STrim string_trim_ok [OF inv(1,2)] sz by (auto simp: do_op_def)
  qed
next
  case SClear
  then show ?thesis using string_clear_ok [OF inv(1)] by (auto simp: do_op_def)
qed

lemma text_op_keeps:
  "0 \<notin> set t \<Longrightarrow> 0 \<notin> set (op_text c) \<Longrightarrow> 0 \<notin> set (text_op c t)"
  "length (text_op c t) \<le> length t + length (op_text c)"
  by (cases c; auto dest: in_set_takeD in_set_dropD)+

lemma string_run_ok:
  assumes mal: "\<forall>n. mal n"
  shows "string_inv str \<Longrightarrow> 0 \<notin> set (text_of str) \<Longrightarrow> \<forall>c \<in> set cs. 0 \<notin> set (op_text c) \<Longrightarrow>
    slength str + sum_list (map (length \<circ> op_text) cs) + 1 \<le> 2 ^ 31 \<Longrightarrow>
    \<exists>str'. string_run mal raw cs (Some str) = Some (Some str') \<and> string_inv str' \<and> text_of str' = fold text_op cs (text_of str)"
proof (induction cs arbitrary: str)
  case (Cons c cs)
  obtain t where t: "do_op mal raw c (Some str) = Some (Some t)" "string_inv t" "text_of t = text_op c (text_of str)"
    using do_op_ok [OF Cons.prems(1,2), of c mal raw] Cons.prems(3,4) mal by auto
  have "0 \<notin> set (text_of t)" "slength t \<le> slength str + length (op_text c)"
    using text_op_keeps(1) [of "text_of str" c] text_op_keeps(2) [of c "text_of str"] t(3) Cons.prems(2,3) text_length [OF t(2)] text_length [OF Cons.prems(1)] by auto
  then show ?case using Cons.IH [OF t(2)] t Cons.prems(3,4) by auto
qed auto

lemma string_grow_fail:
  assumes "string_inv str" "slength str + k + 1 \<le> 2 ^ 31" "capacity str < slength str + k + 1" "\<not> mal (pow2_round (slength str + k + 1))"
  shows "string_grow mal raw str k = Some (-2, Some (str\<lparr>data := None\<rparr>))"
proof -
  have "u4_add (u4_add (slength str) k) 1 = slength str + k + 1" using assms(2) by (simp add: u4_add_def)
  moreover have "pow2_round (slength str + k + 1) \<noteq> 0" "capacity str \<noteq> 0"
    using pow2_round_bounds(1) [of "slength str + k + 1"] assms by (auto elim!: string_invD)
  ultimately show ?thesis using assms(3,4) by (simp add: string_grow_def lisk_string_realloc_def)
qed

lemma string_insert_fail:
  assumes "string_inv str" "slength str + k + 1 \<le> 2 ^ 31" "capacity str < slength str + k + 1" "\<not> mal (pow2_round (slength str + k + 1))"
    "pos \<le> slength str" "0 < k"
  shows "lisk_string_insert mal raw (Some str) pos (Some b) k = Some (-2, Some (str\<lparr>data := None\<rparr>))"
  using string_grow_fail [where mal = mal and raw = raw, OF assms(1-4)] assms(5,6) by (simp add: lisk_string_insert_def)

lemma string_init_copy_ok:
  assumes k: "0 < k" "k \<le> length b" "k + 1 \<le> 2 ^ 31" and mal: "mal (pow2_round (k + 1))"
  shows "\<exists>str. lisk_string_init_copy mal raw (Some junk) (Some b) k = Some (0, Some str) \<and> string_inv str \<and> text_of str = take k b"
proof -
  have u: "u4_add k 1 = k + 1" using k(3) by (simp add: u4_add_def)
  obtain str where s: "lisk_string_init mal raw (Some junk) (k + 1) = Some (0, Some str)" "string_inv str" "k + 1 \<le> capacity str"
    using lisk_string_init_ok [of "k + 1" mal raw junk] k mal by auto
  obtain d where d: "data str = Some d" "length d = capacity str" using string_invD [OF s(2)] by metis
  have c: "copy_data_from 0 b k d = Some (take k b @ drop k d)"
    using k s(3) d by (simp add: copy_data_from_def mem_read_def mem_write_def)
  let ?s = "str\<lparr>slength := k, data := Some ((take k b @ drop k d)[k := 0])\<rparr>"
  have "string_inv ?s" "text_of ?s = take k ((take k b @ drop k d)[k := 0])" using string_invI [of ?s] d s(3) k by auto
  moreover have "lisk_string_init_copy mal raw (Some junk) (Some b) k = Some (0, Some ?s)"
    using s d c k u by (simp add: lisk_string_init_copy_def)
  ultimately show ?thesis using k by simp
qed

section \<open>Properties\<close>

text \<open>
  C30. Every sequence of insertions, appends, copies, reversals, trimmings and clearings of a \<open>lisk_string\<close> that was
  initialised with a text runs without a fault, keeps the invariant, and leaves the text that the same operations on lists
  give, as long as memory is granted, the text has no zero and the total length stays within 31 bits.
\<close>

theorem string_run_refines:
  assumes mal: "\<forall>n. mal n" and b: "b \<noteq> []" "0 \<notin> set b" and cs: "\<forall>c \<in> set cs. 0 \<notin> set (op_text c)"
    and sz: "length b + sum_list (map (length \<circ> op_text) cs) + 1 \<le> 2 ^ 31"
  shows "\<exists>str str'. lisk_string_init_copy mal raw (Some junk) (Some b) (length b) = Some (0, Some str) \<and>
    string_run mal raw cs (Some str) = Some (Some str') \<and> string_inv str' \<and> text_of str' = fold text_op cs b"
proof -
  obtain str where s: "lisk_string_init_copy mal raw (Some junk) (Some b) (length b) = Some (0, Some str)" "string_inv str" "text_of str = b"
    using string_init_copy_ok [of "length b" b mal raw junk] mal b sz by auto
  then show ?thesis using string_run_ok [OF mal s(2), of cs raw] b(2) cs sz text_length [OF s(2)] by auto
qed

theorem string_run_refines_witness:
  "\<exists>str str'. lisk_string_init_copy (\<lambda>_. True) (\<lambda>_. 7) (Some \<lparr>capacity = 0, slength = 0, data = None\<rparr>) (Some [97, 32, 98]) 3 = Some (0, Some str) \<and>
    string_run (\<lambda>_. True) (\<lambda>_. 7) [SAppend [99], STrim, SReverse] (Some str) = Some (Some str') \<and> string_inv str' \<and> text_of str' = [99, 98, 97]"
proof -
  have t: "fold text_op [SAppend [99], STrim, SReverse] [97, 32, 98] = [99, 98, 97]" by code_simp
  have l: "length [97 :: u1, 32, 98] = 3" by simp
  show ?thesis
    using string_run_refines [of "\<lambda>_. True" "[97, 32, 98]" "[SAppend [99], STrim, SReverse]" "\<lambda>_. 7" "\<lparr>capacity = 0, slength = 0, data = None\<rparr>"]
    unfolding t l by simp
qed

text \<open>
  C31. \<open>lisk_string_insert\<close> on a string that satisfies the invariant returns 0, -1 or -2, whatever the position, the
  buffer and the allocator: after 0 and -1 the result satisfies the invariant again; -2 is returned exactly when memory was needed and refused, and then
  the string has lost its block (\<open>realloc\<close> returns \<open>nil\<close> into the only pointer).
\<close>

theorem lisk_string_insert_typed:
  assumes inv: "string_inv str" and b: "k \<le> length b" and sz: "slength str + k + 1 \<le> 2 ^ 31"
  shows "\<exists>ret str'. lisk_string_insert mal raw (Some str) pos (Some b) k = Some (ret, Some str') \<and>
    (if k = 0 \<or> slength str < pos then ret = -1 \<and> str' = str
     else if capacity str < slength str + k + 1 \<and> \<not> mal (pow2_round (slength str + k + 1)) then ret = -2 \<and> str' = str\<lparr>data := None\<rparr>
     else ret = 0 \<and> string_inv str' \<and> text_of str' = take pos (text_of str) @ take k b @ drop pos (text_of str))"
proof -
  consider (bad) "k = 0 \<or> slength str < pos"
    | (fail) "0 < k" "pos \<le> slength str" "capacity str < slength str + k + 1" "\<not> mal (pow2_round (slength str + k + 1))"
    | (ok) "0 < k" "pos \<le> slength str" "capacity str < slength str + k + 1 \<longrightarrow> mal (pow2_round (slength str + k + 1))" by linarith
  then show ?thesis
  proof cases
    case bad
    then show ?thesis by (auto simp: lisk_string_insert_def)
  next
    case fail
    then show ?thesis using string_insert_fail [where mal = mal and raw = raw and b = b, OF inv sz fail(3,4,2,1)] by simp
  next
    case ok
    then show ?thesis using string_insert_ok [OF inv ok(2,1) b sz, of mal raw] by auto
  qed
qed

theorem lisk_string_insert_typed_witness:
  "\<exists>ret str'. lisk_string_insert (\<lambda>_. False) (\<lambda>_. 7) (Some \<lparr>capacity = 2, slength = 1, data = Some [97, 0]\<rparr>) 1 (Some [98]) 1 = Some (ret, Some str') \<and>
    ret = -2 \<and> data str' = None"
  using lisk_string_insert_typed [of "\<lparr>capacity = 2, slength = 1, data = Some [97, 0]\<rparr>" 1 "[98]" "\<lambda>_. False" "\<lambda>_. 7" 1]
  by (simp add: string_inv_def)

text \<open>Copying zero characters makes a string of one: the first byte of the buffer.\<close>

theorem string_init_copy_zero:
  "lisk_string_init_copy (\<lambda>_. True) (\<lambda>_. 7) (Some \<lparr>capacity = 0, slength = 0, data = None\<rparr>) (Some [0]) 0
     = Some (0, Some \<lparr>capacity = 2, slength = 1, data = Some [0, 0]\<rparr>)"
proof -
  have "pow2_round (Suc (Suc 0)) = 2" by (simp add: pow2_round_def is_pow_of_2_def)
  moreover have "map (\<lambda>_. 7) [0..<2] = [7 :: u1, 7]" by code_simp
  ultimately show ?thesis
    by (simp add: lisk_string_init_copy_def lisk_string_init_def u4_add_def wr_def copy_data_from_def mem_read_def mem_write_def Let_def)
qed

text \<open>A string handle that is \<open>nil\<close> is followed: \<open>lisk_string_init\<close> faults instead of returning an error.\<close>

theorem string_init_nil: "mal (pow2_round 1) \<Longrightarrow> lisk_string_init mal raw None sz = None"
  by (simp add: lisk_string_init_def)

text \<open>A size above \<open>2 ^ 31\<close> rounds to 0, and the first store leaves the empty block.\<close>

theorem string_init_wraps: "lisk_string_init (\<lambda>_. True) raw (Some junk) (2 ^ 31 + 1) = None"
proof -
  have "pow2_round (2 ^ 31 + 1) = 0" by (simp add: pow2_round_def is_pow_of_2_def next_pow_of_2_def)
  then show ?thesis by (simp add: lisk_string_init_def wr_def)
qed

end
