(* ===== verification/Lisk_Timer.thy ===== *)
theory Lisk_Timer
  imports Lisk_List Lisk_Ring
begin

text \<open>
  The timer of \<open>win_lisk/src/lisk_timer.c\<close>: five sorted lists of timers (due within a second, a minute, an hour, a day, and
  later), a clock with one hand per list, and a ring that keeps the nodes of timers that are done for the next ones.

  \<^item> The lists are those of \<^theory_text>\<open>Lisk_List\<close>, in one store; a timer is the payload of a node, 32 bytes laid out as the struct
    (little endian). A pointer in the ring is 8 bytes. Its id is the pointer to the payload.
  \<^item> Time is a parameter: \<open>now\<close> is the value of \<open>lisk_time_get\<close> in microseconds, which is not negative. The callbacks are a
    parameter: \<open>cb run id arg\<close> is what the function returns; it does not use the timer. The ids of the timers that
    were run are part of the result. \<open>ans\<close> and \<open>mal\<close> are the answers of the allocator.
  \<^item> \<open>None\<close> is a fault, as in the list.
\<close>

section \<open>Bytes\<close>

fun le_bytes :: "nat \<Rightarrow> nat \<Rightarrow> u1 list" where
  "le_bytes 0 n = []"
| "le_bytes (Suc k) n = of_nat n # le_bytes k (n div 256)"

fun le_nat :: "u1 list \<Rightarrow> nat" where
  "le_nat [] = 0"
| "le_nat (b # bs) = unat b + 256 * le_nat bs"

section \<open>State\<close>

definition MAX_TIMER_LEVEL :: nat where "MAX_TIMER_LEVEL = 5"
definition MAX_MS :: nat where "MAX_MS = 1000"
definition MAX_SECOND :: nat where "MAX_SECOND = 60"
definition MAX_MINUTE :: nat where "MAX_MINUTE = 60"
definition MAX_HOUR :: nat where "MAX_HOUR = 24"
definition MAX_DAY :: nat where "MAX_DAY = 31"
definition SECOND_MS :: nat where "SECOND_MS = MAX_MS"
definition MINUTE_MS :: nat where "MINUTE_MS = MAX_SECOND * SECOND_MS"
definition HOUR_MS :: nat where "HOUR_MS = MAX_MINUTE * MINUTE_MS"
definition DAY_MS :: nat where "DAY_MS = MAX_HOUR * HOUR_MS"
definition MINIMUM_DIFF :: nat where "MINIMUM_DIFF = 10"
definition MIN_EXPIRE :: nat where "MIN_EXPIRE = 1"
definition MAX_EXPIRE :: nat where "MAX_EXPIRE = 0xEFFFFFF"
definition ETIMER_ONCE :: nat where "ETIMER_ONCE = 1"
definition ETIMER_LOOP :: nat where "ETIMER_LOOP = 2"

record lisk_timer_node_t =
  trig :: nat
  ntype :: nat
  expire :: nat
  arg :: u8
  run :: u8

definition node_bytes :: "lisk_timer_node_t \<Rightarrow> u1 list" where
  "node_bytes n = le_bytes 8 (trig n) @ le_bytes 4 (ntype n) @ le_bytes 4 (expire n) @
     le_bytes 8 (unat (arg n)) @ le_bytes 8 (unat (run n))"

definition bytes_node :: "u1 list \<Rightarrow> lisk_timer_node_t" where
  "bytes_node bs =
     \<lparr>trig = le_nat (take 8 bs), ntype = le_nat (take 4 (drop 8 bs)), expire = le_nat (take 4 (drop 12 bs)),
      arg = of_nat (le_nat (take 8 (drop 16 bs))), run = of_nat (le_nat (take 8 (drop 24 bs)))\<rparr>"

record lisk_timer_t =
  clock :: nat
  hand :: "nat list"
  tsize :: nat
  tlist :: "u8 list"
  num :: nat
  ring :: "ring_t option"

record timer_key_t =
  ktype :: nat
  kexpire :: nat
  karg :: u8
  kfunc :: u8

text \<open>The timer a pointer points to, and the one that an element to insert holds.\<close>

definition node_at :: "heap \<Rightarrow> u8 \<Rightarrow> lisk_timer_node_t option" where
  "node_at h p = do {
     nd \<leftarrow> h (list_node p);
     if length (list_node_t.data nd) < 32 then None else Some (bytes_node (list_node_t.data nd)) }"

definition elem_bytes :: "heap \<Rightarrow> elem_t \<Rightarrow> u1 list option" where
  "elem_bytes h elem =
     (case h (list_node (eptr elem)) of
        Some nd \<Rightarrow> mem_read 0 32 (list_node_t.data nd)
      | None \<Rightarrow> mem_read 0 32 (ebytes elem))"

definition set_bytes :: "heap \<Rightarrow> u8 \<Rightarrow> u1 list \<Rightarrow> heap option" where
  "set_bytes h p bs = do {
     nd \<leftarrow> h (list_node p);
     d \<leftarrow> mem_write 0 bs (list_node_t.data nd);
     Some (h(list_node p \<mapsto> nd\<lparr>list_node_t.data := d\<rparr>)) }"

text \<open>A pointer to a node of the store, as an element.\<close>

abbreviation (input) node_elem :: "u8 \<Rightarrow> elem_t" where
  "node_elem p \<equiv> \<lparr>eptr = p, ehead = (0, 0), ebytes = []\<rparr>"

section \<open>Insertion and removal\<close>

definition cmp_lisk_timer_node :: "lisk_timer_node_t \<Rightarrow> lisk_timer_node_t \<Rightarrow> n4" where
  "cmp_lisk_timer_node node_first node_second =
     (if trig node_first < trig node_second then -1
      else if trig node_second < trig node_first then 1 else 0)"

partial_function (option) find_pos :: "heap \<Rightarrow> u8 \<Rightarrow> elem_t \<Rightarrow> u8 \<Rightarrow> u8 option" where
  "find_pos h list elem cur =
     (if cur \<noteq> nil \<and> cur \<noteq> list then
        Option.bind (elem_bytes h elem) (\<lambda>bs. Option.bind (node_at h cur) (\<lambda>c.
          if cmp_lisk_timer_node (bytes_node bs) c < 0 then Some cur
          else Option.bind (list_next_elem h cur) (find_pos h list elem)))
      else Some list)"

definition timer_list_insert :: "heap \<Rightarrow> u8 option \<Rightarrow> lisk_timer_t option \<Rightarrow> u8 \<Rightarrow> elem_t \<Rightarrow> int \<Rightarrow>
    (n4 \<times> lisk_timer_t option \<times> heap \<times> u8 option) option" where
  "timer_list_insert h ans timer list elem flag =
     (case timer of
        None \<Rightarrow> Some (-1, None, h, None)
      | Some t \<Rightarrow>
          if list = nil \<or> eptr elem = nil then Some (-1, timer, h, None)
          else do {
            cur \<leftarrow> list_next_elem h list;
            pos \<leftarrow> find_pos h list elem cur;
            if flag \<noteq> 0 then do {
              (ret, h) \<leftarrow> list_move_front h pos (eptr elem);
              Some (if ret \<noteq> 0 then -2 else 0, timer, h, None) }
            else do {
              (ret, rg, out) \<leftarrow> ring_pop (ring t) True;
              (t, elem, h) \<leftarrow>
                (if ret = 0 then do {
                   bs \<leftarrow> out;
                   bytes \<leftarrow> elem_bytes h elem;
                   h \<leftarrow> set_bytes h (of_nat (le_nat bs)) bytes;
                   Some (t\<lparr>ring := rg\<rparr>, node_elem (of_nat (le_nat bs)), h) }
                 else Some (t\<lparr>ring := rg, num := u4_add (num t) 1\<rparr>, elem, h));
              (ptr, h) \<leftarrow> list_insert_front h ans pos elem 32;
              if ptr = nil then Some (-2, Some t, h, None) else Some (0, Some t, h, Some ptr) } })"

text \<open>The list of a timer, by the time that is left.\<close>

definition timer_level :: "nat \<Rightarrow> nat \<Rightarrow> nat" where
  "timer_level tr clk =
     (let diff = (if tr < clk then clk - tr else tr - clk)
      in if tr \<le> clk then 0
         else if diff div DAY_MS \<noteq> 0 then 4
         else if diff div HOUR_MS \<noteq> 0 then 3
         else if diff div MINUTE_MS \<noteq> 0 then 2
         else if diff div SECOND_MS \<noteq> 0 then 1
         else 0)"

definition timer_ins_node :: "heap \<Rightarrow> u8 option \<Rightarrow> lisk_timer_t option \<Rightarrow> elem_t \<Rightarrow> int \<Rightarrow>
    (n4 \<times> lisk_timer_t option \<times> heap \<times> u8 option) option" where
  "timer_ins_node h ans timer node flag =
     (case timer of
        None \<Rightarrow> Some (-1, None, h, None)
      | Some t \<Rightarrow>
          if eptr node = nil then Some (-1, timer, h, None)
          else do {
            bs \<leftarrow> elem_bytes h node;
            let idx = timer_level (trig (bytes_node bs)) (clock t);
            (ret, timer, h, tid) \<leftarrow> timer_list_insert h ans timer (tlist t ! idx) node flag;
            Some (if ret \<noteq> 0 then -2 else 0, timer, h, tid) })"

definition timer_del_node :: "heap \<Rightarrow> lisk_timer_t option \<Rightarrow> u8 \<Rightarrow> u8 \<Rightarrow> (lisk_timer_t option \<times> heap) option" where
  "timer_del_node h timer list node =
     (case timer of
        None \<Rightarrow> Some (None, h)
      | Some t \<Rightarrow> do {
          (ret, rg) \<leftarrow> ring_push (ring t) (Some (le_bytes 8 (unat node)));
          let (flag, t) = (if ret = 0 then (ELIST_ERASE_PART, t\<lparr>ring := rg\<rparr>)
                           else (ELIST_ERASE_FULL, t\<lparr>ring := rg, num := u4_sub (num t) 1\<rparr>));
          (pret, h) \<leftarrow> list_erase h list node flag;
          Some (Some t, h) })"

section \<open>The clock\<close>

text \<open>What is left of a timer is still at least the unit of its list.\<close>

definition cascade_guard :: "nat \<Rightarrow> nat \<Rightarrow> nat \<Rightarrow> bool" where
  "cascade_guard level tr clk =
     (if tr \<le> clk then False
      else let diff = tr - clk in
        if level = 1 then 1 \<le> diff div SECOND_MS
        else if level = 2 then 1 \<le> diff div MINUTE_MS
        else if level = 3 then 1 \<le> diff div HOUR_MS
        else if level = 4 then 1 \<le> diff div DAY_MS
        else False)"

partial_function (option) cascade_loop :: "heap \<Rightarrow> lisk_timer_t option \<Rightarrow> nat \<Rightarrow> u8 \<Rightarrow> u8 \<Rightarrow>
    (lisk_timer_t option \<times> heap) option" where
  "cascade_loop h timer level list cur =
     (if cur \<noteq> nil \<and> cur \<noteq> list then
        Option.bind timer (\<lambda>t. Option.bind (node_at h cur) (\<lambda>c.
          if cascade_guard level (trig c) (clock t) then Some (timer, h)
          else Option.bind (timer_ins_node h None timer (node_elem cur) 1) (\<lambda>(ret, timer, h, tid).
            Option.bind (list_next_elem h list) (cascade_loop h timer level list))))
      else Some (timer, h))"

definition timer_cascade :: "heap \<Rightarrow> lisk_timer_t option \<Rightarrow> nat \<Rightarrow> (n4 \<times> lisk_timer_t option \<times> heap) option" where
  "timer_cascade h timer level =
     (case timer of
        None \<Rightarrow> Some (-1, None, h)
      | Some t \<Rightarrow>
          if level = 0 \<or> MAX_TIMER_LEVEL \<le> level then Some (-1, timer, h)
          else do {
            cur \<leftarrow> list_next_elem h (tlist t ! level);
            (timer, h) \<leftarrow> cascade_loop h timer level (tlist t ! level) cur;
            Some (0, timer, h) })"

definition limit :: "nat list" where
  "limit = [MAX_MS, MAX_SECOND, MAX_MINUTE, MAX_HOUR, MAX_DAY]"

definition ms_limit :: "nat list" where
  "ms_limit = [1, SECOND_MS, MINUTE_MS, HOUR_MS, DAY_MS]"

text \<open>The loop that splits \<open>diff\<close>, over \<open>idx = i - 1\<close> down to 0, and the loop over the hands.\<close>

fun inc_loop :: "nat \<Rightarrow> nat \<Rightarrow> nat list \<Rightarrow> nat list" where
  "inc_loop 0 diff inc = inc"
| "inc_loop (Suc i) diff inc = inc_loop i (diff mod ms_limit ! i) (inc[i := diff div ms_limit ! i])"

function hand_loop :: "nat \<Rightarrow> nat list \<Rightarrow> nat list \<Rightarrow> nat \<Rightarrow> nat list \<times> nat" where
  "hand_loop idx hands inc max_idx =
     (if idx < MAX_TIMER_LEVEL then
        if inc ! idx \<noteq> 0 then
          (let v = u4_add (hands ! idx) (inc ! idx)
           in hand_loop (idx + 1) (hands[idx := v mod limit ! idx])
                (inc[idx + 1 := u4_add (inc ! (idx + 1)) (v div limit ! idx)]) (idx + 1))
        else hand_loop (idx + 1) hands inc max_idx
      else (hands, max_idx))"
  by pat_completeness auto
termination by (relation "measure (\<lambda>(idx, h, inc, m). MAX_TIMER_LEVEL - idx)") auto

declare hand_loop.simps [simp del]

text \<open>The cascades of the levels below \<open>max_idx\<close>.\<close>

function cascades :: "heap \<Rightarrow> lisk_timer_t option \<Rightarrow> nat \<Rightarrow> nat \<Rightarrow> (lisk_timer_t option \<times> heap) option" where
  "cascades h timer idx max_idx =
     (if idx < max_idx then do {
        (ret, timer, h) \<leftarrow> timer_cascade h timer idx;
        cascades h timer (idx + 1) max_idx }
      else Some (timer, h))"
  by pat_completeness auto
termination by (relation "measure (\<lambda>(h, t, idx, m). m - idx)") auto

declare cascades.simps [simp del]

definition timer_update :: "heap \<Rightarrow> lisk_timer_t option \<Rightarrow> nat \<Rightarrow> (n4 \<times> lisk_timer_t option \<times> heap) option" where
  "timer_update h timer now =
     (case timer of
        None \<Rightarrow> Some (-1, None, h)
      | Some t \<Rightarrow>
          (let cur_clock = now div 1000;
               diff = (if cur_clock < clock t then clock t - cur_clock else cur_clock - clock t) mod 2 ^ 32
           in if diff < MINIMUM_DIFF then Some (-2, timer, h)
              else do {
                let inc = inc_loop MAX_TIMER_LEVEL diff (replicate (MAX_TIMER_LEVEL + 1) 0);
                let (hands, max_idx) = hand_loop 0 (hand t) inc 0;
                (timer, h) \<leftarrow> cascades h (Some (t\<lparr>clock := cur_clock, hand := hands\<rparr>)) 1 max_idx;
                Some (0, timer, h) }))"

section \<open>The interface\<close>

text \<open>The message for a missing key reads \<open>key->expire\<close>, a fault.\<close>

definition timer_add :: "heap \<Rightarrow> u8 option \<Rightarrow> u8 \<times> u8 \<times> u8 \<Rightarrow> lisk_timer_t option \<Rightarrow> timer_key_t option \<Rightarrow>
    (n4 \<times> lisk_timer_t option \<times> heap \<times> u8 option) option" where
  "timer_add h ans frame timer key =
     (case (timer, key) of
        (Some t, Some k) \<Rightarrow>
          if kexpire k < MIN_EXPIRE \<or> MAX_EXPIRE < kexpire k \<or> kfunc k = nil \<or> tsize t = 0 then Some (-1, timer, h, None)
          else do {
            let node = \<lparr>trig = clock t + kexpire k, ntype = ktype k, expire = kexpire k, arg = karg k, run = kfunc k\<rparr>;
            let elem = \<lparr>eptr = fst frame, ehead = snd frame, ebytes = node_bytes node\<rparr>;
            (ret, timer, h, tid) \<leftarrow> timer_ins_node h ans timer elem 0;
            Some (if ret \<noteq> 0 then -2 else 0, timer, h, tid) }
      | (None, Some k) \<Rightarrow> Some (-1, timer, h, None)
      | (_, None) \<Rightarrow> None)"

definition timer_del :: "heap \<Rightarrow> lisk_timer_t option \<Rightarrow> u8 \<Rightarrow> (n4 \<times> lisk_timer_t option \<times> heap) option" where
  "timer_del h timer tid =
     (if timer = None \<or> tid = nil then Some (-1, timer, h)
      else do { (timer, h) \<leftarrow> timer_del_node h timer nil tid; Some (0, timer, h) })"

partial_function (option) run_loop :: "(u8 \<Rightarrow> u8 \<Rightarrow> u8 \<Rightarrow> n4) \<Rightarrow> heap \<Rightarrow> lisk_timer_t option \<Rightarrow> u8 \<Rightarrow> u8 \<Rightarrow> u8 list \<Rightarrow>
    (lisk_timer_t option \<times> heap \<times> u8 list) option" where
  "run_loop cb h timer list node called =
     (if node \<noteq> nil \<and> node \<noteq> list then
        Option.bind timer (\<lambda>t. Option.bind (node_at h node) (\<lambda>n.
          if clock t < trig n then Some (timer, h, called)
          else Option.bind (list_prev_elem h node) (\<lambda>prv.
            Option.bind
              (if cb (run n) node (arg n) = -3 \<or> ntype n = ETIMER_ONCE then timer_del_node h timer list node
               else Option.bind (set_bytes h node (le_bytes 8 (clock t + expire n))) (\<lambda>h.
                 map_option (\<lambda>(ret, timer, h, tid). (timer, h)) (timer_ins_node h None timer (node_elem node) 1)))
              (\<lambda>(timer, h). Option.bind (list_next_elem h prv) (\<lambda>nxt_node.
                run_loop cb h timer list nxt_node (called @ [node]))))))
      else Some (timer, h, called))"

definition timer_loop :: "(u8 \<Rightarrow> u8 \<Rightarrow> u8 \<Rightarrow> n4) \<Rightarrow> heap \<Rightarrow> lisk_timer_t option \<Rightarrow> nat \<Rightarrow>
    (n4 \<times> lisk_timer_t option \<times> heap \<times> u8 list) option" where
  "timer_loop cb h timer now =
     (case timer of
        None \<Rightarrow> Some (-1, None, h, [])
      | Some t \<Rightarrow>
          if clock t = 0 \<or> tsize t = 0 then Some (-1, timer, h, [])
          else do {
            (ret, timer, h) \<leftarrow> timer_update h timer now;
            if ret \<noteq> 0 then Some (0, timer, h, [])
            else do {
              node \<leftarrow> list_next_elem h (tlist t ! 0);
              (timer, h, called) \<leftarrow> run_loop cb h timer (tlist t ! 0) node [];
              Some (0, timer, h, called) } })"

text \<open>Setting up: the lists one after the other, and on failure those that exist are given back.\<close>

fun uninit_lists :: "heap \<Rightarrow> nat \<Rightarrow> lisk_timer_t \<Rightarrow> (lisk_timer_t \<times> heap) option" where
  "uninit_lists h 0 t = Some (t, h)"
| "uninit_lists h (Suc k) t = do {
     let idx = tsize t - Suc k;
     (h, lp) \<leftarrow> list_uninit h (Some (tlist t ! idx));
     l \<leftarrow> lp;
     uninit_lists h k (t\<lparr>tlist := (tlist t)[idx := l]\<rparr>) }"

fun init_lists :: "(nat \<Rightarrow> u8 option) \<Rightarrow> u1 list \<Rightarrow> heap \<Rightarrow> nat \<Rightarrow> lisk_timer_t \<Rightarrow> (n4 \<times> lisk_timer_t \<times> heap) option" where
  "init_lists ans fill h 0 t = Some (0, t, h)"
| "init_lists ans fill h (Suc k) t = do {
     (ret, h, lp) \<leftarrow> list_init h (ans (tsize t)) fill True;
     if ret \<noteq> 0 then do { (t, h) \<leftarrow> uninit_lists h (tsize t) t; Some (-2, t, h) }
     else do {
       l \<leftarrow> lp;
       init_lists ans fill h k (t\<lparr>tlist := (tlist t)[tsize t := l], tsize := tsize t + 1\<rparr>) } }"

definition timer_init :: "allocator \<Rightarrow> (nat \<Rightarrow> u1) \<Rightarrow> (nat \<Rightarrow> u8 option) \<Rightarrow> u1 list \<Rightarrow> heap \<Rightarrow> lisk_timer_t option \<Rightarrow> nat \<Rightarrow>
    (n4 \<times> lisk_timer_t option \<times> heap) option" where
  "timer_init mal raw ans fill h timer now =
     (case timer of
        None \<Rightarrow> Some (-1, None, h)
      | Some _ \<Rightarrow> do {
          let (ret, rp) = ring_init mal raw (Some None) 1024 8;
          let rg = (if ret \<noteq> 0 then None else Option.bind rp (\<lambda>r. r));
          let (ret, rg) = ring_set_type rg RING_SP_SC;
          let t = \<lparr>clock = 0, hand = replicate MAX_TIMER_LEVEL 0, tsize = 0, tlist = replicate MAX_TIMER_LEVEL nil, num = 0, ring = rg\<rparr>;
          (ret, t, h) \<leftarrow> init_lists ans fill h MAX_TIMER_LEVEL t;
          if ret \<noteq> 0 then Some (-2, Some (t\<lparr>ring := the (fst (ring_uninit (Some (ring t))))\<rparr>), h)
          else Some (0, Some (t\<lparr>clock := now div 1000\<rparr>), h) })"

text \<open>Giving back: first the nodes that wait in the ring, then each list after the last call of its timers.\<close>

partial_function (option) drop_ring :: "heap \<Rightarrow> ring_t option \<Rightarrow> (ring_t option \<times> heap) option" where
  "drop_ring h rg =
     Option.bind (ring_pop rg True) (\<lambda>(ret, rg, out).
       if ret \<noteq> 0 then Some (rg, h)
       else Option.bind out (\<lambda>bs. Option.bind (list_erase h nil (of_nat (le_nat bs)) ELIST_ERASE_FULL) (\<lambda>(pret, h).
         drop_ring h rg)))"

partial_function (option) call_loop :: "heap \<Rightarrow> u8 \<Rightarrow> u8 \<Rightarrow> u8 list \<Rightarrow> u8 list option" where
  "call_loop h list node called =
     (if node \<noteq> nil \<and> node \<noteq> list then
        Option.bind (node_at h node) (\<lambda>n. Option.bind (list_next_elem h node) (\<lambda>nxt_node.
          call_loop h list nxt_node (called @ [node])))
      else Some called)"

fun drop_lists :: "heap \<Rightarrow> u8 list \<Rightarrow> u8 list \<Rightarrow> (heap \<times> u8 list) option" where
  "drop_lists h [] called = Some (h, called)"
| "drop_lists h (list # ls) called = do {
     node \<leftarrow> list_next_elem h list;
     called \<leftarrow> call_loop h list node called;
     (h, lp) \<leftarrow> list_uninit h (Some list);
     drop_lists h ls called }"

definition timer_uninit :: "heap \<Rightarrow> lisk_timer_t option \<Rightarrow> (lisk_timer_t option \<times> heap \<times> u8 list) option" where
  "timer_uninit h timer =
     (case timer of
        None \<Rightarrow> Some (None, h, [])
      | Some t \<Rightarrow> do {
          (rg, h) \<leftarrow> (if ring t \<noteq> None then drop_ring h (ring t) else Some (None, h));
          let rg = the (fst (ring_uninit (Some rg)));
          (h, called) \<leftarrow> drop_lists h (take (tsize t) (tlist t)) [];
          Some (Some (t\<lparr>ring := rg\<rparr>), h, called) })"

definition timer_mem_size :: "lisk_timer_t option \<Rightarrow> n4 \<times> (nat \<times> nat) option" where
  "timer_mem_size timer =
     (case timer of
        None \<Rightarrow> (-1, None)
      | Some t \<Rightarrow> (0, Some (num t, (88 + tsize t * 24 + (24 + 8192 * 8) + num t * 48) mod 2 ^ 64)))"

end
