(* ===== verification/Lisk_Timer_Lists.thy ===== *)
theory Lisk_Timer_Lists
  imports Lisk_Timer
begin

text \<open>
  Several lists in one store. \<open>fam h as nss\<close> says that the header \<open>as ! i\<close> has the nodes \<open>nss ! i\<close>, and that no node is in
  two lists. Moving a node between lists, linking one in and taking one out keep this, and change the sequences as they
  should; these are the only facts about the list component that the timer needs. The second part is
  the layout of a timer in the bytes of its node.
\<close>

section \<open>Families of lists\<close>

definition fam :: "heap \<Rightarrow> u8 list \<Rightarrow> u8 list list \<Rightarrow> bool" where
  "fam h as nss \<longleftrightarrow> length as = length nss \<and> (\<forall>i < length as. dll h (as ! i) (nss ! i)) \<and>
     (\<forall>i < length as. \<forall>j < length as. i \<noteq> j \<longrightarrow> set (as ! i # nss ! i) \<inter> set (as ! j # nss ! j) = {})"

definition fam_nodes :: "u8 list \<Rightarrow> u8 list list \<Rightarrow> u8 set" where
  "fam_nodes as nss = set as \<union> \<Union> (set (map set nss))"

lemma famD:
  assumes "fam h as nss" "i < length as"
  shows "dll h (as ! i) (nss ! i)" "i < length nss" "addr_ok (as ! i)"
    "\<And>j. j < length as \<Longrightarrow> i \<noteq> j \<Longrightarrow> set (as ! i # nss ! i) \<inter> set (as ! j # nss ! j) = {}"
    "set (as ! i # nss ! i) \<subseteq> fam_nodes as nss"
  using assms by (auto simp: fam_def fam_nodes_def dll_def)

lemma fam_update:
  assumes f: "fam h as nss" and len: "length nss' = length nss"
    and d: "\<And>k. k < length as \<Longrightarrow> dll h' (as ! k) (nss' ! k)"
    and own: "\<And>k q. k < length as \<Longrightarrow> q \<in> set (nss' ! k) \<Longrightarrow> q \<in> set (nss ! k) \<or> q = p"
    and home: "i < length as" "\<And>k. k < length as \<Longrightarrow> k \<noteq> i \<Longrightarrow> p \<notin> set (as ! k # nss' ! k)"
  shows "fam h' as nss'"
proof -
  have "set (as ! k # nss' ! k) \<inter> set (as ! l # nss' ! l) = {}" if k: "k < length as" "l < length as" "k \<noteq> l" for k l
  proof -
    have s: "set (as ! k # nss ! k) \<inter> set (as ! l # nss ! l) = {}" using f k by (auto simp: fam_def)
    have "q \<notin> set (as ! l # nss' ! l)" if q: "q \<in> set (as ! k # nss' ! k)" for q
    proof
      assume l: "q \<in> set (as ! l # nss' ! l)"
      have "q = p"
      proof (rule ccontr)
        assume "q \<noteq> p"
        then have "q \<in> set (as ! k # nss ! k)" "q \<in> set (as ! l # nss ! l)" using q l own k by auto
        then show False using s by blast
      qed
      then show False using home(2) [of k] home(2) [of l] q l k by metis
    qed
    then show ?thesis by blast
  qed
  then show ?thesis using f len d by (simp add: fam_def)
qed

lemma fam_frame:
  assumes "fam h as nss" "\<And>q. q \<in> fam_nodes as nss \<Longrightarrow> nxt h' q = nxt h q \<and> prv h' q = prv h q"
  shows "fam h' as nss"
proof -
  have "dll h' (as ! i) (nss ! i)" if "i < length as" for i
  proof (rule dll_frame [OF famD(1) [OF assms(1) that]])
    fix q assume "q \<in> set (as ! i # nss ! i)"
    then show "nxt h' q = nxt h q \<and> prv h' q = prv h q" using famD(5) [OF assms(1) that] assms(2) by blast
  qed
  then show ?thesis using assms(1) by (auto simp: fam_def)
qed

lemma fam_nodes_in: "length as = length nss \<Longrightarrow> k < length as \<Longrightarrow> q \<in> set (as ! k # nss ! k) \<Longrightarrow> q \<in> fam_nodes as nss"
  by (auto simp: fam_nodes_def)

lemma fam_other:
  assumes f: "fam h as nss" and k: "k < length as" "k \<noteq> i" "i < length as" and fr: "\<forall>q. q \<notin> set (as ! i # nss ! i) \<longrightarrow> h' q = h q"
  shows "dll h' (as ! k) (nss ! k)"
proof (rule dll_other [OF famD(1) [OF f k(1)]])
  fix q assume "q \<in> set (as ! k # nss ! k)"
  then have "q \<notin> set (as ! i # nss ! i)" using famD(4) [OF f k(1,3,2)] by blast
  then show "h' q = h q" using fr by blast
qed

lemma fam_move:
  assumes f: "fam h as nss" and ij: "i < length as" "j < length as" and src: "nss ! i = ys @ p # zs"
    and dst: "us @ vs = (if i = j then ys @ zs else nss ! j)"
  shows "\<exists>h'. list_move_front h (list_elem (hd (vs @ [as ! j]))) (list_elem p) = Some (0, h') \<and>
    fam h' as (nss[i := ys @ zs, j := us @ p # vs]) \<and> dat h' = dat h \<and> (\<forall>q. q \<notin> fam_nodes as nss \<longrightarrow> h' q = h q)"
proof -
  have ln: "length nss = length as" using f by (simp add: fam_def)
  have d: "dll h (as ! i) (ys @ p # zs)" using famD(1) [OF f ij(1)] src by simp
  have ne: "as ! j = as ! i \<longleftrightarrow> i = j" using famD(4) [OF f ij] by (metis IntI empty_iff list.set_intros(1))
  have sep: "i \<noteq> j \<Longrightarrow> set (as ! j # us @ vs) \<inter> set (as ! i # ys @ p # zs) = {}"
    using famD(4) [OF f ij(2,1)] dst src by simp
  have "if as ! j = as ! i then us @ vs = ys @ zs
      else dll h (as ! j) (us @ vs) \<and> set (as ! j # us @ vs) \<inter> set (as ! i # ys @ p # zs) = {}"
    using ne dst famD(1) [OF f ij(2)] sep by auto
  from list_move_ok [OF d this] obtain h' where h':
      "list_move_front h (list_elem (hd (vs @ [as ! j]))) (list_elem p) = Some (0, h')" "dll h' (as ! j) (us @ p # vs)"
      "as ! j \<noteq> as ! i \<Longrightarrow> dll h' (as ! i) (ys @ zs)" "dat h' = dat h"
      "\<And>q. q \<notin> set (as ! j # us @ p # vs) \<Longrightarrow> q \<notin> set (as ! i # ys @ p # zs) \<Longrightarrow> h' q = h q" by metis
  let ?n = "nss[i := ys @ zs, j := us @ p # vs]"
  have "set (us @ vs) \<subseteq> set (nss ! j)" unfolding dst using src by auto
  then have inj: "set (us @ p # vs) \<subseteq> set (nss ! j) \<union> {p}" "p \<in> set (nss ! i)" using src by auto
  have fr: "h' q = h q" if "q \<notin> set (as ! j # nss ! j)" "q \<notin> set (as ! i # nss ! i)" for q
  proof (rule h'(5))
    show "q \<notin> set (as ! i # ys @ p # zs)" using that(2) src by simp
    show "q \<notin> set (as ! j # us @ p # vs)" using that inj by auto
  qed
  have "fam h' as ?n"
  proof (rule fam_update [OF f, where p = p and i = j])
    fix k assume k: "k < length as"
    show "dll h' (as ! k) (?n ! k)"
    proof (cases "k = j \<or> k = i")
      case True
      then show ?thesis using h'(2,3) ne ij ln by auto
    next
      case False
      have "dll h' (as ! k) (nss ! k)"
      proof (rule dll_other [OF famD(1) [OF f k]])
        fix q assume "q \<in> set (as ! k # nss ! k)"
        then show "h' q = h q" using famD(4) [OF f k ij(1)] famD(4) [OF f k ij(2)] False fr by blast
      qed
      then show ?thesis using False by simp
    qed
    show "q \<in> set (nss ! k) \<or> q = p" if "q \<in> set (?n ! k)" for q
      using that k ln inj src by (cases "k = j"; cases "k = i") auto
    show "p \<notin> set (as ! k # ?n ! k)" if "k \<noteq> j"
    proof (cases "k = i")
      case True
      then show ?thesis using that d k ln by (auto simp: dll_def)
    next
      case False
      then show ?thesis using famD(4) [OF f k ij(1)] inj(2) that by auto
    qed
  qed (use ij in auto)
  moreover have "h' q = h q" if "q \<notin> fam_nodes as nss" for q
    using that fr fam_nodes_in [OF ln [symmetric]] ij by blast
  ultimately show ?thesis using h'(1,4) by blast
qed

lemma fam_insert:
  assumes t: "take_node h ans elem 32 = Some (flag, p, h0)" and f: "fam h0 as nss" and j: "j < length as" "nss ! j = us @ vs"
    and p: "p \<in> dom h0" "p \<notin> fam_nodes as nss" "addr_ok p" and e: "eptr elem \<noteq> nil"
  shows "\<exists>h'. list_insert_front h ans (list_elem (hd (vs @ [as ! j]))) elem 32 = Some (list_elem p, h') \<and>
    fam h' as (nss[j := us @ p # vs]) \<and> dat h' = dat h0 \<and> (\<forall>q. q \<notin> fam_nodes as nss \<longrightarrow> q \<noteq> p \<longrightarrow> h' q = h0 q)"
proof -
  have ln: "length nss = length as" using f by (simp add: fam_def)
  have d: "dll h0 (as ! j) (us @ vs)" using famD(1) [OF f j(1)] j(2) by simp
  have out: "p \<notin> set (as ! k # nss ! k)" if "k < length as" for k using p(2) fam_nodes_in [OF ln [symmetric] that] by blast
  have pn: "p \<notin> set (as ! j # us @ vs)" using out [OF j(1)] j(2) by simp
  obtain h' where h': "list_insert_front h ans (list_elem (hd (vs @ [as ! j]))) elem 32 = Some (list_elem p, h')"
      "dll h' (as ! j) (us @ p # vs)" "dat h' = dat h0" "\<forall>q. q \<notin> set (as ! j # us @ p # vs) \<longrightarrow> h' q = h0 q"
    using list_insert_ok [OF t d p(1) pn p(3) e] by auto
  let ?n = "nss[j := us @ p # vs]"
  have "fam h' as ?n"
  proof (rule fam_update [OF f, where p = p and i = j])
    fix k assume k: "k < length as"
    show "dll h' (as ! k) (?n ! k)"
    proof (cases "k = j")
      case False
      have "dll h' (as ! k) (nss ! k)"
      proof (rule dll_other [OF famD(1) [OF f k]])
        fix q assume q: "q \<in> set (as ! k # nss ! k)"
        then have "q \<notin> set (as ! j # nss ! j)" "q \<noteq> p" using famD(4) [OF f k j(1) False] out [OF k] by blast+
        then show "h' q = h0 q" using h'(4) j(2) by auto
      qed
      then show ?thesis using False by simp
    qed (use h'(2) k ln in auto)
    show "q \<in> set (nss ! k) \<or> q = p" if "q \<in> set (?n ! k)" for q using that k ln j(2) by (cases "k = j") auto
    show "p \<notin> set (as ! k # ?n ! k)" if "k \<noteq> j" using out [OF k] that by simp
  qed (use j in auto)
  moreover have "h' q = h0 q" if "q \<notin> fam_nodes as nss" "q \<noteq> p" for q
    using that h'(4) fam_nodes_in [OF ln [symmetric] j(1), of q] j(2) by auto
  ultimately show ?thesis using h' by blast
qed

lemma list_erase_any:
  assumes "l \<noteq> list_elem p" "l' \<noteq> list_elem p"
  shows "list_erase h l (list_elem p) flag = list_erase h l' (list_elem p) flag"
  using assms by (simp add: list_erase_def Let_def)

lemma fam_erase:
  assumes f: "fam h as nss" and i: "i < length as" "nss ! i = ys @ p # zs" and l: "l \<noteq> list_elem p"
  shows "\<exists>h' pret. list_erase h l (list_elem p) flag = Some (pret, h') \<and> fam h' as (nss[i := ys @ zs]) \<and>
    (\<forall>q. q \<noteq> p \<longrightarrow> dat h' q = dat h q) \<and> (\<forall>q. q \<notin> fam_nodes as nss \<longrightarrow> h' q = h q) \<and>
    h' p = (if flag = ELIST_ERASE_FULL then None
            else map_option (\<lambda>nd. \<lparr>prev = PREV_MAGIC, next = NEXT_MAGIC, data = list_node_t.data nd\<rparr>) (h p))"
proof -
  have ln: "length nss = length as" using f by (simp add: fam_def)
  have d: "dll h (as ! i) (ys @ p # zs)" using famD(1) [OF f i(1)] i(2) by simp
  then have "list_elem (as ! i) \<noteq> list_elem p" by (auto simp: dll_def)
  note any = list_erase_any [OF l this]
  obtain h' where h': "list_erase h l (list_elem p) flag = Some (list_elem (last (as ! i # ys)), h')"
      "dll h' (as ! i) (ys @ zs)" "\<forall>q. q \<noteq> p \<longrightarrow> dat h' q = dat h q" "\<forall>q. q \<notin> set (as ! i # ys @ p # zs) \<longrightarrow> h' q = h q"
      "h' p = (if flag = ELIST_ERASE_FULL then None
            else map_option (\<lambda>nd. \<lparr>prev = PREV_MAGIC, next = NEXT_MAGIC, data = list_node_t.data nd\<rparr>) (h p))"
    using list_erase_ok [OF d, of flag] unfolding any by blast
  let ?n = "nss[i := ys @ zs]"
  have "fam h' as ?n"
  proof (rule fam_update [OF f, where p = p and i = i])
    fix k assume k: "k < length as"
    show "dll h' (as ! k) (?n ! k)"
    proof (cases "k = i")
      case False
      then show ?thesis using fam_other [OF f k False i(1), of h'] h'(4) i(2) by simp
    qed (use h'(2) k ln in auto)
    show "q \<in> set (nss ! k) \<or> q = p" if "q \<in> set (?n ! k)" for q using that k ln i(2) by (cases "k = i") auto
    show "p \<notin> set (as ! k # ?n ! k)" if "k \<noteq> i" using famD(4) [OF f k i(1) that] i(2) that by auto
  qed (use i in auto)
  moreover have "h' q = h q" if "q \<notin> fam_nodes as nss" for q
    using that h'(4) fam_nodes_in [OF ln [symmetric] i(1), of q] i(2) by auto
  ultimately show ?thesis using h'(1,3,5) by blast
qed

section \<open>Timers in bytes\<close>

lemma le_bytes_length [simp]: "length (le_bytes k n) = k"
  by (induction k arbitrary: n) auto

lemma le_nat_bytes: "le_nat (le_bytes k n) = n mod 256 ^ k"
proof (induction k arbitrary: n)
  case (Suc k)
  have "unat (of_nat n :: u1) = n mod 256" by (simp add: unat_of_nat)
  then show ?case using Suc by (simp add: mod_mult2_eq)
qed simp

lemma le_ptr: "of_nat (le_nat (le_bytes 8 (unat (p :: u8)))) = p"
proof -
  have "unat p < 2 ^ LENGTH(64)" by (rule unsigned_less)
  then show ?thesis by (simp add: le_nat_bytes)
qed

lemma node_bytes_length [simp]: "length (node_bytes n) = 32"
  by (simp add: node_bytes_def)

definition node_fits :: "lisk_timer_node_t \<Rightarrow> bool" where
  "node_fits n \<longleftrightarrow> trig n < 2 ^ 64 \<and> ntype n < 2 ^ 32 \<and> expire n < 2 ^ 32"

lemma bytes_node_bytes:
  assumes "node_fits n"
  shows "bytes_node (node_bytes n) = n"
  using assms le_ptr [of "arg n"] le_ptr [of "run n"]
  by (simp add: bytes_node_def node_bytes_def node_fits_def le_nat_bytes)

lemma bytes_node_trig:
  assumes "length bs = 32" "x < 2 ^ 64"
  shows "bytes_node (le_bytes 8 x @ drop 8 bs) = (bytes_node bs)\<lparr>trig := x\<rparr>"
  using assms by (simp add: bytes_node_def le_nat_bytes)

definition tnode :: "heap \<Rightarrow> u8 \<Rightarrow> lisk_timer_node_t" where
  "tnode h p = bytes_node (the (dat h p))"

definition payload :: "heap \<Rightarrow> u8 \<Rightarrow> bool" where
  "payload h p \<longleftrightarrow> (\<exists>bs. dat h p = Some bs \<and> length bs = 32)"

lemma node_at_ok: "payload h p \<Longrightarrow> node_at h (list_elem p) = Some (tnode h p)"
  by (auto simp: payload_def node_at_def tnode_def dat_def)

lemma elem_bytes_ok: "payload h p \<Longrightarrow> elem_bytes h (node_elem (list_elem p)) = Some (the (dat h p))"
  by (auto simp: payload_def elem_bytes_def dat_def mem_read_def)

lemma payload_dom: "payload h p \<Longrightarrow> p \<in> dom h"
  by (auto simp: payload_def dat_def)

lemma set_bytes_ok:
  assumes "payload h p" "length bs \<le> 32"
  shows "\<exists>h'. set_bytes h (list_elem p) bs = Some h' \<and> dat h' = (dat h)(p \<mapsto> bs @ drop (length bs) (the (dat h p))) \<and>
    nxt h' = nxt h \<and> prv h' = prv h \<and> (\<forall>q. q \<noteq> p \<longrightarrow> h' q = h q)"
proof -
  obtain nd where nd: "h p = Some nd" "length (list_node_t.data nd) = 32" using assms(1) by (auto simp: payload_def dat_def)
  then show ?thesis using assms(2)
    by (intro exI [of _ "h(p \<mapsto> nd\<lparr>list_node_t.data := bs @ drop (length bs) (list_node_t.data nd)\<rparr>)"])
      (simp add: set_bytes_def mem_write_def dat_def nxt_def prv_def fun_eq_iff)
qed

section \<open>The place of a timer\<close>

definition place :: "heap \<Rightarrow> u8 \<Rightarrow> u8 list \<Rightarrow> u8 list" where
  "place h p ns = takeWhile (\<lambda>q. trig (tnode h q) \<le> trig (tnode h p)) ns @ p #
     dropWhile (\<lambda>q. trig (tnode h q) \<le> trig (tnode h p)) ns"

lemma set_place [simp]: "set (place h p ns) = insert p (set ns)"
  using takeWhile_dropWhile_id [of "\<lambda>q. trig (tnode h q) \<le> trig (tnode h p)" ns] unfolding place_def
  by (metis (no_types, lifting) Un_insert_right list.simps(15) set_append)

lemma length_place [simp]: "length (place h p ns) = Suc (length ns)"
  unfolding place_def by (metis (no_types, lifting) add_Suc_right length_Cons length_append takeWhile_dropWhile_id)

lemma sorted_place:
  assumes "sorted (map (\<lambda>q. trig (tnode h q)) ns)"
  shows "sorted (map (\<lambda>q. trig (tnode h q)) (place h p ns))"
proof -
  define f where "f = (\<lambda>q. trig (tnode h q))"
  define tw where "tw = takeWhile (\<lambda>q. f q \<le> f p) ns"
  define dw where "dw = dropWhile (\<lambda>q. f q \<le> f p) ns"
  have "sorted (map f (tw @ dw))" using assms unfolding tw_def dw_def f_def by simp
  then have s: "sorted (map f tw)" "sorted (map f dw)" unfolding map_append sorted_append by blast+
  have hi: "\<forall>q \<in> set dw. f p \<le> f q"
  proof (cases dw)
    case (Cons x xs)
    then have "f p < f x" using hd_dropWhile [of "\<lambda>q. f q \<le> f p" ns] unfolding dw_def [symmetric] by simp
    then show ?thesis using s(2) unfolding Cons by (auto intro: order_trans)
  qed simp
  have lo: "\<forall>q \<in> set tw. f q \<le> f p" unfolding tw_def by (blast dest: set_takeWhileD)
  then have "\<forall>x \<in> set tw. \<forall>y \<in> set dw. f x \<le> f y" using hi order_trans by blast
  then have "sorted (map f (tw @ p # dw))" using s lo hi by (simp add: sorted_append)
  then show ?thesis unfolding place_def tw_def dw_def f_def .
qed

lemma find_pos_ok:
  assumes e: "elem_bytes h elem = Some bs" and pl: "\<forall>p \<in> set zs. payload h p"
  shows "dll h a (ys @ zs) \<Longrightarrow> find_pos h (list_elem a) elem (list_elem (hd (zs @ [a]))) =
    Some (list_elem (hd (dropWhile (\<lambda>q. trig (tnode h q) \<le> trig (bytes_node bs)) zs @ [a])))"
  using pl
proof (induction zs arbitrary: ys)
  case Nil
  then show ?case by (subst find_pos.simps) simp
next
  case (Cons z zs)
  have d: "dll h a ((ys @ [z]) @ zs)" using Cons.prems(1) by simp
  then have z: "z \<noteq> a" "list_elem z \<noteq> 0" by (auto simp: dll_def addr_ok_def)
  have n: "list_next_elem h (list_elem z) = Some (list_elem (hd (zs @ [a])))" using list_next_ok [OF d] by simp
  have at: "node_at h (list_elem z) = Some (tnode h z)" using Cons.prems(2) node_at_ok by simp
  show ?case
  proof (cases "trig (tnode h z) \<le> trig (bytes_node bs)")
    case True
    then show ?thesis using Cons.IH [OF d] Cons.prems(2) z n at e
      by (subst find_pos.simps) (simp add: cmp_lisk_timer_node_def)
  next
    case False
    then show ?thesis using z at e by (subst find_pos.simps) (simp add: cmp_lisk_timer_node_def)
  qed
qed

lemma timer_level_less: "timer_level tr clk < 5"
  by (simp add: timer_level_def Let_def)

text \<open>The lists of a timer as a family.\<close>

definition lists_ok :: "heap \<Rightarrow> lisk_timer_t \<Rightarrow> u8 list list \<Rightarrow> bool" where
  "lists_ok h t nss \<longleftrightarrow> length (tlist t) = 5 \<and> fam h (map list_node (tlist t)) nss \<and> (\<forall>ns \<in> set nss. \<forall>p \<in> set ns. payload h p)"

abbreviation heads :: "lisk_timer_t \<Rightarrow> u8 list" where
  "heads t \<equiv> map list_node (tlist t)"

lemma lists_okD:
  assumes "lists_ok h t nss" "j < 5"
  shows "dll h (heads t ! j) (nss ! j)" "tlist t ! j = list_elem (heads t ! j)" "tlist t ! j \<noteq> 0" "length nss = 5" "j < length (heads t)"
    "\<forall>p \<in> set (nss ! j). payload h p"
proof -
  have f: "length (tlist t) = 5" "fam h (heads t) nss" "\<forall>ns \<in> set nss. \<forall>p \<in> set ns. payload h p" using assms(1) by (auto simp: lists_ok_def)
  show l: "j < length (heads t)" using f(1) assms(2) by simp
  show "dll h (heads t ! j) (nss ! j)" by (rule famD(1) [OF f(2) l])
  show n: "length nss = 5" using f by (simp add: fam_def)
  show e: "tlist t ! j = list_elem (heads t ! j)" using f(1) assms(2) by simp
  show "tlist t ! j \<noteq> 0" using famD(3) [OF f(2) l] e by (simp add: addr_ok_def)
  show "\<forall>p \<in> set (nss ! j). payload h p" using f(3) nth_mem [of j nss] n assms(2) by auto
qed

lemma list_start:
  assumes "dll h a ns"
  shows "list_next_elem h (list_elem a) = Some (list_elem (hd (ns @ [a])))"
  using list_next_ok [of h a "[]" ns] assms by simp

lemma ins_move_ok:
  assumes l: "lists_ok h t nss" and i: "i < 5" "nss ! i = ys @ p # zs" and j: "j = timer_level (trig (tnode h p)) (clock t)"
    and front: "i = j \<longrightarrow> ys = []"
  shows "\<exists>h'. timer_ins_node h ans (Some t) (node_elem (list_elem p)) 1 = Some (0, Some t, h', None) \<and>
    lists_ok h' t (nss[i := ys @ zs, j := place h p (if i = j then ys @ zs else nss ! j)]) \<and> dat h' = dat h \<and>
    (\<forall>q. q \<notin> fam_nodes (heads t) nss \<longrightarrow> h' q = h q)"
proof -
  have j5: "j < 5" unfolding j by (rule timer_level_less)
  note L = lists_okD [OF l j5] and I = lists_okD [OF l i(1)]
  have f: "fam h (heads t) nss" using l by (simp add: lists_ok_def)
  let ?P = "\<lambda>q. trig (tnode h q) \<le> trig (tnode h p)" and ?r = "if i = j then ys @ zs else nss ! j"
  have pl: "payload h p" using I(6) i(2) by simp
  have pn: "list_elem p \<noteq> 0" using I(1) i(2) by (auto simp: dll_def addr_ok_def)
  have e: "elem_bytes h (node_elem (list_elem p)) = Some (the (dat h p))" by (rule elem_bytes_ok [OF pl])
  have "dropWhile ?P (nss ! j) = dropWhile ?P ?r" using front i(2) by auto
  then have pos: "find_pos h (tlist t ! j) (node_elem (list_elem p)) (list_elem (hd (nss ! j @ [heads t ! j]))) =
      Some (list_elem (hd (dropWhile ?P ?r @ [heads t ! j])))"
    using find_pos_ok [OF e L(6), of "heads t ! j" "[]"] L(1,2) by (simp add: tnode_def)
  obtain h' where h': "list_move_front h (list_elem (hd (dropWhile ?P ?r @ [heads t ! j]))) (list_elem p) = Some (0, h')"
      "fam h' (heads t) (nss[i := ys @ zs, j := place h p ?r])" "dat h' = dat h" "\<forall>q. q \<notin> fam_nodes (heads t) nss \<longrightarrow> h' q = h q"
    using fam_move [OF f I(5) L(5) i(2), of "takeWhile ?P ?r" "dropWhile ?P ?r"] unfolding place_def by auto
  have run: "timer_ins_node h ans (Some t) (node_elem (list_elem p)) 1 = Some (0, Some t, h', None)"
    using pn e j L(3) list_start [OF L(1)] L(2) pos h'(1)
    by (simp add: timer_ins_node_def timer_list_insert_def tnode_def [symmetric] Let_def)
  have "payload h' q" if q: "ns \<in> set (nss[i := ys @ zs, j := place h p ?r])" "q \<in> set ns" for ns q
  proof -
    have "ns \<in> set nss \<or> ns = ys @ zs \<or> ns = place h p ?r"
      using q(1) set_update_subset_insert by (metis insert_iff subsetD)
    moreover have "set (ys @ zs) \<subseteq> set (nss ! i)" "set (place h p ?r) \<subseteq> set (nss ! i) \<union> set (nss ! j)" using i(2) by auto
    ultimately have "payload h q" using q(2) l I(6) L(6) unfolding lists_ok_def by blast
    then show ?thesis by (simp add: payload_def h'(3))
  qed
  then have "lists_ok h' t (nss[i := ys @ zs, j := place h p ?r])" using h'(2) l by (auto simp: lists_ok_def)
  then show ?thesis using run h'(3,4) by blast
qed

end
