(* ===== verification/Lisk_Timer_Wheel.thy ===== *)
theory Lisk_Timer_Wheel
  imports Lisk_Timer_Lists
begin

text \<open>
  The clock of the timer and the cascades. The hands are the digits of a number with the bases \<open>limit\<close>; \<open>phase l\<close> is
  the part of it below the unit of level \<open>l\<close>, in milliseconds. The hand of level \<open>l\<close> moves when the phase passes the unit.
  The timers of level \<open>l\<close> are looked at only then, so what keeps them from being late is \<open>wheel\<close>: none of
  them is due before the next move of that hand.
\<close>

section \<open>Units\<close>

lemmas units = MAX_TIMER_LEVEL_def MAX_MS_def MAX_SECOND_def MAX_MINUTE_def MAX_HOUR_def MAX_DAY_def SECOND_MS_def MINUTE_MS_def
  HOUR_MS_def DAY_MS_def MINIMUM_DIFF_def MIN_EXPIRE_def MAX_EXPIRE_def

lemma ms_limit_simps [simp]: "ms_limit = [1, 1000, 60000, 3600000, 86400000]"
  by (simp add: ms_limit_def units)

lemma limit_simps [simp]: "limit = [1000, 60, 60, 24, 31]"
  by (simp add: limit_def units)

lemma less_5: "l < (5 :: nat) \<longleftrightarrow> l = 0 \<or> l = 1 \<or> l = 2 \<or> l = 3 \<or> l = 4"
  by auto

lemma level_1_4: "1 \<le> l \<and> l < (5 :: nat) \<longleftrightarrow> l = 1 \<or> l = 2 \<or> l = 3 \<or> l = 4"
  by auto

lemma timer_level_eq:
  "timer_level tr c = (if tr < c + 1000 then 0 else if tr < c + 60000 then 1 else if tr < c + 3600000 then 2
     else if tr < c + 86400000 then 3 else 4)"
proof (cases "tr \<le> c")
  case True
  then show ?thesis by (simp add: timer_level_def)
next
  case False
  then obtain d where "tr = c + d" "0 < d" using less_imp_add_positive [of c tr] by auto
  then show ?thesis by (simp add: timer_level_def Let_def units div_eq_0_iff)
qed

text \<open>A timer is put into a level above 0 only if at least the unit of that level is left.\<close>

lemma timer_level_unit:
  assumes "1 \<le> timer_level tr c"
  shows "c + ms_limit ! timer_level tr c \<le> tr"
  using assms unfolding timer_level_eq by (simp split: if_splits)

lemma cascade_guard_iff:
  assumes "1 \<le> l" "l < 5"
  shows "cascade_guard l tr c \<longleftrightarrow> c + ms_limit ! l \<le> tr"
proof -
  from assms consider "l = 1" | "l = 2" | "l = 3" | "l = 4" using level_1_4 [of l] by blast
  then show ?thesis by cases (auto simp: cascade_guard_def Let_def units Suc_le_eq div_greater_zero_iff)
qed

lemma timer_level_below:
  assumes "1 \<le> l" "l < 5" "\<not> cascade_guard l tr c"
  shows "timer_level tr c < l"
proof -
  have lt: "tr < c + ms_limit ! l" using assms(3) unfolding cascade_guard_iff [OF assms(1,2)] by simp
  from assms(1,2) consider "l = 1" | "l = 2" | "l = 3" | "l = 4" using level_1_4 [of l] by blast
  then show ?thesis by cases (use lt in \<open>simp_all add: timer_level_eq\<close>)
qed

section \<open>Hands\<close>

definition phase :: "nat \<Rightarrow> nat list \<Rightarrow> nat" where
  "phase l hands = (\<Sum>j < l. hands ! j * ms_limit ! j)"

definition hands_ok :: "nat list \<Rightarrow> bool" where
  "hands_ok hands \<longleftrightarrow> length hands = 5 \<and> (\<forall>j < 5. hands ! j < limit ! j)"

lemma hands_okE:
  assumes "hands_ok hands"
  obtains a b c d e where "hands = [a, b, c, d, e]" "a < 1000" "b < 60" "c < 60" "d < 24" "e < 31"
proof -
  have l: "length hands = 5" "\<forall>j < 5. hands ! j < limit ! j" using assms by (auto simp: hands_ok_def)
  then obtain a b c d e where h: "hands = [a, b, c, d, e]"
    by (auto simp: numeral_eq_Suc length_Suc_conv)
  have "a < 1000" "b < 60" "c < 60" "d < 24" "e < 31"
    using l(2) [rule_format, of 0] l(2) [rule_format, of 1] l(2) [rule_format, of 2] l(2) [rule_format, of 3] l(2) [rule_format, of 4]
    unfolding h by simp_all
  then show ?thesis using h that by blast
qed

lemma hands_okI: "a < 1000 \<Longrightarrow> b < 60 \<Longrightarrow> c < 60 \<Longrightarrow> d < 24 \<Longrightarrow> e < 31 \<Longrightarrow> hands_ok [a, b, c, d, e]"
  by (auto simp: hands_ok_def less_5)

lemma phase_list:
  "phase 1 [a, b, c, d, e] = a" "phase 2 [a, b, c, d, e] = a + 1000 * b" "phase 3 [a, b, c, d, e] = a + 1000 * b + 60000 * c"
  "phase 4 [a, b, c, d, e] = a + 1000 * b + 60000 * c + 3600000 * d"
  by (simp_all add: phase_def lessThan_nat_numeral lessThan_Suc)

lemma phase_less:
  assumes "hands_ok hands" "1 \<le> l" "l < 5"
  shows "phase l hands < ms_limit ! l"
proof -
  obtain a b c d e where h: "hands = [a, b, c, d, e]" "a < 1000" "b < 60" "c < 60" "d < 24" using hands_okE [OF assms(1)] by metis
  from assms(2,3) consider "l = 1" | "l = 2" | "l = 3" | "l = 4" using level_1_4 [of l] by blast
  then show ?thesis by cases (use h in \<open>simp_all add: phase_list One_nat_def [symmetric] del: One_nat_def\<close>)
qed

lemma update_numeral [simp]: "(x # xs)[numeral k := v] = x # xs[pred_numeral k := v]"
  by (simp add: numeral_eq_Suc)

lemma inc_loop_split:
  assumes "D < 2 ^ 32"
  obtains i0 i1 i2 i3 i4 where "inc_loop 5 D (replicate 6 0) = [i0, i1, i2, i3, i4, 0]"
    "D = i0 + 1000 * i1 + 60000 * i2 + 3600000 * i3 + 86400000 * i4" "i0 < 1000" "i1 < 60" "i2 < 60" "i3 < 24" "i4 < 50"
proof -
  define D3 where "D3 = D mod 86400000"
  define D2 where "D2 = D3 mod 3600000"
  define D1 where "D1 = D2 mod 60000"
  define i4 where "i4 = D div 86400000"
  define i3 where "i3 = D3 div 3600000"
  define i2 where "i2 = D2 div 60000"
  define i1 where "i1 = D1 div 1000"
  define i0 where "i0 = D1 mod 1000"
  have "inc_loop (Suc 4) D [0, 0, 0, 0, 0, 0] = inc_loop (Suc 3) D3 [0, 0, 0, 0, i4, 0]" using inc_loop.simps(2) [of 4 D "[0, 0, 0, 0, 0, 0]"] by (simp add: D3_def i4_def)
  also have "\<dots> = inc_loop (Suc 2) D2 [0, 0, 0, i3, i4, 0]" using inc_loop.simps(2) [of 3 D3 "[0, 0, 0, 0, i4, 0]"] by (simp add: D2_def i3_def)
  also have "\<dots> = inc_loop 2 D1 [0, 0, i2, i3, i4, 0]" using inc_loop.simps(2) [of 2 D2 "[0, 0, 0, i3, i4, 0]"] by (simp add: D1_def i2_def)
  also have "\<dots> = [i0, i1, i2, i3, i4, 0]" by (simp add: numeral_2_eq_2 i0_def i1_def)
  finally have "inc_loop (Suc 4) D [0, 0, 0, 0, 0, 0] = [i0, i1, i2, i3, i4, 0]" .
  moreover have "replicate 6 (0 :: nat) = [0, 0, 0, 0, 0, 0]" "(5 :: nat) = Suc 4" by (simp_all add: numeral_eq_Suc)
  ultimately have "inc_loop 5 D (replicate 6 0) = [i0, i1, i2, i3, i4, 0]" by (simp only:)
  moreover have "D = D3 + 86400000 * i4" "D3 = D2 + 3600000 * i3" "D2 = D1 + 60000 * i2" "D1 = i0 + 1000 * i1"
    by (simp_all add: i0_def i1_def i2_def i3_def i4_def D1_def D2_def D3_def)
  moreover have "D3 < 86400000" "D2 < 3600000" "D1 < 60000" "i0 < 1000" by (simp_all add: i0_def D1_def D2_def D3_def)
  moreover have "i4 < 50" using assms by (simp add: i4_def less_mult_imp_div_less)
  ultimately show ?thesis using that [of i0 i1 i2 i3 i4] by linarith
qed

text \<open>One round of the loop over the hands, in both branches: add, keep the remainder and carry the rest.\<close>

lemma hand_loop_step:
  assumes "idx < 5" "hands ! idx < limit ! idx" "hands ! idx + inc ! idx < 2 ^ 32"
    "inc ! (idx + 1) + (hands ! idx + inc ! idx) div limit ! idx < 2 ^ 32"
  shows "hand_loop idx hands inc mx = hand_loop (idx + 1) (hands[idx := (hands ! idx + inc ! idx) mod limit ! idx])
    (inc[idx + 1 := inc ! (idx + 1) + (hands ! idx + inc ! idx) div limit ! idx]) (if inc ! idx = 0 then mx else idx + 1)"
proof (cases "inc ! idx = 0")
  case True
  have "hand_loop idx hands inc mx = hand_loop (idx + 1) hands inc mx"
    using True assms(1) by (subst hand_loop.simps) (simp add: units)
  then show ?thesis using True assms(2) by (simp del: limit_simps)
next
  case False
  then show ?thesis using assms
    by (subst hand_loop.simps) (simp add: units Let_def u4_add_def del: limit_simps)
qed

lemma hand_loop_end: "hand_loop 5 hands inc mx = (hands, mx)"
  by (subst hand_loop.simps) (simp add: units)

lemma hands_advance:
  assumes ok: "hands_ok hands" and D: "D < 2 ^ 32"
  shows "\<exists>hands' mx. hand_loop 0 hands (inc_loop 5 D (replicate 6 0)) 0 = (hands', mx) \<and> hands_ok hands' \<and> mx \<le> 5 \<and>
    (\<forall>l. 1 \<le> l \<and> l < 5 \<and> mx \<le> l \<longrightarrow> phase l hands' = phase l hands + D)"
proof -
  obtain i0 i1 i2 i3 i4 where i: "inc_loop 5 D (replicate 6 0) = [i0, i1, i2, i3, i4, 0]"
      "D = i0 + 1000 * i1 + 60000 * i2 + 3600000 * i3 + 86400000 * i4" "i0 < 1000" "i1 < 60" "i2 < 60" "i3 < 24" "i4 < 50"
    by (rule inc_loop_split [OF D])
  obtain a b c d e where h: "hands = [a, b, c, d, e]" "a < 1000" "b < 60" "c < 60" "d < 24" "e < 31" by (rule hands_okE [OF ok])
  define c1 where "c1 = (a + i0) div 1000"
  define c2 where "c2 = (b + (i1 + c1)) div 60"
  define c3 where "c3 = (c + (i2 + c2)) div 60"
  define c4 where "c4 = (d + (i3 + c3)) div 24"
  define c5 where "c5 = (e + (i4 + c4)) div 31"
  define m where "m = (if i4 + c4 \<noteq> 0 then 5 else if i3 + c3 \<noteq> 0 then 4 else if i2 + c2 \<noteq> 0 then 3 else if i1 + c1 \<noteq> 0 then 2
    else if i0 \<noteq> 0 then 1 else (0 :: nat))"
  let ?h = "[(a + i0) mod 1000, (b + (i1 + c1)) mod 60, (c + (i2 + c2)) mod 60, (d + (i3 + c3)) mod 24, (e + (i4 + c4)) mod 31]"
  have small: "c1 \<le> 1" "c2 \<le> 2" "c3 \<le> 2" "c4 \<le> 2" "c5 \<le> 2"
    using h i by (simp_all add: c1_def c2_def c3_def c4_def c5_def)
  have s1: "hand_loop 0 hands [i0, i1, i2, i3, i4, 0] 0
      = hand_loop 1 [(a + i0) mod 1000, b, c, d, e] [i0, i1 + c1, i2, i3, i4, 0] (if i0 = 0 then 0 else 1)"
    using h i small by (subst hand_loop_step) (simp_all add: c1_def)
  have s2: "hand_loop 1 [x, b, c, d, e] [i0, i1 + c1, i2, i3, i4, 0] k
      = hand_loop 2 [x, (b + (i1 + c1)) mod 60, c, d, e] [i0, i1 + c1, i2 + c2, i3, i4, 0] (if i1 + c1 = 0 then k else 2)" for x k
    using h i small by (subst hand_loop_step) (simp_all add: c2_def numeral_2_eq_2 [symmetric])
  have s3: "hand_loop 2 [x, y, c, d, e] [i0, i1 + c1, i2 + c2, i3, i4, 0] k
      = hand_loop 3 [x, y, (c + (i2 + c2)) mod 60, d, e] [i0, i1 + c1, i2 + c2, i3 + c3, i4, 0] (if i2 + c2 = 0 then k else 3)" for x y k
    using h i small by (subst hand_loop_step) (simp_all add: c3_def)
  have s4: "hand_loop 3 [x, y, z, d, e] [i0, i1 + c1, i2 + c2, i3 + c3, i4, 0] k
      = hand_loop 4 [x, y, z, (d + (i3 + c3)) mod 24, e] [i0, i1 + c1, i2 + c2, i3 + c3, i4 + c4, 0] (if i3 + c3 = 0 then k else 4)" for x y z k
    using h i small by (subst hand_loop_step) (simp_all add: c4_def)
  have s5: "hand_loop 4 [x, y, z, u, e] [i0, i1 + c1, i2 + c2, i3 + c3, i4 + c4, 0] k
      = ([x, y, z, u, (e + (i4 + c4)) mod 31], if i4 + c4 = 0 then k else 5)" for x y z u k
    using h i small by (subst hand_loop_step) (simp_all add: c5_def hand_loop_end)
  have "hand_loop 0 hands [i0, i1, i2, i3, i4, 0] 0 = (?h, m)"
    unfolding s1 s2 s3 s4 s5 m_def by simp
  moreover have "hands_ok ?h" by (rule hands_okI) simp_all
  moreover have "phase l ?h = phase l hands + D" if l: "1 \<le> l" "l < 5" "m \<le> l" for l
  proof -
    have e: "(a + i0) mod 1000 + 1000 * c1 = a + i0" "(b + (i1 + c1)) mod 60 + 60 * c2 = b + (i1 + c1)"
      "(c + (i2 + c2)) mod 60 + 60 * c3 = c + (i2 + c2)" "(d + (i3 + c3)) mod 24 + 24 * c4 = d + (i3 + c3)"
      by (simp_all add: c1_def c2_def c3_def c4_def)
    from l(1,2) consider "l = 1" | "l = 2" | "l = 3" | "l = 4" using level_1_4 [of l] by blast
    then show ?thesis
    proof cases
      case 1
      then have "i4 = 0" "i3 = 0" "i2 = 0" "i1 = 0" "c1 = 0" using l(3) unfolding m_def by (auto split: if_splits)
      then show ?thesis unfolding 1 h(1) phase_list i(2) using e by linarith
    next
      case 2
      then have "i4 = 0" "i3 = 0" "i2 = 0" "c2 = 0" using l(3) unfolding m_def by (auto split: if_splits)
      then show ?thesis unfolding 2 h(1) phase_list i(2) using e by linarith
    next
      case 3
      then have "i4 = 0" "i3 = 0" "c3 = 0" using l(3) unfolding m_def by (auto split: if_splits)
      then show ?thesis unfolding 3 h(1) phase_list i(2) using e by linarith
    next
      case 4
      then have "i4 = 0" "c4 = 0" using l(3) unfolding m_def by (auto split: if_splits)
      then show ?thesis unfolding 4 h(1) phase_list i(2) using e by linarith
    qed
  qed
  moreover have "m \<le> 5" unfolding m_def by simp
  ultimately show ?thesis unfolding i(1) by blast
qed

section \<open>Cascades\<close>

definition pending :: "u8 list list \<Rightarrow> u8 set" where
  "pending nss = \<Union> (set (map set nss))"

lemma pending_iff: "q \<in> pending nss \<longleftrightarrow> (\<exists>k < length nss. q \<in> set (nss ! k))"
  unfolding pending_def by simp (metis in_set_conv_nth)

lemma fam_nodes_pending: "fam_nodes as nss = set as \<union> pending nss"
  by (simp add: fam_nodes_def pending_def)

definition in_order :: "heap \<Rightarrow> u8 list \<Rightarrow> bool" where
  "in_order h ns \<longleftrightarrow> sorted (map (\<lambda>q. trig (tnode h q)) ns)"

lemma tnode_cong: "dat h' = dat h \<Longrightarrow> tnode h' = tnode h"
  by (simp add: tnode_def fun_eq_iff)

lemma in_order_cong: "dat h' = dat h \<Longrightarrow> in_order h' = in_order h"
  using tnode_cong [of h' h] by (simp add: in_order_def fun_eq_iff)

lemma in_order_place: "in_order h ns \<Longrightarrow> in_order h (place h p ns)"
  unfolding in_order_def by (rule sorted_place)

lemma in_order_drop: "in_order h (ys @ p # zs) \<Longrightarrow> in_order h (ys @ zs)"
  by (auto simp: in_order_def sorted_append)

lemma pending_move:
  assumes "i < length nss" "j < length nss" "nss ! i = ys @ p # zs"
  shows "pending (nss[i := ys @ zs, j := place h p (if i = j then ys @ zs else nss ! j)]) = pending nss"
proof -
  let ?n = "nss[i := ys @ zs, j := place h p (if i = j then ys @ zs else nss ! j)]"
  have at: "?n ! j = place h p (if i = j then ys @ zs else nss ! j)" "i \<noteq> j \<Longrightarrow> ?n ! i = ys @ zs"
    "\<And>k. k \<noteq> i \<Longrightarrow> k \<noteq> j \<Longrightarrow> ?n ! k = nss ! k" using assms by simp_all
  have "q \<in> pending nss" if "k < length nss" "q \<in> set (?n ! k)" for k q
  proof -
    have "q \<in> set (nss ! i) \<or> q \<in> set (nss ! j) \<or> q \<in> set (nss ! k)"
      using that(2) at assms(3) by (cases "k = j"; cases "k = i") (auto split: if_splits)
    then show ?thesis using assms(1,2) that(1) by (auto simp: pending_iff)
  qed
  moreover have "q \<in> pending ?n" if "k < length nss" "q \<in> set (nss ! k)" for k q
  proof -
    have "q \<in> set (?n ! i) \<or> q \<in> set (?n ! j) \<or> q \<in> set (?n ! k)"
      using that(2) at assms(3) by (cases "k = j"; cases "k = i"; cases "i = j") auto
    then show ?thesis using assms(1,2) that(1) unfolding pending_iff length_list_update by blast
  qed
  ultimately show ?thesis by (auto simp: pending_iff)
qed

lemma cascade_loop_ok:
  assumes l: "1 \<le> l" "l < 5"
  shows "lists_ok h t nss \<Longrightarrow> \<forall>k < 5. in_order h (nss ! k) \<Longrightarrow>
    \<exists>h' nss'. cascade_loop h (Some t) l (tlist t ! l) (list_elem (hd (nss ! l @ [heads t ! l]))) = Some (Some t, h') \<and>
      lists_ok h' t nss' \<and> dat h' = dat h \<and> (\<forall>k < 5. in_order h (nss' ! k)) \<and> pending nss' = pending nss \<and>
      (\<forall>k q. 1 \<le> k \<and> k < 5 \<and> q \<in> set (nss' ! k) \<longrightarrow> (k \<noteq> l \<and> q \<in> set (nss ! k)) \<or> clock t + ms_limit ! k \<le> trig (tnode h q)) \<and>
      (\<forall>q. q \<notin> fam_nodes (heads t) nss \<longrightarrow> h' q = h q)"
proof (induction "length (nss ! l)" arbitrary: h nss rule: less_induct)
  case less
  note D = lists_okD [OF less.prems(1) l(2)]
  show ?case
  proof (cases "nss ! l")
    case Nil
    have "cascade_loop h (Some t) l (tlist t ! l) (list_elem (hd (nss ! l @ [heads t ! l]))) = Some (Some t, h)"
      using Nil D(2) by (subst cascade_loop.simps) simp
    moreover have "k \<noteq> l \<and> q \<in> set (nss ! k)" if "q \<in> set (nss ! k)" for k q using that Nil by (cases "k = l") auto
    ultimately show ?thesis using less.prems by blast
  next
    case (Cons p zs)
    have pn: "list_elem p \<noteq> 0" "p \<noteq> heads t ! l" using D(1) Cons by (auto simp: dll_def addr_ok_def)
    have at: "node_at h (list_elem p) = Some (tnode h p)" using D(6) Cons node_at_ok by simp
    show ?thesis
    proof (cases "cascade_guard l (trig (tnode h p)) (clock t)")
      case True
      have "cascade_loop h (Some t) l (tlist t ! l) (list_elem (hd (nss ! l @ [heads t ! l]))) = Some (Some t, h)"
        using Cons D(2) pn at True by (subst cascade_loop.simps) simp
      moreover have "clock t + ms_limit ! l \<le> trig (tnode h q)" if "q \<in> set (nss ! l)" for q
      proof -
        have "trig (tnode h p) \<le> trig (tnode h q)" using that less.prems(2) l(2) Cons by (auto simp: in_order_def)
        then show ?thesis using True unfolding cascade_guard_iff [OF l] by linarith
      qed
      ultimately show ?thesis using less.prems by blast
    next
      case False
      let ?j = "timer_level (trig (tnode h p)) (clock t)"
      let ?n = "nss[l := [] @ zs, ?j := place h p (if l = ?j then [] @ zs else nss ! ?j)]"
      have j: "?j < l" "?j < 5" using timer_level_below [OF l False] l(2) by auto
      have len: "length nss = 5" by (rule D(4))
      obtain h1 where h1: "timer_ins_node h None (Some t) (node_elem (list_elem p)) 1 = Some (0, Some t, h1, None)"
          "lists_ok h1 t ?n" "dat h1 = dat h" "\<forall>q. q \<notin> fam_nodes (heads t) nss \<longrightarrow> h1 q = h q"
        using ins_move_ok [OF less.prems(1) l(2) _ refl, of "[]" p zs] Cons by auto
      have nl: "?n ! l = zs" using j len l(2) by simp
      have ord: "\<forall>k < 5. in_order h (?n ! k)"
        using less.prems(2) j len Cons l(2) in_order_drop [of h "[]" p zs] in_order_place [of h "nss ! ?j" p]
        by (auto simp: nth_list_update)
      have pend: "pending ?n = pending nss" using pending_move [of l nss ?j "[]" p zs h] Cons len l(2) j(2) by simp
      have st: "cascade_loop h (Some t) l (tlist t ! l) (list_elem (hd (nss ! l @ [heads t ! l]))) =
          cascade_loop h1 (Some t) l (tlist t ! l) (list_elem (hd (?n ! l @ [heads t ! l])))"
        using Cons D(2) pn at False h1(1) list_start [OF lists_okD(1) [OF h1(2) l(2)]] by (subst cascade_loop.simps) simp
      have ln: "length (?n ! l) < length (nss ! l)" unfolding nl Cons by simp
      obtain h' nss' where ih: "cascade_loop h1 (Some t) l (tlist t ! l) (list_elem (hd (?n ! l @ [heads t ! l]))) = Some (Some t, h')"
          "lists_ok h' t nss'" "dat h' = dat h1" "\<forall>k < 5. in_order h1 (nss' ! k)" "pending nss' = pending ?n"
          "\<forall>k q. 1 \<le> k \<and> k < 5 \<and> q \<in> set (nss' ! k) \<longrightarrow> (k \<noteq> l \<and> q \<in> set (?n ! k)) \<or> clock t + ms_limit ! k \<le> trig (tnode h1 q)"
          "\<forall>q. q \<notin> fam_nodes (heads t) ?n \<longrightarrow> h' q = h1 q"
        using less.hyps [OF ln h1(2)] ord in_order_cong [OF h1(3)] by (auto simp del: ms_limit_simps)
      have moved: "q \<in> set (nss ! k) \<or> clock t + ms_limit ! k \<le> trig (tnode h q)" if "1 \<le> k" "k < 5" "k \<noteq> l" "q \<in> set (?n ! k)" for k q
        using that len j timer_level_unit [of "trig (tnode h p)" "clock t"]
        by (cases "k = ?j") (auto simp: nth_list_update simp del: ms_limit_simps)
      have "(k \<noteq> l \<and> q \<in> set (nss ! k)) \<or> clock t + ms_limit ! k \<le> trig (tnode h q)" if k: "1 \<le> k \<and> k < 5 \<and> q \<in> set (nss' ! k)" for k q
        using ih(6) k moved tnode_cong [OF h1(3)] by metis
      moreover have "\<forall>q. q \<notin> fam_nodes (heads t) nss \<longrightarrow> h' q = h q" using ih(7) h1(4) pend by (simp add: fam_nodes_pending)
      ultimately show ?thesis
        unfolding st using ih(1-5) h1(3) pend in_order_cong [OF h1(3)] by (intro exI [of _ h'] exI [of _ nss']) simp
    qed
  qed
qed

lemma cascades_ok:
  shows "lists_ok h t nss \<Longrightarrow> \<forall>k < 5. in_order h (nss ! k) \<Longrightarrow> 1 \<le> idx \<Longrightarrow> mx \<le> 5 \<Longrightarrow>
    \<exists>h' nss'. cascades h (Some t) idx mx = Some (Some t, h') \<and>
      lists_ok h' t nss' \<and> dat h' = dat h \<and> (\<forall>k < 5. in_order h (nss' ! k)) \<and> pending nss' = pending nss \<and>
      (\<forall>k q. 1 \<le> k \<and> k < 5 \<and> q \<in> set (nss' ! k) \<longrightarrow>
        ((k < idx \<or> mx \<le> k) \<and> q \<in> set (nss ! k)) \<or> clock t + ms_limit ! k \<le> trig (tnode h q)) \<and>
      (\<forall>q. q \<notin> fam_nodes (heads t) nss \<longrightarrow> h' q = h q)"
proof (induction "mx - idx" arbitrary: h nss idx)
  case 0
  then have "cascades h (Some t) idx mx = Some (Some t, h)" by (subst cascades.simps) simp
  moreover have "k < idx \<or> mx \<le> k" for k using "0.hyps" by linarith
  ultimately show ?case using "0.prems" by blast
next
  case (Suc n)
  then have i: "idx < mx" "idx < 5" "1 \<le> idx" by auto
  obtain h1 nss1 where h1: "cascade_loop h (Some t) idx (tlist t ! idx) (list_elem (hd (nss ! idx @ [heads t ! idx]))) = Some (Some t, h1)"
      "lists_ok h1 t nss1" "dat h1 = dat h" "\<forall>k < 5. in_order h (nss1 ! k)" "pending nss1 = pending nss"
      "\<forall>k q. 1 \<le> k \<and> k < 5 \<and> q \<in> set (nss1 ! k) \<longrightarrow> (k \<noteq> idx \<and> q \<in> set (nss ! k)) \<or> clock t + ms_limit ! k \<le> trig (tnode h q)"
      "\<forall>q. q \<notin> fam_nodes (heads t) nss \<longrightarrow> h1 q = h q"
    using cascade_loop_ok [OF i(3,2) Suc.prems(1,2)] by blast
  note D = lists_okD [OF Suc.prems(1) i(2)]
  have c: "timer_cascade h (Some t) idx = Some (0, Some t, h1)"
    using i D(2) list_start [OF D(1)] h1(1) by (simp add: timer_cascade_def units)
  have st: "cascades h (Some t) idx mx = cascades h1 (Some t) (idx + 1) mx"
    using i(1) c by (subst cascades.simps) simp
  have m: "n = mx - (idx + 1)" "1 \<le> idx + 1" using Suc.hyps(2) by auto
  have o1: "\<forall>k < 5. in_order h1 (nss1 ! k)" using h1(4) in_order_cong [OF h1(3)] by simp
  obtain h' nss' where ih: "cascades h1 (Some t) (idx + 1) mx = Some (Some t, h')" "lists_ok h' t nss'" "dat h' = dat h1"
      "\<forall>k < 5. in_order h1 (nss' ! k)" "pending nss' = pending nss1"
      "\<forall>k q. 1 \<le> k \<and> k < 5 \<and> q \<in> set (nss' ! k) \<longrightarrow>
        ((k < idx + 1 \<or> mx \<le> k) \<and> q \<in> set (nss1 ! k)) \<or> clock t + ms_limit ! k \<le> trig (tnode h1 q)"
      "\<forall>q. q \<notin> fam_nodes (heads t) nss1 \<longrightarrow> h' q = h1 q"
    using Suc.hyps(1) [OF m(1) h1(2) o1 m(2) Suc.prems(4)] by blast
  have "((k < idx \<or> mx \<le> k) \<and> q \<in> set (nss ! k)) \<or> clock t + ms_limit ! k \<le> trig (tnode h q)"
    if k: "1 \<le> k \<and> k < 5 \<and> q \<in> set (nss' ! k)" for k q
  proof (cases "clock t + ms_limit ! k \<le> trig (tnode h q)")
    case False
    then have "k < idx + 1 \<or> mx \<le> k" "q \<in> set (nss1 ! k)" using ih(6) k tnode_cong [OF h1(3)] by metis+
    moreover have "k \<noteq> idx \<and> q \<in> set (nss ! k)" using h1(6) k False \<open>q \<in> set (nss1 ! k)\<close> by blast
    ultimately show ?thesis by linarith
  qed simp
  moreover have "\<forall>q. q \<notin> fam_nodes (heads t) nss \<longrightarrow> h' q = h q" using ih(7) h1(5,7) by (simp add: fam_nodes_pending)
  ultimately show ?case unfolding st
    using ih(1-5) h1(3,5) in_order_cong [OF h1(3)] by (intro exI [of _ h'] exI [of _ nss']) simp
qed

text \<open>
  No timer of a level above 0 is due before the hand of that level moves. As the phase is less than the unit, such a timer
  is not due now either: all that is due is in level 0.
\<close>

definition wheel :: "heap \<Rightarrow> lisk_timer_t \<Rightarrow> u8 list list \<Rightarrow> bool" where
  "wheel h t nss \<longleftrightarrow>
     (\<forall>l. 1 \<le> l \<and> l < 5 \<longrightarrow> (\<forall>p \<in> set (nss ! l). clock t + ms_limit ! l \<le> trig (tnode h p) + phase l (hand t)))"

lemma wheel_not_due:
  assumes "wheel h t nss" "hands_ok (hand t)" "1 \<le> l" "l < 5" "p \<in> set (nss ! l)"
  shows "clock t < trig (tnode h p)"
proof -
  have "clock t + ms_limit ! l \<le> trig (tnode h p) + phase l (hand t)" using assms(1,3,4,5) unfolding wheel_def by blast
  then show ?thesis using phase_less [OF assms(2,3,4)] by linarith
qed

lemma timer_update_ok:
  assumes l: "lists_ok h t nss" "\<forall>k < 5. in_order h (nss ! k)" and w: "wheel h t nss" "hands_ok (hand t)"
    and c: "clock t + 10 \<le> now div 1000" "now div 1000 - clock t < 2 ^ 32"
  shows "\<exists>hands h' nss'. timer_update h (Some t) now = Some (0, Some (t\<lparr>clock := now div 1000, hand := hands\<rparr>), h') \<and>
    hands_ok hands \<and> lists_ok h' t nss' \<and> dat h' = dat h \<and> (\<forall>k < 5. in_order h (nss' ! k)) \<and> pending nss' = pending nss \<and>
    wheel h (t\<lparr>clock := now div 1000, hand := hands\<rparr>) nss' \<and> (\<forall>q. q \<notin> fam_nodes (heads t) nss \<longrightarrow> h' q = h q)"
proof -
  define D where "D = now div 1000 - clock t"
  have D: "D < 2 ^ 32" "10 \<le> D" "now div 1000 = clock t + D" using c by (auto simp: D_def)
  obtain hands mx where hl: "hand_loop 0 (hand t) (inc_loop 5 D (replicate 6 0)) 0 = (hands, mx)" "hands_ok hands" "mx \<le> 5"
      "\<forall>l. 1 \<le> l \<and> l < 5 \<and> mx \<le> l \<longrightarrow> phase l hands = phase l (hand t) + D"
    using hands_advance [OF w(2) D(1)] by blast
  let ?t = "t\<lparr>clock := now div 1000, hand := hands\<rparr>"
  have lt: "lists_ok h ?t nss" using l(1) by (simp add: lists_ok_def)
  obtain h' nss' where cs: "cascades h (Some ?t) 1 mx = Some (Some ?t, h')" "lists_ok h' ?t nss'" "dat h' = dat h"
      "\<forall>k < 5. in_order h (nss' ! k)" "pending nss' = pending nss"
      "\<forall>k q. 1 \<le> k \<and> k < 5 \<and> q \<in> set (nss' ! k) \<longrightarrow>
        ((k < 1 \<or> mx \<le> k) \<and> q \<in> set (nss ! k)) \<or> clock ?t + ms_limit ! k \<le> trig (tnode h q)"
      "\<forall>q. q \<notin> fam_nodes (heads ?t) nss \<longrightarrow> h' q = h q"
    using cascades_ok [OF lt l(2) _ hl(3), of 1] by blast
  have "clock ?t + ms_limit ! k \<le> trig (tnode h q) + phase k hands" if k: "1 \<le> k" "k < 5" "q \<in> set (nss' ! k)" for k q
  proof (cases "clock ?t + ms_limit ! k \<le> trig (tnode h q)")
    case False
    then have o: "mx \<le> k" "q \<in> set (nss ! k)" using cs(6) k by fastforce+
    then have "clock t + ms_limit ! k \<le> trig (tnode h q) + phase k (hand t)" using w(1) k unfolding wheel_def by blast
    moreover have "phase k hands = phase k (hand t) + D" using hl(4) k o(1) by blast
    ultimately show ?thesis using D(3) by simp
  qed linarith
  then have "wheel h ?t nss'" by (simp add: wheel_def)
  moreover have "timer_update h (Some t) now = Some (0, Some ?t, h')"
    using hl(1) cs(1) D by (simp add: timer_update_def Let_def units)
  ultimately show ?thesis using hl(2) cs by (intro exI [of _ hands] exI [of _ h'] exI [of _ nss']) (simp add: lists_ok_def)
qed

end
