(* ===== verification/Lisk_Timer_Thms.thy ===== *)
theory Lisk_Timer_Thms
  imports Lisk_Timer_Wheel
begin

text \<open>
  The invariant of the timer and its properties: \<open>timer_loop\<close> runs exactly the timers that are due, \<open>timer_add\<close> and
  \<open>timer_del\<close> add and remove one timer, and \<open>timer_init\<close> makes a timer that satisfies the invariant. The ring of spare nodes
  is used only through its contract \<open>rq\<close> (a bounded queue).
\<close>

section \<open>The invariant\<close>

definition spare :: "heap \<Rightarrow> ring_t option \<Rightarrow> u8 list \<Rightarrow> bool" where
  "spare h rg rs \<longleftrightarrow>
     (case rg of
        None \<Rightarrow> rs = []
      | Some r \<Rightarrow> ring_inv r \<and> ring_elem_ok r = (\<lambda>e. length e = 8) \<and> ring_list r = map (\<lambda>p. le_bytes 8 (unat (list_elem p))) rs) \<and>
     distinct rs \<and>
     (\<forall>p \<in> set rs. addr_ok p \<and> (\<exists>bs. length bs = 32 \<and> h p = Some \<lparr>prev = PREV_MAGIC, next = NEXT_MAGIC, data = bs\<rparr>))"

definition timer_ok :: "heap \<Rightarrow> lisk_timer_t \<Rightarrow> u8 list list \<Rightarrow> u8 list \<Rightarrow> bool" where
  "timer_ok h t nss rs \<longleftrightarrow> tsize t = 5 \<and> clock t < 2 ^ 63 \<and> lists_ok h t nss \<and> (\<forall>k < 5. in_order h (nss ! k)) \<and>
     hands_ok (hand t) \<and> wheel h t nss \<and> (\<forall>p \<in> pending nss. 1 \<le> expire (tnode h p)) \<and>
     spare h (ring t) rs \<and> set rs \<inter> fam_nodes (heads t) nss = {}"

lemma spare_cong: "spare h rg rs \<Longrightarrow> (\<And>p. p \<in> set rs \<Longrightarrow> h' p = h p) \<Longrightarrow> spare h' rg rs"
  unfolding spare_def by auto

lemma spare_push:
  assumes s: "spare h rg rs" and p: "p \<notin> set rs" "addr_ok p" "h p = Some \<lparr>prev = PREV_MAGIC, next = NEXT_MAGIC, data = bs\<rparr>" "length bs = 32"
    and push: "ring_push rg (Some (le_bytes 8 (unat (list_elem p)))) = Some (0, rg')"
  shows "spare h rg' (rs @ [p])"
proof -
  obtain r where r: "rg = Some r" using push by (cases rg) (auto simp: ring_push_def)
  then have i: "ring_inv r" "ring_elem_ok r = (\<lambda>e. length e = 8)" "ring_list r = map (\<lambda>p. le_bytes 8 (unat (list_elem p))) rs"
    using s by (auto simp: spare_def)
  obtain r' where r': "rg' = Some r'" "ring_inv r'" "ring_elem_ok r' = ring_elem_ok r" "ring_list r' = ring_list r @ [le_bytes 8 (unat (list_elem p))]"
    using rq.push_spec [of rg "le_bytes 8 (unat (list_elem p))"] push r i by (auto split: option.splits)
  show ?thesis using s r' i p by (auto simp: spare_def)
qed

lemma spare_push_total:
  assumes "spare h rg rs"
  shows "\<exists>c rg'. ring_push rg (Some (le_bytes 8 (unat q))) = Some (c, rg') \<and> (c \<noteq> 0 \<longrightarrow> spare h rg' rs)"
proof (cases rg)
  case None
  then show ?thesis using assms by (auto simp: ring_push_def)
next
  case (Some r)
  then have i: "ring_inv r" "ring_elem_ok r = (\<lambda>e. length e = 8)" using assms by (auto simp: spare_def)
  obtain c rg' where c: "ring_push rg (Some (le_bytes 8 (unat q))) = Some (c, rg')"
      "case rg' of Some g \<Rightarrow> ring_inv g | None \<Rightarrow> False"
      "(\<lambda>e. case rg' of Some g \<Rightarrow> ring_elem_ok g e | None \<Rightarrow> False) = (\<lambda>e. case rg of Some g \<Rightarrow> ring_elem_ok g e | None \<Rightarrow> False)"
      "(case rg' of Some g \<Rightarrow> ring_list g | None \<Rightarrow> []) =
        (if c = 0 then ring_list r @ [le_bytes 8 (unat q)] else ring_list r)"
    using rq.push_spec [of rg "le_bytes 8 (unat q)"] Some i by auto
  then obtain r' where r': "rg' = Some r'" by (cases rg') auto
  have "spare h rg' rs" if "c \<noteq> 0" using that c assms Some r' by (simp add: spare_def)
  then show ?thesis using c(1) by blast
qed

lemma del_node_ok:
  assumes l: "lists_ok h t nss" and i: "i < 5" "nss ! i = ys @ p # zs" and s: "spare h (ring t) rs"
    and d: "set rs \<inter> fam_nodes (heads t) nss = {}" and n: "lp \<noteq> list_elem p"
  shows "\<exists>rg k h' rs'. timer_del_node h (Some t) lp (list_elem p) = Some (Some (t\<lparr>ring := rg, num := k\<rparr>), h') \<and>
    lists_ok h' t (nss[i := ys @ zs]) \<and> spare h' rg rs' \<and> set rs' \<subseteq> insert p (set rs) \<and>
    (\<forall>q. q \<noteq> p \<longrightarrow> dat h' q = dat h q) \<and> (\<forall>q. q \<notin> fam_nodes (heads t) nss \<longrightarrow> h' q = h q)"
proof -
  note D = lists_okD [OF l i(1)]
  have f: "fam h (heads t) nss" using l by (simp add: lists_ok_def)
  have p: "p \<in> fam_nodes (heads t) nss" "addr_ok p" "payload h p" "p \<in> set (nss ! i)"
    using famD(5) [OF f D(5)] D(1,6) i(2) by (auto simp: dll_def)
  then have pr: "p \<notin> set rs" using d by blast
  obtain bs where bs: "dat h p = Some bs" "length bs = 32" using p(3) by (auto simp: payload_def)
  obtain c rg where c: "ring_push (ring t) (Some (le_bytes 8 (unat (list_elem p)))) = Some (c, rg)" "c \<noteq> 0 \<longrightarrow> spare h rg rs"
    using spare_push_total [OF s] by blast
  define flag where "flag = (if c = 0 then ELIST_ERASE_PART else ELIST_ERASE_FULL)"
  define k where "k = (if c = 0 then num t else u4_sub (num t) 1)"
  obtain h' pret where h': "list_erase h lp (list_elem p) flag = Some (pret, h')" "fam h' (heads t) (nss[i := ys @ zs])"
      "\<forall>q. q \<noteq> p \<longrightarrow> dat h' q = dat h q" "\<forall>q. q \<notin> fam_nodes (heads t) nss \<longrightarrow> h' q = h q"
      "h' p = (if flag = ELIST_ERASE_FULL then None
            else map_option (\<lambda>nd. \<lparr>prev = PREV_MAGIC, next = NEXT_MAGIC, data = list_node_t.data nd\<rparr>) (h p))"
    using fam_erase [OF f D(5) i(2) n, of flag] by blast
  have run: "timer_del_node h (Some t) lp (list_elem p) = Some (Some (t\<lparr>ring := rg, num := k\<rparr>), h')"
    using c(1) h'(1) by (auto simp: timer_del_node_def flag_def k_def)
  have rest: "h' q = h q" if "q \<in> set rs" for q using that d h'(4) by blast
  have "\<exists>rs'. spare h' rg rs' \<and> set rs' \<subseteq> insert p (set rs)"
  proof (cases "c = 0")
    case True
    have hp: "h' p = Some \<lparr>prev = PREV_MAGIC, next = NEXT_MAGIC, data = bs\<rparr>"
      using h'(5) bs(1) True by (auto simp: flag_def dat_def)
    have "spare h' (ring t) rs" using s rest by (rule spare_cong)
    then have "spare h' rg (rs @ [p])" using spare_push [where h = h' and rg = "ring t" and rs = rs, OF _ pr p(2) hp bs(2), of rg] c(1) True by simp
    then show ?thesis by (intro exI [of _ "rs @ [p]"]) auto
  next
    case False
    then have "spare h' rg rs" using c(2) rest spare_cong by metis
    then show ?thesis by blast
  qed
  moreover have "lists_ok h' t (nss[i := ys @ zs])"
  proof -
    have "payload h' q" if q: "ns \<in> set (nss[i := ys @ zs])" "q \<in> set ns" for ns q
    proof -
      have "ns \<in> set nss \<or> ns = ys @ zs" using q(1) set_update_subset_insert by (metis insert_iff subsetD)
      then have a: "payload h q" using q(2) l D(6) i(2) unfolding lists_ok_def by auto
      obtain m where m: "m < 5" "ns = nss[i := ys @ zs] ! m" using q(1) D(4) by (auto simp: in_set_conv_nth)
      have "q \<noteq> p"
      proof (cases "m = i")
        case True
        then show ?thesis using m q(2) D(1,4) i by (auto simp: dll_def)
      next
        case False
        then show ?thesis using m q(2) famD(4) [OF f D(5), of m] D(4,5) p(4) lists_okD(5) [OF l m(1)] by fastforce
      qed
      then show ?thesis using a h'(3) by (simp add: payload_def)
    qed
    then show ?thesis using h'(2) l by (auto simp: lists_ok_def)
  qed
  ultimately show ?thesis using run h'(3,4) by blast
qed

section \<open>Running the timers that are due\<close>

lemma place_skip:
  assumes "\<forall>d \<in> set ds. trig (tnode h d) \<le> trig (tnode h p)"
  shows "place h p (ds @ rest) = ds @ place h p rest"
  using assms unfolding place_def by (simp add: takeWhile_append dropWhile_append)

lemma timer_okD:
  assumes "timer_ok h t nss rs"
  shows "tsize t = 5" "clock t < 2 ^ 63" "lists_ok h t nss" "\<forall>k < 5. in_order h (nss ! k)" "hands_ok (hand t)" "wheel h t nss"
    "\<forall>p \<in> pending nss. 1 \<le> expire (tnode h p)" "spare h (ring t) rs" "set rs \<inter> fam_nodes (heads t) nss = {}"
    "length nss = 5" "k < 5 \<Longrightarrow> distinct (nss ! k)"
  using assms lists_okD(4) [of h t nss 0] lists_okD(1) [of h t nss k] by (auto simp: timer_ok_def dll_def)

lemma other_level:
  assumes "lists_ok h t nss" "i < 5" "j < 5" "i \<noteq> j" "p \<in> set (nss ! i)"
  shows "p \<notin> set (nss ! j)"
  using assms famD(4) [of h "heads t" nss i j] lists_okD(5) [OF assms(1)] by (auto simp: lists_ok_def)

lemma le_nat_bound: "le_nat bs < 256 ^ length bs"
proof (induction bs)
  case (Cons b bs)
  have "unat b < 256" using unsigned_less [of b] by simp
  then show ?case using Cons by simp
qed simp

lemma expire_bound: "expire (tnode h p) < 2 ^ 32"
proof -
  have "le_nat (take 4 (drop 12 bs)) < 256 ^ 4" for bs
    using le_nat_bound [of "take 4 (drop 12 bs)"] power_increasing [of "length (take 4 (drop 12 bs))" 4 "256 :: nat"] by simp
  then show ?thesis by (simp add: tnode_def bytes_node_def)
qed

lemma set_trig_ok:
  assumes l: "lists_ok h t nss" and p: "p \<in> pending nss" and x: "x < 2 ^ 64"
  shows "\<exists>h0. set_bytes h (list_elem p) (le_bytes 8 x) = Some h0 \<and> lists_ok h0 t nss \<and> tnode h0 p = (tnode h p)\<lparr>trig := x\<rparr> \<and>
    (\<forall>q. q \<noteq> p \<longrightarrow> tnode h0 q = tnode h q \<and> h0 q = h q)"
proof -
  have pl: "payload h p" using l p by (auto simp: lists_ok_def pending_def)
  then obtain bs where bs: "dat h p = Some bs" "length bs = 32" by (auto simp: payload_def)
  obtain h0 where h0: "set_bytes h (list_elem p) (le_bytes 8 x) = Some h0" "dat h0 = (dat h)(p \<mapsto> le_bytes 8 x @ drop 8 bs)"
      "nxt h0 = nxt h" "prv h0 = prv h" "\<forall>q. q \<noteq> p \<longrightarrow> h0 q = h q"
    using set_bytes_ok [OF pl, of "le_bytes 8 x"] bs by auto
  have "fam h0 (heads t) nss" using l fam_frame [of h "heads t" nss h0] h0(3,4) by (simp add: lists_ok_def)
  moreover have "payload h0 q" if "payload h q" for q using that h0(2) bs(2) by (auto simp: payload_def)
  ultimately have "lists_ok h0 t nss" using l by (auto simp: lists_ok_def)
  moreover have "tnode h0 p = (tnode h p)\<lparr>trig := x\<rparr>" using h0(2) bs bytes_node_trig [OF bs(2) x] by (simp add: tnode_def)
  moreover have "tnode h0 q = tnode h q" if "q \<noteq> p" for q using that h0(2) by (simp add: tnode_def)
  ultimately show ?thesis using h0(1,5) by blast
qed

text \<open>A timer that is run again leaves the head of level 0 and is put where its next time belongs.\<close>

lemma rearm_ok:
  assumes ok: "timer_ok h t nss rs" and p: "nss ! 0 = p # ds @ rest" and due: "\<forall>d \<in> set ds. trig (tnode h d) \<le> clock t"
    and later: "\<forall>q \<in> set rest. clock t < trig (tnode h q)"
  shows "\<exists>h0 h1 nss1 rest1. set_bytes h (list_elem p) (le_bytes 8 (clock t + expire (tnode h p))) = Some h0 \<and>
    timer_ins_node h0 None (Some t) (node_elem (list_elem p)) 1 = Some (0, Some t, h1, None) \<and> timer_ok h1 t nss1 rs \<and>
    nss1 ! 0 = ds @ rest1 \<and> (\<forall>q \<in> set rest1. clock t < trig (tnode h1 q)) \<and> p \<notin> set ds \<and> pending nss1 = pending nss \<and>
    tnode h1 p = (tnode h p)\<lparr>trig := clock t + expire (tnode h p)\<rparr> \<and> (\<forall>q. q \<noteq> p \<longrightarrow> tnode h1 q = tnode h q)"
proof -
  note T = timer_okD [OF ok]
  let ?x = "clock t + expire (tnode h p)"
  have pp: "p \<in> pending nss" unfolding pending_iff using T(10) p by (intro exI [of _ 0]) simp
  have x: "?x < 2 ^ 64" "clock t < ?x" using T(2,7) pp expire_bound [of h p] by auto
  obtain h0 where h0: "set_bytes h (list_elem p) (le_bytes 8 ?x) = Some h0" "lists_ok h0 t nss" "tnode h0 p = (tnode h p)\<lparr>trig := ?x\<rparr>"
      "\<forall>q. q \<noteq> p \<longrightarrow> tnode h0 q = tnode h q \<and> h0 q = h q"
    using set_trig_ok [OF T(3) pp x(1)] by blast
  define j where "j = timer_level ?x (clock t)"
  let ?n = "nss[0 := ds @ rest, j := place h0 p (if 0 = j then ds @ rest else nss ! j)]"
  have j: "j < 5" "j = timer_level (trig (tnode h0 p)) (clock t)" using timer_level_less h0(3) by (simp_all add: j_def)
  obtain h1 where h1: "timer_ins_node h0 None (Some t) (node_elem (list_elem p)) 1 = Some (0, Some t, h1, None)" "lists_ok h1 t ?n"
      "dat h1 = dat h0" "\<forall>q. q \<notin> fam_nodes (heads t) nss \<longrightarrow> h1 q = h0 q"
    using ins_move_ok [where i = 0 and ys = "[]" and zs = "ds @ rest" and ans = None, OF h0(2) _ _ j(2)] p unfolding append_Nil by auto
  have tn: "tnode h1 = tnode h0" by (rule tnode_cong [OF h1(3)])
  have dis: "p \<notin> set ds" "p \<notin> set rest" "\<And>k. k < 5 \<Longrightarrow> k \<noteq> 0 \<Longrightarrow> p \<notin> set (nss ! k)"
    using T(11) [of 0] p other_level [OF T(3), of 0 _ p] by auto
  have sk: "place h0 p (ds @ rest) = ds @ place h0 p rest"
  proof (rule place_skip)
    show "\<forall>d \<in> set ds. trig (tnode h0 d) \<le> trig (tnode h0 p)" using due dis(1) h0(3,4) x(2) by fastforce
  qed
  have same: "in_order h0 ns = in_order h ns" if "p \<notin> set ns" for ns
  proof -
    have "map (\<lambda>q. trig (tnode h0 q)) ns = map (\<lambda>q. trig (tnode h q)) ns" using that h0(4) by (intro map_cong) auto
    then show ?thesis by (simp only: in_order_def)
  qed
  have "in_order h ([] @ p # ds @ rest)" using T(4) [rule_format, of 0] p by simp
  then have "in_order h (ds @ rest)" using in_order_drop [of h "[]"] by simp
  then have ord: "in_order h0 (ds @ rest)" "\<And>k. k < 5 \<Longrightarrow> k \<noteq> 0 \<Longrightarrow> in_order h0 (nss ! k)"
    using T(4) same dis by auto
  have po: "in_order h0 (ds @ place h0 p rest)" using in_order_place [OF ord(1), of p] unfolding sk .
  have at: "?n ! 0 = ds @ (if j = 0 then place h0 p rest else rest)" "?n ! j = place h0 p (if 0 = j then ds @ rest else nss ! j)"
      "\<And>k. k \<noteq> 0 \<Longrightarrow> k \<noteq> j \<Longrightarrow> ?n ! k = nss ! k"
    using T(10) j(1) sk by auto
  have io: "\<forall>k < 5. in_order h1 (?n ! k)"
  proof (intro allI impI)
    fix k :: nat assume k: "k < 5"
    show "in_order h1 (?n ! k)"
      using k ord po at in_order_place [of h0 _ p] T(10) j(1) unfolding in_order_cong [OF h1(3)]
      by (cases "k = j"; cases "k = 0") auto
  qed
  have pend: "pending ?n = pending nss" using pending_move [of 0 nss j "[]" p "ds @ rest" h0] p T(10) j(1) unfolding append_Nil by (simp split del: if_split)
  have "wheel h1 t ?n"
    unfolding wheel_def
  proof (intro allI impI ballI)
    fix k q assume k: "1 \<le> k \<and> k < 5" "q \<in> set (?n ! k)"
    show "clock t + ms_limit ! k \<le> trig (tnode h1 q) + phase k (hand t)"
    proof (cases "q = p")
      case True
      have "k = j"
      proof (rule ccontr)
        assume "k \<noteq> j"
        then have "p \<in> set (nss ! k)" using k at(3) [of k] True by auto
        then show False using dis(3) k(1) by auto
      qed
      then show ?thesis using timer_level_unit [of ?x "clock t"] k(1) h0(3) True unfolding tn j_def by simp
    next
      case False
      then have "q \<in> set (nss ! k)" using k at by (cases "k = j") (auto split: if_splits)
      then show ?thesis using T(6) k(1) False h0(4) unfolding wheel_def tn by auto
    qed
  qed
  moreover have "\<forall>q \<in> pending ?n. 1 \<le> expire (tnode h1 q)"
  proof
    fix q assume "q \<in> pending ?n"
    then have "1 \<le> expire (tnode h q)" using T(7) pend by simp
    then show "1 \<le> expire (tnode h1 q)" using h0(3,4) unfolding tn by (cases "q = p") auto
  qed
  moreover have "spare h1 (ring t) rs"
  proof (rule spare_cong [OF T(8)])
    fix q assume q: "q \<in> set rs"
    then have "q \<notin> fam_nodes (heads t) nss" "q \<noteq> p" using T(9) pp by (auto simp: fam_nodes_pending)
    then show "h1 q = h q" using h1(4) h0(4) by simp
  qed
  ultimately have "timer_ok h1 t ?n rs" using T h1(2) io pend by (simp add: timer_ok_def fam_nodes_pending)
  moreover have "clock t < trig (tnode h1 q)" if "q \<in> set (if j = 0 then place h0 p rest else rest)" for q
    using that later dis(2) h0(3,4) x(2) unfolding tn by (cases "q = p") (auto split: if_splits)
  ultimately show ?thesis using h0 h1(1) tn at(1) dis(1) pend by (intro exI [of _ h0] exI [of _ h1] exI [of _ ?n]) auto
qed

lemma pending_remove:
  assumes "lists_ok h t nss" "i < 5" "nss ! i = ys @ p # zs"
  shows "pending (nss[i := ys @ zs]) = pending nss - {p}"
proof -
  note D = lists_okD [OF assms(1,2)]
  have len: "length nss = 5" by (rule D(4))
  have d: "distinct (ys @ p # zs)" using D(1) assms(3) by (simp add: dll_def)
  have e: "q \<in> set (nss[i := ys @ zs] ! k) \<longleftrightarrow> q \<in> set (nss ! k) \<and> q \<noteq> p" if "k < 5" for k q
  proof (cases "k = i")
    case True
    then show ?thesis using d assms(3) that len by auto
  next
    case False
    then have "p \<notin> set (nss ! k)" using other_level [OF assms(1,2) that] assms(3) by auto
    then show ?thesis using False by auto
  qed
  show ?thesis
  proof (rule set_eqI)
    fix q
    show "q \<in> pending (nss[i := ys @ zs]) \<longleftrightarrow> q \<in> pending nss - {p}"
      unfolding Diff_iff pending_iff length_list_update len using e by blast
  qed
qed

lemma remove_ok:
  assumes ok: "timer_ok h t nss rs" and i: "i < 5" "nss ! i = ys @ p # zs" and n: "lp \<noteq> list_elem p"
  shows "\<exists>t1 h1 rs1. timer_del_node h (Some t) lp (list_elem p) = Some (Some t1, h1) \<and> timer_ok h1 t1 (nss[i := ys @ zs]) rs1 \<and>
    clock t1 = clock t \<and> tlist t1 = tlist t \<and> pending (nss[i := ys @ zs]) = pending nss - {p} \<and> (\<forall>q. q \<noteq> p \<longrightarrow> tnode h1 q = tnode h q)"
proof -
  note T = timer_okD [OF ok]
  obtain rg k h1 rs1 where r: "timer_del_node h (Some t) lp (list_elem p) = Some (Some (t\<lparr>ring := rg, num := k\<rparr>), h1)"
      "lists_ok h1 t (nss[i := ys @ zs])" "spare h1 rg rs1" "set rs1 \<subseteq> insert p (set rs)" "\<forall>q. q \<noteq> p \<longrightarrow> dat h1 q = dat h q"
    using del_node_ok [OF T(3) i T(8,9) n] by blast
  let ?t = "t\<lparr>ring := rg, num := k\<rparr>" and ?n = "nss[i := ys @ zs]"
  have pend: "pending ?n = pending nss - {p}" by (rule pending_remove [OF T(3) i])
  have tn: "tnode h1 q = tnode h q" if "q \<noteq> p" for q using that r(5) by (simp add: tnode_def)
  have np: "q \<noteq> p" if "q \<in> set (?n ! m)" "m < 5" for q m using that pend T(10) by (auto simp: set_eq_iff pending_iff)
  have sub: "set (?n ! m) \<subseteq> set (nss ! m)" for m using i T(10) by (cases "m = i") auto
  have "in_order h1 (?n ! m)" if "m < 5" for m
  proof -
    have "map (\<lambda>q. trig (tnode h1 q)) (?n ! m) = map (\<lambda>q. trig (tnode h q)) (?n ! m)" using tn np that by (intro map_cong) auto
    moreover have "in_order h (?n ! m)" using T(4) that i T(10) in_order_drop [of h ys p zs] by (cases "m = i") auto
    ultimately show ?thesis by (simp only: in_order_def)
  qed
  moreover have "wheel h1 ?t ?n"
    unfolding wheel_def
  proof (intro allI impI ballI)
    fix m q assume m: "1 \<le> m \<and> m < 5" "q \<in> set (?n ! m)"
    then have "clock t + ms_limit ! m \<le> trig (tnode h q) + phase m (hand t)" using T(6) sub unfolding wheel_def by blast
    then show "clock ?t + ms_limit ! m \<le> trig (tnode h1 q) + phase m (hand ?t)" using tn np m by simp
  qed
  moreover have "\<forall>q \<in> pending ?n. 1 \<le> expire (tnode h1 q)" using T(7) pend tn by auto
  moreover have "set rs1 \<inter> fam_nodes (heads t) ?n = {}"
  proof -
    have "p \<notin> set (heads t)"
    proof
      assume "p \<in> set (heads t)"
      then obtain m where m: "m < length (heads t)" "p = heads t ! m" by (auto simp: in_set_conv_nth)
      then have m5: "m < 5" using lists_okD(5) [OF T(3) i(1)] T(3) by (simp add: lists_ok_def)
      then show False using m(2) lists_okD(1) [OF T(3) m5] lists_okD(1) [OF T(3) i(1)] i(2)
        famD(4) [of h "heads t" nss i m] lists_okD(5) [OF T(3)] i(1) T(3) by (cases "i = m") (auto simp: dll_def lists_ok_def)
    qed
    then show ?thesis using r(4) T(9) pend unfolding fam_nodes_pending by blast
  qed
  ultimately have "timer_ok h1 ?t ?n rs1" using T r(2,3) by (simp add: timer_ok_def lists_ok_def)
  then show ?thesis using r(1) pend tn by (intro exI [of _ ?t] exI [of _ h1] exI [of _ rs1]) simp
qed

text \<open>The callback ends the timer, or it was to run only once.\<close>

definition gone :: "(u8 \<Rightarrow> u8 \<Rightarrow> u8 \<Rightarrow> n4) \<Rightarrow> heap \<Rightarrow> u8 \<Rightarrow> bool" where
  "gone cb h p \<longleftrightarrow> cb (run (tnode h p)) (list_elem p) (arg (tnode h p)) = -3 \<or> ntype (tnode h p) = ETIMER_ONCE"

lemma run_loop_ok:
  "timer_ok h t nss rs \<Longrightarrow> nss ! 0 = ds @ rest \<Longrightarrow> \<forall>d \<in> set ds. trig (tnode h d) \<le> clock t \<Longrightarrow>
   \<forall>q \<in> set rest. clock t < trig (tnode h q) \<Longrightarrow>
   \<exists>t' h' nss' rs'. run_loop cb h (Some t) (tlist t ! 0) (list_elem (hd (nss ! 0 @ [heads t ! 0]))) called =
       Some (Some t', h', called @ map list_elem ds) \<and> timer_ok h' t' nss' rs' \<and> clock t' = clock t \<and> tlist t' = tlist t \<and>
     pending nss' = pending nss - {d \<in> set ds. gone cb h d} \<and>
     (\<forall>q \<in> pending nss'. tnode h' q = (if q \<in> set ds then (tnode h q)\<lparr>trig := clock t + expire (tnode h q)\<rparr> else tnode h q)) \<and>
     (\<forall>q \<in> set (nss' ! 0). clock t < trig (tnode h' q))"
proof (induction ds arbitrary: h t nss rs rest called)
  case Nil
  note T = timer_okD [OF Nil.prems(1)]
  note D = lists_okD [OF T(3), of 0, simplified]
  have "run_loop cb h (Some t) (tlist t ! 0) (list_elem (hd (nss ! 0 @ [heads t ! 0]))) called = Some (Some t, h, called)"
  proof (cases rest)
    case Nil
    then show ?thesis using \<open>nss ! 0 = [] @ rest\<close> D(2) by (subst run_loop.simps) simp
  next
    case (Cons q qs)
    then have q: "node_at h (list_elem q) = Some (tnode h q)" "clock t < trig (tnode h q)"
      using Nil.prems(2,4) D(6) node_at_ok by simp_all
    then show ?thesis using Cons Nil.prems(2) D(2) by (subst run_loop.simps) simp
  qed
  then show ?case using Nil.prems by (intro exI [of _ t] exI [of _ h] exI [of _ nss] exI [of _ rs]) simp
next
  case (Cons p ds)
  note T = timer_okD [OF Cons.prems(1)]
  note D = lists_okD [OF T(3), of 0, simplified]
  let ?a = "heads t ! 0"
  have p: "nss ! 0 = p # ds @ rest" "trig (tnode h p) \<le> clock t" "p \<notin> set ds" "p \<in> pending nss"
    using Cons.prems T(10) T(11) [of 0] by (auto simp: pending_iff intro: exI [of _ 0])
  have pn: "list_elem p \<noteq> 0" "p \<noteq> ?a" using D(1) p(1) by (auto simp: dll_def addr_ok_def)
  have at: "node_at h (list_elem p) = Some (tnode h p)" using D(6) p(1) node_at_ok by simp
  have pv: "list_prev_elem h (list_elem p) = Some (list_elem ?a)" using list_prev_ok [of h ?a "[]" "p # ds @ rest"] D(1) p(1) by simp
  have due: "\<forall>d \<in> set ds. trig (tnode h d) \<le> clock t" using Cons.prems(3) by simp
  let ?body = "if cb (run (tnode h p)) (list_elem p) (arg (tnode h p)) = -3 \<or> ntype (tnode h p) = ETIMER_ONCE
    then timer_del_node h (Some t) (tlist t ! 0) (list_elem p)
    else Option.bind (set_bytes h (list_elem p) (le_bytes 8 (clock t + expire (tnode h p)))) (\<lambda>h.
      map_option (\<lambda>(ret, timer, h, tid). (timer, h)) (timer_ins_node h None (Some t) (node_elem (list_elem p)) 1))"
  have body: "\<exists>t1 h1 nss1 rs1 rest1. ?body = Some (Some t1, h1) \<and> timer_ok h1 t1 nss1 rs1 \<and> clock t1 = clock t \<and> tlist t1 = tlist t \<and>
      nss1 ! 0 = ds @ rest1 \<and> (\<forall>q \<in> set rest1. clock t < trig (tnode h1 q)) \<and> (\<forall>q. q \<noteq> p \<longrightarrow> tnode h1 q = tnode h q) \<and>
      pending nss1 = (if gone cb h p then pending nss - {p} else pending nss) \<and>
      (\<not> gone cb h p \<longrightarrow> tnode h1 p = (tnode h p)\<lparr>trig := clock t + expire (tnode h p)\<rparr>)"
  proof (cases "gone cb h p")
    case True
    have ne: "tlist t ! 0 \<noteq> list_elem p" using D(2) pn(2) by auto
    have hp: "nss ! 0 = [] @ p # ds @ rest" and z: "(0 :: nat) < 5" using p(1) by simp_all
    obtain t1 h1 rs1 where r: "timer_del_node h (Some t) (tlist t ! 0) (list_elem p) = Some (Some t1, h1)"
        "timer_ok h1 t1 (nss[0 := [] @ ds @ rest]) rs1" "clock t1 = clock t" "tlist t1 = tlist t"
        "pending (nss[0 := [] @ ds @ rest]) = pending nss - {p}" "\<forall>q. q \<noteq> p \<longrightarrow> tnode h1 q = tnode h q"
      using remove_ok [OF Cons.prems(1) z hp ne] by blast
    have "p \<notin> set rest" using T(11) [of 0] p(1) by simp
    then show ?thesis using r True T(10) Cons.prems(4)
      by (intro exI [of _ t1] exI [of _ h1] exI [of _ "nss[0 := ds @ rest]"] exI [of _ rs1] exI [of _ rest]) (auto simp: gone_def)
  next
    case False
    obtain h0 h1 nss1 rest1 where r: "set_bytes h (list_elem p) (le_bytes 8 (clock t + expire (tnode h p))) = Some h0"
        "timer_ins_node h0 None (Some t) (node_elem (list_elem p)) 1 = Some (0, Some t, h1, None)" "timer_ok h1 t nss1 rs"
        "nss1 ! 0 = ds @ rest1" "\<forall>q \<in> set rest1. clock t < trig (tnode h1 q)" "pending nss1 = pending nss"
        "tnode h1 p = (tnode h p)\<lparr>trig := clock t + expire (tnode h p)\<rparr>" "\<forall>q. q \<noteq> p \<longrightarrow> tnode h1 q = tnode h q"
      using rearm_ok [OF Cons.prems(1) p(1) due Cons.prems(4)] by blast
    then show ?thesis using False
      by (intro exI [of _ t] exI [of _ h1] exI [of _ nss1] exI [of _ rs] exI [of _ rest1]) (simp add: gone_def)
  qed
  then obtain t1 h1 nss1 rs1 rest1 where s: "?body = Some (Some t1, h1)" "timer_ok h1 t1 nss1 rs1" "clock t1 = clock t" "tlist t1 = tlist t"
      "nss1 ! 0 = ds @ rest1" "\<forall>q \<in> set rest1. clock t < trig (tnode h1 q)" "\<forall>q. q \<noteq> p \<longrightarrow> tnode h1 q = tnode h q"
      "pending nss1 = (if gone cb h p then pending nss - {p} else pending nss)"
      "\<not> gone cb h p \<longrightarrow> tnode h1 p = (tnode h p)\<lparr>trig := clock t + expire (tnode h p)\<rparr>" by blast
  have same: "tnode h1 d = tnode h d" if "d \<in> set ds" for d using that p(3) s(7) by metis
  have l1: "dll h1 ?a (nss1 ! 0)" using lists_okD(1) [OF timer_okD(3) [OF s(2)], of 0] s(4) by simp
  have st: "run_loop cb h (Some t) (tlist t ! 0) (list_elem (hd (nss ! 0 @ [?a]))) called =
      run_loop cb h1 (Some t1) (tlist t1 ! 0) (list_elem (hd (nss1 ! 0 @ [heads t1 ! 0]))) (called @ [list_elem p])"
    using pn at pv p(1,2) D(2) s(1,4) list_start [OF l1]
    by (subst run_loop.simps) (simp split del: if_split cong: if_cong)
  have pre: "\<forall>d \<in> set ds. trig (tnode h1 d) \<le> clock t1" "\<forall>q \<in> set rest1. clock t1 < trig (tnode h1 q)"
    using due same s(3,6) by auto
  obtain t' h' nss' rs' where ih: "run_loop cb h1 (Some t1) (tlist t1 ! 0) (list_elem (hd (nss1 ! 0 @ [heads t1 ! 0]))) (called @ [list_elem p]) =
       Some (Some t', h', (called @ [list_elem p]) @ map list_elem ds)" "timer_ok h' t' nss' rs'" "clock t' = clock t1" "tlist t' = tlist t1"
      "pending nss' = pending nss1 - {d \<in> set ds. gone cb h1 d}"
      "\<forall>q \<in> pending nss'. tnode h' q = (if q \<in> set ds then (tnode h1 q)\<lparr>trig := clock t1 + expire (tnode h1 q)\<rparr> else tnode h1 q)"
      "\<forall>q \<in> set (nss' ! 0). clock t1 < trig (tnode h' q)"
    using Cons.IH [OF s(2,5) pre, of "called @ [list_elem p]"] by blast
  have g: "gone cb h1 d = gone cb h d" if "d \<in> set ds" for d using same [OF that] by (simp add: gone_def)
  have pend: "pending nss' = pending nss - {d \<in> set (p # ds). gone cb h d}"
    using ih(5) s(8) g by (auto split: if_splits)
  have "tnode h' q = (if q \<in> set (p # ds) then (tnode h q)\<lparr>trig := clock t + expire (tnode h q)\<rparr> else tnode h q)"
    if q: "q \<in> pending nss'" for q
  proof (cases "q = p")
    case True
    then have "\<not> gone cb h p" using q pend by auto
    then show ?thesis using True ih(6) q s(9) p(3) by auto
  next
    case False
    then show ?thesis using ih(6) q s(3,7) by auto
  qed
  then show ?case unfolding st using ih(1-4,7) s(3,4) pend by (intro exI [of _ t'] exI [of _ h'] exI [of _ nss'] exI [of _ rs']) simp
qed

lemma timer_loop_ok:
  assumes ok: "timer_ok h t nss rs" and c: "0 < clock t" "clock t + 10 \<le> now div 1000" "now div 1000 - clock t < 2 ^ 32" "now < 2 ^ 63"
  shows "\<exists>t' h' nss' rs' ds. timer_loop cb h (Some t) now = Some (0, Some t', h', map list_elem ds) \<and> timer_ok h' t' nss' rs' \<and>
    clock t' = now div 1000 \<and> distinct ds \<and> sorted (map (\<lambda>d. trig (tnode h d)) ds) \<and>
    set ds = {p \<in> pending nss. trig (tnode h p) \<le> now div 1000} \<and> pending nss' = pending nss - {d \<in> set ds. gone cb h d} \<and>
    (\<forall>q \<in> pending nss'. tnode h' q = (if q \<in> set ds then (tnode h q)\<lparr>trig := now div 1000 + expire (tnode h q)\<rparr> else tnode h q) \<and>
      now div 1000 < trig (tnode h' q))"
proof -
  note T = timer_okD [OF ok]
  let ?c = "now div 1000"
  obtain hands h1 nss1 where u: "timer_update h (Some t) now = Some (0, Some (t\<lparr>clock := ?c, hand := hands\<rparr>), h1)" "hands_ok hands"
      "lists_ok h1 t nss1" "dat h1 = dat h" "\<forall>k < 5. in_order h (nss1 ! k)" "pending nss1 = pending nss"
      "wheel h (t\<lparr>clock := ?c, hand := hands\<rparr>) nss1" "\<forall>q. q \<notin> fam_nodes (heads t) nss \<longrightarrow> h1 q = h q"
    using timer_update_ok [OF T(3,4,6,5) c(2,3)] by blast
  let ?t = "t\<lparr>clock := ?c, hand := hands\<rparr>"
  have tn: "tnode h1 = tnode h" by (rule tnode_cong [OF u(4)])
  have "spare h1 (ring t) rs" using T(8) by (rule spare_cong) (use T(9) u(8) in blast)
  moreover have "wheel h1 ?t nss1" using u(7) by (simp add: wheel_def tn)
  moreover have "?c < 2 ^ 63" using c(4) by linarith
  ultimately have ok1: "timer_ok h1 ?t nss1 rs"
    using T u in_order_cong [OF u(4)] tn by (simp add: timer_ok_def lists_ok_def fam_nodes_pending)
  note T1 = timer_okD [OF ok1]
  define ds where "ds = takeWhile (\<lambda>q. trig (tnode h q) \<le> ?c) (nss1 ! 0)"
  define rest where "rest = dropWhile (\<lambda>q. trig (tnode h q) \<le> ?c) (nss1 ! 0)"
  have s: "nss1 ! 0 = ds @ rest" by (simp add: ds_def rest_def)
  have so: "sorted (map (\<lambda>d. trig (tnode h d)) ds)" "sorted (map (\<lambda>d. trig (tnode h d)) rest)"
    using u(5) [rule_format, of 0] unfolding s in_order_def by (auto simp: sorted_append)
  have due: "\<forall>d \<in> set ds. trig (tnode h d) \<le> ?c" unfolding ds_def by (blast dest: set_takeWhileD)
  have later: "\<forall>q \<in> set rest. ?c < trig (tnode h q)"
  proof (cases rest)
    case (Cons x xs)
    have "\<not> trig (tnode h x) \<le> ?c" using hd_dropWhile [of "\<lambda>q. trig (tnode h q) \<le> ?c" "nss1 ! 0"] Cons unfolding rest_def [symmetric] by simp
    then show ?thesis using so(2) unfolding Cons by auto
  qed simp
  obtain t' h' nss' rs' where r: "run_loop cb h1 (Some ?t) (tlist ?t ! 0) (list_elem (hd (nss1 ! 0 @ [heads ?t ! 0]))) [] =
       Some (Some t', h', [] @ map list_elem ds)" "timer_ok h' t' nss' rs'" "clock t' = clock ?t"
      "pending nss' = pending nss1 - {d \<in> set ds. gone cb h1 d}"
      "\<forall>q \<in> pending nss'. tnode h' q = (if q \<in> set ds then (tnode h1 q)\<lparr>trig := clock ?t + expire (tnode h1 q)\<rparr> else tnode h1 q)"
      "\<forall>q \<in> set (nss' ! 0). clock ?t < trig (tnode h' q)"
    using run_loop_ok [OF ok1 s, of cb "[]"] due later tn by auto
  have l0: "list_next_elem h1 (tlist t ! 0) = Some (list_elem (hd (nss1 ! 0 @ [heads t ! 0])))"
    using list_start [OF lists_okD(1) [OF u(3), of 0]] lists_okD(2) [OF u(3), of 0] by simp
  have run: "timer_loop cb h (Some t) now = Some (0, Some t', h', map list_elem ds)"
    using c(1) T(1) u(1) l0 r(1) by (simp add: timer_loop_def)
  have set_ds: "set ds = {p \<in> pending nss. trig (tnode h p) \<le> ?c}"
  proof -
    have "p \<in> set ds" if p: "p \<in> pending nss" "trig (tnode h p) \<le> ?c" for p
    proof -
      obtain k where k: "k < 5" "p \<in> set (nss1 ! k)" using p(1) T1(10) unfolding u(6) [symmetric] pending_iff by auto
      have "k = 0" using wheel_not_due [OF u(7), of k p] u(2) k p(2) by (cases k) auto
      then show ?thesis using k(2) s later p(2) by auto
    qed
    moreover have "d \<in> pending nss" if "d \<in> set ds" for d
      using that T1(10) s unfolding u(6) [symmetric] pending_iff by (intro exI [of _ 0]) simp
    ultimately show ?thesis using due by blast
  qed
  have last: "?c < trig (tnode h' q)" if q: "q \<in> pending nss'" for q
  proof -
    obtain k where k: "k < 5" "q \<in> set (nss' ! k)" using q timer_okD(10) [OF r(2)] unfolding pending_iff by auto
    show ?thesis
    proof (cases "k = 0")
      case False
      then show ?thesis using wheel_not_due [OF timer_okD(6,5) [OF r(2)], of k q] k r(3) by simp
    qed (use k r(6) in simp)
  qed
  have d0: "distinct ds" using T1(11) [of 0] s by simp
  have "gone cb h1 = gone cb h" by (simp add: gone_def fun_eq_iff tn)
  then show ?thesis using run r(2-5) d0 so(1) set_ds last tn u(6)
    by (intro exI [of _ t'] exI [of _ h'] exI [of _ nss'] exI [of _ rs'] exI [of _ ds]) simp
qed

section \<open>Adding and removing\<close>

lemma new_timer_ok:
  assumes ok: "timer_ok h t nss rs" and same: "\<And>q. q \<in> fam_nodes (heads t) nss \<Longrightarrow> h0 q = h q"
    and p: "p \<in> dom h0" "p \<notin> fam_nodes (heads t) nss" "addr_ok p" "payload h0 p" "1 \<le> expire (tnode h0 p)"
    and tk: "take_node hx ans elem 32 = Some (flag, p, h0)" "eptr elem \<noteq> 0"
    and j: "j = timer_level (trig (tnode h0 p)) (clock t)"
    and sp: "spare h0 rg rs'" "set rs' \<inter> fam_nodes (heads t) nss = {}" "p \<notin> set rs'"
  shows "\<exists>h' nss'. list_insert_front hx ans
      (list_elem (hd (dropWhile (\<lambda>q. trig (tnode h q) \<le> trig (tnode h0 p)) (nss ! j) @ [heads t ! j]))) elem 32 = Some (list_elem p, h') \<and>
    timer_ok h' (t\<lparr>ring := rg, num := k\<rparr>) nss' rs' \<and> pending nss' = insert p (pending nss) \<and> tnode h' p = tnode h0 p \<and>
    (\<forall>q \<in> pending nss. tnode h' q = tnode h q)"
proof -
  note T = timer_okD [OF ok]
  have j5: "j < 5" unfolding j by (rule timer_level_less)
  note D = lists_okD [OF T(3) j5]
  have t0: "tnode h0 q = tnode h q" if "q \<in> pending nss" for q
    using same [of q] that by (simp add: fam_nodes_pending tnode_def dat_def)
  have tj: "tnode h0 q = tnode h q" if "q \<in> set (nss ! m)" "m < 5" for q m using t0 that T(10) by (auto simp: pending_iff)
  have f: "fam h0 (heads t) nss"
    using T(3) fam_frame [of h "heads t" nss h0] same by (simp add: lists_ok_def nxt_def prv_def)
  let ?P = "\<lambda>q. trig (tnode h0 q) \<le> trig (tnode h0 p)" and ?n = "nss[j := place h0 p (nss ! j)]"
  have dw: "dropWhile (\<lambda>q. trig (tnode h q) \<le> trig (tnode h0 p)) (nss ! j) = dropWhile ?P (nss ! j)"
    using tj j5 by (intro dropWhile_cong) auto
  obtain h' where h': "list_insert_front hx ans (list_elem (hd (dropWhile ?P (nss ! j) @ [heads t ! j]))) elem 32 = Some (list_elem p, h')"
      "fam h' (heads t) ?n" "dat h' = dat h0" "\<forall>q. q \<notin> fam_nodes (heads t) nss \<longrightarrow> q \<noteq> p \<longrightarrow> h' q = h0 q"
    using fam_insert [OF tk(1) f D(5) _ p(1,2,3) tk(2), of "takeWhile ?P (nss ! j)" "dropWhile ?P (nss ! j)"] unfolding place_def by auto
  have tn: "tnode h' = tnode h0" by (rule tnode_cong [OF h'(3)])
  have pend: "pending ?n = insert p (pending nss)"
  proof -
    have "q \<in> set (?n ! m) \<longleftrightarrow> q \<in> set (nss ! m) \<or> (q = p \<and> m = j)" if "m < 5" for q m using that T(10) by (cases "m = j") auto
    then have "q \<in> pending ?n \<longleftrightarrow> q \<in> insert p (pending nss)" for q
      unfolding insert_iff pending_iff length_list_update T(10) using j5 by blast
    then show ?thesis by blast
  qed
  have "payload h' q" if "q \<in> pending ?n" for q
  proof (cases "q = p")
    case True
    then show ?thesis using p(4) h'(3) by (simp add: payload_def)
  next
    case False
    then have q: "q \<in> pending nss" using that pend by blast
    then have "payload h q" using T(3) by (auto simp: lists_ok_def pending_def)
    then show ?thesis using same [of q] q h'(3) by (simp add: payload_def fam_nodes_pending dat_def)
  qed
  then have "lists_ok h' t ?n" using h'(2) T(3) by (auto simp: lists_ok_def pending_def)
  moreover have "in_order h' (?n ! m)" if m: "m < 5" for m
  proof -
    have "map (\<lambda>q. trig (tnode h0 q)) (nss ! m) = map (\<lambda>q. trig (tnode h q)) (nss ! m)" using tj m by (intro map_cong) auto
    then have "in_order h0 (nss ! m)" using T(4) m by (simp only: in_order_def)
    then show ?thesis using in_order_place [of h0 "nss ! m" p] m T(10) unfolding in_order_cong [OF h'(3)] by (cases "m = j") auto
  qed
  moreover have "wheel h' t ?n"
    unfolding wheel_def
  proof (intro allI impI ballI)
    fix m q assume m: "1 \<le> m \<and> m < 5" "q \<in> set (?n ! m)"
    show "clock t + ms_limit ! m \<le> trig (tnode h' q) + phase m (hand t)"
    proof (cases "q \<in> set (nss ! m)")
      case True
      then show ?thesis using T(6) m(1) tj unfolding wheel_def tn by metis
    next
      case False
      then have "m = j" using m(2) by (metis nth_list_update_neq)
      moreover have "q = p" using False m T(10) \<open>m = j\<close> by auto
      ultimately have "q = p" "m = j" by blast+
      then show ?thesis using timer_level_unit [of "trig (tnode h0 p)" "clock t"] m(1) unfolding tn j by simp
    qed
  qed
  moreover have "\<forall>q \<in> pending ?n. 1 \<le> expire (tnode h' q)" using T(7) pend t0 p(5) unfolding tn by auto
  moreover have "spare h' rg rs'" using sp(1) by (rule spare_cong) (use sp(2,3) h'(4) in blast)
  moreover have "set rs' \<inter> fam_nodes (heads t) ?n = {}" using sp(2,3) pend by (auto simp: fam_nodes_pending)
  ultimately have "timer_ok h' (t\<lparr>ring := rg, num := k\<rparr>) ?n rs'" using T by (simp add: timer_ok_def lists_ok_def wheel_def)
  then show ?thesis unfolding dw using h'(1) pend t0 tn by (intro exI [of _ h'] exI [of _ ?n]) simp
qed

lemma fam_dom: "lists_ok h t nss \<Longrightarrow> fam_nodes (heads t) nss \<subseteq> dom h"
proof
  fix q assume l: "lists_ok h t nss" and q: "q \<in> fam_nodes (heads t) nss"
  have len: "length (heads t) = 5" "length nss = 5" using l lists_okD(4) [OF l, of 0] by (auto simp: lists_ok_def)
  have "\<exists>k < 5. q \<in> set (heads t ! k # nss ! k)"
    using q len unfolding fam_nodes_pending Un_iff pending_iff in_set_conv_nth [of q "heads t"] by fastforce
  then obtain k where k: "k < 5" "q \<in> set (heads t ! k # nss ! k)" by blast
  then show "q \<in> dom h" using dll_dom [OF lists_okD(1) [OF l k(1)]] by blast
qed

abbreviation key_node :: "lisk_timer_t \<Rightarrow> timer_key_t \<Rightarrow> lisk_timer_node_t" where
  "key_node t k \<equiv> \<lparr>trig = clock t + kexpire k, ntype = ktype k, expire = kexpire k, arg = karg k, run = kfunc k\<rparr>"

text \<open>The part of \<open>timer_add\<close> up to the ring: the list and the place in it.\<close>

lemma timer_add_pos:
  assumes ok: "timer_ok h t nss rs" and k: "MIN_EXPIRE \<le> kexpire k" "kexpire k \<le> MAX_EXPIRE" "kfunc k \<noteq> 0" "ktype k < 2 ^ 32"
    and fr: "fp \<noteq> 0" "list_node fp \<notin> dom h"
    and j: "j = timer_level (clock t + kexpire k) (clock t)" and old: "h0 = h" "t0 = t"
  shows "timer_add h ans (fp, hw) (Some t) (Some k) = do {
      (ret, rg, out) \<leftarrow> ring_pop (ring t) True;
      (t, elem, h) \<leftarrow>
        (if ret = 0 then do {
           bs \<leftarrow> out;
           h \<leftarrow> set_bytes h (of_nat (le_nat bs)) (node_bytes (key_node t k));
           Some (t\<lparr>ring := rg\<rparr>, node_elem (of_nat (le_nat bs)), h) }
         else Some (t\<lparr>ring := rg, num := u4_add (num t) 1\<rparr>, \<lparr>eptr = fp, ehead = hw, ebytes = node_bytes (key_node t k)\<rparr>, h));
      (ptr, h) \<leftarrow> list_insert_front h ans (list_elem (hd (dropWhile (\<lambda>q. trig (tnode h0 q) \<le> clock t0 + kexpire k) (nss ! j) @ [heads t0 ! j]))) elem 32;
      Some (if ptr = 0 then (-2, Some t, h, None) else (0, Some t, h, Some ptr)) }"
    and "bytes_node (node_bytes (key_node t k)) = key_node t k"
proof -
  note T = timer_okD [OF ok]
  have fit: "node_fits (key_node t k)" using k T(2) by (simp add: node_fits_def MAX_EXPIRE_def)
  show b: "bytes_node (node_bytes (key_node t k)) = key_node t k" by (rule bytes_node_bytes [OF fit])
  let ?e = "\<lparr>eptr = fp, ehead = hw, ebytes = node_bytes (key_node t k)\<rparr>"
  have e: "elem_bytes h ?e = Some (node_bytes (key_node t k))"
    using fr(2) by (auto simp: elem_bytes_def mem_read_def split: option.splits)
  have j5: "j < 5" unfolding j by (rule timer_level_less)
  note D = lists_okD [OF T(3) j5]
  have pos: "find_pos h (tlist t ! j) ?e (list_elem (hd (nss ! j @ [heads t ! j]))) =
      Some (list_elem (hd (dropWhile (\<lambda>q. trig (tnode h q) \<le> clock t + kexpire k) (nss ! j) @ [heads t ! j])))"
    using find_pos_ok [OF e D(6), of "heads t ! j" "[]"] D(1,2) b by simp
  have nx: "list_next_elem h (tlist t ! j) = Some (list_elem (hd (nss ! j @ [heads t ! j])))" using list_start [OF D(1)] D(2) by simp
  show "timer_add h ans (fp, hw) (Some t) (Some k) = do {
      (ret, rg, out) \<leftarrow> ring_pop (ring t) True;
      (t, elem, h) \<leftarrow>
        (if ret = 0 then do {
           bs \<leftarrow> out;
           h \<leftarrow> set_bytes h (of_nat (le_nat bs)) (node_bytes (key_node t k));
           Some (t\<lparr>ring := rg\<rparr>, node_elem (of_nat (le_nat bs)), h) }
         else Some (t\<lparr>ring := rg, num := u4_add (num t) 1\<rparr>, ?e, h));
      (ptr, h) \<leftarrow> list_insert_front h ans (list_elem (hd (dropWhile (\<lambda>q. trig (tnode h0 q) \<le> clock t0 + kexpire k) (nss ! j) @ [heads t0 ! j]))) elem 32;
      Some (if ptr = 0 then (-2, Some t, h, None) else (0, Some t, h, Some ptr)) }"
    using k fr(1) T(1) e b j D(3) nx pos old
    by (simp add: timer_add_def timer_ins_node_def timer_list_insert_def Let_def split: prod.splits option.splits bind_splits)
qed

lemma spare_pop_nil:
  assumes "spare h rg []"
  shows "\<exists>c. c \<noteq> 0 \<and> ring_pop rg True = Some (c, rg, None)"
proof (cases rg)
  case None
  then show ?thesis by (simp add: ring_pop_def)
next
  case (Some r)
  then show ?thesis using rq.pop_nil [of rg] assms by (auto simp: spare_def)
qed

lemma spare_pop_cons:
  assumes "spare h rg (r # rs)"
  shows "\<exists>rg'. ring_pop rg True = Some (0, rg', Some (le_bytes 8 (unat (list_elem r)))) \<and> spare h rg' rs"
proof -
  obtain g where g: "rg = Some g" using assms by (cases rg) (auto simp: spare_def)
  then obtain rg' where "ring_pop rg True = Some (0, rg', Some (le_bytes 8 (unat (list_elem r))))"
      "case rg' of Some g \<Rightarrow> ring_inv g | None \<Rightarrow> False"
      "(\<lambda>e. case rg' of Some g \<Rightarrow> ring_elem_ok g e | None \<Rightarrow> False) = (\<lambda>e. case rg of Some g \<Rightarrow> ring_elem_ok g e | None \<Rightarrow> False)"
      "(case rg' of Some g \<Rightarrow> ring_list g | None \<Rightarrow> []) = map (\<lambda>p. le_bytes 8 (unat (list_elem p))) rs"
    using rq.pop_cons [of rg "le_bytes 8 (unat (list_elem r))" "map (\<lambda>p. le_bytes 8 (unat (list_elem p))) rs"] assms
    by (auto simp: spare_def)
  then show ?thesis using assms g by (cases rg') (auto simp: spare_def)
qed

lemma timer_add_ok:
  assumes ok: "timer_ok h t nss rs" and k: "MIN_EXPIRE \<le> kexpire k" "kexpire k \<le> MAX_EXPIRE" "kfunc k \<noteq> 0" "ktype k < 2 ^ 32"
    and fr: "fp \<noteq> 0" "list_node fp \<notin> dom h" "hw \<noteq> (PREV_MAGIC, NEXT_MAGIC)" and a: "a \<notin> dom h" "addr_ok a"
  shows "\<exists>p t' h' nss' rs'. timer_add h (Some a) (fp, hw) (Some t) (Some k) = Some (0, Some t', h', Some (list_elem p)) \<and>
    timer_ok h' t' nss' rs' \<and> clock t' = clock t \<and> p \<notin> pending nss \<and> pending nss' = insert p (pending nss) \<and>
    tnode h' p = key_node t k \<and> (\<forall>q \<in> pending nss. tnode h' q = tnode h q)"
proof -
  note T = timer_okD [OF ok]
  define j where "j = timer_level (clock t + kexpire k) (clock t)"
  have j: "j = timer_level (trig (key_node t k)) (clock t)" by (simp add: j_def)
  note A = timer_add_pos(1) [where ans = "Some a" and hw = hw, OF ok k fr(1,2) j_def refl refl]
    timer_add_pos(2) [OF ok k fr(1,2) j_def refl refl]
  have nz: "list_elem q \<noteq> 0" if "addr_ok q" for q using that by (simp add: addr_ok_def)
  have dom: "fam_nodes (heads t) nss \<subseteq> dom h" by (rule fam_dom [OF T(3)])
  have x: "1 \<le> expire (key_node t k)" using k(1) by (simp add: MIN_EXPIRE_def)
  show ?thesis
  proof (cases rs)
    case Nil
    obtain c where c: "c \<noteq> 0" "ring_pop (ring t) True = Some (c, ring t, None)" using spare_pop_nil T(8) Nil by blast
    let ?e = "\<lparr>eptr = fp, ehead = hw, ebytes = node_bytes (key_node t k)\<rparr>"
    define h0 where "h0 = h(a \<mapsto> \<lparr>prev = a, next = a, data = node_bytes (key_node t k)\<rparr>)"
    have tk: "take_node h (Some a) ?e 32 = Some (-1, a, h0)"
      using take_node_new [of ?e h 32 a] fr(2,3) by (simp add: h0_def)
    have tn: "tnode h0 a = key_node t k" "payload h0 a" "a \<in> dom h0" using A(2) by (simp_all add: h0_def tnode_def dat_def payload_def)
    have nf: "a \<notin> fam_nodes (heads t) nss" using a(1) dom by blast
    have same: "h0 q = h q" if "q \<in> fam_nodes (heads t) nss" for q using that nf by (auto simp: h0_def)
    have sp: "spare h0 (ring t) []" "set [] \<inter> fam_nodes (heads t) nss = {}" "a \<notin> set []"
      using T(8) Nil spare_cong [of h "ring t" "[]" h0] by simp_all
    have pre: "1 \<le> expire (tnode h0 a)" "eptr ?e \<noteq> 0" "j = timer_level (trig (tnode h0 a)) (clock t)"
      using x fr(1) j by (simp_all add: tn)
    obtain h' nss' where r: "list_insert_front h (Some a)
        (list_elem (hd (dropWhile (\<lambda>q. trig (tnode h q) \<le> trig (tnode h0 a)) (nss ! j) @ [heads t ! j]))) ?e 32 = Some (list_elem a, h')"
        "timer_ok h' (t\<lparr>ring := ring t, num := u4_add (num t) 1\<rparr>) nss' []" "pending nss' = insert a (pending nss)" "tnode h' a = tnode h0 a"
        "\<forall>q \<in> pending nss. tnode h' q = tnode h q"
      using new_timer_ok [where k = "u4_add (num t) 1", OF ok same tn(3) nf a(2) tn(2) pre(1) tk pre(2,3) sp] by blast
    have "timer_add h (Some a) (fp, hw) (Some t) (Some k) = Some (0, Some (t\<lparr>ring := ring t, num := u4_add (num t) 1\<rparr>), h', Some (list_elem a))"
      unfolding A(1) using c r(1) nz [OF a(2)] by (simp add: tn)
    then show ?thesis using r(2-) nf tn by (intro exI) (auto simp: fam_nodes_pending)
  next
    case (Cons r rs1)
    obtain rg where rg: "ring_pop (ring t) True = Some (0, rg, Some (le_bytes 8 (unat (list_elem r))))" "spare h rg rs1"
      using spare_pop_cons T(8) Cons by blast
    obtain bs where bs: "h r = Some \<lparr>prev = PREV_MAGIC, next = NEXT_MAGIC, data = bs\<rparr>" "length bs = 32" "addr_ok r" "r \<notin> set rs1"
      using T(8) unfolding Cons spare_def by auto
    have nf: "r \<notin> fam_nodes (heads t) nss" using T(9) Cons by auto
    have pl: "payload h r" using bs by (simp add: payload_def dat_def)
    obtain h0 where h0: "set_bytes h (list_elem r) (node_bytes (key_node t k)) = Some h0" "\<forall>q. q \<noteq> r \<longrightarrow> h0 q = h q"
        "h0 r = Some \<lparr>prev = PREV_MAGIC, next = NEXT_MAGIC, data = node_bytes (key_node t k)\<rparr>"
      using bs by (simp add: set_bytes_def mem_write_def)
    have tn: "tnode h0 r = key_node t k" "payload h0 r" "r \<in> dom h0" using A(2) h0(3) by (simp_all add: tnode_def dat_def payload_def dom_def)
    have tk: "take_node h0 (Some a) (node_elem (list_elem r)) 32 = Some (0, r, h0)"
      using take_node_erased [of h0 "node_elem (list_elem r)"] h0(3) by simp
    have same: "h0 q = h q" if "q \<in> fam_nodes (heads t) nss" for q using that nf h0(2) by metis
    have "spare h0 rg rs1" using rg(2) by (rule spare_cong) (use h0(2) bs(4) in metis)
    then have sp: "spare h0 rg rs1" "set rs1 \<inter> fam_nodes (heads t) nss = {}" "r \<notin> set rs1" using bs(4) T(9) Cons by auto
    have pre: "1 \<le> expire (tnode h0 r)" "eptr (node_elem (list_elem r)) \<noteq> 0" "j = timer_level (trig (tnode h0 r)) (clock t)"
      using x nz [OF bs(3)] j by (simp_all add: tn)
    obtain h' nss' where i: "list_insert_front h0 (Some a)
        (list_elem (hd (dropWhile (\<lambda>q. trig (tnode h q) \<le> trig (tnode h0 r)) (nss ! j) @ [heads t ! j]))) (node_elem (list_elem r)) 32 = Some (list_elem r, h')"
        "timer_ok h' (t\<lparr>ring := rg, num := num t\<rparr>) nss' rs1" "pending nss' = insert r (pending nss)" "tnode h' r = tnode h0 r"
        "\<forall>q \<in> pending nss. tnode h' q = tnode h q"
      using new_timer_ok [where k = "num t", OF ok same tn(3) nf bs(3) tn(2) pre(1) tk pre(2,3) sp] by blast
    have "timer_add h (Some a) (fp, hw) (Some t) (Some k) = Some (0, Some (t\<lparr>ring := rg\<rparr>), h', Some (list_elem r))"
      unfolding A(1) using rg(1) h0(1) i(1) nz [OF bs(3)] by (simp add: tn le_ptr)
    moreover have "t\<lparr>ring := rg, num := num t\<rparr> = t\<lparr>ring := rg\<rparr>" by simp
    ultimately show ?thesis using i(2-) nf tn by (intro exI [of _ r] exI [of _ "t\<lparr>ring := rg\<rparr>"]) (auto simp: fam_nodes_pending)
  qed
qed

lemma timer_del_ok:
  assumes ok: "timer_ok h t nss rs" and p: "p \<in> pending nss"
  shows "\<exists>t' h' nss' rs'. timer_del h (Some t) (list_elem p) = Some (0, Some t', h') \<and> timer_ok h' t' nss' rs' \<and> clock t' = clock t \<and>
    pending nss' = pending nss - {p} \<and> (\<forall>q \<in> pending nss'. tnode h' q = tnode h q)"
proof -
  note T = timer_okD [OF ok]
  obtain i where i: "i < 5" "p \<in> set (nss ! i)" using p T(10) unfolding pending_iff by auto
  obtain ys zs where s: "nss ! i = ys @ p # zs" using split_list [OF i(2)] by blast
  have n: "0 \<noteq> list_elem p" using lists_okD(1) [OF T(3) i(1)] i(2) by (auto simp: dll_def addr_ok_def)
  obtain t' h' rs' where r: "timer_del_node h (Some t) 0 (list_elem p) = Some (Some t', h')" "timer_ok h' t' (nss[i := ys @ zs]) rs'"
      "clock t' = clock t" "pending (nss[i := ys @ zs]) = pending nss - {p}" "\<forall>q. q \<noteq> p \<longrightarrow> tnode h' q = tnode h q"
    using remove_ok [OF ok i(1) s n] by blast
  have "timer_del h (Some t) (list_elem p) = Some (0, Some t', h')" using r(1) n by (simp add: timer_del_def)
  then show ?thesis using r(2-) by (intro exI [of _ t'] exI [of _ h'] exI [of _ "nss[i := ys @ zs]"] exI [of _ rs']) simp
qed

section \<open>A new timer\<close>

lemma list_init_ok:
  assumes "a \<noteq> 0"
  shows "list_init h (Some a) fill True = Some (0, h(a \<mapsto> \<lparr>prev = a, next = a, data = fill\<rparr>), Some (list_elem a))"
  using assms by (simp add: list_init_def list_node_alloc_def set_prev_def set_next_def)

lemma init_lists_ok:
  "length as = k \<Longrightarrow> tsize t + k = length (tlist t) \<Longrightarrow> \<forall>i < k. ans (tsize t + i) = Some (as ! i) \<Longrightarrow> \<forall>a \<in> set as. addr_ok a \<Longrightarrow>
   distinct as \<Longrightarrow>
   \<exists>h'. init_lists ans fill h k t = Some (0, t\<lparr>tlist := take (tsize t) (tlist t) @ map list_elem as, tsize := tsize t + k\<rparr>, h') \<and>
     (\<forall>a \<in> set as. dll h' a []) \<and> (\<forall>q. q \<notin> set as \<longrightarrow> h' q = h q)"
proof (induction k arbitrary: as h t)
  case 0
  then show ?case by simp
next
  case (Suc k)
  obtain a bs where as: "as = a # bs" using Suc.prems(1) by (cases as) auto
  have a: "addr_ok a" "a \<notin> set bs" "ans (tsize t) = Some a" using Suc.prems(3-5) as by auto
  obtain nd where nd: "list_init h (Some a) fill True = Some (0, h(a \<mapsto> nd), Some (list_elem a))" "prev nd = a" "next nd = a"
    using list_init_ok [of a h fill] a(1) by (auto simp: addr_ok_def)
  let ?t = "t\<lparr>tlist := (tlist t)[tsize t := list_elem a], tsize := tsize t + 1\<rparr>"
  have pre: "length bs = k" "tsize ?t + k = length (tlist ?t)" "\<forall>b \<in> set bs. addr_ok b" "distinct bs"
    using Suc.prems as by auto
  have an: "\<forall>i < k. ans (tsize ?t + i) = Some (bs ! i)"
  proof (intro allI impI)
    fix i assume "i < k"
    then show "ans (tsize ?t + i) = Some (bs ! i)" using Suc.prems(3) [rule_format, of "Suc i"] as by simp
  qed
  obtain h' where ih: "init_lists ans fill (h(a \<mapsto> nd)) k ?t =
        Some (0, ?t\<lparr>tlist := take (tsize ?t) (tlist ?t) @ map list_elem bs, tsize := tsize ?t + k\<rparr>, h')"
      "\<forall>b \<in> set bs. dll h' b []" "\<forall>q. q \<notin> set bs \<longrightarrow> h' q = (h(a \<mapsto> nd)) q"
    using Suc.IH [OF pre(1,2) an pre(3,4), of "h(a \<mapsto> nd)"] by blast
  have tk: "take (tsize t + 1) ((tlist t)[tsize t := list_elem a]) = take (tsize t) (tlist t) @ [list_elem a]"
    using Suc.prems(2) by (simp add: take_Suc_conv_app_nth)
  have "init_lists ans fill h (Suc k) t = Some (0, t\<lparr>tlist := take (tsize t) (tlist t) @ map list_elem as, tsize := tsize t + Suc k\<rparr>, h')"
    using nd(1) a(3) ih(1) tk as by simp
  moreover have "dll h' a []" using ih(3) a nd by (simp add: dll_def nxt_def prv_def)
  ultimately show ?case using ih(2,3) as by (intro exI [of _ h']) auto
qed

lemma timer_init_ok:
  assumes a: "\<forall>i < 5. ans i = Some (as ! i)" "length as = 5" "distinct as" "\<forall>a \<in> set as. addr_ok a"
    and n: "now < 2 ^ 63"
  shows "\<exists>t' h'. timer_init mal raw ans fill h (Some t) now = Some (0, Some t', h') \<and> timer_ok h' t' (replicate 5 []) [] \<and>
    clock t' = now div 1000 \<and> heads t' = as \<and> (\<forall>q. q \<notin> set as \<longrightarrow> h' q = h q)"
proof -
  obtain c0 rp where ri: "ring_init mal raw (Some None) 1024 8 = (c0, rp)" by fastforce
  obtain c1 rg where rg: "ring_set_type (if c0 \<noteq> 0 then None else Option.bind rp (\<lambda>r. r)) RING_SP_SC = (c1, rg)" by fastforce
  let ?t = "\<lparr>clock = 0, hand = replicate 5 0, tsize = 0, tlist = replicate 5 0, num = 0, ring = rg\<rparr>"
  obtain h' where h': "init_lists ans fill h 5 ?t = Some (0, ?t\<lparr>tlist := map list_elem as, tsize := 5\<rparr>, h')"
      "\<forall>a \<in> set as. dll h' a []" "\<forall>q. q \<notin> set as \<longrightarrow> h' q = h q"
    using init_lists_ok [of as 5 ?t ans fill h] a by auto
  let ?u = "?t\<lparr>tlist := map list_elem as, tsize := 5, clock := now div 1000\<rparr>"
  have "0 < limit ! j" if "j < 5" for j
  proof -
    have "j = 0 \<or> j = 1 \<or> j = 2 \<or> j = 3 \<or> j = 4" using that by arith
    then show ?thesis by (auto simp: limit_def)
  qed
  then have hands: "hands_ok (replicate 5 0)" by (simp add: hands_ok_def)
  have clk: "now div 1000 < 2 ^ 63" using n by linarith
  have "spare h' rg []"
  proof (cases "mal (24 + 8 * 1024)")
    case True
    obtain r where r: "ring_init mal raw (Some None) 1024 8 = (0, Some (Some r))" "ring_inv r" "ring_list r = []" "unit_size r = 8"
      using ring_init_ok [of 1024 8 mal raw None] True by auto
    then show ?thesis using ri rg
      by (auto simp: spare_def ring_set_type_def ring_inv_def ring_shape_def ring_count_def ring_list_def ring_elem_ok_def fun_eq_iff)
  next
    case False
    then have "c0 \<noteq> 0" using ri by (auto simp: ring_init_def)
    then show ?thesis using rg by (auto simp: spare_def ring_set_type_def)
  qed
  moreover have "fam h' as (replicate 5 [])"
    using h'(2) a(2,3) by (auto simp: fam_def distinct_conv_nth)
  moreover have "map list_node (map list_elem as) = as" by (simp add: map_idI)
  ultimately have "timer_ok h' ?u (replicate 5 []) []"
    using a(2) hands clk by (simp add: timer_ok_def lists_ok_def wheel_def in_order_def pending_def)
  moreover have "timer_init mal raw ans fill h (Some t) now = Some (0, Some ?u, h')"
    using h'(1) ri rg by (simp add: timer_init_def MAX_TIMER_LEVEL_def cong: if_cong)
  ultimately show ?thesis using h'(3) by (intro exI [of _ ?u] exI [of _ h']) (simp add: map_idI)
qed

section \<open>Timers as a map\<close>

text \<open>What the caller sees: the timers that are set, by their node, and what a call of \<open>timer_loop\<close> does to them.\<close>

definition timers :: "heap \<Rightarrow> u8 list list \<Rightarrow> u8 \<Rightarrow> lisk_timer_node_t option" where
  "timers h nss p = (if p \<in> pending nss then Some (tnode h p) else None)"

definition due :: "(u8 \<Rightarrow> lisk_timer_node_t option) \<Rightarrow> nat \<Rightarrow> u8 \<Rightarrow> bool" where
  "due m clk p \<longleftrightarrow> (case m p of None \<Rightarrow> False | Some n \<Rightarrow> trig n \<le> clk)"

definition spec_loop :: "(u8 \<Rightarrow> u8 \<Rightarrow> u8 \<Rightarrow> n4) \<Rightarrow> nat \<Rightarrow> (u8 \<Rightarrow> lisk_timer_node_t option) \<Rightarrow> u8 \<Rightarrow> lisk_timer_node_t option" where
  "spec_loop cb clk m p =
     (case m p of
        None \<Rightarrow> None
      | Some n \<Rightarrow>
          if clk < trig n then Some n
          else if cb (run n) (list_elem p) (arg n) = -3 \<or> ntype n = ETIMER_ONCE then None
          else Some (n\<lparr>trig := clk + expire n\<rparr>))"

lemma timers_upd: "pending nss' = insert p (pending nss) \<Longrightarrow> \<forall>q \<in> pending nss. q \<noteq> p \<longrightarrow> tnode h' q = tnode h q \<Longrightarrow>
    timers h' nss' = (timers h nss)(p \<mapsto> tnode h' p)"
  by (auto simp: timers_def fun_eq_iff)

lemma timers_del: "pending nss' = pending nss - {p} \<Longrightarrow> \<forall>q \<in> pending nss'. tnode h' q = tnode h q \<Longrightarrow>
    timers h' nss' = (timers h nss)(p := None)"
  by (auto simp: timers_def fun_eq_iff)

lemma timer_loop_map:
  assumes ok: "timer_ok h t nss rs" and c: "0 < clock t" "clock t + 10 \<le> now div 1000" "now div 1000 - clock t < 2 ^ 32" "now < 2 ^ 63"
  shows "\<exists>t' h' nss' rs' ds. timer_loop cb h (Some t) now = Some (0, Some t', h', map list_elem ds) \<and> timer_ok h' t' nss' rs' \<and>
    clock t' = now div 1000 \<and> distinct ds \<and> (\<forall>p. p \<in> set ds \<longleftrightarrow> due (timers h nss) (now div 1000) p) \<and>
    sorted (map (\<lambda>p. trig (the (timers h nss p))) ds) \<and> timers h' nss' = spec_loop cb (now div 1000) (timers h nss) \<and>
    (\<forall>p. \<not> due (timers h' nss') (now div 1000) p)"
proof -
  let ?c = "now div 1000"
  obtain t' h' nss' rs' ds where r: "timer_loop cb h (Some t) now = Some (0, Some t', h', map list_elem ds)" "timer_ok h' t' nss' rs'"
      "clock t' = ?c" "distinct ds" "sorted (map (\<lambda>d. trig (tnode h d)) ds)" "set ds = {p \<in> pending nss. trig (tnode h p) \<le> ?c}"
      "pending nss' = pending nss - {d \<in> set ds. gone cb h d}"
      "\<forall>q \<in> pending nss'. tnode h' q = (if q \<in> set ds then (tnode h q)\<lparr>trig := ?c + expire (tnode h q)\<rparr> else tnode h q) \<and> ?c < trig (tnode h' q)"
    using timer_loop_ok [OF ok c, of cb] by blast
  have d: "p \<in> set ds \<longleftrightarrow> due (timers h nss) ?c p" for p unfolding r(6) by (simp add: due_def timers_def)
  have m: "map (\<lambda>p. trig (the (timers h nss p))) ds = map (\<lambda>d. trig (tnode h d)) ds" using r(6) by (simp add: timers_def)
  have so: "sorted (map (\<lambda>p. trig (the (timers h nss p))) ds)" unfolding m by (rule r(5))
  have "timers h' nss' p = spec_loop cb ?c (timers h nss) p" for p
    using r(6-8) by (cases "p \<in> pending nss") (auto simp: timers_def spec_loop_def gone_def)
  then have "timers h' nss' = spec_loop cb ?c (timers h nss)" by blast
  moreover have "\<not> due (timers h' nss') ?c p" for p using r(8) by (auto simp: due_def timers_def)
  ultimately show ?thesis using r(1-4) d so by blast
qed

lemma timer_add_map:
  assumes ok: "timer_ok h t nss rs" and k: "MIN_EXPIRE \<le> kexpire k" "kexpire k \<le> MAX_EXPIRE" "kfunc k \<noteq> 0" "ktype k < 2 ^ 32"
    and fr: "fp \<noteq> 0" "list_node fp \<notin> dom h" "hw \<noteq> (PREV_MAGIC, NEXT_MAGIC)" and a: "a \<notin> dom h" "addr_ok a"
  shows "\<exists>p t' h' nss' rs'. timer_add h (Some a) (fp, hw) (Some t) (Some k) = Some (0, Some t', h', Some (list_elem p)) \<and>
    timer_ok h' t' nss' rs' \<and> clock t' = clock t \<and> timers h nss p = None \<and> timers h' nss' = (timers h nss)(p \<mapsto> key_node t k)"
proof -
  obtain p t' h' nss' rs' where r: "timer_add h (Some a) (fp, hw) (Some t) (Some k) = Some (0, Some t', h', Some (list_elem p))"
      "timer_ok h' t' nss' rs'" "clock t' = clock t" "p \<notin> pending nss" "pending nss' = insert p (pending nss)"
      "tnode h' p = key_node t k" "\<forall>q \<in> pending nss. tnode h' q = tnode h q"
    using timer_add_ok [OF ok k fr a] by blast
  have "timers h' nss' = (timers h nss)(p \<mapsto> key_node t k)" using timers_upd [OF r(5), of h' h] r(6,7) by simp
  moreover have "timers h nss p = None" using r(4) by (simp add: timers_def)
  ultimately show ?thesis using r(1-3) by blast
qed

lemma timer_del_map:
  assumes ok: "timer_ok h t nss rs" and p: "timers h nss p \<noteq> None"
  shows "\<exists>t' h' nss' rs'. timer_del h (Some t) (list_elem p) = Some (0, Some t', h') \<and> timer_ok h' t' nss' rs' \<and> clock t' = clock t \<and>
    timers h' nss' = (timers h nss)(p := None)"
proof -
  have "p \<in> pending nss" using p by (auto simp: timers_def split: if_splits)
  then obtain t' h' nss' rs' where r: "timer_del h (Some t) (list_elem p) = Some (0, Some t', h')" "timer_ok h' t' nss' rs'" "clock t' = clock t"
      "pending nss' = pending nss - {p}" "\<forall>q \<in> pending nss'. tnode h' q = tnode h q"
    using timer_del_ok [OF ok] by blast
  then show ?thesis using timers_del [OF r(4,5)] by blast
qed

lemma timer_loop_idle:
  assumes ok: "timer_ok h t nss rs" and c: "0 < clock t" "clock t \<le> now div 1000" "now div 1000 < clock t + 10"
  shows "timer_loop cb h (Some t) now = Some (0, Some t, h, [])"
proof -
  have "(now div 1000 - clock t) mod 2 ^ 32 < 10" "\<not> now div 1000 < clock t" using c by auto
  then show ?thesis using c(1) timer_okD(1) [OF ok] by (simp add: timer_loop_def timer_update_def Let_def MINIMUM_DIFF_def)
qed

text \<open>
  A history of calls, newest first, and the states the code reaches by it. The guards are what the caller owes: a new node lies at a
  fresh address, only timers that are set are deleted, and the clock does not step back. The two words before the local
  variable of \<open>timer_add\<close> do not look like an erased node.
\<close>

datatype timer_event = TAdd u8 lisk_timer_node_t | TDel u8 | TLoop nat "u8 list"

fun spec_timers :: "(u8 \<Rightarrow> u8 \<Rightarrow> u8 \<Rightarrow> n4) \<Rightarrow> timer_event list \<Rightarrow> u8 \<Rightarrow> lisk_timer_node_t option" where
  "spec_timers cb [] = Map.empty"
| "spec_timers cb (TAdd p n # evs) = (spec_timers cb evs)(p \<mapsto> n)"
| "spec_timers cb (TDel p # evs) = (spec_timers cb evs)(p := None)"
| "spec_timers cb (TLoop clk called # evs) = spec_loop cb clk (spec_timers cb evs)"

text \<open>Each recorded event is one the specification allows: the calls of a loop are those that were due, once each and in order.\<close>

fun spec_allows :: "(u8 \<Rightarrow> u8 \<Rightarrow> u8 \<Rightarrow> n4) \<Rightarrow> timer_event list \<Rightarrow> bool" where
  "spec_allows cb [] \<longleftrightarrow> True"
| "spec_allows cb (TAdd p n # evs) \<longleftrightarrow> spec_timers cb evs p = None \<and> spec_allows cb evs"
| "spec_allows cb (TDel p # evs) \<longleftrightarrow> spec_timers cb evs p \<noteq> None \<and> spec_allows cb evs"
| "spec_allows cb (TLoop clk called # evs) \<longleftrightarrow>
     distinct called \<and> (\<forall>p. p \<in> set called \<longleftrightarrow> due (spec_timers cb evs) clk p) \<and>
     sorted (map (\<lambda>p. trig (the (spec_timers cb evs p))) called) \<and> spec_allows cb evs"

inductive timer_run :: "(u8 \<Rightarrow> u8 \<Rightarrow> u8 \<Rightarrow> n4) \<Rightarrow> timer_event list \<Rightarrow> heap \<Rightarrow> lisk_timer_t \<Rightarrow> bool" for cb where
  init: "timer_init mal raw ans fill h0 (Some t0) now = Some (0, Some t, h) \<Longrightarrow> 1000 \<le> now \<Longrightarrow> now < 2 ^ 63 \<Longrightarrow>
    \<forall>i < 5. \<exists>a. ans i = Some a \<and> addr_ok a \<Longrightarrow> distinct (map ans [0..<5]) \<Longrightarrow> timer_run cb [] h t"
| add: "timer_run cb evs h t \<Longrightarrow> timer_add h (Some a) (fp, hw) (Some t) (Some k) = Some (0, Some t', h', Some (list_elem p)) \<Longrightarrow>
    ktype k < 2 ^ 32 \<Longrightarrow> a \<notin> dom h \<Longrightarrow> addr_ok a \<Longrightarrow> fp \<noteq> 0 \<Longrightarrow> list_node fp \<notin> dom h \<Longrightarrow> hw \<noteq> (PREV_MAGIC, NEXT_MAGIC) \<Longrightarrow>
    timer_run cb (TAdd p (key_node t k) # evs) h' t'"
| del: "timer_run cb evs h t \<Longrightarrow> spec_timers cb evs p \<noteq> None \<Longrightarrow> timer_del h (Some t) (list_elem p) = Some (0, Some t', h') \<Longrightarrow>
    timer_run cb (TDel p # evs) h' t'"
| loop: "timer_run cb evs h t \<Longrightarrow> clock t \<le> now div 1000 \<Longrightarrow> now div 1000 - clock t < 2 ^ 32 \<Longrightarrow> now < 2 ^ 63 \<Longrightarrow>
    timer_loop cb h (Some t) now = Some (0, Some t', h', map list_elem ds) \<Longrightarrow> timer_run cb (TLoop (clock t') ds # evs) h' t'"

text \<open>The invariant of the runs: the heap represents the map of the specification, and nothing is due at the clock of the timer.\<close>

definition timer_rep :: "(u8 \<Rightarrow> u8 \<Rightarrow> u8 \<Rightarrow> n4) \<Rightarrow> timer_event list \<Rightarrow> heap \<Rightarrow> lisk_timer_t \<Rightarrow> bool" where
  "timer_rep cb evs h t \<longleftrightarrow> (\<exists>nss rs. timer_ok h t nss rs \<and> 0 < clock t \<and> timers h nss = spec_timers cb evs \<and>
     (\<forall>p. \<not> due (spec_timers cb evs) (clock t) p))"

lemma spec_loop_idle: "\<forall>p. \<not> due m clk p \<Longrightarrow> spec_loop cb clk m = m"
  by (fastforce simp: due_def spec_loop_def split: option.splits)

lemma timer_rep_init:
  assumes "timer_init mal raw ans fill h0 (Some t0) now = Some (0, Some t, h)" "1000 \<le> now" "now < 2 ^ 63"
    "\<forall>i < 5. \<exists>a. ans i = Some a \<and> addr_ok a" "distinct (map ans [0..<5])"
  shows "timer_rep cb [] h t"
proof -
  define as where "as = map (\<lambda>i. the (ans i)) [0..<5]"
  have a: "\<forall>i < 5. ans i = Some (as ! i)" "length as = 5" "\<forall>a \<in> set as. addr_ok a" using assms(4) by (auto simp: as_def)
  have "map Some as = map ans [0..<5]" using assms(4) by (auto simp: as_def)
  then have d: "distinct as" using assms(5) by (metis distinct_map)
  have "timer_ok h t (replicate 5 []) []" "clock t = now div 1000"
    using timer_init_ok [OF a(1,2) d a(3) assms(3), of mal raw fill h0 t0] assms(1) by auto
  moreover have "timers h (replicate 5 []) = Map.empty" by (simp add: timers_def pending_def fun_eq_iff)
  ultimately show ?thesis using assms(2) unfolding timer_rep_def
    by (intro exI [of _ "replicate 5 []"] exI [of _ "[]"]) (simp add: due_def)
qed

lemma timer_rep_add:
  assumes rep: "timer_rep cb evs h t" and add: "timer_add h (Some a) (fp, hw) (Some t) (Some k) = Some (0, Some t', h', Some (list_elem p))"
    and g: "ktype k < 2 ^ 32" "fp \<noteq> 0" "list_node fp \<notin> dom h" "hw \<noteq> (PREV_MAGIC, NEXT_MAGIC)" "a \<notin> dom h" "addr_ok a"
  shows "timer_rep cb (TAdd p (key_node t k) # evs) h' t' \<and> spec_timers cb evs p = None"
proof -
  obtain nss rs where r: "timer_ok h t nss rs" "0 < clock t" "timers h nss = spec_timers cb evs" "\<forall>p. \<not> due (spec_timers cb evs) (clock t) p"
    using rep by (auto simp: timer_rep_def)
  have k: "MIN_EXPIRE \<le> kexpire k" "kexpire k \<le> MAX_EXPIRE" "kfunc k \<noteq> 0" using add by (auto simp: timer_add_def split: if_splits)
  obtain p' t1 h1 nss' rs' where s: "timer_add h (Some a) (fp, hw) (Some t) (Some k) = Some (0, Some t1, h1, Some (list_elem p'))"
      "timer_ok h1 t1 nss' rs'" "clock t1 = clock t" "timers h nss p' = None" "timers h1 nss' = (timers h nss)(p' \<mapsto> key_node t k)"
    using timer_add_map [OF r(1) k g] by blast
  have e: "t1 = t'" "h1 = h'" "p' = p" using s(1) add by auto
  have "\<not> due ((spec_timers cb evs)(p \<mapsto> key_node t k)) (clock t) q" for q
    using r(4) k(1) by (simp add: due_def MIN_EXPIRE_def)
  then show ?thesis using s(2-) r(2,3) unfolding e timer_rep_def by auto
qed

lemma timer_rep_del:
  assumes rep: "timer_rep cb evs h t" and del: "timer_del h (Some t) (list_elem p) = Some (0, Some t', h')" and p: "spec_timers cb evs p \<noteq> None"
  shows "timer_rep cb (TDel p # evs) h' t'"
proof -
  obtain nss rs where r: "timer_ok h t nss rs" "0 < clock t" "timers h nss = spec_timers cb evs" "\<forall>p. \<not> due (spec_timers cb evs) (clock t) p"
    using rep by (auto simp: timer_rep_def)
  have p': "timers h nss p \<noteq> None" using p r(3) by simp
  obtain t1 h1 nss' rs' where s: "timer_del h (Some t) (list_elem p) = Some (0, Some t1, h1)" "timer_ok h1 t1 nss' rs'" "clock t1 = clock t"
      "timers h1 nss' = (timers h nss)(p := None)"
    using timer_del_map [OF r(1) p'] by blast
  have e: "t1 = t'" "h1 = h'" using s(1) del by auto
  show ?thesis using s(2-) r unfolding e timer_rep_def by (auto simp: due_def)
qed

lemma timer_rep_loop:
  assumes rep: "timer_rep cb evs h t" and c: "clock t \<le> now div 1000" "now div 1000 - clock t < 2 ^ 32" "now < 2 ^ 63"
    and loop: "timer_loop cb h (Some t) now = Some (0, Some t', h', map list_elem ds)"
  shows "timer_rep cb (TLoop (clock t') ds # evs) h' t' \<and> distinct ds \<and> (\<forall>p. p \<in> set ds \<longleftrightarrow> due (spec_timers cb evs) (clock t') p) \<and>
    sorted (map (\<lambda>p. trig (the (spec_timers cb evs p))) ds)"
proof -
  obtain nss rs where r: "timer_ok h t nss rs" "0 < clock t" "timers h nss = spec_timers cb evs" "\<forall>p. \<not> due (spec_timers cb evs) (clock t) p"
    using rep by (auto simp: timer_rep_def)
  show ?thesis
  proof (cases "clock t + 10 \<le> now div 1000")
    case False
    then have e: "t' = t" "h' = h" "ds = []" using timer_loop_idle [OF r(1,2) c(1), of cb] loop by auto
    have "spec_timers cb (TLoop (clock t) [] # evs) = spec_timers cb evs" using spec_loop_idle [OF r(4)] by simp
    then show ?thesis using r rep unfolding e timer_rep_def by simp
  next
    case True
    obtain t1 h1 nss' rs' ds' where s: "timer_loop cb h (Some t) now = Some (0, Some t1, h1, map list_elem ds')" "timer_ok h1 t1 nss' rs'"
        "clock t1 = now div 1000" "distinct ds'" "\<forall>p. p \<in> set ds' \<longleftrightarrow> due (timers h nss) (now div 1000) p"
        "sorted (map (\<lambda>p. trig (the (timers h nss p))) ds')" "timers h1 nss' = spec_loop cb (now div 1000) (timers h nss)"
        "\<forall>p. \<not> due (timers h1 nss') (now div 1000) p"
      using timer_loop_map [OF r(1,2) True c(2,3), of cb] by blast
    have "inj list_elem" by (auto intro: injI)
    then have e: "t1 = t'" "h1 = h'" "ds' = ds" using s(1) loop by (auto simp: inj_map_eq_map)
    have "0 < clock t'" using True s(3) e by simp
    then show ?thesis using s(2-) r(3) unfolding e timer_rep_def by auto
  qed
qed

text \<open>A timer to try the properties on: its lists lie at 4096, 8192, ..., its clock stands at 1000 ms.\<close>

lemma timer_start:
  "\<exists>h t. timer_init (\<lambda>_. True) (\<lambda>_. 0) (\<lambda>i. Some (of_nat (4096 * (i + 1)))) [] Map.empty
       (Some \<lparr>clock = 0, hand = [], tsize = 0, tlist = [], num = 0, ring = None\<rparr>) 1000000 = Some (0, Some t, h) \<and>
     timer_ok h t (replicate 5 []) [] \<and> clock t = 1000 \<and> 65536 \<notin> dom h \<and> list_node 131072 \<notin> dom h"
proof -
  let ?as = "[4096, 8192, 12288, 16384, 20480] :: u8 list" and ?ans = "\<lambda>i. Some (of_nat (4096 * (i + 1))) :: u8 option"
  have "?ans i = Some (?as ! i)" if "i < 5" for i :: nat
  proof -
    have "i = 0 \<or> i = 1 \<or> i = 2 \<or> i = 3 \<or> i = 4" using that by arith
    then show ?thesis by auto
  qed
  then have ans: "\<forall>i < 5. ?ans i = Some (?as ! i)" by blast
  obtain t h where "timer_init (\<lambda>_. True) (\<lambda>_. 0) ?ans [] Map.empty
       (Some \<lparr>clock = 0, hand = [], tsize = 0, tlist = [], num = 0, ring = None\<rparr>) 1000000 = Some (0, Some t, h)"
      "timer_ok h t (replicate 5 []) []" "clock t = 1000000 div 1000" "\<forall>q. q \<notin> set ?as \<longrightarrow> h q = None"
    using timer_init_ok [OF ans, of 1000000 "\<lambda>_. True" "\<lambda>_. 0" "[]" Map.empty
        "\<lparr>clock = 0, hand = [], tsize = 0, tlist = [], num = 0, ring = None\<rparr>"] by (auto simp: addr_ok_def list_elem_def)
  then show ?thesis by (intro exI [of _ h] exI [of _ t]) (auto simp: dom_def list_node_def)
qed

definition sample_key :: timer_key_t where
  "sample_key = \<lparr>ktype = ETIMER_ONCE, kexpire = 90000, karg = 7, kfunc = 9\<rparr>"

lemma sample_key_ok: "MIN_EXPIRE \<le> kexpire sample_key" "kexpire sample_key \<le> MAX_EXPIRE" "kfunc sample_key \<noteq> 0" "ktype sample_key < 2 ^ 32"
  by (simp_all add: sample_key_def MIN_EXPIRE_def MAX_EXPIRE_def ETIMER_ONCE_def)

lemma sample_frame: "(131072 :: u8) \<noteq> 0" "(0, 0) \<noteq> (PREV_MAGIC, NEXT_MAGIC)" "addr_ok 65536"
  by (simp_all add: addr_ok_def list_elem_def)

lemma timer_sample:
  "\<exists>h t p h1 t1 nss1 rs1. timer_run cb [] h t \<and> 65536 \<notin> dom h \<and> list_node 131072 \<notin> dom h \<and> clock t = 1000 \<and> clock t1 = 1000 \<and>
     timer_add h (Some 65536) (131072, 0, 0) (Some t) (Some sample_key) = Some (0, Some t1, h1, Some (list_elem p)) \<and>
     timer_ok h1 t1 nss1 rs1 \<and> timers h1 nss1 = [p \<mapsto> key_node t sample_key]"
proof -
  let ?ans = "\<lambda>i. Some (of_nat (4096 * (i + 1))) :: u8 option"
  obtain h t where i: "timer_init (\<lambda>_. True) (\<lambda>_. 0) ?ans [] Map.empty
       (Some \<lparr>clock = 0, hand = [], tsize = 0, tlist = [], num = 0, ring = None\<rparr>) 1000000 = Some (0, Some t, h)"
      "timer_ok h t (replicate 5 []) []" "clock t = 1000" "65536 \<notin> dom h" "list_node 131072 \<notin> dom h"
    using timer_start by blast
  have "\<exists>a. ?ans i = Some a \<and> addr_ok a" if "i < 5" for i :: nat
  proof -
    have "i = 0 \<or> i = 1 \<or> i = 2 \<or> i = 3 \<or> i = 4" using that by arith
    then show ?thesis by (auto simp: addr_ok_def list_elem_def)
  qed
  then have run: "timer_run cb [] h t" using i(1) by (intro timer_run.init) (auto simp: upt_rec)
  obtain p t1 h1 nss1 rs1 where r: "timer_add h (Some 65536) (131072, 0, 0) (Some t) (Some sample_key) = Some (0, Some t1, h1, Some (list_elem p))"
      "timer_ok h1 t1 nss1 rs1" "clock t1 = clock t" "timers h1 nss1 = (timers h (replicate 5 []))(p \<mapsto> key_node t sample_key)"
    using timer_add_map [OF i(2) sample_key_ok sample_frame(1) i(5) sample_frame(2) i(4) sample_frame(3)] by blast
  have "timers h (replicate 5 []) = Map.empty" by (simp add: timers_def pending_def fun_eq_iff)
  then have "timers h1 nss1 = [p \<mapsto> key_node t sample_key]" "clock t1 = 1000" using r(3,4) i(3) by simp_all
  then show ?thesis using i(3-5) run r(1,2) by blast
qed

lemma distinct_single: "set xs = {p} \<Longrightarrow> distinct xs \<Longrightarrow> xs = [p]"
  by (cases xs; cases "tl xs") auto

lemma sample_loop:
  assumes ok: "timer_ok h t nss rs" and m: "timers h nss = [p \<mapsto> n]" "trig n \<le> now div 1000"
    and c: "0 < clock t" "clock t + 10 \<le> now div 1000" "now div 1000 - clock t < 2 ^ 32" "now < 2 ^ 63"
  shows "\<exists>t' h'. timer_loop cb h (Some t) now = Some (0, Some t', h', map list_elem [p]) \<and> clock t' = now div 1000"
proof -
  obtain t' h' ds where r: "timer_loop cb h (Some t) now = Some (0, Some t', h', map list_elem ds)" "clock t' = now div 1000" "distinct ds"
      "\<forall>q. q \<in> set ds \<longleftrightarrow> due (timers h nss) (now div 1000) q"
    using timer_loop_map [OF ok c, of cb] by blast
  have "set ds = {p}" using r(4) m by (auto simp: due_def split: if_splits)
  then have "ds = [p]" using r(3) by (rule distinct_single)
  then show ?thesis using r(1,2) by blast
qed

lemma sample_clock:
  assumes "clock t = 1000"
  shows "0 < clock t" "clock t + 10 \<le> 100000000 div 1000" "100000000 div 1000 - clock t < 2 ^ 32" "(100000000 :: nat) < 2 ^ 63"
    "(100000000 :: nat) div 1000 = 100000" "trig (key_node t sample_key) \<le> 100000000 div 1000"
  using assms by (simp_all add: sample_key_def)

text \<open>
  C9. Any history of calls that the caller may make (a timer that is initialised once, timers added at fresh nodes, timers that are
  set deleted, the clock read again and again) refines a map from timers to their data: the lists, the wheel and the ring of spare
  nodes represent at every moment exactly the timers that were added and neither deleted nor ended, and each call of \<open>timer_loop\<close> ran
  precisely the timers that were due at its clock, each once, in the order of their times.
\<close>

theorem timer_run_refines:
  "timer_run cb evs h t \<Longrightarrow> spec_allows cb evs \<and> (\<exists>nss rs. timer_ok h t nss rs \<and> timers h nss = spec_timers cb evs)"
proof -
  assume "timer_run cb evs h t"
  then have "timer_rep cb evs h t \<and> spec_allows cb evs"
  proof (induction rule: timer_run.induct)
    case (init mal raw ans fill h0 t0 now t h)
    then show ?case using timer_rep_init by simp
  next
    case (add evs h t a fp hw k t' h' p)
    then show ?case using timer_rep_add [of cb evs h t a fp hw k t' h' p] by simp
  next
    case (del evs h t p t' h')
    then show ?case using timer_rep_del [of cb evs h t p t' h'] by simp
  next
    case (loop evs h t now t' h' ds)
    then show ?case using timer_rep_loop [of cb evs h t now t' h' ds] by simp
  qed
  then show ?thesis by (auto simp: timer_rep_def)
qed

theorem timer_run_refines_witness:
  "\<exists>evs h t p n. timer_run (\<lambda>_ _ _. 0) evs h t \<and> evs = [TLoop 100000 [p], TAdd p n] \<and> spec_allows (\<lambda>_ _ _. 0) evs"
proof -
  let ?cb = "\<lambda>_ _ _. 0 :: n4"
  obtain h t p h1 t1 nss1 rs1 where s: "timer_run ?cb [] h t" "65536 \<notin> dom h" "list_node 131072 \<notin> dom h" "clock t = 1000" "clock t1 = 1000"
      "timer_add h (Some 65536) (131072, 0, 0) (Some t) (Some sample_key) = Some (0, Some t1, h1, Some (list_elem p))"
      "timer_ok h1 t1 nss1 rs1" "timers h1 nss1 = [p \<mapsto> key_node t sample_key]"
    using timer_sample [of ?cb] by blast
  have run1: "timer_run ?cb [TAdd p (key_node t sample_key)] h1 t1"
    by (rule timer_run.add [OF s(1,6) sample_key_ok(4) s(2) sample_frame(3,1) s(3) sample_frame(2)])
  obtain t' h' where l: "timer_loop ?cb h1 (Some t1) 100000000 = Some (0, Some t', h', map list_elem [p])" "clock t' = 100000"
    using sample_loop [OF s(7,8) sample_clock(6) [OF s(4)] sample_clock(1-4) [OF s(5)], of ?cb] unfolding sample_clock(5) [OF s(4)] by blast
  have "timer_run ?cb [TLoop (clock t') [p], TAdd p (key_node t sample_key)] h' t'"
    by (rule timer_run.loop [OF run1 _ _ _ l(1)]) (use s(5) in auto)
  then have run: "timer_run ?cb [TLoop 100000 [p], TAdd p (key_node t sample_key)] h' t'" unfolding l(2) .
  then show ?thesis using timer_run_refines [OF run] by blast
qed

text \<open>
  C12. \<open>timer_loop\<close> returns on every call whose clock did not step back (and went forward by less than 2^32 milliseconds). A call
  less than 10 milliseconds (\<open>MINIMUM_DIFF\<close>) after the clock of the timer does nothing at all, even when a timer has become due
  in that time. Every later call takes over the new clock and runs every timer that is due and no other, each once and in the order
  of the trigger times, however far the clock went forward. A timer whose callback answers -3 or that is to run once is gone
  afterwards, another one is set again its period after the new clock, the rest is untouched, and nothing that is due is left.
  The callbacks are a function of the timer's data; they do not call the timer again.
\<close>

theorem timer_loop_spec:
  assumes ok: "timer_ok h t nss rs" and c: "0 < clock t" "clock t \<le> now div 1000" "now div 1000 - clock t < 2 ^ 32" "now < 2 ^ 63"
  shows "if now div 1000 < clock t + 10 then timer_loop cb h (Some t) now = Some (0, Some t, h, [])
    else \<exists>t' h' nss' rs' ds. timer_loop cb h (Some t) now = Some (0, Some t', h', map list_elem ds) \<and> timer_ok h' t' nss' rs' \<and>
      clock t' = now div 1000 \<and> distinct ds \<and> (\<forall>p. p \<in> set ds \<longleftrightarrow> due (timers h nss) (now div 1000) p) \<and>
      sorted (map (\<lambda>p. trig (the (timers h nss p))) ds) \<and> timers h' nss' = spec_loop cb (now div 1000) (timers h nss) \<and>
      (\<forall>p. \<not> due (timers h' nss') (now div 1000) p)"
proof (cases "now div 1000 < clock t + 10")
  case True
  then show ?thesis using timer_loop_idle [OF ok c(1,2)] by simp
next
  case False
  then have "clock t + 10 \<le> now div 1000" by simp
  from timer_loop_map [OF ok c(1) this c(3,4), of cb] show ?thesis using False by (simp only: if_False)
qed

theorem timer_loop_spec_witness:
  "\<exists>h t nss rs p t' h' nss'. timer_ok h t nss rs \<and> timers h nss p \<noteq> None \<and>
     timer_loop (\<lambda>_ _ _. 0) h (Some t) 1009000 = Some (0, Some t, h, []) \<and>
     timer_loop (\<lambda>_ _ _. 0) h (Some t) 100000000 = Some (0, Some t', h', [list_elem p]) \<and> timers h' nss' p = None"
proof -
  let ?cb = "\<lambda>_ _ _. 0 :: n4"
  obtain t p h1 t1 nss1 rs1 where s: "clock t = 1000" "clock t1 = 1000" "timer_ok h1 t1 nss1 rs1" "timers h1 nss1 = [p \<mapsto> key_node t sample_key]"
    using timer_sample [of ?cb] by blast
  obtain t' h' where l: "timer_loop ?cb h1 (Some t1) 100000000 = Some (0, Some t', h', map list_elem [p])"
    using sample_loop [OF s(3,4) sample_clock(6) [OF s(1)] sample_clock(1-4) [OF s(2)], of ?cb] by blast
  obtain nss' where "timers h' nss' = spec_loop ?cb 100000 (timers h1 nss1)"
    using timer_loop_spec [OF s(3), of 100000000 ?cb] s(2) l by auto
  moreover have "timer_loop ?cb h1 (Some t1) 1009000 = Some (0, Some t1, h1, [])"
    using timer_loop_spec [OF s(3), of 1009000 ?cb] s(2) by simp
  moreover have "timers h' nss' p = None" if "timers h' nss' = spec_loop ?cb 100000 (timers h1 nss1)"
    using that s(1,4) by (simp add: spec_loop_def sample_key_def)
  moreover have "timers h1 nss1 p \<noteq> None" using s(4) by simp
  moreover have "timer_loop ?cb h1 (Some t1) 100000000 = Some (0, Some t', h', [list_elem p])" using l by simp
  ultimately show ?thesis using s(3) by blast
qed

text \<open>
  C34. A timer is not run early and not forgotten: after a successful \<open>timer_add\<close> the next \<open>timer_loop\<close> runs it exactly when
  its time has come and at least 10 milliseconds (\<open>MINIMUM_DIFF\<close>) lie between the two calls, also when the clock jumps over several
  units of the wheel at once. A timer of less than 10 milliseconds thus waits until 10 milliseconds have passed.
\<close>

theorem timer_add_fires:
  assumes ok: "timer_ok h t nss rs" and k: "MIN_EXPIRE \<le> kexpire k" "kexpire k \<le> MAX_EXPIRE" "kfunc k \<noteq> 0" "ktype k < 2 ^ 32"
    and fr: "fp \<noteq> 0" "list_node fp \<notin> dom h" "hw \<noteq> (PREV_MAGIC, NEXT_MAGIC)" and a: "a \<notin> dom h" "addr_ok a"
    and c: "0 < clock t" "clock t \<le> now div 1000" "now div 1000 - clock t < 2 ^ 32" "now < 2 ^ 63"
  shows "\<exists>p t1 h1 t2 h2 called. timer_add h (Some a) (fp, hw) (Some t) (Some k) = Some (0, Some t1, h1, Some p) \<and>
    timer_loop cb h1 (Some t1) now = Some (0, Some t2, h2, called) \<and>
    (p \<in> set called \<longleftrightarrow> clock t + max 10 (kexpire k) \<le> now div 1000)"
proof -
  obtain p t1 h1 nss1 rs1 where r: "timer_add h (Some a) (fp, hw) (Some t) (Some k) = Some (0, Some t1, h1, Some (list_elem p))"
      "timer_ok h1 t1 nss1 rs1" "clock t1 = clock t" "timers h1 nss1 = (timers h nss)(p \<mapsto> key_node t k)"
    using timer_add_map [OF ok k fr a] by blast
  show ?thesis
  proof (cases "now div 1000 < clock t + 10")
    case True
    then have "timer_loop cb h1 (Some t1) now = Some (0, Some t1, h1, [])" using timer_loop_idle [OF r(2)] c r(3) by simp
    then show ?thesis using r(1) True by (intro exI [of _ "list_elem p"] exI) auto
  next
    case False
    obtain t2 h2 ds where s: "timer_loop cb h1 (Some t1) now = Some (0, Some t2, h2, map list_elem ds)"
        "\<forall>p. p \<in> set ds \<longleftrightarrow> due (timers h1 nss1) (now div 1000) p"
      using timer_loop_map [OF r(2), of now cb] c r(3) False by auto
    have "list_elem p \<in> set (map list_elem ds) \<longleftrightarrow> p \<in> set ds" by auto
    then show ?thesis using r(1,4) s False by (intro exI [of _ "list_elem p"] exI) (auto simp: due_def)
  qed
qed

theorem timer_add_fires_witness:
  "\<exists>h t p t1 h1 t2 h2 called. clock t = 1000 \<and>
     timer_add h (Some 65536) (131072, 0, 0) (Some t) (Some sample_key) = Some (0, Some t1, h1, Some p) \<and>
     timer_loop (\<lambda>_ _ _. 0) h1 (Some t1) 91000000 = Some (0, Some t2, h2, called) \<and> p \<in> set called"
proof -
  obtain h t where i: "timer_ok h t (replicate 5 []) []" "clock t = 1000" "65536 \<notin> dom h" "list_node 131072 \<notin> dom h"
    using timer_start by blast
  have c: "0 < clock t" "clock t \<le> 91000000 div 1000" "91000000 div 1000 - clock t < 2 ^ 32" "(91000000 :: nat) < 2 ^ 63"
      "clock t + max 10 (kexpire sample_key) \<le> 91000000 div 1000"
    using i(2) by (simp_all add: sample_key_def)
  show ?thesis
    using timer_add_fires [OF i(1) sample_key_ok sample_frame(1) i(4) sample_frame(2) i(3) sample_frame(3) c(1-4), of "\<lambda>_ _ _. 0"] i(2) c(5)
    by blast
qed

text \<open>
  Adding a timer and deleting it by the id that \<open>timer_add\<close> gave leaves the set of timers as it was, and both calls answer 0: the
  node of the deleted timer goes to the ring, or to the allocator when the ring is full or missing.
\<close>

theorem timer_add_del:
  assumes ok: "timer_ok h t nss rs" and k: "MIN_EXPIRE \<le> kexpire k" "kexpire k \<le> MAX_EXPIRE" "kfunc k \<noteq> 0" "ktype k < 2 ^ 32"
    and fr: "fp \<noteq> 0" "list_node fp \<notin> dom h" "hw \<noteq> (PREV_MAGIC, NEXT_MAGIC)" and a: "a \<notin> dom h" "addr_ok a"
  shows "\<exists>p t1 h1 t2 h2 nss2 rs2. timer_add h (Some a) (fp, hw) (Some t) (Some k) = Some (0, Some t1, h1, Some p) \<and>
    timer_del h1 (Some t1) p = Some (0, Some t2, h2) \<and> timer_ok h2 t2 nss2 rs2 \<and> timers h2 nss2 = timers h nss"
proof -
  obtain p t1 h1 nss1 rs1 where r: "timer_add h (Some a) (fp, hw) (Some t) (Some k) = Some (0, Some t1, h1, Some (list_elem p))"
      "timer_ok h1 t1 nss1 rs1" "timers h nss p = None" "timers h1 nss1 = (timers h nss)(p \<mapsto> key_node t k)"
    using timer_add_map [OF ok k fr a] by blast
  have "timers h1 nss1 p \<noteq> None" using r(4) by simp
  then obtain t2 h2 nss2 rs2 where s: "timer_del h1 (Some t1) (list_elem p) = Some (0, Some t2, h2)" "timer_ok h2 t2 nss2 rs2"
      "timers h2 nss2 = (timers h1 nss1)(p := None)"
    using timer_del_map [OF r(2)] by blast
  have "timers h2 nss2 = timers h nss" using s(3) r(3,4) by auto
  then show ?thesis using r(1) s(1,2) by blast
qed

section \<open>Giving a timer back\<close>

lemma list_erase_spare:
  assumes "addr_ok p" "h p = Some \<lparr>prev = PREV_MAGIC, next = NEXT_MAGIC, data = bs\<rparr>"
  shows "list_erase h nil (list_elem p) ELIST_ERASE_FULL = Some (nil, h(p := None))"
  using assms by (auto simp: list_erase_def addr_ok_def list_check_magic_def elem_links_def list_elem_dealloc_def list_node_dealloc_def)

lemma drop_ring_ok:
  "spare h rg rs \<Longrightarrow> \<exists>rg' h'. drop_ring h rg = Some (rg', h') \<and> spare h' rg' [] \<and> dom h' = dom h - set rs \<and> (\<forall>q. q \<notin> set rs \<longrightarrow> h' q = h q)"
proof (induction rs arbitrary: h rg)
  case Nil
  then obtain c where "c \<noteq> 0" "ring_pop rg True = Some (c, rg, None)" using spare_pop_nil by blast
  then have "drop_ring h rg = Some (rg, h)" by (subst drop_ring.simps) simp
  then show ?case using Nil by simp
next
  case (Cons r rs)
  obtain rg1 where rg1: "ring_pop rg True = Some (0, rg1, Some (le_bytes 8 (unat (list_elem r))))" "spare h rg1 rs"
    using spare_pop_cons [OF Cons.prems] by blast
  obtain bs where r: "h r = Some \<lparr>prev = PREV_MAGIC, next = NEXT_MAGIC, data = bs\<rparr>" "addr_ok r" "r \<notin> set rs"
    using Cons.prems unfolding spare_def by auto
  have "spare (h(r := None)) rg1 rs" using rg1(2) by (rule spare_cong) (use r(3) in auto)
  then obtain rg' h' where ih: "drop_ring (h(r := None)) rg1 = Some (rg', h')" "spare h' rg' []" "dom h' = dom (h(r := None)) - set rs"
      "\<forall>q. q \<notin> set rs \<longrightarrow> h' q = (h(r := None)) q"
    using Cons.IH by blast
  have "drop_ring h rg = Some (rg', h')"
    using rg1(1) list_erase_spare [of r h bs] r(1,2) ih(1) by (subst drop_ring.simps) (simp add: le_ptr)
  moreover have "dom h' = dom h - set (r # rs)" using ih(3) by auto
  ultimately show ?case using ih(2,4) by auto
qed

lemma call_loop_ok:
  "dll h a (ys @ zs) \<Longrightarrow> \<forall>p \<in> set zs. payload h p \<Longrightarrow>
   call_loop h (list_elem a) (list_elem (hd (zs @ [a]))) called = Some (called @ map list_elem zs)"
proof (induction zs arbitrary: ys called)
  case Nil
  then show ?case by (subst call_loop.simps) simp
next
  case (Cons p zs)
  have p: "list_elem p \<noteq> 0" "p \<noteq> a" using Cons.prems(1) by (auto simp: dll_def addr_ok_def)
  have nx: "list_next_elem h (list_elem p) = Some (list_elem (hd (zs @ [a])))" using list_next_ok [of h a "ys @ [p]" zs] Cons.prems(1) by simp
  have "node_at h (list_elem p) = Some (tnode h p)" using Cons.prems(2) node_at_ok by simp
  then have "call_loop h (list_elem a) (list_elem p) called = call_loop h (list_elem a) (list_elem (hd (zs @ [a]))) (called @ [list_elem p])"
    using p nx by (subst call_loop.simps) simp
  then show ?case using Cons.IH [of "ys @ [p]" "called @ [list_elem p]"] Cons.prems by simp
qed

lemma fam_Cons:
  assumes "fam h (a # as) (ns # nss)"
  shows "dll h a ns" "fam h as nss" "set (a # ns) \<inter> fam_nodes as nss = {}"
proof -
  have l: "length as = length nss" using assms by (simp add: fam_def)
  show "dll h a ns" using famD(1) [OF assms, of 0] by simp
  have s: "dll h (as ! i) (nss ! i)" if "i < length as" for i using famD(1) [OF assms, of "Suc i"] that by simp
  have d: "set (as ! i # nss ! i) \<inter> set (as ! j # nss ! j) = {}" if "i < length as" "j < length as" "i \<noteq> j" for i j
    using famD(4) [OF assms, of "Suc i" "Suc j"] that by simp
  show "fam h as nss" unfolding fam_def using l s d by blast
  have "set (a # ns) \<inter> set (as ! i # nss ! i) = {}" if "i < length as" for i
    using famD(4) [OF assms, of 0 "Suc i"] that by simp
  then show "set (a # ns) \<inter> fam_nodes as nss = {}" using l by (fastforce simp: fam_nodes_def in_set_conv_nth)
qed

lemma fam_payload:
  assumes "\<forall>ns \<in> set nss. \<forall>p \<in> set ns. payload h p" "\<And>q. q \<in> fam_nodes as nss \<Longrightarrow> h' q = h q"
  shows "\<forall>ns \<in> set nss. \<forall>p \<in> set ns. payload h' p"
proof (intro ballI)
  fix ns p assume p: "ns \<in> set nss" "p \<in> set ns"
  then have "h' p = h p" using assms(2) [of p] by (auto simp: fam_nodes_def)
  then show "payload h' p" using assms(1) p by (simp add: payload_def dat_def)
qed

lemma fam_distinct: "fam h as nss \<Longrightarrow> distinct (concat nss)"
proof (induction as arbitrary: nss)
  case (Cons a as)
  obtain ns nss1 where n: "nss = ns # nss1" using Cons.prems by (cases nss) (auto simp: fam_def)
  note F = fam_Cons [OF Cons.prems [unfolded n]]
  show ?case using Cons.IH [OF F(2)] F(1,3) unfolding n by (auto simp: dll_def fam_nodes_def)
qed (simp add: fam_def)

lemma drop_lists_ok:
  "fam h as nss \<Longrightarrow> \<forall>ns \<in> set nss. \<forall>p \<in> set ns. payload h p \<Longrightarrow>
   \<exists>h'. drop_lists h (map list_elem as) called = Some (h', called @ map list_elem (concat nss)) \<and> dom h' = dom h - fam_nodes as nss \<and>
     (\<forall>q. q \<notin> fam_nodes as nss \<longrightarrow> h' q = h q)"
proof (induction as arbitrary: h nss called)
  case Nil
  then show ?case by (simp add: fam_def fam_nodes_def)
next
  case (Cons a as)
  obtain ns nss1 where n: "nss = ns # nss1" using Cons.prems(1) by (cases nss) (auto simp: fam_def)
  note F = fam_Cons [OF Cons.prems(1) [unfolded n]]
  obtain h1 where h1: "list_uninit h (Some (list_elem a)) = Some (h1, Some nil)" "dom h1 = dom h - set (a # ns)" "\<forall>q. q \<notin> set (a # ns) \<longrightarrow> h1 q = h q"
    using list_uninit_ok [OF F(1)] by blast
  have same: "h1 q = h q" if "q \<in> fam_nodes as nss1" for q using that F(3) h1(3) by blast
  have "fam h1 as nss1" using F(2) by (rule fam_frame) (simp add: same nxt_def prv_def)
  moreover have "\<forall>ms \<in> set nss1. \<forall>p \<in> set ms. payload h1 p"
    by (rule fam_payload [of nss1 h as]) (use Cons.prems(2) n same in auto)
  ultimately obtain h' where ih: "drop_lists h1 (map list_elem as) (called @ map list_elem ns) = Some (h', (called @ map list_elem ns) @ map list_elem (concat nss1))"
      "dom h' = dom h1 - fam_nodes as nss1" "\<forall>q. q \<notin> fam_nodes as nss1 \<longrightarrow> h' q = h1 q"
    using Cons.IH by blast
  have cl: "call_loop h (list_elem a) (list_elem (hd (ns @ [a]))) called = Some (called @ map list_elem ns)"
    using call_loop_ok [of h a "[]" ns] F(1) Cons.prems(2) n by simp
  have "drop_lists h (map list_elem (a # as)) called = Some (h', called @ map list_elem (concat nss))"
    using list_start [OF F(1)] cl h1(1) ih(1) n by simp
  moreover have e: "fam_nodes (a # as) nss = set (a # ns) \<union> fam_nodes as nss1" by (auto simp: fam_nodes_def n)
  ultimately show ?case using ih(2,3) h1(2,3) by auto
qed

theorem timer_add_del_witness:
  "\<exists>h t p t1 h1 t2 h2 nss2. timer_add h (Some 65536) (131072, 0, 0) (Some t) (Some sample_key) = Some (0, Some t1, h1, Some p) \<and>
     timer_del h1 (Some t1) p = Some (0, Some t2, h2) \<and> timers h2 nss2 = Map.empty"
proof -
  obtain h t where i: "timer_ok h t (replicate 5 []) []" "clock t = 1000" "65536 \<notin> dom h" "list_node 131072 \<notin> dom h"
    using timer_start by blast
  have e: "timers h (replicate 5 []) = Map.empty" by (simp add: timers_def pending_def fun_eq_iff)
  show ?thesis using timer_add_del [OF i(1) sample_key_ok sample_frame(1) i(4) sample_frame(2) i(3) sample_frame(3)] unfolding e by blast
qed

text \<open>
  \<open>timer_uninit\<close> ends and gives back every node of the timer, those of its five lists with their headers and those that wait in
  the ring, each once and no other; every timer that is still set is called one last time, and no node is left in the ring.
\<close>

theorem timer_uninit_frees:
  assumes ok: "timer_ok h t nss rs"
  shows "\<exists>t' h' called. timer_uninit h (Some t) = Some (Some t', h', map list_elem called) \<and> spare h' (ring t') [] \<and>
    distinct called \<and> (\<forall>p. p \<in> set called \<longleftrightarrow> timers h nss p \<noteq> None) \<and>
    dom h' = dom h - fam_nodes (heads t) nss - set rs \<and> (\<forall>q. q \<notin> fam_nodes (heads t) nss \<union> set rs \<longrightarrow> h' q = h q)"
proof -
  note T = timer_okD [OF ok]
  obtain rg h1 where h1: "(if ring t \<noteq> None then drop_ring h (ring t) else Some (None, h)) = Some (rg, h1)" "dom h1 = dom h - set rs"
      "\<forall>q. q \<notin> set rs \<longrightarrow> h1 q = h q" "spare h1 rg []"
  proof (cases "ring t")
    case None
    then have "rs = []" using T(8) by (simp add: spare_def)
    then show ?thesis using that [of None h] None T(8) by simp
  next
    case (Some r)
    then show ?thesis using that drop_ring_ok [OF T(8)] by auto
  qed
  have same: "h1 q = h q" if "q \<in> fam_nodes (heads t) nss" for q using that T(9) h1(3) by blast
  have len: "length (tlist t) = 5" and fam: "fam h (heads t) nss" and pl: "\<forall>ns \<in> set nss. \<forall>p \<in> set ns. payload h p"
    using T(3) by (auto simp: lists_ok_def)
  have "fam h1 (heads t) nss" using fam by (rule fam_frame) (simp add: same nxt_def prv_def)
  moreover have "\<forall>ns \<in> set nss. \<forall>p \<in> set ns. payload h1 p" by (rule fam_payload [OF pl same])
  ultimately obtain h' where h': "drop_lists h1 (map list_elem (heads t)) [] = Some (h', [] @ map list_elem (concat nss))"
      "dom h' = dom h1 - fam_nodes (heads t) nss" "\<forall>q. q \<notin> fam_nodes (heads t) nss \<longrightarrow> h' q = h1 q"
    using drop_lists_ok by blast
  have tl: "map list_elem (heads t) = tlist t" by (simp add: map_idI)
  have un: "fst (ring_uninit (Some rg)) = Some rg" by (cases rg) (auto simp: ring_uninit_def)
  have "timer_uninit h (Some t) = Some (Some (t\<lparr>ring := rg\<rparr>), h', map list_elem (concat nss))"
    using h1(1) h'(1) T(1) len un unfolding tl by (simp add: timer_uninit_def)
  moreover have "distinct (concat nss)" by (rule fam_distinct [OF fam])
  moreover have "p \<in> set (concat nss) \<longleftrightarrow> timers h nss p \<noteq> None" for p by (auto simp: timers_def pending_def)
  moreover have "spare h' rg []" using h1(4) spare_cong [of h1 rg "[]" h'] by simp
  moreover have "dom h' = dom h - fam_nodes (heads t) nss - set rs" using h'(2) h1(2) by blast
  moreover have "\<forall>q. q \<notin> fam_nodes (heads t) nss \<union> set rs \<longrightarrow> h' q = h q" using h'(3) h1(3) by simp
  ultimately show ?thesis by (intro exI [of _ "t\<lparr>ring := rg\<rparr>"] exI [of _ h'] exI [of _ "concat nss"]) simp
qed

theorem timer_uninit_frees_witness:
  "\<exists>h t p t' h'. timer_uninit h (Some t) = Some (Some t', h', [list_elem p]) \<and> p \<in> dom h \<and> p \<notin> dom h'"
proof -
  obtain t p h1 t1 nss1 rs1 where s: "timer_ok h1 t1 nss1 rs1" "timers h1 nss1 = [p \<mapsto> key_node t sample_key]"
    using timer_sample [of "\<lambda>_ _ _. 0"] by blast
  obtain t' h' called where r: "timer_uninit h1 (Some t1) = Some (Some t', h', map list_elem called)" "distinct called"
      "\<forall>q. q \<in> set called \<longleftrightarrow> timers h1 nss1 q \<noteq> None" "dom h' = dom h1 - fam_nodes (heads t1) nss1 - set rs1"
    using timer_uninit_frees [OF s(1)] by blast
  have "set called = {p}" using r(3) s(2) by (auto split: if_splits)
  then have c: "called = [p]" using r(2) by (rule distinct_single)
  have "p \<in> pending nss1" using s(2) by (auto simp: timers_def fun_eq_iff split: if_splits)
  then have "p \<in> fam_nodes (heads t1) nss1" by (simp add: fam_nodes_pending)
  then have "p \<in> dom h1" "p \<notin> dom h'" using r(4) fam_dom [OF timer_okD(3) [OF s(1)]] by blast+
  moreover have "timer_uninit h1 (Some t1) = Some (Some t', h', [list_elem p])" using r(1) c by simp
  ultimately show ?thesis by blast
qed

end
