(* ===== verification/Lisk_Mem_Pool.thy ===== *)
theory Lisk_Mem_Pool
  imports Lisk_Prelude "HOL-Library.Monad_Syntax"
begin

text \<open>
  The memory pool of \<open>win_lisk/src/lisk_mem_pool.c\<close>: blocks from \<open>malloc\<close>, each cut into chunks with a header of two pointers. The
  lowest bit of the forward pointer tells whether a chunk is free.

  \<^item> Pointers, \<open>uw\<close> and \<open>size_t\<close> have four bytes, as in the Win32 build, so a chunk header has 8 and a block header 16.
  \<^item> The memory is a map from addresses to words of four bytes (\<open>cells\<close>), which holds the headers and the memory of the callers alike;
    the headers of the blocks (\<open>blocks\<close>) and the sizes of the requests that went to \<open>malloc\<close> directly (\<open>sys\<close>) are kept apart. An access to
    an address without a cell, to a block that was given back, or a second \<open>free\<close> is \<open>None\<close>.
  \<^item> \<open>ans\<close> is the answer of \<open>malloc\<close> and \<open>raw\<close> what fresh memory holds.
  \<^item> The difference of two pointers to chunks, in \<open>chunk_mem_size\<close> and in \<open>chunk_next(chunk) - size\<close>, counts chunk headers of 8 bytes
    and not bytes, as in C. A request therefore takes 8 times the memory it asks for.
\<close>

section \<open>State\<close>

record block_t =
  bsize :: nat
  bfree :: nat
  bnext :: u4
  bottom :: u4

record mem_pool_t =
  block_num :: nat
  block_size :: nat
  block_list :: u4

record pool_mem =
  blocks :: "u4 \<Rightarrow> block_t option"
  cells :: "u4 \<Rightarrow> u4 option"
  sys :: "u4 \<Rightarrow> nat option"

definition wr :: "pool_mem \<Rightarrow> u4 \<Rightarrow> u4 \<Rightarrow> pool_mem option" where
  "wr m a v = (if cells m a = None then None else Some (m\<lparr>cells := (cells m)(a \<mapsto> v)\<rparr>))"

definition UNIT_SIZE :: nat where "UNIT_SIZE = 8"
definition MIN_CHUNK_SIZE :: nat where "MIN_CHUNK_SIZE = UNIT_SIZE * 3"

text \<open>\<open>ALIGN_SIZE\<close> for a unit that is a power of two, in the 32 bits of \<open>size_t\<close>.\<close>

definition ALIGN_SIZE :: "nat \<Rightarrow> nat \<Rightarrow> nat" where
  "ALIGN_SIZE n unit = (n + unit - 1) mod 2 ^ 32 div unit * unit"

definition block_data :: "u4 \<Rightarrow> u4" where
  "block_data block = block + 16"

definition BLOCK_END :: "u4 \<Rightarrow> block_t \<Rightarrow> u4" where
  "BLOCK_END block blk = block_data block + of_nat (bsize blk)"

definition CHUNK_FIRST :: "u4 \<Rightarrow> u4" where
  "CHUNK_FIRST chunk = chunk + of_nat UNIT_SIZE"

section \<open>Chunks\<close>

definition get_freebit :: "pool_mem \<Rightarrow> u4 \<Rightarrow> u4 option" where
  "get_freebit m chunk = do { n \<leftarrow> cells m (chunk + 4); Some (n AND 1) }"

definition set_freebit :: "pool_mem \<Rightarrow> u4 \<Rightarrow> pool_mem option" where
  "set_freebit m chunk = do { n \<leftarrow> cells m (chunk + 4); wr m (chunk + 4) (n OR 1) }"

definition clr_freebit :: "pool_mem \<Rightarrow> u4 \<Rightarrow> pool_mem option" where
  "clr_freebit m chunk = do { n \<leftarrow> cells m (chunk + 4); wr m (chunk + 4) (n AND NOT 1) }"

definition chunk_next :: "pool_mem \<Rightarrow> u4 \<Rightarrow> u4 option" where
  "chunk_next m chunk = do { n \<leftarrow> cells m (chunk + 4); Some (n AND NOT 1) }"

definition chunk_mem_size :: "pool_mem \<Rightarrow> u4 \<Rightarrow> nat option" where
  "chunk_mem_size m chunk =
     (if chunk = 0 then Some 0
      else do {
        nx \<leftarrow> chunk_next m chunk;
        Some ((if chunk < nx then unat (nx - chunk) else unat (chunk - nx)) div UNIT_SIZE mod 2 ^ 32) })"

section \<open>Blocks\<close>

text \<open>The cells of a fresh piece of memory.\<close>

definition in_area :: "u4 \<Rightarrow> nat \<Rightarrow> u4 \<Rightarrow> bool" where
  "in_area a len p \<longleftrightarrow> unat (p - a) < len \<and> unat (p - a) mod 4 = 0"

definition block_init :: "u4 option \<Rightarrow> (u4 \<Rightarrow> u4) \<Rightarrow> pool_mem \<Rightarrow> bool \<Rightarrow> nat \<Rightarrow> (n4 \<times> pool_mem \<times> u4) option" where
  "block_init ans raw m block_pptr sz =
     (if \<not> block_pptr \<or> sz = 0 then Some (-1, m, 0)
      else
        (let sz = ALIGN_SIZE sz UNIT_SIZE in
         case ans of
           None \<Rightarrow> Some (-2, m, 0)
         | Some block \<Rightarrow> if 2 ^ 32 \<le> 16 + sz then None else do {
             let chunk = block_data block;
             let blk = \<lparr>bsize = sz, bfree = sz, bnext = 0, bottom = chunk\<rparr>;
             let m = m\<lparr>blocks := (blocks m)(block \<mapsto> blk), cells := (\<lambda>p. if in_area chunk sz p then Some (raw p) else cells m p)\<rparr>;
             m \<leftarrow> wr m chunk 0;
             m \<leftarrow> wr m (chunk + 4) (BLOCK_END block blk);
             m \<leftarrow> set_freebit m chunk;
             Some (0, m, block) }))"

definition block_uninit :: "pool_mem \<Rightarrow> u4 \<Rightarrow> pool_mem option" where
  "block_uninit m block =
     (if block = 0 then Some m
      else do {
        blk \<leftarrow> blocks m block;
        Some (m\<lparr>blocks := (blocks m)(block := None), cells := (\<lambda>p. if in_area (block_data block) (bsize blk) p then None else cells m p)\<rparr>) })"

text \<open>The search for the smallest free chunk that is large enough.\<close>

partial_function (option) best_fit :: "pool_mem \<Rightarrow> u4 \<Rightarrow> nat \<Rightarrow> u4 \<Rightarrow> u4 \<Rightarrow> nat \<Rightarrow> (u4 \<times> nat) option" where
  "best_fit m block_end sz cur_chunk chunk chunk_size =
     (if cur_chunk \<noteq> block_end then
        Option.bind (chunk_mem_size m cur_chunk) (\<lambda>cur_chunk_size.
        Option.bind (get_freebit m cur_chunk) (\<lambda>f.
        Option.bind (chunk_next m cur_chunk) (\<lambda>nx.
          if f \<noteq> 0 \<and> sz \<le> cur_chunk_size \<and> (chunk = 0 \<or> cur_chunk_size < chunk_size)
          then best_fit m block_end sz nx cur_chunk cur_chunk_size
          else best_fit m block_end sz nx chunk chunk_size)))
      else Some (chunk, chunk_size))"

definition block_malloc :: "pool_mem \<Rightarrow> u4 \<Rightarrow> nat \<Rightarrow> (u4 \<times> pool_mem) option" where
  "block_malloc m block sz =
     (if block = 0 \<or> sz = 0 then Some (0, m)
      else do {
        blk \<leftarrow> blocks m block;
        let sz = u4_add sz UNIT_SIZE;
        if bfree blk < ALIGN_SIZE sz UNIT_SIZE then Some (0, m)
        else do {
          let sz = ALIGN_SIZE sz UNIT_SIZE;
          let block_end = BLOCK_END block blk;
          (chunk, chunk_size) \<leftarrow> best_fit m block_end sz (bottom blk) 0 0;
          if chunk = 0 then Some (0, m)
          else do {
            cs \<leftarrow> chunk_mem_size m chunk;
            (ret, m) \<leftarrow>
              (if u4_sub cs sz < MIN_CHUNK_SIZE then Some (chunk, m)
               else do {
                 nx \<leftarrow> chunk_next m chunk;
                 let ret = nx - of_nat (UNIT_SIZE * sz);
                 cn \<leftarrow> cells m (chunk + 4);
                 m \<leftarrow> wr m (ret + 4) cn;
                 Some (ret, m) });
            m \<leftarrow> clr_freebit m ret;
            m \<leftarrow>
              (if chunk \<noteq> ret then do {
                 m \<leftarrow> wr m ret chunk;
                 nx \<leftarrow> chunk_next m chunk;
                 m \<leftarrow> (if nx \<noteq> block_end then wr m nx ret else Some m);
                 m \<leftarrow> wr m (chunk + 4) ret;
                 set_freebit m chunk }
               else Some m);
            let m = m\<lparr>blocks := (blocks m)(block \<mapsto> blk\<lparr>bfree := u4_sub (bfree blk) sz\<rparr>)\<rparr>;
            Some (CHUNK_FIRST ret, m) } } })"

definition block_free :: "pool_mem \<Rightarrow> u4 \<Rightarrow> u4 \<Rightarrow> (n4 \<times> pool_mem) option" where
  "block_free m block ptr =
     (if block = 0 \<or> ptr = 0 then Some (-1, m)
      else do {
        blk \<leftarrow> blocks m block;
        let block_end = BLOCK_END block blk;
        if ptr \<le> block_data block \<or> block_end \<le> ptr then Some (-1, m)
        else do {
          let chunk = ptr - of_nat UNIT_SIZE;
          m \<leftarrow> set_freebit m chunk;
          cs \<leftarrow> chunk_mem_size m chunk;
          let fr = u4_add (bfree blk) (u4_sub cs UNIT_SIZE);
          nx \<leftarrow> chunk_next m chunk;
          (m, fr) \<leftarrow>
            (if nx \<noteq> block_end then do {
               f \<leftarrow> get_freebit m nx;
               if f \<noteq> 0 then do {
                 nn \<leftarrow> cells m (nx + 4);
                 m \<leftarrow> wr m (chunk + 4) nn;
                 Some (m, u4_add fr UNIT_SIZE) }
               else Some (m, fr) }
             else Some (m, fr));
          pre \<leftarrow> cells m chunk;
          (m, fr) \<leftarrow>
            (if pre \<noteq> 0 then do {
               f \<leftarrow> get_freebit m pre;
               if f \<noteq> 0 then do {
                 cn \<leftarrow> cells m (chunk + 4);
                 m \<leftarrow> wr m (pre + 4) cn;
                 Some (m, u4_add fr UNIT_SIZE) }
               else Some (m, fr) }
             else Some (m, fr));
          Some (0, m\<lparr>blocks := (blocks m)(block \<mapsto> blk\<lparr>bfree := fr\<rparr>)\<rparr>) } })"

section \<open>The pool\<close>

definition BLOCK_SIZE :: nat where "BLOCK_SIZE = 4 * 1024"

text \<open>A missing pool is \<open>None\<close>; \<open>mal\<close> answers for the block of the pool itself, which is lost when the first block cannot be made.\<close>

definition mem_pool_init :: "allocator \<Rightarrow> u4 option \<Rightarrow> (u4 \<Rightarrow> u4) \<Rightarrow> pool_mem \<Rightarrow> bool \<Rightarrow> nat \<Rightarrow>
    (n4 \<times> pool_mem \<times> mem_pool_t option) option" where
  "mem_pool_init mal ans raw m pool_pptr bs =
     (if \<not> pool_pptr \<or> bs = 0 then Some (-1, m, None)
      else if \<not> mal 12 then Some (-2, m, None)
      else do {
        let bs = u4_add bs (BLOCK_SIZE - 1) div BLOCK_SIZE * BLOCK_SIZE;
        (ret, m, block) \<leftarrow> block_init ans raw m True bs;
        if ret \<noteq> 0 then Some (-2, m, None)
        else Some (0, m, Some \<lparr>block_num = 1, block_size = bs, block_list = block\<rparr>) })"

partial_function (option) uninit_blocks :: "pool_mem \<Rightarrow> u4 \<Rightarrow> pool_mem option" where
  "uninit_blocks m block =
     (if block \<noteq> 0 then
        Option.bind (blocks m block) (\<lambda>blk.
        Option.bind (block_uninit m block) (\<lambda>m. uninit_blocks m (bnext blk)))
      else Some m)"

definition mem_pool_uninit :: "pool_mem \<Rightarrow> mem_pool_t option \<Rightarrow> (pool_mem \<times> mem_pool_t option) option" where
  "mem_pool_uninit m pool =
     (case pool of
        None \<Rightarrow> Some (m, None)
      | Some p \<Rightarrow> do { m \<leftarrow> uninit_blocks m (block_list p); Some (m, None) })"

definition SYS_ALLOC_FLAG :: nat where "SYS_ALLOC_FLAG = 0xF012F105"

partial_function (option) alloc_loop :: "pool_mem \<Rightarrow> u4 \<Rightarrow> nat \<Rightarrow> (u4 \<times> pool_mem) option" where
  "alloc_loop m block sz =
     (if block \<noteq> 0 then
        Option.bind (blocks m block) (\<lambda>blk.
          if sz < bfree blk then
            Option.bind (block_malloc m block sz) (\<lambda>(ptr, m).
              if ptr \<noteq> 0 then Some (ptr, m)
              else Option.bind (blocks m block) (\<lambda>blk. alloc_loop m (bnext blk) sz))
          else alloc_loop m (bnext blk) sz)
      else Some (0, m))"

text \<open>A request of at least the size of a block goes to \<open>malloc\<close>, with its size in front; the size may wrap around.\<close>

definition sys_alloc :: "u4 option \<Rightarrow> (u4 \<Rightarrow> u4) \<Rightarrow> pool_mem \<Rightarrow> nat \<Rightarrow> (u4 \<times> pool_mem) option" where
  "sys_alloc ans raw m sz =
     (let sz = u4_add sz 8 in
      case ans of
        None \<Rightarrow> Some (0, m)
      | Some arr \<Rightarrow>
          if sz < 8 then None
          else Some (arr + 8, m\<lparr>sys := (sys m)(arr \<mapsto> sz),
            cells := (\<lambda>p. if p = arr then Some (of_nat SYS_ALLOC_FLAG)
                          else if p = arr + 4 then Some (of_nat (u4_sub sz 8))
                          else if in_area arr sz p then Some (raw p) else cells m p)\<rparr>))"

definition mem_pool_alloc :: "u4 option \<Rightarrow> (u4 \<Rightarrow> u4) \<Rightarrow> pool_mem \<Rightarrow> mem_pool_t option \<Rightarrow> nat \<Rightarrow>
    (u4 \<times> pool_mem \<times> mem_pool_t option) option" where
  "mem_pool_alloc ans raw m pool sz =
     (case pool of
        None \<Rightarrow> Some (0, m, None)
      | Some p \<Rightarrow>
          if sz = 0 then Some (0, m, pool)
          else if block_size p \<le> sz then do { (ptr, m) \<leftarrow> sys_alloc ans raw m sz; Some (ptr, m, pool) }
          else do {
            (ptr, m) \<leftarrow> alloc_loop m (block_list p) sz;
            if ptr \<noteq> 0 then Some (ptr, m, pool)
            else do {
              (ret, m, block) \<leftarrow> block_init ans raw m True (block_size p);
              if ret \<noteq> 0 then Some (0, m, pool)
              else do {
                blk \<leftarrow> blocks m block;
                let m = m\<lparr>blocks := (blocks m)(block \<mapsto> blk\<lparr>bnext := block_list p\<rparr>)\<rparr>;
                (ptr, m) \<leftarrow> block_malloc m block sz;
                Some (ptr, m, Some (p\<lparr>block_list := block, block_num := u4_add (block_num p) 1\<rparr>)) } } })"

text \<open>The loop over the blocks: the first one that takes the pointer back ends it, and a block that is all free is given up unless it is the first.\<close>

partial_function (option) dealloc_loop :: "pool_mem \<Rightarrow> mem_pool_t \<Rightarrow> u4 \<Rightarrow> u4 \<Rightarrow> u4 \<Rightarrow> n4 \<Rightarrow> (n4 \<times> pool_mem \<times> mem_pool_t) option" where
  "dealloc_loop m p ptr pre block ret =
     (if block \<noteq> 0 then
        Option.bind (block_free m block ptr) (\<lambda>(ret, m). Option.bind (blocks m block) (\<lambda>blk.
          if ret = 0 then
            (if bsize blk = bfree blk \<and> pre \<noteq> 0 then
               Option.bind (blocks m pre) (\<lambda>pblk.
               Option.bind (block_uninit (m\<lparr>blocks := (blocks m)(pre \<mapsto> pblk\<lparr>bnext := bnext blk\<rparr>, block \<mapsto> blk\<lparr>bnext := 0\<rparr>)\<rparr>) block)
                 (\<lambda>m. Some (0, m, p\<lparr>block_num := u4_sub (block_num p) 1\<rparr>)))
             else Some (0, m, p))
          else dealloc_loop m p ptr block (bnext blk) ret))
      else Some (ret, m, p))"

definition sys_free :: "pool_mem \<Rightarrow> u4 \<Rightarrow> pool_mem option" where
  "sys_free m arr = do {
     sz \<leftarrow> sys m arr;
     Some (m\<lparr>sys := (sys m)(arr := None), cells := (\<lambda>p. if in_area arr sz p then None else cells m p)\<rparr>) }"

definition mem_pool_dealloc :: "pool_mem \<Rightarrow> mem_pool_t option \<Rightarrow> u4 \<Rightarrow> (n4 \<times> pool_mem \<times> mem_pool_t option) option" where
  "mem_pool_dealloc m pool ptr =
     (case pool of
        None \<Rightarrow> Some (-1, m, None)
      | Some p \<Rightarrow>
          if ptr = 0 then Some (-1, m, pool)
          else do {
            let arr = ptr - 8;
            flag \<leftarrow> cells m arr;
            large \<leftarrow> (if unat flag = SYS_ALLOC_FLAG then do { n \<leftarrow> cells m (arr + 4); Some (block_size p \<le> unat n) } else Some False);
            if large then do {
              m \<leftarrow> sys_free m arr;
              Some (0, m, pool) }
            else do {
              (ret, m, p) \<leftarrow> dealloc_loop m p ptr 0 (block_list p) 0;
              Some (if ret \<noteq> 0 then -2 else 0, m, Some p) } })"

definition mem_pool_mem_size :: "mem_pool_t option \<Rightarrow> bool \<Rightarrow> n4 \<times> nat option" where
  "mem_pool_mem_size pool out =
     (case pool of
        None \<Rightarrow> (-1, None)
      | Some p \<Rightarrow> if \<not> out then (-1, None) else (0, Some (12 + u4_mul (block_num p) (u4_add (block_size p) 17))))"

partial_function (option) free_size_loop :: "pool_mem \<Rightarrow> u4 \<Rightarrow> nat \<Rightarrow> nat option" where
  "free_size_loop m block sz =
     (if block \<noteq> 0 then Option.bind (blocks m block) (\<lambda>blk. free_size_loop m (bnext blk) ((sz + bfree blk) mod 2 ^ 64))
      else Some sz)"

definition mem_pool_free_size :: "pool_mem \<Rightarrow> mem_pool_t option \<Rightarrow> bool \<Rightarrow> (n4 \<times> nat option) option" where
  "mem_pool_free_size m pool out =
     (case pool of
        None \<Rightarrow> Some (-1, None)
      | Some p \<Rightarrow>
          if \<not> out then Some (-1, None)
          else do { sz \<leftarrow> free_size_loop m (block_list p) 0; Some (0, Some sz) })"

end
