(* ===== verification/Lisk_Pool_Blocks.thy ===== *)
theory Lisk_Pool_Blocks
  imports Lisk_Mem_Pool
begin

text \<open>
  The blocks of the pool as sequences of chunks. \<open>seg\<close> says that the headers in a block describe a list of chunks, given by their
  lengths in units of 8 bytes and whether they are free. The back link of a chunk is only right while the chunk before it is in
  use: \<open>block_free\<close> joins free chunks without correcting the link of the chunk behind them, which then points into the
  free chunk. The lemmas of this theory show what \<open>block_malloc\<close> and \<open>block_free\<close> do to the list and to the words between the headers.
\<close>

section \<open>Addresses\<close>

definition adr :: "u4 \<Rightarrow> nat \<Rightarrow> u4" where
  "adr d k = d + of_nat (4 * k)"

definition fits :: "u4 \<Rightarrow> nat \<Rightarrow> bool" where
  "fits d U \<longleftrightarrow> d \<noteq> 0 \<and> even d \<and> unat d + 8 * U < 2 ^ 32 \<and> 8 * U + 16 < 2 ^ 32"

lemma unat_adr:
  assumes "fits d U" "k \<le> 2 * U"
  shows "unat (adr d k) = unat d + 4 * k"
proof -
  have lt: "unat d + 4 * k < 2 ^ 32" using assms by (simp add: fits_def)
  then have "unat (of_nat (4 * k) :: u4) = 4 * k" by (simp only: unat_of_nat) simp
  then have "unat d + unat (of_nat (4 * k) :: u4) < 2 ^ LENGTH(32)" using lt by simp
  then have "unat (d + of_nat (4 * k)) = unat d + unat (of_nat (4 * k) :: u4)" by (rule unat_add_lem [THEN iffD1])
  then show ?thesis using \<open>unat (of_nat (4 * k) :: u4) = 4 * k\<close> by (simp add: adr_def)
qed

lemma adr_inj:
  assumes "fits d U" "j \<le> 2 * U" "k \<le> 2 * U"
  shows "adr d j = adr d k \<longleftrightarrow> j = k"
  using unat_adr [OF assms(1,2)] unat_adr [OF assms(1,3)] by (auto simp: word_unat_eq_iff)

lemma adr_less:
  assumes "fits d U" "j \<le> 2 * U" "k \<le> 2 * U"
  shows "adr d j < adr d k \<longleftrightarrow> j < k"
  using unat_adr [OF assms(1,2)] unat_adr [OF assms(1,3)] by (simp add: word_less_nat_alt)

lemma adr_nz:
  assumes "fits d U" "k \<le> 2 * U"
  shows "adr d k \<noteq> 0"
  using unat_adr [OF assms] assms(1) by (auto simp: fits_def unat_eq_zero)

lemma adr_diff:
  assumes "fits d U" "j \<le> k" "k \<le> 2 * U"
  shows "unat (adr d k - adr d j) = 4 * (k - j)"
proof -
  have "adr d j \<le> adr d k" using unat_adr [OF assms(1), of j] unat_adr [OF assms(1,3)] assms(2,3) by (simp add: word_le_nat_alt)
  then show ?thesis using unat_sub [of "adr d j" "adr d k"] unat_adr [OF assms(1), of j] unat_adr [OF assms(1,3)] assms(2,3) by simp
qed

lemma adr_even: "fits d U \<Longrightarrow> even (adr d k)"
  by (simp add: fits_def adr_def)

lemma adr_add: "adr d k + of_nat (4 * i) = adr d (k + i)"
  by (simp add: adr_def algebra_simps)

lemma adr_8 [simp]: "adr d k + 4 = adr d (Suc k)" "adr d k + 8 = adr d (k + 2)" "adr d (k + 2) - 8 = adr d k" "adr d (Suc (Suc k)) - 8 = adr d k"
  by (simp_all add: adr_def algebra_simps)

lemma adr_0 [simp]: "adr d 0 = d"
  by (simp add: adr_def)

section \<open>Marked pointers\<close>

definition mark :: "bool \<Rightarrow> u4 \<Rightarrow> u4" where
  "mark f a = (if f then a OR 1 else a)"

lemma even_bits:
  assumes "even (a :: u4)"
  shows "a AND 1 = 0" "a AND NOT 1 = a" "(a OR 1) AND 1 = 1" "(a OR 1) AND NOT 1 = a" "(a OR 1) OR 1 = a OR 1"
  using assms by (auto intro!: bit_word_eqI simp: bit_simps even_iff_mod_2_eq_zero bit_0 elim: Suc_leD)

lemma mark_simps:
  assumes "even (a :: u4)"
  shows "mark f a AND 1 = (if f then 1 else 0)" "mark f a AND NOT 1 = a" "mark f a OR 1 = mark True a"
  using even_bits [OF assms] by (simp_all add: mark_def)

section \<open>The words of a block\<close>

text \<open>Word \<open>k\<close> of the data of a block; unit \<open>i\<close> starts at word \<open>2 * i\<close>.\<close>

definition view :: "u4 \<Rightarrow> nat \<Rightarrow> pool_mem \<Rightarrow> nat \<Rightarrow> u4 option" where
  "view d U m k = (if k < 2 * U then cells m (adr d k) else None)"

lemma view_wr:
  assumes "fits d U" "k < 2 * U" "view d U m k \<noteq> None"
  shows "wr m (adr d k) v = Some (m\<lparr>cells := (cells m)(adr d k \<mapsto> v)\<rparr>)"
  using assms by (auto simp: wr_def view_def)

lemma view_upd:
  assumes "fits d U" "k < 2 * U"
  shows "view d U (m\<lparr>cells := (cells m)(adr d k \<mapsto> v)\<rparr>) = (view d U m)(k \<mapsto> v)"
  using assms adr_inj [OF assms(1)] by (auto simp: view_def fun_eq_iff)

lemma view_blocks [simp]: "view d U (m\<lparr>blocks := x\<rparr>) = view d U m"
  by (simp add: view_def fun_eq_iff)

lemma view_cell: "view d U m k = Some v \<Longrightarrow> cells m (adr d k) = Some v"
  by (auto simp: view_def split: if_splits)

section \<open>Chunks\<close>

type_synonym segs = "(nat \<times> bool) list"

abbreviation units :: "segs \<Rightarrow> nat" where
  "units ss \<equiv> sum_list (map fst ss)"

text \<open>The back link of a chunk at unit \<open>i\<close>, given the chunk before it.\<close>

definition back_link :: "u4 \<Rightarrow> (nat \<Rightarrow> u4 option) \<Rightarrow> nat \<Rightarrow> (nat \<times> bool) option \<Rightarrow> bool" where
  "back_link d w i prv =
     (case prv of
        None \<Rightarrow> w (2 * i) = Some 0
      | Some (l, f) \<Rightarrow> (\<exists>j. i \<le> j + l \<and> j < i \<and> w (2 * i) = Some (adr d (2 * j)) \<and> (f \<or> i = j + l)))"

fun seg :: "u4 \<Rightarrow> (nat \<Rightarrow> u4 option) \<Rightarrow> nat \<Rightarrow> (nat \<times> bool) option \<Rightarrow> segs \<Rightarrow> bool" where
  "seg d w i prv [] \<longleftrightarrow> True"
| "seg d w i prv ((l, f) # ss) \<longleftrightarrow>
     1 \<le> l \<and> back_link d w i prv \<and> w (2 * i + 1) = Some (mark f (adr d (2 * (i + l)))) \<and> seg d w (i + l) (Some (l, f)) ss"

fun last_seg :: "(nat \<times> bool) option \<Rightarrow> segs \<Rightarrow> (nat \<times> bool) option" where
  "last_seg prv [] = prv"
| "last_seg prv (s # ss) = last_seg (Some s) ss"

lemma last_seg_append [simp]: "last_seg prv (xs @ ys) = last_seg (last_seg prv xs) ys"
  by (induction xs arbitrary: prv) auto

lemma seg_append: "seg d w i prv (xs @ ys) \<longleftrightarrow> seg d w i prv xs \<and> seg d w (i + units xs) (last_seg prv xs) ys"
  by (induction d w i prv xs rule: seg.induct) (auto simp: add.assoc)

text \<open>The words that headers occupy, and that \<open>seg\<close> depends on nothing else.\<close>

fun headers :: "nat \<Rightarrow> segs \<Rightarrow> nat set" where
  "headers i [] = {}"
| "headers i ((l, f) # ss) = {2 * i, 2 * i + 1} \<union> headers (i + l) ss"

lemma headers_append: "headers i (xs @ ys) = headers i xs \<union> headers (i + units xs) ys"
  by (induction i xs rule: headers.induct) (auto simp: add.assoc)

lemma headers_bound: "\<forall>(l, f) \<in> set ss. 1 \<le> l \<Longrightarrow> k \<in> headers i ss \<Longrightarrow> 2 * i \<le> k \<and> k < 2 * (i + units ss)"
  by (induction i ss rule: headers.induct) fastforce+

lemma seg_pos: "seg d w i prv ss \<Longrightarrow> \<forall>(l, f) \<in> set ss. 1 \<le> l"
  by (induction d w i prv ss rule: seg.induct) auto

lemma back_link_frame: "w' (2 * i) = w (2 * i) \<Longrightarrow> back_link d w' i prv = back_link d w i prv"
  by (simp add: back_link_def split: option.splits)

lemma seg_frame:
  assumes "seg d w i prv ss" "\<And>k. k \<in> headers i ss \<Longrightarrow> w' k = w k"
  shows "seg d w' i prv ss"
  using assms(1,2)
proof (induction d w i prv ss rule: seg.induct)
  case (2 d w i prv l f ss)
  have "w' (2 * i) = w (2 * i)" "w' (2 * i + 1) = w (2 * i + 1)" using 2(3) by simp_all
  then show ?case using 2 back_link_frame [of w' i w d prv] by simp
qed simp

text \<open>Reading a header.\<close>

lemma header_reads:
  assumes f: "fits d U" and h: "view d U m (2 * i + 1) = Some (mark fr (adr d (2 * j)))" and ij: "i \<le> j" "j \<le> U"
  shows "get_freebit m (adr d (2 * i)) = Some (if fr then 1 else 0)" "chunk_next m (adr d (2 * i)) = Some (adr d (2 * j))"
    "chunk_mem_size m (adr d (2 * i)) = Some (j - i)"
proof -
  have c: "cells m (adr d (2 * i) + 4) = Some (mark fr (adr d (2 * j)))" using view_cell [OF h] by simp
  show "get_freebit m (adr d (2 * i)) = Some (if fr then 1 else 0)"
    using c mark_simps(1) [OF adr_even [OF f], of fr "2 * j"] by (simp add: get_freebit_def)
  show n: "chunk_next m (adr d (2 * i)) = Some (adr d (2 * j))"
    using c mark_simps(2) [OF adr_even [OF f], of fr "2 * j"] by (simp add: chunk_next_def)
  have lt: "j - i < 2 ^ 32" using f ij unfolding fits_def by auto
  have "unat (adr d (2 * j) - adr d (2 * i)) = 8 * (j - i)" using adr_diff [OF f, of "2 * i" "2 * j"] ij by simp
  moreover have "adr d (2 * i) < adr d (2 * j) \<longleftrightarrow> i < j" using adr_less [OF f, of "2 * i" "2 * j"] ij by simp
  moreover have "adr d (2 * i) \<noteq> 0" using adr_nz [OF f] ij by simp
  moreover have "i = j \<Longrightarrow> unat (adr d (2 * i) - adr d (2 * j)) = 0" by simp
  ultimately show "chunk_mem_size m (adr d (2 * i)) = Some (j - i)"
    using n lt ij by (cases "i = j") (simp_all add: chunk_mem_size_def UNIT_SIZE_def)
qed

section \<open>The search for a chunk\<close>

definition better :: "nat \<Rightarrow> nat \<times> bool \<Rightarrow> (nat \<times> nat) option \<Rightarrow> bool" where
  "better n s best \<longleftrightarrow> snd s \<and> n \<le> fst s \<and> (case best of None \<Rightarrow> True | Some (j, l) \<Rightarrow> fst s < l)"

fun pick :: "nat \<Rightarrow> nat \<Rightarrow> segs \<Rightarrow> (nat \<times> nat) option \<Rightarrow> (nat \<times> nat) option" where
  "pick n i [] best = best"
| "pick n i (s # ss) best = pick n (i + fst s) ss (if better n s best then Some (i, fst s) else best)"

definition best_pair :: "u4 \<Rightarrow> (nat \<times> nat) option \<Rightarrow> u4 \<times> nat" where
  "best_pair d best = (case best of None \<Rightarrow> (0, 0) | Some (j, l) \<Rightarrow> (adr d (2 * j), l))"

lemma best_fit_ok:
  assumes f: "fits d U"
  shows "seg d (view d U m) i prv ss \<Longrightarrow> i + units ss = U \<Longrightarrow> (\<forall>j l. best = Some (j, l) \<longrightarrow> j \<le> U) \<Longrightarrow>
    best_fit m (adr d (2 * U)) n (adr d (2 * i)) (fst (best_pair d best)) (snd (best_pair d best)) = Some (best_pair d (pick n i ss best))"
proof (induction ss arbitrary: i prv best)
  case Nil
  then show ?case by (subst best_fit.simps) simp
next
  case (Cons s ss)
  obtain l fr where s: "s = (l, fr)" by (cases s)
  have h: "view d U m (2 * i + 1) = Some (mark fr (adr d (2 * (i + l))))" and l: "1 \<le> l" "i + l \<le> U" and r: "seg d (view d U m) (i + l) (Some (l, fr)) ss"
    using Cons.prems(1,2) s by auto
  note H = header_reads [OF f h _ l(2)]
  have ne: "adr d (2 * i) \<noteq> adr d (2 * U)" using adr_inj [OF f, of "2 * i" "2 * U"] l by simp
  define best' where "best' = (if better n s best then Some (i, l) else best)"
  have nz: "(fst (best_pair d best) = 0) = (best = None)"
    using adr_nz [OF f] Cons.prems(3) by (auto simp: best_pair_def split: option.splits)
  have b: "better n s best \<longleftrightarrow> fr \<and> n \<le> l \<and> (fst (best_pair d best) = 0 \<or> l < snd (best_pair d best))"
    unfolding nz by (auto simp: better_def s best_pair_def split: option.splits)
  have "best_fit m (adr d (2 * U)) n (adr d (2 * i)) (fst (best_pair d best)) (snd (best_pair d best)) =
      best_fit m (adr d (2 * U)) n (adr d (2 * (i + l))) (fst (best_pair d best')) (snd (best_pair d best'))"
  proof (cases "better n s best")
    case True
    then have "best_pair d best' = (adr d (2 * i), l)" by (simp add: best'_def best_pair_def)
    then show ?thesis using True ne H unfolding b by (subst best_fit.simps) simp
  next
    case False
    then have "best' = best" by (simp add: best'_def)
    then show ?thesis using False ne H unfolding b by (subst best_fit.simps) auto
  qed
  also have "\<dots> = Some (best_pair d (pick n (i + l) ss best'))"
    by (rule Cons.IH [OF r]) (use Cons.prems(2,3) s l in \<open>auto simp: best'_def split: if_splits\<close>)
  finally show ?case by (simp add: best'_def s)
qed

text \<open>The search finds the first of the smallest free chunks that are large enough, or says that there is none.\<close>

definition fit :: "nat \<Rightarrow> nat \<times> bool \<Rightarrow> bool" where
  "fit n s \<longleftrightarrow> snd s \<and> n \<le> fst s"

lemma pick_spec:
  "case pick n i ss best of
     None \<Rightarrow> best = None \<and> (\<forall>s \<in> set ss. \<not> fit n s)
   | Some (j, l) \<Rightarrow>
       (best = Some (j, l) \<or> (\<exists>xs ys. ss = xs @ (l, True) # ys \<and> j = i + units xs \<and> n \<le> l)) \<and>
       (\<forall>s \<in> set ss. fit n s \<longrightarrow> l \<le> fst s) \<and> (\<forall>j' l'. best = Some (j', l') \<longrightarrow> l \<le> l')"
proof (induction ss arbitrary: i best)
  case Nil
  then show ?case by (auto split: option.splits)
next
  case (Cons s ss)
  define best' where "best' = (if better n s best then Some (i, fst s) else best)"
  have p: "pick n i (s # ss) best = pick n (i + fst s) ss best'" by (simp add: best'_def)
  note IH = Cons.IH [where i = "i + fst s" and best = best']
  show ?case
  proof (cases "pick n (i + fst s) ss best'")
    case None
    then have "best' = None" "\<forall>s \<in> set ss. \<not> fit n s" using IH by simp_all
    then have "\<not> better n s best" "best = None" by (auto simp: best'_def split: if_splits)
    then have "\<not> fit n s" by (simp add: better_def fit_def)
    then show ?thesis unfolding p None using \<open>best = None\<close> \<open>\<forall>s \<in> set ss. \<not> fit n s\<close> by simp
  next
    case (Some q)
    obtain j l where q: "q = (j, l)" by (cases q)
    have a: "best' = Some (j, l) \<or> (\<exists>xs ys. ss = xs @ (l, True) # ys \<and> j = i + fst s + units xs \<and> n \<le> l)"
      and b: "\<forall>s \<in> set ss. fit n s \<longrightarrow> l \<le> fst s" and c: "\<forall>j' l'. best' = Some (j', l') \<longrightarrow> l \<le> l'"
      using IH unfolding Some q by simp_all
    have "best = Some (j, l) \<or> (\<exists>xs ys. s # ss = xs @ (l, True) # ys \<and> j = i + units xs \<and> n \<le> l)"
      using a
    proof
      assume "best' = Some (j, l)"
      then have "best = Some (j, l) \<or> (better n s best \<and> j = i \<and> l = fst s)" by (auto simp: best'_def split: if_splits)
      then show ?thesis by (cases s) (fastforce simp: better_def)
    next
      assume "\<exists>xs ys. ss = xs @ (l, True) # ys \<and> j = i + fst s + units xs \<and> n \<le> l"
      then obtain xs ys where "ss = xs @ (l, True) # ys" "j = i + fst s + units xs" "n \<le> l" by blast
      then have "s # ss = (s # xs) @ (l, True) # ys" "j = i + units (s # xs)" by simp_all
      then show ?thesis using \<open>n \<le> l\<close> by blast
    qed
    moreover have "fit n s \<longrightarrow> l \<le> fst s"
    proof
      assume s: "fit n s"
      show "l \<le> fst s"
      proof (cases "better n s best")
        case True
        then show ?thesis using c by (simp add: best'_def)
      next
        case False
        then obtain j' l' where "best = Some (j', l')" "l' \<le> fst s" using s by (fastforce simp: better_def fit_def split: option.splits)
        then show ?thesis using c False by (simp add: best'_def)
      qed
    qed
    moreover have "l \<le> l'" if "best = Some (j', l')" for j' l'
      using c that by (cases "better n s best") (auto simp: best'_def better_def)
    ultimately show ?thesis unfolding p Some q using b by simp
  qed
qed

section \<open>Writing words\<close>

definition put :: "u4 \<Rightarrow> pool_mem \<Rightarrow> nat \<Rightarrow> u4 \<Rightarrow> pool_mem" where
  "put d m k v = m\<lparr>cells := (cells m)(adr d k \<mapsto> v)\<rparr>"

definition full :: "u4 \<Rightarrow> nat \<Rightarrow> pool_mem \<Rightarrow> bool" where
  "full d U m \<longleftrightarrow> (\<forall>k < 2 * U. view d U m k \<noteq> None)"

lemma put_sel [simp]: "blocks (put d m k v) = blocks m" "sys (put d m k v) = sys m"
  by (simp_all add: put_def)

lemma view_put: "fits d U \<Longrightarrow> k < 2 * U \<Longrightarrow> view d U (put d m k v) = (view d U m)(k \<mapsto> v)"
  unfolding put_def by (rule view_upd)

lemma wr_put: "fits d U \<Longrightarrow> full d U m \<Longrightarrow> k < 2 * U \<Longrightarrow> wr m (adr d k) v = Some (put d m k v)"
  using view_wr [of d U k m v] by (simp add: put_def full_def)

lemma full_put: "fits d U \<Longrightarrow> full d U m \<Longrightarrow> k < 2 * U \<Longrightarrow> full d U (put d m k v)"
  by (simp add: full_def view_put)

lemma freebit_put:
  assumes "fits d U" "full d U m" "view d U m (2 * i + 1) = Some x" "i < U"
  shows "set_freebit m (adr d (2 * i)) = Some (put d m (2 * i + 1) (x OR 1))"
    "clr_freebit m (adr d (2 * i)) = Some (put d m (2 * i + 1) (x AND NOT 1))"
  using assms wr_put [of d U m "2 * i + 1"] view_cell [OF assms(3)] by (simp_all add: set_freebit_def clr_freebit_def)

text \<open>What lies outside the words of a block is not touched.\<close>

definition same_out :: "u4 \<Rightarrow> nat \<Rightarrow> pool_mem \<Rightarrow> pool_mem \<Rightarrow> bool" where
  "same_out d U m m' \<longleftrightarrow> sys m' = sys m \<and> (\<forall>p. (\<forall>k < 2 * U. p \<noteq> adr d k) \<longrightarrow> cells m' p = cells m p)"

lemma same_out_refl [simp]: "same_out d U m m" "same_out d U m m' \<Longrightarrow> same_out d U m (m'\<lparr>blocks := x\<rparr>)"
  by (simp_all add: same_out_def)

lemma same_out_put: "same_out d U m m' \<Longrightarrow> k < 2 * U \<Longrightarrow> same_out d U m (put d m' k v)"
  by (auto simp: same_out_def put_def)

section \<open>Well-formed blocks\<close>

definition block_ok :: "pool_mem \<Rightarrow> u4 \<Rightarrow> segs \<Rightarrow> bool" where
  "block_ok m b ss \<longleftrightarrow> b \<noteq> 0 \<and> ss \<noteq> [] \<and> fits (block_data b) (units ss) \<and> full (block_data b) (units ss) m \<and>
     (\<exists>blk. blocks m b = Some blk \<and> bsize blk = 8 * units ss \<and> bottom blk = block_data b) \<and>
     seg (block_data b) (view (block_data b) (units ss) m) 0 None ss"

lemma block_end: "bsize blk = 8 * U \<Longrightarrow> BLOCK_END b blk = adr (block_data b) (2 * U)"
  by (simp add: BLOCK_END_def adr_def)

definition need :: "nat \<Rightarrow> nat" where
  "need sz = ALIGN_SIZE (sz + UNIT_SIZE) UNIT_SIZE"

lemma need_bounds:
  assumes "sz + 15 < 2 ^ 32"
  shows "sz + 8 \<le> need sz" "need sz < 2 ^ 32" "ALIGN_SIZE (u4_add sz UNIT_SIZE) UNIT_SIZE = need sz" "1 \<le> need sz"
proof -
  have "need sz = (sz + 15) div 8 * 8" using assms by (simp add: need_def ALIGN_SIZE_def UNIT_SIZE_def)
  then show a: "sz + 8 \<le> need sz" "need sz < 2 ^ 32" "1 \<le> need sz" using assms by auto
  have "u4_add sz UNIT_SIZE = sz + UNIT_SIZE" using assms by (simp add: u4_add_def UNIT_SIZE_def)
  then show "ALIGN_SIZE (u4_add sz UNIT_SIZE) UNIT_SIZE = need sz" by (simp add: need_def)
qed

text \<open>The headers after a chunk has been split: the new chunk lies at its end.\<close>

lemma seg_split:
  assumes f: "fits d U" and s: "seg d w 0 None (xs @ (l, True) # ys)" "units (xs @ (l, True) # ys) = U" and n: "1 \<le> n" "n < l"
    and a: "a = units xs" "i = a + (l - n)"
    and w': "w' (2 * a + 1) = Some (mark True (adr d (2 * i)))" "w' (2 * i) = Some (adr d (2 * a))"
      "w' (2 * i + 1) = Some (adr d (2 * (a + l)))" "ys \<noteq> [] \<Longrightarrow> w' (2 * (a + l)) = Some (adr d (2 * i))"
      "\<And>k. k \<notin> {2 * a + 1, 2 * i, 2 * i + 1, 2 * (a + l)} \<Longrightarrow> w' k = w k"
  shows "seg d w' 0 None (xs @ (l - n, True) # (n, False) # ys)"
proof -
  have ai: "a < i" "i < a + l" "i = a + (l - n)" using n a by auto
  have pos: "\<forall>(l, f) \<in> set xs. 1 \<le> l" "\<forall>(l, f) \<in> set ys. 1 \<le> l" using seg_pos [OF s(1)] by auto
  have x: "seg d w 0 None xs" and c: "back_link d w a (last_seg None xs)" and y: "seg d w (a + l) (Some (l, True)) ys"
    using s(1) unfolding seg_append by (auto simp: a)
  have "seg d w' 0 None xs"
  proof (rule seg_frame [OF x])
    fix k assume "k \<in> headers 0 xs"
    then have "k < 2 * a" using headers_bound [OF pos(1), of k 0] a by simp
    then show "w' k = w k" using w'(5) [of k] ai(1,2) by auto
  qed
  moreover have "back_link d w' a (last_seg None xs)"
    using c back_link_frame [of w' a w d] w'(5) [of "2 * a"] ai(1,2) by auto
  moreover have "back_link d w' i (Some (l - n, True))" using w'(2) ai n by (auto simp: back_link_def)
  moreover have "seg d w' (a + l) (Some (n, False)) ys"
  proof (cases ys)
    case (Cons s zs)
    obtain l2 f2 where s2: "s = (l2, f2)" by (cases s)
    have q: "w (2 * (a + l) + 1) = Some (mark f2 (adr d (2 * (a + l + l2))))" "1 \<le> l2" "seg d w (a + l + l2) (Some (l2, f2)) zs"
      using y unfolding Cons s2 by auto
    have p2: "\<forall>(l, f) \<in> set zs. 1 \<le> l" using pos(2) Cons by simp
    have "seg d w' (a + l + l2) (Some (l2, f2)) zs"
    proof (rule seg_frame [OF q(3)])
      fix k assume "k \<in> headers (a + l + l2) zs"
      then have "2 * (a + l + l2) \<le> k" using headers_bound [OF p2, of k] by blast
      then show "w' k = w k" using w'(5) [of k] ai(1,2) q(2) by auto
    qed
    moreover have "back_link d w' (a + l) (Some (n, False))" using w'(4) Cons ai n by (auto simp: back_link_def intro!: exI [of _ i])
    moreover have "w' (2 * (a + l) + 1) = w (2 * (a + l) + 1)" using w'(5) [of "2 * (a + l) + 1"] ai(1,2) by auto
    ultimately show ?thesis using q unfolding Cons s2 by simp
  qed simp
  moreover have "i + n = a + l" using ai n by simp
  ultimately show ?thesis using n w'(1,3) ai a(1) unfolding seg_append by (simp add: mark_def)
qed

text \<open>The headers after a chunk has changed its state or has been joined with the free chunk behind it.\<close>

lemma seg_xs:
  assumes "seg d w 0 None (xs @ ys)" "a = units xs" "\<And>k. k < 2 * a \<Longrightarrow> w' k = w k"
  shows "seg d w' 0 None xs"
proof -
  have x: "seg d w 0 None xs" using assms(1) unfolding seg_append by simp
  have "w' k = w k" if "k \<in> headers 0 xs" for k using headers_bound [OF seg_pos [OF x] that] assms(2,3) by simp
  then show ?thesis by (rule seg_frame [OF x])
qed

lemma seg_relink:
  assumes s: "seg d w 0 None (xs @ (l, f) # ys)" and a: "a = units xs"
    and b: "ys \<noteq> [] \<Longrightarrow> back_link d w (a + l) (Some (l, f'))"
    and w': "w' = w(2 * a + 1 \<mapsto> mark f' (adr d (2 * (a + l))))"
  shows "seg d w' 0 None (xs @ (l, f') # ys)"
proof -
  have c: "1 \<le> l" "back_link d w a (last_seg None xs)" and y: "seg d w (a + l) (Some (l, f)) ys"
    using s unfolding seg_append by (auto simp: a)
  have x: "seg d w' 0 None xs" by (rule seg_xs [OF s a]) (simp add: w')
  have hy: "w' k = w k" if "k \<in> headers (a + l) ys" for k
    using headers_bound [OF seg_pos [OF y] that] w' c(1) by auto
  have "seg d w' (a + l) (Some (l, f)) ys" by (rule seg_frame [OF y hy])
  then have "seg d w' (a + l) (Some (l, f')) ys"
  proof (cases ys)
    case (Cons s zs)
    have "back_link d w' (a + l) (Some (l, f'))" using b Cons back_link_frame [of w' "a + l" w] w' c(1) by auto
    then show ?thesis using \<open>seg d w' (a + l) (Some (l, f)) ys\<close> unfolding Cons by (cases s) simp
  qed simp
  moreover have "back_link d w' a (last_seg None xs)" using c(2) back_link_frame [of w' a w] w' by auto
  ultimately show ?thesis using x c(1) w' a unfolding seg_append by simp
qed

lemma seg_join:
  assumes s: "seg d w 0 None (xs @ (l, True) # (l2, True) # zs)" and a: "a = units xs"
    and w': "w' = w(2 * a + 1 \<mapsto> mark True (adr d (2 * (a + (l + l2)))))"
  shows "seg d w' 0 None (xs @ (l + l2, True) # zs)"
proof -
  have c: "1 \<le> l" "back_link d w a (last_seg None xs)" and l2: "1 \<le> l2" and z: "seg d w (a + l + l2) (Some (l2, True)) zs"
    using s unfolding seg_append by (auto simp: a)
  have x: "seg d w' 0 None xs" by (rule seg_xs [OF s a]) (simp add: w')
  have hz: "w' k = w k" if "k \<in> headers (a + l + l2) zs" for k
    using headers_bound [OF seg_pos [OF z] that] w' c(1) by auto
  have z': "seg d w' (a + l + l2) (Some (l2, True)) zs" by (rule seg_frame [OF z hz])
  then have "seg d w' (a + (l + l2)) (Some (l + l2, True)) zs"
  proof (cases zs)
    case (Cons s us)
    have "back_link d w' (a + l + l2) (Some (l2, True))" using z' unfolding Cons by (cases s) simp
    then obtain j where "a + l \<le> j" "j < a + l + l2" "w' (2 * (a + l + l2)) = Some (adr d (2 * j))" by (auto simp: back_link_def)
    then have "back_link d w' (a + (l + l2)) (Some (l + l2, True))" unfolding back_link_def
      by (simp add: add.assoc) (rule exI [of _ j], simp)
    then show ?thesis using z' unfolding Cons by (cases s) (simp add: add.assoc)
  qed simp
  moreover have "back_link d w' a (last_seg None xs)" using c(2) back_link_frame [of w' a w] w' by auto
  ultimately show ?thesis using x c(1) w' a unfolding seg_append by (simp add: add.assoc)
qed

section \<open>The chunks in use\<close>

fun lives :: "nat \<Rightarrow> segs \<Rightarrow> (nat \<times> nat) set" where
  "lives i [] = {}"
| "lives i ((l, f) # ss) = (if f then {} else {(i, l)}) \<union> lives (i + l) ss"

definition payload_words :: "nat \<times> nat \<Rightarrow> nat set" where
  "payload_words c = {2 * fst c + 2 ..< 2 * (fst c + snd c)}"

lemma lives_append: "lives i (xs @ ys) = lives i xs \<union> lives (i + units xs) ys"
  by (induction i xs rule: lives.induct) (auto simp: add.assoc)

lemma lives_bound: "(j, l) \<in> lives i ss \<Longrightarrow> i \<le> j \<and> j + l \<le> i + units ss"
  by (induction i ss rule: lives.induct) (auto split: if_splits)

lemma lives_headers: "\<forall>(l, f) \<in> set ss. 1 \<le> l \<Longrightarrow> c \<in> lives i ss \<Longrightarrow> k \<in> payload_words c \<Longrightarrow> k \<notin> headers i ss"
proof (induction i ss rule: lives.induct)
  case (2 i l f ss)
  obtain j n where c: "c = (j, n)" by (cases c)
  have pos: "\<forall>(l, f) \<in> set ss. 1 \<le> l" using 2(2) by auto
  show ?case
  proof (cases "c \<in> lives (i + l) ss")
    case True
    then have "k \<notin> headers (i + l) ss" using 2(1) pos 2(4) by blast
    moreover have "2 * (i + l) \<le> k" using lives_bound True 2(4) unfolding c by (fastforce simp: payload_words_def)
    ultimately show ?thesis using 2(2) by auto
  next
    case False
    then have "j = i" "n = l" using 2(3) c by (auto split: if_splits)
    then have "k \<notin> headers (i + l) ss" using headers_bound [OF pos, of k "i + l"] 2(4) c by (auto simp: payload_words_def)
    then show ?thesis using 2(4) c \<open>j = i\<close> by (auto simp: payload_words_def)
  qed
qed simp

lemma lives_disjoint:
  assumes "\<forall>(l, f) \<in> set ss. 1 \<le> l" "c \<in> lives i ss" "c' \<in> lives i ss" "c \<noteq> c'"
  shows "payload_words c \<inter> payload_words c' = {}"
  using assms
proof (induction i ss rule: lives.induct)
  case (2 i l f ss)
  have far: "payload_words (i, l) \<inter> payload_words e = {}" if "e \<in> lives (i + l) ss" for e
    using that lives_bound [of "fst e" "snd e" "i + l" ss] by (auto simp: payload_words_def)
  consider "c \<in> lives (i + l) ss" "c' \<in> lives (i + l) ss" | "c = (i, l)" "c' \<in> lives (i + l) ss" | "c' = (i, l)" "c \<in> lives (i + l) ss"
    using 2(3-5) by (auto split: if_splits)
  then show ?case
  proof cases
    case 1
    then show ?thesis using 2 by auto
  qed (use far in blast)+
qed simp

section \<open>Allocation\<close>

lemma block_okD:
  assumes "block_ok m b ss"
  shows "b \<noteq> 0" "fits (block_data b) (units ss)" "full (block_data b) (units ss) m"
    "seg (block_data b) (view (block_data b) (units ss) m) 0 None ss" "\<forall>(l, f) \<in> set ss. 1 \<le> l" "ss \<noteq> []"
  using assms seg_pos [of "block_data b" _ 0 None ss] by (auto simp: block_ok_def)

lemma best_fit_block:
  assumes ok: "block_ok m b ss" and blk: "blocks m b = Some blk"
  shows "best_fit m (BLOCK_END b blk) n (bottom blk) 0 0 = Some (best_pair (block_data b) (pick n 0 ss None))"
    "BLOCK_END b blk = adr (block_data b) (2 * units ss)"
proof -
  note B = block_okD [OF ok]
  have k: "bsize blk = 8 * units ss" "bottom blk = block_data b" using ok blk by (auto simp: block_ok_def)
  then show e: "BLOCK_END b blk = adr (block_data b) (2 * units ss)" by (simp add: block_end)
  show "best_fit m (BLOCK_END b blk) n (bottom blk) 0 0 = Some (best_pair (block_data b) (pick n 0 ss None))"
    using best_fit_ok [OF B(2) B(4), of None n] k unfolding e by (simp add: best_pair_def)
qed

lemma block_malloc_none:
  assumes ok: "block_ok m b ss" and blk: "blocks m b = Some blk" and sz: "0 < sz" "sz + 15 < 2 ^ 32"
    and no: "bfree blk < need sz \<or> (\<forall>s \<in> set ss. \<not> fit (need sz) s)"
  shows "block_malloc m b sz = Some (0, m)"
proof (cases "bfree blk < need sz")
  case True
  then show ?thesis using need_bounds(3) [OF sz(2)] blk by (simp add: block_malloc_def)
next
  case False
  then have n: "\<forall>s \<in> set ss. \<not> fit (need sz) s" using no by blast
  have "pick (need sz) 0 ss None = None"
    using pick_spec [where n = "need sz" and i = 0 and ss = ss and best = None] n by (fastforce simp: fit_def split: option.splits)
  then show ?thesis using False need_bounds [OF sz(2)] blk best_fit_block(1) [OF ok blk, of "need sz"]
    by (simp add: block_malloc_def best_pair_def)
qed

lemma block_malloc_start:
  assumes ok: "block_ok m b ss" and blk: "blocks m b = Some blk" and sz: "0 < sz" "sz + 15 < 2 ^ 32" and n: "n = need sz" "n \<le> bfree blk"
    and p: "pick n 0 ss None = Some (a, l)" and d: "d = block_data b" and s: "ss = xs @ (l, True) # ys" "a = units xs" and nl: "n \<le> l"
  shows "a + l \<le> units ss" "1 \<le> l" "chunk_mem_size m (adr d (2 * a)) = Some l" "chunk_next m (adr d (2 * a)) = Some (adr d (2 * (a + l)))"
    "view d (units ss) m (2 * a + 1) = Some (mark True (adr d (2 * (a + l))))"
    "block_malloc m b sz = do {
       (ret, m1) \<leftarrow>
         (if l - n < MIN_CHUNK_SIZE then Some (adr d (2 * a), m)
          else do {
            m1 \<leftarrow> wr m (adr d (2 * (a + l - n) + 1)) (mark True (adr d (2 * (a + l))));
            Some (adr d (2 * (a + l - n)), m1) });
       m2 \<leftarrow> clr_freebit m1 ret;
       m3 \<leftarrow>
         (if adr d (2 * a) \<noteq> ret then do {
            m \<leftarrow> wr m2 ret (adr d (2 * a));
            nx \<leftarrow> chunk_next m (adr d (2 * a));
            m \<leftarrow> (if nx \<noteq> adr d (2 * units ss) then wr m nx ret else Some m);
            m \<leftarrow> wr m (adr d (2 * a) + 4) ret;
            set_freebit m (adr d (2 * a)) }
          else Some m2);
       Some (CHUNK_FIRST ret, m3\<lparr>blocks := (blocks m3)(b \<mapsto> blk\<lparr>bfree := u4_sub (bfree blk) n\<rparr>)\<rparr>) }"
proof -
  note B = block_okD [OF ok, folded d]
  show al: "a + l \<le> units ss" using s by simp
  have h: "view d (units ss) m (2 * a + 1) = Some (mark True (adr d (2 * (a + l))))" and l: "1 \<le> l"
    using B(4) unfolding s(1) seg_append by (auto simp: s(2))
  show "1 \<le> l" by (rule l)
  show h': "view d (units ss) m (2 * a + 1) = Some (mark True (adr d (2 * (a + l))))" by (rule h)
  note H = header_reads [OF B(2) h _ al]
  show cs: "chunk_mem_size m (adr d (2 * a)) = Some l" using H(3) by simp
  show nx: "chunk_next m (adr d (2 * a)) = Some (adr d (2 * (a + l)))" using H(2) by simp
  have bp: "best_pair d (pick n 0 ss None) = (adr d (2 * a), l)" unfolding p by (simp add: best_pair_def)
  have nz: "adr d (2 * a) \<noteq> 0" using adr_nz [OF B(2)] al by simp
  have lb: "l < 2 ^ 32" using al B(2) unfolding fits_def by auto
  have sub: "u4_sub l n = l - n" using u4_sub_small [OF nl lb] .
  have cn: "cells m (adr d (2 * a) + 4) = Some (mark True (adr d (2 * (a + l))))" using view_cell [OF h] by simp
  have "adr d (2 * (a + l - n)) + of_nat (4 * (2 * n)) = adr d (2 * (a + l))" unfolding adr_add using nl by (simp add: algebra_simps)
  then have r: "adr d (2 * (a + l)) - of_nat (UNIT_SIZE * n) = adr d (2 * (a + l - n))" by (simp add: UNIT_SIZE_def algebra_simps)
  have nb: "n mod 2 ^ 32 = n" "ALIGN_SIZE (u4_add sz UNIT_SIZE) UNIT_SIZE = n" using need_bounds [OF sz(2)] n(1) by simp_all
  note bf = best_fit_block(1) [OF ok blk, of n, folded d] best_fit_block(2) [OF ok blk, folded d]
  show "block_malloc m b sz = do {
       (ret, m1) \<leftarrow>
         (if l - n < MIN_CHUNK_SIZE then Some (adr d (2 * a), m)
          else do {
            m1 \<leftarrow> wr m (adr d (2 * (a + l - n) + 1)) (mark True (adr d (2 * (a + l))));
            Some (adr d (2 * (a + l - n)), m1) });
       m2 \<leftarrow> clr_freebit m1 ret;
       m3 \<leftarrow>
         (if adr d (2 * a) \<noteq> ret then do {
            m \<leftarrow> wr m2 ret (adr d (2 * a));
            nx \<leftarrow> chunk_next m (adr d (2 * a));
            m \<leftarrow> (if nx \<noteq> adr d (2 * units ss) then wr m nx ret else Some m);
            m \<leftarrow> wr m (adr d (2 * a) + 4) ret;
            set_freebit m (adr d (2 * a)) }
          else Some m2);
       Some (CHUNK_FIRST ret, m3\<lparr>blocks := (blocks m3)(b \<mapsto> blk\<lparr>bfree := u4_sub (bfree blk) n\<rparr>)\<rparr>) }"
    using B(1) sz(1) blk n(2) nz bf(1) r cs nx cn sub nb(1)
    by (simp add: block_malloc_def nb(2) bp bf(2) Let_def split del: if_split cong: if_cong)
qed

lemma CHUNK_FIRST_adr: "CHUNK_FIRST (adr d k) = adr d (k + 2)"
  by (simp add: CHUNK_FIRST_def UNIT_SIZE_def)

lemma block_malloc_take:
  assumes ok: "block_ok m b ss" and blk: "blocks m b = Some blk" and sz: "0 < sz" "sz + 15 < 2 ^ 32" and n: "n = need sz" "n \<le> bfree blk"
    and p: "pick n 0 ss None = Some (a, l)" and d: "d = block_data b" and s: "ss = xs @ (l, True) # ys" "a = units xs" and nl: "n \<le> l"
    and whole: "l - n < MIN_CHUNK_SIZE"
  shows "\<exists>m'. block_malloc m b sz = Some (adr d (2 * a + 2), m') \<and> blocks m' = (blocks m)(b \<mapsto> blk\<lparr>bfree := u4_sub (bfree blk) n\<rparr>) \<and>
    same_out d (units ss) m m' \<and> view d (units ss) m' = (view d (units ss) m)(2 * a + 1 \<mapsto> adr d (2 * (a + l)))"
proof -
  note B = block_okD [OF ok, folded d] and S = block_malloc_start [OF assms(1-11)]
  have aU: "a < units ss" using S(1,2) by simp
  let ?m = "put d m (2 * a + 1) (adr d (2 * (a + l)))"
  have clr: "clr_freebit m (adr d (2 * a)) = Some ?m"
    using freebit_put(2) [OF B(2,3) S(5) aU] mark_simps(2) [OF adr_even [OF B(2)], of True "2 * (a + l)"] by simp
  have "block_malloc m b sz = Some (adr d (2 * a + 2), ?m\<lparr>blocks := (blocks ?m)(b \<mapsto> blk\<lparr>bfree := u4_sub (bfree blk) n\<rparr>)\<rparr>)"
    using clr whole unfolding S(6) CHUNK_FIRST_adr [symmetric] by simp
  then show ?thesis using aU same_out_put [OF same_out_refl(1), of "2 * a + 1"] view_put [OF B(2), of "2 * a + 1"] by simp
qed

lemma block_malloc_split:
  assumes ok: "block_ok m b ss" and blk: "blocks m b = Some blk" and sz: "0 < sz" "sz + 15 < 2 ^ 32" and n: "n = need sz" "n \<le> bfree blk"
    and p: "pick n 0 ss None = Some (a, l)" and d: "d = block_data b" and s: "ss = xs @ (l, True) # ys" "a = units xs" and nl: "n \<le> l"
    and cut: "MIN_CHUNK_SIZE \<le> l - n" and i: "i = a + (l - n)"
  shows "\<exists>m' w. block_malloc m b sz = Some (adr d (2 * i + 2), m') \<and> blocks m' = (blocks m)(b \<mapsto> blk\<lparr>bfree := u4_sub (bfree blk) n\<rparr>) \<and>
    same_out d (units ss) m m' \<and> view d (units ss) m' = w \<and>
    w (2 * a + 1) = Some (mark True (adr d (2 * i))) \<and> w (2 * i) = Some (adr d (2 * a)) \<and> w (2 * i + 1) = Some (adr d (2 * (a + l))) \<and>
    (ys \<noteq> [] \<longrightarrow> w (2 * (a + l)) = Some (adr d (2 * i))) \<and>
    (\<forall>k. k \<notin> {2 * a + 1, 2 * i, 2 * i + 1} \<and> (ys \<noteq> [] \<longrightarrow> k \<noteq> 2 * (a + l)) \<longrightarrow> w k = view d (units ss) m k)"
proof -
  note B = block_okD [OF ok, folded d] and S = block_malloc_start [OF assms(1-11)]
  define U where "U = units ss"
  note B = B [folded U_def] and S = S [folded U_def]
  have "0 < n" using need_bounds(4) [OF sz(2)] n(1) by simp
  moreover have "24 \<le> l - n" using cut by (simp add: MIN_CHUNK_SIZE_def UNIT_SIZE_def)
  ultimately have ai: "a < i" "i < a + l" "a + l - n = i" "a + l \<le> U" "i < U" "a < U" using i nl S(1) by auto
  have ne: "adr d (2 * a) \<noteq> adr d (2 * i)" using adr_inj [OF B(2), of "2 * a" "2 * i"] ai by simp
  have "units ys = 0 \<longleftrightarrow> ys = []" using B(5) unfolding s(1) by (cases ys) auto
  then have last: "a + l = U \<longleftrightarrow> ys = []" using s by (simp add: U_def)
  have "adr d (2 * (a + l)) = adr d (2 * U) \<longleftrightarrow> 2 * (a + l) = 2 * U" by (rule adr_inj [OF B(2)]) (use ai(4) in simp_all)
  then have nx: "(adr d (2 * (a + l)) \<noteq> adr d (2 * U)) \<longleftrightarrow> ys \<noteq> []" unfolding last [symmetric] by presburger
  have yl: "a + l < U" if "ys \<noteq> []" using that last ai(4) by simp
  let ?x = "mark True (adr d (2 * (a + l)))" and ?nx = "adr d (2 * (a + l))"
  define m1 where "m1 = put d m (2 * i + 1) ?x"
  define m2 where "m2 = put d m1 (2 * i + 1) ?nx"
  define m3 where "m3 = put d m2 (2 * i) (adr d (2 * a))"
  define m4 where "m4 = (if ys \<noteq> [] then put d m3 (2 * (a + l)) (adr d (2 * i)) else m3)"
  define m5 where "m5 = put d m4 (2 * a + 1) (adr d (2 * i))"
  define m6 where "m6 = put d m5 (2 * a + 1) (adr d (2 * i) OR 1)"
  have f1: "full d U m1" and v1: "view d U m1 = (view d U m)(2 * i + 1 \<mapsto> ?x)"
    unfolding m1_def using full_put [OF B(2,3)] view_put [OF B(2)] ai by simp_all
  have f2: "full d U m2" and v2: "view d U m2 = (view d U m)(2 * i + 1 \<mapsto> ?nx)"
    unfolding m2_def using full_put [OF B(2) f1] view_put [OF B(2)] ai v1 by simp_all
  have f3: "full d U m3" and v3: "view d U m3 = (view d U m2)(2 * i \<mapsto> adr d (2 * a))"
    unfolding m3_def using full_put [OF B(2) f2] view_put [OF B(2)] ai by simp_all
  have f4: "full d U m4" and v4: "view d U m4 = (if ys \<noteq> [] then (view d U m3)(2 * (a + l) \<mapsto> adr d (2 * i)) else view d U m3)"
    unfolding m4_def using full_put [OF B(2) f3, of "2 * (a + l)"] view_put [OF B(2), of "2 * (a + l)"] yl f3 by auto
  have f5: "full d U m5" and v5: "view d U m5 = (view d U m4)(2 * a + 1 \<mapsto> adr d (2 * i))"
    unfolding m5_def using full_put [OF B(2) f4] view_put [OF B(2)] ai by simp_all
  have v6: "view d U m6 = (view d U m4)(2 * a + 1 \<mapsto> mark True (adr d (2 * i)))"
    unfolding m6_def using view_put [OF B(2)] v5 ai by (simp add: mark_def)
  have w1: "wr m (adr d (2 * i + 1)) ?x = Some m1" using wr_put [OF B(2,3), of "2 * i + 1"] ai by (simp add: m1_def)
  have w2: "clr_freebit m1 (adr d (2 * i)) = Some m2"
    using freebit_put(2) [OF B(2) f1, of i ?x] v1 ai mark_simps(2) [OF adr_even [OF B(2)], of True "2 * (a + l)"] by (simp add: m2_def)
  have w3: "wr m2 (adr d (2 * i)) (adr d (2 * a)) = Some m3" using wr_put [OF B(2) f2, of "2 * i"] ai by (simp add: m3_def)
  have h3: "view d U m3 (2 * a + 1) = Some ?x" using v3 v2 S(5) ai by auto
  have w4: "chunk_next m3 (adr d (2 * a)) = Some ?nx" using header_reads(2) [OF B(2) h3] ai by simp
  have w5: "(if ?nx \<noteq> adr d (2 * U) then wr m3 ?nx (adr d (2 * i)) else Some m3) = Some m4"
    unfolding nx m4_def using wr_put [OF B(2) f3, of "2 * (a + l)"] yl by auto
  have w6: "wr m4 (adr d (2 * a) + 4) (adr d (2 * i)) = Some m5" using wr_put [OF B(2) f4, of "2 * a + 1"] ai by (simp add: m5_def)
  have w7: "set_freebit m5 (adr d (2 * a)) = Some m6" using freebit_put(1) [OF B(2) f5, of a "adr d (2 * i)"] v5 ai by (simp add: m6_def)
  have run: "block_malloc m b sz = Some (adr d (2 * i + 2), m6\<lparr>blocks := (blocks m)(b \<mapsto> blk\<lparr>bfree := u4_sub (bfree blk) n\<rparr>)\<rparr>)"
  proof -
    have "\<not> l - n < MIN_CHUNK_SIZE" using cut by simp
    moreover have "blocks m6 = blocks m" by (simp add: m6_def m5_def m4_def m3_def m2_def m1_def)
    ultimately show ?thesis unfolding S(6) ai(3) CHUNK_FIRST_adr [symmetric] using w1 w2 w3 w4 w5 w6 w7 ne by (simp split del: if_split cong: if_cong)
  qed
  have out: "same_out d U m m6"
    unfolding m6_def m5_def m4_def m3_def m2_def m1_def using ai yl by (auto intro!: same_out_put)
  define w where "w = view d U m6"
  obtain q where q: "q = 2 * (a + l)" by blast
  have dst: "2 * i \<noteq> 2 * a + 1" "2 * i + 1 \<noteq> 2 * a + 1" "2 * i \<noteq> q" "2 * i + 1 \<noteq> q" "2 * a + 1 \<noteq> q"
    unfolding q using ai(1,2) by presburger+
  have W: "w (2 * a + 1) = Some (mark True (adr d (2 * i)))" "w (2 * i) = Some (adr d (2 * a))" "w (2 * i + 1) = Some ?nx"
      "ys \<noteq> [] \<longrightarrow> w (2 * (a + l)) = Some (adr d (2 * i))"
      "\<forall>k. k \<notin> {2 * a + 1, 2 * i, 2 * i + 1} \<and> (ys \<noteq> [] \<longrightarrow> k \<noteq> 2 * (a + l)) \<longrightarrow> w k = view d U m k"
    unfolding w_def v6 v4 v3 v2 q [symmetric] using dst by auto
  show ?thesis unfolding U_def [symmetric] using run out W
    by (intro exI [of _ "m6\<lparr>blocks := (blocks m)(b \<mapsto> blk\<lparr>bfree := u4_sub (bfree blk) n\<rparr>)\<rparr>"] exI [of _ w]) (simp add: w_def)
qed

text \<open>The chunks after an allocation, and the unit at which the new one starts.\<close>

definition cut_segs :: "nat \<Rightarrow> segs \<Rightarrow> nat \<Rightarrow> segs \<Rightarrow> nat \<times> segs" where
  "cut_segs n xs l ys =
     (if l - n < MIN_CHUNK_SIZE then (units xs, xs @ (l, False) # ys)
      else (units xs + (l - n), xs @ (l - n, True) # (n, False) # ys))"

lemma block_ok_update:
  assumes "block_ok m b ss" "blocks m b = Some blk" "blocks m' b = Some (blk\<lparr>bfree := x\<rparr>)" "units ss' = units ss" "ss' \<noteq> []"
    "\<And>k. view (block_data b) (units ss) m k \<noteq> None \<Longrightarrow> view (block_data b) (units ss) m' k \<noteq> None"
    "seg (block_data b) (view (block_data b) (units ss) m') 0 None ss'"
  shows "block_ok m' b ss'"
  using assms by (auto simp: block_ok_def full_def)

lemma block_malloc_ok:
  assumes ok: "block_ok m b ss" and blk: "blocks m b = Some blk" and sz: "0 < sz" "sz + 15 < 2 ^ 32"
    and some: "need sz \<le> bfree blk" "\<exists>s \<in> set ss. fit (need sz) s" and d: "d = block_data b" and U: "U = units ss"
  shows "\<exists>xs l ys i ss' m'. ss = xs @ (l, True) # ys \<and> need sz \<le> l \<and> (\<forall>s \<in> set ss. fit (need sz) s \<longrightarrow> l \<le> fst s) \<and>
    cut_segs (need sz) xs l ys = (i, ss') \<and> block_malloc m b sz = Some (adr d (2 * i + 2), m') \<and>
    blocks m' = (blocks m)(b \<mapsto> blk\<lparr>bfree := u4_sub (bfree blk) (need sz)\<rparr>) \<and> same_out d U m m' \<and>
    (\<forall>k. k \<notin> headers 0 ss' \<longrightarrow> view d U m' k = view d U m k) \<and> view d U m' (2 * i + 1) = Some (adr d (2 * (units xs + l))) \<and>
    ((ys \<noteq> [] \<longrightarrow> view d U m' (2 * (units xs + l)) = Some (adr d (2 * i))) \<longrightarrow> block_ok m' b ss')"
proof -
  note B = block_okD [OF ok, folded d U]
  define n where "n = need sz"
  have "pick n 0 ss None \<noteq> None"
    using pick_spec [where n = n and i = 0 and ss = ss and best = None] some(2) unfolding n_def by (auto split: option.splits)
  then obtain a l where p: "pick n 0 ss None = Some (a, l)" by auto
  then obtain xs ys where s: "ss = xs @ (l, True) # ys" "a = units xs" and nl: "n \<le> l" and min: "\<forall>s \<in> set ss. fit n s \<longrightarrow> l \<le> fst s"
    using pick_spec [where n = n and i = 0 and ss = ss and best = None] by auto
  have n1: "1 \<le> n" using need_bounds(4) [OF sz(2)] by (simp add: n_def)
  note pre = ok blk sz n_def some(1) [folded n_def] p d s nl
  have sg: "seg d (view d U m) 0 None (xs @ (l, True) # ys)" using B(4) s(1) by simp
  show ?thesis
  proof (cases "l - n < MIN_CHUNK_SIZE")
    case True
    obtain m' where m': "block_malloc m b sz = Some (adr d (2 * a + 2), m')" "blocks m' = (blocks m)(b \<mapsto> blk\<lparr>bfree := u4_sub (bfree blk) n\<rparr>)"
        "same_out d U m m'" "view d U m' = (view d U m)(2 * a + 1 \<mapsto> adr d (2 * (a + l)))"
      using block_malloc_take [OF pre True, folded U] by blast
    let ?s = "xs @ (l, False) # ys"
    have "cut_segs n xs l ys = (a, ?s)" using True s(2) by (simp add: cut_segs_def)
    moreover have "\<forall>k. k \<notin> headers 0 ?s \<longrightarrow> view d U m' k = view d U m k" using m'(4) s(2) by (auto simp: headers_append)
    moreover have "block_ok m' b ?s" if g: "ys \<noteq> [] \<longrightarrow> view d U m' (2 * (units xs + l)) = Some (adr d (2 * a))"
    proof -
      have l1: "1 \<le> l" using nl n1 by simp
      have bl: "back_link d (view d U m) (a + l) (Some (l, False))" if "ys \<noteq> []"
      proof -
        have "2 * (a + l) \<noteq> 2 * a + 1" by presburger
        then have "view d U m (2 * (a + l)) = Some (adr d (2 * a))" using g that m'(4) s(2) by simp
        then show ?thesis using l1 by (auto simp: back_link_def)
      qed
      have "seg d (view d U m') 0 None ?s"
        by (rule seg_relink [OF sg s(2) bl]) (simp_all add: m'(4) mark_def)
      then show ?thesis using block_ok_update [OF ok blk, of m' _ ?s] m'(2,4) s(1) d U by auto
    qed
    moreover have "view d U m' (2 * a + 1) = Some (adr d (2 * (units xs + l)))" using m'(4) s(2) by simp
    ultimately show ?thesis using s(1) nl min m'(1-3) unfolding n_def by blast
  next
    case False
    then have "n < l" by (simp add: MIN_CHUNK_SIZE_def UNIT_SIZE_def)
    define i where "i = a + (l - n)"
    have ge: "MIN_CHUNK_SIZE \<le> l - n" using False by simp
    obtain m' w where m': "block_malloc m b sz = Some (adr d (2 * i + 2), m')" "blocks m' = (blocks m)(b \<mapsto> blk\<lparr>bfree := u4_sub (bfree blk) n\<rparr>)"
        "same_out d U m m'" "view d U m' = w" "w (2 * a + 1) = Some (mark True (adr d (2 * i)))" "w (2 * i) = Some (adr d (2 * a))"
        "w (2 * i + 1) = Some (adr d (2 * (a + l)))" "ys \<noteq> [] \<longrightarrow> w (2 * (a + l)) = Some (adr d (2 * i))"
        "\<forall>k. k \<notin> {2 * a + 1, 2 * i, 2 * i + 1} \<and> (ys \<noteq> [] \<longrightarrow> k \<noteq> 2 * (a + l)) \<longrightarrow> w k = view d U m k"
      using block_malloc_split [OF pre ge i_def, folded U] by blast
    let ?s = "xs @ (l - n, True) # (n, False) # ys"
    have c: "cut_segs n xs l ys = (i, ?s)" using False s(2) by (simp add: cut_segs_def i_def)
    have us: "units ?s = U" using U s(1) \<open>n < l\<close> by simp
    have "seg d w 0 None ?s"
      by (rule seg_split [OF B(2) sg _ n1 \<open>n < l\<close> s(2) i_def]) (use m' U s(1) in auto)
    moreover have "view d U m' k \<noteq> None" if "view d U m k \<noteq> None" for k
      using that m'(4-9) by (cases "k \<in> {2 * a + 1, 2 * i, 2 * i + 1} \<or> (ys \<noteq> [] \<and> k = 2 * (a + l))") auto
    ultimately have "block_ok m' b ?s" using block_ok_update [OF ok blk, of m' _ ?s] m'(2,4) us d U by auto
    moreover have "\<forall>k. k \<notin> headers 0 ?s \<longrightarrow> view d U m' k = view d U m k"
    proof (intro allI impI)
      fix k assume k: "k \<notin> headers 0 ?s"
      have "headers 0 ?s = headers 0 xs \<union> ({2 * a, 2 * a + 1} \<union> ({2 * i, 2 * i + 1} \<union> headers (a + l) ys))"
        using \<open>n < l\<close> s(2) by (simp add: headers_append i_def)
      then have "k \<notin> {2 * a + 1, 2 * i, 2 * i + 1}" "k \<notin> headers (a + l) ys" using k by auto
      moreover have "ys \<noteq> [] \<longrightarrow> 2 * (a + l) \<in> headers (a + l) ys" by (cases ys) auto
      ultimately show "view d U m' k = view d U m k" using m'(4,9) by auto
    qed
    moreover have "view d U m' (2 * i + 1) = Some (adr d (2 * (units xs + l)))" using m'(4,7) s(2) by simp
    ultimately show ?thesis using s(1) nl min m'(1-3) c unfolding n_def by blast
  qed
qed

section \<open>Giving back\<close>

text \<open>The two halves of \<open>block_free\<close> behind the new mark: joining with the next chunk and with the previous one.\<close>

definition free_next :: "pool_mem \<Rightarrow> u4 \<Rightarrow> u4 \<Rightarrow> u4 \<Rightarrow> nat \<Rightarrow> (pool_mem \<times> nat) option" where
  "free_next m block_end chunk nx fr =
     (if nx \<noteq> block_end then do {
        f \<leftarrow> get_freebit m nx;
        if f \<noteq> 0 then do { nn \<leftarrow> cells m (nx + 4); m \<leftarrow> wr m (chunk + 4) nn; Some (m, u4_add fr UNIT_SIZE) }
        else Some (m, fr) }
      else Some (m, fr))"

definition free_prev :: "pool_mem \<Rightarrow> u4 \<Rightarrow> u4 \<Rightarrow> nat \<Rightarrow> (pool_mem \<times> nat) option" where
  "free_prev m chunk pre fr =
     (if pre \<noteq> 0 then do {
        f \<leftarrow> get_freebit m pre;
        if f \<noteq> 0 then do { cn \<leftarrow> cells m (chunk + 4); m \<leftarrow> wr m (pre + 4) cn; Some (m, u4_add fr UNIT_SIZE) }
        else Some (m, fr) }
      else Some (m, fr))"

lemma free_next_ok:
  assumes f: "fits d U" and fl: "full d U m" and s: "seg d (view d U m) 0 None (xs @ (l, True) # ys)" "units (xs @ (l, True) # ys) = U"
    and a: "a = units xs"
  shows "\<exists>m' fr' l' ys'. free_next m (adr d (2 * U)) (adr d (2 * a)) (adr d (2 * (a + l))) fr = Some (m', fr') \<and> full d U m' \<and>
    blocks m' = blocks m \<and> same_out d U m m' \<and> seg d (view d U m') 0 None (xs @ (l', True) # ys') \<and> units (xs @ (l', True) # ys') = U \<and>
    lives (a + l') ys' = lives (a + l) ys \<and> l \<le> l' \<and> (\<forall>k. k \<noteq> 2 * a + 1 \<longrightarrow> view d U m' k = view d U m k)"
proof (cases ys)
  case Nil
  then show ?thesis using s fl a by (intro exI [of _ m] exI [of _ fr] exI [of _ l] exI [of _ ys]) (simp add: free_next_def)
next
  case (Cons x zs)
  obtain l2 f2 where x: "x = (l2, f2)" by (cases x)
  have h: "view d U m (2 * (a + l) + 1) = Some (mark f2 (adr d (2 * (a + l + l2))))" and l2: "1 \<le> l2" and l: "1 \<le> l"
    using s(1) unfolding seg_append Cons x by (auto simp: a add.assoc)
  have U: "a + l + l2 \<le> U" using s(2) a unfolding Cons x by simp
  have "adr d (2 * (a + l)) = adr d (2 * U) \<longleftrightarrow> 2 * (a + l) = 2 * U" by (rule adr_inj [OF f]) (use U in simp_all)
  then have ne: "adr d (2 * (a + l)) \<noteq> adr d (2 * U)" using U l2 by presburger
  have g: "get_freebit m (adr d (2 * (a + l))) = Some (if f2 then 1 else 0)" using header_reads(1) [OF f h _ U] by simp
  show ?thesis
  proof (cases f2)
    case False
    then have "free_next m (adr d (2 * U)) (adr d (2 * a)) (adr d (2 * (a + l))) fr = Some (m, fr)" using g ne by (simp add: free_next_def)
    then show ?thesis using s fl a by (intro exI [of _ m] exI [of _ fr] exI [of _ l] exI [of _ ys]) simp
  next
    case True
    let ?v = "mark True (adr d (2 * (a + (l + l2))))" and ?m = "put d m (2 * a + 1) (mark True (adr d (2 * (a + (l + l2)))))"
    have c: "cells m (adr d (2 * (a + l)) + 4) = Some ?v" using view_cell [OF h] True by (simp add: add.assoc)
    have aU: "2 * a + 1 < 2 * U" using U l by simp
    have "wr m (adr d (2 * a) + 4) ?v = Some ?m" using wr_put [OF f fl aU, of ?v] by simp
    then have run: "free_next m (adr d (2 * U)) (adr d (2 * a)) (adr d (2 * (a + l))) fr = Some (?m, u4_add fr UNIT_SIZE)"
      using g ne c True by (simp add: free_next_def)
    have v: "view d U ?m = (view d U m)(2 * a + 1 \<mapsto> ?v)" by (rule view_put [OF f aU])
    have "seg d (view d U ?m) 0 None (xs @ (l + l2, True) # zs)" unfolding v
      by (rule seg_join [OF _ a refl]) (use s(1) Cons x True in simp)
    moreover have "units (xs @ (l + l2, True) # zs) = U" using s(2) unfolding Cons x by (simp add: add.assoc)
    moreover have "lives (a + (l + l2)) zs = lives (a + l) ys" unfolding Cons x using True by (simp add: add.assoc)
    ultimately show ?thesis using run full_put [OF f fl aU] same_out_put [OF same_out_refl(1) aU] v
      by (intro exI [of _ ?m] exI [of _ "u4_add fr UNIT_SIZE"] exI [of _ "l + l2"] exI [of _ zs]) simp
  qed
qed

lemma last_seg_snoc: "xs = ps @ [s] \<Longrightarrow> last_seg None xs = Some s"
  by simp

lemma free_prev_ok:
  assumes f: "fits d U" and fl: "full d U m" and s: "seg d (view d U m) 0 None (xs @ (l, True) # ys)" "units (xs @ (l, True) # ys) = U"
    and a: "a = units xs" and pre: "view d U m (2 * a) = Some pre"
  shows "\<exists>m' fr' ss' t. free_prev m (adr d (2 * a)) pre fr = Some (m', fr') \<and> full d U m' \<and>
    blocks m' = blocks m \<and> same_out d U m m' \<and> seg d (view d U m') 0 None ss' \<and> units ss' = U \<and> ss' \<noteq> [] \<and>
    lives 0 ss' = lives 0 (xs @ (l, True) # ys) \<and> t \<le> a \<and> (\<forall>c \<in> lives 0 xs. fst c + snd c \<le> t) \<and>
    (\<forall>k. k < 2 * t \<or> 2 * a \<le> k \<longrightarrow> view d U m' k = view d U m k)"
proof (cases xs rule: rev_cases)
  case Nil
  then have "pre = 0" using s(1) a pre by (simp add: back_link_def)
  then have "free_prev m (adr d (2 * a)) pre fr = Some (m, fr)" by (simp add: free_prev_def)
  then show ?thesis using s fl Nil by (intro exI [of _ m] exI [of _ fr] exI [of _ "xs @ (l, True) # ys"] exI [of _ a]) simp
next
  case (snoc ps p)
  obtain l0 f0 where p: "p = (l0, f0)" by (cases p)
  have bl: "back_link d (view d U m) a (Some (l0, f0))" and h: "view d U m (2 * a + 1) = Some (mark True (adr d (2 * (a + l))))" and l: "1 \<le> l"
    using s(1) last_seg_snoc [OF snoc] unfolding seg_append by (auto simp: a p)
  then obtain j where j: "a \<le> j + l0" "j < a" "pre = adr d (2 * j)" "f0 \<or> a = j + l0" using pre by (auto simp: back_link_def)
  have U: "a + l \<le> U" using s(2) a by simp
  have al: "a = units ps + l0" using a snoc p by simp
  have low: "fst c + snd c \<le> units ps" if "c \<in> lives 0 xs" f0 for c
    using that lives_bound [of "fst c" "snd c" 0 ps] snoc p by (auto simp: lives_append)
  have nz: "pre \<noteq> 0" using adr_nz [OF f] j(2,3) U by simp
  have jU: "2 * j + 1 < 2 * U" using j(2) U by simp
  then obtain v where v: "view d U m (2 * j + 1) = Some v" using fl unfolding full_def by blast
  have g: "get_freebit m pre = Some (v AND 1)" using view_cell [OF v] j(3) by (simp add: get_freebit_def)
  have cn: "cells m (adr d (2 * a) + 4) = Some (mark True (adr d (2 * (a + l))))" using view_cell [OF h] by simp
  show ?thesis
  proof (cases "v AND 1 = 0")
    case True
    then have "free_prev m (adr d (2 * a)) pre fr = Some (m, fr)" using g nz by (simp add: free_prev_def)
    then show ?thesis using s fl lives_bound [of _ _ 0 xs] a
      by (intro exI [of _ m] exI [of _ fr] exI [of _ "xs @ (l, True) # ys"] exI [of _ a]) auto
  next
    case False
    let ?v = "mark True (adr d (2 * (a + l)))" and ?m = "put d m (2 * j + 1) (mark True (adr d (2 * (a + l))))"
    have "wr m (pre + 4) ?v = Some ?m" using wr_put [OF f fl jU, of ?v] j(3) by simp
    then have run: "free_prev m (adr d (2 * a)) pre fr = Some (?m, u4_add fr UNIT_SIZE)" using g nz cn False by (simp add: free_prev_def)
    have vw: "view d U ?m = (view d U m)(2 * j + 1 \<mapsto> ?v)" by (rule view_put [OF f jU])
    have f0: f0
    proof (rule ccontr)
      assume "\<not> f0"
      then have "a = j + l0" using j(4) by blast
      then have "v = mark f0 (adr d (2 * a))" using s(1) v al unfolding seg_append snoc p by simp
      then show False using False \<open>\<not> f0\<close> mark_simps(1) [OF adr_even [OF f], of f0 "2 * a"] by simp
    qed
    have tj: "units ps \<le> j" using j(1) al by simp
    have frame: "view d U ?m k = view d U m k" if "k < 2 * units ps \<or> 2 * a \<le> k" for k using that vw tj j(2) by auto
    have "\<exists>ss'. seg d (view d U ?m) 0 None ss' \<and> units ss' = U \<and> ss' \<noteq> [] \<and> lives 0 ss' = lives 0 (xs @ (l, True) # ys)"
    proof (cases "j = units ps")
      case True
      have e: "a + l = j + (l0 + l)" using al True by simp
      have "seg d (view d U ?m) 0 None (ps @ (l0 + l, True) # ys)" unfolding vw
        by (rule seg_join [OF _ True]) (use s(1) snoc p f0 in simp, simp only: e)
      moreover have "lives 0 (ps @ (l0 + l, True) # ys) = lives 0 (xs @ (l, True) # ys)" using snoc p f0 by (simp add: lives_append add.assoc)
      moreover have "units (ps @ (l0 + l, True) # ys) = U" using s(2) snoc p by (simp add: add.assoc)
      ultimately show ?thesis by blast
    next
      case False
      have "2 * j + 1 \<notin> headers 0 (xs @ (l, True) # ys)"
      proof
        assume "2 * j + 1 \<in> headers 0 (xs @ (l, True) # ys)"
        moreover have "k < 2 * units ps" if "k \<in> headers 0 ps" for k
          using headers_bound [OF _ that] seg_pos [OF s(1)] snoc by auto
        moreover have "2 * (a + l) \<le> k" if "k \<in> headers (a + l) ys" for k
          using headers_bound [OF _ that] seg_pos [OF s(1)] by auto
        ultimately show False using False tj j(2) al unfolding snoc p by (fastforce simp: headers_append)
      qed
      then have "view d U ?m k = view d U m k" if "k \<in> headers 0 (xs @ (l, True) # ys)" for k using that vw by auto
      then have "seg d (view d U ?m) 0 None (xs @ (l, True) # ys)" by (rule seg_frame [OF s(1)])
      then show ?thesis using s(2) by blast
    qed
    then obtain ss' where ss': "seg d (view d U ?m) 0 None ss'" "units ss' = U" "ss' \<noteq> []" "lives 0 ss' = lives 0 (xs @ (l, True) # ys)" by blast
    show ?thesis using run full_put [OF f fl jU] same_out_put [OF same_out_refl(1) jU] ss' frame low f0 al
      by (intro exI [of _ ?m] exI [of _ "u4_add fr UNIT_SIZE"] exI [of _ ss'] exI [of _ "units ps"]) auto
  qed
qed

lemma block_free_ok:
  assumes ok: "block_ok m b ss" and blk: "blocks m b = Some blk" and s: "ss = xs @ (l, False) # ys" "a = units xs" "2 \<le> l"
    and d: "d = block_data b" and U: "U = units ss"
  shows "\<exists>m' fr ss'. block_free m b (adr d (2 * a + 2)) = Some (0, m') \<and> blocks m' = (blocks m)(b \<mapsto> blk\<lparr>bfree := fr\<rparr>) \<and>
    same_out d U m m' \<and> block_ok m' b ss' \<and> units ss' = U \<and> lives 0 ss' = lives 0 ss - {(a, l)} \<and>
    (\<forall>c \<in> lives 0 ss'. \<forall>k \<in> payload_words c. view d U m' k = view d U m k)"
proof -
  note B = block_okD [OF ok, folded d U]
  have al: "a + l \<le> U" "a < U" using U s by auto
  have h: "view d U m (2 * a + 1) = Some (adr d (2 * (a + l)))" and bk: "seg d (view d U m) (a + l) (Some (l, False)) ys"
    and b0: "back_link d (view d U m) a (last_seg None xs)"
    using B(4) s unfolding s(1) seg_append by (auto simp: mark_def)
  let ?e = "adr d (2 * U)"
  have be: "BLOCK_END b blk = ?e" using best_fit_block(2) [OF ok blk, folded d U] .
  have range: "\<not> adr d (2 * a + 2) \<le> d" "\<not> ?e \<le> adr d (2 * a + 2)" "adr d (2 * a + 2) \<noteq> 0"
    using adr_less [OF B(2), of 0 "2 * a + 2"] adr_less [OF B(2), of "2 * a + 2" "2 * U"] adr_nz [OF B(2), of "2 * a + 2"] al s(3) by auto
  define m1 where "m1 = put d m (2 * a + 1) (mark True (adr d (2 * (a + l))))"
  have aU: "2 * a + 1 < 2 * U" using al by simp
  have sf: "set_freebit m (adr d (2 * a)) = Some m1" using freebit_put(1) [OF B(2,3) h al(2)] by (simp add: m1_def mark_def)
  have v1: "view d U m1 = (view d U m)(2 * a + 1 \<mapsto> mark True (adr d (2 * (a + l))))" unfolding m1_def by (rule view_put [OF B(2) aU])
  have f1: "full d U m1" unfolding m1_def by (rule full_put [OF B(2,3) aU])
  have bl: "back_link d (view d U m) (a + l) (Some (l, True))" if "ys \<noteq> []"
    using bk that by (cases ys) (auto simp: back_link_def)
  have s1: "seg d (view d U m1) 0 None (xs @ (l, True) # ys)"
    by (rule seg_relink [OF _ s(2) bl v1]) (use B(4) s(1) in simp)
  have u1: "units (xs @ (l, True) # ys) = U" using U s(1) by simp
  have h1: "view d U m1 (2 * a + 1) = Some (mark True (adr d (2 * (a + l))))" by (simp add: v1)
  note H = header_reads [OF B(2) h1 _ al(1)]
  define fr0 where "fr0 = u4_add (bfree blk) (u4_sub l UNIT_SIZE)"
  obtain m2 fr2 l' ys' where n: "free_next m1 ?e (adr d (2 * a)) (adr d (2 * (a + l))) fr0 = Some (m2, fr2)" "full d U m2" "blocks m2 = blocks m1"
      "same_out d U m1 m2" "seg d (view d U m2) 0 None (xs @ (l', True) # ys')" "units (xs @ (l', True) # ys') = U"
      "lives (a + l') ys' = lives (a + l) ys" "l \<le> l'" "\<forall>k. k \<noteq> 2 * a + 1 \<longrightarrow> view d U m2 k = view d U m1 k"
    using free_next_ok [OF B(2) f1 s1 u1 s(2)] by blast
  have "2 * a < 2 * U" using al(2) by simp
  then obtain pre where pre: "view d U m2 (2 * a) = Some pre" using n(2) unfolding full_def by blast
  obtain m3 fr3 ss' t where p: "free_prev m2 (adr d (2 * a)) pre fr2 = Some (m3, fr3)" "full d U m3" "blocks m3 = blocks m2" "same_out d U m2 m3"
      "seg d (view d U m3) 0 None ss'" "units ss' = U" "ss' \<noteq> []" "lives 0 ss' = lives 0 (xs @ (l', True) # ys')" "t \<le> a"
      "\<forall>c \<in> lives 0 xs. fst c + snd c \<le> t" "\<forall>k. k < 2 * t \<or> 2 * a \<le> k \<longrightarrow> view d U m3 k = view d U m2 k"
    using free_prev_ok [OF B(2) n(2,5,6) s(2) pre] by blast
  let ?m = "m3\<lparr>blocks := (blocks m3)(b \<mapsto> blk\<lparr>bfree := fr3\<rparr>)\<rparr>"
  have bm: "blocks m3 = blocks m" using p(3) n(3) by (simp add: m1_def)
  have run: "block_free m b (adr d (2 * a + 2)) = Some (0, ?m)"
    using B(1) blk range sf H n(1) view_cell [OF pre] p(1) be d
    by (simp add: block_free_def fr0_def free_next_def [symmetric] free_prev_def [symmetric] UNIT_SIZE_def del: One_nat_def)
  have out: "same_out d U m ?m" using same_out_put [OF same_out_refl(1) aU, of d m "mark True (adr d (2 * (a + l)))"] n(4) p(4)
    by (simp add: same_out_def m1_def)
  have "view d U ?m k \<noteq> None" if "view d U m k \<noteq> None" for k
    using that p(2) by (cases "k < 2 * U") (auto simp: full_def view_def)
  then have ok': "block_ok ?m b ss'" using block_ok_update [OF ok blk, of ?m fr3 ss'] p(5-7) d U by simp
  have live: "lives 0 ss' = lives 0 xs \<union> lives (a + l) ys" using p(8) n(7) s(2) by (simp add: lives_append)
  have lv: "lives 0 ss' = lives 0 ss - {(a, l)}"
    using live lives_bound [of a l 0 xs] lives_bound [of a l "a + l" ys] s by (auto simp: lives_append)
  have "view d U ?m k = view d U m k" if c: "c \<in> lives 0 ss'" and k: "k \<in> payload_words c" for c k
  proof -
    have "k < 2 * t \<or> 2 * a + 1 < k"
    proof (cases "c \<in> lives 0 xs")
      case True
      then have "fst c + snd c \<le> t" using p(10) by blast
      then show ?thesis using k by (auto simp: payload_words_def)
    next
      case False
      then have "a + l \<le> fst c" using c live lives_bound [of "fst c" "snd c" "a + l" ys] by auto
      then show ?thesis using k s(3) by (auto simp: payload_words_def)
    qed
    then have "k < 2 * t \<or> 2 * a \<le> k" "k \<noteq> 2 * a + 1" using p(9) by auto
    then have "view d U m3 k = view d U m2 k" "view d U m2 k = view d U m k" using p(11) n(9) v1 by auto
    then show ?thesis by simp
  qed
  then show ?thesis using run out ok' lv p(6) bm
    by (intro exI [of _ ?m] exI [of _ fr3] exI [of _ ss']) simp
qed

section \<open>A new block\<close>

lemma in_area_adr:
  assumes "fits d U" "k < 2 * U"
  shows "in_area d (8 * U) (adr d k)"
  using adr_diff [OF assms(1), of 0 k] assms(2) by (simp add: in_area_def)

lemma in_area_ex:
  assumes "in_area d (8 * U) p"
  shows "\<exists>k < 2 * U. p = adr d k"
proof -
  let ?k = "unat (p - d) div 4"
  have e: "4 * ?k = unat (p - d)" "unat (p - d) < 8 * U" using assms by (auto simp: in_area_def)
  then have "of_nat (4 * ?k) = p - d" by (simp only: of_nat_unat ucast_id)
  then have "p = adr d ?k" by (simp add: adr_def)
  then show ?thesis using e by (intro exI [of _ ?k]) auto
qed

lemma block_init_ok:
  assumes b: "b \<noteq> 0" "fits (block_data b) U" "1 \<le> U"
  shows "\<exists>m'. block_init (Some b) raw m True (8 * U) = Some (0, m', b) \<and> block_ok m' b [(U, True)] \<and>
    blocks m' = (blocks m)(b \<mapsto> \<lparr>bsize = 8 * U, bfree = 8 * U, bnext = 0, bottom = block_data b\<rparr>) \<and> same_out (block_data b) U m m'"
proof -
  define d where "d = block_data b"
  have f: "fits d U" using b(2) by (simp add: d_def)
  have al: "ALIGN_SIZE (8 * U) UNIT_SIZE = 8 * U"
  proof -
    have "(8 * U + 7) div 8 = U" by simp
    then show ?thesis using f by (simp add: ALIGN_SIZE_def UNIT_SIZE_def fits_def)
  qed
  let ?blk = "\<lparr>bsize = 8 * U, bfree = 8 * U, bnext = 0, bottom = d\<rparr>"
  define m0 where "m0 = m\<lparr>blocks := (blocks m)(b \<mapsto> ?blk), cells := (\<lambda>p. if in_area d (8 * U) p then Some (raw p) else cells m p)\<rparr>"
  have f0: "full d U m0" using in_area_adr [OF f] by (simp add: full_def view_def m0_def)
  have U0: "0 < 2 * U" "1 < 2 * U" "0 < U" using b(3) by auto
  define m1 where "m1 = put d m0 0 0"
  define m2 where "m2 = put d m1 1 (adr d (2 * U))"
  define m3 where "m3 = put d m2 1 (adr d (2 * U) OR 1)"
  have f1: "full d U m1" unfolding m1_def by (rule full_put [OF f f0 U0(1)])
  have f2: "full d U m2" unfolding m2_def by (rule full_put [OF f f1 U0(2)])
  have v2: "view d U m2 1 = Some (adr d (2 * U))" unfolding m2_def using view_put [OF f U0(2)] by simp
  have v3: "view d U m3 = (view d U m0)(0 \<mapsto> 0, 1 \<mapsto> adr d (2 * U) OR 1)"
    unfolding m3_def m2_def m1_def using view_put [OF f U0(1)] view_put [OF f U0(2)] by simp
  have w1: "wr m0 d 0 = Some m1" using wr_put [OF f f0 U0(1), of 0] by (simp add: m1_def)
  have w2: "wr m1 (d + 4) (adr d (2 * U)) = Some m2" using wr_put [OF f f1 U0(2)] by (simp add: m2_def adr_def)
  have w3: "set_freebit m2 d = Some m3" using freebit_put(1) [OF f f2, of 0] v2 U0(3) by (simp add: m3_def)
  have e: "BLOCK_END b ?blk = adr d (2 * U)" using block_end [of ?blk U b] by (simp add: d_def)
  have run: "block_init (Some b) raw m True (8 * U) = Some (0, m3, b)"
    using U0(3) w1 w2 w3 e al f by (simp add: block_init_def Let_def fits_def d_def [symmetric] m0_def [symmetric])
  have bl: "blocks m3 = (blocks m)(b \<mapsto> ?blk)" by (simp add: m3_def m2_def m1_def m0_def)
  have "same_out d U m m0" using in_area_ex [of d U] by (auto simp: same_out_def m0_def)
  then have out: "same_out d U m m3" unfolding m3_def m2_def m1_def using U0 by (auto intro!: same_out_put)
  have "full d U m3" unfolding m3_def by (rule full_put [OF f f2 U0(2)])
  moreover have "seg d (view d U m3) 0 None [(U, True)]" using v3 b(3) by (simp add: back_link_def mark_def)
  ultimately have "block_ok m3 b [(U, True)]" using b(1) f bl by (simp add: block_ok_def d_def)
  then show ?thesis using run bl out d_def by blast
qed

end
