(* ===== verification/Lisk_Pool_Thms.thy ===== *)
theory Lisk_Pool_Thms
  imports Lisk_Pool_Blocks
begin

text \<open>
  The properties of the memory pool. The callers of one block are a step relation: they ask for memory, give it back and write
  into what they own, in any order. As long as each chunk that is handed out is known to the chunk behind it, no two of
  them share memory and each finds what it wrote. The later theorems show what happens without that condition, and what
  the confusion of bytes and units does to larger requests and to the release of blocks.
\<close>

section \<open>The callers of a block\<close>

text \<open>The chunk behind the one at \<open>p\<close> points back to it.\<close>

definition known :: "pool_mem \<Rightarrow> u4 \<Rightarrow> u4 \<Rightarrow> bool" where
  "known m b p \<longleftrightarrow>
     (case (blocks m b, chunk_next m (p - 8)) of
        (Some blk, Some nx) \<Rightarrow> nx = BLOCK_END b blk \<or> cells m nx = Some (p - 8)
      | _ \<Rightarrow> False)"

text \<open>\<open>lv\<close> maps the pointers in use to the sizes that were asked for, \<open>own\<close> the words that belong to callers to what they hold.\<close>

inductive block_run :: "u4 \<Rightarrow> pool_mem \<Rightarrow> (u4 \<Rightarrow> nat option) \<Rightarrow> (u4 \<Rightarrow> u4 option) \<Rightarrow> bool" for b where
  init: "block_init (Some b) raw m0 True (8 * U) = Some (0, m, b) \<Longrightarrow> b \<noteq> 0 \<Longrightarrow> fits (block_data b) U \<Longrightarrow> 1 \<le> U \<Longrightarrow>
    block_run b m Map.empty Map.empty"
| malloc: "block_run b m lv own \<Longrightarrow> block_malloc m b sz = Some (p, m') \<Longrightarrow> p \<noteq> 0 \<Longrightarrow> 0 < sz \<Longrightarrow> sz + 15 < 2 ^ 32 \<Longrightarrow> known m' b p \<Longrightarrow>
    block_run b m' (lv(p \<mapsto> sz)) (\<lambda>a. if in_area p sz a then cells m' a else own a)"
| refused: "block_run b m lv own \<Longrightarrow> block_malloc m b sz = Some (0, m') \<Longrightarrow> 0 < sz \<Longrightarrow> sz + 15 < 2 ^ 32 \<Longrightarrow> block_run b m' lv own"
| free: "block_run b m lv own \<Longrightarrow> lv p = Some sz \<Longrightarrow> block_free m b p = Some (c, m') \<Longrightarrow>
    block_run b m' (lv(p := None)) (\<lambda>a. if in_area p sz a then None else own a)"
| store: "block_run b m lv own \<Longrightarrow> own a \<noteq> None \<Longrightarrow> wr m a v = Some m' \<Longrightarrow> block_run b m' lv (own(a \<mapsto> v))"

text \<open>Each pointer in use is the memory of a chunk in use that is large enough.\<close>

definition holds_chunk :: "u4 \<Rightarrow> segs \<Rightarrow> u4 \<Rightarrow> nat \<Rightarrow> nat \<times> nat \<Rightarrow> bool" where
  "holds_chunk d ss p sz c \<longleftrightarrow> c \<in> lives 0 ss \<and> p = adr d (2 * fst c + 2) \<and> need sz \<le> snd c \<and> sz + 15 < 2 ^ 32"

definition run_inv :: "u4 \<Rightarrow> segs \<Rightarrow> pool_mem \<Rightarrow> (u4 \<Rightarrow> nat option) \<Rightarrow> (u4 \<Rightarrow> u4 option) \<Rightarrow> bool" where
  "run_inv b ss m lv own \<longleftrightarrow> block_ok m b ss \<and>
     (\<forall>p sz. lv p = Some sz \<longrightarrow> (\<exists>c. holds_chunk (block_data b) ss p sz c)) \<and>
     (\<forall>a. own a \<noteq> None \<longleftrightarrow> (\<exists>p sz. lv p = Some sz \<and> in_area p sz a)) \<and>
     (\<forall>a v. own a = Some v \<longrightarrow> cells m a = Some v)"

lemma area_words:
  assumes "holds_chunk d ss p sz c" "in_area p sz a"
  shows "\<exists>k \<in> payload_words c. a = adr d k"
proof -
  have c: "p = adr d (2 * fst c + 2)" "need sz \<le> snd c" "sz + 15 < 2 ^ 32" using assms(1) by (auto simp: holds_chunk_def)
  let ?q = "unat (a - p) div 4"
  have e: "4 * ?q = unat (a - p)" "unat (a - p) < sz" using assms(2) by (auto simp: in_area_def)
  then have "of_nat (4 * ?q) = a - p" by (simp only: of_nat_unat ucast_id)
  then have "a = adr d (2 * fst c + 2) + of_nat (4 * ?q)" using c(1) by simp
  then have "a = adr d (2 * fst c + 2 + ?q)" unfolding adr_add .
  moreover have "?q < snd c - 1" using e c(2) need_bounds(1) [OF c(3)] by linarith
  ultimately show ?thesis by (intro bexI [of _ "2 * fst c + 2 + ?q"]) (auto simp: payload_words_def)
qed

lemma words_bound:
  assumes "c \<in> lives 0 ss" "k \<in> payload_words c"
  shows "k < 2 * units ss"
  using lives_bound [of "fst c" "snd c" 0 ss] assms by (auto simp: payload_words_def)

text \<open>Distinct pointers in use have no word in common.\<close>

lemma areas_disjoint:
  assumes ok: "block_ok m b ss" and h: "holds_chunk (block_data b) ss p sz c" "holds_chunk (block_data b) ss q sz' c'" and ne: "p \<noteq> q"
  shows "\<not> (in_area p sz a \<and> in_area q sz' a)"
proof
  assume a: "in_area p sz a \<and> in_area q sz' a"
  note B = block_okD [OF ok]
  obtain k where k: "k \<in> payload_words c" "a = adr (block_data b) k" using area_words [OF h(1)] a by blast
  obtain k' where k': "k' \<in> payload_words c'" "a = adr (block_data b) k'" using area_words [OF h(2)] a by blast
  have c: "c \<in> lives 0 ss" "c' \<in> lives 0 ss" "c \<noteq> c'" using h ne by (auto simp: holds_chunk_def)
  have "k = k'" using adr_inj [OF B(2), of k k'] words_bound [OF c(1) k(1)] words_bound [OF c(2) k'(1)] k(2) k'(2) by simp
  then show False using lives_disjoint [OF B(5) c] k(1) k'(1) by blast
qed

lemma lives_pos: "\<forall>(l, f) \<in> set ss. 1 \<le> l \<Longrightarrow> (j, l) \<in> lives i ss \<Longrightarrow> 1 \<le> l"
  by (induction i ss rule: lives.induct) (auto split: if_splits)

lemma lives_cut:
  assumes c: "cut_segs n xs l ys = (i, ss')" "n \<le> l" "1 \<le> n" and pos: "\<forall>(l, f) \<in> set (xs @ (l, True) # ys). 1 \<le> l"
  shows "\<exists>l'. n \<le> l' \<and> lives 0 ss' = insert (i, l') (lives 0 (xs @ (l, True) # ys)) \<and> (\<forall>l''. (i, l'') \<notin> lives 0 (xs @ (l, True) # ys)) \<and>
    units ss' = units (xs @ (l, True) # ys) \<and> ss' \<noteq> []"
proof -
  have no: "(j, l'') \<notin> lives 0 (xs @ (l, True) # ys)" if "units xs \<le> j" "j < units xs + l" for j l''
    using that lives_bound [of j l'' 0 xs] lives_bound [of j l'' "units xs + l" ys] lives_pos [OF pos, of j l'' 0] by (auto simp: lives_append)
  show ?thesis
  proof (cases "l - n < MIN_CHUNK_SIZE")
    case True
    then have "i = units xs" "ss' = xs @ (l, False) # ys" using c(1) by (auto simp: cut_segs_def)
    then show ?thesis using no [of i] c(2,3) by (intro exI [of _ l]) (auto simp: lives_append)
  next
    case False
    then have e: "i = units xs + (l - n)" "ss' = xs @ (l - n, True) # (n, False) # ys" using c(1) by (auto simp: cut_segs_def)
    moreover have "units xs + (l - n) + n = units xs + l" using c(2) by simp
    ultimately show ?thesis using no [of i] c(2,3) by (intro exI [of _ n]) (auto simp: lives_append)
  qed
qed

lemma run_inv_init:
  assumes i: "block_init (Some b) raw m0 True (8 * U) = Some (0, m, b)" and b: "b \<noteq> 0" "fits (block_data b) U" "1 \<le> U"
  shows "run_inv b [(U, True)] m Map.empty Map.empty"
proof -
  have "block_ok m b [(U, True)]" using block_init_ok [OF b, of raw m0] i by auto
  then show ?thesis by (simp add: run_inv_def)
qed

lemma block_malloc_cases:
  assumes ok: "block_ok m b ss" and blk: "blocks m b = Some blk" and sz: "0 < sz" "sz + 15 < 2 ^ 32" and d: "d = block_data b" and U: "U = units ss"
  obtains (refused) "block_malloc m b sz = Some (0, m)"
  | (given) xs l ys i ss' l' m' where "ss = xs @ (l, True) # ys" "i + 2 \<le> U" "block_malloc m b sz = Some (adr d (2 * i + 2), m')"
      "blocks m' = (blocks m)(b \<mapsto> blk\<lparr>bfree := u4_sub (bfree blk) (need sz)\<rparr>)" "same_out d U m m'"
      "\<forall>k. k \<notin> headers 0 ss' \<longrightarrow> view d U m' k = view d U m k" "view d U m' (2 * i + 1) = Some (adr d (2 * (units xs + l)))"
      "(ys \<noteq> [] \<longrightarrow> view d U m' (2 * (units xs + l)) = Some (adr d (2 * i))) \<longrightarrow> block_ok m' b ss'"
      "need sz \<le> l'" "lives 0 ss' = insert (i, l') (lives 0 ss)" "\<forall>l''. (i, l'') \<notin> lives 0 ss" "units ss' = U" "units xs + l \<le> U" "i \<le> units xs + l"
proof (cases "need sz \<le> bfree blk \<and> (\<exists>s \<in> set ss. fit (need sz) s)")
  case False
  then have "bfree blk < need sz \<or> (\<forall>s \<in> set ss. \<not> fit (need sz) s)" by auto
  then show ?thesis using block_malloc_none [OF ok blk sz] that(1) by blast
next
  case True
  then have t: "need sz \<le> bfree blk" "\<exists>s \<in> set ss. fit (need sz) s" by auto
  obtain xs l ys i ss' m' where r: "ss = xs @ (l, True) # ys" "need sz \<le> l" "cut_segs (need sz) xs l ys = (i, ss')"
      "block_malloc m b sz = Some (adr d (2 * i + 2), m')" "blocks m' = (blocks m)(b \<mapsto> blk\<lparr>bfree := u4_sub (bfree blk) (need sz)\<rparr>)" "same_out d U m m'"
      "\<forall>k. k \<notin> headers 0 ss' \<longrightarrow> view d U m' k = view d U m k" "view d U m' (2 * i + 1) = Some (adr d (2 * (units xs + l)))"
      "(ys \<noteq> [] \<longrightarrow> view d U m' (2 * (units xs + l)) = Some (adr d (2 * i))) \<longrightarrow> block_ok m' b ss'"
    using block_malloc_ok [OF ok blk sz t d U] by blast
  obtain l' where l': "need sz \<le> l'" "lives 0 ss' = insert (i, l') (lives 0 ss)" "\<forall>l''. (i, l'') \<notin> lives 0 ss" "units ss' = units ss"
    using lives_cut [OF r(3,2) need_bounds(4) [OF sz(2)]] block_okD(5) [OF ok] r(1) by auto
  have "i + need sz \<le> units xs + l" using r(2,3) by (auto simp: cut_segs_def split: if_splits)
  moreover have "units xs + l \<le> U" using r(1) U by simp
  ultimately have "i + 2 \<le> U" "units xs + l \<le> U" "i \<le> units xs + l" using need_bounds(1) [OF sz(2)] sz(1) by auto
  then show ?thesis using that(2) [OF r(1) _ r(4-9) l'(1-3)] l'(4) U by simp
qed

lemma run_inv_refused:
  assumes inv: "run_inv b ss m lv own" and r: "block_malloc m b sz = Some (0, m')" and sz: "0 < sz" "sz + 15 < 2 ^ 32"
  shows "m' = m"
proof -
  have ok: "block_ok m b ss" using inv by (simp add: run_inv_def)
  obtain blk where blk: "blocks m b = Some blk" using ok by (auto simp: block_ok_def)
  show ?thesis
  proof (cases rule: block_malloc_cases [OF ok blk sz refl refl])
    case (2 xs l ys i ss' l' m1)
    then show ?thesis using r adr_nz [OF block_okD(2) [OF ok], of "2 * i + 2"] by simp
  qed (use r in simp)
qed

lemma run_inv_malloc:
  assumes inv: "run_inv b ss m lv own" and r: "block_malloc m b sz = Some (p, m')" "p \<noteq> 0" and sz: "0 < sz" "sz + 15 < 2 ^ 32"
    and kn: "known m' b p"
  shows "\<exists>ss'. run_inv b ss' m' (lv(p \<mapsto> sz)) (\<lambda>a. if in_area p sz a then cells m' a else own a) \<and> lv p = None"
proof -
  define d U where "d = block_data b" and "U = units ss"
  have ok: "block_ok m b ss" and lv: "\<forall>p sz. lv p = Some sz \<longrightarrow> (\<exists>c. holds_chunk d ss p sz c)"
    and own: "\<forall>a. own a \<noteq> None \<longleftrightarrow> (\<exists>p sz. lv p = Some sz \<and> in_area p sz a)" and val: "\<forall>a v. own a = Some v \<longrightarrow> cells m a = Some v"
    using inv unfolding run_inv_def d_def by blast+
  note B = block_okD [OF ok, folded d_def U_def]
  obtain blk where blk: "blocks m b = Some blk" using ok by (auto simp: block_ok_def)
  show ?thesis
  proof (cases rule: block_malloc_cases [OF ok blk sz d_def U_def])
    case 1
    then show ?thesis using r by simp
  next
    case (2 xs l ys i ss' l' m1)
    note G = 2
    have e: "p = adr d (2 * i + 2)" "m1 = m'" using r(1) G(3) by auto
    have p16: "p - 8 = adr d (2 * i)" using e by simp
    have h: "view d U m' (2 * i + 1) = Some (mark False (adr d (2 * (units xs + l))))" using G(7) e by (simp add: mark_def)
    have nx: "chunk_next m' (p - 8) = Some (adr d (2 * (units xs + l)))" unfolding p16 using header_reads(2) [OF B(2) h G(14,13)] .
    have be: "BLOCK_END b (blk\<lparr>bfree := x\<rparr>) = adr d (2 * U)" for x
      using best_fit_block(2) [OF ok blk, folded d_def U_def] by (simp add: BLOCK_END_def)
    have bk: "view d U m' (2 * (units xs + l)) = Some (adr d (2 * i))" if ys: "ys \<noteq> []"
    proof -
      have "units xs + l < U" using ys B(5) unfolding U_def G(1) by (cases ys) auto
      moreover have "adr d (2 * (units xs + l)) = adr d (2 * U) \<longleftrightarrow> 2 * (units xs + l) = 2 * U"
        by (rule adr_inj [OF B(2)]) (use calculation in simp_all)
      moreover have "adr d (2 * (units xs + l)) = adr d (2 * U) \<or> cells m' (adr d (2 * (units xs + l))) = Some (adr d (2 * i))"
        using kn nx G(4) be p16 e(2) by (auto simp: known_def)
      ultimately show ?thesis by (auto simp: view_def)
    qed
    have ok': "block_ok m' b ss'" using G(8) bk e by blast
    have keep: "cells m' a = Some v" if "own a = Some v" for a v
    proof -
      obtain q sq c where q: "lv q = Some sq" "in_area q sq a" "holds_chunk d ss q sq c" using own lv \<open>own a = Some v\<close> by (metis option.distinct(1))
      obtain k where k: "k \<in> payload_words c" "a = adr d k" using area_words [OF q(3,2)] by blast
      have c: "c \<in> lives 0 ss" using q(3) by (simp add: holds_chunk_def)
      then have "c \<in> lives 0 ss'" using G(10) by blast
      then have "k \<notin> headers 0 ss'" using lives_headers [OF block_okD(5) [OF ok'] _ k(1)] by blast
      then have "view d U m' k = view d U m k" using G(6) e by simp
      then show ?thesis using words_bound [OF c k(1)] k(2) val \<open>own a = Some v\<close> by (simp add: view_def U_def)
    qed
    have new: "holds_chunk d ss' p sz (i, l')" using G(9,10) e(1) sz(2) by (simp add: holds_chunk_def)
    have old: "holds_chunk d ss' q sq c" if "holds_chunk d ss q sq c" for q sq c using that G(10) by (simp add: holds_chunk_def)
    have un: "lv p = None"
    proof (rule ccontr)
      assume "lv p \<noteq> None"
      then obtain sq c where c: "holds_chunk d ss p sq c" using lv by blast
      then have "fst c \<noteq> i" using G(11) by (cases c) (auto simp: holds_chunk_def)
      moreover have "c \<in> lives 0 ss" "adr d (2 * fst c + 2) = adr d (2 * i + 2)" "2 \<le> snd c"
        using c e(1) need_bounds(1) [of sq] by (auto simp: holds_chunk_def)
      moreover have "fst c + snd c \<le> U" using lives_bound [of "fst c" "snd c" 0 ss] \<open>c \<in> lives 0 ss\<close> by (simp add: U_def)
      ultimately show False using adr_inj [OF B(2), of "2 * fst c + 2" "2 * i + 2"] G(2) by simp
    qed
    have in': "cells m' a \<noteq> None" if "in_area p sz a" for a
    proof -
      obtain k where k: "k \<in> payload_words (i, l')" "a = adr d k" using area_words [OF new \<open>in_area p sz a\<close>] by blast
      have "k < 2 * U" using words_bound [OF _ k(1), of ss'] G(10,12) by simp
      moreover have "full d U m'" using block_okD(3) [OF ok'] G(12) d_def by simp
      ultimately show ?thesis using k(2) by (auto simp: full_def view_def)
    qed
    let ?own = "\<lambda>a. if in_area p sz a then cells m' a else own a"
    have "(\<exists>q sq. (lv(p \<mapsto> sz)) q = Some sq \<and> in_area q sq a) \<longleftrightarrow> in_area p sz a \<or> (\<exists>q sq. lv q = Some sq \<and> in_area q sq a)" for a
      using un by (metis fun_upd_apply option.inject option.distinct(1))
    then have "?own a \<noteq> None \<longleftrightarrow> (\<exists>q sq. (lv(p \<mapsto> sz)) q = Some sq \<and> in_area q sq a)" for a
      using own in' by (cases "in_area p sz a") auto
    moreover have "\<forall>q sq. (lv(p \<mapsto> sz)) q = Some sq \<longrightarrow> (\<exists>c. holds_chunk d ss' q sq c)"
      using lv new old by (metis fun_upd_apply option.inject)
    moreover have "\<forall>a v. ?own a = Some v \<longrightarrow> cells m' a = Some v" using keep by auto
    ultimately show ?thesis using ok' un unfolding run_inv_def d_def [symmetric] by blast
  qed
qed

lemma lives_split: "(j, l) \<in> lives i ss \<Longrightarrow> \<exists>xs ys. ss = xs @ (l, False) # ys \<and> j = i + units xs"
proof (induction i ss rule: lives.induct)
  case (2 i n f ss)
  show ?case
  proof (cases "(j, l) \<in> lives (i + n) ss")
    case True
    then obtain xs ys where "ss = xs @ (l, False) # ys" "j = i + n + units xs" using 2 by blast
    then show ?thesis by (intro exI [of _ "(n, f) # xs"] exI [of _ ys]) simp
  next
    case False
    then have "j = i" "l = n" "\<not> f" using 2(2) by (auto split: if_splits)
    then show ?thesis by (intro exI [of _ "[]"] exI [of _ ss]) simp
  qed
qed simp

lemma run_inv_free:
  assumes inv: "run_inv b ss m lv own" and p: "lv p = Some sz" and r: "block_free m b p = Some (c, m')"
  shows "\<exists>ss'. run_inv b ss' m' (lv(p := None)) (\<lambda>a. if in_area p sz a then None else own a) \<and> c = 0"
proof -
  define d U where "d = block_data b" and "U = units ss"
  have ok: "block_ok m b ss" and lv: "\<forall>p sz. lv p = Some sz \<longrightarrow> (\<exists>c. holds_chunk d ss p sz c)"
    and own: "\<forall>a. own a \<noteq> None \<longleftrightarrow> (\<exists>p sz. lv p = Some sz \<and> in_area p sz a)" and val: "\<forall>a v. own a = Some v \<longrightarrow> cells m a = Some v"
    using inv unfolding run_inv_def d_def by blast+
  note B = block_okD [OF ok, folded d_def U_def]
  obtain blk where blk: "blocks m b = Some blk" using ok by (auto simp: block_ok_def)
  obtain i l where hc: "holds_chunk d ss p sz (i, l)" using lv p by fastforce
  then have il: "(i, l) \<in> lives 0 ss" "p = adr d (2 * i + 2)" "2 \<le> l" using need_bounds(1) [of sz] by (auto simp: holds_chunk_def)
  obtain xs ys where s: "ss = xs @ (l, False) # ys" "i = units xs" using lives_split [OF il(1)] by auto
  obtain m1 fr ss' where f: "block_free m b (adr d (2 * i + 2)) = Some (0, m1)" "block_ok m1 b ss'" "units ss' = U"
      "lives 0 ss' = lives 0 ss - {(i, l)}" "\<forall>c \<in> lives 0 ss'. \<forall>k \<in> payload_words c. view d U m1 k = view d U m k"
    using block_free_ok [OF ok blk s il(3) d_def U_def] by blast
  have e: "m1 = m'" "c = 0" using f(1) r il(2) by auto
  have other: "holds_chunk d ss' q sq cq" if "lv q = Some sq" "q \<noteq> p" "holds_chunk d ss q sq cq" for q sq cq
  proof -
    have "q = adr d (2 * fst cq + 2)" using that(3) by (simp add: holds_chunk_def)
    then have "cq \<noteq> (i, l)" using that(2) il(2) by (metis fst_conv)
    then show ?thesis using that(3) f(4) by (simp add: holds_chunk_def)
  qed
  have dis: "\<not> in_area p sz a" if "lv q = Some sq" "q \<noteq> p" "in_area q sq a" for q sq a
  proof -
    obtain cq where "holds_chunk d ss q sq cq" using lv \<open>lv q = Some sq\<close> by blast
    then show ?thesis using areas_disjoint [OF ok, folded d_def, OF hc, of q sq cq a] that(2,3) by blast
  qed
  let ?own = "\<lambda>a. if in_area p sz a then None else own a"
  have "?own a \<noteq> None \<longleftrightarrow> (\<exists>q sq. (lv(p := None)) q = Some sq \<and> in_area q sq a)" for a
  proof (cases "in_area p sz a")
    case True
    then show ?thesis using dis by (metis fun_upd_apply option.distinct(1))
  next
    case False
    have "(\<exists>q sq. lv q = Some sq \<and> in_area q sq a) \<longleftrightarrow> (\<exists>q sq. (lv(p := None)) q = Some sq \<and> in_area q sq a)"
      using False p by (metis fun_upd_apply option.distinct(1) option.inject)
    then show ?thesis using False own by simp
  qed
  moreover have "\<forall>q sq. (lv(p := None)) q = Some sq \<longrightarrow> (\<exists>c. holds_chunk d ss' q sq c)"
    using lv other by (metis fun_upd_apply option.distinct(1))
  moreover have "cells m' a = Some v" if "?own a = Some v" for a v
  proof -
    have o: "own a = Some v" "\<not> in_area p sz a" using \<open>?own a = Some v\<close> by (auto split: if_splits)
    then obtain q sq where q: "lv q = Some sq" "in_area q sq a" using own by (metis option.distinct(1))
    then have "q \<noteq> p" using o(2) p by auto
    then obtain cq where cq: "holds_chunk d ss' q sq cq" using lv other q(1) by blast
    obtain k where k: "k \<in> payload_words cq" "a = adr d k" using area_words [OF cq q(2)] by blast
    have c: "cq \<in> lives 0 ss'" using cq by (simp add: holds_chunk_def)
    then have "view d U m' k = view d U m k" using f(5) k(1) e(1) by blast
    then show ?thesis using words_bound [OF c k(1)] k(2) val o(1) f(3) by (simp add: view_def)
  qed
  ultimately show ?thesis using f(2) e unfolding run_inv_def d_def [symmetric] by blast
qed

lemma run_inv_store:
  assumes inv: "run_inv b ss m lv own" and a: "own a \<noteq> None" and r: "wr m a v = Some m'"
  shows "run_inv b ss m' lv (own(a \<mapsto> v))"
proof -
  define d U where "d = block_data b" and "U = units ss"
  have ok: "block_ok m b ss" and lv: "\<forall>p sz. lv p = Some sz \<longrightarrow> (\<exists>c. holds_chunk d ss p sz c)"
    and own: "\<forall>a. own a \<noteq> None \<longleftrightarrow> (\<exists>p sz. lv p = Some sz \<and> in_area p sz a)" and val: "\<forall>a v. own a = Some v \<longrightarrow> cells m a = Some v"
    using inv unfolding run_inv_def d_def by blast+
  note B = block_okD [OF ok, folded d_def U_def]
  obtain blk where blk: "blocks m b = Some blk" using ok by (auto simp: block_ok_def)
  obtain p sz c where p: "lv p = Some sz" "in_area p sz a" "holds_chunk d ss p sz c" using own a lv by blast
  obtain k where k: "k \<in> payload_words c" "a = adr d k" using area_words [OF p(3,2)] by blast
  have c: "c \<in> lives 0 ss" using p(3) by (simp add: holds_chunk_def)
  have kU: "k < 2 * U" using words_bound [OF c k(1)] by (simp add: U_def)
  have m': "m' = put d m k v" using r k(2) wr_put [OF B(2,3) kU, of v] by simp
  have vw: "view d U m' = (view d U m)(k \<mapsto> v)" unfolding m' by (rule view_put [OF B(2) kU])
  have "k \<notin> headers 0 ss" by (rule lives_headers [OF B(5) c k(1)])
  then have "view d U m' j = view d U m j" if "j \<in> headers 0 ss" for j using that vw by auto
  then have "seg d (view d U m') 0 None ss" by (rule seg_frame [OF B(4)])
  moreover have "full d U m'" unfolding m' by (rule full_put [OF B(2,3) kU])
  moreover have "blocks m' b = Some blk" using m' blk by simp
  ultimately have "block_ok m' b ss" using ok blk by (simp add: block_ok_def d_def U_def)
  moreover have "\<forall>x w. (own(a \<mapsto> v)) x = Some w \<longrightarrow> cells m' x = Some w" using val k(2) by (auto simp: m' put_def)
  moreover have "(own(a \<mapsto> v)) x \<noteq> None \<longleftrightarrow> own x \<noteq> None" for x using a by simp
  ultimately show ?thesis using lv own unfolding run_inv_def d_def [symmetric] by (simp only: simp_thms)
qed

text \<open>A block to try the property on: 4096 bytes at the address 4096, from which one caller has got 8 bytes.\<close>

lemma block_sample:
  "\<exists>m p own. block_run 4096 m [p \<mapsto> 8] own \<and> p \<noteq> 0"
proof -
  let ?d = "block_data 4096"
  have f: "fits ?d 512" by (simp add: fits_def block_data_def)
  obtain m where m: "block_init (Some 4096) (\<lambda>_. 0) \<lparr>blocks = Map.empty, cells = Map.empty, sys = Map.empty\<rparr> True (8 * 512) = Some (0, m, 4096)"
      "block_ok m 4096 [(512, True)]" "blocks m 4096 = Some \<lparr>bsize = 8 * 512, bfree = 8 * 512, bnext = 0, bottom = ?d\<rparr>"
    using block_init_ok [of 4096 512, OF _ f, of "\<lambda>_. 0" "\<lparr>blocks = Map.empty, cells = Map.empty, sys = Map.empty\<rparr>"] by auto
  have run0: "block_run 4096 m Map.empty Map.empty" by (rule block_run.init [OF m(1) _ f]) simp_all
  have n: "need 8 = 16" by (simp add: need_def ALIGN_SIZE_def UNIT_SIZE_def)
  have u: "512 = units [(512, True)]" by simp
  let ?blk = "\<lparr>bsize = 8 * 512, bfree = 8 * 512, bnext = 0, bottom = ?d\<rparr>"
  have pre: "0 < (8 :: nat)" "(8 :: nat) + 15 < 2 ^ 32" "need 8 \<le> bfree ?blk" "\<exists>s \<in> set [(512, True)]. fit (need 8) s"
    using n by (simp_all add: fit_def)
  obtain xs l ys i ss' m' where r: "[(512, True)] = xs @ (l, True) # ys" "cut_segs (need 8) xs l ys = (i, ss')" "block_malloc m 4096 8 = Some (adr ?d (2 * i + 2), m')"
      "blocks m' = (blocks m)(4096 \<mapsto> ?blk\<lparr>bfree := u4_sub (bfree ?blk) (need 8)\<rparr>)"
      "view ?d 512 m' (2 * i + 1) = Some (adr ?d (2 * (units xs + l)))"
    using block_malloc_ok [OF m(2,3) pre refl u] by blast
  have x: "xs = []" "ys = []" "l = 512" using r(1) by (auto simp: Cons_eq_append_conv)
  then have i: "i = 496" using r(2) n by (simp add: cut_segs_def MIN_CHUNK_SIZE_def UNIT_SIZE_def split: if_splits)
  have nx: "chunk_next m' (adr ?d (2 * 496)) = Some (adr ?d (2 * 512))"
    using header_reads(2) [OF f, of m' 496 False 512] r(5) x i by (simp add: mark_def)
  have p: "adr ?d (2 * i + 2) - 8 = adr ?d (2 * 496)" using i by (simp add: adr_def)
  have kn: "known m' 4096 (adr ?d (2 * i + 2))"
    unfolding known_def p nx r(4) by (simp add: BLOCK_END_def adr_def)
  have nz: "adr ?d (2 * i + 2) \<noteq> 0" using adr_nz [OF f, of "2 * i + 2"] i by simp
  have "block_run 4096 m' [adr ?d (2 * i + 2) \<mapsto> 8] (\<lambda>a. if in_area (adr ?d (2 * i + 2)) 8 a then cells m' a else None)"
    using block_run.malloc [OF run0 r(3) nz _ _ kn] by simp
  then show ?thesis using nz by blast
qed

text \<open>
  C13. Memory safety of the blocks of the pool: in any history of requests, returns and writes of the callers, two pointers in use never
  share a word, each caller's memory lies in the block and outside the headers, and every word holds what its owner stored last; every
  return of a pointer in use succeeds. The condition on the history is that the chunk behind the one that is
  handed out points back to it, which a request that splits a chunk brings about itself.
\<close>

theorem block_run_safe:
  assumes "block_run b m lv own"
  shows "(\<forall>a v. own a = Some v \<longrightarrow> cells m a = Some v) \<and>
    (\<forall>p sz a. lv p = Some sz \<and> in_area p sz a \<longrightarrow> own a \<noteq> None) \<and>
    (\<forall>p sz q sz' a. lv p = Some sz \<and> lv q = Some sz' \<and> p \<noteq> q \<longrightarrow> \<not> (in_area p sz a \<and> in_area q sz' a)) \<and>
    (\<forall>p sz. lv p = Some sz \<longrightarrow> (\<exists>m'. block_free m b p = Some (0, m')))"
proof -
  obtain ss where inv: "run_inv b ss m lv own"
    using assms
  proof (induction arbitrary: thesis rule: block_run.induct)
    case (init raw m0 U m)
    then show ?case using run_inv_init by blast
  next
    case (malloc m lv own sz p m')
    then obtain ss where "run_inv b ss m lv own" by blast
    then show ?case using run_inv_malloc [of b ss m lv own sz p m'] malloc by blast
  next
    case (refused m lv own sz m')
    then obtain ss where "run_inv b ss m lv own" by blast
    then show ?case using run_inv_refused [of b ss m lv own sz m'] refused by blast
  next
    case (free m lv own p sz c m')
    then obtain ss where "run_inv b ss m lv own" by blast
    then show ?case using run_inv_free [of b ss m lv own p sz c m'] free by blast
  next
    case (store m lv own a v m')
    then obtain ss where "run_inv b ss m lv own" by blast
    then show ?case using run_inv_store [of b ss m lv own a v m'] store by blast
  qed
  have ok: "block_ok m b ss" and lv: "\<forall>p sz. lv p = Some sz \<longrightarrow> (\<exists>c. holds_chunk (block_data b) ss p sz c)"
    using inv unfolding run_inv_def by blast+
  have "\<exists>m'. block_free m b p = Some (0, m')" if "lv p = Some sz" for p sz
  proof -
    obtain blk where blk: "blocks m b = Some blk" using ok by (auto simp: block_ok_def)
    obtain i l where "holds_chunk (block_data b) ss p sz (i, l)" using lv \<open>lv p = Some sz\<close> by fastforce
    then have il: "(i, l) \<in> lives 0 ss" "p = adr (block_data b) (2 * i + 2)" "2 \<le> l" using need_bounds(1) [of sz] by (auto simp: holds_chunk_def)
    obtain xs ys where s: "ss = xs @ (l, False) # ys" "i = units xs" using lives_split [OF il(1)] by auto
    show ?thesis using block_free_ok [OF ok blk s il(3) refl refl] il(2) by blast
  qed
  moreover have "\<not> (in_area p sz a \<and> in_area q sz' a)" if "lv p = Some sz" "lv q = Some sz'" "p \<noteq> q" for p sz q sz' a
    using lv that areas_disjoint [OF ok] by blast
  ultimately show ?thesis using inv unfolding run_inv_def by blast
qed

theorem block_run_safe_witness:
  "\<exists>m p own. block_run 4096 m [p \<mapsto> 8] own \<and> (\<forall>a v. own a = Some v \<longrightarrow> cells m a = Some v) \<and> (\<exists>m'. block_free m 4096 p = Some (0, m'))"
proof -
  obtain m p own where r: "block_run 4096 m [p \<mapsto> 8] own" using block_sample by blast
  have "[p \<mapsto> 8] p = Some (8 :: nat)" by simp
  then show ?thesis using r block_run_safe [OF r] by blast
qed

section \<open>The pool\<close>

text \<open>The blocks of a pool, each with its chunks and of the same size.\<close>

fun pool_chain :: "pool_mem \<Rightarrow> u4 \<Rightarrow> nat \<Rightarrow> (u4 \<times> segs) list \<Rightarrow> bool" where
  "pool_chain m b sz [] \<longleftrightarrow> b = 0"
| "pool_chain m b sz ((c, ss) # bs) \<longleftrightarrow> b = c \<and> block_ok m c ss \<and> 8 * units ss = sz \<and>
     (\<exists>blk. blocks m c = Some blk \<and> pool_chain m (bnext blk) sz bs)"

text \<open>The words of two blocks do not overlap.\<close>

definition apart :: "u4 \<Rightarrow> u4 \<Rightarrow> nat \<Rightarrow> bool" where
  "apart b c U \<longleftrightarrow> b \<noteq> c \<and> (\<forall>j < 2 * U. \<forall>k < 2 * U. adr (block_data b) j \<noteq> adr (block_data c) k)"

lemma block_ok_apart:
  assumes "block_ok m c ss" "apart b c (units ss)" "same_out (block_data b) (units ss) m m'" "blocks m' c = blocks m c"
  shows "block_ok m' c ss"
proof -
  have "cells m' (adr (block_data c) k) = cells m (adr (block_data c) k)" if "k < 2 * units ss" for k
    using assms(2,3) that unfolding apart_def same_out_def by metis
  then have "view (block_data c) (units ss) m' = view (block_data c) (units ss) m" by (simp add: view_def fun_eq_iff)
  then show ?thesis using assms(1,4) by (simp add: block_ok_def full_def)
qed

lemma pool_chain_apart:
  "pool_chain m b sz bs \<Longrightarrow> (\<And>c ss. (c, ss) \<in> set bs \<Longrightarrow> apart d c U \<and> blocks m' c = blocks m c) \<Longrightarrow> sz = 8 * U \<Longrightarrow>
   same_out (block_data d) U m m' \<Longrightarrow> pool_chain m' b sz bs"
proof (induction bs arbitrary: b)
  case (Cons x bs)
  obtain c ss where x: "x = (c, ss)" by (cases x)
  then have u: "units ss = U" using Cons.prems(1,3) by simp
  have "block_ok m' c ss" using Cons.prems(1,2,4) x u block_ok_apart [of m c ss d m'] by auto
  moreover have "blocks m' c = blocks m c" using Cons.prems(2) x by auto
  ultimately show ?case using Cons x by auto
qed simp

lemma block_ok_next: "block_ok m b ss \<Longrightarrow> blocks m b = Some blk \<Longrightarrow> block_ok (m\<lparr>blocks := (blocks m)(b \<mapsto> blk\<lparr>bnext := x\<rparr>)\<rparr>) b ss"
  by (simp add: block_ok_def full_def)

lemma no_fit: "8 * units ss < 8 * n \<Longrightarrow> \<forall>s \<in> set ss. \<not> fit n s"
  using member_le_sum_list [of _ "map fst ss"] by (fastforce simp: fit_def)

lemma alloc_loop_none:
  assumes "0 < sz" "sz + 15 < 2 ^ 32"
  shows "pool_chain m b n bs \<Longrightarrow> n < 8 * need sz \<Longrightarrow> alloc_loop m b sz = Some (0, m)"
proof (induction bs arbitrary: b)
  case Nil
  then show ?case by (subst alloc_loop.simps) simp
next
  case (Cons x bs)
  obtain c ss where x: "x = (c, ss)" by (cases x)
  obtain blk where c: "b = c" "block_ok m c ss" "8 * units ss = n" "blocks m c = Some blk" "pool_chain m (bnext blk) n bs"
    using Cons.prems(1) x by auto
  have m: "block_malloc m c sz = Some (0, m)" using block_malloc_none [OF c(2,4) assms] no_fit [of ss "need sz"] c(3) Cons.prems(2) by simp
  have "alloc_loop m (bnext blk) sz = Some (0, m)" using Cons.IH [OF c(5)] Cons.prems(2) by simp
  then show ?case using m c(1,4) block_okD(1) [OF c(2)] by (subst alloc_loop.simps) simp
qed

text \<open>
  C35. A pool whose blocks are well-formed (\<open>pool_chain\<close>, whatever chunks are in use) cannot serve the requests between an eighth of its
  block size and its block size, because \<open>block_malloc\<close> compares the
  bytes it needs with a length in units of 8 bytes: such a request is refused. When \<open>malloc\<close> has no block nothing changes; when it
  answers a block apart from those of the pool, the request
  leaves one more block of unused memory in the pool, which is well-formed again. (Requests of the block size and more go to \<open>malloc\<close>.)
\<close>

theorem pool_midsize_refused:
  assumes p: "pool_chain m (block_list p) (block_size p) bs" and sz: "0 < sz" "sz + 15 < 2 ^ 32" "sz < block_size p" "block_size p < 8 * need sz"
    and b: "b \<noteq> 0" "block_size p = 8 * U" "fits (block_data b) U" "\<forall>(c, ss) \<in> set bs. apart b c U"
  shows "mem_pool_alloc None raw m (Some p) sz = Some (0, m, Some p) \<and>
    (\<exists>m' p'. mem_pool_alloc (Some b) raw m (Some p) sz = Some (0, m', Some p') \<and>
    block_num p' = u4_add (block_num p) 1 \<and> block_size p' = block_size p \<and> pool_chain m' (block_list p') (block_size p') ((b, [(U, True)]) # bs))"
proof -
  have U: "1 \<le> U" using sz(3) b(2) by (cases U) auto
  obtain m1 where m1: "block_init (Some b) raw m True (8 * U) = Some (0, m1, b)" "block_ok m1 b [(U, True)]"
      "blocks m1 = (blocks m)(b \<mapsto> \<lparr>bsize = 8 * U, bfree = 8 * U, bnext = 0, bottom = block_data b\<rparr>)" "same_out (block_data b) U m m1"
    using block_init_ok [OF b(1,3) U, of raw m] by blast
  define blk where "blk = \<lparr>bsize = 8 * U, bfree = 8 * U, bnext = block_list p, bottom = block_data b\<rparr>"
  define m2 where "m2 = m1\<lparr>blocks := (blocks m1)(b \<mapsto> blk)\<rparr>"
  have m2b: "blocks m2 = (blocks m)(b \<mapsto> blk)" by (simp add: m2_def m1(3))
  have ok2: "block_ok m2 b [(U, True)]"
    using block_ok_next [OF m1(2), of "\<lparr>bsize = 8 * U, bfree = 8 * U, bnext = 0, bottom = block_data b\<rparr>" "block_list p"] m1(3)
    by (simp add: m2_def blk_def)
  have none: "block_malloc m2 b sz = Some (0, m2)"
    using block_malloc_none [OF ok2 _ sz(1,2), of blk] m2b no_fit [of "[(U, True)]" "need sz"] sz(4) b(2) by simp
  let ?p = "p\<lparr>block_list := b, block_num := u4_add (block_num p) 1\<rparr>"
  have run: "mem_pool_alloc (Some b) raw m (Some p) sz = Some (0, m2, Some ?p)"
    using sz(1,3) alloc_loop_none [OF sz(1,2) p sz(4)] m1(1,3) b(2) none by (simp add: mem_pool_alloc_def m2_def blk_def)
  have out: "same_out (block_data b) U m m2" using m1(4) by (simp add: m2_def)
  have ap: "apart b c U \<and> blocks m2 c = blocks m c" if "(c, ss) \<in> set bs" for c ss
    using that b(4) m2b unfolding apart_def by auto
  have "pool_chain m2 (block_list p) (block_size p) bs" by (rule pool_chain_apart [OF p ap b(2) out])
  then have "pool_chain m2 b (block_size p) ((b, [(U, True)]) # bs)" using ok2 m2b b(2) by (simp add: blk_def)
  then have "\<exists>m' p'. mem_pool_alloc (Some b) raw m (Some p) sz = Some (0, m', Some p') \<and> block_num p' = u4_add (block_num p) 1 \<and>
      block_size p' = block_size p \<and> pool_chain m' (block_list p') (block_size p') ((b, [(U, True)]) # bs)"
    using run by (intro exI [of _ m2] exI [of _ ?p]) simp
  moreover have "mem_pool_alloc None raw m (Some p) sz = Some (0, m, Some p)"
    using sz(1,3) alloc_loop_none [OF sz(1,2) p sz(4)] by (simp add: mem_pool_alloc_def block_init_def)
  ultimately show ?thesis by blast
qed

theorem pool_midsize_refused_witness:
  "\<exists>m p m' p'. mem_pool_alloc (Some 16384) (\<lambda>_. 0) m (Some p) 520 = Some (0, m', Some p') \<and> block_num p = 1 \<and> block_num p' = 2"
proof -
  have f: "fits (block_data 4096) 512" "fits (block_data 16384) 512" by (simp_all add: fits_def block_data_def)
  let ?m = "\<lparr>blocks = Map.empty, cells = Map.empty, sys = Map.empty\<rparr>"
  let ?p = "\<lparr>block_num = 1, block_size = 4096, block_list = 4096\<rparr>"
  obtain m where m: "block_ok m 4096 [(512, True)]" "blocks m 4096 = Some \<lparr>bsize = 8 * 512, bfree = 8 * 512, bnext = 0, bottom = block_data 4096\<rparr>"
    using block_init_ok [of 4096 512, OF _ f(1), of "\<lambda>_. 0" ?m] by auto
  have c: "pool_chain m (block_list ?p) (block_size ?p) [(4096, [(512, True)])]" using m by simp
  have ap: "apart 16384 4096 512"
  proof -
    have "adr (block_data 16384) j \<noteq> adr (block_data 4096) k" if "j < 1024" "k < 1024" for j k
    proof
      assume e: "adr (block_data 16384) j = adr (block_data 4096) k"
      have "unat (adr (block_data 16384) j) = 16400 + 4 * j" using unat_adr [OF f(2), of j] that(1) by (simp add: block_data_def)
      moreover have "unat (adr (block_data 4096) k) = 4112 + 4 * k" using unat_adr [OF f(1), of k] that(2) by (simp add: block_data_def)
      ultimately show False using e that by simp
    qed
    then show ?thesis by (simp add: apart_def)
  qed
  have n: "need 520 = 528" by (simp add: need_def ALIGN_SIZE_def UNIT_SIZE_def)
  have "\<exists>m' p'. mem_pool_alloc (Some 16384) (\<lambda>_. 0) m (Some ?p) 520 = Some (0, m', Some p') \<and> block_num p' = u4_add (block_num ?p) 1"
    using pool_midsize_refused [OF c, of 520 16384 512 "\<lambda>_. 0"] n f(2) ap by auto
  then obtain m' p' where "mem_pool_alloc (Some 16384) (\<lambda>_. 0) m (Some ?p) 520 = Some (0, m', Some p')" "block_num p' = u4_add 1 1" by auto
  then show ?thesis by (intro exI [of _ m] exI [of _ ?p] exI [of _ m'] exI [of _ p']) (simp add: u4_add_def)
qed

section \<open>What goes wrong\<close>

text \<open>Evaluation of the operations on concrete memory.\<close>

lemmas pool_eval = block_malloc_def block_free_def block_init_def block_uninit_def wr_def UNIT_SIZE_def MIN_CHUNK_SIZE_def ALIGN_SIZE_def
  block_data_def BLOCK_END_def CHUNK_FIRST_def get_freebit_def set_freebit_def clr_freebit_def chunk_next_def chunk_mem_size_def in_area_def
  u4_add_def u4_sub_def BLOCK_SIZE_def SYS_ALLOC_FLAG_def mem_pool_init_def mem_pool_alloc_def mem_pool_dealloc_def Let_def
  best_fit.simps alloc_loop.simps dealloc_loop.simps

lemma bind_arg: "a = b \<Longrightarrow> Option.bind a f = Option.bind b f"
  by simp

lemma case_prod_arg: "a = b \<Longrightarrow> case_prod f a = case_prod f b"
  by simp

text \<open>
  The condition of the safety theorem is needed. In a block of 64K the second of two chunks is given back and joined with the free
  chunk before it; the back link of the chunk behind still points to its old header. When the joined chunk is handed out
  whole, that header lies in the memory of the new owner. After he has stored the value 1 there, giving back the chunk behind overwrites
  his value.
\<close>

theorem stale_link_overwrites:
  "(do {
      (ret, m, b) \<leftarrow> block_init (Some 4096) (\<lambda>_. 0) \<lparr>blocks = Map.empty, cells = Map.empty, sys = Map.empty\<rparr> True 65536;
      (p1, m) \<leftarrow> block_malloc m b 6536;
      (p2, m) \<leftarrow> block_malloc m b 1616;
      (c2, m) \<leftarrow> block_free m b p2;
      (p3, m) \<leftarrow> block_malloc m b 1624;
      m \<leftarrow> wr m (p3 + 188) 1;
      (c1, m') \<leftarrow> block_free m b p1;
      Some (p3 \<noteq> 0, in_area p3 1624 (p3 + 188), cells m (p3 + 188) = Some 1, c1, cells m' (p3 + 188) = Some 1) }) =
   Some (True, True, True, 0, False)"
  by (simp add: pool_eval cong: bind_arg case_prod_arg let_weak_cong)

text \<open>
  The count of free bytes of a block drifts: a chunk that is handed out whole is counted with the size that was asked for and comes
  back with its full size. After two rounds a block with a chunk in use counts as entirely free, and \<open>mem_pool_dealloc\<close> gives it back to
  \<open>free\<close> under its owner, here the first caller of the pool.
\<close>

theorem pool_release_live:
  "(do {
      (ret, m, p) \<leftarrow> mem_pool_init (\<lambda>_. True) (Some 4096) (\<lambda>_. 0) \<lparr>blocks = Map.empty, cells = Map.empty, sys = Map.empty\<rparr> True 4096;
      (x0, m, p) \<leftarrow> mem_pool_alloc None (\<lambda>_. 0) m p 8;
      (x1, m, p) \<leftarrow> mem_pool_alloc None (\<lambda>_. 0) m p 472;
      (x2, m, p) \<leftarrow> mem_pool_alloc (Some 16384) (\<lambda>_. 0) m p 8;
      (c1, m, p) \<leftarrow> mem_pool_dealloc m p x1;
      (x3, m, p) \<leftarrow> mem_pool_alloc None (\<lambda>_. 0) m p 472;
      (x4, m, p) \<leftarrow> mem_pool_alloc None (\<lambda>_. 0) m p 472;
      (c4, m', p) \<leftarrow> mem_pool_dealloc m p x4;
      Some (cells m x0 \<noteq> None, c4, cells m' x0 = None, blocks m' 4096 = None) }) =
   Some (True, 0, True, True)"
  by (simp add: pool_eval cong: bind_arg case_prod_arg let_weak_cong)

section \<open>Large requests and the end of a pool\<close>

text \<open>
  C36. A request of at least the block size is served by \<open>malloc\<close> directly, and \<open>mem_pool_dealloc\<close> recognises it by the mark and the size
  in front of it: the memory and the pool are as before, and no block is looked at.
\<close>

theorem pool_large_roundtrip:
  assumes sz: "0 < sz" "block_size p \<le> sz" "sz + 8 < 2 ^ 32" and arr: "arr + 8 \<noteq> 0" "sys m arr = None"
    and fresh: "\<forall>a. in_area arr (sz + 8) a \<longrightarrow> cells m a = None"
  shows "\<exists>m'. mem_pool_alloc (Some arr) raw m (Some p) sz = Some (arr + 8, m', Some p) \<and>
    (\<forall>a. in_area (arr + 8) sz a \<longrightarrow> cells m' a \<noteq> None) \<and> mem_pool_dealloc m' (Some p) (arr + 8) = Some (0, m, Some p)"
proof -
  define v :: u4 where "v = of_nat SYS_ALLOC_FLAG"
  define n :: u4 where "n = of_nat sz"
  have v: "unat v = SYS_ALLOC_FLAG" by (simp add: v_def SYS_ALLOC_FLAG_def)
  have n: "unat n = sz" unfolding n_def using sz(3) by (simp only: unat_of_nat) simp
  let ?c = "\<lambda>q. if q = arr then Some v else if q = arr + 4 then Some n else if in_area arr (sz + 8) q then Some (raw q) else cells m q"
  define m1 where "m1 = m\<lparr>sys := (sys m)(arr \<mapsto> sz + 8), cells := ?c\<rparr>"
  have "u4_add sz 8 = sz + 8" "u4_sub (sz + 8) 8 = sz" using sz(3) u4_sub_small [of 8 "sz + 8"] by (simp_all add: u4_add_def)
  then have run: "mem_pool_alloc (Some arr) raw m (Some p) sz = Some (arr + 8, m1, Some p)"
    using sz(1,2) by (simp add: mem_pool_alloc_def sys_alloc_def Let_def m1_def v_def n_def cong: if_cong)
  have in0: "in_area arr (sz + 8) arr" "in_area arr (sz + 8) (arr + 4)" by (simp_all add: in_area_def)
  have "cells m1 a \<noteq> None" if a: "in_area (arr + 8) sz a" for a
  proof -
    have e: "a - arr = (a - (arr + 8)) + 8" by simp
    have "unat (a - (arr + 8)) + 8 < 2 ^ 32" using a sz(3) by (auto simp: in_area_def)
    then have "unat (a - arr) = unat (a - (arr + 8)) + 8" unfolding e using unat_add_lem [of "a - (arr + 8)" 8] by simp
    moreover have "(unat (a - (arr + 8)) + 8) mod 4 = 0" using a unfolding in_area_def by presburger
    ultimately have "in_area arr (sz + 8) a" using a by (simp add: in_area_def)
    then show ?thesis by (simp add: m1_def)
  qed
  moreover have "mem_pool_dealloc m1 (Some p) (arr + 8) = Some (0, m, Some p)"
  proof -
    have "sys_free m1 arr = Some m"
    proof -
      have c: "(\<lambda>q. if in_area arr (sz + 8) q then None else cells m1 q) = cells m" using fresh in0 by (auto simp: fun_eq_iff m1_def)
      have "((sys m)(arr \<mapsto> sz + 8))(arr := None) = sys m" using arr(2) by auto
      then have "m1\<lparr>sys := (sys m1)(arr := None), cells := cells m\<rparr> = m" by (simp add: m1_def)
      moreover have "sys m1 arr = Some (sz + 8)" by (simp add: m1_def)
      ultimately show ?thesis unfolding sys_free_def by (simp add: c)
    qed
    moreover have "cells m1 arr = Some v" "cells m1 (arr + 4) = Some n" by (simp_all add: m1_def)
    ultimately show ?thesis using arr(1) v n sz(2) by (simp add: mem_pool_dealloc_def)
  qed
  ultimately show ?thesis using run by blast
qed

theorem pool_large_roundtrip_witness:
  "\<exists>m'. mem_pool_alloc (Some 32768) (\<lambda>_. 0) \<lparr>blocks = Map.empty, cells = Map.empty, sys = Map.empty\<rparr>
      (Some \<lparr>block_num = 1, block_size = 4096, block_list = 4096\<rparr>) 5000 = Some (32776, m', Some \<lparr>block_num = 1, block_size = 4096, block_list = 4096\<rparr>)"
proof -
  let ?p = "\<lparr>block_num = 1, block_size = 4096, block_list = 4096\<rparr>" and ?m = "\<lparr>blocks = Map.empty, cells = Map.empty, sys = Map.empty\<rparr>"
  show ?thesis using pool_large_roundtrip [of 5000 ?p 32768 ?m "\<lambda>_. 0"] by auto
qed

text \<open>The list of blocks alone.\<close>

fun block_chain :: "(u4 \<Rightarrow> block_t option) \<Rightarrow> u4 \<Rightarrow> nat \<Rightarrow> u4 list \<Rightarrow> bool" where
  "block_chain h b sz [] \<longleftrightarrow> b = 0"
| "block_chain h b sz (c # cs) \<longleftrightarrow> b = c \<and> c \<noteq> 0 \<and> (\<exists>blk. h c = Some blk \<and> bsize blk = sz \<and> block_chain h (bnext blk) sz cs)"

lemma pool_block_chain: "pool_chain m b sz bs \<Longrightarrow> block_chain (blocks m) b sz (map fst bs)"
  by (induction m b sz bs rule: pool_chain.induct) (auto simp: block_ok_def)

lemma block_chain_cong: "block_chain h b sz cs \<Longrightarrow> (\<And>c. c \<in> set cs \<Longrightarrow> h' c = h c) \<Longrightarrow> block_chain h' b sz cs"
  by (induction h b sz cs rule: block_chain.induct) auto

lemma uninit_blocks_ok:
  "block_chain (blocks m) b sz cs \<Longrightarrow> distinct cs \<Longrightarrow>
   \<exists>m'. uninit_blocks m b = Some m' \<and> sys m' = sys m \<and> (\<forall>c. blocks m' c = (if c \<in> set cs then None else blocks m c)) \<and>
     (\<forall>a. cells m' a = (if \<exists>c \<in> set cs. in_area (block_data c) sz a then None else cells m a))"
proof (induction cs arbitrary: m b)
  case Nil
  then show ?case by (subst uninit_blocks.simps) simp
next
  case (Cons c cs)
  obtain blk where c: "b = c" "c \<noteq> 0" "blocks m c = Some blk" "bsize blk = sz" "block_chain (blocks m) (bnext blk) sz cs" using Cons.prems(1) by auto
  define m1 where "m1 = m\<lparr>blocks := (blocks m)(c := None), cells := (\<lambda>a. if in_area (block_data c) sz a then None else cells m a)\<rparr>"
  have u: "block_uninit m c = Some m1" using c by (simp add: block_uninit_def m1_def)
  have "block_chain (blocks m1) (bnext blk) sz cs" by (rule block_chain_cong [OF c(5)]) (use Cons.prems(2) in \<open>auto simp: m1_def\<close>)
  then obtain m' where m': "uninit_blocks m1 (bnext blk) = Some m'" "sys m' = sys m1" "\<forall>c. blocks m' c = (if c \<in> set cs then None else blocks m1 c)"
      "\<forall>a. cells m' a = (if \<exists>c \<in> set cs. in_area (block_data c) sz a then None else cells m1 a)"
    using Cons.IH [of m1 "bnext blk"] Cons.prems(2) by auto
  have "uninit_blocks m b = Some m'" using c(1-3) u m'(1) by (subst uninit_blocks.simps) simp
  then show ?case using m'(2-4) by (intro exI [of _ m']) (auto simp: m1_def)
qed

text \<open>
  C37. \<open>mem_pool_uninit\<close> ends and gives back every block of the pool once, with all the words in it; the requests that went to \<open>malloc\<close>
  directly and all other memory stay.
\<close>

theorem pool_uninit_frees:
  assumes p: "pool_chain m (block_list p) (block_size p) bs" and d: "distinct (map fst bs)"
  shows "\<exists>m'. mem_pool_uninit m (Some p) = Some (m', None) \<and> sys m' = sys m \<and>
    (\<forall>c. blocks m' c = (if c \<in> fst ` set bs then None else blocks m c)) \<and>
    (\<forall>a. cells m' a = (if \<exists>c \<in> fst ` set bs. in_area (block_data c) (block_size p) a then None else cells m a))"
  using uninit_blocks_ok [OF pool_block_chain [OF p] d] by (auto simp: mem_pool_uninit_def)

theorem pool_uninit_frees_witness:
  "\<exists>m p m'. mem_pool_uninit m (Some p) = Some (m', None) \<and> blocks m 4096 \<noteq> None \<and> blocks m' 4096 = None"
proof -
  have f: "fits (block_data 4096) 512" by (simp add: fits_def block_data_def)
  let ?p = "\<lparr>block_num = 1, block_size = 4096, block_list = 4096\<rparr>" and ?bs = "[(4096, [(512, True)])]"
  obtain m where m: "block_ok m 4096 [(512, True)]" "blocks m 4096 = Some \<lparr>bsize = 8 * 512, bfree = 8 * 512, bnext = 0, bottom = block_data 4096\<rparr>"
    using block_init_ok [of 4096 512, OF _ f, of "\<lambda>_. 0" "\<lparr>blocks = Map.empty, cells = Map.empty, sys = Map.empty\<rparr>"] by auto
  have c: "pool_chain m (block_list ?p) (block_size ?p) ?bs" using m by simp
  have d: "distinct (map fst ?bs)" by simp
  obtain m' where "mem_pool_uninit m (Some ?p) = Some (m', None)" "blocks m' 4096 = None"
    using pool_uninit_frees [OF c d] by auto
  then show ?thesis using m(2) by blast
qed

end
