(* ===== verification/Lisk_Atom.thy ===== *)
theory Lisk_Atom
  imports Lisk_Prelude "HOL-Library.Monad_Syntax"
begin

text \<open>
  The bit arrays of \<open>win_lisk/src/lisk_atom.c\<close>: a bit array is the list of its bytes, a position is a signed number of four bytes and
  an access behind the array is \<open>None\<close>. Every sequence of changes refines the same changes of a set of positions.
\<close>

section \<open>Operations\<close>

definition get_bit :: "u1 list option \<Rightarrow> n4 \<Rightarrow> n4 option" where
  "get_bit ptr pos =
     (case ptr of
        None \<Rightarrow> Some (-1)
      | Some a \<Rightarrow>
          if pos < 0 then Some (-1)
          else
            (let i = nat pos div 8 in
             if i < length a then Some (sint (a ! i AND push_bit (nat pos mod 8) 1)) else None))"

definition mask1 :: "u1 list" where
  "mask1 = [0x01, 0x02, 0x04, 0x08, 0x10, 0x20, 0x40, 0x80]"

definition set_bit1 :: "u1 list option \<Rightarrow> n4 \<Rightarrow> (n4 \<times> u1 list option) option" where
  "set_bit1 ptr pos =
     (case ptr of
        None \<Rightarrow> Some (-1, None)
      | Some a \<Rightarrow>
          if pos < 0 then Some (-1, ptr)
          else
            (let i = nat pos div 8 in
             if i < length a then Some (0, Some (a[i := a ! i OR mask1 ! (nat pos mod 8)])) else None))"

definition mask0 :: "u1 list" where
  "mask0 = [0xFE, 0xFD, 0xFB, 0xF7, 0xEF, 0xDF, 0xBF, 0x7F]"

definition set_bit0 :: "u1 list option \<Rightarrow> n4 \<Rightarrow> (n4 \<times> u1 list option) option" where
  "set_bit0 ptr pos =
     (case ptr of
        None \<Rightarrow> Some (-1, None)
      | Some a \<Rightarrow>
          if pos < 0 then Some (-1, ptr)
          else
            (let i = nat pos div 8 in
             if i < length a then Some (0, Some (a[i := a ! i AND mask0 ! (nat pos mod 8)])) else None))"

section \<open>The set of positions\<close>

definition bits_of :: "u1 list \<Rightarrow> int set" where
  "bits_of a = {p. 0 \<le> p \<and> nat p div 8 < length a \<and> bit (a ! (nat p div 8)) (nat p mod 8)}"

definition legal :: "u1 list \<Rightarrow> n4 \<Rightarrow> bool" where
  "legal a pos \<longleftrightarrow> 0 \<le> pos \<and> pos < 8 * int (length a)"

lemma legal_nat: "legal a pos \<longleftrightarrow> 0 \<le> pos \<and> nat pos div 8 < length a"
  by (auto simp: legal_def less_mult_imp_div_less nat_less_iff div_less_iff_less_mult mult.commute)

lemma less_eight: "k < 8 \<Longrightarrow> k \<in> {0, 1, 2, 3, 4, 5, 6, 7 :: nat}"
  by auto

lemma mask1_nth: "k < 8 \<Longrightarrow> mask1 ! k = push_bit k 1"
  using less_eight [of k] by (auto simp: mask1_def)

lemma mask0_nth: "k < 8 \<Longrightarrow> mask0 ! k = NOT (push_bit k 1)"
  using less_eight [of k] by (auto simp: mask0_def)

lemma same_place: "0 \<le> p \<Longrightarrow> 0 \<le> q \<Longrightarrow> nat p div 8 = nat q div 8 \<Longrightarrow> nat p mod 8 = nat q mod 8 \<Longrightarrow> p = q"
  by (metis div_mod_decomp eq_nat_nat_iff)

lemma set_bit1_ok:
  assumes "legal a pos"
  shows "\<exists>a'. set_bit1 (Some a) pos = Some (0, Some a') \<and> length a' = length a \<and> bits_of a' = insert pos (bits_of a)"
proof -
  let ?i = "nat pos div 8" and ?k = "nat pos mod 8"
  have p: "0 \<le> pos" "?i < length a" using assms by (simp_all add: legal_nat)
  let ?a = "a[?i := a ! ?i OR push_bit ?k 1]"
  have run: "set_bit1 (Some a) pos = Some (0, Some ?a)" using p by (simp add: set_bit1_def Let_def mask1_nth)
  have "q \<in> bits_of ?a \<longleftrightarrow> q \<in> insert pos (bits_of a)" for q
    using p same_place [of q pos] by (auto simp: bits_of_def nth_list_update bit_simps)
  then have "bits_of ?a = insert pos (bits_of a)" by blast
  then show ?thesis using run by simp
qed

lemma set_bit0_ok:
  assumes "legal a pos"
  shows "\<exists>a'. set_bit0 (Some a) pos = Some (0, Some a') \<and> length a' = length a \<and> bits_of a' = bits_of a - {pos}"
proof -
  let ?i = "nat pos div 8" and ?k = "nat pos mod 8"
  have p: "0 \<le> pos" "?i < length a" using assms by (simp_all add: legal_nat)
  let ?a = "a[?i := a ! ?i AND NOT (push_bit ?k 1)]"
  have run: "set_bit0 (Some a) pos = Some (0, Some ?a)" using p by (simp add: set_bit0_def Let_def mask0_nth)
  have "q \<in> bits_of ?a \<longleftrightarrow> q \<in> bits_of a - {pos}" for q
    using p same_place [of q pos] by (auto simp: bits_of_def nth_list_update bit_simps)
  then have "bits_of ?a = bits_of a - {pos}" by blast
  then show ?thesis using run by simp
qed

text \<open>The answer of \<open>get_bit\<close> is the bit at its place in the byte, as a signed byte.\<close>

lemma masked_byte: "k < 8 \<Longrightarrow> sint ((b :: u1) AND push_bit k 1) = (if bit b k then (if k = 7 then -128 else 2 ^ k) else 0)"
proof -
  assume k: "k < 8"
  have e: "b AND push_bit k 1 = (if bit b k then push_bit k 1 else 0)" using k by (intro bit_eqI) (auto simp: bit_simps)
  show ?thesis unfolding e using less_eight [OF k] by auto
qed

lemma get_bit_value:
  "legal a pos \<Longrightarrow> get_bit (Some a) pos = Some (if pos \<in> bits_of a then (if pos mod 8 = 7 then -128 else 2 ^ nat (pos mod 8)) else 0)"
proof -
  assume "legal a pos"
  then have p: "0 \<le> pos" "nat pos div 8 < length a" by (simp_all add: legal_nat)
  have e: "nat (pos mod 8) = nat pos mod 8" using p(1) by (simp add: nat_mod_distrib)
  then have "pos mod 8 = 7 \<longleftrightarrow> nat pos mod 8 = 7" by linarith
  with e show ?thesis using p by (simp add: get_bit_def Let_def bits_of_def masked_byte del: push_bit_of_1)
qed

section \<open>Histories\<close>

text \<open>A change is \<open>(True, p)\<close> for \<open>set_bit1\<close> and \<open>(False, p)\<close> for \<open>set_bit0\<close>.\<close>

fun bits_run :: "(bool \<times> n4) list \<Rightarrow> u1 list option \<Rightarrow> u1 list option option" where
  "bits_run [] a = Some a"
| "bits_run ((on, p) # cs) a = do { (ret, a) \<leftarrow> (if on then set_bit1 a p else set_bit0 a p); bits_run cs a }"

fun set_run :: "(bool \<times> n4) list \<Rightarrow> int set \<Rightarrow> int set" where
  "set_run [] s = s"
| "set_run ((on, p) # cs) s = set_run cs (if on then insert p s else s - {p})"

lemma bits_run_ok:
  "\<forall>c \<in> set cs. legal a (snd c) \<Longrightarrow>
   \<exists>a'. bits_run cs (Some a) = Some (Some a') \<and> length a' = length a \<and> bits_of a' = set_run cs (bits_of a)"
proof (induction cs arbitrary: a)
  case Nil
  then show ?case by simp
next
  case (Cons c cs)
  obtain on p where c: "c = (on, p)" by (cases c)
  have l: "legal a p" using Cons.prems c by simp
  obtain a1 where a1: "(if on then set_bit1 (Some a) p else set_bit0 (Some a) p) = Some (0, Some a1)" "length a1 = length a"
      "bits_of a1 = (if on then insert p (bits_of a) else bits_of a - {p})"
    using set_bit1_ok [OF l] set_bit0_ok [OF l] by (cases on) auto
  have "\<forall>c \<in> set cs. legal a1 (snd c)" using Cons.prems a1(2) by (simp add: legal_def)
  then obtain a' where "bits_run cs (Some a1) = Some (Some a')" "length a' = length a1" "bits_of a' = set_run cs (bits_of a1)"
    using Cons.IH by blast
  then show ?case using a1 c by (intro exI [of _ a']) simp
qed

text \<open>
  C38. A bit array is a set of positions: after any sequence of \<open>set_bit1\<close> and \<open>set_bit0\<close> inside the array, \<open>get_bit\<close> answers 0 exactly for
  the positions that are not in the set which the same sequence gives; no byte outside the array is touched. (For a position in
  the set the answer is the bit at its place in the byte, -128 for the highest, and not 1 as the header promises.)
\<close>

theorem bits_run_refines:
  assumes "\<forall>c \<in> set cs. legal a (snd c)"
  shows "\<exists>a'. bits_run cs (Some a) = Some (Some a') \<and> length a' = length a \<and>
    (\<forall>p. legal a p \<longrightarrow> get_bit (Some a') p =
      Some (if p \<in> set_run cs (bits_of a) then (if p mod 8 = 7 then -128 else 2 ^ nat (p mod 8)) else 0))"
proof -
  obtain a' where a': "bits_run cs (Some a) = Some (Some a')" "length a' = length a" "bits_of a' = set_run cs (bits_of a)"
    using bits_run_ok [OF assms] by blast
  have "legal a' p" if "legal a p" for p using that a'(2) by (simp add: legal_def)
  then show ?thesis using a' get_bit_value [of a'] by (intro exI [of _ a']) simp
qed

theorem bits_run_refines_witness:
  "\<exists>a'. bits_run [(True, 9), (True, 15), (False, 9)] (Some [0, 0]) = Some (Some a') \<and> get_bit (Some a') 15 = Some (-128) \<and> get_bit (Some a') 9 = Some 0"
proof -
  have z: "bits_of [0, 0] = {}" by (auto simp: bits_of_def less_Suc_eq nth_Cons')
  have l: "\<forall>c \<in> set [(True, 9), (True, 15), (False, 9)]. legal [0, 0] (snd c)" by (simp add: legal_def)
  obtain a' where a': "bits_run [(True, 9), (True, 15), (False, 9)] (Some [0, 0]) = Some (Some a')"
      "\<And>p. legal [0, 0] p \<Longrightarrow> get_bit (Some a') p = Some (if p \<in> set_run [(True, 9), (True, 15), (False, 9)] (bits_of [0, 0])
        then (if p mod 8 = 7 then -128 else 2 ^ nat (p mod 8)) else 0)"
    using bits_run_refines [OF l] by blast
  have "get_bit (Some a') 15 = Some (-128)" "get_bit (Some a') 9 = Some 0"
    using a'(2) [of 15] a'(2) [of 9] z by (simp_all add: legal_def)
  then show ?thesis using a'(1) by blast
qed

end
