(* ===== verification/Lisk_Clock.thy ===== *)
theory Lisk_Clock
  imports Lisk_Prelude "HOL-Library.Monad_Syntax"
begin

text \<open>
  The clock of \<open>win_lisk/src/lisk_clock.c\<close> and the macros \<open>timeradd\<close> and \<open>timersub\<close> of \<open>inc/lisk_clock.h\<close>. The answers of the system are
  arguments: the file time (hundreds of nanoseconds since 1601 in two words), the performance counter and its
  frequency, and the time zone of the C runtime. \<open>long\<close> has four bytes on Windows, so the fields of a \<open>timeval\<close> are in the range of \<open>n4_wrap\<close>.
\<close>

section \<open>Types\<close>

definition n4_wrap :: "int \<Rightarrow> int" where
  "n4_wrap x = (x + 2 ^ 31) mod 2 ^ 32 - 2 ^ 31"

text \<open>Division and remainder of C on signed numbers.\<close>

definition c_div :: "int \<Rightarrow> int \<Rightarrow> int" where
  "c_div a b = sgn a * sgn b * (\<bar>a\<bar> div \<bar>b\<bar>)"

definition c_rem :: "int \<Rightarrow> int \<Rightarrow> int" where
  "c_rem a b = sgn a * (\<bar>a\<bar> mod \<bar>b\<bar>)"

record timeval =
  tv_sec :: int
  tv_usec :: int

record timezone =
  tz_minuteswest :: int
  tz_dsttime :: int

record program_time_t =
  prog_start :: u8
  prog_cur :: u8
  clock_ticks :: u8

section \<open>The time of the day\<close>

definition DELTA_EPOCH_IN_MICROSECS :: u8 where
  "DELTA_EPOCH_IN_MICROSECS = 11644473600000000"

text \<open>\<open>ft\<close> is the answer of \<open>GetSystemTimeAsFileTime\<close> (high word, low word), \<open>crt\<close> the values \<open>_timezone\<close> and \<open>_daylight\<close> that \<open>_tzset\<close> gives.\<close>

definition gettimeofday :: "u4 \<times> u4 \<Rightarrow> int \<times> int \<Rightarrow> int \<Rightarrow> timeval option \<Rightarrow> timezone option \<Rightarrow>
    n4 \<times> timeval option \<times> timezone option \<times> int" where
  "gettimeofday ft crt tzflag tv tz =
     (let tmpres = push_bit 32 (ucast (fst ft) :: u8) OR ucast (snd ft);
          tmpres = tmpres div 10 - DELTA_EPOCH_IN_MICROSECS;
          tv' = map_option (\<lambda>t. \<lparr>tv_sec = n4_wrap (uint (tmpres div 1000000)), tv_usec = n4_wrap (uint (tmpres mod 1000000))\<rparr>) tv;
          tz' = map_option (\<lambda>t. \<lparr>tz_minuteswest = n4_wrap (c_div (fst crt) 60), tz_dsttime = n4_wrap (snd crt)\<rparr>) tz in
      (0, tv', tz', if tz \<noteq> None \<and> tzflag = 0 then tzflag + 1 else tzflag))"

text \<open>The callers below pass a \<open>timeval\<close> of their own and no time zone.\<close>

definition now :: "u4 \<times> u4 \<Rightarrow> timeval" where
  "now ft = the (fst (snd (gettimeofday ft (0, 0) 0 (Some \<lparr>tv_sec = 0, tv_usec = 0\<rparr>) None)))"

definition get_cur_time_sec :: "u4 \<times> u4 \<Rightarrow> int" where
  "get_cur_time_sec ft = tv_sec (now ft)"

definition get_cur_time_msec :: "u4 \<times> u4 \<Rightarrow> int" where
  "get_cur_time_msec ft = n4_wrap (n4_wrap (tv_sec (now ft) * 1000) + c_div (tv_usec (now ft)) 1000)"

definition get_cur_time_usec :: "u4 \<times> u4 \<Rightarrow> int" where
  "get_cur_time_usec ft = n4_wrap (n4_wrap (tv_sec (now ft) * 1000000) + tv_usec (now ft))"

section \<open>The stop watch\<close>

definition time_diff_usec :: "u8 \<Rightarrow> u8 \<Rightarrow> u8 \<Rightarrow> u8 option" where
  "time_diff_usec a b freq =
     (if freq = 0 then None
      else
        (let a_usec = (a * 1000000) div freq;
             b_usec = (b * 1000000) div freq in
         Some (if b_usec < a_usec then a_usec - b_usec else b_usec - a_usec)))"

definition clock_start :: "u8 \<Rightarrow> u8 \<Rightarrow> program_time_t" where
  "clock_start counter freq = \<lparr>prog_start = counter, prog_cur = counter, clock_ticks = (if freq = 0 then 1 else freq)\<rparr>"

definition clock_record :: "u8 \<Rightarrow> program_time_t \<Rightarrow> program_time_t" where
  "clock_record counter p = p\<lparr>prog_cur := counter\<rparr>"

definition clock_reset :: "u8 \<Rightarrow> program_time_t \<Rightarrow> program_time_t" where
  "clock_reset counter p = p\<lparr>prog_start := counter, prog_cur := counter\<rparr>"

definition time_diff :: "program_time_t \<Rightarrow> u4 option" where
  "time_diff p = map_option ucast (time_diff_usec (prog_cur p) (prog_start p) (clock_ticks p))"

section \<open>Sums and differences of times\<close>

definition timeradd :: "timeval \<Rightarrow> timeval \<Rightarrow> timeval" where
  "timeradd t1 t2 =
     (let t3 = \<lparr>tv_sec = n4_wrap (tv_sec t1 + tv_sec t2), tv_usec = n4_wrap (tv_usec t1 + c_rem (tv_usec t2) 1000000)\<rparr> in
      if n4_wrap (tv_usec t1 + tv_usec t2) > 1000000 then t3\<lparr>tv_sec := n4_wrap (tv_sec t3 + 1)\<rparr> else t3)"



section \<open>Correctness\<close>

lemma n4_wrap_id: "- (2 ^ 31) \<le> x \<Longrightarrow> x < 2 ^ 31 \<Longrightarrow> n4_wrap x = x"
  by (simp add: n4_wrap_def)

lemma n4_wrap_range: "- (2 ^ 31) \<le> n4_wrap x \<and> n4_wrap x < 2 ^ 31"
proof -
  have "0 \<le> (x + 2 ^ 31) mod 2 ^ 32" "(x + 2 ^ 31) mod 2 ^ 32 < (2 ^ 32 :: int)" by simp_all
  then show ?thesis unfolding n4_wrap_def by simp
qed

lemma n4_wrap_add: "n4_wrap (n4_wrap x + y) = n4_wrap (x + y)"
proof -
  have "n4_wrap x + y + 2 ^ 31 = (x + 2 ^ 31) mod 2 ^ 32 + y" by (simp add: n4_wrap_def)
  then have "(n4_wrap x + y + 2 ^ 31) mod 2 ^ 32 = (x + 2 ^ 31 + y) mod 2 ^ 32" by (simp only: mod_add_left_eq)
  then show ?thesis unfolding n4_wrap_def [of "n4_wrap x + y"] n4_wrap_def [of "x + y"] by (simp add: add_ac)
qed

text \<open>The microseconds since 1970 that a file time stands for.\<close>

definition unix_usec :: "u4 \<times> u4 \<Rightarrow> int" where
  "unix_usec ft = (uint (fst ft) * 2 ^ 32 + uint (snd ft)) div 10 - 11644473600000000"

lemma join_words: "uint (push_bit 32 (ucast a :: u8) OR ucast (b :: u4)) = uint (a :: u4) * 2 ^ 32 + uint b"
proof -
  have d: "push_bit 32 (ucast a :: u8) AND ucast b = 0" by (intro bit_eqI) (auto simp: bit_simps dest: bit_imp_le_length)
  have "push_bit 32 (ucast a :: u8) OR ucast b = push_bit 32 (ucast a) + ucast b" by (rule disjunctive_add_eq_or [OF d, symmetric])
  moreover have "uint a * 2 ^ 32 + uint b < 2 ^ 64" using uint_lt2p [of a] uint_lt2p [of b] by simp
  moreover have "0 \<le> uint a * 2 ^ 32 + uint b" by simp
  ultimately show ?thesis by (simp add: uint_word_ariths push_bit_eq_mult unsigned_ucast_eq take_bit_eq_mod mod_simps)
qed

lemma now_spec:
  assumes "0 \<le> unix_usec ft" "unix_usec ft < 2 ^ 31 * 1000000"
  shows "tv_sec (now ft) = unix_usec ft div 1000000" "tv_usec (now ft) = unix_usec ft mod 1000000"
proof -
  define w where "w = push_bit 32 (ucast (fst ft) :: u8) OR ucast (snd ft)"
  have w: "uint w = uint (fst ft) * 2 ^ 32 + uint (snd ft)" unfolding w_def by (rule join_words)
  have d: "uint (w div 10) = uint w div 10" by (simp add: uint_div)
  have "uint DELTA_EPOCH_IN_MICROSECS \<le> uint (w div 10)" using assms(1) unfolding d w unix_usec_def by (simp add: DELTA_EPOCH_IN_MICROSECS_def)
  then have "uint (w div 10 - DELTA_EPOCH_IN_MICROSECS) = uint (w div 10) - uint DELTA_EPOCH_IN_MICROSECS" by (simp add: uint_sub_lem [THEN iffD1])
  then have u: "uint (w div 10 - DELTA_EPOCH_IN_MICROSECS) = unix_usec ft" unfolding d w unix_usec_def by (simp add: DELTA_EPOCH_IN_MICROSECS_def)
  have n: "now ft = \<lparr>tv_sec = n4_wrap (unix_usec ft div 1000000), tv_usec = n4_wrap (unix_usec ft mod 1000000)\<rparr>"
    unfolding now_def gettimeofday_def Let_def w_def [symmetric] by (simp add: uint_div uint_mod u)
  have "unix_usec ft div 1000000 < 2 ^ 31" using assms(2) by simp
  then show "tv_sec (now ft) = unix_usec ft div 1000000" using assms(1) by (simp add: n n4_wrap_id)
  have "0 \<le> unix_usec ft mod 1000000" "unix_usec ft mod 1000000 < 1000000" by simp_all
  then show "tv_usec (now ft) = unix_usec ft mod 1000000" unfolding n by (simp add: n4_wrap_id)
qed

lemma msec_parts: "(t :: int) div 1000000 * 1000 + t mod 1000000 div 1000 = t div 1000"
proof -
  have "t div 1000000 = t div 1000 div 1000" using zdiv_zmult2_eq [of 1000 t 1000] by simp
  moreover have "t mod 1000000 = 1000 * (t div 1000 mod 1000) + t mod 1000" using zmod_zmult2_eq [of 1000 t 1000] by simp
  then have "t mod 1000000 div 1000 = t div 1000 mod 1000" by simp
  ultimately show ?thesis by simp
qed

lemma n4_wrap_exact: "0 \<le> x \<Longrightarrow> n4_wrap x = x \<longleftrightarrow> x < 2 ^ 31"
  using n4_wrap_id [of x] n4_wrap_range [of x] by auto

text \<open>
  C39. The time in seconds is right until 2038. The time in milliseconds and the one in microseconds are computed in \<open>long\<close>, which has four bytes on
  Windows, and are right exactly in the first 24 days and in the first 35 minutes of 1970.
\<close>

theorem cur_time_bounds:
  assumes "0 \<le> unix_usec ft" "unix_usec ft < 2 ^ 31 * 1000000"
  shows "get_cur_time_sec ft = unix_usec ft div 1000000 \<and>
    (get_cur_time_msec ft = unix_usec ft div 1000 \<longleftrightarrow> unix_usec ft div 1000 < 2 ^ 31) \<and>
    (get_cur_time_usec ft = unix_usec ft \<longleftrightarrow> unix_usec ft < 2 ^ 31)"
proof -
  note n = now_spec [OF assms]
  have "c_div (unix_usec ft mod 1000000) 1000 = unix_usec ft mod 1000000 div 1000" by (simp add: c_div_def sgn_if)
  then have "get_cur_time_msec ft = n4_wrap (unix_usec ft div 1000)" unfolding get_cur_time_msec_def n4_wrap_add n by (simp add: msec_parts)
  moreover have "get_cur_time_usec ft = n4_wrap (unix_usec ft)" unfolding get_cur_time_usec_def n4_wrap_add n by simp
  ultimately show ?thesis using n assms(1) n4_wrap_exact [of "unix_usec ft div 1000"] n4_wrap_exact [of "unix_usec ft"]
    by (simp add: get_cur_time_sec_def)
qed

text \<open>The first second of 2014.\<close>

theorem cur_time_bounds_witness:
  "unix_usec (30344836, 1777516544) = 1388534400000000 \<and> get_cur_time_sec (30344836, 1777516544) = 1388534400 \<and>
   get_cur_time_msec (30344836, 1777516544) \<noteq> 1388534400000"
proof -
  have u: "unix_usec (30344836, 1777516544) = 1388534400000000" by (simp add: unix_usec_def)
  show ?thesis using cur_time_bounds [of "(30344836, 1777516544)"] u by simp
qed

section \<open>The stop watch measures\<close>

lemma floor_diff:
  assumes "(s :: nat) \<le> c" "0 < f"
  shows "(c - s) div f \<le> c div f - s div f" "c div f - s div f \<le> (c - s) div f + 1"
proof -
  have c: "c = s + (c - s)" using assms(1) by simp
  have "c div f = s div f + (c - s) div f + (s mod f + (c - s) mod f) div f" by (subst c) (rule div_add1_eq)
  moreover have "(s mod f + (c - s) mod f) div f \<le> 1"
  proof -
    have "s mod f + (c - s) mod f < 2 * f" using mod_less_divisor [OF assms(2), of s] mod_less_divisor [OF assms(2), of "c - s"] by linarith
    then have "(s mod f + (c - s) mod f) div f < 2" using assms(2) by (simp add: div_less_iff_less_mult)
    then show ?thesis by simp
  qed
  ultimately show "(c - s) div f \<le> c div f - s div f" "c div f - s div f \<le> (c - s) div f + 1" by simp_all
qed

lemma usec_word: "unat c * 1000000 < 2 ^ 64 \<Longrightarrow> unat ((c * 1000000) div f) = unat c * 1000000 div unat f" for c f :: u8
  by (simp add: unat_div unat_mult_lem [THEN iffD1])

text \<open>
  The stop watch measures microseconds: when the counter goes from \<open>s\<close> at the last start or reset to \<open>c\<close> at the last record, the answer
  is the time between them rounded down, or one more, in a number of four bytes. The counter must not have passed the
  limit at which a million times it wraps around.
\<close>

theorem stop_watch_spec:
  assumes f: "clock_ticks p \<noteq> 0" and sc: "s \<le> c" and c: "unat c * 1000000 < 2 ^ 63"
  shows "\<exists>D. time_diff (clock_record c (clock_reset s p)) = Some (of_nat D) \<and>
    (unat c - unat s) * 1000000 div unat (clock_ticks p) \<le> D \<and> D \<le> (unat c - unat s) * 1000000 div unat (clock_ticks p) + 1"
proof -
  let ?f = "clock_ticks p" and ?a = "(c * 1000000) div clock_ticks p" and ?b = "(s * 1000000) div clock_ticks p"
  have sc': "unat s \<le> unat c" using sc by (simp add: word_le_nat_alt)
  then have s: "unat s * 1000000 < 2 ^ 64" and c': "unat c * 1000000 < 2 ^ 64" using c by simp_all
  note ab = usec_word [OF c', of ?f] usec_word [OF s, of ?f]
  have fp: "0 < unat ?f" using f by (simp add: unat_gt_0)
  have le: "?b \<le> ?a" unfolding word_le_nat_alt ab using sc' by (simp add: div_le_mono)
  have "time_diff (clock_record c (clock_reset s p)) = Some (ucast (?a - ?b))"
    using f le by (auto simp: time_diff_def time_diff_usec_def clock_record_def clock_reset_def Let_def)
  moreover have "ucast (?a - ?b) = (of_nat (unat ?a - unat ?b) :: u4)" unfolding unat_sub [OF le, symmetric] by (simp only: of_nat_unat)
  moreover have e: "unat c * 1000000 - unat s * 1000000 = (unat c - unat s) * 1000000" by (simp add: diff_mult_distrib)
  ultimately show ?thesis using floor_diff [OF _ fp, of "unat s * 1000000" "unat c * 1000000"] sc' unfolding ab by auto
qed

theorem stop_watch_spec_witness:
  "\<exists>D. time_diff (clock_record 4500 (clock_reset 1000 (clock_start 0 1000))) = Some (of_nat D) \<and> 3500000 \<le> D \<and> D \<le> 3500001"
  using stop_watch_spec [of "clock_start 0 1000" 1000 4500] by (simp add: clock_start_def)

text \<open>Before \<open>clock_start\<close> the frequency is 0 and \<open>time_diff\<close> divides by it.\<close>

lemma time_diff_unstarted: "time_diff \<lparr>prog_start = 0, prog_cur = 0, clock_ticks = 0\<rparr> = None"
  by (simp add: time_diff_def time_diff_usec_def)

section \<open>Sums and differences\<close>

definition tv_value :: "timeval \<Rightarrow> int" where
  "tv_value t = tv_sec t * 1000000 + tv_usec t"

definition normal :: "timeval \<Rightarrow> bool" where
  "normal t \<longleftrightarrow> 0 \<le> tv_sec t \<and> tv_sec t < 2 ^ 30 \<and> 0 \<le> tv_usec t \<and> tv_usec t < 1000000"

text \<open>
  \<open>timeradd\<close> adds a second for the microseconds that it keeps as well: with a carry the sum is a second too large, and only without one
  it is right.
\<close>

theorem timeradd_value:
  assumes "normal t1" "normal t2"
  shows "tv_value (timeradd t1 t2) = tv_value t1 + tv_value t2 + (if tv_usec t1 + tv_usec t2 > 1000000 then 1000000 else 0)"
proof -
  have "c_rem (tv_usec t2) 1000000 = tv_usec t2" using assms(2) by (simp add: c_rem_def normal_def sgn_if)
  then show ?thesis using assms by (auto simp: timeradd_def Let_def n4_wrap_id normal_def tv_value_def)
qed

theorem timeradd_value_witness:
  "tv_value (timeradd \<lparr>tv_sec = 1, tv_usec = 600000\<rparr> \<lparr>tv_sec = 1, tv_usec = 600000\<rparr>) = 4200000"
  using timeradd_value [of "\<lparr>tv_sec = 1, tv_usec = 600000\<rparr>" "\<lparr>tv_sec = 1, tv_usec = 600000\<rparr>"] by (simp add: normal_def tv_value_def)




end
