(* ===== verification/Lisk_Shm.thy ===== *)
theory Lisk_Shm
  imports Lisk_Prelude
begin

text \<open>
  The shared memory of \<open>win_lisk/src/lisk_shm.c\<close>. The system calls are arguments: \<open>create\<close> is the answer of \<open>CreateFileMapping\<close> for a size and
  an optional name, \<open>view\<close> that of \<open>MapViewOfFile\<close> for a handle (both 0 on failure), \<open>unmap\<close> tells whether \<open>UnmapViewOfFile\<close> succeeds. The
  state of the process is the list of its open handles and of its views.
\<close>

section \<open>Operations\<close>

record shm_t =
  shm_key :: string
  shm_size :: nat
  shm_handle :: u8
  shm_ptr :: u8

record win_objs =
  handles :: "u8 list"
  views :: "u8 list"

definition close_handle :: "u8 \<Rightarrow> win_objs \<Rightarrow> win_objs" where
  "close_handle h w = w\<lparr>handles := remove1 h (handles w)\<rparr>"

text \<open>The key is an array inside the structure and never \<open>nil\<close>; an empty key asks for memory without a name.\<close>

definition get_shm :: "(nat \<Rightarrow> string option \<Rightarrow> u8) \<Rightarrow> (u8 \<Rightarrow> u8) \<Rightarrow> win_objs \<Rightarrow> shm_t option \<Rightarrow> n4 \<times> win_objs \<times> shm_t option" where
  "get_shm create view w shm =
     (case shm of
        None \<Rightarrow> (-1, w, None)
      | Some s \<Rightarrow>
          if shm_size s = 0 then (-1, w, shm)
          else
            (let key_ptr = (if 0 < length (shm_key s) then Some (shm_key s) else None);
                 hd = create (shm_size s) key_ptr in
             if hd = 0 then (-2, w, shm)
             else
               (let w = w\<lparr>handles := hd # handles w\<rparr>;
                    p = view hd in
                if p = 0 then (-2, close_handle hd w, shm)
                else (0, w\<lparr>views := p # views w\<rparr>, Some (s\<lparr>shm_handle := hd, shm_ptr := p\<rparr>)))))"

definition release_shm :: "(u8 \<Rightarrow> bool) \<Rightarrow> win_objs \<Rightarrow> shm_t option \<Rightarrow> win_objs" where
  "release_shm unmap w shm =
     (case shm of
        None \<Rightarrow> w
      | Some s \<Rightarrow>
          if shm_ptr s \<noteq> 0 \<and> unmap (shm_ptr s)
          then
            (let w = w\<lparr>views := remove1 (shm_ptr s) (views w)\<rparr> in
             if shm_handle s \<noteq> 0 then close_handle (shm_handle s) w else w)
          else w)"

section \<open>Nothing is left behind\<close>

text \<open>
  \<open>get_shm\<close> leaves no handle and no view behind on any failure, keeps the structure then, and what it takes on success \<open>release_shm\<close>
  gives back when the view can be unmapped; otherwise the handle stays open too.
\<close>

theorem shm_balance:
  "case get_shm create view w (Some s) of (ret, w', s') \<Rightarrow>
     (if ret = 0 then
        release_shm (\<lambda>_. True) w' s' = w \<and> release_shm (\<lambda>_. False) w' s' = w' \<and>
        (\<exists>h p. h \<noteq> 0 \<and> p \<noteq> 0 \<and> handles w' = h # handles w \<and> views w' = p # views w)
      else w' = w \<and> s' = Some s \<and> (ret = -1 \<longleftrightarrow> shm_size s = 0))"
  by (auto simp: get_shm_def release_shm_def close_handle_def Let_def)

end
