(* ===== verification/Spec2Isabelle.thy ===== *)
theory Spec2Isabelle
  imports Lisk_Math Lisk_Hash Lisk_Ring_Conc Lisk_Deque Lisk_Vector Lisk_Hashtable Lisk_List Lisk_Mul_Hash
    Lisk_Map_Thms Lisk_Skiplist Bloom Lisk_Fsm Lisk_Cstring_Build Lisk_String Lisk_Timer_Thms Lisk_Pool_Thms
    Lisk_Atom Lisk_Clock Lisk_Shm
begin

text \<open>
  Verification of the lisk library, the containers and helpers in C of this repository
  (\<open>src/data_structure-algorithm/win_lisk\<close>), and of its siblings under
  \<open>src/data_structure-algorithm\<close>: the lock-free ring (\<open>ring-buffer/ring4\<close>), the state machine (\<open>fsm\<close>) and the
  Bloom filter (\<open>bloom/c\<close>). Paths below are relative to \<open>src/data_structure-algorithm\<close>.

  \<^bold>\<open>The program.\<close> lisk is a set of C modules, one file each, that share \<open>inc/lisk_type.h\<close> (integer types),
  \<open>inc/lisk_public.h\<close> (macros) and \<open>src/lisk_public.c\<close> (\<open>copy_data\<close>). \<open>lisk_math\<close> and \<open>lisk_hash\<close> compute sizes and hash values:
  the hash tables ask \<open>next_prime\<close> and \<open>get_prime_arr\<close> for their lengths and \<open>bkdr64\<close> for the places of their keys,
  the vector rounds its capacity with \<open>ALIGN_SIZE\<close>. Every container hands out an opaque pointer made by
  its init function; the caller passes it to every operation, with a comparison function where keys are
  ordered, and takes return codes (0, -1 for a bad argument, -2 or -3 for a failure).

  \<^bold>\<open>Conventions of the model.\<close>
  \<^item> An operation is a function on explicit state that returns its result, its return code and the new
    state. \<open>None\<close> is a fault: an access through \<open>nil\<close>, outside an array or block, to freed memory, a
    division by zero, or a loop that does not end. A theorem that gives \<open>Some\<close> therefore includes memory
    safety and termination. There is no fuel: loops are structural recursions, functions with a
    measure, or \<open>partial_function (option)\<close> where the code itself need not stop.
  \<^item> Unsigned values are words where the code computes with them modulo their width (ring counters, hash
    values, CRC, pointers with tag bits), and naturals with the wrapping operations \<open>u4_add\<close>, \<open>u4_sub\<close>, \<open>u4_mul\<close>
    where it only counts (\<open>Lisk_Prelude\<close>). Return codes are integers.
  \<^item> Widths: the project files build for Win32, where pointers, \<open>size_t\<close>, \<open>long\<close> and the macro type \<open>uw\<close> (\<open>unsigned long int\<close>) have four bytes.
    The theories in which these widths decide what the code does take them so: \<open>Lisk_Hash\<close>, \<open>Lisk_Clock\<close>, \<open>Lisk_Map\<close> to \<open>Lisk_Map_Thms\<close>,
    \<open>Lisk_Mem_Pool\<close> to \<open>Lisk_Pool_Thms\<close> and \<open>Lisk_Deque\<close>. The list, whose two magic numbers have 64 bits, the timer over it and the hash tables
    are modelled with pointers of eight bytes; there the width enters only the magic numbers, the pointers that the timer stores in
    its ring and the sizes asked of the allocator.
  \<^item> The environment is a parameter: what \<open>ALLOC\<close> and \<open>REALLOC\<close> answer, the bytes that fresh memory holds,
    the caller's comparison function, the callbacks of the state machine, the values of \<open>rand\<close>, whether the
    system had shared memory. The hypotheses that the theorems put on them are named: \<open>key_order\<close>
    (\<open>Lisk_Order\<close>), \<open>cmp_eq\<close> (\<open>Lisk_Hashtable\<close>), \<open>block_ok\<close> (\<open>Lisk_Map_Thms\<close>), \<open>sl_env_ok\<close> (\<open>Lisk_Skiplist\<close>). Callbacks (handlers and
    judges of the state machine, functions of timers) are pure functions that do not call back into the component. Each
    theorem with a hypothesis is followed by an instance at a concrete input.

  \<^bold>\<open>Shared theories.\<close>
  \<^item> \<open>Lisk_Prelude\<close>: integer types, C arithmetic, blocks of bytes, generic lemmas. \<open>Lisk_Mem\<close>: a heap of byte
    blocks. \<open>Lisk_Public\<close>: the macros and \<open>copy_data\<close> that the components share. \<open>Lisk_Order\<close>: the contract of comparison functions.
  \<^item> \<open>Lisk_Specs\<close>: the interfaces as locales. \<open>fifo\<close>, \<open>bounded_fifo\<close> and \<open>two_ended\<close> are queues (interpreted by the
    ring as \<open>rq\<close> and the deque as \<open>dq\<close>), \<open>dictionary\<close> and \<open>keyed_map\<close> are finite maps with fallible insertion (\<open>hd\<close>: chained
    hash table, \<open>md\<close>: multi-row hash table, \<open>mk\<close>: red-black tree, \<open>sk\<close>: skip list), \<open>approximate_set\<close> is a set without
    false negatives (\<open>bl\<close>: Bloom filter). Each locale proves once that every sequence of operations refines
    the abstract container; the interpretations carry this to the code.

  \<^bold>\<open>Components.\<close>
  \<^item> \<open>Lisk_Math\<close> (\<open>win_lisk/src/lisk_math.c\<close>): primality, next prime, prime array, powers of two, integer power, xor
    swaps, byte order. Correctness against number theory, wrap-around of the signed search, and what
    goes wrong (byte order functions that do nothing, \<open>next_pow_of_2\<close> above \<open>2 ^ 32\<close>).
  \<^item> \<open>Lisk_Hash\<close> (\<open>lisk_hash.c\<close>): \<open>bkdr32\<close>, \<open>bkdr64\<close>, and the table driven \<open>crc32\<close> and \<open>crc64\<close>, equal to bitwise division.
  \<^item> \<open>Lisk_Ring\<close> (\<open>ring4/src/lisk_ring.c\<close> and its copy in \<open>win_lisk\<close>): all pushes and pops at byte level with free running
    32 bit counters; a bounded queue for every sequence of calls. \<open>Lisk_Ring_Conc\<close>: the same code as a step
    relation over shared accesses, one step per load, store, copy or compare-and-swap, for any number
    of threads: linearizability with one producer, and with two a reachable overrun on every ring.
  \<^item> \<open>Lisk_Deque\<close> (\<open>lisk_deque.c\<close>), \<open>Lisk_Vector\<close> (\<open>lisk_vector.c\<close>), \<open>Lisk_List\<close> (\<open>lisk_list.c\<close>): the sequences. Deque blocks live in
    the heap of \<open>Lisk_Mem\<close>, list nodes in a store of addresses with the payload behind the node; each
    operation is the list function it should be and touches nothing else.
  \<^item> \<open>Lisk_Hashtable\<close> (\<open>lisk_hashtable.c\<close>), \<open>Lisk_Mul_Hash\<close> (\<open>lisk_mul_hash.c\<close>): the hash tables, with the incremental move of
    buckets between generations of tables in the former and the rows of ascending prime lengths in the
    latter.
  \<^item> \<open>Lisk_Map\<close> to \<open>Lisk_Map_Thms\<close> (\<open>lisk_map.c\<close>): the red-black tree with parent pointers whose lowest bit is the colour.
    \<open>Lisk_Map\<close> is the code; \<open>Lisk_Rbt\<close> the trees and the rebalancing as recursions on contexts; \<open>Lisk_Map_Rep\<close>
    relates a store to a tree; \<open>Lisk_Map_Insert\<close> and \<open>Lisk_Map_Erase\<close> show that the loops of the code perform these
    recursions; \<open>Lisk_Map_Ops\<close> has the operations on the invariant and \<open>Lisk_Map_Thms\<close> the properties: finite
    map, iteration in both directions, a logarithmic number of comparisons in a search, complete freeing.
  \<^item> \<open>Lisk_Skiplist\<close> (\<open>lisk_skiplist.c\<close>): the skip list; on every level the links are the sorted list of the nodes
    that are tall enough.
  \<^item> \<open>Bloom\<close> (\<open>bloom/c/src/bloom.c\<close>): ten string hashes, the filter and its file format.
  \<^item> \<open>Lisk_Fsm\<close> (\<open>fsm/src/lisk_fsm.c\<close>): table preparation with \<open>qsort\<close> and lookup with \<open>bsearch\<close> (those of glibc, modelled as
    merge sort and bisection), and the run loop against the step relation \<open>fsm_step\<close> of the declared table.
  \<^item> \<open>Lisk_Cstring\<close>, \<open>Lisk_Cstring_Build\<close>, \<open>Lisk_String\<close> (\<open>lisk_string.c\<close>): character classes, trimming and the Horspool search with
    the functions on it; insertion, deletion, replacement and merging in the caller's buffer; the growing string. The search
    equals the naive one, the buffers are never left, and every sequence of operations on a growing string
    refines the same operations on lists.
  \<^item> \<open>Lisk_Timer\<close> to \<open>Lisk_Timer_Thms\<close> (\<open>lisk_timer.c\<close>): a hierarchical timing wheel over the lists of \<open>Lisk_List\<close> and the ring of
    \<open>Lisk_Ring\<close>. \<open>Lisk_Timer\<close> is the code; \<open>Lisk_Timer_Lists\<close> shows the operations on a family of disjoint lists in one
    store and the layout of a timer in bytes; \<open>Lisk_Timer_Wheel\<close> that the hands and the cascades bring every timer
    to the first list before it is due; \<open>Lisk_Timer_Thms\<close> that the histories of calls refine a map of timers.
  \<^item> \<open>Lisk_Mem_Pool\<close> to \<open>Lisk_Pool_Thms\<close> (\<open>lisk_mem_pool.c\<close>): the pool of blocks that are cut into chunks. \<open>Lisk_Mem_Pool\<close> is the code over a
    memory of words that holds the chunk headers and the callers' data alike; \<open>Lisk_Pool_Blocks\<close> relates the headers of a block to
    the list of its chunks and shows what \<open>block_init\<close>, \<open>block_malloc\<close> and \<open>block_free\<close> do to it; \<open>Lisk_Pool_Thms\<close> has the
    properties: a history of calls in which each chunk that is handed out is known to the chunk behind it (\<open>known\<close>) keeps all
    requests apart and their contents in place, and the runs in which a stale link, the count of free bytes or the unit of the
    pointer differences break the pool.
  \<^item> \<open>Lisk_Atom\<close> (\<open>lisk_atom.c\<close>): bit arrays, which refine sets of positions. \<open>Lisk_Clock\<close> (\<open>lisk_clock.c\<close>, \<open>inc/lisk_clock.h\<close>): the time of day, the stop
    watch, and sums and differences of times, with the answers of the system as arguments and \<open>long\<close> at its four bytes on Windows.
    \<open>Lisk_Shm\<close> (\<open>lisk_shm.c\<close>): shared memory over the handles and views of a process; nothing is left behind.

  \<^bold>\<open>Bounds.\<close> Theorems about 32 bit counts assume what the code needs: a deque has a pointer array of two or
  more entries and at most \<open>deque_room\<close> elements at a time, about 2^26 blocks of them, so that the bytes of the array stay below \<open>2 ^ 32\<close>, as do the bytes of a
  vector; a ring has at most \<open>2 ^ 32\<close> bytes; a skip list stays below level 31, above which the code leaves its local array; concurrent runs of the ring have fewer than \<open>2 ^ 32\<close>
  pops where several consumers compare-and-swap; prime searches stay below the square root of the signed 64
  bit range; strings are shorter than \<open>2 ^ 31\<close>; the clock of a timer goes forward by less than \<open>2 ^ 32\<close> ms between two
  loops (a loop less than 10 ms after the last clock does nothing), and the callbacks do not use the timer. Where the code leaves these bounds the failure is a theorem of its own.

  \<^bold>\<open>Not modelled.\<close>
  \<^item> \<open>qsqrt\<close> of \<open>lisk_math.c\<close>: floating point bit tricks. Printing functions (\<open>list_print\<close>, \<open>map_display\<close>, \<open>print_pool_info\<close>): only output.
  \<^item> \<open>str2n4\<close> to \<open>str2f8\<close>, \<open>_is_32\<close>, \<open>_is_64\<close> and the formatting macros of \<open>lisk_string\<close>: calls of \<open>strtoul\<close>, \<open>strtod\<close> and \<open>snprintf\<close>.
  \<^item> \<open>lisk_network\<close>: an event loop over \<open>epoll\<close> that is half edited and cannot be compiled (\<open>event_init\<close> uses variables it does not declare, headers
    are missing). \<open>lisk_sock\<close> and \<open>lisk_log\<close>: one system call or output per function. \<open>msleep\<close> and the time strings of \<open>lisk_clock\<close>: likewise.
  \<^item> \<open>block_queue\<close> and the other ring buffers are C++ or earlier versions; \<open>redis\<close>, \<open>zk-kafka\<close>, \<open>cstl\<close> and \<open>pb\<close> are vendored
    or generated; \<open>sys\<close>, \<open>misc\<close> and \<open>c++11\<close> are exercises on system calls and the language.
\<close>

end
